(* ===== verification/Poby_Prelude.thy ===== *)
theory Poby_Prelude
  imports Main "HOL-Library.Word" "HOL-Library.Multiset"
begin

text \<open>
  The shared base of the development. It holds the outcome type of the modelled C++ code
  (a value, or the fault that ends the process), the arithmetic of \<open>size_t\<close> written out on
  \<open>nat\<close>, the byte images of integers, two contracts that several components share (a pool of
  numbered buffers, and a transition system with an invariant), and the generic list lemmas
  the component proofs use.
\<close>

named_theorems res_simps "rewriting of the outcome combinators"
named_theorems size_simps "size_t arithmetic without wrap-around"

section \<open>Outcomes of C++ code\<close>

text \<open>
  A modelled operation either returns a value or ends the process: a failed \<open>assert\<close>
  (the builds that keep assertions), an access the language leaves undefined (an empty
  \<open>std::optional\<close> or a null pointer dereferenced, \<open>front()\<close> of an empty deque, an
  index past a vector), \<open>std::terminate\<close>, or a \<open>std::length_error\<close> of a vector.
\<close>

datatype fault =
    Assert_failed
  | Undefined_behaviour
  | Terminated
  | Length_error

type_synonym 'a res = "fault + 'a"

definition andThen :: "'a res \<Rightarrow> ('a \<Rightarrow> 'b res) \<Rightarrow> 'b res" where
  "andThen m k = (case m of Inl e \<Rightarrow> Inl e | Inr x \<Rightarrow> k x)"

definition asserting :: "bool \<Rightarrow> 'a res \<Rightarrow> 'a res" where
  "asserting b m = (if b then m else Inl Assert_failed)"

definition defined_if :: "bool \<Rightarrow> 'a res \<Rightarrow> 'a res" where
  "defined_if b m = (if b then m else Inl Undefined_behaviour)"

lemma andThen_Inr [simp, res_simps]: "andThen (Inr x) k = k x"
  by (simp add: andThen_def)

lemma andThen_Inl [simp, res_simps]: "andThen (Inl e) k = Inl e"
  by (simp add: andThen_def)

lemma andThen_eq_Inr [res_simps]:
  "andThen m k = Inr y \<longleftrightarrow> (\<exists>x. m = Inr x \<and> k x = Inr y)"
  by (cases m) auto

lemma andThen_assoc: "andThen (andThen m f) g = andThen m (\<lambda>x. andThen (f x) g)"
  by (cases m) auto

lemma andThen_cong [cong]: "m = n \<Longrightarrow> (\<And>x. n = Inr x \<Longrightarrow> f x = g x) \<Longrightarrow> andThen m f = andThen n g"
  by (cases n) auto

lemma asserting_True [simp]: "asserting True m = m"
  by (simp add: asserting_def)

lemma asserting_False [simp]: "asserting False m = Inl Assert_failed"
  by (simp add: asserting_def)

lemma asserting_eq_Inr [res_simps]: "asserting b m = Inr y \<longleftrightarrow> b \<and> m = Inr y"
  by (simp add: asserting_def)

lemma defined_if_True [simp]: "defined_if True m = m"
  by (simp add: defined_if_def)

lemma defined_if_False [simp]: "defined_if False m = Inl Undefined_behaviour"
  by (simp add: defined_if_def)

lemma defined_if_eq_Inr [res_simps]: "defined_if b m = Inr y \<longleftrightarrow> b \<and> m = Inr y"
  by (simp add: defined_if_def)

text \<open>Running an operation over a list of inputs, stopping at the first fault.\<close>

fun run_all :: "('s \<Rightarrow> 'i \<Rightarrow> 's res) \<Rightarrow> 's \<Rightarrow> 'i list \<Rightarrow> 's res" where
  "run_all f s [] = Inr s"
| "run_all f s (i # is) = andThen (f s i) (\<lambda>s'. run_all f s' is)"

lemma run_all_append:
  "run_all f s (is @ js) = andThen (run_all f s is) (\<lambda>s'. run_all f s' js)"
  by (induction "is" arbitrary: s) (auto simp: andThen_assoc)

lemma run_all_invariant:
  assumes step: "\<And>s i s'. P s \<Longrightarrow> f s i = Inr s' \<Longrightarrow> P s'"
  shows "P s \<Longrightarrow> run_all f s is = Inr s' \<Longrightarrow> P s'"
proof (induction "is" arbitrary: s)
  case Nil
  then show ?case by simp
next
  case (Cons i "is")
  then obtain t where "f s i = Inr t" and "run_all f t is = Inr s'"
    by (auto simp: andThen_eq_Inr)
  with Cons step show ?case by blast
qed

section \<open>Sizes\<close>

text \<open>
  \<open>size_t\<close> is 64 bits wide. Sizes are naturals below \<open>2 ^ 64\<close>; subtraction and addition
  wrap, and an \<open>int\<close> that meets a \<open>size_t\<close> is converted modulo \<open>2 ^ 64\<close>.
  \<open>vector_max\<close> is \<open>max_size()\<close> of a \<open>std::vector\<close> of bytes.
\<close>

definition size_sub :: "nat \<Rightarrow> nat \<Rightarrow> nat" where
  "size_sub a b = (a + 2 ^ 64 - b) mod 2 ^ 64"

definition size_add :: "nat \<Rightarrow> nat \<Rightarrow> nat" where
  "size_add a b = (a + b) mod 2 ^ 64"

definition size_of_int :: "int \<Rightarrow> nat" where
  "size_of_int i = nat (i mod 2 ^ 64)"

definition vector_max :: nat where
  "vector_max = 2 ^ 63 - 1"

lemma size_sub_le [size_simps]: "b \<le> a \<Longrightarrow> a < 2 ^ 64 \<Longrightarrow> size_sub a b = a - b"
proof -
  assume "b \<le> a" and "a < 2 ^ 64"
  then have "a + 2 ^ 64 - b = (a - b) + 2 ^ 64" and "a - b < 2 ^ 64" by simp_all
  then show ?thesis by (simp only: size_sub_def mod_add_self2 mod_less)
qed

lemma size_add_small [size_simps]: "a + b < 2 ^ 64 \<Longrightarrow> size_add a b = a + b"
  by (simp add: size_add_def)

lemma size_of_int_nonneg [size_simps]: "0 \<le> i \<Longrightarrow> i < 2 ^ 64 \<Longrightarrow> size_of_int i = nat i"
  by (simp add: size_of_int_def)

lemma size_of_int_neg [size_simps]:
  assumes "- (2 ^ 64) \<le> i" and "i < 0"
  shows "size_of_int i = nat (i + 2 ^ 64)"
proof -
  have "i mod 2 ^ 64 = (i + 2 ^ 64) mod 2 ^ 64" by simp
  also have "\<dots> = i + 2 ^ 64" using assms by (intro mod_pos_pos_trivial) auto
  finally show ?thesis by (simp add: size_of_int_def)
qed

lemma vector_max_less: "n \<le> vector_max \<Longrightarrow> n < 2 ^ 63"
  by (simp add: vector_max_def)

section \<open>Byte images of integers\<close>

text \<open>
  Every machine of the system is little endian (x86-64 hosts, the AArch64 cores of the DPU),
  so the memory image of a word lists its low byte first. \<open>le_bytes n w\<close> are the first
  \<open>n\<close> bytes of that image, \<open>le_word\<close> reads an image back.
\<close>

type_synonym byte = "8 word"

primrec le_bytes :: "nat \<Rightarrow> 'a::len word \<Rightarrow> byte list" where
  "le_bytes 0 w = []"
| "le_bytes (Suc n) w = ucast w # le_bytes n (drop_bit 8 w)"

primrec le_word :: "byte list \<Rightarrow> 'a::len word" where
  "le_word [] = 0"
| "le_word (b # bs) = or (ucast b) (push_bit 8 (le_word bs))"

lemma le_bytes_numeral:
  "le_bytes (numeral k) w = ucast w # le_bytes (pred_numeral k) (drop_bit 8 w)"
  by (simp add: numeral_eq_Suc)

lemma length_le_bytes [simp]: "length (le_bytes n w) = n"
  by (induction n arbitrary: w) auto

lemma le_word_le_bytes: "le_word (le_bytes n w) = take_bit (8 * n) w"
proof (induction n arbitrary: w)
  case 0
  show ?case by simp
next
  case (Suc n)
  show ?case
    by (rule bit_word_eqI) (auto simp: Suc.IH bit_simps)
qed

lemma le_word_full [simp]:
  fixes w :: "'a::len word"
  shows "LENGTH('a) \<le> 8 * n \<Longrightarrow> le_word (le_bytes n w) = w"
  by (simp add: le_word_le_bytes take_bit_word_eq_self)

lemma le_bytes_le_word:
  assumes "8 * length bs \<le> LENGTH('a::len)"
  shows "le_bytes (length bs) (le_word bs :: 'a word) = bs"
  using assms
proof (induction bs)
  case Nil
  show ?case by simp
next
  case (Cons b bs)
  have head: "ucast (le_word (b # bs) :: 'a word) = b"
    using Cons.prems by (intro bit_word_eqI) (auto simp: bit_simps)
  have "le_word bs = take_bit (8 * length bs) (le_word bs :: 'a word)"
    using Cons le_word_le_bytes [of "length bs" "le_word bs :: 'a word"] by simp
  then have high: "\<not> bit (le_word bs :: 'a word) n" if "8 * length bs \<le> n" for n
    using that by (metis bit_take_bit_iff not_le)
  have "drop_bit 8 (le_word (b # bs) :: 'a word) = le_word bs"
  proof (rule bit_word_eqI)
    fix n assume "n < LENGTH('a)"
    show "bit (drop_bit 8 (le_word (b # bs) :: 'a word)) n = bit (le_word bs :: 'a word) n"
      using Cons.prems high [of n]
      by (cases "8 + n < LENGTH('a)") (auto simp: bit_simps dest: bit_imp_le_length)
  qed
  with Cons head show ?case by simp
qed

lemma le_bytes_inject:
  fixes v w :: "'a::len word"
  assumes "LENGTH('a) \<le> 8 * n"
  shows "le_bytes n v = le_bytes n w \<longleftrightarrow> v = w"
  using assms by (metis le_word_full)

section \<open>Pools of numbered buffers\<close>

text \<open>
  The RDMA connections and the compress engine both number their buffers \<open>0..<n\<close> and keep
  the numbers of the free ones in a container. \<open>pool_split n free held\<close> says that every
  number is either free or held by a client, once.
\<close>

definition pool_split :: "nat \<Rightarrow> nat list \<Rightarrow> nat list \<Rightarrow> bool" where
  "pool_split n free held \<longleftrightarrow> mset free + mset held = mset [0..<n]"

lemma pool_split_distinct:
  assumes "pool_split n free held"
  shows "distinct free" and "distinct held" and "set free \<inter> set held = {}"
proof -
  from assms have "mset (free @ held) = mset [0..<n]" by (simp add: pool_split_def)
  then have "distinct (free @ held)" by (metis distinct_upt mset_eq_imp_distinct_iff)
  then show "distinct free" and "distinct held" and "set free \<inter> set held = {}" by auto
qed

lemma pool_split_bound: "pool_split n free held \<Longrightarrow> i \<in> set free \<union> set held \<Longrightarrow> i < n"
proof -
  assume "pool_split n free held" and i: "i \<in> set free \<union> set held"
  then have "mset (free @ held) = mset [0..<n]" by (simp add: pool_split_def)
  then have "set (free @ held) = set [0..<n]" by (rule mset_eq_setD)
  with i show "i < n" by auto
qed

lemma pool_split_length: "pool_split n free held \<Longrightarrow> length free + length held = n"
  by (metis pool_split_def length_append length_upt minus_nat.diff_0 mset_append size_mset)

lemma pool_split_init: "pool_split n [0..<n] []"
  by (simp add: pool_split_def)

locale id_pool =
  fixes acquire :: "'p \<Rightarrow> (nat \<times> 'p) option"
    and release :: "'p \<Rightarrow> nat \<Rightarrow> 'p"
    and free_ids :: "'p \<Rightarrow> nat list"
  assumes acquire_None: "acquire p = None \<longleftrightarrow> free_ids p = []"
    and acquire_Some: "acquire p = Some (i, p') \<Longrightarrow>
      mset (free_ids p) = add_mset i (mset (free_ids p'))"
    and release_free: "mset (free_ids (release p i)) = add_mset i (mset (free_ids p))"
begin

lemma acquire_split:
  assumes "pool_split n (free_ids p) held" and "acquire p = Some (i, p')"
  shows "pool_split n (free_ids p') (held @ [i])" and "i < n" and "i \<notin> set held"
proof -
  from assms show split: "pool_split n (free_ids p') (held @ [i])"
    by (simp add: pool_split_def acquire_Some)
  from pool_split_bound [OF split] show "i < n" by simp
  from pool_split_distinct(2) [OF split] show "i \<notin> set held" by simp
qed

lemma release_split:
  assumes "pool_split n (free_ids p) (i # held)"
  shows "pool_split n (free_ids (release p i)) held"
  using assms by (simp add: pool_split_def release_free)

lemma acquire_progress:
  assumes "pool_split n (free_ids p) held" and "length held < n"
  obtains i p' where "acquire p = Some (i, p')"
proof -
  from pool_split_length [OF assms(1)] assms(2) have "free_ids p \<noteq> []" by auto
  then obtain x where "acquire p = Some x" using acquire_None by (cases "acquire p") auto
  then show ?thesis using that by (cases x) auto
qed

end

section \<open>Transition systems\<close>

locale invariant_system =
  fixes init :: "'s \<Rightarrow> bool"
    and step :: "'s \<Rightarrow> 's \<Rightarrow> bool"
    and inv :: "'s \<Rightarrow> bool"
  assumes init_inv: "init s \<Longrightarrow> inv s"
    and step_inv: "inv s \<Longrightarrow> step s t \<Longrightarrow> inv t"
begin

lemma steps_inv: "step\<^sup>*\<^sup>* s t \<Longrightarrow> inv s \<Longrightarrow> inv t"
  by (induction rule: rtranclp_induct) (auto intro: step_inv)

lemma reachable_inv: "init s \<Longrightarrow> step\<^sup>*\<^sup>* s t \<Longrightarrow> inv t"
  using init_inv steps_inv by blast

end

section \<open>Lists\<close>

text \<open>Storing a block of bytes at an offset, as \<open>memcpy\<close> and \<open>std::copy\<close> do.\<close>

definition overwrite :: "'a list \<Rightarrow> nat \<Rightarrow> 'a list \<Rightarrow> 'a list" where
  "overwrite xs i ys = take i xs @ ys @ drop (i + length ys) xs"

lemma length_overwrite [simp]: "i + length ys \<le> length xs \<Longrightarrow> length (overwrite xs i ys) = length xs"
  by (simp add: overwrite_def)

lemma take_overwrite [simp]: "i \<le> length xs \<Longrightarrow> take (i + length ys) (overwrite xs i ys) = take i xs @ ys"
  by (simp add: overwrite_def)

lemma drop_overwrite [simp]: "i \<le> length xs \<Longrightarrow> drop i (overwrite xs i ys) = ys @ drop (i + length ys) xs"
  by (simp add: overwrite_def)

lemma take_overwrite_before [simp]: "j \<le> i \<Longrightarrow> i \<le> length xs \<Longrightarrow> take j (overwrite xs i ys) = take j xs"
  by (simp add: overwrite_def min_def)

end
