(* ===== verification/Net_Buffer.thy ===== *)
theory Net_Buffer
  imports Poby_Prelude
begin

text \<open>
  The byte buffer of the TCP layer: \<^verbatim>\<open>src/src/network/utils.h\<close> (byte order),
  \<^verbatim>\<open>src/src/network/tcp/Buffer.h\<close> and \<^verbatim>\<open>Buffer.cc\<close>. A buffer is a vector of bytes with a
  reader and a writer index; the bytes between them are its contents. The lemmas show that
  every operation keeps the indices ordered and refines the operation of a byte queue on the
  contents, and that integers written in network order are read back.
\<close>

section \<open>Byte order (network/utils.h)\<close>

text \<open>The hosts are little endian, so the conversions reverse the bytes of a word.\<close>

definition bswap :: "nat \<Rightarrow> 'a::len word \<Rightarrow> 'a word" where
  "bswap n w = le_word (rev (le_bytes n w))"

definition hostToNetwork64 :: "64 word \<Rightarrow> 64 word" where
  "hostToNetwork64 host64 = bswap 8 host64"

definition hostToNetwork32 :: "32 word \<Rightarrow> 32 word" where
  "hostToNetwork32 host32 = bswap 4 host32"

definition hostToNetwork16 :: "16 word \<Rightarrow> 16 word" where
  "hostToNetwork16 host16 = bswap 2 host16"

definition networkToHost64 :: "64 word \<Rightarrow> 64 word" where
  "networkToHost64 net64 = bswap 8 net64"

definition networkToHost32 :: "32 word \<Rightarrow> 32 word" where
  "networkToHost32 net32 = bswap 4 net32"

definition networkToHost16 :: "16 word \<Rightarrow> 16 word" where
  "networkToHost16 net16 = bswap 2 net16"

lemmas host_order_defs = hostToNetwork64_def hostToNetwork32_def hostToNetwork16_def
  networkToHost64_def networkToHost32_def networkToHost16_def

lemma le_bytes_bswap:
  fixes w :: "'a::len word"
  shows "8 * n \<le> LENGTH('a) \<Longrightarrow> le_bytes n (bswap n w) = rev (le_bytes n w)"
  using le_bytes_le_word [of "rev (le_bytes n w)", where 'a = 'a] by (simp add: bswap_def)

lemma bswap_bswap:
  fixes w :: "'a::len word"
  assumes "LENGTH('a) = 8 * n"
  shows "bswap n (bswap n w) = w"
proof -
  have "bswap n (bswap n w) = le_word (rev (rev (le_bytes n w)))"
    using assms le_bytes_bswap [of n w] by (simp add: bswap_def)
  with assms show ?thesis by simp
qed

lemma networkToHost_hostToNetwork [simp]:
  "networkToHost64 (hostToNetwork64 a) = a"
  "networkToHost32 (hostToNetwork32 b) = b"
  "networkToHost16 (hostToNetwork16 c) = c"
  by (simp_all add: host_order_defs bswap_bswap)

section \<open>The buffer (network/tcp/Buffer.h)\<close>

definition kCheapPrepend :: nat where
  "kCheapPrepend = 8"

definition kInitialSize :: nat where
  "kInitialSize = 1024"

record Buffer =
  buffer :: "byte list"
  readerIndex :: nat
  writerIndex :: nat

definition Buffer_readableBytes :: "Buffer \<Rightarrow> nat" where
  "Buffer_readableBytes b = size_sub (writerIndex b) (readerIndex b)"

definition Buffer_writableBytes :: "Buffer \<Rightarrow> nat" where
  "Buffer_writableBytes b = size_sub (length (buffer b)) (writerIndex b)"

definition Buffer_prependableBytes :: "Buffer \<Rightarrow> nat" where
  "Buffer_prependableBytes b = readerIndex b"

definition vector_resize :: "byte list \<Rightarrow> nat \<Rightarrow> byte list res" where
  "vector_resize v n =
     (if n > vector_max then Inl Length_error
      else Inr (take n v @ replicate (n - length v) 0))"

definition Buffer_new :: "nat \<Rightarrow> Buffer res" where
  "Buffer_new initialSize =
     andThen (vector_resize [] (size_add kCheapPrepend initialSize)) (\<lambda>v.
       let b = \<lparr>buffer = v, readerIndex = kCheapPrepend, writerIndex = kCheapPrepend\<rparr> in
       asserting (Buffer_readableBytes b = 0)
         (asserting (Buffer_writableBytes b = initialSize)
           (asserting (Buffer_prependableBytes b = kCheapPrepend) (Inr b))))"

definition Buffer_swap :: "Buffer \<Rightarrow> Buffer \<Rightarrow> Buffer \<times> Buffer" where
  "Buffer_swap b rhs =
     (b\<lparr>buffer := buffer rhs, readerIndex := readerIndex rhs, writerIndex := writerIndex rhs\<rparr>,
      rhs\<lparr>buffer := buffer b, readerIndex := readerIndex b, writerIndex := writerIndex b\<rparr>)"

text \<open>
  Pointers into the buffer are offsets from \<open>begin()\<close>. \<open>Buffer_bytes b i j\<close> are the bytes
  at offsets \<open>i..<j\<close>.
\<close>

definition Buffer_bytes :: "Buffer \<Rightarrow> nat \<Rightarrow> nat \<Rightarrow> byte list" where
  "Buffer_bytes b i j = take (j - i) (drop i (buffer b))"

definition Buffer_peek :: "Buffer \<Rightarrow> nat" where
  "Buffer_peek b = readerIndex b"

definition Buffer_beginWrite :: "Buffer \<Rightarrow> nat" where
  "Buffer_beginWrite b = writerIndex b"

definition kCRLF :: "byte list" where
  "kCRLF = [13, 10]"

text \<open>\<open>std::search\<close> for a two-byte pattern and \<open>memchr\<close>, as the offset of the first hit.\<close>

fun search_pair :: "byte \<Rightarrow> byte \<Rightarrow> byte list \<Rightarrow> nat option" where
  "search_pair x y (a # b # bs) =
     (if a = x \<and> b = y then Some 0 else map_option Suc (search_pair x y (b # bs)))"
| "search_pair x y bs = None"

fun memchr :: "byte \<Rightarrow> byte list \<Rightarrow> nat option" where
  "memchr x [] = None"
| "memchr x (b # bs) = (if b = x then Some 0 else map_option Suc (memchr x bs))"

definition Buffer_findCRLF :: "Buffer \<Rightarrow> nat option" where
  "Buffer_findCRLF b =
     map_option (\<lambda>k. Buffer_peek b + k)
       (search_pair 13 10 (Buffer_bytes b (Buffer_peek b) (Buffer_beginWrite b)))"

definition Buffer_findCRLF_from :: "Buffer \<Rightarrow> nat \<Rightarrow> nat option res" where
  "Buffer_findCRLF_from b start =
     asserting (Buffer_peek b \<le> start) (asserting (start \<le> Buffer_beginWrite b)
       (Inr (map_option (\<lambda>k. start + k)
         (search_pair 13 10 (Buffer_bytes b start (Buffer_beginWrite b))))))"

definition Buffer_findEOL :: "Buffer \<Rightarrow> nat option" where
  "Buffer_findEOL b =
     map_option (\<lambda>k. Buffer_peek b + k)
       (memchr 10 (take (Buffer_readableBytes b) (drop (Buffer_peek b) (buffer b))))"

definition Buffer_findEOL_from :: "Buffer \<Rightarrow> nat \<Rightarrow> nat option res" where
  "Buffer_findEOL_from b start =
     asserting (Buffer_peek b \<le> start) (asserting (start \<le> Buffer_beginWrite b)
       (Inr (map_option (\<lambda>k. start + k)
         (memchr 10 (Buffer_bytes b start (Buffer_beginWrite b))))))"

definition Buffer_retrieveAll :: "Buffer \<Rightarrow> Buffer" where
  "Buffer_retrieveAll b = b\<lparr>readerIndex := kCheapPrepend, writerIndex := kCheapPrepend\<rparr>"

definition Buffer_retrieve :: "Buffer \<Rightarrow> nat \<Rightarrow> Buffer res" where
  "Buffer_retrieve b len =
     asserting (len \<le> Buffer_readableBytes b)
       (if len < Buffer_readableBytes b
        then Inr (b\<lparr>readerIndex := size_add (readerIndex b) len\<rparr>)
        else Inr (Buffer_retrieveAll b))"

definition Buffer_retrieveUntil :: "Buffer \<Rightarrow> nat \<Rightarrow> Buffer res" where
  "Buffer_retrieveUntil b endp =
     asserting (Buffer_peek b \<le> endp) (asserting (endp \<le> Buffer_beginWrite b)
       (Buffer_retrieve b (endp - Buffer_peek b)))"

definition Buffer_retrieveInt64 :: "Buffer \<Rightarrow> Buffer res" where
  "Buffer_retrieveInt64 b = Buffer_retrieve b 8"

definition Buffer_retrieveInt32 :: "Buffer \<Rightarrow> Buffer res" where
  "Buffer_retrieveInt32 b = Buffer_retrieve b 4"

definition Buffer_retrieveInt16 :: "Buffer \<Rightarrow> Buffer res" where
  "Buffer_retrieveInt16 b = Buffer_retrieve b 2"

definition Buffer_retrieveInt8 :: "Buffer \<Rightarrow> Buffer res" where
  "Buffer_retrieveInt8 b = Buffer_retrieve b 1"

definition Buffer_retrieveAsString :: "Buffer \<Rightarrow> nat \<Rightarrow> (byte list \<times> Buffer) res" where
  "Buffer_retrieveAsString b len =
     asserting (len \<le> Buffer_readableBytes b)
       (let result = take len (drop (Buffer_peek b) (buffer b)) in
        andThen (Buffer_retrieve b len) (\<lambda>b'. Inr (result, b')))"

definition Buffer_retrieveAllAsString :: "Buffer \<Rightarrow> (byte list \<times> Buffer) res" where
  "Buffer_retrieveAllAsString b = Buffer_retrieveAsString b (Buffer_readableBytes b)"

text \<open>
  \<open>toStringPiece\<close> casts the number of readable bytes to \<open>int\<close> and hands it to a
  \<open>string_view\<close>, which takes a \<open>size_t\<close>: a size from \<open>2 ^ 31\<close> on changes.
\<close>

definition Buffer_toStringPiece :: "Buffer \<Rightarrow> nat \<times> nat" where
  "Buffer_toStringPiece b =
     (Buffer_peek b, size_of_int (sint (of_nat (Buffer_readableBytes b) :: 32 word)))"

definition Buffer_makeSpace :: "Buffer \<Rightarrow> nat \<Rightarrow> Buffer res" where
  "Buffer_makeSpace b len =
     (if size_add (Buffer_writableBytes b) (Buffer_prependableBytes b)
           < size_add len kCheapPrepend
      then andThen (vector_resize (buffer b) (size_add (writerIndex b) len))
             (\<lambda>v. Inr (b\<lparr>buffer := v\<rparr>))
      else asserting (kCheapPrepend < readerIndex b)
        (let readable = Buffer_readableBytes b;
             b' = b\<lparr>buffer := overwrite (buffer b) kCheapPrepend
                       (Buffer_bytes b (readerIndex b) (writerIndex b)),
                    readerIndex := kCheapPrepend,
                    writerIndex := size_add kCheapPrepend readable\<rparr>
         in asserting (readable = Buffer_readableBytes b') (Inr b')))"

definition Buffer_ensureWritableBytes :: "Buffer \<Rightarrow> nat \<Rightarrow> Buffer res" where
  "Buffer_ensureWritableBytes b len =
     andThen (if Buffer_writableBytes b < len then Buffer_makeSpace b len else Inr b)
       (\<lambda>b'. asserting (Buffer_writableBytes b' \<ge> len) (Inr b'))"

definition Buffer_hasWritten :: "Buffer \<Rightarrow> nat \<Rightarrow> Buffer res" where
  "Buffer_hasWritten b len =
     asserting (len \<le> Buffer_writableBytes b)
       (Inr (b\<lparr>writerIndex := size_add (writerIndex b) len\<rparr>))"

definition Buffer_unwrite :: "Buffer \<Rightarrow> nat \<Rightarrow> Buffer res" where
  "Buffer_unwrite b len =
     asserting (len \<le> Buffer_readableBytes b)
       (Inr (b\<lparr>writerIndex := size_sub (writerIndex b) len\<rparr>))"

definition Buffer_append :: "Buffer \<Rightarrow> byte list \<Rightarrow> Buffer res" where
  "Buffer_append b data =
     andThen (Buffer_ensureWritableBytes b (length data)) (\<lambda>b'.
       defined_if (Buffer_beginWrite b' + length data \<le> length (buffer b'))
         (Buffer_hasWritten
           (b'\<lparr>buffer := overwrite (buffer b') (Buffer_beginWrite b') data\<rparr>) (length data)))"

definition Buffer_appendInt64 :: "Buffer \<Rightarrow> 64 word \<Rightarrow> Buffer res" where
  "Buffer_appendInt64 b x = Buffer_append b (le_bytes 8 (hostToNetwork64 x))"

definition Buffer_appendInt32 :: "Buffer \<Rightarrow> 32 word \<Rightarrow> Buffer res" where
  "Buffer_appendInt32 b x = Buffer_append b (le_bytes 4 (hostToNetwork32 x))"

definition Buffer_appendInt16 :: "Buffer \<Rightarrow> 16 word \<Rightarrow> Buffer res" where
  "Buffer_appendInt16 b x = Buffer_append b (le_bytes 2 (hostToNetwork16 x))"

definition Buffer_appendInt8 :: "Buffer \<Rightarrow> 8 word \<Rightarrow> Buffer res" where
  "Buffer_appendInt8 b x = Buffer_append b [x]"

definition Buffer_peekInt64 :: "Buffer \<Rightarrow> 64 word res" where
  "Buffer_peekInt64 b =
     asserting (Buffer_readableBytes b \<ge> 8)
       (Inr (networkToHost64 (le_word (take 8 (drop (Buffer_peek b) (buffer b))))))"

definition Buffer_peekInt32 :: "Buffer \<Rightarrow> 32 word res" where
  "Buffer_peekInt32 b =
     asserting (Buffer_readableBytes b \<ge> 4)
       (Inr (networkToHost32 (le_word (take 4 (drop (Buffer_peek b) (buffer b))))))"

definition Buffer_peekInt16 :: "Buffer \<Rightarrow> 16 word res" where
  "Buffer_peekInt16 b =
     asserting (Buffer_readableBytes b \<ge> 2)
       (Inr (networkToHost16 (le_word (take 2 (drop (Buffer_peek b) (buffer b))))))"

definition Buffer_peekInt8 :: "Buffer \<Rightarrow> 8 word res" where
  "Buffer_peekInt8 b =
     asserting (Buffer_readableBytes b \<ge> 1) (Inr (buffer b ! Buffer_peek b))"

definition Buffer_readInt64 :: "Buffer \<Rightarrow> (64 word \<times> Buffer) res" where
  "Buffer_readInt64 b =
     andThen (Buffer_peekInt64 b) (\<lambda>result.
       andThen (Buffer_retrieveInt64 b) (\<lambda>b'. Inr (result, b')))"

definition Buffer_readInt32 :: "Buffer \<Rightarrow> (32 word \<times> Buffer) res" where
  "Buffer_readInt32 b =
     andThen (Buffer_peekInt32 b) (\<lambda>result.
       andThen (Buffer_retrieveInt32 b) (\<lambda>b'. Inr (result, b')))"

definition Buffer_readInt16 :: "Buffer \<Rightarrow> (16 word \<times> Buffer) res" where
  "Buffer_readInt16 b =
     andThen (Buffer_peekInt16 b) (\<lambda>result.
       andThen (Buffer_retrieveInt16 b) (\<lambda>b'. Inr (result, b')))"

definition Buffer_readInt8 :: "Buffer \<Rightarrow> (8 word \<times> Buffer) res" where
  "Buffer_readInt8 b =
     andThen (Buffer_peekInt8 b) (\<lambda>result.
       andThen (Buffer_retrieveInt8 b) (\<lambda>b'. Inr (result, b')))"

definition Buffer_prepend :: "Buffer \<Rightarrow> byte list \<Rightarrow> Buffer res" where
  "Buffer_prepend b data =
     asserting (length data \<le> Buffer_prependableBytes b)
       (let r = size_sub (readerIndex b) (length data) in
        Inr (b\<lparr>readerIndex := r, buffer := overwrite (buffer b) r data\<rparr>))"

definition Buffer_prependInt64 :: "Buffer \<Rightarrow> 64 word \<Rightarrow> Buffer res" where
  "Buffer_prependInt64 b x = Buffer_prepend b (le_bytes 8 (hostToNetwork64 x))"

definition Buffer_prependInt32 :: "Buffer \<Rightarrow> 32 word \<Rightarrow> Buffer res" where
  "Buffer_prependInt32 b x = Buffer_prepend b (le_bytes 4 (hostToNetwork32 x))"

definition Buffer_prependInt16 :: "Buffer \<Rightarrow> 16 word \<Rightarrow> Buffer res" where
  "Buffer_prependInt16 b x = Buffer_prepend b (le_bytes 2 (hostToNetwork16 x))"

definition Buffer_prependInt8 :: "Buffer \<Rightarrow> 8 word \<Rightarrow> Buffer res" where
  "Buffer_prependInt8 b x = Buffer_prepend b [x]"

text \<open>
  \<open>append\<close> of \<open>len\<close> bytes from the position \<open>p\<close> of another vector: the size is tested before
  the bytes are read.
\<close>

definition Buffer_append_from :: "Buffer \<Rightarrow> byte list \<Rightarrow> nat \<Rightarrow> nat \<Rightarrow> Buffer res" where
  "Buffer_append_from b v p len =
     andThen (Buffer_ensureWritableBytes b len) (\<lambda>b'.
       defined_if (p + len \<le> length v \<and> Buffer_beginWrite b' + len \<le> length (buffer b'))
         (Buffer_hasWritten (b'\<lparr>buffer := overwrite (buffer b') (Buffer_beginWrite b')
            (take len (drop p v))\<rparr>) len))"

definition Buffer_shrink :: "Buffer \<Rightarrow> nat \<Rightarrow> Buffer res" where
  "Buffer_shrink b reserve =
     andThen (Buffer_new kInitialSize) (\<lambda>other.
       andThen (Buffer_ensureWritableBytes other (size_add (Buffer_readableBytes b) reserve))
         (\<lambda>other'. case Buffer_toStringPiece b of (p, n) \<Rightarrow>
           andThen (Buffer_append_from other' (buffer b) p n) (\<lambda>other''.
             Inr (fst (Buffer_swap b other'')))))"

text \<open>
  \<open>readFd\<close> hands \<open>readv\<close> the writable part of the buffer and, when that is smaller than
  64 KiB, a stack buffer of 64 KiB. \<open>rd\<close> is the outcome of \<open>readv\<close>: an error number, or the
  bytes it stored, of which the first \<open>writable\<close> went to the buffer. The result is the
  return value and the saved error number.
\<close>

definition extrabuf_size :: nat where
  "extrabuf_size = 65536"

definition Buffer_readFd_capacity :: "Buffer \<Rightarrow> nat" where
  "Buffer_readFd_capacity b =
     (let writable = Buffer_writableBytes b in
      if writable < extrabuf_size then writable + extrabuf_size else writable)"

definition Buffer_readFd :: "Buffer \<Rightarrow> int + byte list \<Rightarrow> (int \<times> int option \<times> Buffer) res" where
  "Buffer_readFd b rd =
     (let writable = Buffer_writableBytes b in
      case rd of
        Inl err \<Rightarrow> Inr (- 1, Some err, b)
      | Inr bs \<Rightarrow>
          (let stored = b\<lparr>buffer := overwrite (buffer b) (writerIndex b) (take writable bs)\<rparr> in
           if length bs \<le> writable
           then Inr (int (length bs), None,
                  stored\<lparr>writerIndex := size_add (writerIndex b) (length bs)\<rparr>)
           else andThen (Buffer_append (stored\<lparr>writerIndex := length (buffer b)\<rparr>)
                  (drop writable bs)) (\<lambda>b'. Inr (int (length bs), None, b'))))"

section \<open>Well-formed buffers and their contents\<close>

definition Buffer_wf :: "Buffer \<Rightarrow> bool" where
  "Buffer_wf b \<longleftrightarrow> readerIndex b \<le> writerIndex b \<and> writerIndex b \<le> length (buffer b)
     \<and> kCheapPrepend \<le> length (buffer b) \<and> length (buffer b) \<le> vector_max"

definition Buffer_content :: "Buffer \<Rightarrow> byte list" where
  "Buffer_content b = take (writerIndex b - readerIndex b) (drop (readerIndex b) (buffer b))"

lemma Buffer_wfD:
  assumes "Buffer_wf b"
  shows "readerIndex b \<le> writerIndex b" and "writerIndex b \<le> length (buffer b)"
    and "kCheapPrepend \<le> length (buffer b)" and "length (buffer b) < 2 ^ 63"
    and "readerIndex b < 2 ^ 63" and "writerIndex b < 2 ^ 63"
  using assms vector_max_less [of "length (buffer b)"] by (auto simp: Buffer_wf_def)

lemma length_Buffer_content [simp]:
  "Buffer_wf b \<Longrightarrow> length (Buffer_content b) = writerIndex b - readerIndex b"
  using Buffer_wfD(1,2) [of b] by (simp add: Buffer_content_def)

lemma readableBytes_wf [simp]: "Buffer_wf b \<Longrightarrow> Buffer_readableBytes b = length (Buffer_content b)"
  using Buffer_wfD [of b] by (simp add: Buffer_readableBytes_def size_sub_le)

lemma writableBytes_wf: "Buffer_wf b \<Longrightarrow> Buffer_writableBytes b = length (buffer b) - writerIndex b"
  using Buffer_wfD [of b] by (simp add: Buffer_writableBytes_def size_sub_le)

lemma peek_take_wf:
  assumes "Buffer_wf b" and "n \<le> length (Buffer_content b)"
  shows "take n (drop (Buffer_peek b) (buffer b)) = take n (Buffer_content b)"
proof -
  from assms have "n \<le> writerIndex b - readerIndex b" by simp
  then show ?thesis by (simp add: Buffer_content_def Buffer_peek_def min_def)
qed

lemma Buffer_bytes_content: "Buffer_bytes b (readerIndex b) (writerIndex b) = Buffer_content b"
  by (simp add: Buffer_bytes_def Buffer_content_def)

lemma Buffer_new_ok:
  assumes "n + kCheapPrepend \<le> vector_max"
  obtains b where "Buffer_new n = Inr b" and "Buffer_wf b" and "Buffer_content b = []"
    and "length (buffer b) = n + kCheapPrepend" and "writerIndex b = kCheapPrepend"
proof -
  let ?b = "\<lparr>buffer = replicate (n + kCheapPrepend) 0, readerIndex = kCheapPrepend,
              writerIndex = kCheapPrepend\<rparr>"
  have small: "n + kCheapPrepend < 2 ^ 63" using assms vector_max_less by blast
  have wf: "Buffer_wf ?b" using assms by (simp add: Buffer_wf_def)
  moreover have "Buffer_content ?b = []" by (simp add: Buffer_content_def)
  moreover from this wf have "Buffer_new n = Inr ?b"
    using small assms
    by (simp add: Buffer_new_def vector_resize_def size_add_small add.commute writableBytes_wf
        Buffer_prependableBytes_def)
  ultimately show ?thesis using that by simp
qed

section \<open>Every operation refines a byte queue\<close>

lemma Buffer_retrieveAll_ok [simp]:
  "Buffer_wf b \<Longrightarrow> Buffer_wf (Buffer_retrieveAll b) \<and> Buffer_content (Buffer_retrieveAll b) = []"
  by (simp add: Buffer_wf_def Buffer_content_def Buffer_retrieveAll_def)

lemma Buffer_retrieve_ok:
  assumes wf: "Buffer_wf b" and len: "len \<le> length (Buffer_content b)"
  obtains b' where "Buffer_retrieve b len = Inr b'" and "Buffer_wf b'"
    and "Buffer_content b' = drop len (Buffer_content b)"
    and "buffer b' = buffer b" and "writerIndex b' \<le> max (writerIndex b) kCheapPrepend"
proof (cases "len < length (Buffer_content b)")
  case True
  let ?b = "b\<lparr>readerIndex := readerIndex b + len\<rparr>"
  have sum: "size_add (readerIndex b) len = readerIndex b + len"
    using True wf Buffer_wfD [OF wf] by (intro size_add_small) auto
  have "Buffer_wf ?b" using True wf by (auto simp: Buffer_wf_def)
  moreover have "Buffer_content ?b = drop len (Buffer_content b)"
    by (simp add: Buffer_content_def drop_take add.commute)
  moreover have "Buffer_retrieve b len = Inr ?b"
    using True wf sum by (simp add: Buffer_retrieve_def)
  ultimately show ?thesis using that by simp
next
  case False
  with len have "len = length (Buffer_content b)" by simp
  with wf have "Buffer_retrieve b len = Inr (Buffer_retrieveAll b)"
    by (simp add: Buffer_retrieve_def)
  moreover have "drop len (Buffer_content b) = []" using False by simp
  ultimately show ?thesis
    using that [of "Buffer_retrieveAll b"] wf Buffer_retrieveAll_ok [OF wf]
    by (simp add: Buffer_retrieveAll_def)
qed

lemma Buffer_retrieve_fails: "Buffer_wf b \<Longrightarrow> length (Buffer_content b) < len \<Longrightarrow>
    Buffer_retrieve b len = Inl Assert_failed"
  by (simp add: Buffer_retrieve_def)

lemma Buffer_unwrite_ok:
  assumes wf: "Buffer_wf b" and len: "len \<le> length (Buffer_content b)"
  obtains b' where "Buffer_unwrite b len = Inr b'" and "Buffer_wf b'"
    and "Buffer_content b' = take (length (Buffer_content b) - len) (Buffer_content b)"
proof -
  let ?b = "b\<lparr>writerIndex := writerIndex b - len\<rparr>"
  have "Buffer_wf ?b" using assms by (auto simp: Buffer_wf_def)
  moreover have "Buffer_content ?b = take (length (Buffer_content b) - len) (Buffer_content b)"
  proof -
    have "length (Buffer_content b) - len = writerIndex b - len - readerIndex b"
      using wf by simp
    then show ?thesis by (simp add: Buffer_content_def min_def)
  qed
  moreover have "Buffer_unwrite b len = Inr ?b"
    using assms Buffer_wfD [OF wf] by (simp add: Buffer_unwrite_def size_sub_le)
  ultimately show ?thesis using that by simp
qed

lemma Buffer_prepend_ok:
  assumes wf: "Buffer_wf b" and len: "length data \<le> readerIndex b"
  obtains b' where "Buffer_prepend b data = Inr b'" and "Buffer_wf b'"
    and "Buffer_content b' = data @ Buffer_content b"
proof -
  let ?r = "readerIndex b - length data"
  let ?b = "b\<lparr>readerIndex := ?r, buffer := overwrite (buffer b) ?r data\<rparr>"
  have r: "?r + length data = readerIndex b" using len by simp
  have "Buffer_wf ?b" using assms by (auto simp: Buffer_wf_def)
  moreover have "Buffer_content ?b = data @ Buffer_content b"
    using Buffer_wfD [OF wf] r by (simp add: Buffer_content_def)
  moreover have "Buffer_prepend b data = Inr ?b"
    using assms Buffer_wfD [OF wf]
    by (simp add: Buffer_prepend_def Buffer_prependableBytes_def size_sub_le Let_def)
  ultimately show ?thesis using that by simp
qed

text \<open>
  There is room for \<open>len\<close> more bytes when the vector can grow to hold them, or when they
  fit once the contents move to the front.
\<close>

definition Buffer_room :: "Buffer \<Rightarrow> nat \<Rightarrow> bool" where
  "Buffer_room b len \<longleftrightarrow> len \<le> vector_max \<and> (writerIndex b + len \<le> vector_max
     \<or> len + kCheapPrepend \<le> length (buffer b) - writerIndex b + readerIndex b)"

lemma Buffer_makeSpace_ok:
  assumes wf: "Buffer_wf b" and short: "length (buffer b) - writerIndex b < len"
    and room: "Buffer_room b len"
  obtains b' where "Buffer_makeSpace b len = Inr b'" and "Buffer_wf b'"
    and "Buffer_content b' = Buffer_content b" and "writerIndex b' + len \<le> length (buffer b')"
    and "writerIndex b' \<le> writerIndex b"
proof -
  note bounds = Buffer_wfD [OF wf]
  have len: "len < 2 ^ 63" using room vector_max_less by (auto simp: Buffer_room_def)
  have lhs: "size_add (Buffer_writableBytes b) (Buffer_prependableBytes b)
      = length (buffer b) - writerIndex b + readerIndex b"
    using bounds wf by (simp add: writableBytes_wf Buffer_prependableBytes_def size_add_small)
  have rhs: "size_add len kCheapPrepend = len + kCheapPrepend"
    using len by (simp add: size_add_small kCheapPrepend_def)
  have resize: "size_add (writerIndex b) len = writerIndex b + len"
    using len bounds by (simp add: size_add_small)
  show ?thesis
  proof (cases "length (buffer b) - writerIndex b + readerIndex b < len + kCheapPrepend")
    case True
    with room have fits: "writerIndex b + len \<le> vector_max" by (auto simp: Buffer_room_def)
    let ?b = "b\<lparr>buffer := buffer b @ replicate (writerIndex b + len - length (buffer b)) 0\<rparr>"
    have grown: "length (buffer ?b) = writerIndex b + len" using short bounds by simp
    moreover have "Buffer_wf ?b" using wf fits bounds short by (simp add: Buffer_wf_def)
    moreover have "Buffer_content ?b = Buffer_content b"
      using bounds by (simp add: Buffer_content_def)
    moreover have "Buffer_makeSpace b len = Inr ?b"
      using True lhs rhs resize fits short bounds
      by (simp add: Buffer_makeSpace_def vector_resize_def)
    ultimately show ?thesis using that by simp
  next
    case False
    with short have moved: "kCheapPrepend < readerIndex b" by linarith
    let ?c = "Buffer_content b"
    let ?b = "b\<lparr>buffer := overwrite (buffer b) kCheapPrepend ?c,
                readerIndex := kCheapPrepend, writerIndex := kCheapPrepend + length ?c\<rparr>"
    have fit: "kCheapPrepend + length ?c \<le> length (buffer b)" using wf moved bounds by simp
    then have "Buffer_wf ?b"
      using bounds wf by (simp add: Buffer_wf_def del: length_Buffer_content)
    moreover have "Buffer_content ?b = ?c" using bounds by (simp add: Buffer_content_def)
    moreover have "size_add kCheapPrepend (length ?c) = kCheapPrepend + length ?c"
      using fit bounds by (simp add: size_add_small)
    moreover have "writerIndex ?b + len \<le> length (buffer ?b)"
      using False moved bounds wf fit by simp
    moreover have "Buffer_makeSpace b len = Inr ?b"
      using False lhs rhs moved wf calculation
      by (simp add: Buffer_makeSpace_def Buffer_bytes_content Let_def)
    ultimately show ?thesis using that moved wf bounds by simp
  qed
qed

lemma Buffer_ensureWritableBytes_ok:
  assumes wf: "Buffer_wf b" and room: "Buffer_room b len"
  obtains b' where "Buffer_ensureWritableBytes b len = Inr b'" and "Buffer_wf b'"
    and "Buffer_content b' = Buffer_content b" and "writerIndex b' + len \<le> length (buffer b')"
    and "writerIndex b' \<le> writerIndex b"
proof (cases "length (buffer b) - writerIndex b < len")
  case True
  from Buffer_makeSpace_ok [OF wf True room] obtain b'
    where b': "Buffer_makeSpace b len = Inr b'" "Buffer_wf b'"
      "Buffer_content b' = Buffer_content b" "writerIndex b' + len \<le> length (buffer b')"
      "writerIndex b' \<le> writerIndex b" by blast
  then have "Buffer_ensureWritableBytes b len = Inr b'"
    using True wf by (simp add: Buffer_ensureWritableBytes_def writableBytes_wf asserting_def)
  with b' show ?thesis using that by blast
next
  case False
  with wf have "Buffer_ensureWritableBytes b len = Inr b"
    by (simp add: Buffer_ensureWritableBytes_def writableBytes_wf)
  with wf False show ?thesis using that [of b] Buffer_wfD [OF wf] by simp
qed

lemma Buffer_append_ok:
  assumes wf: "Buffer_wf b" and room: "Buffer_room b (length data)"
  obtains b' where "Buffer_append b data = Inr b'" and "Buffer_wf b'"
    and "Buffer_content b' = Buffer_content b @ data"
    and "writerIndex b' \<le> writerIndex b + length data"
proof -
  from Buffer_ensureWritableBytes_ok [OF assms] obtain e
    where e: "Buffer_ensureWritableBytes b (length data) = Inr e" "Buffer_wf e"
      "Buffer_content e = Buffer_content b" "writerIndex e + length data \<le> length (buffer e)"
      "writerIndex e \<le> writerIndex b" by blast
  note bounds = Buffer_wfD [OF e(2)]
  let ?d = "e\<lparr>buffer := overwrite (buffer e) (writerIndex e) data\<rparr>"
  let ?b = "?d\<lparr>writerIndex := writerIndex e + length data\<rparr>"
  have "size_add (writerIndex e) (length data) = writerIndex e + length data"
    using e(4) bounds by (simp add: size_add_small)
  moreover have "Buffer_wf ?d" and wf': "Buffer_wf ?b"
    using e(2,4) by (auto simp: Buffer_wf_def)
  ultimately have run: "Buffer_append b data = Inr ?b"
    using e by (simp add: Buffer_append_def Buffer_beginWrite_def Buffer_hasWritten_def
        writableBytes_wf asserting_def)
  have "Buffer_content ?b = take (writerIndex e + length data - readerIndex e)
      (drop (readerIndex e) (overwrite (buffer e) (writerIndex e) data))"
    by (simp add: Buffer_content_def)
  also have "\<dots> = drop (readerIndex e) (take (writerIndex e + length data)
      (overwrite (buffer e) (writerIndex e) data))"
    by (simp add: drop_take)
  also have "\<dots> = Buffer_content b @ data"
    using bounds e(3) by (simp add: Buffer_content_def drop_take [symmetric])
  finally show ?thesis using that run wf' e(5) by simp
qed

lemma Buffer_ensureWritableBytes_fails:
  assumes wf: "Buffer_wf b" and small: "len \<le> vector_max" and full: "\<not> Buffer_room b len"
  shows "Buffer_ensureWritableBytes b len = Inl Length_error"
proof -
  note bounds = Buffer_wfD [OF wf] and len = vector_max_less [OF small]
  from full small have big: "vector_max < writerIndex b + len"
    and total: "length (buffer b) - writerIndex b + readerIndex b < len + kCheapPrepend"
    by (auto simp: Buffer_room_def)
  have "size_add (length (buffer b) - writerIndex b) (readerIndex b) < size_add len kCheapPrepend"
    using bounds len total by (simp add: size_add_small kCheapPrepend_def)
  moreover have "size_add (writerIndex b) len = writerIndex b + len"
    using bounds len by (simp add: size_add_small)
  moreover have "length (buffer b) - writerIndex b < len"
    using wf big bounds by (auto simp: Buffer_wf_def)
  ultimately show ?thesis
    using wf big by (simp add: Buffer_ensureWritableBytes_def writableBytes_wf
        Buffer_makeSpace_def Buffer_prependableBytes_def vector_resize_def)
qed

lemma Buffer_append_fails:
  assumes "Buffer_wf b" and "length data \<le> vector_max" and "\<not> Buffer_room b (length data)"
  shows "Buffer_append b data = Inl Length_error"
  using Buffer_ensureWritableBytes_fails [OF assms] by (simp add: Buffer_append_def)

lemma Buffer_append_Inr:
  assumes "Buffer_wf b" and "length data \<le> vector_max" and "Buffer_append b data = Inr b'"
  shows "Buffer_wf b'" and "Buffer_content b' = Buffer_content b @ data"
proof -
  have "Buffer_room b (length data)" using Buffer_append_fails assms by force
  from Buffer_append_ok [OF assms(1) this] assms(3)
  show "Buffer_wf b'" and "Buffer_content b' = Buffer_content b @ data" by auto
qed

text \<open>
  Reading from a descriptor appends what \<open>readv\<close> stored: the part that went into the
  buffer, then the part that went to the stack buffer.
\<close>

lemma Buffer_readFd_split:
  assumes wf: "Buffer_wf b"
  obtains s where "Buffer_wf s"
    and "Buffer_content s = Buffer_content b @ take (length (buffer b) - writerIndex b) bs"
    and "writerIndex s \<le> length (buffer b)" and "length (buffer s) = length (buffer b)"
    and "writerIndex s = writerIndex b + length (take (length (buffer b) - writerIndex b) bs)"
    and "Buffer_readFd b (Inr bs) =
      (if length bs \<le> length (buffer b) - writerIndex b then Inr (int (length bs), None, s)
       else andThen (Buffer_append s (drop (length (buffer b) - writerIndex b) bs))
              (\<lambda>b'. Inr (int (length bs), None, b')))"
proof -
  note bounds = Buffer_wfD [OF wf]
  let ?w = "length (buffer b) - writerIndex b"
  let ?n = "writerIndex b + length (take ?w bs)"
  let ?s = "b\<lparr>buffer := overwrite (buffer b) (writerIndex b) (take ?w bs), writerIndex := ?n\<rparr>"
  have len: "?n \<le> length (buffer b)" using bounds by simp
  then have wf': "Buffer_wf ?s" using wf by (auto simp: Buffer_wf_def simp del: length_take)
  have "take ?n (buffer ?s) = take (writerIndex b) (buffer b) @ take ?w bs"
    using bounds take_overwrite [of "writerIndex b" "buffer b" "take ?w bs"]
    by (simp del: length_take)
  then have content: "Buffer_content ?s = Buffer_content b @ take ?w bs"
    using bounds by (simp add: Buffer_content_def drop_take [symmetric] del: length_take)
       (simp add: drop_take)
  have "size_add (writerIndex b) (length bs) = writerIndex b + length bs" if "length bs \<le> ?w"
    using that bounds by (simp add: size_add_small)
  then have "Buffer_readFd b (Inr bs) =
      (if length bs \<le> ?w then Inr (int (length bs), None, ?s)
       else andThen (Buffer_append ?s (drop ?w bs)) (\<lambda>b'. Inr (int (length bs), None, b')))"
    using wf bounds by (simp add: Buffer_readFd_def writableBytes_wf Let_def)
  with wf' content len show ?thesis using that [of ?s] by simp
qed

lemma Buffer_readFd_ok:
  assumes wf: "Buffer_wf b" and fits: "length (buffer b) + length bs \<le> vector_max"
  obtains b' where "Buffer_readFd b (Inr bs) = Inr (int (length bs), None, b')"
    and "Buffer_wf b'" and "Buffer_content b' = Buffer_content b @ bs"
proof -
  let ?w = "length (buffer b) - writerIndex b"
  from Buffer_readFd_split [OF wf, of bs] obtain s where s: "Buffer_wf s"
    "Buffer_content s = Buffer_content b @ take ?w bs" "writerIndex s \<le> length (buffer b)"
    "Buffer_readFd b (Inr bs) = (if length bs \<le> ?w then Inr (int (length bs), None, s)
       else andThen (Buffer_append s (drop ?w bs)) (\<lambda>b'. Inr (int (length bs), None, b')))"
    by blast
  show ?thesis
  proof (cases "length bs \<le> ?w")
    case True
    with s that show ?thesis by simp
  next
    case False
    have "Buffer_room s (length (drop ?w bs))" using s(3) fits by (auto simp: Buffer_room_def)
    from Buffer_append_ok [OF s(1) this] obtain c where "Buffer_append s (drop ?w bs) = Inr c"
      "Buffer_wf c" "Buffer_content c = Buffer_content s @ drop ?w bs" by blast
    with False s that show ?thesis by simp
  qed
qed

lemma Buffer_readFd_Inr:
  assumes wf: "Buffer_wf b" and small: "length bs \<le> vector_max"
    and run: "Buffer_readFd b (Inr bs) = Inr (n, e, b')"
  shows "Buffer_wf b'" and "Buffer_content b' = Buffer_content b @ bs"
    and "n = int (length bs)"
proof -
  let ?w = "length (buffer b) - writerIndex b"
  from Buffer_readFd_split [OF wf, of bs] obtain s where s: "Buffer_wf s"
    "Buffer_content s = Buffer_content b @ take ?w bs"
    "Buffer_readFd b (Inr bs) = (if length bs \<le> ?w then Inr (int (length bs), None, s)
       else andThen (Buffer_append s (drop ?w bs)) (\<lambda>b'. Inr (int (length bs), None, b')))"
    by blast
  have "Buffer_wf b' \<and> Buffer_content b' = Buffer_content b @ bs \<and> n = int (length bs)"
  proof (cases "length bs \<le> ?w")
    case True
    with run s show ?thesis by simp
  next
    case False
    with run s(3) have app: "Buffer_append s (drop ?w bs) = Inr b'" and "n = int (length bs)"
      by (auto simp: andThen_eq_Inr)
    with Buffer_append_Inr [OF s(1) _ app] small s(2) show ?thesis by simp
  qed
  then show "Buffer_wf b'" and "Buffer_content b' = Buffer_content b @ bs"
    and "n = int (length bs)" by auto
qed

section \<open>Integers in network order\<close>

lemma take_append_exact: "length xs = n \<Longrightarrow> take n (xs @ ys) = xs"
  by simp

lemma Buffer_readInt32_content:
  assumes wf: "Buffer_wf b" and c: "Buffer_content b = le_bytes 4 (hostToNetwork32 x) @ rest"
  obtains b' where "Buffer_peekInt32 b = Inr x" and "Buffer_readInt32 b = Inr (x, b')"
    and "Buffer_wf b'" and "Buffer_content b' = rest"
    and "buffer b' = buffer b" and "writerIndex b' \<le> max (writerIndex b) kCheapPrepend"
proof -
  have len: "4 \<le> length (Buffer_content b)" using c by simp
  have "take 4 (drop (Buffer_peek b) (buffer b)) = le_bytes 4 (hostToNetwork32 x)"
    unfolding peek_take_wf [OF wf len] c by (rule take_append_exact) simp
  then have p: "Buffer_peekInt32 b = Inr x" using wf len
    by (simp add: Buffer_peekInt32_def del: length_Buffer_content)
  from Buffer_retrieve_ok [OF wf len] obtain b' where "Buffer_retrieve b 4 = Inr b'"
    "Buffer_wf b'" "Buffer_content b' = rest" "buffer b' = buffer b"
    "writerIndex b' \<le> max (writerIndex b) kCheapPrepend" using c by auto
  with p that show ?thesis by (simp add: Buffer_readInt32_def Buffer_retrieveInt32_def)
qed

lemma Buffer_readInt64_content:
  assumes wf: "Buffer_wf b" and c: "Buffer_content b = le_bytes 8 (hostToNetwork64 x) @ rest"
  obtains b' where "Buffer_readInt64 b = Inr (x, b')" and "Buffer_wf b'"
    and "Buffer_content b' = rest"
proof -
  have len: "8 \<le> length (Buffer_content b)" using c by simp
  have "take 8 (drop (Buffer_peek b) (buffer b)) = le_bytes 8 (hostToNetwork64 x)"
    unfolding peek_take_wf [OF wf len] c by (rule take_append_exact) simp
  then have p: "Buffer_peekInt64 b = Inr x" using wf len
    by (simp add: Buffer_peekInt64_def del: length_Buffer_content)
  from Buffer_retrieve_ok [OF wf len] obtain b' where "Buffer_retrieve b 8 = Inr b'"
    "Buffer_wf b'" "Buffer_content b' = rest" using c by auto
  with p that show ?thesis by (simp add: Buffer_readInt64_def Buffer_retrieveInt64_def)
qed

lemma Buffer_readInt16_content:
  assumes wf: "Buffer_wf b" and c: "Buffer_content b = le_bytes 2 (hostToNetwork16 x) @ rest"
  obtains b' where "Buffer_readInt16 b = Inr (x, b')" and "Buffer_wf b'"
    and "Buffer_content b' = rest"
proof -
  have len: "2 \<le> length (Buffer_content b)" using c by simp
  have "take 2 (drop (Buffer_peek b) (buffer b)) = le_bytes 2 (hostToNetwork16 x)"
    unfolding peek_take_wf [OF wf len] c by (rule take_append_exact) simp
  then have p: "Buffer_peekInt16 b = Inr x" using wf len
    by (simp add: Buffer_peekInt16_def del: length_Buffer_content)
  from Buffer_retrieve_ok [OF wf len] obtain b' where "Buffer_retrieve b 2 = Inr b'"
    "Buffer_wf b'" "Buffer_content b' = rest" using c by auto
  with p that show ?thesis by (simp add: Buffer_readInt16_def Buffer_retrieveInt16_def)
qed

lemma Buffer_peekInt8_content:
  assumes wf: "Buffer_wf b" and c: "Buffer_content b = x # rest"
  shows "Buffer_peekInt8 b = Inr x"
proof -
  have len: "1 \<le> length (Buffer_content b)" using c by simp
  with wf have "buffer b ! Buffer_peek b = hd (take 1 (drop (Buffer_peek b) (buffer b)))"
    using Buffer_wfD [OF wf] by (simp add: Buffer_peek_def hd_drop_conv_nth)
  also have "\<dots> = x" unfolding peek_take_wf [OF wf len] c by simp
  finally show ?thesis using wf len by (simp add: Buffer_peekInt8_def del: length_Buffer_content)
qed

lemma Buffer_readInt8_content:
  assumes wf: "Buffer_wf b" and c: "Buffer_content b = x # rest"
  obtains b' where "Buffer_readInt8 b = Inr (x, b')" and "Buffer_wf b'"
    and "Buffer_content b' = rest"
proof -
  have len: "1 \<le> length (Buffer_content b)" using c by simp
  from Buffer_retrieve_ok [OF wf len] obtain b' where "Buffer_retrieve b 1 = Inr b'"
    "Buffer_wf b'" "Buffer_content b' = rest" using c by auto
  with Buffer_peekInt8_content [OF assms] that show ?thesis
    by (simp add: Buffer_readInt8_def Buffer_retrieveInt8_def)
qed

section \<open>Searching\<close>

lemma search_pair_Some:
  "search_pair x y bs = Some k \<Longrightarrow>
    Suc k < length bs \<and> bs ! k = x \<and> bs ! Suc k = y \<and> (\<forall>j<k. \<not> (bs ! j = x \<and> bs ! Suc j = y))"
proof (induction x y bs arbitrary: k rule: search_pair.induct)
  case (1 x y a b bs)
  show ?case
  proof (cases "a = x \<and> b = y")
    case True
    with "1.prems" show ?thesis by simp
  next
    case False
    with "1.prems" obtain k' where "search_pair x y (b # bs) = Some k'" and k: "k = Suc k'"
      by auto
    with "1.IH" [OF False] False show ?thesis by (auto simp: less_Suc_eq_0_disj)
  qed
qed simp_all

lemma search_pair_None:
  "search_pair x y bs = None \<Longrightarrow> Suc j < length bs \<Longrightarrow> \<not> (bs ! j = x \<and> bs ! Suc j = y)"
proof (induction x y bs arbitrary: j rule: search_pair.induct)
  case (1 x y a b bs)
  then show ?case by (cases j) (auto split: if_splits)
qed simp_all

lemma memchr_Some: "memchr x bs = Some k \<Longrightarrow>
    k < length bs \<and> bs ! k = x \<and> x \<notin> set (take k bs)"
  by (induction bs arbitrary: k) (auto split: if_splits)

lemma memchr_None: "memchr x bs = None \<longleftrightarrow> x \<notin> set bs"
  by (induction bs) auto

section \<open>The contract of a byte queue\<close>

text \<open>
  What the message layer relies on: bytes are appended at the back and taken off the front,
  an append has an effect as long as there is room, and taking off more than is there is a
  failed assertion.
\<close>

locale byte_queue =
  fixes wf :: "'q \<Rightarrow> bool"
    and content :: "'q \<Rightarrow> byte list"
    and room :: "'q \<Rightarrow> nat \<Rightarrow> bool"
    and put :: "'q \<Rightarrow> byte list \<Rightarrow> 'q res"
    and off :: "'q \<Rightarrow> nat \<Rightarrow> 'q res"
  assumes put_ok: "wf q \<Longrightarrow> room q (length d + n) \<Longrightarrow>
      \<exists>q'. put q d = Inr q' \<and> wf q' \<and> content q' = content q @ d \<and> room q' n"
    and off_ok: "wf q \<Longrightarrow> room q m \<Longrightarrow> n \<le> length (content q) \<Longrightarrow>
      \<exists>q'. off q n = Inr q' \<and> wf q' \<and> content q' = drop n (content q) \<and> room q' m"
    and off_fails: "wf q \<Longrightarrow> length (content q) < n \<Longrightarrow> off q n = Inl Assert_failed"
begin

lemma put_all_ok:
  "wf q \<Longrightarrow> room q (length (concat ds)) \<Longrightarrow>
    \<exists>q'. run_all put q ds = Inr q' \<and> wf q' \<and> content q' = content q @ concat ds"
proof (induction ds arbitrary: q)
  case Nil
  then show ?case by simp
next
  case (Cons d ds)
  then obtain q1 where q1: "put q d = Inr q1" "wf q1" "content q1 = content q @ d"
    "room q1 (length (concat ds))"
    using put_ok [of q d "length (concat ds)"] by auto
  with Cons.IH [OF q1(2,4)] show ?case by auto
qed

lemma put_off_commute:
  assumes "wf q" and "room q (length d)" and "n \<le> length (content q)"
  shows "\<exists>q1 q2. andThen (put q d) (\<lambda>q'. off q' n) = Inr q1
    \<and> andThen (off q n) (\<lambda>q'. put q' d) = Inr q2 \<and> content q1 = content q2"
proof -
  from assms put_ok [of q d 0] obtain p where p: "put q d = Inr p" "wf p"
    "content p = content q @ d" "room p 0" by auto
  with assms(3) off_ok [of p 0 n] obtain q1 where q1: "off p n = Inr q1"
    "content q1 = drop n (content p)" by auto
  from assms off_ok [of q "length d" n] obtain r where r: "off q n = Inr r" "wf r"
    "content r = drop n (content q)" "room r (length d)" by auto
  with put_ok [of r d 0] obtain q2 where "put r d = Inr q2" "content q2 = content r @ d" by auto
  with p q1 r assms(3) show ?thesis by auto
qed

end

definition Buffer_can_take :: "Buffer \<Rightarrow> nat \<Rightarrow> bool" where
  "Buffer_can_take b n \<longleftrightarrow> max (writerIndex b) kCheapPrepend + n \<le> vector_max"

lemma Buffer_can_take_room: "Buffer_can_take b n \<Longrightarrow> Buffer_room b n"
  by (auto simp: Buffer_can_take_def Buffer_room_def)

interpretation bq: byte_queue Buffer_wf Buffer_content Buffer_can_take Buffer_append Buffer_retrieve
proof unfold_locales
  fix q :: Buffer and d :: "byte list" and n
  assume wf: "Buffer_wf q" and room: "Buffer_can_take q (length d + n)"
  then have "Buffer_room q (length d)" by (auto simp: Buffer_can_take_def Buffer_room_def)
  from Buffer_append_ok [OF wf this] obtain q' where "Buffer_append q d = Inr q'"
    "Buffer_wf q'" "Buffer_content q' = Buffer_content q @ d"
    "writerIndex q' \<le> writerIndex q + length d" by blast
  moreover from this room have "Buffer_can_take q' n" by (auto simp: Buffer_can_take_def)
  ultimately
  show "\<exists>q'. Buffer_append q d = Inr q' \<and> Buffer_wf q' \<and>
      Buffer_content q' = Buffer_content q @ d \<and> Buffer_can_take q' n" by blast
next
  fix q m n
  assume wf: "Buffer_wf q" and room: "Buffer_can_take q m" and n: "n \<le> length (Buffer_content q)"
  from Buffer_retrieve_ok [OF wf n] obtain q' where "Buffer_retrieve q n = Inr q'"
    "Buffer_wf q'" "Buffer_content q' = drop n (Buffer_content q)"
    "writerIndex q' \<le> max (writerIndex q) kCheapPrepend" by blast
  moreover from this room have "Buffer_can_take q' m" by (auto simp: Buffer_can_take_def)
  ultimately show "\<exists>q'. Buffer_retrieve q n = Inr q' \<and> Buffer_wf q' \<and>
      Buffer_content q' = drop n (Buffer_content q) \<and> Buffer_can_take q' m" by blast
next
  fix q n
  assume "Buffer_wf q" and "length (Buffer_content q) < n"
  then show "Buffer_retrieve q n = Inl Assert_failed" by (rule Buffer_retrieve_fails)
qed

text \<open>Reading from a descriptor is another way to put bytes at the back of the queue.\<close>

definition Buffer_put_read :: "Buffer \<Rightarrow> byte list \<Rightarrow> Buffer res" where
  "Buffer_put_read b bs = andThen (Buffer_readFd b (Inr bs)) (\<lambda>(n, e, b'). Inr b')"

lemma Buffer_put_read_ok:
  assumes wf: "Buffer_wf b" and room: "Buffer_can_take b (length bs + n)"
  shows "\<exists>b'. Buffer_put_read b bs = Inr b' \<and> Buffer_wf b' \<and>
    Buffer_content b' = Buffer_content b @ bs \<and> Buffer_can_take b' n"
proof -
  let ?w = "length (buffer b) - writerIndex b"
  from Buffer_readFd_split [OF wf, of bs] obtain s where s: "Buffer_wf s"
    "Buffer_content s = Buffer_content b @ take ?w bs"
    "writerIndex s = writerIndex b + length (take ?w bs)"
    "Buffer_readFd b (Inr bs) = (if length bs \<le> ?w then Inr (int (length bs), None, s)
       else andThen (Buffer_append s (drop ?w bs)) (\<lambda>b'. Inr (int (length bs), None, b')))"
    by blast
  show ?thesis
  proof (cases "length bs \<le> ?w")
    case True
    with s room show ?thesis by (auto simp: Buffer_put_read_def Buffer_can_take_def)
  next
    case False
    then have "Buffer_can_take s (length (drop ?w bs) + n)"
      using s(3) room by (auto simp: Buffer_can_take_def)
    from bq.put_ok [OF s(1) this] False s show ?thesis by (auto simp: Buffer_put_read_def)
  qed
qed

interpretation bq_read: byte_queue Buffer_wf Buffer_content Buffer_can_take Buffer_put_read Buffer_retrieve
  by unfold_locales (use Buffer_put_read_ok bq.off_ok bq.off_fails in auto)

section \<open>Shrinking\<close>

lemma Buffer_ensureWritableBytes_Inr:
  assumes "Buffer_wf b" and "len \<le> vector_max" and "Buffer_ensureWritableBytes b len = Inr b'"
  shows "Buffer_wf b'" and "Buffer_content b' = Buffer_content b"
proof -
  have "Buffer_room b len" using Buffer_ensureWritableBytes_fails assms by force
  from Buffer_ensureWritableBytes_ok [OF assms(1) this] assms(3)
  show "Buffer_wf b'" and "Buffer_content b' = Buffer_content b" by auto
qed

text \<open>The cast to \<open>int\<close>: \<open>m\<close> is what it leaves of the number of readable bytes.\<close>

lemma toStringPiece_content:
  assumes "Buffer_wf b" and m: "m = length (Buffer_content b) mod 2 ^ 32" and "m < 2 ^ 31"
  shows "Buffer_toStringPiece b = (Buffer_peek b, m)"
proof -
  have "(of_nat (length (Buffer_content b)) :: 32 word) = of_nat m"
    by (simp add: m word_of_nat_eq_iff take_bit_eq_mod del: length_Buffer_content)
  then have "sint (of_nat (length (Buffer_content b)) :: 32 word) = int m" using assms(3)
    by (simp add: signed_of_nat signed_take_bit_int_eq_self del: length_Buffer_content)
  then show ?thesis using assms(1,3)
    by (simp add: Buffer_toStringPiece_def size_of_int_nonneg del: length_Buffer_content)
qed

lemma Buffer_append_from_eq:
  "p + len \<le> length v \<Longrightarrow> Buffer_append_from b v p len = Buffer_append b (take len (drop p v))"
  by (simp add: Buffer_append_from_def Buffer_append_def)

lemma Buffer_content_cong:
  "buffer b = buffer c \<Longrightarrow> readerIndex b = readerIndex c \<Longrightarrow> writerIndex b = writerIndex c \<Longrightarrow>
    Buffer_content b = Buffer_content c \<and> Buffer_wf b = Buffer_wf c"
  by (simp add: Buffer_content_def Buffer_wf_def)

lemma fst_Buffer_swap [simp]:
  "Buffer_content (fst (Buffer_swap b c)) = Buffer_content c"
  "Buffer_wf (fst (Buffer_swap b c)) = Buffer_wf c"
  by (auto simp: Buffer_swap_def Buffer_content_def Buffer_wf_def)

lemma kInitialSize_new: "kInitialSize + kCheapPrepend \<le> vector_max"
  by (simp add: kInitialSize_def kCheapPrepend_def vector_max_def)

lemma Buffer_shrink_steps:
  assumes wf: "Buffer_wf b" and m: "m = length (Buffer_content b) mod 2 ^ 32" "m < 2 ^ 31"
    and r: "length (Buffer_content b) + reserve < 2 ^ 64"
  obtains n where "Buffer_wf n" and "Buffer_content n = []" and "writerIndex n = kCheapPrepend"
    and "Buffer_shrink b reserve =
      andThen (Buffer_ensureWritableBytes n (length (Buffer_content b) + reserve)) (\<lambda>e.
        andThen (Buffer_append e (take m (Buffer_content b))) (\<lambda>c. Inr (fst (Buffer_swap b c))))"
proof -
  from Buffer_new_ok [OF kInitialSize_new] obtain n where n: "Buffer_new kInitialSize = Inr n"
    "Buffer_wf n" "Buffer_content n = []" "writerIndex n = kCheapPrepend" by blast
  have le: "m \<le> length (Buffer_content b)" using m(1) by simp
  then have "Buffer_peek b + m \<le> length (buffer b)"
    using wf Buffer_wfD [OF wf] by (simp add: Buffer_peek_def)
  from Buffer_append_from_eq [OF this] have
    "Buffer_append_from e (buffer b) (Buffer_peek b) m = Buffer_append e (take m (Buffer_content b))" for e
    using peek_take_wf [OF wf le] by simp
  moreover have "size_add (Buffer_readableBytes b) reserve = length (Buffer_content b) + reserve"
    using wf r by (simp add: size_add_small del: length_Buffer_content)
  ultimately show ?thesis using that [of n] n toStringPiece_content [OF wf m]
    by (simp add: Buffer_shrink_def del: length_Buffer_content)
qed

lemma Buffer_shrink_keeps:
  assumes "Buffer_wf b" and m: "m = length (Buffer_content b) mod 2 ^ 32" "m < 2 ^ 31"
    and r: "length (Buffer_content b) + reserve + 8 \<le> vector_max"
  obtains b' where "Buffer_shrink b reserve = Inr b'" and "Buffer_wf b'"
    and "Buffer_content b' = take m (Buffer_content b)"
proof -
  let ?n = "length (Buffer_content b)"
  have r64: "?n + reserve < 2 ^ 64" using r by (simp add: vector_max_def)
  have le: "length (take m (Buffer_content b)) \<le> ?n" by simp
  from Buffer_shrink_steps [OF assms(1) m r64] obtain n where n: "Buffer_wf n" "Buffer_content n = []"
    "writerIndex n = kCheapPrepend"
    "Buffer_shrink b reserve = andThen (Buffer_ensureWritableBytes n (?n + reserve)) (\<lambda>e.
        andThen (Buffer_append e (take m (Buffer_content b))) (\<lambda>c. Inr (fst (Buffer_swap b c))))" by blast
  have "Buffer_room n (?n + reserve)" using n(3) r
    by (simp add: Buffer_room_def kCheapPrepend_def vector_max_def del: length_Buffer_content)
  from Buffer_ensureWritableBytes_ok [OF n(1) this] obtain e
    where e: "Buffer_ensureWritableBytes n (?n + reserve) = Inr e" "Buffer_wf e"
      "Buffer_content e = Buffer_content n" "writerIndex e \<le> writerIndex n" by blast
  have "Buffer_room e (length (take m (Buffer_content b)))" using e(4) n(3) r le
    by (auto simp: Buffer_room_def kCheapPrepend_def vector_max_def del: length_Buffer_content)
  from Buffer_append_ok [OF e(2) this] obtain c where "Buffer_append e (take m (Buffer_content b)) = Inr c"
    "Buffer_wf c" "Buffer_content c = Buffer_content e @ take m (Buffer_content b)" by blast
  with e n show ?thesis using that [of "fst (Buffer_swap b c)"] by simp
qed

lemma Buffer_shrink_ok:
  assumes "Buffer_wf b" and "length (Buffer_content b) < 2 ^ 31" and "reserve < 2 ^ 62"
  obtains b' where "Buffer_shrink b reserve = Inr b'" and "Buffer_wf b'"
    and "Buffer_content b' = Buffer_content b"
  by (rule Buffer_shrink_keeps [OF assms(1), of "length (Buffer_content b)" reserve])
    (use assms that in \<open>simp_all add: vector_max_def del: length_Buffer_content\<close>)

text \<open>
  The cast is a defect: a buffer of \<open>2 ^ 32\<close> bytes or more loses bytes when it is shrunk, and
  nothing reports it.
\<close>

lemma Buffer_shrink_loses:
  assumes "Buffer_wf b" and "2 ^ 32 \<le> length (Buffer_content b)"
    and "length (Buffer_content b) mod 2 ^ 32 < 2 ^ 31"
    and "length (Buffer_content b) + reserve + 8 \<le> vector_max"
  shows "\<exists>b'. Buffer_shrink b reserve = Inr b' \<and> Buffer_wf b'
    \<and> length (Buffer_content b') < length (Buffer_content b)"
proof -
  let ?n = "length (Buffer_content b)"
  have "?n mod 2 ^ 32 < ?n" using assms(2,3) by (meson le_trans mod_less_divisor not_le less_le_trans zero_less_numeral zero_less_power)
  then show ?thesis
    by (metis Buffer_shrink_keeps [OF assms(1) refl assms(3,4)] length_take min.strict_order_iff
        min.absorb4)
qed

section \<open>Commands\<close>

text \<open>
  The operations a client runs on a buffer, and what each means for the bytes it holds.
  \<open>buffer_cmd_fits\<close> are the conditions under which an operation is allowed: the asserted
  ones, room in the vector, and for \<open>shrink\<close> less than \<open>2 ^ 31\<close> bytes of contents.
\<close>

datatype buffer_cmd =
    Append "byte list"
  | Retrieve nat
  | RetrieveAll
  | Unwrite nat
  | Prepend "byte list"
  | EnsureWritable nat
  | Shrink nat
  | ReadFd "int + byte list"

fun Buffer_exec :: "Buffer \<Rightarrow> buffer_cmd \<Rightarrow> Buffer res" where
  "Buffer_exec b (Append d) = Buffer_append b d"
| "Buffer_exec b (Retrieve n) = Buffer_retrieve b n"
| "Buffer_exec b RetrieveAll = Inr (Buffer_retrieveAll b)"
| "Buffer_exec b (Unwrite n) = Buffer_unwrite b n"
| "Buffer_exec b (Prepend d) = Buffer_prepend b d"
| "Buffer_exec b (EnsureWritable n) = Buffer_ensureWritableBytes b n"
| "Buffer_exec b (Shrink n) = Buffer_shrink b n"
| "Buffer_exec b (ReadFd rd) = andThen (Buffer_readFd b rd) (\<lambda>(n, e, b'). Inr b')"

fun queue_exec :: "byte list \<Rightarrow> buffer_cmd \<Rightarrow> byte list" where
  "queue_exec q (Append d) = q @ d"
| "queue_exec q (Retrieve n) = drop n q"
| "queue_exec q RetrieveAll = []"
| "queue_exec q (Unwrite n) = take (length q - n) q"
| "queue_exec q (Prepend d) = d @ q"
| "queue_exec q (EnsureWritable n) = q"
| "queue_exec q (Shrink n) = q"
| "queue_exec q (ReadFd (Inl e)) = q"
| "queue_exec q (ReadFd (Inr bs)) = q @ bs"

fun buffer_cmd_fits :: "Buffer \<Rightarrow> buffer_cmd \<Rightarrow> bool" where
  "buffer_cmd_fits b (Append d) = Buffer_room b (length d)"
| "buffer_cmd_fits b (Retrieve n) = (n \<le> length (Buffer_content b))"
| "buffer_cmd_fits b RetrieveAll = True"
| "buffer_cmd_fits b (Unwrite n) = (n \<le> length (Buffer_content b))"
| "buffer_cmd_fits b (Prepend d) = (length d \<le> readerIndex b)"
| "buffer_cmd_fits b (EnsureWritable n) = Buffer_room b n"
| "buffer_cmd_fits b (Shrink n) = (length (Buffer_content b) < 2 ^ 31 \<and> n < 2 ^ 62)"
| "buffer_cmd_fits b (ReadFd (Inl e)) = True"
| "buffer_cmd_fits b (ReadFd (Inr bs)) = (length (buffer b) + length bs \<le> vector_max)"

lemma Buffer_exec_ok:
  assumes wf: "Buffer_wf b" and fits: "buffer_cmd_fits b c"
  shows "\<exists>b'. Buffer_exec b c = Inr b' \<and> Buffer_wf b' \<and>
    Buffer_content b' = queue_exec (Buffer_content b) c"
proof (cases c)
  case (Append d)
  show ?thesis by (rule Buffer_append_ok [OF wf, of d]) (use Append fits in \<open>auto\<close>)
next
  case (Retrieve n)
  show ?thesis by (rule Buffer_retrieve_ok [OF wf, of n]) (use Retrieve fits in \<open>auto\<close>)
next
  case RetrieveAll
  with wf show ?thesis by simp
next
  case (Unwrite n)
  show ?thesis by (rule Buffer_unwrite_ok [OF wf, of n]) (use Unwrite fits in \<open>auto\<close>)
next
  case (Prepend d)
  show ?thesis by (rule Buffer_prepend_ok [OF wf, of d]) (use Prepend fits in \<open>auto\<close>)
next
  case (EnsureWritable n)
  show ?thesis by (rule Buffer_ensureWritableBytes_ok [OF wf, of n]) (use EnsureWritable fits in \<open>auto\<close>)
next
  case (Shrink n)
  show ?thesis by (rule Buffer_shrink_ok [OF wf, of n]) (use Shrink fits in \<open>auto simp del: length_Buffer_content\<close>)
next
  case (ReadFd rd)
  show ?thesis
  proof (cases rd)
    case (Inl e)
    with ReadFd wf show ?thesis by (simp add: Buffer_readFd_def)
  next
    case (Inr bs)
    show ?thesis by (rule Buffer_readFd_ok [OF wf, of bs]) (use ReadFd Inr fits in auto)
  qed
qed

text \<open>Operations with an asserted condition fail exactly when it does not hold.\<close>

lemma Buffer_exec_fails:
  assumes wf: "Buffer_wf b"
  shows "length (Buffer_content b) < n \<Longrightarrow> Buffer_exec b (Retrieve n) = Inl Assert_failed"
    and "length (Buffer_content b) < n \<Longrightarrow> Buffer_exec b (Unwrite n) = Inl Assert_failed"
    and "readerIndex b < length d \<Longrightarrow> Buffer_exec b (Prepend d) = Inl Assert_failed"
    and "length d \<le> vector_max \<Longrightarrow> \<not> Buffer_room b (length d) \<Longrightarrow>
      Buffer_exec b (Append d) = Inl Length_error"
  using wf Buffer_retrieve_fails Buffer_append_fails
  by (auto simp: Buffer_unwrite_def Buffer_prepend_def Buffer_prependableBytes_def)

text \<open>
  Sizes that are possible: no array is larger than \<open>vector_max\<close>, nobody asks for more space
  than that, and no shrink asks for a reserve of \<open>2 ^ 62\<close> bytes or more.
\<close>

fun buffer_cmd_size_ok :: "buffer_cmd \<Rightarrow> bool" where
  "buffer_cmd_size_ok (Append d) = (length d \<le> vector_max)"
| "buffer_cmd_size_ok (EnsureWritable n) = (n \<le> vector_max)"
| "buffer_cmd_size_ok (Shrink n) = (n < 2 ^ 62)"
| "buffer_cmd_size_ok (ReadFd (Inr bs)) = (length bs \<le> vector_max)"
| "buffer_cmd_size_ok _ = True"

lemma Buffer_exec_Inr:
  assumes wf: "Buffer_wf b" and small: "buffer_cmd_size_ok c"
    and shrink: "\<And>n. c = Shrink n \<Longrightarrow> length (Buffer_content b) < 2 ^ 31"
    and run: "Buffer_exec b c = Inr b'"
  shows "Buffer_wf b' \<and> Buffer_content b' = queue_exec (Buffer_content b) c"
proof -
  have "Buffer_wf b' \<and> Buffer_content b' = queue_exec (Buffer_content b) c"
    if "\<not> buffer_cmd_fits b c"
  proof (cases c)
    case (ReadFd rd)
    with that run small obtain bs n e where "rd = Inr bs" "length bs \<le> vector_max"
      and "Buffer_readFd b (Inr bs) = Inr (n, e, b')"
      by (cases rd) (auto simp: andThen_eq_Inr)
    with ReadFd Buffer_readFd_Inr [OF wf] show ?thesis by simp
  next
    case (EnsureWritable n)
    with small run Buffer_ensureWritableBytes_Inr [OF wf, of n] show ?thesis by simp
  qed (use that run small shrink Buffer_exec_fails [OF wf] in
      \<open>auto simp: not_le simp del: length_Buffer_content\<close>)
  with Buffer_exec_ok [OF wf, of c] run show ?thesis by fastforce
qed

definition queue_of :: "byte list \<Rightarrow> buffer_cmd list \<Rightarrow> byte list" where
  "queue_of q cs = fold (\<lambda>c q. queue_exec q c) cs q"

lemma queue_of_simps [simp]:
  "queue_of q [] = q" "queue_of q (c # cs) = queue_of (queue_exec q c) cs"
  by (simp_all add: queue_of_def)

text \<open>No shrink of the sequence meets \<open>2 ^ 31\<close> bytes or more.\<close>

definition shrinks_below_2GiB :: "byte list \<Rightarrow> buffer_cmd list \<Rightarrow> bool" where
  "shrinks_below_2GiB q cs \<longleftrightarrow>
     (\<forall>i<length cs. \<forall>n. cs ! i = Shrink n \<longrightarrow> length (queue_of q (take i cs)) < 2 ^ 31)"

lemma shrinks_below_2GiB_Cons:
  assumes "shrinks_below_2GiB q (c # cs)"
  shows "c = Shrink n \<Longrightarrow> length q < 2 ^ 31" and "shrinks_below_2GiB (queue_exec q c) cs"
proof -
  have *: "(c # cs) ! i = Shrink n \<Longrightarrow> i < Suc (length cs) \<Longrightarrow>
      length (queue_of q (take i (c # cs))) < 2 ^ 31" for i n
    using assms by (simp add: shrinks_below_2GiB_def)
  show "c = Shrink n \<Longrightarrow> length q < 2 ^ 31" using * [of 0 n] by simp
  show "shrinks_below_2GiB (queue_exec q c) cs"
    unfolding shrinks_below_2GiB_def using * [of "Suc _"] by auto
qed

lemma Buffer_run_refines:
  "Buffer_wf b \<Longrightarrow> run_all Buffer_exec b cs = Inr b' \<Longrightarrow> list_all buffer_cmd_size_ok cs \<Longrightarrow>
    shrinks_below_2GiB (Buffer_content b) cs \<Longrightarrow>
    Buffer_wf b' \<and> Buffer_content b' = queue_of (Buffer_content b) cs"
proof (induction cs arbitrary: b)
  case Nil
  then show ?case by simp
next
  case (Cons c cs)
  then obtain t where "Buffer_exec b c = Inr t" and "run_all Buffer_exec t cs = Inr b'"
    by (auto simp: andThen_eq_Inr)
  moreover from this(1) have "Buffer_wf t \<and> Buffer_content t = queue_exec (Buffer_content b) c"
    using Buffer_exec_Inr [OF Cons.prems(1)] Cons.prems(3) shrinks_below_2GiB_Cons(1) [OF Cons.prems(4)]
    by (metis list.pred_inject(2))
  ultimately show ?case
    using Cons.IH [of t] Cons.prems(3) shrinks_below_2GiB_Cons(2) [OF Cons.prems(4)] by simp
qed

text \<open>The buffer the default constructor makes.\<close>

definition empty_buffer :: Buffer where
  "empty_buffer = \<lparr>buffer = replicate 1032 0, readerIndex = 8, writerIndex = 8\<rparr>"

lemma empty_buffer_new: "Buffer_new kInitialSize = Inr empty_buffer"
  by (simp add: Buffer_new_def empty_buffer_def vector_resize_def size_add_def kInitialSize_def
      kCheapPrepend_def vector_max_def Buffer_readableBytes_def Buffer_writableBytes_def
      Buffer_prependableBytes_def size_sub_def)

lemma empty_buffer_wf: "Buffer_wf empty_buffer" "Buffer_content empty_buffer = []"
  "Buffer_can_take empty_buffer n \<longleftrightarrow> n + 8 \<le> vector_max"
  by (simp_all add: empty_buffer_def Buffer_wf_def Buffer_content_def Buffer_can_take_def
      kCheapPrepend_def vector_max_def)

section \<open>Properties\<close>

text \<open>A buffer with eight bytes of prepend space, three bytes of contents and four free bytes.\<close>

definition buffer_sample :: Buffer where
  "buffer_sample = \<lparr>buffer = [0, 0, 0, 0, 0, 0, 0, 0, 65, 66, 67, 0, 0, 0, 0],
     readerIndex = 8, writerIndex = 11\<rparr>"

lemmas buffer_eval = buffer_sample_def Buffer_append_def Buffer_ensureWritableBytes_def
  Buffer_makeSpace_def Buffer_retrieve_def Buffer_retrieveAll_def Buffer_unwrite_def
  Buffer_prepend_def Buffer_hasWritten_def Buffer_beginWrite_def Buffer_prependableBytes_def
  Buffer_readableBytes_def Buffer_writableBytes_def Buffer_bytes_def Buffer_content_def
  Buffer_wf_def Buffer_room_def vector_resize_def overwrite_def
  size_add_def size_sub_def kCheapPrepend_def vector_max_def

text \<open>
  C22. A buffer is a byte queue: when a sequence of appends, retrieves, prepends, unwrites,
  shrinks and descriptor reads, of possible sizes (\<open>buffer_cmd_size_ok\<close>), runs without a fault
  and no shrink meets \<open>2 ^ 31\<close> bytes or more, with compaction and growth of the vector
  happening inside, the indices stay ordered and the bytes between them are those that the
  same sequence leaves in a plain byte list. The bound on shrinks is needed: with more bytes
  a shrink loses some (\<open>Buffer_shrink_loses\<close>).
\<close>

theorem Buffer_refines_queue:
  assumes "Buffer_wf b" and "run_all Buffer_exec b cs = Inr b'"
    and "list_all buffer_cmd_size_ok cs" and "shrinks_below_2GiB (Buffer_content b) cs"
  shows "Buffer_wf b' \<and> Buffer_content b' = queue_of (Buffer_content b) cs"
  using assms by (rule Buffer_run_refines)

theorem Buffer_refines_queue_witness:
  "\<exists>b'. run_all Buffer_exec buffer_sample
      [Append [68, 69], Retrieve 4, Append [70, 71, 72, 73], Unwrite 1, Prepend [64]] = Inr b'
    \<and> Buffer_content b' = [64, 69, 70, 71, 72]"
proof -
  let ?cs = "[Append [68, 69], Retrieve 4, Append [70, 71, 72, 73], Unwrite 1, Prepend [64]]"
  let ?b = "\<lparr>buffer = [0, 0, 0, 0, 0, 0, 0, 64, 69, 70, 71, 72, 73, 0, 0],
    readerIndex = 7, writerIndex = 12\<rparr>"
  have run: "run_all Buffer_exec buffer_sample ?cs = Inr ?b" by (simp add: buffer_eval)
  have "Buffer_wf buffer_sample" and "list_all buffer_cmd_size_ok ?cs" by (simp_all add: buffer_eval)
  moreover have "shrinks_below_2GiB (Buffer_content buffer_sample) ?cs"
    by (auto simp: shrinks_below_2GiB_def nth_Cons split: nat.splits)
  moreover have "queue_of (Buffer_content buffer_sample) ?cs = [64, 69, 70, 71, 72]"
    by (simp add: buffer_eval)
  ultimately have "Buffer_content ?b = [64, 69, 70, 71, 72]"
    using Buffer_refines_queue [OF _ run] by metis
  with run show ?thesis by blast
qed

text \<open>
  C23. Every operation that is allowed succeeds: when the asserted conditions hold and the
  vector can hold the bytes, the operation returns, and it has its effect on the contents.
\<close>

theorem Buffer_exec_total:
  assumes "Buffer_wf b" and "buffer_cmd_fits b c"
  shows "\<exists>b'. Buffer_exec b c = Inr b' \<and> Buffer_wf b' \<and>
    Buffer_content b' = queue_exec (Buffer_content b) c"
  using assms by (rule Buffer_exec_ok)

theorem Buffer_exec_total_witness:
  "\<exists>b'. Buffer_exec buffer_sample (Append [1, 2, 3, 4, 5, 6, 7, 8]) = Inr b' \<and> Buffer_wf b' \<and>
    Buffer_content b' = [65, 66, 67, 1, 2, 3, 4, 5, 6, 7, 8]"
proof -
  have "Buffer_wf buffer_sample" and "buffer_cmd_fits buffer_sample (Append [1, 2, 3, 4, 5, 6, 7, 8])"
    by (simp_all add: buffer_eval)
  moreover have "queue_exec (Buffer_content buffer_sample) (Append [1, 2, 3, 4, 5, 6, 7, 8]) =
      [65, 66, 67, 1, 2, 3, 4, 5, 6, 7, 8]" by (simp add: buffer_eval)
  ultimately show ?thesis
    using Buffer_exec_total [of buffer_sample "Append [1, 2, 3, 4, 5, 6, 7, 8]"] by presburger
qed

lemma hostToNetwork_big_endian:
  "le_bytes 8 (hostToNetwork64 x) = rev (le_bytes 8 x)"
  "le_bytes 4 (hostToNetwork32 y) = rev (le_bytes 4 y)"
  "le_bytes 2 (hostToNetwork16 z) = rev (le_bytes 2 z)"
  by (simp_all add: host_order_defs le_bytes_bswap)

definition Buffer_append_ints :: "Buffer \<Rightarrow> 64 word \<Rightarrow> 32 word \<Rightarrow> 16 word \<Rightarrow> 8 word \<Rightarrow> Buffer res" where
  "Buffer_append_ints b x y z w =
     andThen (Buffer_appendInt64 b x) (\<lambda>b. andThen (Buffer_appendInt32 b y) (\<lambda>b.
       andThen (Buffer_appendInt16 b z) (\<lambda>b. Buffer_appendInt8 b w)))"

definition Buffer_read_ints ::
  "Buffer \<Rightarrow> ((64 word \<times> 32 word \<times> 16 word \<times> 8 word) \<times> Buffer) res" where
  "Buffer_read_ints b =
     andThen (Buffer_readInt64 b) (\<lambda>(x, b). andThen (Buffer_readInt32 b) (\<lambda>(y, b).
       andThen (Buffer_readInt16 b) (\<lambda>(z, b). andThen (Buffer_readInt8 b) (\<lambda>(w, b).
         Inr ((x, y, z, w), b)))))"

lemma Buffer_append_ints_eq:
  "Buffer_append_ints b x y z w =
     run_all Buffer_append b [rev (le_bytes 8 x), rev (le_bytes 4 y), rev (le_bytes 2 z), [w]]"
  by (simp add: Buffer_append_ints_def Buffer_appendInt64_def Buffer_appendInt32_def
      Buffer_appendInt16_def Buffer_appendInt8_def hostToNetwork_big_endian andThen_def
      split: sum.split)

lemma Buffer_read_ints_content:
  assumes "Buffer_wf b" and "Buffer_content b =
    rev (le_bytes 8 x) @ rev (le_bytes 4 y) @ rev (le_bytes 2 z) @ [w] @ rest"
  shows "\<exists>b'. Buffer_read_ints b = Inr ((x, y, z, w), b') \<and> Buffer_wf b' \<and> Buffer_content b' = rest"
proof -
  note c = assms(2) [folded hostToNetwork_big_endian]
  obtain b1 where b1: "Buffer_readInt64 b = Inr (x, b1)" "Buffer_wf b1"
    "Buffer_content b1 = le_bytes 4 (hostToNetwork32 y) @ le_bytes 2 (hostToNetwork16 z) @ [w] @ rest"
    by (rule Buffer_readInt64_content [OF assms(1) c])
  obtain b2 where b2: "Buffer_readInt32 b1 = Inr (y, b2)" "Buffer_wf b2"
    "Buffer_content b2 = le_bytes 2 (hostToNetwork16 z) @ [w] @ rest"
    by (rule Buffer_readInt32_content [OF b1(2,3)])
  obtain b3 where b3: "Buffer_readInt16 b2 = Inr (z, b3)" "Buffer_wf b3"
    "Buffer_content b3 = [w] @ rest"
    by (rule Buffer_readInt16_content [OF b2(2,3)])
  obtain b4 where "Buffer_readInt8 b3 = Inr (w, b4)" "Buffer_wf b4" "Buffer_content b4 = rest"
    using Buffer_readInt8_content [OF b3(2)] b3(3) by auto
  with b1 b2 b3 show ?thesis by (simp add: Buffer_read_ints_def)
qed

text \<open>
  C24. Integers round trip: integers of every width appended to a buffer that can take their
  fifteen bytes are stored big endian behind its contents, and once the old contents are
  retrieved the reads of the four widths return them in order and leave the buffer empty.
\<close>

theorem Buffer_ints_roundtrip:
  assumes "Buffer_wf b" and "Buffer_can_take b 15"
  shows "\<exists>b1 b2 b3. Buffer_append_ints b x y z w = Inr b1
    \<and> Buffer_content b1 = Buffer_content b
        @ rev (le_bytes 8 x) @ rev (le_bytes 4 y) @ rev (le_bytes 2 z) @ [w]
    \<and> Buffer_retrieve b1 (length (Buffer_content b)) = Inr b2
    \<and> Buffer_read_ints b2 = Inr ((x, y, z, w), b3) \<and> Buffer_wf b3 \<and> Buffer_content b3 = []"
proof -
  let ?ds = "[rev (le_bytes 8 x), rev (le_bytes 4 y), rev (le_bytes 2 z), [w]]"
  obtain b1 where b1: "Buffer_append_ints b x y z w = Inr b1" "Buffer_wf b1"
    "Buffer_content b1 = Buffer_content b @ concat ?ds"
    using bq.put_all_ok [of b ?ds] assms by (auto simp: Buffer_append_ints_eq)
  then have "length (Buffer_content b) \<le> length (Buffer_content b1)"
    by (simp del: length_Buffer_content)
  then obtain b2 where b2: "Buffer_retrieve b1 (length (Buffer_content b)) = Inr b2" "Buffer_wf b2"
    "Buffer_content b2 = drop (length (Buffer_content b)) (Buffer_content b1)"
    by (rule Buffer_retrieve_ok [OF b1(2)])
  then have "Buffer_content b2 =
      rev (le_bytes 8 x) @ rev (le_bytes 4 y) @ rev (le_bytes 2 z) @ [w] @ []"
    using b1(3) by (simp del: length_Buffer_content)
  from Buffer_read_ints_content [OF b2(2) this] b1 b2(1) show ?thesis by simp
qed

theorem Buffer_ints_roundtrip_witness:
  "\<exists>b1. Buffer_append_ints buffer_sample 1 2 3 4 = Inr b1 \<and>
    Buffer_content b1 = [65, 66, 67, 0, 0, 0, 0, 0, 0, 0, 1, 0, 0, 0, 2, 0, 3, 4]"
proof -
  have "Buffer_wf buffer_sample" and "Buffer_can_take buffer_sample 15"
    and "Buffer_content buffer_sample = [65, 66, 67]"
    by (simp_all add: buffer_eval Buffer_can_take_def)
  moreover have "le_bytes 8 (1 :: 64 word) = [1, 0, 0, 0, 0, 0, 0, 0]"
    and "le_bytes 4 (2 :: 32 word) = [2, 0, 0, 0]" and "le_bytes 2 (3 :: 16 word) = [3, 0]"
    by (simp_all add: le_bytes_numeral)
  ultimately show ?thesis
    using Buffer_ints_roundtrip [of buffer_sample 1 2 3 4] by auto
qed

text \<open>
  \<open>findCRLF\<close> finds the first CR LF of the contents: a hit points at a CR followed by an
  LF inside the readable bytes, no earlier pair exists, and without a hit there is none.
\<close>

theorem Buffer_findCRLF_first:
  assumes "Buffer_wf b"
  shows "case Buffer_findCRLF b of
      Some p \<Rightarrow> (let k = p - Buffer_peek b in Buffer_peek b \<le> p \<and> Suc k < length (Buffer_content b)
        \<and> take 2 (drop k (Buffer_content b)) = kCRLF
        \<and> (\<forall>j<k. take 2 (drop j (Buffer_content b)) \<noteq> kCRLF))
    | None \<Rightarrow> (\<forall>j. take 2 (drop j (Buffer_content b)) \<noteq> kCRLF)"
proof -
  let ?c = "Buffer_content b"
  have pair: "take 2 (drop j ?c) = kCRLF \<longleftrightarrow> Suc j < length ?c \<and> ?c ! j = 13 \<and> ?c ! Suc j = 10" for j
  proof (cases "Suc j < length ?c")
    case True
    then have "drop j ?c = ?c ! j # ?c ! Suc j # drop (Suc (Suc j)) ?c"
      by (metis Cons_nth_drop_Suc Suc_lessD)
    with True show ?thesis by (simp add: kCRLF_def del: length_Buffer_content)
  next
    case False
    then have "length (take 2 (drop j ?c)) < 2" by (simp del: length_Buffer_content)
    with False show ?thesis by (auto simp: kCRLF_def simp del: length_take length_drop length_Buffer_content)
  qed
  have find: "Buffer_findCRLF b = map_option (\<lambda>k. Buffer_peek b + k) (search_pair 13 10 ?c)"
    by (simp add: Buffer_findCRLF_def Buffer_peek_def Buffer_beginWrite_def Buffer_bytes_content)
  show ?thesis
  proof (cases "search_pair 13 10 ?c")
    case None
    with search_pair_None [OF None] find pair show ?thesis by auto
  next
    case (Some k)
    with search_pair_Some [OF Some] find pair show ?thesis by (simp add: Let_def)
  qed
qed

definition crlf_sample :: Buffer where
  "crlf_sample = \<lparr>buffer = [0, 0, 0, 0, 0, 0, 0, 0, 13, 13, 10, 65, 13, 10],
     readerIndex = 8, writerIndex = 14\<rparr>"

theorem Buffer_findCRLF_first_witness:
  "Buffer_findCRLF crlf_sample = Some 9 \<and>
    take 2 (drop 1 (Buffer_content crlf_sample)) = kCRLF"
proof -
  have "Buffer_findCRLF crlf_sample = Some 9"
    by (simp add: crlf_sample_def Buffer_findCRLF_def Buffer_peek_def Buffer_beginWrite_def
        Buffer_bytes_def)
  moreover have "Buffer_wf crlf_sample"
    by (simp add: crlf_sample_def Buffer_wf_def kCheapPrepend_def vector_max_def)
  ultimately show ?thesis
    using Buffer_findCRLF_first [of crlf_sample]
    by (simp add: crlf_sample_def Buffer_peek_def Let_def)
qed

end
