(* ===== verification/Msg_Frame.thy ===== *)
theory Msg_Frame
  imports Net_Buffer
begin

text \<open>
  Message framing, \<^verbatim>\<open>src/src/utils/MsgFrame.h\<close>: a protocol buffer message travels over TCP
  behind its length (and, in one variant, its type) in network order, and over RDMA behind its
  length in host order. The lemmas show that what is sent is what is received, however TCP cuts
  the stream, and how a receiver behaves on lengths that no sender produces.
\<close>

section \<open>The protocol buffer library\<close>

text \<open>
  The library is a parameter of the model. \<open>ParseFromArray mem size\<close> parses the first
  \<open>size\<close> bytes of the memory \<open>mem\<close>; \<open>SerializeToArray size m\<close> are the bytes stored when
  the message is serialized into an array of \<open>size\<close> bytes. A size is not negative: the
  documentation says nothing of a negative one, so the definitions below take a call with one
  as undefined. \<open>pb_law\<close> is what the
  documentation promises for a message: the size, and that parsing undoes serializing.
\<close>

record 'm pb =
  ByteSizeLong :: "'m \<Rightarrow> nat"
  SerializeAsString :: "'m \<Rightarrow> byte list"
  SerializeToArray :: "int \<Rightarrow> 'm \<Rightarrow> byte list option"
  ParseFromArray :: "byte list \<Rightarrow> int \<Rightarrow> 'm option"

definition pb_law :: "'m pb \<Rightarrow> 'm \<Rightarrow> bool" where
  "pb_law pb m \<longleftrightarrow> ByteSizeLong pb m = length (SerializeAsString pb m)
     \<and> (\<forall>n. int (ByteSizeLong pb m) \<le> n \<longrightarrow> SerializeToArray pb n m = Some (SerializeAsString pb m))
     \<and> (\<forall>rest. ParseFromArray pb (SerializeAsString pb m @ rest) (int (ByteSizeLong pb m)) = Some m)"

section \<open>Framing over TCP\<close>

definition kFrameHeaderLen :: nat where
  "kFrameHeaderLen = 4"

text \<open>The byte strings handed to \<open>TcpConnection::send\<close>, in order.\<close>

definition sendTcpPbMsg :: "'m pb \<Rightarrow> 'm \<Rightarrow> byte list list" where
  "sendTcpPbMsg pb msg =
     (let len = hostToNetwork32 (of_nat (ByteSizeLong pb msg)) in
      [le_bytes 4 len, SerializeAsString pb msg])"

text \<open>
  \<open>kFrameHeaderLen + peekInt32()\<close> is an addition of two \<open>int\<close>s, undefined when it
  overflows, and is converted to \<open>size_t\<close> for the comparison. The result is the message when
  the function returns true.
\<close>

definition receiveTcpPbMsg :: "'m pb \<Rightarrow> Buffer \<Rightarrow> ('m option \<times> Buffer) res" where
  "receiveTcpPbMsg pb b =
     (if Buffer_readableBytes b < kFrameHeaderLen then Inr (None, b)
      else andThen (Buffer_peekInt32 b) (\<lambda>n.
        defined_if (int kFrameHeaderLen + sint n < 2 ^ 31)
          (if Buffer_readableBytes b < size_of_int (int kFrameHeaderLen + sint n) then Inr (None, b)
           else andThen (Buffer_readInt32 b) (\<lambda>(len, b1). defined_if (0 \<le> sint len)
             (case ParseFromArray pb (drop (Buffer_peek b1) (buffer b1)) (sint len) of
                None \<Rightarrow> andThen (Buffer_retrieve b1 (size_of_int (sint len)))
                  (\<lambda>b2. Inr (None, b2))
              | Some msg \<Rightarrow> andThen (Buffer_retrieve b1 (size_of_int (sint len)))
                  (\<lambda>b2. Inr (Some msg, b2)))))))"

definition sendTcpPbMsg_typed :: "'m pb \<Rightarrow> 'm \<Rightarrow> 32 word \<Rightarrow> byte list list" where
  "sendTcpPbMsg_typed pb msg msg_type =
     [le_bytes 4 (hostToNetwork32 msg_type)
        @ le_bytes 4 (hostToNetwork32 (of_nat (ByteSizeLong pb msg))),
      SerializeAsString pb msg]"

text \<open>In this variant the length is a \<open>uint32_t\<close>, and \<open>8 + len\<close> wraps at 32 bits.\<close>

definition receiveTcpPbMsg_typed ::
  "'m pb \<Rightarrow> Buffer \<Rightarrow> 32 word \<Rightarrow> ('m option \<times> Buffer) res" where
  "receiveTcpPbMsg_typed pb b msg_type =
     (if Buffer_readableBytes b < 8 then Inr (None, b)
      else
        let p = drop (Buffer_peek b) (buffer b);
            type = networkToHost32 (le_word (take 4 p));
            len = networkToHost32 (le_word (take 4 (drop 4 p)))
        in asserting (msg_type = type)
          (if Buffer_readableBytes b < unat (8 + len) then Inr (None, b)
           else andThen (Buffer_retrieve b 8) (\<lambda>b1. defined_if (0 \<le> sint len)
             (case ParseFromArray pb (drop (Buffer_peek b1) (buffer b1)) (sint len) of
                None \<Rightarrow> andThen (Buffer_retrieve b1 (unat len)) (\<lambda>b2. Inr (None, b2))
              | Some msg \<Rightarrow> andThen (Buffer_retrieve b1 (unat len)) (\<lambda>b2. Inr (Some msg, b2))))))"

section \<open>Framing over RDMA\<close>

text \<open>
  \<open>recv_buf\<close> is the memory from the receive pointer on, \<open>recv_len\<close> how much of it the caller
  says is the message. \<open>msg_len + kFrameHeaderLen\<close> is an \<open>int\<close> addition, compared with a
  \<open>uint32_t\<close> modulo \<open>2 ^ 32\<close>. The result is the length of the frame, or -1.
\<close>

definition parseRdmaPbMsg :: "'m pb \<Rightarrow> byte list \<Rightarrow> 32 word \<Rightarrow> (int \<times> 'm option) res" where
  "parseRdmaPbMsg pb recv_buf recv_len =
     (if recv_len < of_nat kFrameHeaderLen then Inr (- 1, None)
      else
        let msg_len = le_word (take 4 recv_buf) :: 32 word in
        defined_if (4 \<le> length recv_buf \<and> sint msg_len + int kFrameHeaderLen < 2 ^ 31)
          (if recv_len < msg_len + of_nat kFrameHeaderLen then Inr (- 1, None)
           else defined_if (0 \<le> sint msg_len)
             (case ParseFromArray pb (drop kFrameHeaderLen recv_buf) (sint msg_len) of
               None \<Rightarrow> Inr (- 1, None)
             | Some msg \<Rightarrow> Inr (sint msg_len + int kFrameHeaderLen, Some msg))))"

text \<open>
  The result is the frame length or -1, and the memory behind the send pointer after the
  stores. The sum \<open>kFrameHeaderLen + msg_len\<close> is an \<open>int\<close> addition as well.
\<close>

definition serializeRdmaPbMsg :: "'m pb \<Rightarrow> byte list \<Rightarrow> 32 word \<Rightarrow> 'm \<Rightarrow> (int \<times> byte list) res" where
  "serializeRdmaPbMsg pb send_buf send_cap msg =
     (let msg_len = of_nat (ByteSizeLong pb msg) :: 32 word in
      defined_if (int kFrameHeaderLen + sint msg_len < 2 ^ 31)
        (if send_cap < of_nat kFrameHeaderLen + msg_len then Inr (- 1, send_buf)
         else defined_if (kFrameHeaderLen \<le> length send_buf)
           (let hdr = overwrite send_buf 0 (le_bytes 4 msg_len) in
            case SerializeToArray pb (sint msg_len) msg of
              None \<Rightarrow> Inr (- 1, hdr)
            | Some bs \<Rightarrow> defined_if (kFrameHeaderLen + length bs \<le> length send_buf)
                (Inr (sint msg_len + int kFrameHeaderLen, overwrite hdr kFrameHeaderLen bs)))))"

section \<open>Receiving a frame\<close>

text \<open>A message a sender can frame: its size fits the \<open>int\<close> of the header.\<close>

definition frame_fits :: "'m pb \<Rightarrow> 'm \<Rightarrow> bool" where
  "frame_fits pb m \<longleftrightarrow> pb_law pb m \<and> ByteSizeLong pb m + kFrameHeaderLen < 2 ^ 31"

definition tcp_frame :: "'m pb \<Rightarrow> 'm \<Rightarrow> byte list" where
  "tcp_frame pb m = concat (sendTcpPbMsg pb m)"

lemma sint_of_nat_small: "n < 2 ^ 31 \<Longrightarrow> sint (of_nat n :: 32 word) = int n"
  by (simp add: signed_of_nat signed_take_bit_int_eq_self)

lemma unat_of_nat_small: "n < 2 ^ 32 \<Longrightarrow> unat (of_nat n :: 32 word) = n"
  by (simp add: unat_of_nat take_bit_nat_eq_self)

lemma tcp_frame_eq:
  "tcp_frame pb m = le_bytes 4 (hostToNetwork32 (of_nat (ByteSizeLong pb m))) @ SerializeAsString pb m"
  by (simp add: tcp_frame_def sendTcpPbMsg_def)

lemma length_tcp_frame: "frame_fits pb m \<Longrightarrow> length (tcp_frame pb m) = 4 + ByteSizeLong pb m"
  by (simp add: tcp_frame_eq frame_fits_def pb_law_def)

lemma drop_peek_content:
  assumes "Buffer_wf b"
  shows "\<exists>rest. drop (Buffer_peek b) (buffer b) = Buffer_content b @ rest"
  by (rule exI [of _ "drop (writerIndex b - readerIndex b) (drop (readerIndex b) (buffer b))"])
    (simp only: Buffer_peek_def Buffer_content_def append_take_drop_id)

lemma ParseFromArray_content:
  assumes "frame_fits pb m" and "Buffer_wf b" and "Buffer_content b = SerializeAsString pb m @ rest"
  shows "ParseFromArray pb (drop (Buffer_peek b) (buffer b)) (int (ByteSizeLong pb m)) = Some m"
  using assms drop_peek_content [OF assms(2)] by (auto simp: frame_fits_def pb_law_def)

lemma receiveTcpPbMsg_frame:
  assumes m: "frame_fits pb m" and wf: "Buffer_wf b" and room: "Buffer_can_take b n"
    and c: "Buffer_content b = tcp_frame pb m @ rest"
  shows "\<exists>b'. receiveTcpPbMsg pb b = Inr (Some m, b') \<and> Buffer_wf b'
    \<and> Buffer_content b' = rest \<and> Buffer_can_take b' n"
proof -
  let ?n = "ByteSizeLong pb m"
  have small: "?n + 4 < 2 ^ 31" and size: "?n = length (SerializeAsString pb m)"
    using m by (auto simp: frame_fits_def pb_law_def kFrameHeaderLen_def)
  have len: "4 + ?n \<le> length (Buffer_content b)" using c length_tcp_frame [OF m] by simp
  from c have c': "Buffer_content b =
      le_bytes 4 (hostToNetwork32 (of_nat ?n)) @ SerializeAsString pb m @ rest"
    by (simp add: tcp_frame_eq)
  obtain b1 where b1: "Buffer_peekInt32 b = Inr (of_nat ?n)"
    "Buffer_readInt32 b = Inr (of_nat ?n, b1)" "Buffer_wf b1"
    "Buffer_content b1 = SerializeAsString pb m @ rest"
    "writerIndex b1 \<le> max (writerIndex b) kCheapPrepend"
    by (rule Buffer_readInt32_content [OF wf c'])
  from b1(5) room have "Buffer_can_take b1 n" by (auto simp: Buffer_can_take_def)
  moreover have "?n \<le> length (Buffer_content b1)" using b1(4) size by simp
  ultimately obtain b2 where b2: "Buffer_retrieve b1 ?n = Inr b2" "Buffer_wf b2"
    "Buffer_content b2 = drop ?n (Buffer_content b1)" "Buffer_can_take b2 n"
    using bq.off_ok [OF b1(3)] by blast
  have "ParseFromArray pb (drop (Buffer_peek b1) (buffer b1)) (int ?n) = Some m"
    by (rule ParseFromArray_content [OF m b1(3,4)])
  moreover have "sint (of_nat ?n :: 32 word) = int ?n" using small
    by (intro sint_of_nat_small) simp
  moreover have "size_of_int (int 4 + int ?n) = 4 + ?n" and "size_of_int (int ?n) = ?n"
    using small by (simp_all add: size_of_int_nonneg nat_add_distrib)
  ultimately have "receiveTcpPbMsg pb b = Inr (Some m, b2)"
    using wf len small b1 b2(1)
    by (simp add: receiveTcpPbMsg_def kFrameHeaderLen_def del: length_Buffer_content)
  with b1(4) b2 size show ?thesis by simp
qed

lemma receiveTcpPbMsg_partial:
  assumes m: "frame_fits pb m" and wf: "Buffer_wf b"
    and c: "Buffer_content b = take k (tcp_frame pb m)" and k: "k < length (tcp_frame pb m)"
  shows "receiveTcpPbMsg pb b = Inr (None, b)"
proof (cases "k < 4")
  case True
  then have "length (Buffer_content b) < 4" using c k by (simp del: length_Buffer_content)
  with wf show ?thesis
    by (simp add: receiveTcpPbMsg_def kFrameHeaderLen_def del: length_Buffer_content)
next
  case False
  let ?n = "ByteSizeLong pb m"
  have small: "?n + 4 < 2 ^ 31" using m by (simp add: frame_fits_def kFrameHeaderLen_def)
  from False have "Buffer_content b = le_bytes 4 (hostToNetwork32 (of_nat ?n))
      @ take (k - 4) (SerializeAsString pb m)"
    unfolding c tcp_frame_eq by simp
  from Buffer_readInt32_content [OF wf this]
  have "Buffer_peekInt32 b = Inr (of_nat ?n)" by blast
  moreover have "sint (of_nat ?n :: 32 word) = int ?n" using small
    by (intro sint_of_nat_small) simp
  moreover have "size_of_int (int 4 + int ?n) = 4 + ?n"
    using small by (simp add: size_of_int_nonneg nat_add_distrib)
  moreover have "length (Buffer_content b) < 4 + ?n" using c k length_tcp_frame [OF m]
    by (simp del: length_Buffer_content)
  ultimately show ?thesis using wf small
    by (simp add: receiveTcpPbMsg_def kFrameHeaderLen_def del: length_Buffer_content)
qed

section \<open>Receiving a stream of frames\<close>

text \<open>
  A reader of frames on top of a byte queue: with a whole frame at the front it returns the
  message and takes the frame off, with less it returns nothing and leaves the queue alone.
  A connection puts each chunk it reads into the queue and lets the reader run once, as the
  message callbacks of the command server and of its client do.
\<close>

fun handed_over :: "nat list \<Rightarrow> nat \<Rightarrow> nat list \<Rightarrow> nat" where
  "handed_over ls n [] = 0"
| "handed_over [] n (d # ds) = 0"
| "handed_over (l # ls) n (d # ds) =
     (if l \<le> n + d then Suc (handed_over ls (n + d - l) ds) else handed_over (l # ls) (n + d) ds)"

text \<open>Reads that never span two frames hand over every message.\<close>

lemma handed_over_Nil [simp]: "handed_over [] n ds = 0"
  by (cases ds) simp_all

lemma handed_over_zeros:
  assumes "\<forall>l\<in>set ls. 0 < l" and "\<forall>d\<in>set ds. d = 0"
  shows "handed_over ls 0 (ds @ rest) = handed_over ls 0 rest"
proof (cases ls)
  case (Cons l ls')
  then have "0 < l" using assms(1) by simp
  then show ?thesis using assms(2) unfolding Cons by (induction ds) simp_all
qed simp

lemma handed_over_frame:
  assumes "\<forall>l\<in>set ls. 0 < l"
  shows "n < l \<Longrightarrow> n + sum_list ds = l \<Longrightarrow> handed_over (l # ls) n (ds @ rest) = Suc (handed_over ls 0 rest)"
proof (induction ds arbitrary: n)
  case (Cons d ds)
  show ?case
  proof (cases "l \<le> n + d")
    case True
    with Cons.prems(2) have "n + d = l" and "sum_list ds = 0" unfolding sum_list.Cons by linarith+
    then have "n + d = l" and "\<forall>d\<in>set ds. d = 0" by (simp_all add: sum_list_eq_0_iff)
    with handed_over_zeros [OF assms, of ds rest] True show ?thesis by simp
  next
    case False
    with Cons.IH [of "n + d"] Cons.prems(2) show ?thesis by simp
  qed
qed simp

lemma handed_over_frames:
  "\<forall>ds\<in>set dss. 0 < sum_list ds \<Longrightarrow> handed_over (map sum_list dss) 0 (concat dss) = length dss"
proof (induction dss)
  case (Cons ds dss)
  have "\<forall>l\<in>set (map sum_list dss). 0 < l" using Cons.prems by simp
  from handed_over_frame [OF this, of 0 "sum_list ds" ds "concat dss"] Cons show ?case by simp
qed simp

locale framed_reader = byte_queue wf content room put off
  for wf :: "'q \<Rightarrow> bool" and content :: "'q \<Rightarrow> byte list" and room :: "'q \<Rightarrow> nat \<Rightarrow> bool"
    and put :: "'q \<Rightarrow> byte list \<Rightarrow> 'q res" and off :: "'q \<Rightarrow> nat \<Rightarrow> 'q res" +
  fixes fits :: "'m \<Rightarrow> bool"
    and frame :: "'m \<Rightarrow> byte list"
    and recv :: "'q \<Rightarrow> ('m option \<times> 'q) res"
  assumes recv_frame: "fits m \<Longrightarrow> wf q \<Longrightarrow> room q n \<Longrightarrow> content q = frame m @ rest \<Longrightarrow>
      \<exists>q'. recv q = Inr (Some m, q') \<and> wf q' \<and> content q' = rest \<and> room q' n"
    and recv_partial: "fits m \<Longrightarrow> wf q \<Longrightarrow> k < length (frame m) \<Longrightarrow>
      content q = take k (frame m) \<Longrightarrow> recv q = Inr (None, q)"
    and frame_nonempty: "fits m \<Longrightarrow> frame m \<noteq> []"
begin

lemma recv_stream:
  assumes "wf q" and "room q n" and "\<forall>m\<in>set ms. fits m"
    and "content q @ later = concat (map frame ms)" and ex: "\<exists>m. fits m"
  shows "\<exists>r q' ms'. recv q = Inr (r, q') \<and> wf q' \<and> room q' n
    \<and> ms = (case r of None \<Rightarrow> [] | Some m \<Rightarrow> [m]) @ ms'
    \<and> content q' @ later = concat (map frame ms')
    \<and> (r = None \<longrightarrow> q' = q \<and> (ms = [] \<or> length (content q) < length (frame (hd ms))))"
proof (cases ms)
  case Nil
  from ex obtain m where "fits m" by blast
  moreover from Nil assms(4) have "content q = take 0 (frame m)" by simp
  ultimately have "recv q = Inr (None, q)"
    using recv_partial [of m q 0] frame_nonempty [of m] assms(1) by simp
  with Nil assms show ?thesis by simp
next
  case (Cons m ms0)
  then have m: "fits m" using assms(3) by simp
  show ?thesis
  proof (cases "length (content q) < length (frame m)")
    case True
    from assms(4) Cons
    have "take (length (content q)) (content q @ later)
        = take (length (content q)) (frame m @ concat (map frame ms0))" by simp
    with True have "content q = take (length (content q)) (frame m)" by simp
    with recv_partial [OF m assms(1) True] assms Cons True show ?thesis by simp
  next
    case False
    from assms(4) Cons have e: "content q @ later = frame m @ concat (map frame ms0)" by simp
    let ?rest = "drop (length (frame m)) (content q)"
    from False arg_cong [OF e, of "take (length (frame m))"]
      arg_cong [OF e, of "drop (length (frame m))"]
    have "take (length (frame m)) (content q) = frame m"
      and rest: "?rest @ later = concat (map frame ms0)" by simp_all
    then have "content q = frame m @ ?rest" by (metis append_take_drop_id)
    from recv_frame [OF m assms(1,2) this] obtain q' where
      "recv q = Inr (Some m, q')" "wf q'" "content q' = ?rest" "room q' n" by blast
    with Cons rest show ?thesis
      by (intro exI [of _ "Some m"] exI [of _ q'] exI [of _ ms0]) simp
  qed
qed

definition read_chunk :: "'q \<times> 'm list \<Rightarrow> byte list \<Rightarrow> ('q \<times> 'm list) res" where
  "read_chunk = (\<lambda>(q, ds) d. andThen (put q d) (\<lambda>q1. andThen (recv q1) (\<lambda>(r, q2).
     Inr (q2, ds @ (case r of None \<Rightarrow> [] | Some m \<Rightarrow> [m])))))"

lemma read_chunk_step:
  assumes "\<exists>m. fits m" and "wf q" and "room q (length d + n)" and "\<forall>m\<in>set ms. fits m"
    and "content q @ d @ later = concat (map frame ms)"
  obtains q' r ms' where "read_chunk (q, ds) d = Inr (q', ds @ r)" and "wf q'" and "room q' n"
    and "ms = r @ ms'" and "content q' @ later = concat (map frame ms')"
    and "length r \<le> 1"
    and "r = [] \<Longrightarrow> ms = [] \<or> length (content q') < length (frame (hd ms))"
proof -
  from put_ok [OF assms(2,3)] obtain q1 where q1: "put q d = Inr q1" "wf q1"
    "content q1 = content q @ d" "room q1 n" by blast
  from q1(3) assms(5) have "content q1 @ later = concat (map frame ms)" by simp
  from recv_stream [OF q1(2,4) assms(4) this assms(1)] obtain r q' ms'
    where "recv q1 = Inr (r, q')" "wf q'" "room q' n"
      "ms = (case r of None \<Rightarrow> [] | Some m \<Rightarrow> [m]) @ ms'"
      "content q' @ later = concat (map frame ms')"
      "r = None \<longrightarrow> q' = q1 \<and> (ms = [] \<or> length (content q1) < length (frame (hd ms)))" by blast
  with q1 show ?thesis
    by (intro that [of q' "case r of None \<Rightarrow> [] | Some m \<Rightarrow> [m]" ms'])
      (auto simp: read_chunk_def split: option.splits)
qed

lemma read_chunks_prefix:
  assumes "\<exists>m. fits m"
  shows "wf q \<Longrightarrow> room q (length (concat chunks)) \<Longrightarrow> \<forall>m\<in>set ms. fits m \<Longrightarrow>
    content q @ concat chunks = concat (map frame ms) \<Longrightarrow>
    \<exists>q' r ms'. run_all read_chunk (q, ds) chunks = Inr (q', ds @ r) \<and> ms = r @ ms'
      \<and> content q' = concat (map frame ms')
      \<and> (chunks \<noteq> [] \<and> r = [] \<longrightarrow> ms = [] \<or> length (content q') < length (frame (hd ms)))"
proof (induction chunks arbitrary: q ms ds)
  case Nil
  then show ?case by (intro exI [of _ q] exI [of _ "[]"] exI [of _ ms]) simp
next
  case (Cons d chunks)
  obtain q1 r1 ms1 where s: "read_chunk (q, ds) d = Inr (q1, ds @ r1)" "wf q1"
    "room q1 (length (concat chunks))" "ms = r1 @ ms1"
    "content q1 @ concat chunks = concat (map frame ms1)"
    "r1 = [] \<Longrightarrow> ms = [] \<or> length (content q1) < length (frame (hd ms))"
    by (rule read_chunk_step [OF assms Cons.prems(1), of d "length (concat chunks)" ms "concat chunks" ds])
      (use Cons.prems in auto)
  from s(4) Cons.prems(3) have "\<forall>m\<in>set ms1. fits m" by simp
  from Cons.IH [OF s(2,3) this s(5), of "ds @ r1"] obtain q' r ms' where
    "run_all read_chunk (q1, ds @ r1) chunks = Inr (q', (ds @ r1) @ r)" "ms1 = r @ ms'"
    "content q' = concat (map frame ms')"
    "chunks \<noteq> [] \<and> r = [] \<longrightarrow> ms1 = [] \<or> length (content q') < length (frame (hd ms1))" by blast
  with s show ?case
    by (intro exI [of _ q'] exI [of _ "r1 @ r"] exI [of _ ms']) (cases "chunks = []"; auto)
qed

text \<open>
  How many messages are handed over: \<open>handed_over ls n ds\<close> for frames of the lengths \<open>ls\<close>,
  with \<open>n\<close> bytes of the first one in the queue and read events that bring \<open>ds\<close> bytes. Each
  event hands over one message if the first frame is complete then, and none if it is not.
\<close>

lemma read_chunks_count:
  assumes "\<exists>m. fits m"
  shows "wf q \<Longrightarrow> room q (length (concat chunks)) \<Longrightarrow> \<forall>m\<in>set ms. fits m \<Longrightarrow>
    content q @ concat chunks @ later = concat (map frame ms) \<Longrightarrow>
    k = handed_over (map (\<lambda>m. length (frame m)) ms) (length (content q)) (map length chunks) \<Longrightarrow>
    \<exists>q'. run_all read_chunk (q, ds) chunks = Inr (q', ds @ take k ms)
      \<and> content q' @ later = concat (map frame (drop k ms))"
proof (induction chunks arbitrary: q ms ds k)
  case Nil
  then show ?case by simp
next
  case (Cons d chunks)
  obtain q1 r ms1 where s: "read_chunk (q, ds) d = Inr (q1, ds @ r)" "wf q1"
    "room q1 (length (concat chunks))" "ms = r @ ms1"
    "content q1 @ concat chunks @ later = concat (map frame ms1)" "length r \<le> 1"
    "r = [] \<Longrightarrow> ms = [] \<or> length (content q1) < length (frame (hd ms))"
    by (rule read_chunk_step [OF assms Cons.prems(1), of d "length (concat chunks)" ms
          "concat chunks @ later" ds]) (use Cons.prems in auto)
  have len: "length (content q) + length d = length (concat (map frame r)) + length (content q1)"
    using arg_cong [OF Cons.prems(4), of length] arg_cong [OF s(5), of length] s(4) by simp
  have fits1: "\<forall>m\<in>set ms1. fits m" using s(4) Cons.prems(3) by simp
  let ?h = "handed_over (map (\<lambda>m. length (frame m)) ms1) (length (content q1)) (map length chunks)"
  have k: "k = length r + ?h"
  proof (cases r)
    case Nil
    with s(4,7) len Cons.prems(5) show ?thesis by (cases ms) auto
  next
    case (Cons m r')
    with s(4,6) len Cons.prems(5) show ?thesis by (cases r') auto
  qed
  from Cons.IH [OF s(2,3) fits1 s(5) refl, of "ds @ r"] s(1,4) k show ?case by auto
qed

text \<open>A stream of one frame is delivered, whole, however it is cut.\<close>

lemma read_chunks_single:
  assumes "fits m" and "wf q" and "room q (length (concat chunks))" and "content q = []"
    and "concat chunks = frame m"
  shows "\<exists>q'. run_all read_chunk (q, []) chunks = Inr (q', [m]) \<and> content q' = []"
proof -
  have "chunks \<noteq> []" using frame_nonempty [OF assms(1)] assms(5) by auto
  moreover have "\<exists>m. fits m" and "\<forall>m\<in>set [m]. fits m"
    and "content q @ concat chunks = concat (map frame [m])" using assms by auto
  from read_chunks_prefix [OF this(1) assms(2,3) this(2,3), of "[]"] obtain q' r ms' where
    r: "run_all read_chunk (q, []) chunks = Inr (q', [] @ r)" "[m] = r @ ms'"
      "content q' = concat (map frame ms')"
      "chunks \<noteq> [] \<and> r = [] \<longrightarrow> [m] = [] \<or> length (content q') < length (frame (hd [m]))"
    by blast
  ultimately have "r \<noteq> []" by auto
  with r show ?thesis by (cases r) auto
qed

end

interpretation tcp_reader: framed_reader Buffer_wf Buffer_content Buffer_can_take Buffer_put_read
    Buffer_retrieve "frame_fits pb" "tcp_frame pb" "receiveTcpPbMsg pb" for pb :: "'m pb"
proof unfold_locales
  fix m q n rest
  assume "frame_fits pb m" "Buffer_wf q" "Buffer_can_take q n"
    "Buffer_content q = tcp_frame pb m @ rest"
  then show "\<exists>q'. receiveTcpPbMsg pb q = Inr (Some m, q') \<and> Buffer_wf q' \<and>
      Buffer_content q' = rest \<and> Buffer_can_take q' n" by (rule receiveTcpPbMsg_frame)
next
  fix m q k
  assume q: "frame_fits pb m" "Buffer_wf q" "k < length (tcp_frame pb m)"
    "Buffer_content q = take k (tcp_frame pb m)"
  show "receiveTcpPbMsg pb q = Inr (None, q)"
    by (rule receiveTcpPbMsg_partial [OF q(1,2,4,3)])
next
  fix m
  show "tcp_frame pb m \<noteq> []" by (simp add: tcp_frame_eq le_bytes_numeral)
qed

text \<open>
  One read event of a connection whose message callback is \<open>CommandServer::OnMessage\<close>:
  \<open>handleRead\<close> puts what arrived into the input buffer, the callback takes at most one
  request out of it. The second part of the state are the requests taken so far.
\<close>

definition OnMessage_chunk ::
  "'m pb \<Rightarrow> Buffer \<times> 'm list \<Rightarrow> byte list \<Rightarrow> (Buffer \<times> 'm list) res" where
  "OnMessage_chunk pb = (\<lambda>(buf, requests) chunk.
     andThen (Buffer_put_read buf chunk) (\<lambda>buf1.
       andThen (receiveTcpPbMsg pb buf1) (\<lambda>(request, buf2).
         Inr (buf2, requests @ (case request of None \<Rightarrow> [] | Some r \<Rightarrow> [r])))))"

lemma OnMessage_chunk_reader: "OnMessage_chunk pb = tcp_reader.read_chunk pb"
  by (simp add: OnMessage_chunk_def tcp_reader.read_chunk_def fun_eq_iff)

section \<open>The typed variant\<close>

definition tcp_frame_typed :: "'m pb \<Rightarrow> 32 word \<Rightarrow> 'm \<Rightarrow> byte list" where
  "tcp_frame_typed pb t m = concat (sendTcpPbMsg_typed pb m t)"

definition frame_fits_typed :: "'m pb \<Rightarrow> 'm \<Rightarrow> bool" where
  "frame_fits_typed pb m \<longleftrightarrow> frame_fits pb m \<and> ByteSizeLong pb m + 8 < 2 ^ 31"

lemma tcp_frame_typed_eq: "tcp_frame_typed pb t m = le_bytes 4 (hostToNetwork32 t)
    @ le_bytes 4 (hostToNetwork32 (of_nat (ByteSizeLong pb m))) @ SerializeAsString pb m"
  by (simp add: tcp_frame_typed_def sendTcpPbMsg_typed_def)

lemma typed_header:
  assumes "Buffer_wf b" and "Buffer_content b = le_bytes 4 (hostToNetwork32 t)
    @ le_bytes 4 (hostToNetwork32 n) @ rest"
  shows "networkToHost32 (le_word (take 4 (drop (Buffer_peek b) (buffer b)))) = t"
    and "networkToHost32 (le_word (take 4 (drop 4 (drop (Buffer_peek b) (buffer b))))) = n"
proof -
  from drop_peek_content [OF assms(1)] assms(2) obtain more
    where p: "drop (Buffer_peek b) (buffer b) = le_bytes 4 (hostToNetwork32 t)
      @ le_bytes 4 (hostToNetwork32 n) @ rest @ more" by auto
  have "take 4 (le_bytes 4 (hostToNetwork32 v) @ xs) = le_bytes 4 (hostToNetwork32 v)"
    and "drop 4 (le_bytes 4 (hostToNetwork32 v) @ xs) = xs" for v xs
    by (simp_all add: take_append_exact)
  then show "networkToHost32 (le_word (take 4 (drop (Buffer_peek b) (buffer b)))) = t"
    and "networkToHost32 (le_word (take 4 (drop 4 (drop (Buffer_peek b) (buffer b))))) = n"
    unfolding p by (simp_all del: drop_drop)
qed

lemma receiveTcpPbMsg_typed_frame:
  assumes fits: "frame_fits_typed pb m" and wf: "Buffer_wf b" and room: "Buffer_can_take b n"
    and c: "Buffer_content b = tcp_frame_typed pb t m @ rest"
  shows "\<exists>b'. receiveTcpPbMsg_typed pb b t = Inr (Some m, b') \<and> Buffer_wf b'
    \<and> Buffer_content b' = rest \<and> Buffer_can_take b' n"
proof -
  let ?n = "ByteSizeLong pb m"
  have m: "frame_fits pb m" and small: "?n + 8 < 2 ^ 31" and size: "?n = length (SerializeAsString pb m)"
    using fits by (auto simp: frame_fits_typed_def frame_fits_def pb_law_def)
  note c' = c [unfolded tcp_frame_typed_eq append_assoc]
  have len: "8 + ?n \<le> length (Buffer_content b)" using c' size by simp
  then obtain b1 where b1: "Buffer_retrieve b 8 = Inr b1" "Buffer_wf b1"
    "Buffer_content b1 = drop 8 (Buffer_content b)" "Buffer_can_take b1 n"
    using bq.off_ok [OF wf room, of 8] by auto
  then have c1: "Buffer_content b1 = SerializeAsString pb m @ rest" using c' by simp
  obtain b2 where b2: "Buffer_retrieve b1 ?n = Inr b2" "Buffer_wf b2"
    "Buffer_content b2 = drop ?n (Buffer_content b1)" "Buffer_can_take b2 n"
    using bq.off_ok [OF b1(2,4), of ?n] c1 size by auto
  have "unat (8 + of_nat ?n :: 32 word) = 8 + ?n" and "unat (of_nat ?n :: 32 word) = ?n"
    using small unat_of_nat_small [of "8 + ?n"] by (simp_all add: unat_of_nat_small)
  moreover have "sint (of_nat ?n :: 32 word) = int ?n" using small by (intro sint_of_nat_small) simp
  moreover have "ParseFromArray pb (drop (Buffer_peek b1) (buffer b1)) (int ?n) = Some m"
    by (rule ParseFromArray_content [OF m b1(2) c1])
  ultimately have "receiveTcpPbMsg_typed pb b t = Inr (Some m, b2)"
    using wf len b1(1) b2(1) typed_header [OF wf c']
    by (simp add: receiveTcpPbMsg_typed_def del: length_Buffer_content drop_drop)
  with b2 c1 size show ?thesis by simp
qed

lemma receiveTcpPbMsg_typed_partial:
  assumes fits: "frame_fits_typed pb m" and wf: "Buffer_wf b"
    and c: "Buffer_content b = take k (tcp_frame_typed pb t m)" and k: "k < length (tcp_frame_typed pb t m)"
  shows "receiveTcpPbMsg_typed pb b t = Inr (None, b)"
proof (cases "k < 8")
  case True
  then have "length (Buffer_content b) < 8" using c k by (simp del: length_Buffer_content)
  with wf show ?thesis by (simp add: receiveTcpPbMsg_typed_def del: length_Buffer_content)
next
  case False
  let ?n = "ByteSizeLong pb m"
  have small: "?n + 8 < 2 ^ 31" and size: "?n = length (SerializeAsString pb m)"
    using fits by (auto simp: frame_fits_typed_def frame_fits_def pb_law_def)
  from False have c': "Buffer_content b = le_bytes 4 (hostToNetwork32 t)
      @ le_bytes 4 (hostToNetwork32 (of_nat ?n)) @ take (k - 8) (SerializeAsString pb m)"
    unfolding c tcp_frame_typed_eq by simp
  have "unat (8 + of_nat ?n :: 32 word) = 8 + ?n"
    using small unat_of_nat_small [of "8 + ?n"] by simp
  moreover have "length (Buffer_content b) < 8 + ?n" and "8 \<le> length (Buffer_content b)"
    using c k size False by (simp_all add: tcp_frame_typed_eq del: length_Buffer_content)
  ultimately show ?thesis using wf typed_header [OF wf c']
    by (simp add: receiveTcpPbMsg_typed_def del: length_Buffer_content drop_drop)
qed

interpretation tcp_typed_reader: framed_reader Buffer_wf Buffer_content Buffer_can_take Buffer_put_read
    Buffer_retrieve "frame_fits_typed pb" "tcp_frame_typed pb t" "\<lambda>b. receiveTcpPbMsg_typed pb b t"
    for pb :: "'m pb" and t :: "32 word"
proof unfold_locales
  fix m q n rest
  assume "frame_fits_typed pb m" "Buffer_wf q" "Buffer_can_take q n"
    "Buffer_content q = tcp_frame_typed pb t m @ rest"
  then show "\<exists>q'. receiveTcpPbMsg_typed pb q t = Inr (Some m, q') \<and> Buffer_wf q' \<and>
      Buffer_content q' = rest \<and> Buffer_can_take q' n" by (rule receiveTcpPbMsg_typed_frame)
next
  fix m q k
  assume q: "frame_fits_typed pb m" "Buffer_wf q" "k < length (tcp_frame_typed pb t m)"
    "Buffer_content q = take k (tcp_frame_typed pb t m)"
  show "receiveTcpPbMsg_typed pb q t = Inr (None, q)"
    by (rule receiveTcpPbMsg_typed_partial [OF q(1,2,4,3)])
next
  fix m
  show "tcp_frame_typed pb t m \<noteq> []" by (simp add: tcp_frame_typed_eq le_bytes_numeral)
qed

section \<open>Frames in RDMA buffers\<close>

lemma word_of_nat_le_iff: "m < 2 ^ 32 \<Longrightarrow> (of_nat m \<le> (c :: 32 word)) \<longleftrightarrow> m \<le> unat c"
  by (simp add: word_le_nat_alt unat_of_nat_small)

lemma serializeRdmaPbMsg_small:
  assumes m: "frame_fits pb m" and cap: "unat send_cap < 4 + ByteSizeLong pb m"
  shows "serializeRdmaPbMsg pb send_buf send_cap m = Inr (- 1, send_buf)"
proof -
  let ?n = "ByteSizeLong pb m"
  have small: "?n + 4 < 2 ^ 31" using m by (simp add: frame_fits_def kFrameHeaderLen_def)
  then have "sint (of_nat ?n :: 32 word) = int ?n" by (intro sint_of_nat_small) simp
  moreover have "send_cap < 4 + of_nat ?n"
    using small cap word_of_nat_le_iff [of "4 + ?n" send_cap] by (simp add: not_le [symmetric])
  ultimately show ?thesis using small by (simp add: serializeRdmaPbMsg_def kFrameHeaderLen_def)
qed

lemma serializeRdmaPbMsg_ok:
  assumes m: "frame_fits pb m" and cap: "4 + ByteSizeLong pb m \<le> unat send_cap"
    and mem: "unat send_cap \<le> length send_buf"
  shows "serializeRdmaPbMsg pb send_buf send_cap m = Inr (int (4 + ByteSizeLong pb m),
    le_bytes 4 (of_nat (ByteSizeLong pb m) :: 32 word) @ SerializeAsString pb m
      @ drop (4 + ByteSizeLong pb m) send_buf)"
proof -
  let ?n = "ByteSizeLong pb m"
  have small: "?n + 4 < 2 ^ 31" and size: "?n = length (SerializeAsString pb m)"
    and ser: "SerializeToArray pb (int ?n) m = Some (SerializeAsString pb m)"
    using m by (auto simp: frame_fits_def kFrameHeaderLen_def pb_law_def)
  have "sint (of_nat ?n :: 32 word) = int ?n" using small by (intro sint_of_nat_small) simp
  moreover have "\<not> send_cap < 4 + of_nat ?n"
    using small cap word_of_nat_le_iff [of "4 + ?n" send_cap] by (simp add: not_less)
  moreover have "overwrite (overwrite send_buf 0 (le_bytes 4 (of_nat ?n :: 32 word))) 4
        (SerializeAsString pb m)
      = le_bytes 4 (of_nat ?n :: 32 word) @ SerializeAsString pb m @ drop (4 + ?n) send_buf"
    using size by (simp add: overwrite_def add.commute)
  ultimately show ?thesis using small cap mem size ser
    by (simp add: serializeRdmaPbMsg_def kFrameHeaderLen_def Let_def)
qed

lemma parseRdmaPbMsg_frame:
  assumes m: "frame_fits pb m" and len: "4 + ByteSizeLong pb m \<le> unat recv_len"
  shows "parseRdmaPbMsg pb (le_bytes 4 (of_nat (ByteSizeLong pb m) :: 32 word)
      @ SerializeAsString pb m @ rest) recv_len = Inr (int (4 + ByteSizeLong pb m), Some m)"
proof -
  let ?n = "ByteSizeLong pb m"
  have small: "?n + 4 < 2 ^ 31"
    and parse: "ParseFromArray pb (SerializeAsString pb m @ rest) (int ?n) = Some m"
    using m by (auto simp: frame_fits_def kFrameHeaderLen_def pb_law_def)
  have "sint (of_nat ?n :: 32 word) = int ?n" using small by (intro sint_of_nat_small) simp
  moreover have "\<not> recv_len < of_nat (4 + ?n)" and "\<not> recv_len < of_nat kFrameHeaderLen"
    using small len word_of_nat_le_iff [of "4 + ?n" recv_len] word_of_nat_le_iff [of 4 recv_len]
    by (simp_all add: not_less kFrameHeaderLen_def)
  moreover have "take 4 (le_bytes 4 (of_nat ?n :: 32 word) @ SerializeAsString pb m @ rest)
      = le_bytes 4 (of_nat ?n :: 32 word)" by (simp add: take_append_exact)
  ultimately show ?thesis using small parse
    by (simp add: parseRdmaPbMsg_def kFrameHeaderLen_def add.commute)
qed

section \<open>Properties\<close>

text \<open>
  A message type for the examples: a byte string that is its own serialization, parsed from
  as many bytes as the caller says.
\<close>

definition raw_pb :: "byte list pb" where
  "raw_pb = \<lparr>ByteSizeLong = length, SerializeAsString = (\<lambda>m. m),
     SerializeToArray = (\<lambda>n m. if int (length m) \<le> n then Some m else None),
     ParseFromArray = (\<lambda>mem n. if 0 \<le> n \<and> n \<le> int (length mem) then Some (take (nat n) mem) else None)\<rparr>"

lemma raw_pb_fits: "length m + 4 < 2 ^ 31 \<Longrightarrow> frame_fits raw_pb m"
  by (simp add: frame_fits_def pb_law_def raw_pb_def kFrameHeaderLen_def)

text \<open>
  C2. A request is received exactly once, however TCP cuts it: if the chunks read from a
  connection concatenate to what \<open>sendTcpPbMsg\<close> sent for one message, the read events of
  the connection hand over that message, once, and leave the input buffer empty.
\<close>

theorem single_request_delivered:
  assumes "frame_fits pb m" and "concat chunks = concat (sendTcpPbMsg pb m)"
  shows "\<exists>b'. run_all (OnMessage_chunk pb) (empty_buffer, []) chunks = Inr (b', [m])
    \<and> Buffer_content b' = []"
proof -
  have "length (concat chunks) + 8 \<le> vector_max"
    using assms length_tcp_frame [OF assms(1)]
    by (simp add: frame_fits_def vector_max_def tcp_frame_def kFrameHeaderLen_def)
  then show ?thesis
    using tcp_reader.read_chunks_single [OF assms(1), of empty_buffer chunks] assms(2)
    by (simp add: empty_buffer_wf OnMessage_chunk_reader tcp_frame_def)
qed

theorem single_request_delivered_witness:
  "\<exists>b'. run_all (OnMessage_chunk raw_pb) (empty_buffer, []) [[0, 0], [0], [3, 7, 8], [9]] = Inr (b', [[7, 8, 9]])"
proof -
  have "frame_fits raw_pb [7, 8, 9]" by (rule raw_pb_fits) simp
  moreover have "concat [[0, 0], [0], [3, 7, 8], [9]] = concat (sendTcpPbMsg raw_pb [7, 8, 9])"
    by (simp add: sendTcpPbMsg_def raw_pb_def hostToNetwork_big_endian)
      (simp add: le_bytes_numeral)
  ultimately show ?thesis
    using single_request_delivered [of raw_pb "[7, 8, 9]" "[[0, 0], [0], [3, 7, 8], [9]]"] by blast
qed

text \<open>
  C25. Several messages sent on one connection are received in order and unaltered, whatever
  the chunks, and it is known how many: at every moment of the stream (\<open>later\<close> is still under
  way) the messages handed over are the first \<open>k\<close>, where each read event adds one to \<open>k\<close> exactly
  if the frame of the next message is complete in the buffer then; the input buffer and what is
  under way are exactly the frames of the others. In particular, when no read event brings bytes
  of two messages, all messages sent have been handed over.
\<close>

theorem requests_in_order:
  assumes "\<forall>m\<in>set ms. frame_fits pb m" and "frame_fits pb m0"
    and "concat chunks @ later = concat (map (\<lambda>m. concat (sendTcpPbMsg pb m)) ms)"
    and "length (concat chunks) + kCheapPrepend \<le> vector_max"
    and "k = handed_over (map (\<lambda>m. length (concat (sendTcpPbMsg pb m))) ms) 0 (map length chunks)"
  shows "\<exists>b'. run_all (OnMessage_chunk pb) (empty_buffer, []) chunks = Inr (b', take k ms)
    \<and> Buffer_content b' @ later = concat (map (\<lambda>m. concat (sendTcpPbMsg pb m)) (drop k ms))
    \<and> (\<forall>parts. chunks = concat parts
         \<and> map concat parts = map (\<lambda>m. concat (sendTcpPbMsg pb m)) ms \<longrightarrow> take k ms = ms)"
proof -
  have fr: "(\<lambda>m. concat (sendTcpPbMsg pb m)) = tcp_frame pb" by (simp add: fun_eq_iff tcp_frame_def)
  from assms(2) have ex: "\<exists>m. frame_fits pb m" by blast
  have k: "k = handed_over (map (\<lambda>m. length (tcp_frame pb m)) ms) (length (Buffer_content empty_buffer))
      (map length chunks)"
    using assms(5) by (simp add: empty_buffer_wf tcp_frame_def)
  have all: "take k ms = ms" if p: "chunks = concat parts" "map concat parts = map (tcp_frame pb) ms"
    for parts
  proof -
    let ?ds = "map (map length) parts"
    have "map sum_list ?ds = map length (map concat parts)" by (simp add: length_concat)
    then have eq: "map sum_list ?ds = map (\<lambda>m. length (tcp_frame pb m)) ms" unfolding p(2) by simp
    have pos: "0 < l" if "l \<in> set (map sum_list ?ds)" for l
      using that assms(1) unfolding eq by (auto simp: length_tcp_frame)
    have "k = handed_over (map sum_list ?ds) 0 (concat ?ds)"
      unfolding k eq p(1) by (simp add: empty_buffer_wf map_concat)
    also have "\<dots> = length ?ds" by (rule handed_over_frames) (use pos in auto)
    also have "\<dots> = length ms" using arg_cong [OF p(2), of length] by simp
    finally show ?thesis by simp
  qed
  show ?thesis
    using tcp_reader.read_chunks_count [OF ex, of empty_buffer chunks ms later k "[]"] assms(1,3,4) k all
    unfolding fr by (auto simp: empty_buffer_wf OnMessage_chunk_reader kCheapPrepend_def)
qed

theorem requests_in_order_witness:
  "(\<exists>b'. run_all (OnMessage_chunk raw_pb) (empty_buffer, []) [[0, 0, 0, 1, 7, 0], [0, 0, 1, 8]]
      = Inr (b', [[7], [8]]))
   \<and> (\<exists>b'. run_all (OnMessage_chunk raw_pb) (empty_buffer, []) [[0, 0, 0, 1, 7, 0, 0, 0, 1, 8]]
      = Inr (b', [[7]]) \<and> Buffer_content b' = [0, 0, 0, 1, 8])"
proof -
  have fits: "\<forall>m\<in>set [[7], [8]]. frame_fits raw_pb m" "frame_fits raw_pb [7]"
    by (auto intro: raw_pb_fits)
  have frames: "concat (sendTcpPbMsg raw_pb [7]) = [0, 0, 0, 1, 7]"
    "concat (sendTcpPbMsg raw_pb [8]) = [0, 0, 0, 1, 8]"
    by (simp add: sendTcpPbMsg_def raw_pb_def hostToNetwork_big_endian, simp add: le_bytes_numeral)+
  let ?one = "[[0, 0, 0, 1, 7, 0], [0, 0, 1, 8 :: byte]]" and ?two = "[[0, 0, 0, 1, 7, 0, 0, 0, 1, 8 :: byte]]"
  have vm: "(18 :: nat) \<le> vector_max" by (simp add: vector_max_def)
  have k: "2 = handed_over (map (\<lambda>m. length (concat (sendTcpPbMsg raw_pb m))) [[7], [8]]) 0 (map length ?one)"
    "1 = handed_over (map (\<lambda>m. length (concat (sendTcpPbMsg raw_pb m))) [[7], [8]]) 0 (map length ?two)"
    by (simp_all add: frames)
  have "concat ?one @ [] = concat (map (\<lambda>m. concat (sendTcpPbMsg raw_pb m)) [[7], [8]])"
    and "concat ?two @ [] = concat (map (\<lambda>m. concat (sendTcpPbMsg raw_pb m)) [[7], [8]])"
    and "length (concat ?one) + kCheapPrepend \<le> vector_max" "length (concat ?two) + kCheapPrepend \<le> vector_max"
    using vm by (simp_all add: frames kCheapPrepend_def)
  note r = requests_in_order [OF fits this(1,3) k(1)] requests_in_order [OF fits this(2,4) k(2)]
  from r(1) have "\<exists>b'. run_all (OnMessage_chunk raw_pb) (empty_buffer, []) ?one = Inr (b', [[7], [8]])"
    by auto
  moreover from r(2) have "\<exists>b'. run_all (OnMessage_chunk raw_pb) (empty_buffer, []) ?two = Inr (b', [[7]])
      \<and> Buffer_content b' = [0, 0, 0, 1, 8]" by (auto simp: frames)
  ultimately show ?thesis by blast
qed

text \<open>
  C26. An RDMA frame round trips, and a message that does not fit is refused: into a buffer
  with room the serializer stores a frame whose length it returns, from which the parser
  recovers the message and the same length, leaving the bytes behind it alone; into a smaller
  one it stores nothing and returns -1.
\<close>

theorem rdma_frame_roundtrip:
  assumes "frame_fits pb m" and "unat cap \<le> length mem"
  shows "if unat cap < 4 + ByteSizeLong pb m
    then serializeRdmaPbMsg pb mem cap m = Inr (- 1, mem)
    else \<exists>mem'. serializeRdmaPbMsg pb mem cap m = Inr (int (4 + ByteSizeLong pb m), mem')
      \<and> length mem' = length mem
      \<and> drop (4 + ByteSizeLong pb m) mem' = drop (4 + ByteSizeLong pb m) mem
      \<and> parseRdmaPbMsg pb mem' (of_nat (4 + ByteSizeLong pb m))
          = Inr (int (4 + ByteSizeLong pb m), Some m)"
proof -
  let ?n = "ByteSizeLong pb m"
  have size: "?n = length (SerializeAsString pb m)" and "?n + 4 < 2 ^ 31"
    using assms(1) by (auto simp: frame_fits_def pb_law_def kFrameHeaderLen_def)
  then have "unat (of_nat (4 + ?n) :: 32 word) = 4 + ?n" by (intro unat_of_nat_small) simp
  then have "4 + ?n \<le> unat (of_nat (4 + ?n) :: 32 word)" by simp
  note parse = parseRdmaPbMsg_frame [OF assms(1) this]
  show ?thesis
  proof (cases "unat cap < 4 + ?n")
    case True
    with serializeRdmaPbMsg_small [OF assms(1)] show ?thesis by simp
  next
    case False
    with serializeRdmaPbMsg_ok [OF assms(1) _ assms(2)] parse size assms(2) show ?thesis
      by (simp del: of_nat_add)
  qed
qed

theorem rdma_frame_roundtrip_witness:
  "\<exists>mem'. serializeRdmaPbMsg raw_pb (replicate 16 0) 16 [7, 8, 9] = Inr (7, mem')
    \<and> parseRdmaPbMsg raw_pb mem' 7 = Inr (7, Some [7, 8, 9])"
proof -
  have "frame_fits raw_pb [7, 8, 9]" by (rule raw_pb_fits) simp
  moreover have "ByteSizeLong raw_pb [7, 8, 9] = 3" by (simp add: raw_pb_def)
  ultimately show ?thesis
    using rdma_frame_roundtrip [of raw_pb "[7, 8, 9]" "16" "replicate 16 0"] by auto
qed

text \<open>
  C27. What a length that no sender produces does to the TCP receiver. A complete frame has at
  least the four bytes of its length in the buffer; then, for every parser: with a length below
  -4 the receiver reports an incomplete message and leaves the buffer as it is, however much
  data follows, so the connection is stuck; with a length from -4 to -1 the size test passes and
  the parser is called with a negative size, which is undefined; and with a length within four
  of the largest \<open>int\<close> the addition overflows, which is undefined as well.
\<close>

theorem receiveTcpPbMsg_corrupt_length:
  assumes wf: "Buffer_wf b" and c: "Buffer_content b = le_bytes 4 (hostToNetwork32 n) @ rest"
  shows "(sint n < - 4 \<longrightarrow> receiveTcpPbMsg pb b = Inr (None, b))
    \<and> (- 4 \<le> sint n \<and> sint n < 0 \<longrightarrow> receiveTcpPbMsg pb b = Inl Undefined_behaviour)
    \<and> (2 ^ 31 - 4 \<le> sint n \<longrightarrow> receiveTcpPbMsg pb b = Inl Undefined_behaviour)"
proof -
  obtain b1 where b1: "Buffer_peekInt32 b = Inr n" "Buffer_readInt32 b = Inr (n, b1)"
    "Buffer_wf b1" "Buffer_content b1 = rest"
    by (rule Buffer_readInt32_content [OF wf c])
  have len: "4 \<le> length (Buffer_content b)" using c by simp
  have bound: "length (Buffer_content b) < 2 ^ 63" using Buffer_wfD [OF wf] wf by simp
  have low: "- (2 ^ 31) \<le> sint n" using sint_ge [of n] by simp
  have "receiveTcpPbMsg pb b = Inl Undefined_behaviour" if "2 ^ 31 - 4 \<le> sint n"
    using that wf len b1(1)
    by (simp add: receiveTcpPbMsg_def kFrameHeaderLen_def del: length_Buffer_content)
  moreover have "receiveTcpPbMsg pb b = Inr (None, b)" if "sint n < - 4"
  proof -
    have "size_of_int (4 + sint n) = nat (4 + sint n + 2 ^ 64)"
      using that low by (intro size_of_int_neg) auto
    then have "length (Buffer_content b) < size_of_int (4 + sint n)" using bound low by simp
    with that wf len b1(1) show ?thesis
      by (simp add: receiveTcpPbMsg_def kFrameHeaderLen_def del: length_Buffer_content)
  qed
  moreover have "receiveTcpPbMsg pb b = Inl Undefined_behaviour" if neg: "- 4 \<le> sint n" "sint n < 0"
  proof -
    have "size_of_int (4 + sint n) = nat (4 + sint n)" using neg by (intro size_of_int_nonneg) auto
    moreover have "\<not> length (Buffer_content b) < nat (4 + sint n)" using len neg by linarith
    ultimately show ?thesis using neg wf len b1
      by (simp add: receiveTcpPbMsg_def kFrameHeaderLen_def del: length_Buffer_content)
  qed
  ultimately show ?thesis by blast
qed

text \<open>
  A parser that returns on a negative size does not help: the statement behind it asks to
  retrieve a huge number of bytes, which fails its assertion.
\<close>

lemma retrieve_negative_length:
  assumes "Buffer_wf b" and "- 4 \<le> i" and "i < 0"
  shows "Buffer_retrieve b (size_of_int i) = Inl Assert_failed"
proof -
  have "size_of_int i = nat (i + 2 ^ 64)" using assms(2,3) by (intro size_of_int_neg) auto
  then have "length (Buffer_content b) < size_of_int i"
    using Buffer_wfD [OF assms(1)] assms by simp
  then show ?thesis by (rule Buffer_retrieve_fails [OF assms(1)])
qed

definition corrupt_sample :: Buffer where
  "corrupt_sample = \<lparr>buffer = [0, 0, 0, 0, 0, 0, 0, 0, 255, 255, 255, 254, 1],
     readerIndex = 8, writerIndex = 13\<rparr>"

theorem receiveTcpPbMsg_corrupt_length_witness:
  "receiveTcpPbMsg raw_pb corrupt_sample = Inl Undefined_behaviour"
proof -
  have "Buffer_wf corrupt_sample"
    by (simp add: corrupt_sample_def Buffer_wf_def kCheapPrepend_def vector_max_def)
  moreover have "Buffer_content corrupt_sample = le_bytes 4 (hostToNetwork32 0xFFFFFFFE) @ [1]"
    by (simp only: hostToNetwork_big_endian)
      (simp add: corrupt_sample_def Buffer_content_def le_bytes_numeral)
  moreover have "sint (0xFFFFFFFE :: 32 word) = - 2" by simp
  ultimately show ?thesis
    using receiveTcpPbMsg_corrupt_length [of corrupt_sample "0xFFFFFFFE" "[1]" raw_pb] by simp
qed

end
