(* ===== verification/Timer_Queue.thy ===== *)
theory Timer_Queue
  imports Poby_Prelude Complex_Main "HOL-Library.Product_Lexorder"
begin

text \<open>
  Timers: \<^verbatim>\<open>src/src/network/Timestamp.h\<close>, \<^verbatim>\<open>Timestamp.cc\<close>, \<^verbatim>\<open>Timer.h\<close>, \<^verbatim>\<open>Timer.cc\<close>,
  \<^verbatim>\<open>TimerId.h\<close>, \<^verbatim>\<open>TimerQueue.h\<close> and \<^verbatim>\<open>TimerQueue.cc\<close>. A timer is a heap object named by its
  address; the queue keeps two ordered sets of them (by expiration and by address) and the
  alarm of a timer descriptor. The lemmas show that the sets and the heap stay in step
  whatever callbacks add and cancel, that no deleted timer is used, that exactly the due timers
  run, and that the alarm is never later than the earliest timer.
\<close>

section \<open>Time (network/Timestamp.h)\<close>

datatype Timestamp = Timestamp (microSecondsSinceEpoch: int)

definition Timestamp_less :: "Timestamp \<Rightarrow> Timestamp \<Rightarrow> bool" where
  "Timestamp_less lhs rhs \<longleftrightarrow> microSecondsSinceEpoch lhs < microSecondsSinceEpoch rhs"

instantiation Timestamp :: linorder
begin

definition less_Timestamp :: "Timestamp \<Rightarrow> Timestamp \<Rightarrow> bool" where
  "less_Timestamp lhs rhs \<longleftrightarrow> Timestamp_less lhs rhs"

definition less_eq_Timestamp :: "Timestamp \<Rightarrow> Timestamp \<Rightarrow> bool" where
  "less_eq_Timestamp lhs rhs \<longleftrightarrow> microSecondsSinceEpoch lhs \<le> microSecondsSinceEpoch rhs"

instance
proof
  fix x y :: Timestamp
  show "x \<le> y \<Longrightarrow> y \<le> x \<Longrightarrow> x = y"
    by (cases x; cases y) (simp add: less_eq_Timestamp_def)
qed (auto simp: less_eq_Timestamp_def less_Timestamp_def Timestamp_less_def)

end

definition kMicroSecondsPerSecond :: int where
  "kMicroSecondsPerSecond = 1000 * 1000"

definition Timestamp_invalid :: Timestamp where
  "Timestamp_invalid = Timestamp 0"

definition Timestamp_valid :: "Timestamp \<Rightarrow> bool" where
  "Timestamp_valid t \<longleftrightarrow> microSecondsSinceEpoch t > 0"

definition Timestamp_fromUnixTime :: "int \<Rightarrow> int \<Rightarrow> Timestamp" where
  "Timestamp_fromUnixTime t microseconds = Timestamp (t * kMicroSecondsPerSecond + microseconds)"

text \<open>C++ division truncates toward zero.\<close>

definition trunc_div :: "int \<Rightarrow> int \<Rightarrow> int" where
  "trunc_div a b = (if 0 \<le> a then a div b else - ((- a) div b))"

definition Timestamp_secondsSinceEpoch :: "Timestamp \<Rightarrow> int" where
  "Timestamp_secondsSinceEpoch t = trunc_div (microSecondsSinceEpoch t) kMicroSecondsPerSecond"

text \<open>\<open>now()\<close> from the two fields \<open>gettimeofday\<close> stores.\<close>

definition Timestamp_now :: "int \<Rightarrow> int \<Rightarrow> Timestamp" where
  "Timestamp_now tv_sec tv_usec = Timestamp (tv_sec * kMicroSecondsPerSecond + tv_usec)"

text \<open>
  Intervals are \<open>double\<close> seconds. They are rationals here, and the conversion to
  microseconds truncates as the cast does; the rounding of the product is not modelled.
\<close>

definition trunc_rat :: "rat \<Rightarrow> int" where
  "trunc_rat x = (if 0 \<le> x then \<lfloor>x\<rfloor> else \<lceil>x\<rceil>)"

definition timeDifference :: "Timestamp \<Rightarrow> Timestamp \<Rightarrow> rat" where
  "timeDifference high low =
     of_int (microSecondsSinceEpoch high - microSecondsSinceEpoch low) / of_int kMicroSecondsPerSecond"

definition addTime :: "Timestamp \<Rightarrow> rat \<Rightarrow> Timestamp" where
  "addTime timestamp seconds =
     (let delta = trunc_rat (seconds * of_int kMicroSecondsPerSecond) in
      Timestamp (microSecondsSinceEpoch timestamp + delta))"

section \<open>Timers (network/Timer.h)\<close>

record Timer =
  expiration :: Timestamp
  interval :: rat
  repeat :: bool
  sequence :: int

definition Timer_new :: "Timestamp \<Rightarrow> rat \<Rightarrow> int \<Rightarrow> Timer" where
  "Timer_new when intrvl s_numCreated =
     \<lparr>expiration = when, interval = intrvl, repeat = (intrvl > 0), sequence = s_numCreated\<rparr>"

definition Timer_restart :: "Timer \<Rightarrow> Timestamp \<Rightarrow> Timer" where
  "Timer_restart t now =
     (if repeat t then t\<lparr>expiration := addTime now (interval t)\<rparr>
      else t\<lparr>expiration := Timestamp_invalid\<rparr>)"

record TimerId =
  timer :: nat
  tid_sequence :: int

section \<open>Ordered sets\<close>

text \<open>\<open>std::set\<close> is a strictly increasing list.\<close>

definition sset_insert :: "'a::linorder \<Rightarrow> 'a list \<Rightarrow> bool \<times> 'a list" where
  "sset_insert x xs = (if x \<in> set xs then (False, xs) else (True, insort x xs))"

definition sset_erase :: "'a::linorder \<Rightarrow> 'a list \<Rightarrow> nat \<times> 'a list" where
  "sset_erase x xs = (if x \<in> set xs then (1, remove1 x xs) else (0, xs))"

definition sset_lower_bound :: "'a::linorder \<Rightarrow> 'a list \<Rightarrow> 'a list \<times> 'a list" where
  "sset_lower_bound x xs = (takeWhile (\<lambda>y. y < x) xs, dropWhile (\<lambda>y. y < x) xs)"

section \<open>The queue (network/TimerQueue.h)\<close>

text \<open>
  \<open>UINTPTR_MAX\<close> is the largest address. \<open>timer_heap\<close> are the live timer objects and
  \<open>s_numCreated\<close> is the counter behind their sequence numbers. \<open>alarm\<close> is the expiration the
  timer descriptor was last set for, with the delay handed to \<open>timerfd_settime\<close>; reading the
  descriptor when it fires clears it.
\<close>

definition UINTPTR_MAX :: nat where
  "UINTPTR_MAX = 2 ^ 64 - 1"

type_synonym Entry = "Timestamp \<times> nat"
type_synonym ActiveTimer = "nat \<times> int"

record TimerQueue =
  timers :: "Entry list"
  activeTimers :: "ActiveTimer list"
  callingExpiredTimers :: bool
  cancelingTimers :: "ActiveTimer list"
  timer_heap :: "nat \<Rightarrow> Timer option"
  s_numCreated :: int
  alarm :: "(Timestamp \<times> int \<times> int) option"

definition TimerQueue_new :: "int \<Rightarrow> TimerQueue" where
  "TimerQueue_new created = \<lparr>timers = [], activeTimers = [], callingExpiredTimers = False,
     cancelingTimers = [], timer_heap = Map.empty, s_numCreated = created, alarm = None\<rparr>"

definition howMuchTimeFromNow :: "Timestamp \<Rightarrow> Timestamp \<Rightarrow> int \<times> int" where
  "howMuchTimeFromNow when clock =
     (let us = microSecondsSinceEpoch when - microSecondsSinceEpoch clock;
          microseconds = (if us < 100 then 100 else us)
      in (microseconds div kMicroSecondsPerSecond, (microseconds mod kMicroSecondsPerSecond) * 1000))"

text \<open>
  The same computations at their width: every intermediate value is an \<open>int64_t\<close>, and an
  operation or a cast whose result is none is undefined. The queue is modelled with the
  unbounded versions; \<open>howMuchTimeFromNow64_eq\<close> and \<open>addTime64_eq\<close> say that they are the same
  as long as the times are between the epoch and \<open>2 ^ 62\<close> microseconds, which is the year 148108.
\<close>

definition fits64 :: "int \<Rightarrow> bool" where
  "fits64 i \<longleftrightarrow> - (2 ^ 63) \<le> i \<and> i < 2 ^ 63"

definition howMuchTimeFromNow64 :: "Timestamp \<Rightarrow> Timestamp \<Rightarrow> (int \<times> int) res" where
  "howMuchTimeFromNow64 when clock =
     (let us = microSecondsSinceEpoch when - microSecondsSinceEpoch clock in
      defined_if (fits64 us)
        (let microseconds = (if us < 100 then 100 else us);
             nsec = (microseconds mod kMicroSecondsPerSecond) * 1000
         in defined_if (fits64 nsec) (Inr (microseconds div kMicroSecondsPerSecond, nsec))))"

definition addTime64 :: "Timestamp \<Rightarrow> rat \<Rightarrow> Timestamp res" where
  "addTime64 timestamp seconds =
     (let delta = trunc_rat (seconds * of_int kMicroSecondsPerSecond) in
      defined_if (fits64 delta)
        (let us = microSecondsSinceEpoch timestamp + delta in
         defined_if (fits64 us) (Inr (Timestamp us))))"

lemma howMuchTimeFromNow64_eq:
  "howMuchTimeFromNow64 when clock =
     (if fits64 (microSecondsSinceEpoch when - microSecondsSinceEpoch clock)
      then Inr (howMuchTimeFromNow when clock) else Inl Undefined_behaviour)"
proof -
  have "fits64 ((m mod kMicroSecondsPerSecond) * 1000)" for m
  proof -
    have "0 \<le> m mod 1000000" and "m mod 1000000 < 1000000" by simp_all
    then show ?thesis by (auto simp: kMicroSecondsPerSecond_def fits64_def)
  qed
  then show ?thesis by (simp add: howMuchTimeFromNow64_def howMuchTimeFromNow_def Let_def)
qed

lemma addTime64_eq:
  assumes "0 \<le> microSecondsSinceEpoch t" and "microSecondsSinceEpoch t < 2 ^ 62"
    and "0 \<le> trunc_rat (s * of_int kMicroSecondsPerSecond)"
    and "trunc_rat (s * of_int kMicroSecondsPerSecond) \<le> 2 ^ 62"
  shows "addTime64 t s = Inr (addTime t s)"
  using assms by (simp add: addTime64_def addTime_def fits64_def Let_def)

definition resetTimerfd :: "TimerQueue \<Rightarrow> Timestamp \<Rightarrow> Timestamp \<Rightarrow> TimerQueue" where
  "resetTimerfd q expirn clock =
     q\<lparr>alarm := Some (expirn, fst (howMuchTimeFromNow expirn clock),
                      snd (howMuchTimeFromNow expirn clock))\<rparr>"

definition readTimerfd :: "TimerQueue \<Rightarrow> TimerQueue" where
  "readTimerfd q = q\<lparr>alarm := None\<rparr>"

definition deref_timer :: "TimerQueue \<Rightarrow> nat \<Rightarrow> Timer res" where
  "deref_timer q p = (case timer_heap q p of None \<Rightarrow> Inl Undefined_behaviour | Some t \<Rightarrow> Inr t)"

definition sets_agree_in_size :: "TimerQueue \<Rightarrow> bool" where
  "sets_agree_in_size q \<longleftrightarrow> length (timers q) = length (activeTimers q)"

definition TimerQueue_insert :: "TimerQueue \<Rightarrow> nat \<Rightarrow> (bool \<times> TimerQueue) res" where
  "TimerQueue_insert q p =
     asserting (sets_agree_in_size q)
       (andThen (deref_timer q p) (\<lambda>t.
         let when = expiration t;
             earliestChanged = (timers q = [] \<or> when < fst (hd (timers q)));
             r1 = sset_insert (when, p) (timers q);
             r2 = sset_insert (p, sequence t) (activeTimers q)
         in asserting (fst r1) (asserting (fst r2)
              (let q' = q\<lparr>timers := snd r1, activeTimers := snd r2\<rparr>
               in asserting (sets_agree_in_size q') (Inr (earliestChanged, q'))))))"

definition TimerQueue_addTimerInLoop :: "Timestamp \<Rightarrow> TimerQueue \<Rightarrow> nat \<Rightarrow> TimerQueue res" where
  "TimerQueue_addTimerInLoop clock q p =
     andThen (TimerQueue_insert q p) (\<lambda>(earliestChanged, q').
       if earliestChanged
       then andThen (deref_timer q' p) (\<lambda>t. Inr (resetTimerfd q' (expiration t) clock))
       else Inr q')"

text \<open>
  \<open>addTimer\<close> allocates the timer and hands \<open>addTimerInLoop\<close> to the loop: in the thread of the
  loop it runs at once (\<open>TimerQueue_addTimer\<close>); from another thread it is queued in the loop
  and runs later, so that between \<open>TimerQueue_newTimer\<close> and \<open>TimerQueue_addTimerInLoop\<close> the
  loop may do other things. \<open>p\<close> is the address \<open>operator new\<close> returns; it never returns a
  block in use, and an argument that is one stands for an allocation that throws.
\<close>

definition TimerQueue_newTimer ::
  "TimerQueue \<Rightarrow> nat \<Rightarrow> Timestamp \<Rightarrow> rat \<Rightarrow> (TimerId \<times> TimerQueue) res" where
  "TimerQueue_newTimer q p when intrvl =
     (let t = Timer_new when intrvl (s_numCreated q);
          q1 = q\<lparr>timer_heap := (timer_heap q)(p \<mapsto> t), s_numCreated := s_numCreated q + 1\<rparr>
      in if timer_heap q p \<noteq> None \<or> p \<ge> UINTPTR_MAX then Inl Terminated
         else Inr (\<lparr>timer = p, tid_sequence = sequence t\<rparr>, q1))"

definition TimerQueue_addTimer ::
  "Timestamp \<Rightarrow> TimerQueue \<Rightarrow> nat \<Rightarrow> Timestamp \<Rightarrow> rat \<Rightarrow> (TimerId \<times> TimerQueue) res" where
  "TimerQueue_addTimer clock q p when intrvl =
     andThen (TimerQueue_newTimer q p when intrvl) (\<lambda>(tid, q1).
       andThen (TimerQueue_addTimerInLoop clock q1 p) (\<lambda>q2. Inr (tid, q2)))"

definition TimerQueue_cancelInLoop :: "TimerQueue \<Rightarrow> TimerId \<Rightarrow> TimerQueue res" where
  "TimerQueue_cancelInLoop q tid =
     asserting (sets_agree_in_size q)
       (let tm = (timer tid, tid_sequence tid) in
        andThen
          (if tm \<in> set (activeTimers q)
           then andThen (deref_timer q (timer tid)) (\<lambda>t.
             let er = sset_erase (expiration t, timer tid) (timers q) in
             asserting (fst er = 1)
               (Inr (q\<lparr>timers := snd er, timer_heap := (timer_heap q)(timer tid := None),
                       activeTimers := snd (sset_erase tm (activeTimers q))\<rparr>)))
           else if callingExpiredTimers q
           then Inr (q\<lparr>cancelingTimers := snd (sset_insert tm (cancelingTimers q))\<rparr>)
           else Inr q)
          (\<lambda>q'. asserting (sets_agree_in_size q') (Inr q')))"

fun erase_active :: "TimerQueue \<Rightarrow> Entry list \<Rightarrow> TimerQueue res" where
  "erase_active q [] = Inr q"
| "erase_active q ((w, p) # es) =
     andThen (deref_timer q p) (\<lambda>t.
       let er = sset_erase (p, sequence t) (activeTimers q) in
       asserting (fst er = 1) (erase_active (q\<lparr>activeTimers := snd er\<rparr>) es))"

definition TimerQueue_getExpired :: "TimerQueue \<Rightarrow> Timestamp \<Rightarrow> (Entry list \<times> TimerQueue) res" where
  "TimerQueue_getExpired q now =
     asserting (sets_agree_in_size q)
       (case sset_lower_bound (now, UINTPTR_MAX) (timers q) of (expired, rest) \<Rightarrow>
         asserting (rest = [] \<or> now < fst (hd rest))
           (andThen (erase_active (q\<lparr>timers := rest\<rparr>) expired) (\<lambda>q'.
             asserting (sets_agree_in_size q') (Inr (expired, q')))))"

text \<open>
  The loop of \<open>reset\<close>: a repeating timer whose cancellation nobody asked for is restarted
  and put back, every other one is deleted.
\<close>

fun reset_expired :: "TimerQueue \<Rightarrow> Timestamp \<Rightarrow> Entry list \<Rightarrow> TimerQueue res" where
  "reset_expired q now [] = Inr q"
| "reset_expired q now ((w, p) # es) =
     andThen (deref_timer q p) (\<lambda>t.
       if repeat t \<and> (p, sequence t) \<notin> set (cancelingTimers q)
       then andThen (TimerQueue_insert
                (q\<lparr>timer_heap := (timer_heap q)(p \<mapsto> Timer_restart t now)\<rparr>) p)
              (\<lambda>(c, q'). reset_expired q' now es)
       else reset_expired (q\<lparr>timer_heap := (timer_heap q)(p := None)\<rparr>) now es)"

definition TimerQueue_reset :: "Timestamp \<Rightarrow> TimerQueue \<Rightarrow> Entry list \<Rightarrow> Timestamp \<Rightarrow> TimerQueue res" where
  "TimerQueue_reset clock q expired now =
     andThen (reset_expired q now expired) (\<lambda>q'.
       andThen (case timers q' of
           [] \<Rightarrow> Inr Timestamp_invalid
         | (w, p) # es \<Rightarrow> andThen (deref_timer q' p) (\<lambda>t. Inr (expiration t))) (\<lambda>nextExpire.
         if Timestamp_valid nextExpire then Inr (resetTimerfd q' nextExpire clock) else Inr q'))"

text \<open>
  A callback runs in the thread of the loop; what it does to the queue is a sequence of
  additions (at a fresh address each) and cancellations. \<open>cb p\<close> is the sequence of the
  callback of the timer at address \<open>p\<close>, with the clock it sees.
\<close>

datatype timer_cmd =
    Add_timer (cmd_clock: Timestamp) (cmd_addr: nat) (cmd_when: Timestamp) (cmd_interval: rat)
  | Cancel_timer TimerId

fun timer_cmd_exec :: "TimerQueue \<Rightarrow> timer_cmd \<Rightarrow> TimerQueue res" where
  "timer_cmd_exec q (Add_timer clock p when intrvl) =
     andThen (TimerQueue_addTimer clock q p when intrvl) (\<lambda>(tid, q'). Inr q')"
| "timer_cmd_exec q (Cancel_timer tid) = TimerQueue_cancelInLoop q tid"

fun run_expired :: "(nat \<Rightarrow> timer_cmd list) \<Rightarrow> TimerQueue \<Rightarrow> Entry list \<Rightarrow> TimerQueue res" where
  "run_expired cb q [] = Inr q"
| "run_expired cb q ((w, p) # es) =
     andThen (deref_timer q p) (\<lambda>t.
       andThen (run_all timer_cmd_exec q (cb p)) (\<lambda>q'. run_expired cb q' es))"

definition TimerQueue_handleRead ::
  "(nat \<Rightarrow> timer_cmd list) \<Rightarrow> Timestamp \<Rightarrow> Timestamp \<Rightarrow> TimerQueue \<Rightarrow> (Entry list \<times> TimerQueue) res" where
  "TimerQueue_handleRead cb now clock q =
     andThen (TimerQueue_getExpired (readTimerfd q) now) (\<lambda>(expired, q1).
       andThen (run_expired cb (q1\<lparr>callingExpiredTimers := True, cancelingTimers := []\<rparr>) expired)
         (\<lambda>q2. andThen (TimerQueue_reset clock (q2\<lparr>callingExpiredTimers := False\<rparr>) expired now)
           (\<lambda>q3. Inr (expired, q3))))"

section \<open>The invariant\<close>

text \<open>
  \<open>TimerQueue_inv q out\<close>: the two sets hold the same timers, sorted; \<open>out\<close> are the entries
  taken out of the sets whose callbacks are being run; the live objects are exactly those of
  the sets and of \<open>out\<close>, each with the expiration its entry has.
\<close>

type_synonym timer_store = "nat \<Rightarrow> Timer option"

definition live_entry :: "timer_store \<Rightarrow> Entry \<Rightarrow> bool" where
  "live_entry h e \<longleftrightarrow> (\<exists>t. h (snd e) = Some t \<and> expiration t = fst e)"

definition active_of :: "timer_store \<Rightarrow> Entry \<Rightarrow> ActiveTimer" where
  "active_of h e = (snd e, sequence (the (h (snd e))))"

definition timers_inv :: "Entry list \<Rightarrow> ActiveTimer list \<Rightarrow> timer_store \<Rightarrow> Entry list \<Rightarrow> bool" where
  "timers_inv ts as h out \<longleftrightarrow> sorted ts \<and> sorted as \<and> distinct (map snd (ts @ out))
     \<and> (\<forall>e\<in>set (ts @ out). live_entry h e) \<and> mset as = mset (map (active_of h) ts)
     \<and> dom h = snd ` set (ts @ out) \<and> (\<forall>p\<in>dom h. p < UINTPTR_MAX)
     \<and> (\<forall>t\<in>ran h. repeat t = (interval t > 0))"

definition TimerQueue_inv :: "TimerQueue \<Rightarrow> Entry list \<Rightarrow> bool" where
  "TimerQueue_inv q out \<longleftrightarrow> timers_inv (timers q) (activeTimers q) (timer_heap q) out"

lemma timers_invD:
  assumes "timers_inv ts as h out"
  shows "sorted ts" and "distinct (map snd (ts @ out))"
    and "\<And>e. e \<in> set (ts @ out) \<Longrightarrow> live_entry h e"
    and "mset as = mset (map (active_of h) ts)" and "dom h = snd ` set (ts @ out)"
    and "length ts = length as" and "distinct as" and "\<And>e. e \<in> set ts \<Longrightarrow> snd e < UINTPTR_MAX"
proof -
  from assms have eq: "mset as = mset (map (active_of h) ts)" by (simp add: timers_inv_def)
  then have "length as = length (map (active_of h) ts)" by (rule mset_eq_length)
  then show "length ts = length as" by simp
  have "distinct (map fst (map (active_of h) ts))"
    using assms by (simp add: timers_inv_def active_of_def comp_def)
  then have "distinct (map (active_of h) ts)" by (simp only: distinct_map)
  with mset_eq_imp_distinct_iff [OF eq] show "distinct as" by simp
qed (use assms in \<open>auto simp: timers_inv_def\<close>)

lemma sets_agree: "TimerQueue_inv q out \<Longrightarrow> sets_agree_in_size q"
  using timers_invD(6) by (auto simp: TimerQueue_inv_def sets_agree_in_size_def)

lemma TimerQueue_inv_simps [simp]:
  "TimerQueue_inv (q\<lparr>callingExpiredTimers := c\<rparr>) out = TimerQueue_inv q out"
  "TimerQueue_inv (q\<lparr>cancelingTimers := cs\<rparr>) out = TimerQueue_inv q out"
  "TimerQueue_inv (q\<lparr>alarm := a\<rparr>) out = TimerQueue_inv q out"
  "TimerQueue_inv (q\<lparr>s_numCreated := n\<rparr>) out = TimerQueue_inv q out"
  by (simp_all add: TimerQueue_inv_def)

lemma active_iff:
  assumes "timers_inv ts as h out"
  shows "(p, s) \<in> set as \<longleftrightarrow> (\<exists>w t. (w, p) \<in> set ts \<and> h p = Some t \<and> sequence t = s)"
proof -
  have "set as = active_of h ` set ts"
    using mset_eq_setD [OF timers_invD(4) [OF assms]] by simp
  then have "(p, s) \<in> set as \<longleftrightarrow> (\<exists>w. (w, p) \<in> set ts \<and> s = sequence (the (h p)))"
    by (auto simp: active_of_def image_iff Bex_def)
  moreover have "\<exists>t. h p = Some t" if "(w, p) \<in> set ts" for w
    using that timers_invD(3) [OF assms, of "(w, p)"] by (auto simp: live_entry_def)
  ultimately show ?thesis by (metis option.sel)
qed

subsection \<open>Inserting\<close>

lemma timers_inv_insert:
  assumes inv: "timers_inv ts as h ((w, p) # out)" and t: "h p = Some t"
  shows "timers_inv (insort (w, p) ts) (insort (p, sequence t) as) h out"
    and "(w, p) \<notin> set ts" and "(p, sequence t) \<notin> set as" and "expiration t = w"
proof -
  note d = timers_invD [OF inv]
  have new: "p \<notin> snd ` set ts" using d(2) by auto
  then show "(w, p) \<notin> set ts" by force
  show "(p, sequence t) \<notin> set as" using new active_iff [OF inv] by force
  show "expiration t = w" using d(3) [of "(w, p)"] t by (simp add: live_entry_def)
  have "mset (insort (p, sequence t) as) = mset (map (active_of h) (insort (w, p) ts))"
    using d(4) t by (simp add: active_of_def)
  moreover have "mset (map snd (insort (w, p) ts @ out)) = mset (map snd (ts @ (w, p) # out))"
    by simp
  then have "distinct (map snd (insort (w, p) ts @ out))"
    using d(2) mset_eq_imp_distinct_iff by blast
  ultimately show "timers_inv (insort (w, p) ts) (insort (p, sequence t) as) h out"
    using inv by (auto simp: timers_inv_def set_insort_key sorted_insort)
qed

lemma TimerQueue_insert_ok:
  assumes inv: "TimerQueue_inv q ((w, p) # out)"
  obtains q' where "TimerQueue_insert q p = Inr (timers q = [] \<or> w < fst (hd (timers q)), q')"
    and "TimerQueue_inv q' out" and "timers q' = insort (w, p) (timers q)"
    and "alarm q' = alarm q" and "callingExpiredTimers q' = callingExpiredTimers q"
    and "cancelingTimers q' = cancelingTimers q" and "timer_heap q' = timer_heap q"
    and "s_numCreated q' = s_numCreated q"
proof -
  note i = inv [unfolded TimerQueue_inv_def]
  from timers_invD(3) [OF i, of "(w, p)"] obtain t where t: "timer_heap q p = Some t"
    by (auto simp: live_entry_def)
  note ins = timers_inv_insert [OF i t]
  let ?q = "q\<lparr>timers := insort (w, p) (timers q),
    activeTimers := insort (p, sequence t) (activeTimers q)\<rparr>"
  have "sets_agree_in_size q" by (rule sets_agree [OF inv])
  moreover from this have "sets_agree_in_size ?q" by (simp add: sets_agree_in_size_def)
  ultimately have "TimerQueue_insert q p = Inr (timers q = [] \<or> w < fst (hd (timers q)), ?q)"
    using ins(2-4) t by (simp add: TimerQueue_insert_def deref_timer_def sset_insert_def)
  moreover have "TimerQueue_inv ?q out" using ins(1) by (simp add: TimerQueue_inv_def)
  ultimately show ?thesis using that by simp
qed

subsection \<open>The alarm\<close>

text \<open>
  \<open>alarm_covers q P\<close>: for every queued timer whose expiration satisfies \<open>P\<close>, the timer
  descriptor is set for its expiration or an earlier one.
\<close>

definition alarm_covers :: "TimerQueue \<Rightarrow> (Timestamp \<Rightarrow> bool) \<Rightarrow> bool" where
  "alarm_covers q P \<longleftrightarrow>
     (\<forall>e\<in>set (timers q). P (fst e) \<longrightarrow> (\<exists>a. alarm q = Some a \<and> fst a \<le> fst e))"

definition down_closed :: "(Timestamp \<Rightarrow> bool) \<Rightarrow> bool" where
  "down_closed P \<longleftrightarrow> (\<forall>x y. x \<le> y \<longrightarrow> P y \<longrightarrow> P x)"

lemma alarm_covers_mono:
  "alarm_covers q P \<Longrightarrow> set (timers q') \<subseteq> set (timers q) \<Longrightarrow> alarm q' = alarm q \<Longrightarrow> alarm_covers q' P"
  by (auto simp: alarm_covers_def)

lemma fst_hd_sorted: "sorted (ts :: Entry list) \<Longrightarrow> e \<in> set ts \<Longrightarrow> fst (hd ts) \<le> fst e"
  by (cases ts) (auto simp: less_eq_prod_def)

lemma TimerQueue_addTimerInLoop_ok:
  assumes inv: "TimerQueue_inv q ((w, p) # out)" and cov: "alarm_covers q P" and P: "down_closed P"
  obtains q' where "TimerQueue_addTimerInLoop clock q p = Inr q'" and "TimerQueue_inv q' out"
    and "timers q' = insort (w, p) (timers q)" and "alarm_covers q' P"
    and "callingExpiredTimers q' = callingExpiredTimers q"
    and "cancelingTimers q' = cancelingTimers q" and "timer_heap q' = timer_heap q"
    and "s_numCreated q' = s_numCreated q"
proof -
  obtain q1 where q1: "TimerQueue_insert q p = Inr (timers q = [] \<or> w < fst (hd (timers q)), q1)"
    "TimerQueue_inv q1 out" "timers q1 = insort (w, p) (timers q)"
    "alarm q1 = alarm q" "callingExpiredTimers q1 = callingExpiredTimers q"
    "cancelingTimers q1 = cancelingTimers q" "timer_heap q1 = timer_heap q"
    "s_numCreated q1 = s_numCreated q"
    by (rule TimerQueue_insert_ok [OF inv])
  have sorted: "sorted (timers q)" using inv timers_invD(1) by (auto simp: TimerQueue_inv_def)
  from timers_invD(3) [OF inv [unfolded TimerQueue_inv_def], of "(w, p)"]
  obtain t where t: "timer_heap q p = Some t" "expiration t = w" by (auto simp: live_entry_def)
  show ?thesis
  proof (cases "timers q = [] \<or> w < fst (hd (timers q))")
    case True
    let ?q = "resetTimerfd q1 w clock"
    have "w \<le> fst e" if "e \<in> set (timers q)" for e
      using True that fst_hd_sorted [OF sorted that] by auto
    then have "alarm_covers ?q P"
      using q1(3) by (auto simp: alarm_covers_def resetTimerfd_def set_insort_key)
    moreover have "TimerQueue_addTimerInLoop clock q p = Inr ?q"
      using True q1 t by (auto simp: TimerQueue_addTimerInLoop_def deref_timer_def)
    ultimately show ?thesis using that [of ?q] q1 by (simp add: resetTimerfd_def)
  next
    case False
    then have "fst (hd (timers q)) \<le> w" and "hd (timers q) \<in> set (timers q)" by auto
    with cov P have "P w \<Longrightarrow> \<exists>a. alarm q = Some a \<and> fst a \<le> w"
      by (fastforce simp: alarm_covers_def down_closed_def)
    then have "alarm_covers q1 P"
      using cov q1(3,4) by (auto simp: alarm_covers_def set_insort_key)
    moreover have "TimerQueue_addTimerInLoop clock q p = Inr q1"
      using False q1 by (auto simp: TimerQueue_addTimerInLoop_def)
    ultimately show ?thesis using that [of q1] q1 by simp
  qed
qed

subsection \<open>Adding and cancelling\<close>

lemma timers_inv_alloc:
  assumes inv: "timers_inv ts as h out" and fresh: "h p = None" "p < UINTPTR_MAX"
    and rep: "repeat t = (interval t > 0)"
  shows "timers_inv ts as (h(p \<mapsto> t)) ((expiration t, p) # out)"
proof -
  note d = timers_invD [OF inv]
  have new: "p \<notin> snd ` set (ts @ out)" using d(5) fresh by auto
  then have "map (active_of (h(p \<mapsto> t))) ts = map (active_of h) ts"
    by (auto simp: active_of_def)
  with d(4) have "mset as = mset (map (active_of (h(p \<mapsto> t))) ts)" by metis
  moreover have "live_entry (h(p \<mapsto> t)) e = live_entry h e" if "e \<in> set (ts @ out)" for e
    using new that by (auto simp: live_entry_def)
  moreover have "live_entry (h(p \<mapsto> t)) (expiration t, p)" by (simp add: live_entry_def)
  ultimately show ?thesis using inv new fresh rep by (auto simp: timers_inv_def)
qed

lemma TimerQueue_addTimer_ok:
  assumes inv: "TimerQueue_inv q out" and cov: "alarm_covers q P" and P: "down_closed P"
    and fresh: "timer_heap q p = None" "p < UINTPTR_MAX"
  obtains q' where
    "TimerQueue_addTimer clock q p w i = Inr (\<lparr>timer = p, tid_sequence = s_numCreated q\<rparr>, q')"
    and "TimerQueue_inv q' out" and "alarm_covers q' P" and "timers q' = insort (w, p) (timers q)"
    and "callingExpiredTimers q' = callingExpiredTimers q"
    and "cancelingTimers q' = cancelingTimers q"
    and "timer_heap q' = (timer_heap q)(p \<mapsto> Timer_new w i (s_numCreated q))"
    and "s_numCreated q' = s_numCreated q + 1"
proof -
  let ?t = "Timer_new w i (s_numCreated q)"
  let ?q = "q\<lparr>timer_heap := (timer_heap q)(p \<mapsto> ?t), s_numCreated := s_numCreated q + 1\<rparr>"
  have t: "expiration ?t = w" "sequence ?t = s_numCreated q" "repeat ?t = (interval ?t > 0)"
    by (simp_all add: Timer_new_def)
  with timers_inv_alloc [OF inv [unfolded TimerQueue_inv_def] fresh, of ?t]
  have "TimerQueue_inv ?q ((w, p) # out)" by (simp add: TimerQueue_inv_def)
  moreover have "alarm_covers ?q P" using cov by (simp add: alarm_covers_def)
  ultimately obtain q' where "TimerQueue_addTimerInLoop clock ?q p = Inr q'" "TimerQueue_inv q' out"
    "timers q' = insort (w, p) (timers ?q)" "alarm_covers q' P"
    "callingExpiredTimers q' = callingExpiredTimers ?q" "cancelingTimers q' = cancelingTimers ?q"
    "timer_heap q' = timer_heap ?q" "s_numCreated q' = s_numCreated ?q"
    using P by (rule TimerQueue_addTimerInLoop_ok)
  then show ?thesis using that [of q'] fresh t
    by (simp add: TimerQueue_addTimer_def TimerQueue_newTimer_def Let_def)
qed

text \<open>
  A timer another thread has allocated is one of the timers outside the sets until its functor
  runs: the lemmas on additions and cancellations, which hold for any \<open>out\<close>, apply between the
  two, and \<open>TimerQueue_addTimerInLoop_ok\<close> takes it in.
\<close>

lemma TimerQueue_newTimer_ok:
  assumes inv: "TimerQueue_inv q out" and fresh: "timer_heap q p = None" "p < UINTPTR_MAX"
  obtains q' where
    "TimerQueue_newTimer q p w i = Inr (\<lparr>timer = p, tid_sequence = s_numCreated q\<rparr>, q')"
    and "TimerQueue_inv q' ((w, p) # out)" and "timers q' = timers q" and "alarm q' = alarm q"
proof -
  let ?t = "Timer_new w i (s_numCreated q)"
  let ?q = "q\<lparr>timer_heap := (timer_heap q)(p \<mapsto> ?t), s_numCreated := s_numCreated q + 1\<rparr>"
  have t: "expiration ?t = w" "sequence ?t = s_numCreated q" "repeat ?t = (interval ?t > 0)"
    by (simp_all add: Timer_new_def)
  with timers_inv_alloc [OF inv [unfolded TimerQueue_inv_def] fresh, of ?t]
  have "TimerQueue_inv ?q ((w, p) # out)" by (simp add: TimerQueue_inv_def)
  with fresh t show ?thesis by (intro that [of ?q]) (simp_all add: TimerQueue_newTimer_def Let_def)
qed

lemma timers_inv_erase:
  assumes inv: "timers_inv ts as h out" and e: "(w, p) \<in> set ts" and t: "h p = Some t"
  shows "timers_inv (remove1 (w, p) ts) (remove1 (p, sequence t) as) (h(p := None)) out"
proof -
  note d = timers_invD [OF inv]
  have ms: "mset ts = add_mset (w, p) (mset (remove1 (w, p) ts))" using e by simp
  from arg_cong [OF ms, of "image_mset snd"]
  have "mset (map snd (ts @ out)) = mset (p # map snd (remove1 (w, p) ts @ out))"
    by (simp del: mset_remove1)
  then have dist: "distinct (p # map snd (remove1 (w, p) ts @ out))"
    using d(2) mset_eq_imp_distinct_iff by blast
  then have other: "p \<notin> snd ` set (remove1 (w, p) ts @ out)" by auto
  then have same: "map (active_of (h(p := None))) (remove1 (w, p) ts) = map (active_of h) (remove1 (w, p) ts)"
    by (auto simp: active_of_def)
  have "mset as = add_mset (p, sequence t) (mset (map (active_of h) (remove1 (w, p) ts)))"
    using d(4) arg_cong [OF ms, of "image_mset (active_of h)"] t
    by (simp add: active_of_def del: mset_remove1)
  then have "mset (remove1 (p, sequence t) as) = mset (map (active_of (h(p := None))) (remove1 (w, p) ts))"
    unfolding same by (simp del: mset_map)
  moreover have "live_entry (h(p := None)) e" if "e \<in> set (remove1 (w, p) ts @ out)" for e
  proof -
    have "e \<in> set (ts @ out)" using that set_remove1_subset [of "(w, p)" ts] by auto
    then show ?thesis using other that d(3) [of e] by (auto simp: live_entry_def)
  qed
  moreover have "set (remove1 (w, p) ts) = set ts - {(w, p)}"
    using d(2) by (simp add: distinct_map)
  then have "dom (h(p := None)) = snd ` set (remove1 (w, p) ts @ out)"
    using d(5) other e by (auto simp: image_iff)
  moreover have "sorted ts" and "sorted as" and "\<forall>p\<in>dom h. p < UINTPTR_MAX"
    and "\<forall>t\<in>ran h. repeat t = (interval t > 0)"
    using inv by (simp_all add: timers_inv_def)
  then have "sorted (remove1 (w, p) ts)" and "sorted (remove1 (p, sequence t) as)"
    and "\<forall>q\<in>dom (h(p := None)). q < UINTPTR_MAX"
    and "\<forall>t\<in>ran (h(p := None)). repeat t = (interval t > 0)"
    by (auto simp: sorted_remove1 ran_def)
  ultimately show ?thesis using dist unfolding timers_inv_def by simp
qed

lemma TimerQueue_cancelInLoop_ok:
  assumes inv: "TimerQueue_inv q out" and cov: "alarm_covers q P"
  obtains q' where "TimerQueue_cancelInLoop q tid = Inr q'" and "TimerQueue_inv q' out"
    and "alarm_covers q' P" and "callingExpiredTimers q' = callingExpiredTimers q"
    and "timers q' = filter (\<lambda>e. active_of (timer_heap q) e \<noteq> (timer tid, tid_sequence tid)) (timers q)"
    and "set (cancelingTimers q') = set (cancelingTimers q) \<union>
      (if callingExpiredTimers q \<and> (timer tid, tid_sequence tid) \<notin> set (activeTimers q)
       then {(timer tid, tid_sequence tid)} else {})"
    and "\<And>e. e \<in> set out \<Longrightarrow> timer_heap q' (snd e) = timer_heap q (snd e)"
    and "s_numCreated q' = s_numCreated q"
proof -
  note i = inv [unfolded TimerQueue_inv_def] and size = sets_agree [OF inv]
  let ?p = "timer tid" and ?s = "tid_sequence tid"
  show ?thesis
  proof (cases "(?p, ?s) \<in> set (activeTimers q)")
    case True
    then obtain w t where e: "(w, ?p) \<in> set (timers q)" and t: "timer_heap q ?p = Some t" "sequence t = ?s"
      using active_iff [OF i] by blast
    let ?q = "q\<lparr>timers := remove1 (w, ?p) (timers q), timer_heap := (timer_heap q)(?p := None),
      activeTimers := remove1 (?p, ?s) (activeTimers q)\<rparr>"
    have "expiration t = w" using timers_invD(3) [OF i, of "(w, ?p)"] e t by (simp add: live_entry_def)
    moreover have inv': "TimerQueue_inv ?q out"
      using timers_inv_erase [OF i e t(1)] t(2) by (simp add: TimerQueue_inv_def)
    ultimately have "TimerQueue_cancelInLoop q tid = Inr ?q"
      using True e t size sets_agree [OF inv']
      by (simp add: TimerQueue_cancelInLoop_def deref_timer_def sset_erase_def Let_def)
    moreover have "alarm_covers ?q P"
      using cov set_remove1_subset [of "(w, ?p)" "timers q"]
      by (intro alarm_covers_mono [OF cov]) auto
    moreover have "remove1 (w, ?p) (timers q) = filter (\<lambda>e. active_of (timer_heap q) e \<noteq> (?p, ?s)) (timers q)"
    proof -
      have d: "distinct (map snd (timers q))" using timers_invD(2) [OF i] by simp
      then have "remove1 (w, ?p) (timers q) = filter (\<lambda>e. (w, ?p) \<noteq> e) (timers q)"
        by (simp add: distinct_map distinct_remove1_removeAll removeAll_filter_not_eq)
      moreover have "active_of (timer_heap q) x = (?p, ?s) \<longleftrightarrow> x = (w, ?p)" if "x \<in> set (timers q)" for x
        using that d e t by (auto simp: active_of_def distinct_map inj_on_def)
      ultimately show ?thesis by (simp cong: filter_cong) (metis (mono_tags, lifting) filter_cong)
    qed
    moreover have "?p \<notin> snd ` set out" using timers_invD(2) [OF i] e by force
    ultimately show ?thesis using that [of ?q] inv' True by force
  next
    case False
    have keep: "timers q = filter (\<lambda>e. active_of (timer_heap q) e \<noteq> (?p, ?s)) (timers q)"
    proof -
      have "set (activeTimers q) = active_of (timer_heap q) ` set (timers q)"
        using mset_eq_setD [OF timers_invD(4) [OF i]] by simp
      with False have "\<forall>e\<in>set (timers q). active_of (timer_heap q) e \<noteq> (?p, ?s)" by (metis imageI)
      then show ?thesis by (metis (mono_tags, lifting) filter_True)
    qed
    let ?q = "if callingExpiredTimers q
      then q\<lparr>cancelingTimers := snd (sset_insert (?p, ?s) (cancelingTimers q))\<rparr> else q"
    have "TimerQueue_cancelInLoop q tid = Inr ?q"
      using False size by (simp add: TimerQueue_cancelInLoop_def sets_agree_in_size_def)
    moreover have "TimerQueue_inv ?q out" using inv by simp
    moreover have "alarm_covers ?q P" using cov by (simp add: alarm_covers_def)
    ultimately show ?thesis
      using that [of ?q] keep False
      by (cases "callingExpiredTimers q") (simp_all add: sset_insert_def set_insort_key insert_absorb)
  qed
qed

subsection \<open>Taking out the expired timers\<close>

lemma timers_inv_take_out:
  assumes inv: "timers_inv (es @ ts) as h out"
  obtains as' where "timers_inv ts as' h (es @ out)"
    and "\<And>q. timer_heap q = h \<Longrightarrow> activeTimers q = as \<Longrightarrow> erase_active q es = Inr (q\<lparr>activeTimers := as'\<rparr>)"
  using inv
proof (induction es arbitrary: as out thesis)
  case Nil
  then show ?case by simp
next
  case (Cons e es)
  obtain w p where e: "e = (w, p)" by (cases e)
  from timers_invD(3) [OF Cons.prems(2), of e] e obtain t where t: "h p = Some t" "expiration t = w"
    by (auto simp: live_entry_def)
  have mem: "(p, sequence t) \<in> set as" using active_iff [OF Cons.prems(2)] e t by auto
  let ?as = "remove1 (p, sequence t) as"
  have "timers_inv (es @ ts) ?as h (e # out)"
    using Cons.prems(2) e t mem
    by (auto simp: timers_inv_def sorted_remove1 active_of_def)
  then obtain as' where as': "timers_inv ts as' h (es @ e # out)"
    "\<And>q. timer_heap q = h \<Longrightarrow> activeTimers q = ?as \<Longrightarrow> erase_active q es = Inr (q\<lparr>activeTimers := as'\<rparr>)"
    using Cons.IH by blast
  have "timers_inv ts as' h ((e # es) @ out)" using as'(1) by (auto simp: timers_inv_def)
  moreover have "erase_active q (e # es) = Inr (q\<lparr>activeTimers := as'\<rparr>)"
    if "timer_heap q = h" "activeTimers q = as" for q
    using that e t mem as'(2) [of "q\<lparr>activeTimers := ?as\<rparr>"]
    by (simp add: deref_timer_def sset_erase_def)
  ultimately show ?case using Cons.prems(1) by blast
qed

lemma lower_bound_expired:
  assumes "sorted (ts :: Entry list)" and "\<And>e. e \<in> set ts \<Longrightarrow> snd e < UINTPTR_MAX"
  shows "sset_lower_bound (now, UINTPTR_MAX) ts =
    (filter (\<lambda>e. fst e \<le> now) ts, filter (\<lambda>e. now < fst e) ts)"
proof -
  have lt: "e < (now, UINTPTR_MAX) \<longleftrightarrow> fst e \<le> now" if "e \<in> set ts" for e
    using assms(2) [OF that] by (cases e) (auto simp: less_prod_def)
  have "takeWhile (\<lambda>y. fst y \<le> now) ts = filter (\<lambda>e. fst e \<le> now) ts
      \<and> dropWhile (\<lambda>y. fst y \<le> now) ts = filter (\<lambda>e. now < fst e) ts"
    using assms(1)
  proof (induction ts)
    case Nil
    show ?case by simp
  next
    case (Cons e ts)
    show ?case
    proof (cases "fst e \<le> now")
      case True
      with Cons show ?thesis by simp
    next
      case False
      with Cons.prems have "\<forall>x\<in>set ts. now < fst x" by (force simp: less_eq_prod_def)
      with False show ?thesis by (auto simp: filter_empty_conv not_le)
    qed
  qed
  moreover have "takeWhile (\<lambda>y. y < (now, UINTPTR_MAX)) ts = takeWhile (\<lambda>y. fst y \<le> now) ts"
    using lt by (intro takeWhile_cong) auto
  moreover have "dropWhile (\<lambda>y. y < (now, UINTPTR_MAX)) ts = dropWhile (\<lambda>y. fst y \<le> now) ts"
    using lt by (intro dropWhile_cong) auto
  ultimately show ?thesis by (simp add: sset_lower_bound_def)
qed

lemma filter_le_append: "sorted (ts :: Entry list) \<Longrightarrow>
    filter (\<lambda>e. fst e \<le> now) ts @ filter (\<lambda>e. now < fst e) ts = ts"
proof (induction ts)
  case (Cons e ts)
  show ?case
  proof (cases "fst e \<le> now")
    case False
    with Cons.prems have "\<forall>x\<in>set ts. now < fst x" by (force simp: less_eq_prod_def)
    with False show ?thesis by (auto simp: filter_empty_conv not_le filter_id_conv)
  qed (use Cons in simp)
qed simp

lemma TimerQueue_getExpired_ok:
  assumes inv: "TimerQueue_inv q []"
  obtains q' where
    "TimerQueue_getExpired q now = Inr (filter (\<lambda>e. fst e \<le> now) (timers q), q')"
    and "TimerQueue_inv q' (filter (\<lambda>e. fst e \<le> now) (timers q))"
    and "timers q' = filter (\<lambda>e. now < fst e) (timers q)" and "alarm q' = alarm q"
    and "timer_heap q' = timer_heap q" and "s_numCreated q' = s_numCreated q"
proof -
  note i = inv [unfolded TimerQueue_inv_def]
  let ?es = "filter (\<lambda>e. fst e \<le> now) (timers q)" and ?ts = "filter (\<lambda>e. now < fst e) (timers q)"
  have sorted: "sorted (timers q)" by (rule timers_invD(1) [OF i])
  from i filter_le_append [OF sorted] have "timers_inv (?es @ ?ts) (activeTimers q) (timer_heap q) []"
    by simp
  then obtain as' where as': "timers_inv ?ts as' (timer_heap q) (?es @ [])"
    "\<And>r. timer_heap r = timer_heap q \<Longrightarrow> activeTimers r = activeTimers q \<Longrightarrow>
      erase_active r ?es = Inr (r\<lparr>activeTimers := as'\<rparr>)"
    using timers_inv_take_out by blast
  let ?q = "q\<lparr>timers := ?ts, activeTimers := as'\<rparr>"
  have inv': "TimerQueue_inv ?q ?es" using as'(1) by (simp add: TimerQueue_inv_def)
  have "?ts = [] \<or> now < fst (hd ?ts)" using hd_in_set [of ?ts] by (cases "?ts = []") auto
  then have "TimerQueue_getExpired q now = Inr (?es, ?q)"
    using sets_agree [OF inv] sets_agree [OF inv'] as'(2) [of "q\<lparr>timers := ?ts\<rparr>"]
      lower_bound_expired [OF sorted timers_invD(8) [OF i], of now]
    by (simp add: TimerQueue_getExpired_def asserting_def)
  with inv' show ?thesis using that [of ?q] by simp
qed

subsection \<open>Running the callbacks\<close>

text \<open>
  \<open>cb_effect out q q' cs\<close>: what a sequence of commands may do while the timers of \<open>out\<close>
  are being run. It leaves their objects alone, and it marks those it cancels.
\<close>

definition cancels :: "timer_cmd \<Rightarrow> ActiveTimer \<Rightarrow> bool" where
  "cancels c a \<longleftrightarrow> c = Cancel_timer \<lparr>timer = fst a, tid_sequence = snd a\<rparr>"

definition cb_effect :: "Entry list \<Rightarrow> TimerQueue \<Rightarrow> TimerQueue \<Rightarrow> timer_cmd list \<Rightarrow> bool" where
  "cb_effect out q q' cs \<longleftrightarrow> callingExpiredTimers q' \<and>
     (\<forall>e\<in>set out. timer_heap q' (snd e) = timer_heap q (snd e)
        \<and> (active_of (timer_heap q) e \<in> set (cancelingTimers q') \<longleftrightarrow>
             active_of (timer_heap q) e \<in> set (cancelingTimers q)
             \<or> (\<exists>c\<in>set cs. cancels c (active_of (timer_heap q) e))))"

lemma cb_effect_refl: "callingExpiredTimers q \<Longrightarrow> cb_effect out q q []"
  by (simp add: cb_effect_def)

lemma cb_effect_trans:
  assumes "cb_effect out q q1 cs" and "cb_effect out q1 q2 ds"
  shows "cb_effect out q q2 (cs @ ds)"
proof -
  have "active_of (timer_heap q1) e = active_of (timer_heap q) e" if "e \<in> set out" for e
    using assms(1) that by (simp add: cb_effect_def active_of_def)
  with assms show ?thesis by (auto simp: cb_effect_def)
qed

lemma out_not_active:
  assumes "TimerQueue_inv q out" and "e \<in> set out"
  shows "active_of (timer_heap q) e \<notin> set (activeTimers q)"
proof
  note i = assms(1) [unfolded TimerQueue_inv_def]
  assume "active_of (timer_heap q) e \<in> set (activeTimers q)"
  then have "snd e \<in> snd ` set (timers q)"
    unfolding active_of_def active_iff [OF i] by (metis image_eqI snd_conv)
  with timers_invD(2) [OF i] assms(2) show False by auto
qed

lemma timer_cmd_exec_ok:
  assumes inv: "TimerQueue_inv q out" and cov: "alarm_covers q P" and P: "down_closed P"
  shows "timer_cmd_exec q c = Inl Terminated \<or> (\<exists>q'. timer_cmd_exec q c = Inr q' \<and>
    TimerQueue_inv q' out \<and> alarm_covers q' P \<and> callingExpiredTimers q' = callingExpiredTimers q
    \<and> (callingExpiredTimers q \<longrightarrow> cb_effect out q q' [c]))"
proof (cases c)
  case (Add_timer clock p w i)
  show ?thesis
  proof (cases "timer_heap q p = None \<and> p < UINTPTR_MAX")
    case True
    then obtain q' where q': "TimerQueue_addTimer clock q p w i =
        Inr (\<lparr>timer = p, tid_sequence = s_numCreated q\<rparr>, q')" "TimerQueue_inv q' out"
      "alarm_covers q' P" "callingExpiredTimers q' = callingExpiredTimers q"
      "cancelingTimers q' = cancelingTimers q"
      "timer_heap q' = (timer_heap q)(p \<mapsto> Timer_new w i (s_numCreated q))"
      using TimerQueue_addTimer_ok [OF inv cov P] by metis
    have "p \<notin> snd ` set out"
      using True timers_invD(5) [OF inv [unfolded TimerQueue_inv_def]] by auto
    with q' Add_timer have "callingExpiredTimers q \<Longrightarrow> cb_effect out q q' [c]"
      by (force simp: cb_effect_def cancels_def)
    with q' Add_timer show ?thesis by simp
  next
    case False
    with Add_timer show ?thesis by (auto simp: TimerQueue_addTimer_def TimerQueue_newTimer_def Let_def)
  qed
next
  case (Cancel_timer tid)
  obtain q' where q': "TimerQueue_cancelInLoop q tid = Inr q'" "TimerQueue_inv q' out"
    "alarm_covers q' P" "callingExpiredTimers q' = callingExpiredTimers q"
    "set (cancelingTimers q') = set (cancelingTimers q) \<union>
      (if callingExpiredTimers q \<and> (timer tid, tid_sequence tid) \<notin> set (activeTimers q)
       then {(timer tid, tid_sequence tid)} else {})"
    "\<And>e. e \<in> set out \<Longrightarrow> timer_heap q' (snd e) = timer_heap q (snd e)"
    by (rule TimerQueue_cancelInLoop_ok [OF inv cov]) blast
  have "cancels c a \<longleftrightarrow> a = (timer tid, tid_sequence tid)" for a
    using Cancel_timer by (cases a) (auto simp: cancels_def)
  moreover have "(timer tid, tid_sequence tid) \<notin> set (activeTimers q)"
    if "e \<in> set out" "active_of (timer_heap q) e = (timer tid, tid_sequence tid)" for e
    using out_not_active [OF inv that(1)] that(2) by simp
  ultimately have "callingExpiredTimers q \<Longrightarrow> cb_effect out q q' [c]"
    using q'(4-6) by (auto simp: cb_effect_def)
  with q' Cancel_timer show ?thesis by auto
qed

lemma timer_cmds_ok:
  "TimerQueue_inv q out \<Longrightarrow> alarm_covers q P \<Longrightarrow> down_closed P \<Longrightarrow> callingExpiredTimers q \<Longrightarrow>
    run_all timer_cmd_exec q cs = Inl Terminated \<or> (\<exists>q'. run_all timer_cmd_exec q cs = Inr q' \<and>
      TimerQueue_inv q' out \<and> alarm_covers q' P \<and> cb_effect out q q' cs)"
proof (induction cs arbitrary: q)
  case Nil
  then show ?case by (simp add: cb_effect_refl)
next
  case (Cons c cs)
  from timer_cmd_exec_ok [OF Cons.prems(1-3), of c] Cons.prems(4) consider "timer_cmd_exec q c = Inl Terminated"
    | q1 where "timer_cmd_exec q c = Inr q1" "TimerQueue_inv q1 out" "alarm_covers q1 P"
      "cb_effect out q q1 [c]" by blast
  then show ?case
  proof cases
    case (2 q1)
    then have "callingExpiredTimers q1" by (simp add: cb_effect_def)
    from Cons.IH [OF 2(2,3) Cons.prems(3) this] 2 cb_effect_trans [OF 2(4)] show ?thesis by fastforce
  qed simp
qed

lemma run_expired_ok:
  "TimerQueue_inv q out \<Longrightarrow> alarm_covers q P \<Longrightarrow> down_closed P \<Longrightarrow> callingExpiredTimers q \<Longrightarrow>
    set es \<subseteq> set out \<Longrightarrow>
    run_expired cb q es = Inl Terminated \<or> (\<exists>q'. run_expired cb q es = Inr q' \<and>
      TimerQueue_inv q' out \<and> alarm_covers q' P \<and> cb_effect out q q' (concat (map (\<lambda>e. cb (snd e)) es)))"
proof (induction es arbitrary: q)
  case Nil
  then show ?case by (simp add: cb_effect_refl)
next
  case (Cons e es)
  obtain w p where e: "e = (w, p)" by (cases e)
  from timers_invD(3) [OF Cons.prems(1) [unfolded TimerQueue_inv_def], of e] Cons.prems(5) e
  obtain t where "timer_heap q p = Some t" by (auto simp: live_entry_def)
  then have run: "run_expired cb q (e # es) =
      andThen (run_all timer_cmd_exec q (cb p)) (\<lambda>q'. run_expired cb q' es)"
    by (simp add: e deref_timer_def)
  from timer_cmds_ok [OF Cons.prems(1-4), of "cb p"] consider
    "run_all timer_cmd_exec q (cb p) = Inl Terminated"
    | q1 where "run_all timer_cmd_exec q (cb p) = Inr q1" "TimerQueue_inv q1 out" "alarm_covers q1 P"
      "cb_effect out q q1 (cb p)" by blast
  then show ?case
  proof cases
    case (2 q1)
    then have "callingExpiredTimers q1" by (simp add: cb_effect_def)
    moreover have "set es \<subseteq> set out" using Cons.prems(5) by simp
    ultimately have "run_expired cb q1 es = Inl Terminated \<or> (\<exists>q'. run_expired cb q1 es = Inr q' \<and>
        TimerQueue_inv q' out \<and> alarm_covers q' P \<and> cb_effect out q1 q' (concat (map (\<lambda>e. cb (snd e)) es)))"
      by (rule Cons.IH [OF 2(2,3) Cons.prems(3)])
    with 2(1) cb_effect_trans [OF 2(4)] show ?thesis
      unfolding run by (elim disjE exE conjE) (simp_all add: e)
  qed (simp add: run)
qed

subsection \<open>Putting repeating timers back\<close>

definition survives :: "TimerQueue \<Rightarrow> Entry \<Rightarrow> bool" where
  "survives q e \<longleftrightarrow> repeat (the (timer_heap q (snd e))) \<and>
     active_of (timer_heap q) e \<notin> set (cancelingTimers q)"

definition restarted :: "TimerQueue \<Rightarrow> Timestamp \<Rightarrow> Entry list \<Rightarrow> Entry list" where
  "restarted q now es =
     map (\<lambda>e. (addTime now (interval (the (timer_heap q (snd e)))), snd e)) (filter (survives q) es)"

lemma restarted_cong:
  assumes "\<And>e. e \<in> set es \<Longrightarrow> timer_heap q' (snd e) = timer_heap q (snd e)"
    and "cancelingTimers q' = cancelingTimers q"
  shows "restarted q' now es = restarted q now es"
proof -
  have "filter (survives q') es = filter (survives q) es"
    using assms by (intro filter_cong) (auto simp: survives_def active_of_def)
  then show ?thesis using assms(1) by (auto simp: restarted_def)
qed

lemma timers_inv_delete:
  assumes inv: "timers_inv ts as h ((w, p) # out)"
  shows "timers_inv ts as (h(p := None)) out"
proof -
  note d = timers_invD [OF inv]
  have new: "p \<notin> snd ` set (ts @ out)" using d(2) by auto
  then have "map (active_of (h(p := None))) ts = map (active_of h) ts" by (auto simp: active_of_def)
  with d(4) have "mset as = mset (map (active_of (h(p := None))) ts)" by metis
  moreover have "live_entry (h(p := None)) e" if "e \<in> set (ts @ out)" for e
    using new that d(3) [of e] by (auto simp: live_entry_def)
  moreover have "dom (h(p := None)) = snd ` set (ts @ out)" using d(5) new by auto
  moreover have "\<forall>t\<in>ran (h(p := None)). repeat t = (interval t > 0)"
    using inv by (auto simp: timers_inv_def ran_def)
  ultimately show ?thesis using inv by (simp add: timers_inv_def)
qed

lemma timers_inv_restart:
  assumes inv: "timers_inv ts as h ((w, p) # out)" and t: "h p = Some t"
    and r: "interval t' = interval t" "repeat t' = repeat t"
  shows "timers_inv ts as (h(p \<mapsto> t')) ((expiration t', p) # out)"
proof -
  have "p < UINTPTR_MAX" and "repeat t' = (interval t' > 0)"
    using inv t r by (auto simp: timers_inv_def ran_def)
  from timers_inv_alloc [OF timers_inv_delete [OF inv] _ this] show ?thesis by simp
qed

lemma reset_expired_ok:
  "TimerQueue_inv q es \<Longrightarrow> \<exists>q'. reset_expired q now es = Inr q' \<and> TimerQueue_inv q' []
    \<and> mset (timers q') = mset (timers q) + mset (restarted q now es)
    \<and> alarm q' = alarm q \<and> callingExpiredTimers q' = callingExpiredTimers q
    \<and> s_numCreated q' = s_numCreated q"
proof (induction es arbitrary: q)
  case Nil
  then show ?case by (simp add: restarted_def)
next
  case (Cons e es)
  obtain w p where e: "e = (w, p)" by (cases e)
  note i = Cons.prems [unfolded TimerQueue_inv_def e]
  from timers_invD(3) [OF i, of e] e obtain t where t: "timer_heap q p = Some t"
    by (auto simp: live_entry_def)
  have other: "snd x \<noteq> p" if "x \<in> set es" for x using timers_invD(2) [OF i] that by auto
  have surv: "survives q e \<longleftrightarrow> repeat t \<and> (p, sequence t) \<notin> set (cancelingTimers q)"
    using t by (simp add: survives_def active_of_def e)
  show ?case
  proof (cases "survives q e")
    case True
    let ?t = "Timer_restart t now"
    let ?q = "q\<lparr>timer_heap := (timer_heap q)(p \<mapsto> ?t)\<rparr>"
    have rt: "expiration ?t = addTime now (interval t)" "interval ?t = interval t" "repeat ?t = repeat t"
      using True surv by (simp_all add: Timer_restart_def)
    with timers_inv_restart [OF i t, of ?t]
    have "TimerQueue_inv ?q ((addTime now (interval t), p) # es)" by (simp add: TimerQueue_inv_def)
    then obtain c q1 where q1: "TimerQueue_insert ?q p = Inr (c, q1)" "TimerQueue_inv q1 es"
      "timers q1 = insort (addTime now (interval t), p) (timers ?q)" "alarm q1 = alarm ?q"
      "callingExpiredTimers q1 = callingExpiredTimers ?q" "cancelingTimers q1 = cancelingTimers ?q"
      "timer_heap q1 = timer_heap ?q" "s_numCreated q1 = s_numCreated ?q"
      by (rule TimerQueue_insert_ok) blast
    have "restarted q1 now es = restarted q now es"
      using q1 other by (intro restarted_cong) auto
    then have "restarted q now (e # es) = (addTime now (interval t), p) # restarted q1 now es"
      using True t by (simp add: restarted_def e)
    moreover have "reset_expired q now (e # es) = reset_expired q1 now es"
      using True surv t q1(1) by (simp add: e deref_timer_def)
    ultimately show ?thesis using Cons.IH [OF q1(2)] q1 by auto
  next
    case False
    let ?q = "q\<lparr>timer_heap := (timer_heap q)(p := None)\<rparr>"
    have "TimerQueue_inv ?q es" using timers_inv_delete [OF i] by (simp add: TimerQueue_inv_def)
    moreover have "restarted ?q now es = restarted q now es"
      using other by (intro restarted_cong) auto
    then have "restarted q now (e # es) = restarted ?q now es"
      using False by (simp add: restarted_def)
    moreover have "reset_expired q now (e # es) = reset_expired ?q now es"
      using False surv t by (auto simp: e deref_timer_def)
    ultimately show ?thesis using Cons.IH [of ?q] by auto
  qed
qed

lemma trunc_rat_nonneg: "0 \<le> x \<Longrightarrow> 0 \<le> trunc_rat x"
  by (simp add: trunc_rat_def)

lemma restarted_valid:
  assumes inv: "TimerQueue_inv q es" and now: "Timestamp_valid now" and e: "e \<in> set (restarted q now es)"
  shows "Timestamp_valid (fst e)"
proof -
  from e obtain x where x: "x \<in> set es" "survives q x"
    "fst e = addTime now (interval (the (timer_heap q (snd x))))" by (auto simp: restarted_def)
  from timers_invD(3) [OF inv [unfolded TimerQueue_inv_def], of x] x(1)
  obtain t where t: "timer_heap q (snd x) = Some t" by (auto simp: live_entry_def)
  then have "interval t > 0"
    using inv x(2) by (auto simp: TimerQueue_inv_def timers_inv_def survives_def ran_def)
  then have "0 \<le> trunc_rat (interval t * of_int kMicroSecondsPerSecond)"
    by (intro trunc_rat_nonneg) (simp add: kMicroSecondsPerSecond_def)
  with x(3) t now show ?thesis by (simp add: addTime_def Timestamp_valid_def)
qed

lemma TimerQueue_reset_ok:
  assumes inv: "TimerQueue_inv q es" and cov: "alarm_covers q (\<lambda>w. \<not> Timestamp_valid w)"
    and now: "Timestamp_valid now"
  shows "\<exists>q'. TimerQueue_reset clock q es now = Inr q' \<and> TimerQueue_inv q' []
    \<and> alarm_covers q' (\<lambda>_. True) \<and> callingExpiredTimers q' = callingExpiredTimers q
    \<and> mset (timers q') = mset (timers q) + mset (restarted q now es)"
proof -
  from reset_expired_ok [OF inv] obtain q1 where q1: "reset_expired q now es = Inr q1"
    "TimerQueue_inv q1 []" "mset (timers q1) = mset (timers q) + mset (restarted q now es)"
    "alarm q1 = alarm q" "callingExpiredTimers q1 = callingExpiredTimers q" by blast
  have ts: "set (timers q1) = set (timers q) \<union> set (restarted q now es)"
    using arg_cong [OF q1(3), of set_mset] by simp
  note i = q1(2) [unfolded TimerQueue_inv_def]
  show ?thesis
  proof (cases "timers q1")
    case Nil
    then have "TimerQueue_reset clock q es now = Inr q1"
      using q1(1) by (simp add: TimerQueue_reset_def Timestamp_invalid_def Timestamp_valid_def)
    with Nil q1 show ?thesis by (simp add: alarm_covers_def)
  next
    case (Cons e rest)
    obtain w p where e: "e = (w, p)" by (cases e)
    from timers_invD(3) [OF i, of e] Cons e obtain t where t: "timer_heap q1 p = Some t" "expiration t = w"
      by (auto simp: live_entry_def)
    have low: "w \<le> fst x" if "x \<in> set (timers q1)" for x
      using fst_hd_sorted [OF timers_invD(1) [OF i] that] Cons e by simp
    show ?thesis
    proof (cases "Timestamp_valid w")
      case True
      then have "TimerQueue_reset clock q es now = Inr (resetTimerfd q1 w clock)"
        using q1(1) Cons e t by (simp add: TimerQueue_reset_def deref_timer_def)
      with low q1 show ?thesis by (simp add: alarm_covers_def resetTimerfd_def)
    next
      case False
      then have "TimerQueue_reset clock q es now = Inr q1"
        using q1(1) Cons e t by (simp add: TimerQueue_reset_def deref_timer_def)
      moreover have "e \<in> set (timers q)"
        using False ts Cons e restarted_valid [OF inv now, of e] by auto
      with cov False e obtain a where "alarm q = Some a" "fst a \<le> w"
        by (force simp: alarm_covers_def)
      with low q1(4) have "alarm_covers q1 (\<lambda>_. True)"
        by (fastforce simp: alarm_covers_def)
      ultimately show ?thesis using q1 by simp
    qed
  qed
qed

subsection \<open>An alarm\<close>

lemma down_closed_invalid: "down_closed (\<lambda>w. \<not> Timestamp_valid w)"
  by (auto simp: down_closed_def Timestamp_valid_def less_eq_Timestamp_def)

text \<open>The timers that run at an alarm and what becomes of them.\<close>

definition due :: "TimerQueue \<Rightarrow> Timestamp \<Rightarrow> Entry list" where
  "due q now = filter (\<lambda>e. fst e \<le> now) (timers q)"

definition put_back :: "(nat \<Rightarrow> timer_cmd list) \<Rightarrow> TimerQueue \<Rightarrow> Timestamp \<Rightarrow> Entry \<Rightarrow> bool" where
  "put_back cb q now e \<longleftrightarrow> repeat (the (timer_heap q (snd e))) \<and>
     (\<forall>x\<in>set (due q now). \<forall>c\<in>set (cb (snd x)). \<not> cancels c (active_of (timer_heap q) e))"

lemma reset_fate:
  assumes i2: "TimerQueue_inv q2 es" and i3: "TimerQueue_inv q3 []" and e: "e \<in> set es"
    and ts: "set (timers q3) = set (timers q2) \<union> set (restarted q2 now es)"
  shows "if survives q2 e
    then (addTime now (interval (the (timer_heap q2 (snd e)))), snd e) \<in> set (timers q3)
    else timer_heap q3 (snd e) = None"
proof (cases "survives q2 e")
  case True
  then have "(addTime now (interval (the (timer_heap q2 (snd e)))), snd e) \<in> set (restarted q2 now es)"
    using e by (auto simp: restarted_def intro!: image_eqI [of _ _ e])
  with ts True show ?thesis by simp
next
  case False
  note d = timers_invD(2) [OF i2 [unfolded TimerQueue_inv_def]]
  have "x = e" if "x \<in> set es" "snd x = snd e" for x
    using d that e by (auto simp: distinct_map inj_on_def)
  then have "snd e \<notin> snd ` set (restarted q2 now es)" using False by (auto simp: restarted_def)
  moreover have "snd e \<notin> snd ` set (timers q2)" using d e by auto
  ultimately have "snd e \<notin> snd ` set (timers q3)" using ts by (simp add: image_Un)
  with timers_invD(5) [OF i3 [unfolded TimerQueue_inv_def]] False show ?thesis
    by (auto simp: dom_def)
qed

lemma TimerQueue_handleRead_ok:
  assumes inv: "TimerQueue_inv q []" and now: "Timestamp_valid now"
  shows "TimerQueue_handleRead cb now clock q = Inl Terminated \<or>
    (\<exists>q'. TimerQueue_handleRead cb now clock q = Inr (due q now, q') \<and> TimerQueue_inv q' []
      \<and> alarm_covers q' (\<lambda>_. True) \<and> \<not> callingExpiredTimers q'
      \<and> (\<forall>e\<in>set (due q now).
           if put_back cb q now e
           then (addTime now (interval (the (timer_heap q (snd e)))), snd e) \<in> set (timers q')
           else timer_heap q' (snd e) = None))"
proof -
  let ?es = "due q now"
  have "TimerQueue_inv (readTimerfd q) []" using inv by (simp add: readTimerfd_def)
  then obtain q1 where q1: "TimerQueue_getExpired (readTimerfd q) now = Inr (?es, q1)"
    "TimerQueue_inv q1 ?es" "timers q1 = filter (\<lambda>e. now < fst e) (timers q)"
    "timer_heap q1 = timer_heap q"
    using TimerQueue_getExpired_ok [of "readTimerfd q" now] by (auto simp: due_def readTimerfd_def)
  let ?q1 = "q1\<lparr>callingExpiredTimers := True, cancelingTimers := []\<rparr>"
  have "alarm_covers ?q1 (\<lambda>w. \<not> Timestamp_valid w)"
    using q1(3) now by (auto simp: alarm_covers_def Timestamp_valid_def less_Timestamp_def Timestamp_less_def)
  moreover have "TimerQueue_inv ?q1 ?es" using q1(2) by simp
  ultimately have "run_expired cb ?q1 ?es = Inl Terminated \<or> (\<exists>q2. run_expired cb ?q1 ?es = Inr q2 \<and>
      TimerQueue_inv q2 ?es \<and> alarm_covers q2 (\<lambda>w. \<not> Timestamp_valid w)
      \<and> cb_effect ?es ?q1 q2 (concat (map (\<lambda>e. cb (snd e)) ?es)))"
    using run_expired_ok [of ?q1 ?es "\<lambda>w. \<not> Timestamp_valid w" ?es cb] down_closed_invalid by simp
  then consider "run_expired cb ?q1 ?es = Inl Terminated"
    | q2 where "run_expired cb ?q1 ?es = Inr q2" "TimerQueue_inv q2 ?es"
      "alarm_covers q2 (\<lambda>w. \<not> Timestamp_valid w)"
      "cb_effect ?es ?q1 q2 (concat (map (\<lambda>e. cb (snd e)) ?es))" by blast
  then show ?thesis
  proof cases
    case 1
    then show ?thesis using q1(1) by (simp add: TimerQueue_handleRead_def)
  next
    case (2 q2)
    let ?q2 = "q2\<lparr>callingExpiredTimers := False\<rparr>"
    have i2: "TimerQueue_inv ?q2 ?es" using 2 by simp
    moreover have "alarm_covers ?q2 (\<lambda>w. \<not> Timestamp_valid w)" using 2(3) by (simp add: alarm_covers_def)
    ultimately obtain q3 where q3: "TimerQueue_reset clock ?q2 ?es now = Inr q3"
      "TimerQueue_inv q3 []" "alarm_covers q3 (\<lambda>_. True)" "\<not> callingExpiredTimers q3"
      "mset (timers q3) = mset (timers ?q2) + mset (restarted ?q2 now ?es)"
      using TimerQueue_reset_ok [OF _ _ now, of ?q2 ?es clock] by auto
    have run: "TimerQueue_handleRead cb now clock q = Inr (?es, q3)"
      using q1(1) 2(1) q3(1) by (simp add: TimerQueue_handleRead_def)
    have ts: "set (timers q3) = set (timers q2) \<union> set (restarted ?q2 now ?es)"
      using arg_cong [OF q3(5), of set_mset] by simp
    have same: "timer_heap q2 (snd e) = timer_heap q (snd e)" if "e \<in> set ?es" for e
      using 2(4) that q1(4) by (simp add: cb_effect_def)
    have surv: "survives ?q2 e \<longleftrightarrow> put_back cb q now e" if "e \<in> set ?es" for e
      using 2(4) that q1(4) same [OF that]
      by (auto simp: survives_def put_back_def cb_effect_def active_of_def)
    have "if put_back cb q now e
        then (addTime now (interval (the (timer_heap q (snd e)))), snd e) \<in> set (timers q3)
        else timer_heap q3 (snd e) = None" if "e \<in> set ?es" for e
    proof -
      have "set (timers q3) = set (timers ?q2) \<union> set (restarted ?q2 now ?es)" using ts by simp
      from reset_fate [OF i2 q3(2) that this] surv [OF that] same [OF that] show ?thesis
        by (auto split: if_splits)
    qed
    with run q3 show ?thesis by blast
  qed
qed

section \<open>Properties\<close>

text \<open>
  What happens to a queue in the thread of its loop: a timer is added or cancelled, or the
  alarm fires.
\<close>

datatype timer_event =
    Command timer_cmd
  | Alarm "nat \<Rightarrow> timer_cmd list" Timestamp Timestamp

fun timer_event_exec :: "TimerQueue \<Rightarrow> timer_event \<Rightarrow> TimerQueue res" where
  "timer_event_exec q (Command c) = timer_cmd_exec q c"
| "timer_event_exec q (Alarm cb now clock) =
     andThen (TimerQueue_handleRead cb now clock q) (\<lambda>(expired, q'). Inr q')"

definition timer_event_ok :: "timer_event \<Rightarrow> bool" where
  "timer_event_ok ev \<longleftrightarrow> (case ev of Command c \<Rightarrow> True | Alarm cb now clock \<Rightarrow> Timestamp_valid now)"

lemma timer_event_exec_ok:
  assumes inv: "TimerQueue_inv q []" and cov: "alarm_covers q (\<lambda>_. True)"
    and ev: "timer_event_ok ev" and idle: "\<not> callingExpiredTimers q"
  shows "timer_event_exec q ev = Inl Terminated \<or> (\<exists>q'. timer_event_exec q ev = Inr q' \<and>
    TimerQueue_inv q' [] \<and> alarm_covers q' (\<lambda>_. True) \<and> \<not> callingExpiredTimers q')"
proof (cases ev)
  case (Command c)
  have "down_closed (\<lambda>_. True)" by (simp add: down_closed_def)
  from timer_cmd_exec_ok [OF inv cov this, of c] Command idle show ?thesis by auto
next
  case (Alarm cb now clock)
  then have "Timestamp_valid now" using ev by (simp add: timer_event_ok_def)
  from TimerQueue_handleRead_ok [OF inv this, of cb clock] Alarm show ?thesis by auto
qed

lemma timer_events_ok:
  "TimerQueue_inv q [] \<Longrightarrow> alarm_covers q (\<lambda>_. True) \<Longrightarrow> \<not> callingExpiredTimers q \<Longrightarrow>
    \<forall>ev\<in>set evs. timer_event_ok ev \<Longrightarrow>
    run_all timer_event_exec q evs = Inl Terminated \<or> (\<exists>q'. run_all timer_event_exec q evs = Inr q' \<and>
      TimerQueue_inv q' [] \<and> alarm_covers q' (\<lambda>_. True) \<and> \<not> callingExpiredTimers q')"
proof (induction evs arbitrary: q)
  case Nil
  then show ?case by simp
next
  case (Cons ev evs)
  then have "timer_event_ok ev" by simp
  from timer_event_exec_ok [OF Cons.prems(1,2) this Cons.prems(3)]
  consider "timer_event_exec q ev = Inl Terminated"
    | q1 where "timer_event_exec q ev = Inr q1" "TimerQueue_inv q1 []" "alarm_covers q1 (\<lambda>_. True)"
      "\<not> callingExpiredTimers q1" by blast
  then show ?case
  proof cases
    case (2 q1)
    then show ?thesis using Cons.IH [OF 2(2-4)] Cons.prems(4) by simp
  qed simp
qed

lemma TimerQueue_new_inv: "TimerQueue_inv (TimerQueue_new n) []"
  "alarm_covers (TimerQueue_new n) P" "\<not> callingExpiredTimers (TimerQueue_new n)"
  by (simp_all add: TimerQueue_new_def TimerQueue_inv_def timers_inv_def alarm_covers_def)

text \<open>
  C21. The timer queue is memory safe and its assertions hold: whatever sequence of timers is
  added and cancelled, from the loop or from the callbacks of an alarm, no assertion fails and
  no deleted timer is used (only an allocation can fail); both sets and the heap agree, so
  no timer is leaked; and the descriptor's alarm is never later than the earliest timer.
\<close>

theorem timer_queue_safe:
  assumes "\<forall>ev\<in>set evs. timer_event_ok ev"
  shows "run_all timer_event_exec (TimerQueue_new n) evs = Inl Terminated \<or>
    (\<exists>q. run_all timer_event_exec (TimerQueue_new n) evs = Inr q
      \<and> length (timers q) = length (activeTimers q)
      \<and> dom (timer_heap q) = snd ` set (timers q)
      \<and> (\<forall>e\<in>set (timers q). \<exists>a. alarm q = Some a \<and> fst a \<le> fst e))"
proof -
  have "length (timers q) = length (activeTimers q) \<and> dom (timer_heap q) = snd ` set (timers q)"
    if "TimerQueue_inv q []" for q
    using timers_invD(5,6) [OF that [unfolded TimerQueue_inv_def]] by simp
  with timer_events_ok [OF TimerQueue_new_inv(1,2,3) assms, of n] show ?thesis
    unfolding alarm_covers_def by blast
qed

text \<open>
  A repeating timer at 10, a one-shot at 20 whose callback cancels the first and adds a third,
  and an alarm at 30.
\<close>

definition timer_script :: "timer_event list" where
  "timer_script =
     [Command (Add_timer (Timestamp 1) 100 (Timestamp 10) (1 / 2)),
      Command (Add_timer (Timestamp 1) 101 (Timestamp 20) 0),
      Alarm (\<lambda>p. if p = 101 then [Cancel_timer \<lparr>timer = 100, tid_sequence = 0\<rparr>,
                   Add_timer (Timestamp 30) 102 (Timestamp 90) 0] else [])
        (Timestamp 30) (Timestamp 31)]"

theorem timer_queue_safe_witness:
  "run_all timer_event_exec (TimerQueue_new 0) timer_script = Inl Terminated \<or>
    (\<exists>q. run_all timer_event_exec (TimerQueue_new 0) timer_script = Inr q
      \<and> length (timers q) = length (activeTimers q))"
proof -
  have "\<forall>ev\<in>set timer_script. timer_event_ok ev"
    by (simp add: timer_script_def timer_event_ok_def Timestamp_valid_def)
  from timer_queue_safe [OF this, of 0] show ?thesis by blast
qed

text \<open>
  C28. An alarm runs exactly the timers that are due, in order of expiration, and disposes of each
  as documented: a repeating timer that no callback of the alarm cancelled is back in the
  queue, its interval after the alarm; every other one is deleted.
\<close>

theorem alarm_runs_due_timers:
  assumes "TimerQueue_inv q []" and "Timestamp_valid now"
    and "TimerQueue_handleRead cb now clock q = Inr (expired, q')"
  shows "expired = filter (\<lambda>e. fst e \<le> now) (timers q)
    \<and> (\<forall>e\<in>set expired.
         if repeat (the (timer_heap q (snd e))) \<and>
           (\<forall>x\<in>set expired. \<forall>c\<in>set (cb (snd x)). \<not> cancels c (active_of (timer_heap q) e))
         then (addTime now (interval (the (timer_heap q (snd e)))), snd e) \<in> set (timers q')
         else timer_heap q' (snd e) = None)"
proof -
  from TimerQueue_handleRead_ok [OF assms(1,2), of cb clock] assms(3)
  have "expired = due q now"
    and "\<forall>e\<in>set (due q now). if put_back cb q now e
      then (addTime now (interval (the (timer_heap q (snd e)))), snd e) \<in> set (timers q')
      else timer_heap q' (snd e) = None" by auto
  then show ?thesis by (simp only: put_back_def due_def)
qed

definition timer_sample :: TimerQueue where
  "timer_sample = \<lparr>timers = [(Timestamp 10, 100), (Timestamp 20, 101), (Timestamp 50, 102)],
     activeTimers = [(100, 0), (101, 1), (102, 2)], callingExpiredTimers = False,
     cancelingTimers = [],
     timer_heap = [100 \<mapsto> Timer_new (Timestamp 10) (1 / 2) 0, 101 \<mapsto> Timer_new (Timestamp 20) 3 1,
       102 \<mapsto> Timer_new (Timestamp 50) 0 2],
     s_numCreated = 3, alarm = Some (Timestamp 10, 0, 100000)\<rparr>"

definition timer_sample_cb :: "nat \<Rightarrow> timer_cmd list" where
  "timer_sample_cb p = (if p = 101 then [Cancel_timer \<lparr>timer = 101, tid_sequence = 1\<rparr>] else [])"

lemmas timer_eval = TimerQueue_handleRead_def TimerQueue_getExpired_def readTimerfd_def
  sets_agree_in_size_def sset_lower_bound_def sset_erase_def sset_insert_def deref_timer_def
  TimerQueue_cancelInLoop_def TimerQueue_reset_def TimerQueue_insert_def Timer_restart_def
  Timer_new_def addTime_def trunc_rat_def kMicroSecondsPerSecond_def resetTimerfd_def
  howMuchTimeFromNow_def Timestamp_valid_def less_Timestamp_def Timestamp_less_def less_eq_Timestamp_def
  UINTPTR_MAX_def Let_def

theorem alarm_runs_due_timers_witness:
  "\<exists>q'. TimerQueue_handleRead timer_sample_cb (Timestamp 30) (Timestamp 31) timer_sample
      = Inr ([(Timestamp 10, 100), (Timestamp 20, 101)], q')
    \<and> (Timestamp 500030, 100) \<in> set (timers q') \<and> timer_heap q' 101 = None"
proof -
  have inv: "TimerQueue_inv timer_sample []"
    by (auto simp: TimerQueue_inv_def timers_inv_def timer_sample_def live_entry_def active_of_def
        Timer_new_def UINTPTR_MAX_def less_eq_Timestamp_def ran_def split: if_splits)
  obtain q' where run: "TimerQueue_handleRead timer_sample_cb (Timestamp 30) (Timestamp 31) timer_sample
      = Inr ([(Timestamp 10, 100), (Timestamp 20, 101)], q')"
    by (simp add: timer_sample_def timer_sample_cb_def timer_eval)
  have "addTime (Timestamp 30) (interval (the (timer_heap timer_sample 100))) = Timestamp 500030"
    by (simp add: timer_sample_def Timer_new_def addTime_def trunc_rat_def kMicroSecondsPerSecond_def)
  with alarm_runs_due_timers [OF inv _ run] run show ?thesis
    by (simp add: timer_sample_def timer_sample_cb_def Timestamp_valid_def Timer_new_def cancels_def
        active_of_def)
qed

text \<open>
  C29. The delay handed to the timer descriptor, computed with 64 bits: for an expiration that
  is an \<open>int64_t\<close> and a clock that is not before the epoch, the subtraction overflows exactly if
  the expiration is more than \<open>2 ^ 63\<close> microseconds before the clock; otherwise the result is a
  legal, non-zero \<open>timespec\<close> of at least 100 microseconds, the nanoseconds within a second, and
  above that exactly the time that remains; it is also what the unbounded computation gives.
\<close>

theorem howMuchTimeFromNow_legal:
  assumes "fits64 (microSecondsSinceEpoch when)"
    and "0 \<le> microSecondsSinceEpoch clock" and "microSecondsSinceEpoch clock < 2 ^ 63"
  shows "if microSecondsSinceEpoch when < microSecondsSinceEpoch clock - 2 ^ 63
    then howMuchTimeFromNow64 when clock = Inl Undefined_behaviour
    else \<exists>tv_sec tv_nsec. howMuchTimeFromNow64 when clock = Inr (tv_sec, tv_nsec)
      \<and> howMuchTimeFromNow when clock = (tv_sec, tv_nsec)
      \<and> 0 \<le> tv_sec \<and> fits64 tv_sec \<and> 0 \<le> tv_nsec \<and> tv_nsec < 10 ^ 9
      \<and> tv_sec * 10 ^ 9 + tv_nsec =
          1000 * max 100 (microSecondsSinceEpoch when - microSecondsSinceEpoch clock)"
proof -
  let ?d = "microSecondsSinceEpoch when - microSecondsSinceEpoch clock"
  define us where "us = max 100 ?d"
  have fit: "fits64 ?d \<longleftrightarrow> \<not> microSecondsSinceEpoch when < microSecondsSinceEpoch clock - 2 ^ 63"
    using assms by (auto simp: fits64_def)
  have us: "0 \<le> us" "us < 2 ^ 63" if "fits64 ?d" using that by (simp_all add: us_def fits64_def)
  have eq: "howMuchTimeFromNow when clock = (us div 1000000, (us mod 1000000) * 1000)"
    by (simp add: howMuchTimeFromNow_def kMicroSecondsPerSecond_def Let_def max_def us_def)
  have "us div 1000000 \<le> us" if "0 \<le> us" using that div_le_dividend [of "nat us" 1000000]
    by (simp add: zdiv_int [symmetric] nat_div_distrib nat_le_eq_zle)
  then have sec: "0 \<le> us div 1000000" "fits64 (us div 1000000)" if "fits64 ?d"
    using us [OF that] by (simp_all add: pos_imp_zdiv_nonneg_iff fits64_def)
  have "1000 * us = 1000 * (us div 1000000 * 1000000 + us mod 1000000)" by simp
  then have "us div 1000000 * 10 ^ 9 + us mod 1000000 * 1000 = 1000 * us"
    by (simp only: distrib_left) simp
  then show ?thesis using sec fit eq by (auto simp: howMuchTimeFromNow64_eq us_def)
qed

theorem howMuchTimeFromNow_legal_witness:
  "howMuchTimeFromNow64 (Timestamp 3500000) (Timestamp 1000000) = Inr (2, 500000000)
   \<and> howMuchTimeFromNow64 (Timestamp (- (2 ^ 63))) (Timestamp 1) = Inl Undefined_behaviour"
proof -
  have "howMuchTimeFromNow (Timestamp 3500000) (Timestamp 1000000) = (2, 500000000)"
    by (simp add: howMuchTimeFromNow_def kMicroSecondsPerSecond_def)
  then show ?thesis
    using howMuchTimeFromNow_legal [of "Timestamp 3500000" "Timestamp 1000000"]
      howMuchTimeFromNow_legal [of "Timestamp (- (2 ^ 63))" "Timestamp 1"]
    by (simp add: fits64_def)
qed

end
