(* ===== verification/C_Text.thy ===== *)
theory C_Text
  imports Poby_Prelude
begin

text \<open>
  C strings as the code formats and scans them: the decimal numbers that \<open>snprintf\<close> with
  \<open>%d\<close> and \<open>std::to_string\<close> print and \<open>atoi\<close> reads, the truncation of \<open>snprintf\<close>, and the
  prefix test \<open>strncmp(s, p, strlen(p)) == 0\<close>.
\<close>

definition digit_char :: "nat \<Rightarrow> char" where
  "digit_char d = char_of (48 + d)"

definition is_digit :: "char \<Rightarrow> bool" where
  "is_digit c \<longleftrightarrow> 48 \<le> (of_char c :: nat) \<and> (of_char c :: nat) \<le> 57"

definition digit_value :: "char \<Rightarrow> nat" where
  "digit_value c = of_char c - 48"

fun show_nat :: "nat \<Rightarrow> string" where
  "show_nat n = (if n < 10 then [digit_char n] else show_nat (n div 10) @ [digit_char (n mod 10)])"

declare show_nat.simps [simp del]

definition show_int :: "int \<Rightarrow> string" where
  "show_int i = (if i < 0 then CHR ''-'' # show_nat (nat (- i)) else show_nat (nat i))"

definition is_space :: "char \<Rightarrow> bool" where
  "is_space c \<longleftrightarrow> (of_char c :: nat) \<in> {9, 10, 11, 12, 13, 32}"

definition digits_value :: "nat \<Rightarrow> string \<Rightarrow> nat" where
  "digits_value v s = foldl (\<lambda>a c. 10 * a + digit_value c) v (takeWhile is_digit s)"

text \<open>
  \<open>atoi\<close> of the C library: leading white space, an optional sign, digits; the value is the
  saturated \<open>long\<close> cut to an \<open>int\<close>.
\<close>

definition atoi :: "string \<Rightarrow> int" where
  "atoi s =
     (let t = dropWhile is_space s;
          v = (case t of
                 [] \<Rightarrow> 0
               | c # r \<Rightarrow> if c = CHR ''-'' then - int (digits_value 0 r)
                         else if c = CHR ''+'' then int (digits_value 0 r)
                         else int (digits_value 0 t))
      in sint (word_of_int (max (- (2 ^ 63)) (min (2 ^ 63 - 1) v)) :: 32 word))"

definition snprintf_cut :: "nat \<Rightarrow> string \<Rightarrow> string" where
  "snprintf_cut n s = take (n - 1) s"

definition has_prefix :: "string \<Rightarrow> string \<Rightarrow> bool" where
  "has_prefix p s \<longleftrightarrow> take (length p) s = p"

section \<open>Printed numbers are read back\<close>

lemma of_char_digit: "d < 10 \<Longrightarrow> (of_char (digit_char d) :: nat) = 48 + d"
  by (simp add: digit_char_def of_char_of)

lemma digit_char_facts [simp]:
  assumes "d < 10"
  shows "is_digit (digit_char d)" and "digit_value (digit_char d) = d"
    and "\<not> is_space (digit_char d)"
  using assms by (simp_all add: is_digit_def digit_value_def is_space_def of_char_digit)

lemma digit_char_not_sign:
  assumes "d < 10" shows "digit_char d \<noteq> CHR ''-''" and "digit_char d \<noteq> CHR ''+''"
proof -
  have "is_digit (digit_char d)" using assms by simp
  moreover have "\<not> is_digit CHR ''-''" "\<not> is_digit CHR ''+''" by (simp_all add: is_digit_def)
  ultimately show "digit_char d \<noteq> CHR ''-''" "digit_char d \<noteq> CHR ''+''" by metis+
qed

lemma show_nat_digits: "list_all is_digit (show_nat n)"
proof (induction n rule: show_nat.induct)
  case (1 n)
  then show ?case by (subst show_nat.simps) (auto split: if_splits)
qed

lemma show_nat_nonempty [simp]: "show_nat n \<noteq> []"
  by (subst show_nat.simps) simp

lemma takeWhile_digits [simp]: "takeWhile is_digit (show_nat n) = show_nat n"
  using show_nat_digits [of n] by (simp add: takeWhile_eq_all_conv list_all_iff)

lemma digits_value_show: "digits_value 0 (show_nat n) = n"
proof -
  have "foldl (\<lambda>a c. 10 * a + digit_value c) 0 (show_nat n) = n"
  proof (induction n rule: show_nat.induct)
    case (1 n)
    then show ?case by (subst show_nat.simps) (auto split: if_splits)
  qed
  then show ?thesis by (simp add: digits_value_def)
qed

lemma show_nat_inject [simp]: "show_nat m = show_nat n \<longleftrightarrow> m = n"
  by (metis digits_value_show)

lemma show_nat_length: "n < 10 ^ Suc k \<Longrightarrow> length (show_nat n) \<le> Suc k"
proof (induction k arbitrary: n)
  case (Suc k)
  show ?case
  proof (cases "n < 10")
    case False
    have "n div 10 < 10 ^ Suc k" using Suc.prems by (simp add: less_mult_imp_div_less mult.commute)
    with Suc.IH False show ?thesis by (subst show_nat.simps) simp
  qed (subst show_nat.simps, simp)
qed (subst show_nat.simps, simp)

lemma show_nat_head: "\<exists>d r. show_nat n = digit_char d # r \<and> d < 10"
proof (induction n rule: show_nat.induct)
  case (1 n)
  show ?case
  proof (cases "n < 10")
    case True
    then show ?thesis by (subst show_nat.simps) auto
  next
    case False
    with 1 obtain d r where "show_nat (n div 10) = digit_char d # r" "d < 10" by auto
    with False show ?thesis by (subst show_nat.simps) auto
  qed
qed

lemma sint_small:
  assumes "- (2 ^ 31) \<le> i" and "i < 2 ^ 31"
  shows "sint (word_of_int (max (- (2 ^ 63)) (min (2 ^ 63 - 1) i)) :: 32 word) = i"
proof -
  have "max (- (2 ^ 63)) (min (2 ^ 63 - 1) i) = i" using assms by auto
  then show ?thesis using assms by (simp add: sint_sbintrunc' signed_take_bit_int_eq_self)
qed

lemma atoi_show_int:
  assumes "- (2 ^ 31) \<le> i" and "i < 2 ^ 31"
  shows "atoi (show_int i) = i"
proof (cases "i < 0")
  case True
  have "dropWhile is_space (show_int i) = CHR ''-'' # show_nat (nat (- i))"
    using True by (simp add: show_int_def is_space_def)
  then show ?thesis using True sint_small [OF assms] by (simp add: atoi_def digits_value_show)
next
  case False
  obtain d r where s: "show_nat (nat i) = digit_char d # r" "d < 10" using show_nat_head by blast
  have "dropWhile is_space (show_int i) = show_nat (nat i)" using False s by (simp add: show_int_def)
  moreover have "(case show_nat (nat i) of [] \<Rightarrow> 0
      | c # r \<Rightarrow> if c = CHR ''-'' then - int (digits_value 0 r)
          else if c = CHR ''+'' then int (digits_value 0 r)
          else int (digits_value 0 (show_nat (nat i)))) = i"
    using False s digit_char_not_sign [OF s(2)] digits_value_show [of "nat i"] by simp
  ultimately show ?thesis using sint_small [OF assms] by (simp only: atoi_def Let_def)
qed

end
