(* ===== verification/Rdma_Device.thy ===== *)
theory Rdma_Device
  imports C_Text
begin

text \<open>
  Opening an RDMA device: \<^verbatim>\<open>src/src/network/rdma/DevContext.h\<close>, \<^verbatim>\<open>DevContext.cc\<close> and
  \<^verbatim>\<open>error.h\<close>. The verbs library and the sysfs files enter as arguments; every call that takes
  or gives back a resource is recorded. The lemmas show which GIDs are chosen and that every
  path gives back the device list, and the device when it fails.
\<close>

section \<open>Data\<close>

datatype RDMAError =
    kSuccess | kFindDeviceError | kOpenDeviceError | kDeviceInfoError | kCompChannelError
  | kPdError | kQpError | kCqError | kMrError | kTcpListenError | kTcpConnectionError
  | kUnexpectedError | kAgain

type_synonym ibv_gid = "byte list"

definition kMaxGidCount :: nat where "kMaxGidCount = 256"

text \<open>
  The constructors leave \<open>gid_count_\<close> and the two arrays uninitialised: \<open>gid_count\<close> is
  \<open>None\<close> until it is assigned, and the used prefixes of the arrays are lists.
\<close>

record DevContext =
  ib_dev_name :: string
  ib_dev_port :: int
  gid_index_list :: "int list"
  gid_list :: "ibv_gid list"
  gid_count :: "nat option"
  guid :: "64 word"
  ctx :: "nat option"

text \<open>
  The files below \<open>/sys\<close>: the entries of a directory, and what \<open>getline\<close> reads of a file, where
  \<open>Some []\<close> stands for a file that opens but gives no line.
\<close>

record sysfs =
  readdir_all :: "string \<Rightarrow> string list option"
  first_line :: "string \<Rightarrow> string option"

text \<open>The verbs library: the device list with names and GUIDs, opening a device, reading a GID.\<close>

record verbs_lib =
  device_list :: "(string \<times> 64 word) list option"
  open_device :: "nat \<Rightarrow> nat option"
  query_gid :: "nat \<Rightarrow> int \<Rightarrow> int \<Rightarrow> ibv_gid option"

datatype dev_call = Got_device_list | Freed_device_list | Opened_device nat | Closed_device nat

section \<open>Operations\<close>

fun ib_dev_id_from :: "nat \<Rightarrow> string \<Rightarrow> (string \<times> 64 word) list \<Rightarrow> int" where
  "ib_dev_id_from i name [] = - 1"
| "ib_dev_id_from i name ((n, g) # ds) = (if n = name then int i else ib_dev_id_from (Suc i) name ds)"

definition ib_dev_id_by_name :: "string \<Rightarrow> (string \<times> 64 word) list \<Rightarrow> int" where
  "ib_dev_id_by_name name devs = ib_dev_id_from 0 name devs"

text \<open>\<open>cmpfunc\<close> subtracts in 32 bits. \<open>qsort\<close> is modelled by insertion with the comparison.\<close>

definition cmpfunc :: "int \<Rightarrow> int \<Rightarrow> int" where
  "cmpfunc a b = sint (word_of_int (a - b) :: 32 word)"

fun qsort_insert :: "('a \<Rightarrow> 'a \<Rightarrow> int) \<Rightarrow> 'a \<Rightarrow> 'a list \<Rightarrow> 'a list" where
  "qsort_insert cmp x [] = [x]"
| "qsort_insert cmp x (y # ys) = (if cmp x y \<le> 0 then x # y # ys else y # qsort_insert cmp x ys)"

definition qsort :: "('a \<Rightarrow> 'a \<Rightarrow> int) \<Rightarrow> 'a list \<Rightarrow> 'a list" where
  "qsort cmp xs = foldr (qsort_insert cmp) xs []"

definition DevContext_new :: "string \<Rightarrow> int \<Rightarrow> nat \<Rightarrow> 64 word \<Rightarrow> DevContext" where
  "DevContext_new name port c g =
     \<lparr>ib_dev_name = name, ib_dev_port = port, gid_index_list = [], gid_list = [], gid_count = None,
      guid = g, ctx = Some c\<rparr>"

definition DevContext_empty :: DevContext where
  "DevContext_empty =
     \<lparr>ib_dev_name = [], ib_dev_port = 0, gid_index_list = [], gid_list = [], gid_count = None,
      guid = 0, ctx = None\<rparr>"

text \<open>The move constructor: the source keeps no device, so its destructor closes nothing.\<close>

definition DevContext_move :: "DevContext \<Rightarrow> DevContext \<times> DevContext" where
  "DevContext_move d = (d, d\<lparr>ib_dev_name := [], ctx := None\<rparr>)"

definition DevContext_destroy :: "DevContext \<Rightarrow> dev_call list" where
  "DevContext_destroy d = (case ctx d of None \<Rightarrow> [] | Some c \<Rightarrow> [Closed_device c])"

definition gids_file :: "DevContext \<Rightarrow> int \<Rightarrow> string" where
  "gids_file d i = snprintf_cut 384 (''/sys/class/infiniband/'' @ ib_dev_name d @ ''/ports/''
     @ show_int (ib_dev_port d) @ ''/gids/'' @ show_int i)"

definition types_dir :: "DevContext \<Rightarrow> string" where
  "types_dir d = snprintf_cut 128 (''/sys/class/infiniband/'' @ ib_dev_name d @ ''/ports/''
     @ show_int (ib_dev_port d) @ ''/gid_attrs/types'')"

definition types_file :: "string \<Rightarrow> string \<Rightarrow> string" where
  "types_file dir entry = snprintf_cut 384 (dir @ ''/'' @ entry)"

definition ipv4_gid_prefix :: string where
  "ipv4_gid_prefix = ''0000:0000:0000:0000:0000:ffff:''"

text \<open>
  \<open>getline\<close> gives -1 and not 0 when it reads nothing, so the test \<open>!read\<close> does not catch an
  empty file and the comparison reads memory nobody wrote.
\<close>

definition DevContext_is_ipv4_gid :: "sysfs \<Rightarrow> DevContext \<Rightarrow> int \<Rightarrow> bool res" where
  "DevContext_is_ipv4_gid fs d i =
     (case first_line fs (gids_file d i) of
        None \<Rightarrow> Inr False
      | Some line \<Rightarrow> defined_if (line \<noteq> []) (Inr (has_prefix ipv4_gid_prefix line)))"

text \<open>The loop over the directory entries, with the indices found so far.\<close>

fun scan_gid_types :: "sysfs \<Rightarrow> DevContext \<Rightarrow> string list \<Rightarrow> int list \<Rightarrow> int list res" where
  "scan_gid_types fs d [] found = Inr found"
| "scan_gid_types fs d (e # es) found =
     (if length found < kMaxGidCount
      then case first_line fs (types_file (types_dir d) e) of
          None \<Rightarrow> scan_gid_types fs d es found
        | Some line \<Rightarrow>
            if line = [] \<or> \<not> has_prefix ''RoCE v2'' line then scan_gid_types fs d es found
            else andThen (DevContext_is_ipv4_gid fs d (atoi e)) (\<lambda>ip.
              if ip then scan_gid_types fs d es (found @ [atoi e])
              else scan_gid_types fs d es found)
      else Inr found)"

definition DevContext_get_rocev2_gid_index :: "sysfs \<Rightarrow> DevContext \<Rightarrow> DevContext res" where
  "DevContext_get_rocev2_gid_index fs d =
     (case readdir_all fs (types_dir d) of
        None \<Rightarrow> Inr d
      | Some entries \<Rightarrow> andThen (scan_gid_types fs d entries []) (\<lambda>found.
          let l = qsort cmpfunc found in
          Inr (d\<lparr>gid_index_list := l, gid_count := Some (length found)\<rparr>)))"

text \<open>The GIDs of the chosen indices, or \<open>None\<close> when one cannot be read.\<close>

fun query_gids :: "verbs_lib \<Rightarrow> nat \<Rightarrow> int \<Rightarrow> int list \<Rightarrow> ibv_gid list option" where
  "query_gids v c port [] = Some []"
| "query_gids v c port (i # is) =
     (case query_gid v c port i of
        None \<Rightarrow> None
      | Some g \<Rightarrow> map_option ((#) g) (query_gids v c port is))"

text \<open>The part of \<open>create\<close> after the device is open; a failure destroys the context.\<close>

definition DevContext_setup ::
  "verbs_lib \<Rightarrow> sysfs \<Rightarrow> nat \<Rightarrow> DevContext \<Rightarrow> (dev_call list \<times> (RDMAError + DevContext)) res" where
  "DevContext_setup v fs c d =
     andThen (DevContext_get_rocev2_gid_index fs d) (\<lambda>d1.
       case gid_count d1 of
         None \<Rightarrow> Inl Undefined_behaviour
       | Some n \<Rightarrow>
           if n = 0 then Inr (DevContext_destroy d1 @ [Freed_device_list], Inl kDeviceInfoError)
           else case query_gids v c (ib_dev_port d1) (take n (gid_index_list d1)) of
               None \<Rightarrow> Inr (DevContext_destroy d1 @ [Freed_device_list], Inl kDeviceInfoError)
             | Some gs \<Rightarrow> Inr ([Freed_device_list], Inr (d1\<lparr>gid_list := gs\<rparr>)))"

definition DevContext_create ::
  "verbs_lib \<Rightarrow> sysfs \<Rightarrow> string \<Rightarrow> int \<Rightarrow> (dev_call list \<times> (RDMAError + DevContext)) res" where
  "DevContext_create v fs name port =
     (case device_list v of
        None \<Rightarrow> Inr ([], Inl kFindDeviceError)
      | Some devs \<Rightarrow>
          if devs = [] then Inr ([Got_device_list, Freed_device_list], Inl kFindDeviceError)
          else let i = ib_dev_id_by_name name devs in
            if i < 0 then Inr ([Got_device_list, Freed_device_list], Inl kFindDeviceError)
            else case open_device v (nat i) of
                None \<Rightarrow> Inr ([Got_device_list, Freed_device_list], Inl kOpenDeviceError)
              | Some c \<Rightarrow>
                  andThen (DevContext_setup v fs c (DevContext_new name port c (snd (devs ! nat i))))
                    (\<lambda>(log, r). Inr ([Got_device_list, Opened_device c] @ log, r)))"

section \<open>The scan\<close>

definition gid_usable :: "sysfs \<Rightarrow> DevContext \<Rightarrow> string \<Rightarrow> bool" where
  "gid_usable fs d e \<longleftrightarrow>
     (\<exists>t g. first_line fs (types_file (types_dir d) e) = Some t \<and> has_prefix ''RoCE v2'' t
       \<and> first_line fs (gids_file d (atoi e)) = Some g \<and> has_prefix ipv4_gid_prefix g)"

lemma qsort_insert_set: "mset (qsort_insert cmp x ys) = add_mset x (mset ys)"
  by (induction ys) auto

lemma mset_qsort: "mset (qsort cmp xs) = mset xs"
  by (induction xs) (simp_all add: qsort_def qsort_insert_set)

lemma cmpfunc_le:
  assumes "0 \<le> a" "a < 2 ^ 31" "0 \<le> b" "b < 2 ^ 31"
  shows "cmpfunc a b \<le> 0 \<longleftrightarrow> a \<le> b"
proof -
  have "signed_take_bit 31 (a - b) = a - b" using assms by (intro signed_take_bit_int_eq_self) simp_all
  then show ?thesis by (simp add: cmpfunc_def sint_sbintrunc' del: of_int_diff)
qed

lemma qsort_insert_insort:
  assumes "\<forall>y\<in>set (x # ys). 0 \<le> y \<and> y < 2 ^ 31"
  shows "qsort_insert cmpfunc x ys = insort x ys"
  using assms by (induction ys) (auto simp: cmpfunc_le)

lemma qsort_cmpfunc:
  assumes "\<forall>x\<in>set xs. 0 \<le> x \<and> x < 2 ^ 31"
  shows "qsort cmpfunc xs = sort xs"
  using assms
proof (induction xs)
  case (Cons x xs)
  then have "qsort_insert cmpfunc x (sort xs) = insort x (sort xs)"
    by (intro qsort_insert_insort) auto
  with Cons show ?case by (simp add: qsort_def)
qed (simp add: qsort_def)

lemma scan_gid_types_sound:
  assumes "scan_gid_types fs d es found = Inr l" and "length found \<le> kMaxGidCount"
  shows "length l \<le> kMaxGidCount \<and> set l \<subseteq> set found \<union> atoi ` {e \<in> set es. gid_usable fs d e}"
  using assms
proof (induction es arbitrary: found)
  case (Cons e es)
  show ?case
  proof (cases "length found < kMaxGidCount")
    case True
    consider "scan_gid_types fs d es found = Inr l"
      | t where "first_line fs (types_file (types_dir d) e) = Some t" "has_prefix ''RoCE v2'' t"
          "DevContext_is_ipv4_gid fs d (atoi e) = Inr True"
          "scan_gid_types fs d es (found @ [atoi e]) = Inr l"
      using Cons.prems(1) True
      by (auto simp: andThen_eq_Inr split: option.splits if_splits)
    then show ?thesis
    proof cases
      case 1
      then show ?thesis using Cons.IH [OF 1 Cons.prems(2)] by auto
    next
      case (2 t)
      have "gid_usable fs d e" using 2(1-3)
        by (auto simp: gid_usable_def DevContext_is_ipv4_gid_def res_simps split: option.splits)
      moreover have "length (found @ [atoi e]) \<le> kMaxGidCount" using True by simp
      ultimately show ?thesis using Cons.IH [OF 2(4)] by auto
    qed
  qed (use Cons.prems in auto)
qed auto

lemma query_gids_Some:
  "query_gids v c port is = Some gs \<longleftrightarrow> list_all2 (\<lambda>i g. query_gid v c port i = Some g) is gs"
  by (induction "is" arbitrary: gs) (auto simp: list_all2_Cons1 split: option.splits)

lemma ib_dev_id_from_range:
  "ib_dev_id_from i name ds \<noteq> - 1 \<Longrightarrow>
     int i \<le> ib_dev_id_from i name ds \<and> ib_dev_id_from i name ds < int i + int (length ds)
     \<and> fst (ds ! nat (ib_dev_id_from i name ds - int i)) = name"
proof (induction ds arbitrary: i)
  case (Cons p ds)
  show ?case
  proof (cases "fst p = name")
    case False
    let ?r = "ib_dev_id_from (Suc i) name ds"
    have r: "ib_dev_id_from i name (p # ds) = ?r" using False by (cases p) simp
    with Cons.prems have "?r \<noteq> - 1" by simp
    from Cons.IH [OF this] have IH: "int (Suc i) \<le> ?r" "?r < int (Suc i) + int (length ds)"
      "fst (ds ! nat (?r - int (Suc i))) = name" by blast+
    have "nat (?r - int i) = Suc (nat (?r - int (Suc i)))" using IH(1) by linarith
    with IH r show ?thesis by simp
  qed (cases p, simp)
qed simp

text \<open>The devices left open and the device lists not yet freed after a run of calls.\<close>

fun dev_balance :: "dev_call list \<Rightarrow> int \<times> int" where
  "dev_balance [] = (0, 0)"
| "dev_balance (Got_device_list # cs) = (case dev_balance cs of (l, d) \<Rightarrow> (l + 1, d))"
| "dev_balance (Freed_device_list # cs) = (case dev_balance cs of (l, d) \<Rightarrow> (l - 1, d))"
| "dev_balance (Opened_device c # cs) = (case dev_balance cs of (l, d) \<Rightarrow> (l, d + 1))"
| "dev_balance (Closed_device c # cs) = (case dev_balance cs of (l, d) \<Rightarrow> (l, d - 1))"

lemma DevContext_setup_cases:
  assumes run: "DevContext_setup v fs c d = Inr (log, r)" and d: "ctx d = Some c" "gid_count d = None"
  obtains (failed) "r = Inl kDeviceInfoError" "log = [Closed_device c, Freed_device_list]"
  | (found) entries l gs where "readdir_all fs (types_dir d) = Some entries"
      "scan_gid_types fs d entries [] = Inr l" "l \<noteq> []" "log = [Freed_device_list]"
      "r = Inr (d\<lparr>gid_index_list := qsort cmpfunc l, gid_count := Some (length l), gid_list := gs\<rparr>)"
      "query_gids v c (ib_dev_port d) (qsort cmpfunc l) = Some gs"
proof (cases "readdir_all fs (types_dir d)")
  case None
  with run d show ?thesis
    by (simp add: DevContext_setup_def DevContext_get_rocev2_gid_index_def)
next
  case (Some entries)
  with run obtain l where l: "scan_gid_types fs d entries [] = Inr l"
    by (auto simp: DevContext_setup_def DevContext_get_rocev2_gid_index_def andThen_eq_Inr)
  let ?d = "d\<lparr>gid_index_list := qsort cmpfunc l, gid_count := Some (length l)\<rparr>"
  have len: "length (qsort cmpfunc l) = length l" by (metis mset_qsort size_mset)
  have g: "DevContext_get_rocev2_gid_index fs d = Inr ?d"
    using Some l by (simp add: DevContext_get_rocev2_gid_index_def Let_def)
  show ?thesis
  proof (cases "l = [] \<or> query_gids v c (ib_dev_port d) (qsort cmpfunc l) = None")
    case True
    with run g d len show ?thesis
      by (intro failed) (auto simp: DevContext_setup_def DevContext_destroy_def split: if_splits)
  next
    case False
    then obtain gs where "query_gids v c (ib_dev_port d) (qsort cmpfunc l) = Some gs" by auto
    with run g False len Some l show ?thesis by (intro found) (auto simp: DevContext_setup_def)
  qed
qed

lemma DevContext_create_cases:
  assumes "DevContext_create v fs name port = Inr (log, r)"
  obtains (none) e where "r = Inl e" "dev_balance log = (0, 0)"
  | (opened) devs c log' where "device_list v = Some devs" "0 \<le> ib_dev_id_by_name name devs"
      "open_device v (nat (ib_dev_id_by_name name devs)) = Some c"
      "log = [Got_device_list, Opened_device c] @ log'"
      "DevContext_setup v fs c (DevContext_new name port c
         (snd (devs ! nat (ib_dev_id_by_name name devs)))) = Inr (log', r)"
  using assms
  by (auto simp: DevContext_create_def andThen_eq_Inr Let_def split: option.splits if_splits)

lemma DevContext_create_balance:
  assumes "DevContext_create v fs name port = Inr (log, r)"
  shows "dev_balance log = (0, case r of Inl e \<Rightarrow> 0 | Inr d \<Rightarrow> 1)" and "r = Inr d \<Longrightarrow> \<exists>c. ctx d = Some c"
proof -
  from assms have "dev_balance log = (0, case r of Inl e \<Rightarrow> 0 | Inr d \<Rightarrow> 1)
    \<and> (\<forall>d. r = Inr d \<longrightarrow> (\<exists>c. ctx d = Some c))"
  proof (cases rule: DevContext_create_cases)
    case (opened devs c log')
    have "ctx (DevContext_new name port c g) = Some c" "gid_count (DevContext_new name port c g) = None" for g
      by (simp_all add: DevContext_new_def)
    from opened(5) this show ?thesis
      by (cases rule: DevContext_setup_cases) (auto simp: opened(4) DevContext_new_def)
  qed simp
  then show "dev_balance log = (0, case r of Inl e \<Rightarrow> 0 | Inr d \<Rightarrow> 1)" "r = Inr d \<Longrightarrow> \<exists>c. ctx d = Some c"
    by blast+
qed

lemma dev_balance_append:
  "dev_balance (xs @ ys) = (fst (dev_balance xs) + fst (dev_balance ys), snd (dev_balance xs) + snd (dev_balance ys))"
  by (induction xs rule: dev_balance.induct) (auto split: prod.splits)

section \<open>Properties\<close>

text \<open>
  C34. Opening a device by name: whatever the verbs library and sysfs answer, each device list
  obtained is freed and a device stays open exactly when \<open>create\<close> succeeds. A context that is
  returned is the device with that name; it has between 1 and 256 GIDs, every one the RoCE v2
  type and an IPv4 address as sysfs shows them, each read from the device, and the indices are
  in ascending order as long as they are not negative.
\<close>

theorem DevContext_create_sound:
  assumes "DevContext_create v fs name port = Inr (log, r)"
  shows "dev_balance log = (0, case r of Inl e \<Rightarrow> 0 | Inr d \<Rightarrow> 1)
    \<and> (\<forall>d. r = Inr d \<longrightarrow>
        (\<exists>devs i c entries. device_list v = Some devs \<and> i < length devs \<and> devs ! i = (name, guid d)
          \<and> open_device v i = Some c \<and> ctx d = Some c
          \<and> gid_count d = Some (length (gid_index_list d))
          \<and> gid_index_list d \<noteq> [] \<and> length (gid_index_list d) \<le> kMaxGidCount
          \<and> readdir_all fs (types_dir d) = Some entries
          \<and> set (gid_index_list d) \<subseteq> atoi ` {e \<in> set entries. gid_usable fs d e}
          \<and> list_all2 (\<lambda>k g. query_gid v c port k = Some g) (gid_index_list d) (gid_list d)
          \<and> ((\<forall>k\<in>set (gid_index_list d). 0 \<le> k \<and> k < 2 ^ 31) \<longrightarrow> sorted (gid_index_list d))))"
proof -
  let ?i = "\<lambda>devs. ib_dev_id_by_name name devs"
  from assms show ?thesis
  proof (cases rule: DevContext_create_cases)
    case none
    then show ?thesis by simp
  next
    case (opened devs c log')
    let ?d = "DevContext_new name port c (snd (devs ! nat (?i devs)))"
    have d: "ctx ?d = Some c" "gid_count ?d = None" by (simp_all add: DevContext_new_def)
    from opened(5) d show ?thesis
    proof (cases rule: DevContext_setup_cases)
      case failed
      then show ?thesis by (simp add: opened(4))
    next
      case (found entries l gs)
      let ?r = "?d\<lparr>gid_index_list := qsort cmpfunc l, gid_count := Some (length l), gid_list := gs\<rparr>"
      have same: "types_dir ?r = types_dir ?d" "\<And>e. gid_usable fs ?r e = gid_usable fs ?d e"
        by (simp_all add: types_dir_def gid_usable_def gids_file_def)
      have "nat (?i devs) < length devs" "fst (devs ! nat (?i devs)) = name"
        using opened(2) ib_dev_id_from_range [of 0 name devs] by (auto simp: ib_dev_id_by_name_def)
      then have dev: "devs ! nat (?i devs) = (name, guid ?r)"
        by (simp add: DevContext_new_def prod_eq_iff)
      have len: "length (qsort cmpfunc l) = length l" and mem: "set (qsort cmpfunc l) = set l"
        using mset_qsort [of cmpfunc l] by (metis size_mset, metis set_mset_mset)
      have scan: "length l \<le> kMaxGidCount" "set l \<subseteq> atoi ` {e \<in> set entries. gid_usable fs ?d e}"
        using scan_gid_types_sound [OF found(2)] by (simp_all add: kMaxGidCount_def)
      have "sorted (qsort cmpfunc l)" if "\<forall>k\<in>set l. 0 \<le> k \<and> k < 2 ^ 31"
        using that by (simp add: qsort_cmpfunc)
      moreover have "qsort cmpfunc l \<noteq> []" using found(3) len by auto
      moreover have "list_all2 (\<lambda>k g. query_gid v c port k = Some g) (qsort cmpfunc l) gs"
        using found(6) by (simp add: query_gids_Some DevContext_new_def)
      moreover have "dev_balance log = (0, 1)" using found(4) opened(4) by simp
      ultimately show ?thesis
        using found(1,5) opened(1,3) \<open>nat (?i devs) < length devs\<close> dev len mem scan same d(1)
        by (intro conjI allI impI exI [of _ devs] exI [of _ "nat (?i devs)"] exI [of _ c]
            exI [of _ entries]) auto
    qed
  qed
qed

definition sample_verbs :: verbs_lib where
  "sample_verbs = \<lparr>device_list = Some [(''mlx5_0'', 1), (''mlx5_1'', 2)],
     open_device = (\<lambda>i. Some (100 + i)), query_gid = (\<lambda>c port k. Some [1, 2])\<rparr>"

definition sample_sysfs :: sysfs where
  "sample_sysfs = \<lparr>readdir_all = (\<lambda>f. Some [''.'', ''3'']),
     first_line = (\<lambda>f. if f = ''/sys/class/infiniband/mlx5_1/ports/1/gid_attrs/types/3'' then Some ''RoCE v2''
       else if f = ''/sys/class/infiniband/mlx5_1/ports/1/gids/3'' then Some (ipv4_gid_prefix @ ''0a00:0001'')
       else None)\<rparr>"

lemma show_small: "show_int 1 = ''1''" "show_int 3 = ''3''"
  by (simp_all add: show_int_def show_nat.simps digit_char_def char_of_def bit_0)

lemma atoi_3: "atoi ''3'' = 3"
  using atoi_show_int [of 3] by (simp add: show_small)

lemma sample_paths:
  "types_dir (DevContext_new ''mlx5_1'' 1 c g) = ''/sys/class/infiniband/mlx5_1/ports/1/gid_attrs/types''"
  "gids_file (DevContext_new ''mlx5_1'' 1 c g) 3 = ''/sys/class/infiniband/mlx5_1/ports/1/gids/3''"
  by (simp_all add: types_dir_def gids_file_def snprintf_cut_def DevContext_new_def show_small)

lemma sample_scan:
  "DevContext_get_rocev2_gid_index sample_sysfs (DevContext_new ''mlx5_1'' 1 c g) =
     Inr ((DevContext_new ''mlx5_1'' 1 c g)\<lparr>gid_index_list := [3], gid_count := Some 1\<rparr>)"
  by (simp add: DevContext_get_rocev2_gid_index_def sample_paths sample_sysfs_def types_file_def
      snprintf_cut_def kMaxGidCount_def has_prefix_def DevContext_is_ipv4_gid_def ipv4_gid_prefix_def
      atoi_3 qsort_def)

theorem DevContext_create_sound_witness:
  "\<exists>log d. DevContext_create sample_verbs sample_sysfs ''mlx5_1'' 1 = Inr (log, Inr d)
     \<and> dev_balance log = (0, 1) \<and> ctx d = Some 101 \<and> gid_index_list d \<noteq> []"
proof -
  have "\<exists>log d. DevContext_create sample_verbs sample_sysfs ''mlx5_1'' 1 = Inr (log, Inr d)"
    by (simp add: DevContext_create_def sample_verbs_def ib_dev_id_by_name_def DevContext_setup_def
        sample_scan)
  then obtain log d where run: "DevContext_create sample_verbs sample_sysfs ''mlx5_1'' 1 = Inr (log, Inr d)"
    by blast
  from DevContext_create_sound [OF run] obtain i c where c: "i < 2" "ctx d = Some c"
    "open_device sample_verbs i = Some c" "the (device_list sample_verbs) ! i = (''mlx5_1'', guid d)"
    "gid_index_list d \<noteq> []" and b: "dev_balance log = (0, 1)"
    by (auto simp: sample_verbs_def sample_sysfs_def)
  have "i = 1" using c(1,4) by (cases i) (simp_all add: sample_verbs_def)
  then have "ctx d = Some 101" using c(2,3) by (simp add: sample_verbs_def)
  with run b c(5) show ?thesis by blast
qed

end
