(* ===== verification/Event_Poll.thy ===== *)
theory Event_Poll
  imports Poby_Prelude
begin

unbundle bit_operations_syntax

text \<open>
  Channels and the poller: \<^verbatim>\<open>src/src/network/Channel.h\<close>, \<^verbatim>\<open>Channel.cc\<close>, \<^verbatim>\<open>Poller.h\<close> and
  \<^verbatim>\<open>Poller.cc\<close>. A channel is an object named by its address; the poller keeps a map from
  descriptors to channels and mirrors it in the interest list of an epoll instance, which is
  part of the model because the code reads its errors. The lemmas show that map, interest list
  and the index stored in each channel stay in step, so that no \<open>epoll_ctl\<close> fails and the
  kernel watches what the channels ask for.
\<close>

section \<open>Channels (network/Channel.h)\<close>

definition POLLIN :: "32 word" where "POLLIN = 0x1"
definition POLLPRI :: "32 word" where "POLLPRI = 0x2"
definition POLLOUT :: "32 word" where "POLLOUT = 0x4"
definition POLLERR :: "32 word" where "POLLERR = 0x8"
definition POLLHUP :: "32 word" where "POLLHUP = 0x10"
definition POLLNVAL :: "32 word" where "POLLNVAL = 0x20"
definition POLLRDHUP :: "32 word" where "POLLRDHUP = 0x2000"

lemmas poll_flags = POLLIN_def POLLPRI_def POLLOUT_def POLLERR_def POLLHUP_def POLLNVAL_def
  POLLRDHUP_def

definition kNoneEvent :: "32 word" where
  "kNoneEvent = 0"

definition kReadEvent :: "32 word" where
  "kReadEvent = POLLIN OR POLLPRI"

definition kNoPriorityReadEvent :: "32 word" where
  "kNoPriorityReadEvent = POLLIN"

definition kWriteEvent :: "32 word" where
  "kWriteEvent = POLLOUT"

definition kNew :: int where "kNew = - 1"
definition kAdded :: int where "kAdded = 1"
definition kDeleted :: int where "kDeleted = 2"

lemmas index_defs = kNew_def kAdded_def kDeleted_def

datatype ev_callback = Close_cb | Error_cb | Read_cb | Write_cb

text \<open>
  \<open>callbacks\<close> are those that have been set. The name and the owner loop are left out: a
  channel lives in the heap of its loop, which is what \<open>assert(ownerLoop() == this)\<close> checks.
  \<open>tie\<close> is the weak pointer: None when not tied, else whether its owner is still alive.
\<close>

record Channel =
  fd :: int
  events :: "32 word"
  revents :: "32 word"
  index :: int
  logHup :: bool
  tie :: "bool option"
  eventHandling :: bool
  addedToLoop :: bool
  callbacks :: "ev_callback set"

definition Channel_new :: "int \<Rightarrow> Channel" where
  "Channel_new fd0 = \<lparr>fd = fd0, events = 0, revents = 0, index = - 1, logHup = True, tie = None,
     eventHandling = False, addedToLoop = False, callbacks = {}\<rparr>"

definition Channel_isNoneEvent :: "Channel \<Rightarrow> bool" where
  "Channel_isNoneEvent c \<longleftrightarrow> events c = kNoneEvent"

definition Channel_isWriting :: "Channel \<Rightarrow> bool" where
  "Channel_isWriting c \<longleftrightarrow> events c AND kWriteEvent \<noteq> 0"

definition Channel_isReading :: "Channel \<Rightarrow> bool" where
  "Channel_isReading c \<longleftrightarrow> events c AND kReadEvent \<noteq> 0"

definition Channel_tie :: "Channel \<Rightarrow> Channel" where
  "Channel_tie c = c\<lparr>tie := Some True\<rparr>"

text \<open>
  The callbacks \<open>handleEventWithGuard\<close> invokes, in order. \<open>revents_\<close> is only written by the
  poller, so the tests that follow a callback read the same value.
\<close>

definition invoke_if :: "bool \<Rightarrow> Channel \<Rightarrow> ev_callback \<Rightarrow> ev_callback list" where
  "invoke_if b c cb = (if b \<and> cb \<in> callbacks c then [cb] else [])"

definition Channel_handleEventWithGuard :: "Channel \<Rightarrow> ev_callback list" where
  "Channel_handleEventWithGuard c =
     (let r = revents c in
      invoke_if (r AND POLLHUP \<noteq> 0 \<and> \<not> r AND POLLIN \<noteq> 0) c Close_cb
      @ invoke_if (r AND (POLLERR OR POLLNVAL) \<noteq> 0) c Error_cb
      @ invoke_if (r AND (POLLIN OR POLLPRI OR POLLRDHUP) \<noteq> 0) c Read_cb
      @ invoke_if (r AND POLLOUT \<noteq> 0) c Write_cb)"

definition Channel_handleEvent :: "Channel \<Rightarrow> ev_callback list" where
  "Channel_handleEvent c =
     (case tie c of
        Some alive \<Rightarrow> if alive then Channel_handleEventWithGuard c else []
      | None \<Rightarrow> Channel_handleEventWithGuard c)"

section \<open>The poller (network/Poller.h)\<close>

text \<open>
  \<open>interest\<close> is the interest list of the epoll instance: for each descriptor the event mask
  and the \<open>data.ptr\<close>. Adding a descriptor that is present, and changing or deleting one that
  is absent, are errors, which the poller logs: \<open>ctl_errors\<close> counts them.
\<close>

datatype epoll_op = EPOLL_CTL_ADD | EPOLL_CTL_MOD | EPOLL_CTL_DEL

record Poller =
  channels :: "int \<Rightarrow> nat option"
  interest :: "int \<Rightarrow> (32 word \<times> nat) option"
  events_size :: nat
  ctl_errors :: nat

definition kInitEventListSize :: nat where
  "kInitEventListSize = 16"

definition Poller_new :: Poller where
  "Poller_new = \<lparr>channels = Map.empty, interest = Map.empty, events_size = kInitEventListSize,
     ctl_errors = 0\<rparr>"

definition epoll_ctl :: "(int \<Rightarrow> (32 word \<times> nat) option) \<Rightarrow> epoll_op \<Rightarrow> int \<Rightarrow> 32 word \<Rightarrow> nat \<Rightarrow>
    (int \<Rightarrow> (32 word \<times> nat) option) option" where
  "epoll_ctl k op f ev p =
     (case op of
        EPOLL_CTL_ADD \<Rightarrow> if k f = None then Some (k(f \<mapsto> (ev, p))) else None
      | EPOLL_CTL_MOD \<Rightarrow> if k f \<noteq> None then Some (k(f \<mapsto> (ev, p))) else None
      | EPOLL_CTL_DEL \<Rightarrow> if k f \<noteq> None then Some (k(f := None)) else None)"

definition Poller_update :: "Poller \<Rightarrow> epoll_op \<Rightarrow> nat \<Rightarrow> Channel \<Rightarrow> Poller" where
  "Poller_update P op p c =
     (case epoll_ctl (interest P) op (fd c) (events c) p of
        Some k \<Rightarrow> P\<lparr>interest := k\<rparr>
      | None \<Rightarrow> P\<lparr>ctl_errors := ctl_errors P + 1\<rparr>)"

definition Poller_hasChannel :: "Poller \<Rightarrow> nat \<Rightarrow> Channel \<Rightarrow> bool" where
  "Poller_hasChannel P p c \<longleftrightarrow> channels P (fd c) = Some p"

definition Poller_updateChannel :: "Poller \<Rightarrow> nat \<Rightarrow> Channel \<Rightarrow> (Channel \<times> Poller) res" where
  "Poller_updateChannel P p c =
     (if index c = kNew \<or> index c = kDeleted
      then
        andThen
          (if index c = kNew
           then asserting (channels P (fd c) = None)
             (Inr (P\<lparr>channels := (channels P)(fd c \<mapsto> p)\<rparr>))
           else asserting (channels P (fd c) \<noteq> None) (asserting (channels P (fd c) = Some p) (Inr P)))
          (\<lambda>P'. let c' = c\<lparr>index := kAdded\<rparr> in Inr (c', Poller_update P' EPOLL_CTL_ADD p c'))
      else
        asserting (channels P (fd c) \<noteq> None) (asserting (channels P (fd c) = Some p)
          (asserting (index c = kAdded)
            (if Channel_isNoneEvent c
             then Inr (c\<lparr>index := kDeleted\<rparr>, Poller_update P EPOLL_CTL_DEL p c)
             else Inr (c, Poller_update P EPOLL_CTL_MOD p c)))))"

definition Poller_removeChannel :: "Poller \<Rightarrow> nat \<Rightarrow> Channel \<Rightarrow> (Channel \<times> Poller) res" where
  "Poller_removeChannel P p c =
     asserting (channels P (fd c) \<noteq> None) (asserting (channels P (fd c) = Some p)
       (asserting (Channel_isNoneEvent c)
         (asserting (index c = kAdded \<or> index c = kDeleted)
           (let P1 = P\<lparr>channels := (channels P)(fd c := None)\<rparr>;
                P2 = (if index c = kAdded then Poller_update P1 EPOLL_CTL_DEL p c else P1)
            in Inr (c\<lparr>index := kNew\<rparr>, P2)))))"

text \<open>
  The channels of a loop live in a heap. \<open>fillActiveChannels\<close> stores the received events in
  each reported channel; \<open>evs\<close> is what \<open>epoll_wait\<close> stored, or None when it failed.
\<close>

type_synonym chan_heap = "nat \<Rightarrow> Channel option"

definition deref_channel :: "chan_heap \<Rightarrow> nat \<Rightarrow> Channel res" where
  "deref_channel h p = (case h p of None \<Rightarrow> Inl Undefined_behaviour | Some c \<Rightarrow> Inr c)"

fun Poller_fill :: "Poller \<Rightarrow> chan_heap \<Rightarrow> (nat \<times> 32 word) list \<Rightarrow> (nat list \<times> chan_heap) res" where
  "Poller_fill P h [] = Inr ([], h)"
| "Poller_fill P h ((p, ev) # evs) =
     andThen (deref_channel h p) (\<lambda>c.
       asserting (channels P (fd c) \<noteq> None) (asserting (channels P (fd c) = Some p)
         (andThen (Poller_fill P (h(p \<mapsto> c\<lparr>revents := ev\<rparr>)) evs) (\<lambda>(active, h').
           Inr (p # active, h')))))"

definition Poller_fillActiveChannels ::
  "Poller \<Rightarrow> chan_heap \<Rightarrow> (nat \<times> 32 word) list \<Rightarrow> (nat list \<times> chan_heap) res" where
  "Poller_fillActiveChannels P h evs =
     asserting (length evs \<le> events_size P) (Poller_fill P h evs)"

definition Poller_poll ::
  "Poller \<Rightarrow> chan_heap \<Rightarrow> (nat \<times> 32 word) list option \<Rightarrow> (nat list \<times> chan_heap \<times> Poller) res" where
  "Poller_poll P h wait =
     (case wait of
        None \<Rightarrow> Inr ([], h, P)
      | Some evs \<Rightarrow>
          if evs \<noteq> []
          then andThen (Poller_fillActiveChannels P h evs) (\<lambda>(active, h').
            Inr (active, h',
              if length evs = events_size P then P\<lparr>events_size := events_size P * 2\<rparr> else P))
          else Inr ([], h, P))"

section \<open>Map, interest list and indices agree\<close>

text \<open>
  \<open>chan_ok P p c\<close>: the index of the channel at \<open>p\<close> says truly where the poller has it.
  \<open>poll_inv P h\<close>: that holds for every channel of the heap, and the map and the interest
  list name live channels only.
\<close>

definition chan_ok :: "Poller \<Rightarrow> nat \<Rightarrow> Channel \<Rightarrow> bool" where
  "chan_ok P p c \<longleftrightarrow> index c \<in> {kNew, kAdded, kDeleted}
     \<and> (index c \<noteq> kNew \<longleftrightarrow> channels P (fd c) = Some p)
     \<and> (index c = kAdded \<longrightarrow> interest P (fd c) = Some (events c, p))
     \<and> (index c = kDeleted \<longrightarrow> interest P (fd c) = None \<and> events c = kNoneEvent)
     \<and> (addedToLoop c \<longleftrightarrow> index c \<noteq> kNew)"

definition poll_inv :: "Poller \<Rightarrow> chan_heap \<Rightarrow> bool" where
  "poll_inv P h \<longleftrightarrow> (\<forall>p c. h p = Some c \<longrightarrow> chan_ok P p c)
     \<and> (\<forall>f p. channels P f = Some p \<longrightarrow> (\<exists>c. h p = Some c \<and> fd c = f))
     \<and> (\<forall>f. channels P f = None \<longrightarrow> interest P f = None)"

lemma poll_inv_new: "poll_inv Poller_new Map.empty"
  by (simp add: poll_inv_def Poller_new_def)

lemma poll_inv_chan: "poll_inv P h \<Longrightarrow> h p = Some c \<Longrightarrow> chan_ok P p c"
  by (simp add: poll_inv_def)

text \<open>
  Changing one channel and the entries of its descriptor keeps the invariant, as long as no
  other channel is registered under that descriptor.
\<close>

lemma poll_inv_change:
  assumes inv: "poll_inv P h" and c: "h p = Some c" and "fd c' = fd c"
    and ok: "chan_ok P' p c'"
    and own: "channels P (fd c) = None \<or> channels P (fd c) = Some p"
    and own': "channels P' (fd c) = None \<or> channels P' (fd c) = Some p"
    and none: "channels P' (fd c) = None \<Longrightarrow> interest P' (fd c) = None"
    and rest: "\<And>f. f \<noteq> fd c \<Longrightarrow> channels P' f = channels P f \<and> interest P' f = interest P f"
  shows "poll_inv P' (h(p \<mapsto> c'))"
proof -
  have "chan_ok P' q d" if "q \<noteq> p" "h q = Some d" for q d
  proof -
    have d: "chan_ok P q d" using inv that poll_inv_chan by blast
    show ?thesis
    proof (cases "fd d = fd c")
      case True
      with d own that(1) have "index d = kNew" and "\<not> addedToLoop d" by (auto simp: chan_ok_def)
      with True own' that(1) show ?thesis by (auto simp: chan_ok_def index_defs)
    next
      case False
      with d rest [OF False] show ?thesis by (simp add: chan_ok_def)
    qed
  qed
  moreover have "\<exists>d. (h(p \<mapsto> c')) q = Some d \<and> fd d = f" if "channels P' f = Some q" for f q
  proof (cases "f = fd c")
    case True
    with that own' assms(3) show ?thesis by auto
  next
    case False
    with that rest have "channels P f = Some q" by simp
    with inv obtain d where "h q = Some d" "fd d = f" unfolding poll_inv_def by blast
    with False c show ?thesis by (cases "q = p") auto
  qed
  moreover have "interest P' f = None" if "channels P' f = None" for f
    using that none rest [of f] inv by (cases "f = fd c") (auto simp: poll_inv_def)
  ultimately show ?thesis using ok by (simp add: poll_inv_def)
qed

definition registrable :: "Poller \<Rightarrow> nat \<Rightarrow> Channel \<Rightarrow> bool" where
  "registrable P p c \<longleftrightarrow> channels P (fd c) = None \<or> channels P (fd c) = Some p"

lemma chan_ok_interest_None:
  "poll_inv P h \<Longrightarrow> h p = Some c \<Longrightarrow> registrable P p c \<Longrightarrow> index c \<noteq> kAdded \<Longrightarrow> interest P (fd c) = None"
  using poll_inv_chan [of P h p c] by (auto simp: chan_ok_def registrable_def poll_inv_def)

lemma Poller_updateChannel_ok:
  assumes inv: "poll_inv P h" and c0: "h p = Some c0" and reg: "registrable P p c0"
    and c: "c = c0\<lparr>events := ev, addedToLoop := True\<rparr>"
  obtains i P' where "Poller_updateChannel P p c = Inr (c\<lparr>index := i\<rparr>, P')"
    and "poll_inv P' (h(p \<mapsto> c\<lparr>index := i\<rparr>))" and "i \<noteq> kNew" and "ctl_errors P' = ctl_errors P"
    and "channels P' (fd c0) = Some p" and "\<And>f. f \<noteq> fd c0 \<Longrightarrow> channels P' f = channels P f"
    and "events_size P' = events_size P"
proof -
  have ok: "chan_ok P p c0" using inv c0 poll_inv_chan by blast
  have free: "index c0 \<noteq> kAdded \<Longrightarrow> interest P (fd c0) = None"
    using chan_ok_interest_None [OF inv c0 reg] by simp
  note change = poll_inv_change [OF inv c0 _ _ reg [unfolded registrable_def]]
  show ?thesis
  proof (cases "index c0 = kAdded")
    case False
    let ?c = "c\<lparr>index := kAdded\<rparr>"
    let ?P = "P\<lparr>channels := (channels P)(fd c0 \<mapsto> p), interest := (interest P)(fd c0 \<mapsto> (ev, p))\<rparr>"
    have "index c0 = kNew \<and> channels P (fd c0) = None \<or> index c0 = kDeleted \<and> channels P (fd c0) = Some p"
      using False ok reg by (auto simp: chan_ok_def registrable_def index_defs)
    moreover from this have "(channels P)(fd c0 \<mapsto> p) = channels P" if "index c0 = kDeleted"
      using that by (auto simp: fun_upd_idem index_defs)
    ultimately have "Poller_updateChannel P p c = Inr (?c, ?P)"
      using free [OF False] False
      by (auto simp: Poller_updateChannel_def Poller_update_def epoll_ctl_def c index_defs)
    moreover have "poll_inv ?P (h(p \<mapsto> ?c))"
      by (rule change) (auto simp: c chan_ok_def index_defs)
    ultimately show ?thesis using that [of kAdded ?P] by (simp add: c index_defs)
  next
    case True
    then have reg': "channels P (fd c0) = Some p" and int: "interest P (fd c0) = Some (events c0, p)"
      using ok by (auto simp: chan_ok_def index_defs)
    show ?thesis
    proof (cases "ev = kNoneEvent")
      case none: True
      let ?c = "c\<lparr>index := kDeleted\<rparr>" and ?P = "P\<lparr>interest := (interest P)(fd c0 := None)\<rparr>"
      have "Poller_updateChannel P p c = Inr (?c, ?P)"
        using True none reg' int
        by (simp add: Poller_updateChannel_def Poller_update_def epoll_ctl_def c index_defs
            Channel_isNoneEvent_def)
      moreover have "poll_inv ?P (h(p \<mapsto> ?c))"
        by (rule change) (use none reg' in \<open>auto simp: c chan_ok_def index_defs\<close>)
      ultimately show ?thesis using that [of kDeleted ?P] reg' by (simp add: c index_defs)
    next
      case some: False
      let ?P = "P\<lparr>interest := (interest P)(fd c0 \<mapsto> (ev, p))\<rparr>"
      have same: "c = c\<lparr>index := kAdded\<rparr>" using True by (simp add: c)
      have "Poller_updateChannel P p c = Inr (c, ?P)"
        using True some reg' int
        by (simp add: Poller_updateChannel_def Poller_update_def epoll_ctl_def c index_defs
            Channel_isNoneEvent_def)
      moreover have "poll_inv ?P (h(p \<mapsto> c))"
        by (rule change) (use True reg' in \<open>auto simp: c chan_ok_def index_defs\<close>)
      ultimately show ?thesis using that [of kAdded ?P] reg' same by (simp add: index_defs)
    qed
  qed
qed

lemma Poller_removeChannel_ok:
  assumes inv: "poll_inv P h" and c0: "h p = Some c0" and "index c0 \<noteq> kNew" and "events c0 = kNoneEvent"
    and c: "c = c0\<lparr>addedToLoop := False\<rparr>"
  obtains c' P' where "Poller_removeChannel P p c = Inr (c', P')" and "poll_inv P' (h(p \<mapsto> c'))"
    and "c' = c\<lparr>index := kNew\<rparr>" and "ctl_errors P' = ctl_errors P"
    and "channels P' = (channels P)(fd c0 := None)" and "events_size P' = events_size P"
proof -
  have ok: "chan_ok P p c0" using inv c0 poll_inv_chan by blast
  then have reg: "channels P (fd c0) = Some p" and idx: "index c0 = kAdded \<or> index c0 = kDeleted"
    using assms(3) by (auto simp: chan_ok_def)
  let ?c = "c\<lparr>index := kNew\<rparr>"
  let ?P = "P\<lparr>channels := (channels P)(fd c0 := None), interest := (interest P)(fd c0 := None)\<rparr>"
  have int: "index c0 = kDeleted \<Longrightarrow> (interest P)(fd c0 := None) = interest P"
    using ok by (simp add: chan_ok_def fun_upd_idem index_defs)
  have "index c0 = kAdded \<Longrightarrow> interest P (fd c0) \<noteq> None" using ok by (simp add: chan_ok_def)
  then have "Poller_removeChannel P p c = Inr (?c, ?P)"
    using idx reg int assms(4)
    by (auto simp: Poller_removeChannel_def Poller_update_def epoll_ctl_def c index_defs
        Channel_isNoneEvent_def Let_def)
  moreover have "poll_inv ?P (h(p \<mapsto> ?c))"
    by (rule poll_inv_change [OF inv c0]) (use reg in \<open>auto simp: c chan_ok_def index_defs\<close>)
  ultimately show ?thesis using that [of ?c ?P] by simp
qed

text \<open>
  Reported events concern registered descriptors, so storing them needs no assertion to fail;
  it changes nothing but the received events.
\<close>

definition reported :: "Poller \<Rightarrow> (nat \<times> 32 word) list \<Rightarrow> bool" where
  "reported P evs \<longleftrightarrow> length evs \<le> events_size P \<and>
     (\<forall>e\<in>set evs. \<exists>f m. interest P f = Some (m, fst e))"

lemma poll_inv_revents:
  assumes "poll_inv P h" and "h p = Some c"
  shows "poll_inv P (h(p \<mapsto> c\<lparr>revents := ev\<rparr>))"
proof -
  have "chan_ok P p (c\<lparr>revents := ev\<rparr>)"
    using poll_inv_chan [OF assms] by (simp add: chan_ok_def)
  moreover have "\<exists>d. (h(p \<mapsto> c\<lparr>revents := ev\<rparr>)) q = Some d \<and> fd d = f" if "channels P f = Some q" for f q
  proof -
    from assms(1) that obtain d where "h q = Some d" "fd d = f" unfolding poll_inv_def by blast
    with assms(2) show ?thesis by (cases "q = p") auto
  qed
  ultimately show ?thesis using assms(1) unfolding poll_inv_def by simp
qed

lemma interest_live:
  assumes "poll_inv P h" and "interest P f = Some (m, p)"
  shows "\<exists>c. h p = Some c \<and> fd c = f \<and> channels P f = Some p"
proof -
  from assms obtain q where q: "channels P f = Some q" unfolding poll_inv_def by fastforce
  with assms(1) obtain c where c: "h q = Some c" "fd c = f" unfolding poll_inv_def by blast
  from poll_inv_chan [OF assms(1) c(1)] c(2) q assms(2) have "q = p"
    by (auto simp: chan_ok_def index_defs)
  with q c show ?thesis by blast
qed

lemma Poller_fill_ok:
  "poll_inv P h \<Longrightarrow> \<forall>e\<in>set evs. \<exists>f m. interest P f = Some (m, fst e) \<Longrightarrow>
    \<exists>h'. Poller_fill P h evs = Inr (map fst evs, h') \<and> poll_inv P h' \<and> dom h' = dom h"
proof (induction evs arbitrary: h)
  case Nil
  then show ?case by simp
next
  case (Cons e evs)
  obtain p ev where e: "e = (p, ev)" by (cases e)
  from Cons.prems(2) e obtain f m where "interest P f = Some (m, p)" by auto
  from interest_live [OF Cons.prems(1) this] obtain c
    where c: "h p = Some c" "channels P (fd c) = Some p" by blast
  have "\<forall>e\<in>set evs. \<exists>f m. interest P f = Some (m, fst e)" using Cons.prems(2) by simp
  from Cons.IH [OF poll_inv_revents [OF Cons.prems(1) c(1), of ev] this] obtain h'
    where "Poller_fill P (h(p \<mapsto> c\<lparr>revents := ev\<rparr>)) evs = Inr (map fst evs, h')"
      "poll_inv P h'" "dom h' = dom (h(p \<mapsto> c\<lparr>revents := ev\<rparr>))" by blast
  moreover have "dom (h(p \<mapsto> c\<lparr>revents := ev\<rparr>)) = dom h" using c(1) by auto
  ultimately show ?case using c e by (simp add: deref_channel_def)
qed

lemma poll_inv_events_size [simp]: "poll_inv (P\<lparr>events_size := n\<rparr>) h = poll_inv P h"
  by (simp add: poll_inv_def chan_ok_def)

lemma Poller_poll_ok:
  assumes "poll_inv P h" and "\<And>evs. wait = Some evs \<Longrightarrow> reported P evs"
  obtains active h' P' where "Poller_poll P h wait = Inr (active, h', P')" and "poll_inv P' h'"
    and "active = (case wait of None \<Rightarrow> [] | Some evs \<Rightarrow> map fst evs)" and "dom h' = dom h"
    and "ctl_errors P' = ctl_errors P" and "channels P' = channels P"
proof (cases wait)
  case None
  then show ?thesis by (intro that [of "[]" h P]) (simp_all add: Poller_poll_def assms(1))
next
  case (Some evs)
  then have r: "reported P evs" using assms(2) by simp
  show ?thesis
  proof (cases "evs = []")
    case True
    with Some show ?thesis by (intro that [of "[]" h P]) (simp_all add: Poller_poll_def assms(1))
  next
    case False
    from Poller_fill_ok [OF assms(1), of evs] r obtain h' where h':
      "Poller_fill P h evs = Inr (map fst evs, h')" "poll_inv P h'" "dom h' = dom h"
      unfolding reported_def by blast
    let ?P = "if length evs = events_size P then P\<lparr>events_size := events_size P * 2\<rparr> else P"
    have "Poller_poll P h wait = Inr (map fst evs, h', ?P)"
      using Some False r h'(1)
      by (simp add: Poller_poll_def Poller_fillActiveChannels_def reported_def)
    then show ?thesis by (rule that) (use Some h' in simp_all)
  qed
qed

end
