(* ===== verification/Event_Loop.thy ===== *)
theory Event_Loop
  imports Event_Poll
begin

text \<open>
  The event loop: \<^verbatim>\<open>src/src/network/EventLoop.h\<close> and \<^verbatim>\<open>EventLoop.cc\<close>. The first part has the
  operations as functions on the state of a loop: channels registered and removed, one
  iteration of the loop, functors queued and run. The second part is the loop with other
  threads that queue functors and ask it to quit, as a step relation whose steps are the
  accesses the code makes under the mutex, to the atomics and to the wakeup descriptor. The
  lemmas show that functors run once, in the order they were queued, and that no wakeup is lost.
\<close>

section \<open>State\<close>

text \<open>
  \<open>'f\<close> are the functors. \<open>wakeup_count\<close> is the counter of the eventfd; a write that would
  overflow it fails and leaves it as it is. The thread identity enters as the flag \<open>inLoop\<close> of
  the operations that test it; \<open>assertInLoopThread\<close> only logs.
\<close>

record 'f EventLoop =
  looping :: bool
  quit :: bool
  loop_eventHandling :: bool
  callingPendingFunctors :: bool
  iteration :: int
  poller :: Poller
  chan_store :: chan_heap
  activeChannels :: "nat list"
  currentActiveChannel :: "nat option"
  pendingFunctors :: "'f list"
  wakeup_count :: nat

definition EventLoop_wakeup :: "'f EventLoop \<Rightarrow> 'f EventLoop" where
  "EventLoop_wakeup L =
     (if wakeup_count L + 1 < 2 ^ 64 - 1 then L\<lparr>wakeup_count := wakeup_count L + 1\<rparr> else L)"

definition EventLoop_handleRead :: "'f EventLoop \<Rightarrow> 'f EventLoop" where
  "EventLoop_handleRead L = L\<lparr>wakeup_count := 0\<rparr>"

section \<open>Channels of a loop\<close>

definition EventLoop_updateChannel :: "'f EventLoop \<Rightarrow> nat \<Rightarrow> 'f EventLoop res" where
  "EventLoop_updateChannel L p =
     andThen (deref_channel (chan_store L) p) (\<lambda>c.
       andThen (Poller_updateChannel (poller L) p c) (\<lambda>(c', P').
         Inr (L\<lparr>poller := P', chan_store := (chan_store L)(p \<mapsto> c')\<rparr>)))"

definition EventLoop_removeChannel :: "'f EventLoop \<Rightarrow> nat \<Rightarrow> 'f EventLoop res" where
  "EventLoop_removeChannel L p =
     asserting (loop_eventHandling L \<longrightarrow>
         currentActiveChannel L = Some p \<or> p \<notin> set (activeChannels L))
       (andThen (deref_channel (chan_store L) p) (\<lambda>c.
         andThen (Poller_removeChannel (poller L) p c) (\<lambda>(c', P').
           Inr (L\<lparr>poller := P', chan_store := (chan_store L)(p \<mapsto> c')\<rparr>))))"

definition EventLoop_hasChannel :: "'f EventLoop \<Rightarrow> nat \<Rightarrow> bool res" where
  "EventLoop_hasChannel L p =
     andThen (deref_channel (chan_store L) p) (\<lambda>c. Inr (Poller_hasChannel (poller L) p c))"

definition Channel_update :: "'f EventLoop \<Rightarrow> nat \<Rightarrow> 'f EventLoop res" where
  "Channel_update L p =
     andThen (deref_channel (chan_store L) p) (\<lambda>c.
       EventLoop_updateChannel (L\<lparr>chan_store := (chan_store L)(p \<mapsto> c\<lparr>addedToLoop := True\<rparr>)\<rparr>) p)"

definition Channel_set_events ::
  "('w \<Rightarrow> 32 word \<Rightarrow> 32 word) \<Rightarrow> 'w \<Rightarrow> 'f EventLoop \<Rightarrow> nat \<Rightarrow> 'f EventLoop res" where
  "Channel_set_events f w L p =
     andThen (deref_channel (chan_store L) p) (\<lambda>c.
       Channel_update (L\<lparr>chan_store := (chan_store L)(p \<mapsto> c\<lparr>events := f w (events c)\<rparr>)\<rparr>) p)"

definition set_flag :: "32 word \<Rightarrow> 32 word \<Rightarrow> 32 word" where
  "set_flag w ev = ev OR w"

definition clear_flag :: "32 word \<Rightarrow> 32 word \<Rightarrow> 32 word" where
  "clear_flag w ev = ev AND NOT w"

definition Channel_enableReading :: "'f EventLoop \<Rightarrow> nat \<Rightarrow> 'f EventLoop res" where
  "Channel_enableReading = Channel_set_events set_flag kReadEvent"

definition Channel_disableReading :: "'f EventLoop \<Rightarrow> nat \<Rightarrow> 'f EventLoop res" where
  "Channel_disableReading = Channel_set_events clear_flag kReadEvent"

definition Channel_enableNoPriorityReading :: "'f EventLoop \<Rightarrow> nat \<Rightarrow> 'f EventLoop res" where
  "Channel_enableNoPriorityReading = Channel_set_events set_flag kNoPriorityReadEvent"

definition Channel_disableNoPriorityReading :: "'f EventLoop \<Rightarrow> nat \<Rightarrow> 'f EventLoop res" where
  "Channel_disableNoPriorityReading = Channel_set_events clear_flag kNoPriorityReadEvent"

definition Channel_enableWriting :: "'f EventLoop \<Rightarrow> nat \<Rightarrow> 'f EventLoop res" where
  "Channel_enableWriting = Channel_set_events set_flag kWriteEvent"

definition Channel_disableWriting :: "'f EventLoop \<Rightarrow> nat \<Rightarrow> 'f EventLoop res" where
  "Channel_disableWriting = Channel_set_events clear_flag kWriteEvent"

definition Channel_disableAll :: "'f EventLoop \<Rightarrow> nat \<Rightarrow> 'f EventLoop res" where
  "Channel_disableAll = Channel_set_events (\<lambda>w ev. w) kNoneEvent"

definition Channel_remove :: "'f EventLoop \<Rightarrow> nat \<Rightarrow> 'f EventLoop res" where
  "Channel_remove L p =
     andThen (deref_channel (chan_store L) p) (\<lambda>c.
       asserting (Channel_isNoneEvent c)
         (EventLoop_removeChannel (L\<lparr>chan_store := (chan_store L)(p \<mapsto> c\<lparr>addedToLoop := False\<rparr>)\<rparr>) p))"

text \<open>The destructor: it may only run once the channel is out of the loop.\<close>

definition Channel_destroy :: "'f EventLoop \<Rightarrow> nat \<Rightarrow> 'f EventLoop res" where
  "Channel_destroy L p =
     andThen (deref_channel (chan_store L) p) (\<lambda>c.
       asserting (\<not> eventHandling c) (asserting (\<not> addedToLoop c)
         (asserting (\<not> Poller_hasChannel (poller L) p c)
           (Inr (L\<lparr>chan_store := (chan_store L)(p := None)\<rparr>)))))"

section \<open>The loop\<close>

text \<open>
  The constructor registers the descriptor of the timer queue and the wakeup descriptor, with
  channels at \<open>tp\<close> and \<open>wp\<close>.
\<close>

definition reading_channel :: "int \<Rightarrow> Channel" where
  "reading_channel f = (Channel_new f)\<lparr>callbacks := {Read_cb}\<rparr>"

definition EventLoop_new :: "int \<Rightarrow> nat \<Rightarrow> int \<Rightarrow> nat \<Rightarrow> 'f EventLoop res" where
  "EventLoop_new timerfd tp wakeupFd wp =
     (let L0 = \<lparr>looping = False, quit = False, loop_eventHandling = False,
                callingPendingFunctors = False, iteration = 0, poller = Poller_new,
                chan_store = [tp \<mapsto> reading_channel timerfd], activeChannels = [],
                currentActiveChannel = None, pendingFunctors = [], wakeup_count = 0\<rparr>
      in andThen (Channel_enableReading L0 tp) (\<lambda>L1.
           Channel_enableReading
             (L1\<lparr>chan_store := (chan_store L1)(wp \<mapsto> reading_channel wakeupFd)\<rparr>) wp))"

text \<open>
  \<open>handler p cb\<close> is what the callback \<open>cb\<close> of the channel at \<open>p\<close> does, \<open>exec f\<close> what the
  functor \<open>f\<close> does, to the loop.
\<close>

fun run_callbacks ::
  "(nat \<Rightarrow> ev_callback \<Rightarrow> 'f EventLoop \<Rightarrow> 'f EventLoop res) \<Rightarrow> nat \<Rightarrow> 'f EventLoop \<Rightarrow>
    ev_callback list \<Rightarrow> 'f EventLoop res" where
  "run_callbacks handler p L [] = Inr L"
| "run_callbacks handler p L (cb # cbs) =
     andThen (handler p cb L) (\<lambda>L'. run_callbacks handler p L' cbs)"

definition set_eventHandling :: "bool \<Rightarrow> 'f EventLoop \<Rightarrow> nat \<Rightarrow> 'f EventLoop res" where
  "set_eventHandling b L p =
     andThen (deref_channel (chan_store L) p) (\<lambda>c.
       Inr (L\<lparr>chan_store := (chan_store L)(p \<mapsto> c\<lparr>eventHandling := b\<rparr>)\<rparr>))"

fun handle_active ::
  "(nat \<Rightarrow> ev_callback \<Rightarrow> 'f EventLoop \<Rightarrow> 'f EventLoop res) \<Rightarrow> 'f EventLoop \<Rightarrow> nat list \<Rightarrow>
    'f EventLoop res" where
  "handle_active handler L [] = Inr L"
| "handle_active handler L (p # ps) =
     andThen (deref_channel (chan_store L) p) (\<lambda>c.
       let L1 = L\<lparr>currentActiveChannel := Some p\<rparr> in
       andThen
         (if tie c = Some False then Inr L1
          else andThen (set_eventHandling True L1 p) (\<lambda>L2.
            andThen (run_callbacks handler p L2 (Channel_handleEvent c)) (\<lambda>L3.
              set_eventHandling False L3 p)))
         (\<lambda>L4. handle_active handler L4 ps))"

fun run_functors :: "('f \<Rightarrow> 'f EventLoop \<Rightarrow> 'f EventLoop res) \<Rightarrow> 'f EventLoop \<Rightarrow> 'f list \<Rightarrow> 'f EventLoop res" where
  "run_functors exec L [] = Inr L"
| "run_functors exec L (f # fs) = andThen (exec f L) (\<lambda>L'. run_functors exec L' fs)"

definition EventLoop_doPendingFunctors ::
  "('f \<Rightarrow> 'f EventLoop \<Rightarrow> 'f EventLoop res) \<Rightarrow> 'f EventLoop \<Rightarrow> 'f EventLoop res" where
  "EventLoop_doPendingFunctors exec L =
     (let functors = pendingFunctors L in
      andThen (run_functors exec (L\<lparr>callingPendingFunctors := True, pendingFunctors := []\<rparr>) functors)
        (\<lambda>L'. Inr (L'\<lparr>callingPendingFunctors := False\<rparr>)))"

definition EventLoop_iterate ::
  "(nat \<Rightarrow> ev_callback \<Rightarrow> 'f EventLoop \<Rightarrow> 'f EventLoop res) \<Rightarrow> ('f \<Rightarrow> 'f EventLoop \<Rightarrow> 'f EventLoop res) \<Rightarrow>
    'f EventLoop \<Rightarrow> (nat \<times> 32 word) list option \<Rightarrow> 'f EventLoop res" where
  "EventLoop_iterate handler exec L wait =
     andThen (Poller_poll (poller L) (chan_store L) wait) (\<lambda>(active, h, P).
       let L1 = L\<lparr>activeChannels := active, chan_store := h, poller := P,
                  iteration := iteration L + 1, loop_eventHandling := True\<rparr>
       in andThen (handle_active handler L1 active) (\<lambda>L2.
            EventLoop_doPendingFunctors exec
              (L2\<lparr>currentActiveChannel := None, loop_eventHandling := False\<rparr>)))"

text \<open>
  \<open>loop\<close> on a list of poll outcomes: it returns when it sees \<open>quit_\<close>, and when the list is
  used up it is still waiting in \<open>poll\<close>. The flag of the result tells which.
\<close>

fun EventLoop_loop_from ::
  "(nat \<Rightarrow> ev_callback \<Rightarrow> 'f EventLoop \<Rightarrow> 'f EventLoop res) \<Rightarrow> ('f \<Rightarrow> 'f EventLoop \<Rightarrow> 'f EventLoop res) \<Rightarrow>
    'f EventLoop \<Rightarrow> (nat \<times> 32 word) list option list \<Rightarrow> (bool \<times> 'f EventLoop) res" where
  "EventLoop_loop_from handler exec L waits =
     (if quit L then Inr (True, L\<lparr>looping := False\<rparr>)
      else case waits of
          [] \<Rightarrow> Inr (False, L)
        | w # ws \<Rightarrow> andThen (EventLoop_iterate handler exec L w) (\<lambda>L'.
            EventLoop_loop_from handler exec L' ws))"

definition EventLoop_loop ::
  "(nat \<Rightarrow> ev_callback \<Rightarrow> 'f EventLoop \<Rightarrow> 'f EventLoop res) \<Rightarrow> ('f \<Rightarrow> 'f EventLoop \<Rightarrow> 'f EventLoop res) \<Rightarrow>
    'f EventLoop \<Rightarrow> (nat \<times> 32 word) list option list \<Rightarrow> (bool \<times> 'f EventLoop) res" where
  "EventLoop_loop handler exec L waits =
     asserting (\<not> looping L)
       (EventLoop_loop_from handler exec (L\<lparr>looping := True, quit := False\<rparr>) waits)"

definition EventLoop_quit_store :: "'f EventLoop \<Rightarrow> bool \<times> 'f EventLoop" where
  "EventLoop_quit_store L =
     (if \<not> looping L \<and> \<not> quit L then (False, L) else (True, L\<lparr>quit := True\<rparr>))"

definition EventLoop_quit :: "bool \<Rightarrow> 'f EventLoop \<Rightarrow> 'f EventLoop" where
  "EventLoop_quit inLoop L =
     (case EventLoop_quit_store L of (stored, L') \<Rightarrow>
        if stored \<and> \<not> inLoop then EventLoop_wakeup L' else L')"

definition EventLoop_push :: "'f EventLoop \<Rightarrow> 'f \<Rightarrow> 'f EventLoop" where
  "EventLoop_push L f = L\<lparr>pendingFunctors := pendingFunctors L @ [f]\<rparr>"

definition EventLoop_queueInLoop :: "bool \<Rightarrow> 'f EventLoop \<Rightarrow> 'f \<Rightarrow> 'f EventLoop" where
  "EventLoop_queueInLoop inLoop L f =
     (let L' = EventLoop_push L f in
      if \<not> inLoop \<or> callingPendingFunctors L' then EventLoop_wakeup L' else L')"

definition EventLoop_runInLoop ::
  "('f \<Rightarrow> 'f EventLoop \<Rightarrow> 'f EventLoop res) \<Rightarrow> bool \<Rightarrow> 'f EventLoop \<Rightarrow> 'f \<Rightarrow> 'f EventLoop res" where
  "EventLoop_runInLoop exec inLoop L f =
     (if inLoop then exec f L else Inr (EventLoop_queueInLoop inLoop L f))"

definition EventLoop_queueSize :: "'f EventLoop \<Rightarrow> nat" where
  "EventLoop_queueSize L = length (pendingFunctors L)"

section \<open>Channels stay in step with the poller\<close>

definition loop_inv :: "'f EventLoop \<Rightarrow> bool" where
  "loop_inv L \<longleftrightarrow> poll_inv (poller L) (chan_store L)"

definition loop_registrable :: "'f EventLoop \<Rightarrow> nat \<Rightarrow> bool" where
  "loop_registrable L p \<longleftrightarrow> (\<exists>c. chan_store L p = Some c \<and> registrable (poller L) p c)"

text \<open>
  What a client of a loop relies on: an update of the events of a channel whose descriptor no
  other channel has succeeds, registers the channel, and changes nothing else.
\<close>

lemma Channel_set_events_ok:
  assumes inv: "loop_inv L" and c: "chan_store L p = Some c" and reg: "registrable (poller L) p c"
  obtains P' i where
    "Channel_set_events f w L p = Inr (L\<lparr>poller := P', chan_store := (chan_store L)
       (p \<mapsto> c\<lparr>events := f w (events c), addedToLoop := True, index := i\<rparr>)\<rparr>)"
    and "loop_inv (L\<lparr>poller := P', chan_store := (chan_store L)
       (p \<mapsto> c\<lparr>events := f w (events c), addedToLoop := True, index := i\<rparr>)\<rparr>)"
    and "i \<noteq> kNew" and "ctl_errors P' = ctl_errors (poller L)"
    and "channels P' (fd c) = Some p" and "\<And>g. g \<noteq> fd c \<Longrightarrow> channels P' g = channels (poller L) g"
proof -
  let ?c = "c\<lparr>events := f w (events c), addedToLoop := True\<rparr>"
  obtain i P' where u: "Poller_updateChannel (poller L) p ?c = Inr (?c\<lparr>index := i\<rparr>, P')"
    "poll_inv P' ((chan_store L)(p \<mapsto> ?c\<lparr>index := i\<rparr>))" "i \<noteq> kNew"
    "ctl_errors P' = ctl_errors (poller L)" "channels P' (fd c) = Some p"
    "\<And>g. g \<noteq> fd c \<Longrightarrow> channels P' g = channels (poller L) g"
    using Poller_updateChannel_ok [OF inv [unfolded loop_inv_def] c reg refl, of "f w (events c)"]
    by blast
  have "Channel_set_events f w L p =
      Inr (L\<lparr>poller := P', chan_store := (chan_store L)(p \<mapsto> ?c\<lparr>index := i\<rparr>)\<rparr>)"
    using c u(1) by (simp add: Channel_set_events_def Channel_update_def EventLoop_updateChannel_def
        deref_channel_def)
  with u show ?thesis by (intro that [of i P']) (simp_all add: loop_inv_def)
qed

lemma Channel_remove_ok:
  assumes inv: "loop_inv L" and c: "chan_store L p = Some c" and idx: "index c \<noteq> kNew"
    and none: "events c = kNoneEvent"
    and idle: "loop_eventHandling L \<Longrightarrow> currentActiveChannel L = Some p \<or> p \<notin> set (activeChannels L)"
  obtains P' where
    "Channel_remove L p = Inr (L\<lparr>poller := P', chan_store := (chan_store L)
       (p \<mapsto> c\<lparr>addedToLoop := False, index := kNew\<rparr>)\<rparr>)"
    and "loop_inv (L\<lparr>poller := P', chan_store := (chan_store L)
       (p \<mapsto> c\<lparr>addedToLoop := False, index := kNew\<rparr>)\<rparr>)"
    and "ctl_errors P' = ctl_errors (poller L)"
    and "channels P' = (channels (poller L))(fd c := None)"
proof -
  let ?c = "c\<lparr>addedToLoop := False\<rparr>"
  obtain P' where u: "Poller_removeChannel (poller L) p ?c = Inr (?c\<lparr>index := kNew\<rparr>, P')"
    "poll_inv P' ((chan_store L)(p \<mapsto> ?c\<lparr>index := kNew\<rparr>))"
    "ctl_errors P' = ctl_errors (poller L)" "channels P' = (channels (poller L))(fd c := None)"
    using Poller_removeChannel_ok [OF inv [unfolded loop_inv_def] c idx none refl] by blast
  have "Channel_remove L p =
      Inr (L\<lparr>poller := P', chan_store := (chan_store L)(p \<mapsto> ?c\<lparr>index := kNew\<rparr>)\<rparr>)"
    using c u(1) none idle
    by (auto simp: Channel_remove_def EventLoop_removeChannel_def deref_channel_def asserting_def
        Channel_isNoneEvent_def)
  with u show ?thesis by (intro that [of P']) (simp_all add: loop_inv_def)
qed

lemma Channel_destroy_ok:
  assumes inv: "loop_inv L" and c: "chan_store L p = Some c" and idx: "index c = kNew"
    and "\<not> eventHandling c"
  shows "Channel_destroy L p = Inr (L\<lparr>chan_store := (chan_store L)(p := None)\<rparr>)"
    and "loop_inv (L\<lparr>chan_store := (chan_store L)(p := None)\<rparr>)"
proof -
  have ok: "chan_ok (poller L) p c" using inv c poll_inv_chan by (auto simp: loop_inv_def)
  then have none: "channels (poller L) (fd c) \<noteq> Some p" and "\<not> addedToLoop c"
    using idx by (auto simp: chan_ok_def)
  with c assms(4) show "Channel_destroy L p = Inr (L\<lparr>chan_store := (chan_store L)(p := None)\<rparr>)"
    by (simp add: Channel_destroy_def deref_channel_def Poller_hasChannel_def)
  have "\<exists>d. ((chan_store L)(p := None)) q = Some d \<and> fd d = f" if "channels (poller L) f = Some q" for f q
  proof -
    from inv that obtain d where "chan_store L q = Some d" "fd d = f"
      unfolding loop_inv_def poll_inv_def by blast
    with that none c show ?thesis by (cases "q = p") auto
  qed
  with inv show "loop_inv (L\<lparr>chan_store := (chan_store L)(p := None)\<rparr>)"
    unfolding loop_inv_def poll_inv_def by simp
qed

text \<open>A loop with no channels.\<close>

definition quiet_loop :: "'f EventLoop" where
  "quiet_loop = \<lparr>looping = True, quit = False, loop_eventHandling = False,
     callingPendingFunctors = False, iteration = 0, poller = Poller_new, chan_store = Map.empty,
     activeChannels = [], currentActiveChannel = None, pendingFunctors = [], wakeup_count = 0\<rparr>"

lemma quiet_loop_inv: "loop_inv quiet_loop"
  by (simp add: quiet_loop_def loop_inv_def poll_inv_new)

text \<open>A second channel for a descriptor that is registered is refused by the assertion.\<close>

lemma Channel_set_events_clash:
  assumes inv: "loop_inv L" and c: "chan_store L p = Some c"
    and clash: "channels (poller L) (fd c) = Some q" "q \<noteq> p"
  shows "Channel_set_events f w L p = Inl Assert_failed"
proof -
  have "index c = kNew" using inv c clash poll_inv_chan [of "poller L" "chan_store L" p c]
    by (auto simp: chan_ok_def loop_inv_def)
  with c clash show ?thesis
    by (simp add: Channel_set_events_def Channel_update_def EventLoop_updateChannel_def
        deref_channel_def Poller_updateChannel_def index_defs)
qed

lemma loop_inv_tie:
  assumes "loop_inv L" and "chan_store L p = Some ch"
  shows "loop_inv (L\<lparr>chan_store := (chan_store L)(p \<mapsto> Channel_tie ch)\<rparr>)"
proof -
  have "chan_ok (poller L) p (Channel_tie ch)"
    using poll_inv_chan [OF assms(1) [unfolded loop_inv_def] assms(2)]
    by (simp add: chan_ok_def Channel_tie_def)
  moreover have "\<exists>d. ((chan_store L)(p \<mapsto> Channel_tie ch)) q = Some d \<and> fd d = f"
    if "channels (poller L) f = Some q" for f q
  proof -
    from assms(1) that obtain d where "chan_store L q = Some d" "fd d = f"
      unfolding loop_inv_def poll_inv_def by blast
    with assms(2) show ?thesis by (cases "q = p") (auto simp: Channel_tie_def)
  qed
  ultimately show ?thesis using assms(1) unfolding loop_inv_def poll_inv_def by simp
qed

lemma loop_inv_new_channel:
  assumes "loop_inv L" and "chan_store L p = None"
  shows "loop_inv (L\<lparr>chan_store := (chan_store L)(p \<mapsto> (Channel_new f)\<lparr>callbacks := cbs\<rparr>)\<rparr>)"
proof -
  have none: "channels (poller L) g \<noteq> Some p" for g
    using assms unfolding loop_inv_def poll_inv_def by fastforce
  then have "chan_ok (poller L) p ((Channel_new f)\<lparr>callbacks := cbs\<rparr>)"
    by (simp add: chan_ok_def Channel_new_def index_defs)
  moreover have "\<exists>d. ((chan_store L)(p \<mapsto> (Channel_new f)\<lparr>callbacks := cbs\<rparr>)) q = Some d \<and> fd d = g"
    if "channels (poller L) g = Some q" for g q
    using assms(1) that none [of g] unfolding loop_inv_def poll_inv_def by auto
  ultimately show ?thesis using assms(1) unfolding loop_inv_def poll_inv_def by simp
qed

section \<open>Functors\<close>

text \<open>
  The functors of a batch run in order; what they queue is appended to the pending list, which
  the batch started with empty.
\<close>

definition queues_only :: "('f \<Rightarrow> 'f EventLoop \<Rightarrow> 'f EventLoop res) \<Rightarrow> ('f \<Rightarrow> 'f list) \<Rightarrow> bool" where
  "queues_only exec qs \<longleftrightarrow> (\<forall>f L. exec f L = Inr (foldl (EventLoop_queueInLoop True) L (qs f)))"

lemma wakeup_simps [simp]:
  "pendingFunctors (EventLoop_wakeup L) = pendingFunctors L"
  "callingPendingFunctors (EventLoop_wakeup L) = callingPendingFunctors L"
  "quit (EventLoop_wakeup L) = quit L" "looping (EventLoop_wakeup L) = looping L"
  "0 < wakeup_count (EventLoop_wakeup L)"
  by (auto simp: EventLoop_wakeup_def)

lemma push_simps [simp]:
  "pendingFunctors (EventLoop_push L f) = pendingFunctors L @ [f]"
  "callingPendingFunctors (EventLoop_push L f) = callingPendingFunctors L"
  "quit (EventLoop_push L f) = quit L" "looping (EventLoop_push L f) = looping L"
  "wakeup_count (EventLoop_push L f) = wakeup_count L"
  by (simp_all add: EventLoop_push_def)

lemma queueInLoop_simps [simp]:
  "pendingFunctors (EventLoop_queueInLoop b L f) = pendingFunctors L @ [f]"
  "callingPendingFunctors (EventLoop_queueInLoop b L f) = callingPendingFunctors L"
  "quit (EventLoop_queueInLoop b L f) = quit L" "looping (EventLoop_queueInLoop b L f) = looping L"
  by (simp_all add: EventLoop_queueInLoop_def Let_def)

lemma queueInLoop_wakes:
  "\<not> b \<or> callingPendingFunctors L \<Longrightarrow> 0 < wakeup_count (EventLoop_queueInLoop b L f)"
  "0 < wakeup_count L \<Longrightarrow> 0 < wakeup_count (EventLoop_queueInLoop b L f)"
  by (auto simp: EventLoop_queueInLoop_def Let_def)

lemma foldl_queueInLoop:
  "pendingFunctors (foldl (EventLoop_queueInLoop b) L fs) = pendingFunctors L @ fs
    \<and> callingPendingFunctors (foldl (EventLoop_queueInLoop b) L fs) = callingPendingFunctors L
    \<and> (0 < wakeup_count L \<or> fs \<noteq> [] \<and> callingPendingFunctors L \<longrightarrow>
        0 < wakeup_count (foldl (EventLoop_queueInLoop b) L fs))"
proof (induction fs arbitrary: L)
  case (Cons f fs)
  from Cons [of "EventLoop_queueInLoop b L f"] queueInLoop_wakes(1) [of b L f]
    queueInLoop_wakes(2) [of L b f] show ?case by auto
qed simp

lemma run_functors_queues:
  assumes "queues_only exec qs"
  shows "\<exists>L'. run_functors exec L fs = Inr L'
    \<and> pendingFunctors L' = pendingFunctors L @ concat (map qs fs)
    \<and> callingPendingFunctors L' = callingPendingFunctors L
    \<and> (0 < wakeup_count L \<or> concat (map qs fs) \<noteq> [] \<and> callingPendingFunctors L \<longrightarrow> 0 < wakeup_count L')"
proof (induction fs arbitrary: L)
  case Nil
  show ?case by simp
next
  case (Cons f fs)
  let ?L = "foldl (EventLoop_queueInLoop True) L (qs f)"
  have "exec f L = Inr ?L" using assms by (simp add: queues_only_def)
  with Cons [of ?L] foldl_queueInLoop [of True L "qs f"] show ?case by auto
qed

section \<open>The loop among other threads\<close>

text \<open>
  \<open>pc\<close> is where the loop thread is: before the two stores that start \<open>loop\<close>, at the test of
  \<open>quit_\<close>, in \<open>poll\<close>, handling events, after \<open>callingPendingFunctors_ = true\<close> and before the
  swap, running the functors of a batch, or done. \<open>inflight\<close> counts the other threads
  between their store (of a functor or of \<open>quit_\<close>) and their write to the wakeup descriptor;
  \<open>woken\<close> says that the poll reported the descriptor and it has not been read yet. \<open>queued\<close> and
  \<open>ran\<close> record all functors queued and run so far.
\<close>

datatype 'f loop_pc =
    Before_looping
  | Before_reset
  | At_test
  | Polling
  | Handling
  | Before_swap
  | Running (running: "'f list")
  | Stopped

record 'f loop_sys =
  el :: "'f EventLoop"
  pc :: "'f loop_pc"
  inflight :: nat
  woken :: bool
  queued :: "'f list"
  ran :: "'f list"

inductive loop_step :: "'f loop_sys \<Rightarrow> 'f loop_sys \<Rightarrow> bool" where
  set_looping: "pc s = Before_looping \<Longrightarrow>
    loop_step s (s\<lparr>pc := Before_reset, el := (el s)\<lparr>looping := True\<rparr>\<rparr>)"
| reset_quit: "pc s = Before_reset \<Longrightarrow>
    loop_step s (s\<lparr>pc := At_test, el := (el s)\<lparr>quit := False\<rparr>\<rparr>)"
| test_quit: "pc s = At_test \<Longrightarrow> quit (el s) \<Longrightarrow>
    loop_step s (s\<lparr>pc := Stopped, el := (el s)\<lparr>looping := False\<rparr>\<rparr>)"
| test_go: "pc s = At_test \<Longrightarrow> \<not> quit (el s) \<Longrightarrow> loop_step s (s\<lparr>pc := Polling\<rparr>)"
| poll_returns: "pc s = Polling \<Longrightarrow>
    loop_step s (s\<lparr>pc := Handling, woken := (0 < wakeup_count (el s))\<rparr>)"
| read_wakeup: "pc s = Handling \<Longrightarrow> woken s \<Longrightarrow>
    loop_step s (s\<lparr>woken := False, el := EventLoop_handleRead (el s)\<rparr>)"
| events_done: "pc s = Handling \<Longrightarrow> \<not> woken s \<Longrightarrow>
    loop_step s (s\<lparr>pc := Before_swap, el := (el s)\<lparr>callingPendingFunctors := True\<rparr>\<rparr>)"
| swap_functors: "pc s = Before_swap \<Longrightarrow>
    loop_step s (s\<lparr>pc := Running (pendingFunctors (el s)), el := (el s)\<lparr>pendingFunctors := []\<rparr>\<rparr>)"
| run_functor: "pc s = Running (f # fs) \<Longrightarrow>
    loop_step s (s\<lparr>pc := Running fs, ran := ran s @ [f]\<rparr>)"
| batch_done: "pc s = Running [] \<Longrightarrow>
    loop_step s (s\<lparr>pc := At_test, el := (el s)\<lparr>callingPendingFunctors := False\<rparr>\<rparr>)"
| callback_queues: "pc s = Handling \<or> is_Running (pc s) \<Longrightarrow>
    loop_step s (s\<lparr>el := EventLoop_queueInLoop True (el s) f, queued := queued s @ [f]\<rparr>)"
| callback_quits: "pc s = Handling \<or> is_Running (pc s) \<Longrightarrow>
    loop_step s (s\<lparr>el := EventLoop_quit True (el s)\<rparr>)"
| other_pushes:
    "loop_step s (s\<lparr>el := EventLoop_push (el s) f, inflight := inflight s + 1, queued := queued s @ [f]\<rparr>)"
| other_quits: "EventLoop_quit_store (el s) = (True, L) \<Longrightarrow>
    loop_step s (s\<lparr>el := L, inflight := inflight s + 1\<rparr>)"
| other_wakes: "inflight s = Suc n \<Longrightarrow>
    loop_step s (s\<lparr>el := EventLoop_wakeup (el s), inflight := n\<rparr>)"

definition loop_init :: "'f loop_sys \<Rightarrow> bool" where
  "loop_init s \<longleftrightarrow> pc s = Before_looping \<and> \<not> looping (el s) \<and> \<not> quit (el s)
     \<and> \<not> callingPendingFunctors (el s) \<and> pendingFunctors (el s) = [] \<and> wakeup_count (el s) = 0
     \<and> inflight s = 0 \<and> queued s = [] \<and> ran s = [] \<and> \<not> woken s"

definition batch :: "'f loop_pc \<Rightarrow> 'f list" where
  "batch c = (case c of Running fs \<Rightarrow> fs | _ \<Rightarrow> [])"

text \<open>
  Functors pass through the pending list and the batch in order; while the loop thread is where
  it cannot notice a store by itself, a wakeup has been written or is about to be.
\<close>

definition loop_sys_inv :: "'f loop_sys \<Rightarrow> bool" where
  "loop_sys_inv s \<longleftrightarrow>
     ran s @ batch (pc s) @ pendingFunctors (el s) = queued s
     \<and> (callingPendingFunctors (el s) \<longleftrightarrow> pc s = Before_swap \<or> is_Running (pc s))
     \<and> ((pc s = At_test \<or> pc s = Polling \<or> is_Running (pc s) \<or> pc s = Before_looping
          \<or> pc s = Before_reset) \<and> pendingFunctors (el s) \<noteq> [] \<longrightarrow>
          0 < wakeup_count (el s) \<or> 0 < inflight s)
     \<and> (pc s = Polling \<and> quit (el s) \<longrightarrow> 0 < wakeup_count (el s) \<or> 0 < inflight s)"

lemma batch_simps [simp]:
  "batch (Running fs) = fs" "batch At_test = []" "batch Polling = []" "batch Handling = []"
  "batch Before_swap = []" "batch Stopped = []" "batch Before_looping = []" "batch Before_reset = []"
  by (simp_all add: batch_def)

lemma quit_simps [simp]:
  "pendingFunctors (EventLoop_quit True L) = pendingFunctors L"
  "callingPendingFunctors (EventLoop_quit True L) = callingPendingFunctors L"
  "wakeup_count (EventLoop_quit True L) = wakeup_count L"
  by (simp_all add: EventLoop_quit_def EventLoop_quit_store_def)

lemma loop_sys_inv_step:
  assumes "loop_sys_inv s" and "loop_step s t"
  shows "loop_sys_inv t"
  using assms(2,1)
proof (cases rule: loop_step.cases)
  case (callback_queues f)
  with assms(1) queueInLoop_wakes(1) [of True "el s" f] queueInLoop_wakes(2) [of "el s" True f]
  show ?thesis by (simp add: loop_sys_inv_def) (elim disjE; simp)
next
  case callback_quits
  then have "pc s \<noteq> Polling" by auto
  with callback_quits assms(1) show ?thesis by (simp add: loop_sys_inv_def)
next
  case (other_quits L)
  then have "L = (el s)\<lparr>quit := True\<rparr>" by (simp add: EventLoop_quit_store_def split: if_splits)
  with other_quits assms(1) show ?thesis by (simp add: loop_sys_inv_def)
next
  case (other_pushes f)
  with assms(1) show ?thesis by (simp add: loop_sys_inv_def)
qed (simp_all add: loop_sys_inv_def EventLoop_handleRead_def)

interpretation loop_inv: invariant_system loop_init loop_step loop_sys_inv
proof unfold_locales
  fix s :: "'f loop_sys"
  assume "loop_init s"
  then show "loop_sys_inv s" by (simp add: loop_init_def loop_sys_inv_def)
next
  fix s t :: "'f loop_sys"
  assume "loop_sys_inv s" and "loop_step s t"
  then show "loop_sys_inv t" by (rule loop_sys_inv_step)
qed

text \<open>
  A quit can be lost in one place: between the two stores at the start of \<open>loop\<close> another
  thread's \<open>quit\<close> passes its test, and the second store then clears its flag.
\<close>

definition loop_start :: "nat loop_sys" where
  "loop_start = \<lparr>el = \<lparr>looping = False, quit = False, loop_eventHandling = False,
       callingPendingFunctors = False, iteration = 0, poller = Poller_new, chan_store = Map.empty,
       activeChannels = [], currentActiveChannel = None, pendingFunctors = [], wakeup_count = 0\<rparr>,
     pc = Before_looping, inflight = 0, woken = False, queued = [], ran = []\<rparr>"

lemma loop_start_init: "loop_init loop_start"
  by (simp add: loop_init_def loop_start_def)

lemma quit_lost:
  "\<exists>t L u. loop_step\<^sup>*\<^sup>* loop_start t \<and> EventLoop_quit_store (el t) = (True, L)
    \<and> loop_step\<^sup>*\<^sup>* (t\<lparr>el := L, inflight := 1\<rparr>) u
    \<and> pc u = Polling \<and> \<not> quit (el u) \<and> inflight u = 0"
proof -
  let ?L1 = "(el loop_start)\<lparr>looping := True\<rparr>"
  let ?t = "loop_start\<lparr>pc := Before_reset, el := ?L1\<rparr>"
  let ?t1 = "?t\<lparr>el := ?L1\<lparr>quit := True\<rparr>, inflight := 1\<rparr>"
  let ?t2 = "?t1\<lparr>pc := At_test, el := (el ?t1)\<lparr>quit := False\<rparr>\<rparr>"
  let ?t3 = "?t2\<lparr>pc := Polling\<rparr>"
  let ?u = "?t3\<lparr>el := EventLoop_wakeup (el ?t3), inflight := 0\<rparr>"
  have "loop_step loop_start ?t" by (rule loop_step.set_looping) (simp add: loop_start_def)
  moreover have "EventLoop_quit_store (el ?t) = (True, ?L1\<lparr>quit := True\<rparr>)"
    by (simp add: EventLoop_quit_store_def)
  moreover have "loop_step ?t1 ?t2" by (rule loop_step.reset_quit) simp
  moreover have "loop_step ?t2 ?t3" by (rule loop_step.test_go) simp_all
  moreover have "loop_step ?t3 ?u" by (rule loop_step.other_wakes) simp
  ultimately show ?thesis
    by (intro exI [of _ ?t] exI [of _ "?L1\<lparr>quit := True\<rparr>"] exI [of _ ?u])
      (auto intro: converse_rtranclp_into_rtranclp)
qed

section \<open>Properties\<close>

text \<open>
  What an update of the events of the channel at \<open>p\<close> to \<open>ev\<close> leaves behind: no further
  \<open>epoll_ctl\<close> error; the channel registered, with exactly its mask in the interest list, or no
  entry when the mask is empty; everything else untouched.
\<close>

definition channel_updated :: "'f EventLoop \<Rightarrow> 'f EventLoop \<Rightarrow> nat \<Rightarrow> int \<Rightarrow> 32 word \<Rightarrow> bool" where
  "channel_updated L L' p f ev \<longleftrightarrow> loop_inv L'
     \<and> ctl_errors (poller L') = ctl_errors (poller L)
     \<and> (\<exists>c'. chan_store L' p = Some c' \<and> fd c' = f \<and> events c' = ev)
     \<and> channels (poller L') f = Some p
     \<and> (interest (poller L') f = Some (ev, p) \<or> ev = kNoneEvent \<and> interest (poller L') f = None)
     \<and> (\<forall>g. g \<noteq> f \<longrightarrow> channels (poller L') g = channels (poller L) g)
     \<and> (\<forall>q. q \<noteq> p \<longrightarrow> chan_store L' q = chan_store L q)"

text \<open>
  C30. An update of a channel's events keeps the poller, the kernel and the channel in step: if
  no other channel has the descriptor, the update succeeds without an \<open>epoll_ctl\<close> error,
  and afterwards the interest list has exactly the channel's mask for it, or no entry when
  the mask is empty; every other descriptor is untouched. If another channel has the
  descriptor, the update is refused.
\<close>

theorem channel_update_in_step:
  assumes "loop_inv L" and "chan_store L p = Some c"
  shows "case channels (poller L) (fd c) of
      Some q \<Rightarrow> if q = p
        then \<exists>L'. Channel_set_events f w L p = Inr L' \<and> channel_updated L L' p (fd c) (f w (events c))
        else Channel_set_events f w L p = Inl Assert_failed
    | None \<Rightarrow> \<exists>L'. Channel_set_events f w L p = Inr L' \<and> channel_updated L L' p (fd c) (f w (events c))"
proof -
  let ?c = "\<lambda>i. c\<lparr>events := f w (events c), addedToLoop := True, index := i\<rparr>"
  let ?L = "\<lambda>i P. L\<lparr>poller := P, chan_store := (chan_store L)(p \<mapsto> ?c i)\<rparr>"
  have "\<exists>L'. Channel_set_events f w L p = Inr L' \<and> channel_updated L L' p (fd c) (f w (events c))"
    if reg: "registrable (poller L) p c"
  proof -
    obtain P' i where u: "Channel_set_events f w L p = Inr (?L i P')" "loop_inv (?L i P')"
      "i \<noteq> kNew" "ctl_errors P' = ctl_errors (poller L)" "channels P' (fd c) = Some p"
      "\<And>g. g \<noteq> fd c \<Longrightarrow> channels P' g = channels (poller L) g"
      by (rule Channel_set_events_ok [OF assms reg, of f w]) (rule that)
    have "chan_ok P' p (?c i)" using poll_inv_chan [OF u(2) [unfolded loop_inv_def]] by simp
    then have "interest P' (fd c) = Some (f w (events c), p)
        \<or> f w (events c) = kNoneEvent \<and> interest P' (fd c) = None"
      using u(3) by (auto simp: chan_ok_def)
    with u(2-6) have "channel_updated L (?L i P') p (fd c) (f w (events c))"
      by (simp add: channel_updated_def)
    with u(1) show ?thesis by blast
  qed
  then show ?thesis using Channel_set_events_clash [OF assms, of _ f w]
    by (auto simp: registrable_def split: option.split)
qed

text \<open>
  The calls of the loop's own thread that the system has are those from inside \<open>loop\<close>. A functor which that thread
  queues before it calls \<open>loop\<close> is not announced: the first poll sleeps on it until another event or the timeout.
\<close>

lemma owner_queues_before_loop:
  fixes f :: nat
  shows "\<exists>t. loop_step\<^sup>*\<^sup>* (loop_start\<lparr>el := EventLoop_queueInLoop True (el loop_start) f, queued := [f]\<rparr>) t
    \<and> pc t = Polling \<and> pendingFunctors (el t) = [f] \<and> inflight t = 0 \<and> wakeup_count (el t) = 0"
proof -
  let ?s0 = "loop_start\<lparr>el := EventLoop_queueInLoop True (el loop_start) f, queued := [f]\<rparr>"
  let ?s1 = "?s0\<lparr>pc := Before_reset, el := (el ?s0)\<lparr>looping := True\<rparr>\<rparr>"
  let ?s2 = "?s1\<lparr>pc := At_test, el := (el ?s1)\<lparr>quit := False\<rparr>\<rparr>"
  let ?s3 = "?s2\<lparr>pc := Polling\<rparr>"
  have "loop_step ?s0 ?s1" by (rule loop_step.set_looping) (simp add: loop_start_def)
  moreover have "loop_step ?s1 ?s2" by (rule loop_step.reset_quit) simp
  moreover have "loop_step ?s2 ?s3" by (rule loop_step.test_go) simp_all
  ultimately have "loop_step\<^sup>*\<^sup>* ?s0 ?s3" by (meson converse_rtranclp_into_rtranclp rtranclp.rtrancl_refl)
  then show ?thesis by (intro exI [of _ ?s3]) (simp add: loop_start_def EventLoop_queueInLoop_def EventLoop_push_def)
qed

text \<open>
  C15. Functors run once and in the order they were queued, and no wakeup is lost, for functors that other threads queue
  at any time and the loop's own thread inside \<open>loop\<close>: in every
  reachable state of the loop and any number of other threads, the functors run are a prefix
  of those queued; and whenever the loop waits in \<open>poll\<close> with functors pending or with
  \<open>quit_\<close> set, and every thread that queued or quit has finished its call, the wakeup
  descriptor is readable, so that the poll returns.
\<close>

theorem no_lost_wakeup:
  assumes "loop_init s" and "loop_step\<^sup>*\<^sup>* s t"
  shows "ran t @ batch (pc t) @ pendingFunctors (el t) = queued t
    \<and> (pc t = Polling \<and> (pendingFunctors (el t) \<noteq> [] \<or> quit (el t)) \<and> inflight t = 0 \<longrightarrow>
        0 < wakeup_count (el t))"
  using loop_inv.reachable_inv [OF assms] by (auto simp: loop_sys_inv_def)

theorem no_lost_wakeup_witness:
  "\<exists>t :: nat loop_sys. loop_step\<^sup>*\<^sup>* loop_start t \<and> pc t = Polling \<and> pendingFunctors (el t) = [7]
    \<and> 0 < wakeup_count (el t)"
proof -
  let ?s1 = "loop_start\<lparr>pc := Before_reset, el := (el loop_start)\<lparr>looping := True\<rparr>\<rparr>"
  let ?s2 = "?s1\<lparr>pc := At_test, el := (el ?s1)\<lparr>quit := False\<rparr>\<rparr>"
  let ?s3 = "?s2\<lparr>pc := Polling\<rparr>"
  let ?s4 = "?s3\<lparr>el := EventLoop_push (el ?s3) 7, inflight := inflight ?s3 + 1, queued := queued ?s3 @ [7]\<rparr>"
  let ?s5 = "?s4\<lparr>el := EventLoop_wakeup (el ?s4), inflight := 0\<rparr>"
  have "loop_step loop_start ?s1" by (rule loop_step.set_looping) (simp add: loop_start_def)
  moreover have "loop_step ?s1 ?s2" by (rule loop_step.reset_quit) simp
  moreover have "loop_step ?s2 ?s3" by (rule loop_step.test_go) simp_all
  moreover have "loop_step ?s3 ?s4" by (rule loop_step.other_pushes)
  moreover have "loop_step ?s4 ?s5" by (rule loop_step.other_wakes) (simp add: loop_start_def)
  ultimately have "loop_step\<^sup>*\<^sup>* loop_start ?s5" by (meson converse_rtranclp_into_rtranclp rtranclp.rtrancl_refl)
  moreover from no_lost_wakeup [OF loop_start_init this]
  have "0 < wakeup_count (el ?s5)" by (simp add: loop_start_def)
  ultimately show ?thesis by (intro exI [of _ ?s5]) (simp add: loop_start_def)
qed

text \<open>
  \<open>doPendingFunctors\<close> runs the batch it swapped out and nothing else: functors that the
  batch queues stay pending, in order, for the next iteration, and the loop has been woken
  for them.
\<close>

theorem doPendingFunctors_batch:
  assumes "queues_only exec qs"
  shows "\<exists>L'. EventLoop_doPendingFunctors exec L = Inr L'
    \<and> pendingFunctors L' = concat (map qs (pendingFunctors L)) \<and> \<not> callingPendingFunctors L'
    \<and> (pendingFunctors L' \<noteq> [] \<longrightarrow> 0 < wakeup_count L')"
proof -
  from run_functors_queues [OF assms, of "L\<lparr>callingPendingFunctors := True, pendingFunctors := []\<rparr>"
      "pendingFunctors L"]
  show ?thesis by (auto simp: EventLoop_doPendingFunctors_def)
qed

theorem doPendingFunctors_batch_witness:
  "\<exists>L'. EventLoop_doPendingFunctors
      (\<lambda>f L. Inr (foldl (EventLoop_queueInLoop True) L (if f = 1 then [2, 3] else [])))
      ((el loop_start)\<lparr>pendingFunctors := [1, 4]\<rparr>) = Inr L'
    \<and> pendingFunctors L' = [2, 3] \<and> 0 < wakeup_count L'"
proof -
  let ?qs = "\<lambda>f :: nat. if f = 1 then [2, 3] else []"
  have "queues_only (\<lambda>f L. Inr (foldl (EventLoop_queueInLoop True) L (?qs f))) ?qs"
    by (simp add: queues_only_def)
  from doPendingFunctors_batch [OF this, of "(el loop_start)\<lparr>pendingFunctors := [1, 4]\<rparr>"]
  show ?thesis by (auto simp: loop_start_def)
qed

definition one_channel_loop :: "nat EventLoop" where
  "one_channel_loop = (el loop_start)\<lparr>chan_store := [5 \<mapsto> Channel_new 3]\<rparr>"

theorem channel_update_in_step_witness:
  "\<exists>L'. Channel_enableReading one_channel_loop 5 = Inr L'
    \<and> interest (poller L') 3 = Some (kReadEvent, 5)"
proof -
  have c: "chan_store one_channel_loop 5 = Some (Channel_new 3)"
    and n: "channels (poller one_channel_loop) 3 = None"
    by (simp_all add: one_channel_loop_def loop_start_def Poller_new_def)
  have inv: "loop_inv one_channel_loop"
    by (simp add: loop_inv_def poll_inv_def one_channel_loop_def loop_start_def Poller_new_def
        chan_ok_def Channel_new_def index_defs)
  have "set_flag kReadEvent (events (Channel_new 3)) = kReadEvent" and "kReadEvent \<noteq> kNoneEvent"
    and "fd (Channel_new 3) = 3"
    by (simp_all add: set_flag_def Channel_new_def kReadEvent_def kNoneEvent_def poll_flags)
  with channel_update_in_step [OF inv c, of set_flag kReadEvent] n show ?thesis
    by (auto simp: Channel_enableReading_def channel_updated_def)
qed

end
