(* ===== verification/Rdma_Connection.thy ===== *)
theory Rdma_Connection
  imports Rdma_Device Event_Loop
begin

text \<open>
  An RDMA connection: \<^verbatim>\<open>src/src/network/rdma/RdmaConnection.h\<close> and \<^verbatim>\<open>RdmaConnection.cc\<close>. The
  outcomes of the verbs calls are arguments. The lemmas show that the send and receive buffers
  are disjoint and inside the registered memory, that creation gives back what it took on every
  failing path but one, that the pool of send buffers hands out a buffer to one holder at a
  time, that every receive buffer is always posted or waiting in the completion queue, and that
  no completion is left in the queue without an event that wakes the handler.
\<close>

section \<open>State\<close>

datatype RdmaState = RC_kDisconnected | RC_kConnected | RC_kConnecting

record BufPair =
  send_header :: nat
  send_cap :: nat
  recv_header :: nat
  recv_cap :: nat

record ConnDest =
  dest_lid :: "16 word"
  dest_qpn :: "32 word"
  dest_psn :: "32 word"
  dest_gid_index :: int
  dest_gid :: ibv_gid
  dest_guid :: "64 word"
  rx_depth :: nat
  tx_depth :: nat

record SendBuf =
  sb_id :: nat
  sb_addr :: nat
  sb_cap :: nat

record RdmaExchangeInfo =
  xi_lid :: "16 word"
  xi_qpn :: "32 word"
  xi_psn :: "32 word"
  xi_gid :: ibv_gid
  xi_recv_addr :: "64 word"
  xi_recv_len :: "32 word"
  xi_recv_rkey :: "32 word"

text \<open>A posted send: the address, length and id of the work request.\<close>

type_synonym send_wr = "nat \<times> nat \<times> nat"

datatype rdma_functor = Rdma_sendInLoop send_wr

text \<open>
  \<open>qp_state\<close>, \<open>rq\<close> (the ids of the posted receives, oldest first) and \<open>sq\<close> (all sends posted)
  stand for the queue pair, \<open>cq_acked\<close> for the events acknowledged. The completion queue itself
  is part of the environment.
\<close>

datatype qp_phase = IBV_QPS_INIT | IBV_QPS_RTR | IBV_QPS_RTS

record RdmaConnection =
  rc_loop :: "rdma_functor EventLoop"
  rc_state :: RdmaState
  rc_channel :: nat
  rc_name :: string
  mem_base :: nat
  mem_total :: nat
  bufpairs :: "BufPair list"
  free_bufpairs :: "nat list"
  local_lkey :: "32 word"
  mr_rkey :: "32 word"
  qp_num :: "32 word"
  remote_mem :: "64 word"
  remote_len :: "32 word"
  remote_rkey :: "32 word"
  dev_ctx :: DevContext
  local_dest :: ConnDest
  unack_cq_events :: int
  wc_capacity :: nat
  qp_state :: qp_phase
  qp_peer :: "RdmaExchangeInfo option"
  rq :: "nat list"
  sq :: "send_wr list"
  cq_acked :: nat

datatype wc_opcode = IBV_WC_SEND | IBV_WC_RECV | IBV_WC_other

record ibv_wc =
  wr_id :: nat
  wc_success :: bool
  wc_op :: wc_opcode
  byte_len :: nat

text \<open>
  The callbacks the user registers. \<open>user call (a, c)\<close> is what the callback does to the user's
  own state \<open>a\<close> and to the connection.
\<close>

datatype rdma_call =
    Recv_success nat nat ibv_wc
  | Recv_fail ibv_wc
  | Send_success ibv_wc
  | Send_fail ibv_wc
  | Connected
  | Disconnected

type_synonym 'a rdma_user = "rdma_call \<Rightarrow> 'a \<times> RdmaConnection \<Rightarrow> ('a \<times> RdmaConnection) res"

definition kUnackCqEventThreshold :: int where "kUnackCqEventThreshold = 10"

section \<open>Send buffers\<close>

definition pool_front :: "nat list \<Rightarrow> (nat \<times> nat list) option" where
  "pool_front q = (case q of [] \<Rightarrow> None | i # r \<Rightarrow> Some (i, r))"

definition pool_back :: "nat list \<Rightarrow> nat \<Rightarrow> nat list" where
  "pool_back q i = q @ [i]"

definition the_bufpair :: "RdmaConnection \<Rightarrow> nat \<Rightarrow> BufPair res" where
  "the_bufpair c i = defined_if (i < length (bufpairs c)) (Inr (bufpairs c ! i))"

definition RdmaConnection_acquireFreeSendBuf ::
  "RdmaConnection \<Rightarrow> (SendBuf option \<times> RdmaConnection) res" where
  "RdmaConnection_acquireFreeSendBuf c =
     (case pool_front (free_bufpairs c) of
        None \<Rightarrow> Inr (None, c)
      | Some (i, r) \<Rightarrow> andThen (the_bufpair c i) (\<lambda>b.
          Inr (Some \<lparr>sb_id = i, sb_addr = send_header b, sb_cap = send_cap b\<rparr>, c\<lparr>free_bufpairs := r\<rparr>)))"

definition RdmaConnection_releaseSendBuf :: "RdmaConnection \<Rightarrow> nat \<Rightarrow> RdmaConnection" where
  "RdmaConnection_releaseSendBuf c i = c\<lparr>free_bufpairs := pool_back (free_bufpairs c) i\<rparr>"

definition RdmaConnection_isFreeSendBufEmpty :: "RdmaConnection \<Rightarrow> bool" where
  "RdmaConnection_isFreeSendBufEmpty c \<longleftrightarrow> free_bufpairs c = []"

section \<open>Creation\<close>

text \<open>
  The size of a buffer rounded up to a page, and of the whole memory, in \<open>size_t\<close>. The
  arguments of the constructor's loop are truncated as the declared types do.
\<close>

definition round_to_page :: "nat \<Rightarrow> nat \<Rightarrow> nat" where
  "round_to_page page mem_size =
     (if mem_size mod page = 0 then mem_size else (page * (mem_size div page + 1)) mod 2 ^ 64)"

definition total_mem :: "nat \<Rightarrow> nat \<Rightarrow> nat \<Rightarrow> nat" where
  "total_mem page mem_size mem_num = (round_to_page page mem_size * mem_num * 2) mod 2 ^ 64"

text \<open>The loop of the constructor that lays out the buffer pairs, from pair \<open>i\<close> on.\<close>

fun lay_bufpairs :: "nat \<Rightarrow> nat \<Rightarrow> nat \<Rightarrow> nat \<Rightarrow> BufPair list" where
  "lay_bufpairs 0 len s r = []"
| "lay_bufpairs (Suc n) len s r =
     \<lparr>send_header = s, send_cap = len, recv_header = r, recv_cap = len\<rparr>
       # lay_bufpairs n len ((s + (len * 2) mod 2 ^ 32) mod 2 ^ 64) ((r + (len * 2) mod 2 ^ 32) mod 2 ^ 64)"

text \<open>
  The constructor. An index of type \<open>int\<close> runs to \<open>mem_num\<close>, so more than \<open>2 ^ 31 - 1\<close> pairs
  overflow it; no pair at all divides by zero.
\<close>

definition RdmaConnection_new ::
  "rdma_functor EventLoop \<Rightarrow> nat \<Rightarrow> int \<Rightarrow> string \<Rightarrow> nat \<Rightarrow> nat \<Rightarrow> 32 word \<Rightarrow> 32 word \<Rightarrow> 32 word \<Rightarrow>
    DevContext \<Rightarrow> ConnDest \<Rightarrow> nat \<Rightarrow> nat \<Rightarrow> RdmaConnection res" where
  "RdmaConnection_new L p f name base mem lkey rkey qpn dev dest cap mem_num =
     defined_if (mem_num \<noteq> 0 \<and> mem_num < 2 ^ 31)
       (let mem_len = (mem div (2 * mem_num)) mod 2 ^ 32 in
        Inr \<lparr>rc_loop = L\<lparr>chan_store := (chan_store L)(p \<mapsto> (Channel_new f)
                   \<lparr>callbacks := {Read_cb, Write_cb, Close_cb, Error_cb}\<rparr>)\<rparr>,
             rc_state = RC_kConnecting, rc_channel = p, rc_name = name, mem_base = base,
             mem_total = mem,
             bufpairs = lay_bufpairs mem_num mem_len base ((base + mem_len) mod 2 ^ 64),
             free_bufpairs = [0..<mem_num], local_lkey = lkey, mr_rkey = rkey, qp_num = qpn,
             remote_mem = 0, remote_len = 0, remote_rkey = 0, dev_ctx = dev, local_dest = dest,
             unack_cq_events = 0, wc_capacity = cap, qp_state = IBV_QPS_INIT, qp_peer = None,
             rq = [], sq = [], cq_acked = 0\<rparr>)"

datatype verb_object = Comp_channel | Pd | Cq | Mr | Qp

datatype verb_call = Create verb_object | Destroy verb_object

text \<open>
  What the operating system and the verbs library answer while a connection is created: the
  page size, the address of the memory, and the outcome of each call in the order of the code.
\<close>

record create_env =
  page_size :: nat
  mem_address :: nat
  comp_channel_fd :: "int option"
  fcntl_setfl :: int
  alloc_pd_ok :: bool
  query_device_err :: int
  max_qp_wr :: int
  query_port_err :: int
  port_lid :: "16 word"
  create_cq_ok :: bool
  req_notify_err :: int
  reg_mr_keys :: "(32 word \<times> 32 word) option"
  create_qp_num :: "32 word option"
  modify_init_err :: int
  random31 :: "32 word"

definition depth_limit :: "int \<Rightarrow> nat" where
  "depth_limit m = nat (m mod 2 ^ 32) div 4"

text \<open>
  The labels at the end of \<open>create\<close>: each one falls through to the next. Giving back an object
  that was never made dereferences a null pointer.
\<close>

definition clean_from :: "verb_object \<Rightarrow> verb_object list" where
  "clean_from l = dropWhile (\<lambda>x. x \<noteq> l) [Qp, Mr, Cq, Pd, Comp_channel]"

definition give_up ::
  "DevContext \<Rightarrow> verb_object list \<Rightarrow> verb_object list \<Rightarrow> RDMAError \<Rightarrow>
    (dev_call list \<times> verb_call list \<times> (RDMAError + RdmaConnection)) res" where
  "give_up dev made labels e =
     defined_if (set labels \<subseteq> set made)
       (Inr (DevContext_destroy dev, map Create made @ map Destroy labels, Inl e))"

definition new_dest :: "create_env \<Rightarrow> DevContext \<Rightarrow> 32 word \<Rightarrow> nat \<Rightarrow> ConnDest res" where
  "new_dest E dev qpn depth =
     defined_if (gid_index_list dev \<noteq> [] \<and> gid_list dev \<noteq> [])
       (Inr \<lparr>dest_lid = port_lid E, dest_qpn = qpn, dest_psn = and (random31 E) 0xffffff,
             dest_gid_index = hd (gid_index_list dev), dest_gid = hd (gid_list dev),
             dest_guid = guid dev, rx_depth = depth, tx_depth = depth\<rparr>)"

text \<open>The part of \<open>create\<close> that follows the device context.\<close>

definition RdmaConnection_create_on ::
  "create_env \<Rightarrow> DevContext \<Rightarrow> rdma_functor EventLoop \<Rightarrow> nat \<Rightarrow> string \<Rightarrow> nat \<Rightarrow> nat \<Rightarrow>
    (dev_call list \<times> verb_call list \<times> (RDMAError + RdmaConnection)) res" where
  "RdmaConnection_create_on E dev L p name mem mem_num =
     (let depth = (mem_num + 5) mod 2 ^ 32 in
      case comp_channel_fd E of
        None \<Rightarrow> give_up dev [] [] kCompChannelError
      | Some f \<Rightarrow>
          if fcntl_setfl E < 0 then give_up dev [Comp_channel] (clean_from Cq) kCompChannelError
          else if \<not> alloc_pd_ok E then give_up dev [Comp_channel] (clean_from Comp_channel) kPdError
          else if query_device_err E \<noteq> 0 then give_up dev [Comp_channel, Pd] (clean_from Pd) kDeviceInfoError
          else if query_port_err E \<noteq> 0 then give_up dev [Comp_channel, Pd] (clean_from Pd) kDeviceInfoError
          else if depth > depth_limit (max_qp_wr E) then give_up dev [Comp_channel, Pd] (clean_from Pd) kQpError
          else if \<not> create_cq_ok E then give_up dev [Comp_channel, Pd] (clean_from Pd) kCqError
          else if req_notify_err E \<noteq> 0
               then give_up dev [Comp_channel, Pd, Cq] (clean_from Cq) kCompChannelError
          else case reg_mr_keys E of
              None \<Rightarrow> give_up dev [Comp_channel, Pd, Cq] (clean_from Cq) kMrError
            | Some (lkey, rkey) \<Rightarrow>
                case create_qp_num E of
                  None \<Rightarrow> give_up dev [Comp_channel, Pd, Cq, Mr] (clean_from Mr) kQpError
                | Some qpn \<Rightarrow>
                    if modify_init_err E \<noteq> 0
                    then give_up dev [Comp_channel, Pd, Cq, Mr, Qp] (clean_from Qp) kQpError
                    else andThen (new_dest E dev qpn depth) (\<lambda>dest.
                      andThen (RdmaConnection_new L p f name (mem_address E) mem lkey rkey qpn dev dest
                          ((depth + depth) mod 2 ^ 32) mem_num)
                        (\<lambda>c. Inr ([], map Create [Comp_channel, Pd, Cq, Mr, Qp], Inr c))))"

definition RdmaConnection_create ::
  "verbs_lib \<Rightarrow> sysfs \<Rightarrow> create_env \<Rightarrow> string \<Rightarrow> int \<Rightarrow> nat \<Rightarrow> nat \<Rightarrow> rdma_functor EventLoop \<Rightarrow> nat \<Rightarrow> string \<Rightarrow>
    (dev_call list \<times> verb_call list \<times> (RDMAError + RdmaConnection)) res" where
  "RdmaConnection_create v fs E dev_name dev_port mem_size mem_num L p name =
     andThen (DevContext_create v fs dev_name dev_port) (\<lambda>(dlog, dev).
       let mem = total_mem (page_size E) mem_size mem_num in
       if mem > vector_max then Inl Length_error
       else case dev of
           Inl e \<Rightarrow> Inr (dlog, [], Inl e)
         | Inr d \<Rightarrow> andThen (RdmaConnection_create_on E d L p name mem mem_num)
             (\<lambda>(dlog', vlog, r). Inr (dlog @ dlog', vlog, r)))"

text \<open>The destructor gives back the objects in the order qp, cq, mr, pd, channel.\<close>

definition RdmaConnection_destroy :: "RdmaConnection \<Rightarrow> verb_call list \<times> dev_call list" where
  "RdmaConnection_destroy c = (map Destroy [Qp, Cq, Mr, Pd, Comp_channel], DevContext_destroy (dev_ctx c))"

section \<open>Posting work\<close>

text \<open>\<open>errnum\<close> is the outcome of \<open>ibv_post_send\<close> or \<open>ibv_post_recv\<close>.\<close>

definition RdmaConnection_postSend :: "RdmaConnection \<Rightarrow> send_wr \<Rightarrow> int \<Rightarrow> RDMAError \<times> RdmaConnection" where
  "RdmaConnection_postSend c w errnum =
     (if errnum \<noteq> 0 then (kQpError, c) else (kSuccess, c\<lparr>sq := sq c @ [w]\<rparr>))"

definition RdmaConnection_postRecv :: "RdmaConnection \<Rightarrow> nat \<Rightarrow> int \<Rightarrow> (RDMAError \<times> RdmaConnection) res" where
  "RdmaConnection_postRecv c i errnum =
     andThen (the_bufpair c i) (\<lambda>b.
       Inr (if errnum \<noteq> 0 then (kQpError, c) else (kSuccess, c\<lparr>rq := rq c @ [i]\<rparr>)))"

fun post_from :: "RdmaConnection \<Rightarrow> nat list \<Rightarrow> (nat \<Rightarrow> int) \<Rightarrow> (RDMAError \<times> RdmaConnection) res" where
  "post_from c [] err = Inr (kSuccess, c)"
| "post_from c (i # is) err =
     andThen (RdmaConnection_postRecv c i (err i)) (\<lambda>(e, c').
       if e \<noteq> kSuccess then Inr (e, c') else post_from c' is err)"

definition RdmaConnection_fillRq :: "RdmaConnection \<Rightarrow> (nat \<Rightarrow> int) \<Rightarrow> (RDMAError \<times> RdmaConnection) res" where
  "RdmaConnection_fillRq c err = post_from c [0..<length (bufpairs c)] err"

text \<open>\<open>rtr\<close> and \<open>rts\<close> are the outcomes of the two calls of \<open>ibv_modify_qp\<close>.\<close>

definition RdmaConnection_connectQp ::
  "RdmaConnection \<Rightarrow> RdmaExchangeInfo \<Rightarrow> int \<Rightarrow> (nat \<Rightarrow> int) \<Rightarrow> int \<Rightarrow> (RDMAError \<times> RdmaConnection) res" where
  "RdmaConnection_connectQp c remote rtr err rts =
     (if rtr \<noteq> 0 then Inr (kQpError, c)
      else andThen (RdmaConnection_fillRq (c\<lparr>qp_state := IBV_QPS_RTR, qp_peer := Some remote\<rparr>) err)
        (\<lambda>(e, c1).
          if e \<noteq> kSuccess then Inr (e, c1)
          else if rts \<noteq> 0 then Inr (kQpError, c1)
          else Inr (kSuccess, c1\<lparr>qp_state := IBV_QPS_RTS, remote_mem := xi_recv_addr remote,
                  remote_len := xi_recv_len remote, remote_rkey := xi_recv_rkey remote\<rparr>)))"

text \<open>A disconnected connection only logs before it posts.\<close>

definition RdmaConnection_sendInLoop :: "RdmaConnection \<Rightarrow> send_wr \<Rightarrow> int \<Rightarrow> RDMAError \<times> RdmaConnection" where
  "RdmaConnection_sendInLoop c w errnum = RdmaConnection_postSend c w errnum"

definition RdmaConnection_send :: "bool \<Rightarrow> RdmaConnection \<Rightarrow> send_wr \<Rightarrow> int \<Rightarrow> RdmaConnection" where
  "RdmaConnection_send inLoop c w errnum =
     (if inLoop then snd (RdmaConnection_sendInLoop c w errnum)
      else c\<lparr>rc_loop := EventLoop_queueInLoop False (rc_loop c) (Rdma_sendInLoop w)\<rparr>)"

section \<open>Connection life cycle\<close>

definition rc_on_loop ::
  "(rdma_functor EventLoop \<Rightarrow> nat \<Rightarrow> rdma_functor EventLoop res) \<Rightarrow> RdmaConnection \<Rightarrow> RdmaConnection res" where
  "rc_on_loop f c = andThen (f (rc_loop c) (rc_channel c)) (\<lambda>L. Inr (c\<lparr>rc_loop := L\<rparr>))"

definition RdmaConnection_connectEstablished :: "RdmaConnection \<Rightarrow> RdmaConnection res" where
  "RdmaConnection_connectEstablished c =
     asserting (rc_state c = RC_kConnecting)
       (andThen (deref_channel (chan_store (rc_loop c)) (rc_channel c)) (\<lambda>ch.
         rc_on_loop Channel_enableNoPriorityReading
           (c\<lparr>rc_state := RC_kConnected, rc_loop := (rc_loop c)\<lparr>chan_store :=
              (chan_store (rc_loop c))(rc_channel c \<mapsto> Channel_tie ch)\<rparr>\<rparr>)))"

definition RdmaConnection_connectDestroyed ::
  "'a rdma_user \<Rightarrow> 'a \<times> RdmaConnection \<Rightarrow> ('a \<times> RdmaConnection) res" where
  "RdmaConnection_connectDestroyed user ac =
     (case ac of (a, c) \<Rightarrow>
       andThen
         (if rc_state c = RC_kConnected
          then andThen (rc_on_loop Channel_disableAll (c\<lparr>rc_state := RC_kDisconnected\<rparr>)) (\<lambda>c1.
            user Disconnected (a, c1))
          else Inr (a, c))
         (\<lambda>(a, c1). andThen (rc_on_loop Channel_remove c1) (\<lambda>c2. Inr (a, c2))))"

section \<open>Completions\<close>

text \<open>
  One completion, with the outcome of the \<open>ibv_post_recv\<close> it may cause. The buffer is posted
  again before the callback sees it.
\<close>

definition RdmaConnection_handle_wc ::
  "'a rdma_user \<Rightarrow> 'a \<times> RdmaConnection \<Rightarrow> ibv_wc \<times> int \<Rightarrow> ('a \<times> RdmaConnection) res" where
  "RdmaConnection_handle_wc user ac we =
     (case (ac, we) of ((a, c), (wc, errnum)) \<Rightarrow>
       if \<not> wc_success wc
       then andThen
           (case wc_op wc of
              IBV_WC_SEND \<Rightarrow> user (Send_fail wc) (a, c)
            | IBV_WC_RECV \<Rightarrow> user (Recv_fail wc) (a, c)
            | IBV_WC_other \<Rightarrow> Inr (a, c))
           (\<lambda>_. Inl Terminated)
       else case wc_op wc of
           IBV_WC_SEND \<Rightarrow> user (Send_success wc) (a, c)
         | IBV_WC_RECV \<Rightarrow>
             andThen (RdmaConnection_postRecv c (wr_id wc) errnum) (\<lambda>(e, c1).
               andThen (the_bufpair c1 (wr_id wc)) (\<lambda>b.
                 user (Recv_success (recv_header b) (byte_len wc) wc) (a, c1)))
         | IBV_WC_other \<Rightarrow> Inr (a, c))"

text \<open>
  \<open>handleRead\<close>: taking the event and acknowledging every tenth, then polling until a poll
  gives nothing. \<open>polls\<close> are the batches \<open>ibv_poll_cq\<close> returns; past the end it returns 0.
\<close>

datatype poll_result = Polled "(ibv_wc \<times> int) list" | Poll_error

definition RdmaConnection_count_event :: "RdmaConnection \<Rightarrow> RdmaConnection" where
  "RdmaConnection_count_event c =
     (if unack_cq_events c + 1 = kUnackCqEventThreshold
      then c\<lparr>cq_acked := cq_acked c + nat (unack_cq_events c + 1), unack_cq_events := 0\<rparr>
      else c\<lparr>unack_cq_events := unack_cq_events c + 1\<rparr>)"

fun RdmaConnection_poll_loop ::
  "'a rdma_user \<Rightarrow> 'a \<times> RdmaConnection \<Rightarrow> poll_result list \<Rightarrow> ('a \<times> RdmaConnection) res" where
  "RdmaConnection_poll_loop user ac [] = Inr ac"
| "RdmaConnection_poll_loop user ac (Poll_error # ps) = Inl Terminated"
| "RdmaConnection_poll_loop user ac (Polled wcs # ps) =
     andThen (run_all (RdmaConnection_handle_wc user) ac wcs) (\<lambda>ac'.
       if wcs = [] then Inr ac' else RdmaConnection_poll_loop user ac' ps)"

definition RdmaConnection_handleRead ::
  "'a rdma_user \<Rightarrow> 'a \<times> RdmaConnection \<Rightarrow> bool \<Rightarrow> int \<Rightarrow> int \<Rightarrow> poll_result list \<Rightarrow>
    ('a \<times> RdmaConnection) res" where
  "RdmaConnection_handleRead user ac same_cq get_err notify_err polls =
     asserting same_cq
       (case ac of (a, c) \<Rightarrow>
         if get_err \<noteq> 0 then Inr (a, c)
         else let c1 = RdmaConnection_count_event c in
           if notify_err \<noteq> 0 then Inr (a, c1) else RdmaConnection_poll_loop user (a, c1) polls)"

section \<open>The memory of a connection\<close>

interpretation send_pool: id_pool pool_front pool_back "\<lambda>q. q"
  by unfold_locales (auto simp: pool_front_def pool_back_def split: list.splits)

lemma lay_bufpairs_length [simp]: "length (lay_bufpairs n len s r) = n"
  by (induction n len s r rule: lay_bufpairs.induct) simp_all

lemma lay_bufpairs_nth:
  assumes "2 * len < 2 ^ 32" and "s + 2 * len * n < 2 ^ 64" and "r = s + len" and "i < n"
  shows "lay_bufpairs n len s r ! i = \<lparr>send_header = s + 2 * len * i, send_cap = len,
           recv_header = s + 2 * len * i + len, recv_cap = len\<rparr>"
  using assms
proof (induction n arbitrary: s r i)
  case (Suc n)
  show ?case
  proof (cases i)
    case (Suc j)
    let ?s = "s + 2 * len"
    have "2 * len * Suc n = 2 * len + 2 * len * n" by simp
    then have b: "?s + 2 * len * n < 2 ^ 64" using Suc.prems(2) by simp
    have "0 < n" using Suc Suc.prems(4) by simp
    then have "len \<le> 2 * len * n" by simp
    then have "?s + len < 2 ^ 64" using b by linarith
    moreover have "(len * 2) mod 2 ^ 32 = 2 * len" using Suc.prems(1) by (simp add: mult.commute)
    ultimately have w: "(s + (len * 2) mod 2 ^ 32) mod 2 ^ 64 = ?s"
      "(r + (len * 2) mod 2 ^ 32) mod 2 ^ 64 = ?s + len"
      using Suc.prems(3) by (simp_all add: algebra_simps)
    have "lay_bufpairs (Suc n) len s r ! i = lay_bufpairs n len ?s (?s + len) ! j"
      unfolding lay_bufpairs.simps w using Suc by simp
    also have "\<dots> = \<lparr>send_header = ?s + 2 * len * j, send_cap = len,
        recv_header = ?s + 2 * len * j + len, recv_cap = len\<rparr>"
      using Suc.IH [OF Suc.prems(1) b refl, of j] Suc Suc.prems(4) by simp
    finally show ?thesis using Suc by (simp add: algebra_simps)
  qed (use Suc.prems in simp)
qed simp

definition region :: "nat \<Rightarrow> nat \<Rightarrow> nat set" where
  "region a len = {a..<a + len}"

lemma region_slots:
  fixes len :: nat
  assumes "i \<noteq> j"
  shows "region (s + len * i) len \<inter> region (s + len * j) len = {}"
proof (cases "i < j")
  case True
  then have "len * Suc i \<le> len * j" by (intro mult_le_mono2) simp
  then show ?thesis by (auto simp: region_def)
next
  case False
  with assms have "len * Suc j \<le> len * i" by (intro mult_le_mono2) simp
  then show ?thesis by (auto simp: region_def)
qed

text \<open>
  The layout: slot \<open>2 * i\<close> is the send buffer of pair \<open>i\<close>, slot \<open>2 * i + 1\<close> its receive buffer.
\<close>

definition mem_layout :: "RdmaConnection \<Rightarrow> nat \<Rightarrow> bool" where
  "mem_layout c len \<longleftrightarrow>
     mem_base c + len * (2 * length (bufpairs c)) \<le> mem_base c + mem_total c
     \<and> (\<forall>i < length (bufpairs c). bufpairs c ! i =
          \<lparr>send_header = mem_base c + len * (2 * i), send_cap = len,
           recv_header = mem_base c + len * (2 * i + 1), recv_cap = len\<rparr>)"

definition send_region :: "RdmaConnection \<Rightarrow> nat \<Rightarrow> nat set" where
  "send_region c i = region (send_header (bufpairs c ! i)) (send_cap (bufpairs c ! i))"

definition recv_region :: "RdmaConnection \<Rightarrow> nat \<Rightarrow> nat set" where
  "recv_region c i = region (recv_header (bufpairs c ! i)) (recv_cap (bufpairs c ! i))"

lemma mem_layout_slot:
  assumes "mem_layout c len" and "i < length (bufpairs c)"
  shows "send_region c i = region (mem_base c + len * (2 * i)) len"
    and "recv_region c i = region (mem_base c + len * (2 * i + 1)) len"
    and "k < 2 * length (bufpairs c) \<Longrightarrow>
      region (mem_base c + len * k) len \<subseteq> region (mem_base c) (mem_total c)"
proof -
  show "send_region c i = region (mem_base c + len * (2 * i)) len"
    "recv_region c i = region (mem_base c + len * (2 * i + 1)) len"
    using assms by (simp_all add: mem_layout_def send_region_def recv_region_def)
  assume "k < 2 * length (bufpairs c)"
  then have "len * Suc k \<le> len * (2 * length (bufpairs c))" by (intro mult_le_mono2) simp
  also have "\<dots> \<le> mem_total c" using assms(1) by (simp add: mem_layout_def)
  finally show "region (mem_base c + len * k) len \<subseteq> region (mem_base c) (mem_total c)"
    by (auto simp: region_def)
qed

lemma mem_layout_inside:
  assumes "mem_layout c len" and "i < length (bufpairs c)"
  shows "send_region c i \<subseteq> region (mem_base c) (mem_total c)"
    and "recv_region c i \<subseteq> region (mem_base c) (mem_total c)"
  unfolding mem_layout_slot(1,2) [OF assms]
  by (rule mem_layout_slot(3) [OF assms], use assms(2) in simp)+

lemma mem_layout_disjoint:
  assumes "mem_layout c len" and "i < length (bufpairs c)" and "j < length (bufpairs c)"
  shows "send_region c i \<inter> recv_region c j = {}"
    and "i \<noteq> j \<Longrightarrow> send_region c i \<inter> send_region c j = {}"
    and "i \<noteq> j \<Longrightarrow> recv_region c i \<inter> recv_region c j = {}"
proof -
  note slot = mem_layout_slot(1,2) [OF assms(1,2)] mem_layout_slot(1,2) [OF assms(1,3)]
  have "2 * i \<noteq> 2 * j + 1" by presburger
  then show "send_region c i \<inter> recv_region c j = {}" unfolding slot by (rule region_slots)
  assume "i \<noteq> j"
  then have "2 * i \<noteq> 2 * j" "2 * i + 1 \<noteq> 2 * j + 1" by simp_all
  from region_slots [OF this(1)] region_slots [OF this(2)]
  show "send_region c i \<inter> send_region c j = {}" "recv_region c i \<inter> recv_region c j = {}"
    unfolding slot by blast+
qed

lemma RdmaConnection_new_ok:
  assumes "RdmaConnection_new L p f name base mem lkey rkey qpn dev dest cap n = Inr c"
    and "mem = len * n * 2" and "len < 2 ^ 31" and "base + mem < 2 ^ 64"
  shows "mem_layout c len" and "length (bufpairs c) = n" and "0 < n"
    and "free_bufpairs c = [0..<n]" and "mem_base c = base" and "mem_total c = mem"
    and "rc_state c = RC_kConnecting" and "rq c = []" and "unack_cq_events c = 0"
    and "qp_state c = IBV_QPS_INIT" and "dev_ctx c = dev"
proof -
  have n: "0 < n" using assms(1) by (simp add: RdmaConnection_new_def res_simps)
  have "mem div (2 * n) = len" using assms(2) n by (simp add: mult.assoc)
  then have l: "(mem div (2 * n)) mod 2 ^ 32 = len" using assms(3) by simp
  have b: "base + 2 * len * n < 2 ^ 64" using assms(2,4) by (simp add: algebra_simps)
  have "len \<le> 2 * len * n" using n by simp
  then have "base + len < 2 ^ 64" using b by linarith
  then have r: "(base + len) mod 2 ^ 64 = base + len" by (rule mod_less)
  note c = assms(1) [unfolded RdmaConnection_new_def Let_def l r, unfolded res_simps, THEN conjunct2]
  show "length (bufpairs c) = n" "0 < n" "free_bufpairs c = [0..<n]" "mem_base c = base"
    "mem_total c = mem" "rc_state c = RC_kConnecting" "rq c = []" "unack_cq_events c = 0"
    "qp_state c = IBV_QPS_INIT" "dev_ctx c = dev"
    using n c by auto
  have "bufpairs c ! i = \<lparr>send_header = base + len * (2 * i), send_cap = len,
      recv_header = base + len * (2 * i + 1), recv_cap = len\<rparr>" if "i < n" for i
    using lay_bufpairs_nth [OF _ b refl that] assms(3) c by (auto simp: algebra_simps)
  then show "mem_layout c len" using c assms(2) by (auto simp: mem_layout_def algebra_simps)
qed

lemma round_to_page_ge:
  assumes "0 < page" and "page * (m div page + 1) < 2 ^ 64"
  shows "m \<le> round_to_page page m" and "round_to_page page m mod page = 0"
  using assms by (simp_all add: round_to_page_def dividend_less_times_div less_imp_le algebra_simps)

lemma create_on_new:
  assumes "RdmaConnection_create_on E dev L p name mem n = Inr (dlog, vlog, Inr c)"
  obtains f lkey rkey qpn dest cap where "comp_channel_fd E = Some f"
    and "RdmaConnection_new L p f name (mem_address E) mem lkey rkey qpn dev dest cap n = Inr c"
    and "vlog = map Create [Comp_channel, Pd, Cq, Mr, Qp]" and "dlog = []"
  using assms
  by (auto simp: RdmaConnection_create_on_def give_up_def res_simps Let_def
      split: option.splits if_splits prod.splits)

lemma create_on_failed:
  assumes "RdmaConnection_create_on E dev L p name mem n = Inr (dlog, vlog, Inl e)"
  shows "dlog = DevContext_destroy dev
    \<and> (\<exists>k. vlog = map Create (take k [Comp_channel, Pd, Cq, Mr, Qp])
          @ map Destroy (rev (take k [Comp_channel, Pd, Cq, Mr, Qp])))"
proof -
  let ?all = "[Comp_channel, Pd, Cq, Mr, Qp]"
  have "dlog = DevContext_destroy dev \<and> (\<exists>k \<in> {0, 1, 2, 3, 4, 5}. vlog = map Create (take k ?all)
          @ map Destroy (rev (take k ?all)))"
    using assms
    by (auto simp: RdmaConnection_create_on_def give_up_def res_simps Let_def clean_from_def
      split: option.splits if_splits prod.splits)
  then show ?thesis by blast
qed

lemma created_layout:
  assumes "RdmaConnection_create v fs E dn dp mem_size n L p name = Inr (dlog, vlog, Inr c)"
    and "0 < page_size E" and "mem_size + page_size E < 2 ^ 31"
    and "mem_address E + (mem_size + page_size E) * n * 2 < 2 ^ 64"
  obtains len where "mem_layout c len" and "length (bufpairs c) = n" and "0 < n"
    and "free_bufpairs c = [0..<n]" and "mem_size \<le> len"
proof -
  let ?len = "round_to_page (page_size E) mem_size"
  have up: "page_size E * (mem_size div page_size E + 1) \<le> mem_size + page_size E"
    by (simp add: algebra_simps)
  also have "\<dots> < 2 ^ 64" using assms(3) by simp
  finally have up64: "page_size E * (mem_size div page_size E + 1) < 2 ^ 64" .
  then have len: "?len \<le> mem_size + page_size E" "mem_size \<le> ?len"
    using up round_to_page_ge [OF assms(2) up64] by (auto simp: round_to_page_def)
  have le: "?len * n * 2 \<le> (mem_size + page_size E) * n * 2" using len by simp
  then have tot: "total_mem (page_size E) mem_size n = ?len * n * 2"
    using assms(4) unfolding total_mem_def by (intro mod_less) linarith
  from assms(1) obtain dev dlog' where
    "RdmaConnection_create_on E dev L p name (total_mem (page_size E) mem_size n) n = Inr (dlog', vlog, Inr c)"
    by (auto simp: RdmaConnection_create_def res_simps Let_def split: if_splits sum.splits prod.splits)
  then obtain f lkey rkey qpn dest cap where
    new: "RdmaConnection_new L p f name (mem_address E) (?len * n * 2) lkey rkey qpn dev dest cap n = Inr c"
    unfolding tot by (rule create_on_new)
  have "?len < 2 ^ 31" "mem_address E + ?len * n * 2 < 2 ^ 64" using len assms(3,4) le by linarith+
  note c = RdmaConnection_new_ok [OF new refl this]
  show ?thesis by (rule that [OF c(1-4) len(2)])
qed

lemma acquired_cap:
  assumes "mem_layout c len" and "RdmaConnection_acquireFreeSendBuf c = Inr (Some b, c')"
  shows "sb_cap b = len"
  using assms
  by (auto simp: RdmaConnection_acquireFreeSendBuf_def the_bufpair_def mem_layout_def res_simps
      split: option.splits)

section \<open>Users of the send buffers\<close>

text \<open>
  The user of a connection takes a send buffer and gives back one it holds. \<open>held\<close> are the ids
  it holds.
\<close>

datatype pool_cmd = Acquire | Release nat

fun pool_exec :: "RdmaConnection \<times> nat list \<Rightarrow> pool_cmd \<Rightarrow> (RdmaConnection \<times> nat list) res" where
  "pool_exec (c, held) Acquire =
     andThen (RdmaConnection_acquireFreeSendBuf c) (\<lambda>(b, c').
       Inr (c', case b of None \<Rightarrow> held | Some b \<Rightarrow> held @ [sb_id b]))"
| "pool_exec (c, held) (Release i) =
     (if i \<in> set held then Inr (RdmaConnection_releaseSendBuf c i, remove1 i held) else Inr (c, held))"

definition pool_ok :: "RdmaConnection \<times> nat list \<Rightarrow> bool" where
  "pool_ok = (\<lambda>(c, held). pool_split (length (bufpairs c)) (free_bufpairs c) held)"

lemma acquireFreeSendBuf_ok:
  assumes "pool_split (length (bufpairs c)) (free_bufpairs c) held"
  shows "if length held = length (bufpairs c) then RdmaConnection_acquireFreeSendBuf c = Inr (None, c)
    else \<exists>b c'. RdmaConnection_acquireFreeSendBuf c = Inr (Some b, c') \<and> sb_id b \<notin> set held
      \<and> sb_id b < length (bufpairs c) \<and> region (sb_addr b) (sb_cap b) = send_region c (sb_id b)
      \<and> bufpairs c' = bufpairs c \<and> rq c' = rq c \<and> sq c' = sq c
      \<and> free_bufpairs c = sb_id b # free_bufpairs c'
      \<and> pool_split (length (bufpairs c')) (free_bufpairs c') (held @ [sb_id b])"
proof (cases "free_bufpairs c")
  case Nil
  then show ?thesis
    using pool_split_length [OF assms] by (simp add: RdmaConnection_acquireFreeSendBuf_def pool_front_def)
next
  case (Cons i r)
  have "pool_front (free_bufpairs c) = Some (i, r)" using Cons by (simp add: pool_front_def)
  note split = send_pool.acquire_split [OF assms this]
  show ?thesis
    using Cons split pool_split_length [OF assms]
    by (simp add: RdmaConnection_acquireFreeSendBuf_def pool_front_def the_bufpair_def send_region_def)
qed

lemma pool_exec_ok:
  assumes "pool_ok (c, held)"
  obtains c' held' where "pool_exec (c, held) cmd = Inr (c', held')" and "pool_ok (c', held')"
    and "bufpairs c' = bufpairs c"
proof (cases cmd)
  case Acquire
  have split: "pool_split (length (bufpairs c)) (free_bufpairs c) held" using assms by (simp add: pool_ok_def)
  show ?thesis
  proof (cases "length held = length (bufpairs c)")
    case True
    with acquireFreeSendBuf_ok [OF split] Acquire assms show ?thesis by (intro that [of c held]) auto
  next
    case False
    with acquireFreeSendBuf_ok [OF split] obtain b c' where
      "RdmaConnection_acquireFreeSendBuf c = Inr (Some b, c')" "bufpairs c' = bufpairs c"
      "pool_split (length (bufpairs c')) (free_bufpairs c') (held @ [sb_id b])" by auto
    with Acquire show ?thesis by (intro that [of c' "held @ [sb_id b]"]) (simp_all add: pool_ok_def)
  qed
next
  case (Release i)
  show ?thesis
  proof (cases "i \<in> set held")
    case True
    then have "pool_split (length (bufpairs c)) (free_bufpairs c) (i # remove1 i held)"
      using assms by (simp add: pool_ok_def pool_split_def)
    from send_pool.release_split [OF this] True Release show ?thesis
      by (intro that [of "RdmaConnection_releaseSendBuf c i" "remove1 i held"])
         (simp_all add: pool_ok_def RdmaConnection_releaseSendBuf_def)
  qed (use assms Release in \<open>intro that [of c held]; simp\<close>)
qed

lemma pool_exec_ends:
  "pool_exec (c, h) cmd = Inr (c', h') \<Longrightarrow> mem_base c' = mem_base c \<and> mem_total c' = mem_total c"
  by (cases cmd) (auto simp: RdmaConnection_acquireFreeSendBuf_def RdmaConnection_releaseSendBuf_def
      res_simps split: option.splits if_splits)

lemma pool_run_ok:
  assumes "pool_ok (c, held)"
  obtains c' held' where "run_all pool_exec (c, held) cmds = Inr (c', held')" and "pool_ok (c', held')"
    and "bufpairs c' = bufpairs c"
  using assms
proof (induction cmds arbitrary: c held thesis)
  case Nil
  then show ?case by simp
next
  case (Cons cmd cmds)
  obtain c1 held1 where 1: "pool_exec (c, held) cmd = Inr (c1, held1)" "pool_ok (c1, held1)"
    "bufpairs c1 = bufpairs c" by (rule pool_exec_ok [OF Cons.prems(2)])
  obtain c2 held2 where "run_all pool_exec (c1, held1) cmds = Inr (c2, held2)" "pool_ok (c2, held2)"
    "bufpairs c2 = bufpairs c1" by (rule Cons.IH [OF _ 1(2)])
  with 1 Cons.prems(1) show ?case by simp
qed

section \<open>The completion queue and its handler\<close>

text \<open>
  The handler with the network card. The card takes the oldest posted receive for a message
  that arrives, puts completions into the queue \<open>cq\<close>, and, when the queue is armed, puts an
  event into the completion channel and disarms it: that is how the verbs manual describes
  \<open>ibv_req_notify_cq\<close>. The handler runs its statements one at a time: it waits for the channel to
  be readable, takes an event, arms the queue, and then alternates between polling a batch and
  handling the completions of the batch, until a poll gives none. The verbs calls of the handler
  may fail: without an event it returns (\<open>no_event\<close>), without the notification it returns with
  the queue not armed (\<open>arm_fails\<close>), and a receive buffer that cannot be posted again is only
  logged (\<open>err\<close> in \<open>handle\<close>); a completion that is not a success ends the process.
  \<open>arrived\<close> and \<open>handled\<close> record the completions, \<open>unposted\<close> the receive buffers whose posting
  failed, and \<open>unarmed\<close> whether a notification did.
\<close>

datatype handler_pc = CQ_waiting | CQ_got_event | CQ_polling

record 'a cq_system =
  conn :: RdmaConnection
  app :: 'a
  cq :: "ibv_wc list"
  armed :: bool
  ch_events :: nat
  hpc :: handler_pc
  polled :: "ibv_wc list"
  arrived :: "ibv_wc list"
  handled :: "ibv_wc list"
  unposted :: "nat list"
  unarmed :: bool

definition complete :: "'a cq_system \<Rightarrow> ibv_wc \<Rightarrow> 'a cq_system" where
  "complete S w = S\<lparr>cq := cq S @ [w], arrived := arrived S @ [w],
     ch_events := (if armed S then ch_events S + 1 else ch_events S), armed := False\<rparr>"

text \<open>
  What is asked of the user: the callbacks for successful completions return, and they touch
  neither the receive queue nor the buffer table. They may send, take and give back buffers.
\<close>

definition rdma_user_ok :: "'a rdma_user \<Rightarrow> bool" where
  "rdma_user_ok user \<longleftrightarrow>
     (\<forall>a c call. (\<exists>w n m. call = Send_success w \<or> call = Recv_success n m w) \<longrightarrow>
       (\<exists>a' c'. user call (a, c) = Inr (a', c') \<and> rq c' = rq c \<and> bufpairs c' = bufpairs c
          \<and> unack_cq_events c' = unack_cq_events c))"

definition failed_posts :: "(ibv_wc \<times> int) list \<Rightarrow> nat list" where
  "failed_posts wes = map (\<lambda>(w, e). wr_id w) (filter (\<lambda>(w, e). wc_op w = IBV_WC_RECV \<and> e \<noteq> 0) wes)"

inductive cq_step :: "'a cq_system \<Rightarrow> 'a cq_system \<Rightarrow> bool" where
  message_arrives: "rq (conn S) = i # r \<Longrightarrow>
    cq_step S (complete (S\<lparr>conn := (conn S)\<lparr>rq := r\<rparr>\<rparr>)
      \<lparr>wr_id = i, wc_success = True, wc_op = IBV_WC_RECV, byte_len = n\<rparr>)"
| send_completes: "
    cq_step S (complete S \<lparr>wr_id = i, wc_success = True, wc_op = IBV_WC_SEND, byte_len = n\<rparr>)"
| take_event: "hpc S = CQ_waiting \<Longrightarrow> 0 < ch_events S \<Longrightarrow>
    cq_step S (S\<lparr>hpc := CQ_got_event, ch_events := ch_events S - 1,
      conn := RdmaConnection_count_event (conn S)\<rparr>)"
| no_event: "hpc S = CQ_waiting \<Longrightarrow> cq_step S S"
| arm_fails: "hpc S = CQ_got_event \<Longrightarrow> cq_step S (S\<lparr>hpc := CQ_waiting, unarmed := True\<rparr>)"
| arm: "hpc S = CQ_got_event \<Longrightarrow> cq_step S (S\<lparr>hpc := CQ_polling, armed := True\<rparr>)"
| poll: "hpc S = CQ_polling \<Longrightarrow> polled S = [] \<Longrightarrow> 0 < k \<Longrightarrow> k \<le> length (cq S) \<Longrightarrow>
    cq_step S (S\<lparr>polled := take k (cq S), cq := drop k (cq S)\<rparr>)"
| handle: "hpc S = CQ_polling \<Longrightarrow> polled S = w # ws \<Longrightarrow> rdma_user_ok user \<Longrightarrow>
    RdmaConnection_handle_wc user (app S, conn S) (w, err) = Inr (a', c') \<Longrightarrow>
    cq_step S (S\<lparr>polled := ws, handled := handled S @ [w], app := a', conn := c',
      unposted := unposted S @ failed_posts [(w, err)]\<rparr>)"
| poll_none: "hpc S = CQ_polling \<Longrightarrow> polled S = [] \<Longrightarrow> cq S = [] \<Longrightarrow> cq_step S (S\<lparr>hpc := CQ_waiting\<rparr>)"

text \<open>The handler starts on a connection whose queue pair has just been connected.\<close>

definition cq_init :: "'a cq_system \<Rightarrow> bool" where
  "cq_init S \<longleftrightarrow> (\<exists>c remote. rq c = [] \<and> unack_cq_events c = 0
     \<and> RdmaConnection_connectQp c remote 0 (\<lambda>_. 0) 0 = Inr (kSuccess, conn S))
     \<and> cq S = [] \<and> armed S \<and> ch_events S = 0 \<and> hpc S = CQ_waiting \<and> polled S = [] \<and> arrived S = []
     \<and> handled S = [] \<and> unposted S = [] \<and> \<not> unarmed S"

definition recv_ids :: "ibv_wc list \<Rightarrow> nat list" where
  "recv_ids ws = map wr_id (filter (\<lambda>w. wc_op w = IBV_WC_RECV) ws)"

lemma recv_ids_simps [simp]:
  "recv_ids [] = []" "recv_ids (xs @ ys) = recv_ids xs @ recv_ids ys"
  "recv_ids (w # ws) = (if wc_op w = IBV_WC_RECV then wr_id w # recv_ids ws else recv_ids ws)"
  by (simp_all add: recv_ids_def)

definition good_wc :: "ibv_wc \<Rightarrow> bool" where
  "good_wc w \<longleftrightarrow> wc_success w \<and> wc_op w \<noteq> IBV_WC_other"

definition cq_inv :: "'a cq_system \<Rightarrow> bool" where
  "cq_inv S \<longleftrightarrow>
     pool_split (length (bufpairs (conn S))) (rq (conn S)) (recv_ids (polled S @ cq S) @ unposted S)
     \<and> handled S @ polled S @ cq S = arrived S
     \<and> list_all good_wc (polled S @ cq S)
     \<and> 0 \<le> unack_cq_events (conn S) \<and> unack_cq_events (conn S) < kUnackCqEventThreshold
     \<and> (hpc S \<noteq> CQ_polling \<longrightarrow> polled S = [])
     \<and> (\<not> unarmed S \<and> hpc S \<noteq> CQ_got_event \<longrightarrow> armed S \<or> 0 < ch_events S)
     \<and> (\<not> unarmed S \<and> hpc S = CQ_waiting \<and> cq S \<noteq> [] \<longrightarrow> 0 < ch_events S)"

lemma post_from_ok:
  assumes "\<forall>i\<in>set is. i < length (bufpairs c)"
  shows "post_from c is (\<lambda>_. 0) = Inr (kSuccess, c\<lparr>rq := rq c @ is\<rparr>)"
  using assms by (induction "is" arbitrary: c) (simp_all add: RdmaConnection_postRecv_def the_bufpair_def)

lemma connectQp_ok:
  "RdmaConnection_connectQp c remote 0 (\<lambda>_. 0) 0 = Inr (kSuccess,
     c\<lparr>qp_state := IBV_QPS_RTS, qp_peer := Some remote, rq := rq c @ [0..<length (bufpairs c)],
       remote_mem := xi_recv_addr remote, remote_len := xi_recv_len remote,
       remote_rkey := xi_recv_rkey remote\<rparr>)"
  by (simp add: RdmaConnection_connectQp_def RdmaConnection_fillRq_def post_from_ok)

lemma failed_posts_simps [simp]:
  "failed_posts [] = []" "failed_posts (xs @ ys) = failed_posts xs @ failed_posts ys"
  "failed_posts ((w, e) # wes) =
     (if wc_op w = IBV_WC_RECV \<and> e \<noteq> 0 then wr_id w # failed_posts wes else failed_posts wes)"
  by (simp_all add: failed_posts_def)

text \<open>A handled receive is posted again, or its buffer is one whose posting failed.\<close>

lemma handle_wc_ok:
  assumes "rdma_user_ok user" and "good_wc w" and "wc_op w = IBV_WC_RECV \<Longrightarrow> wr_id w < length (bufpairs c)"
  obtains a' c' r where "RdmaConnection_handle_wc user (a, c) (w, err) = Inr (a', c')"
    and "rq c' = rq c @ r" and "recv_ids [w] = r @ failed_posts [(w, err)]" and "bufpairs c' = bufpairs c"
    and "unack_cq_events c' = unack_cq_events c"
proof (cases "wc_op w")
  case IBV_WC_SEND
  from assms(1) obtain a' c' where "user (Send_success w) (a, c) = Inr (a', c')" "rq c' = rq c"
    "bufpairs c' = bufpairs c" "unack_cq_events c' = unack_cq_events c"
    unfolding rdma_user_ok_def by blast
  with IBV_WC_SEND assms(2) show ?thesis
    by (intro that [of a' c' "[]"]) (simp_all add: RdmaConnection_handle_wc_def good_wc_def)
next
  case IBV_WC_RECV
  let ?r = "if err = 0 then [wr_id w] else []"
  let ?c = "c\<lparr>rq := rq c @ ?r\<rparr>"
  let ?call = "Recv_success (recv_header (bufpairs c ! wr_id w)) (byte_len w) w"
  from assms(1) obtain a' c' where "user ?call (a, ?c) = Inr (a', c')" "rq c' = rq ?c"
    "bufpairs c' = bufpairs ?c" "unack_cq_events c' = unack_cq_events ?c"
    unfolding rdma_user_ok_def by blast
  with IBV_WC_RECV assms(2,3) show ?thesis
    by (intro that [of a' c' ?r])
       (simp_all add: RdmaConnection_handle_wc_def good_wc_def RdmaConnection_postRecv_def the_bufpair_def
         split: if_splits)
qed (use assms(2) in \<open>simp add: good_wc_def\<close>)

lemma cq_inv_complete:
  assumes "cq_inv S" and "good_wc w" and "rq (conn S) = recv_ids [w] @ r"
  shows "cq_inv (complete (S\<lparr>conn := (conn S)\<lparr>rq := r\<rparr>\<rparr>) w)"
  using assms by (auto simp: cq_inv_def complete_def pool_split_def)

lemma cq_inv_handle:
  assumes "cq_inv S" and "hpc S = CQ_polling" and "polled S = w # ws" and "rdma_user_ok user"
  obtains a' c' where "RdmaConnection_handle_wc user (app S, conn S) (w, err) = Inr (a', c')"
    and "cq_inv (S\<lparr>polled := ws, handled := handled S @ [w], app := a', conn := c',
      unposted := unposted S @ failed_posts [(w, err)]\<rparr>)"
proof -
  let ?n = "length (bufpairs (conn S))"
  have "recv_ids (polled S @ cq S) @ unposted S = recv_ids [w] @ recv_ids (ws @ cq S) @ unposted S"
    using assms(3) by simp
  then have split: "pool_split ?n (rq (conn S)) (recv_ids [w] @ recv_ids (ws @ cq S) @ unposted S)"
    and good: "good_wc w"
    using assms(1,3) by (auto simp: cq_inv_def)
  have "wr_id w < ?n" if "wc_op w = IBV_WC_RECV"
    using pool_split_bound [OF split] that by simp
  from handle_wc_ok [OF assms(4) good this, where a = "app S" and err = err] obtain a' c' r where
    r: "RdmaConnection_handle_wc user (app S, conn S) (w, err) = Inr (a', c')"
      "rq c' = rq (conn S) @ r" "recv_ids [w] = r @ failed_posts [(w, err)]"
      "bufpairs c' = bufpairs (conn S)" "unack_cq_events c' = unack_cq_events (conn S)" by blast
  have "pool_split ?n (rq c') (recv_ids (ws @ cq S) @ unposted S @ failed_posts [(w, err)])"
    using split unfolding r(2,3) pool_split_def by (simp add: ac_simps)
  with assms(1-3) r that [OF r(1)] show ?thesis by (simp add: cq_inv_def del: failed_posts_simps(3))
qed

lemma cq_init_inv:
  assumes "cq_init S"
  shows "cq_inv S"
proof -
  from assms obtain c remote where "rq c = []" "unack_cq_events c = 0"
    "RdmaConnection_connectQp c remote 0 (\<lambda>_. 0) 0 = Inr (kSuccess, conn S)"
    by (auto simp: cq_init_def)
  then have "rq (conn S) = [0..<length (bufpairs (conn S))]" "unack_cq_events (conn S) = 0"
    by (auto simp: connectQp_ok dest!: sym [of _ "conn S"])
  then have "pool_split (length (bufpairs (conn S))) (rq (conn S)) (recv_ids [])"
    using pool_split_init by simp
  with assms \<open>unack_cq_events (conn S) = 0\<close> show ?thesis
    by (simp add: cq_init_def cq_inv_def kUnackCqEventThreshold_def)
qed

lemma cq_step_inv:
  assumes "cq_inv S" and "cq_step S S'"
  shows "cq_inv S'"
  using assms(2)
proof (cases rule: cq_step.cases)
  case (message_arrives i r n)
  then show ?thesis using cq_inv_complete [OF assms(1)] by (simp add: good_wc_def)
next
  case (send_completes i n)
  have "S = S\<lparr>conn := (conn S)\<lparr>rq := rq (conn S)\<rparr>\<rparr>" by simp
  with cq_inv_complete [OF assms(1), of \<open>\<lparr>wr_id = i, wc_success = True, wc_op = IBV_WC_SEND, byte_len = n\<rparr>\<close>]
  show ?thesis using send_completes by (simp add: good_wc_def)
next
  case take_event
  then show ?thesis
    using assms(1) by (auto simp: cq_inv_def RdmaConnection_count_event_def kUnackCqEventThreshold_def)
next
  case no_event
  then show ?thesis using assms(1) by simp
next
  case arm_fails
  then show ?thesis using assms(1) by (auto simp: cq_inv_def)
next
  case arm
  then show ?thesis using assms(1) by (auto simp: cq_inv_def)
next
  case (poll k)
  have "recv_ids (take k (cq S)) @ recv_ids (drop k (cq S)) = recv_ids (cq S)"
    by (metis append_take_drop_id recv_ids_simps(2))
  then have "mset (recv_ids (cq S)) = mset (recv_ids (take k (cq S))) + mset (recv_ids (drop k (cq S)))"
    by (metis mset_append)
  moreover have "list_all good_wc (take k (cq S)) \<and> list_all good_wc (drop k (cq S))"
    using assms(1) poll(3) by (metis append_Nil append_take_drop_id cq_inv_def list_all_append)
  ultimately show ?thesis using assms(1) poll by (simp add: cq_inv_def pool_split_def)
next
  case (handle w ws user err a' c')
  obtain a c where "RdmaConnection_handle_wc user (app S, conn S) (w, err) = Inr (a, c)"
    "cq_inv (S\<lparr>polled := ws, handled := handled S @ [w], app := a, conn := c,
      unposted := unposted S @ failed_posts [(w, err)]\<rparr>)"
    by (rule cq_inv_handle [OF assms(1) handle(2,3,4)])
  with handle(1,5) show ?thesis by simp
next
  case poll_none
  then show ?thesis using assms(1) by (simp add: cq_inv_def)
qed

interpretation cq_sys: invariant_system cq_init cq_step cq_inv
  by unfold_locales (blast intro: cq_init_inv cq_step_inv)+

text \<open>
  Handling a polled batch to its end, undisturbed; \<open>wes\<close> are its completions with the outcomes
  of the calls that post the buffers again.
\<close>

definition batch_done ::
  "'a cq_system \<Rightarrow> (ibv_wc \<times> int) list \<Rightarrow> 'a \<Rightarrow> RdmaConnection \<Rightarrow> 'a cq_system" where
  "batch_done S wes a c = S\<lparr>polled := [], handled := handled S @ map fst wes, app := a, conn := c,
     unposted := unposted S @ failed_posts wes\<rparr>"

lemma batch_done_simps [simp]:
  "polled (batch_done S wes a c) = []" "handled (batch_done S wes a c) = handled S @ map fst wes"
  "app (batch_done S wes a c) = a" "conn (batch_done S wes a c) = c" "cq (batch_done S wes a c) = cq S"
  "unposted (batch_done S wes a c) = unposted S @ failed_posts wes" "armed (batch_done S wes a c) = armed S"
  "hpc (batch_done S wes a c) = hpc S" "arrived (batch_done S wes a c) = arrived S"
  by (simp_all add: batch_done_def)

lemma cq_handle_batch:
  assumes "cq_inv S" and "hpc S = CQ_polling" and "rdma_user_ok user" and "polled S = map fst wes"
  shows "\<exists>a' c'. run_all (RdmaConnection_handle_wc user) (app S, conn S) wes = Inr (a', c')
    \<and> cq_step\<^sup>*\<^sup>* S (batch_done S wes a' c')"
  using assms
proof (induction wes arbitrary: S)
  case Nil
  then have "batch_done S [] (app S) (conn S) = S" by (cases S) (simp add: batch_done_def)
  then show ?case by simp
next
  case (Cons we wes)
  obtain w e where we: "we = (w, e)" by (cases we)
  with Cons.prems(4) have p: "polled S = w # map fst wes" by simp
  obtain a1 c1 where r: "RdmaConnection_handle_wc user (app S, conn S) (w, e) = Inr (a1, c1)"
    and inv: "cq_inv (S\<lparr>polled := map fst wes, handled := handled S @ [w], app := a1, conn := c1,
      unposted := unposted S @ failed_posts [(w, e)]\<rparr>)" (is "cq_inv ?S")
    by (rule cq_inv_handle [OF Cons.prems(1,2) p Cons.prems(3)])
  have step: "cq_step S ?S" by (rule cq_step.handle [OF Cons.prems(2) p Cons.prems(3) r])
  obtain a' c' where "run_all (RdmaConnection_handle_wc user) (a1, c1) wes = Inr (a', c')"
    "cq_step\<^sup>*\<^sup>* ?S (batch_done ?S wes a' c')"
    using Cons.IH [OF inv] Cons.prems(2,3) by auto
  moreover have "batch_done ?S wes a' c' = batch_done S (we # wes) a' c'"
    by (simp add: batch_done_def we)
  ultimately show ?case
    using step r we by (auto intro: converse_rtranclp_into_rtranclp)
qed

text \<open>
  The polling loop from any state in which it polls: whatever batches the polls return, when
  nothing else completes in the meantime it handles them all, in as many polls as it takes and one
  more, and goes back to waiting. Polls after that (\<open>ps\<close>) are not made.
\<close>

definition all_done ::
  "'a cq_system \<Rightarrow> (ibv_wc \<times> int) list \<Rightarrow> 'a \<Rightarrow> RdmaConnection \<Rightarrow> 'a cq_system" where
  "all_done S wes a c = (batch_done S wes a c)\<lparr>cq := [], hpc := CQ_waiting\<rparr>"

lemma all_done_simps [simp]:
  "polled (all_done S wes a c) = []" "handled (all_done S wes a c) = handled S @ map fst wes"
  "app (all_done S wes a c) = a" "conn (all_done S wes a c) = c" "cq (all_done S wes a c) = []"
  "unposted (all_done S wes a c) = unposted S @ failed_posts wes" "armed (all_done S wes a c) = armed S"
  "hpc (all_done S wes a c) = CQ_waiting" "arrived (all_done S wes a c) = arrived S"
  by (simp_all add: all_done_def)

lemma poll_loop_steps:
  assumes "cq_inv S" and "hpc S = CQ_polling" and "polled S = []" and "rdma_user_ok user"
    and "cq S = map fst (concat bs)" and "[] \<notin> set bs"
  shows "\<exists>a c. RdmaConnection_poll_loop user (app S, conn S) (map Polled bs @ Polled [] # ps) = Inr (a, c)
    \<and> cq_step\<^sup>*\<^sup>* S (all_done S (concat bs) a c)"
  using assms
proof (induction bs arbitrary: S)
  case Nil
  then have "all_done S [] (app S) (conn S) = S\<lparr>hpc := CQ_waiting\<rparr>"
    by (cases S) (simp add: all_done_def batch_done_def)
  moreover have "cq_step S (S\<lparr>hpc := CQ_waiting\<rparr>)" using Nil by (intro cq_step.poll_none) simp_all
  ultimately show ?case by auto
next
  case (Cons b bs)
  have b: "b \<noteq> []" "[] \<notin> set bs" using Cons.prems(6) by auto
  let ?S1 = "S\<lparr>polled := map fst b, cq := map fst (concat bs)\<rparr>"
  have "cq_step S (S\<lparr>polled := take (length b) (cq S), cq := drop (length b) (cq S)\<rparr>)"
    by (rule cq_step.poll [OF Cons.prems(2,3)]) (use b(1) Cons.prems(5) in simp_all)
  then have s1: "cq_step S ?S1" using Cons.prems(5) by simp
  then have inv1: "cq_inv ?S1" by (rule cq_step_inv [OF Cons.prems(1)])
  from cq_handle_batch [OF inv1 _ Cons.prems(4), of b] Cons.prems(2) obtain a1 c1 where
    r1: "run_all (RdmaConnection_handle_wc user) (app S, conn S) b = Inr (a1, c1)"
    "cq_step\<^sup>*\<^sup>* ?S1 (batch_done ?S1 b a1 c1)" by auto
  let ?S2 = "batch_done ?S1 b a1 c1"
  have "cq_inv ?S2" by (rule cq_sys.steps_inv [OF r1(2) inv1])
  from Cons.IH [OF this] Cons.prems(2,4) b(2) obtain a c where
    r2: "RdmaConnection_poll_loop user (a1, c1) (map Polled bs @ Polled [] # ps) = Inr (a, c)"
    "cq_step\<^sup>*\<^sup>* ?S2 (all_done ?S2 (concat bs) a c)" by auto
  have "all_done ?S2 (concat bs) a c = all_done S (concat (b # bs)) a c"
    by (simp add: all_done_def batch_done_def)
  then show ?case using s1 r1 r2 b(1) by (auto intro: converse_rtranclp_into_rtranclp rtranclp_trans)
qed

text \<open>The whole handler is a run of the step relation.\<close>

lemma handleRead_steps:
  assumes "cq_inv S" and "hpc S = CQ_waiting" and "0 < ch_events S" and "rdma_user_ok user"
    and "cq S = map fst (concat bs)" and "[] \<notin> set bs"
  obtains a c S1 where
    "RdmaConnection_handleRead user (app S, conn S) True 0 0 (map Polled bs @ Polled [] # ps) = Inr (a, c)"
    and "cq_step\<^sup>*\<^sup>* S (all_done S1 (concat bs) a c)" and "armed S1" and "handled S1 = handled S"
    and "arrived S1 = arrived S" and "unposted S1 = unposted S"
proof -
  have p: "polled S = []" using assms(1,2) by (simp add: cq_inv_def)
  let ?c = "RdmaConnection_count_event (conn S)"
  let ?S1 = "S\<lparr>hpc := CQ_got_event, ch_events := ch_events S - 1, conn := ?c\<rparr>"
  let ?S2 = "?S1\<lparr>hpc := CQ_polling, armed := True\<rparr>"
  have "cq_step S ?S1" using assms(2,3) by (rule cq_step.take_event)
  then have "cq_step\<^sup>*\<^sup>* S ?S1" by (rule r_into_rtranclp [of cq_step])
  moreover have "cq_step ?S1 ?S2" by (rule cq_step.arm) simp
  ultimately have s: "cq_step\<^sup>*\<^sup>* S ?S2" by (rule rtranclp.rtrancl_into_rtrancl)
  have "cq_inv ?S2" by (rule cq_sys.steps_inv [OF s assms(1)])
  from poll_loop_steps [OF this _ _ assms(4), of bs ps] p assms(5,6) obtain a c where
    r: "RdmaConnection_poll_loop user (app S, ?c) (map Polled bs @ Polled [] # ps) = Inr (a, c)"
    "cq_step\<^sup>*\<^sup>* ?S2 (all_done ?S2 (concat bs) a c)" by auto
  have "RdmaConnection_handleRead user (app S, conn S) True 0 0 (map Polled bs @ Polled [] # ps) = Inr (a, c)"
    using r(1) by (simp add: RdmaConnection_handleRead_def Let_def)
  then show ?thesis by (rule that [of _ _ ?S2]) (use s r(2) in \<open>auto intro: rtranclp_trans\<close>)
qed

section \<open>Life cycle\<close>

lemma connectEstablished_ok:
  assumes "rc_state c = RC_kConnecting" and "loop_inv (rc_loop c)"
    and "chan_store (rc_loop c) (rc_channel c) = Some ch"
    and "registrable (poller (rc_loop c)) (rc_channel c) ch"
  obtains L where "RdmaConnection_connectEstablished c = Inr (c\<lparr>rc_state := RC_kConnected, rc_loop := L\<rparr>)"
    and "loop_inv L"
proof -
  let ?L = "(rc_loop c)\<lparr>chan_store := (chan_store (rc_loop c))(rc_channel c \<mapsto> Channel_tie ch)\<rparr>"
  have "loop_inv ?L" "registrable (poller ?L) (rc_channel c) (Channel_tie ch)"
    using loop_inv_tie [OF assms(2,3)] assms(4) by (simp_all add: Channel_tie_def registrable_def)
  moreover have "chan_store ?L (rc_channel c) = Some (Channel_tie ch)" by simp
  ultimately obtain L where "Channel_set_events set_flag kNoPriorityReadEvent ?L (rc_channel c) = Inr L" "loop_inv L"
    by (metis Channel_set_events_ok)
  with assms(1,3) show ?thesis
    by (intro that [of L])
       (simp_all add: RdmaConnection_connectEstablished_def rc_on_loop_def deref_channel_def
         Channel_enableNoPriorityReading_def)
qed

text \<open>
  The one failing path that does not clean up: when the completion channel cannot be made
  non-blocking, the jump goes to the label that destroys a completion queue not yet made.
\<close>

lemma create_fcntl_failure:
  assumes "comp_channel_fd E = Some f" and "fcntl_setfl E < 0"
  shows "RdmaConnection_create_on E dev L p name mem n = Inl Undefined_behaviour"
  using assms by (simp add: RdmaConnection_create_on_def Let_def give_up_def clean_from_def defined_if_def)

text \<open>A failed completion ends the process once the callback has run.\<close>

lemma handle_wc_failed:
  assumes "\<not> wc_success w"
  shows "\<exists>e. RdmaConnection_handle_wc user ac (w, err) = Inl e"
  using assms by (cases ac; cases "wc_op w")
    (auto simp: RdmaConnection_handle_wc_def andThen_def split: sum.splits)

section \<open>A sample connection\<close>

text \<open>
  Two buffer pairs of one page each on the sample device, in a loop without other channels.
\<close>

definition sample_env :: create_env where
  "sample_env = \<lparr>page_size = 4096, mem_address = 65536, comp_channel_fd = Some 7, fcntl_setfl = 0,
     alloc_pd_ok = True, query_device_err = 0, max_qp_wr = 1024, query_port_err = 0, port_lid = 3,
     create_cq_ok = True, req_notify_err = 0, reg_mr_keys = Some (11, 12), create_qp_num = Some 40,
     modify_init_err = 0, random31 = 0x12345678\<rparr>"

definition sample_conn :: RdmaConnection where
  "sample_conn = \<lparr>rc_loop = quiet_loop\<lparr>chan_store := [5 \<mapsto> (Channel_new 7)
       \<lparr>callbacks := {Read_cb, Write_cb, Close_cb, Error_cb}\<rparr>]\<rparr>,
     rc_state = RC_kConnecting, rc_channel = 5, rc_name = ''c'', mem_base = 65536, mem_total = 16384,
     bufpairs = lay_bufpairs 2 4096 65536 69632, free_bufpairs = [0, 1], local_lkey = 11, mr_rkey = 12,
     qp_num = 40, remote_mem = 0, remote_len = 0, remote_rkey = 0,
     dev_ctx = (DevContext_new ''mlx5_1'' 1 101 2)\<lparr>gid_index_list := [3], gid_count := Some 1, gid_list := [[1, 2]]\<rparr>,
     local_dest = \<lparr>dest_lid = 3, dest_qpn = 40, dest_psn = 0x345678, dest_gid_index = 3, dest_gid = [1, 2],
       dest_guid = 2, rx_depth = 7, tx_depth = 7\<rparr>,
     unack_cq_events = 0, wc_capacity = 14, qp_state = IBV_QPS_INIT, qp_peer = None, rq = [], sq = [],
     cq_acked = 0\<rparr>"

lemma sample_device:
  "DevContext_create sample_verbs sample_sysfs ''mlx5_1'' 1 =
     Inr ([Got_device_list, Opened_device 101, Freed_device_list], Inr (dev_ctx sample_conn))"
  by (simp add: DevContext_create_def sample_verbs_def ib_dev_id_by_name_def DevContext_setup_def
      sample_scan sample_conn_def)

lemma sample_created:
  "RdmaConnection_create sample_verbs sample_sysfs sample_env ''mlx5_1'' 1 4000 2 quiet_loop 5 ''c'' =
     Inr ([Got_device_list, Opened_device 101, Freed_device_list],
          map Create [Comp_channel, Pd, Cq, Mr, Qp], Inr sample_conn)"
proof -
  note dev = sample_device
  have mem: "total_mem 4096 4000 2 = 16384" by (simp add: total_mem_def round_to_page_def)
  show ?thesis
    by (simp add: RdmaConnection_create_def dev mem sample_env_def vector_max_def RdmaConnection_create_on_def
        depth_limit_def new_dest_def RdmaConnection_new_def)
       (simp add: sample_conn_def DevContext_new_def quiet_loop_def upt_rec)
qed

lemma sample_conn_simps [simp]:
  "length (bufpairs sample_conn) = 2" "free_bufpairs sample_conn = [0, 1]" "rq sample_conn = []"
  "unack_cq_events sample_conn = 0"
  by (simp_all add: sample_conn_def)

section \<open>Properties\<close>

text \<open>
  C32. The buffers of a connection do not overlap: when sizes and addresses fit (a page-rounded
  buffer below 2 GiB, the whole memory inside the address space), a created connection has the
  requested number of buffer pairs, each buffer holds at least the requested size and lies inside
  the registered memory, and no two of the send and receive buffers share a byte.
\<close>

theorem rdma_buffers_disjoint:
  assumes "RdmaConnection_create v fs E dn dp mem_size n L p name = Inr (dlog, vlog, Inr c)"
    and "0 < page_size E" and "mem_size + page_size E < 2 ^ 31"
    and "mem_address E + (mem_size + page_size E) * n * 2 < 2 ^ 64"
  shows "length (bufpairs c) = n \<and> 0 < n \<and> free_bufpairs c = [0..<n]
    \<and> (\<forall>i<n. mem_size \<le> send_cap (bufpairs c ! i) \<and> mem_size \<le> recv_cap (bufpairs c ! i)
        \<and> send_region c i \<subseteq> region (mem_base c) (mem_total c)
        \<and> recv_region c i \<subseteq> region (mem_base c) (mem_total c)
        \<and> (\<forall>j<n. send_region c i \<inter> recv_region c j = {}
            \<and> (i \<noteq> j \<longrightarrow> send_region c i \<inter> send_region c j = {} \<and> recv_region c i \<inter> recv_region c j = {})))"
proof -
  from created_layout [OF assms] obtain len where
    c: "mem_layout c len" "length (bufpairs c) = n" "0 < n" "free_bufpairs c = [0..<n]" "mem_size \<le> len" .
  have caps: "send_cap (bufpairs c ! i) = len" "recv_cap (bufpairs c ! i) = len" if "i < n" for i
    using c(1,2) that by (simp_all add: mem_layout_def)
  show ?thesis
    using c(2-5) caps mem_layout_disjoint [OF c(1)] mem_layout_inside [OF c(1)] by simp
qed

theorem rdma_buffers_disjoint_witness:
  "length (bufpairs sample_conn) = 2 \<and> send_region sample_conn 0 \<inter> recv_region sample_conn 1 = {}"
  using rdma_buffers_disjoint [OF sample_created] by (simp add: sample_env_def)

lemma RdmaConnection_create_balance:
  assumes "RdmaConnection_create v fs E dn dp mem_size n L p name = Inr (dlog, vlog, r)"
  shows "case r of
      Inl e \<Rightarrow> dev_balance dlog = (0, 0)
        \<and> (\<exists>k. vlog = map Create (take k [Comp_channel, Pd, Cq, Mr, Qp])
             @ map Destroy (rev (take k [Comp_channel, Pd, Cq, Mr, Qp])))
    | Inr c \<Rightarrow> dev_balance dlog = (0, 1)
        \<and> dev_balance (dlog @ snd (RdmaConnection_destroy c)) = (0, 0)
        \<and> vlog = map Create [Comp_channel, Pd, Cq, Mr, Qp]
        \<and> fst (RdmaConnection_destroy c) = map Destroy [Qp, Cq, Mr, Pd, Comp_channel]"
proof -
  from assms obtain dlog0 dev where dev: "DevContext_create v fs dn dp = Inr (dlog0, dev)"
    and rest: "case dev of Inl e \<Rightarrow> dlog = dlog0 \<and> vlog = [] \<and> r = Inl e
      | Inr d \<Rightarrow> \<exists>dlog'. RdmaConnection_create_on E d L p name (total_mem (page_size E) mem_size n) n
          = Inr (dlog', vlog, r) \<and> dlog = dlog0 @ dlog'"
    by (auto simp: RdmaConnection_create_def res_simps Let_def split: if_splits sum.splits prod.splits)
  have bal: "dev_balance dlog0 = (0, case dev of Inl e \<Rightarrow> 0 | Inr d \<Rightarrow> 1)"
    and ctx: "\<And>d. dev = Inr d \<Longrightarrow> \<exists>c. ctx d = Some c"
    using DevContext_create_balance [OF dev] by blast+
  show ?thesis
  proof (cases dev)
    case (Inl e)
    with rest bal show ?thesis by auto
  next
    case (Inr d)
    with rest obtain dlog' where on: "dlog = dlog0 @ dlog'"
      "RdmaConnection_create_on E d L p name (total_mem (page_size E) mem_size n) n = Inr (dlog', vlog, r)"
      by auto
    from ctx [OF Inr] obtain cx where cx: "ctx d = Some cx" by blast
    show ?thesis
    proof (cases r)
      case (Inl e)
      from create_on_failed [OF on(2) [unfolded Inl]] obtain k where
        k: "dlog' = DevContext_destroy d" "vlog = map Create (take k [Comp_channel, Pd, Cq, Mr, Qp])
          @ map Destroy (rev (take k [Comp_channel, Pd, Cq, Mr, Qp]))" by blast
      then show ?thesis using Inl bal on(1) cx \<open>dev = Inr d\<close>
        by (auto simp: dev_balance_append DevContext_destroy_def)
    next
      case (Inr c)
      from on(2) [unfolded Inr] obtain f lkey rkey qpn dest cap where
        new: "RdmaConnection_new L p f name (mem_address E) (total_mem (page_size E) mem_size n) lkey rkey qpn d dest cap n = Inr c"
        and log: "vlog = map Create [Comp_channel, Pd, Cq, Mr, Qp]" "dlog' = []"
        by (rule create_on_new)
      have "dev_ctx c = d" using new by (auto simp: RdmaConnection_new_def res_simps Let_def)
      then show ?thesis using Inr bal on(1) cx \<open>dev = Inr d\<close> log
        by (simp add: dev_balance_append DevContext_destroy_def RdmaConnection_destroy_def)
    qed
  qed
qed

text \<open>
  C33. Creating a connection leaks nothing when it returns: after a failure each verbs object made
  has been destroyed, in the reverse order, and the device has been closed; after a success the
  device is open, all five objects exist, and the destructor gives back each of them and the device
  once (the queue pair first, then the completion queue, the memory region, the domain and the
  channel). The one failing path that does not return is the one on which the completion channel
  cannot be made non-blocking: it destroys a completion queue that was never made.
\<close>

theorem rdma_create_balanced:
  "(\<forall>dlog vlog r. RdmaConnection_create v fs E dn dp mem_size n L p name = Inr (dlog, vlog, r) \<longrightarrow>
      (case r of
        Inl e \<Rightarrow> dev_balance dlog = (0, 0)
          \<and> (\<exists>k. vlog = map Create (take k [Comp_channel, Pd, Cq, Mr, Qp])
               @ map Destroy (rev (take k [Comp_channel, Pd, Cq, Mr, Qp])))
      | Inr c \<Rightarrow> dev_balance dlog = (0, 1)
          \<and> dev_balance (dlog @ snd (RdmaConnection_destroy c)) = (0, 0)
          \<and> vlog = map Create [Comp_channel, Pd, Cq, Mr, Qp]
          \<and> fst (RdmaConnection_destroy c) = map Destroy [Qp, Cq, Mr, Pd, Comp_channel]))
   \<and> (\<forall>dlog d f. DevContext_create v fs dn dp = Inr (dlog, Inr d)
        \<and> total_mem (page_size E) mem_size n \<le> vector_max
        \<and> comp_channel_fd E = Some f \<and> fcntl_setfl E < 0 \<longrightarrow>
      RdmaConnection_create v fs E dn dp mem_size n L p name = Inl Undefined_behaviour)"
  using RdmaConnection_create_balance [of v fs E dn dp mem_size n L p name]
    create_fcntl_failure [of E _ _ L p name "total_mem (page_size E) mem_size n" n]
  by (auto simp: RdmaConnection_create_def Let_def)

theorem rdma_create_balanced_witness:
  "dev_balance ([Got_device_list, Opened_device 101, Freed_device_list]
     @ snd (RdmaConnection_destroy sample_conn)) = (0, 0)
   \<and> RdmaConnection_create sample_verbs sample_sysfs (sample_env\<lparr>fcntl_setfl := - 1\<rparr>)
        ''mlx5_1'' 1 4000 2 quiet_loop 5 ''c'' = Inl Undefined_behaviour"
proof -
  have "DevContext_create sample_verbs sample_sysfs ''mlx5_1'' 1 =
      Inr ([Got_device_list, Opened_device 101, Freed_device_list], Inr (dev_ctx sample_conn))"
    by (rule sample_device)
  moreover have "total_mem (page_size (sample_env\<lparr>fcntl_setfl := - 1\<rparr>)) 4000 2 \<le> vector_max"
    "comp_channel_fd (sample_env\<lparr>fcntl_setfl := - 1\<rparr>) = Some 7" "fcntl_setfl (sample_env\<lparr>fcntl_setfl := - 1\<rparr>) < 0"
    by (simp_all add: sample_env_def total_mem_def round_to_page_def vector_max_def)
  ultimately show ?thesis
    using rdma_create_balanced [of sample_verbs sample_sysfs sample_env "''mlx5_1''" 1 4000 2 quiet_loop 5 "''c''"]
      rdma_create_balanced [of sample_verbs sample_sysfs "sample_env\<lparr>fcntl_setfl := - 1\<rparr>" "''mlx5_1''" 1 4000 2
        quiet_loop 5 "''c''"] sample_created by auto
qed

text \<open>
  C14. A send buffer has one holder at a time: whatever buffers the user of a created connection
  takes and gives back, the pool never faults, the held buffers are different pairs of the
  connection whose memory does not overlap, and a request is refused only when all are held.
\<close>

theorem send_buffers_exclusive:
  assumes "RdmaConnection_create v fs E dn dp mem_size n L p name = Inr (dlog, vlog, Inr c)"
    and "0 < page_size E" and "mem_size + page_size E < 2 ^ 31"
    and "mem_address E + (mem_size + page_size E) * n * 2 < 2 ^ 64"
  shows "\<exists>c' held. run_all pool_exec (c, []) cmds = Inr (c', held) \<and> distinct held
    \<and> (\<forall>i\<in>set held. i < n \<and> i \<notin> set (free_bufpairs c')
        \<and> (\<forall>j\<in>set held. i \<noteq> j \<longrightarrow> send_region c' i \<inter> send_region c' j = {}))
    \<and> (\<exists>b c''. RdmaConnection_acquireFreeSendBuf c' = Inr (b, c'') \<and> (b = None \<longleftrightarrow> length held = n)
        \<and> (\<forall>x. b = Some x \<longrightarrow> sb_id x \<notin> set held
              \<and> region (sb_addr x) (sb_cap x) = send_region c (sb_id x) \<and> mem_size \<le> sb_cap x))"
proof -
  from created_layout [OF assms] obtain len where D: "mem_layout c len" "length (bufpairs c) = n"
    "free_bufpairs c = [0..<n]" "mem_size \<le> len" by blast
  have "pool_ok (c, [])" using pool_split_init D(2,3) by (simp add: pool_ok_def)
  then obtain c' held where run: "run_all pool_exec (c, []) cmds = Inr (c', held)" "pool_ok (c', held)"
    "bufpairs c' = bufpairs c" by (rule pool_run_ok)
  have split: "pool_split n (free_bufpairs c') held" using run(2,3) D(2) by (simp add: pool_ok_def)
  have reg: "send_region c' i = send_region c i" for i using run(3) by (simp add: send_region_def)
  have dis: "send_region c' i \<inter> send_region c' j = {}" if "i \<in> set held" "j \<in> set held" "i \<noteq> j" for i j
    using that mem_layout_disjoint(2) [OF D(1)] pool_split_bound [OF split] D(2) unfolding reg by simp
  have ends: "mem_base c' = mem_base c \<and> mem_total c' = mem_total c"
    using run_all_invariant [where P = "\<lambda>(d, h). mem_base d = mem_base c \<and> mem_total d = mem_total c", OF _ _ run(1)]
      pool_exec_ends by fastforce
  then have "mem_layout c' len" using D(1) run(3) by (simp add: mem_layout_def)
  then have cap: "sb_cap x = len" if "RdmaConnection_acquireFreeSendBuf c' = Inr (Some x, d)" for x d
    using that by (rule acquired_cap)
  have "\<exists>b c''. RdmaConnection_acquireFreeSendBuf c' = Inr (b, c'') \<and> (b = None \<longleftrightarrow> length held = n)
        \<and> (\<forall>x. b = Some x \<longrightarrow> sb_id x \<notin> set held
              \<and> region (sb_addr x) (sb_cap x) = send_region c (sb_id x) \<and> mem_size \<le> sb_cap x)"
    using acquireFreeSendBuf_ok [of c' held] split run(3) D(2) reg cap D(4)
    by (auto split: if_splits)
  with run(1) pool_split_distinct [OF split] pool_split_bound [OF split] dis show ?thesis
    by (intro exI [of _ c'] exI [of _ held]) auto
qed

theorem send_buffers_exclusive_witness:
  "\<exists>c' held. run_all pool_exec (sample_conn, []) [Acquire, Acquire, Release 0, Acquire] = Inr (c', held)
     \<and> distinct held \<and> (\<exists>c''. RdmaConnection_acquireFreeSendBuf c' = Inr (None, c''))"
proof -
  have "\<exists>c'. run_all pool_exec (sample_conn, []) [Acquire, Acquire, Release 0, Acquire] = Inr (c', [1, 0])"
    by (simp add: RdmaConnection_acquireFreeSendBuf_def RdmaConnection_releaseSendBuf_def pool_front_def
        pool_back_def the_bufpair_def)
  with send_buffers_exclusive [OF sample_created, of "[Acquire, Acquire, Release 0, Acquire]"]
  show ?thesis by (auto simp: sample_env_def)
qed

text \<open>
  C13. No completion is lost and every receive buffer stays in use: in every interleaving of the
  network card with the completion handler, each receive buffer is posted, or its completion
  waits to be handled, or posting it again has failed, and only one of these; completions are
  handled once, in order of arrival; as long as no notification failed, whenever completions are
  in the queue while the handler waits, the completion channel is readable, so the poller will
  call it; handling the next completion never faults, whether its buffer can be posted or not; and
  fewer than ten events are unacknowledged.
\<close>

theorem rdma_no_lost_completion:
  assumes "cq_init S0" and "cq_step\<^sup>*\<^sup>* S0 S"
  shows "mset (rq (conn S)) + mset (recv_ids (polled S @ cq S)) + mset (unposted S)
      = mset [0..<length (bufpairs (conn S))]
    \<and> handled S @ polled S @ cq S = arrived S
    \<and> (\<not> unarmed S \<and> hpc S = CQ_waiting \<and> cq S \<noteq> [] \<longrightarrow> 0 < ch_events S)
    \<and> (\<forall>user w ws err. rdma_user_ok user \<and> hpc S = CQ_polling \<and> polled S = w # ws \<longrightarrow>
        (\<exists>ac. RdmaConnection_handle_wc user (app S, conn S) (w, err) = Inr ac))
    \<and> 0 \<le> unack_cq_events (conn S) \<and> unack_cq_events (conn S) < 10"
proof -
  have inv: "cq_inv S" by (rule cq_sys.reachable_inv [OF assms])
  have "\<exists>ac. RdmaConnection_handle_wc user (app S, conn S) (w, err) = Inr ac"
    if "rdma_user_ok user" "hpc S = CQ_polling" "polled S = w # ws" for user w ws err
    using cq_inv_handle [OF inv that(2,3,1)] by metis
  with inv show ?thesis by (auto simp: cq_inv_def pool_split_def kUnackCqEventThreshold_def ac_simps)
qed

text \<open>The connection of the sample with its queue pair connected, and the card idle.\<close>

definition sample_peer :: RdmaExchangeInfo where
  "sample_peer = \<lparr>xi_lid = 1, xi_qpn = 2, xi_psn = 3, xi_gid = replicate 16 4, xi_recv_addr = 5,
     xi_recv_len = 6, xi_recv_rkey = 7\<rparr>"

definition sample_system :: "unit cq_system" where
  "sample_system = \<lparr>conn = sample_conn\<lparr>qp_state := IBV_QPS_RTS, qp_peer := Some sample_peer, rq := [0, 1],
       remote_mem := 5, remote_len := 6, remote_rkey := 7\<rparr>,
     app = (), cq = [], armed = True, ch_events = 0, hpc = CQ_waiting, polled = [], arrived = [], handled = [],
     unposted = [], unarmed = False\<rparr>"

lemma sample_system_init: "cq_init sample_system"
  using connectQp_ok [of sample_conn sample_peer]
  by (auto simp: cq_init_def sample_system_def sample_peer_def upt_rec
      intro!: exI [of _ sample_conn] exI [of _ sample_peer])

definition first_message :: ibv_wc where
  "first_message = \<lparr>wr_id = 0, wc_success = True, wc_op = IBV_WC_RECV, byte_len = 20\<rparr>"

definition sample_arrival :: "unit cq_system" where
  "sample_arrival = complete (sample_system\<lparr>conn := (conn sample_system)\<lparr>rq := [1]\<rparr>\<rparr>) first_message"

lemma sample_arrival_step: "cq_step\<^sup>*\<^sup>* sample_system sample_arrival"
  unfolding sample_arrival_def first_message_def
  by (rule r_into_rtranclp [of cq_step], rule cq_step.message_arrives) (simp add: sample_system_def)

theorem rdma_no_lost_completion_witness: "cq sample_arrival \<noteq> [] \<and> 0 < ch_events sample_arrival"
proof -
  have "hpc sample_arrival = CQ_waiting" "cq sample_arrival \<noteq> []" "\<not> unarmed sample_arrival"
    by (simp_all add: sample_arrival_def complete_def sample_system_def)
  with rdma_no_lost_completion [OF sample_system_init sample_arrival_step]
  show ?thesis by blast
qed


text \<open>A second message while the first one waits, so that the queue is polled in two batches.\<close>

definition second_message :: ibv_wc where
  "second_message = \<lparr>wr_id = 1, wc_success = True, wc_op = IBV_WC_RECV, byte_len = 9\<rparr>"

definition sample_two :: "unit cq_system" where
  "sample_two = complete (sample_arrival\<lparr>conn := (conn sample_arrival)\<lparr>rq := []\<rparr>\<rparr>) second_message"


end
