(* ===== verification/Tcp_Connection.thy ===== *)
theory Tcp_Connection
  imports Event_Loop Net_Buffer
begin

unbundle bit_operations_syntax

text \<open>
  A TCP connection: \<^verbatim>\<open>src/src/network/tcp/TcpConnection.h\<close> and \<^verbatim>\<open>TcpConnection.cc\<close>, on top of
  its loop, its channel and two buffers. What the socket does enters as arguments: the outcome
  of each \<open>write\<close> and \<open>readv\<close>. The lemmas show that the bytes handed to the socket and the
  bytes still buffered are together exactly the bytes accepted for sending, in order, under
  any pattern of short writes; that the connection asks for write events exactly while it has
  output; and that no assertion fails on the paths of the state machine.
\<close>

section \<open>State\<close>

datatype StateE = kDisconnected | kConnecting | kConnected | kDisconnecting

text \<open>
  The functors a connection queues in its loop, and the user's callbacks it invokes.
\<close>

datatype conn_functor =
    WriteComplete
  | HighWaterMark nat
  | SendInLoop "byte list"
  | ShutdownInLoop
  | ForceCloseInLoop
  | StartReadInLoop
  | StopReadInLoop
  | ConnectDestroyed

datatype conn_call = On_connection | On_message | On_close | On_writeComplete | On_highWaterMark nat

text \<open>
  \<open>sent\<close> are the bytes the socket has taken and \<open>wr_shut\<close> whether its write side was shut
  down: they stand for the socket. \<open>accepted\<close> records the bytes \<open>sendInLoop\<close> took charge of,
  and \<open>delayed_close\<close> the delays of the timers \<open>forceCloseWithDelay\<close> started, in microseconds.
\<close>

record TcpConnection =
  loop :: "conn_functor EventLoop"
  state :: StateE
  reading :: bool
  channel :: nat
  highWaterMark :: nat
  writeCompleteCallback :: bool
  highWaterMarkCallback :: bool
  inputBuffer :: Buffer
  outputBuffer :: Buffer
  sent :: "byte list"
  wr_shut :: bool
  accepted :: "byte list"
  delayed_close :: "int list"

datatype write_result = is_Wrote: Wrote (wrote: nat) | Write_error (write_errno: int)

definition EWOULDBLOCK :: int where "EWOULDBLOCK = 11"
definition EPIPE :: int where "EPIPE = 32"
definition ECONNRESET :: int where "ECONNRESET = 104"

lemmas errno_defs = EWOULDBLOCK_def EPIPE_def ECONNRESET_def

text \<open>
  \<open>user call c\<close> is what the user's callback does to the connection; it runs in the thread of
  the loop.
\<close>

type_synonym conn_user = "conn_call \<Rightarrow> TcpConnection \<Rightarrow> TcpConnection res"

definition the_channel :: "TcpConnection \<Rightarrow> Channel res" where
  "the_channel c = deref_channel (chan_store (loop c)) (channel c)"

definition on_loop ::
  "(conn_functor EventLoop \<Rightarrow> nat \<Rightarrow> conn_functor EventLoop res) \<Rightarrow> TcpConnection \<Rightarrow> TcpConnection res" where
  "on_loop f c = andThen (f (loop c) (channel c)) (\<lambda>L. Inr (c\<lparr>loop := L\<rparr>))"

definition queue_functor :: "bool \<Rightarrow> TcpConnection \<Rightarrow> conn_functor \<Rightarrow> TcpConnection" where
  "queue_functor inLoop c f = c\<lparr>loop := EventLoop_queueInLoop inLoop (loop c) f\<rparr>"

section \<open>Operations\<close>

definition TcpConnection_new ::
  "conn_functor EventLoop \<Rightarrow> nat \<Rightarrow> int \<Rightarrow> Buffer \<Rightarrow> Buffer \<Rightarrow> TcpConnection" where
  "TcpConnection_new L p sockfd inb outb =
     \<lparr>loop = L\<lparr>chan_store := (chan_store L)(p \<mapsto> (Channel_new sockfd)
              \<lparr>callbacks := {Read_cb, Write_cb, Close_cb, Error_cb}\<rparr>)\<rparr>,
      state = kConnecting, reading = True, channel = p, highWaterMark = 64 * 1024 * 1024,
      writeCompleteCallback = False, highWaterMarkCallback = False,
      inputBuffer = inb, outputBuffer = outb,
      sent = [], wr_shut = False, accepted = [], delayed_close = []\<rparr>"

definition TcpConnection_setHighWaterMarkCallback :: "TcpConnection \<Rightarrow> nat \<Rightarrow> TcpConnection" where
  "TcpConnection_setHighWaterMarkCallback c n = c\<lparr>highWaterMarkCallback := True, highWaterMark := n\<rparr>"

definition TcpConnection_connected :: "TcpConnection \<Rightarrow> bool" where
  "TcpConnection_connected c \<longleftrightarrow> state c = kConnected"

definition TcpConnection_shutdownInLoop :: "TcpConnection \<Rightarrow> TcpConnection res" where
  "TcpConnection_shutdownInLoop c =
     andThen (the_channel c) (\<lambda>ch.
       if \<not> Channel_isWriting ch then Inr (c\<lparr>wr_shut := True\<rparr>) else Inr c)"

text \<open>
  The tail of \<open>sendInLoop\<close>: what could not be written is buffered, and the user hears of it
  when the buffer crosses the high water mark.
\<close>

definition TcpConnection_check_mark :: "TcpConnection \<Rightarrow> nat \<Rightarrow> TcpConnection" where
  "TcpConnection_check_mark c remaining =
     (let oldLen = Buffer_readableBytes (outputBuffer c) in
      if size_add oldLen remaining \<ge> highWaterMark c \<and> oldLen < highWaterMark c
         \<and> highWaterMarkCallback c
      then queue_functor True c (HighWaterMark (size_add oldLen remaining)) else c)"

definition TcpConnection_buffer_rest :: "TcpConnection \<Rightarrow> byte list \<Rightarrow> TcpConnection res" where
  "TcpConnection_buffer_rest c rest =
     (let c1 = TcpConnection_check_mark c (length rest) in
      andThen (Buffer_append (outputBuffer c1) rest) (\<lambda>ob.
        let c2 = c1\<lparr>outputBuffer := ob\<rparr> in
        andThen (the_channel c2) (\<lambda>ch.
          if \<not> Channel_isWriting ch then on_loop Channel_enableWriting c2 else Inr c2)))"

definition TcpConnection_send_rest :: "TcpConnection \<Rightarrow> byte list \<Rightarrow> nat \<Rightarrow> nat \<Rightarrow> TcpConnection res" where
  "TcpConnection_send_rest c data nwrote remaining =
     asserting (remaining \<le> length data)
       (let c1 = c\<lparr>accepted := accepted c @ data\<rparr> in
        if remaining > 0 then TcpConnection_buffer_rest c1 (drop nwrote data) else Inr c1)"

text \<open>What a direct write of \<open>n\<close> bytes changes.\<close>

definition TcpConnection_wrote :: "TcpConnection \<Rightarrow> byte list \<Rightarrow> nat \<Rightarrow> TcpConnection" where
  "TcpConnection_wrote c data n =
     (let c1 = c\<lparr>sent := sent c @ take n data\<rparr> in
      if size_sub (length data) n = 0 \<and> writeCompleteCallback c1
      then queue_functor True c1 WriteComplete else c1)"

definition TcpConnection_sendInLoop ::
  "TcpConnection \<Rightarrow> byte list \<Rightarrow> write_result \<Rightarrow> TcpConnection res" where
  "TcpConnection_sendInLoop c data wr =
     (if state c = kDisconnected then Inr c
      else andThen (the_channel c) (\<lambda>ch.
        if \<not> Channel_isWriting ch \<and> Buffer_readableBytes (outputBuffer c) = 0
        then case wr of
            Wrote n \<Rightarrow>
              TcpConnection_send_rest (TcpConnection_wrote c data n) data n (size_sub (length data) n)
          | Write_error e \<Rightarrow>
              if e \<noteq> EWOULDBLOCK \<and> (e = EPIPE \<or> e = ECONNRESET) then Inr c
              else TcpConnection_send_rest c data 0 (length data)
        else TcpConnection_send_rest c data 0 (length data)))"

definition TcpConnection_send ::
  "bool \<Rightarrow> TcpConnection \<Rightarrow> byte list \<Rightarrow> write_result \<Rightarrow> TcpConnection res" where
  "TcpConnection_send inLoop c message wr =
     (if state c = kConnected
      then if inLoop then TcpConnection_sendInLoop c message wr
           else Inr (queue_functor False c (SendInLoop message))
      else Inr c)"

definition TcpConnection_send_buffer ::
  "bool \<Rightarrow> TcpConnection \<Rightarrow> Buffer \<Rightarrow> write_result \<Rightarrow> (Buffer \<times> TcpConnection) res" where
  "TcpConnection_send_buffer inLoop c buf wr =
     (if state c = kConnected
      then if inLoop
           then andThen (TcpConnection_sendInLoop c
                    (take (Buffer_readableBytes buf) (drop (Buffer_peek buf) (buffer buf))) wr)
                  (\<lambda>c'. Inr (Buffer_retrieveAll buf, c'))
           else andThen (Buffer_retrieveAllAsString buf) (\<lambda>(message, buf').
                  Inr (buf', queue_functor False c (SendInLoop message)))
      else Inr (buf, c))"

definition TcpConnection_shutdown :: "bool \<Rightarrow> TcpConnection \<Rightarrow> TcpConnection res" where
  "TcpConnection_shutdown inLoop c =
     (if state c = kConnected
      then let c1 = c\<lparr>state := kDisconnecting\<rparr> in
           if inLoop then TcpConnection_shutdownInLoop c1
           else Inr (queue_functor False c1 ShutdownInLoop)
      else Inr c)"

definition TcpConnection_forceClose :: "bool \<Rightarrow> TcpConnection \<Rightarrow> TcpConnection" where
  "TcpConnection_forceClose inLoop c =
     (if state c = kConnected \<or> state c = kDisconnecting
      then queue_functor inLoop (c\<lparr>state := kDisconnecting\<rparr>) ForceCloseInLoop else c)"

definition TcpConnection_forceCloseWithDelay :: "TcpConnection \<Rightarrow> int \<Rightarrow> TcpConnection" where
  "TcpConnection_forceCloseWithDelay c delay =
     (if state c = kConnected \<or> state c = kDisconnecting
      then c\<lparr>state := kDisconnecting, delayed_close := delayed_close c @ [delay]\<rparr> else c)"

definition TcpConnection_handleClose :: "conn_user \<Rightarrow> TcpConnection \<Rightarrow> TcpConnection res" where
  "TcpConnection_handleClose user c =
     asserting (state c = kConnected \<or> state c = kDisconnecting)
       (andThen (on_loop Channel_disableAll (c\<lparr>state := kDisconnected\<rparr>)) (\<lambda>c1.
         andThen (user On_connection c1) (user On_close)))"

definition TcpConnection_forceCloseInLoop :: "conn_user \<Rightarrow> TcpConnection \<Rightarrow> TcpConnection res" where
  "TcpConnection_forceCloseInLoop user c =
     (if state c = kConnected \<or> state c = kDisconnecting
      then TcpConnection_handleClose user c else Inr c)"

definition TcpConnection_startReadInLoop :: "TcpConnection \<Rightarrow> TcpConnection res" where
  "TcpConnection_startReadInLoop c =
     andThen (the_channel c) (\<lambda>ch.
       if \<not> reading c \<or> \<not> Channel_isReading ch
       then andThen (on_loop Channel_enableReading c) (\<lambda>c1. Inr (c1\<lparr>reading := True\<rparr>)) else Inr c)"

definition TcpConnection_stopReadInLoop :: "TcpConnection \<Rightarrow> TcpConnection res" where
  "TcpConnection_stopReadInLoop c =
     andThen (the_channel c) (\<lambda>ch.
       if reading c \<or> Channel_isReading ch
       then andThen (on_loop Channel_disableReading c) (\<lambda>c1. Inr (c1\<lparr>reading := False\<rparr>)) else Inr c)"

definition TcpConnection_startRead :: "bool \<Rightarrow> TcpConnection \<Rightarrow> TcpConnection res" where
  "TcpConnection_startRead inLoop c =
     (if inLoop then TcpConnection_startReadInLoop c else Inr (queue_functor False c StartReadInLoop))"

definition TcpConnection_stopRead :: "bool \<Rightarrow> TcpConnection \<Rightarrow> TcpConnection res" where
  "TcpConnection_stopRead inLoop c =
     (if inLoop then TcpConnection_stopReadInLoop c else Inr (queue_functor False c StopReadInLoop))"

definition TcpConnection_connectEstablished :: "conn_user \<Rightarrow> TcpConnection \<Rightarrow> TcpConnection res" where
  "TcpConnection_connectEstablished user c =
     asserting (state c = kConnecting)
       (andThen (the_channel c) (\<lambda>ch.
         let c1 = c\<lparr>state := kConnected, loop := (loop c)\<lparr>chan_store :=
                      (chan_store (loop c))(channel c \<mapsto> Channel_tie ch)\<rparr>\<rparr>
         in andThen (on_loop Channel_enableReading c1) (user On_connection)))"

definition TcpConnection_connectDestroyed :: "conn_user \<Rightarrow> TcpConnection \<Rightarrow> TcpConnection res" where
  "TcpConnection_connectDestroyed user c =
     andThen
       (if state c = kConnected
        then andThen (on_loop Channel_disableAll (c\<lparr>state := kDisconnected\<rparr>)) (user On_connection)
        else Inr c)
       (on_loop Channel_remove)"

text \<open>
  \<open>handleRead\<close> with the outcome of \<open>readv\<close>; \<open>handleError\<close> reads and logs the socket error,
  which changes nothing here.
\<close>

definition TcpConnection_handleError :: "TcpConnection \<Rightarrow> TcpConnection" where
  "TcpConnection_handleError c = c"

definition TcpConnection_handleRead ::
  "conn_user \<Rightarrow> TcpConnection \<Rightarrow> int + byte list \<Rightarrow> TcpConnection res" where
  "TcpConnection_handleRead user c rd =
     andThen (Buffer_readFd (inputBuffer c) rd) (\<lambda>(n, savedErrno, ib).
       let c1 = c\<lparr>inputBuffer := ib\<rparr> in
       if n > 0 then user On_message c1
       else if n = 0 then TcpConnection_handleClose user c1
       else Inr (TcpConnection_handleError c1))"

text \<open>The end of a write event: the bytes written have left the output buffer.\<close>

definition TcpConnection_after_write :: "TcpConnection \<Rightarrow> TcpConnection res" where
  "TcpConnection_after_write c =
     (if Buffer_readableBytes (outputBuffer c) = 0
      then andThen (on_loop Channel_disableWriting c) (\<lambda>c1.
        let c2 = (if writeCompleteCallback c1 then queue_functor True c1 WriteComplete else c1)
        in if state c2 = kDisconnecting then TcpConnection_shutdownInLoop c2 else Inr c2)
      else Inr c)"

definition TcpConnection_handleWrite :: "TcpConnection \<Rightarrow> write_result \<Rightarrow> TcpConnection res" where
  "TcpConnection_handleWrite c wr =
     andThen (the_channel c) (\<lambda>ch.
       if Channel_isWriting ch
       then case wr of
           Wrote n \<Rightarrow>
             if n > 0
             then
               let c0 = c\<lparr>sent := sent c @ take n (drop (Buffer_peek (outputBuffer c))
                                                     (buffer (outputBuffer c)))\<rparr>
               in andThen (Buffer_retrieve (outputBuffer c0) n) (\<lambda>ob.
                    TcpConnection_after_write (c0\<lparr>outputBuffer := ob\<rparr>))
             else Inr c
         | Write_error e \<Rightarrow> Inr c
       else Inr c)"

text \<open>Running a functor of the connection; \<open>wr\<close> is the outcome of the write it may make.\<close>

fun TcpConnection_run :: "conn_user \<Rightarrow> write_result \<Rightarrow> conn_functor \<Rightarrow> TcpConnection \<Rightarrow> TcpConnection res" where
  "TcpConnection_run user wr WriteComplete c = user On_writeComplete c"
| "TcpConnection_run user wr (HighWaterMark n) c = user (On_highWaterMark n) c"
| "TcpConnection_run user wr (SendInLoop d) c = TcpConnection_sendInLoop c d wr"
| "TcpConnection_run user wr ShutdownInLoop c = TcpConnection_shutdownInLoop c"
| "TcpConnection_run user wr ForceCloseInLoop c = TcpConnection_forceCloseInLoop user c"
| "TcpConnection_run user wr StartReadInLoop c = TcpConnection_startReadInLoop c"
| "TcpConnection_run user wr StopReadInLoop c = TcpConnection_stopReadInLoop c"
| "TcpConnection_run user wr ConnectDestroyed c = TcpConnection_connectDestroyed user c"

section \<open>The channel of a connection\<close>

lemma isWriting_bit: "Channel_isWriting ch \<longleftrightarrow> bit (events ch) 2"
  by (simp add: Channel_isWriting_def kWriteEvent_def POLLOUT_def bit_iff_and_push_bit_not_eq_0)

lemma event_flag_bits [simp]:
  "bit (set_flag kWriteEvent ev) 2" "\<not> bit (clear_flag kWriteEvent ev) 2"
  "bit (set_flag kReadEvent ev) 2 = bit ev 2" "bit (clear_flag kReadEvent ev) 2 = bit ev 2"
  "\<not> bit kNoneEvent 2"
  by (simp_all add: set_flag_def clear_flag_def kWriteEvent_def kReadEvent_def kNoneEvent_def
      poll_flags bit_simps)

definition conn_chan :: "TcpConnection \<Rightarrow> Channel \<Rightarrow> bool" where
  "conn_chan c ch \<longleftrightarrow> loop_inv (loop c) \<and> chan_store (loop c) (channel c) = Some ch
     \<and> registrable (poller (loop c)) (channel c) ch"

text \<open>\<open>same_loop L L'\<close>: the loops differ in their channels and poller only.\<close>

definition same_loop :: "'f EventLoop \<Rightarrow> 'f EventLoop \<Rightarrow> bool" where
  "same_loop L L' \<longleftrightarrow> pendingFunctors L' = pendingFunctors L
     \<and> loop_eventHandling L' = loop_eventHandling L \<and> activeChannels L' = activeChannels L
     \<and> currentActiveChannel L' = currentActiveChannel L"

lemma conn_set_events:
  assumes "conn_chan c ch"
  obtains L' i where "on_loop (Channel_set_events f w) c = Inr (c\<lparr>loop := L'\<rparr>)"
    and "conn_chan (c\<lparr>loop := L'\<rparr>) (ch\<lparr>events := f w (events ch), addedToLoop := True, index := i\<rparr>)"
    and "i \<noteq> kNew" and "same_loop (loop c) L'"
proof -
  let ?ch = "\<lambda>i. ch\<lparr>events := f w (events ch), addedToLoop := True, index := i\<rparr>"
  let ?L = "\<lambda>i P. (loop c)\<lparr>poller := P, chan_store := (chan_store (loop c))(channel c \<mapsto> ?ch i)\<rparr>"
  from assms have inv: "loop_inv (loop c)" and ch: "chan_store (loop c) (channel c) = Some ch"
    and reg: "registrable (poller (loop c)) (channel c) ch" by (auto simp: conn_chan_def)
  obtain P' i where u: "Channel_set_events f w (loop c) (channel c) = Inr (?L i P')"
    "loop_inv (?L i P')" "i \<noteq> kNew" "channels P' (fd ch) = Some (channel c)"
    by (rule Channel_set_events_ok [OF inv ch reg, of f w]) (rule that)
  have "on_loop (Channel_set_events f w) c = Inr (c\<lparr>loop := ?L i P'\<rparr>)"
    using u(1) by (simp add: on_loop_def)
  moreover have "conn_chan (c\<lparr>loop := ?L i P'\<rparr>) (?ch i)"
    using u(2,4) by (simp add: conn_chan_def registrable_def)
  ultimately show ?thesis
    using u(3) by (intro that [of "?L i P'" i]) (simp_all add: same_loop_def)
qed

lemma conn_remove:
  assumes "conn_chan c ch" and "index ch \<noteq> kNew" and "events ch = kNoneEvent"
    and "loop_eventHandling (loop c) \<Longrightarrow>
      currentActiveChannel (loop c) = Some (channel c) \<or> channel c \<notin> set (activeChannels (loop c))"
  obtains L' where "on_loop Channel_remove c = Inr (c\<lparr>loop := L'\<rparr>)"
    and "conn_chan (c\<lparr>loop := L'\<rparr>) (ch\<lparr>addedToLoop := False, index := kNew\<rparr>)"
    and "same_loop (loop c) L'" and "channels (poller L') (fd ch) = None"
proof -
  let ?L = "\<lambda>P. (loop c)\<lparr>poller := P, chan_store := (chan_store (loop c))
    (channel c \<mapsto> ch\<lparr>addedToLoop := False, index := kNew\<rparr>)\<rparr>"
  from assms(1) have inv: "loop_inv (loop c)" and ch: "chan_store (loop c) (channel c) = Some ch"
    by (auto simp: conn_chan_def)
  obtain P' where u: "Channel_remove (loop c) (channel c) = Inr (?L P')" "loop_inv (?L P')"
    "channels P' = (channels (poller (loop c)))(fd ch := None)"
    by (rule Channel_remove_ok [OF inv ch assms(2,3,4)]) (assumption, rule that)
  have "on_loop Channel_remove c = Inr (c\<lparr>loop := ?L P'\<rparr>)" using u(1) by (simp add: on_loop_def)
  moreover have "conn_chan (c\<lparr>loop := ?L P'\<rparr>) (ch\<lparr>addedToLoop := False, index := kNew\<rparr>)"
    using u(2,3) by (simp add: conn_chan_def registrable_def)
  ultimately show ?thesis using u(3) by (intro that [of "?L P'"]) (simp_all add: same_loop_def)
qed

lemma the_channel_ok [simp]: "conn_chan c ch \<Longrightarrow> the_channel c = Inr ch"
  by (simp add: conn_chan_def the_channel_def deref_channel_def)

lemma conn_chan_cong:
  "loop c' = loop c \<Longrightarrow> channel c' = channel c \<Longrightarrow> conn_chan c' ch = conn_chan c ch"
  by (simp add: conn_chan_def)

lemma queueInLoop_channels [simp]:
  "poller (EventLoop_queueInLoop b L f) = poller L"
  "chan_store (EventLoop_queueInLoop b L f) = chan_store L"
  "loop_inv (EventLoop_queueInLoop b L f) = loop_inv L"
  by (simp_all add: EventLoop_queueInLoop_def EventLoop_push_def EventLoop_wakeup_def Let_def loop_inv_def)

lemma conn_chan_queue [simp]: "conn_chan (queue_functor b c f) ch = conn_chan c ch"
  by (simp add: conn_chan_def queue_functor_def)

lemma queue_functor_simps [simp]:
  "state (queue_functor b c f) = state c" "outputBuffer (queue_functor b c f) = outputBuffer c"
  "inputBuffer (queue_functor b c f) = inputBuffer c" "sent (queue_functor b c f) = sent c"
  "accepted (queue_functor b c f) = accepted c" "wr_shut (queue_functor b c f) = wr_shut c"
  "channel (queue_functor b c f) = channel c" "highWaterMark (queue_functor b c f) = highWaterMark c"
  by (simp_all add: queue_functor_def)

section \<open>The invariant\<close>

definition chan_matches :: "TcpConnection \<Rightarrow> Channel \<Rightarrow> bool" where
  "chan_matches c ch \<longleftrightarrow>
     (case state c of
        kConnecting \<Rightarrow> index ch = kNew \<and> events ch = kNoneEvent \<and> Buffer_content (outputBuffer c) = []
      | kDisconnected \<Rightarrow> \<not> Channel_isWriting ch
      | _ \<Rightarrow> index ch \<noteq> kNew \<and> (Channel_isWriting ch \<longleftrightarrow> Buffer_content (outputBuffer c) \<noteq> []))"

definition conn_inv :: "TcpConnection \<Rightarrow> bool" where
  "conn_inv c \<longleftrightarrow> Buffer_wf (inputBuffer c) \<and> Buffer_wf (outputBuffer c)
     \<and> sent c @ Buffer_content (outputBuffer c) = accepted c
     \<and> (\<exists>ch. conn_chan c ch \<and> chan_matches c ch)"

lemma conn_invE:
  assumes "conn_inv c"
  obtains ch where "conn_chan c ch" and "chan_matches c ch" and "Buffer_wf (inputBuffer c)"
    and "Buffer_wf (outputBuffer c)" and "sent c @ Buffer_content (outputBuffer c) = accepted c"
  using assms unfolding conn_inv_def by blast

lemma conn_invI:
  "conn_chan c ch \<Longrightarrow> chan_matches c ch \<Longrightarrow> Buffer_wf (inputBuffer c) \<Longrightarrow> Buffer_wf (outputBuffer c) \<Longrightarrow>
    sent c @ Buffer_content (outputBuffer c) = accepted c \<Longrightarrow> conn_inv c"
  unfolding conn_inv_def by blast

lemma chan_matches_simps [simp]:
  "chan_matches (c\<lparr>wr_shut := w\<rparr>) ch = chan_matches c ch"
  "chan_matches (c\<lparr>reading := r\<rparr>) ch = chan_matches c ch"
  "chan_matches (c\<lparr>delayed_close := d\<rparr>) ch = chan_matches c ch"
  "chan_matches (c\<lparr>inputBuffer := ib\<rparr>) ch = chan_matches c ch"
  "chan_matches (queue_functor b c f) ch = chan_matches c ch"
  by (simp_all add: chan_matches_def split: StateE.split)

section \<open>Sending\<close>

definition wr_ok :: "nat \<Rightarrow> write_result \<Rightarrow> bool" where
  "wr_ok n wr \<longleftrightarrow> (case wr of Wrote k \<Rightarrow> k \<le> n | Write_error e \<Rightarrow> True)"

definition is_open :: "TcpConnection \<Rightarrow> bool" where
  "is_open c \<longleftrightarrow> state c = kConnected \<or> state c = kDisconnecting"

lemma chan_matches_open:
  "is_open c \<Longrightarrow> chan_matches c ch \<longleftrightarrow>
    index ch \<noteq> kNew \<and> (Channel_isWriting ch \<longleftrightarrow> Buffer_content (outputBuffer c) \<noteq> [])"
  by (auto simp: is_open_def chan_matches_def)

lemma on_loop_simps:
  "on_loop Channel_enableWriting = on_loop (Channel_set_events set_flag kWriteEvent)"
  "on_loop Channel_disableWriting = on_loop (Channel_set_events clear_flag kWriteEvent)"
  "on_loop Channel_enableReading = on_loop (Channel_set_events set_flag kReadEvent)"
  "on_loop Channel_disableReading = on_loop (Channel_set_events clear_flag kReadEvent)"
  "on_loop Channel_disableAll = on_loop (Channel_set_events (\<lambda>w ev. w) kNoneEvent)"
  by (simp_all add: Channel_enableWriting_def Channel_disableWriting_def Channel_enableReading_def
      Channel_disableReading_def Channel_disableAll_def)

lemma check_mark_simps [simp]:
  "state (TcpConnection_check_mark c n) = state c"
  "outputBuffer (TcpConnection_check_mark c n) = outputBuffer c"
  "inputBuffer (TcpConnection_check_mark c n) = inputBuffer c"
  "sent (TcpConnection_check_mark c n) = sent c" "accepted (TcpConnection_check_mark c n) = accepted c"
  "wr_shut (TcpConnection_check_mark c n) = wr_shut c"
  "conn_chan (TcpConnection_check_mark c n) ch = conn_chan c ch"
  by (simp_all add: TcpConnection_check_mark_def Let_def)

lemma conn_chan_buffers [simp]:
  "conn_chan (c\<lparr>outputBuffer := ob\<rparr>) ch = conn_chan c ch"
  "conn_chan (c\<lparr>inputBuffer := ib\<rparr>) ch = conn_chan c ch"
  "conn_chan (c\<lparr>sent := b\<rparr>) ch = conn_chan c ch" "conn_chan (c\<lparr>accepted := b\<rparr>) ch = conn_chan c ch"
  "conn_chan (c\<lparr>state := s\<rparr>) ch = conn_chan c ch" "conn_chan (c\<lparr>wr_shut := w\<rparr>) ch = conn_chan c ch"
  "conn_chan (c\<lparr>reading := r\<rparr>) ch = conn_chan c ch"
  "conn_chan (c\<lparr>delayed_close := d\<rparr>) ch = conn_chan c ch"
  by (simp_all add: conn_chan_def)

lemma conn_inv_simps [simp]:
  "conn_inv (c\<lparr>wr_shut := w\<rparr>) = conn_inv c" "conn_inv (c\<lparr>reading := r\<rparr>) = conn_inv c"
  "conn_inv (c\<lparr>delayed_close := d\<rparr>) = conn_inv c" "conn_inv (queue_functor b c f) = conn_inv c"
  by (simp_all add: conn_inv_def)

lemma conn_inv_open:
  assumes "is_open c" and "conn_chan c ch" and "index ch \<noteq> kNew"
    and "Channel_isWriting ch \<longleftrightarrow> Buffer_content (outputBuffer c) \<noteq> []"
    and "Buffer_wf (inputBuffer c)" and "Buffer_wf (outputBuffer c)"
    and "sent c @ Buffer_content (outputBuffer c) = accepted c"
  shows "conn_inv c"
  using assms by (intro conn_invI [of c ch]) (simp_all add: chan_matches_open)

lemma TcpConnection_buffer_rest_ok:
  assumes chan: "conn_chan c ch" and op: "is_open c" and idx: "index ch \<noteq> kNew"
    and wf: "Buffer_wf (inputBuffer c)" "Buffer_wf (outputBuffer c)"
    and room: "Buffer_can_take (outputBuffer c) (length rest)" and "rest \<noteq> []"
    and bytes: "sent c @ Buffer_content (outputBuffer c) @ rest = accepted c"
  obtains c' where "TcpConnection_buffer_rest c rest = Inr c'" and "conn_inv c'"
    and "state c' = state c" and "accepted c' = accepted c" and "wr_shut c' = wr_shut c"
proof -
  obtain ob where ob: "Buffer_append (outputBuffer c) rest = Inr ob" "Buffer_wf ob"
    "Buffer_content ob = Buffer_content (outputBuffer c) @ rest"
    by (rule Buffer_append_ok [OF wf(2) Buffer_can_take_room [OF room]])
  let ?c = "(TcpConnection_check_mark c (length rest))\<lparr>outputBuffer := ob\<rparr>"
  have chan2: "conn_chan ?c ch" using chan by simp
  have run: "TcpConnection_buffer_rest c rest =
      (if \<not> Channel_isWriting ch then on_loop Channel_enableWriting ?c else Inr ?c)"
    using ob(1) the_channel_ok [OF chan2] by (simp add: TcpConnection_buffer_rest_def Let_def)
  show ?thesis
  proof (cases "Channel_isWriting ch")
    case True
    have "conn_inv ?c"
      by (rule conn_inv_open [OF _ chan2 idx]) (use op True wf ob assms(7) bytes in \<open>simp_all add: is_open_def\<close>)
    with True run show ?thesis by (intro that [of ?c]) simp_all
  next
    case False
    obtain L' i where u: "on_loop Channel_enableWriting ?c = Inr (?c\<lparr>loop := L'\<rparr>)"
      "conn_chan (?c\<lparr>loop := L'\<rparr>)
        (ch\<lparr>events := set_flag kWriteEvent (events ch), addedToLoop := True, index := i\<rparr>)" "i \<noteq> kNew"
      unfolding on_loop_simps by (rule conn_set_events [OF chan2, of set_flag kWriteEvent])
    have "conn_inv (?c\<lparr>loop := L'\<rparr>)"
      by (rule conn_inv_open [OF _ u(2)])
        (use op u(3) wf ob assms(7) bytes in \<open>simp_all add: is_open_def isWriting_bit\<close>)
    with False run u(1) show ?thesis by (intro that [of "?c\<lparr>loop := L'\<rparr>"]) simp_all
  qed
qed

text \<open>Whether \<open>sendInLoop\<close> takes charge of the data, or gives up.\<close>

definition gives_up :: "TcpConnection \<Rightarrow> write_result \<Rightarrow> bool" where
  "gives_up c wr \<longleftrightarrow> state c = kDisconnected \<or>
     Buffer_content (outputBuffer c) = [] \<and> (wr = Write_error EPIPE \<or> wr = Write_error ECONNRESET)"

lemma TcpConnection_send_rest_ok:
  assumes chan: "conn_chan c ch" and op: "is_open c" and idx: "index ch \<noteq> kNew"
    and wrt: "Channel_isWriting ch \<longleftrightarrow> Buffer_content (outputBuffer c) \<noteq> []"
    and wf: "Buffer_wf (inputBuffer c)" "Buffer_wf (outputBuffer c)"
    and room: "Buffer_can_take (outputBuffer c) (length data)"
    and k: "k \<le> length data" and first: "Buffer_content (outputBuffer c) = [] \<or> k = 0"
    and bytes: "sent c @ Buffer_content (outputBuffer c) = accepted c @ take k data"
  obtains c' where "TcpConnection_send_rest c data k (length data - k) = Inr c'" and "conn_inv c'"
    and "state c' = state c" and "accepted c' = accepted c @ data" and "wr_shut c' = wr_shut c"
proof (cases "k = length data")
  case True
  let ?c = "c\<lparr>accepted := accepted c @ data\<rparr>"
  have "TcpConnection_send_rest c data k (length data - k) = Inr ?c"
    using True by (simp add: TcpConnection_send_rest_def)
  moreover have "conn_inv ?c"
    by (rule conn_inv_open [of _ ch])
      (use op chan idx wrt wf bytes first True in \<open>auto simp: is_open_def\<close>)
  ultimately show ?thesis using that by simp
next
  case False
  let ?c = "c\<lparr>accepted := accepted c @ data\<rparr>"
  have "sent ?c @ Buffer_content (outputBuffer ?c) @ drop k data = accepted ?c"
    using arg_cong [OF bytes, of "\<lambda>b. b @ drop k data"] by simp
  moreover have "drop k data \<noteq> []" using False k by simp
  moreover have "Buffer_can_take (outputBuffer ?c) (length (drop k data))"
    using room by (auto simp: Buffer_can_take_def)
  ultimately obtain c' where "TcpConnection_buffer_rest ?c (drop k data) = Inr c'" "conn_inv c'"
    "state c' = state ?c" "accepted c' = accepted ?c" "wr_shut c' = wr_shut ?c"
    using TcpConnection_buffer_rest_ok [of ?c ch "drop k data"] chan op idx wf
    by (auto simp: is_open_def)
  with False k show ?thesis by (intro that [of c']) (simp_all add: TcpConnection_send_rest_def)
qed

lemma wrote_simps [simp]:
  "conn_chan (TcpConnection_wrote c data n) ch = conn_chan c ch"
  "state (TcpConnection_wrote c data n) = state c"
  "outputBuffer (TcpConnection_wrote c data n) = outputBuffer c"
  "inputBuffer (TcpConnection_wrote c data n) = inputBuffer c"
  "sent (TcpConnection_wrote c data n) = sent c @ take n data"
  "accepted (TcpConnection_wrote c data n) = accepted c"
  "wr_shut (TcpConnection_wrote c data n) = wr_shut c"
  by (simp_all add: TcpConnection_wrote_def Let_def)

lemma TcpConnection_sendInLoop_ok:
  assumes inv: "conn_inv c" and st: "state c \<noteq> kConnecting" and wr: "wr_ok (length data) wr"
    and room: "Buffer_can_take (outputBuffer c) (length data)"
  shows "\<exists>c'. TcpConnection_sendInLoop c data wr = Inr c' \<and> conn_inv c' \<and> state c' = state c
    \<and> accepted c' = accepted c @ (if gives_up c wr then [] else data) \<and> wr_shut c' = wr_shut c"
proof (cases "state c = kDisconnected")
  case True
  with inv show ?thesis by (simp add: TcpConnection_sendInLoop_def gives_up_def)
next
  case False
  then have op: "is_open c" using st by (cases "state c") (simp_all add: is_open_def)
  from inv obtain ch where chan: "conn_chan c ch" and m: "chan_matches c ch"
    and wf: "Buffer_wf (inputBuffer c)" "Buffer_wf (outputBuffer c)"
    and bytes: "sent c @ Buffer_content (outputBuffer c) = accepted c" by (rule conn_invE)
  have idx: "index ch \<noteq> kNew" and wrt: "Channel_isWriting ch \<longleftrightarrow> Buffer_content (outputBuffer c) \<noteq> []"
    using m op by (simp_all add: chan_matches_open)
  have direct: "\<not> Channel_isWriting ch \<and> Buffer_readableBytes (outputBuffer c) = 0 \<longleftrightarrow>
      Buffer_content (outputBuffer c) = []"
    using wrt readableBytes_wf [OF wf(2)] by auto
  have buffered: ?thesis
    if "TcpConnection_sendInLoop c data wr = TcpConnection_send_rest c data 0 (length data)"
      and "\<not> gives_up c wr"
  proof -
    obtain c' where "TcpConnection_send_rest c data 0 (length data - 0) = Inr c'" "conn_inv c'"
      "state c' = state c" "accepted c' = accepted c @ data" "wr_shut c' = wr_shut c"
      by (rule TcpConnection_send_rest_ok [OF chan op idx wrt wf room, of 0]) (use bytes in simp_all)
    with that show ?thesis by simp
  qed
  show ?thesis
  proof (cases "Buffer_content (outputBuffer c) = []")
    case empty: True
    show ?thesis
    proof (cases wr)
      case (Wrote n)
      let ?c = "TcpConnection_wrote c data n"
      have n: "n \<le> length data" using wr Wrote by (simp add: wr_ok_def)
      have "length data < 2 ^ 64"
        using room vector_max_less [of "length data"] by (simp add: Buffer_can_take_def)
      then have "size_sub (length data) n = length data - n" using n by (intro size_sub_le)
      then have "TcpConnection_sendInLoop c data wr = TcpConnection_send_rest ?c data n (length data - n)"
        using False Wrote the_channel_ok [OF chan] direct empty by (simp add: TcpConnection_sendInLoop_def)
      moreover obtain c' where "TcpConnection_send_rest ?c data n (length data - n) = Inr c'" "conn_inv c'"
        "state c' = state ?c" "accepted c' = accepted ?c @ data" "wr_shut c' = wr_shut ?c"
        by (rule TcpConnection_send_rest_ok [of ?c ch data n])
          (use chan op idx wrt wf room n bytes empty in \<open>simp_all add: is_open_def\<close>)
      moreover have "\<not> gives_up c wr" using False Wrote by (simp add: gives_up_def)
      ultimately show ?thesis by simp
    next
      case (Write_error e)
      show ?thesis
      proof (cases "e = EPIPE \<or> e = ECONNRESET")
        case True
        then have "TcpConnection_sendInLoop c data wr = Inr c" and "gives_up c wr"
          using False Write_error the_channel_ok [OF chan] direct empty
          by (auto simp: TcpConnection_sendInLoop_def gives_up_def errno_defs)
        with inv show ?thesis by simp
      next
        case ok: False
        then show ?thesis
          using False Write_error the_channel_ok [OF chan] direct empty
          by (intro buffered) (auto simp: TcpConnection_sendInLoop_def gives_up_def)
      qed
    qed
  next
    case full: False
    then show ?thesis using False the_channel_ok [OF chan] direct
      by (intro buffered) (auto simp: TcpConnection_sendInLoop_def gives_up_def)
  qed
qed

section \<open>Writing, shutting down and closing\<close>

lemma TcpConnection_shutdownInLoop_ok:
  assumes inv: "conn_inv c" and op: "is_open c"
  shows "TcpConnection_shutdownInLoop c =
      Inr (if Buffer_content (outputBuffer c) = [] then c\<lparr>wr_shut := True\<rparr> else c)"
proof -
  from inv obtain ch where "conn_chan c ch" and "chan_matches c ch" by (rule conn_invE)
  then show ?thesis using op by (simp add: TcpConnection_shutdownInLoop_def chan_matches_open)
qed

lemma TcpConnection_after_write_ok:
  assumes chan: "conn_chan c ch" and op: "is_open c" and idx: "index ch \<noteq> kNew"
    and wrt: "Channel_isWriting ch" and wf: "Buffer_wf (inputBuffer c)" "Buffer_wf (outputBuffer c)"
    and bytes: "sent c @ Buffer_content (outputBuffer c) = accepted c"
  shows "\<exists>c'. TcpConnection_after_write c = Inr c' \<and> conn_inv c' \<and> state c' = state c
    \<and> accepted c' = accepted c \<and> outputBuffer c' = outputBuffer c
    \<and> wr_shut c' = (wr_shut c \<or> state c = kDisconnecting \<and> Buffer_content (outputBuffer c) = [])"
proof (cases "Buffer_content (outputBuffer c) = []")
  case False
  then have "TcpConnection_after_write c = Inr c"
    using readableBytes_wf [OF wf(2)] by (simp add: TcpConnection_after_write_def del: length_Buffer_content)
  moreover have "conn_inv c"
    by (rule conn_inv_open [OF op chan idx]) (use wrt False wf bytes in simp_all)
  ultimately show ?thesis using False by simp
next
  case True
  obtain L' i where u: "on_loop Channel_disableWriting c = Inr (c\<lparr>loop := L'\<rparr>)"
    "conn_chan (c\<lparr>loop := L'\<rparr>)
      (ch\<lparr>events := clear_flag kWriteEvent (events ch), addedToLoop := True, index := i\<rparr>)" "i \<noteq> kNew"
    unfolding on_loop_simps by (rule conn_set_events [OF chan, of clear_flag kWriteEvent])
  let ?c1 = "c\<lparr>loop := L'\<rparr>"
  let ?c2 = "if writeCompleteCallback ?c1 then queue_functor True ?c1 WriteComplete else ?c1"
  have "conn_inv ?c1"
    by (rule conn_inv_open [OF _ u(2)]) (use op u(3) True wf bytes in \<open>simp_all add: is_open_def isWriting_bit\<close>)
  then have inv2: "conn_inv ?c2" by simp
  have c2: "state ?c2 = state c" "outputBuffer ?c2 = outputBuffer c" "accepted ?c2 = accepted c"
    "wr_shut ?c2 = wr_shut c" "is_open ?c2" using op by (simp_all add: is_open_def)
  have "TcpConnection_after_write c =
      (if state ?c2 = kDisconnecting then TcpConnection_shutdownInLoop ?c2 else Inr ?c2)"
    using True readableBytes_wf [OF wf(2)] u(1)
    by (simp add: TcpConnection_after_write_def Let_def del: length_Buffer_content)
  also have "\<dots> = Inr (if state c = kDisconnecting then ?c2\<lparr>wr_shut := True\<rparr> else ?c2)"
    using TcpConnection_shutdownInLoop_ok [OF inv2 c2(5)] True c2(1,2) by simp
  finally show ?thesis
    using inv2 c2 True
    by (intro exI [of _ "if state c = kDisconnecting then ?c2\<lparr>wr_shut := True\<rparr> else ?c2"]) simp
qed

text \<open>
  A write event: what the socket takes leaves the buffer; when the buffer is empty the
  connection stops asking for write events, and a connection that is being shut down then
  shuts its write side down.
\<close>

lemma TcpConnection_handleWrite_ok:
  assumes inv: "conn_inv c" and op: "is_open c"
    and wr: "wr_ok (length (Buffer_content (outputBuffer c))) wr"
  shows "\<exists>c'. TcpConnection_handleWrite c wr = Inr c' \<and> conn_inv c' \<and> state c' = state c
    \<and> accepted c' = accepted c
    \<and> Buffer_content (outputBuffer c') =
        drop (case wr of Wrote n \<Rightarrow> n | Write_error e \<Rightarrow> 0) (Buffer_content (outputBuffer c))
    \<and> wr_shut c' = (wr_shut c \<or> state c = kDisconnecting \<and> Buffer_content (outputBuffer c) \<noteq> []
        \<and> Buffer_content (outputBuffer c') = [])"
proof -
  from inv obtain ch where chan: "conn_chan c ch" and m: "chan_matches c ch"
    and wf: "Buffer_wf (inputBuffer c)" "Buffer_wf (outputBuffer c)"
    and bytes: "sent c @ Buffer_content (outputBuffer c) = accepted c" by (rule conn_invE)
  have idx: "index ch \<noteq> kNew" and wrt: "Channel_isWriting ch \<longleftrightarrow> Buffer_content (outputBuffer c) \<noteq> []"
    using m op by (simp_all add: chan_matches_open)
  show ?thesis
  proof (cases "Channel_isWriting ch \<and> is_Wrote wr \<and> wrote wr > 0")
    case False
    then have "TcpConnection_handleWrite c wr = Inr c"
      using the_channel_ok [OF chan] by (cases wr) (auto simp: TcpConnection_handleWrite_def)
    moreover have "drop (case wr of Wrote n \<Rightarrow> n | Write_error e \<Rightarrow> 0) (Buffer_content (outputBuffer c))
        = Buffer_content (outputBuffer c)"
      using False wrt by (cases wr) auto
    ultimately show ?thesis using inv by (intro exI [of _ c]) auto
  next
    case True
    then obtain n where n: "wr = Wrote n" "0 < n" by (cases wr) auto
    then have len: "n \<le> length (Buffer_content (outputBuffer c))" using wr by (simp add: wr_ok_def)
    obtain ob where ob: "Buffer_retrieve (outputBuffer c) n = Inr ob" "Buffer_wf ob"
      "Buffer_content ob = drop n (Buffer_content (outputBuffer c))"
      by (rule Buffer_retrieve_ok [OF wf(2) len])
    let ?c1 = "c\<lparr>sent := sent c @ take n (Buffer_content (outputBuffer c)), outputBuffer := ob\<rparr>"
    have "TcpConnection_handleWrite c wr = TcpConnection_after_write ?c1"
      using True n ob(1) the_channel_ok [OF chan] peek_take_wf [OF wf(2) len]
      by (simp add: TcpConnection_handleWrite_def Let_def)
    moreover have "\<exists>c'. TcpConnection_after_write ?c1 = Inr c' \<and> conn_inv c' \<and> state c' = state ?c1
        \<and> accepted c' = accepted ?c1 \<and> outputBuffer c' = outputBuffer ?c1
        \<and> wr_shut c' = (wr_shut ?c1 \<or> state ?c1 = kDisconnecting \<and> Buffer_content (outputBuffer ?c1) = [])"
      by (rule TcpConnection_after_write_ok [of _ ch])
        (use chan op idx True wf ob bytes in \<open>simp_all add: is_open_def\<close>)
    ultimately show ?thesis using n(1) ob(3) True wrt by auto
  qed
qed

section \<open>Closing and destroying\<close>

text \<open>
  What the connection relies on in the user's callbacks: they return, they keep the invariant,
  and a connection that is down stays down with its channel as it is, so they do not start
  reading on it again.
\<close>

definition closed_kept :: "TcpConnection \<Rightarrow> TcpConnection \<Rightarrow> bool" where
  "closed_kept c c' \<longleftrightarrow> (state c = kDisconnected \<longrightarrow>
     state c' = kDisconnected \<and> channel c' = channel c \<and> the_channel c' = the_channel c
     \<and> loop_eventHandling (loop c') = loop_eventHandling (loop c)
     \<and> activeChannels (loop c') = activeChannels (loop c)
     \<and> currentActiveChannel (loop c') = currentActiveChannel (loop c))"

definition user_ok :: "conn_user \<Rightarrow> bool" where
  "user_ok user \<longleftrightarrow> (\<forall>call c. conn_inv c \<longrightarrow>
     (\<exists>c'. user call c = Inr c' \<and> conn_inv c' \<and> closed_kept c c'))"

lemma user_okD:
  assumes "user_ok user" and "conn_inv c"
  obtains c' where "user call c = Inr c'" and "conn_inv c'" and "closed_kept c c'"
  using assms unfolding user_ok_def by blast

lemma closed_kept_trans: "closed_kept a b \<Longrightarrow> closed_kept b c \<Longrightarrow> closed_kept a c"
  by (auto simp: closed_kept_def)

lemma conn_disableAll:
  assumes inv: "conn_inv c"
  obtains L' ch where "on_loop Channel_disableAll (c\<lparr>state := kDisconnected\<rparr>) =
      Inr (c\<lparr>state := kDisconnected, loop := L'\<rparr>)"
    and "conn_inv (c\<lparr>state := kDisconnected, loop := L'\<rparr>)" and "same_loop (loop c) L'"
    and "conn_chan (c\<lparr>state := kDisconnected, loop := L'\<rparr>) ch" and "events ch = kNoneEvent"
    and "index ch \<noteq> kNew"
proof -
  from inv obtain ch where chan: "conn_chan c ch"
    and wf: "Buffer_wf (inputBuffer c)" "Buffer_wf (outputBuffer c)"
    and bytes: "sent c @ Buffer_content (outputBuffer c) = accepted c" by (rule conn_invE)
  let ?c = "c\<lparr>state := kDisconnected\<rparr>"
  have "conn_chan ?c ch" using chan by simp
  then obtain L' i where u: "on_loop Channel_disableAll ?c = Inr (?c\<lparr>loop := L'\<rparr>)"
    "conn_chan (?c\<lparr>loop := L'\<rparr>) (ch\<lparr>events := kNoneEvent, addedToLoop := True, index := i\<rparr>)"
    "i \<noteq> kNew" "same_loop (loop ?c) L'"
    unfolding on_loop_simps by (rule conn_set_events [of _ _ "\<lambda>w ev. w" kNoneEvent])
  have "conn_inv (?c\<lparr>loop := L'\<rparr>)"
    by (rule conn_invI [OF u(2)]) (use wf bytes in \<open>simp_all add: chan_matches_def isWriting_bit\<close>)
  with u show ?thesis
    by (intro that [of L' "ch\<lparr>events := kNoneEvent, addedToLoop := True, index := i\<rparr>"]) simp_all
qed

lemma TcpConnection_handleClose_ok:
  assumes inv: "conn_inv c" and op: "is_open c" and user: "user_ok user"
  shows "\<exists>c'. TcpConnection_handleClose user c = Inr c' \<and> conn_inv c' \<and> state c' = kDisconnected
    \<and> (\<exists>ch. the_channel c' = Inr ch \<and> events ch = kNoneEvent)"
proof -
  obtain L' ch where d: "on_loop Channel_disableAll (c\<lparr>state := kDisconnected\<rparr>) =
      Inr (c\<lparr>state := kDisconnected, loop := L'\<rparr>)"
    "conn_inv (c\<lparr>state := kDisconnected, loop := L'\<rparr>)"
    "conn_chan (c\<lparr>state := kDisconnected, loop := L'\<rparr>) ch" "events ch = kNoneEvent"
    by (rule conn_disableAll [OF inv])
  let ?c1 = "c\<lparr>state := kDisconnected, loop := L'\<rparr>"
  obtain c2 where c2: "user On_connection ?c1 = Inr c2" "conn_inv c2" "closed_kept ?c1 c2"
    by (rule user_okD [OF user d(2)])
  obtain c3 where c3: "user On_close c2 = Inr c3" "conn_inv c3" "closed_kept c2 c3"
    by (rule user_okD [OF user c2(2)])
  have "closed_kept ?c1 c3" using closed_kept_trans c2(3) c3(3) by blast
  then have "state c3 = kDisconnected" and "the_channel c3 = Inr ch"
    using d(3) by (simp_all add: closed_kept_def)
  moreover have "TcpConnection_handleClose user c = Inr c3"
    using op d(1) c2(1) c3(1) by (simp add: TcpConnection_handleClose_def is_open_def)
  ultimately show ?thesis using c3(2) d(4) by auto
qed

lemma TcpConnection_handleRead_ok:
  assumes inv: "conn_inv c" and op: "is_open c" and user: "user_ok user"
    and room: "\<And>bs. rd = Inr bs \<Longrightarrow> Buffer_can_take (inputBuffer c) (length bs)"
  shows "\<exists>c'. TcpConnection_handleRead user c rd = Inr c' \<and> conn_inv c'"
proof -
  have read: "conn_inv (c\<lparr>inputBuffer := ib\<rparr>)" if "Buffer_wf ib" for ib
    using inv that by (auto simp: conn_inv_def)
  show ?thesis
  proof (cases rd)
    case (Inl e)
    then have "TcpConnection_handleRead user c rd = Inr (c\<lparr>inputBuffer := inputBuffer c\<rparr>)"
      by (simp add: TcpConnection_handleRead_def Buffer_readFd_def TcpConnection_handleError_def)
    with inv show ?thesis by simp
  next
    case (Inr bs)
    have wf: "Buffer_wf (inputBuffer c)" using inv by (simp add: conn_inv_def)
    from room [OF Inr] Buffer_put_read_ok [OF wf, of bs 0] obtain b1
      where "Buffer_put_read (inputBuffer c) bs = Inr b1" "Buffer_wf b1" by auto
    then obtain n e where n: "Buffer_readFd (inputBuffer c) (Inr bs) = Inr (n, e, b1)"
      by (auto simp: Buffer_put_read_def andThen_eq_Inr)
    have "length bs \<le> vector_max" using room [OF Inr] by (simp add: Buffer_can_take_def)
    then have "n = int (length bs)" using Buffer_readFd_Inr(3) [OF wf _ n] by simp
    let ?c1 = "c\<lparr>inputBuffer := b1\<rparr>"
    have inv1: "conn_inv ?c1" using read [OF \<open>Buffer_wf b1\<close>] .
    have "TcpConnection_handleRead user c rd =
        (if bs = [] then TcpConnection_handleClose user ?c1 else user On_message ?c1)"
      using Inr n \<open>n = int (length bs)\<close> by (simp add: TcpConnection_handleRead_def)
    moreover have "is_open ?c1" using op by (simp add: is_open_def)
    ultimately show ?thesis
      using TcpConnection_handleClose_ok [OF inv1 _ user] user_okD [OF user inv1, of On_message] by metis
  qed
qed

lemma conn_read_events:
  assumes inv: "conn_inv c" and op: "is_open c"
    and f: "f w = set_flag kReadEvent \<or> f w = clear_flag kReadEvent"
  obtains L' where "on_loop (Channel_set_events f w) c = Inr (c\<lparr>loop := L'\<rparr>)"
    and "conn_inv (c\<lparr>loop := L'\<rparr>)"
proof -
  from inv obtain ch where chan: "conn_chan c ch" and m: "chan_matches c ch"
    and wf: "Buffer_wf (inputBuffer c)" "Buffer_wf (outputBuffer c)"
    and bytes: "sent c @ Buffer_content (outputBuffer c) = accepted c" by (rule conn_invE)
  obtain L' i where u: "on_loop (Channel_set_events f w) c = Inr (c\<lparr>loop := L'\<rparr>)"
    "conn_chan (c\<lparr>loop := L'\<rparr>) (ch\<lparr>events := f w (events ch), addedToLoop := True, index := i\<rparr>)"
    "i \<noteq> kNew" by (rule conn_set_events [OF chan])
  have "bit (f w (events ch)) 2 = bit (events ch) 2" using f by auto
  then have "conn_inv (c\<lparr>loop := L'\<rparr>)"
    using op m u(3) wf bytes
    by (intro conn_inv_open [OF _ u(2)]) (simp_all add: is_open_def chan_matches_open isWriting_bit)
  with u(1) that show ?thesis by blast
qed

lemma TcpConnection_startReadInLoop_ok:
  assumes inv: "conn_inv c" and op: "is_open c"
  shows "\<exists>c'. TcpConnection_startReadInLoop c = Inr c' \<and> conn_inv c'"
proof -
  from inv obtain ch where "conn_chan c ch" by (rule conn_invE)
  moreover obtain L' where "on_loop Channel_enableReading c = Inr (c\<lparr>loop := L'\<rparr>)"
    "conn_inv (c\<lparr>loop := L'\<rparr>)"
    unfolding on_loop_simps by (rule conn_read_events [OF inv op, of set_flag kReadEvent]) auto
  ultimately show ?thesis using inv by (simp add: TcpConnection_startReadInLoop_def)
qed

lemma TcpConnection_stopReadInLoop_ok:
  assumes inv: "conn_inv c" and op: "is_open c"
  shows "\<exists>c'. TcpConnection_stopReadInLoop c = Inr c' \<and> conn_inv c'"
proof -
  from inv obtain ch where "conn_chan c ch" by (rule conn_invE)
  moreover obtain L' where "on_loop Channel_disableReading c = Inr (c\<lparr>loop := L'\<rparr>)"
    "conn_inv (c\<lparr>loop := L'\<rparr>)"
    unfolding on_loop_simps by (rule conn_read_events [OF inv op, of clear_flag kReadEvent]) auto
  ultimately show ?thesis using inv by (simp add: TcpConnection_stopReadInLoop_def)
qed

lemma TcpConnection_connectEstablished_ok:
  assumes inv: "conn_inv c" and st: "state c = kConnecting" and user: "user_ok user"
  shows "\<exists>c'. TcpConnection_connectEstablished user c = Inr c' \<and> conn_inv c'"
proof -
  from inv obtain ch where chan: "conn_chan c ch" and m: "chan_matches c ch"
    and wf: "Buffer_wf (inputBuffer c)" "Buffer_wf (outputBuffer c)"
    and bytes: "sent c @ Buffer_content (outputBuffer c) = accepted c" by (rule conn_invE)
  let ?c1 = "c\<lparr>state := kConnected, loop := (loop c)\<lparr>chan_store :=
    (chan_store (loop c))(channel c \<mapsto> Channel_tie ch)\<rparr>\<rparr>"
  have "conn_chan ?c1 (Channel_tie ch)"
    using chan loop_inv_tie [of "loop c" "channel c" ch]
    by (simp add: conn_chan_def registrable_def Channel_tie_def)
  then obtain L' i where u: "on_loop Channel_enableReading ?c1 = Inr (?c1\<lparr>loop := L'\<rparr>)"
    "conn_chan (?c1\<lparr>loop := L'\<rparr>) ((Channel_tie ch)\<lparr>events := set_flag kReadEvent (events (Channel_tie ch)),
        addedToLoop := True, index := i\<rparr>)" "i \<noteq> kNew"
    unfolding on_loop_simps by (rule conn_set_events [of _ _ set_flag kReadEvent])
  have "events ch = kNoneEvent" and "Buffer_content (outputBuffer c) = []"
    using m st by (simp_all add: chan_matches_def)
  then have "conn_inv (?c1\<lparr>loop := L'\<rparr>)"
    by (intro conn_inv_open [OF _ u(2)])
      (use u(3) wf bytes in \<open>simp_all add: is_open_def isWriting_bit Channel_tie_def\<close>)
  then obtain c' where "user On_connection (?c1\<lparr>loop := L'\<rparr>) = Inr c'" "conn_inv c'"
    by (rule user_okD [OF user])
  with st u(1) the_channel_ok [OF chan] show ?thesis
    by (simp add: TcpConnection_connectEstablished_def Let_def)
qed

text \<open>
  Destroying takes the channel out of the loop; it may come while the connection is up, or
  after it went down.
\<close>

definition channel_idle :: "TcpConnection \<Rightarrow> bool" where
  "channel_idle c \<longleftrightarrow> (loop_eventHandling (loop c) \<longrightarrow>
     currentActiveChannel (loop c) = Some (channel c) \<or> channel c \<notin> set (activeChannels (loop c)))"

lemma TcpConnection_connectDestroyed_ok:
  assumes inv: "conn_inv c" and user: "user_ok user" and idle: "channel_idle c"
    and st: "state c = kConnected \<or> state c = kDisconnected \<and>
      (\<exists>ch. the_channel c = Inr ch \<and> events ch = kNoneEvent \<and> index ch \<noteq> kNew)"
  shows "\<exists>c'. TcpConnection_connectDestroyed user c = Inr c' \<and> state c' = kDisconnected
    \<and> (\<exists>ch. conn_chan c' ch \<and> index ch = kNew)"
proof -
  have "\<exists>c1 ch. (if state c = kConnected
        then andThen (on_loop Channel_disableAll (c\<lparr>state := kDisconnected\<rparr>)) (user On_connection)
        else Inr c) = Inr c1 \<and> conn_inv c1 \<and> state c1 = kDisconnected \<and> channel_idle c1
      \<and> the_channel c1 = Inr ch \<and> events ch = kNoneEvent \<and> index ch \<noteq> kNew"
  proof (cases "state c = kConnected")
    case False
    with st inv idle show ?thesis by auto
  next
    case True
    obtain L' ch where d: "on_loop Channel_disableAll (c\<lparr>state := kDisconnected\<rparr>) =
        Inr (c\<lparr>state := kDisconnected, loop := L'\<rparr>)"
      "conn_inv (c\<lparr>state := kDisconnected, loop := L'\<rparr>)" "same_loop (loop c) L'"
      "conn_chan (c\<lparr>state := kDisconnected, loop := L'\<rparr>) ch" "events ch = kNoneEvent" "index ch \<noteq> kNew"
      by (rule conn_disableAll [OF inv])
    obtain c1 where c1: "user On_connection (c\<lparr>state := kDisconnected, loop := L'\<rparr>) = Inr c1"
      "conn_inv c1" "closed_kept (c\<lparr>state := kDisconnected, loop := L'\<rparr>) c1"
      by (rule user_okD [OF user d(2)])
    then have "state c1 = kDisconnected" and "the_channel c1 = Inr ch" and "channel_idle c1"
      using d(3,4) idle by (simp_all add: closed_kept_def channel_idle_def same_loop_def)
    with True d c1 show ?thesis by auto
  qed
  then obtain c1 ch where c1: "TcpConnection_connectDestroyed user c = on_loop Channel_remove c1"
    "conn_inv c1" "state c1 = kDisconnected" "channel_idle c1" "the_channel c1 = Inr ch"
    "events ch = kNoneEvent" "index ch \<noteq> kNew"
    by (auto simp: TcpConnection_connectDestroyed_def)
  from c1(2) obtain ch' where "conn_chan c1 ch'" by (rule conn_invE)
  with c1(5) have chan: "conn_chan c1 ch" using the_channel_ok by force
  obtain L' where "on_loop Channel_remove c1 = Inr (c1\<lparr>loop := L'\<rparr>)"
    "conn_chan (c1\<lparr>loop := L'\<rparr>) (ch\<lparr>addedToLoop := False, index := kNew\<rparr>)"
    by (rule conn_remove [OF chan c1(7,6)]) (use c1(4) in \<open>auto simp: channel_idle_def\<close>)
  with c1(1,3) show ?thesis by force
qed

text \<open>
  Destroying a connection that is still shutting down runs into the assertion of
  \<open>Channel::remove\<close>: its channel is still watched.
\<close>

lemma TcpConnection_connectDestroyed_disconnecting:
  assumes chan: "conn_chan c ch" and "state c = kDisconnecting" and "events ch \<noteq> kNoneEvent"
  shows "TcpConnection_connectDestroyed user c = Inl Assert_failed"
proof -
  have "deref_channel (chan_store (loop c)) (channel c) = Inr ch"
    using chan by (simp add: conn_chan_def deref_channel_def)
  then show ?thesis using assms(2,3)
    by (simp add: TcpConnection_connectDestroyed_def on_loop_def Channel_remove_def Channel_isNoneEvent_def)
qed

section \<open>The life of a connection\<close>

text \<open>
  The events of a connection: operations called in the loop thread or (with the flag false) in
  another one, readiness reported by the poller with what the socket then does, and a pending
  functor being run.
\<close>

datatype conn_event =
    Ev_established
  | Ev_send bool "byte list" write_result
  | Ev_shutdown bool
  | Ev_forceClose bool
  | Ev_forceCloseWithDelay int
  | Ev_startRead bool
  | Ev_stopRead bool
  | Ev_readable "int + byte list"
  | Ev_writable write_result
  | Ev_functor write_result

definition pop_functor :: "TcpConnection \<Rightarrow> TcpConnection" where
  "pop_functor c = c\<lparr>loop := (loop c)\<lparr>pendingFunctors := tl (pendingFunctors (loop c))\<rparr>\<rparr>"

fun conn_exec :: "conn_user \<Rightarrow> conn_event \<Rightarrow> TcpConnection \<Rightarrow> TcpConnection res" where
  "conn_exec user Ev_established c = TcpConnection_connectEstablished user c"
| "conn_exec user (Ev_send inLoop d wr) c = TcpConnection_send inLoop c d wr"
| "conn_exec user (Ev_shutdown inLoop) c = TcpConnection_shutdown inLoop c"
| "conn_exec user (Ev_forceClose inLoop) c = Inr (TcpConnection_forceClose inLoop c)"
| "conn_exec user (Ev_forceCloseWithDelay delay) c = Inr (TcpConnection_forceCloseWithDelay c delay)"
| "conn_exec user (Ev_startRead inLoop) c = TcpConnection_startRead inLoop c"
| "conn_exec user (Ev_stopRead inLoop) c = TcpConnection_stopRead inLoop c"
| "conn_exec user (Ev_readable rd) c = TcpConnection_handleRead user c rd"
| "conn_exec user (Ev_writable wr) c = TcpConnection_handleWrite c wr"
| "conn_exec user (Ev_functor wr) c =
     (case pendingFunctors (loop c) of
        [] \<Rightarrow> Inr c
      | f # fs \<Rightarrow> TcpConnection_run user wr f (pop_functor c))"

text \<open>
  What the environment guarantees of an event: the socket takes no more than it is given, the
  buffers have room, events are reported on an open connection only, reading is switched on an
  open connection only, and the connection is established first.
\<close>

definition send_fits :: "TcpConnection \<Rightarrow> byte list \<Rightarrow> write_result \<Rightarrow> bool" where
  "send_fits c d wr \<longleftrightarrow> wr_ok (length d) wr \<and> Buffer_can_take (outputBuffer c) (length d)"

fun functor_ok :: "TcpConnection \<Rightarrow> write_result \<Rightarrow> conn_functor \<Rightarrow> bool" where
  "functor_ok c wr (SendInLoop d) = send_fits c d wr"
| "functor_ok c wr StartReadInLoop = is_open c"
| "functor_ok c wr StopReadInLoop = is_open c"
| "functor_ok c wr ConnectDestroyed = False"
| "functor_ok c wr f = True"

fun conn_event_ok :: "TcpConnection \<Rightarrow> conn_event \<Rightarrow> bool" where
  "conn_event_ok c Ev_established = (state c = kConnecting)"
| "conn_event_ok c (Ev_send inLoop d wr) = (state c \<noteq> kConnecting \<and> send_fits c d wr)"
| "conn_event_ok c (Ev_startRead inLoop) = is_open c"
| "conn_event_ok c (Ev_stopRead inLoop) = is_open c"
| "conn_event_ok c (Ev_readable rd) = (is_open c \<and>
     (case rd of Inl e \<Rightarrow> True | Inr bs \<Rightarrow> Buffer_can_take (inputBuffer c) (length bs)))"
| "conn_event_ok c (Ev_writable wr) =
     (is_open c \<and> wr_ok (length (Buffer_content (outputBuffer c))) wr)"
| "conn_event_ok c (Ev_functor wr) = (state c \<noteq> kConnecting \<and>
     (case pendingFunctors (loop c) of [] \<Rightarrow> True | f # fs \<Rightarrow> functor_ok c wr f))"
| "conn_event_ok c ev = (state c \<noteq> kConnecting)"

lemma open_or_down: "state c \<noteq> kConnecting \<Longrightarrow> is_open c \<or> state c = kDisconnected"
  by (cases "state c") (simp_all add: is_open_def)

lemma pop_functor_simps [simp]:
  "conn_inv (pop_functor c) = conn_inv c" "state (pop_functor c) = state c"
  "is_open (pop_functor c) = is_open c" "outputBuffer (pop_functor c) = outputBuffer c"
proof -
  have "conn_chan (pop_functor c) ch = conn_chan c ch" for ch
    by (simp add: conn_chan_def pop_functor_def loop_inv_def)
  moreover have "chan_matches (pop_functor c) ch = chan_matches c ch" for ch
    by (simp add: chan_matches_def pop_functor_def split: StateE.split)
  ultimately show "conn_inv (pop_functor c) = conn_inv c"
    by (simp add: conn_inv_def) (simp add: pop_functor_def)
qed (simp_all add: pop_functor_def is_open_def)

lemma conn_inv_disconnecting:
  assumes "conn_inv c" and "is_open c"
  shows "conn_inv (c\<lparr>state := kDisconnecting\<rparr>)"
proof -
  from assms(1) obtain ch where "conn_chan c ch" "chan_matches c ch" "Buffer_wf (inputBuffer c)"
    "Buffer_wf (outputBuffer c)" "sent c @ Buffer_content (outputBuffer c) = accepted c"
    by (rule conn_invE)
  with assms(2) show ?thesis
    by (intro conn_inv_open [of _ ch]) (simp_all add: is_open_def chan_matches_open)
qed

lemma TcpConnection_shutdownInLoop_any:
  assumes "conn_inv c" and "state c \<noteq> kConnecting"
  shows "\<exists>c'. TcpConnection_shutdownInLoop c = Inr c' \<and> conn_inv c'"
proof (cases "is_open c")
  case True
  with TcpConnection_shutdownInLoop_ok [OF assms(1)] assms(1) show ?thesis by simp
next
  case False
  from assms(1) obtain ch where "conn_chan c ch" by (rule conn_invE)
  with assms(1) show ?thesis by (simp add: TcpConnection_shutdownInLoop_def)
qed

lemma TcpConnection_run_ok:
  assumes inv: "conn_inv c" and user: "user_ok user" and st: "state c \<noteq> kConnecting"
    and ok: "functor_ok c wr f"
  shows "\<exists>c'. TcpConnection_run user wr f c = Inr c' \<and> conn_inv c'"
proof (cases f)
  case (SendInLoop d)
  with ok TcpConnection_sendInLoop_ok [OF inv st, of d wr] show ?thesis by (auto simp: send_fits_def)
next
  case ForceCloseInLoop
  show ?thesis
  proof (cases "is_open c")
    case True
    with TcpConnection_handleClose_ok [OF inv True user] ForceCloseInLoop show ?thesis
      by (auto simp: TcpConnection_forceCloseInLoop_def is_open_def)
  next
    case False
    with ForceCloseInLoop inv show ?thesis by (simp add: TcpConnection_forceCloseInLoop_def is_open_def)
  qed
next
  case WriteComplete
  obtain c' where "user On_writeComplete c = Inr c'" "conn_inv c'" by (rule user_okD [OF user inv])
  with WriteComplete show ?thesis by simp
next
  case (HighWaterMark n)
  obtain c' where "user (On_highWaterMark n) c = Inr c'" "conn_inv c'" by (rule user_okD [OF user inv])
  with HighWaterMark show ?thesis by simp
next
  case ShutdownInLoop
  with TcpConnection_shutdownInLoop_any [OF inv st] show ?thesis by simp
next
  case StartReadInLoop
  with TcpConnection_startReadInLoop_ok [OF inv] ok show ?thesis by simp
next
  case StopReadInLoop
  with TcpConnection_stopReadInLoop_ok [OF inv] ok show ?thesis by simp
next
  case ConnectDestroyed
  with ok show ?thesis by simp
qed

lemma conn_exec_ok:
  assumes inv: "conn_inv c" and user: "user_ok user" and ok: "conn_event_ok c ev"
  shows "\<exists>c'. conn_exec user ev c = Inr c' \<and> conn_inv c'"
proof (cases ev)
  case Ev_established
  with TcpConnection_connectEstablished_ok [OF inv _ user] ok show ?thesis by simp
next
  case (Ev_send inLoop d wr)
  with ok TcpConnection_sendInLoop_ok [OF inv, of d wr] inv show ?thesis
    by (auto simp: TcpConnection_send_def send_fits_def)
next
  case (Ev_shutdown inLoop)
  show ?thesis
  proof (cases "state c = kConnected")
    case True
    then have "conn_inv (c\<lparr>state := kDisconnecting\<rparr>)"
      using conn_inv_disconnecting [OF inv] by (simp add: is_open_def)
    with TcpConnection_shutdownInLoop_any [OF this] True Ev_shutdown show ?thesis
      by (auto simp: TcpConnection_shutdown_def Let_def)
  next
    case False
    with Ev_shutdown inv show ?thesis by (simp add: TcpConnection_shutdown_def)
  qed
next
  case (Ev_forceClose inLoop)
  with conn_inv_disconnecting [OF inv] inv show ?thesis
    by (auto simp: TcpConnection_forceClose_def is_open_def)
next
  case (Ev_forceCloseWithDelay d)
  with conn_inv_disconnecting [OF inv] inv show ?thesis
    by (auto simp: TcpConnection_forceCloseWithDelay_def is_open_def)
next
  case (Ev_startRead inLoop)
  with TcpConnection_startReadInLoop_ok [OF inv] ok inv show ?thesis
    by (simp add: TcpConnection_startRead_def)
next
  case (Ev_stopRead inLoop)
  with TcpConnection_stopReadInLoop_ok [OF inv] ok inv show ?thesis
    by (simp add: TcpConnection_stopRead_def)
next
  case (Ev_readable rd)
  then have "is_open c" and "\<And>bs. rd = Inr bs \<Longrightarrow> Buffer_can_take (inputBuffer c) (length bs)"
    using ok by auto
  from TcpConnection_handleRead_ok [OF inv this(1) user this(2)] Ev_readable show ?thesis by simp
next
  case (Ev_writable wr)
  with TcpConnection_handleWrite_ok [OF inv, of wr] ok show ?thesis by auto
next
  case (Ev_functor wr)
  show ?thesis
  proof (cases "pendingFunctors (loop c)")
    case Nil
    with Ev_functor inv show ?thesis by simp
  next
    case (Cons f fs)
    then have "functor_ok (pop_functor c) wr f"
      using ok Ev_functor by (cases f) (simp_all add: send_fits_def)
    with TcpConnection_run_ok [of "pop_functor c" user wr f] Cons Ev_functor inv user ok
    show ?thesis by simp
  qed
qed

inductive conn_step :: "TcpConnection \<Rightarrow> TcpConnection \<Rightarrow> bool" where
  event: "user_ok user \<Longrightarrow> conn_event_ok c ev \<Longrightarrow> conn_exec user ev c = Inr c' \<Longrightarrow> conn_step c c'"

inductive_cases conn_stepE: "conn_step c c'"

definition conn_init :: "TcpConnection \<Rightarrow> bool" where
  "conn_init c \<longleftrightarrow> (\<exists>L p f inb outb. c = TcpConnection_new L p f inb outb \<and> loop_inv L
     \<and> chan_store L p = None \<and> channels (poller L) f = None
     \<and> Buffer_new kInitialSize = Inr inb \<and> Buffer_new kInitialSize = Inr outb)"

lemma conn_init_inv:
  assumes "conn_init c"
  shows "conn_inv c"
proof -
  from assms obtain L p f inb outb where c: "c = TcpConnection_new L p f inb outb"
    and L: "loop_inv L" "chan_store L p = None" "channels (poller L) f = None"
    and b: "Buffer_new kInitialSize = Inr inb" "Buffer_new kInitialSize = Inr outb"
    by (auto simp: conn_init_def)
  have bufs: "Buffer_wf inb" "Buffer_wf outb" "Buffer_content outb = []"
    using Buffer_new_ok [OF kInitialSize_new] b by auto
  let ?ch = "(Channel_new f)\<lparr>callbacks := {Read_cb, Write_cb, Close_cb, Error_cb}\<rparr>"
  have "conn_chan c ?ch"
    using loop_inv_new_channel [OF L(1,2)] L(3)
    by (simp add: c TcpConnection_new_def conn_chan_def registrable_def Channel_new_def)
  moreover have "chan_matches c ?ch"
    using bufs(3) by (simp add: c TcpConnection_new_def chan_matches_def Channel_new_def index_defs kNoneEvent_def)
  ultimately show ?thesis using bufs by (intro conn_invI) (simp_all add: c TcpConnection_new_def)
qed

interpretation conn_sys: invariant_system conn_init conn_step conn_inv
proof unfold_locales
  fix c c' :: TcpConnection
  assume "conn_init c"
  then show "conn_inv c" by (rule conn_init_inv)
next
  fix c c' :: TcpConnection
  assume inv: "conn_inv c" and "conn_step c c'"
  then obtain user ev where "user_ok user" "conn_event_ok c ev" "conn_exec user ev c = Inr c'"
    by (auto elim: conn_stepE)
  with conn_exec_ok [OF inv, of user ev] show "conn_inv c'" by auto
qed

section \<open>Draining\<close>

text \<open>
  Any sequence of write events: short writes, writes of nothing and errors. The write side is
  shut down by exactly the event that empties the buffer, and only of a connection that is
  disconnecting.
\<close>

definition bytes_written :: "write_result list \<Rightarrow> nat" where
  "bytes_written wrs = sum_list (map (\<lambda>wr. case wr of Wrote n \<Rightarrow> n | Write_error e \<Rightarrow> 0) wrs)"

lemma bytes_written_simps [simp]:
  "bytes_written [] = 0"
  "bytes_written (wr # wrs) = (case wr of Wrote n \<Rightarrow> n | Write_error e \<Rightarrow> 0) + bytes_written wrs"
  by (simp_all add: bytes_written_def)

lemma handleWrites_drain:
  assumes "conn_inv c" and "is_open c"
    and "bytes_written wrs \<le> length (Buffer_content (outputBuffer c))"
  shows "\<exists>c'. run_all TcpConnection_handleWrite c wrs = Inr c' \<and> conn_inv c'
    \<and> state c' = state c \<and> accepted c' = accepted c
    \<and> Buffer_content (outputBuffer c') = drop (bytes_written wrs) (Buffer_content (outputBuffer c))
    \<and> (wr_shut c' \<longleftrightarrow> wr_shut c \<or> state c = kDisconnecting \<and> Buffer_content (outputBuffer c) \<noteq> []
         \<and> bytes_written wrs = length (Buffer_content (outputBuffer c)))"
  using assms
proof (induction wrs arbitrary: c)
  case Nil
  then show ?case by (auto simp del: length_Buffer_content)
next
  case (Cons wr wrs)
  let ?b = "Buffer_content (outputBuffer c)"
  let ?n = "case wr of Wrote n \<Rightarrow> n | Write_error e \<Rightarrow> 0"
  have "wr_ok (length ?b) wr"
    using Cons.prems(3) by (simp add: wr_ok_def del: length_Buffer_content split: write_result.splits)
  from TcpConnection_handleWrite_ok [OF Cons.prems(1,2) this]
  obtain c1 where c1: "TcpConnection_handleWrite c wr = Inr c1" "conn_inv c1" "state c1 = state c"
    "accepted c1 = accepted c" "Buffer_content (outputBuffer c1) = drop ?n ?b"
    "wr_shut c1 = (wr_shut c \<or> state c = kDisconnecting \<and> ?b \<noteq> [] \<and> Buffer_content (outputBuffer c1) = [])"
    by blast
  have "is_open c1" using Cons.prems(2) c1(3) by (simp add: is_open_def)
  moreover have "bytes_written wrs \<le> length (Buffer_content (outputBuffer c1))"
    using Cons.prems(3) c1(5) by (simp del: length_Buffer_content)
  ultimately obtain c' where c': "run_all TcpConnection_handleWrite c1 wrs = Inr c'"
    "conn_inv c'" "state c' = state c1" "accepted c' = accepted c1"
    "Buffer_content (outputBuffer c') = drop (bytes_written wrs) (drop ?n ?b)"
    "wr_shut c' \<longleftrightarrow> wr_shut c1 \<or> state c1 = kDisconnecting \<and> drop ?n ?b \<noteq> []
       \<and> bytes_written wrs = length (drop ?n ?b)"
    using Cons.IH [OF c1(2)] c1(5) by auto
  have "wr_shut c' \<longleftrightarrow> wr_shut c \<or> state c = kDisconnecting \<and> ?b \<noteq> []
      \<and> bytes_written (wr # wrs) = length ?b"
    unfolding c'(6) c1(6) c1(5) using c1(3) Cons.prems(3) by (auto simp del: length_Buffer_content)
  moreover have "Buffer_content (outputBuffer c') = drop (bytes_written (wr # wrs)) ?b"
    using c'(5) by (simp add: add.commute)
  ultimately show ?case using c1(1,3,4) c'(1-4) by simp
qed

section \<open>Sample connections\<close>

definition fresh_conn :: TcpConnection where
  "fresh_conn = TcpConnection_new quiet_loop 5 3 empty_buffer empty_buffer"

lemma fresh_conn_init: "conn_init fresh_conn"
proof -
  have "loop_inv quiet_loop" "chan_store quiet_loop 5 = None" "channels (poller quiet_loop) 3 = None"
    by (simp_all add: quiet_loop_def loop_inv_def poll_inv_new) (simp add: Poller_new_def)
  then show ?thesis using empty_buffer_new unfolding conn_init_def fresh_conn_def by blast
qed

lemma user_ok_idle: "user_ok (\<lambda>call c. Inr c)"
  by (simp add: user_ok_def closed_kept_def)

text \<open>An established connection that watches \<open>ev\<close> and has the output buffer \<open>ob\<close>.\<close>

definition up_conn :: "32 word \<Rightarrow> Buffer \<Rightarrow> TcpConnection" where
  "up_conn ev ob = fresh_conn\<lparr>state := kConnected, outputBuffer := ob, accepted := Buffer_content ob,
     loop := quiet_loop\<lparr>
       poller := Poller_new\<lparr>channels := [3 \<mapsto> 5], interest := [3 \<mapsto> (ev, 5)]\<rparr>,
       chan_store := [5 \<mapsto> (Channel_new 3)\<lparr>events := ev, index := kAdded, addedToLoop := True\<rparr>]\<rparr>\<rparr>"

lemma up_conn_simps [simp]:
  "state (up_conn ev ob) = kConnected" "outputBuffer (up_conn ev ob) = ob" "sent (up_conn ev ob) = []"
  "accepted (up_conn ev ob) = Buffer_content ob"
  by (simp_all add: up_conn_def fresh_conn_def TcpConnection_new_def)

lemma up_conn_inv:
  assumes "Buffer_wf ob" and "bit ev 2 \<longleftrightarrow> Buffer_content ob \<noteq> []"
  shows "conn_inv (up_conn ev ob)"
proof (rule conn_inv_open)
  show "conn_chan (up_conn ev ob) ((Channel_new 3)\<lparr>events := ev, index := kAdded, addedToLoop := True\<rparr>)"
    by (auto simp: conn_chan_def up_conn_def fresh_conn_def TcpConnection_new_def loop_inv_def
        poll_inv_def chan_ok_def registrable_def Channel_new_def Poller_new_def quiet_loop_def index_defs)
  show "Buffer_wf (inputBuffer (up_conn ev ob))"
    by (simp add: up_conn_def fresh_conn_def TcpConnection_new_def empty_buffer_wf)
qed (use assms in \<open>simp_all add: is_open_def isWriting_bit index_defs\<close>)

section \<open>Properties\<close>

text \<open>
  C18. No byte is lost, duplicated or reordered on the way to the socket: in every reachable
  state of a connection, whatever was sent from whichever thread and however little the socket
  took each time, the bytes handed to the socket followed by those in the output buffer are
  exactly the bytes accepted for sending; an open connection asks for write events exactly
  while the buffer is not empty; and every event the environment may produce next runs without
  a failed assertion or an undefined access.
\<close>

theorem tcp_output_exact:
  assumes "conn_init c0" and "conn_step\<^sup>*\<^sup>* c0 c"
  shows "sent c @ Buffer_content (outputBuffer c) = accepted c
    \<and> (is_open c \<longrightarrow> (\<exists>ch. the_channel c = Inr ch \<and>
        (Channel_isWriting ch \<longleftrightarrow> Buffer_content (outputBuffer c) \<noteq> [])))
    \<and> (\<forall>user ev. user_ok user \<and> conn_event_ok c ev \<longrightarrow> (\<exists>c'. conn_exec user ev c = Inr c'))"
proof -
  have inv: "conn_inv c" by (rule conn_sys.reachable_inv [OF assms])
  then obtain ch where "conn_chan c ch" "chan_matches c ch"
    "sent c @ Buffer_content (outputBuffer c) = accepted c" by (rule conn_invE)
  then show ?thesis using conn_exec_ok [OF inv] the_channel_ok by (auto simp: chan_matches_open)
qed

theorem tcp_output_exact_witness:
  "\<exists>c'. conn_exec (\<lambda>call c. Inr c) Ev_established fresh_conn = Inr c'"
proof -
  have "conn_event_ok fresh_conn Ev_established" by (simp add: fresh_conn_def TcpConnection_new_def)
  with tcp_output_exact [OF fresh_conn_init rtranclp.rtrancl_refl] user_ok_idle show ?thesis by blast
qed

text \<open>
  C19. \<open>sendInLoop\<close> takes charge of all of its data or of none: unless the connection is down,
  or nothing is buffered and the write fails with \<open>EPIPE\<close> or \<open>ECONNRESET\<close>, the whole data is
  handed to the socket or buffered behind what was there; otherwise nothing of it is.
\<close>

theorem sendInLoop_all_or_nothing:
  assumes "conn_inv c" and "state c \<noteq> kConnecting" and "wr_ok (length data) wr"
    and "Buffer_can_take (outputBuffer c) (length data)"
  shows "\<exists>c'. TcpConnection_sendInLoop c data wr = Inr c' \<and> conn_inv c' \<and> state c' = state c
    \<and> sent c' @ Buffer_content (outputBuffer c') = sent c @ Buffer_content (outputBuffer c)
        @ (if state c = kDisconnected \<or> Buffer_content (outputBuffer c) = []
              \<and> (wr = Write_error EPIPE \<or> wr = Write_error ECONNRESET)
           then [] else data)"
proof -
  from TcpConnection_sendInLoop_ok [OF assms] obtain c' where c':
    "TcpConnection_sendInLoop c data wr = Inr c'" "conn_inv c'" "state c' = state c"
    "accepted c' = accepted c @ (if gives_up c wr then [] else data)" by blast
  have "sent d @ Buffer_content (outputBuffer d) = accepted d" if "conn_inv d" for d
    using that by (simp add: conn_inv_def)
  from this [OF assms(1)] this [OF c'(2)] c' show ?thesis by (simp add: gives_up_def)
qed

theorem sendInLoop_all_or_nothing_witness:
  "\<exists>c'. TcpConnection_sendInLoop (up_conn kReadEvent empty_buffer) [1, 2, 3] (Wrote 2) = Inr c'
    \<and> sent c' @ Buffer_content (outputBuffer c') = [1, 2, 3]"
proof -
  have "conn_inv (up_conn kReadEvent empty_buffer)"
    by (rule up_conn_inv) (simp_all add: empty_buffer_wf kReadEvent_def poll_flags bit_simps)
  moreover have "wr_ok (length [1, 2, 3 :: byte]) (Wrote 2)" by (simp add: wr_ok_def)
  moreover have "Buffer_can_take (outputBuffer (up_conn kReadEvent empty_buffer)) (length [1, 2, 3 :: byte])"
    by (simp add: empty_buffer_wf vector_max_def)
  ultimately show ?thesis
    using sendInLoop_all_or_nothing [of "up_conn kReadEvent empty_buffer" "[1, 2, 3]" "Wrote 2"]
    by (auto simp: empty_buffer_wf)
qed

text \<open>
  C20. Shutting down is graceful, in every state on the way: \<open>shutdown\<close> is called in the loop's
  thread on a connection that is up, and then the socket becomes writable any number of times,
  each write taking some bytes, none, or failing (\<open>wrs\<close>, together at most what is buffered).
  Nothing fails an assertion, the bytes taken have left the buffer in order, and the write side
  of the socket is shut down if and only if it was before or every buffered byte has been taken:
  not one write event too early, and not later than the last.
\<close>

theorem shutdown_graceful:
  assumes "conn_inv c" and "state c = kConnected"
    and "bytes_written wrs \<le> length (Buffer_content (outputBuffer c))"
  shows "\<exists>c1 c2. TcpConnection_shutdown True c = Inr c1
    \<and> run_all TcpConnection_handleWrite c1 wrs = Inr c2
    \<and> sent c2 = sent c @ take (bytes_written wrs) (Buffer_content (outputBuffer c))
    \<and> Buffer_content (outputBuffer c2) = drop (bytes_written wrs) (Buffer_content (outputBuffer c))
    \<and> (wr_shut c2 \<longleftrightarrow>
         wr_shut c \<or> bytes_written wrs = length (Buffer_content (outputBuffer c)))"
proof -
  let ?c = "c\<lparr>state := kDisconnecting\<rparr>" and ?b = "Buffer_content (outputBuffer c)"
  have inv: "conn_inv ?c" and op: "is_open ?c"
    using conn_inv_disconnecting [OF assms(1)] assms(2) by (simp_all add: is_open_def)
  define c1 where "c1 = (if ?b = [] then ?c\<lparr>wr_shut := True\<rparr> else ?c)"
  have run: "TcpConnection_shutdown True c = Inr c1"
    using assms(2) TcpConnection_shutdownInLoop_ok [OF inv op]
    by (simp add: TcpConnection_shutdown_def c1_def)
  have c1: "conn_inv c1" "is_open c1" "outputBuffer c1 = outputBuffer c" "accepted c1 = accepted c"
    "state c1 = kDisconnecting" "wr_shut c1 = (wr_shut c \<or> ?b = [])"
    using inv op by (simp_all add: is_open_def c1_def)
  obtain c2 where c2: "run_all TcpConnection_handleWrite c1 wrs = Inr c2" "conn_inv c2"
    "accepted c2 = accepted c" "Buffer_content (outputBuffer c2) = drop (bytes_written wrs) ?b"
    "wr_shut c2 \<longleftrightarrow> wr_shut c1 \<or> ?b \<noteq> [] \<and> bytes_written wrs = length ?b"
    using handleWrites_drain [OF c1(1,2), of wrs] assms(3) c1(3-5) by auto
  have "sent c2 @ drop (bytes_written wrs) ?b = sent c @ ?b"
    using c2(2-4) assms(1) by (simp add: conn_inv_def)
  also have "\<dots> = (sent c @ take (bytes_written wrs) ?b) @ drop (bytes_written wrs) ?b" by simp
  finally have "sent c2 = sent c @ take (bytes_written wrs) ?b" by (simp only: append_same_eq)
  moreover have "wr_shut c2 \<longleftrightarrow> wr_shut c \<or> bytes_written wrs = length ?b"
    using c2(5) c1(6) assms(3) by (auto simp del: length_Buffer_content)
  ultimately show ?thesis using run c2(1,4) by blast
qed

theorem shutdown_graceful_witness:
  "(\<exists>c1 c2. TcpConnection_shutdown True (up_conn 7 buffer_sample) = Inr c1
      \<and> run_all TcpConnection_handleWrite c1 [Wrote 1, Write_error EWOULDBLOCK] = Inr c2
      \<and> \<not> wr_shut c2 \<and> sent c2 = [65])
   \<and> (\<exists>c1 c2. TcpConnection_shutdown True (up_conn 7 buffer_sample) = Inr c1
      \<and> run_all TcpConnection_handleWrite c1 [Wrote 1, Wrote 2] = Inr c2
      \<and> wr_shut c2 \<and> sent c2 = [65, 66, 67])"
proof -
  have "Buffer_wf buffer_sample" and c: "Buffer_content buffer_sample = [65, 66, 67]"
    by (simp_all add: buffer_eval)
  then have inv: "conn_inv (up_conn 7 buffer_sample)" by (intro up_conn_inv) simp_all
  have "\<not> wr_shut (up_conn 7 buffer_sample)" by (simp add: up_conn_def fresh_conn_def TcpConnection_new_def)
  then show ?thesis
    using shutdown_graceful [OF inv, of "[Wrote 1, Write_error EWOULDBLOCK]"]
      shutdown_graceful [OF inv, of "[Wrote 1, Wrote 2]"] c by auto
qed

end
