(* ===== verification/Rdma_Handshake.thy ===== *)
theory Rdma_Handshake
  imports Rdma_Connection Tcp_Connection
begin

text \<open>
  How an RDMA connection is set up over TCP: \<^verbatim>\<open>RdmaExchangeInfo.h\<close>, \<^verbatim>\<open>RdmaConfig.h\<close>,
  \<^verbatim>\<open>RdmaConnector\<close>, \<^verbatim>\<open>RdmaClient\<close> and \<^verbatim>\<open>RdmaServer\<close> of \<^verbatim>\<open>src/src/network/rdma/\<close>. Each side
  sends the 42 bytes of its exchange information, connects its queue pair when those of the peer
  have arrived, says so with one byte, and calls the user when it has that byte of the peer. The
  lemmas follow both sides at once, under any fragmentation of the two byte streams.
\<close>

section \<open>The exchanged structure\<close>

text \<open>The packed structure as it lies in memory.\<close>

definition info_bytes :: "RdmaExchangeInfo \<Rightarrow> byte list" where
  "info_bytes x = le_bytes 2 (xi_lid x) @ le_bytes 4 (xi_qpn x) @ le_bytes 4 (xi_psn x) @ xi_gid x
     @ le_bytes 8 (xi_recv_addr x) @ le_bytes 4 (xi_recv_len x) @ le_bytes 4 (xi_recv_rkey x)"

definition sizeof_info :: nat where "sizeof_info = 42"

definition info_of_bytes :: "byte list \<Rightarrow> RdmaExchangeInfo" where
  "info_of_bytes bs =
     \<lparr>xi_lid = le_word (take 2 bs), xi_qpn = le_word (take 4 (drop 2 bs)),
      xi_psn = le_word (take 4 (drop 6 bs)), xi_gid = take 16 (drop 10 bs),
      xi_recv_addr = le_word (take 8 (drop 26 bs)), xi_recv_len = le_word (take 4 (drop 34 bs)),
      xi_recv_rkey = le_word (take 4 (drop 38 bs))\<rparr>"

section \<open>The connector\<close>

datatype ConnectorState = kRdmaNotInit | kRdmaInit | kRdmaRTR | kRdmaRTS | kRdmaConnected

text \<open>
  \<open>has_connection\<close> tells whether \<open>connection_\<close> is set; the connection itself is passed along, as
  the connector shares it with the client or server.
\<close>

record RdmaConnector =
  xc_state :: ConnectorState
  has_connection :: bool
  localExchangeInfo :: RdmaExchangeInfo

record RdmaConfig =
  ibDevName :: string
  ibDevPort :: int
  memSize :: nat
  memNum :: nat

datatype tcp_out = Tcp_send "byte list" | Tcp_shutdown

definition kHandshakeCompleteMsg :: byte where "kHandshakeCompleteMsg = 42"

definition RdmaConnector_new :: "RdmaExchangeInfo \<Rightarrow> RdmaConnector" where
  "RdmaConnector_new garbage = \<lparr>xc_state = kRdmaNotInit, has_connection = False, localExchangeInfo = garbage\<rparr>"

definition RdmaConnector_setLocalExchangeInfo :: "RdmaConnector \<Rightarrow> RdmaConnection \<Rightarrow> RdmaConnector res" where
  "RdmaConnector_setLocalExchangeInfo x c =
     andThen (the_bufpair c 0) (\<lambda>b.
       Inr (x\<lparr>localExchangeInfo :=
         \<lparr>xi_lid = dest_lid (local_dest c), xi_qpn = qp_num c, xi_psn = dest_psn (local_dest c),
          xi_gid = dest_gid (local_dest c), xi_recv_addr = of_nat (recv_header b),
          xi_recv_len = of_nat (recv_cap b), xi_recv_rkey = mr_rkey c\<rparr>\<rparr>))"

text \<open>
  \<open>name\<close> is made of the two addresses of the TCP connection. The result has the connection when
  there is one.
\<close>

definition RdmaConnector_initialRdmaResource ::
  "verbs_lib \<Rightarrow> sysfs \<Rightarrow> create_env \<Rightarrow> RdmaConfig \<Rightarrow> rdma_functor EventLoop \<Rightarrow> nat \<Rightarrow> string \<Rightarrow> RdmaConnector \<Rightarrow>
    (RdmaConnector \<times> RdmaConnection option \<times> tcp_out list) res" where
  "RdmaConnector_initialRdmaResource v fs E config L p name x =
     andThen (RdmaConnection_create v fs E (ibDevName config) (ibDevPort config) (memSize config)
         (memNum config) L p name)
       (\<lambda>(dlog, vlog, r). case r of
          Inl e \<Rightarrow> Inr (x, None, [Tcp_shutdown])
        | Inr c \<Rightarrow> andThen (RdmaConnector_setLocalExchangeInfo (x\<lparr>has_connection := True\<rparr>) c) (\<lambda>x1.
            Inr (x1\<lparr>xc_state := kRdmaInit\<rparr>, Some c, [Tcp_send (info_bytes (localExchangeInfo x1))])))"

text \<open>
  \<open>qp_outcomes\<close> are those of the calls \<open>connectQp\<close> makes. \<open>new_cb\<close> is the callback of the client
  or server for a new connection; \<open>'o\<close> is the state of that owner and of the user.
\<close>

type_synonym qp_outcomes = "int \<times> (nat \<Rightarrow> int) \<times> int"

definition no_errors :: qp_outcomes where "no_errors = (0, \<lambda>_. 0, 0)"

definition handshake_info ::
  "('o \<times> RdmaConnection \<Rightarrow> ('o \<times> RdmaConnection) res) \<Rightarrow> qp_outcomes \<Rightarrow> RdmaConnector \<Rightarrow>
    'o \<times> RdmaConnection \<Rightarrow> Buffer \<Rightarrow> (bool \<times> RdmaConnector \<times> ('o \<times> RdmaConnection) \<times> Buffer \<times> tcp_out list) res" where
  "handshake_info new_cb qp x oc buf =
     (if xc_state x = kRdmaInit
      then if Buffer_readableBytes buf < sizeof_info then Inr (False, x, oc, buf, [])
        else
          let remote = info_of_bytes (take sizeof_info (drop (Buffer_peek buf) (buffer buf))) in
          andThen (Buffer_retrieve buf sizeof_info) (\<lambda>buf1.
            defined_if (has_connection x)
              (case (oc, qp) of ((ow, c), (rtr, err, rts)) \<Rightarrow>
                andThen (RdmaConnection_connectQp c remote rtr err rts) (\<lambda>(e, c1).
                  if e \<noteq> kSuccess then Inr (False, x, (ow, c1), buf1, [Tcp_shutdown])
                  else andThen (new_cb (ow, c1)) (\<lambda>oc2.
                    Inr (True, x\<lparr>xc_state := kRdmaRTS\<rparr>, oc2, buf1, [Tcp_send [kHandshakeCompleteMsg]])))))
      else Inr (True, x, oc, buf, []))"

definition handshake_done ::
  "'o rdma_user \<Rightarrow> RdmaConnector \<Rightarrow> 'o \<times> RdmaConnection \<Rightarrow> Buffer \<Rightarrow>
    (RdmaConnector \<times> ('o \<times> RdmaConnection) \<times> Buffer \<times> tcp_out list) res" where
  "handshake_done user x oc buf =
     (if xc_state x = kRdmaRTS
      then if Buffer_readableBytes buf < 1 then Inr (x, oc, buf, [])
        else andThen (Buffer_peekInt8 buf) (\<lambda>m.
          asserting (m = kHandshakeCompleteMsg)
            (andThen (Buffer_retrieveInt8 buf) (\<lambda>buf1.
              defined_if (has_connection x)
                (andThen (user Connected oc) (\<lambda>oc1.
                  Inr (x\<lparr>xc_state := kRdmaConnected, has_connection := False\<rparr>, oc1, buf1, [Tcp_shutdown]))))))
      else Inr (x, oc, buf, []))"

definition RdmaConnector_handshakeQp ::
  "('o \<times> RdmaConnection \<Rightarrow> ('o \<times> RdmaConnection) res) \<Rightarrow> 'o rdma_user \<Rightarrow> qp_outcomes \<Rightarrow> RdmaConnector \<Rightarrow>
    'o \<times> RdmaConnection \<Rightarrow> Buffer \<Rightarrow> (RdmaConnector \<times> ('o \<times> RdmaConnection) \<times> Buffer \<times> tcp_out list) res" where
  "RdmaConnector_handshakeQp new_cb user qp x oc buf =
     andThen (handshake_info new_cb qp x oc buf) (\<lambda>(go, x1, oc1, buf1, out1).
       if go
       then andThen (handshake_done user x1 oc1 buf1) (\<lambda>(x2, oc2, buf2, out2).
         Inr (x2, oc2, buf2, out1 @ out2))
       else Inr (x1, oc1, buf1, out1))"

section \<open>Client and server\<close>

text \<open>
  The callbacks of the user are registered with the connection by reference to the owner; \<open>'a\<close>
  is the user's state.
\<close>

record 'a RdmaClient =
  isConnect :: bool
  client_config :: RdmaConfig
  client_connection :: bool
  client_app :: 'a

record 'a RdmaServer =
  server_config :: RdmaConfig
  connections :: "string set"
  server_app :: 'a

definition RdmaClient_newRdmaConnection ::
  "'a RdmaClient \<times> RdmaConnection \<Rightarrow> ('a RdmaClient \<times> RdmaConnection) res" where
  "RdmaClient_newRdmaConnection = (\<lambda>(cl, c).
     andThen (RdmaConnection_connectEstablished c) (\<lambda>c1.
       Inr (cl\<lparr>client_connection := True, isConnect := True\<rparr>, c1)))"

definition RdmaServer_newRdmaConnection ::
  "'a RdmaServer \<times> RdmaConnection \<Rightarrow> ('a RdmaServer \<times> RdmaConnection) res" where
  "RdmaServer_newRdmaConnection = (\<lambda>(sv, c).
     asserting (rc_name c \<notin> connections sv)
       (andThen (RdmaConnection_connectEstablished c) (\<lambda>c1.
         Inr (sv\<lparr>connections := insert (rc_name c) (connections sv)\<rparr>, c1))))"

text \<open>\<open>tcp_started\<close> is what \<open>tcpClient_.connect()\<close> leaves; the assertion guards a second connect.\<close>

definition RdmaClient_connect :: "'a RdmaClient \<Rightarrow> 't \<Rightarrow> 't res" where
  "RdmaClient_connect cl tcp_started = asserting (\<not> isConnect cl) (Inr tcp_started)"

text \<open>
  What the outputs of a connector do to the TCP connection, each with the outcome of the write
  it makes.
\<close>

fun apply_out :: "TcpConnection \<Rightarrow> tcp_out \<times> write_result \<Rightarrow> TcpConnection res" where
  "apply_out t (Tcp_send bs, wr) = TcpConnection_send True t bs wr"
| "apply_out t (Tcp_shutdown, wr) = TcpConnection_shutdown True t"

text \<open>
  The TCP callbacks, the same in the client and the server. \<open>context\<close> is the connector stored in
  the TCP connection; \<open>wrs\<close> are the outcomes of the writes.
\<close>

definition onTcpConnection ::
  "verbs_lib \<Rightarrow> sysfs \<Rightarrow> create_env \<Rightarrow> RdmaConfig \<Rightarrow> rdma_functor EventLoop \<Rightarrow> nat \<Rightarrow> string \<Rightarrow> RdmaExchangeInfo \<Rightarrow>
    write_result list \<Rightarrow> TcpConnection \<Rightarrow> RdmaConnector option \<Rightarrow>
    (TcpConnection \<times> RdmaConnector option \<times> RdmaConnection option) res" where
  "onTcpConnection v fs E config L p name garbage wrs t context =
     (if TcpConnection_connected t
      then asserting (context = None)
        (andThen (RdmaConnector_initialRdmaResource v fs E config L p name (RdmaConnector_new garbage))
          (\<lambda>(x, c, outs). andThen (run_all apply_out t (zip outs wrs)) (\<lambda>t'. Inr (t', Some x, c))))
      else Inr (t, context, None))"

definition onTcpMessage ::
  "('o \<times> RdmaConnection \<Rightarrow> ('o \<times> RdmaConnection) res) \<Rightarrow> 'o rdma_user \<Rightarrow> qp_outcomes \<Rightarrow> write_result list \<Rightarrow>
    TcpConnection \<Rightarrow> RdmaConnector option \<Rightarrow> 'o \<times> RdmaConnection \<Rightarrow>
    (TcpConnection \<times> RdmaConnector option \<times> 'o \<times> RdmaConnection) res" where
  "onTcpMessage new_cb user qp wrs t context oc =
     (if \<not> TcpConnection_connected t then Inr (t, context, oc)
      else case context of
          None \<Rightarrow> Inl Undefined_behaviour
        | Some x \<Rightarrow>
            andThen (RdmaConnector_handshakeQp new_cb user qp x oc (inputBuffer t)) (\<lambda>(x1, oc1, buf1, outs).
              andThen (run_all apply_out (t\<lparr>inputBuffer := buf1\<rparr>) (zip outs wrs)) (\<lambda>t'.
                Inr (t', Some x1, oc1))))"

definition RdmaClient_onTcpMessage where
  "RdmaClient_onTcpMessage user = onTcpMessage RdmaClient_newRdmaConnection user"

definition RdmaServer_onTcpMessage where
  "RdmaServer_onTcpMessage user = onTcpMessage RdmaServer_newRdmaConnection user"

section \<open>The structure survives the wire\<close>

lemma length_info_bytes: "length (xi_gid x) = 16 \<Longrightarrow> length (info_bytes x) = sizeof_info"
  by (simp add: info_bytes_def sizeof_info_def)

lemma info_roundtrip:
  assumes "length (xi_gid x) = 16"
  shows "info_of_bytes (info_bytes x) = x"
  using assms by (simp add: info_of_bytes_def info_bytes_def)

section \<open>Both sides\<close>

text \<open>
  One side of a handshake: its connector, its owner and RDMA connection, the input buffer of its
  TCP connection, all bytes it has sent, and how many bytes of the peer have reached it. TCP
  delivers the bytes of the other side in order, in pieces of any size.
\<close>

record 'o hs_side =
  hs_x :: RdmaConnector
  hs_owner :: 'o
  hs_conn :: RdmaConnection
  hs_in :: Buffer
  hs_out :: "byte list"
  hs_got :: nat

fun out_bytes :: "tcp_out \<Rightarrow> byte list" where
  "out_bytes (Tcp_send bs) = bs"
| "out_bytes Tcp_shutdown = []"

definition hs_deliver ::
  "('o \<times> RdmaConnection \<Rightarrow> ('o \<times> RdmaConnection) res) \<Rightarrow> 'o rdma_user \<Rightarrow> 'o hs_side \<Rightarrow> byte list \<Rightarrow> 'o hs_side res" where
  "hs_deliver new_cb user S chunk =
     andThen (Buffer_put_read (hs_in S) chunk) (\<lambda>buf.
       andThen (RdmaConnector_handshakeQp new_cb user no_errors (hs_x S) (hs_owner S, hs_conn S) buf)
         (\<lambda>(x, (ow, c), buf', outs).
           Inr (S\<lparr>hs_x := x, hs_owner := ow, hs_conn := c, hs_in := buf',
                  hs_out := hs_out S @ concat (map out_bytes outs), hs_got := hs_got S + length chunk\<rparr>)))"

text \<open>
  What the handshake asks of the owner and the user: a new connection is taken over while the
  owner accepts its name, the connected callback returns, and neither touches the queue pair.
\<close>

definition qp_same :: "RdmaConnection \<Rightarrow> RdmaConnection \<Rightarrow> bool" where
  "qp_same c d \<longleftrightarrow> rq d = rq c \<and> bufpairs d = bufpairs c \<and> qp_peer d = qp_peer c \<and> qp_state d = qp_state c"

definition ready_conn :: "RdmaConnection \<Rightarrow> bool" where
  "ready_conn c \<longleftrightarrow> rc_state c = RC_kConnecting \<and> loop_inv (rc_loop c)
     \<and> (\<exists>ch. chan_store (rc_loop c) (rc_channel c) = Some ch \<and> registrable (poller (rc_loop c)) (rc_channel c) ch)"

definition hs_callbacks_ok ::
  "('o \<Rightarrow> string \<Rightarrow> bool) \<Rightarrow> ('o \<times> RdmaConnection \<Rightarrow> ('o \<times> RdmaConnection) res) \<Rightarrow> 'o rdma_user \<Rightarrow> bool" where
  "hs_callbacks_ok accepts new_cb user \<longleftrightarrow>
     (\<forall>ow c. accepts ow (rc_name c) \<and> ready_conn c \<longrightarrow>
       (\<exists>ow' c'. new_cb (ow, c) = Inr (ow', c') \<and> qp_same c c'))
     \<and> (\<forall>ow c. \<exists>ow' c'. user Connected (ow, c) = Inr (ow', c') \<and> qp_same c c')"

lemma established_qp_same:
  assumes "ready_conn c"
  obtains c' where "RdmaConnection_connectEstablished c = Inr c'" and "qp_same c c'"
proof -
  from assms obtain ch where "rc_state c = RC_kConnecting" "loop_inv (rc_loop c)"
    "chan_store (rc_loop c) (rc_channel c) = Some ch" "registrable (poller (rc_loop c)) (rc_channel c) ch"
    by (auto simp: ready_conn_def)
  then obtain L where "RdmaConnection_connectEstablished c = Inr (c\<lparr>rc_state := RC_kConnected, rc_loop := L\<rparr>)"
    by (rule connectEstablished_ok)
  then show ?thesis by (rule that) (simp add: qp_same_def)
qed

lemma RdmaClient_callbacks_ok:
  assumes "\<forall>ow c. \<exists>ow' c'. user Connected (ow, c) = Inr (ow', c') \<and> qp_same c c'"
  shows "hs_callbacks_ok (\<lambda>cl n. True) RdmaClient_newRdmaConnection user"
  unfolding hs_callbacks_ok_def
proof (intro conjI assms allI impI)
  fix ow :: "'a RdmaClient" and c assume "True \<and> ready_conn c"
  then obtain c' where "RdmaConnection_connectEstablished c = Inr c'" "qp_same c c'"
    using established_qp_same by blast
  then show "\<exists>ow' c'. RdmaClient_newRdmaConnection (ow, c) = Inr (ow', c') \<and> qp_same c c'"
    by (simp add: RdmaClient_newRdmaConnection_def)
qed

lemma RdmaServer_callbacks_ok:
  assumes "\<forall>ow c. \<exists>ow' c'. user Connected (ow, c) = Inr (ow', c') \<and> qp_same c c'"
  shows "hs_callbacks_ok (\<lambda>sv n. n \<notin> connections sv) RdmaServer_newRdmaConnection user"
  unfolding hs_callbacks_ok_def
proof (intro conjI assms allI impI)
  fix ow :: "'a RdmaServer" and c assume *: "rc_name c \<notin> connections ow \<and> ready_conn c"
  then obtain c' where "RdmaConnection_connectEstablished c = Inr c'" "qp_same c c'"
    using established_qp_same by blast
  with * show "\<exists>ow' c'. RdmaServer_newRdmaConnection (ow, c) = Inr (ow', c') \<and> qp_same c c'"
    by (simp add: RdmaServer_newRdmaConnection_def)
qed

section \<open>The invariant of one side\<close>

text \<open>
  \<open>mine\<close> and \<open>peer\<close> are the exchange information of the side and of its peer. The side sends its
  information at once and the closing byte once its queue pair is connected.
\<close>

definition connected_qp :: "RdmaExchangeInfo \<Rightarrow> RdmaConnection \<Rightarrow> bool" where
  "connected_qp peer c \<longleftrightarrow> qp_state c = IBV_QPS_RTS \<and> qp_peer c = Some peer \<and> rq c = [0..<length (bufpairs c)]"

definition all_bytes :: "RdmaExchangeInfo \<Rightarrow> byte list" where
  "all_bytes x = info_bytes x @ [kHandshakeCompleteMsg]"

definition side_inv ::
  "('o \<Rightarrow> string \<Rightarrow> bool) \<Rightarrow> RdmaExchangeInfo \<Rightarrow> RdmaExchangeInfo \<Rightarrow> 'o hs_side \<Rightarrow> bool" where
  "side_inv accepts mine peer S \<longleftrightarrow>
     Buffer_wf (hs_in S) \<and> Buffer_can_take (hs_in S) (43 - hs_got S)
     \<and> (xc_state (hs_x S) = kRdmaInit \<and> has_connection (hs_x S) \<and> hs_got S < 42
          \<and> Buffer_content (hs_in S) = take (hs_got S) (all_bytes peer) \<and> hs_out S = info_bytes mine
          \<and> rq (hs_conn S) = [] \<and> ready_conn (hs_conn S) \<and> accepts (hs_owner S) (rc_name (hs_conn S))
        \<or> xc_state (hs_x S) = kRdmaRTS \<and> has_connection (hs_x S) \<and> hs_got S = 42
          \<and> Buffer_content (hs_in S) = [] \<and> hs_out S = all_bytes mine \<and> connected_qp peer (hs_conn S)
        \<or> xc_state (hs_x S) = kRdmaConnected \<and> hs_got S = 43 \<and> hs_out S = all_bytes mine
          \<and> connected_qp peer (hs_conn S))"

lemma handshake_done_ok:
  assumes wf: "Buffer_wf b" "Buffer_can_take b n" and x: "xc_state x = kRdmaRTS" "has_connection x"
    and content: "Buffer_content b = take k [kHandshakeCompleteMsg]" and cb: "hs_callbacks_ok accepts new_cb user"
  shows "if k = 0 then handshake_done user x (ow, c) b = Inr (x, (ow, c), b, [])
    else \<exists>ow' c' b'. handshake_done user x (ow, c) b =
        Inr (x\<lparr>xc_state := kRdmaConnected, has_connection := False\<rparr>, (ow', c'), b', [Tcp_shutdown])
      \<and> qp_same c c' \<and> Buffer_wf b' \<and> Buffer_can_take b' n"
proof (cases "k = 0")
  case True
  then show ?thesis using wf content x by (simp add: handshake_done_def)
next
  case False
  then have c1: "Buffer_content b = [kHandshakeCompleteMsg]" using content by (cases k) simp_all
  from cb obtain ow' c' where u: "user Connected (ow, c) = Inr (ow', c')" "qp_same c c'"
    unfolding hs_callbacks_ok_def by blast
  from bq.off_ok [OF wf, of 1] c1 obtain b' where "Buffer_retrieve b 1 = Inr b'" "Buffer_wf b'" "Buffer_can_take b' n"
    by auto
  with False x u wf c1 show ?thesis
    by (simp add: handshake_done_def Buffer_peekInt8_content Buffer_retrieveInt8_def)
qed

lemma handshake_info_ok:
  assumes wf: "Buffer_wf b" "Buffer_can_take b n" and x: "xc_state x = kRdmaInit" "has_connection x"
    and gid: "length (xi_gid peer) = 16" and content: "Buffer_content b = take m (all_bytes peer)"
    and c: "rq c = []" "ready_conn c" "accepts ow (rc_name c)"
    and cb: "hs_callbacks_ok accepts new_cb user"
  shows "if m < 42 then handshake_info new_cb no_errors x (ow, c) b = Inr (False, x, (ow, c), b, [])
    else \<exists>ow' c' b'. handshake_info new_cb no_errors x (ow, c) b =
        Inr (True, x\<lparr>xc_state := kRdmaRTS\<rparr>, (ow', c'), b', [Tcp_send [kHandshakeCompleteMsg]])
      \<and> connected_qp peer c' \<and> Buffer_wf b' \<and> Buffer_can_take b' n
      \<and> Buffer_content b' = take (m - 42) [kHandshakeCompleteMsg]"
proof (cases "m < 42")
  case True
  have "length (Buffer_content b) = m" using True length_info_bytes [OF gid]
    by (simp add: content all_bytes_def sizeof_info_def del: length_Buffer_content)
  then show ?thesis using True wf x by (simp add: handshake_info_def sizeof_info_def)
next
  case False
  have len: "length (info_bytes peer) = 42" using length_info_bytes [OF gid] by (simp add: sizeof_info_def)
  have cont: "Buffer_content b = info_bytes peer @ take (m - 42) [kHandshakeCompleteMsg]"
    using False len by (simp add: content all_bytes_def)
  have le: "42 \<le> length (Buffer_content b)" using cont len by (simp del: length_Buffer_content)
  have "take 42 (drop (Buffer_peek b) (buffer b)) = info_bytes peer"
    using peek_take_wf [OF wf(1) le] cont len by simp
  then have rem: "info_of_bytes (take sizeof_info (drop (Buffer_peek b) (buffer b))) = peer"
    using info_roundtrip [OF gid] by (simp add: sizeof_info_def)
  from bq.off_ok [OF wf le] obtain b' where b': "Buffer_retrieve b sizeof_info = Inr b'" "Buffer_wf b'"
    "Buffer_can_take b' n" "Buffer_content b' = take (m - 42) [kHandshakeCompleteMsg]"
    using cont len by (auto simp: sizeof_info_def)
  let ?c = "c\<lparr>qp_state := IBV_QPS_RTS, qp_peer := Some peer, rq := rq c @ [0..<length (bufpairs c)],
       remote_mem := xi_recv_addr peer, remote_len := xi_recv_len peer, remote_rkey := xi_recv_rkey peer\<rparr>"
  have "ready_conn ?c" "accepts ow (rc_name ?c)" using c by (simp_all add: ready_conn_def)
  with cb obtain ow' c' where n: "new_cb (ow, ?c) = Inr (ow', c')" "qp_same ?c c'"
    unfolding hs_callbacks_ok_def by blast
  have "connected_qp peer c'" using n(2) c(1) by (simp add: qp_same_def connected_qp_def)
  moreover have "\<not> Buffer_readableBytes b < sizeof_info" using le wf by (simp add: sizeof_info_def)
  ultimately show ?thesis using False x b' n rem connectQp_ok [of c peer]
    by (simp add: handshake_info_def no_errors_def)
qed

lemma take_next:
  assumes "i + k \<le> length xs"
  shows "take i xs @ take k (drop i xs) = take (i + k) xs"
  by (simp add: take_add)

lemma hs_deliver_ok:
  assumes inv: "side_inv accepts mine peer S" and gid: "length (xi_gid peer) = 16"
    and cb: "hs_callbacks_ok accepts new_cb user"
    and k: "0 < k" "hs_got S + k \<le> 43"
  obtains S' where "hs_deliver new_cb user S (take k (drop (hs_got S) (all_bytes peer))) = Inr S'"
    and "side_inv accepts mine peer S'" and "hs_got S' = hs_got S + k"
proof -
  let ?chunk = "take k (drop (hs_got S) (all_bytes peer))"
  have len: "length (all_bytes peer) = 43" "length (info_bytes peer) = 42"
    using length_info_bytes [OF gid] by (simp_all add: all_bytes_def sizeof_info_def)
  have ch: "length ?chunk = k" using k(2) len by simp
  let ?n = "43 - (hs_got S + k)"
  have "Buffer_can_take (hs_in S) (length ?chunk + ?n)" using inv k(2) ch by (simp add: side_inv_def)
  moreover have "Buffer_wf (hs_in S)" using inv by (simp add: side_inv_def)
  ultimately obtain b where b: "Buffer_put_read (hs_in S) ?chunk = Inr b" "Buffer_wf b"
    "Buffer_content b = Buffer_content (hs_in S) @ ?chunk" "Buffer_can_take b ?n"
    using bq_read.put_ok by blast
  consider (init) "xc_state (hs_x S) = kRdmaInit" "has_connection (hs_x S)" "hs_got S < 42"
      "Buffer_content (hs_in S) = take (hs_got S) (all_bytes peer)" "hs_out S = info_bytes mine"
      "rq (hs_conn S) = []" "ready_conn (hs_conn S)" "accepts (hs_owner S) (rc_name (hs_conn S))"
    | (rts) "xc_state (hs_x S) = kRdmaRTS" "has_connection (hs_x S)" "hs_got S = 42"
      "Buffer_content (hs_in S) = []" "hs_out S = all_bytes mine" "connected_qp peer (hs_conn S)"
    using inv k unfolding side_inv_def by fastforce
  then show ?thesis
  proof cases
    case init
    have "Buffer_content b = take (hs_got S + k) (all_bytes peer)"
      using b(3) init(4) take_next [of "hs_got S" k "all_bytes peer"] k(2) len by simp
    note I = handshake_info_ok [OF b(2,4) init(1,2) gid this init(6-8) cb]
    show ?thesis
    proof (cases "hs_got S + k < 42")
      case True
      let ?S = "S\<lparr>hs_in := b, hs_out := hs_out S, hs_got := hs_got S + k\<rparr>"
      have "hs_deliver new_cb user S ?chunk = Inr ?S"
        using I True b(1) ch by (simp add: hs_deliver_def RdmaConnector_handshakeQp_def)
      moreover have "side_inv accepts mine peer ?S"
        using True b init \<open>Buffer_content b = take (hs_got S + k) (all_bytes peer)\<close> by (simp add: side_inv_def)
      ultimately show ?thesis using that by simp
    next
      case False
      with I obtain ow' c' b' where i: "handshake_info new_cb no_errors (hs_x S) (hs_owner S, hs_conn S) b =
          Inr (True, (hs_x S)\<lparr>xc_state := kRdmaRTS\<rparr>, (ow', c'), b', [Tcp_send [kHandshakeCompleteMsg]])"
        "connected_qp peer c'" "Buffer_wf b'" "Buffer_can_take b' ?n"
        "Buffer_content b' = take (hs_got S + k - 42) [kHandshakeCompleteMsg]" by auto
      let ?x = "(hs_x S)\<lparr>xc_state := kRdmaRTS\<rparr>"
      have x: "xc_state ?x = kRdmaRTS" "has_connection ?x" using init(2) by simp_all
      note J = handshake_done_ok [OF i(3,4) x i(5) cb, of ow' c']
      show ?thesis
      proof (cases "hs_got S + k = 42")
        case True
        let ?S = "S\<lparr>hs_x := ?x, hs_owner := ow', hs_conn := c', hs_in := b', hs_out := all_bytes mine, hs_got := 42\<rparr>"
        have "hs_deliver new_cb user S ?chunk = Inr ?S"
          using i(1) J True b(1) ch init(5) by (simp add: hs_deliver_def RdmaConnector_handshakeQp_def all_bytes_def)
        moreover have "side_inv accepts mine peer ?S" using True i init(2) by (simp add: side_inv_def)
        ultimately show ?thesis using that True by simp
      next
        case ne: False
        then have eq: "hs_got S + k = 43" using False k(2) by simp
        with J obtain ow'' c'' b'' where d: "handshake_done user ?x (ow', c') b' =
            Inr (?x\<lparr>xc_state := kRdmaConnected, has_connection := False\<rparr>, (ow'', c''), b'', [Tcp_shutdown])"
          "qp_same c' c''" "Buffer_wf b''" "Buffer_can_take b'' ?n" by auto
        let ?S = "S\<lparr>hs_x := ?x\<lparr>xc_state := kRdmaConnected, has_connection := False\<rparr>, hs_owner := ow'',
          hs_conn := c'', hs_in := b'', hs_out := all_bytes mine, hs_got := 43\<rparr>"
        have "hs_deliver new_cb user S ?chunk = Inr ?S"
          using i(1) d(1) eq b(1) ch init(5) by (simp add: hs_deliver_def RdmaConnector_handshakeQp_def all_bytes_def)
        moreover have "side_inv accepts mine peer ?S"
          using i(2) d(2-4) eq by (simp add: side_inv_def connected_qp_def qp_same_def)
        ultimately show ?thesis using that eq by simp
      qed
    qed
  next
    case rts
    have k1: "k = 1" using k rts(3) by simp
    have "Buffer_content b = take 1 [kHandshakeCompleteMsg]" using b(3) rts(3,4) k1 len by (simp add: all_bytes_def)
    from handshake_done_ok [OF b(2,4) rts(1,2) this cb, of "hs_owner S" "hs_conn S"]
    obtain ow' c' b' where d: "handshake_done user (hs_x S) (hs_owner S, hs_conn S) b =
        Inr ((hs_x S)\<lparr>xc_state := kRdmaConnected, has_connection := False\<rparr>, (ow', c'), b', [Tcp_shutdown])"
      "qp_same (hs_conn S) c'" "Buffer_wf b'" "Buffer_can_take b' ?n" by auto
    let ?S = "S\<lparr>hs_x := (hs_x S)\<lparr>xc_state := kRdmaConnected, has_connection := False\<rparr>, hs_owner := ow',
      hs_conn := c', hs_in := b', hs_out := all_bytes mine, hs_got := 43\<rparr>"
    have "hs_deliver new_cb user S ?chunk = Inr ?S"
      using d(1) k1 b(1) ch rts by (simp add: hs_deliver_def RdmaConnector_handshakeQp_def handshake_info_def)
    moreover have "side_inv accepts mine peer ?S"
      using rts(6) d(2-4) k1 rts(3) by (simp add: side_inv_def connected_qp_def qp_same_def)
    ultimately show ?thesis using that k1 rts(3) by simp
  qed
qed

section \<open>The two sides together\<close>

text \<open>
  A side receives any number of bytes the other side has sent and that have not reached it yet.
\<close>

inductive hs_step ::
  "('o \<times> RdmaConnection \<Rightarrow> ('o \<times> RdmaConnection) res) \<Rightarrow> 'o rdma_user \<Rightarrow>
    ('p \<times> RdmaConnection \<Rightarrow> ('p \<times> RdmaConnection) res) \<Rightarrow> 'p rdma_user \<Rightarrow>
    'o hs_side \<times> 'p hs_side \<Rightarrow> 'o hs_side \<times> 'p hs_side \<Rightarrow> bool"
  for new1 user1 new2 user2 where
  to_first: "0 < k \<Longrightarrow> hs_got A + k \<le> length (hs_out B) \<Longrightarrow>
    hs_deliver new1 user1 A (take k (drop (hs_got A) (hs_out B))) = Inr A' \<Longrightarrow>
    hs_step new1 user1 new2 user2 (A, B) (A', B)"
| to_second: "0 < k \<Longrightarrow> hs_got B + k \<le> length (hs_out A) \<Longrightarrow>
    hs_deliver new2 user2 B (take k (drop (hs_got B) (hs_out A))) = Inr B' \<Longrightarrow>
    hs_step new1 user1 new2 user2 (A, B) (A, B')"

text \<open>A side that has created its connection and sent its information, with an empty input buffer.\<close>

definition hs_started :: "('o \<Rightarrow> string \<Rightarrow> bool) \<Rightarrow> 'o hs_side \<Rightarrow> bool" where
  "hs_started accepts S \<longleftrightarrow>
     (\<exists>v fs E config L p name garbage outs.
       RdmaConnector_initialRdmaResource v fs E config L p name (RdmaConnector_new garbage) =
         Inr (hs_x S, Some (hs_conn S), outs)
       \<and> hs_out S = concat (map out_bytes outs) \<and> loop_inv L \<and> chan_store L p = None
       \<and> (\<forall>f. comp_channel_fd E = Some f \<longrightarrow> channels (poller L) f = None))
     \<and> length (xi_gid (localExchangeInfo (hs_x S))) = 16 \<and> hs_in S = empty_buffer \<and> hs_got S = 0
     \<and> accepts (hs_owner S) (rc_name (hs_conn S))"

definition hs_inv ::
  "('o \<Rightarrow> string \<Rightarrow> bool) \<Rightarrow> ('p \<Rightarrow> string \<Rightarrow> bool) \<Rightarrow> RdmaExchangeInfo \<Rightarrow> RdmaExchangeInfo \<Rightarrow>
    'o hs_side \<times> 'p hs_side \<Rightarrow> bool" where
  "hs_inv acc1 acc2 x y = (\<lambda>(A, B). side_inv acc1 x y A \<and> side_inv acc2 y x B
     \<and> hs_got A \<le> length (hs_out B) \<and> hs_got B \<le> length (hs_out A))"

lemma side_inv_out:
  assumes "side_inv accepts mine peer S"
  shows "hs_out S = take (length (hs_out S)) (all_bytes mine)" and "length (hs_out S) \<le> length (all_bytes mine)"
  using assms by (auto simp: side_inv_def all_bytes_def)

lemma hs_deliver_peer:
  assumes A: "side_inv acc1 x y A" and B: "side_inv acc2 y x B" and gid: "length (xi_gid y) = 16"
    and cb: "hs_callbacks_ok acc1 new_cb user"
    and k: "0 < k" "hs_got A + k \<le> length (hs_out B)"
  obtains A' where "hs_deliver new_cb user A (take k (drop (hs_got A) (hs_out B))) = Inr A'"
    and "side_inv acc1 x y A'" and "hs_got A' = hs_got A + k"
proof -
  have "length (all_bytes y) = 43" using length_info_bytes [OF gid] by (simp add: all_bytes_def sizeof_info_def)
  then have "hs_got A + k \<le> 43" using k(2) side_inv_out(2) [OF B] by simp
  moreover have "take k (drop (hs_got A) (hs_out B)) = take k (drop (hs_got A) (all_bytes y))"
    using k(2) by (subst side_inv_out(1) [OF B]) (simp add: drop_take min_def)
  ultimately show ?thesis using hs_deliver_ok [OF A gid cb k(1)] that by metis
qed

lemma side_inv_out_grows:
  assumes "side_inv accepts x y A" and "side_inv accepts x y A'" and "hs_got A \<le> hs_got A'"
  shows "length (hs_out A) \<le> length (hs_out A')"
  using assms by (auto simp: side_inv_def all_bytes_def)

lemma hs_step_inv:
  assumes "hs_inv acc1 acc2 x y s" and "hs_step new1 user1 new2 user2 s s'"
    and gids: "length (xi_gid x) = 16" "length (xi_gid y) = 16"
    and cbs: "hs_callbacks_ok acc1 new1 user1" "hs_callbacks_ok acc2 new2 user2"
  shows "hs_inv acc1 acc2 x y s'"
  using assms(2)
proof (cases rule: hs_step.cases)
  case (to_first k A B A')
  have A: "side_inv acc1 x y A" and B: "side_inv acc2 y x B" and le: "hs_got B \<le> length (hs_out A)"
    using assms(1) to_first(1) by (auto simp: hs_inv_def)
  from hs_deliver_peer [OF A B gids(2) cbs(1) to_first(3,4)] to_first(5) have
    A': "side_inv acc1 x y A'" "hs_got A' = hs_got A + k" by (metis Inr_inject)+
  with side_inv_out_grows [OF A A'(1)] le B to_first show ?thesis by (auto simp: hs_inv_def)
next
  case (to_second k B A B')
  have A: "side_inv acc1 x y A" and B: "side_inv acc2 y x B" and le: "hs_got A \<le> length (hs_out B)"
    using assms(1) to_second(1) by (auto simp: hs_inv_def)
  from hs_deliver_peer [OF B A gids(1) cbs(2) to_second(3,4)] to_second(5) have
    B': "side_inv acc2 y x B'" "hs_got B' = hs_got B + k" by (metis Inr_inject)+
  with side_inv_out_grows [OF B B'(1)] le A to_second show ?thesis by (auto simp: hs_inv_def)
qed

lemma RdmaConnection_new_fields:
  assumes "RdmaConnection_new L p f name base mem lkey rkey qpn dev dest cap n = Inr c"
    and "loop_inv L" and "chan_store L p = None" and "channels (poller L) f = None"
  shows "ready_conn c" and "rq c = []"
proof -
  let ?ch = "(Channel_new f)\<lparr>callbacks := {Read_cb, Write_cb, Close_cb, Error_cb}\<rparr>"
  have c: "rc_loop c = L\<lparr>chan_store := (chan_store L)(p \<mapsto> ?ch)\<rparr>" "rc_channel c = p"
    "rc_state c = RC_kConnecting" "rq c = []"
    using assms(1) by (auto simp: RdmaConnection_new_def res_simps Let_def)
  have "loop_inv (L\<lparr>chan_store := (chan_store L)(p \<mapsto> ?ch)\<rparr>)"
    using loop_inv_new_channel [OF assms(2,3)] assms(4) by (simp add: Channel_new_def)
  moreover have "registrable (poller L) p ?ch" using assms(4) by (simp add: registrable_def Channel_new_def)
  ultimately show "ready_conn c" "rq c = []" using c by (auto simp: ready_conn_def)
qed

lemma initialRdmaResource_created:
  assumes "RdmaConnector_initialRdmaResource v fs E config L p name (RdmaConnector_new garbage) =
    Inr (x, Some c, outs)"
  obtains dlog vlog where "RdmaConnection_create v fs E (ibDevName config) (ibDevPort config)
      (memSize config) (memNum config) L p name = Inr (dlog, vlog, Inr c)"
    and "xc_state x = kRdmaInit" and "has_connection x"
    and "outs = [Tcp_send (info_bytes (localExchangeInfo x))]"
proof -
  from assms obtain dlog vlog r where
    cr: "RdmaConnection_create v fs E (ibDevName config) (ibDevPort config) (memSize config)
      (memNum config) L p name = Inr (dlog, vlog, r)"
    by (auto simp: RdmaConnector_initialRdmaResource_def res_simps)
  show ?thesis
  proof (cases r)
    case (Inl e)
    with assms cr show ?thesis by (simp add: RdmaConnector_initialRdmaResource_def)
  next
    case (Inr d)
    with assms cr have "xc_state x = kRdmaInit" "has_connection x" "d = c"
      "outs = [Tcp_send (info_bytes (localExchangeInfo x))]"
      by (auto simp: RdmaConnector_initialRdmaResource_def RdmaConnector_setLocalExchangeInfo_def res_simps)
    with cr Inr show ?thesis by (intro that [of dlog vlog]) simp_all
  qed
qed

lemma hs_started_inv:
  assumes "hs_started accepts S"
  shows "side_inv accepts (localExchangeInfo (hs_x S)) peer S" and "hs_out S \<noteq> []"
proof -
  from assms obtain v fs E config L p name garbage outs where
    run: "RdmaConnector_initialRdmaResource v fs E config L p name (RdmaConnector_new garbage) =
         Inr (hs_x S, Some (hs_conn S), outs)"
    and S: "hs_out S = concat (map out_bytes outs)" "loop_inv L" "chan_store L p = None"
      "\<forall>f. comp_channel_fd E = Some f \<longrightarrow> channels (poller L) f = None"
      "length (xi_gid (localExchangeInfo (hs_x S))) = 16" "hs_in S = empty_buffer" "hs_got S = 0"
      "accepts (hs_owner S) (rc_name (hs_conn S))"
    by (auto simp: hs_started_def)
  from run obtain dlog vlog where
    cr: "RdmaConnection_create v fs E (ibDevName config) (ibDevPort config) (memSize config) (memNum config) L p name
      = Inr (dlog, vlog, Inr (hs_conn S))"
    and x: "xc_state (hs_x S) = kRdmaInit" "has_connection (hs_x S)"
      "outs = [Tcp_send (info_bytes (localExchangeInfo (hs_x S)))]"
    by (rule initialRdmaResource_created)
  from cr obtain dev dlog' where
    "RdmaConnection_create_on E dev L p name (total_mem (page_size E) (memSize config) (memNum config)) (memNum config)
      = Inr (dlog', vlog, Inr (hs_conn S))"
    by (auto simp: RdmaConnection_create_def res_simps Let_def split: if_splits sum.splits prod.splits)
  then obtain f lkey rkey qpn dest cap where f: "comp_channel_fd E = Some f"
    and new: "RdmaConnection_new L p f name (mem_address E) (total_mem (page_size E) (memSize config) (memNum config))
      lkey rkey qpn dev dest cap (memNum config) = Inr (hs_conn S)"
    by (rule create_on_new)
  have "channels (poller L) f = None" using S(4) f by blast
  note c = RdmaConnection_new_fields [OF new S(2,3) this]
  have out: "hs_out S = info_bytes (localExchangeInfo (hs_x S))" using S(1) x(3) by simp
  show "side_inv accepts (localExchangeInfo (hs_x S)) peer S"
    using S x(1,2) c out by (simp add: side_inv_def empty_buffer_wf vector_max_def)
  show "hs_out S \<noteq> []" using out length_info_bytes [OF S(5)] by (auto simp: sizeof_info_def)
qed

section \<open>Properties\<close>

text \<open>
  C12. The handshake brings up both queue pairs with matching parameters, and no side speaks before
  the other can listen. Two sides that have created their connections exchange their messages
  in pieces of any size. Then no delivery fails an assertion; a side that calls its
  user's connected callback is connected to the peer's exchange information, and the peer already
  has its queue pair connected to this side and all of its receive buffers posted; and once
  everything sent has been delivered both sides are connected.
\<close>

theorem rdma_handshake_safe:
  assumes "hs_started acc1 A0" and "hs_started acc2 B0"
    and "hs_callbacks_ok acc1 new1 user1" and "hs_callbacks_ok acc2 new2 user2"
    and "(hs_step new1 user1 new2 user2)\<^sup>*\<^sup>* (A0, B0) (A, B)"
  shows "(\<forall>k. 0 < k \<and> hs_got A + k \<le> length (hs_out B) \<longrightarrow>
        (\<exists>A'. hs_deliver new1 user1 A (take k (drop (hs_got A) (hs_out B))) = Inr A'))
    \<and> (xc_state (hs_x A) = kRdmaConnected \<longrightarrow>
        connected_qp (localExchangeInfo (hs_x B0)) (hs_conn A)
        \<and> connected_qp (localExchangeInfo (hs_x A0)) (hs_conn B))
    \<and> (hs_got A = length (hs_out B) \<and> hs_got B = length (hs_out A) \<longrightarrow>
        xc_state (hs_x A) = kRdmaConnected \<and> xc_state (hs_x B) = kRdmaConnected)"
proof -
  let ?x = "localExchangeInfo (hs_x A0)" and ?y = "localExchangeInfo (hs_x B0)"
  have gids: "length (xi_gid ?x) = 16" "length (xi_gid ?y) = 16" using assms(1,2) by (auto simp: hs_started_def)
  have "hs_inv acc1 acc2 ?x ?y (A0, B0)"
    using hs_started_inv(1) [OF assms(1)] hs_started_inv(1) [OF assms(2)] assms(1,2)
    by (auto simp: hs_inv_def hs_started_def)
  with assms(5) have "hs_inv acc1 acc2 ?x ?y (A, B)"
    by (induction rule: rtranclp_induct) (auto intro: hs_step_inv [OF _ _ gids assms(3,4)])
  then have A: "side_inv acc1 ?x ?y A" and B: "side_inv acc2 ?y ?x B"
    and le: "hs_got A \<le> length (hs_out B)" "hs_got B \<le> length (hs_out A)" by (auto simp: hs_inv_def)
  have len: "length (info_bytes ?x) = 42" "length (info_bytes ?y) = 42"
    using length_info_bytes gids by (simp_all add: sizeof_info_def)
  have "\<exists>A'. hs_deliver new1 user1 A (take k (drop (hs_got A) (hs_out B))) = Inr A'"
    if "0 < k" "hs_got A + k \<le> length (hs_out B)" for k
    using hs_deliver_peer [OF A B gids(2) assms(3) that] by metis
  moreover have "connected_qp ?y (hs_conn A) \<and> connected_qp ?x (hs_conn B)" if "xc_state (hs_x A) = kRdmaConnected"
    using A B le len that by (auto simp: side_inv_def all_bytes_def)
  moreover have "xc_state (hs_x A) = kRdmaConnected \<and> xc_state (hs_x B) = kRdmaConnected"
    if "hs_got A = length (hs_out B)" "hs_got B = length (hs_out A)"
    using A B that len by (auto simp: side_inv_def all_bytes_def)
  ultimately show ?thesis by blast
qed

text \<open>
  Two sides for the witness: a client and a server with the sample connection.
\<close>

definition sample_gid :: ibv_gid where "sample_gid = replicate 16 9"

definition gid_verbs :: verbs_lib where
  "gid_verbs = sample_verbs\<lparr>query_gid := (\<lambda>c port k. Some sample_gid)\<rparr>"

definition sample_config :: RdmaConfig where
  "sample_config = \<lparr>ibDevName = ''mlx5_1'', ibDevPort = 1, memSize = 4000, memNum = 2\<rparr>"

definition sample_init ::
  "(RdmaConnector \<times> RdmaConnection option \<times> tcp_out list) res" where
  "sample_init = RdmaConnector_initialRdmaResource gid_verbs sample_sysfs sample_env sample_config
     quiet_loop 5 ''c'' (RdmaConnector_new sample_peer)"

lemma sample_init_ok:
  "\<exists>x c. sample_init = Inr (x, Some c, [Tcp_send (info_bytes (localExchangeInfo x))])
     \<and> xi_gid (localExchangeInfo x) = sample_gid"
proof -
  let ?d = "(DevContext_new ''mlx5_1'' 1 101 2)\<lparr>gid_index_list := [3], gid_count := Some 1, gid_list := [sample_gid]\<rparr>"
  have dev: "DevContext_create gid_verbs sample_sysfs ''mlx5_1'' 1 =
      Inr ([Got_device_list, Opened_device 101, Freed_device_list], Inr ?d)"
    by (simp add: DevContext_create_def gid_verbs_def sample_verbs_def ib_dev_id_by_name_def DevContext_setup_def
        sample_scan)
  have mem: "total_mem 4096 4000 2 = 16384" by (simp add: total_mem_def round_to_page_def)
  have lay: "lay_bufpairs 2 4096 65536 69632 \<noteq> []" by (simp add: numeral_2_eq_2)
  show ?thesis
    by (simp add: lay sample_init_def RdmaConnector_initialRdmaResource_def sample_config_def
        RdmaConnection_create_def dev mem sample_env_def vector_max_def RdmaConnection_create_on_def
        depth_limit_def new_dest_def RdmaConnection_new_def RdmaConnector_setLocalExchangeInfo_def the_bufpair_def)
qed

definition sample_side :: "'o \<Rightarrow> 'o hs_side" where
  "sample_side ow = (case sample_init of Inr (x, Some c, outs) \<Rightarrow>
     \<lparr>hs_x = x, hs_owner = ow, hs_conn = c, hs_in = empty_buffer, hs_out = concat (map out_bytes outs), hs_got = 0\<rparr>)"

lemma sample_side_started:
  assumes "\<And>n. accepts ow n"
  shows "hs_started accepts (sample_side ow)" and "length (hs_out (sample_side ow)) = 42"
proof -
  obtain x c where i: "sample_init = Inr (x, Some c, [Tcp_send (info_bytes (localExchangeInfo x))])"
    and g: "xi_gid (localExchangeInfo x) = sample_gid" using sample_init_ok by blast
  let ?outs = "[Tcp_send (info_bytes (localExchangeInfo x))]"
  have l: "length (xi_gid (localExchangeInfo x)) = 16" by (simp add: g sample_gid_def)
  have "loop_inv quiet_loop" "chan_store quiet_loop 5 = None"
    "\<forall>f. comp_channel_fd sample_env = Some f \<longrightarrow> channels (poller quiet_loop) f = None"
    by (simp_all add: quiet_loop_inv) (simp_all add: quiet_loop_def Poller_new_def)
  moreover have S: "sample_side ow = \<lparr>hs_x = x, hs_owner = ow, hs_conn = c, hs_in = empty_buffer,
      hs_out = concat (map out_bytes ?outs), hs_got = 0\<rparr>" by (simp add: sample_side_def i)
  ultimately show "hs_started accepts (sample_side ow)"
    using i l assms unfolding hs_started_def sample_init_def S
    by (intro conjI exI [of _ gid_verbs] exI [of _ sample_sysfs] exI [of _ sample_env] exI [of _ sample_config]
        exI [of _ quiet_loop] exI [of _ 5] exI [of _ "''c''"] exI [of _ sample_peer] exI [of _ ?outs]) simp_all
  show "length (hs_out (sample_side ow)) = 42" using length_info_bytes [OF l] by (simp add: S sizeof_info_def)
qed

definition idle_user :: "'a rdma_user" where "idle_user call ac = Inr ac"

lemma idle_user_keeps: "\<exists>ow' c'. idle_user call (ow, c) = Inr (ow', c') \<and> qp_same c c'"
  by (simp add: idle_user_def qp_same_def)

definition sample_client :: "unit RdmaClient" where
  "sample_client = \<lparr>isConnect = False, client_config = sample_config, client_connection = False, client_app = ()\<rparr>"

definition sample_server :: "unit RdmaServer" where
  "sample_server = \<lparr>server_config = sample_config, connections = {}, server_app = ()\<rparr>"

theorem rdma_handshake_safe_witness:
  "\<exists>A'. hs_deliver RdmaClient_newRdmaConnection idle_user (sample_side sample_client)
     (take 7 (drop 0 (hs_out (sample_side sample_server)))) = Inr A'"
proof -
  have A: "hs_started (\<lambda>cl n. True) (sample_side sample_client)" by (rule sample_side_started) simp
  have B: "hs_started (\<lambda>sv n. n \<notin> connections sv) (sample_side sample_server)"
    by (rule sample_side_started) (simp add: sample_server_def)
  have l: "length (hs_out (sample_side sample_server)) = 42"
    by (rule sample_side_started(2) [where accepts = "\<lambda>sv n. True"]) simp
  have g: "hs_got (sample_side sample_client) = 0" using A by (simp add: hs_started_def)
  have "hs_callbacks_ok (\<lambda>cl n. True) RdmaClient_newRdmaConnection (idle_user :: unit RdmaClient rdma_user)"
    by (rule RdmaClient_callbacks_ok) (simp add: idle_user_keeps)
  moreover have "hs_callbacks_ok (\<lambda>sv n. n \<notin> connections sv) RdmaServer_newRdmaConnection
      (idle_user :: unit RdmaServer rdma_user)"
    by (rule RdmaServer_callbacks_ok) (simp add: idle_user_keeps)
  ultimately show ?thesis
    using rdma_handshake_safe [OF A B _ _ rtranclp.rtrancl_refl, THEN conjunct1, rule_format, where k = 7] l g
    by fastforce
qed

end
