(* ===== verification/Doca_Core.thy ===== *)
theory Doca_Core
  imports C_Text
begin

text \<open>
  The DOCA objects the compress engine stands on: \<^verbatim>\<open>src/src/doca/common.h\<close>, \<^verbatim>\<open>common.cc\<close>,
  \<^verbatim>\<open>doca_buf\<close> and \<^verbatim>\<open>core\<close>. The outcomes of the calls to the DOCA library are arguments and the
  calls that make or release an object are recorded. The lemmas show what \<open>parse_pci_addr\<close>
  accepts, which device is opened, what a work queue returns, and which failing paths of
  \<open>DocaCore::create\<close> release what they made.
\<close>

section \<open>Errors and PCI addresses\<close>

datatype doca_error =
    DOCA_SUCCESS | DOCA_ERROR_AGAIN | DOCA_ERROR_INVALID_VALUE | DOCA_ERROR_UNEXPECTED
  | DOCA_ERROR_NOT_FOUND | DOCA_ERROR_other nat

record doca_pci_bdf =
  bdf_bus :: nat
  bdf_device :: nat
  bdf_function :: nat

definition hex_value :: "char \<Rightarrow> nat option" where
  "hex_value c =
     (let n = (of_char c :: nat) in
      if 48 \<le> n \<and> n \<le> 57 then Some (n - 48)
      else if 65 \<le> n \<and> n \<le> 70 then Some (n - 55)
      else if 97 \<le> n \<and> n \<le> 102 then Some (n - 87)
      else None)"

fun hex_digits :: "nat \<Rightarrow> string \<Rightarrow> nat" where
  "hex_digits v [] = v"
| "hex_digits v (c # cs) = (case hex_value c of None \<Rightarrow> v | Some d \<Rightarrow> hex_digits (16 * v + d) cs)"

text \<open>
  \<open>strtoul(s, NULL, 16)\<close> cut to 32 bits, on the strings of one or two characters the code gives
  it, which are too short for a prefix \<open>0x\<close> with a digit: white space, a sign, digits; a minus
  sign negates in the unsigned type.
\<close>

definition strtoul16 :: "string \<Rightarrow> nat" where
  "strtoul16 s =
     (case dropWhile is_space s of
        [] \<Rightarrow> 0
      | c # r \<Rightarrow> if c = CHR ''-'' then (2 ^ 32 - hex_digits 0 r) mod 2 ^ 32
                else if c = CHR ''+'' then hex_digits 0 r
                else hex_digits 0 (c # r))"

text \<open>
  The address \<open>bb:dd.f\<close>. The masks leave 8 bits for the bus, 5 for the device and 3 for the
  function. A C string has no zero byte.
\<close>

definition parse_pci_addr :: "string option \<Rightarrow> doca_error \<times> doca_pci_bdf option" where
  "parse_pci_addr pci_addr =
     (case pci_addr of
        None \<Rightarrow> (DOCA_ERROR_INVALID_VALUE, None)
      | Some s \<Rightarrow>
          if length s \<noteq> 7 \<or> s ! 2 \<noteq> CHR '':'' \<or> s ! 5 \<noteq> CHR ''.'' then (DOCA_ERROR_INVALID_VALUE, None)
          else
            let bus = strtoul16 [s ! 0, s ! 1]; dev = strtoul16 [s ! 3, s ! 4]; func = strtoul16 [s ! 6] in
            if bus \<ge> 2 ^ 8 then (DOCA_ERROR_INVALID_VALUE, None)
            else if dev \<ge> 2 ^ 5 then (DOCA_ERROR_INVALID_VALUE, None)
            else if func \<ge> 2 ^ 3 then (DOCA_ERROR_INVALID_VALUE, None)
            else (DOCA_SUCCESS, Some \<lparr>bdf_bus = bus, bdf_device = dev, bdf_function = func\<rparr>))"

section \<open>Opening a device\<close>

text \<open>
  A listed device: its address when it can be read, whether it supports all the jobs asked for,
  and the outcome of opening it.
\<close>

record doca_devinfo =
  dev_pci :: "doca_pci_bdf option"
  dev_jobs_ok :: "bool list"
  dev_open :: "doca_error + nat"

datatype doca_call =
    Devinfo_list_create | Devinfo_list_destroy
  | Dev_open nat | Dev_close nat
  | Ctx_dev_add | Ctx_dev_rm | Ctx_start | Ctx_stop
  | Inventory_create | Inventory_destroy | Inventory_start | Inventory_stop
  | Workq_create | Workq_destroy | Ctx_workq_add | Ctx_workq_rm

fun search_device :: "doca_pci_bdf \<Rightarrow> doca_devinfo list \<Rightarrow> nat option" where
  "search_device bdf [] = None"
| "search_device bdf (d # ds) =
     (if dev_pci d = Some bdf \<and> (\<forall>ok\<in>set (dev_jobs_ok d). ok)
      then case dev_open d of Inr h \<Rightarrow> Some h | Inl e \<Rightarrow> search_device bdf ds
      else search_device bdf ds)"

definition open_doca_device_with_pci ::
  "doca_error + doca_devinfo list \<Rightarrow> doca_pci_bdf \<Rightarrow> doca_call list \<times> doca_error \<times> nat option" where
  "open_doca_device_with_pci listing bdf =
     (case listing of
        Inl e \<Rightarrow> ([], e, None)
      | Inr devs \<Rightarrow>
          (case search_device bdf devs of
             Some h \<Rightarrow> ([Devinfo_list_create, Dev_open h, Devinfo_list_destroy], DOCA_SUCCESS, Some h)
           | None \<Rightarrow> ([Devinfo_list_create, Devinfo_list_destroy], DOCA_ERROR_NOT_FOUND, None)))"

section \<open>Buffers\<close>

record DocaBuf =
  db_buf :: "nat option"
  db_ptr :: nat
  db_capacity :: nat

definition DocaBuf_empty :: DocaBuf where
  "DocaBuf_empty = \<lparr>db_buf = None, db_ptr = 0, db_capacity = 0\<rparr>"

definition DocaBuf_new :: "nat \<Rightarrow> nat \<Rightarrow> nat \<Rightarrow> DocaBuf" where
  "DocaBuf_new buf ptr cap = \<lparr>db_buf = Some buf, db_ptr = ptr, db_capacity = cap\<rparr>"

text \<open>Moving leaves the source empty. Assignment overwrites the target without releasing it.\<close>

definition DocaBuf_move :: "DocaBuf \<Rightarrow> DocaBuf \<times> DocaBuf" where
  "DocaBuf_move b = (b, DocaBuf_empty)"

definition DocaBuf_destroy :: "DocaBuf \<Rightarrow> nat list" where
  "DocaBuf_destroy b = (case db_buf b of None \<Rightarrow> [] | Some h \<Rightarrow> [h])"

text \<open>
  \<open>set_data_by_offset\<close>: the request it makes to the library when it passes the test. The sum of
  the test wraps in \<open>size_t\<close>.
\<close>

definition DocaBuf_set_data_by_offset ::
  "DocaBuf \<Rightarrow> nat \<Rightarrow> nat \<Rightarrow> doca_error \<Rightarrow> doca_error \<times> (nat \<times> nat) option" where
  "DocaBuf_set_data_by_offset b offset len outcome =
     (if size_add offset len > db_capacity b then (DOCA_ERROR_INVALID_VALUE, None)
      else (outcome, Some (size_add (db_ptr b) offset, len)))"

definition DocaBuf_get_doca_buf_data_len :: "doca_error + nat \<Rightarrow> doca_error + nat" where
  "DocaBuf_get_doca_buf_data_len outcome = outcome"

section \<open>The core\<close>

record DocaCore =
  core_dev :: "nat option"
  core_buf_inv :: bool
  core_ctx :: bool
  core_workq :: bool
  core_workq_depth :: nat
  core_event_handle :: int

definition DocaCore_empty :: DocaCore where
  "DocaCore_empty = \<lparr>core_dev = None, core_buf_inv = False, core_ctx = False, core_workq = False,
     core_workq_depth = 0, core_event_handle = - 1\<rparr>"

definition DocaCore_new :: "nat \<Rightarrow> nat \<Rightarrow> int \<Rightarrow> DocaCore" where
  "DocaCore_new dev depth handle = \<lparr>core_dev = Some dev, core_buf_inv = True, core_ctx = True,
     core_workq = True, core_workq_depth = depth, core_event_handle = handle\<rparr>"

definition DocaCore_move :: "DocaCore \<Rightarrow> DocaCore \<times> DocaCore" where
  "DocaCore_move c = (c, DocaCore_empty)"

definition DocaCore_swap :: "DocaCore \<Rightarrow> DocaCore \<Rightarrow> DocaCore \<times> DocaCore" where
  "DocaCore_swap a b = (b, a)"

definition DocaCore_destroy :: "DocaCore \<Rightarrow> doca_call list" where
  "DocaCore_destroy c =
     (case core_dev c of
        None \<Rightarrow> []
      | Some d \<Rightarrow> if \<not> core_buf_inv c \<or> \<not> core_ctx c \<or> \<not> core_workq c then []
          else [Ctx_workq_rm, Workq_destroy, Ctx_stop, Ctx_dev_rm, Dev_close d, Inventory_destroy])"

text \<open>The outcomes of the calls of \<open>DocaCore::create\<close> whose failure it tests, in order.\<close>

record core_env =
  ctx_dev_add_res :: doca_error
  ctx_start_res :: doca_error
  inventory_create_res :: doca_error
  inventory_start_res :: doca_error
  workq_create_res :: doca_error
  event_driven_res :: doca_error
  event_handle_res :: "doca_error + int"
  workq_add_res :: doca_error
  arm_res :: doca_error

text \<open>
  The labels at the end, in their order; a jump runs all those after it. \<open>buf_inv\<close> has no value
  before the inventory is made, so releasing it then is undefined.
\<close>

definition core_labels :: "doca_call list" where
  "core_labels = [Workq_destroy, Ctx_stop, Ctx_dev_rm, Inventory_stop, Inventory_destroy]"

definition core_give_up :: "doca_call list \<Rightarrow> nat \<Rightarrow> doca_error \<Rightarrow> (doca_call list \<times> (doca_error + DocaCore)) res" where
  "core_give_up made skip e =
     (let undo = drop skip core_labels in
      defined_if (Inventory_destroy \<in> set undo \<longrightarrow> Inventory_create \<in> set made)
        (Inr (made @ undo, Inl e)))"

definition DocaCore_create :: "core_env \<Rightarrow> nat \<Rightarrow> nat \<Rightarrow> (doca_call list \<times> (doca_error + DocaCore)) res" where
  "DocaCore_create E dev workq_depth =
     (if ctx_dev_add_res E \<noteq> DOCA_SUCCESS then core_give_up [] 3 (ctx_dev_add_res E)
      else if ctx_start_res E \<noteq> DOCA_SUCCESS then core_give_up [Ctx_dev_add] 2 (ctx_start_res E)
      else if inventory_create_res E \<noteq> DOCA_SUCCESS
        then core_give_up [Ctx_dev_add, Ctx_start] 5 (inventory_create_res E)
      else if inventory_start_res E \<noteq> DOCA_SUCCESS
        then core_give_up [Ctx_dev_add, Ctx_start, Inventory_create] 4 (inventory_start_res E)
      else if workq_create_res E \<noteq> DOCA_SUCCESS
        then core_give_up [Ctx_dev_add, Ctx_start, Inventory_create, Inventory_start] 1 (workq_create_res E)
      else
        let made = [Ctx_dev_add, Ctx_start, Inventory_create, Inventory_start, Workq_create] in
        if event_driven_res E \<noteq> DOCA_SUCCESS then core_give_up made 0 (event_driven_res E)
        else case event_handle_res E of
            Inl e \<Rightarrow> core_give_up made 0 e
          | Inr h \<Rightarrow>
              if workq_add_res E \<noteq> DOCA_SUCCESS then core_give_up made 0 (workq_add_res E)
              else if arm_res E \<noteq> DOCA_SUCCESS then core_give_up (made @ [Ctx_workq_add]) 0 (arm_res E)
              else Inr (made @ [Ctx_workq_add], Inr (DocaCore_new dev workq_depth h)))"

text \<open>What a poll of the work queue gives: an error, or the result and the user data of a job.\<close>

type_synonym retrieve_outcome = "doca_error + nat \<times> nat"

definition retrieved :: "retrieve_outcome \<Rightarrow> doca_error + nat" where
  "retrieved r =
     (case r of
        Inl e \<Rightarrow> Inl e
      | Inr (result, user_data) \<Rightarrow> if result \<noteq> 0 then Inl DOCA_ERROR_UNEXPECTED else Inr user_data)"

definition DocaCore_retrieve_job_once :: "retrieve_outcome \<Rightarrow> doca_error + nat" where
  "DocaCore_retrieve_job_once r = retrieved r"

text \<open>
  \<open>retrieve_job\<close> polls until it gets something else than \<open>DOCA_ERROR_AGAIN\<close>: on a list of
  outcomes it gives \<open>None\<close> while it would still be polling.
\<close>

fun DocaCore_retrieve_job :: "retrieve_outcome list \<Rightarrow> (doca_error + nat) option" where
  "DocaCore_retrieve_job [] = None"
| "DocaCore_retrieve_job (r # rs) =
     (if r = Inl DOCA_ERROR_AGAIN then DocaCore_retrieve_job rs else Some (retrieved r))"

definition DocaCore_submit_job :: "nat list \<Rightarrow> nat \<Rightarrow> doca_error \<Rightarrow> doca_error \<times> nat list" where
  "DocaCore_submit_job workq job outcome =
     (if outcome \<noteq> DOCA_SUCCESS then (outcome, workq) else (outcome, workq @ [job]))"

text \<open>
  \<open>retrieve_job(nanos)\<close> sleeps between two polls and arms the event handle twice when it got something:
  the number of sleeps, of calls that arm the handle, and the result.
\<close>

fun DocaCore_retrieve_job_nanos :: "retrieve_outcome list \<Rightarrow> (nat \<times> nat \<times> (doca_error + nat)) option" where
  "DocaCore_retrieve_job_nanos [] = None"
| "DocaCore_retrieve_job_nanos (r # rs) =
     (if r = Inl DOCA_ERROR_AGAIN
      then map_option (\<lambda>(sleeps, arms, res). (Suc sleeps, arms, res)) (DocaCore_retrieve_job_nanos rs)
      else Some (0, 2, retrieved r))"

lemma retrieve_job_nanos_same:
  "DocaCore_retrieve_job rs = map_option (\<lambda>(sleeps, arms, res). res) (DocaCore_retrieve_job_nanos rs)"
  by (induction rs) (auto simp: option.map_comp o_def case_prod_beta)

section \<open>Files\<close>

text \<open>Files by their names; \<open>openable\<close> is whether the file can be opened for writing.\<close>

type_synonym files = "string \<rightharpoonup> byte list"

definition MAX_FILE_SIZE :: nat where
  "MAX_FILE_SIZE = 128 * 1024 * 1024"

definition read_file :: "files \<Rightarrow> string \<Rightarrow> doca_error + byte list" where
  "read_file fs path = (case fs path of None \<Rightarrow> Inl DOCA_ERROR_UNEXPECTED | Some bs \<Rightarrow> Inr bs)"

definition write_file :: "bool \<Rightarrow> files \<Rightarrow> string \<Rightarrow> byte list \<Rightarrow> doca_error \<times> files" where
  "write_file openable fs path bs =
     (if openable then (DOCA_SUCCESS, fs(path \<mapsto> bs)) else (DOCA_ERROR_UNEXPECTED, fs))"

lemma read_after_write:
  "write_file openable fs path bs = (DOCA_SUCCESS, fs') \<Longrightarrow> read_file fs' path = Inr bs \<and> (\<forall>q. q \<noteq> path \<longrightarrow> read_file fs' q = read_file fs q)"
  by (auto simp: write_file_def read_file_def split: if_splits)

section \<open>PCI addresses\<close>

definition hex_char :: "nat \<Rightarrow> char" where
  "hex_char d = char_of (if d < 10 then 48 + d else 87 + d)"

definition print_pci_addr :: "doca_pci_bdf \<Rightarrow> string" where
  "print_pci_addr b = [hex_char (bdf_bus b div 16), hex_char (bdf_bus b mod 16), CHR '':'',
     hex_char (bdf_device b div 16), hex_char (bdf_device b mod 16), CHR ''.'', hex_char (bdf_function b)]"

lemma of_char_hex: "d < 16 \<Longrightarrow> (of_char (hex_char d) :: nat) = (if d < 10 then 48 + d else 87 + d)"
  by (simp add: hex_char_def of_char_of)

lemma hex_value_char: "d < 16 \<Longrightarrow> hex_value (hex_char d) = Some d"
  by (auto simp: hex_value_def of_char_hex Let_def)

lemma hex_char_plain:
  assumes "d < 16"
  shows "\<not> is_space (hex_char d)" and "hex_char d \<noteq> CHR ''-''" and "hex_char d \<noteq> CHR ''+''"
proof -
  show "\<not> is_space (hex_char d)" using assms by (auto simp: is_space_def of_char_hex)
  have "hex_value CHR ''-'' = None" "hex_value CHR ''+'' = None" by (simp_all add: hex_value_def)
  then show "hex_char d \<noteq> CHR ''-''" "hex_char d \<noteq> CHR ''+''" using hex_value_char [OF assms] by force+
qed

lemma strtoul16_two: "a < 16 \<Longrightarrow> b < 16 \<Longrightarrow> strtoul16 [hex_char a, hex_char b] = 16 * a + b"
  by (simp add: strtoul16_def hex_char_plain hex_value_char)

lemma strtoul16_one: "a < 16 \<Longrightarrow> strtoul16 [hex_char a] = a"
  by (simp add: strtoul16_def hex_char_plain hex_value_char)

text \<open>
  The scan does not insist on digits: a part without a leading digit counts as zero.
\<close>

lemma parse_pci_addr_no_digits:
  "parse_pci_addr (Some ''zz:zz.z'') = (DOCA_SUCCESS, Some \<lparr>bdf_bus = 0, bdf_device = 0, bdf_function = 0\<rparr>)"
  by (simp add: parse_pci_addr_def strtoul16_def is_space_def hex_value_def)

section \<open>Device search\<close>

lemma search_device_Some:
  "search_device bdf devs = Some h \<Longrightarrow>
     \<exists>d\<in>set devs. dev_pci d = Some bdf \<and> (\<forall>ok\<in>set (dev_jobs_ok d). ok) \<and> dev_open d = Inr h"
  by (induction devs) (auto split: if_splits sum.splits)

lemma search_device_None:
  "search_device bdf devs = None \<longleftrightarrow>
     (\<forall>d\<in>set devs. dev_pci d = Some bdf \<and> (\<forall>ok\<in>set (dev_jobs_ok d). ok) \<longrightarrow> (\<exists>e. dev_open d = Inl e))"
  by (induction devs) (auto split: sum.splits)

section \<open>Failing to create a core\<close>

text \<open>
  The early failures: before the inventory exists the labels release it, and a failure to make or
  start the inventory leaves the context started with the device added.
\<close>

lemma DocaCore_create_early_failures:
  shows "ctx_dev_add_res E \<noteq> DOCA_SUCCESS \<Longrightarrow> DocaCore_create E dev n = Inl Undefined_behaviour"
    and "ctx_dev_add_res E = DOCA_SUCCESS \<Longrightarrow> ctx_start_res E \<noteq> DOCA_SUCCESS \<Longrightarrow>
      DocaCore_create E dev n = Inl Undefined_behaviour"
    and "ctx_dev_add_res E = DOCA_SUCCESS \<Longrightarrow> ctx_start_res E = DOCA_SUCCESS \<Longrightarrow>
      inventory_create_res E \<noteq> DOCA_SUCCESS \<Longrightarrow>
      DocaCore_create E dev n = Inr ([Ctx_dev_add, Ctx_start], Inl (inventory_create_res E))"
  by (simp_all add: DocaCore_create_def core_give_up_def core_labels_def)

text \<open>The calls that undo each call, and the objects a list of calls leaves.\<close>

definition undone_by :: "doca_call \<Rightarrow> doca_call list" where
  "undone_by c = (case c of
     Devinfo_list_create \<Rightarrow> [Devinfo_list_destroy] | Dev_open d \<Rightarrow> [Dev_close d] | Ctx_dev_add \<Rightarrow> [Ctx_dev_rm]
   | Ctx_start \<Rightarrow> [Ctx_stop] | Inventory_create \<Rightarrow> [Inventory_destroy] | Workq_create \<Rightarrow> [Workq_destroy]
   | Ctx_workq_add \<Rightarrow> [Ctx_workq_rm] | _ \<Rightarrow> [])"

definition left_over :: "doca_call list \<Rightarrow> doca_call list" where
  "left_over cs = filter (\<lambda>c. undone_by c \<noteq> [] \<and> set (undone_by c) \<inter> set cs = {}) cs"

section \<open>Properties\<close>

text \<open>
  PCI addresses round-trip and stay in range: an address printed as \<open>bb:dd.f\<close> is read back,
  and whatever string is accepted gives a bus below 256, a device below 32 and a function below 8.
\<close>

theorem parse_pci_addr_roundtrip:
  "(bdf_bus b < 256 \<and> bdf_device b < 32 \<and> bdf_function b < 8 \<longrightarrow>
      parse_pci_addr (Some (print_pci_addr b)) = (DOCA_SUCCESS, Some b))
    \<and> (parse_pci_addr s = (DOCA_SUCCESS, Some c) \<longrightarrow>
      bdf_bus c < 256 \<and> bdf_device c < 32 \<and> bdf_function c < 8)"
proof (intro conjI impI)
  assume b: "bdf_bus b < 256 \<and> bdf_device b < 32 \<and> bdf_function b < 8"
  then have "strtoul16 [hex_char (bdf_bus b div 16), hex_char (bdf_bus b mod 16)] = bdf_bus b"
    "strtoul16 [hex_char (bdf_device b div 16), hex_char (bdf_device b mod 16)] = bdf_device b"
    "strtoul16 [hex_char (bdf_function b)] = bdf_function b"
    using strtoul16_two [of "bdf_bus b div 16" "bdf_bus b mod 16"]
      strtoul16_two [of "bdf_device b div 16" "bdf_device b mod 16"] by (auto simp: strtoul16_one)
  with b show "parse_pci_addr (Some (print_pci_addr b)) = (DOCA_SUCCESS, Some b)"
    by (simp add: parse_pci_addr_def print_pci_addr_def)
qed (auto simp: parse_pci_addr_def Let_def split: option.splits if_splits)

theorem parse_pci_addr_roundtrip_witness:
  "parse_pci_addr (Some (print_pci_addr \<lparr>bdf_bus = 3, bdf_device = 31, bdf_function = 1\<rparr>))
     = (DOCA_SUCCESS, Some \<lparr>bdf_bus = 3, bdf_device = 31, bdf_function = 1\<rparr>)"
  using parse_pci_addr_roundtrip [of "\<lparr>bdf_bus = 3, bdf_device = 31, bdf_function = 1\<rparr>"] by simp

text \<open>
  C36. What every outcome of creating the core leaves behind (\<open>left_over\<close>: calls that were not
  undone). Without the device added or the context started, the labels release an inventory that was
  never made, which is undefined. A failure to make or start the inventory leaves the context started
  with the device added. A failure from the creation of the work queue to its registration leaves
  nothing. When the event handle cannot be armed, the work queue is destroyed while it is still
  registered with the context. On success all five are there, and the destructor undoes each of them
  and closes the device.
\<close>

theorem DocaCore_create_releases:
  "if ctx_dev_add_res E \<noteq> DOCA_SUCCESS \<or> ctx_start_res E \<noteq> DOCA_SUCCESS
   then DocaCore_create E dev n = Inl Undefined_behaviour
   else \<exists>log r. DocaCore_create E dev n = Inr (log, r)
    \<and> (case r of
         Inl e \<Rightarrow> left_over log =
           (if inventory_create_res E \<noteq> DOCA_SUCCESS \<or> inventory_start_res E \<noteq> DOCA_SUCCESS
            then [Ctx_dev_add, Ctx_start]
            else if workq_create_res E = DOCA_SUCCESS \<and> event_driven_res E = DOCA_SUCCESS
              \<and> \<not> isl (event_handle_res E) \<and> workq_add_res E = DOCA_SUCCESS
            then [Ctx_workq_add] else [])
       | Inr c \<Rightarrow> left_over log = [Ctx_dev_add, Ctx_start, Inventory_create, Workq_create, Ctx_workq_add]
           \<and> left_over (Dev_open dev # log @ DocaCore_destroy c) = []
           \<and> core_dev c = Some dev \<and> core_workq_depth c = n)"
proof -
  note defs = DocaCore_create_def core_give_up_def core_labels_def left_over_def undone_by_def
    DocaCore_new_def DocaCore_destroy_def
  show ?thesis
    by (cases "ctx_dev_add_res E = DOCA_SUCCESS"; cases "ctx_start_res E = DOCA_SUCCESS";
        cases "inventory_create_res E = DOCA_SUCCESS"; cases "inventory_start_res E = DOCA_SUCCESS";
        cases "workq_create_res E = DOCA_SUCCESS"; cases "event_driven_res E = DOCA_SUCCESS";
        cases "event_handle_res E"; cases "workq_add_res E = DOCA_SUCCESS"; cases "arm_res E = DOCA_SUCCESS")
       (simp_all add: defs)
qed

theorem DocaCore_create_releases_witness:
  "\<exists>log e. DocaCore_create \<lparr>ctx_dev_add_res = DOCA_SUCCESS, ctx_start_res = DOCA_SUCCESS,
      inventory_create_res = DOCA_SUCCESS, inventory_start_res = DOCA_SUCCESS,
      workq_create_res = DOCA_SUCCESS, event_driven_res = DOCA_SUCCESS, event_handle_res = Inr 4,
      workq_add_res = DOCA_SUCCESS, arm_res = DOCA_ERROR_UNEXPECTED\<rparr> 1 32 = Inr (log, Inl e)
    \<and> left_over log = [Ctx_workq_add]"
  (is "\<exists>log e. DocaCore_create ?E _ _ = _ \<and> _")
proof -
  have "\<exists>log. DocaCore_create ?E 1 32 = Inr (log, Inl DOCA_ERROR_UNEXPECTED)"
    by (simp add: DocaCore_create_def core_give_up_def core_labels_def)
  then show ?thesis using DocaCore_create_releases [of ?E 1 32] by auto
qed

end
