(* ===== verification/Compress_Engine.thy ===== *)
theory Compress_Engine
  imports Doca_Core Event_Loop
begin

text \<open>
  The compress engine: \<^verbatim>\<open>src/src/doca/compress.h\<close> and \<^verbatim>\<open>compress.cc\<close>. The engine has numbered pairs of buffers, hands them out from a
  free list, and runs one job at a time on the hardware. The lemmas show that a pair has one
  holder at a time, that a completion is reported with the job and the pair that were submitted,
  and what the destructor releases.
\<close>

section \<open>State\<close>

datatype doca_compress_job_type = DOCA_COMPRESS_DEFLATE_JOB | DOCA_DECOMPRESS_DEFLATE_JOB

record DocaBufPair =
  src_mem :: "byte list"
  dst_mem :: "byte list"
  src_doca_buf :: DocaBuf
  dst_doca_buf :: DocaBuf
  src_mmap :: "nat option"
  dst_mmap :: "nat option"
  bufpair_id :: int
  src_mmap_start :: bool
  dst_mmap_start :: bool

record ExportDesc =
  export_desc :: "byte list"

record ExportDescRemote =
  remote_export_desc :: "byte list"
  remote_addr :: nat
  remote_length :: nat

text \<open>
  A job in the work queue: its id, its kind and its two buffers. \<open>workq\<close> stands for the hardware
  queue: the jobs submitted and not yet retrieved.
\<close>

record doca_job =
  job_user_data :: nat
  job_type :: doca_compress_job_type
  job_src :: "nat option"
  job_dst :: "nat option"

record CompressEngine =
  ce_compress :: bool
  ce_core :: DocaCore
  ce_bufpairs :: "DocaBufPair list"
  ce_free_bufpairs :: "int list"
  ce_channel :: nat
  engine_busy :: bool
  ongoing_bufpair_id :: nat
  workq :: "doca_job list"
  ev_armed :: bool

section \<open>Creation and destruction\<close>

definition DocaBufPair_new :: "nat \<Rightarrow> nat \<Rightarrow> int \<Rightarrow> DocaBufPair" where
  "DocaBufPair_new src_size dst_size i =
     \<lparr>src_mem = replicate src_size 0, dst_mem = replicate dst_size 0, src_doca_buf = DocaBuf_empty,
      dst_doca_buf = DocaBuf_empty, src_mmap = None, dst_mmap = None, bufpair_id = i,
      src_mmap_start = False, dst_mmap_start = False\<rparr>"

definition CompressEngine_new :: "DocaCore \<Rightarrow> nat \<Rightarrow> nat \<Rightarrow> nat \<Rightarrow> int \<Rightarrow> CompressEngine" where
  "CompressEngine_new core p src_size dst_size mem_num =
     \<lparr>ce_compress = True, ce_core = core,
      ce_bufpairs = map (\<lambda>i. DocaBufPair_new src_size dst_size (int i)) [0..<nat mem_num],
      ce_free_bufpairs = map int [0..<nat mem_num], ce_channel = p, engine_busy = False,
      ongoing_bufpair_id = 0, workq = [], ev_armed = True\<rparr>"

text \<open>
  \<open>create\<close>. The outcomes: the listing of the devices, the creation of the compress library, its
  conversion to a context, and those of the core. A failure to open the device jumps to the label
  that destroys a library object which has no value yet; the failures right after it return
  without closing the device.
\<close>

record engine_env =
  dev_listing :: "doca_error + doca_devinfo list"
  compress_create_res :: doca_error
  as_ctx_ok :: bool
  core_outcomes :: core_env

definition CompressEngine_create ::
  "engine_env \<Rightarrow> string option \<Rightarrow> nat \<Rightarrow> nat \<Rightarrow> nat \<Rightarrow> nat \<Rightarrow> int \<Rightarrow>
    (doca_call list \<times> (doca_error + CompressEngine)) res" where
  "CompressEngine_create E pci_addr workq_depth p src_size dst_size mem_num =
     asserting (int workq_depth \<ge> mem_num mod 2 ^ 32)
       (case parse_pci_addr pci_addr of
          (e, None) \<Rightarrow> Inr ([], Inl e)
        | (e, Some bdf) \<Rightarrow>
            (case open_doca_device_with_pci (dev_listing E) bdf of
               (log, e, None) \<Rightarrow> Inl Undefined_behaviour
             | (log, e, Some dev) \<Rightarrow>
                 if compress_create_res E \<noteq> DOCA_SUCCESS then Inr (log, Inl (compress_create_res E))
                 else if \<not> as_ctx_ok E then Inr (log, Inl DOCA_ERROR_UNEXPECTED)
                 else andThen (DocaCore_create (core_outcomes E) dev workq_depth) (\<lambda>(log', r).
                   case r of
                     Inl e \<Rightarrow> Inr (log @ log', Inl e)
                   | Inr core \<Rightarrow> Inr (log @ log',
                       Inr (CompressEngine_new core p src_size dst_size mem_num)))))"

datatype mmap_call = Mmap_create nat | Mmap_stop nat | Mmap_dev_rm nat | Mmap_destroy nat

definition release_mmap :: "nat option \<Rightarrow> bool \<Rightarrow> mmap_call list" where
  "release_mmap m up =
     (case m of None \<Rightarrow> [] | Some h \<Rightarrow> (if up then [Mmap_stop h] else []) @ [Mmap_dev_rm h, Mmap_destroy h])"

text \<open>The destructor: the memory maps, then the core, then the library object.\<close>

definition CompressEngine_destroy :: "CompressEngine \<Rightarrow> mmap_call list \<times> doca_call list" where
  "CompressEngine_destroy e =
     (if \<not> ce_compress e then ([], [])
      else (concat (map (\<lambda>b. release_mmap (src_mmap b) (src_mmap_start b)
                          @ release_mmap (dst_mmap b) (dst_mmap_start b)) (ce_bufpairs e)),
            DocaCore_destroy (ce_core e)))"

definition CompressEngine_move :: "CompressEngine \<Rightarrow> CompressEngine \<times> CompressEngine" where
  "CompressEngine_move e =
     (e, e\<lparr>ce_compress := False, ce_core := DocaCore_empty, ce_bufpairs := [], ce_free_bufpairs := []\<rparr>)"

text \<open>\<open>swap\<close> exchanges all members; the callbacks of the two channels follow their engines.\<close>

definition CompressEngine_swap :: "CompressEngine \<Rightarrow> CompressEngine \<Rightarrow> CompressEngine \<times> CompressEngine" where
  "CompressEngine_swap lhs rhs = (rhs, lhs)"

section \<open>Memory maps\<close>

text \<open>
  \<open>mmap_outcome\<close> are the outcomes for one pair: making the map, adding it to the device, setting
  its range and permissions, and getting the buffer; the outcome of \<open>doca_mmap_start\<close> is not
  looked at. A map that is made but cannot be added is destroyed.
\<close>

record mmap_outcome =
  mmap_create_res :: "doca_error + nat"
  mmap_dev_add_res :: doca_error
  mmap_range_res :: doca_error
  mmap_perm_res :: doca_error
  mmap_buf_res :: "doca_error + nat"

definition CompressEngine_create_mmap :: "mmap_outcome \<Rightarrow> nat option" where
  "CompressEngine_create_mmap o1 =
     (case mmap_create_res o1 of
        Inl e \<Rightarrow> None
      | Inr m \<Rightarrow> if mmap_dev_add_res o1 \<noteq> DOCA_SUCCESS then None else Some m)"

definition CompressEngine_mmap_start :: "mmap_outcome \<Rightarrow> nat \<Rightarrow> nat \<Rightarrow> bool \<Rightarrow> doca_error + DocaBuf" where
  "CompressEngine_mmap_start o1 addr len has_mask =
     (if mmap_range_res o1 \<noteq> DOCA_SUCCESS then Inl (mmap_range_res o1)
      else if has_mask \<and> mmap_perm_res o1 \<noteq> DOCA_SUCCESS then Inl (mmap_perm_res o1)
      else case mmap_buf_res o1 of Inl e \<Rightarrow> Inl e | Inr b \<Rightarrow> Inr (DocaBuf_new b addr len))"

text \<open>
  The loops over the pairs. \<open>addr\<close> gives the address of the memory of a pair. A failure leaves the
  pairs before it started and, if the map was made, the map of the failing pair recorded.
\<close>

fun src_mmaps_start_from ::
  "(nat \<Rightarrow> nat) \<Rightarrow> bool \<Rightarrow> nat \<Rightarrow> DocaBufPair list \<Rightarrow> mmap_outcome list \<Rightarrow> doca_error \<times> DocaBufPair list" where
  "src_mmaps_start_from addr perm i [] os = (DOCA_SUCCESS, [])"
| "src_mmaps_start_from addr perm i (b # bs) [] = (DOCA_SUCCESS, b # bs)"
| "src_mmaps_start_from addr perm i (b # bs) (o1 # os) =
     (case CompressEngine_create_mmap o1 of
        None \<Rightarrow> (DOCA_ERROR_UNEXPECTED, b # bs)
      | Some m \<Rightarrow>
          (case CompressEngine_mmap_start o1 (addr i) (length (src_mem b)) perm of
             Inl e \<Rightarrow> (e, b\<lparr>src_mmap := Some m\<rparr> # bs)
           | Inr d \<Rightarrow>
               (case src_mmaps_start_from addr perm (Suc i) bs os of (r, bs') \<Rightarrow>
                 (r, b\<lparr>src_mmap := Some m, src_doca_buf := d, src_mmap_start := True\<rparr> # bs'))))"

fun dst_mmaps_start_from ::
  "(nat \<Rightarrow> nat) \<Rightarrow> bool \<Rightarrow> nat \<Rightarrow> DocaBufPair list \<Rightarrow> mmap_outcome list \<Rightarrow> doca_error \<times> DocaBufPair list" where
  "dst_mmaps_start_from addr perm i [] os = (DOCA_SUCCESS, [])"
| "dst_mmaps_start_from addr perm i (b # bs) [] = (DOCA_SUCCESS, b # bs)"
| "dst_mmaps_start_from addr perm i (b # bs) (o1 # os) =
     (case CompressEngine_create_mmap o1 of
        None \<Rightarrow> (DOCA_ERROR_UNEXPECTED, b # bs)
      | Some m \<Rightarrow>
          (case CompressEngine_mmap_start o1 (addr i) (length (dst_mem b)) perm of
             Inl e \<Rightarrow> (e, b\<lparr>dst_mmap := Some m\<rparr> # bs)
           | Inr d \<Rightarrow>
               (case dst_mmaps_start_from addr perm (Suc i) bs os of (r, bs') \<Rightarrow>
                 (r, b\<lparr>dst_mmap := Some m, dst_doca_buf := d, dst_mmap_start := True\<rparr> # bs'))))"

definition CompressEngine_src_mmaps_start ::
  "(nat \<Rightarrow> nat) \<Rightarrow> bool \<Rightarrow> mmap_outcome list \<Rightarrow> CompressEngine \<Rightarrow> doca_error \<times> CompressEngine" where
  "CompressEngine_src_mmaps_start addr perm os e =
     (case src_mmaps_start_from addr perm 0 (ce_bufpairs e) os of (r, bs) \<Rightarrow> (r, e\<lparr>ce_bufpairs := bs\<rparr>))"

definition CompressEngine_dst_mmaps_start ::
  "(nat \<Rightarrow> nat) \<Rightarrow> bool \<Rightarrow> mmap_outcome list \<Rightarrow> CompressEngine \<Rightarrow> doca_error \<times> CompressEngine" where
  "CompressEngine_dst_mmaps_start addr perm os e =
     (case dst_mmaps_start_from addr perm 0 (ce_bufpairs e) os of (r, bs) \<Rightarrow> (r, e\<lparr>ce_bufpairs := bs\<rparr>))"

text \<open>
  Importing the memory of the other side. \<open>mmap_create_from_export\<close> makes a second map and stores
  it in its own copy of the pointer, so the pair keeps the first, empty one.
\<close>

definition CompressEngine_mmap_create_from_export ::
  "mmap_outcome \<Rightarrow> doca_error \<Rightarrow> ExportDescRemote \<Rightarrow> doca_error + DocaBuf" where
  "CompressEngine_mmap_create_from_export o1 imported d =
     (if imported \<noteq> DOCA_SUCCESS then Inl imported
      else case mmap_buf_res o1 of Inl e \<Rightarrow> Inl e | Inr b \<Rightarrow> Inr (DocaBuf_new b (remote_addr d) (remote_length d)))"

fun dst_import_from ::
  "DocaBufPair list \<Rightarrow> (ExportDescRemote \<times> mmap_outcome \<times> doca_error) list \<Rightarrow> doca_error \<times> DocaBufPair list" where
  "dst_import_from [] ds = (DOCA_SUCCESS, [])"
| "dst_import_from (b # bs) [] = (DOCA_SUCCESS, b # bs)"
| "dst_import_from (b # bs) ((d, o1, imported) # ds) =
     (case CompressEngine_create_mmap o1 of
        None \<Rightarrow> (DOCA_ERROR_UNEXPECTED, b # bs)
      | Some m \<Rightarrow>
          (case CompressEngine_mmap_create_from_export o1 imported d of
             Inl e \<Rightarrow> (e, b\<lparr>dst_mmap := Some m\<rparr> # bs)
           | Inr db \<Rightarrow>
               (case dst_import_from bs ds of (r, bs') \<Rightarrow>
                 (r, b\<lparr>dst_mmap := Some m, dst_doca_buf := db\<rparr> # bs'))))"

definition CompressEngine_dst_mmaps_create_from_export ::
  "(ExportDescRemote \<times> mmap_outcome \<times> doca_error) list \<Rightarrow> CompressEngine \<Rightarrow> (doca_error \<times> CompressEngine) res" where
  "CompressEngine_dst_mmaps_create_from_export ds e =
     asserting (length (ce_bufpairs e) = length ds)
       (case dst_import_from (ce_bufpairs e) ds of (r, bs) \<Rightarrow> Inr (r, e\<lparr>ce_bufpairs := bs\<rparr>))"

fun src_import_from ::
  "DocaBufPair list \<Rightarrow> (ExportDescRemote \<times> mmap_outcome \<times> doca_error) list \<Rightarrow> doca_error \<times> DocaBufPair list" where
  "src_import_from [] ds = (DOCA_SUCCESS, [])"
| "src_import_from (b # bs) [] = (DOCA_SUCCESS, b # bs)"
| "src_import_from (b # bs) ((d, o1, imported) # ds) =
     (case CompressEngine_create_mmap o1 of
        None \<Rightarrow> (DOCA_ERROR_UNEXPECTED, b # bs)
      | Some m \<Rightarrow>
          (case CompressEngine_mmap_create_from_export o1 imported d of
             Inl e \<Rightarrow> (e, b\<lparr>src_mmap := Some m\<rparr> # bs)
           | Inr db \<Rightarrow>
               (case src_import_from bs ds of (r, bs') \<Rightarrow>
                 (r, b\<lparr>src_mmap := Some m, src_doca_buf := db\<rparr> # bs'))))"

definition CompressEngine_src_mmaps_create_from_export ::
  "(ExportDescRemote \<times> mmap_outcome \<times> doca_error) list \<Rightarrow> CompressEngine \<Rightarrow> (doca_error \<times> CompressEngine) res" where
  "CompressEngine_src_mmaps_create_from_export ds e =
     asserting (length (ce_bufpairs e) = length ds)
       (case src_import_from (ce_bufpairs e) ds of (r, bs) \<Rightarrow> Inr (r, e\<lparr>ce_bufpairs := bs\<rparr>))"

text \<open>\<open>export m\<close> is the outcome of exporting the map \<open>m\<close>.\<close>

fun export_all :: "(nat option \<Rightarrow> doca_error + ExportDesc) \<Rightarrow> nat option list \<Rightarrow> doca_error + ExportDesc list" where
  "export_all export [] = Inr []"
| "export_all export (m # ms) =
     (case export m of
        Inl e \<Rightarrow> Inl e
      | Inr d \<Rightarrow> (case export_all export ms of Inl e \<Rightarrow> Inl e | Inr ds \<Rightarrow> Inr (d # ds)))"

definition CompressEngine_src_mmaps_export_dpu ::
  "(nat option \<Rightarrow> doca_error + ExportDesc) \<Rightarrow> CompressEngine \<Rightarrow> doca_error + ExportDesc list" where
  "CompressEngine_src_mmaps_export_dpu export e = export_all export (map src_mmap (ce_bufpairs e))"

definition CompressEngine_dst_mmaps_export_dpu ::
  "(nat option \<Rightarrow> doca_error + ExportDesc) \<Rightarrow> CompressEngine \<Rightarrow> doca_error + ExportDesc list" where
  "CompressEngine_dst_mmaps_export_dpu export e = export_all export (map dst_mmap (ce_bufpairs e))"

section \<open>Buffer pairs and jobs\<close>

definition pool_pop :: "nat list \<Rightarrow> (nat \<times> nat list) option" where
  "pool_pop q = (if q = [] then None else Some (last q, butlast q))"

definition pool_push :: "nat list \<Rightarrow> nat \<Rightarrow> nat list" where
  "pool_push q i = q @ [i]"

text \<open>
  The free list holds \<open>int\<close>s. Ids are below the number of pairs, which comes from an \<open>int\<close>, so
  storing one keeps its value.
\<close>

definition CompressEngine_acquireFreeBufpair :: "CompressEngine \<Rightarrow> nat option \<times> CompressEngine" where
  "CompressEngine_acquireFreeBufpair e =
     (if ce_free_bufpairs e \<noteq> []
      then (Some (size_of_int (last (ce_free_bufpairs e))), e\<lparr>ce_free_bufpairs := butlast (ce_free_bufpairs e)\<rparr>)
      else (None, e))"

definition CompressEngine_releaseFreeBufpair :: "CompressEngine \<Rightarrow> nat \<Rightarrow> CompressEngine res" where
  "CompressEngine_releaseFreeBufpair e i =
     asserting (i < length (ce_bufpairs e)) (Inr (e\<lparr>ce_free_bufpairs := ce_free_bufpairs e @ [int i]\<rparr>))"

definition CompressEngine_get_bufpair :: "CompressEngine \<Rightarrow> nat \<Rightarrow> DocaBufPair res" where
  "CompressEngine_get_bufpair e i = defined_if (i < length (ce_bufpairs e)) (Inr (ce_bufpairs e ! i))"

text \<open>
  \<open>start_job\<close> does not look at the outcome of the submission: a job the queue refuses leaves the
  engine busy.
\<close>

definition CompressEngine_start_job ::
  "CompressEngine \<Rightarrow> nat \<Rightarrow> doca_compress_job_type \<Rightarrow> nat \<Rightarrow> doca_error \<Rightarrow> CompressEngine res" where
  "CompressEngine_start_job e jid jtype i outcome =
     asserting (\<not> engine_busy e)
       (andThen (CompressEngine_get_bufpair e i) (\<lambda>b.
         let job = \<lparr>job_user_data = jid, job_type = jtype, job_src = db_buf (src_doca_buf b),
                    job_dst = db_buf (dst_doca_buf b)\<rparr>
         in Inr (e\<lparr>ongoing_bufpair_id := i, engine_busy := True,
                   workq := (if outcome = DOCA_SUCCESS then workq e @ [job] else workq e)\<rparr>)))"

text \<open>
  The callbacks: the success callback gets the job id, the pair, and the two data lengths.
  \<open>user call (a, e)\<close> is what it does to the user's state and the engine.
\<close>

datatype compress_call = Compress_success nat nat nat nat | Compress_error doca_error

type_synonym 'a compress_user = "compress_call \<Rightarrow> 'a \<times> CompressEngine \<Rightarrow> ('a \<times> CompressEngine) res"

text \<open>
  \<open>handleRead\<close> with the outcomes of clearing the event, of the poll, of the two length queries (an
  error there dereferences an empty result) and of arming again. The work queue gives up the job
  it retrieves; the error callback gets the outcome of the first call.
\<close>

definition CompressEngine_handleRead ::
  "'a compress_user \<Rightarrow> 'a \<times> CompressEngine \<Rightarrow> doca_error \<Rightarrow> retrieve_outcome \<Rightarrow>
    doca_error + nat \<Rightarrow> doca_error + nat \<Rightarrow> doca_error \<Rightarrow> ('a \<times> CompressEngine) res" where
  "CompressEngine_handleRead user ae clear_res got src_len dst_len arm_again =
     (case ae of (a, e) \<Rightarrow>
       if clear_res \<noteq> DOCA_SUCCESS then Inr (a, e)
       else case DocaCore_retrieve_job_once got of
           Inl err \<Rightarrow> andThen (user (Compress_error clear_res) (a, e)) (\<lambda>_. Inl Terminated)
         | Inr jid \<Rightarrow>
             let e1 = e\<lparr>engine_busy := False, workq := tl (workq e), ev_armed := False\<rparr> in
             andThen (CompressEngine_get_bufpair e1 (ongoing_bufpair_id e1)) (\<lambda>b.
               case (src_len, dst_len) of
                 (Inr s, Inr d) \<Rightarrow>
                   andThen (user (Compress_success jid (ongoing_bufpair_id e1) s d) (a, e1)) (\<lambda>(a2, e2).
                     Inr (a2, if arm_again = DOCA_SUCCESS then e2\<lparr>ev_armed := True\<rparr> else e2))
               | _ \<Rightarrow> Inl Undefined_behaviour))"

section \<open>The pool of buffer pairs\<close>

interpretation pair_pool: id_pool pool_pop pool_push "\<lambda>q. q"
proof unfold_locales
  fix q q' :: "nat list" and i
  show "pool_pop q = None \<longleftrightarrow> q = []" by (simp add: pool_pop_def)
  show "mset (pool_push q i) = add_mset i (mset q)" by (simp add: pool_push_def)
  assume "pool_pop q = Some (i, q')"
  then have "q = q' @ [i]" by (auto simp: pool_pop_def split: if_splits)
  then show "mset q = add_mset i (mset q')" by simp
qed

definition free_pairs :: "CompressEngine \<Rightarrow> nat list" where
  "free_pairs e = map nat (ce_free_bufpairs e)"

definition pairs_ok :: "CompressEngine \<Rightarrow> nat list \<Rightarrow> bool" where
  "pairs_ok e held \<longleftrightarrow> pool_split (length (ce_bufpairs e)) (free_pairs e) held
     \<and> (\<forall>i\<in>set (ce_free_bufpairs e). 0 \<le> i) \<and> length (ce_bufpairs e) < 2 ^ 31"

lemma CompressEngine_acquire_ok:
  assumes "pairs_ok e held"
  shows "if length held = length (ce_bufpairs e) then CompressEngine_acquireFreeBufpair e = (None, e)
    else \<exists>i e'. CompressEngine_acquireFreeBufpair e = (Some i, e') \<and> e' = e\<lparr>ce_free_bufpairs := ce_free_bufpairs e'\<rparr>
      \<and> i < length (ce_bufpairs e) \<and> i \<notin> set held \<and> pairs_ok e' (held @ [i])"
proof (cases "ce_free_bufpairs e")
  case Nil
  then have "length held = length (ce_bufpairs e)"
    using assms pool_split_length by (fastforce simp: pairs_ok_def free_pairs_def)
  with Nil show ?thesis by (simp add: CompressEngine_acquireFreeBufpair_def)
next
  case (Cons x xs)
  let ?l = "last (ce_free_bufpairs e)"
  have ne: "ce_free_bufpairs e \<noteq> []" using Cons by simp
  then have mem: "?l \<in> set (ce_free_bufpairs e)" by simp
  have split: "pool_split (length (ce_bufpairs e)) (free_pairs e) held" using assms by (simp add: pairs_ok_def)
  have "nat ?l < length (ce_bufpairs e)" using pool_split_bound [OF split] mem by (simp add: free_pairs_def)
  moreover have "0 \<le> ?l" using assms mem by (simp add: pairs_ok_def)
  ultimately have conv: "size_of_int ?l = nat ?l" using assms by (intro size_of_int_nonneg) (auto simp: pairs_ok_def)
  have pop: "pool_pop (free_pairs e) = Some (nat ?l, map nat (butlast (ce_free_bufpairs e)))"
    using ne by (simp add: pool_pop_def free_pairs_def last_map map_butlast)
  note next_split = pair_pool.acquire_split [OF split pop]
  have "length held \<noteq> length (ce_bufpairs e)"
    using pool_split_length [OF split] Cons by (simp add: free_pairs_def)
  moreover have "\<forall>i\<in>set (butlast (ce_free_bufpairs e)). 0 \<le> i"
    using assms in_set_butlastD by (fastforce simp: pairs_ok_def)
  ultimately show ?thesis
    using ne conv next_split assms
    by (auto simp: CompressEngine_acquireFreeBufpair_def pairs_ok_def free_pairs_def)
qed

lemma CompressEngine_release_ok:
  assumes "pairs_ok e held" and "i \<in> set held"
  shows "CompressEngine_releaseFreeBufpair e i = Inr (e\<lparr>ce_free_bufpairs := ce_free_bufpairs e @ [int i]\<rparr>)"
    and "pairs_ok (e\<lparr>ce_free_bufpairs := ce_free_bufpairs e @ [int i]\<rparr>) (remove1 i held)"
proof -
  have split: "pool_split (length (ce_bufpairs e)) (free_pairs e) held" using assms by (simp add: pairs_ok_def)
  then show "CompressEngine_releaseFreeBufpair e i = Inr (e\<lparr>ce_free_bufpairs := ce_free_bufpairs e @ [int i]\<rparr>)"
    using pool_split_bound [OF split] assms(2) by (simp add: CompressEngine_releaseFreeBufpair_def)
  have "pool_split (length (ce_bufpairs e)) (free_pairs e) (i # remove1 i held)"
    using split assms(2) by (simp add: pool_split_def)
  from pair_pool.release_split [OF this] show
    "pairs_ok (e\<lparr>ce_free_bufpairs := ce_free_bufpairs e @ [int i]\<rparr>) (remove1 i held)"
    using assms(1) by (simp add: pairs_ok_def free_pairs_def pool_push_def)
qed

lemma CompressEngine_new_pairs:
  assumes "0 \<le> mem_num" and "mem_num < 2 ^ 31"
  shows "pairs_ok (CompressEngine_new core p s d mem_num) []"
  using assms pool_split_init [of "nat mem_num"]
  by (simp add: pairs_ok_def free_pairs_def CompressEngine_new_def comp_def)

section \<open>One job at a time\<close>

text \<open>
  The engine with the hardware: whoever owns the engine starts a job while it is idle, and the
  hardware completes the job in its queue. The success callback records what it is told and may
  start the next job at once, as the decompress client does; \<open>jobs_started\<close> and \<open>jobs_reported\<close> are the
  jobs with their buffer pairs.
\<close>

type_synonym job_ref = "nat \<times> nat"

record engine_system =
  eng :: CompressEngine
  jobs_started :: "job_ref list"
  jobs_reported :: "job_ref list"

fun chain_user ::
  "(nat \<times> doca_compress_job_type \<times> nat) option \<Rightarrow> (job_ref list \<times> job_ref list) compress_user" where
  "chain_user nxt (Compress_error err) ae = Inr ae"
| "chain_user None (Compress_success jid i s d) ((st, rep), e) = Inr ((st, rep @ [(jid, i)]), e)"
| "chain_user (Some (jid', ty, i')) (Compress_success jid i s d) ((st, rep), e) =
     andThen (CompressEngine_start_job e jid' ty i' DOCA_SUCCESS) (\<lambda>e'.
       Inr ((st @ [(jid', i')], rep @ [(jid, i)]), e'))"

inductive engine_step :: "engine_system \<Rightarrow> engine_system \<Rightarrow> bool" where
  start: "\<not> engine_busy (eng S) \<Longrightarrow> i < length (ce_bufpairs (eng S)) \<Longrightarrow>
    CompressEngine_start_job (eng S) jid ty i DOCA_SUCCESS = Inr e' \<Longrightarrow>
    engine_step S (S\<lparr>eng := e', jobs_started := jobs_started S @ [(jid, i)]\<rparr>)"
| complete: "workq (eng S) \<noteq> [] \<Longrightarrow>
    (\<forall>jid ty i. nxt = Some (jid, ty, i) \<longrightarrow> i < length (ce_bufpairs (eng S))) \<Longrightarrow>
    CompressEngine_handleRead (chain_user nxt) ((jobs_started S, jobs_reported S), eng S) DOCA_SUCCESS
      (Inr (0, job_user_data (hd (workq (eng S))))) (Inr s) (Inr d) arm_again = Inr ((st, rep), e') \<Longrightarrow>
    engine_step S (S\<lparr>eng := e', jobs_started := st, jobs_reported := rep\<rparr>)"

definition one_job :: "CompressEngine \<Rightarrow> job_ref list \<Rightarrow> job_ref list \<Rightarrow> bool" where
  "one_job e st rep \<longleftrightarrow>
     (if engine_busy e
      then \<exists>jid i job. st = rep @ [(jid, i)] \<and> ongoing_bufpair_id e = i \<and> i < length (ce_bufpairs e)
         \<and> workq e = [job] \<and> job_user_data job = jid
         \<and> job_src job = db_buf (src_doca_buf (ce_bufpairs e ! i))
         \<and> job_dst job = db_buf (dst_doca_buf (ce_bufpairs e ! i))
      else st = rep \<and> workq e = [])"

definition engine_init :: "engine_system \<Rightarrow> bool" where
  "engine_init S \<longleftrightarrow> \<not> engine_busy (eng S) \<and> workq (eng S) = [] \<and> jobs_started S = [] \<and> jobs_reported S = []"

definition engine_inv :: "engine_system \<Rightarrow> bool" where
  "engine_inv S \<longleftrightarrow> one_job (eng S) (jobs_started S) (jobs_reported S)"

lemma start_job_ok:
  assumes "\<not> engine_busy e" and "i < length (ce_bufpairs e)" and "one_job e st rep"
  obtains e' where "CompressEngine_start_job e jid ty i DOCA_SUCCESS = Inr e'"
    and "one_job e' (st @ [(jid, i)]) rep" and "engine_busy e'" and "ce_bufpairs e' = ce_bufpairs e"
  using assms
  by (auto simp: CompressEngine_start_job_def CompressEngine_get_bufpair_def one_job_def Let_def)

lemma start_job_busy: "engine_busy e \<Longrightarrow> CompressEngine_start_job e jid ty i r = Inl Assert_failed"
  by (simp add: CompressEngine_start_job_def)

text \<open>A job the hardware queue refuses: the engine stays busy with nothing in the queue.\<close>

lemma start_job_refused:
  assumes "\<not> engine_busy e" and "i < length (ce_bufpairs e)" and "workq e = []" and "r \<noteq> DOCA_SUCCESS"
  shows "\<exists>e'. CompressEngine_start_job e jid ty i r = Inr e' \<and> engine_busy e' \<and> workq e' = []"
  using assms by (simp add: CompressEngine_start_job_def CompressEngine_get_bufpair_def)

lemma one_job_armed [simp]: "one_job (e\<lparr>ev_armed := b\<rparr>) st rep = one_job e st rep"
  by (simp add: one_job_def)

lemma handleRead_ok:
  assumes one: "one_job e st rep" and w: "workq e \<noteq> []"
    and nxt: "\<forall>jid ty i. nxt = Some (jid, ty, i) \<longrightarrow> i < length (ce_bufpairs e)"
  obtains st' e' where "CompressEngine_handleRead (chain_user nxt) ((st, rep), e) DOCA_SUCCESS
      (Inr (0, job_user_data (hd (workq e)))) (Inr s) (Inr d) arm_again = Inr ((st', st), e')"
    and "one_job e' st' st" and "engine_busy e' \<longleftrightarrow> nxt \<noteq> None"
proof -
  from one w obtain jid i job where j: "st = rep @ [(jid, i)]" "ongoing_bufpair_id e = i"
    "i < length (ce_bufpairs e)" "workq e = [job]" "job_user_data job = jid"
    by (auto simp: one_job_def split: if_splits)
  let ?e = "e\<lparr>engine_busy := False, workq := [], ev_armed := False\<rparr>"
  have idle: "one_job ?e st st" "\<not> engine_busy ?e" by (simp_all add: one_job_def)
  show ?thesis
  proof (cases nxt)
    case None
    with j idle show ?thesis
      by (intro that [of st "if arm_again = DOCA_SUCCESS then ?e\<lparr>ev_armed := True\<rparr> else ?e"])
         (auto simp: CompressEngine_handleRead_def DocaCore_retrieve_job_once_def retrieved_def
           CompressEngine_get_bufpair_def Let_def one_job_def)
  next
    case (Some x)
    obtain jid' ty i' where x: "x = (jid', ty, i')" by (cases x)
    obtain e' where e': "CompressEngine_start_job ?e jid' ty i' DOCA_SUCCESS = Inr e'"
      "one_job e' (st @ [(jid', i')]) st" "engine_busy e'"
      using start_job_ok [OF idle(2) _ idle(1), of i' jid' ty] nxt Some x by auto
    with j Some x show ?thesis
      by (intro that [of "st @ [(jid', i')]" "if arm_again = DOCA_SUCCESS then e'\<lparr>ev_armed := True\<rparr> else e'"])
         (auto simp: CompressEngine_handleRead_def DocaCore_retrieve_job_once_def retrieved_def
           CompressEngine_get_bufpair_def Let_def)
  qed
qed

interpretation engine_sys: invariant_system engine_init engine_step engine_inv
proof unfold_locales
  fix S assume "engine_init S"
  then show "engine_inv S" by (simp add: engine_init_def engine_inv_def one_job_def)
next
  fix S S' assume inv: "engine_inv S" and "engine_step S S'"
  from this(2) show "engine_inv S'"
  proof (cases rule: engine_step.cases)
    case (start i jid ty e')
    with start_job_ok [OF start(2,3) inv [unfolded engine_inv_def], of jid ty] show ?thesis
      by (auto simp: engine_inv_def)
  next
    case (complete nxt s d arm_again st rep e')
    with handleRead_ok [OF inv [unfolded engine_inv_def] complete(2,3), of s d arm_again] show ?thesis
      by (auto simp: engine_inv_def)
  qed
qed

section \<open>Users of the buffer pairs\<close>

datatype pair_cmd = Take_pair | Give_pair nat

fun pair_exec :: "CompressEngine \<times> nat list \<Rightarrow> pair_cmd \<Rightarrow> (CompressEngine \<times> nat list) res" where
  "pair_exec (e, held) Take_pair =
     (case CompressEngine_acquireFreeBufpair e of
        (None, e') \<Rightarrow> Inr (e', held)
      | (Some i, e') \<Rightarrow> Inr (e', held @ [i]))"
| "pair_exec (e, held) (Give_pair i) =
     (if i \<in> set held then andThen (CompressEngine_releaseFreeBufpair e i) (\<lambda>e'. Inr (e', remove1 i held))
      else Inr (e, held))"

lemma pair_exec_ok:
  assumes "pairs_ok e held"
  obtains e' held' where "pair_exec (e, held) cmd = Inr (e', held')" and "pairs_ok e' held'"
    and "length (ce_bufpairs e') = length (ce_bufpairs e)"
proof (cases cmd)
  case Take_pair
  show ?thesis
  proof (cases "length held = length (ce_bufpairs e)")
    case True
    with CompressEngine_acquire_ok [OF assms] Take_pair assms show ?thesis by (intro that [of e held]) auto
  next
    case False
    with CompressEngine_acquire_ok [OF assms] obtain i e' where i: "CompressEngine_acquireFreeBufpair e = (Some i, e')"
      "e' = e\<lparr>ce_free_bufpairs := ce_free_bufpairs e'\<rparr>" "pairs_ok e' (held @ [i])" by auto
    have "length (ce_bufpairs e') = length (ce_bufpairs e)" by (subst i(2)) simp
    with i(1,3) Take_pair show ?thesis by (intro that [of e' "held @ [i]"]) simp_all
  qed
next
  case (Give_pair i)
  show ?thesis
  proof (cases "i \<in> set held")
    case True
    with CompressEngine_release_ok [OF assms True] Give_pair show ?thesis
      by (intro that [of "e\<lparr>ce_free_bufpairs := ce_free_bufpairs e @ [int i]\<rparr>" "remove1 i held"]) simp_all
  qed (use assms Give_pair in \<open>intro that [of e held]; simp\<close>)
qed

lemma pair_run_ok:
  assumes "pairs_ok e held"
  obtains e' held' where "run_all pair_exec (e, held) cmds = Inr (e', held')" and "pairs_ok e' held'"
    and "length (ce_bufpairs e') = length (ce_bufpairs e)"
  using assms
proof (induction cmds arbitrary: e held thesis)
  case (Cons cmd cmds)
  obtain e1 h1 where 1: "pair_exec (e, held) cmd = Inr (e1, h1)" "pairs_ok e1 h1"
    "length (ce_bufpairs e1) = length (ce_bufpairs e)" by (rule pair_exec_ok [OF Cons.prems(2)])
  obtain e2 h2 where "run_all pair_exec (e1, h1) cmds = Inr (e2, h2)" "pairs_ok e2 h2"
    "length (ce_bufpairs e2) = length (ce_bufpairs e1)" by (rule Cons.IH [OF _ 1(2)])
  with 1 Cons.prems(1) show ?case by simp
qed simp

section \<open>Failures of create\<close>

text \<open>A device that cannot be opened: the clean-up destroys an object that has no value.\<close>

lemma create_no_device:
  assumes "int depth \<ge> mem_num mod 2 ^ 32" and "parse_pci_addr addr = (DOCA_SUCCESS, Some bdf)"
    and "dev_listing E = Inr devs" and "search_device bdf devs = None"
  shows "CompressEngine_create E addr depth p s d mem_num = Inl Undefined_behaviour"
  using assms by (simp add: CompressEngine_create_def open_doca_device_with_pci_def)

lemma create_engine:
  assumes "CompressEngine_create E addr depth p s d mem_num = Inr (log, Inr e)"
  obtains bdf devs dev log' core where "parse_pci_addr addr = (DOCA_SUCCESS, Some bdf)"
    and "dev_listing E = Inr devs" and "search_device bdf devs = Some dev"
    and "DocaCore_create (core_outcomes E) dev depth = Inr (log', Inr core)"
    and "log = [Devinfo_list_create, Dev_open dev, Devinfo_list_destroy] @ log'"
    and "e = CompressEngine_new core p s d mem_num"
proof -
  have "fst (parse_pci_addr addr) = DOCA_SUCCESS" if "snd (parse_pci_addr addr) = Some b" for b
    using that by (auto simp: parse_pci_addr_def Let_def split: option.splits if_splits)
  with assms obtain bdf devs dev log' r where *: "parse_pci_addr addr = (DOCA_SUCCESS, Some bdf)"
    "dev_listing E = Inr devs" "search_device bdf devs = Some dev"
    "DocaCore_create (core_outcomes E) dev depth = Inr (log', r)"
    "(case r of Inl err \<Rightarrow> Inr (Devinfo_list_create # Dev_open dev # Devinfo_list_destroy # log', Inl err)
      | Inr core \<Rightarrow> Inr (Devinfo_list_create # Dev_open dev # Devinfo_list_destroy # log',
          Inr (CompressEngine_new core p s d mem_num))) = (Inr (log, Inr e) :: _ res)"
    by (cases "parse_pci_addr addr"; cases "dev_listing E")
       (auto simp: CompressEngine_create_def open_doca_device_with_pci_def res_simps
         split: option.splits if_splits)
  from *(5) that [OF *(1-3)] *(4) show ?thesis by (cases r) auto
qed

section \<open>Properties\<close>

text \<open>
  C35. The engine runs one job at a time and reports each job once with its own buffers: in every
  run, the jobs reported are the jobs started, in order, except for the last one while the
  engine is busy; the hardware queue then holds exactly that job, with the buffers of its pair; a
  job started on an idle engine is accepted, the event of a job in the queue is handled without a
  fault, and starting a job on a busy engine fails the assertion.
\<close>

theorem engine_one_job:
  assumes "engine_init S0" and "engine_step\<^sup>*\<^sup>* S0 S"
  shows "(if engine_busy (eng S)
      then \<exists>job. jobs_started S = jobs_reported S @ [(job_user_data job, ongoing_bufpair_id (eng S))]
        \<and> workq (eng S) = [job]
        \<and> job_src job = db_buf (src_doca_buf (ce_bufpairs (eng S) ! ongoing_bufpair_id (eng S)))
        \<and> job_dst job = db_buf (dst_doca_buf (ce_bufpairs (eng S) ! ongoing_bufpair_id (eng S)))
      else jobs_started S = jobs_reported S \<and> workq (eng S) = [])
    \<and> (\<forall>jid ty i. i < length (ce_bufpairs (eng S)) \<longrightarrow>
        (if engine_busy (eng S) then CompressEngine_start_job (eng S) jid ty i DOCA_SUCCESS = Inl Assert_failed
         else \<exists>e'. CompressEngine_start_job (eng S) jid ty i DOCA_SUCCESS = Inr e'))
    \<and> (workq (eng S) \<noteq> [] \<longrightarrow>
        (\<forall>s d arm. \<exists>e'. CompressEngine_handleRead (chain_user None) ((jobs_started S, jobs_reported S), eng S) DOCA_SUCCESS
           (Inr (0, job_user_data (hd (workq (eng S))))) (Inr s) (Inr d) arm = Inr ((jobs_started S, jobs_started S), e')))"
proof -
  have one: "one_job (eng S) (jobs_started S) (jobs_reported S)"
    using engine_sys.reachable_inv [OF assms] by (simp add: engine_inv_def)
  have st: "\<exists>e'. CompressEngine_start_job (eng S) jid ty i DOCA_SUCCESS = Inr e'"
    if "\<not> engine_busy (eng S)" "i < length (ce_bufpairs (eng S))" for jid ty i
    using start_job_ok [OF that one] by metis
  have "\<exists>e'. CompressEngine_handleRead (chain_user None) ((jobs_started S, jobs_reported S), eng S) DOCA_SUCCESS
      (Inr (0, job_user_data (hd (workq (eng S))))) (Inr s) (Inr d) arm = Inr ((jobs_started S, jobs_started S), e')"
    if w: "workq (eng S) \<noteq> []" for s d arm
  proof -
    obtain st' e' where h: "CompressEngine_handleRead (chain_user None) ((jobs_started S, jobs_reported S), eng S) DOCA_SUCCESS
        (Inr (0, job_user_data (hd (workq (eng S))))) (Inr s) (Inr d) arm = Inr ((st', jobs_started S), e')"
      "one_job e' st' (jobs_started S)" "\<not> engine_busy e'"
      by (rule handleRead_ok [OF one w, where nxt = None and s = s and d = d and arm_again = arm]) auto
    then show ?thesis by (auto simp: one_job_def)
  qed
  with one st show ?thesis by (auto simp: one_job_def start_job_busy)
qed

definition sample_core :: DocaCore where "sample_core = DocaCore_new 1 32 9"

definition sample_engine :: CompressEngine where
  "sample_engine = CompressEngine_new sample_core 4 2 2 2"

theorem engine_one_job_witness:
  "\<exists>e'. CompressEngine_start_job sample_engine 70 DOCA_DECOMPRESS_DEFLATE_JOB 1 DOCA_SUCCESS = Inr e'"
proof -
  let ?S = "\<lparr>eng = sample_engine, jobs_started = [], jobs_reported = []\<rparr>"
  have "engine_init ?S" by (simp add: engine_init_def sample_engine_def CompressEngine_new_def)
  moreover have "\<not> engine_busy sample_engine" "length (ce_bufpairs sample_engine) = 2"
    by (simp_all add: sample_engine_def CompressEngine_new_def)
  ultimately show ?thesis using engine_one_job [of ?S ?S] by simp
qed

text \<open>
  A buffer pair of the engine has one holder at a time: whatever is taken and given back, no
  assertion fails, the held pairs are different valid pairs and none of them is in the free list,
  and a request is refused only when all pairs are held.
\<close>

theorem bufpairs_exclusive:
  assumes "0 \<le> mem_num" and "mem_num < 2 ^ 31"
  shows "\<exists>e held. run_all pair_exec (CompressEngine_new core p s d mem_num, []) cmds = Inr (e, held)
    \<and> distinct held \<and> (\<forall>i\<in>set held. i < nat mem_num \<and> int i \<notin> set (ce_free_bufpairs e))
    \<and> (fst (CompressEngine_acquireFreeBufpair e) = None \<longleftrightarrow> length held = nat mem_num)
    \<and> (\<forall>i. fst (CompressEngine_acquireFreeBufpair e) = Some i \<longrightarrow> i < nat mem_num \<and> i \<notin> set held)"
proof -
  have n: "length (ce_bufpairs (CompressEngine_new core p s d mem_num)) = nat mem_num"
    by (simp add: CompressEngine_new_def)
  obtain e held where run: "run_all pair_exec (CompressEngine_new core p s d mem_num, []) cmds = Inr (e, held)"
    and ok: "pairs_ok e held" and len: "length (ce_bufpairs e) = nat mem_num"
    by (rule pair_run_ok [OF CompressEngine_new_pairs [OF assms], where cmds = cmds and core1 = core and p1 = p and s1 = s and d1 = d]) (use n in simp)
  from ok have split: "pool_split (nat mem_num) (free_pairs e) held" by (simp add: pairs_ok_def len)
  have "int i \<notin> set (ce_free_bufpairs e)" if "i \<in> set held" for i
    using pool_split_distinct(3) [OF split] that by (force simp: free_pairs_def)
  with run pool_split_distinct(2) [OF split] pool_split_bound [OF split] CompressEngine_acquire_ok [OF ok] len
  show ?thesis by (intro exI [of _ e] exI [of _ held]) (auto split: if_splits)
qed

theorem bufpairs_exclusive_witness:
  "\<exists>e held. run_all pair_exec (sample_engine, []) [Take_pair, Take_pair, Give_pair 1, Take_pair] = Inr (e, held)
     \<and> distinct held"
  using bufpairs_exclusive [of 2 sample_core 4 2 2 "[Take_pair, Take_pair, Give_pair 1, Take_pair]"]
  by (auto simp: sample_engine_def)

text \<open>
  An engine that is created stands on the device asked for: the address was parsed, the device
  in the list with that address supports the jobs and was opened, the device list is
  destroyed, and destroying the engine releases every DOCA object the creation made and closes the
  device.
\<close>

theorem create_engine_device:
  assumes "CompressEngine_create E addr depth p s d mem_num = Inr (log, Inr e)"
  shows "\<exists>bdf devs info dev. parse_pci_addr addr = (DOCA_SUCCESS, Some bdf) \<and> dev_listing E = Inr devs
    \<and> info \<in> set devs \<and> dev_pci info = Some bdf \<and> (\<forall>ok\<in>set (dev_jobs_ok info). ok)
    \<and> dev_open info = Inr dev \<and> core_dev (ce_core e) = Some dev
    \<and> left_over (log @ snd (CompressEngine_destroy e)) = []
    \<and> length (ce_bufpairs e) = nat mem_num \<and> \<not> engine_busy e"
proof -
  from assms obtain bdf devs dev log' core where
    c: "parse_pci_addr addr = (DOCA_SUCCESS, Some bdf)" "dev_listing E = Inr devs"
      "search_device bdf devs = Some dev" "DocaCore_create (core_outcomes E) dev depth = Inr (log', Inr core)"
      "log = [Devinfo_list_create, Dev_open dev, Devinfo_list_destroy] @ log'"
      "e = CompressEngine_new core p s d mem_num" by (rule create_engine)
  from search_device_Some [OF c(3)] obtain info where
    i: "info \<in> set devs" "dev_pci info = Some bdf" "\<forall>ok\<in>set (dev_jobs_ok info). ok" "dev_open info = Inr dev" by blast
  have k: "core = DocaCore_new dev depth (core_event_handle core)"
    "log' = [Ctx_dev_add, Ctx_start, Inventory_create, Inventory_start, Workq_create, Ctx_workq_add]"
    using c(4) by (auto simp: DocaCore_create_def core_give_up_def res_simps Let_def DocaCore_new_def
        split: if_splits sum.splits)
  have "core_dev core = Some dev" and "DocaCore_destroy core
      = [Ctx_workq_rm, Workq_destroy, Ctx_stop, Ctx_dev_rm, Dev_close dev, Inventory_destroy]"
    by (subst k(1), simp add: DocaCore_new_def DocaCore_destroy_def)+
  then show ?thesis using c i k(2)
    by (intro exI [of _ bdf] exI [of _ devs] exI [of _ info] exI [of _ dev])
       (simp add: CompressEngine_new_def CompressEngine_destroy_def left_over_def undone_by_def)
qed

definition sample_engine_env :: engine_env where
  "sample_engine_env = \<lparr>dev_listing = Inr [\<lparr>dev_pci = Some \<lparr>bdf_bus = 3, bdf_device = 0, bdf_function = 0\<rparr>,
       dev_jobs_ok = [True, True], dev_open = Inr 1\<rparr>],
     compress_create_res = DOCA_SUCCESS, as_ctx_ok = True,
     core_outcomes = \<lparr>ctx_dev_add_res = DOCA_SUCCESS, ctx_start_res = DOCA_SUCCESS,
       inventory_create_res = DOCA_SUCCESS, inventory_start_res = DOCA_SUCCESS, workq_create_res = DOCA_SUCCESS,
       event_driven_res = DOCA_SUCCESS, event_handle_res = Inr 9, workq_add_res = DOCA_SUCCESS,
       arm_res = DOCA_SUCCESS\<rparr>\<rparr>"

theorem create_engine_device_witness:
  "\<exists>log e. CompressEngine_create sample_engine_env (Some ''03:00.0'') 32 4 2 2 2 = Inr (log, Inr e)
     \<and> left_over (log @ snd (CompressEngine_destroy e)) = []"
proof -
  have "parse_pci_addr (Some ''03:00.0'') = (DOCA_SUCCESS, Some \<lparr>bdf_bus = 3, bdf_device = 0, bdf_function = 0\<rparr>)"
    by (simp add: parse_pci_addr_def strtoul16_def is_space_def hex_value_def)
  then have "\<exists>log e. CompressEngine_create sample_engine_env (Some ''03:00.0'') 32 4 2 2 2 = Inr (log, Inr e)"
    by (simp add: CompressEngine_create_def sample_engine_env_def open_doca_device_with_pci_def DocaCore_create_def)
  then show ?thesis using create_engine_device by blast
qed

end
