(* ===== verification/Blob_Pool.thy ===== *)
theory Blob_Pool
  imports Poby_Prelude
begin

text \<open>
  The pool of memory blobs: \<^verbatim>\<open>src/src/utils/blob_pool.h\<close>. A blob shares ownership of its memory,
  which is identified by its address; \<open>next_addr\<close> stands for the allocator, which gives
  addresses that are not in use. The lemmas show that a blob handed out is in nobody else's hands,
  and how large it is.
\<close>

record Blob =
  blob_addr :: "nat option"
  blob_capacity :: nat
  blob_size :: nat

record BlobPool =
  blob_cap :: nat
  blobs :: "Blob list"
  is_use :: bool
  next_addr :: nat

definition kInc :: nat where "kInc = 4"

definition Blob_empty :: Blob where
  "Blob_empty = \<lparr>blob_addr = None, blob_capacity = 0, blob_size = 0\<rparr>"

text \<open>A blob of \<open>cap\<close> bytes at the address the allocator gives.\<close>

definition Blob_new :: "nat \<Rightarrow> nat \<Rightarrow> Blob" where
  "Blob_new a cap = \<lparr>blob_addr = Some a, blob_capacity = cap, blob_size = 0\<rparr>"

definition Blob_set_size :: "Blob \<Rightarrow> nat \<Rightarrow> Blob" where
  "Blob_set_size b n = b\<lparr>blob_size := n\<rparr>"

definition add_blobs :: "BlobPool \<Rightarrow> nat \<Rightarrow> BlobPool" where
  "add_blobs P n = P\<lparr>blobs := blobs P @ map (\<lambda>a. Blob_new a (blob_cap P)) [next_addr P..<next_addr P + n],
     next_addr := next_addr P + n\<rparr>"

definition BlobPool_new :: "nat \<Rightarrow> nat \<Rightarrow> nat \<Rightarrow> BlobPool" where
  "BlobPool_new next cap n =
     (let P = \<lparr>blob_cap = cap, blobs = [], is_use = True, next_addr = next\<rparr> in
      if cap = 0 then P\<lparr>is_use := False\<rparr> else add_blobs P n)"

definition BlobPool_acquireBlob :: "BlobPool \<Rightarrow> nat \<Rightarrow> Blob \<times> BlobPool" where
  "BlobPool_acquireBlob P cap =
     (if \<not> is_use P then (Blob_new (next_addr P) cap, P\<lparr>next_addr := next_addr P + 1\<rparr>)
      else let P1 = (if blobs P = [] then add_blobs P kInc else P)
        in (last (blobs P1), P1\<lparr>blobs := butlast (blobs P1)\<rparr>))"

definition BlobPool_releaseBlob :: "BlobPool \<Rightarrow> Blob \<Rightarrow> BlobPool" where
  "BlobPool_releaseBlob P b = (if \<not> is_use P then P else P\<lparr>blobs := blobs P @ [b]\<rparr>)"

section \<open>Holders of blobs\<close>

text \<open>
  The users of the pool ask for blobs, set their sizes and give back blobs they hold, by position.
\<close>

datatype blob_cmd = Acquire_blob nat | Set_blob_size nat nat | Release_blob nat

definition drop_nth :: "nat \<Rightarrow> 'a list \<Rightarrow> 'a list" where
  "drop_nth k xs = take k xs @ drop (Suc k) xs"

fun blob_exec :: "BlobPool \<times> Blob list \<Rightarrow> blob_cmd \<Rightarrow> BlobPool \<times> Blob list" where
  "blob_exec (P, held) (Acquire_blob cap) = (case BlobPool_acquireBlob P cap of (b, P') \<Rightarrow> (P', held @ [b]))"
| "blob_exec (P, held) (Set_blob_size k n) =
     (if k < length held then (P, held[k := Blob_set_size (held ! k) n]) else (P, held))"
| "blob_exec (P, held) (Release_blob k) =
     (if k < length held then (BlobPool_releaseBlob P (held ! k), drop_nth k held) else (P, held))"

text \<open>
  Every blob has its own memory, below the allocator's next address; while the pool is in use
  all of its blobs have the pool's capacity. \<open>blob_keys\<close> is what the pool depends on.
\<close>

definition blob_keys :: "Blob list \<Rightarrow> (nat option \<times> nat) list" where
  "blob_keys bs = map (\<lambda>b. (blob_addr b, blob_capacity b)) bs"

lemma blob_keys_append [simp]: "blob_keys (xs @ ys) = blob_keys xs @ blob_keys ys"
  by (simp add: blob_keys_def)

lemma fst_blob_keys: "image_mset fst (mset (blob_keys bs)) = mset (map blob_addr bs)"
  by (simp add: blob_keys_def multiset.map_comp comp_def)

lemma distinct_if_counts:
  assumes "\<And>a. count (mset xs) a \<le> 1"
  shows "distinct xs"
  unfolding distinct_count_atmost_1
proof
  fix a
  show "count (mset xs) a = (if a \<in> set xs then 1 else 0)"
    using assms [of a] by (auto simp: count_eq_zero_iff le_Suc_eq)
qed

definition keys_ok :: "BlobPool \<Rightarrow> (nat option \<times> nat) multiset \<Rightarrow> bool" where
  "keys_ok P K \<longleftrightarrow> (\<forall>a. count (image_mset fst K) a \<le> 1)
     \<and> (\<forall>(a, c)\<in>#K. (\<exists>x<next_addr P. a = Some x) \<and> (is_use P \<longrightarrow> c = blob_cap P))"

definition blobs_ok :: "BlobPool \<times> Blob list \<Rightarrow> bool" where
  "blobs_ok = (\<lambda>(P, held). keys_ok P (mset (blob_keys (blobs P @ held))))"

lemma keys_ok_mono:
  assumes "keys_ok P K" and "K' \<subseteq># K"
    and "next_addr P' = next_addr P" and "is_use P' = is_use P" and "blob_cap P' = blob_cap P"
  shows "keys_ok P' K'"
proof -
  have "image_mset fst K' \<subseteq># image_mset fst K" by (rule image_mset_subseteq_mono [OF assms(2)])
  then have "count (image_mset fst K') a \<le> 1" for a
    using assms(1) by (meson keys_ok_def mset_subset_eq_count order_trans)
  moreover have "set_mset K' \<subseteq> set_mset K" by (rule set_mset_mono [OF assms(2)])
  ultimately show ?thesis using assms(1,3-5) unfolding keys_ok_def by auto
qed

lemma keys_ok_fresh:
  assumes "keys_ok P K" and "is_use P \<Longrightarrow> c = blob_cap P"
  shows "keys_ok (P\<lparr>next_addr := next_addr P + 1\<rparr>) (add_mset (Some (next_addr P), c) K)"
proof -
  have "Some (next_addr P) \<notin># image_mset fst K" using assms(1) by (fastforce simp: keys_ok_def)
  then have "count (image_mset fst K) (Some (next_addr P)) = 0" by (metis not_in_iff)
  moreover have "\<exists>x<Suc (next_addr P). a = Some x" if "(a, d) \<in># K" for a d
    using assms(1) that by (fastforce simp: keys_ok_def)
  ultimately show ?thesis using assms by (auto simp: keys_ok_def)
qed

lemma keys_ok_blobs [simp]: "keys_ok (P\<lparr>blobs := bs\<rparr>) K = keys_ok P K"
  by (simp add: keys_ok_def)

lemma add_blobs_ok:
  assumes "blobs_ok (P, held)"
  shows "blobs_ok (add_blobs P n, held)"
  using assms
proof (induction n)
  case 0
  then show ?case by (simp add: add_blobs_def)
next
  case (Suc n)
  let ?P = "add_blobs P n"
  have cap: "blob_cap ?P = blob_cap P" by (simp add: add_blobs_def)
  have "add_blobs P (Suc n) = ?P\<lparr>blobs := blobs ?P @ [Blob_new (next_addr ?P) (blob_cap P)], next_addr := next_addr ?P + 1\<rparr>"
    by (simp add: add_blobs_def)
  then have next_keys: "keys_ok (add_blobs P (Suc n)) = keys_ok (?P\<lparr>next_addr := next_addr ?P + 1\<rparr>)"
    and "mset (blob_keys (blobs (add_blobs P (Suc n)) @ held))
      = add_mset (Some (next_addr ?P), blob_cap P) (mset (blob_keys (blobs ?P @ held)))"
    by (simp_all add: blob_keys_def Blob_new_def fun_eq_iff keys_ok_def)
  then show ?case using keys_ok_fresh [of ?P _ "blob_cap P"] Suc cap by (simp add: blobs_ok_def)
qed

lemma acquireBlob_ok:
  assumes ok: "blobs_ok (P, held)" and run: "BlobPool_acquireBlob P cap = (b, P')"
  shows "blobs_ok (P', held @ [b])" and "blob_capacity b = (if is_use P then blob_cap P else cap)"
    and "is_use P' = is_use P" and "blob_cap P' = blob_cap P"
proof -
  have "blobs_ok (P', held @ [b]) \<and> blob_capacity b = (if is_use P then blob_cap P else cap)
    \<and> is_use P' = is_use P \<and> blob_cap P' = blob_cap P"
  proof (cases "is_use P")
    case True
    define P1 where "P1 = (if blobs P = [] then add_blobs P kInc else P)"
    have ok1: "blobs_ok (P1, held)" using ok add_blobs_ok by (simp add: P1_def)
    have ne: "blobs P1 \<noteq> []" by (simp add: P1_def add_blobs_def kInc_def)
    have same: "is_use P1 = is_use P" "blob_cap P1 = blob_cap P" by (simp_all add: P1_def add_blobs_def)
    have b: "b = last (blobs P1)" "P' = P1\<lparr>blobs := butlast (blobs P1)\<rparr>"
      using run True by (simp_all add: BlobPool_acquireBlob_def P1_def Let_def)
    obtain bs where bs: "blobs P1 = bs @ [b]" using ne b(1) by (metis append_butlast_last_id)
    then have "blob_capacity b = blob_cap P" using ok1 True same by (auto simp: blobs_ok_def keys_ok_def blob_keys_def)
    moreover have "blobs_ok (P', held @ [b])" using ok1 bs b(2) by (simp add: blobs_ok_def blob_keys_def)
    ultimately show ?thesis using True same b(2) by simp
  next
    case False
    then have "b = Blob_new (next_addr P) cap" "P' = P\<lparr>next_addr := next_addr P + 1\<rparr>"
      using run by (simp_all add: BlobPool_acquireBlob_def)
    then show ?thesis
      using False ok keys_ok_fresh [of P "mset (blob_keys (blobs P @ held))" cap]
      by (simp add: blobs_ok_def blob_keys_def Blob_new_def)
  qed
  then show "blobs_ok (P', held @ [b])" "blob_capacity b = (if is_use P then blob_cap P else cap)"
    "is_use P' = is_use P" "blob_cap P' = blob_cap P" by blast+
qed

lemma blobs_ok_distinct:
  assumes "blobs_ok (P, held)"
  shows "distinct (map blob_addr (blobs P @ held))"
proof -
  have "\<forall>x. count (image_mset fst (mset (blob_keys (blobs P @ held)))) x \<le> 1"
    using assms unfolding blobs_ok_def keys_ok_def prod.case by blast
  then show ?thesis unfolding fst_blob_keys by (intro distinct_if_counts) blast
qed

lemma blobs_ok_addr:
  assumes "blobs_ok (P, held)" and "b \<in> set held"
  shows "blob_addr b \<noteq> None"
proof -
  have "(blob_addr b, blob_capacity b) \<in># mset (blob_keys (blobs P @ held))"
    using assms(2) by (simp add: blob_keys_def)
  with assms(1) have "\<exists>x < next_addr P. blob_addr b = Some x"
    unfolding blobs_ok_def keys_ok_def prod.case by blast
  then show ?thesis by auto
qed

lemma blobs_ok_keys: "blob_keys held' = blob_keys held \<Longrightarrow> blobs_ok (P, held') = blobs_ok (P, held)"
  by (simp add: blobs_ok_def)

lemma mset_drop_nth: "k < length xs \<Longrightarrow> mset xs = add_mset (xs ! k) (mset (drop_nth k xs))"
  by (subst id_take_nth_drop [of k xs]) (simp_all add: drop_nth_def)

lemma blob_keys_set_size [simp]: "blob_keys (held[k := Blob_set_size (held ! k) n]) = blob_keys held"
  by (cases "k < length held")
     (simp_all add: blob_keys_def map_update Blob_set_size_def list_update_same_conv list_update_beyond)

lemma blob_exec_ok:
  assumes ok: "blobs_ok (P, held)" and run: "blob_exec (P, held) cmd = (P', held')"
  shows "blobs_ok (P', held') \<and> is_use P' = is_use P \<and> blob_cap P' = blob_cap P"
proof (cases cmd)
  case (Acquire_blob cap)
  then obtain b where "BlobPool_acquireBlob P cap = (b, P')" "held' = held @ [b]"
    using run by (auto split: prod.splits)
  with acquireBlob_ok [OF ok] show ?thesis by blast
next
  case (Set_blob_size k n)
  with ok run show ?thesis by (auto simp: blobs_ok_def split: if_splits)
next
  case (Release_blob k)
  show ?thesis
  proof (cases "k < length held")
    case True
    have split: "mset (blob_keys held) = add_mset (blob_addr (held ! k), blob_capacity (held ! k)) (mset (blob_keys (drop_nth k held)))"
      using mset_drop_nth [OF True] by (simp add: blob_keys_def)
    have "P' = BlobPool_releaseBlob P (held ! k)" "held' = drop_nth k held" using run Release_blob True by simp_all
    moreover have "keys_ok P (mset (blob_keys (blobs P)) + mset (blob_keys held))"
      using ok by (simp add: blobs_ok_def blob_keys_def)
    ultimately show ?thesis
      using split keys_ok_mono [of P "mset (blob_keys (blobs P)) + mset (blob_keys held)"
          "mset (blob_keys (blobs P)) + mset (blob_keys (drop_nth k held))" P]
      by (auto simp: blobs_ok_def blob_keys_def BlobPool_releaseBlob_def)
  qed (use ok run Release_blob in simp)
qed

lemma blob_run_ok:
  assumes "blobs_ok (P, held)" and "foldl blob_exec (P, held) cmds = (P', held')"
  shows "blobs_ok (P', held') \<and> is_use P' = is_use P \<and> blob_cap P' = blob_cap P"
  using assms
proof (induction cmds arbitrary: P held)
  case (Cons cmd cmds)
  obtain P1 h1 where 1: "blob_exec (P, held) cmd = (P1, h1)" by fastforce
  from blob_exec_ok [OF Cons.prems(1) 1] Cons.IH [of P1 h1] Cons.prems(2) 1 show ?case by simp
qed simp

section \<open>Properties\<close>

text \<open>
  C37. The memory of a blob is never in two hands: whatever blobs the users acquire, resize and give
  back, the next blob handed out has memory that no held and no pooled blob has. In a pool that is
  in use it has the capacity of the pool, whatever capacity was asked for; in a pool made with
  capacity zero it has the capacity asked for.
\<close>

theorem blob_pool_exclusive:
  assumes "foldl blob_exec (BlobPool_new next cap n, []) cmds = (P, held)"
    and "BlobPool_acquireBlob P want = (b, P')"
  shows "blob_addr b \<noteq> None \<and> blob_addr b \<notin> blob_addr ` set (held @ blobs P')
    \<and> distinct (map blob_addr (held @ [b]))
    \<and> blob_capacity b = (if cap = 0 then want else cap)"
proof -
  have "blobs_ok (BlobPool_new next cap n, [])"
    using add_blobs_ok [of "\<lparr>blob_cap = cap, blobs = [], is_use = True, next_addr = next\<rparr>" "[]" n]
    by (simp add: BlobPool_new_def blobs_ok_def keys_ok_def blob_keys_def Let_def)
  from blob_run_ok [OF this assms(1)] have ok: "blobs_ok (P, held)"
    and u: "is_use P = (cap \<noteq> 0)" "blob_cap P = cap"
    by (auto simp: BlobPool_new_def Let_def add_blobs_def)
  note a = acquireBlob_ok [OF ok assms(2)]
  have "distinct (map blob_addr (blobs P' @ held @ [b]))" using blobs_ok_distinct [OF a(1)] by simp
  moreover have "blob_addr b \<noteq> None" using blobs_ok_addr [OF a(1)] by simp
  ultimately show ?thesis using a(2) u by auto
qed

theorem blob_pool_exclusive_witness:
  "blob_capacity (fst (BlobPool_acquireBlob (BlobPool_new 100 64 1) 4096)) = 64"
  using blob_pool_exclusive [of 100 64 1 "[]" "BlobPool_new 100 64 1" "[]" 4096] by (metis foldl_Nil prod.collapse zero_neq_numeral)

end
