(* ===== verification/Rdma_Rpc.thy ===== *)
theory Rdma_Rpc
  imports Msg_Frame Rdma_Connection
begin

text \<open>
  Requests and responses over RDMA connections, as all clients and servers of the system send
  them: a message is serialized into a send buffer of the connection, with or without a message type
  in front, and posted. The messages are those of \<^verbatim>\<open>src/pb\<close>. The lemmas say what the send buffer
  holds and what the connection and its pool of send buffers look like afterwards.
\<close>

section \<open>Messages\<close>

text \<open>
  The messages, field by field. A field of type \<open>int32\<close> is an \<open>int\<close>, of type \<open>uint32\<close> or \<open>uint64\<close>
  a \<open>nat\<close>, of type \<open>bytes\<close> a list of bytes.
\<close>

record GetLayerRequest =
  glr_layer :: string
  glr_index :: int
  glr_image_name_tag :: string
  glr_total_segments :: int

record GetLayerResponse =
  glp_layer :: string
  glp_index :: int
  glp_iscompressed :: bool
  glp_segment_size :: nat
  glp_image_name_tag :: string
  glp_total_segments :: int

record MmapInfoRequest =
  mmap_num :: int

record MmapInfoElement =
  mie_addr :: nat
  mie_len :: nat
  mie_export_desc :: "byte list"

record MmapInfoResponse =
  mir_mmaps :: "MmapInfoElement list"

record DecompressFinishRequest =
  dfr_layer_name :: string
  dfr_image_name_tag :: string
  dfr_segment_size :: int
  dfr_segment_idx :: int
  dfr_total_segments :: int
  dfr_bufpair_id :: int
  dfr_data_inline :: bool

record DecompressFinishResponse =
  dfp_success :: bool
  dfp_layer_name :: string
  dfp_segment_idx :: int
  dfp_data_inline :: bool
  dfp_bufpair_id :: int

record DecompressConnectionRequest =
  dcr_connection :: bool

record DecompressConnectionResponse =
  dcp_connection :: bool

record OffloadRequest =
  ofr_image_name_tag :: string
  ofr_layers :: "string list"

record OffloadResponse =
  ofp_image_name_tag :: string
  ofp_success :: bool

record CreateContainerRequest =
  ccr_image_name_tag :: string

record CreateContainerResponse =
  ccp_success :: bool
  ccp_duration :: int
  ccp_path :: string

section \<open>Send buffers and their contents\<close>

text \<open>
  The memory of the send buffers: what lies at the address of each of them. The buffers do not
  overlap, so a store into one changes no other.
\<close>

type_synonym send_mem = "nat \<Rightarrow> byte list"

definition store_msg :: "'m pb \<Rightarrow> send_mem \<Rightarrow> SendBuf \<Rightarrow> 'm \<Rightarrow> (int \<times> send_mem) res" where
  "store_msg pb M b msg =
     andThen (serializeRdmaPbMsg pb (M (sb_addr b)) (of_nat (sb_cap b)) msg)
       (\<lambda>(frame_len, bs). Inr (frame_len, M(sb_addr b := bs)))"

text \<open>With the message type, an \<open>int\<close>, in front; \<open>send_cap - sizeof(MsgType)\<close> wraps at 32 bits.\<close>

definition sizeof_MsgType :: nat where "sizeof_MsgType = 4"

definition store_typed_msg :: "'m pb \<Rightarrow> send_mem \<Rightarrow> SendBuf \<Rightarrow> int \<Rightarrow> 'm \<Rightarrow> (int \<times> send_mem) res" where
  "store_typed_msg pb M b type msg =
     defined_if (sizeof_MsgType \<le> length (M (sb_addr b)))
       (let buf = overwrite (M (sb_addr b)) 0 (le_bytes 4 (word_of_int type :: 32 word)) in
        andThen (serializeRdmaPbMsg pb (drop sizeof_MsgType buf)
            (of_nat (sb_cap b) - of_nat sizeof_MsgType) msg)
          (\<lambda>(frame_len, bs). Inr (frame_len, M(sb_addr b := take sizeof_MsgType buf @ bs))))"

text \<open>
  A received message that starts with a type. \<open>recv_buf\<close> is the memory from the receive pointer on.
  When parsing fails the message object holds \<open>left\<close>, whatever the library put into it, and the
  result -1 passes the test \<open>!parseRdmaPbMsg(...)\<close>, which is true for a result of 0 only.
\<close>

definition recv_type :: "byte list \<Rightarrow> int" where
  "recv_type recv_buf = sint (le_word (take 4 recv_buf) :: 32 word)"

definition parse_typed_msg :: "'m pb \<Rightarrow> 'm \<Rightarrow> byte list \<Rightarrow> 32 word \<Rightarrow> (int \<times> 'm) res" where
  "parse_typed_msg pb left recv_buf recv_len =
     andThen (parseRdmaPbMsg pb (drop sizeof_MsgType recv_buf) (recv_len - of_nat sizeof_MsgType))
       (\<lambda>(frame_len, m). Inr (frame_len, case m of None \<Rightarrow> left | Some m \<Rightarrow> m))"

text \<open>\<open>uint64_t\<close> counters of work requests and jobs.\<close>

definition inc64 :: "nat \<Rightarrow> nat" where
  "inc64 n = (n + 1) mod 2 ^ 64"

section \<open>What is in the buffer\<close>

definition rdma_frame :: "'m pb \<Rightarrow> 'm \<Rightarrow> byte list" where
  "rdma_frame pb m = le_bytes 4 (of_nat (ByteSizeLong pb m) :: 32 word) @ SerializeAsString pb m"

definition typed_frame :: "'m pb \<Rightarrow> int \<Rightarrow> 'm \<Rightarrow> byte list" where
  "typed_frame pb type m = le_bytes 4 (word_of_int type :: 32 word) @ rdma_frame pb m"

lemma length_rdma_frame: "frame_fits pb m \<Longrightarrow> length (rdma_frame pb m) = 4 + ByteSizeLong pb m"
  by (simp add: rdma_frame_def frame_fits_def pb_law_def)

lemma length_typed_frame: "frame_fits pb m \<Longrightarrow> length (typed_frame pb t m) = 8 + ByteSizeLong pb m"
  by (simp add: typed_frame_def length_rdma_frame)

text \<open>The send buffers of a connection have memory of their own, of the size their capacity says.\<close>

definition send_mem_ok :: "RdmaConnection \<Rightarrow> send_mem \<Rightarrow> bool" where
  "send_mem_ok c M \<longleftrightarrow> distinct (map send_header (bufpairs c)) \<and> (\<forall>b \<in> set (bufpairs c).
     length (M (send_header b)) = send_cap b \<and> send_cap b < 2 ^ 32)"

lemma send_mem_ok_store:
  assumes "send_mem_ok c M" and "length bs = length (M a)"
  shows "send_mem_ok c (M(a := bs))"
  using assms by (auto simp: send_mem_ok_def)

lemma send_mem_ok_cong: "bufpairs c' = bufpairs c \<Longrightarrow> send_mem_ok c' M = send_mem_ok c M"
  by (simp add: send_mem_ok_def)

lemma store_msg_ok:
  assumes "frame_fits pb m" and "length (M (sb_addr b)) = sb_cap b" and "sb_cap b < 2 ^ 32"
  shows "store_msg pb M b m =
    (if sb_cap b < length (rdma_frame pb m) then Inr (- 1, M)
     else Inr (int (length (rdma_frame pb m)),
       M(sb_addr b := rdma_frame pb m @ drop (length (rdma_frame pb m)) (M (sb_addr b)))))"
proof -
  have cap: "unat (of_nat (sb_cap b) :: 32 word) = sb_cap b" using assms(3) by (rule unat_of_nat_small)
  show ?thesis
  proof (cases "sb_cap b < length (rdma_frame pb m)")
    case True
    then have "serializeRdmaPbMsg pb (M (sb_addr b)) (of_nat (sb_cap b)) m = Inr (- 1, M (sb_addr b))"
      using assms(1) cap by (intro serializeRdmaPbMsg_small) (simp_all add: length_rdma_frame)
    with True show ?thesis by (simp add: store_msg_def)
  next
    case False
    then have "4 + ByteSizeLong pb m \<le> unat (of_nat (sb_cap b) :: 32 word)"
      and "unat (of_nat (sb_cap b) :: 32 word) \<le> length (M (sb_addr b))"
      using assms cap by (simp_all add: length_rdma_frame)
    from serializeRdmaPbMsg_ok [OF assms(1) this] False show ?thesis
      by (simp add: store_msg_def length_rdma_frame [OF assms(1)]) (simp add: rdma_frame_def)
  qed
qed

lemma store_typed_msg_ok:
  assumes "frame_fits pb m" and "length (M (sb_addr b)) = sb_cap b" and "sb_cap b < 2 ^ 32"
    and fits: "length (typed_frame pb t m) \<le> sb_cap b"
  shows "store_typed_msg pb M b t m = Inr (int (length (rdma_frame pb m)),
    M(sb_addr b := typed_frame pb t m @ drop (length (typed_frame pb t m)) (M (sb_addr b))))"
proof -
  let ?buf = "overwrite (M (sb_addr b)) 0 (le_bytes 4 (word_of_int t :: 32 word))"
  have n: "8 + ByteSizeLong pb m \<le> sb_cap b" using fits length_typed_frame [OF assms(1)] by simp
  then have "of_nat (sb_cap b) - of_nat sizeof_MsgType = (of_nat (sb_cap b - 4) :: 32 word)"
    by (simp add: sizeof_MsgType_def)
  then have cap: "unat (of_nat (sb_cap b) - of_nat sizeof_MsgType :: 32 word) = sb_cap b - 4"
    using assms(3) by (simp add: unat_of_nat_small del: unat_of_nat)
  have buf: "take 4 ?buf = le_bytes 4 (word_of_int t :: 32 word)" "drop 4 ?buf = drop 4 (M (sb_addr b))"
    by (simp_all add: overwrite_def)
  have "serializeRdmaPbMsg pb (drop 4 (M (sb_addr b))) (of_nat (sb_cap b) - of_nat sizeof_MsgType) m
    = Inr (int (4 + ByteSizeLong pb m), rdma_frame pb m @ drop (4 + ByteSizeLong pb m) (drop 4 (M (sb_addr b))))"
    using n assms cap
    by (subst serializeRdmaPbMsg_ok) (simp_all add: rdma_frame_def)
  then show ?thesis using n assms(2) buf
    by (simp add: store_typed_msg_def Let_def length_typed_frame [OF assms(1)] length_rdma_frame [OF assms(1)]
        sizeof_MsgType_def typed_frame_def add.commute)
qed

lemma recv_type_frame:
  "- (2 ^ 31) \<le> t \<Longrightarrow> t < 2 ^ 31 \<Longrightarrow> recv_type (typed_frame pb t m @ rest) = t"
  by (simp add: recv_type_def typed_frame_def take_append_exact sint_sbintrunc' signed_take_bit_int_eq_self)

lemma parse_rdma_frame:
  assumes "frame_fits pb m" and "length (rdma_frame pb m) \<le> unat recv_len"
  shows "parseRdmaPbMsg pb (rdma_frame pb m @ rest) recv_len = Inr (int (length (rdma_frame pb m)), Some m)"
proof -
  have "4 + ByteSizeLong pb m \<le> unat recv_len" using assms length_rdma_frame by metis
  from parseRdmaPbMsg_frame [OF assms(1) this, of rest] length_rdma_frame [OF assms(1)]
  show ?thesis by (simp add: rdma_frame_def)
qed

lemma parse_typed_frame:
  assumes "frame_fits pb m" and "length (typed_frame pb t m) \<le> unat recv_len"
  shows "parse_typed_msg pb left (typed_frame pb t m @ rest) recv_len = Inr (int (length (rdma_frame pb m)), m)"
proof -
  have n: "8 + ByteSizeLong pb m \<le> unat recv_len" using assms length_typed_frame by metis
  have "(4 :: 32 word) \<le> recv_len" using n by (simp add: word_le_nat_alt)
  then have "unat (recv_len - of_nat sizeof_MsgType) = unat recv_len - 4"
    by (simp add: sizeof_MsgType_def unat_sub)
  then have "length (rdma_frame pb m) \<le> unat (recv_len - of_nat sizeof_MsgType)"
    using n by (simp add: length_rdma_frame [OF assms(1)])
  from parse_rdma_frame [OF assms(1) this, of rest] show ?thesis
    by (simp add: parse_typed_msg_def typed_frame_def sizeof_MsgType_def)
qed

section \<open>Posting\<close>

lemma send_in_loop_fields [simp]:
  "bufpairs (RdmaConnection_send True c w e) = bufpairs c"
  "free_bufpairs (RdmaConnection_send True c w e) = free_bufpairs c"
  "rq (RdmaConnection_send True c w e) = rq c"
  "sq (RdmaConnection_send True c w e) = (if e = 0 then sq c @ [w] else sq c)"
  by (simp_all add: RdmaConnection_send_def RdmaConnection_sendInLoop_def RdmaConnection_postSend_def)

lemma release_fields [simp]:
  "bufpairs (RdmaConnection_releaseSendBuf c i) = bufpairs c"
  "free_bufpairs (RdmaConnection_releaseSendBuf c i) = free_bufpairs c @ [i]"
  "rq (RdmaConnection_releaseSendBuf c i) = rq c"
  "sq (RdmaConnection_releaseSendBuf c i) = sq c"
  by (simp_all add: RdmaConnection_releaseSendBuf_def pool_back_def)

text \<open>
  Taking the first free buffer of a well-formed connection: the buffer, what is left, and its
  memory.
\<close>

definition bufs_ok :: "RdmaConnection \<Rightarrow> send_mem \<Rightarrow> nat list \<Rightarrow> bool" where
  "bufs_ok c M held \<longleftrightarrow> pool_split (length (bufpairs c)) (free_bufpairs c) held \<and> send_mem_ok c M"

lemma acquire_first:
  assumes "bufs_ok c M held" and "free_bufpairs c = i # r"
  shows "RdmaConnection_acquireFreeSendBuf c = Inr (Some \<lparr>sb_id = i,
      sb_addr = send_header (bufpairs c ! i), sb_cap = send_cap (bufpairs c ! i)\<rparr>, c\<lparr>free_bufpairs := r\<rparr>)"
    and "bufs_ok (c\<lparr>free_bufpairs := r\<rparr>) M (held @ [i])" and "i < length (bufpairs c)"
    and "length (M (send_header (bufpairs c ! i))) = send_cap (bufpairs c ! i)"
    and "send_cap (bufpairs c ! i) < 2 ^ 32"
proof -
  have "pool_front (free_bufpairs c) = Some (i, r)" using assms(2) by (simp add: pool_front_def)
  with assms(1) have s: "pool_split (length (bufpairs c)) r (held @ [i])" "i < length (bufpairs c)"
    using send_pool.acquire_split [of "length (bufpairs c)" "free_bufpairs c" held i r]
    by (auto simp: bufs_ok_def)
  show "RdmaConnection_acquireFreeSendBuf c = Inr (Some \<lparr>sb_id = i,
      sb_addr = send_header (bufpairs c ! i), sb_cap = send_cap (bufpairs c ! i)\<rparr>, c\<lparr>free_bufpairs := r\<rparr>)"
    using assms(2) s(2) by (simp add: RdmaConnection_acquireFreeSendBuf_def pool_front_def the_bufpair_def)
  show "bufs_ok (c\<lparr>free_bufpairs := r\<rparr>) M (held @ [i])" "i < length (bufpairs c)"
    "length (M (send_header (bufpairs c ! i))) = send_cap (bufpairs c ! i)"
    "send_cap (bufpairs c ! i) < 2 ^ 32"
    using assms(1) s by (auto simp: bufs_ok_def send_mem_ok_def)
qed

lemma acquire_none:
  "free_bufpairs c = [] \<Longrightarrow> RdmaConnection_acquireFreeSendBuf c = Inr (None, c)"
  by (simp add: RdmaConnection_acquireFreeSendBuf_def pool_front_def)

lemma bufs_ok_release:
  "bufs_ok c M (i # held) \<Longrightarrow> bufs_ok (RdmaConnection_releaseSendBuf c i) M held"
  by (simp add: bufs_ok_def pool_split_def send_mem_ok_def)

lemma bufs_ok_send: "bufs_ok (RdmaConnection_send True c w e) M held = bufs_ok c M held"
  by (simp add: bufs_ok_def send_mem_ok_def)

lemma bufs_ok_store:
  "bufs_ok c M held \<Longrightarrow> length bs = length (M a) \<Longrightarrow> bufs_ok c (M(a := bs)) held"
  by (simp add: bufs_ok_def send_mem_ok_store)

lemma bufs_ok_free: "bufs_ok c M held \<Longrightarrow> length (free_bufpairs c) + length held = length (bufpairs c)"
  unfolding bufs_ok_def by (metis pool_split_length)

lemma headers_inj:
  assumes "bufs_ok c M held" and "i < length (bufpairs c)" and "j < length (bufpairs c)"
    and "send_header (bufpairs c ! i) = send_header (bufpairs c ! j)"
  shows "i = j"
  using assms nth_eq_iff_index_eq [of "map send_header (bufpairs c)" i j]
  by (simp add: bufs_ok_def send_mem_ok_def)

section \<open>Messages under way\<close>

text \<open>
  \<open>in_flight frame c M ids ms\<close>: the messages \<open>ms\<close> are posted and not answered, oldest first. Each has
  the buffer at its position of \<open>ids\<close>, which holds its frame; they are the last sends posted. This is
  what the member \<open>inflight_sends_\<close> of every client is for.
\<close>

definition posts :: "RdmaConnection \<Rightarrow> (nat \<times> nat) list" where
  "posts c = map (\<lambda>(a, n, w). (a, n)) (sq c)"

definition frame_post :: "('m \<Rightarrow> byte list) \<Rightarrow> RdmaConnection \<Rightarrow> nat \<times> 'm \<Rightarrow> nat \<times> nat" where
  "frame_post frame c = (\<lambda>(i, m). (send_header (bufpairs c ! i), length (frame m)))"

definition wire :: "send_mem \<Rightarrow> nat \<times> nat \<Rightarrow> byte list" where
  "wire M = (\<lambda>(a, n). take n (M a))"

definition in_flight :: "('m \<Rightarrow> byte list) \<Rightarrow> RdmaConnection \<Rightarrow> send_mem \<Rightarrow> nat list \<Rightarrow> 'm list \<Rightarrow> bool" where
  "in_flight frame c M ids ms \<longleftrightarrow> bufs_ok c M ids \<and> length ms = length ids
     \<and> (\<forall>(i, m) \<in> set (zip ids ms). wire M (frame_post frame c (i, m)) = frame m)
     \<and> (\<exists>old. posts c = old @ map (frame_post frame c) (zip ids ms))"

lemma in_flight_count:
  "in_flight frame c M ids ms \<Longrightarrow> length ms + length (free_bufpairs c) = length (bufpairs c)"
  using bufs_ok_free by (fastforce simp: in_flight_def)

lemma in_flight_ids: "in_flight frame c M ids ms \<Longrightarrow> distinct ids"
  using pool_split_distinct(2) by (auto simp: in_flight_def bufs_ok_def)

lemma in_flight_post:
  assumes fl: "in_flight frame c M ids ms" and free: "free_bufpairs c = i # r"
    and bs: "length bs = length (M (send_header (bufpairs c ! i)))" "take (length (frame m)) bs = frame m"
    and c': "c' = RdmaConnection_send True (c\<lparr>free_bufpairs := r\<rparr>)
      (send_header (bufpairs c ! i), length (frame m), w) 0"
  shows "in_flight frame c' (M(send_header (bufpairs c ! i) := bs)) (ids @ [i]) (ms @ [m])"
    and "posts c' = posts c @ [frame_post frame c (i, m)]" and "bufpairs c' = bufpairs c" and "free_bufpairs c' = r"
proof -
  let ?h = "send_header (bufpairs c ! i)" and ?M = "M(send_header (bufpairs c ! i) := bs)"
  have ok: "bufs_ok c M ids" using fl by (simp add: in_flight_def)
  note a = acquire_first [OF ok free]
  show bp: "bufpairs c' = bufpairs c" and "free_bufpairs c' = r"
    and po: "posts c' = posts c @ [frame_post frame c (i, m)]"
    by (simp_all add: c' posts_def frame_post_def)
  have fp: "frame_post frame c' = frame_post frame c" by (simp add: frame_post_def bp)
  have "bufs_ok c' ?M (ids @ [i])" using a(2) bs(1) by (simp add: c' bufs_ok_send bufs_ok_store)
  moreover have "wire ?M (frame_post frame c (j, p)) = frame p" if "(j, p) \<in> set (zip ids ms)" for j p
  proof -
    from that have j: "j \<in> set ids" by (rule set_zip_leftD)
    have ps: "pool_split (length (bufpairs c)) (free_bufpairs c) ids" using ok by (simp add: bufs_ok_def)
    from j have "j < length (bufpairs c)" using pool_split_bound [OF ps] by blast
    moreover have "j \<noteq> i" using pool_split_distinct(3) [OF ps] free j by auto
    ultimately have "send_header (bufpairs c ! j) \<noteq> ?h" using headers_inj [OF ok _ a(3)] by blast
    with that fl show ?thesis by (auto simp: in_flight_def wire_def frame_post_def)
  qed
  moreover have "wire ?M (frame_post frame c (i, m)) = frame m" using bs(2) by (simp add: wire_def frame_post_def)
  ultimately show "in_flight frame c' ?M (ids @ [i]) (ms @ [m])"
    using fl po by (auto simp: in_flight_def fp)
qed

lemma in_flight_release:
  assumes "in_flight frame c M (i # ids) (m # ms)"
  shows "in_flight frame (RdmaConnection_releaseSendBuf c i) M ids ms"
    and "posts (RdmaConnection_releaseSendBuf c i) = posts c"
proof -
  show po: "posts (RdmaConnection_releaseSendBuf c i) = posts c" by (simp add: posts_def)
  have "frame_post frame (RdmaConnection_releaseSendBuf c i) = frame_post frame c" by (simp add: frame_post_def)
  with po assms bufs_ok_release [of c M i ids] show "in_flight frame (RdmaConnection_releaseSendBuf c i) M ids ms"
    by (auto simp: in_flight_def)
qed

text \<open>What the network card reads when it gets to a posted send.\<close>

lemma in_flight_wire:
  assumes fl: "in_flight frame c M ids (A @ R)" and len: "length (posts c) = n + length R" and n: "n < length (posts c)"
  obtains m R' where "R = m # R'" and "wire M (posts c ! n) = frame m"
proof -
  from assms obtain m R' where R: "R = m # R'" by (cases R) auto
  let ?k = "length A"
  from fl obtain old where old: "posts c = old @ map (frame_post frame c) (zip ids (A @ R))"
    and l: "length (A @ R) = length ids" by (auto simp: in_flight_def)
  have n: "n = length old + ?k" using len l by (simp add: old)
  have "?k < length (zip ids (A @ R))" and z: "zip ids (A @ R) ! ?k = (ids ! ?k, m)" using l R by simp_all
  then have "(ids ! ?k, m) \<in> set (zip ids (A @ R))" by (metis nth_mem)
  then have "wire M (frame_post frame c (ids ! ?k, m)) = frame m" using fl by (auto simp: in_flight_def)
  moreover have "posts c ! n = frame_post frame c (ids ! ?k, m)" using l R z by (simp add: old n nth_append)
  ultimately show ?thesis using that [OF R] by simp
qed

section \<open>Sample buffers\<close>

definition sample_mem :: send_mem where "sample_mem = (\<lambda>_. replicate 4096 0)"

lemma sample_bufpairs:
  "bufpairs sample_conn = [\<lparr>send_header = 65536, send_cap = 4096, recv_header = 69632, recv_cap = 4096\<rparr>,
     \<lparr>send_header = 73728, send_cap = 4096, recv_header = 77824, recv_cap = 4096\<rparr>]"
proof -
  have "bufpairs sample_conn = lay_bufpairs (Suc (Suc 0)) 4096 65536 69632"
    by (simp only: sample_conn_def RdmaConnection.simps numeral_2_eq_2)
  then show ?thesis by simp
qed

lemma sample_bufs: "bufs_ok sample_conn sample_mem []"
  by (simp add: bufs_ok_def send_mem_ok_def sample_mem_def sample_bufpairs pool_split_def upt_rec)

end
