(* ===== verification/Content_Fetch.thy ===== *)
theory Content_Fetch
  imports Rdma_Rpc Rdma_Handshake Blob_Pool
begin

text \<open>
  Fetching layers on the DPU: \<^verbatim>\<open>src/src/dpu/content_fetcher.h\<close>, \<^verbatim>\<open>content_fetcher.cc\<close> and
  \<^verbatim>\<open>src/src/dpu/metadata.h\<close>. A content client asks a content server for the segments of layers over
  one RDMA connection, with as many requests under way as the connection has send buffers, and
  hands the segments on to the decompress client. The fetcher keeps one client per server. The lemmas
  show that the sending loop ends, when it stops, and that a send buffer is free or belongs to the
  request it carries. Time measurements, which are only logged, are left out.
\<close>

section \<open>State\<close>

text \<open>
  The blob memory the fetcher and the decompress client share: the pool, and what the memory at each
  address holds.
\<close>

record blob_heap =
  bh_pool :: BlobPool
  bh_mem :: "nat \<Rightarrow> byte list"

definition blob_bytes :: "blob_heap \<Rightarrow> Blob \<Rightarrow> byte list" where
  "blob_bytes h b = (case blob_addr b of None \<Rightarrow> [] | Some a \<Rightarrow> take (blob_size b) (bh_mem h a))"

text \<open>\<open>memcpy\<close> to the start of a blob; more bytes than its capacity overrun the allocation.\<close>

definition blob_memcpy :: "blob_heap \<Rightarrow> Blob \<Rightarrow> byte list \<Rightarrow> blob_heap res" where
  "blob_memcpy h b bs =
     defined_if (length bs \<le> blob_capacity b)
       (case blob_addr b of None \<Rightarrow> Inl Undefined_behaviour
        | Some a \<Rightarrow> Inr (h\<lparr>bh_mem := (bh_mem h)(a := bs @ drop (length bs) (bh_mem h a))\<rparr>))"

record ContentElement =
  segment :: Blob
  segment_idx :: int
  total_segments :: int
  layer :: string
  image_name_tag :: string
  is_compressed :: bool

text \<open>
  \<open>conn_set\<close> says that the member \<open>conn_\<close> is not null; the connection itself is passed along.
  \<open>cc_mem\<close> is the memory of its send buffers.
\<close>

record ContentClient =
  cc_wr_id :: nat
  unsend_reqs :: "GetLayerRequest list"
  conn_set :: bool
  cc_inflight_sends :: "nat list"
  cc_mem :: send_mem

text \<open>
  What the callbacks of all clients of the fetcher share: the blobs, and the segments handed to
  \<open>submitDecompressTask\<close>, which the loop of the decompress client runs in that order.
\<close>

record fetch_shared =
  fs_heap :: blob_heap
  fs_tasks :: "ContentElement list"

text \<open>
  The protocol buffer library for the two messages; \<open>left_resp\<close> is what the response object holds
  when it could not be parsed.
\<close>

record content_lib =
  req_pb :: "GetLayerRequest pb"
  resp_pb :: "GetLayerResponse pb"
  left_resp :: GetLayerResponse
  left_req :: GetLayerRequest

section \<open>The content client\<close>

definition ContentClient_new :: "send_mem \<Rightarrow> ContentClient" where
  "ContentClient_new M = \<lparr>cc_wr_id = 0, unsend_reqs = [], conn_set = False, cc_inflight_sends = [], cc_mem = M\<rparr>"

definition ContentClient_enqueueRequest :: "ContentClient \<Rightarrow> GetLayerRequest \<Rightarrow> ContentClient" where
  "ContentClient_enqueueRequest cl req = cl\<lparr>unsend_reqs := unsend_reqs cl @ [req]\<rparr>"

text \<open>
  One request. \<open>err w\<close> is the outcome of posting the work request \<open>w\<close>. A request that cannot be
  serialized is dropped and its buffer stays taken.
\<close>

definition ContentClient_sendRequest ::
  "content_lib \<Rightarrow> (nat \<Rightarrow> int) \<Rightarrow> ContentClient \<times> RdmaConnection \<Rightarrow> (ContentClient \<times> RdmaConnection) res" where
  "ContentClient_sendRequest lib err = (\<lambda>(cl, c).
     if \<not> conn_set cl then Inr (cl, c)
     else andThen (RdmaConnection_acquireFreeSendBuf c) (\<lambda>(free_buf, c1).
       case (free_buf, unsend_reqs cl) of
         (Some b, req # rest) \<Rightarrow>
           andThen (store_msg (req_pb lib) (cc_mem cl) b req) (\<lambda>(frame_len, M).
             let cl1 = cl\<lparr>unsend_reqs := rest, cc_mem := M\<rparr> in
             if frame_len = - 1 then Inr (cl1, c1)
             else Inr (cl1\<lparr>cc_wr_id := inc64 (cc_wr_id cl), cc_inflight_sends := cc_inflight_sends cl @ [sb_id b]\<rparr>,
                       RdmaConnection_send True c1 (sb_addr b, nat (frame_len mod 2 ^ 32), cc_wr_id cl)
                         (err (cc_wr_id cl))))
       | _ \<Rightarrow> Inl Undefined_behaviour))"

lemma sendRequest_pops:
  assumes "ContentClient_sendRequest lib err (cl, c) = Inr (cl', c')" and "conn_set cl"
  shows "unsend_reqs cl \<noteq> [] \<and> unsend_reqs cl' = tl (unsend_reqs cl) \<and> conn_set cl'"
proof -
  obtain ob c1 where a: "RdmaConnection_acquireFreeSendBuf c = Inr (ob, c1)"
    using assms by (auto simp: ContentClient_sendRequest_def res_simps)
  then obtain b req rest where "ob = Some b" "unsend_reqs cl = req # rest"
    using assms by (cases ob; cases "unsend_reqs cl") (auto simp: ContentClient_sendRequest_def)
  with a assms show ?thesis
    by (auto simp: ContentClient_sendRequest_def res_simps Let_def split: if_splits)
qed

declare andThen_cong [fundef_cong]

function ContentClient_trySendRequests ::
  "content_lib \<Rightarrow> (nat \<Rightarrow> int) \<Rightarrow> ContentClient \<times> RdmaConnection \<Rightarrow> (ContentClient \<times> RdmaConnection) res" where
  "ContentClient_trySendRequests lib err (cl, c) =
     (if \<not> conn_set cl then Inr (cl, c)
      else if unsend_reqs cl \<noteq> [] \<and> \<not> RdmaConnection_isFreeSendBufEmpty c
      then andThen (ContentClient_sendRequest lib err (cl, c)) (ContentClient_trySendRequests lib err)
      else Inr (cl, c))"
  by pat_completeness auto
termination
proof (relation "measure (\<lambda>(lib, err, cl, c). length (unsend_reqs cl))", goal_cases)
  case (2 lib err cl c x)
  obtain cl' c' where x: "x = (cl', c')" by (cases x)
  with 2 sendRequest_pops [of lib err cl c cl' c'] show ?case by (simp add: length_greater_0_conv)
qed simp

definition ContentClient_onConnected ::
  "content_lib \<Rightarrow> (nat \<Rightarrow> int) \<Rightarrow> ContentClient \<times> RdmaConnection \<Rightarrow> (ContentClient \<times> RdmaConnection) res" where
  "ContentClient_onConnected lib err = (\<lambda>(cl, c).
     asserting (unsend_reqs cl \<noteq> [] \<and> \<not> RdmaConnection_isFreeSendBufEmpty c)
       (ContentClient_trySendRequests lib err (cl\<lparr>conn_set := True\<rparr>, c)))"

text \<open>The requests for segments \<open>n - 1\<close> down to 1, each pushed to the front.\<close>

fun push_requests :: "GetLayerResponse \<Rightarrow> int \<Rightarrow> nat \<Rightarrow> GetLayerRequest list \<Rightarrow> GetLayerRequest list" where
  "push_requests resp n 0 q = q"
| "push_requests resp n (Suc i) q =
     push_requests resp n i (\<lparr>glr_layer = glp_layer resp, glr_index = int (Suc i),
       glr_image_name_tag = glp_image_name_tag resp, glr_total_segments = n\<rparr> # q)"

text \<open>
  A response. \<open>recv_buf\<close> is the memory from the receive pointer on. When the message cannot be parsed
  the error is logged only, \<open>frame_len\<close> is -1, and the assertion compares with \<open>recv_len + 1\<close>.
\<close>

definition ContentClient_onRecvSuccess ::
  "content_lib \<Rightarrow> (nat \<Rightarrow> int) \<Rightarrow> (ContentClient \<times> fetch_shared) \<times> RdmaConnection \<Rightarrow> byte list \<Rightarrow> 32 word \<Rightarrow>
    ((ContentClient \<times> fetch_shared) \<times> RdmaConnection) res" where
  "ContentClient_onRecvSuccess lib err = (\<lambda>((cl, sh), c) recv_buf recv_len.
     andThen (parseRdmaPbMsg (resp_pb lib) recv_buf recv_len) (\<lambda>(frame_len, m).
       let resp = (case m of None \<Rightarrow> left_resp lib | Some m \<Rightarrow> m) in
       case cc_inflight_sends cl of
         [] \<Rightarrow> Inl Undefined_behaviour
       | i # others \<Rightarrow>
           (let c1 = RdmaConnection_releaseSendBuf c i;
                segment_size = unat (recv_len - word_of_int frame_len)
            in asserting (glp_segment_size resp = segment_size)
              (case BlobPool_acquireBlob (bh_pool (fs_heap sh)) segment_size of (b, pool) \<Rightarrow>
                defined_if (0 \<le> frame_len \<and> nat frame_len + segment_size \<le> length recv_buf)
                  (andThen (blob_memcpy ((fs_heap sh)\<lparr>bh_pool := pool\<rparr>) b
                      (take segment_size (drop (nat frame_len) recv_buf))) (\<lambda>heap.
                    let task = \<lparr>segment = Blob_set_size b segment_size, segment_idx = glp_index resp,
                          total_segments = glp_total_segments resp, layer = glp_layer resp,
                          image_name_tag = glp_image_name_tag resp, is_compressed = glp_iscompressed resp\<rparr>;
                        n = glp_total_segments resp;
                        reqs = (if glp_index resp = 0 \<and> n > 1 then push_requests resp n (nat (n - 1)) (unsend_reqs cl)
                                else unsend_reqs cl)
                    in andThen (ContentClient_trySendRequests lib err
                          (cl\<lparr>cc_inflight_sends := others, unsend_reqs := reqs\<rparr>, c1))
                        (\<lambda>(cl2, c2). Inr ((cl2, sh\<lparr>fs_heap := heap, fs_tasks := fs_tasks sh @ [task]\<rparr>), c2))))))))"

text \<open>The callbacks as the connection calls them; \<open>mem\<close> reads the receive buffers.\<close>

definition ContentClient_callbacks ::
  "content_lib \<Rightarrow> (nat \<Rightarrow> int) \<Rightarrow> (nat \<Rightarrow> byte list) \<Rightarrow> (ContentClient \<times> fetch_shared) rdma_user" where
  "ContentClient_callbacks lib err mem call = (\<lambda>((cl, sh), c).
     case call of
       Connected \<Rightarrow> andThen (ContentClient_onConnected lib err (cl, c)) (\<lambda>(cl1, c1). Inr ((cl1, sh), c1))
     | Recv_success addr len wc \<Rightarrow> ContentClient_onRecvSuccess lib err ((cl, sh), c) (mem addr) (of_nat len)
     | _ \<Rightarrow> Inr ((cl, sh), c))"

section \<open>The fetcher\<close>

text \<open>
  One client per server address; its connection exists once the handshake has made it. \<open>fetch\<close> is
  the functor that runs in the loop of the fetcher. \<open>fresh_mem\<close> is the memory of the connection a
  new client will get.
\<close>

record 'addr ContentFetcher =
  cf_clients :: "'addr \<Rightarrow> (ContentClient \<times> RdmaConfig \<times> RdmaConnection option) option"
  cf_shared :: fetch_shared

definition first_request :: "string \<Rightarrow> string \<Rightarrow> GetLayerRequest" where
  "first_request l img =
     \<lparr>glr_layer = l, glr_index = 0, glr_image_name_tag = img, glr_total_segments = 0\<rparr>"

definition ContentFetcher_fetch ::
  "content_lib \<Rightarrow> (nat \<Rightarrow> int) \<Rightarrow> send_mem \<Rightarrow> 'addr ContentFetcher \<Rightarrow> string \<Rightarrow> string \<Rightarrow> 'addr \<Rightarrow> RdmaConfig \<Rightarrow>
    'addr ContentFetcher res" where
  "ContentFetcher_fetch lib err fresh_mem f l img addr config =
     (let req = first_request l img in
      case cf_clients f addr of
        None \<Rightarrow>
          Inr (f\<lparr>cf_clients := (cf_clients f)(addr \<mapsto>
            (ContentClient_enqueueRequest (ContentClient_new fresh_mem) req, config, None))\<rparr>)
      | Some (cl, cfg, oc) \<Rightarrow>
          let cl1 = ContentClient_enqueueRequest cl req in
          (case oc of
             None \<Rightarrow> defined_if (\<not> conn_set cl1) (Inr (f\<lparr>cf_clients := (cf_clients f)(addr \<mapsto> (cl1, cfg, None))\<rparr>))
           | Some c \<Rightarrow> andThen (ContentClient_trySendRequests lib err (cl1, c)) (\<lambda>(cl2, c2).
               Inr (f\<lparr>cf_clients := (cf_clients f)(addr \<mapsto> (cl2, cfg, Some c2))\<rparr>))))"

section \<open>Requests under way\<close>

text \<open>
  \<open>outstanding lib cl c reqs\<close>: the requests \<open>reqs\<close> are posted and not answered, oldest first.
\<close>

definition req_frame :: "content_lib \<Rightarrow> GetLayerRequest \<Rightarrow> byte list" where
  "req_frame lib q = rdma_frame (req_pb lib) q"

definition outstanding :: "content_lib \<Rightarrow> ContentClient \<Rightarrow> RdmaConnection \<Rightarrow> GetLayerRequest list \<Rightarrow> bool" where
  "outstanding lib cl c reqs \<longleftrightarrow> conn_set cl \<and> in_flight (req_frame lib) c (cc_mem cl) (cc_inflight_sends cl) reqs"

definition sendable :: "content_lib \<Rightarrow> RdmaConnection \<Rightarrow> GetLayerRequest \<Rightarrow> bool" where
  "sendable lib c q \<longleftrightarrow> frame_fits (req_pb lib) q \<and> (\<forall>b \<in> set (bufpairs c). length (req_frame lib q) \<le> send_cap b)"

lemma sendRequest_ok:
  assumes inv: "outstanding lib cl c reqs" and req: "unsend_reqs cl = q # rest" "sendable lib c q"
    and free: "free_bufpairs c = i # r" and posted: "err (cc_wr_id cl) = 0"
  obtains cl' c' where "ContentClient_sendRequest lib err (cl, c) = Inr (cl', c')"
    and "outstanding lib cl' c' (reqs @ [q])" and "unsend_reqs cl' = rest"
    and "bufpairs c' = bufpairs c" and "free_bufpairs c' = r"
    and "posts c' = posts c @ [frame_post (req_frame lib) c (i, q)]"
proof -
  have fl: "in_flight (req_frame lib) c (cc_mem cl) (cc_inflight_sends cl) reqs" and conn: "conn_set cl"
    using inv by (simp_all add: outstanding_def)
  have ok: "bufs_ok c (cc_mem cl) (cc_inflight_sends cl)" using fl by (simp add: in_flight_def)
  note a = acquire_first [OF ok free]
  let ?b = "\<lparr>sb_id = i, sb_addr = send_header (bufpairs c ! i), sb_cap = send_cap (bufpairs c ! i)\<rparr>"
  let ?h = "send_header (bufpairs c ! i)" and ?f = "req_frame lib q" and ?w = "cc_wr_id cl"
  let ?bs = "?f @ drop (length ?f) (cc_mem cl ?h)"
  have cap: "length ?f \<le> send_cap (bufpairs c ! i)" using req(2) a(3) by (simp add: sendable_def)
  have store: "store_msg (req_pb lib) (cc_mem cl) ?b q = Inr (int (length ?f), (cc_mem cl)(?h := ?bs))"
    using store_msg_ok [of "req_pb lib" q "cc_mem cl" ?b] a(4,5) req(2) cap
    by (simp add: sendable_def req_frame_def)
  have len: "nat (int (length ?f) mod 2 ^ 32) = length ?f"
    using cap a(5) by (simp add: nat_mod_distrib)
  define cl' where "cl' = cl\<lparr>unsend_reqs := rest, cc_mem := (cc_mem cl)(?h := ?bs), cc_wr_id := inc64 ?w,
    cc_inflight_sends := cc_inflight_sends cl @ [i]\<rparr>"
  define c' where "c' = RdmaConnection_send True (c\<lparr>free_bufpairs := r\<rparr>) (?h, length ?f, ?w) 0"
  have bs: "length ?bs = length (cc_mem cl ?h)" "take (length ?f) ?bs = ?f" using a(4) cap by simp_all
  note post = in_flight_post [OF fl free bs c'_def]
  have "outstanding lib cl' c' (reqs @ [q])" using post(1) conn by (simp add: outstanding_def cl'_def)
  moreover have "ContentClient_sendRequest lib err (cl, c) = Inr (cl', c')"
    using conn a(1) req(1) store len posted by (simp add: ContentClient_sendRequest_def cl'_def c'_def Let_def)
  ultimately show ?thesis using that post by (simp add: cl'_def)
qed

lemma sendable_cong: "bufpairs c' = bufpairs c \<Longrightarrow> sendable lib c' = sendable lib c"
  by (simp add: sendable_def fun_eq_iff)

text \<open>
  The sending loop sends as many requests as there are free buffers, in order, and ends with no
  request or no buffer left.
\<close>

lemma trySendRequests_ok:
  assumes "outstanding lib cl c reqs" and "\<forall>q \<in> set (unsend_reqs cl). sendable lib c q" and "\<forall>w. err w = 0"
  obtains cl' c' k where "ContentClient_trySendRequests lib err (cl, c) = Inr (cl', c')"
    and "outstanding lib cl' c' (reqs @ take k (unsend_reqs cl))"
    and "unsend_reqs cl' = drop k (unsend_reqs cl)" and "k = min (length (unsend_reqs cl)) (length (free_bufpairs c))"
    and "bufpairs c' = bufpairs c" and "\<exists>new. posts c' = posts c @ new \<and> length new = k"
  using assms
proof (induction "unsend_reqs cl" arbitrary: cl c reqs thesis)
  case Nil
  then have "ContentClient_trySendRequests lib err (cl, c) = Inr (cl, c)" by simp
  with Nil show ?case by (intro Nil.prems(1) [of cl c 0]) auto
next
  case (Cons q rest)
  have conn: "conn_set cl" using Cons.prems(2) by (simp add: outstanding_def)
  show ?case
  proof (cases "free_bufpairs c")
    case Nil
    then have "ContentClient_trySendRequests lib err (cl, c) = Inr (cl, c)"
      by (simp add: RdmaConnection_isFreeSendBufEmpty_def)
    with Cons Nil show ?thesis by (intro Cons.prems(1) [of cl c 0]) auto
  next
    case (Cons i r)
    note q = \<open>q # rest = unsend_reqs cl\<close> [symmetric]
    obtain cl1 c1 where 1: "ContentClient_sendRequest lib err (cl, c) = Inr (cl1, c1)"
      "outstanding lib cl1 c1 (reqs @ [q])" "unsend_reqs cl1 = rest" "bufpairs c1 = bufpairs c"
      "free_bufpairs c1 = r" "posts c1 = posts c @ [frame_post (req_frame lib) c (i, q)]"
      using sendRequest_ok [OF Cons.prems(2) q _ Cons, of err] Cons.prems(3,4) q by auto
    have fits: "\<forall>q \<in> set (unsend_reqs cl1). sendable lib c1 q"
      using Cons.prems(3) 1(3,4) q sendable_cong by (metis list.set_intros(2))
    obtain cl2 c2 k where 2: "ContentClient_trySendRequests lib err (cl1, c1) = Inr (cl2, c2)"
      "outstanding lib cl2 c2 ((reqs @ [q]) @ take k (unsend_reqs cl1))"
      "unsend_reqs cl2 = drop k (unsend_reqs cl1)" "k = min (length (unsend_reqs cl1)) (length (free_bufpairs c1))"
      "bufpairs c2 = bufpairs c1" "\<exists>new. posts c2 = posts c1 @ new \<and> length new = k"
      by (rule Cons.hyps(1) [OF 1(3) [symmetric] _ 1(2) fits Cons.prems(4)]) blast
    have run: "ContentClient_trySendRequests lib err (cl, c) = Inr (cl2, c2)"
      using conn q Cons 1(1) 2(1) by (simp add: RdmaConnection_isFreeSendBufEmpty_def)
    show ?thesis
      by (rule Cons.prems(1) [OF run, of "Suc k"])
         (use 1 2 q Cons in \<open>auto simp: min_def\<close>)
  qed
qed

end
