(* ===== verification/Content_Server.thy ===== *)
theory Content_Server
  imports Content_Fetch
begin

text \<open>
  The content server: \<^verbatim>\<open>src/src/host/server/content_server.cc\<close>. It answers every request for a segment
  with the description of the segment and the contents of its file. The file helpers of the
  container library are parameters. The lemmas give the answer to a request, and what happens
  to requests that cannot be answered.
\<close>

section \<open>Files\<close>

text \<open>
  \<open>file_text\<close> is the text of a file that can be opened, \<open>file_size\<close> the result of
  \<open>util_file_size\<close>, \<open>file2str p n\<close> the result of \<open>util_file2str\<close> with room for \<open>n\<close> bytes and the
  bytes it stores.
\<close>

record content_files =
  file_text :: "string \<Rightarrow> string option"
  file_size :: "string \<Rightarrow> int"
  file2str :: "string \<Rightarrow> nat \<Rightarrow> int \<times> byte list"

text \<open>Reading an \<open>int\<close> from a stream: white space, a sign, digits; out of range is a failure.\<close>

definition read_int :: "string \<Rightarrow> int option" where
  "read_int t =
     (let t1 = dropWhile is_space t;
          neg = (t1 \<noteq> [] \<and> hd t1 = CHR ''-'');
          t2 = (if t1 \<noteq> [] \<and> (hd t1 = CHR ''-'' \<or> hd t1 = CHR ''+'') then tl t1 else t1);
          ds = takeWhile is_digit t2;
          v = (if neg then - int (digits_value 0 ds) else int (digits_value 0 ds))
      in if ds = [] \<or> v < - (2 ^ 31) \<or> 2 ^ 31 \<le> v then None else Some v)"

definition get_int_from_file :: "content_files \<Rightarrow> string \<Rightarrow> int" where
  "get_int_from_file files path =
     (case file_text files path of
        None \<Rightarrow> - 1
      | Some t \<Rightarrow> (case read_int t of None \<Rightarrow> - 1 | Some v \<Rightarrow> v))"

section \<open>The server\<close>

record ContentServer =
  registry_path :: string
  layer_is_compressed :: bool
  cs_mem :: send_mem

definition index_path :: "ContentServer \<Rightarrow> GetLayerRequest \<Rightarrow> string" where
  "index_path sv req = registry_path sv @ ''/'' @ glr_layer req @ ''/'' @ show_int (glr_index req) @ ''.tar.gz''"

definition total_segments_path :: "ContentServer \<Rightarrow> GetLayerRequest \<Rightarrow> string" where
  "total_segments_path sv req = registry_path sv @ ''/'' @ glr_layer req @ ''/total_segment.txt''"

definition layer_response :: "content_files \<Rightarrow> ContentServer \<Rightarrow> GetLayerRequest \<Rightarrow> GetLayerResponse" where
  "layer_response files sv req =
     \<lparr>glp_layer = glr_layer req, glp_index = glr_index req, glp_iscompressed = layer_is_compressed sv,
      glp_segment_size = nat (file_size files (index_path sv req) mod 2 ^ 32),
      glp_image_name_tag = glr_image_name_tag req,
      glp_total_segments = get_int_from_file files (total_segments_path sv req)\<rparr>"

text \<open>
  An invalid digest and a missing file are logged only. The result -1 of a failed parse passes the
  first test. The file is read behind the frame; the outcome of serializing is not tested, and a
  store outside of the send buffer is undefined.
\<close>

definition ContentServer_onRecvSuccess ::
  "content_lib \<Rightarrow> content_files \<Rightarrow> int \<Rightarrow> ContentServer \<times> RdmaConnection \<Rightarrow> byte list \<Rightarrow> 32 word \<Rightarrow>
    (ContentServer \<times> RdmaConnection) res" where
  "ContentServer_onRecvSuccess lib files err = (\<lambda>(sv, c) recv_buf recv_len.
     andThen (parseRdmaPbMsg (req_pb lib) recv_buf recv_len) (\<lambda>(parsed, m).
       if parsed = 0 then Inr (sv, c)
       else
         let req = (case m of None \<Rightarrow> left_req lib | Some m \<Rightarrow> m);
             segment_size = file_size files (index_path sv req)
         in if segment_size \<le> 0 then Inr (sv, c)
         else andThen (RdmaConnection_acquireFreeSendBuf c) (\<lambda>(free_buf, c1).
           case free_buf of
             None \<Rightarrow> Inl Undefined_behaviour
           | Some b \<Rightarrow>
               andThen (store_msg (resp_pb lib) (cs_mem sv) b (layer_response files sv req)) (\<lambda>(frame_len, M1).
                 case file2str files (index_path sv req) (nat segment_size + 1) of
                   (r, bs) \<Rightarrow>
                     defined_if (0 \<le> frame_len \<and> nat frame_len + length bs \<le> length (M1 (sb_addr b)))
                       (let sv2 = sv\<lparr>cs_mem := M1(sb_addr b := overwrite (M1 (sb_addr b)) (nat frame_len) bs)\<rparr> in
                        if r < 0 then Inr (sv2, c1)
                        else Inr (sv2, RdmaConnection_releaseSendBuf
                          (RdmaConnection_send True c1
                             (sb_addr b, nat ((frame_len + segment_size) mod 2 ^ 32), 0) err)
                          (sb_id b)))))))"

definition ContentServer_callbacks ::
  "content_lib \<Rightarrow> content_files \<Rightarrow> int \<Rightarrow> (nat \<Rightarrow> byte list) \<Rightarrow> ContentServer rdma_user" where
  "ContentServer_callbacks lib files err mem call = (\<lambda>(sv, c).
     case call of
       Recv_success addr len wc \<Rightarrow> ContentServer_onRecvSuccess lib files err (sv, c) (mem addr) (of_nat len)
     | _ \<Rightarrow> Inr (sv, c))"

section \<open>Answering a request\<close>

text \<open>
  What the server relies on for the file of a segment: reading it with room for one byte more
  gives its contents and a terminating zero byte.
\<close>

definition file_law :: "content_files \<Rightarrow> string \<Rightarrow> byte list \<Rightarrow> bool" where
  "file_law files p content \<longleftrightarrow> file_size files p = int (length content)
     \<and> (\<exists>r \<ge> 0. file2str files p (length content + 1) = (r, content @ [0]))"

definition response_bytes :: "content_lib \<Rightarrow> content_files \<Rightarrow> ContentServer \<Rightarrow> GetLayerRequest \<Rightarrow> byte list \<Rightarrow> byte list" where
  "response_bytes lib files sv req content = rdma_frame (resp_pb lib) (layer_response files sv req) @ content"

text \<open>The answer: the frame and the contents lie in the buffer posted, which is free again.\<close>

lemma onRecvSuccess_answers:
  assumes ok: "bufs_ok c (cs_mem sv) []" and free: "free_bufpairs c = i # r"
    and buf: "recv_buf = rdma_frame (req_pb lib) req @ junk"
    and fits: "frame_fits (req_pb lib) req" "length (rdma_frame (req_pb lib) req) \<le> unat recv_len"
    and fl: "file_law files (index_path sv req) content" "content \<noteq> []"
    and resp: "frame_fits (resp_pb lib) (layer_response files sv req)"
    and cap: "length (response_bytes lib files sv req content) < send_cap (bufpairs c ! i)"
    and posted: "err = 0"
  shows "\<exists>sv' c'. ContentServer_onRecvSuccess lib files err (sv, c) recv_buf recv_len = Inr (sv', c')
    \<and> registry_path sv' = registry_path sv \<and> layer_is_compressed sv' = layer_is_compressed sv
    \<and> bufpairs c' = bufpairs c \<and> free_bufpairs c' = r @ [i]
    \<and> sq c' = sq c @ [(send_header (bufpairs c ! i), length (response_bytes lib files sv req content), 0)]
    \<and> take (length (response_bytes lib files sv req content)) (cs_mem sv' (send_header (bufpairs c ! i)))
        = response_bytes lib files sv req content
    \<and> (\<forall>a. a \<noteq> send_header (bufpairs c ! i) \<longrightarrow> cs_mem sv' a = cs_mem sv a)
    \<and> bufs_ok c' (cs_mem sv') []"
proof -
  note a = acquire_first [OF ok free]
  let ?b = "\<lparr>sb_id = i, sb_addr = send_header (bufpairs c ! i), sb_cap = send_cap (bufpairs c ! i)\<rparr>"
  let ?h = "send_header (bufpairs c ! i)" and ?resp = "layer_response files sv req"
  let ?f = "rdma_frame (resp_pb lib) ?resp"
  have len: "length ?f + length content < send_cap (bufpairs c ! i)"
    using cap by (simp add: response_bytes_def)
  have "parseRdmaPbMsg (req_pb lib) recv_buf recv_len = Inr (int (length (rdma_frame (req_pb lib) req)), Some req)"
    unfolding buf by (rule parse_rdma_frame [OF fits])
  moreover have "rdma_frame (req_pb lib) req \<noteq> []" by (simp add: rdma_frame_def flip: length_0_conv)
  moreover have size: "file_size files (index_path sv req) = int (length content)"
    and "\<exists>k \<ge> 0. file2str files (index_path sv req) (length content + 1) = (k, content @ [0])"
    using fl(1) by (auto simp: file_law_def)
  moreover have "store_msg (resp_pb lib) (cs_mem sv) ?b ?resp =
      Inr (int (length ?f), (cs_mem sv)(?h := ?f @ drop (length ?f) (cs_mem sv ?h)))"
    using store_msg_ok [OF resp, of "cs_mem sv" ?b] a(4,5) len by simp
  moreover have "(int (length ?f) + int (length content)) mod 2 ^ 32 = int (length ?f) + int (length content)"
    using len a(5) by (intro mod_pos_pos_trivial) simp_all
  ultimately obtain k where k: "0 \<le> k" "file2str files (index_path sv req) (length content + 1) = (k, content @ [0])"
    and run: "ContentServer_onRecvSuccess lib files err (sv, c) recv_buf recv_len =
      Inr (sv\<lparr>cs_mem := (cs_mem sv)(?h := ?f @ content @ [0] @ drop (length ?f + length content + 1) (cs_mem sv ?h))\<rparr>,
        RdmaConnection_releaseSendBuf (RdmaConnection_send True (c\<lparr>free_bufpairs := r\<rparr>)
          (?h, length ?f + length content, 0) err) i)"
    using a(1,4) len fl(2)
    by (auto simp: ContentServer_onRecvSuccess_def overwrite_def nat_add_distrib add.commute)
  have "bufs_ok (c\<lparr>free_bufpairs := r\<rparr>) (cs_mem sv) ([] @ [i])" by (rule a(2))
  then have "bufs_ok (RdmaConnection_releaseSendBuf (RdmaConnection_send True (c\<lparr>free_bufpairs := r\<rparr>)
          (?h, length ?f + length content, 0) err) i)
      ((cs_mem sv)(?h := ?f @ content @ [0] @ drop (length ?f + length content + 1) (cs_mem sv ?h))) []"
    using a(4) len by (intro bufs_ok_release) (simp add: bufs_ok_send bufs_ok_store)
  with run posted show ?thesis by (auto simp: response_bytes_def)
qed

end
