(* ===== verification/Content_System.thy ===== *)
theory Content_System
  imports Content_Server
begin

text \<open>
  A content client and a content server over one pair of connections: the callbacks of both, the two
  network cards, which read a send buffer some time after the send was posted, and the messages
  under way. The lemmas show that every segment of every layer is handed on exactly once and in
  order with the bytes of its file, and that the server, which frees a send buffer as soon as it has
  posted it, never overwrites an answer that the card has not read.
\<close>

section \<open>A response at the client\<close>

declare ContentClient_trySendRequests.simps [simp del]

definition seg_request :: "int \<Rightarrow> string \<Rightarrow> string \<Rightarrow> nat \<Rightarrow> GetLayerRequest" where
  "seg_request n l img i = \<lparr>glr_layer = l, glr_index = int i, glr_image_name_tag = img,
     glr_total_segments = (if i = 0 then 0 else n)\<rparr>"

definition more_requests :: "GetLayerResponse \<Rightarrow> GetLayerRequest list" where
  "more_requests resp = (if glp_index resp = 0
     then map (seg_request (glp_total_segments resp) (glp_layer resp) (glp_image_name_tag resp))
            [1..<nat (glp_total_segments resp)] else [])"

lemma push_requests_eq:
  "push_requests resp n k q = map (seg_request n (glp_layer resp) (glp_image_name_tag resp)) [1..<Suc k] @ q"
  by (induction k arbitrary: q) (simp_all add: seg_request_def)

lemma pushed:
  "(if glp_index resp = 0 \<and> glp_total_segments resp > 1
    then push_requests resp (glp_total_segments resp) (nat (glp_total_segments resp - 1)) q else q)
   = more_requests resp @ q"
proof (cases "glp_total_segments resp > 1")
  case True
  then have "Suc (nat (glp_total_segments resp - 1)) = nat (glp_total_segments resp)" by simp
  with True show ?thesis by (simp add: push_requests_eq more_requests_def)
qed (simp add: more_requests_def)

definition segment_task :: "GetLayerResponse \<Rightarrow> Blob \<Rightarrow> ContentElement" where
  "segment_task resp b = \<lparr>segment = b, segment_idx = glp_index resp, total_segments = glp_total_segments resp,
     layer = glp_layer resp, image_name_tag = glp_image_name_tag resp, is_compressed = glp_iscompressed resp\<rparr>"

text \<open>
  The blobs of the segments that the decompress client still holds, and what they contain.
\<close>

definition held_ok :: "blob_heap \<Rightarrow> ContentElement list \<Rightarrow> (ContentElement \<Rightarrow> byte list) \<Rightarrow> bool" where
  "held_ok h held content \<longleftrightarrow> blobs_ok (bh_pool h, map segment held)
     \<and> (\<forall>e \<in> set held. blob_bytes h (segment e) = content e)"

lemma new_segment_ok:
  assumes ok: "held_ok h held content" and acq: "BlobPool_acquireBlob (bh_pool h) (length bs) = (b, P)"
    and room: "is_use (bh_pool h) \<longrightarrow> length bs \<le> blob_cap (bh_pool h)"
    and e: "segment e = Blob_set_size b (length bs)" "content e = bs"
  obtains h' where "blob_memcpy (h\<lparr>bh_pool := P\<rparr>) b bs = Inr h'" and "held_ok h' (held @ [e]) content"
    and "is_use (bh_pool h') = is_use (bh_pool h)" and "blob_cap (bh_pool h') = blob_cap (bh_pool h)"
proof -
  have "blobs_ok (bh_pool h, map segment held)" using ok by (simp add: held_ok_def)
  note a = acquireBlob_ok [OF this acq]
  have "blob_addr b \<noteq> None" using blobs_ok_addr [OF a(1)] by simp
  then obtain x where x: "blob_addr b = Some x" by auto
  have fresh: "blob_addr (segment d) \<noteq> Some x" if "d \<in> set held" for d
  proof -
    have "blob_addr b \<notin> blob_addr ` segment ` set held" using blobs_ok_distinct [OF a(1)] by (auto simp: image_image)
    with that x show ?thesis by (metis imageI)
  qed
  have "blob_keys (map segment (held @ [e])) = blob_keys (map segment held @ [b])"
    using e by (simp add: blob_keys_def Blob_set_size_def)
  then have keys: "blobs_ok (P, map segment (held @ [e]))" using a(1) blobs_ok_keys by metis
  let ?h = "h\<lparr>bh_pool := P, bh_mem := (bh_mem h)(x := bs @ drop (length bs) (bh_mem h x))\<rparr>"
  have "blob_memcpy (h\<lparr>bh_pool := P\<rparr>) b bs = Inr ?h"
    using a(2) room x by (simp add: blob_memcpy_def)
  moreover have "blob_bytes ?h (segment d) = content d" if "d \<in> set held" for d
    using fresh [OF that] that ok by (auto simp: blob_bytes_def held_ok_def split: option.splits)
  moreover have "blob_bytes ?h (segment e) = content e" using e x by (simp add: blob_bytes_def Blob_set_size_def)
  ultimately show ?thesis using that [of ?h] keys a(3,4) by (simp add: held_ok_def)
qed


lemma onRecvSuccess_ok:
  assumes inv: "outstanding lib cl c (q # reqs)" and held: "held_ok (fs_heap sh) held content"
    and buf: "recv_buf = rdma_frame (resp_pb lib) resp @ payload @ junk"
    and len: "unat recv_len = length (rdma_frame (resp_pb lib) resp) + length payload"
    and resp: "frame_fits (resp_pb lib) resp" "glp_segment_size resp = length payload"
    and room: "is_use (bh_pool (fs_heap sh)) \<longrightarrow> length payload \<le> blob_cap (bh_pool (fs_heap sh))"
    and us: "us = more_requests resp @ unsend_reqs cl" "\<forall>q \<in> set us. sendable lib c q" and post: "\<forall>w. err w = 0"
    and cont: "\<And>b. content (segment_task resp b) = payload"
  obtains cl' sh' c' k b where
    "ContentClient_onRecvSuccess lib err ((cl, sh), c) recv_buf recv_len = Inr ((cl', sh'), c')"
    and "outstanding lib cl' c' (reqs @ take k us)" and "unsend_reqs cl' = drop k us"
    and "k = min (length us) (length (free_bufpairs c) + 1)" and "bufpairs c' = bufpairs c"
    and "\<exists>new. posts c' = posts c @ new \<and> length new = k"
    and "fs_tasks sh' = fs_tasks sh @ [segment_task resp b]" and "held_ok (fs_heap sh') (held @ [segment_task resp b]) content"
    and "is_use (bh_pool (fs_heap sh')) = is_use (bh_pool (fs_heap sh))"
    and "blob_cap (bh_pool (fs_heap sh')) = blob_cap (bh_pool (fs_heap sh))"
proof -
  let ?f = "rdma_frame (resp_pb lib) resp"
  obtain i others where i: "cc_inflight_sends cl = i # others"
    using inv by (cases "cc_inflight_sends cl") (auto simp: outstanding_def in_flight_def)
  have frame: "parseRdmaPbMsg (resp_pb lib) recv_buf recv_len = Inr (int (length ?f), Some resp)"
    using parse_rdma_frame [OF resp(1), of recv_len "payload @ junk"] len buf by simp
  have small: "length ?f < 2 ^ 32" using len unsigned_less [where w = recv_len and 'a = nat] by simp
  then have "of_nat (length ?f) \<le> recv_len" using len word_of_nat_le_iff [OF small, of recv_len] by simp
  then have size: "unat (recv_len - word_of_int (int (length ?f))) = length payload"
    using len unat_of_nat_small [OF small] by (simp add: unat_sub)
  obtain b P where b: "BlobPool_acquireBlob (bh_pool (fs_heap sh)) (length payload) = (b, P)" by fastforce
  let ?b = "Blob_set_size b (length payload)"
  obtain h' where h: "blob_memcpy ((fs_heap sh)\<lparr>bh_pool := P\<rparr>) b payload = Inr h'"
    "held_ok h' (held @ [segment_task resp ?b]) content" "is_use (bh_pool h') = is_use (bh_pool (fs_heap sh))"
    "blob_cap (bh_pool h') = blob_cap (bh_pool (fs_heap sh))"
    using new_segment_ok [OF held b room _ cont, of ?b] by (auto simp: segment_task_def)
  let ?c1 = "RdmaConnection_releaseSendBuf c i"
  let ?cl1 = "cl\<lparr>cc_inflight_sends := others, unsend_reqs := us\<rparr>"
  have fl: "in_flight (req_frame lib) c (cc_mem cl) (i # others) (q # reqs)" using inv i by (simp add: outstanding_def)
  note posts1 = in_flight_release(2) [OF fl]
  have out1: "outstanding lib ?cl1 ?c1 reqs" using in_flight_release(1) [OF fl] inv by (simp add: outstanding_def)
  have fits: "\<forall>q \<in> set (unsend_reqs ?cl1). sendable lib ?c1 q" using us(2) sendable_cong [of ?c1 c] by simp
  obtain cl2 c2 k where run: "ContentClient_trySendRequests lib err (?cl1, ?c1) = Inr (cl2, c2)"
    and o2: "outstanding lib cl2 c2 (reqs @ take k (unsend_reqs ?cl1))" "unsend_reqs cl2 = drop k (unsend_reqs ?cl1)"
      "k = min (length (unsend_reqs ?cl1)) (length (free_bufpairs ?c1))" "bufpairs c2 = bufpairs ?c1"
      "\<exists>new. posts c2 = posts ?c1 @ new \<and> length new = k"
    by (rule trySendRequests_ok [OF out1 fits post])
  let ?sh = "sh\<lparr>fs_heap := h', fs_tasks := fs_tasks sh @ [segment_task resp ?b]\<rparr>"
  have "ContentClient_onRecvSuccess lib err ((cl, sh), c) recv_buf recv_len = Inr ((cl2, ?sh), c2)"
    using frame i size resp(2) b h(1) run buf
    by (simp add: ContentClient_onRecvSuccess_def pushed us(1) segment_task_def)
  then show ?thesis using that [of cl2 ?sh c2 k ?b] o2 h(2-4) posts1 by simp
qed

section \<open>The registry\<close>

text \<open>
  \<open>seg_ok\<close>: a request that can be answered. It fits into the client's send buffers; its file is
  there and not empty; the answer fits into the server's send buffers, and the contents into a blob.
  \<open>layer_ok\<close>: the registry knows the number of segments of a layer, and has them all.
\<close>

definition seg_content :: "content_files \<Rightarrow> ContentServer \<Rightarrow> GetLayerRequest \<Rightarrow> byte list" where
  "seg_content files sv q = butlast (snd (file2str files (index_path sv q) (nat (file_size files (index_path sv q)) + 1)))"

definition answer :: "content_lib \<Rightarrow> content_files \<Rightarrow> ContentServer \<Rightarrow> GetLayerRequest \<Rightarrow> byte list" where
  "answer lib files sv q = response_bytes lib files sv q (seg_content files sv q)"

definition seg_ok ::
  "content_lib \<Rightarrow> content_files \<Rightarrow> ContentServer \<Rightarrow> RdmaConnection \<Rightarrow> RdmaConnection \<Rightarrow> BlobPool \<Rightarrow> GetLayerRequest \<Rightarrow> bool" where
  "seg_ok lib files sv c sc P q \<longleftrightarrow> sendable lib c q
     \<and> file_law files (index_path sv q) (seg_content files sv q) \<and> seg_content files sv q \<noteq> []
     \<and> frame_fits (resp_pb lib) (layer_response files sv q)
     \<and> (\<forall>b \<in> set (bufpairs sc). length (answer lib files sv q) < send_cap b)
     \<and> (is_use P \<longrightarrow> length (seg_content files sv q) \<le> blob_cap P)"

definition layer_ok ::
  "content_lib \<Rightarrow> content_files \<Rightarrow> ContentServer \<Rightarrow> RdmaConnection \<Rightarrow> RdmaConnection \<Rightarrow> BlobPool \<Rightarrow>
    string \<Rightarrow> string \<Rightarrow> nat \<Rightarrow> bool" where
  "layer_ok lib files sv c sc P l img n \<longleftrightarrow>
     get_int_from_file files (total_segments_path sv (first_request l img)) = int n \<and> 0 < n
     \<and> (\<forall>i < n. seg_ok lib files sv c sc P (seg_request (int n) l img i))"

definition same_setting ::
  "ContentServer \<times> RdmaConnection \<times> RdmaConnection \<times> BlobPool \<Rightarrow>
   ContentServer \<times> RdmaConnection \<times> RdmaConnection \<times> BlobPool \<Rightarrow> bool" where
  "same_setting = (\<lambda>(sv, c, sc, P) (sv', c', sc', P').
     registry_path sv' = registry_path sv \<and> layer_is_compressed sv' = layer_is_compressed sv
     \<and> bufpairs c' = bufpairs c \<and> bufpairs sc' = bufpairs sc
     \<and> is_use P' = is_use P \<and> blob_cap P' = blob_cap P)"

lemma same_registry:
  assumes "registry_path sv' = registry_path sv" and "layer_is_compressed sv' = layer_is_compressed sv"
  shows "index_path sv' = index_path sv" and "layer_response files sv' = layer_response files sv"
    and "seg_content files sv' = seg_content files sv" and "answer lib files sv' = answer lib files sv"
    and "total_segments_path sv' = total_segments_path sv"
proof -
  show i: "index_path sv' = index_path sv" and t: "total_segments_path sv' = total_segments_path sv"
    using assms by (simp_all add: index_path_def total_segments_path_def fun_eq_iff)
  show r: "layer_response files sv' = layer_response files sv"
    using assms i t by (simp add: layer_response_def fun_eq_iff)
  show s: "seg_content files sv' = seg_content files sv" using i by (simp add: seg_content_def fun_eq_iff)
  show "answer lib files sv' = answer lib files sv" using r s by (simp add: answer_def response_bytes_def fun_eq_iff)
qed

lemma layer_ok_same:
  assumes "same_setting (sv, c, sc, P) (sv', c', sc', P')"
  shows "layer_ok lib files sv' c' sc' P' l img n = layer_ok lib files sv c sc P l img n"
proof -
  have bp: "bufpairs c' = bufpairs c" "bufpairs sc' = bufpairs sc" and pool: "is_use P' = is_use P" "blob_cap P' = blob_cap P"
    and reg: "registry_path sv' = registry_path sv" "layer_is_compressed sv' = layer_is_compressed sv"
    using assms by (simp_all add: same_setting_def)
  show ?thesis
    unfolding layer_ok_def seg_ok_def same_registry [OF reg] sendable_cong [OF bp(1)] bp(2) pool by blast
qed

section \<open>The system\<close>

text \<open>
  \<open>sy_sent\<close> and \<open>sy_answered\<close> count the posted sends the two cards have read; \<open>to_server\<close> and
  \<open>to_client\<close> are the messages in transit, oldest first (an RDMA connection delivers in order).
  \<open>fetched\<close> are the layers asked for, \<open>sy_held\<close> the segments whose blobs the decompress client has
  not given back.
\<close>

record content_system =
  sy_client :: ContentClient
  sy_shared :: fetch_shared
  sy_conn :: RdmaConnection
  sy_sent :: nat
  to_server :: "byte list list"
  sy_server :: ContentServer
  sy_sconn :: RdmaConnection
  sy_answered :: nat
  to_client :: "byte list list"
  fetched :: "(string \<times> string) list"
  sy_held :: "ContentElement list"

text \<open>
  The steps: a layer is fetched for an image, which happens once for each pair; a card reads the
  next posted send and puts it into transit; the server handles the oldest request, the client the
  oldest answer, with whatever lies behind the message in the receive buffer; a blob is given back.
\<close>

inductive content_step :: "content_lib \<Rightarrow> content_files \<Rightarrow> content_system \<Rightarrow> content_system \<Rightarrow> bool"
  for lib files where
  Fetch: "(l, img) \<notin> set (fetched S) \<Longrightarrow>
    layer_ok lib files (sy_server S) (sy_conn S) (sy_sconn S) (bh_pool (fs_heap (sy_shared S))) l img n \<Longrightarrow>
    ContentClient_trySendRequests lib (\<lambda>_. 0)
      (ContentClient_enqueueRequest (sy_client S) (first_request l img), sy_conn S) = Inr (cl', c') \<Longrightarrow>
    content_step lib files S (S\<lparr>sy_client := cl', sy_conn := c', fetched := fetched S @ [(l, img)]\<rparr>)"
| Client_card: "sy_sent S < length (posts (sy_conn S)) \<Longrightarrow>
    content_step lib files S (S\<lparr>sy_sent := Suc (sy_sent S),
      to_server := to_server S @ [wire (cc_mem (sy_client S)) (posts (sy_conn S) ! sy_sent S)]\<rparr>)"
| Server_recv: "to_server S = m # ms \<Longrightarrow>
    ContentServer_onRecvSuccess lib files 0 (sy_server S, sy_sconn S) (m @ junk) (of_nat (length m)) = Inr (sv', sc') \<Longrightarrow>
    content_step lib files S (S\<lparr>sy_server := sv', sy_sconn := sc', to_server := ms\<rparr>)"
| Server_card: "sy_answered S < length (posts (sy_sconn S)) \<Longrightarrow>
    content_step lib files S (S\<lparr>sy_answered := Suc (sy_answered S),
      to_client := to_client S @ [wire (cs_mem (sy_server S)) (posts (sy_sconn S) ! sy_answered S)]\<rparr>)"
| Client_recv: "to_client S = m # ms \<Longrightarrow>
    ContentClient_onRecvSuccess lib (\<lambda>_. 0) ((sy_client S, sy_shared S), sy_conn S) (m @ junk) (of_nat (length m))
      = Inr ((cl', sh'), c') \<Longrightarrow>
    content_step lib files S (S\<lparr>sy_client := cl', sy_shared := sh', sy_conn := c', to_client := ms,
      sy_held := sy_held S @ drop (length (fs_tasks (sy_shared S))) (fs_tasks sh')\<rparr>)"
| Give_back: "k < length (sy_held S) \<Longrightarrow>
    content_step lib files S (S\<lparr>sy_held := drop_nth k (sy_held S), sy_shared := (sy_shared S)\<lparr>fs_heap :=
      (fs_heap (sy_shared S))\<lparr>bh_pool := BlobPool_releaseBlob (bh_pool (fs_heap (sy_shared S))) (segment (sy_held S ! k))\<rparr>\<rparr>\<rparr>)"

section \<open>The two sides\<close>

text \<open>
  The server side: the answers to \<open>R\<close> are posted and not yet read by the card. Their buffers are the
  last ones of the free list, in the order of the posts.
\<close>

definition answer_post :: "content_lib \<Rightarrow> content_files \<Rightarrow> ContentServer \<Rightarrow> RdmaConnection \<Rightarrow> nat \<times> GetLayerRequest \<Rightarrow> nat \<times> nat" where
  "answer_post lib files sv sc = frame_post (answer lib files sv) sc"

definition server_side ::
  "content_lib \<Rightarrow> content_files \<Rightarrow> ContentServer \<Rightarrow> RdmaConnection \<Rightarrow> nat \<Rightarrow> GetLayerRequest list \<Rightarrow> bool" where
  "server_side lib files sv sc n R \<longleftrightarrow> bufs_ok sc (cs_mem sv) []
     \<and> (\<exists>pre ids old. free_bufpairs sc = pre @ ids \<and> length ids = length R \<and> length old = n
         \<and> posts sc = old @ map (answer_post lib files sv sc) (zip ids R)
         \<and> (\<forall>(i, q) \<in> set (zip ids R). wire (cs_mem sv) (answer_post lib files sv sc (i, q)) = answer lib files sv q))"

lemma server_card_ok:
  assumes "server_side lib files sv sc n R" and "n < length (posts sc)"
  obtains q R' where "R = q # R'" and "wire (cs_mem sv) (posts sc ! n) = answer lib files sv q"
    and "server_side lib files sv sc (Suc n) R'"
proof -
  from assms(1) obtain pre ids old where d: "bufs_ok sc (cs_mem sv) []" "free_bufpairs sc = pre @ ids"
    "length ids = length R" "length old = n" "posts sc = old @ map (answer_post lib files sv sc) (zip ids R)"
    "\<forall>(i, q) \<in> set (zip ids R). wire (cs_mem sv) (answer_post lib files sv sc (i, q)) = answer lib files sv q"
    unfolding server_side_def by blast
  with assms(2) have "R \<noteq> []" by auto
  then obtain q R' where R: "R = q # R'" by (cases R) auto
  with d(3) obtain i ids' where i: "ids = i # ids'" by (cases ids) auto
  have "posts sc ! n = answer_post lib files sv sc (i, q)" using d(5) R i by (simp add: d(4) [symmetric])
  moreover have "free_bufpairs sc = (pre @ [i]) @ ids'" "length (old @ [answer_post lib files sv sc (i, q)]) = Suc n"
    "posts sc = (old @ [answer_post lib files sv sc (i, q)]) @ map (answer_post lib files sv sc) (zip ids' R')"
    using d R i by simp_all
  then have "server_side lib files sv sc (Suc n) R'"
    unfolding server_side_def using d R i by (intro conjI exI) (assumption | simp)+
  ultimately show ?thesis using that R d(6) i by simp
qed

lemma server_recv_ok:
  assumes side: "server_side lib files sv sc n R" and room: "length R < length (bufpairs sc)"
    and q: "seg_ok lib files sv c sc P q"
  obtains sv' sc' where "ContentServer_onRecvSuccess lib files 0 (sv, sc) (req_frame lib q @ junk)
      (of_nat (length (req_frame lib q))) = Inr (sv', sc')"
    and "server_side lib files sv' sc' n (R @ [q])" and "same_setting (sv, c, sc, P) (sv', c, sc', P)"
proof -
  from side obtain pre ids old where d: "bufs_ok sc (cs_mem sv) []" "free_bufpairs sc = pre @ ids"
    "length ids = length R" "length old = n" "posts sc = old @ map (answer_post lib files sv sc) (zip ids R)"
    "\<forall>(i, q) \<in> set (zip ids R). wire (cs_mem sv) (answer_post lib files sv sc (i, q)) = answer lib files sv q"
    unfolding server_side_def by blast
  have "length pre + length ids = length (bufpairs sc)" using bufs_ok_free [OF d(1)] d(2) by simp
  with room d(3) obtain i pre' where pre: "pre = i # pre'" by (cases pre) auto
  have free: "free_bufpairs sc = i # (pre' @ ids)" using d(2) pre by simp
  have i: "i < length (bufpairs sc)" by (rule acquire_first(3) [OF d(1) free])
  have fits: "frame_fits (req_pb lib) q" and law: "file_law files (index_path sv q) (seg_content files sv q)"
    "seg_content files sv q \<noteq> []" and resp: "frame_fits (resp_pb lib) (layer_response files sv q)"
    and cap: "length (response_bytes lib files sv q (seg_content files sv q)) < send_cap (bufpairs sc ! i)"
    using q i by (simp_all add: seg_ok_def sendable_def answer_def)
  have "length (req_frame lib q) < 2 ^ 32" using fits
    by (simp add: req_frame_def length_rdma_frame) (simp add: frame_fits_def kFrameHeaderLen_def)
  then have len: "length (rdma_frame (req_pb lib) q) \<le> unat (of_nat (length (req_frame lib q)) :: 32 word)"
    by (subst unat_of_nat_small) (simp_all add: req_frame_def)
  let ?h = "send_header (bufpairs sc ! i)" and ?a = "answer lib files sv q"
  from onRecvSuccess_answers [OF d(1) free, of "req_frame lib q @ junk", unfolded req_frame_def,
      OF refl fits len [unfolded req_frame_def] law resp cap, where err = 0]
  obtain sv' sc' where run: "ContentServer_onRecvSuccess lib files 0 (sv, sc) (req_frame lib q @ junk)
      (of_nat (length (req_frame lib q))) = Inr (sv', sc')"
    and reg: "registry_path sv' = registry_path sv" "layer_is_compressed sv' = layer_is_compressed sv"
    and bp: "bufpairs sc' = bufpairs sc" and fr: "free_bufpairs sc' = (pre' @ ids) @ [i]"
    and sq: "sq sc' = sq sc @ [(?h, length ?a, 0)]" and new: "take (length ?a) (cs_mem sv' ?h) = ?a"
    and old: "\<forall>a. a \<noteq> ?h \<longrightarrow> cs_mem sv' a = cs_mem sv a" and ok: "bufs_ok sc' (cs_mem sv') []"
    unfolding answer_def req_frame_def by blast
  have ap: "answer_post lib files sv' sc' = answer_post lib files sv sc" and an: "answer lib files sv' = answer lib files sv"
    using same_registry(4) [OF reg] by (simp_all add: answer_post_def frame_post_def bp fun_eq_iff)
  have "wire (cs_mem sv') (answer_post lib files sv sc (j, p)) = answer lib files sv p"
    if "(j, p) \<in> set (zip ids R)" for j p
  proof -
    have ps: "pool_split (length (bufpairs sc)) (free_bufpairs sc) []" using d(1) by (simp add: bufs_ok_def)
    from that have j: "j \<in> set ids" by (rule set_zip_leftD)
    then have "j < length (bufpairs sc)" "j \<noteq> i"
      using pool_split_bound [OF ps] pool_split_distinct(1) [OF ps] d(2) free by auto
    then have "send_header (bufpairs sc ! j) \<noteq> ?h" using headers_inj [OF d(1) _ i] by blast
    with that d(6) old show ?thesis by (auto simp: wire_def answer_post_def frame_post_def)
  qed
  moreover have "wire (cs_mem sv') (answer_post lib files sv sc (i, q)) = answer lib files sv q"
    using new by (simp add: wire_def answer_post_def frame_post_def)
  moreover have "posts sc' = old' @ map (answer_post lib files sv sc) (zip (ids @ [i]) (R @ [q]))"
    if "old' = old" for old' using d(3,5) sq that by (simp add: posts_def answer_post_def frame_post_def)
  ultimately have "server_side lib files sv' sc' n (R @ [q])"
    unfolding server_side_def ap an using ok fr d(3,4)
    by (intro conjI exI [of _ pre'] exI [of _ "ids @ [i]"] exI [of _ old]) auto
  moreover have "same_setting (sv, c, sc, P) (sv', c, sc', P)" using reg bp by (simp add: same_setting_def)
  ultimately show ?thesis using that run by blast
qed

text \<open>The client side: the requests \<open>R\<close> are posted and not yet read by the card.\<close>

lemma client_card_ok:
  assumes "outstanding lib cl c (A @ R)" and "length (posts c) = n + length R" and "n < length (posts c)"
  obtains q R' where "R = q # R'" and "wire (cc_mem cl) (posts c ! n) = req_frame lib q"
  using assms unfolding outstanding_def by (blast elim: in_flight_wire)

section \<open>The order of the segments\<close>

definition req_key :: "GetLayerRequest \<Rightarrow> string \<times> string" where
  "req_key q = (glr_layer q, glr_image_name_tag q)"

definition task_key :: "ContentElement \<Rightarrow> string \<times> string" where
  "task_key e = (layer e, image_name_tag e)"

text \<open>
  The indices of the segments of one layer: those handed on, then those asked for and those to be asked
  for. \<open>books\<close> says what is due for every layer fetched: its first segment only until that has come,
  then all of its segments in order; \<open>LO\<close> gives the number of segments of a layer.
\<close>

definition key_seq :: "string \<times> string \<Rightarrow> ContentElement list \<Rightarrow> GetLayerRequest list \<Rightarrow> int list" where
  "key_seq k tasks pend = map segment_idx (filter (\<lambda>e. task_key e = k) tasks)
     @ map glr_index (filter (\<lambda>q. req_key q = k) pend)"

definition pend_ok :: "(string \<Rightarrow> string \<Rightarrow> nat \<Rightarrow> bool) \<Rightarrow> (string \<times> string) list \<Rightarrow> GetLayerRequest \<Rightarrow> bool" where
  "pend_ok LO fs q \<longleftrightarrow> req_key q \<in> set fs \<and> (\<exists>n i. LO (glr_layer q) (glr_image_name_tag q) n \<and> i < n
     \<and> q = seg_request (int n) (glr_layer q) (glr_image_name_tag q) i)"

definition task_ok :: "(string \<Rightarrow> string \<Rightarrow> nat \<Rightarrow> bool) \<Rightarrow> (string \<times> string) list \<Rightarrow> ContentElement \<Rightarrow> bool" where
  "task_ok LO fs e \<longleftrightarrow> task_key e \<in> set fs \<and> (\<exists>n. LO (layer e) (image_name_tag e) n \<and> total_segments e = int n
     \<and> 0 \<le> segment_idx e \<and> segment_idx e < int n)"

definition due :: "(string \<Rightarrow> string \<Rightarrow> nat \<Rightarrow> bool) \<Rightarrow> ContentElement list \<Rightarrow> GetLayerRequest list \<Rightarrow> string \<times> string \<Rightarrow> bool" where
  "due LO tasks pend k \<longleftrightarrow> (\<exists>n > 0. LO (fst k) (snd k) n \<and>
     key_seq k tasks pend = (if filter (\<lambda>e. task_key e = k) tasks = [] then [0] else map int [0..<n]))"

definition books ::
  "(string \<Rightarrow> string \<Rightarrow> nat \<Rightarrow> bool) \<Rightarrow> (string \<times> string) list \<Rightarrow> ContentElement list \<Rightarrow> GetLayerRequest list \<Rightarrow> bool" where
  "books LO fs tasks pend \<longleftrightarrow> distinct fs \<and> (\<forall>q \<in> set pend. pend_ok LO fs q) \<and> (\<forall>e \<in> set tasks. task_ok LO fs e)
     \<and> (\<forall>k \<in> set fs. due LO tasks pend k)"

lemma seg_request_fields [simp]:
  "glr_layer (seg_request n l img i) = l" "glr_image_name_tag (seg_request n l img i) = img"
  "glr_index (seg_request n l img i) = int i" "req_key (seg_request n l img i) = (l, img)"
  by (simp_all add: seg_request_def req_key_def)

lemma first_request_seg: "first_request l img = seg_request n l img 0"
  by (simp add: first_request_def seg_request_def)

lemma books_fetch:
  assumes b: "books LO fs tasks pend" and new: "(l, img) \<notin> set fs" and n: "LO l img n" "0 < n"
  shows "books LO (fs @ [(l, img)]) tasks (pend @ [first_request l img])"
proof -
  have none: "filter (\<lambda>e. task_key e = (l, img)) tasks = []" "filter (\<lambda>q. req_key q = (l, img)) pend = []"
    using b new by (auto simp: books_def pend_ok_def task_ok_def filter_empty_conv)
  have "pend_ok LO (fs @ [(l, img)]) (first_request l img)"
    unfolding first_request_seg [of l img "int n"] pend_ok_def using n by auto
  moreover have same: "key_seq k tasks (pend @ [first_request l img]) = key_seq k tasks pend" if "k \<noteq> (l, img)" for k
    using that by (simp add: key_seq_def first_request_seg [of l img "int n"])
  moreover have "key_seq (l, img) tasks (pend @ [first_request l img]) = [0]"
    using none by (simp add: key_seq_def first_request_seg [of l img "int n"])
  then have "due LO tasks (pend @ [first_request l img]) (l, img)" using n none by (auto simp: due_def)
  moreover have "pend_ok LO (fs @ [(l, img)]) q" if "pend_ok LO fs q" for q using that by (simp add: pend_ok_def)
  moreover have "task_ok LO (fs @ [(l, img)]) e" if "task_ok LO fs e" for e using that by (simp add: task_ok_def)
  moreover have "due LO tasks (pend @ [first_request l img]) k" if "k \<in> set fs" for k
  proof -
    from that new have "k \<noteq> (l, img)" by blast
    moreover have "due LO tasks pend k" using b that by (simp add: books_def)
    ultimately show ?thesis using same by (simp add: due_def)
  qed
  ultimately show ?thesis using b new by (simp add: books_def)
qed

lemma books_recv:
  assumes b: "books LO fs tasks (q # pend1 @ pend2)" and fn: "\<And>n n'. LO (glr_layer q) (glr_image_name_tag q) n \<Longrightarrow>
      LO (glr_layer q) (glr_image_name_tag q) n' \<Longrightarrow> n = n'"
    and n: "LO (glr_layer q) (glr_image_name_tag q) n"
    and e: "task_key e = req_key q" "segment_idx e = glr_index q" "total_segments e = int n"
    and nx: "nx = (if glr_index q = 0 then map (seg_request (int n) (glr_layer q) (glr_image_name_tag q)) [1..<n] else [])"
  shows "books LO fs (tasks @ [e]) (pend1 @ nx @ pend2)"
proof -
  let ?k = "req_key q" and ?fe = "filter (\<lambda>e. task_key e = req_key q)" and ?fq = "filter (\<lambda>p. req_key p = req_key q)"
  have k: "?k = (glr_layer q, glr_image_name_tag q)" by (simp add: req_key_def)
  have q: "pend_ok LO fs q" using b by (simp add: books_def)
  then obtain i where i: "i < n" "q = seg_request (int n) (glr_layer q) (glr_image_name_tag q) i"
    and fs: "?k \<in> set fs" using n fn by (auto simp: pend_ok_def)
  from i(2) have idx: "glr_index q = int i" by (metis seg_request_fields(3))
  have "task_ok LO fs e" using e fs n i(1) idx by (auto simp: task_ok_def task_key_def k)
  moreover have "pend_ok LO fs p" if "p \<in> set nx" for p
  proof -
    from that obtain x where "x < n" "p = seg_request (int n) (glr_layer q) (glr_image_name_tag q) x"
      by (auto simp: nx split: if_splits)
    with fs n show ?thesis by (auto simp: pend_ok_def k)
  qed
  moreover have other: "due LO (tasks @ [e]) (pend1 @ nx @ pend2) j" if "j \<noteq> ?k" "j \<in> set fs" for j
  proof -
    have "filter (\<lambda>p. req_key p = j) nx = []" using that(1) by (auto simp: nx k filter_empty_conv)
    then have "key_seq j (tasks @ [e]) (pend1 @ nx @ pend2) = key_seq j tasks (q # pend1 @ pend2)"
      and "filter (\<lambda>x. task_key x = j) (tasks @ [e]) = filter (\<lambda>x. task_key x = j) tasks"
      using that(1) e(1) by (simp_all add: key_seq_def)
    moreover have "due LO tasks (q # pend1 @ pend2) j" using b that(2) by (simp add: books_def)
    ultimately show ?thesis by (simp add: due_def)
  qed
  moreover have "key_seq ?k (tasks @ [e]) (pend1 @ nx @ pend2) = map int [0..<n]"
  proof (cases "?fe tasks = []")
    case True
    with b fs k have "key_seq ?k tasks (q # pend1 @ pend2) = [0]" by (fastforce simp: books_def due_def)
    then have none: "?fq pend1 = []" "?fq pend2 = []" and 0: "glr_index q = 0" using True by (simp_all add: key_seq_def)
    have "?fq nx = nx" by (simp add: nx k)
    moreover have "0 < n" using i(1) by simp
    then have "map int [0..<n] = 0 # map int [1..<n]" by (simp add: upt_conv_Cons)
    ultimately show ?thesis using True none 0 e by (simp add: key_seq_def nx comp_def)
  next
    case False
    with b fs k n fn have seq: "key_seq ?k tasks (q # pend1 @ pend2) = map int [0..<n]" by (fastforce simp: books_def due_def)
    obtain d ds where d: "?fe tasks = d # ds" using False by (cases "?fe tasks") auto
    have "0 < n" using i(1) by simp
    then have up: "map int [0..<n] = 0 # map int [1..<n]" by (simp add: upt_conv_Cons)
    have "map segment_idx ds @ int i # map glr_index (?fq (pend1 @ pend2)) = map int [1..<n]"
      using seq d idx unfolding up by (simp add: key_seq_def)
    then have "int i \<in> set (map int [1..<n])" by (metis in_set_conv_decomp)
    then have "nx = []" using idx by (auto simp: nx)
    with seq e show ?thesis by (simp add: key_seq_def)
  qed
  then have "due LO (tasks @ [e]) (pend1 @ nx @ pend2) ?k"
    unfolding due_def using n i(1) e(1) by (intro exI [of _ n]) (auto simp: k)
  then have "\<forall>j \<in> set fs. due LO (tasks @ [e]) (pend1 @ nx @ pend2) j" using other by metis
  ultimately show ?thesis using b by (auto simp: books_def)
qed

section \<open>The invariant\<close>

text \<open>
  The requests that are not answered, oldest first, are those whose answer is in transit (\<open>R1\<close>) or
  posted at the server (\<open>R2\<close>), and those which are in transit to the server (\<open>R3\<close>) or posted at the
  client (\<open>R4\<close>).
\<close>

abbreviation sy_pool :: "content_system \<Rightarrow> BlobPool" where
  "sy_pool S \<equiv> bh_pool (fs_heap (sy_shared S))"

abbreviation sy_layer_ok :: "content_lib \<Rightarrow> content_files \<Rightarrow> content_system \<Rightarrow> string \<Rightarrow> string \<Rightarrow> nat \<Rightarrow> bool" where
  "sy_layer_ok lib files S \<equiv> layer_ok lib files (sy_server S) (sy_conn S) (sy_sconn S) (sy_pool S)"

definition task_content :: "content_files \<Rightarrow> ContentServer \<Rightarrow> ContentElement \<Rightarrow> byte list" where
  "task_content files sv e = seg_content files sv (seg_request (total_segments e) (layer e) (image_name_tag e) (nat (segment_idx e)))"

definition stages ::
  "content_lib \<Rightarrow> content_files \<Rightarrow> content_system \<Rightarrow> GetLayerRequest list \<Rightarrow> GetLayerRequest list \<Rightarrow>
    GetLayerRequest list \<Rightarrow> GetLayerRequest list \<Rightarrow> bool" where
  "stages lib files S R1 R2 R3 R4 \<longleftrightarrow>
     outstanding lib (sy_client S) (sy_conn S) (R1 @ R2 @ R3 @ R4)
     \<and> length (posts (sy_conn S)) = sy_sent S + length R4
     \<and> to_server S = map (req_frame lib) R3
     \<and> server_side lib files (sy_server S) (sy_sconn S) (sy_answered S) R2
     \<and> to_client S = map (answer lib files (sy_server S)) R1
     \<and> length (bufpairs (sy_conn S)) \<le> length (bufpairs (sy_sconn S)) \<and> bufpairs (sy_conn S) \<noteq> []
     \<and> (unsend_reqs (sy_client S) = [] \<or> free_bufpairs (sy_conn S) = [])
     \<and> books (sy_layer_ok lib files S) (fetched S) (fs_tasks (sy_shared S)) ((R1 @ R2 @ R3 @ R4) @ unsend_reqs (sy_client S))
     \<and> held_ok (fs_heap (sy_shared S)) (sy_held S) (task_content files (sy_server S))"

definition content_inv :: "content_lib \<Rightarrow> content_files \<Rightarrow> content_system \<Rightarrow> bool" where
  "content_inv lib files S \<longleftrightarrow> (\<exists>R1 R2 R3 R4. stages lib files S R1 R2 R3 R4)"

lemma pend_seg_ok:
  assumes "books (layer_ok lib files sv c sc P) fs tasks pend" and "q \<in> set pend"
  shows "seg_ok lib files sv c sc P q"
proof -
  from assms obtain n i where "layer_ok lib files sv c sc P (glr_layer q) (glr_image_name_tag q) n" "i < n"
    "q = seg_request (int n) (glr_layer q) (glr_image_name_tag q) i"
    by (auto simp: books_def pend_ok_def)
  then show ?thesis unfolding layer_ok_def by metis
qed

lemma layer_ok_unique:
  "layer_ok lib files sv c sc P l img n \<Longrightarrow> layer_ok lib files sv c sc P l img n' \<Longrightarrow> n = n'"
  by (simp add: layer_ok_def)

lemma layer_ok_pos: "layer_ok lib files sv c sc P l img n \<Longrightarrow> 0 < n"
  by (simp add: layer_ok_def)

lemma sends_done:
  assumes "outstanding lib cl c (reqs @ take k us)" and "length reqs + f = length (bufpairs c)"
    and "k = min (length us) f" and "unsend_reqs cl = drop k us"
  shows "unsend_reqs cl = [] \<or> free_bufpairs c = []"
proof -
  have "length (free_bufpairs c) + length (cc_inflight_sends cl) = length (bufpairs c)"
    and "length (reqs @ take k us) = length (cc_inflight_sends cl)"
    using assms(1) bufs_ok_free by (auto simp: outstanding_def in_flight_def)
  then have "length (free_bufpairs c) = f - k" using assms(2,3) by simp
  then show ?thesis using assms(3,4) by (auto simp: min_def split: if_splits)
qed

lemma outstanding_count:
  "outstanding lib cl c reqs \<Longrightarrow> length reqs + length (free_bufpairs c) = length (bufpairs c)"
  unfolding outstanding_def by (blast intro: in_flight_count)

text \<open>Fetching: also how the system starts, so over a list of layers.\<close>

lemma fetch_stage:
  assumes inv: "stages lib files S R1 R2 R3 R4" and new: "(l, img) \<notin> set (fetched S)"
    and ok: "sy_layer_ok lib files S l img n"
  obtains cl' c' T where "ContentClient_trySendRequests lib (\<lambda>_. 0)
      (ContentClient_enqueueRequest (sy_client S) (first_request l img), sy_conn S) = Inr (cl', c')"
    and "stages lib files (S\<lparr>sy_client := cl', sy_conn := c', fetched := fetched S @ [(l, img)]\<rparr>) R1 R2 R3 (R4 @ T)"
proof -
  let ?cl = "ContentClient_enqueueRequest (sy_client S) (first_request l img)" and ?R = "R1 @ R2 @ R3 @ R4"
  define us where "us = unsend_reqs (sy_client S) @ [first_request l img]"
  have us: "unsend_reqs ?cl = us" by (simp add: ContentClient_enqueueRequest_def us_def)
  have "books (sy_layer_ok lib files S) (fetched S) (fs_tasks (sy_shared S)) (?R @ unsend_reqs (sy_client S))"
    using inv by (simp add: stages_def)
  from books_fetch [OF this new ok layer_ok_pos [OF ok]]
  have books: "books (sy_layer_ok lib files S) (fetched S @ [(l, img)]) (fs_tasks (sy_shared S)) (?R @ us)" by (simp add: us_def)
  then have send: "\<forall>q \<in> set (unsend_reqs ?cl). sendable lib (sy_conn S) q"
    using pend_seg_ok [OF books] us by (auto simp: seg_ok_def)
  have out: "outstanding lib ?cl (sy_conn S) ?R"
    using inv by (simp add: stages_def outstanding_def ContentClient_enqueueRequest_def)
  obtain cl' c' k where run: "ContentClient_trySendRequests lib (\<lambda>_. 0) (?cl, sy_conn S) = Inr (cl', c')"
    and o': "outstanding lib cl' c' (?R @ take k (unsend_reqs ?cl))" "unsend_reqs cl' = drop k (unsend_reqs ?cl)"
      "k = min (length (unsend_reqs ?cl)) (length (free_bufpairs (sy_conn S)))" "bufpairs c' = bufpairs (sy_conn S)"
      "\<exists>new. posts c' = posts (sy_conn S) @ new \<and> length new = k"
    by (rule trySendRequests_ok [where err = "\<lambda>_. 0", OF out send]) (rule allI, rule refl)
  let ?S = "S\<lparr>sy_client := cl', sy_conn := c', fetched := fetched S @ [(l, img)]\<rparr>"
  have "unsend_reqs cl' = [] \<or> free_bufpairs c' = []"
    using sends_done [OF o'(1) _ o'(3,2)] outstanding_count [OF out] o'(4) by simp
  moreover have "sy_layer_ok lib files ?S = sy_layer_ok lib files S"
    using o'(4) by (intro ext, subst layer_ok_same [of "sy_server S" "sy_conn S" "sy_sconn S" "sy_pool S"])
      (simp_all add: same_setting_def)
  moreover have "(?R @ take k us) @ unsend_reqs cl' = ?R @ us" using o'(2) us by simp
  ultimately have "stages lib files ?S R1 R2 R3 (R4 @ take k us)"
    using inv o' us books by (auto simp: stages_def min_def)
  with run show ?thesis by (rule that)
qed

lemma client_card_stage:
  assumes inv: "stages lib files S R1 R2 R3 R4" and more: "sy_sent S < length (posts (sy_conn S))"
  obtains q R4' where "stages lib files (S\<lparr>sy_sent := Suc (sy_sent S),
      to_server := to_server S @ [wire (cc_mem (sy_client S)) (posts (sy_conn S) ! sy_sent S)]\<rparr>) R1 R2 (R3 @ [q]) R4'"
proof -
  have "outstanding lib (sy_client S) (sy_conn S) ((R1 @ R2 @ R3) @ R4)"
    and "length (posts (sy_conn S)) = sy_sent S + length R4" using inv by (simp_all add: stages_def)
  from client_card_ok [OF this more] obtain q R' where "R4 = q # R'"
    "wire (cc_mem (sy_client S)) (posts (sy_conn S) ! sy_sent S) = req_frame lib q" .
  with inv show ?thesis by (intro that [of q R']) (auto simp: stages_def)
qed

lemma server_card_stage:
  assumes inv: "stages lib files S R1 R2 R3 R4" and more: "sy_answered S < length (posts (sy_sconn S))"
  obtains q R2' where "stages lib files (S\<lparr>sy_answered := Suc (sy_answered S),
      to_client := to_client S @ [wire (cs_mem (sy_server S)) (posts (sy_sconn S) ! sy_answered S)]\<rparr>) (R1 @ [q]) R2' R3 R4"
proof -
  have "server_side lib files (sy_server S) (sy_sconn S) (sy_answered S) R2" using inv by (simp add: stages_def)
  from server_card_ok [OF this more] obtain q R' where "R2 = q # R'"
    "wire (cs_mem (sy_server S)) (posts (sy_sconn S) ! sy_answered S) = answer lib files (sy_server S) q"
    "server_side lib files (sy_server S) (sy_sconn S) (Suc (sy_answered S)) R'" .
  with inv show ?thesis by (intro that [of q R']) (auto simp: stages_def)
qed

lemma server_recv_stage:
  assumes inv: "stages lib files S R1 R2 R3 R4" and m: "to_server S = m # ms"
  obtains q R3' sv' sc' where
    "ContentServer_onRecvSuccess lib files 0 (sy_server S, sy_sconn S) (m @ junk) (of_nat (length m)) = Inr (sv', sc')"
    and "stages lib files (S\<lparr>sy_server := sv', sy_sconn := sc', to_server := ms\<rparr>) R1 (R2 @ [q]) R3' R4"
    and "registry_path sv' = registry_path (sy_server S)"
proof -
  from inv m obtain q R' where R3: "R3 = q # R'" and ms: "m = req_frame lib q" "ms = map (req_frame lib) R'"
    by (cases R3) (auto simp: stages_def)
  have b: "books (sy_layer_ok lib files S) (fetched S) (fs_tasks (sy_shared S)) ((R1 @ R2 @ R3 @ R4) @ unsend_reqs (sy_client S))"
    and side: "server_side lib files (sy_server S) (sy_sconn S) (sy_answered S) R2"
    and out: "outstanding lib (sy_client S) (sy_conn S) (R1 @ R2 @ R3 @ R4)"
    and le: "length (bufpairs (sy_conn S)) \<le> length (bufpairs (sy_sconn S))"
    using inv by (simp_all add: stages_def)
  have q: "seg_ok lib files (sy_server S) (sy_conn S) (sy_sconn S) (sy_pool S) q" by (rule pend_seg_ok [OF b]) (simp add: R3)
  have "length R2 < length (bufpairs (sy_sconn S))" using outstanding_count [OF out] le R3 by simp
  from server_recv_ok [OF side this q] obtain sv' sc' where
    run: "ContentServer_onRecvSuccess lib files 0 (sy_server S, sy_sconn S) (m @ junk) (of_nat (length m)) = Inr (sv', sc')"
    and side': "server_side lib files sv' sc' (sy_answered S) (R2 @ [q])"
    and same: "same_setting (sy_server S, sy_conn S, sy_sconn S, sy_pool S) (sv', sy_conn S, sc', sy_pool S)"
    unfolding ms(1) by blast
  have reg: "registry_path sv' = registry_path (sy_server S)" "layer_is_compressed sv' = layer_is_compressed (sy_server S)"
    and bp: "bufpairs sc' = bufpairs (sy_sconn S)" using same by (simp_all add: same_setting_def)
  have "layer_ok lib files sv' (sy_conn S) sc' (sy_pool S) = sy_layer_ok lib files S"
    using layer_ok_same [OF same] by (intro ext)
  moreover have "task_content files sv' = task_content files (sy_server S)"
    using same_registry(3) [OF reg] by (simp add: task_content_def fun_eq_iff)
  ultimately have "stages lib files (S\<lparr>sy_server := sv', sy_sconn := sc', to_server := ms\<rparr>) R1 (R2 @ [q]) R' R4"
    using inv side' bp R3 ms(2) same_registry(4) [OF reg] by (simp add: stages_def)
  with run show ?thesis using reg(1) by (rule that)
qed

lemma blob_bytes_pool: "blob_bytes (h\<lparr>bh_pool := P\<rparr>) b = blob_bytes h b"
  by (simp add: blob_bytes_def split: option.split)

lemma give_back_stage:
  assumes inv: "stages lib files S R1 R2 R3 R4" and k: "k < length (sy_held S)"
  shows "stages lib files (S\<lparr>sy_held := drop_nth k (sy_held S), sy_shared := (sy_shared S)\<lparr>fs_heap :=
      (fs_heap (sy_shared S))\<lparr>bh_pool := BlobPool_releaseBlob (sy_pool S) (segment (sy_held S ! k))\<rparr>\<rparr>\<rparr>) R1 R2 R3 R4"
proof -
  let ?held = "map segment (sy_held S)" and ?P = "BlobPool_releaseBlob (sy_pool S) (segment (sy_held S ! k))"
  have ok: "held_ok (fs_heap (sy_shared S)) (sy_held S) (task_content files (sy_server S))" using inv by (simp add: stages_def)
  have "blob_exec (sy_pool S, ?held) (Release_blob k) = (?P, map segment (drop_nth k (sy_held S)))"
    using k by (simp add: drop_nth_def take_map drop_map)
  moreover have "blobs_ok (sy_pool S, ?held)" using ok by (simp add: held_ok_def)
  ultimately have P: "blobs_ok (?P, map segment (drop_nth k (sy_held S)))" "is_use ?P = is_use (sy_pool S)" "blob_cap ?P = blob_cap (sy_pool S)"
    using blob_exec_ok by blast+
  have "set (drop_nth k (sy_held S)) \<subseteq> set (sy_held S)" by (auto simp: drop_nth_def dest: in_set_takeD in_set_dropD)
  then have "held_ok ((fs_heap (sy_shared S))\<lparr>bh_pool := ?P\<rparr>) (drop_nth k (sy_held S)) (task_content files (sy_server S))"
    using ok P(1) unfolding held_ok_def blob_bytes_pool by (simp add: subset_iff)
  moreover have "layer_ok lib files (sy_server S) (sy_conn S) (sy_sconn S) ?P = sy_layer_ok lib files S"
    using P(2,3) by (intro ext layer_ok_same) (simp add: same_setting_def)
  ultimately show ?thesis using inv by (simp add: stages_def)
qed

lemma response_of_request:
  assumes "layer_ok lib files sv c sc P l img n" and q: "q = seg_request (int n) l img i"
  shows "glp_layer (layer_response files sv q) = l" and "glp_image_name_tag (layer_response files sv q) = img"
    and "glp_index (layer_response files sv q) = int i" and "glp_total_segments (layer_response files sv q) = int n"
    and "task_content files sv (segment_task (layer_response files sv q) b) = seg_content files sv q"
    and "more_requests (layer_response files sv q) = (if glr_index q = 0 then map (seg_request (int n) l img) [1..<n] else [])"
proof -
  have "total_segments_path sv q = total_segments_path sv (first_request l img)"
    using q by (simp add: total_segments_path_def first_request_def)
  then show t: "glp_total_segments (layer_response files sv q) = int n"
    using assms(1) by (simp add: layer_response_def layer_ok_def)
  show f: "glp_layer (layer_response files sv q) = l" "glp_image_name_tag (layer_response files sv q) = img"
    "glp_index (layer_response files sv q) = int i"
    using q by (simp_all add: layer_response_def)
  show "task_content files sv (segment_task (layer_response files sv q) b) = seg_content files sv q"
    using t f q by (simp add: task_content_def segment_task_def)
  show "more_requests (layer_response files sv q) = (if glr_index q = 0 then map (seg_request (int n) l img) [1..<n] else [])"
    unfolding more_requests_def t f using q by simp
qed

lemma answer_len:
  assumes "seg_ok lib files sv c sc P q" and "bufs_ok sc M held" and "bufpairs sc \<noteq> []"
  shows "unat (of_nat (length (answer lib files sv q)) :: 32 word)
      = length (rdma_frame (resp_pb lib) (layer_response files sv q)) + length (seg_content files sv q)"
    and "glp_segment_size (layer_response files sv q) = length (seg_content files sv q)"
proof -
  let ?b = "hd (bufpairs sc)"
  have b: "?b \<in> set (bufpairs sc)" using assms(3) by simp
  then have "length (answer lib files sv q) < send_cap ?b" "send_cap ?b < 2 ^ 32"
    using assms(1,2) by (auto simp: seg_ok_def bufs_ok_def send_mem_ok_def)
  then have small: "length (answer lib files sv q) < 2 ^ 32" by (rule less_trans)
  then show "unat (of_nat (length (answer lib files sv q)) :: 32 word)
      = length (rdma_frame (resp_pb lib) (layer_response files sv q)) + length (seg_content files sv q)"
    by (subst unat_of_nat_small) (simp_all add: answer_def response_bytes_def)
  have "length (seg_content files sv q) < 2 ^ 32" using small by (simp add: answer_def response_bytes_def)
  moreover have "file_size files (index_path sv q) = int (length (seg_content files sv q))"
    using assms(1) by (simp add: seg_ok_def file_law_def)
  ultimately show "glp_segment_size (layer_response files sv q) = length (seg_content files sv q)"
    by (simp add: layer_response_def nat_mod_distrib)
qed

lemma client_recv_stage:
  assumes inv: "stages lib files S R1 R2 R3 R4" and m: "to_client S = m # ms"
  obtains R1' T cl' sh' c' where
    "ContentClient_onRecvSuccess lib (\<lambda>_. 0) ((sy_client S, sy_shared S), sy_conn S) (m @ junk) (of_nat (length m))
      = Inr ((cl', sh'), c')"
    and "stages lib files (S\<lparr>sy_client := cl', sy_shared := sh', sy_conn := c', to_client := ms,
      sy_held := sy_held S @ drop (length (fs_tasks (sy_shared S))) (fs_tasks sh')\<rparr>) R1' R2 R3 (R4 @ T)"
    and "length (fs_tasks sh') = Suc (length (fs_tasks (sy_shared S)))"
proof -
  let ?sv = "sy_server S" and ?sh = "sy_shared S" and ?LO = "sy_layer_ok lib files S"
  from inv m obtain q R' where R1: "R1 = q # R'" and ms: "m = answer lib files ?sv q" "ms = map (answer lib files ?sv) R'"
    by (cases R1) (auto simp: stages_def)
  let ?R = "R' @ R2 @ R3 @ R4" and ?resp = "layer_response files ?sv q" and ?un = "unsend_reqs (sy_client S)"
  define us where "us = more_requests ?resp @ ?un"
  have b: "books ?LO (fetched S) (fs_tasks ?sh) (q # ?R @ ?un)"
    and out: "outstanding lib (sy_client S) (sy_conn S) (q # ?R)"
    and held: "held_ok (fs_heap ?sh) (sy_held S) (task_content files ?sv)"
    and sbuf: "bufs_ok (sy_sconn S) (cs_mem ?sv) []" and le: "length (bufpairs (sy_conn S)) \<le> length (bufpairs (sy_sconn S))"
    using inv R1 by (simp_all add: stages_def server_side_def)
  have q: "seg_ok lib files ?sv (sy_conn S) (sy_sconn S) (sy_pool S) q" by (rule pend_seg_ok [OF b]) simp
  have ne: "bufpairs (sy_sconn S) \<noteq> []" using outstanding_count [OF out] le by auto
  from b obtain n i where lo: "?LO (glr_layer q) (glr_image_name_tag q) n"
    and qi: "q = seg_request (int n) (glr_layer q) (glr_image_name_tag q) i" by (auto simp: books_def pend_ok_def)
  from qi have idx: "glr_index q = int i" by (metis seg_request_fields(3))
  note r = response_of_request [OF lo qi] and a = answer_len [OF q sbuf ne]
  have books': "books ?LO (fetched S) (fs_tasks ?sh @ [segment_task ?resp blob]) (?R @ us)" for blob
    unfolding us_def r(6)
    by (rule books_recv [OF b layer_ok_unique lo _ _ _ refl])
       (simp_all add: segment_task_def task_key_def req_key_def r(1-4) idx)
  have send: "\<forall>p \<in> set us. sendable lib (sy_conn S) p"
    using pend_seg_ok [OF books'] by (auto simp: seg_ok_def)
  have buf: "m @ junk = rdma_frame (resp_pb lib) ?resp @ seg_content files ?sv q @ junk"
    by (simp add: ms(1) answer_def response_bytes_def)
  have fits: "frame_fits (resp_pb lib) ?resp"
    and room: "is_use (sy_pool S) \<longrightarrow> length (seg_content files ?sv q) \<le> blob_cap (sy_pool S)"
    using q by (simp_all add: seg_ok_def)
  obtain cl' sh' c' k blob where
    run: "ContentClient_onRecvSuccess lib (\<lambda>_. 0) ((sy_client S, ?sh), sy_conn S) (m @ junk) (of_nat (length m)) = Inr ((cl', sh'), c')"
    and o': "outstanding lib cl' c' (?R @ take k us)" "unsend_reqs cl' = drop k us"
      "k = min (length us) (length (free_bufpairs (sy_conn S)) + 1)" "bufpairs c' = bufpairs (sy_conn S)"
      "\<exists>new. posts c' = posts (sy_conn S) @ new \<and> length new = k"
    and t: "fs_tasks sh' = fs_tasks ?sh @ [segment_task ?resp blob]"
      "held_ok (fs_heap sh') (sy_held S @ [segment_task ?resp blob]) (task_content files ?sv)"
      "is_use (bh_pool (fs_heap sh')) = is_use (sy_pool S)" "blob_cap (bh_pool (fs_heap sh')) = blob_cap (sy_pool S)"
    by (rule onRecvSuccess_ok [where err = "\<lambda>_. 0", OF out held buf a(1) [folded ms(1)] fits a(2) room us_def send _ r(5)])
       (rule allI, rule refl)
  have "unsend_reqs cl' = [] \<or> free_bufpairs c' = []"
    using sends_done [OF o'(1) _ o'(3,2)] outstanding_count [OF out] o'(4) by simp
  moreover have "layer_ok lib files ?sv c' (sy_sconn S) (bh_pool (fs_heap sh')) = ?LO"
    using o'(4) t(3,4) by (intro ext layer_ok_same) (simp add: same_setting_def)
  moreover have "(?R @ take k us) @ unsend_reqs cl' = ?R @ us" using o'(2) by simp
  ultimately have "stages lib files (S\<lparr>sy_client := cl', sy_shared := sh', sy_conn := c', to_client := ms,
      sy_held := sy_held S @ drop (length (fs_tasks ?sh)) (fs_tasks sh')\<rparr>) R' R2 R3 (R4 @ take k us)"
    using inv o' t books' [of blob] ms(2) by (auto simp: stages_def min_def)
  moreover have "length (fs_tasks sh') = Suc (length (fs_tasks ?sh))" using t(1) by simp
  ultimately show ?thesis by (rule that [OF run])
qed

text \<open>
  The start: the client was made with requests for the layers asked for so far, and the connection is
  now established. The server has nothing to do, and at least as many send buffers as the client.
\<close>

definition content_init :: "content_lib \<Rightarrow> content_files \<Rightarrow> content_system \<Rightarrow> bool" where
  "content_init lib files S \<longleftrightarrow> (\<exists>M c0.
     ContentClient_onConnected lib (\<lambda>_. 0) (foldl ContentClient_enqueueRequest (ContentClient_new M)
       (map (\<lambda>(l, img). first_request l img) (fetched S)), c0) = Inr (sy_client S, sy_conn S)
     \<and> bufs_ok c0 M [] \<and> sq c0 = [])
     \<and> distinct (fetched S) \<and> (\<forall>(l, img) \<in> set (fetched S). \<exists>n. sy_layer_ok lib files S l img n)
     \<and> bufs_ok (sy_sconn S) (cs_mem (sy_server S)) [] \<and> sq (sy_sconn S) = []
     \<and> length (bufpairs (sy_conn S)) \<le> length (bufpairs (sy_sconn S))
     \<and> sy_sent S = 0 \<and> sy_answered S = 0 \<and> to_server S = [] \<and> to_client S = []
     \<and> fs_tasks (sy_shared S) = [] \<and> sy_held S = [] \<and> blobs_ok (sy_pool S, [])"

lemma books_start:
  assumes "distinct ks" and "\<forall>(l, img) \<in> set ks. \<exists>n > 0. LO l img n"
  shows "books LO ks [] (map (\<lambda>(l, img). first_request l img) ks)"
  using assms
proof (induction ks rule: rev_induct)
  case Nil
  show ?case by (simp add: books_def)
next
  case (snoc k ks)
  obtain l img where k: "k = (l, img)" by (cases k)
  with snoc.prems obtain n where "LO l img n" "0 < n" by auto
  moreover have "books LO ks [] (map (\<lambda>(l, img). first_request l img) ks)" using snoc by simp
  moreover have "(l, img) \<notin> set ks" using snoc.prems(1) k by simp
  ultimately have "books LO (ks @ [(l, img)]) [] (map (\<lambda>(l, img). first_request l img) ks @ [first_request l img])"
    using books_fetch by blast
  with k show ?case by simp
qed

lemma enqueue_all:
  "foldl ContentClient_enqueueRequest cl reqs = cl\<lparr>unsend_reqs := unsend_reqs cl @ reqs\<rparr>"
  by (induction reqs arbitrary: cl) (simp_all add: ContentClient_enqueueRequest_def)

text \<open>\<open>onConnected\<close> sends the first requests of a new client.\<close>

lemma onConnected_ok:
  assumes ok: "bufs_ok c M []" and sq: "sq c = []" and ne: "bufpairs c \<noteq> []" "reqs \<noteq> []"
    and send: "\<forall>q \<in> set reqs. sendable lib c q"
  obtains cl' c' k where "ContentClient_onConnected lib (\<lambda>_. 0)
      ((ContentClient_new M)\<lparr>unsend_reqs := reqs\<rparr>, c) = Inr (cl', c')"
    and "outstanding lib cl' c' (take k reqs)" and "unsend_reqs cl' = drop k reqs"
    and "bufpairs c' = bufpairs c" and "length (posts c') = length (take k reqs)"
    and "unsend_reqs cl' = [] \<or> free_bufpairs c' = []"
proof -
  let ?cl = "(ContentClient_new M)\<lparr>unsend_reqs := reqs, conn_set := True\<rparr>"
  have out: "outstanding lib ?cl c []"
    using ok sq by (simp add: outstanding_def in_flight_def ContentClient_new_def posts_def)
  have send': "\<forall>q \<in> set (unsend_reqs ?cl). sendable lib c q" using send by simp
  obtain cl' c' k where run: "ContentClient_trySendRequests lib (\<lambda>_. 0) (?cl, c) = Inr (cl', c')"
    and o': "outstanding lib cl' c' ([] @ take k (unsend_reqs ?cl))" "unsend_reqs cl' = drop k (unsend_reqs ?cl)"
      "k = min (length (unsend_reqs ?cl)) (length (free_bufpairs c))" "bufpairs c' = bufpairs c"
      "\<exists>new. posts c' = posts c @ new \<and> length new = k"
    by (rule trySendRequests_ok [where err = "\<lambda>_. 0", OF out send']) (rule allI, rule refl)
  have "free_bufpairs c \<noteq> []" using bufs_ok_free [OF ok] ne(1) by auto
  then have "ContentClient_onConnected lib (\<lambda>_. 0) ((ContentClient_new M)\<lparr>unsend_reqs := reqs\<rparr>, c) = Inr (cl', c')"
    using run ne(2) by (simp add: ContentClient_onConnected_def RdmaConnection_isFreeSendBufEmpty_def ContentClient_new_def)
  moreover have "unsend_reqs cl' = [] \<or> free_bufpairs c' = []"
    using sends_done [OF o'(1) _ o'(3,2)] bufs_ok_free [OF ok] o'(4) by simp
  moreover have "length (posts c') = length (take k reqs)" using o'(3,5) sq by (auto simp: posts_def)
  ultimately show ?thesis using that o' by simp
qed

lemma sendRequest_bufpairs:
  assumes "ContentClient_sendRequest lib err (cl, c) = Inr (cl', c')"
  shows "bufpairs c' = bufpairs c"
proof (cases "conn_set cl")
  case True
  obtain ob c1 where a: "RdmaConnection_acquireFreeSendBuf c = Inr (ob, c1)"
    using assms True by (auto simp: ContentClient_sendRequest_def res_simps)
  then have "bufpairs c1 = bufpairs c"
    by (auto simp: RdmaConnection_acquireFreeSendBuf_def res_simps split: option.splits)
  moreover obtain b req rest where "ob = Some b" "unsend_reqs cl = req # rest"
    using assms True a by (cases ob; cases "unsend_reqs cl") (auto simp: ContentClient_sendRequest_def)
  ultimately show ?thesis using a assms True
    by (auto simp: ContentClient_sendRequest_def res_simps Let_def split: if_splits)
qed (use assms in \<open>simp add: ContentClient_sendRequest_def\<close>)

lemma trySendRequests_bufpairs:
  "ContentClient_trySendRequests lib err (cl, c) = Inr (cl', c') \<Longrightarrow> bufpairs c' = bufpairs c"
proof (induction lib err "(cl, c)" arbitrary: cl c rule: ContentClient_trySendRequests.induct)
  case (1 lib err cl c)
  show ?case
  proof (cases "conn_set cl \<and> unsend_reqs cl \<noteq> [] \<and> \<not> RdmaConnection_isFreeSendBufEmpty c")
    case True
    then obtain cl1 c1 where step: "ContentClient_sendRequest lib err (cl, c) = Inr (cl1, c1)"
      "ContentClient_trySendRequests lib err (cl1, c1) = Inr (cl', c')"
      using 1(2) by (auto simp: ContentClient_trySendRequests.simps [of lib err cl c] res_simps)
    with 1(1) True have "bufpairs c' = bufpairs c1" by blast
    with sendRequest_bufpairs [OF step(1)] show ?thesis by simp
  next
    case False
    with 1(2) show ?thesis by (auto simp: ContentClient_trySendRequests.simps [of lib err cl c] split: if_splits)
  qed
qed

lemma content_init_inv:
  assumes "content_init lib files S"
  shows "content_inv lib files S"
proof -
  let ?reqs = "map (\<lambda>(l, img). first_request l img) (fetched S)"
  from assms obtain M c0 where run: "ContentClient_onConnected lib (\<lambda>_. 0)
      ((ContentClient_new M)\<lparr>unsend_reqs := ?reqs\<rparr>, c0) = Inr (sy_client S, sy_conn S)"
    and ok: "bufs_ok c0 M []" and sq: "sq c0 = []"
    by (auto simp: content_init_def enqueue_all ContentClient_new_def)
  have "?reqs \<noteq> []" "free_bufpairs c0 \<noteq> []"
    using run by (auto simp: ContentClient_onConnected_def res_simps RdmaConnection_isFreeSendBufEmpty_def)
  then have ne: "bufpairs c0 \<noteq> []" "?reqs \<noteq> []" using bufs_ok_free [OF ok] by auto
  have "\<forall>(l, img) \<in> set (fetched S). \<exists>n > 0. sy_layer_ok lib files S l img n"
    using assms layer_ok_pos by (fastforce simp: content_init_def)
  then have books: "books (sy_layer_ok lib files S) (fetched S) [] ?reqs"
    using assms by (intro books_start) (simp_all add: content_init_def)
  have bp: "bufpairs (sy_conn S) = bufpairs c0"
    using run by (auto simp: ContentClient_onConnected_def res_simps dest: trySendRequests_bufpairs)
  then have "\<forall>q \<in> set ?reqs. sendable lib c0 q"
    using pend_seg_ok [OF books] sendable_cong [of "sy_conn S" c0] by (simp add: seg_ok_def)
  from onConnected_ok [OF ok sq ne this] run obtain k where
    "outstanding lib (sy_client S) (sy_conn S) (take k ?reqs)" "unsend_reqs (sy_client S) = drop k ?reqs"
    "length (posts (sy_conn S)) = length (take k ?reqs)" "unsend_reqs (sy_client S) = [] \<or> free_bufpairs (sy_conn S) = []"
    by (metis (no_types, lifting) Inr_inject Pair_inject)
  moreover have "server_side lib files (sy_server S) (sy_sconn S) 0 []"
    using assms by (auto simp: content_init_def server_side_def posts_def)
  ultimately have "stages lib files S [] [] [] (take k ?reqs)"
    using assms books bp ne(1) by (simp add: stages_def content_init_def held_ok_def)
  then show ?thesis by (auto simp: content_inv_def)
qed

lemma content_step_inv:
  assumes "content_inv lib files S" and "content_step lib files S S'"
  shows "content_inv lib files S'"
proof -
  from assms(1) obtain R1 R2 R3 R4 where inv: "stages lib files S R1 R2 R3 R4" by (auto simp: content_inv_def)
  from assms(2) show ?thesis
  proof (cases rule: content_step.cases)
    case (Fetch l img n cl' c')
    obtain cl1 c1 T where run: "ContentClient_trySendRequests lib (\<lambda>_. 0)
        (ContentClient_enqueueRequest (sy_client S) (first_request l img), sy_conn S) = Inr (cl1, c1)"
      and st: "stages lib files (S\<lparr>sy_client := cl1, sy_conn := c1, fetched := fetched S @ [(l, img)]\<rparr>) R1 R2 R3 (R4 @ T)"
      by (rule fetch_stage [OF inv Fetch(2,3)])
    from run Fetch(4) have "cl1 = cl'" "c1 = c'" by simp_all
    with st Fetch(1) show ?thesis unfolding content_inv_def by blast
  next
    case Client_card
    from client_card_stage [OF inv Client_card(2)] Client_card(1) show ?thesis unfolding content_inv_def by metis
  next
    case (Server_recv m ms junk sv' sc')
    obtain q R3' sv1 sc1 where run: "ContentServer_onRecvSuccess lib files 0 (sy_server S, sy_sconn S) (m @ junk)
        (of_nat (length m)) = Inr (sv1, sc1)"
      and st: "stages lib files (S\<lparr>sy_server := sv1, sy_sconn := sc1, to_server := ms\<rparr>) R1 (R2 @ [q]) R3' R4"
      by (rule server_recv_stage [OF inv Server_recv(2)])
    from run Server_recv(3) have "sv1 = sv'" "sc1 = sc'" by simp_all
    with st Server_recv(1) show ?thesis unfolding content_inv_def by blast
  next
    case Server_card
    from server_card_stage [OF inv Server_card(2)] Server_card(1) show ?thesis unfolding content_inv_def by metis
  next
    case (Client_recv m ms junk cl' sh' c')
    obtain R1' T cl1 sh1 c1 where run: "ContentClient_onRecvSuccess lib (\<lambda>_. 0) ((sy_client S, sy_shared S), sy_conn S)
        (m @ junk) (of_nat (length m)) = Inr ((cl1, sh1), c1)"
      and st: "stages lib files (S\<lparr>sy_client := cl1, sy_shared := sh1, sy_conn := c1, to_client := ms,
        sy_held := sy_held S @ drop (length (fs_tasks (sy_shared S))) (fs_tasks sh1)\<rparr>) R1' R2 R3 (R4 @ T)"
      by (rule client_recv_stage [OF inv Client_recv(2)])
    from run Client_recv(3) have "cl1 = cl'" "sh1 = sh'" "c1 = c'" by simp_all
    with st Client_recv(1) show ?thesis unfolding content_inv_def by blast
  next
    case (Give_back k)
    from give_back_stage [OF inv Give_back(2)] Give_back(1) show ?thesis unfolding content_inv_def by blast
  qed
qed

interpretation content_sys: invariant_system "content_init lib files" "content_step lib files" "content_inv lib files"
  for lib files
  by unfold_locales (auto intro: content_init_inv content_step_inv)

lemma prefix_upt: "xs @ ys = map int [0..<n] \<Longrightarrow> xs = map int [0..<length xs] \<and> length xs \<le> n"
proof -
  assume eq: "xs @ ys = map int [0..<n]"
  then have "length xs + length ys = n" by (metis length_append length_map length_upt minus_nat.diff_0)
  moreover have "xs = take (length xs) (map int [0..<n])" using eq by (metis append_eq_conv_conj)
  ultimately show ?thesis by (metis add.commute le_add1 min.absorb2 plus_nat.add_0 take_map take_upt)
qed

lemma stages_order:
  assumes inv: "stages lib files S R1 R2 R3 R4" and k: "(l, img) \<in> set (fetched S)" and n: "sy_layer_ok lib files S l img n"
  shows "\<exists>k \<le> n. map segment_idx (filter (\<lambda>e. task_key e = (l, img)) (fs_tasks (sy_shared S))) = map int [0..<k]
    \<and> (cc_inflight_sends (sy_client S) = [] \<longrightarrow> k = n)"
proof -
  let ?t = "filter (\<lambda>e. task_key e = (l, img)) (fs_tasks (sy_shared S))"
  let ?pend = "(R1 @ R2 @ R3 @ R4) @ unsend_reqs (sy_client S)"
  have "due (sy_layer_ok lib files S) (fs_tasks (sy_shared S)) ?pend (l, img)"
    using inv k by (simp add: stages_def books_def)
  then have seq: "key_seq (l, img) (fs_tasks (sy_shared S)) ?pend = (if ?t = [] then [0] else map int [0..<n])"
    using layer_ok_unique [OF n] by (auto simp: due_def)
  have quiet: "?pend = []" if "cc_inflight_sends (sy_client S) = []"
  proof -
    have out: "outstanding lib (sy_client S) (sy_conn S) (R1 @ R2 @ R3 @ R4)" using inv by (simp add: stages_def)
    then have nil: "R1 @ R2 @ R3 @ R4 = []" using that by (auto simp: outstanding_def in_flight_def)
    then have "free_bufpairs (sy_conn S) \<noteq> []"
      using outstanding_count [OF out] inv by (auto simp: stages_def)
    then show ?thesis using inv nil by (simp add: stages_def)
  qed
  show ?thesis
  proof (cases "?t = []")
    case True
    then have "cc_inflight_sends (sy_client S) \<noteq> []" using seq quiet by (auto simp: key_seq_def)
    with True show ?thesis by (intro exI [of _ 0]) simp
  next
    case False
    then have eq: "map segment_idx ?t @ map glr_index (filter (\<lambda>q. req_key q = (l, img)) ?pend) = map int [0..<n]"
      using seq by (simp only: key_seq_def if_False)
    from prefix_upt [OF eq] eq quiet show ?thesis
      by (intro exI [of _ "length (map segment_idx ?t)"]) (auto dest: arg_cong [where f = length])
  qed
qed

lemma stages_answers:
  assumes inv: "stages lib files S R1 R2 R3 R4"
  shows "sy_answered S \<le> j \<Longrightarrow> j < length (posts (sy_sconn S)) \<Longrightarrow>
      \<exists>q. req_key q \<in> set (fetched S) \<and> wire (cs_mem (sy_server S)) (posts (sy_sconn S) ! j) = answer lib files (sy_server S) q"
    and "m \<in> set (to_client S) \<Longrightarrow> \<exists>q. req_key q \<in> set (fetched S) \<and> m = answer lib files (sy_server S) q"
proof -
  have keys: "req_key q \<in> set (fetched S)" if "q \<in> set R1 \<or> q \<in> set R2" for q
    using inv that by (auto simp: stages_def books_def pend_ok_def)
  then show "m \<in> set (to_client S) \<Longrightarrow> \<exists>q. req_key q \<in> set (fetched S) \<and> m = answer lib files (sy_server S) q"
    using inv by (auto simp: stages_def)
  assume j: "sy_answered S \<le> j" "j < length (posts (sy_sconn S))"
  from inv obtain ids old where d: "length ids = length R2" "length old = sy_answered S"
    "posts (sy_sconn S) = old @ map (answer_post lib files (sy_server S) (sy_sconn S)) (zip ids R2)"
    "\<forall>(i, q) \<in> set (zip ids R2). wire (cs_mem (sy_server S)) (answer_post lib files (sy_server S) (sy_sconn S) (i, q))
       = answer lib files (sy_server S) q"
    unfolding stages_def server_side_def by blast
  let ?x = "j - sy_answered S"
  have x: "?x < length (zip ids R2)" and "posts (sy_sconn S) ! j = answer_post lib files (sy_server S) (sy_sconn S) (zip ids R2 ! ?x)"
    using j d(1-3) by (auto simp: nth_append)
  moreover obtain i q where iq: "zip ids R2 ! ?x = (i, q)" by fastforce
  moreover have "(i, q) \<in> set (zip ids R2)" using x iq by (metis nth_mem)
  ultimately show "\<exists>q. req_key q \<in> set (fetched S)
      \<and> wire (cs_mem (sy_server S)) (posts (sy_sconn S) ! j) = answer lib files (sy_server S) q"
    using d(4) keys [of q] set_zip_rightD [of i q ids R2] by (intro exI [of _ q]) auto
qed

section \<open>The first answer\<close>

text \<open>The first request is sent, answered and the answer handled.\<close>

lemma first_answer:
  assumes st: "stages lib files S [] [] [] R4" and sent: "sy_sent S < length (posts (sy_conn S))"
  obtains S' R1 R2 R3 R4' where "(content_step lib files)\<^sup>*\<^sup>* S S'" and "stages lib files S' R1 R2 R3 R4'" and "fetched S' = fetched S"
    and "length (fs_tasks (sy_shared S')) = Suc (length (fs_tasks (sy_shared S)))"
    and "registry_path (sy_server S') = registry_path (sy_server S)"
proof -
  let ?step = "content_step lib files"
  define S1 where "S1 = S\<lparr>sy_sent := Suc (sy_sent S), to_server := to_server S @ [wire (cc_mem (sy_client S)) (posts (sy_conn S) ! sy_sent S)]\<rparr>"
  obtain q R4' where S1: "stages lib files S1 [] [] ([] @ [q]) R4'" unfolding S1_def by (rule client_card_stage [OF st sent])
  have s1: "?step S S1" unfolding S1_def by (rule Client_card [OF sent])
  have to: "to_server S1 = req_frame lib q # []" using S1 by (simp add: stages_def)
  obtain q' R3' sv sc where h: "ContentServer_onRecvSuccess lib files 0 (sy_server S1, sy_sconn S1) (req_frame lib q @ []) (of_nat (length (req_frame lib q))) = Inr (sv, sc)"
    "stages lib files (S1\<lparr>sy_server := sv, sy_sconn := sc, to_server := []\<rparr>) [] ([] @ [q']) R3' R4'" "registry_path sv = registry_path (sy_server S1)"
    by (rule server_recv_stage [OF S1 to])
  define S2 where "S2 = S1\<lparr>sy_server := sv, sy_sconn := sc, to_server := []\<rparr>"
  have s2: "?step S1 S2" unfolding S2_def by (rule Server_recv [OF to h(1)])
  have S2: "stages lib files S2 [] [q'] R3' R4'" using h(2) by (simp add: S2_def)
  then have l2: "sy_answered S2 < length (posts (sy_sconn S2))" by (auto simp: stages_def server_side_def)
  define S3 where "S3 = S2\<lparr>sy_answered := Suc (sy_answered S2), to_client := to_client S2 @ [wire (cs_mem (sy_server S2)) (posts (sy_sconn S2) ! sy_answered S2)]\<rparr>"
  obtain q3 R2' where S3: "stages lib files S3 ([] @ [q3]) R2' R3' R4'" unfolding S3_def by (rule server_card_stage [OF S2 l2])
  have s3: "?step S2 S3" unfolding S3_def by (rule Server_card [OF l2])
  define m where "m = answer lib files (sy_server S3) q3"
  have tc: "to_client S3 = m # []" using S3 by (simp add: stages_def m_def)
  obtain R1' T cl sh c where r: "ContentClient_onRecvSuccess lib (\<lambda>_. 0) ((sy_client S3, sy_shared S3), sy_conn S3) (m @ []) (of_nat (length m)) = Inr ((cl, sh), c)"
    "stages lib files (S3\<lparr>sy_client := cl, sy_shared := sh, sy_conn := c, to_client := [],
      sy_held := sy_held S3 @ drop (length (fs_tasks (sy_shared S3))) (fs_tasks sh)\<rparr>) R1' R2' R3' (R4' @ T)"
    "length (fs_tasks sh) = Suc (length (fs_tasks (sy_shared S3)))"
    by (rule client_recv_stage [OF S3 tc])
  have "?step S3 (S3\<lparr>sy_client := cl, sy_shared := sh, sy_conn := c, to_client := [],
      sy_held := sy_held S3 @ drop (length (fs_tasks (sy_shared S3))) (fs_tasks sh)\<rparr>)" by (rule Client_recv [OF tc r(1)])
  with s1 s2 s3 have "?step\<^sup>*\<^sup>* S (S3\<lparr>sy_client := cl, sy_shared := sh, sy_conn := c, to_client := [],
      sy_held := sy_held S3 @ drop (length (fs_tasks (sy_shared S3))) (fs_tasks sh)\<rparr>)"
    by (meson converse_rtranclp_into_rtranclp r_into_rtranclp)
  then show thesis by (rule that [OF _ r(2)]) (use r(3) h(3) in \<open>simp_all add: S3_def S2_def S1_def\<close>)
qed

text \<open>A start has a request to send.\<close>

lemma init_sends:
  assumes "content_init lib files S"
  obtains R4 where "stages lib files S [] [] [] R4" and "sy_sent S < length (posts (sy_conn S))"
proof -
  from content_init_inv [OF assms] obtain R1 R2 R3 R4 where st: "stages lib files S R1 R2 R3 R4" by (auto simp: content_inv_def)
  have e: "to_server S = []" "to_client S = []" "sq (sy_sconn S) = []" "fs_tasks (sy_shared S) = []" "sy_sent S = 0" "sy_answered S = 0"
    using assms by (auto simp: content_init_def)
  then have R: "R1 = []" "R2 = []" "R3 = []" using st by (auto simp: stages_def server_side_def posts_def)
  have "fetched S \<noteq> []"
    using assms by (auto simp: content_init_def enqueue_all ContentClient_onConnected_def ContentClient_new_def res_simps split: if_splits)
  then obtain k where k: "k \<in> set (fetched S)" by (cases "fetched S") auto
  obtain l img where x: "k = (l, img)" by fastforce
  with k assms obtain n where n: "sy_layer_ok lib files S l img n" by (auto simp: content_init_def)
  have "cc_inflight_sends (sy_client S) \<noteq> []"
    using stages_order [OF st k [unfolded x] n] e(4) layer_ok_pos [OF n] by auto
  then have "R4 \<noteq> []" using st R by (auto simp: stages_def outstanding_def in_flight_def)
  then have "sy_sent S < length (posts (sy_conn S))" using st by (simp add: stages_def)
  with st R show thesis by (intro that [of R4]) simp_all
qed

section \<open>A sample registry\<close>

text \<open>
  One layer of two segments of three bytes each, messages that carry the index only, and the sample
  connection at both ends.
\<close>

definition sample_req_pb :: "GetLayerRequest pb" where
  "sample_req_pb = \<lparr>ByteSizeLong = (\<lambda>_. 1), SerializeAsString = (\<lambda>q. [of_int (glr_index q)]),
     SerializeToArray = (\<lambda>n q. Some [of_int (glr_index q)]),
     ParseFromArray = (\<lambda>mem n. Some (seg_request 2 ''l'' ''i'' (unat (hd mem))))\<rparr>"

definition sample_resp_pb :: "GetLayerResponse pb" where
  "sample_resp_pb = \<lparr>ByteSizeLong = (\<lambda>_. 1), SerializeAsString = (\<lambda>q. [of_int (glp_index q)]),
     SerializeToArray = (\<lambda>n q. Some [of_int (glp_index q)]),
     ParseFromArray = (\<lambda>mem n. Some \<lparr>glp_layer = ''l'', glp_index = int (unat (hd mem)), glp_iscompressed = True,
       glp_segment_size = 3, glp_image_name_tag = ''i'', glp_total_segments = 2\<rparr>)\<rparr>"

definition sample_lib :: content_lib where
  "sample_lib = \<lparr>req_pb = sample_req_pb, resp_pb = sample_resp_pb,
     left_resp = \<lparr>glp_layer = [], glp_index = 0, glp_iscompressed = False, glp_segment_size = 0,
       glp_image_name_tag = [], glp_total_segments = 0\<rparr>,
     left_req = first_request [] []\<rparr>"

definition sample_files :: content_files where
  "sample_files = \<lparr>file_text = (\<lambda>_. Some ''2''), file_size = (\<lambda>_. 3), file2str = (\<lambda>_ n. (int n, [7, 8, 9, 0]))\<rparr>"

definition sample_content_server :: ContentServer where
  "sample_content_server = \<lparr>registry_path = ''r'', layer_is_compressed = True, cs_mem = sample_mem\<rparr>"

text \<open>Files as the sample server needs them: the number two, and segments of three bytes.\<close>

definition sample_registry :: "content_files \<Rightarrow> bool" where
  "sample_registry F \<longleftrightarrow> (\<forall>i < 2. \<exists>bs. length bs = 3 \<and> file_law F (index_path sample_content_server (seg_request 2 ''l'' ''i'' i)) bs
     \<and> get_int_from_file F (total_segments_path sample_content_server (seg_request 2 ''l'' ''i'' i)) = 2)"

lemma sample_files_registry: "sample_registry sample_files"
proof -
  have "get_int_from_file sample_files p = 2" for p
    by (simp add: get_int_from_file_def sample_files_def read_int_def is_space_def is_digit_def digits_value_def digit_value_def)
  moreover have "length [7, 8, 9 :: byte] = 3 \<and> file_law sample_files p [7, 8, 9]" for p
    by (simp add: file_law_def sample_files_def)
  ultimately show ?thesis unfolding sample_registry_def by blast
qed

lemma seg_content_law: "file_law files (index_path sv q) bs \<Longrightarrow> seg_content files sv q = bs"
  by (auto simp: file_law_def seg_content_def)

lemma sample_seg_ok:
  assumes reg: "sample_registry F" and "i < 2" and "bufpairs c = bufpairs sample_conn"
  shows "seg_ok sample_lib F sample_content_server c sample_conn (BlobPool_new 0 0 0) (seg_request 2 ''l'' ''i'' i)"
proof -
  let ?q = "seg_request 2 ''l'' ''i'' i"
  have i: "i = 0 \<or> i = 1" using assms(2) by auto
  obtain bs where bs: "length bs = 3" "file_law F (index_path sample_content_server ?q) bs"
    "get_int_from_file F (total_segments_path sample_content_server ?q) = 2"
    using reg assms(2) unfolding sample_registry_def by blast
  note bp = assms(3) [unfolded sample_bufpairs]
  have "sendable sample_lib c ?q"
    using i by (auto simp: sendable_def frame_fits_def pb_law_def sample_lib_def sample_req_pb_def req_frame_def
        rdma_frame_def kFrameHeaderLen_def bp)
  moreover have "file_size F (index_path sample_content_server ?q) = 3" using bs(1,2) by (simp add: file_law_def)
  then have "frame_fits (resp_pb sample_lib) (layer_response F sample_content_server ?q)"
    using i bs(3) by (auto simp: frame_fits_def pb_law_def sample_lib_def sample_resp_pb_def layer_response_def
        kFrameHeaderLen_def sample_content_server_def)
  moreover have "seg_content F sample_content_server ?q = bs" by (rule seg_content_law [OF bs(2)])
  ultimately show ?thesis using bs(1,2)
    by (auto simp: seg_ok_def answer_def response_bytes_def sample_bufpairs rdma_frame_def
        sample_lib_def sample_resp_pb_def BlobPool_new_def)
qed

lemma sample_layer_ok:
  assumes "sample_registry F" and "bufpairs c = bufpairs sample_conn"
  shows "layer_ok sample_lib F sample_content_server c sample_conn (BlobPool_new 0 0 0) ''l'' ''i'' 2"
proof -
  have "get_int_from_file F (total_segments_path sample_content_server (seg_request 2 ''l'' ''i'' 0)) = 2"
    using assms(1) unfolding sample_registry_def using zero_less_numeral by blast
  then show ?thesis using sample_seg_ok [OF assms(1) _ assms(2)] by (simp add: layer_ok_def first_request_seg [of _ _ 2])
qed

definition sample_content_system :: "ContentClient \<Rightarrow> RdmaConnection \<Rightarrow> content_system" where
  "sample_content_system cl c = \<lparr>sy_client = cl, sy_shared = \<lparr>fs_heap = \<lparr>bh_pool = BlobPool_new 0 0 0, bh_mem = \<lambda>_. []\<rparr>, fs_tasks = []\<rparr>,
     sy_conn = c, sy_sent = 0, to_server = [], sy_server = sample_content_server, sy_sconn = sample_conn,
     sy_answered = 0, to_client = [], fetched = [(''l'', ''i'')], sy_held = []\<rparr>"

lemma sample_content_init:
  assumes reg: "sample_registry F"
  obtains cl c where "content_init sample_lib F (sample_content_system cl c)"
    and "bufpairs c = bufpairs sample_conn"
proof -
  let ?reqs = "[first_request ''l'' ''i'']"
  have "first_request ''l'' ''i'' = seg_request 2 ''l'' ''i'' 0" by (rule first_request_seg)
  then have send: "\<forall>q \<in> set ?reqs. sendable sample_lib sample_conn q"
    using sample_seg_ok [OF reg, of 0 sample_conn] by (simp add: seg_ok_def)
  have sq: "sq sample_conn = []" by (simp add: sample_conn_def)
  have ne: "bufpairs sample_conn \<noteq> []" "?reqs \<noteq> []" by (simp_all add: sample_bufpairs)
  from onConnected_ok [OF sample_bufs sq ne send] obtain cl c where
    run: "ContentClient_onConnected sample_lib (\<lambda>_. 0) ((ContentClient_new sample_mem)\<lparr>unsend_reqs := ?reqs\<rparr>, sample_conn) = Inr (cl, c)"
    and bp: "bufpairs c = bufpairs sample_conn" by blast
  have "\<exists>M c0. ContentClient_onConnected sample_lib (\<lambda>_. 0) (foldl ContentClient_enqueueRequest (ContentClient_new M)
       (map (\<lambda>(l, img). first_request l img) [(''l'', ''i'')]), c0) = Inr (cl, c) \<and> bufs_ok c0 M [] \<and> sq c0 = []"
    using run sample_bufs sq by (intro exI [of _ sample_mem] exI [of _ sample_conn])
      (simp add: ContentClient_enqueueRequest_def ContentClient_new_def)
  moreover
  have "blobs_ok (BlobPool_new 0 0 0, [])" by (simp add: blobs_ok_def keys_ok_def blob_keys_def BlobPool_new_def)
  ultimately have "content_init sample_lib F (sample_content_system cl c)"
    unfolding content_init_def using bp sample_bufs sq sample_layer_ok [OF reg bp]
    by (auto simp: sample_content_system_def sample_content_server_def)
  with bp show ?thesis by (rule that [rotated])
qed

section \<open>Properties\<close>

text \<open>
  C3. Layers are fetched completely and in order: when each layer is fetched once for an image, its files are there and their
  messages fit, sends can be posted and the server has as many send buffers as the client, then, whatever the interleaving of the fetches, the two
  cards, the two event loops and the releases of blobs, the segments of a fetched layer that the content
  client has handed to the decompress client are its first segments, each once and in order; when no
  request is under way they are all of them. A segment that was not given back still has the bytes
  of its file in its blob.
\<close>

theorem layers_fetched_in_order:
  assumes "content_init lib files S0" and "(content_step lib files)\<^sup>*\<^sup>* S0 S" and "(l, img) \<in> set (fetched S)"
    and "layer_ok lib files (sy_server S) (sy_conn S) (sy_sconn S) (bh_pool (fs_heap (sy_shared S))) l img n"
  shows "(\<exists>k \<le> n. map segment_idx (filter (\<lambda>e. task_key e = (l, img)) (fs_tasks (sy_shared S))) = map int [0..<k]
      \<and> (cc_inflight_sends (sy_client S) = [] \<longrightarrow> k = n))
    \<and> (\<forall>e \<in> set (sy_held S). blob_bytes (fs_heap (sy_shared S)) (segment e) = task_content files (sy_server S) e)"
proof -
  from content_sys.reachable_inv [OF assms(1,2)] obtain R1 R2 R3 R4 where "stages lib files S R1 R2 R3 R4"
    by (auto simp: content_inv_def)
  with stages_order [OF this assms(3,4)] show ?thesis by (simp add: stages_def held_ok_def)
qed

text \<open>The witness: the first request of a layer of two segments is answered, and its segment handed over.\<close>

theorem layers_fetched_in_order_witness:
  "\<exists>S0 S k. content_init sample_lib sample_files S0 \<and> (content_step sample_lib sample_files)\<^sup>*\<^sup>* S0 S
     \<and> length (fs_tasks (sy_shared S)) = 1 \<and> k \<le> 2
     \<and> map segment_idx (filter (\<lambda>e. task_key e = (''l'', ''i'')) (fs_tasks (sy_shared S))) = map int [0..<k]"
proof -
  obtain cl c where init: "content_init sample_lib sample_files (sample_content_system cl c)"
    and bp: "bufpairs c = bufpairs sample_conn" by (rule sample_content_init [OF sample_files_registry])
  let ?S0 = "sample_content_system cl c"
  obtain R4 where st: "stages sample_lib sample_files ?S0 [] [] [] R4" "sy_sent ?S0 < length (posts (sy_conn ?S0))" by (rule init_sends [OF init])
  obtain S R1 R2 R3 R4' where S: "(content_step sample_lib sample_files)\<^sup>*\<^sup>* ?S0 S" "stages sample_lib sample_files S R1 R2 R3 R4'"
    "fetched S = fetched ?S0" "length (fs_tasks (sy_shared S)) = 1" "registry_path (sy_server S) = registry_path (sy_server ?S0)"
    by (rule first_answer [OF st]) (simp add: sample_content_system_def)
  have l: "(''l'', ''i'') \<in> set (fetched S)" by (simp add: S(3) sample_content_system_def)
  obtain n where n: "sy_layer_ok sample_lib sample_files S ''l'' ''i'' n" using S(2) l by (auto simp: stages_def books_def due_def)
  have "get_int_from_file sample_files p = 2" for p
    by (simp add: get_int_from_file_def sample_files_def read_int_def is_space_def is_digit_def digits_value_def digit_value_def)
  then have "n = 2" using n by (simp add: layer_ok_def)
  with layers_fetched_in_order [OF init S(1) l n] obtain k where "k \<le> 2"
    "map segment_idx (filter (\<lambda>e. task_key e = (''l'', ''i'')) (fs_tasks (sy_shared S))) = map int [0..<k]" by auto
  with init S(1,4) show ?thesis by blast
qed

text \<open>
  C4. The content server never overwrites an answer that is still to be sent, although it frees the
  send buffer right after posting it: when the server has at least as many send buffers as the client,
  every posted answer that the card has not read and every message in transit is the complete answer to
  a request, and neither the server nor the client faults on the next message it gets.
\<close>

theorem content_buffers_reused_safely:
  assumes "content_init lib files S0" and "(content_step lib files)\<^sup>*\<^sup>* S0 S"
  shows "(\<forall>j. sy_answered S \<le> j \<and> j < length (posts (sy_sconn S)) \<longrightarrow> (\<exists>q. req_key q \<in> set (fetched S)
        \<and> wire (cs_mem (sy_server S)) (posts (sy_sconn S) ! j) = answer lib files (sy_server S) q))
    \<and> (\<forall>m \<in> set (to_client S). \<exists>q. req_key q \<in> set (fetched S) \<and> m = answer lib files (sy_server S) q)
    \<and> (\<forall>m ms junk. to_server S = m # ms \<longrightarrow> (\<exists>r. ContentServer_onRecvSuccess lib files 0
        (sy_server S, sy_sconn S) (m @ junk) (of_nat (length m)) = Inr r))
    \<and> (\<forall>m ms junk. to_client S = m # ms \<longrightarrow> (\<exists>r. ContentClient_onRecvSuccess lib (\<lambda>_. 0)
        ((sy_client S, sy_shared S), sy_conn S) (m @ junk) (of_nat (length m)) = Inr r))"
proof -
  from content_sys.reachable_inv [OF assms] obtain R1 R2 R3 R4 where inv: "stages lib files S R1 R2 R3 R4"
    by (auto simp: content_inv_def)
  have "\<exists>r. ContentServer_onRecvSuccess lib files 0 (sy_server S, sy_sconn S) (m @ junk) (of_nat (length m)) = Inr r"
    if "to_server S = m # ms" for m ms junk using server_recv_stage [OF inv that, of junk] by blast
  moreover have "\<exists>r. ContentClient_onRecvSuccess lib (\<lambda>_. 0) ((sy_client S, sy_shared S), sy_conn S) (m @ junk)
      (of_nat (length m)) = Inr r"
    if "to_client S = m # ms" for m ms junk using client_recv_stage [OF inv that, of junk] by blast
  ultimately show ?thesis using stages_answers [OF inv] by blast
qed

text \<open>The witness: the card of the client sends the first request, and the server answers it.\<close>

theorem content_buffers_reused_safely_witness:
  "\<exists>(S :: content_system) m. to_server S = [m] \<and>
     (\<exists>r. ContentServer_onRecvSuccess sample_lib sample_files 0 (sy_server S, sy_sconn S) (m @ []) (of_nat (length m)) = Inr r)"
proof -
  obtain cl c where init: "content_init sample_lib sample_files (sample_content_system cl c)"
    and bp: "bufpairs c = bufpairs sample_conn" by (rule sample_content_init [OF sample_files_registry])
  let ?S = "sample_content_system cl c"
  from content_init_inv [OF init] obtain R1 R2 R3 R4 where st: "stages sample_lib sample_files ?S R1 R2 R3 R4"
    by (auto simp: content_inv_def)
  have "cc_inflight_sends cl \<noteq> []"
  proof
    assume "cc_inflight_sends cl = []"
    with stages_order [OF st, of "''l''" "''i''" 2] sample_layer_ok [OF sample_files_registry bp] show False
      by (simp add: sample_content_system_def)
  qed
  then have "sy_sent ?S < length (posts (sy_conn ?S))"
    using st by (auto simp: stages_def outstanding_def in_flight_def sample_content_system_def)
  define T where "T = ?S\<lparr>sy_sent := 1, to_server := [wire (cc_mem cl) (posts c ! 0)]\<rparr>"
  from Client_card [OF \<open>sy_sent ?S < _\<close>] have "content_step sample_lib sample_files ?S T"
    by (simp add: sample_content_system_def T_def)
  then have "(content_step sample_lib sample_files)\<^sup>*\<^sup>* ?S T" ..
  from content_buffers_reused_safely [OF init this]
  have "\<forall>m ms junk. to_server T = m # ms \<longrightarrow> (\<exists>r. ContentServer_onRecvSuccess sample_lib sample_files 0
        (sy_server T, sy_sconn T) (m @ junk) (of_nat (length m)) = Inr r)" by blast
  moreover have "to_server T = [wire (cc_mem cl) (posts c ! 0)]" by (simp add: T_def)
  ultimately show ?thesis by blast
qed

text \<open>
  C38. The sending loop of the content client ends: it sends requests in order until none is left or
  every send buffer is under way, and each request sent has a buffer of its own that holds its frame.
\<close>

theorem sending_loop_ends:
  assumes "outstanding lib cl c reqs" and "\<forall>q \<in> set (unsend_reqs cl). sendable lib c q" and "\<forall>w. err w = 0"
  shows "\<exists>cl' c' k. ContentClient_trySendRequests lib err (cl, c) = Inr (cl', c')
    \<and> outstanding lib cl' c' (reqs @ take k (unsend_reqs cl)) \<and> unsend_reqs cl' = drop k (unsend_reqs cl)
    \<and> k = min (length (unsend_reqs cl)) (length (bufpairs c) - length reqs)
    \<and> distinct (cc_inflight_sends cl')"
proof -
  obtain cl' c' k where o': "ContentClient_trySendRequests lib err (cl, c) = Inr (cl', c')"
    "outstanding lib cl' c' (reqs @ take k (unsend_reqs cl))" "unsend_reqs cl' = drop k (unsend_reqs cl)"
    "k = min (length (unsend_reqs cl)) (length (free_bufpairs c))"
    by (rule trySendRequests_ok [OF assms])
  moreover have "distinct (cc_inflight_sends cl')"
    using o'(2) in_flight_ids by (auto simp: outstanding_def)
  moreover have "length (free_bufpairs c) = length (bufpairs c) - length reqs"
    using outstanding_count [OF assms(1)] by simp
  ultimately show ?thesis by (intro exI [of _ cl'] exI [of _ c'] exI [of _ k]) simp
qed

theorem sending_loop_ends_witness:
  "\<exists>cl' c'. ContentClient_trySendRequests sample_lib (\<lambda>_. 0) ((ContentClient_new sample_mem)
     \<lparr>conn_set := True, unsend_reqs := map (seg_request 2 ''l'' ''i'') [0, 1, 1]\<rparr>, sample_conn) = Inr (cl', c')
     \<and> unsend_reqs cl' = [seg_request 2 ''l'' ''i'' 1]"
proof -
  let ?cl = "(ContentClient_new sample_mem)\<lparr>conn_set := True, unsend_reqs := map (seg_request 2 ''l'' ''i'') [0, 1, 1]\<rparr>"
  have "outstanding sample_lib ?cl sample_conn []"
    using sample_bufs by (simp add: outstanding_def in_flight_def ContentClient_new_def posts_def sample_conn_def)
  moreover have "\<forall>q \<in> set (unsend_reqs ?cl). sendable sample_lib sample_conn q"
    using sample_seg_ok [OF sample_files_registry, of 0 sample_conn] sample_seg_ok [OF sample_files_registry, of 1 sample_conn] by (simp add: seg_ok_def)
  ultimately show ?thesis
    using sending_loop_ends [of sample_lib ?cl sample_conn "[]" "\<lambda>_. 0"] by auto
qed

end
