(* ===== verification/Decompress_Client.thy ===== *)
theory Decompress_Client
  imports Content_Fetch Compress_Engine
begin

text \<open>
  The decompress client on the DPU: \<^verbatim>\<open>src/src/dpu/decompress_client_epoll.h\<close> and
  \<^verbatim>\<open>decompress_client_epoll.cc\<close>. It takes the segments from the fetcher, has the hardware decompress
  one at a time into memory of the host, and tells the host about each finished segment; segments
  that are not compressed travel inside the message. Time measurements, which are only logged, are
  left out, and so are the unused queue of DMA jobs and the empty callbacks.
\<close>

section \<open>State\<close>

datatype DecMsgType = kMmapInfo | kDecompressFinish

fun dec_type :: "DecMsgType \<Rightarrow> int" where
  "dec_type kMmapInfo = 0"
| "dec_type kDecompressFinish = 1"

record JobInfo =
  ji_image_name_tag :: string
  ji_layer :: string
  ji_bufpair_id :: int
  ji_total_segments :: int
  ji_segment_idx :: int

record RdmaInfo =
  ri_image_name_tag :: string
  ri_layer :: string
  ri_total_segments :: int
  ri_segment_idx :: int
  ri_dst_len :: nat
  ri_mmap_id :: int
  ri_data_inline :: bool
  ri_segment :: Blob

text \<open>\<open>dc_conn\<close> is the member \<open>conn_\<close>, \<open>dc_mem\<close> the memory of its send buffers.\<close>

record DecompressClient =
  dc_engine :: CompressEngine
  dc_heap :: blob_heap
  pending_compress_jobs :: "ContentElement list"
  pending_rdma_jobs :: "RdmaInfo list"
  dc_inflight_sends :: "nat list"
  decompress_busy :: bool
  dma_busy :: bool
  dc_connected :: bool
  dc_conn :: "RdmaConnection option"
  dc_wr_id :: nat
  dc_job_id :: nat
  compress_job :: JobInfo
  dc_mem :: send_mem

text \<open>
  The library for the four messages, and what the message objects hold when parsing fails; and the
  outcomes of the calls: posting the work request \<open>w\<close>, setting the data of the source buffer and
  submitting the job \<open>j\<close>, starting and importing the memory maps.
\<close>

record dec_lib =
  mmap_req_pb :: "MmapInfoRequest pb"
  mmap_resp_pb :: "MmapInfoResponse pb"
  fin_req_pb :: "DecompressFinishRequest pb"
  fin_resp_pb :: "DecompressFinishResponse pb"
  left_mmap_resp :: MmapInfoResponse
  left_fin_resp :: DecompressFinishResponse

record dec_env =
  post_err :: "nat \<Rightarrow> int"
  set_data_res :: "nat \<Rightarrow> doca_error"
  submit_res :: "nat \<Rightarrow> doca_error"
  src_mem_addr :: "nat \<Rightarrow> nat"
  src_map_outcomes :: "mmap_outcome list"
  import_outcomes :: "(mmap_outcome \<times> doca_error) list"

definition DecompressClient_new :: "CompressEngine \<Rightarrow> blob_heap \<Rightarrow> send_mem \<Rightarrow> DecompressClient" where
  "DecompressClient_new e h M = \<lparr>dc_engine = e, dc_heap = h, pending_compress_jobs = [], pending_rdma_jobs = [],
     dc_inflight_sends = [], decompress_busy = False, dma_busy = False, dc_connected = False, dc_conn = None,
     dc_wr_id = 0, dc_job_id = 0, compress_job = \<lparr>ji_image_name_tag = [], ji_layer = [], ji_bufpair_id = 0,
       ji_total_segments = 0, ji_segment_idx = 0\<rparr>, dc_mem = M\<rparr>"

section \<open>Jobs\<close>

text \<open>
  \<open>startDecompressJob\<close> moves the names out of the task before it can fail; \<open>tryStartDecompressJob\<close> then
  leaves the task in the queue without them, and the buffer pair taken.
\<close>

definition startDecompressJob ::
  "dec_env \<Rightarrow> DecompressClient \<Rightarrow> ContentElement \<Rightarrow> nat \<Rightarrow> (bool \<times> DecompressClient) res" where
  "startDecompressJob env d task i =
     (let d1 = d\<lparr>compress_job := \<lparr>ji_image_name_tag = image_name_tag task, ji_layer = layer task,
            ji_bufpair_id = sint (of_nat i :: 32 word), ji_total_segments = total_segments task,
            ji_segment_idx = segment_idx task\<rparr>\<rparr>;
          size = blob_size (segment task)
      in andThen (CompressEngine_get_bufpair (dc_engine d) i) (\<lambda>b.
        asserting (size \<le> length (src_mem b))
          (let b1 = b\<lparr>src_mem := overwrite (src_mem b) 0 (blob_bytes (dc_heap d) (segment task))\<rparr>;
               e1 = (dc_engine d)\<lparr>ce_bufpairs := (ce_bufpairs (dc_engine d))[i := b1]\<rparr>
           in if fst (DocaBuf_set_data_by_offset (src_doca_buf b1) 0 size (set_data_res env (dc_job_id d))) \<noteq> DOCA_SUCCESS
              then Inr (False, d1\<lparr>dc_engine := e1\<rparr>)
              else andThen (CompressEngine_start_job e1 (dc_job_id d) DOCA_DECOMPRESS_DEFLATE_JOB i
                  (submit_res env (dc_job_id d))) (\<lambda>e2.
                Inr (True, d1\<lparr>dc_engine := e2,
                  dc_heap := (dc_heap d)\<lparr>bh_pool := BlobPool_releaseBlob (bh_pool (dc_heap d)) (segment task)\<rparr>,
                  dc_job_id := inc64 (dc_job_id d), decompress_busy := True\<rparr>)))))"

definition tryStartDecompressJob :: "dec_env \<Rightarrow> DecompressClient \<Rightarrow> (bool \<times> DecompressClient) res" where
  "tryStartDecompressJob env d =
     asserting (dc_connected d \<and> \<not> decompress_busy d)
       (case pending_compress_jobs d of
          [] \<Rightarrow> Inr (True, d)
        | task # rest \<Rightarrow>
            (case CompressEngine_acquireFreeBufpair (dc_engine d) of
               (None, e) \<Rightarrow> Inr (True, d\<lparr>dc_engine := e\<rparr>)
             | (Some i, e) \<Rightarrow>
                 andThen (startDecompressJob env (d\<lparr>dc_engine := e\<rparr>) task i) (\<lambda>(ok, d1).
                   if ok then Inr (True, d1\<lparr>pending_compress_jobs := rest\<rparr>)
                   else Inr (False, d1\<lparr>pending_compress_jobs := task\<lparr>image_name_tag := [], layer := []\<rparr> # rest\<rparr>))))"

section \<open>Messages to the host\<close>

definition with_conn :: "DecompressClient \<Rightarrow> (RdmaConnection \<Rightarrow> 'a res) \<Rightarrow> 'a res" where
  "with_conn d k = (case dc_conn d of None \<Rightarrow> Inl Undefined_behaviour | Some c \<Rightarrow> k c)"

definition finish_request :: "RdmaInfo \<Rightarrow> DecompressFinishRequest" where
  "finish_request info =
     \<lparr>dfr_layer_name = ri_layer info, dfr_image_name_tag = ri_image_name_tag info,
      dfr_segment_size = sint (of_nat (ri_dst_len info) :: 32 word), dfr_segment_idx = ri_segment_idx info,
      dfr_total_segments = ri_total_segments info, dfr_bufpair_id = ri_mmap_id info,
      dfr_data_inline = ri_data_inline info\<rparr>"

text \<open>
  The segment is copied behind the frame without a test that it fits into the send buffer. A message
  that cannot be serialized stays recorded as under way.
\<close>

definition sendDecompressFinishRequest ::
  "dec_lib \<Rightarrow> dec_env \<Rightarrow> DecompressClient \<Rightarrow> RdmaInfo \<Rightarrow> SendBuf \<Rightarrow> DecompressClient res" where
  "sendDecompressFinishRequest lib env d info b =
     (let req = finish_request info; d1 = d\<lparr>dc_inflight_sends := dc_inflight_sends d @ [sb_id b]\<rparr> in
      andThen (store_typed_msg (fin_req_pb lib) (dc_mem d) b (dec_type kDecompressFinish) req) (\<lambda>(frame_len, M).
        if frame_len = - 1 then Inr (d1\<lparr>dc_mem := M\<rparr>)
        else with_conn d (\<lambda>c.
          let w = dc_wr_id d; off = nat frame_len + sizeof_MsgType in
          if dfr_data_inline req
          then
            let data = blob_bytes (dc_heap d) (ri_segment info) in
            defined_if (0 \<le> dfr_segment_size req \<and> length data = nat (dfr_segment_size req)
                \<and> off + length data \<le> length (M (sb_addr b)))
              (Inr (d1\<lparr>dc_mem := M(sb_addr b := overwrite (M (sb_addr b)) off data),
                 dc_conn := Some (RdmaConnection_send True c (sb_addr b, (off + length data) mod 2 ^ 32, w) (post_err env w)),
                 dc_wr_id := inc64 w,
                 dc_heap := (dc_heap d)\<lparr>bh_pool := BlobPool_releaseBlob (bh_pool (dc_heap d)) (ri_segment info)\<rparr>\<rparr>))
          else Inr (d1\<lparr>dc_mem := M,
                 dc_conn := Some (RdmaConnection_send True c (sb_addr b, off mod 2 ^ 32, w) (post_err env w)),
                 dc_wr_id := inc64 w\<rparr>))))"

text \<open>Sending when a buffer is free, else waiting: the two places that hand over a finished segment.\<close>

definition send_or_wait :: "dec_lib \<Rightarrow> dec_env \<Rightarrow> DecompressClient \<Rightarrow> RdmaInfo \<Rightarrow> DecompressClient res" where
  "send_or_wait lib env d info =
     with_conn d (\<lambda>c. andThen (RdmaConnection_acquireFreeSendBuf c) (\<lambda>(free_buf, c1).
       case free_buf of
         Some b \<Rightarrow> sendDecompressFinishRequest lib env (d\<lparr>dc_conn := Some c1\<rparr>) info b
       | None \<Rightarrow> Inr (d\<lparr>dc_conn := Some c1, pending_rdma_jobs := pending_rdma_jobs d @ [info]\<rparr>)))"

definition job_report :: "JobInfo \<Rightarrow> nat \<Rightarrow> RdmaInfo" where
  "job_report j dst_len = \<lparr>ri_image_name_tag = ji_image_name_tag j, ri_layer = ji_layer j,
     ri_total_segments = ji_total_segments j, ri_segment_idx = ji_segment_idx j, ri_dst_len = dst_len,
     ri_mmap_id = ji_bufpair_id j, ri_data_inline = False, ri_segment = Blob_empty\<rparr>"

definition onDecompressTaskSuccess :: "dec_lib \<Rightarrow> dec_env \<Rightarrow> DecompressClient \<Rightarrow> nat \<Rightarrow> DecompressClient res" where
  "onDecompressTaskSuccess lib env d dst_len =
     andThen (send_or_wait lib env d (job_report (compress_job d) dst_len)) (\<lambda>d1.
       andThen (tryStartDecompressJob env (d1\<lparr>decompress_busy := False\<rparr>)) (\<lambda>(ok, d2). Inr d2))"

text \<open>The functor of \<open>submitDecompressTask\<close>.\<close>

definition submitDecompressTask :: "dec_lib \<Rightarrow> dec_env \<Rightarrow> DecompressClient \<Rightarrow> ContentElement \<Rightarrow> DecompressClient res" where
  "submitDecompressTask lib env d cont =
     (if is_compressed cont
      then
        let d1 = d\<lparr>pending_compress_jobs := pending_compress_jobs d @ [cont]\<rparr> in
        if dc_connected d1 \<and> \<not> decompress_busy d1
        then andThen (tryStartDecompressJob env d1) (\<lambda>(ok, d2). Inr d2)
        else Inr d1
      else send_or_wait lib env d
        \<lparr>ri_image_name_tag = image_name_tag cont, ri_layer = layer cont, ri_total_segments = total_segments cont,
         ri_segment_idx = segment_idx cont, ri_dst_len = blob_size (segment cont), ri_mmap_id = 0,
         ri_data_inline = True, ri_segment = segment cont\<rparr>)"

section \<open>Messages from the host\<close>

text \<open>An answer frees a send buffer, which goes to the first segment that waits.\<close>

definition send_pending :: "dec_lib \<Rightarrow> dec_env \<Rightarrow> DecompressClient \<Rightarrow> DecompressClient res" where
  "send_pending lib env d =
     (case pending_rdma_jobs d of
        [] \<Rightarrow> Inr d
      | info # rest \<Rightarrow>
          with_conn d (\<lambda>c. andThen (RdmaConnection_acquireFreeSendBuf c) (\<lambda>(free_buf, c1).
            case free_buf of
              None \<Rightarrow> Inl Undefined_behaviour
            | Some b \<Rightarrow> sendDecompressFinishRequest lib env
                (d\<lparr>dc_conn := Some c1, pending_rdma_jobs := rest\<rparr>) info b)))"

definition handleDecompressFinishResponse ::
  "dec_lib \<Rightarrow> dec_env \<Rightarrow> DecompressClient \<Rightarrow> DecompressFinishResponse \<Rightarrow> (bool \<times> DecompressClient) res" where
  "handleDecompressFinishResponse lib env d resp =
     andThen (send_pending lib env d) (\<lambda>d1.
       if \<not> dfp_data_inline resp
       then andThen (CompressEngine_releaseFreeBufpair (dc_engine d1) (size_of_int (dfp_bufpair_id resp))) (\<lambda>e.
         let d2 = d1\<lparr>dc_engine := e\<rparr> in
         if \<not> decompress_busy d2 then tryStartDecompressJob env d2 else Inr (True, d2))
       else Inr (True, d1\<lparr>dma_busy := False\<rparr>))"

definition remote_desc :: "MmapInfoElement \<Rightarrow> ExportDescRemote" where
  "remote_desc m = \<lparr>remote_export_desc = mie_export_desc m, remote_addr = mie_addr m, remote_length = mie_len m\<rparr>"

definition handleMmapInfoResponse ::
  "dec_env \<Rightarrow> DecompressClient \<Rightarrow> MmapInfoResponse \<Rightarrow> (bool \<times> DecompressClient) res" where
  "handleMmapInfoResponse env d resp =
     (case CompressEngine_src_mmaps_start (src_mem_addr env) False (src_map_outcomes env) (dc_engine d) of
        (r1, e1) \<Rightarrow>
          if r1 \<noteq> DOCA_SUCCESS then Inr (False, d\<lparr>dc_engine := e1\<rparr>)
          else andThen (CompressEngine_dst_mmaps_create_from_export
              (zip (map remote_desc (mir_mmaps resp)) (import_outcomes env)) e1) (\<lambda>(r2, e2).
            if r2 \<noteq> DOCA_SUCCESS then Inr (False, d\<lparr>dc_engine := e2\<rparr>)
            else tryStartDecompressJob env (d\<lparr>dc_engine := e2, dc_connected := True\<rparr>)))"

definition DecompressClient_onConnected ::
  "dec_lib \<Rightarrow> dec_env \<Rightarrow> DecompressClient \<Rightarrow> RdmaConnection \<Rightarrow> DecompressClient res" where
  "DecompressClient_onConnected lib env d c =
     andThen (RdmaConnection_acquireFreeSendBuf c) (\<lambda>(free_buf, c1).
       case free_buf of
         None \<Rightarrow> Inl Undefined_behaviour
       | Some b \<Rightarrow>
           let d1 = d\<lparr>dc_conn := Some c1, dc_inflight_sends := dc_inflight_sends d @ [sb_id b]\<rparr>;
               w = dc_wr_id d
           in andThen (store_typed_msg (mmap_req_pb lib) (dc_mem d) b (dec_type kMmapInfo)
                \<lparr>mmap_num = sint (of_nat (length (ce_bufpairs (dc_engine d))) :: 32 word)\<rparr>) (\<lambda>(frame_len, M).
             if frame_len = - 1 then Inr (d1\<lparr>dc_mem := M\<rparr>)
             else Inr (d1\<lparr>dc_mem := M, dc_wr_id := inc64 w,
               dc_conn := Some (RdmaConnection_send True c1
                 (sb_addr b, (nat frame_len + sizeof_MsgType) mod 2 ^ 32, w) (post_err env w))\<rparr>)))"

text \<open>The outcome of a handler is logged only.\<close>

definition DecompressClient_onRecvSuccess ::
  "dec_lib \<Rightarrow> dec_env \<Rightarrow> DecompressClient \<Rightarrow> byte list \<Rightarrow> 32 word \<Rightarrow> DecompressClient res" where
  "DecompressClient_onRecvSuccess lib env d recv_buf recv_len =
     (if recv_len < 4 then Inr d
      else with_conn d (\<lambda>c.
        case dc_inflight_sends d of
          [] \<Rightarrow> Inl Undefined_behaviour
        | i # others \<Rightarrow>
            let d1 = d\<lparr>dc_conn := Some (RdmaConnection_releaseSendBuf c i), dc_inflight_sends := others\<rparr>;
                type = recv_type recv_buf
            in if type = dec_type kMmapInfo
               then andThen (parse_typed_msg (mmap_resp_pb lib) (left_mmap_resp lib) recv_buf recv_len) (\<lambda>(parsed, resp).
                 if parsed = 0 then Inr d1
                 else andThen (handleMmapInfoResponse env d1 resp) (\<lambda>(ok, d2). Inr d2))
               else if type = dec_type kDecompressFinish
               then andThen (parse_typed_msg (fin_resp_pb lib) (left_fin_resp lib) recv_buf recv_len) (\<lambda>(parsed, resp).
                 if parsed = 0 then Inr d1
                 else andThen (handleDecompressFinishResponse lib env d1 resp) (\<lambda>(ok, d2). Inr d2))
               else Inr d1))"

section \<open>The callbacks\<close>

text \<open>
  As the connection and the engine call them; both belong to the client, so the callback works on
  the client with the connection or the engine put back.
\<close>

definition DecompressClient_callbacks ::
  "dec_lib \<Rightarrow> dec_env \<Rightarrow> (nat \<Rightarrow> byte list) \<Rightarrow> DecompressClient rdma_user" where
  "DecompressClient_callbacks lib env mem call = (\<lambda>(d, c).
     andThen (case call of
         Connected \<Rightarrow> DecompressClient_onConnected lib env d c
       | Recv_success addr len wc \<Rightarrow>
           DecompressClient_onRecvSuccess lib env (d\<lparr>dc_conn := Some c\<rparr>) (mem addr) (of_nat len)
       | _ \<Rightarrow> Inr (d\<lparr>dc_conn := Some c\<rparr>))
     (\<lambda>d1. case dc_conn d1 of None \<Rightarrow> Inl Undefined_behaviour | Some c1 \<Rightarrow> Inr (d1, c1)))"

definition DecompressClient_engine_callbacks :: "dec_lib \<Rightarrow> dec_env \<Rightarrow> DecompressClient compress_user" where
  "DecompressClient_engine_callbacks lib env call = (\<lambda>(d, e).
     case call of
       Compress_success jid i src_len dst_len \<Rightarrow>
         andThen (onDecompressTaskSuccess lib env (d\<lparr>dc_engine := e\<rparr>) dst_len) (\<lambda>d1. Inr (d1, dc_engine d1))
     | Compress_error err \<Rightarrow> Inr (d\<lparr>dc_engine := e\<rparr>, e))"

end
