(* ===== verification/Decompress_Order.thy ===== *)
theory Decompress_Order
  imports Decompress_Client
begin

text \<open>
  The decompress client with its hardware, its network card and a host that answers its messages.
  The lemmas show that compressed segments come out in the order they went in: the messages to the
  host, the finished segments that wait for a send buffer, the running job and the queue together are
  always the sequence of the segments submitted. They also show that a buffer pair belongs to one
  segment from the start of its job to the answer of the host, and that nothing faults.
\<close>

section \<open>Messages and keys\<close>

datatype dec_msg = Mmap_msg MmapInfoRequest | Fin_msg DecompressFinishRequest

fun dec_frame :: "dec_lib \<Rightarrow> dec_msg \<Rightarrow> byte list" where
  "dec_frame lib (Mmap_msg r) = typed_frame (mmap_req_pb lib) (dec_type kMmapInfo) r"
| "dec_frame lib (Fin_msg r) = typed_frame (fin_req_pb lib) (dec_type kDecompressFinish) r"

text \<open>The key of a segment: image, layer, number of segments and index.\<close>

type_synonym seg_key = "string \<times> string \<times> int \<times> int"

definition ce_key :: "ContentElement \<Rightarrow> seg_key" where
  "ce_key e = (image_name_tag e, layer e, total_segments e, segment_idx e)"

definition ji_key :: "JobInfo \<Rightarrow> seg_key" where
  "ji_key j = (ji_image_name_tag j, ji_layer j, ji_total_segments j, ji_segment_idx j)"

definition ri_key :: "RdmaInfo \<Rightarrow> seg_key" where
  "ri_key r = (ri_image_name_tag r, ri_layer r, ri_total_segments r, ri_segment_idx r)"

definition fr_key :: "DecompressFinishRequest \<Rightarrow> seg_key" where
  "fr_key r = (dfr_image_name_tag r, dfr_layer_name r, dfr_total_segments r, dfr_segment_idx r)"

lemma fr_key_finish [simp]: "fr_key (finish_request info) = ri_key info"
  by (simp add: fr_key_def finish_request_def ri_key_def)

text \<open>What is still to come, in order: segments that wait for a send buffer, the running job, the queue.\<close>

definition running_job :: "DecompressClient \<Rightarrow> JobInfo list" where
  "running_job d = (if decompress_busy d then [compress_job d] else [])"

definition to_come :: "DecompressClient \<Rightarrow> seg_key list" where
  "to_come d = map ri_key (pending_rdma_jobs d) @ map ji_key (running_job d) @ map ce_key (pending_compress_jobs d)"

lemma segment_size_range:
  "- (2 ^ 31) \<le> dfr_segment_size (finish_request info)" "dfr_segment_size (finish_request info) < 2 ^ 31"
  using sint_ge [of "of_nat (ri_dst_len info) :: 32 word"] sint_lt [of "of_nat (ri_dst_len info) :: 32 word"]
  by (simp_all add: finish_request_def)

text \<open>A key whose message fits into the send buffers, whatever the length and the pair (one of \<open>n\<close>).\<close>

definition fin_fits :: "dec_lib \<Rightarrow> RdmaConnection \<Rightarrow> nat \<Rightarrow> seg_key \<Rightarrow> bool" where
  "fin_fits lib c n k \<longleftrightarrow> (\<forall>r. fr_key r = k \<and> \<not> dfr_data_inline r \<and> 0 \<le> dfr_bufpair_id r \<and> dfr_bufpair_id r < int n
       \<and> - (2 ^ 31) \<le> dfr_segment_size r \<and> dfr_segment_size r < 2 ^ 31
     \<longrightarrow> frame_fits (fin_req_pb lib) r
       \<and> (\<forall>b \<in> set (bufpairs c). length (typed_frame (fin_req_pb lib) (dec_type kDecompressFinish) r) \<le> send_cap b))"

section \<open>Starting jobs\<close>

text \<open>The calls to the hardware that the theorems are about succeed.\<close>

definition env_ok :: "dec_env \<Rightarrow> bool" where
  "env_ok env \<longleftrightarrow> (\<forall>w. post_err env w = 0) \<and> (\<forall>j. set_data_res env j = DOCA_SUCCESS) \<and> (\<forall>j. submit_res env j = DOCA_SUCCESS)"

text \<open>The source buffers are mapped; a task fits into one.\<close>

definition maps_ready :: "CompressEngine \<Rightarrow> nat \<Rightarrow> bool" where
  "maps_ready e sz \<longleftrightarrow> (\<forall>b \<in> set (ce_bufpairs e). length (src_mem b) = sz \<and> db_capacity (src_doca_buf b) = sz) \<and> sz < 2 ^ 64"

definition src_sized :: "CompressEngine \<Rightarrow> nat \<Rightarrow> bool" where
  "src_sized e sz \<longleftrightarrow> (\<forall>b \<in> set (ce_bufpairs e). length (src_mem b) = sz) \<and> sz < 2 ^ 64"

definition task_fits :: "(seg_key \<Rightarrow> byte list) \<Rightarrow> nat \<Rightarrow> blob_heap \<Rightarrow> ContentElement \<Rightarrow> bool" where
  "task_fits cont sz h e \<longleftrightarrow> blob_bytes h (segment e) = cont (ce_key e)
     \<and> length (cont (ce_key e)) = blob_size (segment e) \<and> blob_size (segment e) \<le> sz"

text \<open>
  The engine: the pairs in use (\<open>held\<close> and that of the running job), the job in the hardware queue,
  and its data; \<open>cont\<close> gives the bytes of a segment.
\<close>

definition engine_ok :: "(seg_key \<Rightarrow> byte list) \<Rightarrow> nat \<Rightarrow> DecompressClient \<Rightarrow> nat list \<Rightarrow> bool" where
  "engine_ok cont sz d held \<longleftrightarrow>
     pairs_ok (dc_engine d) (held @ map (nat \<circ> ji_bufpair_id) (running_job d))
     \<and> engine_busy (dc_engine d) = decompress_busy d
     \<and> (if decompress_busy d
        then dc_connected d \<and> length (workq (dc_engine d)) = 1
          \<and> int (ongoing_bufpair_id (dc_engine d)) = ji_bufpair_id (compress_job d)
          \<and> ongoing_bufpair_id (dc_engine d) < length (ce_bufpairs (dc_engine d))
          \<and> take (length (cont (ji_key (compress_job d)))) (src_mem (ce_bufpairs (dc_engine d) ! ongoing_bufpair_id (dc_engine d)))
              = cont (ji_key (compress_job d))
        else workq (dc_engine d) = [])
     \<and> (if dc_connected d then maps_ready (dc_engine d) sz else src_sized (dc_engine d) sz)
     \<and> (\<forall>t \<in> set (pending_compress_jobs d). task_fits cont sz (dc_heap d) t)"

text \<open>No job waits while the engine could run it.\<close>

definition work_conserving :: "DecompressClient \<Rightarrow> bool" where
  "work_conserving d \<longleftrightarrow> dc_connected d \<longrightarrow> decompress_busy d \<or> pending_compress_jobs d = [] \<or> ce_free_bufpairs (dc_engine d) = []"

lemma set_data_ok:
  "n \<le> db_capacity b \<Longrightarrow> n < 2 ^ 64 \<Longrightarrow> fst (DocaBuf_set_data_by_offset b 0 n DOCA_SUCCESS) = DOCA_SUCCESS"
  by (simp add: DocaBuf_set_data_by_offset_def size_add_def)

lemma startDecompressJob_ok:
  assumes env: "env_ok env" and idle: "\<not> engine_busy (dc_engine d)" "workq (dc_engine d) = []"
    and i: "i < length (ce_bufpairs (dc_engine d))" "length (ce_bufpairs (dc_engine d)) < 2 ^ 31"
    and maps: "maps_ready (dc_engine d) sz" and fits: "task_fits cont sz (dc_heap d) task"
  obtains d' where "startDecompressJob env d task i = Inr (True, d')" and "decompress_busy d'"
    and "ji_key (compress_job d') = ce_key task" and "ji_bufpair_id (compress_job d') = int i"
    and "engine_busy (dc_engine d')" and "length (workq (dc_engine d')) = 1" and "ongoing_bufpair_id (dc_engine d') = i"
    and "ce_free_bufpairs (dc_engine d') = ce_free_bufpairs (dc_engine d)"
    and "length (ce_bufpairs (dc_engine d')) = length (ce_bufpairs (dc_engine d))" and "maps_ready (dc_engine d') sz"
    and "take (length (cont (ce_key task))) (src_mem (ce_bufpairs (dc_engine d') ! i)) = cont (ce_key task)"
    and "d' = d\<lparr>compress_job := compress_job d', dc_engine := dc_engine d', dc_heap := dc_heap d',
      dc_job_id := dc_job_id d', decompress_busy := True\<rparr>" and "bh_mem (dc_heap d') = bh_mem (dc_heap d)"
proof -
  let ?e = "dc_engine d" and ?bs = "blob_bytes (dc_heap d) (segment task)"
  let ?b = "ce_bufpairs ?e ! i"
  let ?b1 = "?b\<lparr>src_mem := overwrite (src_mem ?b) 0 ?bs\<rparr>"
  let ?e1 = "?e\<lparr>ce_bufpairs := (ce_bufpairs ?e)[i := ?b1]\<rparr>"
  have b: "length (src_mem ?b) = sz" "db_capacity (src_doca_buf ?b) = sz" "sz < 2 ^ 64"
    using maps i(1) by (simp_all add: maps_ready_def)
  have sz: "length ?bs = blob_size (segment task)" "length ?bs \<le> sz" using fits by (simp_all add: task_fits_def)
  have len: "length (src_mem ?b1) = sz" using b sz by simp
  have set: "fst (DocaBuf_set_data_by_offset (src_doca_buf ?b1) 0 (blob_size (segment task)) (set_data_res env (dc_job_id d))) = DOCA_SUCCESS"
    using env b sz set_data_ok [of "blob_size (segment task)" "src_doca_buf ?b"] by (simp add: env_ok_def)
  have id: "sint (of_nat i :: 32 word) = int i" using i by (intro sint_of_nat_small) simp
  obtain e2 where e2: "CompressEngine_start_job ?e1 (dc_job_id d) DOCA_DECOMPRESS_DEFLATE_JOB i (submit_res env (dc_job_id d)) = Inr e2"
    "ce_bufpairs e2 = (ce_bufpairs ?e)[i := ?b1]" "ce_free_bufpairs e2 = ce_free_bufpairs ?e" "engine_busy e2"
    "length (workq e2) = 1" "ongoing_bufpair_id e2 = i"
    using env idle i(1) by (auto simp: CompressEngine_start_job_def CompressEngine_get_bufpair_def Let_def env_ok_def)
  have maps2: "maps_ready e2 sz"
    unfolding maps_ready_def
  proof (intro conjI ballI)
    fix x assume "x \<in> set (ce_bufpairs e2)"
    then have "x = ?b1 \<or> x \<in> set (ce_bufpairs ?e)" using e2(2) set_update_subset_insert by fastforce
    then show "length (src_mem x) = sz" "db_capacity (src_doca_buf x) = sz"
      using len b maps by (auto simp: maps_ready_def)
  qed (use b in simp)
  have data: "take (length (cont (ce_key task))) (src_mem (ce_bufpairs e2 ! i)) = cont (ce_key task)"
    using e2(2) i(1) sz b fits by (simp add: overwrite_def task_fits_def)
  show ?thesis
    by (rule that [of "d\<lparr>compress_job := \<lparr>ji_image_name_tag = image_name_tag task, ji_layer = layer task,
        ji_bufpair_id = sint (of_nat i :: 32 word), ji_total_segments = total_segments task,
        ji_segment_idx = segment_idx task\<rparr>, dc_engine := e2,
        dc_heap := (dc_heap d)\<lparr>bh_pool := BlobPool_releaseBlob (bh_pool (dc_heap d)) (segment task)\<rparr>,
        dc_job_id := inc64 (dc_job_id d), decompress_busy := True\<rparr>"])
       (use e2 set i sz b maps2 data id in \<open>simp_all add: startDecompressJob_def CompressEngine_get_bufpair_def ji_key_def ce_key_def Let_def\<close>)
qed

lemma task_fits_mem: "bh_mem h' = bh_mem h \<Longrightarrow> task_fits cont sz h' e = task_fits cont sz h e"
  by (simp add: task_fits_def blob_bytes_def split: option.split)

lemma engine_ok_perm: "mset held = mset held' \<Longrightarrow> engine_ok cont sz d held \<Longrightarrow> engine_ok cont sz d held'"
  by (auto simp: engine_ok_def pairs_ok_def pool_split_def)

text \<open>The part of the state that starting a job leaves alone.\<close>

definition same_link :: "DecompressClient \<Rightarrow> DecompressClient \<Rightarrow> bool" where
  "same_link d d' \<longleftrightarrow> dc_conn d' = dc_conn d \<and> dc_mem d' = dc_mem d \<and> dc_inflight_sends d' = dc_inflight_sends d
     \<and> pending_rdma_jobs d' = pending_rdma_jobs d \<and> dc_connected d' = dc_connected d
     \<and> length (ce_bufpairs (dc_engine d')) = length (ce_bufpairs (dc_engine d))"

lemma tryStart_ok:
  assumes env: "env_ok env" and d: "dc_connected d" "\<not> decompress_busy d" and eng: "engine_ok cont sz d held"
  obtains d' where "tryStartDecompressJob env d = Inr (True, d')" and "engine_ok cont sz d' held"
    and "work_conserving d'" and "to_come d' = to_come d" and "same_link d d'"
proof (cases "pending_compress_jobs d")
  case Nil
  with d eng show ?thesis
    by (intro that [of d]) (simp_all add: tryStartDecompressJob_def work_conserving_def same_link_def)
next
  case (Cons task rest)
  have pairs: "pairs_ok (dc_engine d) held" and idle: "\<not> engine_busy (dc_engine d)" "workq (dc_engine d) = []"
    and maps: "maps_ready (dc_engine d) sz" and fit: "task_fits cont sz (dc_heap d) task"
    and fits: "\<forall>t \<in> set rest. task_fits cont sz (dc_heap d) t"
    using eng d Cons by (simp_all add: engine_ok_def running_job_def)
  note acq = CompressEngine_acquire_ok [OF pairs]
  show ?thesis
  proof (cases "length held = length (ce_bufpairs (dc_engine d))")
    case True
    then have "ce_free_bufpairs (dc_engine d) = []"
      using pairs pool_split_length by (fastforce simp: pairs_ok_def free_pairs_def)
    with True acq d Cons eng show ?thesis
      by (intro that [of d]) (simp_all add: tryStartDecompressJob_def work_conserving_def same_link_def)
  next
    case False
    with acq obtain i e where e: "CompressEngine_acquireFreeBufpair (dc_engine d) = (Some i, e)"
      "e = (dc_engine d)\<lparr>ce_free_bufpairs := ce_free_bufpairs e\<rparr>" "i < length (ce_bufpairs (dc_engine d))"
      "pairs_ok e (held @ [i])" by auto
    let ?d = "d\<lparr>dc_engine := e\<rparr>"
    have e': "engine_busy e = engine_busy (dc_engine d)" "workq e = workq (dc_engine d)" "ce_bufpairs e = ce_bufpairs (dc_engine d)"
      by (subst e(2), simp)+
    have len: "length (ce_bufpairs e) < 2 ^ 31" using pairs e'(3) by (simp add: pairs_ok_def)
    obtain d1 where d1: "startDecompressJob env ?d task i = Inr (True, d1)" "decompress_busy d1"
      "ji_key (compress_job d1) = ce_key task" "ji_bufpair_id (compress_job d1) = int i"
      "engine_busy (dc_engine d1)" "length (workq (dc_engine d1)) = 1" "ongoing_bufpair_id (dc_engine d1) = i"
      "ce_free_bufpairs (dc_engine d1) = ce_free_bufpairs e"
      "length (ce_bufpairs (dc_engine d1)) = length (ce_bufpairs e)" "maps_ready (dc_engine d1) sz"
      "take (length (cont (ce_key task))) (src_mem (ce_bufpairs (dc_engine d1) ! i)) = cont (ce_key task)"
      "d1 = ?d\<lparr>compress_job := compress_job d1, dc_engine := dc_engine d1, dc_heap := dc_heap d1,
        dc_job_id := dc_job_id d1, decompress_busy := True\<rparr>" "bh_mem (dc_heap d1) = bh_mem (dc_heap d)"
      by (rule startDecompressJob_ok [OF env, of ?d i sz cont task])
         (use idle e e' len maps fit in \<open>simp_all add: maps_ready_def\<close>)
    let ?d' = "d1\<lparr>pending_compress_jobs := rest\<rparr>"
    have f: "dc_conn d1 = dc_conn d" "dc_mem d1 = dc_mem d" "dc_inflight_sends d1 = dc_inflight_sends d"
      "pending_rdma_jobs d1 = pending_rdma_jobs d" "dc_connected d1 = dc_connected d"
      by (subst d1(12), simp)+
    have "pairs_ok (dc_engine d1) (held @ [i])" using e(4) d1(8,9) by (simp add: pairs_ok_def free_pairs_def)
    then have "engine_ok cont sz ?d' held"
      using d1 fits d(1) f e(3) e'(3) task_fits_mem [OF d1(13)]
      by (simp add: engine_ok_def running_job_def)
    moreover have "tryStartDecompressJob env d = Inr (True, ?d')"
      using d Cons e(1) d1(1) by (simp add: tryStartDecompressJob_def)
    moreover have "to_come ?d' = to_come d" using Cons d d1(2,3) f by (simp add: to_come_def running_job_def)
    moreover have "same_link d ?d'" using f d1(9) e'(3) by (simp add: same_link_def)
    ultimately show ?thesis using that d1(2) by (simp add: work_conserving_def)
  qed
qed

section \<open>Sending\<close>

text \<open>The link to the host: the messages \<open>ms\<close> are not answered; \<open>ks\<close> are keys that may still be sent.\<close>

definition link_ok :: "dec_lib \<Rightarrow> DecompressClient \<Rightarrow> dec_msg list \<Rightarrow> nat \<Rightarrow> seg_key set \<Rightarrow> bool" where
  "link_ok lib d ms n ks \<longleftrightarrow> (\<exists>c. dc_conn d = Some c
     \<and> in_flight (dec_frame lib) c (dc_mem d) (dc_inflight_sends d) ms \<and> length (posts c) = n
     \<and> bufpairs c \<noteq> [] \<and> (\<forall>k \<in> ks. fin_fits lib c (length (ce_bufpairs (dc_engine d))) k))"

definition info_ok :: "nat \<Rightarrow> RdmaInfo \<Rightarrow> bool" where
  "info_ok n info \<longleftrightarrow> \<not> ri_data_inline info \<and> 0 \<le> ri_mmap_id info \<and> ri_mmap_id info < int n"

definition link_only :: "DecompressClient \<Rightarrow> DecompressClient \<Rightarrow> bool" where
  "link_only d d' \<longleftrightarrow> dc_engine d' = dc_engine d \<and> dc_heap d' = dc_heap d \<and> pending_compress_jobs d' = pending_compress_jobs d
     \<and> decompress_busy d' = decompress_busy d \<and> compress_job d' = compress_job d \<and> dc_connected d' = dc_connected d"

lemma send_finish_ok:
  assumes env: "env_ok env" and c: "dc_conn d = Some c"
    and fl: "in_flight (dec_frame lib) c (dc_mem d) (dc_inflight_sends d) ms"
    and free: "free_bufpairs c = i # r" and info: "info_ok n info" and fits: "fin_fits lib c n (ri_key info)"
    and b: "b = \<lparr>sb_id = i, sb_addr = send_header (bufpairs c ! i), sb_cap = send_cap (bufpairs c ! i)\<rparr>"
  obtains d' c' where "sendDecompressFinishRequest lib env (d\<lparr>dc_conn := Some (c\<lparr>free_bufpairs := r\<rparr>)\<rparr>) info b = Inr d'"
    and "dc_conn d' = Some c'" and "in_flight (dec_frame lib) c' (dc_mem d') (dc_inflight_sends d') (ms @ [Fin_msg (finish_request info)])"
    and "length (posts c') = Suc (length (posts c))" and "bufpairs c' = bufpairs c"
    and "link_only d d'" and "pending_rdma_jobs d' = pending_rdma_jobs d"
proof -
  let ?req = "finish_request info" and ?h = "send_header (bufpairs c ! i)"
  let ?f = "typed_frame (fin_req_pb lib) (dec_type kDecompressFinish) ?req" and ?w = "dc_wr_id d"
  let ?bs = "?f @ drop (length ?f) (dc_mem d ?h)"
  have ok: "bufs_ok c (dc_mem d) (dc_inflight_sends d)" using fl by (simp add: in_flight_def)
  note a = acquire_first [OF ok free]
  have f: "frame_fits (fin_req_pb lib) ?req" "length ?f \<le> send_cap (bufpairs c ! i)"
    using fits info a(3) segment_size_range [of info] by (simp_all add: fin_fits_def info_ok_def finish_request_def ri_key_def fr_key_def)
  have len: "length ?f = length (rdma_frame (fin_req_pb lib) ?req) + sizeof_MsgType"
    by (simp add: typed_frame_def sizeof_MsgType_def)
  have store: "store_typed_msg (fin_req_pb lib) (dc_mem d) b (dec_type kDecompressFinish) ?req
      = Inr (int (length (rdma_frame (fin_req_pb lib) ?req)), (dc_mem d)(?h := ?bs))"
    using store_typed_msg_ok [OF f(1), of "dc_mem d" b "dec_type kDecompressFinish"] a(4,5) f(2) by (simp add: b)
  have mod32: "length ?f mod 2 ^ 32 = length ?f" using f(2) a(5) by simp
  define c' where "c' = RdmaConnection_send True (c\<lparr>free_bufpairs := r\<rparr>) (?h, length (dec_frame lib (Fin_msg ?req)), ?w) 0"
  have bs: "length ?bs = length (dc_mem d ?h)" "take (length (dec_frame lib (Fin_msg ?req))) ?bs = dec_frame lib (Fin_msg ?req)"
    using a(4) f(2) by simp_all
  note post = in_flight_post [OF fl free bs c'_def]
  define d' where "d' = d\<lparr>dc_conn := Some c', dc_mem := (dc_mem d)(?h := ?bs), dc_wr_id := inc64 ?w,
    dc_inflight_sends := dc_inflight_sends d @ [i]\<rparr>"
  have "dfr_data_inline ?req = False" using info by (simp add: info_ok_def finish_request_def)
  then have "sendDecompressFinishRequest lib env (d\<lparr>dc_conn := Some (c\<lparr>free_bufpairs := r\<rparr>)\<rparr>) info b = Inr d'"
    using store env mod32 len
    by (simp add: sendDecompressFinishRequest_def Let_def with_conn_def d'_def c'_def env_ok_def b)
  then show ?thesis using post by (intro that [of d' c']) (simp_all add: d'_def link_only_def)
qed

lemma send_or_wait_ok:
  assumes env: "env_ok env" and l: "link_ok lib d ms n ks" and wait: "\<And>c. dc_conn d = Some c \<Longrightarrow> pending_rdma_jobs d \<noteq> [] \<Longrightarrow> free_bufpairs c = []"
    and info: "info_ok (length (ce_bufpairs (dc_engine d))) info" "ri_key info \<in> ks"
  obtains d' new where "send_or_wait lib env d info = Inr d'" and "link_only d d'"
    and "link_ok lib d' (ms @ map (Fin_msg \<circ> finish_request) new) (n + length new) ks"
    and "new @ pending_rdma_jobs d' = pending_rdma_jobs d @ [info]"
    and "\<And>c. dc_conn d' = Some c \<Longrightarrow> pending_rdma_jobs d' \<noteq> [] \<Longrightarrow> free_bufpairs c = []"
proof -
  from l obtain c where c: "dc_conn d = Some c" "in_flight (dec_frame lib) c (dc_mem d) (dc_inflight_sends d) ms"
    "length (posts c) = n" "bufpairs c \<noteq> []" "\<forall>k \<in> ks. fin_fits lib c (length (ce_bufpairs (dc_engine d))) k"
    by (auto simp: link_ok_def)
  show ?thesis
  proof (cases "free_bufpairs c")
    case Nil
    let ?d = "d\<lparr>dc_conn := Some c, pending_rdma_jobs := pending_rdma_jobs d @ [info]\<rparr>"
    have "send_or_wait lib env d info = Inr ?d"
      using c(1) acquire_none [OF Nil] by (simp add: send_or_wait_def with_conn_def)
    then show ?thesis using c Nil by (intro that [of ?d "[]"]) (auto simp: link_only_def link_ok_def)
  next
    case (Cons i r)
    have ok: "bufs_ok c (dc_mem d) (dc_inflight_sends d)" using c(2) by (simp add: in_flight_def)
    have none: "pending_rdma_jobs d = []" using wait [OF c(1)] Cons by auto
    have fits: "fin_fits lib c (length (ce_bufpairs (dc_engine d))) (ri_key info)" using c(5) info(2) by blast
    obtain d' c' where d': "sendDecompressFinishRequest lib env (d\<lparr>dc_conn := Some (c\<lparr>free_bufpairs := r\<rparr>)\<rparr>) info
        \<lparr>sb_id = i, sb_addr = send_header (bufpairs c ! i), sb_cap = send_cap (bufpairs c ! i)\<rparr> = Inr d'"
      "dc_conn d' = Some c'" "in_flight (dec_frame lib) c' (dc_mem d') (dc_inflight_sends d') (ms @ [Fin_msg (finish_request info)])"
      "length (posts c') = Suc (length (posts c))" "bufpairs c' = bufpairs c" "link_only d d'" "pending_rdma_jobs d' = pending_rdma_jobs d"
      by (rule send_finish_ok [OF env c(1,2) Cons info(1) fits refl])
    have "send_or_wait lib env d info = Inr d'"
      using c(1) acquire_first(1) [OF ok Cons] d'(1) by (simp add: send_or_wait_def with_conn_def)
    moreover have "link_ok lib d' (ms @ [Fin_msg (finish_request info)]) (Suc n) ks"
      using d' c by (simp add: link_ok_def link_only_def fin_fits_def)
    ultimately show ?thesis using d'(6,7) none by (intro that [of d' "[info]"]) simp_all
  qed
qed

section \<open>The invariant\<close>

fun msg_fits :: "dec_lib \<Rightarrow> dec_msg \<Rightarrow> bool" where
  "msg_fits lib (Mmap_msg r) = frame_fits (mmap_req_pb lib) r"
| "msg_fits lib (Fin_msg r) = frame_fits (fin_req_pb lib) r"

text \<open>
  \<open>a\<close> messages have been answered: the request for the memory maps, which is the first one, and then
  the messages \<open>fs\<close> about finished segments. The pairs in use are those of the segments the host has
  not answered and of those that wait to be sent.
\<close>

definition pairs_of :: "DecompressFinishRequest list \<Rightarrow> nat \<Rightarrow> DecompressClient \<Rightarrow> nat list" where
  "pairs_of fs a d = map (nat \<circ> dfr_bufpair_id) (drop (a - 1) fs) @ map (nat \<circ> ri_mmap_id) (pending_rdma_jobs d)"

definition waits_ok :: "DecompressClient \<Rightarrow> bool" where
  "waits_ok d \<longleftrightarrow> (\<forall>c. dc_conn d = Some c \<and> pending_rdma_jobs d \<noteq> [] \<longrightarrow> free_bufpairs c = [])"

definition dec_ok ::
  "dec_lib \<Rightarrow> (seg_key \<Rightarrow> byte list) \<Rightarrow> nat \<Rightarrow> DecompressClient \<Rightarrow> MmapInfoRequest \<Rightarrow> DecompressFinishRequest list \<Rightarrow> nat \<Rightarrow> bool" where
  "dec_ok lib cont sz d r0 fs a \<longleftrightarrow>
     link_ok lib d (drop a (Mmap_msg r0 # map Fin_msg fs)) (Suc (length fs)) (set (to_come d))
     \<and> waits_ok d \<and> a \<le> Suc (length fs) \<and> dc_connected d = (a \<noteq> 0) \<and> (a = 0 \<longrightarrow> fs = [] \<and> pending_rdma_jobs d = [])
     \<and> (\<forall>m \<in> set (Mmap_msg r0 # map Fin_msg fs). msg_fits lib m)
     \<and> (\<forall>r \<in> set fs. \<not> dfr_data_inline r \<and> 0 \<le> dfr_bufpair_id r)
     \<and> (\<forall>i \<in> set (pending_rdma_jobs d). info_ok (length (ce_bufpairs (dc_engine d))) i)
     \<and> engine_ok cont sz d (pairs_of fs a d) \<and> work_conserving d"

lemma link_ok_mono: "link_ok lib d ms n ks \<Longrightarrow> ks' \<subseteq> ks \<Longrightarrow> link_ok lib d ms n ks'"
  by (auto simp: link_ok_def)

lemma link_ok_same: "same_link d d' \<Longrightarrow> link_ok lib d ms n ks \<Longrightarrow> link_ok lib d' ms n ks"
  by (simp add: same_link_def link_ok_def)

lemma submit_ok:
  assumes env: "env_ok env" and inv: "dec_ok lib cont sz d r0 fs a" and e: "is_compressed e" "task_fits cont sz (dc_heap d) e"
    and fits: "\<forall>c. dc_conn d = Some c \<longrightarrow> fin_fits lib c (length (ce_bufpairs (dc_engine d))) (ce_key e)"
  obtains d' where "submitDecompressTask lib env d e = Inr d'" and "dec_ok lib cont sz d' r0 fs a"
    and "to_come d' = to_come d @ [ce_key e]"
    and "length (ce_bufpairs (dc_engine d')) = length (ce_bufpairs (dc_engine d))" and "pending_rdma_jobs d' = pending_rdma_jobs d"
proof -
  let ?d = "d\<lparr>pending_compress_jobs := pending_compress_jobs d @ [e]\<rparr>"
  have tc: "to_come ?d = to_come d @ [ce_key e]" by (simp add: to_come_def running_job_def)
  have eng: "engine_ok cont sz ?d (pairs_of fs a ?d)"
    using inv e by (auto simp: dec_ok_def engine_ok_def pairs_of_def running_job_def)
  have link: "link_ok lib ?d (drop a (Mmap_msg r0 # map Fin_msg fs)) (Suc (length fs)) (set (to_come ?d))"
    using inv fits by (auto simp: dec_ok_def link_ok_def tc)
  show ?thesis
  proof (cases "dc_connected d \<and> \<not> decompress_busy d")
    case True
    obtain d' where d': "tryStartDecompressJob env ?d = Inr (True, d')" "engine_ok cont sz d' (pairs_of fs a ?d)"
      "work_conserving d'" "to_come d' = to_come ?d" "same_link ?d d'"
      by (rule tryStart_ok [OF env _ _ eng]) (use True in simp_all)
    then have "dec_ok lib cont sz d' r0 fs a"
      using inv link link_ok_same [OF d'(5) link] by (auto simp: dec_ok_def same_link_def waits_ok_def pairs_of_def)
    with d' tc True e(1) show ?thesis by (intro that [of d']) (simp_all add: submitDecompressTask_def same_link_def)
  next
    case False
    then have "dec_ok lib cont sz ?d r0 fs a"
      using inv link eng by (auto simp: dec_ok_def waits_ok_def work_conserving_def)
    with False tc e(1) show ?thesis by (intro that [of ?d]) (auto simp: submitDecompressTask_def)
  qed
qed

text \<open>A finished job: its segment is sent or waits, and the next job starts.\<close>

lemma pairs_of_grow:
  assumes "a \<noteq> 0" and "a \<le> Suc (length fs)" and "new @ pending_rdma_jobs d' = pending_rdma_jobs d @ [info]"
  shows "mset (pairs_of (fs @ map finish_request new) a d') = mset (pairs_of fs a d @ [nat (ri_mmap_id info)])"
proof -
  have "mset (map (nat \<circ> ri_mmap_id) (new @ pending_rdma_jobs d')) = mset (map (nat \<circ> ri_mmap_id) (pending_rdma_jobs d @ [info]))"
    using assms(3) by simp
  moreover have "(nat \<circ> dfr_bufpair_id) \<circ> finish_request = nat \<circ> ri_mmap_id" by (simp add: fun_eq_iff finish_request_def)
  ultimately show ?thesis using assms(1,2) by (simp add: pairs_of_def)
qed

lemma keys_grow:
  assumes "new @ pending_rdma_jobs d' = pending_rdma_jobs d @ [info]"
  shows "map fr_key (map finish_request new) @ map ri_key (pending_rdma_jobs d') = map ri_key (pending_rdma_jobs d) @ [ri_key info]"
proof -
  have "fr_key \<circ> finish_request = ri_key" by (simp add: fun_eq_iff)
  then show ?thesis using arg_cong [OF assms, of "map ri_key"] by simp
qed

lemma engine_ok_armed: "engine_ok cont sz (d\<lparr>dc_engine := (dc_engine d)\<lparr>ev_armed := b\<rparr>\<rparr>) held = engine_ok cont sz d held"
  by (simp add: engine_ok_def running_job_def pairs_ok_def free_pairs_def maps_ready_def src_sized_def)

lemma dec_ok_armed: "dec_ok lib cont sz (d\<lparr>dc_engine := (dc_engine d)\<lparr>ev_armed := b\<rparr>\<rparr>) r0 fs a = dec_ok lib cont sz d r0 fs a"
proof -
  let ?d = "d\<lparr>dc_engine := (dc_engine d)\<lparr>ev_armed := b\<rparr>\<rparr>"
  have "link_ok lib ?d ms n ks = link_ok lib d ms n ks" for ms n ks by (simp add: link_ok_def)
  moreover have "waits_ok ?d = waits_ok d" "to_come ?d = to_come d" "pairs_of fs a ?d = pairs_of fs a d" "work_conserving ?d = work_conserving d"
    by (simp_all add: waits_ok_def to_come_def running_job_def pairs_of_def work_conserving_def)
  ultimately show ?thesis by (simp add: dec_ok_def engine_ok_armed)
qed

lemma fin_msgs_fit:
  assumes "link_ok lib d ms n ks" and "\<forall>i \<in> set new. info_ok (length (ce_bufpairs (dc_engine d))) i \<and> ri_key i \<in> ks"
  shows "\<forall>i \<in> set new. frame_fits (fin_req_pb lib) (finish_request i)"
proof
  fix i assume "i \<in> set new"
  with assms obtain c where "fin_fits lib c (length (ce_bufpairs (dc_engine d))) (ri_key i)"
    "info_ok (length (ce_bufpairs (dc_engine d))) i" by (auto simp: link_ok_def)
  then show "frame_fits (fin_req_pb lib) (finish_request i)"
    unfolding fin_fits_def info_ok_def using segment_size_range [of i]
    by (metis (no_types, lifting) DecompressFinishRequest.select_convs(6,7) finish_request_def fr_key_finish)
qed

text \<open>How the parts come together again after segments have been sent and jobs started.\<close>

lemma dec_ok_after_send:
  assumes inv: "dec_ok lib cont sz d r0 fs a" and a: "a' \<noteq> 0" "a' \<le> Suc (length fs)"
    and d2: "engine_ok cont sz d2 (pairs_of (fs @ map finish_request new) a' d1)" "work_conserving d2"
      "to_come d2 = to_come d1" "same_link d1 d2"
    and order: "map fr_key (fs @ map finish_request new) @ to_come d2 = map fr_key fs @ to_come d" and conn: "dc_connected d1"
    and link: "link_ok lib d1 (drop a' (Mmap_msg r0 # map Fin_msg fs) @ map (Fin_msg \<circ> finish_request) new)
      (Suc (length fs) + length new) (set (to_come d))"
    and infos: "\<forall>i \<in> set new \<union> set (pending_rdma_jobs d1). info_ok (length (ce_bufpairs (dc_engine d1))) i \<and> ri_key i \<in> set (to_come d)"
    and wait: "waits_ok d1"
  shows "dec_ok lib cont sz d2 r0 (fs @ map finish_request new) a'"
proof -
  let ?fs = "fs @ map finish_request new"
  have "map fr_key (map finish_request new) @ to_come d2 = to_come d" using order by simp
  then have sub: "set (to_come d2) \<subseteq> set (to_come d)" by (metis Un_upper2 set_append)
  have fit: "\<forall>i \<in> set new. frame_fits (fin_req_pb lib) (finish_request i)" using fin_msgs_fit [OF link] infos by blast
  have "link_ok lib d1 (drop a' (Mmap_msg r0 # map Fin_msg ?fs)) (Suc (length ?fs)) (set (to_come d))"
    using link a by (cases a') simp_all
  then have "link_ok lib d2 (drop a' (Mmap_msg r0 # map Fin_msg ?fs)) (Suc (length ?fs)) (set (to_come d2))"
    by (intro link_ok_mono [OF link_ok_same [OF d2(4)] sub])
  moreover have "\<forall>r \<in> set (map finish_request new). \<not> dfr_data_inline r \<and> 0 \<le> dfr_bufpair_id r"
    using infos by (auto simp: info_ok_def finish_request_def)
  moreover have "waits_ok d2" using wait d2(4) by (simp add: waits_ok_def same_link_def)
  moreover have "pairs_of ?fs a' d2 = pairs_of ?fs a' d1" using d2(4) by (simp add: pairs_of_def same_link_def)
  ultimately show ?thesis
    using inv d2 infos fit a conn unfolding dec_ok_def same_link_def by (simp add: ball_Un)
qed

lemma taskSuccess_ok:
  assumes env: "env_ok env" and inv: "dec_ok lib cont sz d r0 fs a" and busy: "decompress_busy d"
    and e: "e = (dc_engine d)\<lparr>engine_busy := False, workq := [], ev_armed := False\<rparr>"
  obtains d' new where "onDecompressTaskSuccess lib env (d\<lparr>dc_engine := e\<rparr>) dst_len = Inr d'"
    and "new @ pending_rdma_jobs d' = pending_rdma_jobs d @ [job_report (compress_job d) dst_len]"
    and "dec_ok lib cont sz d' r0 (fs @ map finish_request new) a"
    and "map fr_key (fs @ map finish_request new) @ to_come d' = map fr_key fs @ to_come d"
    and "length (ce_bufpairs (dc_engine d')) = length (ce_bufpairs (dc_engine d))"
proof -
  define d0 where "d0 = d\<lparr>dc_engine := e\<rparr>"
  let ?j = "compress_job d" and ?n = "length (ce_bufpairs (dc_engine d))" and ?ks = "set (to_come d)"
  define info where "info = job_report ?j dst_len"
  have eng: "engine_ok cont sz d (pairs_of fs a d)" and a: "a \<noteq> 0" "a \<le> Suc (length fs)" and conn: "dc_connected d"
    using inv busy by (auto simp: dec_ok_def engine_ok_def)
  have key: "ri_key info = ji_key ?j" by (simp add: info_def job_report_def ri_key_def ji_key_def)
  have info: "info_ok (length (ce_bufpairs (dc_engine d0))) info" "ri_key info \<in> ?ks"
    using eng busy key by (auto simp: info_def job_report_def info_ok_def engine_ok_def e d0_def to_come_def running_job_def)
  have link: "link_ok lib d0 (drop a (Mmap_msg r0 # map Fin_msg fs)) (Suc (length fs)) ?ks"
    using inv by (simp add: dec_ok_def link_ok_def e d0_def)
  have wait: "dc_conn d0 = Some c \<Longrightarrow> pending_rdma_jobs d0 \<noteq> [] \<Longrightarrow> free_bufpairs c = []" for c
    using inv by (simp add: dec_ok_def waits_ok_def d0_def)
  obtain d1 new where d1: "send_or_wait lib env d0 info = Inr d1" "link_only d0 d1"
    and l1: "link_ok lib d1 (drop a (Mmap_msg r0 # map Fin_msg fs) @ map (Fin_msg \<circ> finish_request) new) (Suc (length fs) + length new) ?ks"
    and new: "new @ pending_rdma_jobs d1 = pending_rdma_jobs d0 @ [info]"
    and w1: "\<And>c. dc_conn d1 = Some c \<Longrightarrow> pending_rdma_jobs d1 \<noteq> [] \<Longrightarrow> free_bufpairs c = []"
    by (rule send_or_wait_ok [OF env link wait info]) blast+
  let ?fs = "fs @ map finish_request new" and ?d1 = "d1\<lparr>decompress_busy := False\<rparr>"
  have lo: "dc_engine d1 = e" "dc_heap d1 = dc_heap d" "pending_compress_jobs d1 = pending_compress_jobs d" "dc_connected d1"
    using d1(2) conn by (simp_all add: link_only_def d0_def)
  have new0: "new @ pending_rdma_jobs ?d1 = pending_rdma_jobs d @ [info]" using new by (simp add: d0_def)
  have "pairs_ok (dc_engine d) (pairs_of fs a d @ [nat (ri_mmap_id info)])"
    using eng busy by (simp add: engine_ok_def running_job_def info_def job_report_def)
  then have "pairs_ok e (pairs_of ?fs a ?d1)"
    using pairs_of_grow [OF a new0] by (simp add: pairs_ok_def pool_split_def free_pairs_def e)
  then have eng1: "engine_ok cont sz ?d1 (pairs_of ?fs a ?d1)"
    using eng lo conn by (simp add: engine_ok_def running_job_def e maps_ready_def)
  obtain d2 where d2: "tryStartDecompressJob env ?d1 = Inr (True, d2)" "engine_ok cont sz d2 (pairs_of ?fs a ?d1)"
    "work_conserving d2" "to_come d2 = to_come ?d1" "same_link ?d1 d2"
    by (rule tryStart_ok [OF env _ _ eng1]) (use lo in simp_all)
  have run: "onDecompressTaskSuccess lib env (d\<lparr>dc_engine := e\<rparr>) dst_len = Inr d2"
    using d1(1) d2(1) by (simp add: onDecompressTaskSuccess_def info_def d0_def)
  have order: "map fr_key ?fs @ to_come d2 = map fr_key fs @ to_come d"
    using keys_grow [OF new0] d2(4) lo key busy by (simp add: to_come_def running_job_def)
  have "\<forall>i \<in> set (pending_rdma_jobs d @ [info]). info_ok (length (ce_bufpairs (dc_engine d0))) i \<and> ri_key i \<in> ?ks"
    using inv info by (auto simp: dec_ok_def d0_def e to_come_def)
  then have news: "\<forall>i \<in> set new \<union> set (pending_rdma_jobs ?d1). info_ok (length (ce_bufpairs (dc_engine ?d1))) i \<and> ri_key i \<in> ?ks"
    using arg_cong [OF new0, of set] lo(1) by (simp add: d0_def)
  have "link_ok lib ?d1 (drop a (Mmap_msg r0 # map Fin_msg fs) @ map (Fin_msg \<circ> finish_request) new) (Suc (length fs) + length new) ?ks"
    using l1 by (simp add: link_ok_def)
  moreover have "waits_ok ?d1" using w1 by (simp add: waits_ok_def)
  ultimately have "dec_ok lib cont sz d2 r0 ?fs a"
    using dec_ok_after_send [OF inv a d2(2-5) order _ _ news] lo(4) by simp
  moreover have "length (ce_bufpairs (dc_engine d2)) = length (ce_bufpairs (dc_engine d))"
    using d2(5) lo(1) e by (simp add: same_link_def)
  moreover have "new @ pending_rdma_jobs d2 = pending_rdma_jobs d @ [job_report (compress_job d) dst_len]"
    using new0 d2(5) by (simp add: same_link_def info_def)
  ultimately show ?thesis using run order by (intro that)
qed

text \<open>The answer of the host to a finished segment.\<close>

lemma releasePair_ok:
  assumes env: "env_ok env" and eng: "engine_ok cont sz d (i # held)" and conn: "dc_connected d"
  obtains d' where "andThen (CompressEngine_releaseFreeBufpair (dc_engine d) i) (\<lambda>e.
      let d2 = d\<lparr>dc_engine := e\<rparr> in if \<not> decompress_busy d2 then tryStartDecompressJob env d2 else Inr (True, d2)) = Inr (True, d')"
    and "engine_ok cont sz d' held" and "work_conserving d'" and "to_come d' = to_come d" and "same_link d d'"
proof -
  let ?e = "(dc_engine d)\<lparr>ce_free_bufpairs := ce_free_bufpairs (dc_engine d) @ [int i]\<rparr>" and ?d = "d\<lparr>dc_engine := (dc_engine d)\<lparr>ce_free_bufpairs := ce_free_bufpairs (dc_engine d) @ [int i]\<rparr>\<rparr>"
  have pairs: "pairs_ok (dc_engine d) ((i # held) @ map (nat \<circ> ji_bufpair_id) (running_job d))" using eng by (simp add: engine_ok_def)
  note rel = CompressEngine_release_ok [OF pairs, of i]
  have "pairs_ok ?e (held @ map (nat \<circ> ji_bufpair_id) (running_job d))" using rel(2) by simp
  then have eng': "engine_ok cont sz ?d held"
    using eng by (auto simp: engine_ok_def running_job_def maps_ready_def src_sized_def)
  have tc: "to_come ?d = to_come d" by (simp add: to_come_def running_job_def)
  show ?thesis
  proof (cases "decompress_busy d")
    case True
    with rel(1) eng' tc show ?thesis by (intro that [of ?d]) (simp_all add: work_conserving_def same_link_def)
  next
    case False
    obtain d' where d': "tryStartDecompressJob env ?d = Inr (True, d')" "engine_ok cont sz d' held" "work_conserving d'"
      "to_come d' = to_come ?d" "same_link ?d d'"
      by (rule tryStart_ok [OF env _ _ eng']) (use conn False in simp_all)
    with rel(1) False tc show ?thesis by (intro that [of d']) (simp_all add: same_link_def)
  qed
qed

lemma send_pending_ok:
  assumes env: "env_ok env" and c: "dc_conn d = Some c" "in_flight (dec_frame lib) c (dc_mem d) (dc_inflight_sends d) ms"
    and link: "length (posts c) = n" "bufpairs c \<noteq> []" "\<forall>k \<in> ks. fin_fits lib c (length (ce_bufpairs (dc_engine d))) k"
    and free: "free_bufpairs c = (if pending_rdma_jobs d = [] then free_bufpairs c else [i])"
    and infos: "\<forall>j \<in> set (pending_rdma_jobs d). info_ok (length (ce_bufpairs (dc_engine d))) j \<and> ri_key j \<in> ks"
  obtains d' new where "send_pending lib env d = Inr d'" and "link_only d d'"
    and "link_ok lib d' (ms @ map (Fin_msg \<circ> finish_request) new) (n + length new) ks"
    and "new @ pending_rdma_jobs d' = pending_rdma_jobs d" and "waits_ok d'"
proof (cases "pending_rdma_jobs d")
  case Nil
  with c link show ?thesis
    by (intro that [of d "[]"]) (auto simp: send_pending_def link_only_def link_ok_def waits_ok_def)
next
  case (Cons info rest)
  have fr: "free_bufpairs c = [i]" using free Cons by simp
  have ok: "bufs_ok c (dc_mem d) (dc_inflight_sends d)" using c(2) by (simp add: in_flight_def)
  let ?d = "d\<lparr>pending_rdma_jobs := rest\<rparr>" and ?n = "length (ce_bufpairs (dc_engine d))"
  have info: "info_ok ?n info" and fits: "fin_fits lib c ?n (ri_key info)" using infos Cons link(3) by auto
  have dc: "dc_conn ?d = Some c" "in_flight (dec_frame lib) c (dc_mem ?d) (dc_inflight_sends ?d) ms" using c by simp_all
  obtain d1 c2 where d1: "sendDecompressFinishRequest lib env (?d\<lparr>dc_conn := Some (c\<lparr>free_bufpairs := []\<rparr>)\<rparr>) info
      \<lparr>sb_id = i, sb_addr = send_header (bufpairs c ! i), sb_cap = send_cap (bufpairs c ! i)\<rparr> = Inr d1"
    "dc_conn d1 = Some c2" "in_flight (dec_frame lib) c2 (dc_mem d1) (dc_inflight_sends d1) (ms @ [Fin_msg (finish_request info)])"
    "length (posts c2) = Suc (length (posts c))" "bufpairs c2 = bufpairs c" "link_only ?d d1" "pending_rdma_jobs d1 = pending_rdma_jobs ?d"
    by (rule send_finish_ok [OF env dc fr info fits refl])
  have "length (free_bufpairs c2) = 0"
    using in_flight_count [OF d1(3)] in_flight_count [OF c(2)] d1(5) fr by (simp del: length_0_conv)
  moreover have "link_only d d1" using d1(6) by (simp add: link_only_def)
  moreover have "sendDecompressFinishRequest lib env (d\<lparr>dc_conn := Some (c\<lparr>free_bufpairs := []\<rparr>), pending_rdma_jobs := rest\<rparr>) info
      \<lparr>sb_id = i, sb_addr = send_header (bufpairs c ! i), sb_cap = send_cap (bufpairs c ! i)\<rparr> = Inr d1"
    using d1(1) by (rule subst [rotated]) simp
  moreover have "\<forall>k \<in> ks. fin_fits lib c2 ?n k" using link(3) d1(5) by (simp add: fin_fits_def)
  ultimately show ?thesis
    using Cons d1 acquire_first(1) [OF ok fr] c(1) link
    by (intro that [of d1 "[info]"]) (simp_all add: send_pending_def with_conn_def link_ok_def waits_ok_def link_only_def)
qed

lemma finResponse_ok:
  assumes env: "env_ok env" and inv: "dec_ok lib cont sz d r0 fs a" and a: "a \<noteq> 0" "a \<le> length fs"
    and resp: "dfp_bufpair_id resp = dfr_bufpair_id (fs ! (a - 1))" "dfp_data_inline resp = dfr_data_inline (fs ! (a - 1))"
    and i: "dc_conn d = Some c" "dc_inflight_sends d = i # others"
  obtains d' new where "handleDecompressFinishResponse lib env
      (d\<lparr>dc_conn := Some (RdmaConnection_releaseSendBuf c i), dc_inflight_sends := others\<rparr>) resp = Inr (True, d')"
    and "new @ pending_rdma_jobs d' = pending_rdma_jobs d"
    and "dec_ok lib cont sz d' r0 (fs @ map finish_request new) (Suc a)"
    and "map fr_key (fs @ map finish_request new) @ to_come d' = map fr_key fs @ to_come d"
    and "length (ce_bufpairs (dc_engine d')) = length (ce_bufpairs (dc_engine d))"
proof -
  define c1 where "c1 = RdmaConnection_releaseSendBuf c i"
  define d0 where "d0 = d\<lparr>dc_conn := Some c1, dc_inflight_sends := others\<rparr>"
  let ?n = "length (ce_bufpairs (dc_engine d))" and ?ks = "set (to_come d)" and ?r = "fs ! (a - 1)"
  let ?ms = "drop (Suc a) (Mmap_msg r0 # map Fin_msg fs)"
  have drop1: "drop (a - 1) fs = ?r # drop a fs" using a Cons_nth_drop_Suc [of "a - 1" fs] by simp
  have ms: "drop a (Mmap_msg r0 # map Fin_msg fs) = Fin_msg ?r # ?ms" using a drop1 by (cases a) (simp_all add: drop_map)
  have link: "in_flight (dec_frame lib) c (dc_mem d) (i # others) (Fin_msg ?r # ?ms)"
    "length (posts c) = Suc (length fs)" "bufpairs c \<noteq> []" "\<forall>k \<in> ?ks. fin_fits lib c ?n k"
    using inv i ms by (auto simp: dec_ok_def link_ok_def)
  have eng: "engine_ok cont sz d (pairs_of fs a d)" and conn: "dc_connected d" using inv a by (auto simp: dec_ok_def)
  have rok: "\<not> dfr_data_inline ?r" "0 \<le> dfr_bufpair_id ?r" using inv a by (auto simp: dec_ok_def)
  let ?p = "nat (dfr_bufpair_id ?r)"
  have held: "pairs_of fs a d = ?p # pairs_of fs (Suc a) d" unfolding pairs_of_def drop1 by simp
  then have "?p < ?n" using eng pool_split_bound by (fastforce simp: engine_ok_def pairs_ok_def)
  then have "?p < 2 ^ 64" using eng by (auto simp: engine_ok_def pairs_ok_def)
  then have size: "size_of_int (dfp_bufpair_id resp) = ?p" using resp(1) rok by (simp add: size_of_int_def)
  have rel: "dc_conn d0 = Some c1" "in_flight (dec_frame lib) c1 (dc_mem d0) (dc_inflight_sends d0) ?ms"
    "length (posts c1) = Suc (length fs)" "bufpairs c1 \<noteq> []" "\<forall>k \<in> ?ks. fin_fits lib c1 (length (ce_bufpairs (dc_engine d0))) k"
    using in_flight_release [OF link(1)] link by (simp_all add: c1_def d0_def fin_fits_def)
  have free: "free_bufpairs c1 = (if pending_rdma_jobs d0 = [] then free_bufpairs c1 else [i])"
    using inv i by (auto simp: dec_ok_def waits_ok_def c1_def d0_def)
  have infos: "\<forall>j \<in> set (pending_rdma_jobs d0). info_ok (length (ce_bufpairs (dc_engine d0))) j \<and> ri_key j \<in> ?ks"
    using inv by (auto simp: dec_ok_def d0_def to_come_def)
  obtain d1 new where d1: "send_pending lib env d0 = Inr d1" "link_only d0 d1"
    "link_ok lib d1 (?ms @ map (Fin_msg \<circ> finish_request) new) (Suc (length fs) + length new) ?ks"
    "new @ pending_rdma_jobs d1 = pending_rdma_jobs d0" "waits_ok d1"
    by (rule send_pending_ok [OF env rel free infos])
  let ?fs = "fs @ map finish_request new"
  have lo: "dc_engine d1 = dc_engine d" "dc_heap d1 = dc_heap d" "pending_compress_jobs d1 = pending_compress_jobs d"
    "dc_connected d1" "decompress_busy d1 = decompress_busy d" "compress_job d1 = compress_job d"
    using d1(2) conn by (simp_all add: link_only_def d0_def)
  have new: "new @ pending_rdma_jobs d1 = pending_rdma_jobs d" using d1(4) by (simp add: d0_def)
  have "(nat \<circ> dfr_bufpair_id) \<circ> finish_request = nat \<circ> ri_mmap_id" by (simp add: fun_eq_iff finish_request_def)
  then have perm: "mset (pairs_of fs a d) = mset (?p # pairs_of ?fs (Suc a) d1)"
    using held arg_cong [OF new, of "\<lambda>x. mset (map (nat \<circ> ri_mmap_id) x)"] a by (simp add: pairs_of_def)
  have "engine_ok cont sz d1 (pairs_of fs a d)"
    using eng lo conn by (cases "decompress_busy d") (simp_all add: engine_ok_def running_job_def)
  then have eng1: "engine_ok cont sz d1 (?p # pairs_of ?fs (Suc a) d1)" using engine_ok_perm perm by blast
  obtain d2 where d2: "andThen (CompressEngine_releaseFreeBufpair (dc_engine d1) ?p) (\<lambda>e.
      let d2 = d1\<lparr>dc_engine := e\<rparr> in if \<not> decompress_busy d2 then tryStartDecompressJob env d2 else Inr (True, d2)) = Inr (True, d2)"
    "engine_ok cont sz d2 (pairs_of ?fs (Suc a) d1)" "work_conserving d2" "to_come d2 = to_come d1" "same_link d1 d2"
    by (rule releasePair_ok [OF env eng1 lo(4)])
  have run: "handleDecompressFinishResponse lib env d0 resp = Inr (True, d2)"
    using d1(1) d2(1) resp(2) rok size by (simp add: handleDecompressFinishResponse_def)
  have "fr_key \<circ> finish_request = ri_key" by (simp add: fun_eq_iff)
  then have order: "map fr_key ?fs @ to_come d2 = map fr_key fs @ to_come d"
    using d2(4) lo arg_cong [OF new, of "map ri_key"] by (simp add: to_come_def running_job_def)
  have news: "\<forall>j \<in> set new \<union> set (pending_rdma_jobs d1). info_ok (length (ce_bufpairs (dc_engine d1))) j \<and> ri_key j \<in> ?ks"
    using infos arg_cong [OF d1(4), of set] lo(1) by (simp add: d0_def)
  have "dec_ok lib cont sz d2 r0 ?fs (Suc a)"
    by (rule dec_ok_after_send [OF inv _ _ d2(2-5) order lo(4) d1(3) news d1(5)]) (use a in simp_all)
  moreover have "length (ce_bufpairs (dc_engine d2)) = length (ce_bufpairs (dc_engine d))"
    using d2(5) lo(1) by (simp add: same_link_def)
  moreover have "new @ pending_rdma_jobs d2 = pending_rdma_jobs d" using new d2(5) by (simp add: same_link_def)
  ultimately show ?thesis using run order unfolding d0_def c1_def by (intro that)
qed

text \<open>The answer of the host with its memory maps.\<close>

definition map_ok :: "mmap_outcome \<Rightarrow> bool" where
  "map_ok m \<longleftrightarrow> (\<exists>h. mmap_create_res m = Inr h) \<and> mmap_dev_add_res m = DOCA_SUCCESS
     \<and> mmap_range_res m = DOCA_SUCCESS \<and> (\<exists>b. mmap_buf_res m = Inr b)"

definition maps_env_ok :: "dec_env \<Rightarrow> nat \<Rightarrow> bool" where
  "maps_env_ok env n \<longleftrightarrow> length (src_map_outcomes env) = n \<and> (\<forall>m \<in> set (src_map_outcomes env). map_ok m)
     \<and> length (import_outcomes env) = n \<and> (\<forall>(m, r) \<in> set (import_outcomes env). map_ok m \<and> r = DOCA_SUCCESS)"

lemma src_start_ok:
  assumes "length os = length bs" and "\<forall>m \<in> set os. map_ok m"
  shows "\<exists>bs'. src_mmaps_start_from addr False i bs os = (DOCA_SUCCESS, bs') \<and> map src_mem bs' = map src_mem bs
    \<and> (\<forall>b \<in> set bs'. db_capacity (src_doca_buf b) = length (src_mem b))"
  using assms
proof (induction addr "False" i bs os rule: src_mmaps_start_from.induct)
  case (3 addr i b bs m os)
  from 3(3) obtain h d where m: "mmap_create_res m = Inr h" "mmap_dev_add_res m = DOCA_SUCCESS" "mmap_range_res m = DOCA_SUCCESS"
    "mmap_buf_res m = Inr d" by (auto simp: map_ok_def)
  have c: "CompressEngine_create_mmap m = Some h"
    and s: "CompressEngine_mmap_start m (addr i) (length (src_mem b)) False = Inr (DocaBuf_new d (addr i) (length (src_mem b)))"
    using m by (simp_all add: CompressEngine_create_mmap_def CompressEngine_mmap_start_def)
  from 3(1) [OF c s] 3(2,3) obtain bs' where "src_mmaps_start_from addr False (Suc i) bs os = (DOCA_SUCCESS, bs')"
    "map src_mem bs' = map src_mem bs" "\<forall>b \<in> set bs'. db_capacity (src_doca_buf b) = length (src_mem b)" by auto
  with c s show ?case by (simp add: DocaBuf_new_def)
qed simp_all

lemma dst_import_ok:
  assumes "length ds = length bs" and "\<forall>(d, m, r) \<in> set ds. map_ok m \<and> r = DOCA_SUCCESS"
  shows "\<exists>bs'. dst_import_from bs ds = (DOCA_SUCCESS, bs') \<and> map src_mem bs' = map src_mem bs \<and> map src_doca_buf bs' = map src_doca_buf bs"
  using assms
proof (induction bs ds rule: dst_import_from.induct)
  case (3 b bs d m r ds)
  from 3(3) obtain h x where m: "mmap_create_res m = Inr h" "mmap_dev_add_res m = DOCA_SUCCESS" "mmap_buf_res m = Inr x"
    and r: "r = DOCA_SUCCESS" by (auto simp: map_ok_def)
  have c: "CompressEngine_create_mmap m = Some h" using m by (simp add: CompressEngine_create_mmap_def)
  have i: "CompressEngine_mmap_create_from_export m r d = Inr (DocaBuf_new x (remote_addr d) (remote_length d))"
    using m r by (simp add: CompressEngine_mmap_create_from_export_def)
  from 3(1) [OF c i] 3(2,3) obtain bs' where "dst_import_from bs ds = (DOCA_SUCCESS, bs')"
    "map src_mem bs' = map src_mem bs" "map src_doca_buf bs' = map src_doca_buf bs" by auto
  with c i show ?case by simp
qed simp_all

lemma maps_started:
  assumes maps: "maps_env_ok env (length (ce_bufpairs e))" and sized: "src_sized e sz" and len: "length ds = length (ce_bufpairs e)"
  obtains e1 e2 where "CompressEngine_src_mmaps_start (src_mem_addr env) False (src_map_outcomes env) e = (DOCA_SUCCESS, e1)"
    and "CompressEngine_dst_mmaps_create_from_export (zip ds (import_outcomes env)) e1 = Inr (DOCA_SUCCESS, e2)"
    and "maps_ready e2 sz" and "e2 = e\<lparr>ce_bufpairs := ce_bufpairs e2\<rparr>" and "length (ce_bufpairs e2) = length (ce_bufpairs e)"
proof -
  have s: "length (src_map_outcomes env) = length (ce_bufpairs e)" "\<forall>m \<in> set (src_map_outcomes env). map_ok m"
    and im: "length (import_outcomes env) = length (ce_bufpairs e)" "\<forall>(m, r) \<in> set (import_outcomes env). map_ok m \<and> r = DOCA_SUCCESS"
    using maps by (simp_all add: maps_env_ok_def)
  from src_start_ok [OF s] obtain b1 where b1: "src_mmaps_start_from (src_mem_addr env) False 0 (ce_bufpairs e) (src_map_outcomes env)
      = (DOCA_SUCCESS, b1)" "map src_mem b1 = map src_mem (ce_bufpairs e)" "\<forall>b \<in> set b1. db_capacity (src_doca_buf b) = length (src_mem b)"
    by blast
  have l1: "length b1 = length (ce_bufpairs e)" using b1(2) map_eq_imp_length_eq by blast
  have "length (zip ds (import_outcomes env)) = length b1" "\<forall>(d, m, r) \<in> set (zip ds (import_outcomes env)). map_ok m \<and> r = DOCA_SUCCESS"
    using l1 len im by (auto dest: set_zip_rightD)
  from dst_import_ok [OF this] obtain b2 where b2: "dst_import_from b1 (zip ds (import_outcomes env)) = (DOCA_SUCCESS, b2)"
    "map src_mem b2 = map src_mem b1" "map src_doca_buf b2 = map src_doca_buf b1" by blast
  have l2: "length b2 = length b1" using b2(2) map_eq_imp_length_eq by blast
  have "length (src_mem b) = sz \<and> db_capacity (src_doca_buf b) = sz" if "b \<in> set b2" for b
  proof -
    from that obtain k where k: "k < length b2" "b = b2 ! k" by (auto simp: in_set_conv_nth)
    then have "src_mem b = src_mem (b1 ! k)" "src_doca_buf b = src_doca_buf (b1 ! k)"
      using b2(2,3) l2 by (metis nth_map)+
    moreover have "src_mem (b1 ! k) = src_mem (ce_bufpairs e ! k)" using b1(2) k(1) l1 l2 by (metis nth_map)
    moreover have "length (src_mem (ce_bufpairs e ! k)) = sz" using sized k(1) l1 l2 by (simp add: src_sized_def)
    ultimately show ?thesis using b1(3) k(1) l2 by simp
  qed
  then have ready: "maps_ready (e\<lparr>ce_bufpairs := b2\<rparr>) sz" using sized by (simp add: maps_ready_def src_sized_def)
  show ?thesis
    by (rule that [of "e\<lparr>ce_bufpairs := b1\<rparr>" "e\<lparr>ce_bufpairs := b2\<rparr>"])
       (use b1(1) b2(1) l1 l2 len im ready in
         \<open>simp_all add: CompressEngine_src_mmaps_start_def CompressEngine_dst_mmaps_create_from_export_def\<close>)
qed

lemma mmapResponse_ok:
  assumes env: "env_ok env" and inv: "dec_ok lib cont sz d r0 fs 0"
    and maps: "maps_env_ok env (length (ce_bufpairs (dc_engine d)))" and resp: "length (mir_mmaps resp) = length (ce_bufpairs (dc_engine d))"
    and i: "dc_conn d = Some c" "dc_inflight_sends d = i # others"
  obtains d' where "handleMmapInfoResponse env
      (d\<lparr>dc_conn := Some (RdmaConnection_releaseSendBuf c i), dc_inflight_sends := others\<rparr>) resp = Inr (True, d')"
    and "dec_ok lib cont sz d' r0 fs 1" and "to_come d' = to_come d"
    and "length (ce_bufpairs (dc_engine d')) = length (ce_bufpairs (dc_engine d))"
    and "pending_rdma_jobs d' = []" and "pending_rdma_jobs d = []"
proof -
  define d0 where "d0 = d\<lparr>dc_conn := Some (RdmaConnection_releaseSendBuf c i), dc_inflight_sends := others\<rparr>"
  have none: "fs = []" "pending_rdma_jobs d = []" "\<not> dc_connected d" and eng: "engine_ok cont sz d (pairs_of fs 0 d)"
    using inv by (auto simp: dec_ok_def)
  have busy: "\<not> decompress_busy d" and sized: "src_sized (dc_engine d0) sz" using eng none by (auto simp: engine_ok_def d0_def)
  have maps': "maps_env_ok env (length (ce_bufpairs (dc_engine d0)))" and len: "length (map remote_desc (mir_mmaps resp)) = length (ce_bufpairs (dc_engine d0))"
    using maps resp by (simp_all add: d0_def)
  obtain e1 e2 where e: "CompressEngine_src_mmaps_start (src_mem_addr env) False (src_map_outcomes env) (dc_engine d0) = (DOCA_SUCCESS, e1)"
    "CompressEngine_dst_mmaps_create_from_export (zip (map remote_desc (mir_mmaps resp)) (import_outcomes env)) e1 = Inr (DOCA_SUCCESS, e2)"
    "maps_ready e2 sz" "e2 = (dc_engine d0)\<lparr>ce_bufpairs := ce_bufpairs e2\<rparr>" "length (ce_bufpairs e2) = length (ce_bufpairs (dc_engine d0))"
    by (rule maps_started [OF maps' sized len])
  let ?d = "d0\<lparr>dc_engine := e2, dc_connected := True\<rparr>"
  have e': "ce_free_bufpairs e2 = ce_free_bufpairs (dc_engine d)" "engine_busy e2 = engine_busy (dc_engine d)" "workq e2 = workq (dc_engine d)"
    by (subst e(4), simp add: d0_def)+
  have eng': "engine_ok cont sz ?d []"
    using eng busy none e(3,5) e' by (simp add: engine_ok_def running_job_def d0_def pairs_of_def pairs_ok_def free_pairs_def)
  obtain d' where d': "tryStartDecompressJob env ?d = Inr (True, d')" "engine_ok cont sz d' []" "work_conserving d'"
    "to_come d' = to_come ?d" "same_link ?d d'"
    by (rule tryStart_ok [OF env _ _ eng']) (use busy in \<open>simp_all add: d0_def\<close>)
  have run: "handleMmapInfoResponse env d0 resp = Inr (True, d')" using e(1,2) d'(1) by (simp add: handleMmapInfoResponse_def)
  have tc: "to_come d' = to_come d" using d'(4) by (simp add: to_come_def running_job_def d0_def)
  have "in_flight (dec_frame lib) c (dc_mem d) (i # others) [Mmap_msg r0]"
    and link: "length (posts c) = 1" "bufpairs c \<noteq> []" "\<forall>k \<in> set (to_come d). fin_fits lib c (length (ce_bufpairs (dc_engine d))) k"
    using inv i none by (auto simp: dec_ok_def link_ok_def)
  from in_flight_release [OF this(1)] have "link_ok lib ?d [] 1 (set (to_come d))"
    using link e(5) by (simp add: link_ok_def d0_def fin_fits_def)
  then have "link_ok lib d' [] 1 (set (to_come d'))" using link_ok_same [OF d'(5)] tc by simp
  then have "dec_ok lib cont sz d' r0 fs 1"
    using inv d' none unfolding dec_ok_def same_link_def by (simp add: d0_def waits_ok_def pairs_of_def)
  moreover have "length (ce_bufpairs (dc_engine d')) = length (ce_bufpairs (dc_engine d))"
    using d'(5) e(5) by (simp add: same_link_def d0_def)
  moreover have "pending_rdma_jobs d' = []" using d'(5) none by (simp add: same_link_def d0_def)
  ultimately show ?thesis using run tc none(2) unfolding d0_def by (intro that)
qed

section \<open>The system\<close>

text \<open>
  What the host may answer to a message: to the request for memory maps one element for each of the \<open>n\<close>
  pairs, to a finished segment the id of its buffer pair.
\<close>

definition dec_reply :: "dec_lib \<Rightarrow> nat \<Rightarrow> byte list \<Rightarrow> byte list \<Rightarrow> bool" where
  "dec_reply lib n m r \<longleftrightarrow> length r < 2 ^ 32 \<and>
     ((\<exists>q resp. m = dec_frame lib (Mmap_msg q) \<and> msg_fits lib (Mmap_msg q) \<and> frame_fits (mmap_resp_pb lib) resp
         \<and> r = typed_frame (mmap_resp_pb lib) (dec_type kMmapInfo) resp \<and> length (mir_mmaps resp) = n)
     \<or> (\<exists>q resp. m = dec_frame lib (Fin_msg q) \<and> msg_fits lib (Fin_msg q) \<and> frame_fits (fin_resp_pb lib) resp
         \<and> r = typed_frame (fin_resp_pb lib) (dec_type kDecompressFinish) resp
         \<and> dfp_bufpair_id resp = dfr_bufpair_id q \<and> dfp_data_inline resp = dfr_data_inline q))"

text \<open>
  \<open>ds_wire\<close> are the messages the card has sent, oldest first, \<open>ds_answered\<close> how many of them the host has
  answered, \<open>ds_submitted\<close> the segments handed to the client. Other threads may change the blob memory
  but not the blobs of segments in the queue, which is what the blob pool guarantees.
\<close>

record dec_system =
  ds_client :: DecompressClient
  ds_wire :: "byte list list"
  ds_answered :: nat
  ds_submitted :: "ContentElement list"

inductive dec_step ::
  "dec_lib \<Rightarrow> dec_env \<Rightarrow> (seg_key \<Rightarrow> byte list) \<Rightarrow> nat \<Rightarrow> dec_system \<Rightarrow> dec_system \<Rightarrow> bool"
  for lib env cont sz where
  Submit: "is_compressed e \<Longrightarrow> task_fits cont sz (dc_heap (ds_client S)) e \<Longrightarrow>
    \<forall>c. dc_conn (ds_client S) = Some c \<longrightarrow> fin_fits lib c (length (ce_bufpairs (dc_engine (ds_client S)))) (ce_key e) \<Longrightarrow>
    submitDecompressTask lib env (ds_client S) e = Inr d' \<Longrightarrow>
    dec_step lib env cont sz S (S\<lparr>ds_client := d', ds_submitted := ds_submitted S @ [e]\<rparr>)"
| Dec_card: "dc_conn (ds_client S) = Some c \<Longrightarrow> length (ds_wire S) < length (posts c) \<Longrightarrow>
    dec_step lib env cont sz S (S\<lparr>ds_wire := ds_wire S @ [wire (dc_mem (ds_client S)) (posts c ! length (ds_wire S))]\<rparr>)"
| Job_done: "workq (dc_engine (ds_client S)) = job # rest \<Longrightarrow>
    CompressEngine_handleRead (DecompressClient_engine_callbacks lib env) (ds_client S, dc_engine (ds_client S))
      DOCA_SUCCESS (Inr (0, job_user_data job)) (Inr src_len) (Inr dst_len) arm_again = Inr (d', e') \<Longrightarrow>
    dec_step lib env cont sz S (S\<lparr>ds_client := d'\<lparr>dc_engine := e'\<rparr>\<rparr>)"
| Host_answer: "ds_answered S < length (ds_wire S) \<Longrightarrow>
    dec_reply lib (length (ce_bufpairs (dc_engine (ds_client S)))) (ds_wire S ! ds_answered S) r \<Longrightarrow>
    DecompressClient_onRecvSuccess lib env (ds_client S) (r @ junk) (of_nat (length r)) = Inr d' \<Longrightarrow>
    dec_step lib env cont sz S (S\<lparr>ds_client := d', ds_answered := Suc (ds_answered S)\<rparr>)"
| Other_threads: "\<forall>t \<in> set (pending_compress_jobs (ds_client S)). task_fits cont sz h t \<Longrightarrow>
    dec_step lib env cont sz S (S\<lparr>ds_client := (ds_client S)\<lparr>dc_heap := h\<rparr>\<rparr>)"

definition dec_stage ::
  "dec_lib \<Rightarrow> dec_env \<Rightarrow> (seg_key \<Rightarrow> byte list) \<Rightarrow> nat \<Rightarrow> dec_system \<Rightarrow> MmapInfoRequest \<Rightarrow> DecompressFinishRequest list \<Rightarrow> bool" where
  "dec_stage lib env cont sz S r0 fs \<longleftrightarrow> dec_ok lib cont sz (ds_client S) r0 fs (ds_answered S)
     \<and> ds_wire S = map (dec_frame lib) (take (length (ds_wire S)) (Mmap_msg r0 # map Fin_msg fs))
     \<and> ds_answered S \<le> length (ds_wire S)
     \<and> map ce_key (ds_submitted S) = map fr_key fs @ to_come (ds_client S)
     \<and> maps_env_ok env (length (ce_bufpairs (dc_engine (ds_client S))))"

definition dec_inv :: "dec_lib \<Rightarrow> dec_env \<Rightarrow> (seg_key \<Rightarrow> byte list) \<Rightarrow> nat \<Rightarrow> dec_system \<Rightarrow> bool" where
  "dec_inv lib env cont sz S \<longleftrightarrow> env_ok env \<and> (\<exists>r0 fs. dec_stage lib env cont sz S r0 fs)"

lemma dec_type_range: "- (2 ^ 31) \<le> dec_type t" "dec_type t < 2 ^ 31"
  by (cases t; simp)+

lemma dec_frame_inj:
  assumes "dec_frame lib m = dec_frame lib m'" and "msg_fits lib m" and "msg_fits lib m'"
  shows "m = m'"
proof -
  have ty: "recv_type (dec_frame lib (Mmap_msg q)) = 0" "recv_type (dec_frame lib (Fin_msg p)) = 1" for q p
    using recv_type_frame [of 0 "mmap_req_pb lib" q "[]"] recv_type_frame [of 1 "fin_req_pb lib" p "[]"] by simp_all
  have parse: "x = y" if "typed_frame pb t x = typed_frame pb t y" "frame_fits pb x" "frame_fits pb y" for pb :: "'m pb" and t x y
  proof -
    have small: "length (typed_frame pb t z) < 2 ^ 32" if "frame_fits pb z" for z
      using length_typed_frame [OF that] that by (simp add: frame_fits_def kFrameHeaderLen_def)
    from parse_typed_frame [OF that(2), of t "of_nat (length (typed_frame pb t x))" x "[]"]
      parse_typed_frame [OF that(3), of t "of_nat (length (typed_frame pb t y))" x "[]"]
    show ?thesis using that small by (simp add: unat_of_nat_small)
  qed
  show ?thesis
    using assms ty by (cases m; cases m') (auto dest: parse, (metis zero_neq_one)+)
qed

lemma typed_len_ok:
  assumes "length (typed_frame pb t m) < 2 ^ 32"
  shows "unat (of_nat (length (typed_frame pb t m)) :: 32 word) = length (typed_frame pb t m)"
    and "\<not> (of_nat (length (typed_frame pb t m)) :: 32 word) < 4"
proof -
  show u: "unat (of_nat (length (typed_frame pb t m)) :: 32 word) = length (typed_frame pb t m)"
    using assms by (rule unat_of_nat_small)
  have "4 \<le> length (typed_frame pb t m)" by (simp add: typed_frame_def)
  then show "\<not> (of_nat (length (typed_frame pb t m)) :: 32 word) < 4"
    using u by (simp add: word_less_nat_alt)
qed

lemma wire_grow:
  assumes "w = map f (take (length w) (m # map g fs))" and "length w \<le> length (m # map g fs)"
  shows "w = map f (take (length w) (m # map g (fs @ gs)))"
  using assms by (metis append_Cons map_append take_append append_Nil2 diff_is_0_eq take0)

lemma reply_mmap:
  assumes r: "dec_reply lib n (dec_frame lib (Mmap_msg q)) r" and "msg_fits lib (Mmap_msg q)"
  obtains resp where "frame_fits (mmap_resp_pb lib) resp" and "length r < 2 ^ 32"
    and "r = typed_frame (mmap_resp_pb lib) (dec_type kMmapInfo) resp" and "length (mir_mmaps resp) = n"
proof -
  have "Mmap_msg q \<noteq> Fin_msg p" for p by simp
  with assms that show ?thesis unfolding dec_reply_def by (metis dec_frame_inj)
qed

lemma reply_fin:
  assumes r: "dec_reply lib n (dec_frame lib (Fin_msg q)) r" and "msg_fits lib (Fin_msg q)"
  obtains resp where "frame_fits (fin_resp_pb lib) resp" and "length r < 2 ^ 32"
    and "r = typed_frame (fin_resp_pb lib) (dec_type kDecompressFinish) resp"
    and "dfp_bufpair_id resp = dfr_bufpair_id q" and "dfp_data_inline resp = dfr_data_inline q"
proof -
  have "Fin_msg q \<noteq> Mmap_msg p" for p by simp
  with assms that show ?thesis unfolding dec_reply_def by (metis dec_frame_inj dec_msg.inject(2))
qed

text \<open>A typed message reaches its handler.\<close>

lemma onRecv_typed:
  assumes c: "dc_conn d = Some c" "dc_inflight_sends d = i # others" and resp: "length r < 2 ^ 32"
    and d1: "d1 = d\<lparr>dc_conn := Some (RdmaConnection_releaseSendBuf c i), dc_inflight_sends := others\<rparr>"
  shows "frame_fits (mmap_resp_pb lib) m \<Longrightarrow> r = typed_frame (mmap_resp_pb lib) (dec_type kMmapInfo) m \<Longrightarrow>
      handleMmapInfoResponse env d1 m = Inr (ok, d') \<Longrightarrow>
      DecompressClient_onRecvSuccess lib env d (r @ junk) (of_nat (length r)) = Inr d'"
    and "frame_fits (fin_resp_pb lib) f \<Longrightarrow> r = typed_frame (fin_resp_pb lib) (dec_type kDecompressFinish) f \<Longrightarrow>
      handleDecompressFinishResponse lib env d1 f = Inr (ok, d') \<Longrightarrow>
      DecompressClient_onRecvSuccess lib env d (r @ junk) (of_nat (length r)) = Inr d'"
proof -
  have frame_ne: "length (rdma_frame pb x) \<noteq> 0" for pb :: "'p pb" and x by (simp add: rdma_frame_def flip: length_greater_0_conv)
  {
    assume m: "frame_fits (mmap_resp_pb lib) m" "r = typed_frame (mmap_resp_pb lib) (dec_type kMmapInfo) m"
      "handleMmapInfoResponse env d1 m = Inr (ok, d')"
    note len = typed_len_ok [OF resp [unfolded m(2)]]
    have "parse_typed_msg (mmap_resp_pb lib) (left_mmap_resp lib) (r @ junk) (of_nat (length r))
        = Inr (int (length (rdma_frame (mmap_resp_pb lib) m)), m)"
      unfolding m(2) by (rule parse_typed_frame [OF m(1)]) (simp only: len(1) order_refl)
    moreover have "recv_type (r @ junk) = dec_type kMmapInfo" unfolding m(2) by (rule recv_type_frame [OF dec_type_range])
    ultimately show "DecompressClient_onRecvSuccess lib env d (r @ junk) (of_nat (length r)) = Inr d'"
      using c m(3) len(2) frame_ne [of "mmap_resp_pb lib" m]
      by (simp add: DecompressClient_onRecvSuccess_def with_conn_def d1 m(2))
  next
    assume f: "frame_fits (fin_resp_pb lib) f" "r = typed_frame (fin_resp_pb lib) (dec_type kDecompressFinish) f"
      "handleDecompressFinishResponse lib env d1 f = Inr (ok, d')"
    note len = typed_len_ok [OF resp [unfolded f(2)]]
    have "parse_typed_msg (fin_resp_pb lib) (left_fin_resp lib) (r @ junk) (of_nat (length r))
        = Inr (int (length (rdma_frame (fin_resp_pb lib) f)), f)"
      unfolding f(2) by (rule parse_typed_frame [OF f(1)]) (simp only: len(1) order_refl)
    moreover have "recv_type (r @ junk) = dec_type kDecompressFinish" unfolding f(2) by (rule recv_type_frame [OF dec_type_range])
    ultimately show "DecompressClient_onRecvSuccess lib env d (r @ junk) (of_nat (length r)) = Inr d'"
      using c f(3) len(2) frame_ne [of "fin_resp_pb lib" f]
      by (simp add: DecompressClient_onRecvSuccess_def with_conn_def d1 f(2))
  }
qed

lemma answer_stage:
  assumes env: "env_ok env" and st: "dec_stage lib env cont sz S r0 fs" and a: "ds_answered S < length (ds_wire S)"
    and r: "dec_reply lib (length (ce_bufpairs (dc_engine (ds_client S)))) (ds_wire S ! ds_answered S) r"
  obtains d' new where "DecompressClient_onRecvSuccess lib env (ds_client S) (r @ junk) (of_nat (length r)) = Inr d'"
    and "new @ pending_rdma_jobs d' = pending_rdma_jobs (ds_client S)"
    and "length (ce_bufpairs (dc_engine d')) = length (ce_bufpairs (dc_engine (ds_client S)))"
    and "dec_stage lib env cont sz (S\<lparr>ds_client := d', ds_answered := Suc (ds_answered S)\<rparr>) r0 (fs @ map finish_request new)"
proof -
  let ?d = "ds_client S" and ?a = "ds_answered S" and ?ms = "Mmap_msg r0 # map Fin_msg fs"
  have inv: "dec_ok lib cont sz ?d r0 fs ?a" and wire: "ds_wire S = map (dec_frame lib) (take (length (ds_wire S)) ?ms)"
    and order: "map ce_key (ds_submitted S) = map fr_key fs @ to_come ?d" and maps: "maps_env_ok env (length (ce_bufpairs (dc_engine ?d)))"
    using st by (simp_all add: dec_stage_def)
  have le: "length (ds_wire S) \<le> length ?ms" using arg_cong [OF wire, of length] by simp
  then have m: "ds_wire S ! ?a = dec_frame lib (?ms ! ?a)" using a wire by (metis (no_types, lifting) length_map nth_map nth_take)
  have fit: "msg_fits lib (?ms ! ?a)" using inv a le unfolding dec_ok_def by (meson less_le_trans nth_mem)
  from inv obtain c where c: "dc_conn ?d = Some c" "in_flight (dec_frame lib) c (dc_mem ?d) (dc_inflight_sends ?d) (drop ?a ?ms)"
    by (auto simp: dec_ok_def link_ok_def)
  then obtain i others where i: "dc_inflight_sends ?d = i # others"
    using a le by (cases "dc_inflight_sends ?d") (auto simp: in_flight_def)
  let ?d1 = "?d\<lparr>dc_conn := Some (RdmaConnection_releaseSendBuf c i), dc_inflight_sends := others\<rparr>"
  show ?thesis
  proof (cases ?a)
    case 0
    have m0: "dec_reply lib (length (ce_bufpairs (dc_engine ?d))) (dec_frame lib (Mmap_msg r0)) r" "msg_fits lib (Mmap_msg r0)"
      using r m fit 0 by simp_all
    obtain resp where resp: "frame_fits (mmap_resp_pb lib) resp" "length r < 2 ^ 32"
      "r = typed_frame (mmap_resp_pb lib) (dec_type kMmapInfo) resp" "length (mir_mmaps resp) = length (ce_bufpairs (dc_engine ?d))"
      by (rule reply_mmap [OF m0])
    have inv0: "dec_ok lib cont sz ?d r0 fs 0" using inv 0 by simp
    obtain d' where d': "handleMmapInfoResponse env ?d1 resp = Inr (True, d')" "dec_ok lib cont sz d' r0 fs 1" "to_come d' = to_come ?d"
      "length (ce_bufpairs (dc_engine d')) = length (ce_bufpairs (dc_engine ?d))" "pending_rdma_jobs d' = []" "pending_rdma_jobs ?d = []"
      by (rule mmapResponse_ok [OF env inv0 maps resp(4) c(1) i])
    have "DecompressClient_onRecvSuccess lib env ?d (r @ junk) (of_nat (length r)) = Inr d'"
      by (rule onRecv_typed(1) [OF c(1) i resp(2) refl resp(1,3) d'(1)])
    then show ?thesis using st 0 a d' by (intro that [of d' "[]"]) (auto simp: dec_stage_def Suc_le_eq)
  next
    case (Suc b)
    have a': "?a \<noteq> 0" "?a \<le> length fs" using Suc a le by simp_all
    have m1: "dec_reply lib (length (ce_bufpairs (dc_engine ?d))) (dec_frame lib (Fin_msg (fs ! (?a - 1)))) r"
      "msg_fits lib (Fin_msg (fs ! (?a - 1)))" using r m fit Suc a' by simp_all
    obtain resp where resp: "frame_fits (fin_resp_pb lib) resp" "length r < 2 ^ 32"
      "r = typed_frame (fin_resp_pb lib) (dec_type kDecompressFinish) resp"
      "dfp_bufpair_id resp = dfr_bufpair_id (fs ! (?a - 1))" "dfp_data_inline resp = dfr_data_inline (fs ! (?a - 1))"
      by (rule reply_fin [OF m1])
    obtain d' new where d': "handleDecompressFinishResponse lib env ?d1 resp = Inr (True, d')"
      and new: "new @ pending_rdma_jobs d' = pending_rdma_jobs ?d" and d'': 
      "dec_ok lib cont sz d' r0 (fs @ map finish_request new) (Suc ?a)"
      "map fr_key (fs @ map finish_request new) @ to_come d' = map fr_key fs @ to_come ?d"
      "length (ce_bufpairs (dc_engine d')) = length (ce_bufpairs (dc_engine ?d))"
      by (rule finResponse_ok [OF env inv a' resp(4,5) c(1) i])
    have "DecompressClient_onRecvSuccess lib env ?d (r @ junk) (of_nat (length r)) = Inr d'"
      by (rule onRecv_typed(2) [OF c(1) i resp(2) refl resp(1,3) d'])
    moreover have "map ce_key (ds_submitted S) = map fr_key (fs @ map finish_request new) @ to_come d'" using order d''(2) by simp
    ultimately show ?thesis using wire_grow [OF wire le, of "map finish_request new"] maps a d''(1,3) new
      by (intro that [of d' new]) (simp_all add: dec_stage_def Suc_le_eq)
  qed
qed

lemma submit_stage:
  assumes env: "env_ok env" and st: "dec_stage lib env cont sz S r0 fs" and e: "is_compressed e" "task_fits cont sz (dc_heap (ds_client S)) e"
    and fits: "\<forall>c. dc_conn (ds_client S) = Some c \<longrightarrow> fin_fits lib c (length (ce_bufpairs (dc_engine (ds_client S)))) (ce_key e)"
  obtains d' where "submitDecompressTask lib env (ds_client S) e = Inr d'" and "pending_rdma_jobs d' = pending_rdma_jobs (ds_client S)"
    and "length (ce_bufpairs (dc_engine d')) = length (ce_bufpairs (dc_engine (ds_client S)))"
    and "dec_stage lib env cont sz (S\<lparr>ds_client := d', ds_submitted := ds_submitted S @ [e]\<rparr>) r0 fs"
proof -
  have inv: "dec_ok lib cont sz (ds_client S) r0 fs (ds_answered S)" using st by (simp add: dec_stage_def)
  obtain d' where d': "submitDecompressTask lib env (ds_client S) e = Inr d'" "dec_ok lib cont sz d' r0 fs (ds_answered S)"
    "to_come d' = to_come (ds_client S) @ [ce_key e]" "length (ce_bufpairs (dc_engine d')) = length (ce_bufpairs (dc_engine (ds_client S)))"
    "pending_rdma_jobs d' = pending_rdma_jobs (ds_client S)"
    by (rule submit_ok [OF env inv e fits])
  then show ?thesis using st by (intro that [of d']) (auto simp: dec_stage_def)
qed

lemma card_stage:
  assumes st: "dec_stage lib env cont sz S r0 fs" and c: "dc_conn (ds_client S) = Some c" "length (ds_wire S) < length (posts c)"
  shows "dec_stage lib env cont sz (S\<lparr>ds_wire := ds_wire S @ [wire (dc_mem (ds_client S)) (posts c ! length (ds_wire S))]\<rparr>) r0 fs"
proof -
  let ?ms = "Mmap_msg r0 # map Fin_msg fs" and ?n = "length (ds_wire S)" and ?a = "ds_answered S"
  have a: "?a \<le> ?n" using st by (simp add: dec_stage_def)
  have fl: "in_flight (dec_frame lib) c (dc_mem (ds_client S)) (dc_inflight_sends (ds_client S)) (drop ?a ?ms)"
    and len: "length (posts c) = Suc (length fs)" using st c(1) by (auto simp: dec_stage_def dec_ok_def link_ok_def)
  have n: "?n < length ?ms" using c(2) len by simp
  have "drop ?a ?ms = take (?n - ?a) (drop ?a ?ms) @ drop ?n ?ms"
    using a by (metis append_take_drop_id drop_drop le_add_diff_inverse2)
  then have fl': "in_flight (dec_frame lib) c (dc_mem (ds_client S)) (dc_inflight_sends (ds_client S)) (take (?n - ?a) (drop ?a ?ms) @ drop ?n ?ms)"
    using fl by simp
  have "length (posts c) = ?n + length (drop ?n ?ms)" using n len by simp
  then obtain m R where R: "drop ?n ?ms = m # R" "wire (dc_mem (ds_client S)) (posts c ! ?n) = dec_frame lib m"
    by (rule in_flight_wire [OF fl' _ c(2)])
  have "m = ?ms ! ?n" using R(1) n by (metis Cons_nth_drop_Suc list.inject)
  then have "ds_wire S @ [wire (dc_mem (ds_client S)) (posts c ! ?n)] = map (dec_frame lib) (take (Suc ?n) ?ms)"
    using st R(2) n by (simp only: take_Suc_conv_app_nth dec_stage_def) simp
  moreover have "length (ds_wire S @ [wire (dc_mem (ds_client S)) (posts c ! ?n)]) = Suc ?n" by simp
  ultimately show ?thesis using st unfolding dec_stage_def
    by (simp only: dec_system.simps) (simp del: take_Suc_Cons)
qed

lemma done_stage:
  assumes env: "env_ok env" and st: "dec_stage lib env cont sz S r0 fs" and w: "workq (dc_engine (ds_client S)) = job # rest"
  obtains d' e' new where "CompressEngine_handleRead (DecompressClient_engine_callbacks lib env) (ds_client S, dc_engine (ds_client S))
      DOCA_SUCCESS (Inr (0, job_user_data job)) (Inr src_len) (Inr dst_len) arm_again = Inr (d', e')"
    and "new @ pending_rdma_jobs d' = pending_rdma_jobs (ds_client S) @ [job_report (compress_job (ds_client S)) dst_len]"
    and "length (ce_bufpairs e') = length (ce_bufpairs (dc_engine (ds_client S)))"
    and "dec_stage lib env cont sz (S\<lparr>ds_client := d'\<lparr>dc_engine := e'\<rparr>\<rparr>) r0 (fs @ map finish_request new)"
proof -
  let ?d = "ds_client S" and ?e = "dc_engine (ds_client S)"
  let ?e1 = "?e\<lparr>engine_busy := False, workq := [], ev_armed := False\<rparr>"
  have inv: "dec_ok lib cont sz ?d r0 fs (ds_answered S)"
    and wire: "ds_wire S = map (dec_frame lib) (take (length (ds_wire S)) (Mmap_msg r0 # map Fin_msg fs))"
    using st by (simp_all add: dec_stage_def)
  have le: "length (ds_wire S) \<le> length (Mmap_msg r0 # map Fin_msg fs)" using arg_cong [OF wire, of length] by simp
  have "engine_ok cont sz ?d (pairs_of fs (ds_answered S) ?d)" using inv by (simp add: dec_ok_def)
  then have busy: "decompress_busy ?d" and rest: "rest = []" and i: "ongoing_bufpair_id ?e < length (ce_bufpairs ?e)"
    using w by (auto simp: engine_ok_def split: if_splits)
  obtain d1 new where d1: "onDecompressTaskSuccess lib env (?d\<lparr>dc_engine := ?e1\<rparr>) dst_len = Inr d1"
    "new @ pending_rdma_jobs d1 = pending_rdma_jobs ?d @ [job_report (compress_job ?d) dst_len]"
    "dec_ok lib cont sz d1 r0 (fs @ map finish_request new) (ds_answered S)"
    "map fr_key (fs @ map finish_request new) @ to_come d1 = map fr_key fs @ to_come ?d"
    "length (ce_bufpairs (dc_engine d1)) = length (ce_bufpairs ?e)"
    by (rule taskSuccess_ok [OF env inv busy refl])
  let ?e2 = "if arm_again = DOCA_SUCCESS then (dc_engine d1)\<lparr>ev_armed := True\<rparr> else dc_engine d1"
  have run: "CompressEngine_handleRead (DecompressClient_engine_callbacks lib env) (?d, ?e)
      DOCA_SUCCESS (Inr (0, job_user_data job)) (Inr src_len) (Inr dst_len) arm_again = Inr (d1, ?e2)"
    using w rest i d1(1) by (simp add: CompressEngine_handleRead_def DocaCore_retrieve_job_once_def retrieved_def
        CompressEngine_get_bufpair_def DecompressClient_engine_callbacks_def)
  have "dec_ok lib cont sz (d1\<lparr>dc_engine := ?e2\<rparr>) r0 (fs @ map finish_request new) (ds_answered S)"
    using d1(3) dec_ok_armed [where d = d1] by simp
  moreover have "to_come (d1\<lparr>dc_engine := ?e2\<rparr>) = to_come d1" by (simp add: to_come_def running_job_def)
  moreover have "ds_wire S = map (dec_frame lib) (take (length (ds_wire S)) (Mmap_msg r0 # map Fin_msg (fs @ map finish_request new)))"
    by (rule wire_grow [OF wire le])
  ultimately have "dec_stage lib env cont sz (S\<lparr>ds_client := d1\<lparr>dc_engine := ?e2\<rparr>\<rparr>) r0 (fs @ map finish_request new)"
    using st d1(4,5) by (simp add: dec_stage_def)
  moreover have "length (ce_bufpairs ?e2) = length (ce_bufpairs ?e)" using d1(5) by simp
  ultimately show ?thesis using run d1(2) by (intro that)
qed

lemma threads_stage:
  assumes "dec_stage lib env cont sz S r0 fs" and "\<forall>t \<in> set (pending_compress_jobs (ds_client S)). task_fits cont sz h t"
  shows "dec_stage lib env cont sz (S\<lparr>ds_client := (ds_client S)\<lparr>dc_heap := h\<rparr>\<rparr>) r0 fs"
proof -
  let ?d = "(ds_client S)\<lparr>dc_heap := h\<rparr>"
  have "to_come ?d = to_come (ds_client S)" "pairs_of fs a ?d = pairs_of fs a (ds_client S)" for a
    by (simp_all add: to_come_def running_job_def pairs_of_def)
  moreover have "link_ok lib ?d ms n ks = link_ok lib (ds_client S) ms n ks" for ms n ks by (simp add: link_ok_def)
  moreover have "engine_ok cont sz (ds_client S) held \<Longrightarrow> engine_ok cont sz ?d held" for held
    using assms(2) by (cases "decompress_busy (ds_client S)") (simp_all add: engine_ok_def running_job_def)
  ultimately show ?thesis using assms(1) by (simp add: dec_stage_def dec_ok_def waits_ok_def work_conserving_def)
qed

section \<open>The start\<close>

text \<open>
  The client is connected with idle hardware and all buffers free. Segments handed over before the
  connection wait in the queue.
\<close>

definition mmap_request :: "nat \<Rightarrow> MmapInfoRequest" where
  "mmap_request n = \<lparr>mmap_num = sint (of_nat n :: 32 word)\<rparr>"

definition mmap_fits :: "dec_lib \<Rightarrow> RdmaConnection \<Rightarrow> nat \<Rightarrow> bool" where
  "mmap_fits lib c n \<longleftrightarrow> frame_fits (mmap_req_pb lib) (mmap_request n)
     \<and> (\<forall>b \<in> set (bufpairs c). length (typed_frame (mmap_req_pb lib) (dec_type kMmapInfo) (mmap_request n)) \<le> send_cap b)"

definition dec_init :: "dec_lib \<Rightarrow> dec_env \<Rightarrow> (seg_key \<Rightarrow> byte list) \<Rightarrow> nat \<Rightarrow> dec_system \<Rightarrow> bool" where
  "dec_init lib env cont sz S \<longleftrightarrow> env_ok env \<and> ds_wire S = [] \<and> ds_answered S = 0 \<and> (\<exists>e h M c.
     DecompressClient_onConnected lib env ((DecompressClient_new e h M)\<lparr>pending_compress_jobs := ds_submitted S\<rparr>) c = Inr (ds_client S)
     \<and> bufs_ok c M [] \<and> sq c = [] \<and> bufpairs c \<noteq> []
     \<and> pairs_ok e [] \<and> \<not> engine_busy e \<and> workq e = [] \<and> src_sized e sz \<and> maps_env_ok env (length (ce_bufpairs e))
     \<and> mmap_fits lib c (length (ce_bufpairs e))
     \<and> (\<forall>t \<in> set (ds_submitted S). is_compressed t \<and> task_fits cont sz h t \<and> fin_fits lib c (length (ce_bufpairs e)) (ce_key t)))"

lemma dec_connected_ok:
  assumes env: "env_ok env" and c: "bufs_ok c (dc_mem d) []" "sq c = []" "bufpairs c \<noteq> []" and d: "dc_inflight_sends d = []"
    and fits: "mmap_fits lib c (length (ce_bufpairs (dc_engine d)))"
  obtains d' c' r0 where "r0 = mmap_request (length (ce_bufpairs (dc_engine d)))" and "DecompressClient_onConnected lib env d c = Inr d'" and "link_only d d'" and "dc_conn d' = Some c'"
    and "in_flight (dec_frame lib) c' (dc_mem d') (dc_inflight_sends d') [Mmap_msg r0]" and "length (posts c') = 1"
    and "bufpairs c' = bufpairs c" and "pending_rdma_jobs d' = pending_rdma_jobs d"
proof -
  have "length (free_bufpairs c) = length (bufpairs c)" using bufs_ok_free [OF c(1)] by simp
  then obtain i r where free: "free_bufpairs c = i # r" using c(3) by (cases "free_bufpairs c") auto
  note a = acquire_first [OF c(1) free]
  define r0 where "r0 = mmap_request (length (ce_bufpairs (dc_engine d)))"
  let ?f = "typed_frame (mmap_req_pb lib) (dec_type kMmapInfo) r0" and ?h = "send_header (bufpairs c ! i)" and ?w = "dc_wr_id d"
  let ?bs = "?f @ drop (length ?f) (dc_mem d ?h)"
  let ?b = "\<lparr>sb_id = i, sb_addr = ?h, sb_cap = send_cap (bufpairs c ! i)\<rparr>"
  have f: "frame_fits (mmap_req_pb lib) r0" "length ?f \<le> send_cap (bufpairs c ! i)" using fits a(3) by (simp_all add: mmap_fits_def r0_def)
  have len: "length ?f = length (rdma_frame (mmap_req_pb lib) r0) + sizeof_MsgType" by (simp add: typed_frame_def sizeof_MsgType_def)
  have store: "store_typed_msg (mmap_req_pb lib) (dc_mem d) ?b (dec_type kMmapInfo) r0
      = Inr (int (length (rdma_frame (mmap_req_pb lib) r0)), (dc_mem d)(?h := ?bs))"
    using store_typed_msg_ok [OF f(1), of "dc_mem d" ?b "dec_type kMmapInfo"] a(4,5) f(2) by simp
  have mod32: "length ?f mod 2 ^ 32 = length ?f" using f(2) a(5) by simp
  define c' where "c' = RdmaConnection_send True (c\<lparr>free_bufpairs := r\<rparr>) (?h, length (dec_frame lib (Mmap_msg r0)), ?w) 0"
  have fl: "in_flight (dec_frame lib) c (dc_mem d) (dc_inflight_sends d) []" using c(1) d by (simp add: in_flight_def)
  have bs: "length ?bs = length (dc_mem d ?h)" "take (length (dec_frame lib (Mmap_msg r0))) ?bs = dec_frame lib (Mmap_msg r0)"
    using a(4) f(2) by simp_all
  note post = in_flight_post [OF fl free bs c'_def]
  define d' where "d' = d\<lparr>dc_conn := Some c', dc_inflight_sends := dc_inflight_sends d @ [i], dc_mem := (dc_mem d)(?h := ?bs),
    dc_wr_id := inc64 ?w\<rparr>"
  have "DecompressClient_onConnected lib env d c = Inr d'"
    using store [unfolded r0_def mmap_request_def] env mod32 len a(1)
    by (simp add: DecompressClient_onConnected_def Let_def d'_def c'_def env_ok_def r0_def mmap_request_def)
  moreover have "length (posts c') = 1" using post(2) c(2) by (simp add: posts_def)
  ultimately show ?thesis using post by (intro that [OF r0_def, of d' c']) (simp_all add: d'_def link_only_def)
qed

lemma dec_init_stage:
  assumes "dec_init lib env cont sz S"
  shows "env_ok env" and "dec_stage lib env cont sz S (mmap_request (length (ce_bufpairs (dc_engine (ds_client S))))) []"
    and "pending_rdma_jobs (ds_client S) = []"
proof -
  from assms obtain e h M c where env: "env_ok env" and w: "ds_wire S = []" "ds_answered S = 0"
    and run: "DecompressClient_onConnected lib env ((DecompressClient_new e h M)\<lparr>pending_compress_jobs := ds_submitted S\<rparr>) c = Inr (ds_client S)"
    and c: "bufs_ok c M []" "sq c = []" "bufpairs c \<noteq> []"
    and e: "pairs_ok e []" "\<not> engine_busy e" "workq e = []" "src_sized e sz" and maps: "maps_env_ok env (length (ce_bufpairs e))"
    and fits: "mmap_fits lib c (length (ce_bufpairs e))"
    and tasks: "\<forall>t \<in> set (ds_submitted S). is_compressed t \<and> task_fits cont sz h t \<and> fin_fits lib c (length (ce_bufpairs e)) (ce_key t)"
    unfolding dec_init_def by blast
  let ?d = "(DecompressClient_new e h M)\<lparr>pending_compress_jobs := ds_submitted S\<rparr>"
  have pre: "bufs_ok c (dc_mem ?d) []" "dc_inflight_sends ?d = []" and fits': "mmap_fits lib c (length (ce_bufpairs (dc_engine ?d)))"
    using c(1) fits by (simp_all add: DecompressClient_new_def)
  obtain d' c' r0 where r0: "r0 = mmap_request (length (ce_bufpairs (dc_engine ?d)))" and d': "DecompressClient_onConnected lib env ?d c = Inr d'" "link_only ?d d'" "dc_conn d' = Some c'"
    "in_flight (dec_frame lib) c' (dc_mem d') (dc_inflight_sends d') [Mmap_msg r0]" "length (posts c') = 1"
    "bufpairs c' = bufpairs c" "pending_rdma_jobs d' = pending_rdma_jobs ?d"
    by (rule dec_connected_ok [OF env pre(1) c(2,3) pre(2) fits'])
  have eq: "ds_client S = d'" using run d'(1) by simp
  have f: "dc_engine d' = e" "dc_heap d' = h" "pending_compress_jobs d' = ds_submitted S" "\<not> decompress_busy d'" "\<not> dc_connected d'"
    "pending_rdma_jobs d' = []" using d'(2,7) by (simp_all add: link_only_def DecompressClient_new_def)
  have tc: "to_come d' = map ce_key (ds_submitted S)" using f by (simp add: to_come_def running_job_def)
  have "link_ok lib d' [Mmap_msg r0] 1 (set (to_come d'))"
    using d' c(3) tasks f tc by (auto simp: link_ok_def fin_fits_def)
  moreover have "engine_ok cont sz d' []" using e f tasks by (simp add: engine_ok_def running_job_def)
  ultimately have "dec_ok lib cont sz d' r0 [] 0"
    using f fits r0 by (simp add: dec_ok_def waits_ok_def pairs_of_def work_conserving_def mmap_fits_def DecompressClient_new_def)
  moreover have "r0 = mmap_request (length (ce_bufpairs (dc_engine d')))" using r0 f(1) by (simp add: DecompressClient_new_def)
  ultimately show "dec_stage lib env cont sz S (mmap_request (length (ce_bufpairs (dc_engine (ds_client S))))) []"
    unfolding dec_stage_def using w maps tc f eq by simp
  show "env_ok env" "pending_rdma_jobs (ds_client S) = []" using env eq f(6) by simp_all
qed

lemma dec_init_inv: "dec_init lib env cont sz S \<Longrightarrow> dec_inv lib env cont sz S"
  using dec_init_stage by (fastforce simp: dec_inv_def)

lemma dec_step_inv:
  assumes "dec_inv lib env cont sz S" and "dec_step lib env cont sz S S'"
  shows "dec_inv lib env cont sz S'"
proof -
  from assms(1) obtain r0 fs where env: "env_ok env" and st: "dec_stage lib env cont sz S r0 fs" by (auto simp: dec_inv_def)
  from assms(2) have "\<exists>fs'. dec_stage lib env cont sz S' r0 fs'"
  proof cases
    case (Submit e d')
    with submit_stage [OF env st Submit(2,3,4)] show ?thesis by (metis sum.inject(2))
  next
    case (Dec_card c)
    with card_stage [OF st] show ?thesis by blast
  next
    case (Job_done job rest src_len dst_len arm_again d' e')
    with done_stage [OF env st Job_done(2), of src_len dst_len arm_again] show ?thesis by (metis prod.inject sum.inject(2))
  next
    case (Host_answer r junk d')
    with answer_stage [OF env st Host_answer(2,3), of junk] show ?thesis by (metis sum.inject(2))
  next
    case (Other_threads h)
    with threads_stage [OF st] show ?thesis by blast
  qed
  with env show ?thesis by (auto simp: dec_inv_def)
qed

interpretation dec_sys: invariant_system "dec_init lib env cont sz" "dec_step lib env cont sz" "dec_inv lib env cont sz"
  by unfold_locales (blast intro: dec_init_inv dec_step_inv)+

section \<open>Consequences of the invariant\<close>

lemma wire_bound: "w = map f (take (length w) ms) \<Longrightarrow> length w \<le> length ms"
  by (drule arg_cong [of _ _ length]) simp

lemma stage_quiet:
  assumes st: "dec_stage lib env cont sz S r0 fs" and quiet: "dc_inflight_sends (ds_client S) = []" "\<not> decompress_busy (ds_client S)"
    and ne: "ce_bufpairs (dc_engine (ds_client S)) \<noteq> []"
  shows "to_come (ds_client S) = []" and "length (ds_wire S) = Suc (length fs)"
proof -
  let ?d = "ds_client S" and ?a = "ds_answered S" and ?ms = "Mmap_msg r0 # map Fin_msg fs"
  have inv: "dec_ok lib cont sz ?d r0 fs ?a" and w: "ds_wire S = map (dec_frame lib) (take (length (ds_wire S)) ?ms)"
    and le: "?a \<le> length (ds_wire S)" using st by (simp_all add: dec_stage_def)
  from inv obtain c where c: "dc_conn ?d = Some c" "in_flight (dec_frame lib) c (dc_mem ?d) [] (drop ?a ?ms)" "bufpairs c \<noteq> []"
    using quiet(1) by (auto simp: dec_ok_def link_ok_def)
  have all: "?a = Suc (length fs)" using c(2) inv by (auto simp: in_flight_def dec_ok_def)
  show "length (ds_wire S) = Suc (length fs)" using wire_bound [OF w] le all by simp
  have "length (free_bufpairs c) = length (bufpairs c)" using in_flight_count [OF c(2)] all by simp
  then have pend: "pending_rdma_jobs ?d = []" using inv c(1,3) by (auto simp: dec_ok_def waits_ok_def)
  then have "engine_ok cont sz ?d []" using inv all by (auto simp: dec_ok_def pairs_of_def)
  then have "length (ce_free_bufpairs (dc_engine ?d)) = length (ce_bufpairs (dc_engine ?d))"
    using quiet(2) pool_split_length by (fastforce simp: engine_ok_def pairs_ok_def free_pairs_def running_job_def)
  then have "pending_compress_jobs ?d = []" using inv all quiet(2) ne by (auto simp: dec_ok_def work_conserving_def)
  with pend quiet(2) show "to_come ?d = []" by (simp add: to_come_def running_job_def)
qed

lemma stage_pair_free:
  assumes st: "dec_stage lib env cont sz S r0 fs" and busy: "decompress_busy (ds_client S)"
    and j: "ds_answered S \<le> j" "j < length (ds_wire S)" and m: "ds_wire S ! j = dec_frame lib (Fin_msg r)" "msg_fits lib (Fin_msg r)"
  shows "dfr_bufpair_id r \<noteq> ji_bufpair_id (compress_job (ds_client S))"
proof -
  let ?d = "ds_client S" and ?a = "ds_answered S" and ?ms = "Mmap_msg r0 # map Fin_msg fs"
  have inv: "dec_ok lib cont sz ?d r0 fs ?a" and w: "ds_wire S = map (dec_frame lib) (take (length (ds_wire S)) ?ms)"
    using st by (simp_all add: dec_stage_def)
  have len: "j < length ?ms" using wire_bound [OF w] j(2) by simp
  have "ds_wire S ! j = dec_frame lib (?ms ! j)" using j(2) w len by (metis (no_types, lifting) length_map nth_map nth_take)
  moreover have "msg_fits lib (?ms ! j)" using inv len unfolding dec_ok_def by (meson nth_mem)
  ultimately have ms: "?ms ! j = Fin_msg r" using m dec_frame_inj by metis
  then obtain b where b: "j = Suc b" "b < length fs" "fs ! b = r" using len by (cases j) auto
  have eng: "engine_ok cont sz ?d (pairs_of fs ?a ?d)" and a: "?a \<noteq> 0" using inv busy by (auto simp: dec_ok_def engine_ok_def)
  have "r = drop (?a - 1) fs ! (b - (?a - 1))" "b - (?a - 1) < length (drop (?a - 1) fs)" using b j(1) a by simp_all
  then have "r \<in> set (drop (?a - 1) fs)" by (metis nth_mem)
  then have "nat (dfr_bufpair_id r) \<in> set (pairs_of fs ?a ?d)" by (simp add: pairs_of_def)
  moreover have "distinct (pairs_of fs ?a ?d @ [nat (ji_bufpair_id (compress_job ?d))])"
    using eng busy pool_split_distinct(2) unfolding engine_ok_def pairs_ok_def running_job_def by fastforce
  ultimately show ?thesis by auto
qed

section \<open>Segments that are not compressed\<close>

text \<open>
  A segment that is not compressed goes past the queue and the running job: it is sent at once or waits with the
  finished segments only. The steps of the system above hand over compressed segments, as a content server with the
  default setting of its flag does; with both kinds the order is lost.
\<close>

lemma send_finish_queues:
  assumes "sendDecompressFinishRequest lib env d info b = Inr d'"
  shows "pending_compress_jobs d' = pending_compress_jobs d" and "decompress_busy d' = decompress_busy d"
    and "compress_job d' = compress_job d" and "pending_rdma_jobs d' = pending_rdma_jobs d"
  using assms by (auto simp: sendDecompressFinishRequest_def Let_def with_conn_def res_simps split: if_splits option.splits)

lemma uncompressed_overtakes:
  assumes "\<not> is_compressed e" and "submitDecompressTask lib env d e = Inr d'"
  shows "pending_compress_jobs d' = pending_compress_jobs d" and "running_job d' = running_job d"
    and "pending_rdma_jobs d' = pending_rdma_jobs d \<or> (\<exists>info. ri_key info = ce_key e \<and> pending_rdma_jobs d' = pending_rdma_jobs d @ [info])"
proof -
  define info where "info = \<lparr>ri_image_name_tag = image_name_tag e, ri_layer = layer e, ri_total_segments = total_segments e,
    ri_segment_idx = segment_idx e, ri_dst_len = blob_size (segment e), ri_mmap_id = 0, ri_data_inline = True, ri_segment = segment e\<rparr>"
  have key: "ri_key info = ce_key e" by (simp add: info_def ri_key_def ce_key_def)
  have "send_or_wait lib env d info = Inr d'" using assms by (simp add: submitDecompressTask_def info_def)
  then obtain c r c1 where c: "dc_conn d = Some c" "RdmaConnection_acquireFreeSendBuf c = Inr (r, c1)" and
    r: "(case r of Some b \<Rightarrow> sendDecompressFinishRequest lib env (d\<lparr>dc_conn := Some c1\<rparr>) info b
       | None \<Rightarrow> Inr (d\<lparr>dc_conn := Some c1, pending_rdma_jobs := pending_rdma_jobs d @ [info]\<rparr>)) = Inr d'"
    by (auto simp: send_or_wait_def with_conn_def res_simps split: option.splits)
  have run: "running_job (d\<lparr>dc_conn := x\<rparr>) = running_job d" "running_job (d\<lparr>dc_conn := x, pending_rdma_jobs := ps\<rparr>) = running_job d" for x ps
    by (simp_all add: running_job_def)
  have "pending_compress_jobs d' = pending_compress_jobs d \<and> running_job d' = running_job d
      \<and> (pending_rdma_jobs d' = pending_rdma_jobs d \<or> (\<exists>info. ri_key info = ce_key e \<and> pending_rdma_jobs d' = pending_rdma_jobs d @ [info]))"
  proof (cases r)
    case None
    with r run key show ?thesis by auto
  next
    case (Some b)
    with r have "sendDecompressFinishRequest lib env (d\<lparr>dc_conn := Some c1\<rparr>) info b = Inr d'" by simp
    note q = send_finish_queues [OF this]
    then have "running_job d' = running_job d" by (simp add: running_job_def)
    with q show ?thesis by simp
  qed
  then show "pending_compress_jobs d' = pending_compress_jobs d" "running_job d' = running_job d"
    "pending_rdma_jobs d' = pending_rdma_jobs d \<or> (\<exists>info. ri_key info = ce_key e \<and> pending_rdma_jobs d' = pending_rdma_jobs d @ [info])"
    by blast+
qed

section \<open>A sample client\<close>

definition sample_fin_pb :: "DecompressFinishRequest pb" where
  "sample_fin_pb = \<lparr>ByteSizeLong = (\<lambda>_. 5),
     SerializeAsString = (\<lambda>r. of_int (dfr_bufpair_id r) # le_bytes 4 (word_of_int (dfr_segment_size r) :: 32 word)),
     SerializeToArray = (\<lambda>n r. Some (of_int (dfr_bufpair_id r) # le_bytes 4 (word_of_int (dfr_segment_size r) :: 32 word))),
     ParseFromArray = (\<lambda>mem n. Some \<lparr>dfr_layer_name = ''l'', dfr_image_name_tag = ''i'',
       dfr_segment_size = sint (le_word (take 4 (tl mem)) :: 32 word), dfr_segment_idx = 0, dfr_total_segments = 2,
       dfr_bufpair_id = uint (hd mem), dfr_data_inline = False\<rparr>)\<rparr>"

definition const_pb :: "'m \<Rightarrow> 'm pb" where
  "const_pb m = \<lparr>ByteSizeLong = (\<lambda>_. 0), SerializeAsString = (\<lambda>_. []), SerializeToArray = (\<lambda>_ _. Some []),
     ParseFromArray = (\<lambda>_ _. Some m)\<rparr>"

definition sample_maps :: MmapInfoResponse where
  "sample_maps = \<lparr>mir_mmaps = map (\<lambda>i. \<lparr>mie_addr = 16 * i, mie_len = 134217728, mie_export_desc = [1]\<rparr>) [0, 1]\<rparr>"

definition sample_fin :: "int \<Rightarrow> DecompressFinishResponse" where
  "sample_fin i = \<lparr>dfp_success = True, dfp_layer_name = ''l'', dfp_segment_idx = 0, dfp_data_inline = False, dfp_bufpair_id = i\<rparr>"

definition sample_fin_resp_pb :: "DecompressFinishResponse pb" where
  "sample_fin_resp_pb = \<lparr>ByteSizeLong = (\<lambda>_. 1), SerializeAsString = (\<lambda>r. [of_int (dfp_bufpair_id r)]),
     SerializeToArray = (\<lambda>n r. Some [of_int (dfp_bufpair_id r)]), ParseFromArray = (\<lambda>mem n. Some (sample_fin (uint (hd mem))))\<rparr>"

definition sample_dec_lib :: dec_lib where
  "sample_dec_lib = \<lparr>mmap_req_pb = const_pb (mmap_request 2), mmap_resp_pb = const_pb sample_maps,
     fin_req_pb = sample_fin_pb, fin_resp_pb = sample_fin_resp_pb, left_mmap_resp = sample_maps, left_fin_resp = sample_fin 0\<rparr>"

definition sample_map_outcome :: mmap_outcome where
  "sample_map_outcome = \<lparr>mmap_create_res = Inr 1, mmap_dev_add_res = DOCA_SUCCESS, mmap_range_res = DOCA_SUCCESS,
     mmap_perm_res = DOCA_SUCCESS, mmap_buf_res = Inr 5\<rparr>"

definition sample_dec_env :: dec_env where
  "sample_dec_env = \<lparr>post_err = (\<lambda>_. 0), set_data_res = (\<lambda>_. DOCA_SUCCESS), submit_res = (\<lambda>_. DOCA_SUCCESS),
     src_mem_addr = (\<lambda>i. 16 * i), src_map_outcomes = replicate 2 sample_map_outcome,
     import_outcomes = replicate 2 (sample_map_outcome, DOCA_SUCCESS)\<rparr>"

text \<open>The first of two segments, of three bytes, and an engine with two pairs that take as many.\<close>

definition sample_cont :: "seg_key \<Rightarrow> byte list" where
  "sample_cont k = [1, 2, 3]"

definition dpu_engine :: CompressEngine where
  "dpu_engine = CompressEngine_new sample_core 4 3 2 2"

definition sample_task :: ContentElement where
  "sample_task = \<lparr>segment = \<lparr>blob_addr = Some 0, blob_capacity = 3, blob_size = 3\<rparr>, segment_idx = 0, total_segments = 2, layer = ''l'', image_name_tag = ''i'', is_compressed = True\<rparr>"

lemma sample_fin_fits: "fin_fits sample_dec_lib sample_conn 2 (ce_key sample_task)"
  unfolding fin_fits_def
proof (intro allI impI)
  fix r assume r: "fr_key r = ce_key sample_task \<and> \<not> dfr_data_inline r \<and> 0 \<le> dfr_bufpair_id r \<and> dfr_bufpair_id r < int 2
       \<and> - (2 ^ 31) \<le> dfr_segment_size r \<and> dfr_segment_size r < 2 ^ 31"
  then have "uint (of_int (dfr_bufpair_id r) :: byte) = dfr_bufpair_id r"
    by (simp add: uint_word_of_int)
  moreover have "sint (word_of_int (dfr_segment_size r) :: 32 word) = dfr_segment_size r"
    using r by (simp add: sint_sbintrunc' signed_take_bit_int_eq_self)
  ultimately have "frame_fits (fin_req_pb sample_dec_lib) r"
    using r by (cases r) (simp add: frame_fits_def pb_law_def sample_dec_lib_def sample_fin_pb_def kFrameHeaderLen_def
        fr_key_def ce_key_def sample_task_def)
  moreover have "length (typed_frame (fin_req_pb sample_dec_lib) (dec_type kDecompressFinish) r) = 13"
    by (simp add: typed_frame_def rdma_frame_def sample_dec_lib_def sample_fin_pb_def)
  ultimately show "frame_fits (fin_req_pb sample_dec_lib) r \<and> (\<forall>b \<in> set (bufpairs sample_conn).
      length (typed_frame (fin_req_pb sample_dec_lib) (dec_type kDecompressFinish) r) \<le> send_cap b)"
    by (simp add: sample_bufpairs)
qed

lemma const_fits: "frame_fits (const_pb m) m" "length (typed_frame (const_pb m) t x) = 8"
  by (simp_all add: frame_fits_def pb_law_def const_pb_def kFrameHeaderLen_def typed_frame_def rdma_frame_def)

lemma sample_dec_init:
  assumes ts: "set ts \<subseteq> {sample_task}"
  obtains S where "dec_init sample_dec_lib sample_dec_env sample_cont 3 S" and "ds_submitted S = ts"
    and "\<And>c. dc_conn (ds_client S) = Some c \<Longrightarrow> length (bufpairs c) = 2"
proof -
  let ?h = "\<lparr>bh_pool = BlobPool_new 0 0 0, bh_mem = \<lambda>_. [1, 2, 3]\<rparr>"
  let ?d = "(DecompressClient_new dpu_engine ?h sample_mem)\<lparr>pending_compress_jobs := ts\<rparr>"
  have n: "length (ce_bufpairs dpu_engine) = 2" by (simp add: dpu_engine_def CompressEngine_new_def)
  have env: "env_ok sample_dec_env" by (simp add: env_ok_def sample_dec_env_def)
  have maps: "maps_env_ok sample_dec_env 2" by (simp add: maps_env_ok_def sample_dec_env_def map_ok_def sample_map_outcome_def)
  have fits: "mmap_fits sample_dec_lib sample_conn (length (ce_bufpairs (dc_engine ?d)))"
    using const_fits [of "mmap_request 2"] n
    by (simp add: mmap_fits_def sample_dec_lib_def sample_bufpairs DecompressClient_new_def)
  have eng: "pairs_ok dpu_engine []" "\<not> engine_busy dpu_engine" "workq dpu_engine = []" "src_sized dpu_engine 3"
    by (auto simp: dpu_engine_def CompressEngine_new_def pairs_ok_def free_pairs_def src_sized_def DocaBufPair_new_def
        comp_def pool_split_init)
  have "sq sample_conn = []" by (simp add: sample_conn_def)
  then have c: "bufs_ok sample_conn (dc_mem ?d) []" "sq sample_conn = []" "bufpairs sample_conn \<noteq> []" "dc_inflight_sends ?d = []"
    using sample_bufs by (simp_all add: sample_bufpairs DecompressClient_new_def)
  obtain d' c' where d': "DecompressClient_onConnected sample_dec_lib sample_dec_env ?d sample_conn = Inr d'"
    "dc_conn d' = Some c'" "bufpairs c' = bufpairs sample_conn"
    using dec_connected_ok [OF env c fits] by metis
  have task: "task_fits sample_cont 3 ?h sample_task"
    by (simp add: task_fits_def sample_task_def blob_bytes_def sample_cont_def)
  let ?S = "\<lparr>ds_client = d', ds_wire = [], ds_answered = 0, ds_submitted = ts\<rparr>"
  have "dec_init sample_dec_lib sample_dec_env sample_cont 3 ?S"
    unfolding dec_init_def
    using env maps fits eng c d'(1) n task sample_fin_fits ts
    by (intro conjI exI [of _ dpu_engine] exI [of _ ?h] exI [of _ sample_mem] exI [of _ sample_conn])
       (auto simp: DecompressClient_new_def sample_task_def)
  then show ?thesis using d'(2,3) by (intro that [of ?S]) (simp_all add: sample_bufpairs)
qed

section \<open>Properties\<close>

text \<open>
  C6. Compressed segments leave the decompress client in the order in which they came: in every run in which only
  compressed segments are submitted and the calls to the hardware and the card succeed, whatever
  the interleaving of submissions, completions of the hardware, the network card and the answers of the
  host, the messages sent are the request for the memory maps and then reports of finished segments, and
  these reports, then the finished segments that wait for a send buffer, the running job and the queue
  are the segments submitted, in order and without loss. When every message is answered and the
  hardware is idle, every segment has been reported. (A segment that is not compressed overtakes those that are not
  decompressed yet: lemma \<open>uncompressed_overtakes\<close>.)
\<close>

theorem segments_decompressed_in_order:
  assumes "dec_init lib env cont sz S0" and "(dec_step lib env cont sz)\<^sup>*\<^sup>* S0 S"
  shows "\<exists>r0 fs. ds_wire S = map (dec_frame lib) (take (length (ds_wire S)) (Mmap_msg r0 # map Fin_msg fs))
    \<and> map ce_key (ds_submitted S) = map fr_key fs @ to_come (ds_client S)
    \<and> (dc_inflight_sends (ds_client S) = [] \<and> \<not> decompress_busy (ds_client S) \<and> ce_bufpairs (dc_engine (ds_client S)) \<noteq> []
       \<longrightarrow> map ce_key (ds_submitted S) = map fr_key fs \<and> length (ds_wire S) = Suc (length fs))"
proof -
  from dec_sys.reachable_inv [OF assms] obtain r0 fs where st: "dec_stage lib env cont sz S r0 fs" by (auto simp: dec_inv_def)
  then have "ds_wire S = map (dec_frame lib) (take (length (ds_wire S)) (Mmap_msg r0 # map Fin_msg fs))"
    and order: "map ce_key (ds_submitted S) = map fr_key fs @ to_come (ds_client S)" by (simp_all add: dec_stage_def)
  with stage_quiet [OF st] show ?thesis by (intro exI [of _ r0] exI [of _ fs]) (simp add: order)
qed

theorem segments_decompressed_in_order_witness:
  "\<exists>(S :: dec_system) fs. ds_submitted S = [sample_task] \<and> map ce_key (ds_submitted S) = map fr_key fs @ to_come (ds_client S)"
proof -
  obtain S where S: "dec_init sample_dec_lib sample_dec_env sample_cont 3 S" "ds_submitted S = [sample_task]" using sample_dec_init [of "[sample_task]"] by auto
  from segments_decompressed_in_order [OF S(1) rtranclp.rtrancl_refl] S(2) show ?thesis by blast
qed

text \<open>
  C7. With compressed segments and calls to the hardware and the card that succeed, a buffer pair is used for one segment at a time
  and the decompress client does not fault: while a
  job runs, its source buffer begins with the bytes of its segment, and the host is not reading the
  destination buffer of that pair for an earlier segment; the completion of the job and every answer
  the host may give are handled without a failed assertion or undefined behaviour.
\<close>

theorem buffer_pairs_exclusive:
  assumes "dec_init lib env cont sz S0" and "(dec_step lib env cont sz)\<^sup>*\<^sup>* S0 S"
  shows "(decompress_busy (ds_client S) \<longrightarrow>
      take (length (cont (ji_key (compress_job (ds_client S)))))
        (src_mem (ce_bufpairs (dc_engine (ds_client S)) ! ongoing_bufpair_id (dc_engine (ds_client S))))
        = cont (ji_key (compress_job (ds_client S)))
      \<and> (\<forall>j r. ds_answered S \<le> j \<and> j < length (ds_wire S) \<and> ds_wire S ! j = dec_frame lib (Fin_msg r) \<and> msg_fits lib (Fin_msg r)
          \<longrightarrow> dfr_bufpair_id r \<noteq> int (ongoing_bufpair_id (dc_engine (ds_client S)))))
    \<and> (\<forall>job rest s n arm. workq (dc_engine (ds_client S)) = job # rest \<longrightarrow>
        (\<exists>r. CompressEngine_handleRead (DecompressClient_engine_callbacks lib env) (ds_client S, dc_engine (ds_client S))
          DOCA_SUCCESS (Inr (0, job_user_data job)) (Inr s) (Inr n) arm = Inr r))
    \<and> (\<forall>r junk. ds_answered S < length (ds_wire S) \<and>
        dec_reply lib (length (ce_bufpairs (dc_engine (ds_client S)))) (ds_wire S ! ds_answered S) r \<longrightarrow>
        (\<exists>d'. DecompressClient_onRecvSuccess lib env (ds_client S) (r @ junk) (of_nat (length r)) = Inr d'))"
proof -
  from dec_sys.reachable_inv [OF assms] obtain r0 fs where env: "env_ok env" and st: "dec_stage lib env cont sz S r0 fs"
    by (auto simp: dec_inv_def)
  then have eng: "engine_ok cont sz (ds_client S) (pairs_of fs (ds_answered S) (ds_client S))"
    by (simp add: dec_stage_def dec_ok_def)
  have fin: "\<exists>r. CompressEngine_handleRead (DecompressClient_engine_callbacks lib env) (ds_client S, dc_engine (ds_client S))
      DOCA_SUCCESS (Inr (0, job_user_data job)) (Inr s) (Inr n) arm = Inr r"
    if "workq (dc_engine (ds_client S)) = job # rest" for job rest s n arm
    using done_stage [OF env st that, of s n arm] by blast
  have answers: "\<exists>d'. DecompressClient_onRecvSuccess lib env (ds_client S) (r @ junk) (of_nat (length r)) = Inr d'"
    if "ds_answered S < length (ds_wire S)" "dec_reply lib (length (ce_bufpairs (dc_engine (ds_client S)))) (ds_wire S ! ds_answered S) r"
    for r junk using answer_stage [OF env st that, of junk] by blast
  show ?thesis
  proof (cases "decompress_busy (ds_client S)")
    case True
    then have "int (ongoing_bufpair_id (dc_engine (ds_client S))) = ji_bufpair_id (compress_job (ds_client S))"
      and src: "take (length (cont (ji_key (compress_job (ds_client S)))))
        (src_mem (ce_bufpairs (dc_engine (ds_client S)) ! ongoing_bufpair_id (dc_engine (ds_client S))))
        = cont (ji_key (compress_job (ds_client S)))" using eng by (simp_all add: engine_ok_def)
    with stage_pair_free [OF st True] fin answers show ?thesis by (metis (no_types, lifting))
  next
    case False
    with fin answers show ?thesis by blast
  qed
qed

text \<open>The witness: the card sends the request for the memory maps, and the host answers it.\<close>

theorem buffer_pairs_exclusive_witness:
  "\<exists>(S :: dec_system) r d'. length (ds_wire S) = 1 \<and>
     DecompressClient_onRecvSuccess sample_dec_lib sample_dec_env (ds_client S) (r @ []) (of_nat (length r)) = Inr d'"
proof -
  obtain S where S: "dec_init sample_dec_lib sample_dec_env sample_cont 3 S" using sample_dec_init [of "[]"] by auto
  from dec_init_inv [OF this] obtain r0 fs where st: "dec_stage sample_dec_lib sample_dec_env sample_cont 3 S r0 fs"
    by (auto simp: dec_inv_def)
  have w: "ds_wire S = []" "ds_answered S = 0" using S by (simp_all add: dec_init_def)
  from st w obtain c where "dc_conn (ds_client S) = Some c" "length (posts c) = Suc (length fs)"
    by (auto simp: dec_stage_def dec_ok_def link_ok_def)
  with w have c: "dc_conn (ds_client S) = Some c" "length (ds_wire S) < length (posts c)" by simp_all
  define T where "T = S\<lparr>ds_wire := ds_wire S @ [wire (dc_mem (ds_client S)) (posts c ! length (ds_wire S))]\<rparr>"
  have step: "(dec_step sample_dec_lib sample_dec_env sample_cont 3)\<^sup>*\<^sup>* S T"
    using Dec_card [OF c] unfolding T_def by (rule r_into_rtranclp)
  have stT: "dec_stage sample_dec_lib sample_dec_env sample_cont 3 T r0 fs" using card_stage [OF st c] by (simp add: T_def)
  then have m: "ds_wire T ! 0 = dec_frame sample_dec_lib (Mmap_msg r0)" "msg_fits sample_dec_lib (Mmap_msg r0)"
    and n: "length (ce_bufpairs (dc_engine (ds_client T))) = 2"
    using w by (auto simp: dec_stage_def dec_ok_def maps_env_ok_def sample_dec_env_def T_def)
  let ?r = "typed_frame (mmap_resp_pb sample_dec_lib) (dec_type kMmapInfo) sample_maps"
  have "frame_fits (mmap_resp_pb sample_dec_lib) sample_maps" "length ?r < 2 ^ 32" "length (mir_mmaps sample_maps) = 2"
    using const_fits [of sample_maps] by (simp_all add: sample_dec_lib_def sample_maps_def)
  then have "dec_reply sample_dec_lib 2 (ds_wire T ! 0) ?r" unfolding dec_reply_def using m by blast
  moreover have "ds_answered T = 0" "length (ds_wire T) = 1" using w by (simp_all add: T_def)
  ultimately show ?thesis
    using buffer_pairs_exclusive [OF S step] n by (metis zero_less_one)
qed

end
