(* ===== verification/Rdma_Respond.thy ===== *)
theory Rdma_Respond
  imports Rdma_Rpc
begin

text \<open>
  Answering requests over a connection. Every server of the program takes a free send buffer, stores the
  answer in it, posts it and frees the buffer at once, before the card has read it. The lemmas
  show when that is safe: the free list is a queue, so the buffers of the answers that the card has not
  read are the last ones in it, and they stay intact as long as there are fewer of them than buffers.
  The locale is the contract of a server: what it posts for a request, and what becomes of its state.
\<close>

section \<open>Storing, posting and freeing\<close>

text \<open>
  The end of every handler that answers with a typed message: the result tells whether the answer could
  be serialized; if not, the buffer is not freed.
\<close>

definition respond ::
  "'m pb \<Rightarrow> int \<Rightarrow> 'm \<Rightarrow> (nat \<Rightarrow> int) \<Rightarrow> send_mem \<times> nat \<times> RdmaConnection \<Rightarrow> (bool \<times> send_mem \<times> nat \<times> RdmaConnection) res" where
  "respond pb type resp err = (\<lambda>(M, w, c).
     andThen (RdmaConnection_acquireFreeSendBuf c) (\<lambda>(free_buf, c1).
       case free_buf of
         None \<Rightarrow> Inl Undefined_behaviour
       | Some b \<Rightarrow>
           andThen (store_typed_msg pb M b type resp) (\<lambda>(frame_len, M1).
             if frame_len = - 1 then Inr (False, M1, w, c1)
             else Inr (True, M1, inc64 w, RdmaConnection_releaseSendBuf
               (RdmaConnection_send True c1 (sb_addr b, (sizeof_MsgType + nat frame_len) mod 2 ^ 32, w) (err w)) (sb_id b)))))"

definition posted ::
  "RdmaConnection \<Rightarrow> send_mem \<Rightarrow> nat \<Rightarrow> nat list \<Rightarrow> byte list \<Rightarrow> RdmaConnection \<Rightarrow> send_mem \<Rightarrow> bool" where
  "posted c M i rest m c' M' \<longleftrightarrow> bufpairs c' = bufpairs c \<and> free_bufpairs c' = rest @ [i]
     \<and> posts c' = posts c @ [(send_header (bufpairs c ! i), length m)]
     \<and> take (length m) (M' (send_header (bufpairs c ! i))) = m
     \<and> (\<forall>a. a \<noteq> send_header (bufpairs c ! i) \<longrightarrow> M' a = M a) \<and> bufs_ok c' M' []"

lemma respond_ok:
  assumes ok: "bufs_ok c M []" and free: "free_bufpairs c = i # rest" and fits: "frame_fits pb resp"
    and room: "length (typed_frame pb type resp) \<le> send_cap (bufpairs c ! i)" and err: "err w = 0"
  obtains M' c' where "respond pb type resp err (M, w, c) = Inr (True, M', inc64 w, c')"
    and "posted c M i rest (typed_frame pb type resp) c' M'"
proof -
  note a = acquire_first [OF ok free]
  let ?f = "typed_frame pb type resp" and ?h = "send_header (bufpairs c ! i)"
  let ?b = "\<lparr>sb_id = i, sb_addr = ?h, sb_cap = send_cap (bufpairs c ! i)\<rparr>"
  let ?M = "M(?h := ?f @ drop (length ?f) (M ?h))"
  have store: "store_typed_msg pb M ?b type resp = Inr (int (length (rdma_frame pb resp)), ?M)"
    using store_typed_msg_ok [OF fits, of M ?b type] a(4,5) room by simp
  have len: "sizeof_MsgType + length (rdma_frame pb resp) = length ?f" by (simp add: typed_frame_def sizeof_MsgType_def)
  have mod32: "length ?f mod 2 ^ 32 = length ?f" using room a(5) by simp
  define c' where "c' = RdmaConnection_releaseSendBuf
    (RdmaConnection_send True (c\<lparr>free_bufpairs := rest\<rparr>) (?h, length ?f, w) 0) i"
  have "respond pb type resp err (M, w, c) = Inr (True, ?M, inc64 w, c')"
    using a(1) store err len mod32 by (simp add: respond_def c'_def)
  moreover have "pool_split (length (bufpairs c)) (rest @ [i]) []" using ok free by (simp add: bufs_ok_def pool_split_def)
  then have "bufs_ok c' ?M []"
    using ok a(4) room send_mem_ok_store [of c M "?f @ drop (length ?f) (M ?h)" ?h] send_mem_ok_cong [of c' c]
    by (simp add: bufs_ok_def c'_def)
  then have "posted c M i rest ?f c' ?M" by (simp add: posted_def c'_def posts_def)
  ultimately show ?thesis by (rule that)
qed

section \<open>Answers the card has not read\<close>

text \<open>\<open>n\<close> sends have been read; the answers \<open>R\<close> are posted, and their buffers end the free list.\<close>

definition unread :: "RdmaConnection \<Rightarrow> send_mem \<Rightarrow> nat \<Rightarrow> byte list list \<Rightarrow> bool" where
  "unread c M n R \<longleftrightarrow> bufs_ok c M [] \<and> (\<exists>pre ids old. free_bufpairs c = pre @ ids \<and> length ids = length R
     \<and> length old = n \<and> posts c = old @ map (frame_post (\<lambda>m. m) c) (zip ids R)
     \<and> (\<forall>(i, m) \<in> set (zip ids R). wire M (frame_post (\<lambda>m. m) c (i, m)) = m))"

lemma unread_start: "bufs_ok c M [] \<Longrightarrow> sq c = [] \<Longrightarrow> unread c M 0 []"
  by (simp add: unread_def posts_def)

lemma unread_posts: "unread c M n R \<Longrightarrow> length (posts c) = n + length R"
  by (auto simp: unread_def)

lemma unread_card:
  assumes "unread c M n R" and "n < length (posts c)"
  obtains m R' where "R = m # R'" and "wire M (posts c ! n) = m" and "unread c M (Suc n) R'"
proof -
  from assms(1) obtain pre ids old where d: "bufs_ok c M []" "free_bufpairs c = pre @ ids"
    "length ids = length R" "length old = n" "posts c = old @ map (frame_post (\<lambda>m. m) c) (zip ids R)"
    "\<forall>(i, m) \<in> set (zip ids R). wire M (frame_post (\<lambda>m. m) c (i, m)) = m"
    unfolding unread_def by blast
  with assms(2) have "R \<noteq> []" by auto
  then obtain m R' where R: "R = m # R'" by (cases R) auto
  with d(3) obtain i ids' where i: "ids = i # ids'" by (cases ids) auto
  let ?p = "frame_post (\<lambda>m. m) c (i, m)"
  have "posts c ! n = ?p" using d(5) R i by (simp add: d(4) [symmetric])
  moreover have "free_bufpairs c = (pre @ [i]) @ ids'" "length (old @ [?p]) = Suc n"
    "posts c = (old @ [?p]) @ map (frame_post (\<lambda>m. m) c) (zip ids' R')"
    using d R i by simp_all
  then have "unread c M (Suc n) R'"
    unfolding unread_def using d R i by (intro conjI exI) (assumption | simp)+
  ultimately show ?thesis using that R d(6) i by simp
qed

lemma unread_post:
  assumes un: "unread c M n R" and free: "free_bufpairs c = i # rest" and room: "length R < length (bufpairs c)"
    and post: "posted c M i rest m c' M'"
  shows "unread c' M' n (R @ [m])"
proof -
  from un obtain pre ids old where d: "bufs_ok c M []" "free_bufpairs c = pre @ ids"
    "length ids = length R" "length old = n" "posts c = old @ map (frame_post (\<lambda>m. m) c) (zip ids R)"
    "\<forall>(i, m) \<in> set (zip ids R). wire M (frame_post (\<lambda>m. m) c (i, m)) = m"
    unfolding unread_def by blast
  have "length pre + length ids = length (bufpairs c)" using bufs_ok_free [OF d(1)] d(2) by simp
  with room d(3) free d(2) obtain pre' where pre: "pre = i # pre'" "rest = pre' @ ids" by (cases pre) auto
  have i: "i < length (bufpairs c)" by (rule acquire_first(3) [OF d(1) free])
  have fp: "frame_post (\<lambda>m. m) c' = frame_post (\<lambda>m. m) c" using post by (simp add: posted_def frame_post_def)
  let ?h = "send_header (bufpairs c ! i)"
  have "wire M' (frame_post (\<lambda>m. m) c (j, p)) = p" if "(j, p) \<in> set (zip ids R)" for j p
  proof -
    have ps: "pool_split (length (bufpairs c)) (free_bufpairs c) []" using d(1) by (simp add: bufs_ok_def)
    from that have j: "j \<in> set ids" by (rule set_zip_leftD)
    then have "j < length (bufpairs c)" "j \<noteq> i"
      using pool_split_bound [OF ps] pool_split_distinct(1) [OF ps] d(2) free pre by auto
    then have "send_header (bufpairs c ! j) \<noteq> ?h" using headers_inj [OF d(1) _ i] by blast
    with that d(6) post show ?thesis by (auto simp: wire_def frame_post_def posted_def)
  qed
  moreover have "wire M' (frame_post (\<lambda>m. m) c (i, m)) = m" using post by (simp add: wire_def frame_post_def posted_def)
  moreover have "posts c' = old @ map (frame_post (\<lambda>m. m) c) (zip (ids @ [i]) (R @ [m]))"
    using d(3,5) post by (simp add: posted_def frame_post_def)
  ultimately show ?thesis
    unfolding unread_def fp using post pre d(3,4)
    by (intro conjI exI [of _ pre'] exI [of _ "ids @ [i]"] exI [of _ old]) (auto simp: posted_def)
qed

section \<open>The contract of a server\<close>

text \<open>
  \<open>obs\<close> is the state of the server without its send buffers; \<open>enabled\<close> the requests it can answer with
  the buffers of a connection, \<open>replies\<close> the answer to a request and the state after it.
\<close>

locale responder =
  fixes handle :: "'s \<times> RdmaConnection \<Rightarrow> byte list \<Rightarrow> 32 word \<Rightarrow> ('s \<times> RdmaConnection) res"
    and mem :: "'s \<Rightarrow> send_mem"
    and obs :: "'s \<Rightarrow> 'o"
    and enabled :: "'o \<Rightarrow> BufPair list \<Rightarrow> byte list \<Rightarrow> bool"
    and replies :: "'o \<Rightarrow> byte list \<Rightarrow> byte list \<Rightarrow> 'o \<Rightarrow> bool"
  assumes answers: "bufs_ok c (mem s) [] \<Longrightarrow> free_bufpairs c = i # rest \<Longrightarrow> enabled (obs s) (bufpairs c) m \<Longrightarrow>
    \<exists>s' c' r. handle (s, c) (m @ junk) (of_nat (length m)) = Inr (s', c') \<and> replies (obs s) m r (obs s')
      \<and> posted c (mem s) i rest r c' (mem s')"
begin

text \<open>A request is answered and no unread answer is lost, if one buffer more than those is left.\<close>

lemma answer_unread:
  assumes un: "unread c (mem s) n R" and room: "length R < length (bufpairs c)" and en: "enabled (obs s) (bufpairs c) m"
  obtains s' c' r where "handle (s, c) (m @ junk) (of_nat (length m)) = Inr (s', c')" and "replies (obs s) m r (obs s')"
    and "unread c' (mem s') n (R @ [r])" and "bufpairs c' = bufpairs c"
proof -
  have ok: "bufs_ok c (mem s) []" using un by (simp add: unread_def)
  then have "length (free_bufpairs c) = length (bufpairs c)" using bufs_ok_free by fastforce
  with room obtain i rest where free: "free_bufpairs c = i # rest" by (cases "free_bufpairs c") auto
  from answers [OF ok free en] obtain s' c' r where h: "handle (s, c) (m @ junk) (of_nat (length m)) = Inr (s', c')"
    "replies (obs s) m r (obs s')" "posted c (mem s) i rest r c' (mem s')" by blast
  have "bufpairs c' = bufpairs c" using h(3) by (simp add: posted_def)
  then show ?thesis by (rule that [OF h(1,2) unread_post [OF un free room h(3)]])
qed

end

end
