(* ===== verification/Host_Metadata.thy ===== *)
theory Host_Metadata
  imports Rdma_Rpc
begin

text \<open>
  The data of the host client: \<^verbatim>\<open>src/src/host/client/metadata.h\<close> and \<^verbatim>\<open>metadata.cc\<close>. Names of images, the
  metadata of an image, and what the untar engine gets and reports. The parsers of the
  container library are parameters.
\<close>

section \<open>Names\<close>

record ImageNameTag =
  it_id :: string

definition ImageNameTag_new :: "string \<Rightarrow> string \<Rightarrow> ImageNameTag" where
  "ImageNameTag_new name tag = \<lparr>it_id = name @ '':'' @ tag\<rparr>"

text \<open>The order of the keys of the maps: strings are compared by their bytes.\<close>

definition ImageNameTag_less :: "ImageNameTag \<Rightarrow> ImageNameTag \<Rightarrow> bool" where
  "ImageNameTag_less a b \<longleftrightarrow>
     (map of_char (it_id a), map of_char (it_id b)) \<in> lexord {(x, y). x < (y :: nat)}"

section \<open>Metadata of an image\<close>

text \<open>
  Of the manifest the program uses the digests of the layers. \<open>from_file\<close> gets the contents of a file that
  can be opened, and a parser that gives nothing for text it cannot parse; the text ends with a
  zero byte.
\<close>

record OciManifest =
  layer_digests :: "string list"

record OciConfig =
  oci_spec :: "byte list"

record ImageMetadata =
  im_image :: ImageNameTag
  im_config :: OciConfig
  im_manifest :: OciManifest

definition from_file :: "(byte list \<Rightarrow> 'm option) \<Rightarrow> (string \<Rightarrow> byte list option) \<Rightarrow> string \<Rightarrow> 'm option" where
  "from_file parse fs path = (case fs path of None \<Rightarrow> None | Some data \<Rightarrow> parse (data @ [0]))"

section \<open>Tasks, segments and results\<close>

record UntarData =
  ud_layer :: string
  ud_image_name_tag :: string
  ud_segment :: "byte list"
  ud_index :: int
  ud_total_segments :: int

record UntarResult =
  ur_layer :: string
  ur_image_name_tag :: string
  ur_success :: bool

section \<open>The order of names\<close>

text \<open>The maps find a key by comparing both ways; names that differ nowhere are equal.\<close>

lemma ImageNameTag_trichotomy: "\<not> ImageNameTag_less a b \<Longrightarrow> \<not> ImageNameTag_less b a \<Longrightarrow> a = b"
proof -
  have inj: "map of_char s = (map of_char t :: nat list) \<Longrightarrow> s = t" for s t :: string
    by (rule map_injective) (auto intro: injI)
  assume "\<not> ImageNameTag_less a b" and "\<not> ImageNameTag_less b a"
  then have "(map of_char (it_id a) :: nat list) = map of_char (it_id b)"
    unfolding ImageNameTag_less_def using lexord_linear [of "{(x, y). x < (y :: nat)}"] by (metis mem_Collect_eq case_prodI nat_neq_iff)
  then show ?thesis using inj by (cases a; cases b) simp
qed

end
