(* ===== verification/Decompress_Server.thy ===== *)
theory Decompress_Server
  imports Decompress_Order Rdma_Respond Host_Metadata
begin

text \<open>
  The decompress server on the host: \<^verbatim>\<open>src/src/host/client/decompress_server_epoll.h\<close> and
  \<^verbatim>\<open>decompress_server_epoll.cc\<close>. It tells the DPU where its destination buffers are, takes the
  decompressed segments out of them and hands them to the untar engine. The lemmas give its answers
  and show that they are those the decompress client expects.
\<close>

section \<open>State\<close>

text \<open>
  \<open>sv_untar\<close> are the segments handed to the untar engine, oldest first. The outcomes: posting a work
  request, the addresses of the destination buffers, starting their memory maps and exporting them.
\<close>

record DecompressServer =
  sv_engine :: CompressEngine
  sv_untar :: "UntarData list"
  sv_wr_id :: nat
  sv_mem :: send_mem

record dserver_env =
  sv_post_err :: "nat \<Rightarrow> int"
  dst_mem_addr :: "nat \<Rightarrow> nat"
  dst_map_outcomes :: "mmap_outcome list"
  dst_export :: "nat option \<Rightarrow> doca_error + ExportDesc"

record dserver_left =
  left_mmap_req :: MmapInfoRequest
  left_fin_req :: DecompressFinishRequest

definition DecompressServer_new :: "CompressEngine \<Rightarrow> send_mem \<Rightarrow> DecompressServer" where
  "DecompressServer_new e M = \<lparr>sv_engine = e, sv_untar = [], sv_wr_id = 0, sv_mem = M\<rparr>"

section \<open>Handlers\<close>

definition mmap_element :: "(nat \<Rightarrow> nat) \<Rightarrow> nat \<Rightarrow> DocaBufPair \<Rightarrow> ExportDesc \<Rightarrow> MmapInfoElement" where
  "mmap_element addr i b d = \<lparr>mie_addr = addr i, mie_len = length (dst_mem b), mie_export_desc = export_desc d\<rparr>"

definition mmap_response :: "(nat \<Rightarrow> nat) \<Rightarrow> DocaBufPair list \<Rightarrow> ExportDesc list \<Rightarrow> MmapInfoResponse" where
  "mmap_response addr bs ds = \<lparr>mir_mmaps = map (\<lambda>(i, b, d). mmap_element addr i b d) (zip [0..<length bs] (zip bs ds))\<rparr>"

text \<open>When the export fails the error is logged, and the missing result is used all the same.\<close>

definition handleMmapInfoRequest ::
  "dec_lib \<Rightarrow> dserver_env \<Rightarrow> DecompressServer \<times> RdmaConnection \<Rightarrow> MmapInfoRequest \<Rightarrow>
    (bool \<times> DecompressServer \<times> RdmaConnection) res" where
  "handleMmapInfoRequest lib env = (\<lambda>(s, c) req.
     andThen (CompressEngine_get_bufpair (sv_engine s) 0) (\<lambda>b0.
       asserting (length (dst_mem b0) = MAX_FILE_SIZE)
         (asserting (size_of_int (mmap_num req) = length (ce_bufpairs (sv_engine s)))
           (case CompressEngine_dst_mmaps_start (dst_mem_addr env) True (dst_map_outcomes env) (sv_engine s) of
              (r, e1) \<Rightarrow>
                if r \<noteq> DOCA_SUCCESS then Inr (False, s\<lparr>sv_engine := e1\<rparr>, c)
                else case CompressEngine_dst_mmaps_export_dpu (dst_export env) e1 of
                    Inl err \<Rightarrow> Inl Undefined_behaviour
                  | Inr ds \<Rightarrow>
                      andThen (respond (mmap_resp_pb lib) (dec_type kMmapInfo)
                          (mmap_response (dst_mem_addr env) (ce_bufpairs e1) ds) (sv_post_err env) (sv_mem s, sv_wr_id s, c))
                        (\<lambda>(ok, M, w, c1). Inr (ok, s\<lparr>sv_engine := e1, sv_mem := M, sv_wr_id := w\<rparr>, c1))))))"

definition finish_response :: "DecompressFinishRequest \<Rightarrow> DecompressFinishResponse" where
  "finish_response req = \<lparr>dfp_success = True, dfp_layer_name = dfr_layer_name req, dfp_segment_idx = dfr_segment_idx req,
     dfp_data_inline = dfr_data_inline req, dfp_bufpair_id = dfr_bufpair_id req\<rparr>"

text \<open>
  The segment: the rest of the message, or the beginning of the destination buffer. \<open>remain_len\<close> is an
  \<open>int\<close>; a negative length or one behind the memory is undefined.
\<close>

definition segment_data :: "DecompressServer \<Rightarrow> DecompressFinishRequest \<Rightarrow> byte list \<Rightarrow> int \<Rightarrow> byte list res" where
  "segment_data s req remain_buf remain_len =
     (if dfr_data_inline req
      then defined_if (0 \<le> remain_len \<and> nat remain_len \<le> length remain_buf) (Inr (take (nat remain_len) remain_buf))
      else andThen (CompressEngine_get_bufpair (sv_engine s) (size_of_int (dfr_bufpair_id req))) (\<lambda>b.
        asserting (size_of_int (dfr_segment_size req) \<le> length (dst_mem b))
          (Inr (take (size_of_int (dfr_segment_size req)) (dst_mem b)))))"

definition untar_data :: "DecompressFinishRequest \<Rightarrow> byte list \<Rightarrow> UntarData" where
  "untar_data req data = \<lparr>ud_layer = dfr_layer_name req, ud_image_name_tag = dfr_image_name_tag req, ud_segment = data,
     ud_index = dfr_segment_idx req, ud_total_segments = dfr_total_segments req\<rparr>"

definition handleDecompressFinishRequest ::
  "dec_lib \<Rightarrow> dserver_env \<Rightarrow> DecompressServer \<times> RdmaConnection \<Rightarrow> DecompressFinishRequest \<Rightarrow> byte list \<Rightarrow> int \<Rightarrow>
    (bool \<times> DecompressServer \<times> RdmaConnection) res" where
  "handleDecompressFinishRequest lib env = (\<lambda>(s, c) req remain_buf remain_len.
     andThen (segment_data s req remain_buf remain_len) (\<lambda>data.
       andThen (respond (fin_resp_pb lib) (dec_type kDecompressFinish) (finish_response req) (sv_post_err env)
           (sv_mem s, sv_wr_id s, c))
         (\<lambda>(ok, M, w, c1).
           if \<not> ok then Inr (False, s\<lparr>sv_mem := M, sv_wr_id := w\<rparr>, c1)
           else Inr (True, s\<lparr>sv_mem := M, sv_wr_id := w, sv_untar := sv_untar s @ [untar_data req data]\<rparr>, c1))))"

text \<open>The outcome of a handler is logged only. The first test lets the result -1 of a failed parse pass.\<close>

definition DecompressServer_onRecvSuccess ::
  "dec_lib \<Rightarrow> dserver_left \<Rightarrow> dserver_env \<Rightarrow> DecompressServer \<times> RdmaConnection \<Rightarrow> byte list \<Rightarrow> 32 word \<Rightarrow>
    (DecompressServer \<times> RdmaConnection) res" where
  "DecompressServer_onRecvSuccess lib left env = (\<lambda>(s, c) recv_buf recv_len.
     if recv_len < 4 then Inr (s, c)
     else if recv_type recv_buf = dec_type kMmapInfo
     then andThen (parse_typed_msg (mmap_req_pb lib) (left_mmap_req left) recv_buf recv_len) (\<lambda>(parsed, req).
       if parsed = 0 then Inr (s, c)
       else andThen (handleMmapInfoRequest lib env (s, c) req) (\<lambda>(ok, r). Inr r))
     else if recv_type recv_buf = dec_type kDecompressFinish
     then andThen (parse_typed_msg (fin_req_pb lib) (left_fin_req left) recv_buf recv_len) (\<lambda>(frame_len, req).
       if frame_len = - 1 then Inr (s, c)
       else andThen (handleDecompressFinishRequest lib env (s, c) req (drop (sizeof_MsgType + nat frame_len) recv_buf)
           (sint (recv_len - word_of_int frame_len - of_nat sizeof_MsgType))) (\<lambda>(ok, r). Inr r))
     else Inr (s, c))"

definition DecompressServer_callbacks ::
  "dec_lib \<Rightarrow> dserver_left \<Rightarrow> dserver_env \<Rightarrow> (nat \<Rightarrow> byte list) \<Rightarrow> DecompressServer rdma_user" where
  "DecompressServer_callbacks lib left env mem call = (\<lambda>(s, c).
     case call of
       Recv_success addr len wc \<Rightarrow> DecompressServer_onRecvSuccess lib left env (s, c) (mem addr) (of_nat len)
     | _ \<Rightarrow> Inr (s, c))"

section \<open>Answers\<close>

text \<open>
  The engine of the server: its buffers have the size the program wants, and the calls that start and
  export their memory maps succeed.
\<close>

definition server_env_ok :: "dserver_env \<Rightarrow> nat \<Rightarrow> bool" where
  "server_env_ok env n \<longleftrightarrow> (\<forall>w. sv_post_err env w = 0) \<and> length (dst_map_outcomes env) = n
     \<and> (\<forall>m \<in> set (dst_map_outcomes env). map_ok m \<and> mmap_perm_res m = DOCA_SUCCESS) \<and> (\<forall>h. \<exists>d. dst_export env (Some h) = Inr d)"

definition dst_mems :: "CompressEngine \<Rightarrow> byte list list" where
  "dst_mems e = map dst_mem (ce_bufpairs e)"

lemma export_all_ok:
  "(\<And>m. m \<in> set ms \<Longrightarrow> \<exists>d. export m = Inr d) \<Longrightarrow> \<exists>ds. export_all export ms = Inr ds \<and> length ds = length ms"
proof (induction ms)
  case (Cons m ms)
  then obtain d ds where "export m = Inr d" "export_all export ms = Inr ds" "length ds = length ms" by (metis list.set_intros)
  then show ?case by simp
qed simp

lemma dst_start_ok:
  assumes "length os = length bs" and "\<forall>m \<in> set os. map_ok m \<and> mmap_perm_res m = DOCA_SUCCESS"
  shows "\<exists>bs'. dst_mmaps_start_from addr p i bs os = (DOCA_SUCCESS, bs') \<and> map dst_mem bs' = map dst_mem bs
    \<and> (\<forall>b \<in> set bs'. dst_mmap b \<noteq> None)"
  using assms
proof (induction addr p i bs os rule: dst_mmaps_start_from.induct)
  case (3 addr p i b bs m os)
  from 3(3) obtain h d where m: "mmap_create_res m = Inr h" "mmap_dev_add_res m = DOCA_SUCCESS" "mmap_range_res m = DOCA_SUCCESS"
    "mmap_buf_res m = Inr d" "mmap_perm_res m = DOCA_SUCCESS" by (auto simp: map_ok_def)
  have c: "CompressEngine_create_mmap m = Some h"
    and s: "CompressEngine_mmap_start m (addr i) (length (dst_mem b)) p = Inr (DocaBuf_new d (addr i) (length (dst_mem b)))"
    using m by (simp_all add: CompressEngine_create_mmap_def CompressEngine_mmap_start_def)
  from 3(1) [OF c s] 3(2,3) obtain bs' where "dst_mmaps_start_from addr p (Suc i) bs os = (DOCA_SUCCESS, bs')"
    "map dst_mem bs' = map dst_mem bs" "\<forall>b \<in> set bs'. dst_mmap b \<noteq> None" by auto
  with c s show ?case by simp
qed simp_all

text \<open>
  The requests the server can answer: the request for the memory maps of all pairs, and the report of a
  segment that lies in a destination buffer; the answers fit into the send buffers.
\<close>

definition reply_fits :: "'m pb \<Rightarrow> int \<Rightarrow> BufPair list \<Rightarrow> 'm \<Rightarrow> bool" where
  "reply_fits pb t bps r \<longleftrightarrow> frame_fits pb r \<and> (\<forall>b \<in> set bps. length (typed_frame pb t r) \<le> send_cap b)"

definition mmap_enabled :: "dec_lib \<Rightarrow> dserver_env \<Rightarrow> CompressEngine \<Rightarrow> BufPair list \<Rightarrow> MmapInfoRequest \<Rightarrow> bool" where
  "mmap_enabled lib env e bps q \<longleftrightarrow> ce_bufpairs e \<noteq> [] \<and> (\<forall>m \<in> set (dst_mems e). length m = MAX_FILE_SIZE)
     \<and> size_of_int (mmap_num q) = length (ce_bufpairs e) \<and> server_env_ok env (length (ce_bufpairs e))
     \<and> (\<forall>e1 ds. CompressEngine_dst_mmaps_start (dst_mem_addr env) True (dst_map_outcomes env) e = (DOCA_SUCCESS, e1)
         \<and> CompressEngine_dst_mmaps_export_dpu (dst_export env) e1 = Inr ds
         \<longrightarrow> reply_fits (mmap_resp_pb lib) (dec_type kMmapInfo) bps (mmap_response (dst_mem_addr env) (ce_bufpairs e1) ds))"

definition fin_enabled :: "dec_lib \<Rightarrow> dserver_env \<Rightarrow> CompressEngine \<Rightarrow> BufPair list \<Rightarrow> DecompressFinishRequest \<Rightarrow> bool" where
  "fin_enabled lib env e bps q \<longleftrightarrow> \<not> dfr_data_inline q \<and> 0 \<le> dfr_bufpair_id q \<and> nat (dfr_bufpair_id q) < length (ce_bufpairs e)
     \<and> length (ce_bufpairs e) < 2 ^ 31 \<and> 0 \<le> dfr_segment_size q \<and> dfr_segment_size q < 2 ^ 31
     \<and> nat (dfr_segment_size q) \<le> length (dst_mems e ! nat (dfr_bufpair_id q))
     \<and> (\<forall>w. sv_post_err env w = 0) \<and> reply_fits (fin_resp_pb lib) (dec_type kDecompressFinish) bps (finish_response q)"

definition server_enabled :: "dec_lib \<Rightarrow> dserver_env \<Rightarrow> CompressEngine \<times> UntarData list \<Rightarrow> BufPair list \<Rightarrow> byte list \<Rightarrow> bool" where
  "server_enabled lib env = (\<lambda>(e, u) bps m.
     (\<exists>q. m = dec_frame lib (Mmap_msg q) \<and> msg_fits lib (Mmap_msg q) \<and> mmap_enabled lib env e bps q)
     \<or> (\<exists>q. m = dec_frame lib (Fin_msg q) \<and> msg_fits lib (Fin_msg q) \<and> fin_enabled lib env e bps q))"

definition reported :: "CompressEngine \<Rightarrow> DecompressFinishRequest \<Rightarrow> UntarData" where
  "reported e q = untar_data q (take (nat (dfr_segment_size q)) (dst_mems e ! nat (dfr_bufpair_id q)))"

definition server_replies ::
  "dec_lib \<Rightarrow> CompressEngine \<times> UntarData list \<Rightarrow> byte list \<Rightarrow> byte list \<Rightarrow> CompressEngine \<times> UntarData list \<Rightarrow> bool" where
  "server_replies lib = (\<lambda>(e, u) m r (e', u').
     dec_reply lib (length (ce_bufpairs e)) m r \<and> dst_mems e' = dst_mems e
     \<and> (\<forall>q. m = dec_frame lib (Mmap_msg q) \<and> msg_fits lib (Mmap_msg q) \<longrightarrow> u' = u)
     \<and> (\<forall>q. m = dec_frame lib (Fin_msg q) \<and> msg_fits lib (Fin_msg q) \<longrightarrow> u' = u @ [reported e q]))"

lemma typed_frame_small: "frame_fits pb m \<Longrightarrow> length (typed_frame pb t m) < 2 ^ 32"
  using length_typed_frame by (fastforce simp: frame_fits_def kFrameHeaderLen_def)

text \<open>The request for the memory maps.\<close>

lemma mmap_handled:
  assumes ok: "bufs_ok c (sv_mem s) []" and free: "free_bufpairs c = i # rest" and en: "mmap_enabled lib env (sv_engine s) (bufpairs c) q"
  obtains s' c' resp where "handleMmapInfoRequest lib env (s, c) q = Inr (True, s', c')"
    and "posted c (sv_mem s) i rest (typed_frame (mmap_resp_pb lib) (dec_type kMmapInfo) resp) c' (sv_mem s')"
    and "frame_fits (mmap_resp_pb lib) resp" and "length (mir_mmaps resp) = length (ce_bufpairs (sv_engine s))"
    and "dst_mems (sv_engine s') = dst_mems (sv_engine s)" and "sv_untar s' = sv_untar s"
proof -
  let ?e = "sv_engine s" and ?n = "length (ce_bufpairs (sv_engine s))"
  have en': "?n \<noteq> 0" "size_of_int (mmap_num q) = ?n" "length (dst_map_outcomes env) = ?n" "sv_post_err env w = 0"
    "\<forall>m \<in> set (dst_map_outcomes env). map_ok m \<and> mmap_perm_res m = DOCA_SUCCESS" "\<exists>d. dst_export env (Some h) = Inr d" for w h
    using en by (simp_all add: mmap_enabled_def server_env_ok_def)
  have b0: "CompressEngine_get_bufpair ?e 0 = Inr (ce_bufpairs ?e ! 0)" "length (dst_mem (ce_bufpairs ?e ! 0)) = MAX_FILE_SIZE"
    using en by (auto simp: mmap_enabled_def dst_mems_def CompressEngine_get_bufpair_def)
  obtain bs where bs: "dst_mmaps_start_from (dst_mem_addr env) True 0 (ce_bufpairs ?e) (dst_map_outcomes env) = (DOCA_SUCCESS, bs)"
    "map dst_mem bs = map dst_mem (ce_bufpairs ?e)" "\<forall>b \<in> set bs. dst_mmap b \<noteq> None"
    using dst_start_ok [OF en'(3,5)] by blast
  define e1 where "e1 = ?e\<lparr>ce_bufpairs := bs\<rparr>"
  have len: "length bs = ?n" using bs(2) map_eq_imp_length_eq by blast
  have start: "CompressEngine_dst_mmaps_start (dst_mem_addr env) True (dst_map_outcomes env) ?e = (DOCA_SUCCESS, e1)"
    using bs(1) by (simp add: CompressEngine_dst_mmaps_start_def e1_def)
  have "\<exists>d. dst_export env m = Inr d" if "m \<in> set (map dst_mmap bs)" for m using that bs(3) en'(6) by fastforce
  then obtain ds0 where "export_all (dst_export env) (map dst_mmap bs) = Inr ds0" "length ds0 = length (map dst_mmap bs)"
    using export_all_ok by blast
  then obtain ds where ds: "CompressEngine_dst_mmaps_export_dpu (dst_export env) e1 = Inr ds" "length ds = ?n"
    using len by (auto simp: CompressEngine_dst_mmaps_export_dpu_def e1_def)
  define resp where "resp = mmap_response (dst_mem_addr env) bs ds"
  have fits: "frame_fits (mmap_resp_pb lib) resp"
    "length (typed_frame (mmap_resp_pb lib) (dec_type kMmapInfo) resp) \<le> send_cap (bufpairs c ! i)"
    using en start ds(1) acquire_first(3) [OF ok free] unfolding mmap_enabled_def reply_fits_def
    by (auto simp: resp_def e1_def)
  obtain M' c' where r: "respond (mmap_resp_pb lib) (dec_type kMmapInfo) resp (sv_post_err env) (sv_mem s, sv_wr_id s, c)
      = Inr (True, M', inc64 (sv_wr_id s), c')"
    "posted c (sv_mem s) i rest (typed_frame (mmap_resp_pb lib) (dec_type kMmapInfo) resp) c' M'"
    by (rule respond_ok [OF ok free fits en'(4)])
  let ?s = "s\<lparr>sv_engine := e1, sv_mem := M', sv_wr_id := inc64 (sv_wr_id s)\<rparr>"
  have "handleMmapInfoRequest lib env (s, c) q = Inr (True, ?s, c')"
    using b0 en'(2) start ds(1) r(1) by (simp add: handleMmapInfoRequest_def resp_def e1_def)
  moreover have "length (mir_mmaps resp) = ?n" using len ds(2) by (simp add: resp_def mmap_response_def)
  ultimately show ?thesis using r(2) fits(1) bs(2) by (intro that [of ?s c' resp]) (simp_all add: dst_mems_def e1_def)
qed

text \<open>The report of a finished segment.\<close>

lemma fin_handled:
  assumes ok: "bufs_ok c (sv_mem s) []" and free: "free_bufpairs c = i # rest" and en: "fin_enabled lib env (sv_engine s) (bufpairs c) q"
  obtains s' c' where "\<And>remain len. handleDecompressFinishRequest lib env (s, c) q remain len = Inr (True, s', c')"
    and "posted c (sv_mem s) i rest (typed_frame (fin_resp_pb lib) (dec_type kDecompressFinish) (finish_response q)) c' (sv_mem s')"
    and "sv_engine s' = sv_engine s" and "sv_untar s' = sv_untar s @ [reported (sv_engine s) q]"
proof -
  let ?e = "sv_engine s" and ?k = "nat (dfr_bufpair_id q)"
  have "dfr_bufpair_id q < 2 ^ 64" "dfr_segment_size q < 2 ^ 64" and k: "?k < length (ce_bufpairs ?e)"
    using en by (auto simp: fin_enabled_def)
  moreover have "dst_mems ?e ! ?k = dst_mem (ce_bufpairs ?e ! ?k)" using k by (simp add: dst_mems_def)
  ultimately have en': "?k < length (ce_bufpairs ?e)" "size_of_int (dfr_bufpair_id q) = ?k" "size_of_int (dfr_segment_size q) = nat (dfr_segment_size q)"
    "nat (dfr_segment_size q) \<le> length (dst_mem (ce_bufpairs ?e ! ?k))" "sv_post_err env w = 0" "\<not> dfr_data_inline q" for w
    using en by (simp_all add: fin_enabled_def size_of_int_nonneg)
  have fits: "frame_fits (fin_resp_pb lib) (finish_response q)"
    "length (typed_frame (fin_resp_pb lib) (dec_type kDecompressFinish) (finish_response q)) \<le> send_cap (bufpairs c ! i)"
    using en acquire_first(3) [OF ok free] by (simp_all add: fin_enabled_def reply_fits_def)
  obtain M' c' where r: "respond (fin_resp_pb lib) (dec_type kDecompressFinish) (finish_response q) (sv_post_err env) (sv_mem s, sv_wr_id s, c)
      = Inr (True, M', inc64 (sv_wr_id s), c')"
    "posted c (sv_mem s) i rest (typed_frame (fin_resp_pb lib) (dec_type kDecompressFinish) (finish_response q)) c' M'"
    by (rule respond_ok [OF ok free fits en'(5)])
  have "segment_data s q remain len = Inr (take (nat (dfr_segment_size q)) (dst_mems ?e ! ?k))" for remain len
    using en' by (simp add: segment_data_def CompressEngine_get_bufpair_def dst_mems_def)
  with r show ?thesis
    by (intro that [of "s\<lparr>sv_mem := M', sv_wr_id := inc64 (sv_wr_id s), sv_untar := sv_untar s @ [reported ?e q]\<rparr>" c'])
       (simp_all add: handleDecompressFinishRequest_def reported_def)
qed

lemma server_recv_mmap:
  assumes "frame_fits (mmap_req_pb lib) q" and "handleMmapInfoRequest lib env (s, c) q = Inr (ok, r)"
  shows "DecompressServer_onRecvSuccess lib left env (s, c) (dec_frame lib (Mmap_msg q) @ junk) (of_nat (length (dec_frame lib (Mmap_msg q)))) = Inr r"
proof -
  let ?f = "typed_frame (mmap_req_pb lib) (dec_type kMmapInfo) q"
  note len = typed_len_ok [OF typed_frame_small [OF assms(1)], of "dec_type kMmapInfo"]
  have "parse_typed_msg (mmap_req_pb lib) (left_mmap_req left) (?f @ junk) (of_nat (length ?f))
      = Inr (int (length (rdma_frame (mmap_req_pb lib) q)), q)"
    by (rule parse_typed_frame [OF assms(1)]) (simp only: len(1) order_refl)
  moreover have "recv_type (?f @ junk) = dec_type kMmapInfo" by (rule recv_type_frame [OF dec_type_range])
  moreover have "length (rdma_frame (mmap_req_pb lib) q) \<noteq> 0" by (simp add: rdma_frame_def flip: length_greater_0_conv)
  ultimately show ?thesis using len(2) assms(2) by (simp add: DecompressServer_onRecvSuccess_def)
qed

lemma server_recv_fin:
  assumes "frame_fits (fin_req_pb lib) q"
    and "\<And>remain len. handleDecompressFinishRequest lib env (s, c) q remain len = Inr (ok, r)"
  shows "DecompressServer_onRecvSuccess lib left env (s, c) (dec_frame lib (Fin_msg q) @ junk) (of_nat (length (dec_frame lib (Fin_msg q)))) = Inr r"
proof -
  let ?f = "typed_frame (fin_req_pb lib) (dec_type kDecompressFinish) q"
  note len = typed_len_ok [OF typed_frame_small [OF assms(1)], of "dec_type kDecompressFinish"]
  have "parse_typed_msg (fin_req_pb lib) (left_fin_req left) (?f @ junk) (of_nat (length ?f))
      = Inr (int (length (rdma_frame (fin_req_pb lib) q)), q)"
    by (rule parse_typed_frame [OF assms(1)]) (simp only: len(1) order_refl)
  moreover have "recv_type (?f @ junk) = dec_type kDecompressFinish" by (rule recv_type_frame [OF dec_type_range])
  ultimately show ?thesis using len(2) assms(2) by (simp add: DecompressServer_onRecvSuccess_def)
qed

lemma mmap_replies:
  assumes "frame_fits (mmap_resp_pb lib) resp" and "length (mir_mmaps resp) = length (ce_bufpairs e)" and "msg_fits lib (Mmap_msg q)"
    and "dst_mems e' = dst_mems e"
  shows "server_replies lib (e, u) (dec_frame lib (Mmap_msg q)) (typed_frame (mmap_resp_pb lib) (dec_type kMmapInfo) resp) (e', u)"
proof -
  have "dec_frame lib (Mmap_msg q) \<noteq> dec_frame lib (Fin_msg p)" if "msg_fits lib (Fin_msg p)" for p
    using dec_frame_inj [OF _ assms(3) that] by auto
  moreover have "length (typed_frame (mmap_resp_pb lib) (dec_type kMmapInfo) resp) < 2 ^ 32" by (rule typed_frame_small [OF assms(1)])
  ultimately show ?thesis using assms unfolding server_replies_def dec_reply_def by auto
qed

lemma fin_replies:
  assumes "frame_fits (fin_resp_pb lib) (finish_response q)" and "msg_fits lib (Fin_msg q)"
  shows "server_replies lib (e, u) (dec_frame lib (Fin_msg q))
    (typed_frame (fin_resp_pb lib) (dec_type kDecompressFinish) (finish_response q)) (e, u @ [reported e q])"
proof -
  have "dec_frame lib (Fin_msg q) \<noteq> dec_frame lib (Mmap_msg p)" if "msg_fits lib (Mmap_msg p)" for p
    using dec_frame_inj [OF _ assms(2) that] by auto
  moreover have "p = q" if "dec_frame lib (Fin_msg q) = dec_frame lib (Fin_msg p)" "msg_fits lib (Fin_msg p)" for p
    using dec_frame_inj [OF that(1) assms(2) that(2)] by simp
  moreover have "length (typed_frame (fin_resp_pb lib) (dec_type kDecompressFinish) (finish_response q)) < 2 ^ 32"
    by (rule typed_frame_small [OF assms(1)])
  moreover have "dfp_bufpair_id (finish_response q) = dfr_bufpair_id q" "dfp_data_inline (finish_response q) = dfr_data_inline q"
    by (simp_all add: finish_response_def)
  ultimately show ?thesis using assms unfolding server_replies_def dec_reply_def by (simp only: prod.case) blast
qed

interpretation dec_responder: responder "DecompressServer_onRecvSuccess lib left env" sv_mem "\<lambda>s. (sv_engine s, sv_untar s)"
  "server_enabled lib env" "server_replies lib"
proof unfold_locales
  fix c and s :: DecompressServer and i rest m junk
  assume ok: "bufs_ok c (sv_mem s) []" and free: "free_bufpairs c = i # rest"
    and en: "server_enabled lib env (sv_engine s, sv_untar s) (bufpairs c) m"
  show "\<exists>s' c' r. DecompressServer_onRecvSuccess lib left env (s, c) (m @ junk) (of_nat (length m)) = Inr (s', c')
      \<and> server_replies lib (sv_engine s, sv_untar s) m r (sv_engine s', sv_untar s') \<and> posted c (sv_mem s) i rest r c' (sv_mem s')"
  proof (cases "\<exists>q. m = dec_frame lib (Mmap_msg q) \<and> msg_fits lib (Mmap_msg q) \<and> mmap_enabled lib env (sv_engine s) (bufpairs c) q")
    case True
    then obtain q where q: "m = dec_frame lib (Mmap_msg q)" "msg_fits lib (Mmap_msg q)" "mmap_enabled lib env (sv_engine s) (bufpairs c) q" by blast
    obtain s' c' resp where h: "handleMmapInfoRequest lib env (s, c) q = Inr (True, s', c')"
      "posted c (sv_mem s) i rest (typed_frame (mmap_resp_pb lib) (dec_type kMmapInfo) resp) c' (sv_mem s')"
      "frame_fits (mmap_resp_pb lib) resp" "length (mir_mmaps resp) = length (ce_bufpairs (sv_engine s))"
      "dst_mems (sv_engine s') = dst_mems (sv_engine s)" "sv_untar s' = sv_untar s"
      by (rule mmap_handled [OF ok free q(3)])
    have "DecompressServer_onRecvSuccess lib left env (s, c) (m @ junk) (of_nat (length m)) = Inr (s', c')"
      unfolding q(1) by (rule server_recv_mmap [OF _ h(1)]) (use q(2) in simp)
    with h(2) mmap_replies [OF h(3,4) q(2) h(5)] h(6) q(1) show ?thesis by metis
  next
    case False
    with en obtain q where q: "m = dec_frame lib (Fin_msg q)" "msg_fits lib (Fin_msg q)" "fin_enabled lib env (sv_engine s) (bufpairs c) q"
      by (auto simp: server_enabled_def)
    obtain s' c' where h: "\<And>remain len. handleDecompressFinishRequest lib env (s, c) q remain len = Inr (True, s', c')"
      "posted c (sv_mem s) i rest (typed_frame (fin_resp_pb lib) (dec_type kDecompressFinish) (finish_response q)) c' (sv_mem s')"
      "sv_engine s' = sv_engine s" "sv_untar s' = sv_untar s @ [reported (sv_engine s) q]"
      by (rule fin_handled [OF ok free q(3)]) blast
    have "DecompressServer_onRecvSuccess lib left env (s, c) (m @ junk) (of_nat (length m)) = Inr (s', c')"
      unfolding q(1) by (rule server_recv_fin [OF _ h(1)]) (use q(2) in simp)
    moreover have "frame_fits (fin_resp_pb lib) (finish_response q)" using q(3) by (simp add: fin_enabled_def reply_fits_def)
    ultimately show ?thesis using h(2-4) fin_replies [OF _ q(2)] q(1) by metis
  qed
qed

end
