(* ===== verification/Decompress_Pair.thy ===== *)
theory Decompress_Pair
  imports Decompress_Server
begin

text \<open>
  The decompress client on the DPU and the decompress server on the host over one connection: both
  event loops, both network cards, and the hardware, which reads the source buffers of the DPU and writes
  the destination buffers of the host. The lemmas show that the untar engine gets the
  decompressed segments exactly once and in the order in which they were submitted on the DPU.
\<close>

section \<open>The buffers of a connection\<close>

text \<open>No handler of the client changes the number of its send buffers.\<close>

definition conn_bufs :: "DecompressClient \<Rightarrow> nat option" where
  "conn_bufs d = map_option (\<lambda>c. length (bufpairs c)) (dc_conn d)"

lemma start_conn: "startDecompressJob env d t i = Inr (ok, d') \<Longrightarrow> dc_conn d' = dc_conn d"
  by (auto simp: startDecompressJob_def Let_def res_simps split: if_splits)

lemma tryStart_conn:
  assumes "tryStartDecompressJob env d = Inr (ok, d')"
  shows "dc_conn d' = dc_conn d"
proof (cases "pending_compress_jobs d")
  case (Cons t rest)
  obtain r e where a: "CompressEngine_acquireFreeBufpair (dc_engine d) = (r, e)" by fastforce
  show ?thesis
  proof (cases r)
    case (Some i)
    with assms Cons a obtain ok1 d1 where "startDecompressJob env (d\<lparr>dc_engine := e\<rparr>) t i = Inr (ok1, d1)"
      and d': "dc_conn d' = dc_conn d1"
      by (auto simp: tryStartDecompressJob_def res_simps split: if_splits)
    then show ?thesis using start_conn by fastforce
  qed (use assms Cons a in \<open>auto simp: tryStartDecompressJob_def res_simps\<close>)
qed (use assms in \<open>auto simp: tryStartDecompressJob_def res_simps\<close>)

lemma acquire_bufpairs: "RdmaConnection_acquireFreeSendBuf c = Inr (r, c') \<Longrightarrow> bufpairs c' = bufpairs c"
  by (auto simp: RdmaConnection_acquireFreeSendBuf_def pool_front_def the_bufpair_def res_simps split: option.splits list.splits)

lemma send_finish_conn:
  "sendDecompressFinishRequest lib env d info b = Inr d' \<Longrightarrow> conn_bufs d' = conn_bufs d"
  by (auto simp: sendDecompressFinishRequest_def Let_def with_conn_def conn_bufs_def res_simps split: if_splits option.splits)

lemma send_or_wait_conn:
  assumes "send_or_wait lib env d info = Inr d'"
  shows "conn_bufs d' = conn_bufs d"
proof -
  from assms obtain c r c1 where c: "dc_conn d = Some c" "RdmaConnection_acquireFreeSendBuf c = Inr (r, c1)"
    and r: "(case r of Some b \<Rightarrow> sendDecompressFinishRequest lib env (d\<lparr>dc_conn := Some c1\<rparr>) info b
       | None \<Rightarrow> Inr (d\<lparr>dc_conn := Some c1, pending_rdma_jobs := pending_rdma_jobs d @ [info]\<rparr>)) = Inr d'"
    by (auto simp: send_or_wait_def with_conn_def res_simps split: option.splits)
  have "conn_bufs (d\<lparr>dc_conn := Some c1\<rparr>) = conn_bufs d" using c acquire_bufpairs by (simp add: conn_bufs_def)
  with r send_finish_conn show ?thesis by (cases r) (auto simp: conn_bufs_def)
qed

lemma submit_conn:
  assumes "submitDecompressTask lib env d e = Inr d'"
  shows "conn_bufs d' = conn_bufs d"
  using assms tryStart_conn send_or_wait_conn
  by (fastforce simp: submitDecompressTask_def Let_def conn_bufs_def res_simps split: if_splits)

lemma taskSuccess_conn:
  assumes "onDecompressTaskSuccess lib env d n = Inr d'"
  shows "conn_bufs d' = conn_bufs d"
proof -
  from assms obtain d1 ok where "send_or_wait lib env d (job_report (compress_job d) n) = Inr d1"
    "tryStartDecompressJob env (d1\<lparr>decompress_busy := False\<rparr>) = Inr (ok, d')"
    by (auto simp: onDecompressTaskSuccess_def res_simps)
  from send_or_wait_conn [OF this(1)] tryStart_conn [OF this(2)] show ?thesis by (simp add: conn_bufs_def)
qed

lemma done_conn:
  assumes "CompressEngine_handleRead (DecompressClient_engine_callbacks lib env) (d, dc_engine d)
      DOCA_SUCCESS (Inr (0, jid)) (Inr src_len) (Inr dst_len) arm_again = Inr (d', e')"
  shows "conn_bufs d' = conn_bufs d"
proof -
  let ?e = "(dc_engine d)\<lparr>engine_busy := False, workq := tl (workq (dc_engine d)), ev_armed := False\<rparr>"
  from assms have "onDecompressTaskSuccess lib env (d\<lparr>dc_engine := ?e\<rparr>) dst_len = Inr d'"
    by (auto simp: CompressEngine_handleRead_def DocaCore_retrieve_job_once_def retrieved_def
        DecompressClient_engine_callbacks_def Let_def res_simps)
  from taskSuccess_conn [OF this] show ?thesis by (simp add: conn_bufs_def)
qed

lemma send_pending_conn:
  assumes "send_pending lib env d = Inr d'"
  shows "conn_bufs d' = conn_bufs d"
proof (cases "pending_rdma_jobs d")
  case (Cons info rest)
  with assms obtain c b c1 where c: "dc_conn d = Some c" "RdmaConnection_acquireFreeSendBuf c = Inr (Some b, c1)"
    and r: "sendDecompressFinishRequest lib env (d\<lparr>dc_conn := Some c1, pending_rdma_jobs := rest\<rparr>) info b = Inr d'"
    by (auto simp: send_pending_def with_conn_def res_simps split: option.splits)
  from send_finish_conn [OF r] show ?thesis using c acquire_bufpairs by (simp add: conn_bufs_def)
qed (use assms in \<open>simp add: send_pending_def\<close>)

lemma finResponse_conn:
  assumes "handleDecompressFinishResponse lib env d resp = Inr (ok, d')"
  shows "conn_bufs d' = conn_bufs d"
proof -
  from assms obtain d1 where d1: "send_pending lib env d = Inr d1"
    and r: "(if \<not> dfp_data_inline resp
       then andThen (CompressEngine_releaseFreeBufpair (dc_engine d1) (size_of_int (dfp_bufpair_id resp))) (\<lambda>e.
         let d2 = d1\<lparr>dc_engine := e\<rparr> in
         if \<not> decompress_busy d2 then tryStartDecompressJob env d2 else Inr (True, d2))
       else Inr (True, d1\<lparr>dma_busy := False\<rparr>)) = Inr (ok, d')"
    by (auto simp: handleDecompressFinishResponse_def res_simps)
  have "dc_conn d' = dc_conn d1"
    using r by (auto simp: Let_def res_simps split: if_splits dest!: tryStart_conn)
  with send_pending_conn [OF d1] show ?thesis by (simp add: conn_bufs_def)
qed

lemma mmapResponse_conn:
  assumes "handleMmapInfoResponse env d resp = Inr (ok, d')"
  shows "conn_bufs d' = conn_bufs d"
proof -
  obtain r1 e1 where e1: "CompressEngine_src_mmaps_start (src_mem_addr env) False (src_map_outcomes env) (dc_engine d) = (r1, e1)"
    by fastforce
  show ?thesis using assms e1
    by (auto simp: handleMmapInfoResponse_def conn_bufs_def res_simps split: if_splits dest!: tryStart_conn)
qed

lemma recv_conn:
  assumes "DecompressClient_onRecvSuccess lib env d recv_buf recv_len = Inr d'"
  shows "conn_bufs d' = conn_bufs d"
proof (cases "recv_len < 4")
  case False
  with assms obtain c i others where c: "dc_conn d = Some c" "dc_inflight_sends d = i # others"
    by (auto simp: DecompressClient_onRecvSuccess_def with_conn_def split: option.splits list.splits)
  define d1 where "d1 = d\<lparr>dc_conn := Some (RdmaConnection_releaseSendBuf c i), dc_inflight_sends := others\<rparr>"
  have same: "conn_bufs d1 = conn_bufs d" using c by (simp add: conn_bufs_def d1_def)
  have "d' = d1 \<or> (\<exists>ok resp. handleMmapInfoResponse env d1 resp = Inr (ok, d'))
      \<or> (\<exists>ok resp. handleDecompressFinishResponse lib env d1 resp = Inr (ok, d'))"
    using assms False c
    by (auto simp: DecompressClient_onRecvSuccess_def with_conn_def d1_def Let_def res_simps split: if_splits)
  with same mmapResponse_conn finResponse_conn show ?thesis by metis
qed (use assms in \<open>simp add: DecompressClient_onRecvSuccess_def\<close>)

section \<open>The system\<close>

text \<open>
  \<open>dp_sys\<close> is the system of the client, with the messages its card has sent; \<open>dp_handled\<close> counts those the
  server has handled, \<open>dp_back\<close> are the answers the card of the server has sent.
\<close>

record dec_pair =
  dp_sys :: dec_system
  dp_server :: DecompressServer
  dp_sconn :: RdmaConnection
  dp_handled :: nat
  dp_back :: "byte list list"

text \<open>
  The hardware may write the destination buffer of the running job; when the job is done the buffer begins
  with the decompressed contents of the source buffer, whose length is reported. \<open>inflate\<close> is what the
  hardware computes.
\<close>

definition running_src :: "(seg_key \<Rightarrow> byte list) \<Rightarrow> DecompressClient \<Rightarrow> byte list" where
  "running_src cont d = take (length (cont (ji_key (compress_job d))))
     (src_mem (ce_bufpairs (dc_engine d) ! ongoing_bufpair_id (dc_engine d)))"

definition hw_write :: "nat \<Rightarrow> byte list \<Rightarrow> CompressEngine \<Rightarrow> CompressEngine" where
  "hw_write i bs e = e\<lparr>ce_bufpairs := (ce_bufpairs e)[i := (ce_bufpairs e ! i)\<lparr>dst_mem := bs\<rparr>]\<rparr>"

definition resp_fits :: "dec_lib \<Rightarrow> BufPair list \<Rightarrow> nat \<Rightarrow> seg_key \<Rightarrow> bool" where
  "resp_fits lib bps n k \<longleftrightarrow> (\<forall>q. fr_key q = k \<and> \<not> dfr_data_inline q \<and> 0 \<le> dfr_bufpair_id q \<and> dfr_bufpair_id q < int n
     \<longrightarrow> reply_fits (fin_resp_pb lib) (dec_type kDecompressFinish) bps (finish_response q))"

inductive pair_step ::
  "dec_lib \<Rightarrow> dserver_left \<Rightarrow> dec_env \<Rightarrow> dserver_env \<Rightarrow> (seg_key \<Rightarrow> byte list) \<Rightarrow> (byte list \<Rightarrow> byte list) \<Rightarrow> nat \<Rightarrow>
    dec_pair \<Rightarrow> dec_pair \<Rightarrow> bool"
  for lib left env senv cont inflate sz where
  P_submit: "is_compressed e \<Longrightarrow> task_fits cont sz (dc_heap (ds_client (dp_sys P))) e \<Longrightarrow>
    \<forall>c. dc_conn (ds_client (dp_sys P)) = Some c \<longrightarrow> fin_fits lib c (length (ce_bufpairs (dc_engine (ds_client (dp_sys P))))) (ce_key e) \<Longrightarrow>
    resp_fits lib (bufpairs (dp_sconn P)) (length (ce_bufpairs (dc_engine (ds_client (dp_sys P))))) (ce_key e) \<Longrightarrow>
    submitDecompressTask lib env (ds_client (dp_sys P)) e = Inr d' \<Longrightarrow>
    pair_step lib left env senv cont inflate sz P
      (P\<lparr>dp_sys := (dp_sys P)\<lparr>ds_client := d', ds_submitted := ds_submitted (dp_sys P) @ [e]\<rparr>\<rparr>)"
| P_card: "dc_conn (ds_client (dp_sys P)) = Some c \<Longrightarrow> length (ds_wire (dp_sys P)) < length (posts c) \<Longrightarrow>
    pair_step lib left env senv cont inflate sz P (P\<lparr>dp_sys := (dp_sys P)\<lparr>ds_wire := ds_wire (dp_sys P)
      @ [wire (dc_mem (ds_client (dp_sys P))) (posts c ! length (ds_wire (dp_sys P)))]\<rparr>\<rparr>)"
| P_write: "decompress_busy (ds_client (dp_sys P)) \<Longrightarrow> i = ongoing_bufpair_id (dc_engine (ds_client (dp_sys P))) \<Longrightarrow>
    length bs = length (dst_mem (ce_bufpairs (sv_engine (dp_server P)) ! i)) \<Longrightarrow>
    pair_step lib left env senv cont inflate sz P
      (P\<lparr>dp_server := (dp_server P)\<lparr>sv_engine := hw_write i bs (sv_engine (dp_server P))\<rparr>\<rparr>)"
| P_done: "workq (dc_engine (ds_client (dp_sys P))) = job # rest \<Longrightarrow>
    dst_len = length (inflate (running_src cont (ds_client (dp_sys P)))) \<Longrightarrow>
    take dst_len (dst_mems (sv_engine (dp_server P)) ! ongoing_bufpair_id (dc_engine (ds_client (dp_sys P))))
      = inflate (running_src cont (ds_client (dp_sys P))) \<Longrightarrow>
    CompressEngine_handleRead (DecompressClient_engine_callbacks lib env) (ds_client (dp_sys P), dc_engine (ds_client (dp_sys P)))
      DOCA_SUCCESS (Inr (0, job_user_data job)) (Inr src_len) (Inr dst_len) arm_again = Inr (d', e') \<Longrightarrow>
    pair_step lib left env senv cont inflate sz P (P\<lparr>dp_sys := (dp_sys P)\<lparr>ds_client := d'\<lparr>dc_engine := e'\<rparr>\<rparr>\<rparr>)"
| P_threads: "\<forall>t \<in> set (pending_compress_jobs (ds_client (dp_sys P))). task_fits cont sz h t \<Longrightarrow>
    pair_step lib left env senv cont inflate sz P
      (P\<lparr>dp_sys := (dp_sys P)\<lparr>ds_client := (ds_client (dp_sys P))\<lparr>dc_heap := h\<rparr>\<rparr>\<rparr>)"
| P_serve: "dp_handled P < length (ds_wire (dp_sys P)) \<Longrightarrow> m = ds_wire (dp_sys P) ! dp_handled P \<Longrightarrow>
    DecompressServer_onRecvSuccess lib left senv (dp_server P, dp_sconn P) (m @ junk) (of_nat (length m)) = Inr (s', c') \<Longrightarrow>
    pair_step lib left env senv cont inflate sz P (P\<lparr>dp_server := s', dp_sconn := c', dp_handled := Suc (dp_handled P)\<rparr>)"
| P_server_card: "length (dp_back P) < length (posts (dp_sconn P)) \<Longrightarrow>
    pair_step lib left env senv cont inflate sz P
      (P\<lparr>dp_back := dp_back P @ [wire (sv_mem (dp_server P)) (posts (dp_sconn P) ! length (dp_back P))]\<rparr>)"
| P_answer: "ds_answered (dp_sys P) < length (dp_back P) \<Longrightarrow> r = dp_back P ! ds_answered (dp_sys P) \<Longrightarrow>
    DecompressClient_onRecvSuccess lib env (ds_client (dp_sys P)) (r @ junk) (of_nat (length r)) = Inr d' \<Longrightarrow>
    pair_step lib left env senv cont inflate sz P
      (P\<lparr>dp_sys := (dp_sys P)\<lparr>ds_client := d', ds_answered := Suc (ds_answered (dp_sys P))\<rparr>\<rparr>)"

section \<open>The invariant\<close>

text \<open>A reported segment lies decompressed in its destination buffer.\<close>

definition in_place :: "(seg_key \<Rightarrow> byte list) \<Rightarrow> (byte list \<Rightarrow> byte list) \<Rightarrow> CompressEngine \<Rightarrow> DecompressFinishRequest \<Rightarrow> bool" where
  "in_place cont inflate e q \<longleftrightarrow> 0 \<le> dfr_segment_size q \<and> dfr_segment_size q < 2 ^ 31
     \<and> nat (dfr_bufpair_id q) < length (ce_bufpairs e)
     \<and> nat (dfr_segment_size q) \<le> length (dst_mems e ! nat (dfr_bufpair_id q))
     \<and> take (nat (dfr_segment_size q)) (dst_mems e ! nat (dfr_bufpair_id q)) = inflate (cont (fr_key q))"

definition plain :: "(seg_key \<Rightarrow> byte list) \<Rightarrow> (byte list \<Rightarrow> byte list) \<Rightarrow> seg_key \<Rightarrow> UntarData" where
  "plain cont inflate k = (case k of (img, l, n, i) \<Rightarrow>
     \<lparr>ud_layer = l, ud_image_name_tag = img, ud_segment = inflate (cont k), ud_index = i, ud_total_segments = n\<rparr>)"

text \<open>
  \<open>R\<close> are the answers posted and not sent. The segments given to the untar engine are those reported in the
  messages handled; those in messages not handled and those that wait are in place.
\<close>

definition pair_stage ::
  "dec_lib \<Rightarrow> dec_env \<Rightarrow> dserver_env \<Rightarrow> (seg_key \<Rightarrow> byte list) \<Rightarrow> (byte list \<Rightarrow> byte list) \<Rightarrow> nat \<Rightarrow> dec_pair \<Rightarrow>
    MmapInfoRequest \<Rightarrow> DecompressFinishRequest list \<Rightarrow> byte list list \<Rightarrow> bool" where
  "pair_stage lib env senv cont inflate sz P r0 fs R \<longleftrightarrow>
     (let S = dp_sys P; d = ds_client (dp_sys P); n = length (ce_bufpairs (dc_engine (ds_client (dp_sys P))));
          e = sv_engine (dp_server P); bps = bufpairs (dp_sconn P) in
      dec_stage lib env cont sz S r0 fs
      \<and> unread (dp_sconn P) (sv_mem (dp_server P)) (length (dp_back P)) R
      \<and> dp_handled P = length (dp_back P) + length R \<and> dp_handled P \<le> length (ds_wire S) \<and> ds_answered S \<le> length (dp_back P)
      \<and> (\<forall>j < dp_handled P. dec_reply lib n (ds_wire S ! j) ((dp_back P @ R) ! j))
      \<and> (\<exists>b. conn_bufs d = Some b \<and> b \<le> length bps)
      \<and> length (ce_bufpairs e) = n \<and> n \<noteq> 0 \<and> (\<forall>m \<in> set (dst_mems e). length m = MAX_FILE_SIZE)
      \<and> (\<forall>w. sv_post_err senv w = 0) \<and> (dp_handled P = 0 \<longrightarrow> mmap_enabled lib senv e bps r0)
      \<and> (\<forall>t \<in> set (ds_submitted S). resp_fits lib bps n (ce_key t))
      \<and> (\<forall>q \<in> set (drop (dp_handled P - 1) fs) \<union> finish_request ` set (pending_rdma_jobs d). in_place cont inflate e q)
      \<and> sv_untar (dp_server P) = map (plain cont inflate \<circ> fr_key) (take (dp_handled P - 1) fs))"

definition pair_inv ::
  "dec_lib \<Rightarrow> dec_env \<Rightarrow> dserver_env \<Rightarrow> (seg_key \<Rightarrow> byte list) \<Rightarrow> (byte list \<Rightarrow> byte list) \<Rightarrow> nat \<Rightarrow> dec_pair \<Rightarrow> bool" where
  "pair_inv lib env senv cont inflate sz P \<longleftrightarrow> env_ok env \<and> (\<exists>r0 fs R. pair_stage lib env senv cont inflate sz P r0 fs R)"

lemma in_place_mems:
  "dst_mems e' = dst_mems e \<Longrightarrow> in_place cont inflate e' q = in_place cont inflate e q"
proof -
  assume same: "dst_mems e' = dst_mems e"
  then have "length (ce_bufpairs e') = length (ce_bufpairs e)" by (metis dst_mems_def length_map)
  with same show ?thesis by (simp add: in_place_def)
qed

text \<open>The client takes a step: what is left to show is where the reported segments are.\<close>

lemma client_step_stage:
  assumes st: "pair_stage lib env senv cont inflate sz P r0 fs R" and dec: "dec_stage lib env cont sz S' r0 (fs @ map finish_request new)"
    and wire: "\<exists>ws. ds_wire S' = ds_wire (dp_sys P) @ ws" and ans: "ds_answered S' \<le> length (dp_back P)"
    and n: "length (ce_bufpairs (dc_engine (ds_client S'))) = length (ce_bufpairs (dc_engine (ds_client (dp_sys P))))"
    and conn: "conn_bufs (ds_client S') = conn_bufs (ds_client (dp_sys P))"
    and sub: "\<forall>t \<in> set (ds_submitted S'). resp_fits lib (bufpairs (dp_sconn P)) (length (ce_bufpairs (dc_engine (ds_client (dp_sys P))))) (ce_key t)"
    and new: "new @ pending_rdma_jobs (ds_client S') = pending_rdma_jobs (ds_client (dp_sys P)) @ extra"
    and extra: "\<forall>i \<in> set extra. in_place cont inflate (sv_engine (dp_server P)) (finish_request i)"
  shows "pair_stage lib env senv cont inflate sz (P\<lparr>dp_sys := S'\<rparr>) r0 (fs @ map finish_request new) R"
proof -
  let ?e = "sv_engine (dp_server P)" and ?h = "dp_handled P"
  from wire obtain ws where ws: "ds_wire S' = ds_wire (dp_sys P) @ ws" by blast
  have old: "?h \<le> length (ds_wire (dp_sys P))" "\<forall>q \<in> set (drop (?h - 1) fs) \<union> finish_request ` set (pending_rdma_jobs (ds_client (dp_sys P))). in_place cont inflate ?e q"
    and w: "ds_wire (dp_sys P) = map (dec_frame lib) (take (length (ds_wire (dp_sys P))) (Mmap_msg r0 # map Fin_msg fs))"
    using st by (simp_all add: pair_stage_def Let_def dec_stage_def)
  have h: "?h - 1 \<le> length fs" using old(1) wire_bound [OF w] by simp
  have "set new \<union> set (pending_rdma_jobs (ds_client S')) = set (pending_rdma_jobs (ds_client (dp_sys P))) \<union> set extra"
    using arg_cong [OF new, of set] by simp
  then have "\<forall>q \<in> set (drop (?h - 1) (fs @ map finish_request new)) \<union> finish_request ` set (pending_rdma_jobs (ds_client S')). in_place cont inflate ?e q"
    using old(2) extra h by auto
  moreover have "\<forall>j < ?h. ds_wire S' ! j = ds_wire (dp_sys P) ! j" using old(1) ws by (simp add: nth_append)
  moreover have "take (?h - 1) (fs @ map finish_request new) = take (?h - 1) fs" using h by simp
  ultimately show ?thesis using st dec ans n conn sub old(1) ws by (simp add: pair_stage_def Let_def)
qed

lemma pair_submit:
  assumes env: "env_ok env" and st: "pair_stage lib env senv cont inflate sz P r0 fs R"
    and e: "is_compressed e" "task_fits cont sz (dc_heap (ds_client (dp_sys P))) e"
    and fits: "\<forall>c. dc_conn (ds_client (dp_sys P)) = Some c \<longrightarrow> fin_fits lib c (length (ce_bufpairs (dc_engine (ds_client (dp_sys P))))) (ce_key e)"
    and resp: "resp_fits lib (bufpairs (dp_sconn P)) (length (ce_bufpairs (dc_engine (ds_client (dp_sys P))))) (ce_key e)"
    and run: "submitDecompressTask lib env (ds_client (dp_sys P)) e = Inr d'"
  shows "pair_stage lib env senv cont inflate sz (P\<lparr>dp_sys := (dp_sys P)\<lparr>ds_client := d', ds_submitted := ds_submitted (dp_sys P) @ [e]\<rparr>\<rparr>) r0 fs R"
proof -
  have dec: "dec_stage lib env cont sz (dp_sys P) r0 fs" using st by (simp add: pair_stage_def Let_def)
  obtain d where "submitDecompressTask lib env (ds_client (dp_sys P)) e = Inr d" "pending_rdma_jobs d = pending_rdma_jobs (ds_client (dp_sys P))"
    "length (ce_bufpairs (dc_engine d)) = length (ce_bufpairs (dc_engine (ds_client (dp_sys P))))"
    "dec_stage lib env cont sz ((dp_sys P)\<lparr>ds_client := d, ds_submitted := ds_submitted (dp_sys P) @ [e]\<rparr>) r0 fs"
    by (rule submit_stage [OF env dec e fits])
  with run submit_conn [OF run] st resp show ?thesis
    using client_step_stage [OF st, where new = "[]" and extra = "[]"] by (simp add: pair_stage_def Let_def)
qed

lemma pair_card:
  assumes st: "pair_stage lib env senv cont inflate sz P r0 fs R"
    and c: "dc_conn (ds_client (dp_sys P)) = Some c" "length (ds_wire (dp_sys P)) < length (posts c)"
  shows "pair_stage lib env senv cont inflate sz (P\<lparr>dp_sys := (dp_sys P)\<lparr>ds_wire := ds_wire (dp_sys P)
      @ [wire (dc_mem (ds_client (dp_sys P))) (posts c ! length (ds_wire (dp_sys P)))]\<rparr>\<rparr>) r0 fs R"
proof -
  have dec: "dec_stage lib env cont sz (dp_sys P) r0 fs" using st by (simp add: pair_stage_def Let_def)
  show ?thesis
    using client_step_stage [OF st, where new = "[]" and extra = "[]"
        and S' = "(dp_sys P)\<lparr>ds_wire := ds_wire (dp_sys P) @ [wire (dc_mem (ds_client (dp_sys P))) (posts c ! length (ds_wire (dp_sys P)))]\<rparr>"]
      card_stage [OF dec c] st by (simp add: pair_stage_def Let_def)
qed

lemma pair_threads:
  assumes st: "pair_stage lib env senv cont inflate sz P r0 fs R"
    and h: "\<forall>t \<in> set (pending_compress_jobs (ds_client (dp_sys P))). task_fits cont sz h t"
  shows "pair_stage lib env senv cont inflate sz (P\<lparr>dp_sys := (dp_sys P)\<lparr>ds_client := (ds_client (dp_sys P))\<lparr>dc_heap := h\<rparr>\<rparr>\<rparr>) r0 fs R"
proof -
  have dec: "dec_stage lib env cont sz (dp_sys P) r0 fs" using st by (simp add: pair_stage_def Let_def)
  from threads_stage [OF dec h] st show ?thesis
    using client_step_stage [OF st, where new = "[]" and extra = "[]"] by (simp add: pair_stage_def Let_def conn_bufs_def)
qed

lemma pair_answer:
  assumes env: "env_ok env" and st: "pair_stage lib env senv cont inflate sz P r0 fs R"
    and a: "ds_answered (dp_sys P) < length (dp_back P)" and r: "r = dp_back P ! ds_answered (dp_sys P)"
  obtains d' fs' where "DecompressClient_onRecvSuccess lib env (ds_client (dp_sys P)) (r @ junk) (of_nat (length r)) = Inr d'"
    and "pair_stage lib env senv cont inflate sz (P\<lparr>dp_sys := (dp_sys P)\<lparr>ds_client := d', ds_answered := Suc (ds_answered (dp_sys P))\<rparr>\<rparr>) r0 fs' R"
proof -
  let ?S = "dp_sys P" and ?a = "ds_answered (dp_sys P)"
  have dec: "dec_stage lib env cont sz ?S r0 fs" using st by (simp add: pair_stage_def Let_def)
  have a': "?a < dp_handled P" "dp_handled P \<le> length (ds_wire ?S)" using a st by (simp_all add: pair_stage_def Let_def)
  have "dec_reply lib (length (ce_bufpairs (dc_engine (ds_client ?S)))) (ds_wire ?S ! ?a) ((dp_back P @ R) ! ?a)"
    using st a'(1) by (simp add: pair_stage_def Let_def)
  then have rep: "dec_reply lib (length (ce_bufpairs (dc_engine (ds_client ?S)))) (ds_wire ?S ! ?a) r"
    using a r by (simp add: nth_append)
  have less: "?a < length (ds_wire ?S)" using a' by simp
  obtain d' new where d': "DecompressClient_onRecvSuccess lib env (ds_client ?S) (r @ junk) (of_nat (length r)) = Inr d'"
    "new @ pending_rdma_jobs d' = pending_rdma_jobs (ds_client ?S)"
    "length (ce_bufpairs (dc_engine d')) = length (ce_bufpairs (dc_engine (ds_client ?S)))"
    "dec_stage lib env cont sz (?S\<lparr>ds_client := d', ds_answered := Suc ?a\<rparr>) r0 (fs @ map finish_request new)"
    by (rule answer_stage [OF env dec less rep])
  have "pair_stage lib env senv cont inflate sz (P\<lparr>dp_sys := ?S\<lparr>ds_client := d', ds_answered := Suc ?a\<rparr>\<rparr>) r0 (fs @ map finish_request new) R"
    by (rule client_step_stage [OF st d'(4), where extra = "[]"])
       (use a d' recv_conn [OF d'(1)] st in \<open>simp_all add: pair_stage_def Let_def\<close>)
  with d'(1) show ?thesis by (rule that)
qed

text \<open>The running job: its pair, and that its segment is in the source buffer.\<close>

lemma running_facts:
  assumes "dec_stage lib env cont sz S r0 fs" and "decompress_busy (ds_client S)"
  shows "running_src cont (ds_client S) = cont (ji_key (compress_job (ds_client S)))"
    and "ji_bufpair_id (compress_job (ds_client S)) = int (ongoing_bufpair_id (dc_engine (ds_client S)))"
    and "ongoing_bufpair_id (dc_engine (ds_client S)) < length (ce_bufpairs (dc_engine (ds_client S)))"
    and "ongoing_bufpair_id (dc_engine (ds_client S)) \<notin> set (pairs_of fs (ds_answered S) (ds_client S))"
proof -
  let ?d = "ds_client S" and ?held = "pairs_of fs (ds_answered S) (ds_client S)"
  have eng: "engine_ok cont sz ?d ?held" using assms(1) by (simp add: dec_stage_def dec_ok_def)
  show "running_src cont ?d = cont (ji_key (compress_job ?d))"
    and id: "ji_bufpair_id (compress_job ?d) = int (ongoing_bufpair_id (dc_engine ?d))"
    and "ongoing_bufpair_id (dc_engine ?d) < length (ce_bufpairs (dc_engine ?d))"
    using eng assms(2) by (simp_all add: engine_ok_def running_src_def)
  have "distinct (?held @ [nat (ji_bufpair_id (compress_job ?d))])"
    using eng assms(2) pool_split_distinct(2) unfolding engine_ok_def pairs_ok_def running_job_def by fastforce
  with id show "ongoing_bufpair_id (dc_engine ?d) \<notin> set ?held" by simp
qed

lemma busy_workq:
  assumes "dec_stage lib env cont sz S r0 fs" and "workq (dc_engine (ds_client S)) \<noteq> []"
  shows "decompress_busy (ds_client S)"
  using assms by (auto simp: dec_stage_def dec_ok_def engine_ok_def split: if_splits)

lemma finish_report [simp]:
  "ri_key (job_report j n) = ji_key j" "dfr_bufpair_id (finish_request (job_report j n)) = ji_bufpair_id j"
  "dfr_segment_size (finish_request (job_report j n)) = sint (of_nat n :: 32 word)"
  by (simp_all add: ri_key_def finish_request_def job_report_def ji_key_def)

lemma pair_done:
  assumes env: "env_ok env" and st: "pair_stage lib env senv cont inflate sz P r0 fs R"
    and w: "workq (dc_engine (ds_client (dp_sys P))) = job # rest"
    and len: "dst_len = length (inflate (running_src cont (ds_client (dp_sys P))))"
    and dst: "take dst_len (dst_mems (sv_engine (dp_server P)) ! ongoing_bufpair_id (dc_engine (ds_client (dp_sys P))))
      = inflate (running_src cont (ds_client (dp_sys P)))"
  obtains d' e' fs' where "CompressEngine_handleRead (DecompressClient_engine_callbacks lib env)
      (ds_client (dp_sys P), dc_engine (ds_client (dp_sys P)))
      DOCA_SUCCESS (Inr (0, job_user_data job)) (Inr src_len) (Inr dst_len) arm_again = Inr (d', e')"
    and "pair_stage lib env senv cont inflate sz (P\<lparr>dp_sys := (dp_sys P)\<lparr>ds_client := d'\<lparr>dc_engine := e'\<rparr>\<rparr>\<rparr>) r0 fs' R"
    and "length fs' + length (pending_rdma_jobs d') = Suc (length fs + length (pending_rdma_jobs (ds_client (dp_sys P))))"
proof -
  let ?S = "dp_sys P" and ?e = "sv_engine (dp_server P)"
  let ?d = "ds_client ?S" and ?i = "ongoing_bufpair_id (dc_engine (ds_client (dp_sys P)))"
  let ?info = "job_report (compress_job ?d) dst_len"
  have dec: "dec_stage lib env cont sz ?S r0 fs" and size: "length (ce_bufpairs ?e) = length (ce_bufpairs (dc_engine ?d))"
    "\<forall>m \<in> set (dst_mems ?e). length m = MAX_FILE_SIZE" using st by (simp_all add: pair_stage_def Let_def)
  note run = running_facts [OF dec busy_workq [OF dec]]
  have i: "?i < length (dst_mems ?e)" using run(3) w size(1) by (simp add: dst_mems_def)
  then have "length (dst_mems ?e ! ?i) = MAX_FILE_SIZE" using size(2) nth_mem by blast
  then have le: "dst_len \<le> MAX_FILE_SIZE" using arg_cong [OF dst, of length] len by simp
  then have sint: "sint (of_nat dst_len :: 32 word) = int dst_len" by (intro sint_of_nat_small) (simp add: MAX_FILE_SIZE_def)
  have place: "in_place cont inflate ?e (finish_request ?info)"
    using run(1-3) w dst le size(1) sint \<open>length (dst_mems ?e ! ?i) = MAX_FILE_SIZE\<close>
    by (simp add: in_place_def) (simp add: MAX_FILE_SIZE_def)
  obtain d' e' new where d': "CompressEngine_handleRead (DecompressClient_engine_callbacks lib env) (?d, dc_engine ?d)
      DOCA_SUCCESS (Inr (0, job_user_data job)) (Inr src_len) (Inr dst_len) arm_again = Inr (d', e')"
    "new @ pending_rdma_jobs d' = pending_rdma_jobs ?d @ [?info]"
    "length (ce_bufpairs e') = length (ce_bufpairs (dc_engine ?d))"
    "dec_stage lib env cont sz (?S\<lparr>ds_client := d'\<lparr>dc_engine := e'\<rparr>\<rparr>) r0 (fs @ map finish_request new)"
    by (rule done_stage [OF env dec w])
  have "conn_bufs (d'\<lparr>dc_engine := e'\<rparr>) = conn_bufs ?d" using done_conn [OF d'(1)] by (simp add: conn_bufs_def)
  then have "pair_stage lib env senv cont inflate sz (P\<lparr>dp_sys := ?S\<lparr>ds_client := d'\<lparr>dc_engine := e'\<rparr>\<rparr>\<rparr>) r0 (fs @ map finish_request new) R"
    by (intro client_step_stage [OF st d'(4), where extra = "[?info]"])
       (use d' place st in \<open>simp_all add: pair_stage_def Let_def\<close>)
  moreover have "length (fs @ map finish_request new) + length (pending_rdma_jobs d') = Suc (length fs + length (pending_rdma_jobs ?d))"
    using arg_cong [OF d'(2), of length] by simp
  ultimately show ?thesis by (rule that [OF d'(1)])
qed

lemma dst_mems_write:
  "i < length (ce_bufpairs e) \<Longrightarrow> dst_mems (hw_write i bs e) = (dst_mems e)[i := bs]"
  "length (ce_bufpairs (hw_write i bs e)) = length (ce_bufpairs e)"
  by (simp_all add: dst_mems_def hw_write_def map_update)

lemma in_place_write:
  assumes "in_place cont inflate e q" and "nat (dfr_bufpair_id q) \<noteq> i" and "i < length (ce_bufpairs e)"
  shows "in_place cont inflate (hw_write i bs e) q"
  using assms dst_mems_write(1) [OF assms(3), of bs] dst_mems_write(2) [where i = i and bs = bs and e = e]
  by (simp add: in_place_def)

lemma pair_write:
  assumes st: "pair_stage lib env senv cont inflate sz P r0 fs R" and busy: "decompress_busy (ds_client (dp_sys P))"
    and i: "i = ongoing_bufpair_id (dc_engine (ds_client (dp_sys P)))"
    and len: "length bs = length (dst_mem (ce_bufpairs (sv_engine (dp_server P)) ! i))"
  shows "pair_stage lib env senv cont inflate sz (P\<lparr>dp_server := (dp_server P)\<lparr>sv_engine := hw_write i bs (sv_engine (dp_server P))\<rparr>\<rparr>) r0 fs R"
proof -
  let ?d = "ds_client (dp_sys P)" and ?e = "sv_engine (dp_server P)" and ?a = "ds_answered (dp_sys P)" and ?h = "dp_handled P"
  let ?new = "hw_write i bs ?e"
  have dec: "dec_stage lib env cont sz (dp_sys P) r0 fs" and n: "length (ce_bufpairs ?e) = length (ce_bufpairs (dc_engine ?d))"
    and mems: "\<forall>m \<in> set (dst_mems ?e). length m = MAX_FILE_SIZE" and h: "?a \<le> ?h"
    and place: "\<forall>q \<in> set (drop (?h - 1) fs) \<union> finish_request ` set (pending_rdma_jobs ?d). in_place cont inflate ?e q"
    using st by (simp_all add: pair_stage_def Let_def)
  note run = running_facts [OF dec busy]
  have bound: "i < length (ce_bufpairs ?e)" using run(3) n i by simp
  note mem = dst_mems_write(1) [OF bound, of bs]
  have "?a \<noteq> 0" using dec busy by (auto simp: dec_stage_def dec_ok_def engine_ok_def)
  have "set (drop (?h - 1) fs) \<subseteq> set (drop (?a - 1) fs)" using h by (intro set_drop_subset_set_drop) simp
  then have "nat (dfr_bufpair_id q) \<noteq> i" if "q \<in> set (drop (?h - 1) fs) \<union> finish_request ` set (pending_rdma_jobs ?d)" for q
    using run(4) that i by (fastforce simp: pairs_of_def finish_request_def image_iff)
  then have place': "\<forall>q \<in> set (drop (?h - 1) fs) \<union> finish_request ` set (pending_rdma_jobs ?d). in_place cont inflate ?new q"
    using place in_place_write [OF _ _ bound] by blast
  have "length bs = MAX_FILE_SIZE" using len mems bound by (simp add: dst_mems_def)
  then have mems': "\<forall>m \<in> set (dst_mems ?new). length m = MAX_FILE_SIZE"
    using mems mem set_update_subset_insert [of "dst_mems ?e" i bs] by auto
  have "?h \<noteq> 0" using \<open>?a \<noteq> 0\<close> h by simp
  with st place' mems' dst_mems_write(2) [where i = i and bs = bs and e = ?e] show ?thesis
    unfolding pair_stage_def Let_def by simp blast
qed

lemma pair_server_card:
  assumes st: "pair_stage lib env senv cont inflate sz P r0 fs R" and l: "length (dp_back P) < length (posts (dp_sconn P))"
  obtains R' where "pair_stage lib env senv cont inflate sz
    (P\<lparr>dp_back := dp_back P @ [wire (sv_mem (dp_server P)) (posts (dp_sconn P) ! length (dp_back P))]\<rparr>) r0 fs R'"
proof -
  have "unread (dp_sconn P) (sv_mem (dp_server P)) (length (dp_back P)) R" using st by (simp add: pair_stage_def Let_def)
  then obtain m R' where m: "R = m # R'" "wire (sv_mem (dp_server P)) (posts (dp_sconn P) ! length (dp_back P)) = m"
    "unread (dp_sconn P) (sv_mem (dp_server P)) (Suc (length (dp_back P))) R'" by (rule unread_card [OF _ l])
  with st show ?thesis by (intro that [of R']) (simp add: pair_stage_def Let_def)
qed

text \<open>The server handles the next message: it can answer it, and it has a buffer for the answer.\<close>

lemma next_enabled:
  assumes st: "pair_stage lib env senv cont inflate sz P r0 fs R" and h: "dp_handled P < length (ds_wire (dp_sys P))"
  shows "server_enabled lib senv (sv_engine (dp_server P), sv_untar (dp_server P)) (bufpairs (dp_sconn P)) (ds_wire (dp_sys P) ! dp_handled P)"
    and "dp_handled P = 0 \<Longrightarrow> ds_wire (dp_sys P) ! dp_handled P = dec_frame lib (Mmap_msg r0) \<and> msg_fits lib (Mmap_msg r0)"
    and "dp_handled P \<noteq> 0 \<Longrightarrow> ds_wire (dp_sys P) ! dp_handled P = dec_frame lib (Fin_msg (fs ! (dp_handled P - 1)))
      \<and> msg_fits lib (Fin_msg (fs ! (dp_handled P - 1))) \<and> dp_handled P \<le> length fs"
proof -
  let ?S = "dp_sys P" and ?h = "dp_handled P" and ?e = "sv_engine (dp_server P)" and ?bps = "bufpairs (dp_sconn P)"
  let ?d = "ds_client ?S" and ?ms = "Mmap_msg r0 # map Fin_msg fs"
  have dec: "dec_stage lib env cont sz ?S r0 fs" using st by (simp add: pair_stage_def Let_def)
  then have inv: "dec_ok lib cont sz ?d r0 fs (ds_answered ?S)" and w: "ds_wire ?S = map (dec_frame lib) (take (length (ds_wire ?S)) ?ms)"
    and order: "map ce_key (ds_submitted ?S) = map fr_key fs @ to_come ?d" by (simp_all add: dec_stage_def)
  have len: "?h < length ?ms" using wire_bound [OF w] h by simp
  have m: "ds_wire ?S ! ?h = dec_frame lib (?ms ! ?h)" using w h len by (metis (no_types, lifting) length_map nth_map nth_take)
  have fit: "msg_fits lib (?ms ! ?h)" using inv len unfolding dec_ok_def by (meson nth_mem)
  show zero: "ds_wire ?S ! ?h = dec_frame lib (Mmap_msg r0) \<and> msg_fits lib (Mmap_msg r0)" if "?h = 0" using m fit that by simp
  show pos: "ds_wire ?S ! ?h = dec_frame lib (Fin_msg (fs ! (?h - 1))) \<and> msg_fits lib (Fin_msg (fs ! (?h - 1))) \<and> ?h \<le> length fs"
    if "?h \<noteq> 0" using m fit that len by (cases ?h) simp_all
  show "server_enabled lib senv (?e, sv_untar (dp_server P)) ?bps (ds_wire ?S ! ?h)"
  proof (cases "?h = 0")
    case True
    with zero st show ?thesis unfolding server_enabled_def by (auto simp: pair_stage_def Let_def)
  next
    case False
    let ?q = "fs ! (?h - 1)"
    have i: "?h - 1 < length fs" using pos [OF False] False by linarith
    then have q: "?q \<in> set fs" "?q \<in> set (drop (?h - 1) fs)" by (auto simp flip: Cons_nth_drop_Suc)
    have ok: "\<not> dfr_data_inline ?q" "0 \<le> dfr_bufpair_id ?q" using inv q(1) by (auto simp: dec_ok_def)
    have place: "in_place cont inflate ?e ?q" and n: "length (ce_bufpairs ?e) = length (ce_bufpairs (dc_engine ?d))"
      using st q(2) by (simp_all add: pair_stage_def Let_def)
    have "fr_key ?q \<in> set (map ce_key (ds_submitted ?S))" using order q(1) by simp
    then have "resp_fits lib ?bps (length (ce_bufpairs (dc_engine ?d))) (fr_key ?q)" using st by (auto simp: pair_stage_def Let_def)
    moreover have "dfr_bufpair_id ?q < int (length (ce_bufpairs (dc_engine ?d)))" using ok(2) place n by (simp add: in_place_def nat_less_iff)
    ultimately have "reply_fits (fin_resp_pb lib) (dec_type kDecompressFinish) ?bps (finish_response ?q)"
      using ok unfolding resp_fits_def by blast
    moreover have "length (ce_bufpairs ?e) < 2 ^ 31" using inv n by (auto simp: dec_ok_def engine_ok_def pairs_ok_def)
    ultimately have "fin_enabled lib senv ?e ?bps ?q" using ok place st by (simp add: fin_enabled_def in_place_def pair_stage_def Let_def)
    with pos [OF False] show ?thesis unfolding server_enabled_def by auto
  qed
qed

lemma room_for_answer:
  assumes st: "pair_stage lib env senv cont inflate sz P r0 fs R" and h: "dp_handled P < length (ds_wire (dp_sys P))"
  shows "length R < length (bufpairs (dp_sconn P))"
proof -
  let ?S = "dp_sys P" and ?ms = "Mmap_msg r0 # map Fin_msg fs"
  have dec: "dec_stage lib env cont sz ?S r0 fs" using st by (simp add: pair_stage_def Let_def)
  then have w: "ds_wire ?S = map (dec_frame lib) (take (length (ds_wire ?S)) ?ms)" by (simp add: dec_stage_def)
  from dec obtain c where c: "dc_conn (ds_client ?S) = Some c"
    "in_flight (dec_frame lib) c (dc_mem (ds_client ?S)) (dc_inflight_sends (ds_client ?S)) (drop (ds_answered ?S) ?ms)"
    by (auto simp: dec_stage_def dec_ok_def link_ok_def)
  have "length (drop (ds_answered ?S) ?ms) \<le> length (bufpairs c)" using in_flight_count [OF c(2)] by simp
  moreover have "length (bufpairs c) \<le> length (bufpairs (dp_sconn P))" using st c(1) by (auto simp: pair_stage_def Let_def conn_bufs_def)
  moreover have "dp_handled P = length (dp_back P) + length R" "ds_answered ?S \<le> length (dp_back P)"
    using st by (simp_all add: pair_stage_def Let_def)
  ultimately show ?thesis using h wire_bound [OF w] by simp
qed

lemma reported_plain:
  assumes "in_place cont inflate e q"
  shows "reported e q = plain cont inflate (fr_key q)"
  using assms by (simp add: reported_def plain_def untar_data_def in_place_def fr_key_def)

lemma pair_serve:
  assumes st: "pair_stage lib env senv cont inflate sz P r0 fs R" and h: "dp_handled P < length (ds_wire (dp_sys P))"
    and m: "m = ds_wire (dp_sys P) ! dp_handled P"
  obtains s' c' r where "DecompressServer_onRecvSuccess lib left senv (dp_server P, dp_sconn P) (m @ junk) (of_nat (length m)) = Inr (s', c')"
    and "pair_stage lib env senv cont inflate sz (P\<lparr>dp_server := s', dp_sconn := c', dp_handled := Suc (dp_handled P)\<rparr>) r0 fs (R @ [r])"
proof -
  let ?S = "dp_sys P" and ?h = "dp_handled P" and ?s = "dp_server P" and ?c = "dp_sconn P"
  let ?e = "sv_engine ?s" and ?n = "length (ce_bufpairs (dc_engine (ds_client (dp_sys P))))"
  have un: "unread ?c (sv_mem ?s) (length (dp_back P)) R" and n: "length (ce_bufpairs ?e) = ?n" and hR: "?h = length (dp_back P) + length R"
    and untar: "sv_untar ?s = map (plain cont inflate \<circ> fr_key) (take (?h - 1) fs)"
    and old: "\<forall>j < ?h. dec_reply lib ?n (ds_wire ?S ! j) ((dp_back P @ R) ! j)"
    and place: "\<forall>q \<in> set (drop (?h - 1) fs) \<union> finish_request ` set (pending_rdma_jobs (ds_client ?S)). in_place cont inflate ?e q"
    using st by (simp_all add: pair_stage_def Let_def)
  note en = next_enabled [OF st h]
  obtain s' c' r where r: "DecompressServer_onRecvSuccess lib left senv (?s, ?c) (m @ junk) (of_nat (length m)) = Inr (s', c')"
    "server_replies lib (?e, sv_untar ?s) m r (sv_engine s', sv_untar s')" "unread c' (sv_mem s') (length (dp_back P)) (R @ [r])"
    "bufpairs c' = bufpairs ?c"
    by (rule dec_responder.answer_unread [OF un room_for_answer [OF st h] en(1) [folded m]])
  have rep: "dec_reply lib ?n m r" and mems: "dst_mems (sv_engine s') = dst_mems ?e" using r(2) n by (simp_all add: server_replies_def)
  have "sv_untar s' = map (plain cont inflate \<circ> fr_key) (take ?h fs)"
  proof (cases "?h = 0")
    case True
    then have "sv_untar s' = sv_untar ?s" using r(2) en(2) m unfolding server_replies_def prod.case by blast
    with True untar show ?thesis by simp
  next
    case False
    then have i: "?h - 1 < length fs" "take ?h fs = take (?h - 1) fs @ [fs ! (?h - 1)]"
      using en(3) take_Suc_conv_app_nth [of "?h - 1" fs] by auto
    have "fs ! (?h - 1) \<in> set (drop (?h - 1) fs)" using i(1) by (auto simp flip: Cons_nth_drop_Suc)
    then have "reported ?e (fs ! (?h - 1)) = plain cont inflate (fr_key (fs ! (?h - 1)))" using place reported_plain by blast
    moreover have "sv_untar s' = sv_untar ?s @ [reported ?e (fs ! (?h - 1))]" using r(2) en(3) [OF False] m unfolding server_replies_def prod.case by blast
    ultimately show ?thesis using untar i(2) by simp
  qed
  moreover have "set (drop ?h fs) \<subseteq> set (drop (?h - 1) fs)" by (intro set_drop_subset_set_drop) simp
  with place have "\<forall>q \<in> set (drop ?h fs) \<union> finish_request ` set (pending_rdma_jobs (ds_client ?S)). in_place cont inflate (sv_engine s') q"
    using in_place_mems [OF mems] by blast
  moreover have "\<forall>j < Suc ?h. dec_reply lib ?n (ds_wire ?S ! j) ((dp_back P @ R @ [r]) ! j)"
    using old rep m hR nth_append [of "dp_back P @ R" "[r]"] by (auto simp: less_Suc_eq)
  moreover have "length (ce_bufpairs (sv_engine s')) = ?n" using mems n by (metis dst_mems_def length_map)
  ultimately have "pair_stage lib env senv cont inflate sz (P\<lparr>dp_server := s', dp_sconn := c', dp_handled := Suc ?h\<rparr>) r0 fs (R @ [r])"
    using st r(3,4) h mems unfolding pair_stage_def Let_def by simp
  with r(1) show ?thesis by (rule that)
qed

section \<open>Runs\<close>

text \<open>The start: a connected client, and a server that has got nothing and has at least as many send buffers.\<close>

definition pair_init ::
  "dec_lib \<Rightarrow> dec_env \<Rightarrow> dserver_env \<Rightarrow> (seg_key \<Rightarrow> byte list) \<Rightarrow> nat \<Rightarrow> dec_pair \<Rightarrow> bool" where
  "pair_init lib env senv cont sz P \<longleftrightarrow> dec_init lib env cont sz (dp_sys P) \<and> dp_handled P = 0 \<and> dp_back P = []
     \<and> (\<exists>e M. dp_server P = DecompressServer_new e M \<and> bufs_ok (dp_sconn P) M [] \<and> sq (dp_sconn P) = []
         \<and> length (ce_bufpairs e) = length (ce_bufpairs (dc_engine (ds_client (dp_sys P))))
         \<and> mmap_enabled lib senv e (bufpairs (dp_sconn P)) (mmap_request (length (ce_bufpairs e))))
     \<and> (\<forall>c. dc_conn (ds_client (dp_sys P)) = Some c \<longrightarrow> length (bufpairs c) \<le> length (bufpairs (dp_sconn P)))
     \<and> (\<forall>t \<in> set (ds_submitted (dp_sys P)).
          resp_fits lib (bufpairs (dp_sconn P)) (length (ce_bufpairs (dc_engine (ds_client (dp_sys P))))) (ce_key t))"

lemma pair_init_inv:
  assumes "pair_init lib env senv cont sz P"
  shows "pair_inv lib env senv cont inflate sz P"
proof -
  let ?d = "ds_client (dp_sys P)"
  from assms obtain e M where init: "dec_init lib env cont sz (dp_sys P)" and z: "dp_handled P = 0" "dp_back P = []"
    and sv: "dp_server P = DecompressServer_new e M" "bufs_ok (dp_sconn P) M []" "sq (dp_sconn P) = []"
      "length (ce_bufpairs e) = length (ce_bufpairs (dc_engine ?d))"
      "mmap_enabled lib senv e (bufpairs (dp_sconn P)) (mmap_request (length (ce_bufpairs e)))"
    and b: "\<forall>c. dc_conn ?d = Some c \<longrightarrow> length (bufpairs c) \<le> length (bufpairs (dp_sconn P))"
    and sub: "\<forall>t \<in> set (ds_submitted (dp_sys P)). resp_fits lib (bufpairs (dp_sconn P)) (length (ce_bufpairs (dc_engine ?d))) (ce_key t)"
    unfolding pair_init_def by blast
  note st = dec_init_stage [OF init]
  from st(2) obtain c where c: "dc_conn ?d = Some c" by (auto simp: dec_stage_def dec_ok_def link_ok_def)
  then have "\<exists>k. conn_bufs ?d = Some k \<and> k \<le> length (bufpairs (dp_sconn P))" using b by (simp add: conn_bufs_def)
  moreover have "\<forall>w. sv_post_err senv w = 0" "\<forall>m \<in> set (dst_mems e). length m = MAX_FILE_SIZE"
    "length (ce_bufpairs (dc_engine ?d)) \<noteq> 0"
    using sv(4,5) by (auto simp: mmap_enabled_def server_env_ok_def)
  moreover have "ds_answered (dp_sys P) = 0" using init by (simp add: dec_init_def)
  ultimately have "pair_stage lib env senv cont inflate sz P (mmap_request (length (ce_bufpairs (dc_engine ?d)))) [] []"
    using st(2,3) z sv sub unread_start [OF sv(2,3)] by (simp add: pair_stage_def Let_def DecompressServer_new_def)
  with st(1) show ?thesis by (auto simp: pair_inv_def)
qed

lemma pair_step_inv:
  assumes "pair_inv lib env senv cont inflate sz P" and "pair_step lib left env senv cont inflate sz P P'"
  shows "pair_inv lib env senv cont inflate sz P'"
proof -
  from assms(1) obtain r0 fs R where env: "env_ok env" and st: "pair_stage lib env senv cont inflate sz P r0 fs R"
    by (auto simp: pair_inv_def)
  from assms(2) have "\<exists>fs' R'. pair_stage lib env senv cont inflate sz P' r0 fs' R'"
  proof cases
    case (P_submit e d')
    with pair_submit [OF env st P_submit(2-6)] show ?thesis by blast
  next
    case (P_card c)
    with pair_card [OF st P_card(2,3)] show ?thesis by blast
  next
    case (P_write i bs)
    with pair_write [OF st P_write(2-4)] show ?thesis by blast
  next
    case (P_done job rest dst_len src_len arm_again d' e')
    with pair_done [OF env st P_done(2-4), of src_len arm_again] show ?thesis by (metis prod.inject sum.inject(2))
  next
    case (P_threads h)
    with pair_threads [OF st] show ?thesis by blast
  next
    case (P_serve m junk s' c')
    with pair_serve [OF st P_serve(2,3), of left junk] show ?thesis by (metis prod.inject sum.inject(2))
  next
    case P_server_card
    with pair_server_card [OF st P_server_card(2)] show ?thesis by metis
  next
    case (P_answer r junk d')
    with pair_answer [OF env st P_answer(2,3), of junk] show ?thesis by (metis sum.inject(2))
  qed
  with env show ?thesis by (auto simp: pair_inv_def)
qed

interpretation pair_sys: invariant_system "pair_init lib env senv cont sz" "pair_step lib left env senv cont inflate sz"
  "pair_inv lib env senv cont inflate sz"
  by unfold_locales (blast intro: pair_init_inv pair_step_inv)+

lemma stage_untar:
  assumes st: "pair_stage lib env senv cont inflate sz P r0 fs R"
  shows "\<exists>k \<le> length (ds_submitted (dp_sys P)).
      sv_untar (dp_server P) = map (plain cont inflate \<circ> ce_key) (take k (ds_submitted (dp_sys P)))
      \<and> (dc_inflight_sends (ds_client (dp_sys P)) = [] \<and> \<not> decompress_busy (ds_client (dp_sys P)) \<longrightarrow> k = length (ds_submitted (dp_sys P)))"
proof -
  let ?S = "dp_sys P" and ?k = "min (dp_handled P - 1) (length fs)"
  have dec: "dec_stage lib env cont sz ?S r0 fs" and untar: "sv_untar (dp_server P) = map (plain cont inflate \<circ> fr_key) (take (dp_handled P - 1) fs)"
    and hd: "ds_answered ?S \<le> dp_handled P" using st by (simp_all add: pair_stage_def Let_def)
  then have order: "map ce_key (ds_submitted ?S) = map fr_key fs @ to_come (ds_client ?S)" by (simp add: dec_stage_def)
  have len: "length fs \<le> length (ds_submitted ?S)" using arg_cong [OF order, of length] by simp
  have "map fr_key (take (dp_handled P - 1) fs) = take ?k (map ce_key (ds_submitted ?S))" using order by (simp add: take_map min_def)
  then have "sv_untar (dp_server P) = map (plain cont inflate) (take ?k (map ce_key (ds_submitted ?S)))"
    unfolding untar by (metis map_map)
  moreover have "?k = length (ds_submitted ?S)" if "dc_inflight_sends (ds_client ?S) = []" "\<not> decompress_busy (ds_client ?S)"
  proof -
    have "ce_bufpairs (dc_engine (ds_client ?S)) \<noteq> []" using st by (auto simp: pair_stage_def Let_def)
    note quiet = stage_quiet [OF dec that this]
    have "ds_answered ?S = Suc (length fs)" using dec that(1) by (auto simp: dec_stage_def dec_ok_def link_ok_def in_flight_def)
    with hd quiet(1) arg_cong [OF order, of length] show ?thesis by simp
  qed
  ultimately show ?thesis using len by (intro exI [of _ ?k]) (auto simp: take_map)
qed

section \<open>A segment arrives\<close>

text \<open>A message that is posted can be sent and handled.\<close>

lemma next_message:
  assumes st: "pair_stage lib env senv cont inflate sz P r0 fs R" and more: "dp_handled P \<le> length fs"
  obtains P' R' where "(pair_step lib left env senv cont inflate sz)\<^sup>*\<^sup>* P P'" and "pair_stage lib env senv cont inflate sz P' r0 fs R'"
    and "ds_client (dp_sys P') = ds_client (dp_sys P)" and "ds_submitted (dp_sys P') = ds_submitted (dp_sys P)"
    and "ds_answered (dp_sys P') = ds_answered (dp_sys P)" and "dp_handled P' = Suc (dp_handled P)" and "dp_back P' = dp_back P"
proof -
  let ?step = "pair_step lib left env senv cont inflate sz"
  have hw: "dp_handled P \<le> length (ds_wire (dp_sys P))" using st by (simp add: pair_stage_def Let_def)
  obtain Q where Q: "?step\<^sup>*\<^sup>* P Q" "pair_stage lib env senv cont inflate sz Q r0 fs R" "dp_handled Q < length (ds_wire (dp_sys Q))"
    "ds_client (dp_sys Q) = ds_client (dp_sys P)" "ds_submitted (dp_sys Q) = ds_submitted (dp_sys P)"
    "ds_answered (dp_sys Q) = ds_answered (dp_sys P)" "dp_handled Q = dp_handled P" "dp_back Q = dp_back P"
  proof (cases "dp_handled P < length (ds_wire (dp_sys P))")
    case True
    with st show thesis by (intro that [of P]) simp_all
  next
    case False
    obtain c where "dc_conn (ds_client (dp_sys P)) = Some c" "length (posts c) = Suc (length fs)"
      using st by (auto simp: pair_stage_def Let_def dec_stage_def dec_ok_def link_ok_def)
    with False hw more have c: "dc_conn (ds_client (dp_sys P)) = Some c" "length (ds_wire (dp_sys P)) < length (posts c)" by simp_all
    let ?Q = "P\<lparr>dp_sys := (dp_sys P)\<lparr>ds_wire := ds_wire (dp_sys P) @ [wire (dc_mem (ds_client (dp_sys P))) (posts c ! length (ds_wire (dp_sys P)))]\<rparr>\<rparr>"
    have "?step P ?Q" by (rule P_card [OF c])
    with pair_card [OF st c] False hw show thesis by (intro that [of ?Q]) simp_all
  qed
  obtain s' c' r where h: "DecompressServer_onRecvSuccess lib left senv (dp_server Q, dp_sconn Q)
      (ds_wire (dp_sys Q) ! dp_handled Q @ []) (of_nat (length (ds_wire (dp_sys Q) ! dp_handled Q))) = Inr (s', c')"
    "pair_stage lib env senv cont inflate sz (Q\<lparr>dp_server := s', dp_sconn := c', dp_handled := Suc (dp_handled Q)\<rparr>) r0 fs (R @ [r])"
    by (rule pair_serve [OF Q(2,3) refl])
  have "?step Q (Q\<lparr>dp_server := s', dp_sconn := c', dp_handled := Suc (dp_handled Q)\<rparr>)" by (rule P_serve [OF Q(3) refl h(1)])
  with Q(1) have "?step\<^sup>*\<^sup>* P (Q\<lparr>dp_server := s', dp_sconn := c', dp_handled := Suc (dp_handled Q)\<rparr>)" by (rule rtranclp.rtrancl_into_rtrancl)
  then show thesis by (rule that [OF _ h(2)]) (use Q in simp_all)
qed

text \<open>After the maps have been exchanged a single segment is being decompressed or has been reported.\<close>

lemma single_runs:
  assumes st: "pair_stage lib env senv cont inflate sz P r0 fs R" and one: "ds_submitted (dp_sys P) = [t]" and a: "ds_answered (dp_sys P) = 1"
  shows "length fs = 1 \<or> fs = [] \<and> decompress_busy (ds_client (dp_sys P)) \<and> ji_key (compress_job (ds_client (dp_sys P))) = ce_key t"
    and "fs = [] \<Longrightarrow> pending_rdma_jobs (ds_client (dp_sys P)) = []"
proof -
  let ?d = "ds_client (dp_sys P)"
  have dec: "dec_stage lib env cont sz (dp_sys P) r0 fs" and ne: "ce_bufpairs (dc_engine ?d) \<noteq> []" using st by (auto simp: pair_stage_def Let_def)
  then have order: "[ce_key t] = map fr_key fs @ to_come ?d" using one by (simp add: dec_stage_def)
  obtain c where c: "dc_conn ?d = Some c" "bufpairs c \<noteq> []"
    "in_flight (dec_frame lib) c (dc_mem ?d) (dc_inflight_sends ?d) (drop 1 (Mmap_msg r0 # map Fin_msg fs))"
    using dec a unfolding dec_stage_def dec_ok_def link_ok_def by metis
  have quiet: "dc_inflight_sends ?d = []" if "fs = []"
    using c(3) that by (simp add: in_flight_def)
  show pend: "pending_rdma_jobs ?d = []" if "fs = []"
  proof -
    have "free_bufpairs c \<noteq> []" using in_flight_count [OF c(3)] c(2) that by auto
    with dec c(1) show ?thesis by (auto simp: dec_stage_def dec_ok_def waits_ok_def)
  qed
  show "length fs = 1 \<or> fs = [] \<and> decompress_busy ?d \<and> ji_key (compress_job ?d) = ce_key t"
  proof (cases "fs = []")
    case True
    then have tc: "to_come ?d = [ce_key t]" using order by simp
    with stage_quiet(1) [OF dec quiet [OF True] _ ne] have busy: "decompress_busy ?d" by auto
    with tc pend [OF True] show ?thesis using True by (simp add: to_come_def running_job_def)
  next
    case False
    with order show ?thesis by (cases fs) simp_all
  qed
qed

text \<open>The hardware decompresses the segment into the buffer of the host and reports it.\<close>

lemma segment_inflated:
  assumes env: "env_ok env" and st: "pair_stage lib env senv cont inflate sz P r0 [] R" and busy: "decompress_busy (ds_client (dp_sys P))"
    and key: "ji_key (compress_job (ds_client (dp_sys P))) = k" and pend: "pending_rdma_jobs (ds_client (dp_sys P)) = []"
    and room: "length (inflate (cont k)) \<le> MAX_FILE_SIZE"
  obtains P' fs where "(pair_step lib left env senv cont inflate sz)\<^sup>*\<^sup>* P P'" and "pair_stage lib env senv cont inflate sz P' r0 fs R"
    and "ds_submitted (dp_sys P') = ds_submitted (dp_sys P)" and "ds_answered (dp_sys P') = ds_answered (dp_sys P)"
    and "dp_handled P' = dp_handled P" and "length fs + length (pending_rdma_jobs (ds_client (dp_sys P'))) = 1"
proof -
  let ?d = "ds_client (dp_sys P)" and ?e = "sv_engine (dp_server P)"
  let ?i = "ongoing_bufpair_id (dc_engine ?d)" and ?bs = "inflate (cont k)"
  have dec: "dec_stage lib env cont sz (dp_sys P) r0 []" and mems: "\<forall>m \<in> set (dst_mems ?e). length m = MAX_FILE_SIZE"
    and n: "length (ce_bufpairs ?e) = length (ce_bufpairs (dc_engine ?d))" using st by (simp_all add: pair_stage_def Let_def)
  note run = running_facts [OF dec busy]
  have i: "?i < length (ce_bufpairs ?e)" using run(3) n by simp
  define w where "w = ?bs @ replicate (MAX_FILE_SIZE - length ?bs) 0"
  have lw: "length w = length (dst_mem (ce_bufpairs ?e ! ?i))" using room mems i by (simp add: w_def dst_mems_def)
  define Q where "Q = P\<lparr>dp_server := (dp_server P)\<lparr>sv_engine := hw_write ?i w ?e\<rparr>\<rparr>"
  have Q: "pair_step lib left env senv cont inflate sz P Q" "pair_stage lib env senv cont inflate sz Q r0 [] R"
    unfolding Q_def by (rule P_write [OF busy refl lw], rule pair_write [OF st busy refl lw])
  have same: "dp_sys Q = dp_sys P" by (simp add: Q_def)
  obtain job where job: "workq (dc_engine ?d) = [job]"
    using dec busy by (auto simp: dec_stage_def dec_ok_def engine_ok_def length_Suc_conv)
  have src: "inflate (running_src cont ?d) = ?bs" using run(1) key by simp
  have "dst_mems (sv_engine (dp_server Q)) ! ?i = w" using dst_mems_write(1) [OF i, of w] i by (simp add: Q_def dst_mems_def)
  then have dst: "take (length ?bs) (dst_mems (sv_engine (dp_server Q)) ! ongoing_bufpair_id (dc_engine (ds_client (dp_sys Q))))
      = inflate (running_src cont (ds_client (dp_sys Q)))" by (simp add: same src w_def)
  have len: "length ?bs = length (inflate (running_src cont (ds_client (dp_sys Q))))" by (simp add: same src)
  obtain d' e' fs where r: "CompressEngine_handleRead (DecompressClient_engine_callbacks lib env)
      (ds_client (dp_sys Q), dc_engine (ds_client (dp_sys Q))) DOCA_SUCCESS (Inr (0, job_user_data job)) (Inr 0) (Inr (length ?bs)) DOCA_SUCCESS = Inr (d', e')"
    "pair_stage lib env senv cont inflate sz (Q\<lparr>dp_sys := (dp_sys Q)\<lparr>ds_client := d'\<lparr>dc_engine := e'\<rparr>\<rparr>\<rparr>) r0 fs R"
    "length fs + length (pending_rdma_jobs d') = Suc (length ([] :: DecompressFinishRequest list) + length (pending_rdma_jobs (ds_client (dp_sys Q))))"
    by (rule pair_done [OF env Q(2) _ len dst]) (simp_all add: same job)
  let ?P' = "Q\<lparr>dp_sys := (dp_sys Q)\<lparr>ds_client := d'\<lparr>dc_engine := e'\<rparr>\<rparr>\<rparr>"
  have "pair_step lib left env senv cont inflate sz Q ?P'"
    by (rule P_done [where dst_len = "length ?bs", OF _ _ _ r(1)]) (use len dst in \<open>simp_all add: same job\<close>)
  with Q(1) have "(pair_step lib left env senv cont inflate sz)\<^sup>*\<^sup>* P ?P'" by (meson converse_rtranclp_into_rtranclp r_into_rtranclp)
  then show thesis by (rule that [OF _ r(2)]) (use r(3) pend same in \<open>simp_all add: Q_def\<close>)
qed

text \<open>The first segment submitted reaches the untar engine of the host, decompressed.\<close>

lemma first_segment_arrives:
  assumes init: "pair_init lib env senv cont sz P0" and one: "ds_submitted (dp_sys P0) = [t]"
    and room: "length (inflate (cont (ce_key t))) \<le> MAX_FILE_SIZE"
  obtains P where "(pair_step lib left env senv cont inflate sz)\<^sup>*\<^sup>* P0 P" and "ds_submitted (dp_sys P) = [t]"
    and "sv_untar (dp_server P) = [plain cont inflate (ce_key t)]"
proof -
  let ?step = "pair_step lib left env senv cont inflate sz"
  from pair_init_inv [OF init, of inflate] obtain r0 fs R where env: "env_ok env" and st: "pair_stage lib env senv cont inflate sz P0 r0 fs R"
    by (auto simp: pair_inv_def)
  have z: "dp_handled P0 = 0" "dp_back P0 = []" "ds_answered (dp_sys P0) = 0" using init by (auto simp: pair_init_def dec_init_def)
  then have "dp_handled P0 \<le> length fs" by simp
  obtain P1 R1 where P1: "?step\<^sup>*\<^sup>* P0 P1" "pair_stage lib env senv cont inflate sz P1 r0 fs R1" "ds_submitted (dp_sys P1) = [t]"
    "ds_answered (dp_sys P1) = 0" "dp_handled P1 = 1" "dp_back P1 = []"
    by (rule next_message [OF st \<open>dp_handled P0 \<le> length fs\<close>, of left]) (use z one in simp_all)
  have l1: "length (dp_back P1) < length (posts (dp_sconn P1))"
  proof -
    have "unread (dp_sconn P1) (sv_mem (dp_server P1)) (length (dp_back P1)) R1" "dp_handled P1 = length (dp_back P1) + length R1"
      using P1(2) by (simp_all add: pair_stage_def Let_def)
    with unread_posts P1(5,6) show ?thesis by fastforce
  qed
  define P2 where "P2 = P1\<lparr>dp_back := dp_back P1 @ [wire (sv_mem (dp_server P1)) (posts (dp_sconn P1) ! length (dp_back P1))]\<rparr>"
  obtain R2 where P2: "pair_stage lib env senv cont inflate sz P2 r0 fs R2" unfolding P2_def by (rule pair_server_card [OF P1(2) l1])
  have s2: "?step P1 P2" unfolding P2_def by (rule P_server_card [OF l1])
  have a2: "ds_answered (dp_sys P2) < length (dp_back P2)" using P1(4) by (simp add: P2_def)
  obtain d' fs3 where d': "DecompressClient_onRecvSuccess lib env (ds_client (dp_sys P2)) (dp_back P2 ! ds_answered (dp_sys P2) @ [])
      (of_nat (length (dp_back P2 ! ds_answered (dp_sys P2)))) = Inr d'"
    "pair_stage lib env senv cont inflate sz (P2\<lparr>dp_sys := (dp_sys P2)\<lparr>ds_client := d', ds_answered := Suc (ds_answered (dp_sys P2))\<rparr>\<rparr>) r0 fs3 R2"
    by (rule pair_answer [OF env P2 a2 refl])
  define P3 where "P3 = P2\<lparr>dp_sys := (dp_sys P2)\<lparr>ds_client := d', ds_answered := Suc (ds_answered (dp_sys P2))\<rparr>\<rparr>"
  have s3: "?step P2 P3" unfolding P3_def by (rule P_answer [OF a2 refl d'(1)])
  have P3: "pair_stage lib env senv cont inflate sz P3 r0 fs3 R2" "ds_submitted (dp_sys P3) = [t]" "ds_answered (dp_sys P3) = 1" "dp_handled P3 = 1"
    using d'(2) P1(3-5) by (simp_all add: P3_def P2_def)
  have run3: "?step\<^sup>*\<^sup>* P0 P3" using P1(1) s2 s3 by (meson rtranclp.rtrancl_into_rtrancl)
  obtain P4 fs4 where P4: "?step\<^sup>*\<^sup>* P3 P4" "pair_stage lib env senv cont inflate sz P4 r0 fs4 R2" "length fs4 = 1"
    "ds_submitted (dp_sys P4) = [t]" "dp_handled P4 = 1"
  proof (cases "fs3 = []")
    case True
    with single_runs [OF P3(1-3)] have b: "decompress_busy (ds_client (dp_sys P3))" "ji_key (compress_job (ds_client (dp_sys P3))) = ce_key t"
      "pending_rdma_jobs (ds_client (dp_sys P3)) = []" by auto
    obtain P4 fs4 where P4: "?step\<^sup>*\<^sup>* P3 P4" "pair_stage lib env senv cont inflate sz P4 r0 fs4 R2"
      "ds_submitted (dp_sys P4) = ds_submitted (dp_sys P3)" "ds_answered (dp_sys P4) = ds_answered (dp_sys P3)"
      "dp_handled P4 = dp_handled P3" "length fs4 + length (pending_rdma_jobs (ds_client (dp_sys P4))) = 1"
      by (rule segment_inflated [OF env P3(1) [unfolded True] b room])
    have "length fs4 = 1" using single_runs(2) [OF P4(2), of t] P4(3,4,6) P3(2,3) by (cases fs4) auto
    with P4 P3 show thesis by (intro that) simp_all
  next
    case False
    with single_runs(1) [OF P3(1-3)] P3 show thesis by (intro that [of P3 fs3]) auto
  qed
  then have "dp_handled P4 \<le> length fs4" by simp
  obtain P R5 where P: "?step\<^sup>*\<^sup>* P4 P" "pair_stage lib env senv cont inflate sz P r0 fs4 R5" "ds_submitted (dp_sys P) = [t]" "dp_handled P = 2"
    by (rule next_message [OF P4(2) \<open>dp_handled P4 \<le> length fs4\<close>, of left]) (use P4 in simp_all)
  have "[ce_key t] = map fr_key fs4 @ to_come (ds_client (dp_sys P))" using P(2,3) by (simp add: pair_stage_def Let_def dec_stage_def)
  moreover obtain q where "fs4 = [q]" using P4(3) by (auto simp: length_Suc_conv)
  ultimately have "sv_untar (dp_server P) = [plain cont inflate (ce_key t)]" using P(2,4) by (simp add: pair_stage_def Let_def)
  moreover have "?step\<^sup>*\<^sup>* P0 P" using run3 P4(1) P(1) by (meson rtranclp_trans)
  ultimately show thesis using P(3) by (intro that)
qed

section \<open>A sample pair\<close>

definition sample_server_env :: dserver_env where
  "sample_server_env = \<lparr>sv_post_err = (\<lambda>_. 0), dst_mem_addr = (\<lambda>i. 16 * i), dst_map_outcomes = replicate 2 sample_map_outcome,
     dst_export = (\<lambda>_. Inr \<lparr>export_desc = [1]\<rparr>)\<rparr>"

definition sample_left :: dserver_left where
  "sample_left = \<lparr>left_mmap_req = mmap_request 0, left_fin_req = finish_request (job_report
     \<lparr>ji_image_name_tag = [], ji_layer = [], ji_bufpair_id = 0, ji_total_segments = 0, ji_segment_idx = 0\<rparr> 0)\<rparr>"

definition host_engine :: CompressEngine where
  "host_engine = CompressEngine_new sample_core 4 2 MAX_FILE_SIZE 2"

lemma host_pairs: "ce_bufpairs host_engine = [DocaBufPair_new 2 MAX_FILE_SIZE 0, DocaBufPair_new 2 MAX_FILE_SIZE 1]"
  by (simp add: host_engine_def CompressEngine_new_def upt_rec)

lemma sample_resp_fits: "resp_fits sample_dec_lib (bufpairs sample_conn) 2 (ce_key sample_task)"
  unfolding resp_fits_def
proof (intro allI impI)
  fix q assume q: "fr_key q = ce_key sample_task \<and> \<not> dfr_data_inline q \<and> 0 \<le> dfr_bufpair_id q \<and> dfr_bufpair_id q < int 2"
  then have "uint (of_int (dfr_bufpair_id q) :: byte) = dfr_bufpair_id q" by (simp add: uint_word_of_int)
  moreover have "finish_response q = sample_fin (dfr_bufpair_id q)"
    using q by (simp add: finish_response_def sample_fin_def fr_key_def ce_key_def sample_task_def)
  ultimately show "reply_fits (fin_resp_pb sample_dec_lib) (dec_type kDecompressFinish) (bufpairs sample_conn) (finish_response q)"
    by (simp add: reply_fits_def frame_fits_def pb_law_def sample_dec_lib_def sample_fin_resp_pb_def kFrameHeaderLen_def
        sample_fin_def typed_frame_def rdma_frame_def sample_bufpairs)
qed

lemma sample_mmap_enabled: "mmap_enabled sample_dec_lib sample_server_env host_engine (bufpairs sample_conn) (mmap_request 2)"
proof -
  have "server_env_ok sample_server_env (Suc (Suc 0))"
    by (simp add: server_env_ok_def sample_server_env_def map_ok_def sample_map_outcome_def)
  moreover have "size_of_int (mmap_num (mmap_request 2)) = Suc (Suc 0)" by (simp add: mmap_request_def size_of_int_def)
  moreover have "mmap_response (dst_mem_addr sample_server_env) (ce_bufpairs e1) ds = sample_maps"
    if e1: "CompressEngine_dst_mmaps_start (dst_mem_addr sample_server_env) True (dst_map_outcomes sample_server_env) host_engine = (DOCA_SUCCESS, e1)"
      and ds: "CompressEngine_dst_mmaps_export_dpu (dst_export sample_server_env) e1 = Inr ds" for e1 ds
  proof -
    have two: "dst_map_outcomes sample_server_env = [sample_map_outcome, sample_map_outcome]"
      by (simp add: sample_server_env_def numeral_2_eq_2)
    obtain b0 b1 where b: "ce_bufpairs e1 = [b0, b1]" "length (dst_mem b0) = MAX_FILE_SIZE" "length (dst_mem b1) = MAX_FILE_SIZE"
      using e1 by (auto simp: CompressEngine_dst_mmaps_start_def host_pairs two sample_map_outcome_def
          CompressEngine_create_mmap_def CompressEngine_mmap_start_def DocaBufPair_new_def)
    then have "ds = [\<lparr>export_desc = [1]\<rparr>, \<lparr>export_desc = [1]\<rparr>]"
      using ds by (simp add: CompressEngine_dst_mmaps_export_dpu_def sample_server_env_def)
    with b show ?thesis by (simp add: mmap_response_def mmap_element_def sample_maps_def sample_server_env_def) (simp add: MAX_FILE_SIZE_def)
  qed
  ultimately show ?thesis
    using const_fits [of sample_maps]
    by (simp add: mmap_enabled_def host_pairs dst_mems_def DocaBufPair_new_def reply_fits_def sample_dec_lib_def sample_bufpairs)
qed

lemma sample_pair_init:
  assumes ts: "set ts \<subseteq> {sample_task}"
  obtains P where "pair_init sample_dec_lib sample_dec_env sample_server_env sample_cont 3 P" and "ds_submitted (dp_sys P) = ts" and "sv_untar (dp_server P) = []"
proof -
  obtain S where S: "dec_init sample_dec_lib sample_dec_env sample_cont 3 S" "ds_submitted S = ts"
    "\<And>c. dc_conn (ds_client S) = Some c \<Longrightarrow> length (bufpairs c) = 2" by (rule sample_dec_init [OF ts]) blast
  have n: "length (ce_bufpairs (dc_engine (ds_client S))) = 2"
    using dec_init_stage(2) [OF S(1)] by (auto simp: dec_stage_def maps_env_ok_def sample_dec_env_def)
  let ?P = "\<lparr>dp_sys = S, dp_server = DecompressServer_new host_engine sample_mem, dp_sconn = sample_conn, dp_handled = 0, dp_back = []\<rparr>"
  have "sq sample_conn = []" "length (bufpairs sample_conn) = 2" "length (ce_bufpairs host_engine) = 2"
    by (simp add: sample_conn_def) (simp_all add: sample_bufpairs host_pairs)
  then have "pair_init sample_dec_lib sample_dec_env sample_server_env sample_cont 3 ?P"
    unfolding pair_init_def using S n sample_bufs sample_mmap_enabled sample_resp_fits ts
    by (intro conjI exI [of _ host_engine] exI [of _ sample_mem]) auto
  then show ?thesis using S(2) by (intro that [of ?P]) (simp_all add: DecompressServer_new_def)
qed

section \<open>Properties\<close>

text \<open>
  C8. The host unpacks what the DPU was given: in every run of the decompress client, the decompress
  server, both network cards and the hardware, with compressed segments, memory maps and jobs that succeed, the segments handed to the untar engine are the first
  segments submitted on the DPU, in order, each once and with the contents that the hardware computes from
  the bytes of the segment; when every message is answered and the hardware is idle they are all of them.
  Neither side faults on the next message from the other.
\<close>

theorem host_gets_segments_in_order:
  assumes "pair_init lib env senv cont sz P0" and "(pair_step lib left env senv cont inflate sz)\<^sup>*\<^sup>* P0 P"
  shows "(\<exists>k \<le> length (ds_submitted (dp_sys P)).
      sv_untar (dp_server P) = map (plain cont inflate \<circ> ce_key) (take k (ds_submitted (dp_sys P)))
      \<and> (dc_inflight_sends (ds_client (dp_sys P)) = [] \<and> \<not> decompress_busy (ds_client (dp_sys P))
         \<longrightarrow> k = length (ds_submitted (dp_sys P))))
    \<and> (\<forall>m junk. dp_handled P < length (ds_wire (dp_sys P)) \<and> m = ds_wire (dp_sys P) ! dp_handled P \<longrightarrow>
        (\<exists>r. DecompressServer_onRecvSuccess lib left senv (dp_server P, dp_sconn P) (m @ junk) (of_nat (length m)) = Inr r))
    \<and> (\<forall>m junk. ds_answered (dp_sys P) < length (dp_back P) \<and> m = dp_back P ! ds_answered (dp_sys P) \<longrightarrow>
        (\<exists>d. DecompressClient_onRecvSuccess lib env (ds_client (dp_sys P)) (m @ junk) (of_nat (length m)) = Inr d))"
proof -
  from pair_sys.reachable_inv [OF assms] obtain r0 fs R where env: "env_ok env"
    and st: "pair_stage lib env senv cont inflate sz P r0 fs R" by (auto simp: pair_inv_def)
  have "\<exists>r. DecompressServer_onRecvSuccess lib left senv (dp_server P, dp_sconn P) (m @ junk) (of_nat (length m)) = Inr r"
    if "dp_handled P < length (ds_wire (dp_sys P))" "m = ds_wire (dp_sys P) ! dp_handled P" for m junk
    using pair_serve [OF st that, of left junk] by blast
  moreover have "\<exists>d. DecompressClient_onRecvSuccess lib env (ds_client (dp_sys P)) (m @ junk) (of_nat (length m)) = Inr d"
    if "ds_answered (dp_sys P) < length (dp_back P)" "m = dp_back P ! ds_answered (dp_sys P)" for m junk
    using pair_answer [OF env st that, of junk] by blast
  ultimately show ?thesis using stage_untar [OF st] by blast
qed

text \<open>The witness: a segment of three bytes goes from the client on the DPU to the untar engine of the host.\<close>

theorem host_gets_segments_in_order_witness:
  "\<exists>(P0 :: dec_pair) P k. pair_init sample_dec_lib sample_dec_env sample_server_env sample_cont 3 P0
     \<and> (pair_step sample_dec_lib sample_left sample_dec_env sample_server_env sample_cont (\<lambda>bs. bs) 3)\<^sup>*\<^sup>* P0 P
     \<and> ds_submitted (dp_sys P) = [sample_task] \<and> map ud_segment (sv_untar (dp_server P)) = [[1, 2, 3]]
     \<and> sv_untar (dp_server P) = map (plain sample_cont (\<lambda>bs. bs) \<circ> ce_key) (take k [sample_task])"
proof -
  obtain P0 where P0: "pair_init sample_dec_lib sample_dec_env sample_server_env sample_cont 3 P0" "ds_submitted (dp_sys P0) = [sample_task]"
    using sample_pair_init [of "[sample_task]"] by auto
  have "length (sample_cont (ce_key sample_task)) \<le> MAX_FILE_SIZE" by (simp add: sample_cont_def MAX_FILE_SIZE_def)
  then obtain P where P: "(pair_step sample_dec_lib sample_left sample_dec_env sample_server_env sample_cont (\<lambda>bs. bs) 3)\<^sup>*\<^sup>* P0 P"
    "ds_submitted (dp_sys P) = [sample_task]" "sv_untar (dp_server P) = [plain sample_cont (\<lambda>bs. bs) (ce_key sample_task)]"
    by (rule first_segment_arrives [OF P0])
  from host_gets_segments_in_order [OF P0(1) P(1)] P(2)
  obtain k where "sv_untar (dp_server P) = map (plain sample_cont (\<lambda>bs. bs) \<circ> ce_key) (take k [sample_task])" by auto
  moreover have "map ud_segment (sv_untar (dp_server P)) = [[1, 2, 3]]"
    by (simp add: P(3) plain_def sample_cont_def split: prod.split)
  ultimately show ?thesis using P0(1) P(1,2) by (intro exI [of _ P0] exI [of _ P] exI [of _ k]) simp
qed

end
