(* ===== verification/Untar_Engine.thy ===== *)
theory Untar_Engine
  imports Host_Metadata "HOL-Library.Sublist"
begin

text \<open>
  The untar engine: \<^verbatim>\<open>src/src/host/client/untar_engine.h\<close> and \<^verbatim>\<open>untar_engine.cc\<close>. The event loop hands
  segments to \<open>untar\<close>; the first segment of a layer starts a task in a pool of threads, which pipes the
  segments of the layer into \<open>tar\<close>. The threads run in parallel with the loop, so \<open>untar\<close> and the
  task are split into the steps between which the other side can act. The lemmas show that every layer
  whose segments are handed over once is piped in order and is reported once, completely if no write is short, and that
  a layer of one segment can leave an entry behind that swallows the next pull of that layer.
\<close>

section \<open>State\<close>

text \<open>
  The queue of a task is created with it and never replaced, so the task and its queue share an index;
  \<open>ut_queue\<close> are the elements of that queue. \<open>tar_input\<close> is what has been written into the pipe.
\<close>

datatype untar_phase = Queued | Piping | Closing | Finished | Failed

record untar_job =
  ut_queue :: "UntarData list"
  ut_cmd :: string
  ut_layer :: string
  ut_image_name_tag :: string
  ut_phase :: untar_phase
  tar_input :: "byte list"

record UntarEngine =
  untar_map :: "string \<Rightarrow> nat option"
  executor :: "untar_job list"
  numThreads :: nat
  untar_file_path :: string
  directories :: "string list"

definition UntarEngine_new :: "nat \<Rightarrow> string \<Rightarrow> UntarEngine" where
  "UntarEngine_new n path = \<lparr>untar_map = (\<lambda>_. None), executor = [], numThreads = n, untar_file_path = path, directories = []\<rparr>"

definition untar_command_prefix :: string where
  "untar_command_prefix = ''tar xf - -C ''"

section \<open>Handing over a segment\<close>

text \<open>
  What the loop has still to do after it has started a task: put the segment into the queue, then the
  queue into the map. An existing directory is only logged; making one is taken to succeed.
\<close>

datatype untar_todo = Nothing | Enqueue UntarData nat | Emplace string nat

definition update_job :: "nat \<Rightarrow> (untar_job \<Rightarrow> untar_job) \<Rightarrow> UntarEngine \<Rightarrow> UntarEngine" where
  "update_job i f e = e\<lparr>executor := (executor e)[i := f (executor e ! i)]\<rparr>"

definition put_segment :: "UntarData \<Rightarrow> untar_job \<Rightarrow> untar_job" where
  "put_segment d t = t\<lparr>ut_queue := ut_queue t @ [d]\<rparr>"

definition new_job :: "string \<Rightarrow> UntarData \<Rightarrow> untar_job" where
  "new_job path d = \<lparr>ut_queue = [], ut_cmd = untar_command_prefix @ path, ut_layer = ud_layer d,
     ut_image_name_tag = ud_image_name_tag d, ut_phase = Queued, tar_input = []\<rparr>"

definition untar_start :: "UntarEngine \<Rightarrow> UntarData \<Rightarrow> UntarEngine \<times> untar_todo" where
  "untar_start e d =
     (case untar_map e (ud_layer d) of
        Some i \<Rightarrow> (update_job i (put_segment d) e, Nothing)
      | None \<Rightarrow>
          let path = untar_file_path e @ ''/'' @ ud_image_name_tag d @ ''/'' @ ud_layer d;
              e1 = (if path \<in> set (directories e) then e else e\<lparr>directories := directories e @ [path]\<rparr>)
          in (e1\<lparr>executor := executor e1 @ [new_job path d]\<rparr>, Enqueue d (length (executor e1))))"

text \<open>\<open>emplace\<close> does not replace an entry.\<close>

fun untar_next :: "UntarEngine \<Rightarrow> untar_todo \<Rightarrow> UntarEngine \<times> untar_todo" where
  "untar_next e Nothing = (e, Nothing)"
| "untar_next e (Enqueue d i) = (update_job i (put_segment d) e, Emplace (ud_layer d) i)"
| "untar_next e (Emplace l i) =
     (if untar_map e l = None then e\<lparr>untar_map := (untar_map e)(l \<mapsto> i)\<rparr> else e, Nothing)"

text \<open>The whole of \<open>untar\<close>, when no task acts in between.\<close>

definition UntarEngine_untar :: "UntarEngine \<Rightarrow> UntarData \<Rightarrow> UntarEngine" where
  "UntarEngine_untar e d = (case untar_start e d of (e1, t1) \<Rightarrow>
     case untar_next e1 t1 of (e2, t2) \<Rightarrow> fst (untar_next e2 t2))"

section \<open>The task\<close>

definition untar_result :: "untar_job \<Rightarrow> bool \<Rightarrow> UntarResult" where
  "untar_result t ok = \<lparr>ur_layer = ut_layer t, ur_image_name_tag = ut_image_name_tag t, ur_success = ok\<rparr>"

text \<open>
  The steps of \<open>untar_task\<close>: \<open>popen\<close>; taking a segment from the queue, on which the thread waits, and
  writing it, where \<open>fwrite\<close> reports \<open>n\<close> bytes and only \<open>0\<close> counts as an error; \<open>pclose\<close> with its
  status and removing the entry. The results go to \<open>OffloadClientEpoll::completeTask\<close>.
\<close>

definition task_popen :: "bool \<Rightarrow> nat \<Rightarrow> UntarEngine \<Rightarrow> UntarEngine \<times> UntarResult list" where
  "task_popen ok i e =
     (let t = executor e ! i in
      if ok then (update_job i (\<lambda>t. t\<lparr>ut_phase := Piping\<rparr>) e, [])
      else (update_job i (\<lambda>t. t\<lparr>ut_phase := Failed\<rparr>) e, [untar_result t False]))"

definition task_write :: "nat \<Rightarrow> nat \<Rightarrow> UntarEngine \<Rightarrow> UntarEngine \<times> UntarResult list" where
  "task_write n i e =
     (let t = executor e ! i in
      case ut_queue t of
        [] \<Rightarrow> (e, [])
      | d # q \<Rightarrow>
          if n = 0 then (update_job i (\<lambda>t. t\<lparr>ut_queue := q, ut_phase := Failed\<rparr>) e, [untar_result t False])
          else (update_job i (\<lambda>t. t\<lparr>ut_queue := q,
                 ut_phase := (if ud_index d = ud_total_segments d - 1 then Closing else Piping),
                 tar_input := tar_input t @ take n (ud_segment d)\<rparr>) e, []))"

definition task_close :: "int \<Rightarrow> nat \<Rightarrow> UntarEngine \<Rightarrow> UntarEngine \<times> UntarResult list" where
  "task_close status i e =
     (let t = executor e ! i in
      ((update_job i (\<lambda>t. t\<lparr>ut_phase := Finished\<rparr>) e)\<lparr>untar_map := (untar_map e)(ut_layer t := None)\<rparr>,
       [untar_result t (status = 0)]))"

section \<open>A layer of one segment\<close>

text \<open>
  The task of a layer of one segment can finish before the loop has put the queue into the map: the entry
  then stays, and when the layer is pulled again its segment goes to a queue that nobody reads.
\<close>

lemma single_segment_race:
  assumes d: "ud_index d = 0" "ud_total_segments d = 1" "ud_segment d \<noteq> []"
  shows "\<exists>e. (case untar_start (UntarEngine_new n path) d of (e1, t1) \<Rightarrow>
      case untar_next e1 t1 of (e2, t2) \<Rightarrow>
        fst (untar_next (fst (task_close 0 0 (fst (task_write (length (ud_segment d)) 0 (fst (task_popen True 0 e2)))))) t2)) = e
    \<and> untar_map e (ud_layer d) = Some 0 \<and> ut_phase (executor e ! 0) = Finished
    \<and> ut_queue (executor (UntarEngine_untar e d) ! 0) = [d]"
  using d
  by (simp add: untar_start_def UntarEngine_new_def Let_def update_job_def put_segment_def new_job_def task_popen_def
      task_write_def task_close_def UntarEngine_untar_def)

section \<open>The system\<close>

text \<open>
  The pool has \<open>numThreads\<close> threads and takes its tasks in the order in which they came. A task that runs acts when
  it can: \<open>fwrite\<close> may always fail with nothing written, and may write \<open>n\<close> bytes of a segment \<open>d\<close> when \<open>fw d n\<close>. The loop hands
  over the segments of a layer in order, each of them once; a layer has any number of them, also one.
\<close>

definition occupied :: "UntarEngine \<Rightarrow> nat" where
  "occupied e = length (filter (\<lambda>t. ut_phase t \<in> {Piping, Closing}) (executor e))"

inductive task_step :: "(UntarData \<Rightarrow> nat \<Rightarrow> bool) \<Rightarrow> UntarEngine \<Rightarrow> UntarEngine \<Rightarrow> UntarResult list \<Rightarrow> bool" for fw where
  Popen: "i < length (executor e) \<Longrightarrow> ut_phase (executor e ! i) = Queued \<Longrightarrow>
    (\<forall>j < i. ut_phase (executor e ! j) \<noteq> Queued) \<Longrightarrow> occupied e < numThreads e \<Longrightarrow> task_popen ok i e = (e', rs) \<Longrightarrow> task_step fw e e' rs"
| Write: "i < length (executor e) \<Longrightarrow> ut_phase (executor e ! i) = Piping \<Longrightarrow> ut_queue (executor e ! i) = d # q \<Longrightarrow>
    n = 0 \<or> fw d n \<and> n \<le> length (ud_segment d) \<Longrightarrow> task_write n i e = (e', rs) \<Longrightarrow> task_step fw e e' rs"
| Close: "i < length (executor e) \<Longrightarrow> ut_phase (executor e ! i) = Closing \<Longrightarrow> task_close status i e = (e', rs) \<Longrightarrow> task_step fw e e' rs"

definition layer_of :: "string \<Rightarrow> UntarData list \<Rightarrow> UntarData list" where
  "layer_of l ds = filter (\<lambda>d. ud_layer d = l) ds"

definition next_segment :: "UntarData list \<Rightarrow> UntarData \<Rightarrow> bool" where
  "next_segment given d \<longleftrightarrow> ud_index d = int (length (layer_of (ud_layer d) given)) \<and> ud_index d < ud_total_segments d
     \<and> (\<forall>g \<in> set (layer_of (ud_layer d) given). ud_image_name_tag g = ud_image_name_tag d \<and> ud_total_segments g = ud_total_segments d)"

record untar_system =
  us_engine :: UntarEngine
  us_todo :: untar_todo
  us_results :: "UntarResult list"
  us_given :: "UntarData list"

inductive untar_step :: "(UntarData \<Rightarrow> nat \<Rightarrow> bool) \<Rightarrow> untar_system \<Rightarrow> untar_system \<Rightarrow> bool" for fw where
  Hand_over: "us_todo S = Nothing \<Longrightarrow> next_segment (us_given S) d \<Longrightarrow> untar_start (us_engine S) d = (e', t) \<Longrightarrow>
    untar_step fw S (S\<lparr>us_engine := e', us_todo := t, us_given := us_given S @ [d]\<rparr>)"
| Go_on: "us_todo S \<noteq> Nothing \<Longrightarrow> untar_next (us_engine S) (us_todo S) = (e', t) \<Longrightarrow>
    untar_step fw S (S\<lparr>us_engine := e', us_todo := t\<rparr>)"
| Task: "task_step fw (us_engine S) e' rs \<Longrightarrow> untar_step fw S (S\<lparr>us_engine := e', us_results := us_results S @ rs\<rparr>)"

definition untar_init :: "untar_system \<Rightarrow> bool" where
  "untar_init S \<longleftrightarrow> (\<exists>n path. us_engine S = UntarEngine_new n path) \<and> us_todo S = Nothing \<and> us_results S = [] \<and> us_given S = []"

section \<open>The invariant\<close>

text \<open>What a layer has got: its segments in order, and never more than it has.\<close>

definition layer_seq :: "UntarData list \<Rightarrow> bool" where
  "layer_seq G \<longleftrightarrow> map ud_index G = map int [0..<length G] \<and> (\<forall>g \<in> set G. ud_total_segments g = ud_total_segments (hd G)
     \<and> ud_image_name_tag g = ud_image_name_tag (hd G))
     \<and> (G \<noteq> [] \<longrightarrow> int (length G) \<le> ud_total_segments (hd G))"

abbreviation contents :: "UntarData list \<Rightarrow> byte list" where
  "contents ds \<equiv> concat (map ud_segment ds)"

text \<open>What has been piped of segments: of each, in their order, the bytes that one call of \<open>fwrite\<close> has written.\<close>

definition piped :: "(UntarData \<Rightarrow> nat \<Rightarrow> bool) \<Rightarrow> byte list \<Rightarrow> UntarData list \<Rightarrow> bool" where
  "piped fw inp ds \<longleftrightarrow> (\<exists>ps. inp = concat ps \<and> list_all2 (\<lambda>p d. p \<noteq> [] \<and> prefix p (ud_segment d) \<and> fw d (length p)) ps ds)"

definition whole_writes :: "(UntarData \<Rightarrow> nat \<Rightarrow> bool) \<Rightarrow> UntarData list \<Rightarrow> bool" where
  "whole_writes fw ds \<longleftrightarrow> (\<forall>d \<in> set ds. \<forall>n. fw d n \<longrightarrow> n = length (ud_segment d))"

lemma piped_nil [simp]: "piped fw [] []"
  by (simp add: piped_def)

lemma piped_snoc:
  assumes "piped fw inp ds" and "fw d n" and "n \<le> length (ud_segment d)" and "n \<noteq> 0"
  shows "piped fw (inp @ take n (ud_segment d)) (ds @ [d])"
proof -
  from assms(1) obtain ps where ps: "inp = concat ps"
    "list_all2 (\<lambda>p d. p \<noteq> [] \<and> prefix p (ud_segment d) \<and> fw d (length p)) ps ds" by (auto simp: piped_def)
  have "list_all2 (\<lambda>p d. p \<noteq> [] \<and> prefix p (ud_segment d) \<and> fw d (length p)) [take n (ud_segment d)] [d]"
    using assms(2-4) by (auto simp: take_is_prefix)
  with ps(2) have "list_all2 (\<lambda>p d. p \<noteq> [] \<and> prefix p (ud_segment d) \<and> fw d (length p)) (ps @ [take n (ud_segment d)]) (ds @ [d])"
    by (rule list_all2_appendI)
  with ps(1) show ?thesis unfolding piped_def by (intro exI [of _ "ps @ [take n (ud_segment d)]"]) simp
qed

lemma piped_whole:
  assumes "piped fw inp ds" and "whole_writes fw ds"
  shows "inp = contents ds"
proof -
  from assms(1) obtain ps where ps: "inp = concat ps"
    "list_all2 (\<lambda>p d. p \<noteq> [] \<and> prefix p (ud_segment d) \<and> fw d (length p)) ps ds" by (auto simp: piped_def)
  from ps(2) assms(2) have "ps = map ud_segment ds"
  proof (induction rule: list_all2_induct)
    case (Cons p ps d ds)
    then have "prefix p (ud_segment d)" "length p = length (ud_segment d)" by (auto simp: whole_writes_def)
    then have "p = ud_segment d" by (metis append_eq_conv_conj prefix_def take_all_iff order_refl)
    with Cons show ?case by (simp add: whole_writes_def)
  qed simp
  with ps(1) show ?thesis by simp
qed

fun phase_ok :: "(UntarData \<Rightarrow> nat \<Rightarrow> bool) \<Rightarrow> untar_phase \<Rightarrow> byte list \<Rightarrow> UntarData list \<Rightarrow> int \<Rightarrow> bool" where
  "phase_ok fw Queued inp dn n \<longleftrightarrow> dn = [] \<and> inp = []"
| "phase_ok fw Piping inp dn n \<longleftrightarrow> piped fw inp dn \<and> int (length dn) < n"
| "phase_ok fw Closing inp dn n \<longleftrightarrow> piped fw inp dn \<and> int (length dn) = n"
| "phase_ok fw Finished inp dn n \<longleftrightarrow> piped fw inp dn \<and> int (length dn) = n"
| "phase_ok fw Failed inp dn n \<longleftrightarrow> (\<exists>k. piped fw inp (take k dn))"

fun owed :: "untar_todo \<Rightarrow> nat \<Rightarrow> UntarData list option" where
  "owed Nothing i = None"
| "owed (Enqueue d j) i = (if i = j then Some [d] else None)"
| "owed (Emplace l j) i = (if i = j then Some [] else None)"

text \<open>
  The state of one task: \<open>G\<close> are the segments given for its layer, \<open>ow\<close> what the loop still owes it, \<open>m\<close> the entry
  of the map and \<open>rs\<close> the results for its layer. The entry of a task that has finished is gone, unless the layer has one segment.
\<close>

definition job_inv :: "(UntarData \<Rightarrow> nat \<Rightarrow> bool) \<Rightarrow> nat \<Rightarrow> untar_job \<Rightarrow> UntarData list \<Rightarrow> UntarData list option \<Rightarrow> nat option \<Rightarrow> UntarResult list \<Rightarrow> bool" where
  "job_inv fw i t G ow m rs \<longleftrightarrow> G \<noteq> [] \<and> (\<exists>dn. G = dn @ ut_queue t @ (case ow of None \<Rightarrow> [] | Some w \<Rightarrow> w)
       \<and> phase_ok fw (ut_phase t) (tar_input t) dn (ud_total_segments (hd G)))
     \<and> (ow \<noteq> None \<longrightarrow> length G = 1)
     \<and> (if ow \<noteq> None then m = None
        else if ut_phase t = Finished then m = None \<or> m = Some i \<and> ud_total_segments (hd G) = 1 else m = Some i)
     \<and> (if ut_phase t = Finished then \<exists>ok. rs = [untar_result t ok]
        else if ut_phase t = Failed then rs = [untar_result t False] else rs = [])"

definition results_of :: "string \<Rightarrow> UntarResult list \<Rightarrow> UntarResult list" where
  "results_of l rs = filter (\<lambda>r. ur_layer r = l) rs"

definition job_ok :: "(UntarData \<Rightarrow> nat \<Rightarrow> bool) \<Rightarrow> untar_system \<Rightarrow> nat \<Rightarrow> bool" where
  "job_ok fw S i = (let t = executor (us_engine S) ! i in
     job_inv fw i t (layer_of (ut_layer t) (us_given S)) (owed (us_todo S) i) (untar_map (us_engine S) (ut_layer t))
       (results_of (ut_layer t) (us_results S)))"

definition untar_inv :: "(UntarData \<Rightarrow> nat \<Rightarrow> bool) \<Rightarrow> untar_system \<Rightarrow> bool" where
  "untar_inv fw S \<longleftrightarrow> distinct (map ut_layer (executor (us_engine S)))
     \<and> (\<forall>l. layer_seq (layer_of l (us_given S)))
     \<and> (\<forall>d \<in> set (us_given S). ud_layer d \<in> ut_layer ` set (executor (us_engine S)))
     \<and> (\<forall>r \<in> set (us_results S). ur_layer r \<in> ut_layer ` set (executor (us_engine S)))
     \<and> (\<forall>i < length (executor (us_engine S)). job_ok fw S i)
     \<and> (\<forall>l i. untar_map (us_engine S) l = Some i \<longrightarrow> i < length (executor (us_engine S)) \<and> ut_layer (executor (us_engine S) ! i) = l)
     \<and> (\<forall>i. owed (us_todo S) i \<noteq> None \<longrightarrow> i < length (executor (us_engine S))
         \<and> (\<forall>l. us_todo S = Emplace l i \<longrightarrow> ut_layer (executor (us_engine S) ! i) = l)
         \<and> (\<forall>d. us_todo S = Enqueue d i \<longrightarrow> ut_layer (executor (us_engine S) ! i) = ud_layer d))"

lemma layer_of_append: "layer_of l (ds @ [d]) = layer_of l ds @ (if ud_layer d = l then [d] else [])"
  by (simp add: layer_of_def)

lemma results_of_append: "results_of l (rs @ ss) = results_of l rs @ results_of l ss"
  by (simp add: results_of_def)

lemma layer_seq_snoc:
  assumes "layer_seq (layer_of (ud_layer d) given)" and "next_segment given d"
  shows "layer_seq (layer_of (ud_layer d) given @ [d])"
proof (cases "layer_of (ud_layer d) given = []")
  case True
  with assms show ?thesis by (simp add: layer_seq_def next_segment_def)
next
  case False
  define G where "G = layer_of (ud_layer d) given"
  have ne: "G \<noteq> []" using False by (simp add: G_def)
  then have "hd G \<in> set G" by simp
  then have "ud_total_segments (hd G) = ud_total_segments d" "ud_image_name_tag (hd G) = ud_image_name_tag d"
    "ud_index d = int (length G)" "int (length G) < ud_total_segments d"
    using assms(2) by (simp_all add: next_segment_def G_def)
  with ne assms(1) show ?thesis by (simp add: layer_seq_def flip: G_def)
qed

lemma distinct_layers:
  assumes "distinct (map ut_layer ts)" and "i < length ts" and "j < length ts" and "ut_layer (ts ! i) = ut_layer (ts ! j)"
  shows "i = j"
  using assms nth_eq_iff_index_eq [of "map ut_layer ts" i j] by simp

text \<open>One task and its layer change, the others stay as they are.\<close>

lemma untar_inv_change:
  assumes inv: "untar_inv fw S" and i: "i < length (executor (us_engine S))"
    and l: "l = ut_layer (executor (us_engine S) ! i)" "ut_layer t' = l" and ex: "executor e' = (executor (us_engine S))[i := t']"
    and m: "\<And>k. k \<noteq> l \<Longrightarrow> untar_map e' k = untar_map (us_engine S) k" "untar_map e' l \<in> {None, Some i}"
    and rs: "\<forall>r \<in> set rs. ur_layer r = l"
    and todo: "\<And>j. j \<noteq> i \<Longrightarrow> owed todo j = owed (us_todo S) j" "\<And>k j. todo = Emplace k j \<Longrightarrow> todo = us_todo S \<or> j = i \<and> k = l"
      "\<And>d j. todo = Enqueue d j \<Longrightarrow> todo = us_todo S"
    and given: "given = us_given S @ ds" "\<forall>d \<in> set ds. ud_layer d = l" "layer_seq (layer_of l given)"
    and job: "job_inv fw i t' (layer_of l given) (owed todo i) (untar_map e' l) (results_of l (us_results S @ rs))"
  shows "untar_inv fw \<lparr>us_engine = e', us_todo = todo, us_results = us_results S @ rs, us_given = given\<rparr>"
    (is "untar_inv fw ?S")
proof -
  let ?ex = "executor (us_engine S)"
  have lay: "map ut_layer (executor e') = map ut_layer ?ex" using ex l i by (simp add: map_update) (metis list_update_id length_map nth_map)
  then have lays: "ut_layer ` set (executor e') = ut_layer ` set ?ex" by (metis set_map)
  have mem: "l \<in> ut_layer ` set ?ex" using l(1) i by simp
  have other: "layer_of k given = layer_of k (us_given S)" "results_of k (us_results S @ rs) = results_of k (us_results S)" if "k \<noteq> l" for k
    using that given(1,2) rs by (auto simp: layer_of_def results_of_def filter_empty_conv)
  have "layer_seq (layer_of k given)" for k using inv given(3) other(1) by (cases "k = l") (auto simp: untar_inv_def)
  moreover have "job_ok fw ?S j" if j: "j < length (executor e')" for j
  proof (cases "j = i")
    case True
    with job ex i l(2) show ?thesis by (simp add: job_ok_def Let_def)
  next
    case False
    have "ut_layer (?ex ! j) \<noteq> l" using distinct_layers [of ?ex j i] inv j i ex False l(1) by (auto simp: untar_inv_def)
    moreover have "job_ok fw S j" using inv j ex by (simp add: untar_inv_def)
    ultimately show ?thesis using False ex other m(1) todo(1) by (simp add: job_ok_def Let_def)
  qed
  moreover have "k < length (executor e') \<and> ut_layer (executor e' ! k) = n" if "untar_map e' n = Some k" for n k
  proof (cases "n = l")
    case True
    with that m(2) ex i l(2) show ?thesis by auto
  next
    case False
    then have k: "k < length ?ex" "ut_layer (?ex ! k) = n" using inv that m(1) by (auto simp: untar_inv_def)
    with False l(1) ex show ?thesis by (cases "k = i") auto
  qed
  moreover have "j < length (executor e') \<and> (\<forall>k. todo = Emplace k j \<longrightarrow> ut_layer (executor e' ! j) = k)
      \<and> (\<forall>d. todo = Enqueue d j \<longrightarrow> ut_layer (executor e' ! j) = ud_layer d)" if ow: "owed todo j \<noteq> None" for j
  proof (cases todo)
    case (Enqueue d k)
    with ow todo(3) have T: "us_todo S = Enqueue d j" and "k = j" by (auto split: if_splits)
    then have "owed (us_todo S) j \<noteq> None" by simp
    with inv T have "j < length ?ex" "ut_layer (?ex ! j) = ud_layer d" unfolding untar_inv_def by blast+
    then show ?thesis using Enqueue \<open>k = j\<close> ex l lay by (metis (no_types, lifting) length_map nth_map untar_todo.distinct(5) untar_todo.inject(1))
  next
    case (Emplace k n)
    with ow have n: "n = j" by (auto split: if_splits)
    show ?thesis
    proof (cases "todo = us_todo S")
      case True
      with ow have "owed (us_todo S) j \<noteq> None" by simp
      moreover have "us_todo S = Emplace k j" using True Emplace n by simp
      ultimately have "j < length ?ex" "ut_layer (?ex ! j) = k" using inv unfolding untar_inv_def by blast+
      then show ?thesis using Emplace n lay by (metis (no_types, lifting) length_map nth_map untar_todo.distinct(5) untar_todo.inject(2))
    qed (use todo(2) Emplace n ex i l(2) in auto)
  qed (use ow in simp)
  ultimately show ?thesis using inv lay lays mem given(1,2) rs unfolding untar_inv_def by (auto simp del: owed.simps)
qed

text \<open>The invariant taken apart at one task.\<close>

lemma untar_inv_job:
  assumes inv: "untar_inv fw S" and i: "i < length (executor (us_engine S))" and t: "t = executor (us_engine S) ! i"
    and G: "G = layer_of (ut_layer t) (us_given S)"
  obtains dn where "G \<noteq> []" "layer_seq G" "G = dn @ ut_queue t @ (case owed (us_todo S) i of None \<Rightarrow> [] | Some w \<Rightarrow> w)"
    "phase_ok fw (ut_phase t) (tar_input t) dn (ud_total_segments (hd G))"
    "job_inv fw i t G (owed (us_todo S) i) (untar_map (us_engine S) (ut_layer t)) (results_of (ut_layer t) (us_results S))"
proof -
  have "job_inv fw i t G (owed (us_todo S) i) (untar_map (us_engine S) (ut_layer t)) (results_of (ut_layer t) (us_results S))"
    using inv i unfolding untar_inv_def job_ok_def Let_def t G by blast
  moreover have "layer_seq G" using inv G by (simp add: untar_inv_def)
  ultimately show thesis using that unfolding job_inv_def by blast
qed

lemma layer_seq_le: "layer_seq G \<Longrightarrow> G \<noteq> [] \<Longrightarrow> int (length G) \<le> ud_total_segments (hd G)"
  unfolding layer_seq_def by blast

lemma finished_complete:
  assumes "layer_seq G" and "G = dn @ q" and "phase_ok fw Finished inp dn (ud_total_segments (hd G))" and "G \<noteq> []"
  shows "int (length G) = ud_total_segments (hd G)" and "q = []"
proof -
  have le: "int (length G) \<le> ud_total_segments (hd G)" using layer_seq_le [OF assms(1,4)] .
  have eq: "int (length dn) = ud_total_segments (hd G)" using assms(3) by simp
  have len: "length G = length dn + length q" by (simp only: assms(2) length_append)
  show "int (length G) = ud_total_segments (hd G)" using le eq len by linarith
  have "length q = 0" using le eq len by linarith
  then show "q = []" by simp
qed

lemma no_other_job:
  assumes inv: "untar_inv fw S" and todo: "us_todo S = Nothing" and nx: "next_segment (us_given S) d"
    and m: "untar_map (us_engine S) (ud_layer d) = None"
  shows "ud_layer d \<notin> ut_layer ` set (executor (us_engine S))"
proof
  assume "ud_layer d \<in> ut_layer ` set (executor (us_engine S))"
  then obtain i where i: "i < length (executor (us_engine S))" and l: "ut_layer (executor (us_engine S) ! i) = ud_layer d"
    by (auto simp: in_set_conv_nth)
  define t where "t = executor (us_engine S) ! i"
  define G where "G = layer_of (ut_layer t) (us_given S)"
  obtain dn where ne: "G \<noteq> []" and seq: "layer_seq G" and dn: "G = dn @ ut_queue t"
      "phase_ok fw (ut_phase t) (tar_input t) dn (ud_total_segments (hd G))" and ph: "ut_phase t = Finished"
  proof (rule untar_inv_job [OF inv i t_def G_def])
    fix dn
    assume *: "G \<noteq> []" "layer_seq G" "G = dn @ ut_queue t @ (case owed (us_todo S) i of None \<Rightarrow> [] | Some w \<Rightarrow> w)"
      "phase_ok fw (ut_phase t) (tar_input t) dn (ud_total_segments (hd G))"
      and job: "job_inv fw i t G (owed (us_todo S) i) (untar_map (us_engine S) (ut_layer t)) (results_of (ut_layer t) (us_results S))"
    have "ut_phase t = Finished" using job todo m l unfolding job_inv_def t_def by (simp split: if_splits)
    moreover have "G = dn @ ut_queue t" using *(3) todo by simp
    ultimately show thesis using that * by blast
  qed
  have "int (length G) = ud_total_segments (hd G)" using finished_complete(1) [OF seq dn(1) dn(2) [unfolded ph] ne] .
  moreover have "int (length G) < ud_total_segments d" "ud_total_segments (hd G) = ud_total_segments d"
    using nx ne l by (simp_all add: next_segment_def G_def t_def)
  ultimately show False by simp
qed

section \<open>Every step keeps the invariant\<close>

lemma hand_over_known:
  assumes inv: "untar_inv fw S" and todo: "us_todo S = Nothing" and nx: "next_segment (us_given S) d"
    and m: "untar_map (us_engine S) (ud_layer d) = Some i"
  shows "untar_inv fw \<lparr>us_engine = update_job i (put_segment d) (us_engine S), us_todo = Nothing,
    us_results = us_results S @ [], us_given = us_given S @ [d]\<rparr>"
proof -
  have i: "i < length (executor (us_engine S))" and l: "ud_layer d = ut_layer (executor (us_engine S) ! i)"
    using inv m unfolding untar_inv_def by metis+
  define t where "t = executor (us_engine S) ! i"
  define G where "G = layer_of (ut_layer t) (us_given S)"
  have l': "ut_layer t = ud_layer d" using l by (simp add: t_def)
  have G': "layer_of (ud_layer d) (us_given S @ [d]) = G @ [d]" by (simp add: layer_of_append G_def l')
  obtain dn where ne: "G \<noteq> []" and dn: "G = dn @ ut_queue t @ (case owed (us_todo S) i of None \<Rightarrow> [] | Some w \<Rightarrow> w)"
      "phase_ok fw (ut_phase t) (tar_input t) dn (ud_total_segments (hd G))"
      and job: "job_inv fw i t G (owed (us_todo S) i) (untar_map (us_engine S) (ut_layer t)) (results_of (ut_layer t) (us_results S))"
    by (rule untar_inv_job [OF inv i t_def G_def])
  have G: "G = dn @ ut_queue t" using dn(1) todo by simp
  have seq: "layer_seq G" using inv by (simp add: G_def untar_inv_def)
  have "ud_total_segments (hd G) = ud_total_segments d" "int (length G) < ud_total_segments d"
    using nx ne l' by (simp_all add: next_segment_def G_def)
  then have fin: "ut_phase t \<noteq> Finished" using finished_complete(1) [OF seq G _ ne] dn(2) by auto
  from G have "G @ [d] = dn @ (ut_queue t @ [d])" by simp
  moreover have "hd (G @ [d]) = hd G" using ne by simp
  ultimately have "job_inv fw i (put_segment d t) (G @ [d]) None (Some i) (results_of (ud_layer d) (us_results S))"
    using job dn(2) m todo l' fin unfolding job_inv_def put_segment_def untar_result_def
    by (simp split: if_splits)
  moreover have "layer_seq (G @ [d])" using layer_seq_snoc [OF _ nx] seq by (simp add: G_def l')
  ultimately show ?thesis using todo i l m G'
    by (intro untar_inv_change [OF inv i l, where t' = "put_segment d t" and ds = "[d]"])
      (simp_all add: update_job_def put_segment_def t_def)
qed

lemma hand_over_new:
  assumes inv: "untar_inv fw S" and todo: "us_todo S = Nothing" and nx: "next_segment (us_given S) d"
    and m: "untar_map (us_engine S) (ud_layer d) = None"
    and e': "executor e' = executor (us_engine S) @ [new_job path d]" "untar_map e' = untar_map (us_engine S)"
  shows "untar_inv fw \<lparr>us_engine = e', us_todo = Enqueue d (length (executor (us_engine S))),
    us_results = us_results S, us_given = us_given S @ [d]\<rparr>" (is "untar_inv fw ?S")
proof -
  let ?ex = "executor (us_engine S)"
  have new: "ud_layer d \<notin> ut_layer ` set ?ex" by (rule no_other_job [OF inv todo nx m])
  have none: "layer_of (ud_layer d) (us_given S) = []" "results_of (ud_layer d) (us_results S) = []"
  proof -
    have "\<forall>g \<in> set (us_given S). ud_layer g \<in> ut_layer ` set ?ex" "\<forall>r \<in> set (us_results S). ur_layer r \<in> ut_layer ` set ?ex"
      using inv by (simp_all add: untar_inv_def)
    with new show "layer_of (ud_layer d) (us_given S) = []" "results_of (ud_layer d) (us_results S) = []"
      unfolding layer_of_def results_of_def filter_empty_conv by metis+
  qed
  have "layer_seq (layer_of k (us_given S @ [d]))" for k
    using inv layer_seq_snoc [OF _ nx] by (auto simp: layer_of_append untar_inv_def)
  moreover have "job_ok fw ?S j" if j: "j < length (executor e')" for j
  proof (cases "j < length ?ex")
    case True
    then have "ut_layer (?ex ! j) \<noteq> ud_layer d" using new by (metis image_eqI nth_mem)
    moreover have "job_ok fw S j" using inv True by (simp add: untar_inv_def)
    ultimately show ?thesis using True e' todo by (simp add: job_ok_def Let_def layer_of_append nth_append)
  next
    case False
    then have "j = length ?ex" using j e' by simp
    then show ?thesis using e' none m by (simp add: job_ok_def Let_def layer_of_append new_job_def job_inv_def)
  qed
  moreover have "k < length (executor e') \<and> ut_layer (executor e' ! k) = n" if "untar_map e' n = Some k" for n k
  proof -
    have "k < length ?ex" "ut_layer (?ex ! k) = n" using that e'(2) inv unfolding untar_inv_def by metis+
    then show ?thesis by (simp add: e'(1) nth_append)
  qed
  ultimately show ?thesis using inv e' new unfolding untar_inv_def
    by (auto simp: new_job_def nth_append split: if_splits)
qed

lemma go_on_inv:
  assumes inv: "untar_inv fw S" and "us_todo S \<noteq> Nothing" and nx: "untar_next (us_engine S) (us_todo S) = (e', t')"
  shows "untar_inv fw \<lparr>us_engine = e', us_todo = t', us_results = us_results S @ [], us_given = us_given S @ []\<rparr>"
proof -
  obtain i where ow: "owed (us_todo S) i \<noteq> None" using assms(2) by (cases "us_todo S") auto
  have i: "i < length (executor (us_engine S))" using inv ow unfolding untar_inv_def by blast
  define t where "t = executor (us_engine S) ! i"
  define G where "G = layer_of (ut_layer t) (us_given S)"
  obtain dn where ne: "G \<noteq> []" and seq: "layer_seq G" and dn: "G = dn @ ut_queue t @ (case owed (us_todo S) i of None \<Rightarrow> [] | Some w \<Rightarrow> w)"
      "phase_ok fw (ut_phase t) (tar_input t) dn (ud_total_segments (hd G))"
      and job: "job_inv fw i t G (owed (us_todo S) i) (untar_map (us_engine S) (ut_layer t)) (results_of (ut_layer t) (us_results S))"
    by (rule untar_inv_job [OF inv i t_def G_def])
  have one: "length G = 1" and m: "untar_map (us_engine S) (ut_layer t) = None"
    using job ow unfolding job_inv_def by auto
  have fin: "ud_total_segments (hd G) = 1 \<and> dn \<noteq> []" if "ut_phase t = Finished"
    using finished_complete(1) [OF seq dn(1) _ ne] dn(2) that one by auto
  show ?thesis
  proof (cases "us_todo S")
    case (Enqueue d j)
    then have [simp]: "j = i" and l: "ud_layer d = ut_layer t" using ow inv unfolding untar_inv_def t_def by (auto split: if_splits)
    have G: "G = dn @ (ut_queue t @ [d])" using dn(1) Enqueue by simp
    then have fin: "ut_phase t \<noteq> Finished" using fin one by auto
    have "job_inv fw i (put_segment d t) G (Some []) None (results_of (ut_layer t) (us_results S))"
      using job one fin ne dn(2) G Enqueue unfolding job_inv_def put_segment_def untar_result_def by (simp split: if_splits)
    then show ?thesis using nx Enqueue i l m seq
      by (intro untar_inv_change [OF inv i refl, where t' = "put_segment d t" and ds = "[]"])
        (auto simp: update_job_def put_segment_def t_def G_def)
  next
    case (Emplace k j)
    then have [simp]: "j = i" "k = ut_layer t" using ow inv unfolding untar_inv_def t_def by (auto split: if_splits)
    have G: "G = dn @ ut_queue t" using dn(1) Emplace by simp
    have "job_inv fw i t G None (Some i) (results_of (ut_layer t) (us_results S))"
      using job fin ne dn(2) G Emplace unfolding job_inv_def by (auto split: if_splits)
    then show ?thesis using nx Emplace i m seq
      by (intro untar_inv_change [OF inv i refl, where t' = t and ds = "[]"]) (auto simp: t_def G_def)
  qed (use assms(2) in simp)
qed

text \<open>The steps of a task: it goes to a phase \<open>ph\<close>, having read up to \<open>dn'\<close>.\<close>

lemma task_inv:
  assumes inv: "untar_inv fw S" and i: "i < length (executor (us_engine S))" and t: "t = executor (us_engine S) ! i"
    and t': "t' = t\<lparr>ut_queue := q, ut_phase := ph, tar_input := inp\<rparr>"
    and ex: "executor e' = (executor (us_engine S))[i := t']"
    and act: "ut_phase t \<in> {Queued, Piping, Closing}"
    and out: "ph = Finished \<and> untar_map e' = (untar_map (us_engine S))(ut_layer t := None) \<and> (\<exists>ok. rs = [untar_result t ok])
      \<or> ph = Failed \<and> untar_map e' = untar_map (us_engine S) \<and> rs = [untar_result t False]
      \<or> ph \<in> {Piping, Closing} \<and> untar_map e' = untar_map (us_engine S) \<and> rs = []"
    and dn': "\<And>dn w. layer_seq (dn @ ut_queue t @ w) \<Longrightarrow> dn @ ut_queue t @ w \<noteq> [] \<Longrightarrow>
        phase_ok fw (ut_phase t) (tar_input t) dn (ud_total_segments (hd (dn @ ut_queue t @ w))) \<Longrightarrow>
        \<exists>dn'. dn @ ut_queue t = dn' @ q \<and> phase_ok fw ph inp dn' (ud_total_segments (hd (dn @ ut_queue t @ w)))"
  shows "untar_inv fw \<lparr>us_engine = e', us_todo = us_todo S, us_results = us_results S @ rs, us_given = us_given S @ []\<rparr>"
proof -
  define G where "G = layer_of (ut_layer t) (us_given S)"
  define w where "w = (case owed (us_todo S) i of None \<Rightarrow> [] | Some w \<Rightarrow> w)"
  obtain dn where ne: "G \<noteq> []" and seq: "layer_seq G" and dn: "G = dn @ ut_queue t @ w"
      "phase_ok fw (ut_phase t) (tar_input t) dn (ud_total_segments (hd G))"
      and job: "job_inv fw i t G (owed (us_todo S) i) (untar_map (us_engine S) (ut_layer t)) (results_of (ut_layer t) (us_results S))"
    unfolding w_def by (rule untar_inv_job [OF inv i t G_def])
  obtain d2 where d2: "dn @ ut_queue t = d2 @ q" "phase_ok fw ph inp d2 (ud_total_segments (hd G))"
    using dn'[of dn w] seq ne dn by (simp only: simp_thms) blast
  have G: "G = d2 @ q @ w" using dn(1) d2(1) by (metis append.assoc)
  have un: "results_of (ut_layer t) (us_results S) = []" and ow: "owed (us_todo S) i \<noteq> None \<Longrightarrow> length G = 1"
    and m: "untar_map (us_engine S) (ut_layer t) = (if owed (us_todo S) i \<noteq> None then None else Some i)"
    using job act unfolding job_inv_def by (auto split: if_splits)
  have "job_inv fw i t' G (owed (us_todo S) i) (untar_map e' (ut_layer t)) (results_of (ut_layer t) (us_results S @ rs))"
    unfolding job_inv_def using G d2(2) ne ow m out un
    by (auto simp: t' results_of_append results_of_def untar_result_def w_def [symmetric])
  moreover have "untar_map e' (ut_layer t) \<in> {None, Some i}" using out m by (auto split: if_splits)
  ultimately show ?thesis using inv i seq out t ex
    by (intro untar_inv_change [OF inv i refl, where t' = t' and ds = "[]"])
      (auto simp: t' G_def untar_result_def)
qed

lemma written_segment:
  assumes "layer_seq (dn @ (d # q) @ w)"
  shows "ud_index d = int (length dn)" and "ud_total_segments d = ud_total_segments (hd (dn @ (d # q) @ w))"
proof -
  have "map ud_index (dn @ (d # q) @ w) ! length dn = map int [0..<length (dn @ (d # q) @ w)] ! length dn"
    using assms unfolding layer_seq_def by metis
  then show "ud_index d = int (length dn)" by (simp add: nth_append del: upt_Suc)
  show "ud_total_segments d = ud_total_segments (hd (dn @ (d # q) @ w))"
    using assms unfolding layer_seq_def by (metis append_Cons in_set_conv_decomp)
qed

lemma task_step_inv:
  assumes inv: "untar_inv fw S" and st: "task_step fw (us_engine S) e' rs"
  shows "untar_inv fw \<lparr>us_engine = e', us_todo = us_todo S, us_results = us_results S @ rs, us_given = us_given S @ []\<rparr>"
  using st
proof cases
  case (Popen i ok)
  let ?t = "executor (us_engine S) ! i"
  have start: "\<exists>dn'. dn @ ut_queue ?t = dn' @ ut_queue ?t \<and> phase_ok fw (if ok then Piping else Failed) (tar_input ?t) dn' (ud_total_segments (hd H))"
    if "layer_seq H" "H \<noteq> []" "phase_ok fw (ut_phase ?t) (tar_input ?t) dn (ud_total_segments (hd H))" for dn H
  proof -
    have "0 < ud_total_segments (hd H)" using layer_seq_le [OF that(1,2)] that(2) by (cases H) auto
    with that(3) Popen(2) show ?thesis by (intro exI [of _ dn]) simp
  qed
  show ?thesis
    by (rule task_inv [OF inv Popen(1) refl, where q = "ut_queue ?t" and ph = "if ok then Piping else Failed" and inp = "tar_input ?t", OF _ _ _ _ start])
      (use Popen in \<open>auto simp: task_popen_def Let_def update_job_def split: if_splits\<close>)
next
  case (Write i d q n)
  let ?t = "executor (us_engine S) ! i"
  define ph where "ph = (if n = 0 then Failed else if ud_index d = ud_total_segments d - 1 then Closing else Piping)"
  define inp where "inp = (if n = 0 then tar_input ?t else tar_input ?t @ take n (ud_segment d))"
  have eq: "executor e' = (executor (us_engine S))[i := ?t\<lparr>ut_queue := q, ut_phase := ph, tar_input := inp\<rparr>]"
    "untar_map e' = untar_map (us_engine S)" "rs = (if n = 0 then [untar_result ?t False] else [])"
    using Write by (auto simp: task_write_def Let_def update_job_def ph_def inp_def split: if_splits)
  show ?thesis
  proof (rule task_inv [OF inv Write(1) refl refl eq(1)])
    fix dn w
    assume seq: "layer_seq (dn @ ut_queue ?t @ w)" and ok: "phase_ok fw (ut_phase ?t) (tar_input ?t) dn (ud_total_segments (hd (dn @ ut_queue ?t @ w)))"
    note d = written_segment [OF seq [unfolded Write(3)]]
    have pi: "piped fw (tar_input ?t) dn" using ok Write(2) by simp
    have "phase_ok fw ph inp (dn @ [d]) (ud_total_segments (hd (dn @ ut_queue ?t @ w)))"
    proof (cases "n = 0")
      case True
      with pi show ?thesis by (auto simp: ph_def inp_def intro!: exI [of _ "length dn"])
    next
      case False
      with Write(4) have "piped fw inp (dn @ [d])" using piped_snoc [OF pi, of d n] by (simp add: inp_def)
      with False ok d Write(2,3) show ?thesis by (auto simp: ph_def)
    qed
    then show "\<exists>dn'. dn @ ut_queue ?t = dn' @ q \<and> phase_ok fw ph inp dn' (ud_total_segments (hd (dn @ ut_queue ?t @ w)))"
      using Write(3) by (metis append.assoc append_Cons append_Nil)
  qed (use Write eq ph_def in auto)
next
  case (Close i status)
  let ?t = "executor (us_engine S) ! i"
  show ?thesis
    by (rule task_inv [OF inv Close(1) refl, where q = "ut_queue ?t" and ph = Finished and inp = "tar_input ?t"])
      (use Close in \<open>auto simp: task_close_def Let_def update_job_def\<close>)
qed

lemma untar_step_inv:
  assumes "untar_inv fw S" and "untar_step fw S S'"
  shows "untar_inv fw S'"
  using assms(2,1)
proof (induction rule: untar_step.induct)
  case (Hand_over S d e' t)
  show ?case
  proof (cases "untar_map (us_engine S) (ud_layer d)")
    case None
    let ?path = "untar_file_path (us_engine S) @ ''/'' @ ud_image_name_tag d @ ''/'' @ ud_layer d"
    have "executor e' = executor (us_engine S) @ [new_job ?path d]" "untar_map e' = untar_map (us_engine S)"
      "t = Enqueue d (length (executor (us_engine S)))"
      using Hand_over None by (auto simp: untar_start_def Let_def split: if_splits)
    with hand_over_new [OF Hand_over(4,1,2) None] show ?thesis by (cases S) simp
  next
    case (Some i)
    with hand_over_known [OF Hand_over(4,1,2) Some] Hand_over(3) show ?thesis by (cases S) (auto simp: untar_start_def)
  qed
next
  case (Go_on S e' t)
  with go_on_inv show ?case by (cases S) fastforce
next
  case (Task S e' rs)
  with task_step_inv show ?case by (cases S) fastforce
qed

lemma untar_init_inv: "untar_init S \<Longrightarrow> untar_inv fw S"
  by (auto simp: untar_init_def untar_inv_def UntarEngine_new_def layer_of_def layer_seq_def)

interpretation untar_sys: invariant_system untar_init "untar_step fw" "untar_inv fw"
  by unfold_locales (blast intro: untar_init_inv untar_step_inv)+

section \<open>Layers are unpacked in order\<close>

definition complete_layer :: "UntarData list \<Rightarrow> bool" where
  "complete_layer G \<longleftrightarrow> int (length G) = ud_total_segments (hd G)"

lemma filter_key_unique: "distinct (map f xs) \<Longrightarrow> i < length xs \<Longrightarrow> filter (\<lambda>x. f x = f (xs ! i)) xs = [xs ! i]"
proof (induction xs arbitrary: i)
  case (Cons x xs)
  show ?case
  proof (cases i)
    case 0
    with Cons.prems show ?thesis by (auto simp: filter_empty_conv image_iff)
  next
    case (Suc k)
    with Cons.prems have "f (xs ! k) \<in> f ` set xs" "f x \<notin> f ` set xs" by simp_all
    then have "f x \<noteq> f (xs ! k)" by metis
    with Cons Suc show ?thesis by simp
  qed
qed simp

lemma quiescent_job:
  assumes inv: "untar_inv fw S" and todo: "us_todo S = Nothing" and th: "0 < numThreads (us_engine S)"
    and full: "\<forall>k \<in> ud_layer ` set (us_given S). complete_layer (layer_of k (us_given S))"
    and idle: "\<nexists>e' rs. task_step fw (us_engine S) e' rs"
    and t: "t \<in> set (executor (us_engine S))"
  shows "ut_phase t \<in> {Finished, Failed}"
proof -
  let ?ex = "executor (us_engine S)"
  have no: "ut_phase (?ex ! i) \<notin> {Piping, Closing}" if i: "i < length ?ex" for i
  proof
    define t where "t = ?ex ! i"
    define G where "G = layer_of (ut_layer t) (us_given S)"
    assume "ut_phase (?ex ! i) \<in> {Piping, Closing}"
    then consider "ut_phase t = Piping" | "ut_phase t = Closing" by (auto simp: t_def)
    then show False
    proof cases
      case 1
      obtain dn where ne: "G \<noteq> []" and dn: "G = dn @ ut_queue t @ (case owed (us_todo S) i of None \<Rightarrow> [] | Some w \<Rightarrow> w)"
          "phase_ok fw (ut_phase t) (tar_input t) dn (ud_total_segments (hd G))"
        by (rule untar_inv_job [OF inv i t_def G_def])
      have "ut_layer t \<in> ud_layer ` set (us_given S)" using ne by (auto simp: G_def layer_of_def filter_empty_conv intro: rev_image_eqI)
      then have "int (length G) = ud_total_segments (hd G)" using full by (auto simp: G_def complete_layer_def)
      moreover have "int (length dn) < ud_total_segments (hd G)" using dn(2) 1 by simp
      moreover have "length G = length dn + length (ut_queue t)" using arg_cong [OF dn(1), of length] todo by simp
      ultimately obtain d q where "ut_queue t = d # q" by (cases "ut_queue t") auto
      moreover obtain e' rs where "task_write 0 i (us_engine S) = (e', rs)" by (rule prod.exhaust)
      ultimately have "task_step fw (us_engine S) e' rs" using i 1 by (intro task_step.Write [of i _ d q 0]) (simp_all add: t_def)
      with idle show False by blast
    next
      case 2
      moreover obtain e' rs where "task_close 0 i (us_engine S) = (e', rs)" by (rule prod.exhaust)
      ultimately have "task_step fw (us_engine S) e' rs" using i by (intro task_step.Close [of i _ 0]) (simp_all add: t_def)
      with idle show False by blast
    qed
  qed
  then have occ: "occupied (us_engine S) = 0" by (auto simp: occupied_def filter_empty_conv in_set_conv_nth)
  have "ut_phase (?ex ! i) \<noteq> Queued" if "i < length ?ex" for i
    using that
  proof (induction i rule: less_induct)
    case (less i)
    obtain e' rs where po: "task_popen True i (us_engine S) = (e', rs)" by (rule prod.exhaust)
    have "\<forall>j < i. ut_phase (?ex ! j) \<noteq> Queued" using less by simp
    then show ?case using task_step.Popen [OF less(2) _ _ _ po] idle occ th by auto
  qed
  moreover obtain i where "i < length ?ex" "t = ?ex ! i" using t by (metis in_set_conv_nth)
  ultimately show ?thesis using no [of i] by (cases "ut_phase t") auto
qed

text \<open>The task of a layer, what it has done, and what is reported of it.\<close>

lemma layer_task:
  assumes inv: "untar_inv fw S" and l: "l \<in> ud_layer ` set (us_given S)" and G: "G = layer_of l (us_given S)"
  obtains t where "filter (\<lambda>t. ut_layer t = l) (executor (us_engine S)) = [t]" and "\<exists>k. piped fw (tar_input t) (take k G)"
    and "length (results_of l (us_results S)) \<le> 1"
    and "\<forall>r \<in> set (results_of l (us_results S)). ur_success r \<longrightarrow> complete_layer G \<and> piped fw (tar_input t) G"
    and "us_todo S = Nothing \<and> 0 < numThreads (us_engine S) \<and> (\<nexists>e' rs. task_step fw (us_engine S) e' rs)
        \<and> (\<forall>k \<in> ud_layer ` set (us_given S). complete_layer (layer_of k (us_given S))) \<longrightarrow> length (results_of l (us_results S)) = 1"
proof -
  let ?ex = "executor (us_engine S)"
  obtain i where i: "i < length ?ex" and li: "ut_layer (?ex ! i) = l"
  proof -
    have "l \<in> ut_layer ` set ?ex" using inv l unfolding untar_inv_def by blast
    then show thesis using that by (metis imageE in_set_conv_nth)
  qed
  define t where "t = ?ex ! i"
  have "distinct (map ut_layer ?ex)" using inv by (simp add: untar_inv_def)
  then have one: "filter (\<lambda>t. ut_layer t = l) ?ex = [t]" using i li by (auto simp: t_def dest: filter_key_unique)
  have Gt: "G = layer_of (ut_layer t) (us_given S)" using G li by (simp add: t_def)
  obtain dn where ne: "G \<noteq> []" and seq: "layer_seq G" and dn: "G = dn @ ut_queue t @ (case owed (us_todo S) i of None \<Rightarrow> [] | Some w \<Rightarrow> w)"
      "phase_ok fw (ut_phase t) (tar_input t) dn (ud_total_segments (hd G))"
      and job: "job_inv fw i t G (owed (us_todo S) i) (untar_map (us_engine S) (ut_layer t)) (results_of (ut_layer t) (us_results S))"
    by (rule untar_inv_job [OF inv i t_def Gt])
  have lt: "ut_layer t = l" using li by (simp add: t_def)
  have pre: "take k dn = take (min k (length dn)) G" for k using dn(1) by (simp add: min_def)
  have p: "\<exists>k. piped fw (tar_input t) (take k G)"
  proof -
    have "\<exists>k. piped fw (tar_input t) (take k dn)"
    proof (cases "ut_phase t")
      case Failed
      with dn(2) show ?thesis by simp
    qed (use dn(2) in \<open>auto intro: exI [of _ "length dn"]\<close>)
    with pre show ?thesis by metis
  qed
  have r: "length (results_of l (us_results S)) \<le> 1" using job lt unfolding job_inv_def by (auto split: if_splits)
  have "complete_layer G \<and> piped fw (tar_input t) G" if "r \<in> set (results_of l (us_results S))" "ur_success r" for r
  proof -
    have ph: "ut_phase t = Finished" using that job lt unfolding job_inv_def by (auto simp: untar_result_def split: if_splits)
    note fin = finished_complete [OF seq dn(1) dn(2) [unfolded ph] ne]
    have "G = dn" using dn(1) unfolding fin(2) by simp
    then show ?thesis using dn(2) ph fin(1) by (simp add: complete_layer_def)
  qed
  moreover have "length (results_of l (us_results S)) = 1"
    if "us_todo S = Nothing" "0 < numThreads (us_engine S)" "\<nexists>e' rs. task_step fw (us_engine S) e' rs"
      "\<forall>k \<in> ud_layer ` set (us_given S). complete_layer (layer_of k (us_given S))"
    using quiescent_job [OF inv that(1,2,4,3), of t] job lt i unfolding job_inv_def by (auto simp: t_def)
  ultimately show thesis using one p r by (intro that [of t]) blast+
qed

lemma whole_prefix:
  assumes "whole_writes fw G"
  shows "piped fw inp (take k G) \<Longrightarrow> prefix inp (contents G)" and "piped fw inp G \<Longrightarrow> inp = contents G"
proof -
  have "whole_writes fw (take k G)" using assms by (auto simp: whole_writes_def dest: in_set_takeD)
  moreover have "contents G = contents (take k G) @ contents (drop k G)" by (metis append_take_drop_id concat_append map_append)
  ultimately show "prefix inp (contents G)" if "piped fw inp (take k G)" using piped_whole [OF that] by simp
  show "inp = contents G" if "piped fw inp G" using piped_whole [OF that assms] .
qed


text \<open>A layer of two segments on one thread: the second segment comes when the first has been written. Writes are whole.\<close>

definition sample_fw :: "UntarData \<Rightarrow> nat \<Rightarrow> bool" where
  "sample_fw d n \<longleftrightarrow> n = length (ud_segment d)"

definition sample_segment :: "int \<Rightarrow> byte list \<Rightarrow> UntarData" where
  "sample_segment i bs = \<lparr>ud_layer = ''l'', ud_image_name_tag = ''i'', ud_segment = bs, ud_index = i, ud_total_segments = 2\<rparr>"

definition untar_at :: "untar_phase \<Rightarrow> UntarData list \<Rightarrow> byte list \<Rightarrow> bool \<Rightarrow> untar_todo \<Rightarrow> UntarResult list \<Rightarrow> UntarData list \<Rightarrow> untar_system" where
  "untar_at ph q inp m todo rs given = \<lparr>us_engine = \<lparr>untar_map = (if m then [''l'' \<mapsto> 0] else (\<lambda>_. None)),
     executor = [\<lparr>ut_queue = q, ut_cmd = ''tar xf - -C u/i/l'', ut_layer = ''l'', ut_image_name_tag = ''i'', ut_phase = ph, tar_input = inp\<rparr>],
     numThreads = 1, untar_file_path = ''u'', directories = [''u/i/l'']\<rparr>,
     us_todo = todo, us_results = rs, us_given = given\<rparr>"

definition untar_begin :: untar_system where
  "untar_begin = \<lparr>us_engine = UntarEngine_new 1 ''u'', us_todo = Nothing, us_results = [], us_given = []\<rparr>"

lemma untar_begin_init: "untar_init untar_begin"
  by (auto simp: untar_begin_def untar_init_def)

lemmas sample_untar_defs = untar_at_def sample_segment_def update_job_def put_segment_def untar_start_def next_segment_def
  layer_of_def task_popen_def task_write_def task_close_def untar_result_def occupied_def sample_fw_def
  Let_def

lemma sample_untar_first:
  assumes "x \<noteq> []"
  shows "(untar_step sample_fw)\<^sup>*\<^sup>* untar_begin (untar_at Piping [] x True Nothing [] [sample_segment 0 x])"
proof -
  let ?a = "sample_segment 0 x"
  have 1: "untar_step sample_fw untar_begin (untar_at Queued [] [] False (Enqueue ?a 0) [] [?a])"
    using untar_step.Hand_over [of untar_begin ?a]
    by (simp add: sample_untar_defs untar_begin_def UntarEngine_new_def new_job_def untar_command_prefix_def)
  have 2: "untar_step sample_fw (untar_at Queued [] [] False (Enqueue ?a 0) [] [?a]) (untar_at Queued [?a] [] False (Emplace ''l'' 0) [] [?a])"
    using untar_step.Go_on [of "untar_at Queued [] [] False (Enqueue ?a 0) [] [?a]"] by (simp add: sample_untar_defs)
  have 3: "untar_step sample_fw (untar_at Queued [?a] [] False (Emplace ''l'' 0) [] [?a]) (untar_at Queued [?a] [] True Nothing [] [?a])"
    using untar_step.Go_on [of "untar_at Queued [?a] [] False (Emplace ''l'' 0) [] [?a]"] by (simp add: sample_untar_defs)
  have 4: "untar_step sample_fw (untar_at Queued [?a] [] True Nothing [] [?a]) (untar_at Piping [?a] [] True Nothing [] [?a])"
    using untar_step.Task [OF task_step.Popen [of 0 "us_engine (untar_at Queued [?a] [] True Nothing [] [?a])" True]]
    by (simp add: sample_untar_defs)
  have 5: "untar_step sample_fw (untar_at Piping [?a] [] True Nothing [] [?a]) (untar_at Piping [] x True Nothing [] [?a])"
    using untar_step.Task [OF task_step.Write [of 0 "us_engine (untar_at Piping [?a] [] True Nothing [] [?a])" ?a "[]" "length x" sample_fw]] assms
    by (simp add: sample_untar_defs)
  note c = converse_rtranclp_into_rtranclp [of "untar_step sample_fw"]
  show ?thesis by (rule c [OF 1], rule c [OF 2], rule c [OF 3], rule c [OF 4], rule c [OF 5], rule rtranclp.rtrancl_refl)
qed

lemma sample_untar_second:
  assumes "y \<noteq> []"
  shows "(untar_step sample_fw)\<^sup>*\<^sup>* (untar_at Piping [] x True Nothing [] [sample_segment 0 x])
    (untar_at Finished [] (x @ y) False Nothing [\<lparr>ur_layer = ''l'', ur_image_name_tag = ''i'', ur_success = True\<rparr>] [sample_segment 0 x, sample_segment 1 y])"
proof -
  let ?a = "sample_segment 0 x" and ?b = "sample_segment 1 y"
  have 6: "untar_step sample_fw (untar_at Piping [] x True Nothing [] [?a]) (untar_at Piping [?b] x True Nothing [] [?a, ?b])"
    using untar_step.Hand_over [of "untar_at Piping [] x True Nothing [] [?a]" ?b] by (simp add: sample_untar_defs)
  have 7: "untar_step sample_fw (untar_at Piping [?b] x True Nothing [] [?a, ?b]) (untar_at Closing [] (x @ y) True Nothing [] [?a, ?b])"
    using untar_step.Task [OF task_step.Write [of 0 "us_engine (untar_at Piping [?b] x True Nothing [] [?a, ?b])" ?b "[]" "length y" sample_fw]] assms
    by (simp add: sample_untar_defs)
  have 8: "untar_step sample_fw (untar_at Closing [] (x @ y) True Nothing [] [?a, ?b])
      (untar_at Finished [] (x @ y) False Nothing [\<lparr>ur_layer = ''l'', ur_image_name_tag = ''i'', ur_success = True\<rparr>] [?a, ?b])"
    using untar_step.Task [OF task_step.Close [of 0 "us_engine (untar_at Closing [] (x @ y) True Nothing [] [?a, ?b])" 0]]
    by (simp add: sample_untar_defs fun_eq_iff)
  note c = converse_rtranclp_into_rtranclp [of "untar_step sample_fw"]
  show ?thesis by (rule c [OF 6], rule c [OF 7], rule c [OF 8], rule rtranclp.rtrancl_refl)
qed


end
