(* ===== verification/Offload_Client.thy ===== *)
theory Offload_Client
  imports Host_Metadata
begin

text \<open>
  The offload client on the host and the command server in front of it:
  \<^verbatim>\<open>src/src/host/client/offload_client_epoll.h\<close>, \<^verbatim>\<open>offload_client_epoll.cc\<close>,
  \<^verbatim>\<open>command_server.h\<close> and \<^verbatim>\<open>command_server.cc\<close>. A request to pull an image becomes
  a task; the client reads the metadata of the image, sends its layers to the DPU, counts the layers
  that have been unpacked and answers the request after the last one. The lemmas give the messages it
  sends, and show what goes wrong when an image is pulled again before the first pull has ended.
\<close>

section \<open>State\<close>

datatype OffMsgType = kDecompressConnection | kOffload

fun off_type :: "OffMsgType \<Rightarrow> int" where
  "off_type kDecompressConnection = 0"
| "off_type kOffload = 1"

text \<open>A TCP connection is named by a number; \<open>oc_replies\<close> are the answers handed to \<open>sendTcpPbMsg\<close>.\<close>

record OffloadElement =
  oe_image_name_tag :: string
  oe_conn :: nat

record TaskInfo =
  total_layers :: int
  untar_layers :: int
  ti_conn :: nat

record OffloadClient =
  pending_tasks :: "OffloadElement list"
  oc_inflight_sends :: "nat list"
  metadata_path :: string
  oc_connected :: bool
  oc_conn :: "RdmaConnection option"
  oc_tasks :: "ImageNameTag \<Rightarrow> TaskInfo option"
  metadatas :: "ImageNameTag \<Rightarrow> ImageMetadata option"
  oc_wr_id :: nat
  oc_mem :: send_mem
  oc_replies :: "(nat \<times> CreateContainerResponse) list"

text \<open>
  The libraries: the four messages, with what the response objects hold when they could not be
  parsed, and the two parsers of metadata. The outcomes: posting a work request, and the files.
\<close>

record offload_lib =
  con_req_pb :: "DecompressConnectionRequest pb"
  con_resp_pb :: "DecompressConnectionResponse pb"
  off_req_pb :: "OffloadRequest pb"
  off_resp_pb :: "OffloadResponse pb"
  left_con_resp :: DecompressConnectionResponse
  left_off_resp :: OffloadResponse
  left_con_req :: DecompressConnectionRequest
  left_off_req :: OffloadRequest
  parse_manifest :: "byte list \<Rightarrow> OciManifest option"
  parse_config :: "byte list \<Rightarrow> OciConfig option"

record offload_env =
  off_post_err :: "nat \<Rightarrow> int"
  metadata_files :: "string \<Rightarrow> byte list option"

definition OffloadClient_new :: "string \<Rightarrow> send_mem \<Rightarrow> OffloadClient" where
  "OffloadClient_new path M = \<lparr>pending_tasks = [], oc_inflight_sends = [], metadata_path = path, oc_connected = False,
     oc_conn = None, oc_tasks = (\<lambda>_. None), metadatas = (\<lambda>_. None), oc_wr_id = 0, oc_mem = M, oc_replies = []\<rparr>"

section \<open>Sending\<close>

text \<open>
  Storing a typed message in a buffer that has been taken, and posting it. The result tells whether it could
  be serialized.
\<close>

definition post_typed ::
  "'m pb \<Rightarrow> int \<Rightarrow> 'm \<Rightarrow> (nat \<Rightarrow> int) \<Rightarrow> SendBuf \<Rightarrow> send_mem \<times> nat \<times> RdmaConnection \<Rightarrow> (bool \<times> send_mem \<times> nat \<times> RdmaConnection) res" where
  "post_typed pb type msg err b = (\<lambda>(M, w, c).
     andThen (store_typed_msg pb M b type msg) (\<lambda>(frame_len, M1).
       if frame_len = - 1 then Inr (False, M1, w, c)
       else Inr (True, M1, inc64 w,
         RdmaConnection_send True c (sb_addr b, (nat frame_len + sizeof_MsgType) mod 2 ^ 32, w) (err w))))"

text \<open>The buffer counts as under way whether or not the message could be serialized.\<close>

definition OffloadClient_post ::
  "'m pb \<Rightarrow> OffMsgType \<Rightarrow> 'm \<Rightarrow> offload_env \<Rightarrow> OffloadClient \<Rightarrow> RdmaConnection \<Rightarrow> SendBuf \<Rightarrow> (bool \<times> OffloadClient) res" where
  "OffloadClient_post pb type msg env s c b =
     andThen (post_typed pb (off_type type) msg (off_post_err env) b (oc_mem s, oc_wr_id s, c)) (\<lambda>(ok, M, w, c1).
       Inr (ok, s\<lparr>oc_inflight_sends := oc_inflight_sends s @ [sb_id b], oc_mem := M, oc_wr_id := w, oc_conn := Some c1\<rparr>))"

definition OffloadClient_onConnected ::
  "offload_lib \<Rightarrow> offload_env \<Rightarrow> OffloadClient \<Rightarrow> RdmaConnection \<Rightarrow> OffloadClient res" where
  "OffloadClient_onConnected lib env s c =
     andThen (RdmaConnection_acquireFreeSendBuf c) (\<lambda>(free_buf, c1).
       case free_buf of
         None \<Rightarrow> Inl Undefined_behaviour
       | Some b \<Rightarrow> andThen (OffloadClient_post (con_req_pb lib) kDecompressConnection \<lparr>dcr_connection = True\<rparr> env s c1 b)
           (\<lambda>(ok, s1). Inr s1))"

section \<open>Metadata\<close>

text \<open>The part of the name before the colon; the tag of an image is always \<open>latest\<close>.\<close>

definition image_base :: "string \<Rightarrow> string" where
  "image_base s = takeWhile (\<lambda>ch. ch \<noteq> CHR '':'') s"

definition manifest_path :: "string \<Rightarrow> ImageNameTag \<Rightarrow> string" where
  "manifest_path path img = path @ ''/'' @ image_base (it_id img) @ '':latest/manifest.json''"

definition config_path :: "string \<Rightarrow> ImageNameTag \<Rightarrow> string" where
  "config_path path img = path @ ''/'' @ image_base (it_id img) @ '':latest/config''"

definition loadMetadata :: "offload_lib \<Rightarrow> offload_env \<Rightarrow> OffloadClient \<Rightarrow> ImageNameTag \<Rightarrow> bool \<times> OffloadClient" where
  "loadMetadata lib env s img =
     (if metadatas s img \<noteq> None then (True, s)
      else case from_file (parse_manifest lib) (metadata_files env) (manifest_path (metadata_path s) img) of
          None \<Rightarrow> (False, s)
        | Some manifest \<Rightarrow>
            (case from_file (parse_config lib) (metadata_files env) (config_path (metadata_path s) img) of
               None \<Rightarrow> (False, s)
             | Some config \<Rightarrow> (True, s\<lparr>metadatas := (metadatas s)(img \<mapsto>
                 \<lparr>im_image = img, im_config = config, im_manifest = manifest\<rparr>)\<rparr>)))"

section \<open>Offloading a task\<close>

definition offload_request :: "ImageNameTag \<Rightarrow> string list \<Rightarrow> OffloadRequest" where
  "offload_request img digests = \<lparr>ofr_image_name_tag = it_id img, ofr_layers = digests\<rparr>"

text \<open>\<open>metadatas_[image]\<close> makes an empty entry when there is none, \<open>emplace\<close> keeps an entry.\<close>

definition offloadTaskToDpu ::
  "offload_lib \<Rightarrow> offload_env \<Rightarrow> OffloadClient \<Rightarrow> RdmaConnection \<Rightarrow> OffloadElement \<Rightarrow> SendBuf \<Rightarrow> (bool \<times> OffloadClient) res" where
  "offloadTaskToDpu lib env s c task b =
     (let img = \<lparr>it_id = oe_image_name_tag task\<rparr> in
      case loadMetadata lib env s img of (loaded, s1) \<Rightarrow>
        if \<not> loaded then Inr (False, s1\<lparr>oc_conn := Some c\<rparr>)
        else case metadatas s1 img of
            None \<Rightarrow> Inl Undefined_behaviour
          | Some metadata \<Rightarrow>
              let digests = layer_digests (im_manifest metadata);
                  info = \<lparr>total_layers = sint (of_nat (length digests) :: 32 word), untar_layers = 0, ti_conn = oe_conn task\<rparr>;
                  s2 = (if oc_tasks s1 img = None then s1\<lparr>oc_tasks := (oc_tasks s1)(img \<mapsto> info)\<rparr> else s1)
              in OffloadClient_post (off_req_pb lib) kOffload (offload_request img digests) env s2 c b)"

definition tryOffloadTask :: "offload_lib \<Rightarrow> offload_env \<Rightarrow> OffloadClient \<Rightarrow> (bool \<times> OffloadClient) res" where
  "tryOffloadTask lib env s =
     (case pending_tasks s of
        [] \<Rightarrow> Inr (True, s)
      | task # rest \<Rightarrow>
          (case oc_conn s of
             None \<Rightarrow> Inl Undefined_behaviour
           | Some c \<Rightarrow> andThen (RdmaConnection_acquireFreeSendBuf c) (\<lambda>(free_buf, c1).
               case free_buf of
                 None \<Rightarrow> Inr (True, s\<lparr>oc_conn := Some c1\<rparr>)
               | Some b \<Rightarrow> andThen (offloadTaskToDpu lib env s c1 task b) (\<lambda>(ok, s1).
                   Inr (ok, s1\<lparr>pending_tasks := rest\<rparr>)))))"

text \<open>The functor of \<open>offload\<close>.\<close>

definition offload :: "offload_lib \<Rightarrow> offload_env \<Rightarrow> OffloadClient \<Rightarrow> OffloadElement \<Rightarrow> OffloadClient res" where
  "offload lib env s task =
     (let s1 = s\<lparr>pending_tasks := pending_tasks s @ [task]\<rparr> in
      if \<not> oc_connected s1 then Inr s1
      else andThen (tryOffloadTask lib env s1) (\<lambda>(ok, s2). Inr s2))"

section \<open>Answers of the DPU\<close>

definition handleOffloadResponse :: "offload_lib \<Rightarrow> offload_env \<Rightarrow> OffloadClient \<Rightarrow> OffloadResponse \<Rightarrow> (bool \<times> OffloadClient) res" where
  "handleOffloadResponse lib env s resp = tryOffloadTask lib env s"

definition handleDecompressConnectionResponse ::
  "offload_lib \<Rightarrow> offload_env \<Rightarrow> OffloadClient \<Rightarrow> DecompressConnectionResponse \<Rightarrow> (bool \<times> OffloadClient) res" where
  "handleDecompressConnectionResponse lib env s resp = tryOffloadTask lib env (s\<lparr>oc_connected := True\<rparr>)"

text \<open>The outcome of a handler is logged only.\<close>

definition OffloadClient_onRecvSuccess ::
  "offload_lib \<Rightarrow> offload_env \<Rightarrow> OffloadClient \<Rightarrow> byte list \<Rightarrow> 32 word \<Rightarrow> OffloadClient res" where
  "OffloadClient_onRecvSuccess lib env s recv_buf recv_len =
     (if recv_len < 4 then Inr s
      else case (oc_conn s, oc_inflight_sends s) of
          (Some c, i # others) \<Rightarrow>
            let s1 = s\<lparr>oc_conn := Some (RdmaConnection_releaseSendBuf c i), oc_inflight_sends := others\<rparr>;
                type = recv_type recv_buf
            in if type = off_type kDecompressConnection
               then andThen (parse_typed_msg (con_resp_pb lib) (left_con_resp lib) recv_buf recv_len) (\<lambda>(parsed, resp).
                 if parsed = 0 then Inr s1
                 else andThen (handleDecompressConnectionResponse lib env s1 resp) (\<lambda>(ok, s2). Inr s2))
               else if type = off_type kOffload
               then andThen (parse_typed_msg (off_resp_pb lib) (left_off_resp lib) recv_buf recv_len) (\<lambda>(parsed, resp).
                 if parsed = 0 then Inr s1
                 else andThen (handleOffloadResponse lib env s1 resp) (\<lambda>(ok, s2). Inr s2))
               else Inr s1
        | _ \<Rightarrow> Inl Undefined_behaviour)"

definition OffloadClient_callbacks ::
  "offload_lib \<Rightarrow> offload_env \<Rightarrow> (nat \<Rightarrow> byte list) \<Rightarrow> OffloadClient rdma_user" where
  "OffloadClient_callbacks lib env mem call = (\<lambda>(s, c).
     andThen (case call of
         Connected \<Rightarrow> OffloadClient_onConnected lib env s c
       | Recv_success addr len wc \<Rightarrow>
           OffloadClient_onRecvSuccess lib env (s\<lparr>oc_conn := Some c\<rparr>) (mem addr) (of_nat len)
       | _ \<Rightarrow> Inr (s\<lparr>oc_conn := Some c\<rparr>))
     (\<lambda>s1. case oc_conn s1 of None \<Rightarrow> Inl Undefined_behaviour | Some c1 \<Rightarrow> Inr (s1, c1)))"

section \<open>Layers that have been unpacked\<close>

text \<open>
  The functor of \<open>completeTask\<close>; whether the layer could be unpacked is not looked at. The entry of the
  image is erased before its connection is used: \<open>freed\<close> is what the connection then reads as, nothing
  when the access fails.
\<close>

definition create_response :: "string \<Rightarrow> CreateContainerResponse" where
  "create_response img = \<lparr>ccp_success = True, ccp_duration = 0, ccp_path = ''untar/'' @ img\<rparr>"

definition completeTask :: "(TaskInfo \<Rightarrow> nat option) \<Rightarrow> OffloadClient \<Rightarrow> UntarResult \<Rightarrow> OffloadClient res" where
  "completeTask freed s res =
     (let img = \<lparr>it_id = ur_image_name_tag res\<rparr> in
      case oc_tasks s img of
        None \<Rightarrow> Inl Assert_failed
      | Some t \<Rightarrow>
          defined_if (untar_layers t < 2 ^ 31 - 1)
            (let t1 = t\<lparr>untar_layers := untar_layers t + 1\<rparr> in
             if untar_layers t1 = total_layers t1
             then (case freed t1 of
                 None \<Rightarrow> Inl Undefined_behaviour
               | Some tcp \<Rightarrow> Inr (s\<lparr>oc_tasks := (oc_tasks s)(img := None),
                   oc_replies := oc_replies s @ [(tcp, create_response (ur_image_name_tag res))]\<rparr>))
             else Inr (s\<lparr>oc_tasks := (oc_tasks s)(img \<mapsto> t1)\<rparr>)))"

section \<open>The command server\<close>

definition pullImage :: "offload_lib \<Rightarrow> offload_env \<Rightarrow> OffloadClient \<Rightarrow> string \<Rightarrow> nat \<Rightarrow> OffloadClient res" where
  "pullImage lib env s imageNameTag tcp = offload lib env s \<lparr>oe_image_name_tag = imageNameTag, oe_conn = tcp\<rparr>"

text \<open>One read of a connection gives at most one request.\<close>

definition CommandServer_OnMessage ::
  "CreateContainerRequest pb \<Rightarrow> offload_lib \<Rightarrow> offload_env \<Rightarrow> OffloadClient \<times> Buffer \<Rightarrow> nat \<Rightarrow> (OffloadClient \<times> Buffer) res" where
  "CommandServer_OnMessage pb lib env = (\<lambda>(s, buf) tcp.
     andThen (receiveTcpPbMsg pb buf) (\<lambda>(request, buf1).
       case request of
         None \<Rightarrow> Inr (s, buf1)
       | Some r \<Rightarrow> andThen (pullImage lib env s (ccr_image_name_tag r) tcp) (\<lambda>s1. Inr (s1, buf1))))"

section \<open>Pulling an image again\<close>

text \<open>
  A second pull of an image while the first is under way has no task of its own, but its layers are
  fetched too: after the answer to the first pull the next layer fails the assertion.
\<close>

lemma second_pull_no_task:
  assumes "oc_tasks s \<lparr>it_id = oe_image_name_tag task\<rparr> = Some t" and "offloadTaskToDpu lib env s c task b = Inr (ok, s')"
  shows "oc_tasks s' = oc_tasks s"
  using assms by (auto simp: offloadTaskToDpu_def loadMetadata_def OffloadClient_post_def Let_def res_simps
      split: if_splits option.splits)

lemma layer_after_answer_fails:
  assumes "oc_tasks s \<lparr>it_id = ur_image_name_tag r\<rparr> = Some t" and "untar_layers t + 1 = total_layers t"
    and "completeTask freed s r = Inr s'" and "ur_image_name_tag r' = ur_image_name_tag r"
  shows "completeTask freed s' r' = Inl Assert_failed"
  using assms by (auto simp: completeTask_def Let_def res_simps split: option.splits)

lemma last_layer_uses_freed_entry:
  assumes "oc_tasks s \<lparr>it_id = ur_image_name_tag r\<rparr> = Some t" and "untar_layers t + 1 = total_layers t"
    and "\<And>t. freed t = None"
  shows "completeTask freed s r = Inl Undefined_behaviour"
  using assms by (simp add: completeTask_def Let_def defined_if_def)

text \<open>All tags of an image have the metadata of one tag.\<close>

lemma tag_ignored:
  assumes "CHR '':'' \<notin> set name"
  shows "manifest_path path (ImageNameTag_new name t1) = manifest_path path (ImageNameTag_new name t2)"
proof -
  have "image_base (name @ CHR '':'' # t) = name" for t
    unfolding image_base_def using assms by (subst takeWhile_append2) auto
  then show ?thesis by (simp add: manifest_path_def ImageNameTag_new_def)
qed

section \<open>Messages\<close>

datatype off_msg = Con_msg DecompressConnectionRequest | Off_msg OffloadRequest

fun off_frame :: "offload_lib \<Rightarrow> off_msg \<Rightarrow> byte list" where
  "off_frame lib (Con_msg q) = typed_frame (con_req_pb lib) (off_type kDecompressConnection) q"
| "off_frame lib (Off_msg q) = typed_frame (off_req_pb lib) (off_type kOffload) q"

fun off_fits :: "offload_lib \<Rightarrow> off_msg \<Rightarrow> bool" where
  "off_fits lib (Con_msg q) = frame_fits (con_req_pb lib) q"
| "off_fits lib (Off_msg q) = frame_fits (off_req_pb lib) q"

lemma off_type_range: "- (2 ^ 31) \<le> off_type t \<and> off_type t < 2 ^ 31"
  by (cases t) simp_all

text \<open>Posting a message that fits.\<close>

lemma post_ok:
  assumes fl: "in_flight frame c (oc_mem s) (oc_inflight_sends s) ms" and free: "free_bufpairs c = i # r"
    and fits: "frame_fits pb msg" "length (typed_frame pb (off_type type) msg) \<le> send_cap (bufpairs c ! i)"
    and fr: "frame m = typed_frame pb (off_type type) msg" and err: "off_post_err env (oc_wr_id s) = 0"
    and b: "b = \<lparr>sb_id = i, sb_addr = send_header (bufpairs c ! i), sb_cap = send_cap (bufpairs c ! i)\<rparr>"
  obtains c' M' where "OffloadClient_post pb type msg env s (c\<lparr>free_bufpairs := r\<rparr>) b
      = Inr (True, s\<lparr>oc_inflight_sends := oc_inflight_sends s @ [i], oc_mem := M', oc_wr_id := inc64 (oc_wr_id s), oc_conn := Some c'\<rparr>)"
    and "in_flight frame c' M' (oc_inflight_sends s @ [i]) (ms @ [m])"
    and "posts c' = posts c @ [frame_post frame c (i, m)]" and "bufpairs c' = bufpairs c" and "free_bufpairs c' = r"
proof -
  have ok: "bufs_ok c (oc_mem s) (oc_inflight_sends s)" using fl by (simp add: in_flight_def)
  note a = acquire_first [OF ok free]
  let ?h = "send_header (bufpairs c ! i)" and ?f = "typed_frame pb (off_type type) msg" and ?w = "oc_wr_id s"
  let ?bs = "?f @ drop (length ?f) (oc_mem s ?h)"
  have store: "store_typed_msg pb (oc_mem s) b (off_type type) msg = Inr (int (length (rdma_frame pb msg)), (oc_mem s)(?h := ?bs))"
    using store_typed_msg_ok [OF fits(1), of "oc_mem s" b "off_type type"] a(4,5) fits(2) by (simp add: b)
  have len: "length (rdma_frame pb msg) + sizeof_MsgType = length ?f" by (simp add: typed_frame_def sizeof_MsgType_def)
  have mod32: "length ?f mod 2 ^ 32 = length ?f" using fits(2) a(5) by simp
  define c' where "c' = RdmaConnection_send True (c\<lparr>free_bufpairs := r\<rparr>) (?h, length (frame m), ?w) 0"
  have bs: "length ?bs = length (oc_mem s ?h)" "take (length (frame m)) ?bs = frame m" using a(4) fits(2) fr by simp_all
  note post = in_flight_post [OF fl free bs c'_def]
  have "OffloadClient_post pb type msg env s (c\<lparr>free_bufpairs := r\<rparr>) b
      = Inr (True, s\<lparr>oc_inflight_sends := oc_inflight_sends s @ [i], oc_mem := (oc_mem s)(?h := ?bs), oc_wr_id := inc64 ?w, oc_conn := Some c'\<rparr>)"
    using store len mod32 err by (simp add: OffloadClient_post_def post_typed_def c'_def fr b)
  then show ?thesis by (rule that) (use post in simp_all)
qed

end
