(* ===== verification/Offload_Server.thy ===== *)
theory Offload_Server
  imports Offload_Client Rdma_Respond
begin

text \<open>
  The offload server on the DPU: \<^verbatim>\<open>src/src/dpu/offload_server_epoll.h\<close> and \<^verbatim>\<open>offload_server_epoll.cc\<close>.
  It hands the layers of an image to the content fetcher, and connects the decompress client to the host.
  The lemmas give its answers, and show that it is a server in the sense of the answering contract.
\<close>

section \<open>State and handlers\<close>

text \<open>
  \<open>os_fetches\<close> are the layers and images handed to \<open>ContentFetcher::fetch\<close>, oldest first, which runs
  them in its own loop in that order; the address of the registry and the configuration are the same for
  all. \<open>os_connects\<close> counts the calls of \<open>DecompressClientEpoll::connect\<close>.
\<close>

record OffloadServer =
  os_fetches :: "(string \<times> string) list"
  os_connects :: nat
  os_wr_id :: nat
  os_mem :: send_mem

definition OffloadServer_new :: "send_mem \<Rightarrow> OffloadServer" where
  "OffloadServer_new M = \<lparr>os_fetches = [], os_connects = 0, os_wr_id = 0, os_mem = M\<rparr>"

definition handleOffloadRequest ::
  "offload_lib \<Rightarrow> offload_env \<Rightarrow> OffloadServer \<times> RdmaConnection \<Rightarrow> OffloadRequest \<Rightarrow> (bool \<times> OffloadServer \<times> RdmaConnection) res" where
  "handleOffloadRequest lib env = (\<lambda>(s, c) req.
     let s1 = s\<lparr>os_fetches := os_fetches s @ map (\<lambda>l. (l, ofr_image_name_tag req)) (ofr_layers req)\<rparr> in
     andThen (respond (off_resp_pb lib) (off_type kOffload) \<lparr>ofp_image_name_tag = ofr_image_name_tag req, ofp_success = True\<rparr>
         (off_post_err env) (os_mem s1, os_wr_id s1, c))
       (\<lambda>(ok, M, w, c1). Inr (ok, s1\<lparr>os_mem := M, os_wr_id := w\<rparr>, c1)))"

definition handleDecompressConnectionReqeust ::
  "offload_lib \<Rightarrow> offload_env \<Rightarrow> OffloadServer \<times> RdmaConnection \<Rightarrow> DecompressConnectionRequest \<Rightarrow>
    (bool \<times> OffloadServer \<times> RdmaConnection) res" where
  "handleDecompressConnectionReqeust lib env = (\<lambda>(s, c) req.
     andThen (respond (con_resp_pb lib) (off_type kDecompressConnection) \<lparr>dcp_connection = True\<rparr>
         (off_post_err env) (os_mem s, os_wr_id s, c))
       (\<lambda>(ok, M, w, c1).
         if ok then Inr (True, s\<lparr>os_mem := M, os_wr_id := w, os_connects := Suc (os_connects s)\<rparr>, c1)
         else Inr (False, s\<lparr>os_mem := M, os_wr_id := w\<rparr>, c1)))"

text \<open>The outcome of a handler is logged only.\<close>

definition OffloadServer_onRecvSuccess ::
  "offload_lib \<Rightarrow> offload_env \<Rightarrow> OffloadServer \<times> RdmaConnection \<Rightarrow> byte list \<Rightarrow> 32 word \<Rightarrow>
    (OffloadServer \<times> RdmaConnection) res" where
  "OffloadServer_onRecvSuccess lib env = (\<lambda>(s, c) recv_buf recv_len.
     if recv_len < 4 then Inr (s, c)
     else if recv_type recv_buf = off_type kDecompressConnection
     then andThen (parse_typed_msg (con_req_pb lib) (left_con_req lib) recv_buf recv_len) (\<lambda>(parsed, req).
       if parsed = 0 then Inr (s, c)
       else andThen (handleDecompressConnectionReqeust lib env (s, c) req) (\<lambda>(ok, r). Inr r))
     else if recv_type recv_buf = off_type kOffload
     then andThen (parse_typed_msg (off_req_pb lib) (left_off_req lib) recv_buf recv_len) (\<lambda>(parsed, req).
       if parsed = 0 then Inr (s, c)
       else andThen (handleOffloadRequest lib env (s, c) req) (\<lambda>(ok, r). Inr r))
     else Inr (s, c))"

definition OffloadServer_callbacks :: "offload_lib \<Rightarrow> offload_env \<Rightarrow> (nat \<Rightarrow> byte list) \<Rightarrow> OffloadServer rdma_user" where
  "OffloadServer_callbacks lib env mem call = (\<lambda>(s, c).
     case call of
       Recv_success addr len wc \<Rightarrow> OffloadServer_onRecvSuccess lib env (s, c) (mem addr) (of_nat len)
     | _ \<Rightarrow> Inr (s, c))"

section \<open>Answers\<close>

fun off_answer :: "offload_lib \<Rightarrow> off_msg \<Rightarrow> byte list" where
  "off_answer lib (Con_msg q) = typed_frame (con_resp_pb lib) (off_type kDecompressConnection) \<lparr>dcp_connection = True\<rparr>"
| "off_answer lib (Off_msg q) = typed_frame (off_resp_pb lib) (off_type kOffload)
     \<lparr>ofp_image_name_tag = ofr_image_name_tag q, ofp_success = True\<rparr>"

fun answer_fits :: "offload_lib \<Rightarrow> off_msg \<Rightarrow> bool" where
  "answer_fits lib (Con_msg q) = frame_fits (con_resp_pb lib) \<lparr>dcp_connection = True\<rparr>"
| "answer_fits lib (Off_msg q) = frame_fits (off_resp_pb lib) \<lparr>ofp_image_name_tag = ofr_image_name_tag q, ofp_success = True\<rparr>"

fun msg_fetches :: "off_msg \<Rightarrow> (string \<times> string) list" where
  "msg_fetches (Con_msg q) = []"
| "msg_fetches (Off_msg q) = map (\<lambda>l. (l, ofr_image_name_tag q)) (ofr_layers q)"

text \<open>The messages the server can answer, and what becomes of its state.\<close>

definition off_msg_ok :: "offload_lib \<Rightarrow> BufPair list \<Rightarrow> off_msg \<Rightarrow> bool" where
  "off_msg_ok lib bps m \<longleftrightarrow> off_fits lib m \<and> answer_fits lib m \<and> (\<forall>b \<in> set bps. length (off_answer lib m) \<le> send_cap b)"

definition off_enabled :: "offload_lib \<Rightarrow> offload_env \<Rightarrow> (string \<times> string) list \<Rightarrow> BufPair list \<Rightarrow> byte list \<Rightarrow> bool" where
  "off_enabled lib env fs bps bytes \<longleftrightarrow> (\<forall>w. off_post_err env w = 0) \<and> (\<exists>m. bytes = off_frame lib m \<and> off_msg_ok lib bps m)"

definition off_replies :: "offload_lib \<Rightarrow> (string \<times> string) list \<Rightarrow> byte list \<Rightarrow> byte list \<Rightarrow> (string \<times> string) list \<Rightarrow> bool" where
  "off_replies lib fs bytes r fs' \<longleftrightarrow> (\<forall>m. bytes = off_frame lib m \<and> off_fits lib m \<longrightarrow> r = off_answer lib m \<and> fs' = fs @ msg_fetches m)"

lemma off_frame_small: "off_fits lib m \<Longrightarrow> length (off_frame lib m) < 2 ^ 32 \<and> 8 \<le> length (off_frame lib m)"
  by (cases m) (auto simp: length_typed_frame frame_fits_def kFrameHeaderLen_def)

lemma off_frame_type:
  "recv_type (off_frame lib (Con_msg q) @ junk) = off_type kDecompressConnection"
  "recv_type (off_frame lib (Off_msg p) @ junk) = off_type kOffload"
  using off_type_range by (simp_all only: off_frame.simps recv_type_frame)

lemma typed_parse:
  assumes "frame_fits pb m" and "length (typed_frame pb t m) < 2 ^ 32"
  shows "parse_typed_msg pb left (typed_frame pb t m @ junk) (of_nat (length (typed_frame pb t m))) = Inr (int (length (rdma_frame pb m)), m)"
    and "length (rdma_frame pb m) \<noteq> 0" and "\<not> (of_nat (length (typed_frame pb t m)) :: 32 word) < 4"
proof -
  have l: "unat (of_nat (length (typed_frame pb t m)) :: 32 word) = length (typed_frame pb t m)" by (rule unat_of_nat_small [OF assms(2)])
  show "parse_typed_msg pb left (typed_frame pb t m @ junk) (of_nat (length (typed_frame pb t m))) = Inr (int (length (rdma_frame pb m)), m)"
    by (rule parse_typed_frame [OF assms(1)]) (simp only: l order_refl)
  show "length (rdma_frame pb m) \<noteq> 0" using length_rdma_frame [OF assms(1)] by simp
  show "\<not> (of_nat (length (typed_frame pb t m)) :: 32 word) < 4"
    using l length_typed_frame [OF assms(1), of t] by (simp add: word_less_nat_alt)
qed

text \<open>The frame determines the message.\<close>

lemma off_frame_inj:
  assumes "off_frame lib m = off_frame lib p" and "off_fits lib m" and "off_fits lib p"
  shows "m = p"
proof -
  have "recv_type (off_frame lib m @ []) = recv_type (off_frame lib p @ [])" using assms(1) by simp
  then show ?thesis
  proof (cases m; cases p)
    fix a b assume "m = Con_msg a" "p = Con_msg b"
    with assms typed_parse(1) [of "con_req_pb lib" a 0 _ "[]"] typed_parse(1) [of "con_req_pb lib" b 0 _ "[]"] off_frame_small
    show ?thesis by (metis Inr_inject Pair_inject off_fits.simps(1) off_frame.simps(1) off_type.simps(1))
  next
    fix a b assume "m = Off_msg a" "p = Off_msg b"
    with assms typed_parse(1) [of "off_req_pb lib" a 1 _ "[]"] typed_parse(1) [of "off_req_pb lib" b 1 _ "[]"] off_frame_small
    show ?thesis by (metis Inr_inject Pair_inject off_fits.simps(2) off_frame.simps(2) off_type.simps(2))
  qed (simp_all only: off_frame_type off_type.simps zero_neq_one one_neq_zero)
qed

lemma off_handled:
  assumes ok: "bufs_ok c (os_mem s) []" and free: "free_bufpairs c = i # rest" and m: "off_msg_ok lib (bufpairs c) m"
    and err: "\<forall>w. off_post_err env w = 0"
  obtains s' c' where "OffloadServer_onRecvSuccess lib env (s, c) (off_frame lib m @ junk) (of_nat (length (off_frame lib m))) = Inr (s', c')"
    and "posted c (os_mem s) i rest (off_answer lib m) c' (os_mem s')" and "os_fetches s' = os_fetches s @ msg_fetches m"
proof (cases m)
  case (Con_msg q)
  have i: "bufpairs c ! i \<in> set (bufpairs c)" using acquire_first(3) [OF ok free] by simp
  have fits: "frame_fits (con_req_pb lib) q" "frame_fits (con_resp_pb lib) \<lparr>dcp_connection = True\<rparr>"
    "length (off_answer lib m) \<le> send_cap (bufpairs c ! i)" using m i Con_msg by (simp_all add: off_msg_ok_def)
  have room: "length (typed_frame (con_resp_pb lib) (off_type kDecompressConnection) \<lparr>dcp_connection = True\<rparr>) \<le> send_cap (bufpairs c ! i)"
    using fits(3) Con_msg by simp
  obtain M' c' where r: "respond (con_resp_pb lib) (off_type kDecompressConnection) \<lparr>dcp_connection = True\<rparr> (off_post_err env)
      (os_mem s, os_wr_id s, c) = Inr (True, M', inc64 (os_wr_id s), c')"
    "posted c (os_mem s) i rest (typed_frame (con_resp_pb lib) (off_type kDecompressConnection) \<lparr>dcp_connection = True\<rparr>) c' M'"
    by (rule respond_ok [OF ok free fits(2) room spec [OF err]])
  have small: "length (typed_frame (con_req_pb lib) (off_type kDecompressConnection) q) < 2 ^ 32"
    using off_frame_small [of lib m] fits(1) Con_msg by simp
  note parse = typed_parse [OF fits(1) small]
  have "OffloadServer_onRecvSuccess lib env (s, c) (off_frame lib m @ junk) (of_nat (length (off_frame lib m)))
      = Inr (s\<lparr>os_mem := M', os_wr_id := inc64 (os_wr_id s), os_connects := Suc (os_connects s)\<rparr>, c')"
    using parse r(1) off_frame_type(1) [of lib q junk] unfolding Con_msg
    by (simp add: OffloadServer_onRecvSuccess_def handleDecompressConnectionReqeust_def)
  then show ?thesis by (rule that) (use r(2) Con_msg in simp_all)
next
  case (Off_msg q)
  let ?resp = "\<lparr>ofp_image_name_tag = ofr_image_name_tag q, ofp_success = True\<rparr>"
  have i: "bufpairs c ! i \<in> set (bufpairs c)" using acquire_first(3) [OF ok free] by simp
  have fits: "frame_fits (off_req_pb lib) q" "frame_fits (off_resp_pb lib) ?resp"
    "length (off_answer lib m) \<le> send_cap (bufpairs c ! i)" using m i Off_msg by (simp_all add: off_msg_ok_def)
  have room: "length (typed_frame (off_resp_pb lib) (off_type kOffload) ?resp) \<le> send_cap (bufpairs c ! i)"
    using fits(3) Off_msg by simp
  obtain M' c' where r: "respond (off_resp_pb lib) (off_type kOffload) ?resp (off_post_err env)
      (os_mem s, os_wr_id s, c) = Inr (True, M', inc64 (os_wr_id s), c')"
    "posted c (os_mem s) i rest (typed_frame (off_resp_pb lib) (off_type kOffload) ?resp) c' M'"
    by (rule respond_ok [OF ok free fits(2) room spec [OF err]])
  have small: "length (typed_frame (off_req_pb lib) (off_type kOffload) q) < 2 ^ 32"
    using off_frame_small [of lib m] fits(1) Off_msg by simp
  note parse = typed_parse [OF fits(1) small]
  have "OffloadServer_onRecvSuccess lib env (s, c) (off_frame lib m @ junk) (of_nat (length (off_frame lib m)))
      = Inr (s\<lparr>os_fetches := os_fetches s @ msg_fetches m, os_mem := M', os_wr_id := inc64 (os_wr_id s)\<rparr>, c')"
    using parse r(1) off_frame_type(2) [of lib q junk] unfolding Off_msg
    by (simp add: OffloadServer_onRecvSuccess_def handleOffloadRequest_def)
  then show ?thesis by (rule that) (use r(2) Off_msg in simp_all)
qed

interpretation off_responder: responder "OffloadServer_onRecvSuccess lib env" os_mem os_fetches "off_enabled lib env" "off_replies lib"
proof unfold_locales
  fix c and s :: OffloadServer and i rest bytes junk
  assume ok: "bufs_ok c (os_mem s) []" and free: "free_bufpairs c = i # rest" and en: "off_enabled lib env (os_fetches s) (bufpairs c) bytes"
  then obtain m where m: "bytes = off_frame lib m" "off_msg_ok lib (bufpairs c) m" and err: "\<forall>w. off_post_err env w = 0"
    by (auto simp: off_enabled_def)
  obtain s' c' where h: "OffloadServer_onRecvSuccess lib env (s, c) (off_frame lib m @ junk) (of_nat (length (off_frame lib m))) = Inr (s', c')"
    "posted c (os_mem s) i rest (off_answer lib m) c' (os_mem s')" "os_fetches s' = os_fetches s @ msg_fetches m"
    by (rule off_handled [OF ok free m(2) err])
  have "off_replies lib (os_fetches s) bytes (off_answer lib m) (os_fetches s')"
    using off_frame_inj [of lib] m h(3) by (auto simp: off_replies_def off_msg_ok_def)
  with h m(1) show "\<exists>s' c' r. OffloadServer_onRecvSuccess lib env (s, c) (bytes @ junk) (of_nat (length bytes)) = Inr (s', c')
      \<and> off_replies lib (os_fetches s) bytes r (os_fetches s') \<and> posted c (os_mem s) i rest r c' (os_mem s')" by blast
qed

end
