(* ===== verification/Offload_Pair.thy ===== *)
theory Offload_Pair
  imports Offload_Server
begin

text \<open>
  The offload client and the offload server over one pair of connections, with the two network cards and
  the messages under way, and the results of the untar engine that come back to the client. The lemmas
  show that the layers of every image that is pulled are handed to the content fetcher once and in the
  order of the pulls, that no message and no result makes either side fail, and that every pull is
  answered once, on its own connection, when the last of its layers has been unpacked.
\<close>

section \<open>Images that can be pulled\<close>

definition image_layers :: "offload_lib \<Rightarrow> offload_env \<Rightarrow> string \<Rightarrow> string \<Rightarrow> string list option" where
  "image_layers lib env path img =
     (case (from_file (parse_manifest lib) (metadata_files env) (manifest_path path \<lparr>it_id = img\<rparr>),
            from_file (parse_config lib) (metadata_files env) (config_path path \<lparr>it_id = img\<rparr>)) of
        (Some m, Some _) \<Rightarrow> Some (layer_digests m)
      | _ \<Rightarrow> None)"

definition layers_of :: "offload_lib \<Rightarrow> offload_env \<Rightarrow> string \<Rightarrow> string \<Rightarrow> string list" where
  "layers_of lib env path img = (case image_layers lib env path img of None \<Rightarrow> [] | Some ds \<Rightarrow> ds)"

definition image_request :: "offload_lib \<Rightarrow> offload_env \<Rightarrow> string \<Rightarrow> string \<Rightarrow> off_msg" where
  "image_request lib env path img = Off_msg (offload_request \<lparr>it_id = img\<rparr> (layers_of lib env path img))"

text \<open>The metadata is there, the image has layers, and the messages fit into the buffers.\<close>

definition image_ok :: "offload_lib \<Rightarrow> offload_env \<Rightarrow> string \<Rightarrow> BufPair list \<Rightarrow> BufPair list \<Rightarrow> string \<Rightarrow> bool" where
  "image_ok lib env path cbps sbps img \<longleftrightarrow> image_layers lib env path img \<noteq> None
     \<and> layers_of lib env path img \<noteq> [] \<and> length (layers_of lib env path img) < 2 ^ 31
     \<and> off_msg_ok lib sbps (image_request lib env path img)
     \<and> (\<forall>b \<in> set cbps. length (off_frame lib (image_request lib env path img)) \<le> send_cap b)"

lemma load_ok:
  assumes "image_layers lib env (metadata_path s) img \<noteq> None" and "metadatas s \<lparr>it_id = img\<rparr> = None"
  obtains md where "loadMetadata lib env s \<lparr>it_id = img\<rparr> = (True, s\<lparr>metadatas := (metadatas s)(\<lparr>it_id = img\<rparr> \<mapsto> md)\<rparr>)"
    and "layer_digests (im_manifest md) = layers_of lib env (metadata_path s) img"
  using assms by (auto simp: image_layers_def layers_of_def loadMetadata_def split: option.splits)

section \<open>Sending one task\<close>

lemma offload_one:
  assumes fl: "in_flight (off_frame lib) c (oc_mem s) (oc_inflight_sends s) ms" and conn: "oc_conn s = Some c"
    and pend: "pending_tasks s = \<lparr>oe_image_name_tag = img, oe_conn = tcp\<rparr> # rest" and free: "free_bufpairs c = i # r"
    and img: "image_ok lib env (metadata_path s) (bufpairs c) sbps img" and err: "\<forall>w. off_post_err env w = 0"
    and new: "metadatas s \<lparr>it_id = img\<rparr> = None" "oc_tasks s \<lparr>it_id = img\<rparr> = None"
  obtains s' c' md p where "tryOffloadTask lib env s = Inr (True, s')" and "oc_conn s' = Some c'"
    and "in_flight (off_frame lib) c' (oc_mem s') (oc_inflight_sends s') (ms @ [image_request lib env (metadata_path s) img])"
    and "posts c' = posts c @ [p]" and "bufpairs c' = bufpairs c"
    and "pending_tasks s' = rest" and "oc_connected s' = oc_connected s" and "metadata_path s' = metadata_path s"
    and "metadatas s' = (metadatas s)(\<lparr>it_id = img\<rparr> \<mapsto> md)" and "oc_replies s' = oc_replies s"
    and "oc_tasks s' = (oc_tasks s)(\<lparr>it_id = img\<rparr> \<mapsto>
        \<lparr>total_layers = int (length (layers_of lib env (metadata_path s) img)), untar_layers = 0, ti_conn = tcp\<rparr>)"
proof -
  let ?id = "\<lparr>it_id = img\<rparr>" and ?ls = "layers_of lib env (metadata_path s) img"
  have ok: "bufs_ok c (oc_mem s) (oc_inflight_sends s)" using fl by (simp add: in_flight_def)
  note a = acquire_first [OF ok free]
  obtain md where md: "loadMetadata lib env s ?id = (True, s\<lparr>metadatas := (metadatas s)(?id \<mapsto> md)\<rparr>)"
    "layer_digests (im_manifest md) = ?ls"
    by (rule load_ok [OF _ new(1), of lib env]) (use img in \<open>auto simp: image_ok_def\<close>)
  let ?info = "\<lparr>total_layers = int (length ?ls), untar_layers = 0, ti_conn = tcp\<rparr>"
  define s1 where "s1 = s\<lparr>metadatas := (metadatas s)(?id \<mapsto> md), oc_tasks := (oc_tasks s)(?id \<mapsto> ?info)\<rparr>"
  have fits: "frame_fits (off_req_pb lib) (offload_request ?id ?ls)"
    "length (typed_frame (off_req_pb lib) (off_type kOffload) (offload_request ?id ?ls)) \<le> send_cap (bufpairs c ! i)"
    using img a(3) by (simp_all add: image_ok_def off_msg_ok_def image_request_def)
  have sint: "sint (of_nat (length ?ls) :: 32 word) = int (length ?ls)"
    by (rule sint_of_nat_small) (use img in \<open>simp add: image_ok_def\<close>)
  have fl1: "in_flight (off_frame lib) c (oc_mem s1) (oc_inflight_sends s1) ms" using fl by (simp add: s1_def)
  have fr: "off_frame lib (image_request lib env (metadata_path s) img) = typed_frame (off_req_pb lib) (off_type kOffload) (offload_request ?id ?ls)"
    by (simp add: image_request_def)
  obtain c' M' where p: "OffloadClient_post (off_req_pb lib) kOffload (offload_request ?id ?ls) env s1 (c\<lparr>free_bufpairs := r\<rparr>)
        \<lparr>sb_id = i, sb_addr = send_header (bufpairs c ! i), sb_cap = send_cap (bufpairs c ! i)\<rparr>
      = Inr (True, s1\<lparr>oc_inflight_sends := oc_inflight_sends s1 @ [i], oc_mem := M', oc_wr_id := inc64 (oc_wr_id s1), oc_conn := Some c'\<rparr>)"
    and fl': "in_flight (off_frame lib) c' M' (oc_inflight_sends s1 @ [i]) (ms @ [image_request lib env (metadata_path s) img])"
    and rest': "posts c' = posts c @ [frame_post (off_frame lib) c (i, image_request lib env (metadata_path s) img)]"
      "bufpairs c' = bufpairs c" "free_bufpairs c' = r"
    by (rule post_ok [OF fl1 free fits fr spec [OF err] refl])
  define s' where "s' = s1\<lparr>oc_inflight_sends := oc_inflight_sends s1 @ [i], oc_mem := M', oc_wr_id := inc64 (oc_wr_id s1),
    oc_conn := Some c', pending_tasks := rest\<rparr>"
  have sent: "tryOffloadTask lib env s = Inr (True, s')"
    using pend conn a(1) md new(2) sint p by (simp add: tryOffloadTask_def offloadTaskToDpu_def Let_def s1_def s'_def)
  show ?thesis
    by (rule that [of s' c' _ md, OF sent]) (use fl' rest' in \<open>simp_all add: s'_def s1_def\<close>)
qed

lemma offload_none:
  assumes "oc_conn s = Some c" and "pending_tasks s = [] \<or> free_bufpairs c = []"
  shows "tryOffloadTask lib env s = Inr (True, s)"
proof (cases "pending_tasks s")
  case (Cons t ts)
  with assms have "free_bufpairs c = []" by simp
  from acquire_none [OF this] Cons assms(1) show ?thesis by (simp add: tryOffloadTask_def)
qed (simp add: tryOffloadTask_def)

section \<open>The system\<close>

text \<open>
  \<open>op_sent\<close> and \<open>op_answered\<close> count the sends the cards have read; \<open>op_to_server\<close> and \<open>op_to_client\<close> are the
  messages in transit. \<open>op_pulled\<close> are the images with the connections they are to be answered on,
  \<open>op_results\<close> the images for which a layer has been reported, oldest first.
\<close>

record off_pair =
  op_client :: OffloadClient
  op_sent :: nat
  op_to_server :: "byte list list"
  op_server :: OffloadServer
  op_sconn :: RdmaConnection
  op_answered :: nat
  op_to_client :: "byte list list"
  op_pulled :: "(string \<times> nat) list"
  op_results :: "string list"

abbreviation fetched_layers :: "off_pair \<Rightarrow> string \<Rightarrow> nat" where
  "fetched_layers P img \<equiv> count_list (map snd (os_fetches (op_server P))) img"

text \<open>
  A pull of an image that has not been pulled before; a card reads the next send; the server handles the oldest
  request and the client the oldest answer; a layer that was handed to the fetcher is reported, once for each
  time it was handed over.
\<close>

inductive off_step :: "offload_lib \<Rightarrow> offload_env \<Rightarrow> (TaskInfo \<Rightarrow> nat option) \<Rightarrow> off_pair \<Rightarrow> off_pair \<Rightarrow> bool"
  for lib env freed where
  Pull: "img \<notin> fst ` set (op_pulled P) \<Longrightarrow> oc_conn (op_client P) = Some c \<Longrightarrow>
    image_ok lib env (metadata_path (op_client P)) (bufpairs c) (bufpairs (op_sconn P)) img \<Longrightarrow>
    pullImage lib env (op_client P) img tcp = Inr s' \<Longrightarrow>
    off_step lib env freed P (P\<lparr>op_pulled := op_pulled P @ [(img, tcp)], op_client := s'\<rparr>)"
| Client_card: "oc_conn (op_client P) = Some c \<Longrightarrow> op_sent P < length (posts c) \<Longrightarrow>
    off_step lib env freed P (P\<lparr>op_sent := Suc (op_sent P),
      op_to_server := op_to_server P @ [wire (oc_mem (op_client P)) (posts c ! op_sent P)]\<rparr>)"
| Server_recv: "op_to_server P = m # ms \<Longrightarrow>
    OffloadServer_onRecvSuccess lib env (op_server P, op_sconn P) (m @ junk) (of_nat (length m)) = Inr (sv', sc') \<Longrightarrow>
    off_step lib env freed P (P\<lparr>op_to_server := ms, op_server := sv', op_sconn := sc'\<rparr>)"
| Server_card: "op_answered P < length (posts (op_sconn P)) \<Longrightarrow>
    off_step lib env freed P (P\<lparr>op_answered := Suc (op_answered P),
      op_to_client := op_to_client P @ [wire (os_mem (op_server P)) (posts (op_sconn P) ! op_answered P)]\<rparr>)"
| Client_recv: "op_to_client P = m # ms \<Longrightarrow>
    OffloadClient_onRecvSuccess lib env (op_client P) (m @ junk) (of_nat (length m)) = Inr s' \<Longrightarrow>
    off_step lib env freed P (P\<lparr>op_to_client := ms, op_client := s'\<rparr>)"
| Layer_done: "count_list (op_results P) (ur_image_name_tag r) < fetched_layers P (ur_image_name_tag r) \<Longrightarrow>
    completeTask freed (op_client P) r = Inr s' \<Longrightarrow>
    off_step lib env freed P (P\<lparr>op_client := s', op_results := op_results P @ [ur_image_name_tag r]\<rparr>)"

text \<open>
  The first state: the client is connected and has sent its first message. Sends can be posted, the answers fit, and
  the server has at least as many buffers as the client. Nothing is said about \<open>freed\<close>, what an erased entry reads as.
\<close>

definition off_init :: "offload_lib \<Rightarrow> offload_env \<Rightarrow> off_pair \<Rightarrow> bool" where
  "off_init lib env P \<longleftrightarrow> (\<forall>w. off_post_err env w = 0)
     \<and> (\<exists>path M c. bufs_ok c M [] \<and> posts c = [] \<and> 0 < length (bufpairs c) \<and> length (bufpairs c) \<le> length (bufpairs (op_sconn P))
         \<and> OffloadClient_onConnected lib env (OffloadClient_new path M) c = Inr (op_client P)
         \<and> (\<forall>b \<in> set (bufpairs c). length (off_frame lib (Con_msg \<lparr>dcr_connection = True\<rparr>)) \<le> send_cap b)
         \<and> off_msg_ok lib (bufpairs (op_sconn P)) (Con_msg \<lparr>dcr_connection = True\<rparr>))
     \<and> (\<exists>M. op_server P = OffloadServer_new M \<and> bufs_ok (op_sconn P) M [] \<and> sq (op_sconn P) = [])
     \<and> op_sent P = 0 \<and> op_to_server P = [] \<and> op_answered P = 0 \<and> op_to_client P = [] \<and> op_pulled P = [] \<and> op_results P = []"

section \<open>The invariant\<close>

definition replies_for :: "string \<Rightarrow> (nat \<times> CreateContainerResponse) list \<Rightarrow> (nat \<times> CreateContainerResponse) list" where
  "replies_for img rs = filter (\<lambda>r. snd r = create_response img) rs"

text \<open>The entry of an image on the connection \<open>tcp\<close> when the last of its \<open>n\<close> layers has been counted; it is erased then.\<close>

abbreviation all_done :: "nat \<Rightarrow> nat \<Rightarrow> TaskInfo" where
  "all_done n tcp \<equiv> \<lparr>total_layers = int n, untar_layers = int n, ti_conn = tcp\<rparr>"

text \<open>An image: not yet sent, or sent and on the connection \<open>tcp\<close>; \<open>n\<close> layers, \<open>k\<close> of them reported.\<close>

definition task_at :: "(TaskInfo \<Rightarrow> nat option) \<Rightarrow> OffloadClient \<Rightarrow> string \<Rightarrow> nat \<Rightarrow> nat \<Rightarrow> nat option \<Rightarrow> bool" where
  "task_at freed s img n k at = (case at of
     None \<Rightarrow> k = 0 \<and> oc_tasks s \<lparr>it_id = img\<rparr> = None \<and> metadatas s \<lparr>it_id = img\<rparr> = None \<and> replies_for img (oc_replies s) = []
   | Some tcp \<Rightarrow> k \<le> n
       \<and> oc_tasks s \<lparr>it_id = img\<rparr> = (if k = n then None else Some \<lparr>total_layers = int n, untar_layers = int k, ti_conn = tcp\<rparr>)
       \<and> (if k = n then \<exists>u. freed (all_done n tcp) = Some u \<and> replies_for img (oc_replies s) = [(u, create_response img)]
            else replies_for img (oc_replies s) = []))"

definition first_msg :: off_msg where
  "first_msg = Con_msg \<lparr>dcr_connection = True\<rparr>"

text \<open>
  \<open>old\<close> are the messages the client has an answer to; of the others \<open>R1\<close> have an answer in transit, \<open>R2\<close> an answer the
  card of the server has not read, \<open>R3\<close> are in transit and \<open>R4\<close> not read by the card of the client; \<open>k\<close> images have been sent.
\<close>

definition off_stage ::
  "offload_lib \<Rightarrow> offload_env \<Rightarrow> (TaskInfo \<Rightarrow> nat option) \<Rightarrow> off_pair \<Rightarrow> off_msg list \<Rightarrow> off_msg list \<Rightarrow> off_msg list \<Rightarrow> off_msg list \<Rightarrow> off_msg list \<Rightarrow> nat \<Rightarrow> RdmaConnection \<Rightarrow> bool" where
  "off_stage lib env freed P old R1 R2 R3 R4 k c \<longleftrightarrow>
     (let s = op_client P; path = metadata_path s; ms = first_msg # map (image_request lib env path \<circ> fst) (take k (op_pulled P)) in
      oc_conn s = Some c \<and> in_flight (off_frame lib) c (oc_mem s) (oc_inflight_sends s) (R1 @ R2 @ R3 @ R4)
      \<and> length (posts c) = op_sent P + length R4 \<and> op_to_server P = map (off_frame lib) R3
      \<and> unread (op_sconn P) (os_mem (op_server P)) (op_answered P) (map (off_answer lib) R2)
      \<and> op_to_client P = map (off_answer lib) R1
      \<and> old @ R1 @ R2 @ R3 @ R4 = ms \<and> k \<le> length (op_pulled P)
      \<and> pending_tasks s = map (\<lambda>(img, tcp). \<lparr>oe_image_name_tag = img, oe_conn = tcp\<rparr>) (drop k (op_pulled P))
      \<and> oc_connected s = (old \<noteq> []) \<and> (old = [] \<longrightarrow> k = 0)
      \<and> os_fetches (op_server P) = concat (map msg_fetches (old @ R1 @ R2))
      \<and> distinct (map fst (op_pulled P))
      \<and> (\<forall>img \<in> fst ` set (op_pulled P). image_ok lib env path (bufpairs c) (bufpairs (op_sconn P)) img)
      \<and> off_msg_ok lib (bufpairs (op_sconn P)) first_msg
      \<and> (\<forall>img. task_at freed s img (length (layers_of lib env path img)) (count_list (op_results P) img) (map_of (take k (op_pulled P)) img))
      \<and> 0 < length (bufpairs c) \<and> length (bufpairs c) \<le> length (bufpairs (op_sconn P)))"

definition off_inv :: "offload_lib \<Rightarrow> offload_env \<Rightarrow> (TaskInfo \<Rightarrow> nat option) \<Rightarrow> off_pair \<Rightarrow> bool" where
  "off_inv lib env freed P \<longleftrightarrow> (\<forall>w. off_post_err env w = 0)
     \<and> (\<exists>old R1 R2 R3 R4 k c. off_stage lib env freed P old R1 R2 R3 R4 k c \<and> (k < length (op_pulled P) \<longrightarrow> R1 @ R2 @ R3 @ R4 \<noteq> []))"

section \<open>Every step keeps the invariant\<close>

lemma task_at_cong:
  assumes "oc_tasks s' \<lparr>it_id = img\<rparr> = oc_tasks s \<lparr>it_id = img\<rparr>" and "metadatas s' \<lparr>it_id = img\<rparr> = metadatas s \<lparr>it_id = img\<rparr>"
    and "replies_for img (oc_replies s') = replies_for img (oc_replies s)"
  shows "task_at freed s' img n k at = task_at freed s img n k at"
  using assms by (simp add: task_at_def split: option.split)

text \<open>The client looks whether it can send the next image.\<close>

lemma try_stage:
  assumes st: "off_stage lib env freed P old R1 R2 R3 R4 k c" and conn: "old \<noteq> []" and err: "\<forall>w. off_post_err env w = 0"
  obtains s' R4' k' c' where "tryOffloadTask lib env (op_client P) = Inr (True, s')"
    and "off_stage lib env freed (P\<lparr>op_client := s'\<rparr>) old R1 R2 R3 R4' k' c'" and "k' < length (op_pulled P) \<longrightarrow> R1 @ R2 @ R3 @ R4' \<noteq> []"
    and "metadata_path s' = metadata_path (op_client P)" and "bufpairs c' = bufpairs c"
proof -
  let ?s = "op_client P" and ?pl = "op_pulled P"
  have d: "oc_conn ?s = Some c" "in_flight (off_frame lib) c (oc_mem ?s) (oc_inflight_sends ?s) (R1 @ R2 @ R3 @ R4)"
    "pending_tasks ?s = map (\<lambda>(img, tcp). \<lparr>oe_image_name_tag = img, oe_conn = tcp\<rparr>) (drop k ?pl)" "0 < length (bufpairs c)"
    using st by (simp_all add: off_stage_def Let_def)
  show ?thesis
  proof (cases "pending_tasks ?s = [] \<or> free_bufpairs c = []")
    case True
    have "k < length ?pl \<longrightarrow> R1 @ R2 @ R3 @ R4 \<noteq> []"
      using True in_flight_count [OF d(2)] d(3,4) by auto
    with offload_none [OF d(1) True] st show ?thesis by (intro that [of ?s R4 k c]) simp_all
  next
    case False
    then have "k < length ?pl" using d(3) by auto
    obtain img tcp where x: "?pl ! k = (img, tcp)" by fastforce
    from \<open>k < length ?pl\<close> x have dr: "drop k ?pl = (img, tcp) # drop (Suc k) ?pl" and tk: "take (Suc k) ?pl = take k ?pl @ [(img, tcp)]"
      by (simp_all add: Cons_nth_drop_Suc [symmetric] take_Suc_conv_app_nth)
    from False obtain i r where free: "free_bufpairs c = i # r" by (cases "free_bufpairs c") auto
    have pend: "pending_tasks ?s = \<lparr>oe_image_name_tag = img, oe_conn = tcp\<rparr> # map (\<lambda>(img, tcp). \<lparr>oe_image_name_tag = img, oe_conn = tcp\<rparr>) (drop (Suc k) ?pl)"
      using d(3) dr by simp
    have dist: "distinct (map fst ?pl)" using st by (simp add: off_stage_def Let_def)
    have "img \<notin> fst ` set (take k ?pl)"
    proof -
      have "map fst ?pl = map fst (take k ?pl) @ img # map fst (drop (Suc k) ?pl)" by (metis append_take_drop_id dr fst_conv list.simps(9) map_append)
      with dist show ?thesis by (simp add: distinct_append)
    qed
    then have mo1: "map_of (take k ?pl) img = None" by (simp add: map_of_eq_None_iff)
    have "map_of (take (Suc k) ?pl) j = (if j = img then Some tcp else map_of (take k ?pl) j)" for j
      using mo1 by (simp add: tk map_add_def split: option.split)
    note mo = mo1 this
    have ta: "\<forall>j. task_at freed ?s j (length (layers_of lib env (metadata_path ?s) j)) (count_list (op_results P) j) (map_of (take k ?pl) j)"
      using st by (simp add: off_stage_def Let_def)
    from spec [OF ta, of img] have new: "metadatas ?s \<lparr>it_id = img\<rparr> = None" "oc_tasks ?s \<lparr>it_id = img\<rparr> = None"
      "count_list (op_results P) img = 0" "replies_for img (oc_replies ?s) = []" using mo(1) by (simp_all add: task_at_def)
    have "img \<in> fst ` set ?pl" using dr by (metis fst_conv image_eqI in_set_dropD list.set_intros(1))
    then have ok: "image_ok lib env (metadata_path ?s) (bufpairs c) (bufpairs (op_sconn P)) img" using st unfolding off_stage_def Let_def by blast
    obtain s' c' md p where s': "tryOffloadTask lib env ?s = Inr (True, s')" "oc_conn s' = Some c'"
      "in_flight (off_frame lib) c' (oc_mem s') (oc_inflight_sends s') ((R1 @ R2 @ R3 @ R4) @ [image_request lib env (metadata_path ?s) img])"
      "posts c' = posts c @ [p]" "bufpairs c' = bufpairs c"
      "pending_tasks s' = map (\<lambda>(img, tcp). \<lparr>oe_image_name_tag = img, oe_conn = tcp\<rparr>) (drop (Suc k) ?pl)"
      "oc_connected s' = oc_connected ?s" "metadata_path s' = metadata_path ?s"
      "metadatas s' = (metadatas ?s)(\<lparr>it_id = img\<rparr> \<mapsto> md)" "oc_replies s' = oc_replies ?s"
      "oc_tasks s' = (oc_tasks ?s)(\<lparr>it_id = img\<rparr> \<mapsto>
        \<lparr>total_layers = int (length (layers_of lib env (metadata_path ?s) img)), untar_layers = 0, ti_conn = tcp\<rparr>)"
      by (rule offload_one [OF d(2,1) pend free ok err new(1,2)])
    have ta': "task_at freed s' j (length (layers_of lib env (metadata_path ?s) j)) (count_list (op_results P) j) (map_of (take (Suc k) ?pl) j)" for j
    proof (cases "j = img")
      case True
      with mo(2) new s' ok show ?thesis by (simp add: task_at_def image_ok_def)
    next
      case False
      with s' have "task_at freed s' j n m at = task_at freed ?s j n m at" for n m at by (intro task_at_cong) simp_all
      with False ta mo(2) show ?thesis by simp
    qed
    have "off_stage lib env freed (P\<lparr>op_client := s'\<rparr>) old R1 R2 R3 (R4 @ [image_request lib env (metadata_path ?s) img]) (Suc k) c'"
      using st conn s' ta' tk \<open>k < length ?pl\<close> by (simp add: off_stage_def Let_def)
    then show ?thesis by (rule that [OF s'(1)]) (use s' in simp_all)
  qed
qed

lemma pull_stage:
  assumes st: "off_stage lib env freed P old R1 R2 R3 R4 k c" and more: "k < length (op_pulled P) \<longrightarrow> R1 @ R2 @ R3 @ R4 \<noteq> []"
    and err: "\<forall>w. off_post_err env w = 0" and img: "img \<notin> fst ` set (op_pulled P)"
    and ok: "image_ok lib env (metadata_path (op_client P)) (bufpairs c) (bufpairs (op_sconn P)) img"
  obtains s' R4' k' c' where "pullImage lib env (op_client P) img tcp = Inr s'"
    and "off_stage lib env freed (P\<lparr>op_pulled := op_pulled P @ [(img, tcp)], op_client := s'\<rparr>) old R1 R2 R3 R4' k' c'"
    and "k' < length (op_pulled P @ [(img, tcp)]) \<longrightarrow> R1 @ R2 @ R3 @ R4' \<noteq> []"
proof -
  let ?s = "op_client P"
  define s1 where "s1 = ?s\<lparr>pending_tasks := pending_tasks ?s @ [\<lparr>oe_image_name_tag = img, oe_conn = tcp\<rparr>]\<rparr>"
  define P1 where "P1 = P\<lparr>op_pulled := op_pulled P @ [(img, tcp)], op_client := s1\<rparr>"
  have ta: "task_at freed s1 j n m at = task_at freed ?s j n m at" for j n m at by (rule task_at_cong) (simp_all add: s1_def)
  have st1: "off_stage lib env freed P1 old R1 R2 R3 R4 k c"
    using st img ok ta by (simp add: off_stage_def Let_def P1_def) (simp add: s1_def)
  show ?thesis
  proof (cases "old = []")
    case True
    then have "\<not> oc_connected s1" "R1 @ R2 @ R3 @ R4 \<noteq> []" using st by (auto simp: off_stage_def Let_def s1_def)
    then have "pullImage lib env ?s img tcp = Inr s1" by (simp add: pullImage_def offload_def Let_def flip: s1_def)
    then show ?thesis by (rule that) (use st1 \<open>R1 @ R2 @ R3 @ R4 \<noteq> []\<close> in \<open>auto simp: P1_def\<close>)
  next
    case False
    obtain s' R4' k' c' where t: "tryOffloadTask lib env (op_client P1) = Inr (True, s')"
      "off_stage lib env freed (P1\<lparr>op_client := s'\<rparr>) old R1 R2 R3 R4' k' c'" "k' < length (op_pulled P1) \<longrightarrow> R1 @ R2 @ R3 @ R4' \<noteq> []"
      by (rule try_stage [OF st1 False err])
    have "oc_connected s1" using st False by (simp add: off_stage_def Let_def s1_def)
    then have "pullImage lib env ?s img tcp = Inr s'" using t(1) by (simp add: pullImage_def offload_def Let_def P1_def flip: s1_def)
    then show ?thesis by (rule that) (use t(2,3) in \<open>simp_all add: P1_def\<close>)
  qed
qed

lemma off_client_card_stage:
  assumes st: "off_stage lib env freed P old R1 R2 R3 R4 k c" and n: "op_sent P < length (posts c)"
  shows "\<exists>m R4'. R4 = m # R4' \<and> off_stage lib env freed (P\<lparr>op_sent := Suc (op_sent P),
    op_to_server := op_to_server P @ [wire (oc_mem (op_client P)) (posts c ! op_sent P)]\<rparr>) old R1 R2 (R3 @ [m]) R4' k c"
proof -
  have fl: "in_flight (off_frame lib) c (oc_mem (op_client P)) (oc_inflight_sends (op_client P)) ((R1 @ R2 @ R3) @ R4)"
    and len: "length (posts c) = op_sent P + length R4" using st by (simp_all add: off_stage_def Let_def)
  from in_flight_wire [OF fl len n] obtain m R4' where "R4 = m # R4'" "wire (oc_mem (op_client P)) (posts c ! op_sent P) = off_frame lib m" .
  with st show ?thesis by (intro exI [of _ m] exI [of _ R4']) (simp add: off_stage_def Let_def)
qed

lemma off_server_card_stage:
  assumes st: "off_stage lib env freed P old R1 R2 R3 R4 k c" and n: "op_answered P < length (posts (op_sconn P))"
  shows "\<exists>m R2'. R2 = m # R2' \<and> off_stage lib env freed (P\<lparr>op_answered := Suc (op_answered P),
    op_to_client := op_to_client P @ [wire (os_mem (op_server P)) (posts (op_sconn P) ! op_answered P)]\<rparr>) old (R1 @ [m]) R2' R3 R4 k c"
proof -
  have un: "unread (op_sconn P) (os_mem (op_server P)) (op_answered P) (map (off_answer lib) R2)"
    using st by (simp add: off_stage_def Let_def)
  from unread_card [OF un n] obtain a A where a: "map (off_answer lib) R2 = a # A" "wire (os_mem (op_server P)) (posts (op_sconn P) ! op_answered P) = a"
    "unread (op_sconn P) (os_mem (op_server P)) (Suc (op_answered P)) A" .
  then obtain m R2' where "R2 = m # R2'" "a = off_answer lib m" "A = map (off_answer lib) R2'" by (cases R2) auto
  with st a show ?thesis by (intro exI [of _ m] exI [of _ R2']) (simp add: off_stage_def Let_def)
qed

text \<open>Every message under way can be answered.\<close>

lemma stage_msgs:
  assumes st: "off_stage lib env freed P old R1 R2 R3 R4 k c" and m: "m \<in> set (R1 @ R2 @ R3 @ R4)"
  shows "off_msg_ok lib (bufpairs (op_sconn P)) m"
proof -
  let ?path = "metadata_path (op_client P)"
  have eq: "old @ R1 @ R2 @ R3 @ R4 = first_msg # map (image_request lib env ?path \<circ> fst) (take k (op_pulled P))"
    and ok: "\<forall>img \<in> fst ` set (op_pulled P). image_ok lib env ?path (bufpairs c) (bufpairs (op_sconn P)) img"
      "off_msg_ok lib (bufpairs (op_sconn P)) first_msg"
    using st by (simp_all add: off_stage_def Let_def)
  have "m \<in> set (first_msg # map (image_request lib env ?path \<circ> fst) (take k (op_pulled P)))"
    using m unfolding eq [symmetric] by auto
  then consider "m = first_msg" | img where "img \<in> fst ` set (op_pulled P)" "m = image_request lib env ?path img"
    by (auto dest: in_set_takeD)
  then show ?thesis
  proof cases
    case 2
    with ok(1) show ?thesis unfolding image_ok_def by blast
  qed (use ok(2) in simp)
qed

lemma off_server_recv_stage:
  assumes st: "off_stage lib env freed P old R1 R2 R3 R4 k c" and err: "\<forall>w. off_post_err env w = 0" and to: "op_to_server P = b # bs"
  obtains sv' sc' m R3' where "OffloadServer_onRecvSuccess lib env (op_server P, op_sconn P) (b @ junk) (of_nat (length b)) = Inr (sv', sc')"
    and "R3 = m # R3'" and "off_stage lib env freed (P\<lparr>op_to_server := bs, op_server := sv', op_sconn := sc'\<rparr>) old R1 (R2 @ [m]) R3' R4 k c"
    and "bufpairs sc' = bufpairs (op_sconn P)"
proof -
  have un: "unread (op_sconn P) (os_mem (op_server P)) (op_answered P) (map (off_answer lib) R2)"
    and fl: "in_flight (off_frame lib) c (oc_mem (op_client P)) (oc_inflight_sends (op_client P)) (R1 @ R2 @ R3 @ R4)"
    and R3: "op_to_server P = map (off_frame lib) R3" and le: "length (bufpairs c) \<le> length (bufpairs (op_sconn P))"
    using st by (simp_all add: off_stage_def Let_def)
  from to R3 obtain m R3' where m: "R3 = m # R3'" "b = off_frame lib m" "bs = map (off_frame lib) R3'" by (cases R3) auto
  have room: "length (map (off_answer lib) R2) < length (bufpairs (op_sconn P))"
    using in_flight_count [OF fl] le m(1) by simp
  have okm: "off_msg_ok lib (bufpairs (op_sconn P)) m" by (rule stage_msgs [OF st]) (simp add: m(1))
  then have en: "off_enabled lib env (os_fetches (op_server P)) (bufpairs (op_sconn P)) b" using err m(2) by (auto simp: off_enabled_def)
  obtain sv' sc' r where h: "OffloadServer_onRecvSuccess lib env (op_server P, op_sconn P) (b @ junk) (of_nat (length b)) = Inr (sv', sc')"
    "off_replies lib (os_fetches (op_server P)) b r (os_fetches sv')"
    "unread sc' (os_mem sv') (op_answered P) (map (off_answer lib) R2 @ [r])" "bufpairs sc' = bufpairs (op_sconn P)"
    by (rule off_responder.answer_unread [OF un room en])
  have r: "r = off_answer lib m" "os_fetches sv' = os_fetches (op_server P) @ msg_fetches m"
    using h(2) okm m(2) by (simp_all add: off_replies_def off_msg_ok_def)
  have "off_stage lib env freed (P\<lparr>op_to_server := bs, op_server := sv', op_sconn := sc'\<rparr>) old R1 (R2 @ [m]) R3' R4 k c"
    using st h(3,4) r m by (simp add: off_stage_def Let_def)
  then show ?thesis by (rule that [OF h(1) m(1) _ h(4)])
qed

text \<open>The first message sent is the first answered, and only that answer is of its type.\<close>

lemma stage_head:
  assumes st: "off_stage lib env freed P old (m # R1) R2 R3 R4 k c"
  shows "if old = [] then m = first_msg \<and> k = 0 else \<exists>img. m = image_request lib env (metadata_path (op_client P)) img"
proof -
  have eq: "old @ (m # R1) @ R2 @ R3 @ R4 = first_msg # map (image_request lib env (metadata_path (op_client P)) \<circ> fst) (take k (op_pulled P))"
    and k: "old = [] \<longrightarrow> k = 0" using st by (simp_all add: off_stage_def Let_def)
  show ?thesis
  proof (cases old)
    case (Cons x xs)
    then have "m \<in> set (map (image_request lib env (metadata_path (op_client P)) \<circ> fst) (take k (op_pulled P)))"
      using eq by (metis append_Cons in_set_conv_decomp list.inject)
    with Cons show ?thesis by auto
  qed (use eq k in simp)
qed

lemma answer_recv:
  assumes conn: "oc_conn s = Some c" and fl: "oc_inflight_sends s = i # ids" and fits: "answer_fits lib m"
    and tr: "\<And>t. tryOffloadTask lib env (s\<lparr>oc_conn := Some (RdmaConnection_releaseSendBuf c i), oc_inflight_sends := ids,
      oc_connected := (case m of Con_msg q \<Rightarrow> True | Off_msg q \<Rightarrow> oc_connected s)\<rparr>) = Inr (True, s')"
  shows "OffloadClient_onRecvSuccess lib env s (off_answer lib m @ junk) (of_nat (length (off_answer lib m))) = Inr s'"
proof (cases m)
  case (Con_msg q)
  let ?r = "\<lparr>dcp_connection = True\<rparr>"
  have f: "frame_fits (con_resp_pb lib) ?r" using fits Con_msg by simp
  then have small: "length (typed_frame (con_resp_pb lib) (off_type kDecompressConnection) ?r) < 2 ^ 32"
    using length_typed_frame [OF f] by (simp add: frame_fits_def kFrameHeaderLen_def)
  have "recv_type (typed_frame (con_resp_pb lib) (off_type kDecompressConnection) ?r @ junk) = off_type kDecompressConnection"
    by (rule recv_type_frame [OF off_type_range [THEN conjunct1] off_type_range [THEN conjunct2]])
  with typed_parse [OF f small] conn fl tr Con_msg show ?thesis
    by (simp add: OffloadClient_onRecvSuccess_def handleDecompressConnectionResponse_def Let_def)
next
  case (Off_msg q)
  let ?r = "\<lparr>ofp_image_name_tag = ofr_image_name_tag q, ofp_success = True\<rparr>"
  have f: "frame_fits (off_resp_pb lib) ?r" using fits Off_msg by simp
  then have small: "length (typed_frame (off_resp_pb lib) (off_type kOffload) ?r) < 2 ^ 32"
    using length_typed_frame [OF f] by (simp add: frame_fits_def kFrameHeaderLen_def)
  have "recv_type (typed_frame (off_resp_pb lib) (off_type kOffload) ?r @ junk) = off_type kOffload"
    by (rule recv_type_frame [OF off_type_range [THEN conjunct1] off_type_range [THEN conjunct2]])
  with typed_parse [OF f small] conn fl tr Off_msg show ?thesis
    by (simp add: OffloadClient_onRecvSuccess_def handleOffloadResponse_def Let_def)
qed

lemma off_client_recv_stage:
  assumes st: "off_stage lib env freed P old R1 R2 R3 R4 k c" and err: "\<forall>w. off_post_err env w = 0" and to: "op_to_client P = b # bs"
  obtains s' m R1' R4' k' c' where "OffloadClient_onRecvSuccess lib env (op_client P) (b @ junk) (of_nat (length b)) = Inr s'"
    and "off_stage lib env freed (P\<lparr>op_to_client := bs, op_client := s'\<rparr>) (old @ [m]) R1' R2 R3 R4' k' c'"
    and "k' < length (op_pulled P) \<longrightarrow> R1' @ R2 @ R3 @ R4' \<noteq> []"
    and "metadata_path s' = metadata_path (op_client P)" and "bufpairs c' = bufpairs c"
proof -
  let ?s = "op_client P"
  have R1: "op_to_client P = map (off_answer lib) R1" and conn: "oc_conn ?s = Some c" using st by (simp_all add: off_stage_def Let_def)
  from to R1 obtain m R1' where m: "R1 = m # R1'" "b = off_answer lib m" "bs = map (off_answer lib) R1'" by (cases R1) auto
  have fl: "in_flight (off_frame lib) c (oc_mem ?s) (oc_inflight_sends ?s) (m # R1' @ R2 @ R3 @ R4)"
    using st m(1) by (simp add: off_stage_def Let_def)
  then obtain i ids where i: "oc_inflight_sends ?s = i # ids" by (cases "oc_inflight_sends ?s") (auto simp: in_flight_def)
  define s1 where "s1 = ?s\<lparr>oc_conn := Some (RdmaConnection_releaseSendBuf c i), oc_inflight_sends := ids,
    oc_connected := (case m of Con_msg q \<Rightarrow> True | Off_msg q \<Rightarrow> oc_connected ?s)\<rparr>"
  note rel = in_flight_release [OF fl [unfolded i]]
  have head: "if old = [] then m = first_msg \<and> k = 0 else \<exists>img. m = image_request lib env (metadata_path ?s) img"
    using stage_head st m(1) by metis
  then have on: "oc_connected s1" using st by (auto simp: s1_def first_msg_def off_stage_def Let_def split: if_splits off_msg.split)
  have ta: "task_at freed s1 j n q at = task_at freed ?s j n q at" for j n q at by (rule task_at_cong) (simp_all add: s1_def)
  have st1: "off_stage lib env freed (P\<lparr>op_to_client := bs, op_client := s1\<rparr>) (old @ [m]) R1' R2 R3 R4 k (RdmaConnection_releaseSendBuf c i)"
    using st m rel on ta unfolding off_stage_def Let_def by (simp add: s1_def)
  obtain s' R4' k' c' where t: "tryOffloadTask lib env (op_client (P\<lparr>op_to_client := bs, op_client := s1\<rparr>)) = Inr (True, s')"
    "off_stage lib env freed ((P\<lparr>op_to_client := bs, op_client := s1\<rparr>)\<lparr>op_client := s'\<rparr>) (old @ [m]) R1' R2 R3 R4' k' c'"
    "k' < length (op_pulled (P\<lparr>op_to_client := bs, op_client := s1\<rparr>)) \<longrightarrow> R1' @ R2 @ R3 @ R4' \<noteq> []"
    "metadata_path s' = metadata_path (op_client (P\<lparr>op_to_client := bs, op_client := s1\<rparr>))" "bufpairs c' = bufpairs (RdmaConnection_releaseSendBuf c i)"
    by (rule try_stage [OF st1 _ err]) simp_all
  have "answer_fits lib m" using stage_msgs [OF st, of m] m(1) by (simp add: off_msg_ok_def)
  from answer_recv [OF conn i this, of env s' junk] t(1)
  have "OffloadClient_onRecvSuccess lib env ?s (b @ junk) (of_nat (length b)) = Inr s'" by (simp add: m(2) s1_def)
  then show ?thesis by (rule that [of s' m R1' R4' k' c']) (use t(2-5) in \<open>simp_all add: s1_def\<close>)
qed

text \<open>The layers handed to the fetcher.\<close>

abbreviation image_fetches :: "offload_lib \<Rightarrow> offload_env \<Rightarrow> string \<Rightarrow> string \<Rightarrow> (string \<times> string) list" where
  "image_fetches lib env path img \<equiv> map (\<lambda>l. (l, img)) (layers_of lib env path img)"

lemma stage_fetches:
  assumes st: "off_stage lib env freed P old R1 R2 R3 R4 k c"
  shows "\<exists>j \<le> k. os_fetches (op_server P) = concat (map (image_fetches lib env (metadata_path (op_client P)) \<circ> fst) (take j (op_pulled P)))
    \<and> (R3 @ R4 = [] \<longrightarrow> j = k)"
proof -
  let ?path = "metadata_path (op_client P)" and ?n = "length (old @ R1 @ R2)"
  let ?ms = "first_msg # map (image_request lib env ?path \<circ> fst) (take k (op_pulled P))"
  have eq: "old @ R1 @ R2 @ R3 @ R4 = ?ms" and f: "os_fetches (op_server P) = concat (map msg_fetches (old @ R1 @ R2))"
    and k: "k \<le> length (op_pulled P)" using st by (simp_all add: off_stage_def Let_def)
  have H: "old @ R1 @ R2 = take ?n ?ms" unfolding eq [symmetric] by simp
  have fm: "concat (map msg_fetches (map (image_request lib env ?path \<circ> fst) xs)) = concat (map (image_fetches lib env ?path \<circ> fst) xs)"
    for xs :: "(string \<times> nat) list" by (induction xs) (simp_all add: image_request_def offload_request_def)
  have "concat (map msg_fetches (take n ?ms)) = concat (map (image_fetches lib env ?path \<circ> fst) (take (min (n - 1) k) (op_pulled P)))" for n
    by (cases n) (simp_all add: first_msg_def take_map min.commute flip: fm)
  then have "os_fetches (op_server P) = concat (map (image_fetches lib env ?path \<circ> fst) (take (min (?n - 1) k) (op_pulled P)))"
    using f H by metis
  moreover have "min (?n - 1) k = k" if "R3 @ R4 = []"
    using that arg_cong [OF eq, of length] k by simp
  ultimately show ?thesis by (intro exI [of _ "min (?n - 1) k"]) simp
qed

lemma count_fetches:
  assumes "distinct (map fst pl)"
  shows "count_list (map snd (concat (map (image_fetches lib env path \<circ> fst) pl))) img
    = (if img \<in> fst ` set pl then length (layers_of lib env path img) else 0)"
  using assms
proof (induction pl)
  case (Cons x pl)
  have "count_list (map snd (image_fetches lib env path j)) img = (if j = img then length (layers_of lib env path img) else 0)" for j
    by (simp add: count_list_eq_length_filter o_def filter_True map_replicate_const)
  with Cons show ?case by (auto simp: o_def)
qed simp

text \<open>A layer that was handed to the fetcher and is reported belongs to a task.\<close>

lemma fetched_task:
  assumes st: "off_stage lib env freed P old R1 R2 R3 R4 k c"
    and guard: "count_list (op_results P) img < fetched_layers P img"
    and n: "n = length (layers_of lib env (metadata_path (op_client P)) img)"
  obtains tcp where "(img, tcp) \<in> set (op_pulled P)" and "map_of (take k (op_pulled P)) img = Some tcp"
    and "count_list (op_results P) img < n" and "n < 2 ^ 31" and "replies_for img (oc_replies (op_client P)) = []"
    and "oc_tasks (op_client P) \<lparr>it_id = img\<rparr> = Some \<lparr>total_layers = int n, untar_layers = int (count_list (op_results P) img), ti_conn = tcp\<rparr>"
proof -
  let ?s = "op_client P" and ?pl = "op_pulled P"
  let ?path = "metadata_path ?s" let ?n = "\<lambda>j. length (layers_of lib env ?path j)" and ?c = "count_list (op_results P)"
  have d: "distinct (map fst ?pl)" and ta: "\<forall>j. task_at freed ?s j (?n j) (?c j) (map_of (take k ?pl) j)"
    and ok: "\<forall>j \<in> fst ` set ?pl. image_ok lib env ?path (bufpairs c) (bufpairs (op_sconn P)) j"
    using st unfolding off_stage_def Let_def by blast+
  obtain j where j: "j \<le> k" "os_fetches (op_server P) = concat (map (image_fetches lib env ?path \<circ> fst) (take j ?pl))"
    using stage_fetches [OF st] by blast
  have "distinct (map fst (take j ?pl))" using d by (metis distinct_take take_map)
  from count_fetches [OF this] guard j(2) have img: "img \<in> fst ` set (take j ?pl)" and lt: "?c img < ?n img" by (auto split: if_splits)
  then obtain tcp where tcp: "map_of (take k ?pl) img = Some tcp"
    using j(1) by (metis (no_types, lifting) image_mono map_of_eq_None_iff not_None_eq set_take_subset_set_take subsetD)
  have "img \<in> fst ` set ?pl" using img by (metis image_mono set_take_subset subsetD)
  then have big: "?n img < 2 ^ 31" using ok unfolding image_ok_def by blast
  have t: "oc_tasks ?s \<lparr>it_id = img\<rparr> = Some \<lparr>total_layers = int (?n img), untar_layers = int (?c img), ti_conn = tcp\<rparr>"
    "replies_for img (oc_replies ?s) = []" using spec [OF ta, of img] tcp lt by (simp_all add: task_at_def)
  have "(img, tcp) \<in> set ?pl" using tcp by (meson in_set_takeD map_of_SomeD)
  then show ?thesis by (rule that) (use tcp t lt big n in simp_all)
qed

text \<open>The last layer reads the erased entry; it is the only one that can fail.\<close>

lemma completeTask_fetched:
  assumes "oc_tasks s \<lparr>it_id = ur_image_name_tag r\<rparr> = Some \<lparr>total_layers = int n, untar_layers = int k, ti_conn = tcp\<rparr>"
    and "k < n" and "n < 2 ^ 31"
  shows "completeTask freed s r = (if Suc k = n
    then (case freed (all_done n tcp) of None \<Rightarrow> Inl Undefined_behaviour
      | Some u \<Rightarrow> Inr (s\<lparr>oc_tasks := (oc_tasks s)(\<lparr>it_id = ur_image_name_tag r\<rparr> := None),
          oc_replies := oc_replies s @ [(u, create_response (ur_image_name_tag r))]\<rparr>))
    else Inr (s\<lparr>oc_tasks := (oc_tasks s)(\<lparr>it_id = ur_image_name_tag r\<rparr> \<mapsto> \<lparr>total_layers = int n, untar_layers = int (Suc k), ti_conn = tcp\<rparr>)\<rparr>))"
proof -
  have k: "int k < 2 ^ 31 - 1" using assms(2,3) by simp
  show ?thesis
  proof (cases "Suc k = n")
    case True
    then have "int n = int k + 1" by simp
    with True k assms(1) show ?thesis by (simp add: completeTask_def Let_def defined_if_def add.commute)
  next
    case False
    then have "int k + 1 \<noteq> int n" by linarith
    with False k assms(1) show ?thesis by (simp add: completeTask_def Let_def defined_if_def add.commute)
  qed
qed

lemma layer_done_stage:
  assumes st: "off_stage lib env freed P old R1 R2 R3 R4 k c"
    and guard: "count_list (op_results P) (ur_image_name_tag r) < fetched_layers P (ur_image_name_tag r)"
    and run: "completeTask freed (op_client P) r = Inr s'"
  shows "off_stage lib env freed (P\<lparr>op_client := s', op_results := op_results P @ [ur_image_name_tag r]\<rparr>) old R1 R2 R3 R4 k c"
proof -
  let ?s = "op_client P" and ?img = "ur_image_name_tag r" and ?pl = "op_pulled P"
  let ?n = "\<lambda>j. length (layers_of lib env (metadata_path ?s) j)" and ?c = "count_list (op_results P)"
  obtain tcp where t: "map_of (take k ?pl) ?img = Some tcp" "?c ?img < ?n ?img" "?n ?img < 2 ^ 31" "replies_for ?img (oc_replies ?s) = []"
    "oc_tasks ?s \<lparr>it_id = ?img\<rparr> = Some \<lparr>total_layers = int (?n ?img), untar_layers = int (?c ?img), ti_conn = tcp\<rparr>"
    by (rule fetched_task [OF st guard refl])
  have ta: "\<forall>j. task_at freed ?s j (?n j) (?c j) (map_of (take k ?pl) j)" using st unfolding off_stage_def Let_def by blast
  from run completeTask_fetched [OF t(5,2,3), of freed] obtain u where "Suc (?c ?img) = ?n ?img \<longrightarrow> freed (all_done (?n ?img) tcp) = Some u"
    and s': "s' = (if Suc (?c ?img) = ?n ?img
      then ?s\<lparr>oc_tasks := (oc_tasks ?s)(\<lparr>it_id = ?img\<rparr> := None), oc_replies := oc_replies ?s @ [(u, create_response ?img)]\<rparr>
      else ?s\<lparr>oc_tasks := (oc_tasks ?s)(\<lparr>it_id = ?img\<rparr> \<mapsto> \<lparr>total_layers = int (?n ?img), untar_layers = int (Suc (?c ?img)), ti_conn = tcp\<rparr>)\<rparr>)"
    by (auto split: if_splits option.splits)
  note u = this(1)
  have other: "replies_for i (oc_replies s') = replies_for i (oc_replies ?s)" "oc_tasks s' \<lparr>it_id = i\<rparr> = oc_tasks ?s \<lparr>it_id = i\<rparr>" if "i \<noteq> ?img" for i
    using that by (auto simp: s' replies_for_def create_response_def)
  have same: "oc_conn s' = oc_conn ?s" "oc_mem s' = oc_mem ?s" "oc_inflight_sends s' = oc_inflight_sends ?s" "pending_tasks s' = pending_tasks ?s"
    "oc_connected s' = oc_connected ?s" "metadata_path s' = metadata_path ?s" "metadatas s' = metadatas ?s" by (simp_all add: s')
  have ta': "task_at freed s' i (?n i) (count_list (op_results P @ [?img]) i) (map_of (take k ?pl) i)" for i
  proof (cases "i = ?img")
    case True
    with t u show ?thesis by (auto simp: task_at_def s' replies_for_def)
  next
    case False
    with other [OF False] same(7) have "task_at freed s' i n m at = task_at freed ?s i n m at" for n m at by (intro task_at_cong) simp_all
    with False ta show ?thesis by simp
  qed
  show ?thesis using st same ta' unfolding off_stage_def Let_def by simp
qed

lemma off_step_inv:
  assumes inv: "off_inv lib env freed P" and st: "off_step lib env freed P P'"
  shows "off_inv lib env freed P'"
proof -
  from inv obtain old R1 R2 R3 R4 k c where err: "\<forall>w. off_post_err env w = 0"
    and S: "off_stage lib env freed P old R1 R2 R3 R4 k c" and more: "k < length (op_pulled P) \<longrightarrow> R1 @ R2 @ R3 @ R4 \<noteq> []"
    by (auto simp: off_inv_def)
  have conn: "oc_conn (op_client P) = Some c" using S by (simp add: off_stage_def Let_def)
  have "\<exists>old R1 R2 R3 R4 k c. off_stage lib env freed P' old R1 R2 R3 R4 k c \<and> (k < length (op_pulled P') \<longrightarrow> R1 @ R2 @ R3 @ R4 \<noteq> [])"
    using st
  proof cases
    case (Pull img c2 tcp s')
    then have "c2 = c" using conn by simp
    with Pull obtain s'' R4' k' c' where "pullImage lib env (op_client P) img tcp = Inr s''"
      "off_stage lib env freed (P\<lparr>op_pulled := op_pulled P @ [(img, tcp)], op_client := s''\<rparr>) old R1 R2 R3 R4' k' c'"
      "k' < length (op_pulled P @ [(img, tcp)]) \<longrightarrow> R1 @ R2 @ R3 @ R4' \<noteq> []"
      using pull_stage [OF S more err] by metis
    with Pull show ?thesis by (intro exI) auto
  next
    case (Client_card c2)
    with conn off_client_card_stage [OF S] more show ?thesis by fastforce
  next
    case (Server_recv m ms junk sv' sc')
    obtain sv'' sc'' x R3' where "OffloadServer_onRecvSuccess lib env (op_server P, op_sconn P) (m @ junk) (of_nat (length m)) = Inr (sv'', sc'')"
      "R3 = x # R3'" "off_stage lib env freed (P\<lparr>op_to_server := ms, op_server := sv'', op_sconn := sc''\<rparr>) old R1 (R2 @ [x]) R3' R4 k c"
      by (rule off_server_recv_stage [OF S err Server_recv(2)])
    with Server_recv show ?thesis by (intro exI) auto
  next
    case Server_card
    with off_server_card_stage [OF S] more show ?thesis by fastforce
  next
    case (Client_recv m ms junk s')
    obtain s'' x R1' R4' k' c' where "OffloadClient_onRecvSuccess lib env (op_client P) (m @ junk) (of_nat (length m)) = Inr s''"
      "off_stage lib env freed (P\<lparr>op_to_client := ms, op_client := s''\<rparr>) (old @ [x]) R1' R2 R3 R4' k' c'"
      "k' < length (op_pulled P) \<longrightarrow> R1' @ R2 @ R3 @ R4' \<noteq> []"
      by (rule off_client_recv_stage [OF S err Client_recv(2)])
    with Client_recv show ?thesis by (intro exI) auto
  next
    case (Layer_done r s')
    with layer_done_stage [OF S Layer_done(2,3)] more show ?thesis by (intro exI) auto
  qed
  with err show ?thesis unfolding off_inv_def by blast
qed

lemma off_init_stage:
  assumes "off_init lib env P"
  shows "\<exists>c. off_stage lib env freed P [] [] [] [] [first_msg] 0 c \<and> (\<exists>c0 path M. bufpairs c = bufpairs c0 \<and> metadata_path (op_client P) = path
    \<and> OffloadClient_onConnected lib env (OffloadClient_new path M) c0 = Inr (op_client P))"
proof -
  from assms obtain path M c SM where c: "bufs_ok c M []" "posts c = []" "0 < length (bufpairs c)" "length (bufpairs c) \<le> length (bufpairs (op_sconn P))"
      "OffloadClient_onConnected lib env (OffloadClient_new path M) c = Inr (op_client P)"
      "\<forall>b \<in> set (bufpairs c). length (off_frame lib first_msg) \<le> send_cap b" "off_msg_ok lib (bufpairs (op_sconn P)) first_msg"
    and sv: "op_server P = OffloadServer_new SM" "bufs_ok (op_sconn P) SM []" "sq (op_sconn P) = []"
    and err: "\<forall>w. off_post_err env w = 0"
    and P: "op_sent P = 0" "op_to_server P = []" "op_answered P = 0" "op_to_client P = []" "op_pulled P = []" "op_results P = []"
    unfolding off_init_def first_msg_def by blast
  define s where "s = OffloadClient_new path M"
  obtain i r where free: "free_bufpairs c = i # r" using bufs_ok_free [OF c(1)] c(3) by (cases "free_bufpairs c") auto
  note a = acquire_first [OF c(1) free]
  have fl: "in_flight (off_frame lib) c (oc_mem s) (oc_inflight_sends s) []" using c(1) by (simp add: s_def OffloadClient_new_def in_flight_def)
  have fits: "frame_fits (con_req_pb lib) \<lparr>dcr_connection = True\<rparr>"
    "length (typed_frame (con_req_pb lib) (off_type kDecompressConnection) \<lparr>dcr_connection = True\<rparr>) \<le> send_cap (bufpairs c ! i)"
    using c(6,7) a(3) by (simp_all add: first_msg_def off_msg_ok_def)
  have fr: "off_frame lib first_msg = typed_frame (con_req_pb lib) (off_type kDecompressConnection) \<lparr>dcr_connection = True\<rparr>"
    by (simp add: first_msg_def)
  obtain c' M' where p: "OffloadClient_post (con_req_pb lib) kDecompressConnection \<lparr>dcr_connection = True\<rparr> env s (c\<lparr>free_bufpairs := r\<rparr>)
        \<lparr>sb_id = i, sb_addr = send_header (bufpairs c ! i), sb_cap = send_cap (bufpairs c ! i)\<rparr>
      = Inr (True, s\<lparr>oc_inflight_sends := oc_inflight_sends s @ [i], oc_mem := M', oc_wr_id := inc64 (oc_wr_id s), oc_conn := Some c'\<rparr>)"
    and q: "in_flight (off_frame lib) c' M' (oc_inflight_sends s @ [i]) ([] @ [first_msg])"
      "posts c' = posts c @ [frame_post (off_frame lib) c (i, first_msg)]" "bufpairs c' = bufpairs c" "free_bufpairs c' = r"
    by (rule post_ok [OF fl free fits fr spec [OF err] refl])
  have cl: "op_client P = s\<lparr>oc_inflight_sends := oc_inflight_sends s @ [i], oc_mem := M', oc_wr_id := inc64 (oc_wr_id s), oc_conn := Some c'\<rparr>"
    using c(5) a(1) p by (simp add: OffloadClient_onConnected_def s_def)
  have un: "unread (op_sconn P) (os_mem (op_server P)) 0 []" using unread_start [OF sv(2,3)] sv(1) by (simp add: OffloadServer_new_def)
  have "off_stage lib env freed P [] [] [] [] [first_msg] 0 c'"
    using P q un sv(1) c(2,3,4,7) unfolding off_stage_def Let_def cl
    by (simp add: s_def OffloadClient_new_def OffloadServer_new_def task_at_def replies_for_def)
  moreover have "metadata_path (op_client P) = path" by (simp add: cl s_def OffloadClient_new_def)
  ultimately show ?thesis using q(3) c(5) by blast
qed

lemma off_init_inv:
  assumes "off_init lib env P"
  shows "off_inv lib env freed P"
proof -
  have "op_pulled P = []" "\<forall>w. off_post_err env w = 0" using assms by (auto simp: off_init_def)
  moreover obtain c where "off_stage lib env freed P [] [] [] [] [first_msg] 0 c" using off_init_stage [OF assms, of freed] by blast
  ultimately show ?thesis unfolding off_inv_def by (intro conjI exI) auto
qed

interpretation off_sys: invariant_system "off_init lib env" "off_step lib env freed" "off_inv lib env freed"
  by unfold_locales (blast intro: off_init_inv off_step_inv)+

section \<open>Pulls\<close>

text \<open>
  C5. The offload client, the offload server, both cards and the untar results, from a connection whose sends can be posted and a server
  with at least as many buffers as the client, when each image is pulled once, its metadata loads, it has at least one layer and its
  request fits into the buffers. In every state they can reach the layers handed
  to the content fetcher are those of the first images pulled, in the order of the pulls, each once; they are those of all images pulled
  when the client is connected and waits for no answer. No message makes a side fail. The report of a fetched layer finds
  the entry of its pull; only the report of the last layer of an image can fail, and does exactly when the entry, which is read after it has
  been erased, cannot be read. A pull has no answer before every layer of its image has been reported, and one answer then: it goes to the
  connection that the erased entry reads as, which is the connection of the pull if the entry still reads as it was.
\<close>

theorem pulls_answered_once:
  assumes "off_init lib env P0" and "(off_step lib env freed)\<^sup>*\<^sup>* P0 P" and path: "path = metadata_path (op_client P)"
  shows "(\<exists>j \<le> length (op_pulled P). os_fetches (op_server P) = concat (map (image_fetches lib env path \<circ> fst) (take j (op_pulled P)))
        \<and> (oc_connected (op_client P) \<and> oc_inflight_sends (op_client P) = [] \<longrightarrow> j = length (op_pulled P)))
    \<and> (\<forall>m ms junk. op_to_server P = m # ms \<longrightarrow>
        (\<exists>r. OffloadServer_onRecvSuccess lib env (op_server P, op_sconn P) (m @ junk) (of_nat (length m)) = Inr r))
    \<and> (\<forall>m ms junk. op_to_client P = m # ms \<longrightarrow>
        (\<exists>s. OffloadClient_onRecvSuccess lib env (op_client P) (m @ junk) (of_nat (length m)) = Inr s))
    \<and> (\<forall>r img n. img = ur_image_name_tag r \<and> n = length (layers_of lib env path img) \<and> count_list (op_results P) img < fetched_layers P img \<longrightarrow>
        (\<exists>tcp. (img, tcp) \<in> set (op_pulled P) \<and>
          (if Suc (count_list (op_results P) img) = n \<and> freed (all_done n tcp) = None
           then completeTask freed (op_client P) r = Inl Undefined_behaviour else \<exists>s. completeTask freed (op_client P) r = Inr s)))
    \<and> (\<forall>(img, tcp) \<in> set (op_pulled P). let n = length (layers_of lib env path img) in
        if count_list (op_results P) img = n
        then \<exists>u. freed (all_done n tcp) = Some u \<and> replies_for img (oc_replies (op_client P)) = [(u, create_response img)]
        else replies_for img (oc_replies (op_client P)) = [])"
proof -
  from off_sys.reachable_inv [OF assms(1,2)] obtain old R1 R2 R3 R4 k c where err: "\<forall>w. off_post_err env w = 0" and S: "off_stage lib env freed P old R1 R2 R3 R4 k c"
    and more: "k < length (op_pulled P) \<longrightarrow> R1 @ R2 @ R3 @ R4 \<noteq> []" by (auto simp: off_inv_def)
  have fl: "length (R1 @ R2 @ R3 @ R4) = length (oc_inflight_sends (op_client P))" and k: "k \<le> length (op_pulled P)"
    and d: "distinct (map fst (op_pulled P))"
    and ok: "\<forall>img \<in> fst ` set (op_pulled P). image_ok lib env path (bufpairs c) (bufpairs (op_sconn P)) img"
    and ta: "\<forall>img. task_at freed (op_client P) img (length (layers_of lib env path img)) (count_list (op_results P) img) (map_of (take k (op_pulled P)) img)"
    using S path unfolding off_stage_def Let_def in_flight_def by blast+
  obtain j where j: "j \<le> k" "os_fetches (op_server P) = concat (map (image_fetches lib env path \<circ> fst) (take j (op_pulled P)))"
    "R3 @ R4 = [] \<longrightarrow> j = k" using stage_fetches [OF S] path by blast
  have "oc_inflight_sends (op_client P) = [] \<longrightarrow> j = length (op_pulled P)" using j(3) more k fl by auto
  moreover have "let n = length (layers_of lib env path img) in if count_list (op_results P) img = n
      then \<exists>u. freed (all_done n tcp) = Some u \<and> replies_for img (oc_replies (op_client P)) = [(u, create_response img)]
      else replies_for img (oc_replies (op_client P)) = []"
    if x: "(img, tcp) \<in> set (op_pulled P)" for img tcp
  proof -
    have ne: "layers_of lib env path img \<noteq> []" using ok x unfolding image_ok_def by force
    have "map_of (take k (op_pulled P)) img \<in> {None, Some tcp}"
    proof (cases "map_of (take k (op_pulled P)) img")
      case (Some u)
      then have "(img, u) \<in> set (op_pulled P)" by (meson in_set_takeD map_of_SomeD)
      with x d have "u = tcp" by (metis eq_key_imp_eq_value)
      with Some show ?thesis by simp
    qed simp
    with spec [OF ta, of img] ne show ?thesis by (auto simp: task_at_def Let_def)
  qed
  moreover have "\<exists>r. OffloadServer_onRecvSuccess lib env (op_server P, op_sconn P) (m @ junk) (of_nat (length m)) = Inr r"
    if "op_to_server P = m # ms" for m ms junk using off_server_recv_stage [OF S err that, of junk] by blast
  moreover have "\<exists>s. OffloadClient_onRecvSuccess lib env (op_client P) (m @ junk) (of_nat (length m)) = Inr s"
    if "op_to_client P = m # ms" for m ms junk using off_client_recv_stage [OF S err that, of junk] by blast
  moreover have "\<exists>tcp. (img, tcp) \<in> set (op_pulled P) \<and>
      (if Suc (count_list (op_results P) img) = n \<and> freed (all_done n tcp) = None
       then completeTask freed (op_client P) r = Inl Undefined_behaviour else \<exists>s. completeTask freed (op_client P) r = Inr s)"
    if h: "img = ur_image_name_tag r" "n = length (layers_of lib env path img)" "count_list (op_results P) img < fetched_layers P img" for r img n
  proof -
    obtain tcp where t: "(img, tcp) \<in> set (op_pulled P)" "count_list (op_results P) img < n" "n < 2 ^ 31"
      "oc_tasks (op_client P) \<lparr>it_id = img\<rparr> = Some \<lparr>total_layers = int n, untar_layers = int (count_list (op_results P) img), ti_conn = tcp\<rparr>"
      by (rule fetched_task [OF S h(3) h(2) [unfolded path]])
    from completeTask_fetched [OF t(4) [unfolded h(1)] t(2) [unfolded h(1)] t(3), of freed] t(1)
    show ?thesis by (intro exI [of _ tcp]) (auto simp: h(1) split: option.split)
  qed
  moreover have "\<exists>j \<le> length (op_pulled P). os_fetches (op_server P) = concat (map (image_fetches lib env path \<circ> fst) (take j (op_pulled P)))
      \<and> (oc_connected (op_client P) \<and> oc_inflight_sends (op_client P) = [] \<longrightarrow> j = length (op_pulled P))"
    using calculation(1) j(1,2) k by (intro exI [of _ j]) simp
  ultimately show ?thesis by blast
qed

section \<open>A run\<close>

text \<open>The first message is answered.\<close>

lemma run_connects:
  assumes st: "off_stage lib env freed P [] [] [] [] [first_msg] 0 c" and err: "\<forall>w. off_post_err env w = 0" and pl: "op_pulled P = []"
  obtains Q m c' where "(off_step lib env freed)\<^sup>*\<^sup>* P Q" and "off_stage lib env freed Q [m] [] [] [] [] 0 c'" and "op_pulled Q = []" and "op_results Q = op_results P"
    and "metadata_path (op_client Q) = metadata_path (op_client P)" and "bufpairs c' = bufpairs c" and "bufpairs (op_sconn Q) = bufpairs (op_sconn P)"
proof -
  have "oc_conn (op_client P) = Some c" "op_sent P < length (posts c)" using st by (simp_all add: off_stage_def Let_def)
  from Client_card [OF this, of lib env freed] off_client_card_stage [OF st this(2)] obtain P1 where
    P1: "off_step lib env freed P P1" "off_stage lib env freed P1 [] [] [] [first_msg] [] 0 c" "op_pulled P1 = []" "op_results P1 = op_results P"
      "op_client P1 = op_client P" "op_sconn P1 = op_sconn P" using pl by auto
  then have "op_to_server P1 = off_frame lib first_msg # []" by (simp add: off_stage_def Let_def)
  obtain sv sc m R3' where h: "OffloadServer_onRecvSuccess lib env (op_server P1, op_sconn P1) (off_frame lib first_msg @ []) (of_nat (length (off_frame lib first_msg))) = Inr (sv, sc)"
    "[first_msg] = m # R3'" "off_stage lib env freed (P1\<lparr>op_to_server := [], op_server := sv, op_sconn := sc\<rparr>) [] [] ([] @ [m]) R3' [] 0 c"
    "bufpairs sc = bufpairs (op_sconn P1)"
    by (rule off_server_recv_stage [OF P1(2) err \<open>op_to_server P1 = _\<close>])
  define P2 where "P2 = P1\<lparr>op_to_server := [], op_server := sv, op_sconn := sc\<rparr>"
  have P2: "off_step lib env freed P1 P2" "off_stage lib env freed P2 [] [] [first_msg] [] [] 0 c" "op_pulled P2 = []" "op_client P2 = op_client P"
    using Server_recv [OF \<open>op_to_server P1 = _\<close> h(1), of freed] h(2,3) P1 by (simp_all add: P2_def)
  have "length (posts (op_sconn P2)) = op_answered P2 + 1"
    using P2(2) unread_posts [of "op_sconn P2" "os_mem (op_server P2)" "op_answered P2" "[off_answer lib first_msg]"] by (simp add: off_stage_def Let_def)
  then have lt: "op_answered P2 < length (posts (op_sconn P2))" by simp
  from Server_card [OF lt, of lib env freed] off_server_card_stage [OF P2(2) lt] obtain P3 where
    P3: "off_step lib env freed P2 P3" "off_stage lib env freed P3 [] [first_msg] [] [] [] 0 c" "op_pulled P3 = []" "op_client P3 = op_client P"
      "op_results P3 = op_results P" "op_sconn P3 = op_sconn P2" using P2 P1 by (auto simp: P2_def)
  then have to: "op_to_client P3 = off_answer lib first_msg # []" by (simp add: off_stage_def Let_def)
  obtain s' m' R1' R4' k' c' where g: "OffloadClient_onRecvSuccess lib env (op_client P3) (off_answer lib first_msg @ []) (of_nat (length (off_answer lib first_msg))) = Inr s'"
    "off_stage lib env freed (P3\<lparr>op_to_client := [], op_client := s'\<rparr>) ([] @ [m']) R1' [] [] R4' k' c'" "k' < length (op_pulled P3) \<longrightarrow> R1' @ [] @ [] @ R4' \<noteq> []"
    "metadata_path s' = metadata_path (op_client P3)" "bufpairs c' = bufpairs c"
    by (rule off_client_recv_stage [OF P3(2) err to])
  define Q where "Q = P3\<lparr>op_to_client := [], op_client := s'\<rparr>"
  have "[m'] @ R1' @ R4' = [first_msg]" "k' = 0" using g(2) P3(3) by (simp_all add: off_stage_def Let_def)
  then have Q: "off_stage lib env freed Q [m'] [] [] [] [] 0 c'" using g(2) by (simp add: Q_def)
  have "off_step lib env freed P3 Q" unfolding Q_def by (rule Client_recv [OF to g(1)])
  then have "(off_step lib env freed)\<^sup>*\<^sup>* P Q" using P1(1) P2(1) P3(1) by (meson converse_rtranclp_into_rtranclp rtranclp.rtrancl_refl)
  then show thesis by (rule that [OF _ Q]) (use P3 g(4,5) h(4) P1(6) in \<open>simp_all add: Q_def P2_def\<close>)
qed

text \<open>An image of one layer is pulled, and its layer reported.\<close>

lemma run_pulls:
  assumes st: "off_stage lib env freed P [m] [] [] [] [] 0 c" and err: "\<forall>w. off_post_err env w = 0" and freed: "\<forall>t. freed t = Some (ti_conn t)"
    and P: "op_pulled P = []" "op_results P = []"
    and img: "image_ok lib env (metadata_path (op_client P)) (bufpairs c) (bufpairs (op_sconn P)) img"
      "\<And>path. layers_of lib env path img = [l]"
  obtains Q where "(off_step lib env freed)\<^sup>*\<^sup>* P Q" and "op_pulled Q = [(img, tcp)]" and "op_results Q = [img]"
proof -
  have conn: "oc_conn (op_client P) = Some c" using st by (simp add: off_stage_def Let_def)
  obtain s1 R4 k c1 where p: "pullImage lib env (op_client P) img tcp = Inr s1"
    "off_stage lib env freed (P\<lparr>op_pulled := op_pulled P @ [(img, tcp)], op_client := s1\<rparr>) [m] [] [] [] R4 k c1"
    "k < length (op_pulled P @ [(img, tcp)]) \<longrightarrow> [] @ [] @ [] @ R4 \<noteq> []"
    by (rule pull_stage [OF st _ err _ img(1)]) (simp_all add: P)
  define P1 where "P1 = P\<lparr>op_pulled := [(img, tcp)], op_client := s1\<rparr>"
  have P1: "off_step lib env freed P P1" using Pull [OF _ conn img(1) p(1), of freed] P by (simp add: P1_def)
  have st1: "off_stage lib env freed P1 [m] [] [] [] R4 k c1" using p(2) P by (simp add: P1_def)
  then have eq: "m # R4 = first_msg # map (image_request lib env (metadata_path s1) \<circ> fst) (take k [(img, tcp)])" and "k \<le> 1"
    by (simp_all add: off_stage_def Let_def P1_def)
  with p(3) P have k: "k = 1" "R4 = [image_request lib env (metadata_path s1) img]" by (cases k; auto)+
  have c1: "oc_conn (op_client P1) = Some c1" "op_sent P1 < length (posts c1)" using st1 k by (simp_all add: off_stage_def Let_def)
  from Client_card [OF c1, of lib env freed] off_client_card_stage [OF st1 c1(2)] k obtain P2 where
    P2: "off_step lib env freed P1 P2" "off_stage lib env freed P2 [m] [] [] [image_request lib env (metadata_path s1) img] [] 1 c1"
      "op_pulled P2 = [(img, tcp)]" "op_results P2 = []" using P by (auto simp: P1_def)
  then have to: "op_to_server P2 = off_frame lib (image_request lib env (metadata_path s1) img) # []" by (simp add: off_stage_def Let_def)
  define b where "b = off_frame lib (image_request lib env (metadata_path s1) img)"
  obtain sv sc m' R3' where h: "OffloadServer_onRecvSuccess lib env (op_server P2, op_sconn P2) (b @ []) (of_nat (length b)) = Inr (sv, sc)"
    "[image_request lib env (metadata_path s1) img] = m' # R3'"
    "off_stage lib env freed (P2\<lparr>op_to_server := [], op_server := sv, op_sconn := sc\<rparr>) [m] [] ([] @ [m']) R3' [] 1 c1"
    by (rule off_server_recv_stage [OF P2(2) err to [folded b_def]])
  define P3 where "P3 = P2\<lparr>op_to_server := [], op_server := sv, op_sconn := sc\<rparr>"
  have st3: "off_stage lib env freed P3 [m] [] [image_request lib env (metadata_path s1) img] [] [] 1 c1" using h(2,3) by (simp add: P3_def)
  have "fetched_layers P3 img = 1"
  proof -
    obtain j where "j \<le> 1" "os_fetches (op_server P3) = concat (map (image_fetches lib env (metadata_path (op_client P3)) \<circ> fst) (take j (op_pulled P3)))" "j = 1"
      using stage_fetches [OF st3] by auto
    then show ?thesis using P2(3) img(2) by (simp add: P3_def)
  qed
  then have "count_list (op_results P3) (ur_image_name_tag \<lparr>ur_layer = l, ur_image_name_tag = img, ur_success = True\<rparr>)
      < fetched_layers P3 (ur_image_name_tag \<lparr>ur_layer = l, ur_image_name_tag = img, ur_success = True\<rparr>)" using P2(4) by (simp add: P3_def)
  note guard = this
  let ?r = "\<lparr>ur_layer = l, ur_image_name_tag = img, ur_success = True\<rparr>"
  obtain tcp' where t: "count_list (op_results P3) img < length (layers_of lib env (metadata_path (op_client P3)) img)"
    "length (layers_of lib env (metadata_path (op_client P3)) img) < 2 ^ 31"
    "oc_tasks (op_client P3) \<lparr>it_id = ur_image_name_tag ?r\<rparr> = Some \<lparr>total_layers = int (length (layers_of lib env (metadata_path (op_client P3)) img)),
      untar_layers = int (count_list (op_results P3) img), ti_conn = tcp'\<rparr>"
    by (rule fetched_task [OF st3 _ refl, of img]) (use guard in simp_all)
  obtain s4 where c4: "completeTask freed (op_client P3) ?r = Inr s4"
    using completeTask_fetched [OF t(3,1,2), of freed] freed by (auto split: if_splits)
  from Layer_done [OF guard c4, of lib env] P2 P1 Server_recv [OF to [folded b_def] h(1), of freed]
  have "(off_step lib env freed)\<^sup>*\<^sup>* P (P3\<lparr>op_client := s4, op_results := [img]\<rparr>)"
    by (simp add: P3_def converse_rtranclp_into_rtranclp)
  then show thesis by (rule that) (use P2(3) in \<open>simp_all add: P3_def\<close>)
qed

text \<open>A library in which each message type has one message, and an image of one layer.\<close>

definition one_pb :: "'m \<Rightarrow> 'm pb" where
  "one_pb m = \<lparr>ByteSizeLong = (\<lambda>_. 1), SerializeAsString = (\<lambda>_. [1]), SerializeToArray = (\<lambda>_ _. Some [1]), ParseFromArray = (\<lambda>_ _. Some m)\<rparr>"

lemma one_pb_fits: "frame_fits (one_pb m) m" "length (typed_frame (one_pb m) t m) = 9"
proof -
  show fits: "frame_fits (one_pb m) m" by (simp add: frame_fits_def pb_law_def one_pb_def kFrameHeaderLen_def)
  show "length (typed_frame (one_pb m) t m) = 9" using length_typed_frame [OF fits] by (simp add: one_pb_def)
qed

definition sample_off_lib :: offload_lib where
  "sample_off_lib = \<lparr>con_req_pb = one_pb \<lparr>dcr_connection = True\<rparr>, con_resp_pb = one_pb \<lparr>dcp_connection = True\<rparr>,
     off_req_pb = one_pb \<lparr>ofr_image_name_tag = ''a:1'', ofr_layers = [''l'']\<rparr>,
     off_resp_pb = one_pb \<lparr>ofp_image_name_tag = ''a:1'', ofp_success = True\<rparr>,
     left_con_resp = \<lparr>dcp_connection = True\<rparr>, left_off_resp = \<lparr>ofp_image_name_tag = [], ofp_success = False\<rparr>,
     left_con_req = \<lparr>dcr_connection = True\<rparr>, left_off_req = \<lparr>ofr_image_name_tag = [], ofr_layers = []\<rparr>,
     parse_manifest = (\<lambda>_. Some \<lparr>layer_digests = [''l'']\<rparr>), parse_config = (\<lambda>_. Some \<lparr>oci_spec = []\<rparr>)\<rparr>"

definition sample_off_env :: offload_env where
  "sample_off_env = \<lparr>off_post_err = (\<lambda>_. 0), metadata_files = (\<lambda>_. Some [])\<rparr>"

lemma sample_off_layers: "image_layers sample_off_lib sample_off_env path img = Some [''l'']" "layers_of sample_off_lib sample_off_env path img = [''l'']"
  by (simp_all add: layers_of_def image_layers_def from_file_def sample_off_lib_def sample_off_env_def)

lemma sample_caps: "\<forall>b \<in> set (bufpairs sample_conn). send_cap b = 4096"
  by (simp add: sample_bufpairs)

lemma sample_first_ok: "off_msg_ok sample_off_lib (bufpairs sample_conn) (Con_msg \<lparr>dcr_connection = True\<rparr>)"
  "\<forall>b \<in> set (bufpairs sample_conn). length (off_frame sample_off_lib (Con_msg \<lparr>dcr_connection = True\<rparr>)) \<le> send_cap b"
  using sample_caps by (simp_all add: off_msg_ok_def sample_off_lib_def one_pb_fits del: off_type.simps)

lemma sample_image_ok: "image_ok sample_off_lib sample_off_env path (bufpairs sample_conn) (bufpairs sample_conn) ''a:1''"
  unfolding image_ok_def sample_off_layers off_msg_ok_def image_request_def offload_request_def
  using sample_caps by (simp add: sample_off_lib_def one_pb_fits del: off_type.simps)

lemma sample_off_init:
  obtains P0 :: off_pair where "off_init sample_off_lib sample_off_env P0" and "bufpairs (op_sconn P0) = bufpairs sample_conn"
    and "\<exists>c. off_stage sample_off_lib sample_off_env (\<lambda>t. Some (ti_conn t)) P0 [] [] [] [] [first_msg] 0 c \<and> bufpairs c = bufpairs sample_conn"
    and "op_pulled P0 = []" and "op_results P0 = []"
proof -
  let ?s = "OffloadClient_new ''m'' sample_mem"
  have sq: "sq sample_conn = []" by (simp add: sample_conn_def)
  have fl: "in_flight (off_frame sample_off_lib) sample_conn (oc_mem ?s) (oc_inflight_sends ?s) []"
    using sample_bufs by (simp add: OffloadClient_new_def in_flight_def)
  obtain i r where free: "free_bufpairs sample_conn = i # r"
    using bufs_ok_free [OF sample_bufs] by (cases "free_bufpairs sample_conn") (auto simp: sample_bufpairs)
  note a = acquire_first [OF sample_bufs free]
  have fits: "frame_fits (con_req_pb sample_off_lib) \<lparr>dcr_connection = True\<rparr>"
    "length (typed_frame (con_req_pb sample_off_lib) (off_type kDecompressConnection) \<lparr>dcr_connection = True\<rparr>) \<le> send_cap (bufpairs sample_conn ! i)"
    using sample_first_ok a(3) by (simp_all add: off_msg_ok_def)
  have fr: "off_frame sample_off_lib first_msg = typed_frame (con_req_pb sample_off_lib) (off_type kDecompressConnection) \<lparr>dcr_connection = True\<rparr>"
    by (simp add: first_msg_def)
  have err: "off_post_err sample_off_env (oc_wr_id ?s) = 0" by (simp add: sample_off_env_def)
  obtain c' M' where p: "OffloadClient_post (con_req_pb sample_off_lib) kDecompressConnection \<lparr>dcr_connection = True\<rparr> sample_off_env ?s (sample_conn\<lparr>free_bufpairs := r\<rparr>)
        \<lparr>sb_id = i, sb_addr = send_header (bufpairs sample_conn ! i), sb_cap = send_cap (bufpairs sample_conn ! i)\<rparr>
      = Inr (True, ?s\<lparr>oc_inflight_sends := oc_inflight_sends ?s @ [i], oc_mem := M', oc_wr_id := inc64 (oc_wr_id ?s), oc_conn := Some c'\<rparr>)"
    "bufpairs c' = bufpairs sample_conn"
    by (rule post_ok [OF fl free fits fr err refl])
  define s where "s = ?s\<lparr>oc_inflight_sends := oc_inflight_sends ?s @ [i], oc_mem := M', oc_wr_id := inc64 (oc_wr_id ?s), oc_conn := Some c'\<rparr>"
  define P0 :: off_pair where "P0 = \<lparr>op_client = s, op_sent = 0, op_to_server = [], op_server = OffloadServer_new sample_mem,
    op_sconn = sample_conn, op_answered = 0, op_to_client = [], op_pulled = [], op_results = []\<rparr>"
  have con: "OffloadClient_onConnected sample_off_lib sample_off_env ?s sample_conn = Inr s"
    using a(1) p by (simp add: OffloadClient_onConnected_def s_def)
  have init: "off_init sample_off_lib sample_off_env P0"
  proof -
    have ne: "0 < length (bufpairs sample_conn)" "posts sample_conn = []" using sq by (simp_all add: sample_bufpairs posts_def)
    have "\<forall>w. off_post_err sample_off_env w = 0" by (simp add: sample_off_env_def)
    then show ?thesis unfolding off_init_def
      by (intro conjI exI [of _ "''m''"] exI [of _ sample_mem] exI [of _ sample_conn])
        (simp_all add: P0_def con sample_bufs sq sample_first_ok ne del: off_frame.simps)
  qed
  from off_init_stage [OF this] obtain c where c: "off_stage sample_off_lib sample_off_env (\<lambda>t. Some (ti_conn t)) P0 [] [] [] [] [first_msg] 0 c" by blast
  then have "oc_conn (op_client P0) = Some c" by (simp add: off_stage_def Let_def)
  then have "bufpairs c = bufpairs sample_conn" using p(2) by (simp add: P0_def s_def)
  with init c show thesis by (intro that [of P0]) (auto simp: P0_def)
qed

theorem pulls_answered_once_witness:
  "\<exists>P0 P. off_init sample_off_lib sample_off_env P0
    \<and> (off_step sample_off_lib sample_off_env (\<lambda>t. Some (ti_conn t)))\<^sup>*\<^sup>* P0 P \<and> op_pulled P = [(''a:1'', 5)]
    \<and> replies_for ''a:1'' (oc_replies (op_client P)) = [(5, create_response ''a:1'')]"
proof -
  obtain P0 :: off_pair and c where init: "off_init sample_off_lib sample_off_env P0" and bp: "bufpairs (op_sconn P0) = bufpairs sample_conn"
    and st: "off_stage sample_off_lib sample_off_env (\<lambda>t. Some (ti_conn t)) P0 [] [] [] [] [first_msg] 0 c" "bufpairs c = bufpairs sample_conn" "op_pulled P0 = []" "op_results P0 = []"
    using sample_off_init by metis
  have err: "\<forall>w. off_post_err sample_off_env w = 0" by (simp add: sample_off_env_def)
  obtain P1 m c' where P1: "(off_step sample_off_lib sample_off_env (\<lambda>t. Some (ti_conn t)))\<^sup>*\<^sup>* P0 P1"
    "off_stage sample_off_lib sample_off_env (\<lambda>t. Some (ti_conn t)) P1 [m] [] [] [] [] 0 c'" "op_pulled P1 = []" "op_results P1 = op_results P0"
    "metadata_path (op_client P1) = metadata_path (op_client P0)" "bufpairs c' = bufpairs c" "bufpairs (op_sconn P1) = bufpairs (op_sconn P0)"
    by (rule run_connects [OF st(1) err st(3)])
  have img: "image_ok sample_off_lib sample_off_env (metadata_path (op_client P1)) (bufpairs c') (bufpairs (op_sconn P1)) ''a:1''"
    unfolding P1(6,7) bp st(2) by (rule sample_image_ok)
  obtain P where P: "(off_step sample_off_lib sample_off_env (\<lambda>t. Some (ti_conn t)))\<^sup>*\<^sup>* P1 P" "op_pulled P = [(''a:1'', 5)]" "op_results P = [''a:1'']"
    by (rule run_pulls [OF P1(2) err _ P1(3) _ img sample_off_layers(2)]) (use P1(4) st(4) in auto)
  from P1(1) P(1) have run: "(off_step sample_off_lib sample_off_env (\<lambda>t. Some (ti_conn t)))\<^sup>*\<^sup>* P0 P" by (rule rtranclp_trans)
  from pulls_answered_once [OF init run refl] P(2,3)
  have "replies_for ''a:1'' (oc_replies (op_client P)) = [(5, create_response ''a:1'')]" by (simp add: sample_off_layers)
  with init run P(2) show ?thesis by blast
qed

end
