(* ===== verification/Tcp_Connector.thy ===== *)
theory Tcp_Connector
  imports Event_Loop
begin

text \<open>
  Connecting to a server: \<^verbatim>\<open>src/src/network/tcp/TcpConnector.h\<close> and \<^verbatim>\<open>TcpConnector.cc\<close>. A connector makes a
  socket, waits for it to become writable, and hands it on; when the attempt fails it closes the socket and
  tries again after a delay that doubles. The lemmas show that no socket is lost or closed twice, that the
  connector goes on trying, and that no assertion fails as long as it is started when it is at rest.
\<close>

section \<open>State\<close>

datatype TcStates = TC_kDisconnected | TC_kConnecting | TC_kConnected

datatype tc_functor = StartInLoop | StopInLoop | ResetChannel

definition kMaxRetryDelayMs :: int where "kMaxRetryDelayMs = 30 * 1000"
definition kInitRetryDelayMs :: int where "kInitRetryDelayMs = 500"

text \<open>
  \<open>tc_timers\<close> are the delays in milliseconds of the timers that will start the connector again. For the
  sockets: \<open>tc_opened\<close> were made, \<open>tc_closed\<close> closed, and \<open>tc_handed\<close> given to the callback for new
  connections. \<open>tc_failed\<close> are the errors after which no further attempt is made; they are logged.
  \<open>tc_delays\<close> records the delays of the retries since the connector was made or last restarted.
\<close>

record TcpConnector =
  tc_connect :: bool
  tc_state :: TcStates
  tc_channel :: "nat option"
  retryDelayMs :: int
  tc_loop :: "tc_functor EventLoop"
  tc_timers :: "int list"
  tc_delays :: "int list"
  tc_opened :: "int list"
  tc_closed :: "int list"
  tc_handed :: "int list"
  tc_failed :: "int list"

text \<open>The outcome of an attempt: the socket, the error of \<open>connect\<close>, and where the channel is allocated.\<close>

record attempt =
  at_fd :: int
  at_errno :: int
  at_addr :: nat

definition TcpConnector_new :: "tc_functor EventLoop \<Rightarrow> TcpConnector" where
  "TcpConnector_new L = \<lparr>tc_connect = False, tc_state = TC_kDisconnected, tc_channel = None, retryDelayMs = kInitRetryDelayMs,
     tc_loop = L, tc_timers = [], tc_delays = [], tc_opened = [], tc_closed = [], tc_handed = [], tc_failed = []\<rparr>"

definition EINPROGRESS :: int where "EINPROGRESS = 115"
definition EINTR :: int where "EINTR = 4"
definition EISCONN :: int where "EISCONN = 106"
definition EAGAIN :: int where "EAGAIN = 11"
definition EADDRINUSE :: int where "EADDRINUSE = 98"
definition EADDRNOTAVAIL :: int where "EADDRNOTAVAIL = 99"
definition ECONNREFUSED :: int where "ECONNREFUSED = 111"
definition ENETUNREACH :: int where "ENETUNREACH = 101"

section \<open>Operations\<close>

definition tc_queue :: "bool \<Rightarrow> TcpConnector \<Rightarrow> tc_functor \<Rightarrow> TcpConnector" where
  "tc_queue inLoop c f = c\<lparr>tc_loop := EventLoop_queueInLoop inLoop (tc_loop c) f\<rparr>"

definition TcpConnector_retry :: "TcpConnector \<Rightarrow> int \<Rightarrow> TcpConnector" where
  "TcpConnector_retry c sockfd =
     (let c1 = c\<lparr>tc_closed := tc_closed c @ [sockfd], tc_state := TC_kDisconnected\<rparr> in
      if tc_connect c1
      then c1\<lparr>tc_timers := tc_timers c1 @ [retryDelayMs c1], tc_delays := tc_delays c1 @ [retryDelayMs c1],
        retryDelayMs := min (retryDelayMs c1 * 2) kMaxRetryDelayMs\<rparr>
      else c1)"

definition TcpConnector_connecting :: "TcpConnector \<Rightarrow> int \<Rightarrow> nat \<Rightarrow> TcpConnector res" where
  "TcpConnector_connecting c sockfd p =
     asserting (tc_channel c = None)
       (let L = (tc_loop c)\<lparr>chan_store := (chan_store (tc_loop c))(p \<mapsto> (Channel_new sockfd)\<lparr>callbacks := {Write_cb, Error_cb}\<rparr>)\<rparr>
        in andThen (Channel_enableWriting L p) (\<lambda>L'.
          Inr (c\<lparr>tc_state := TC_kConnecting, tc_channel := Some p, tc_loop := L'\<rparr>)))"

definition TcpConnector_connect :: "TcpConnector \<Rightarrow> attempt \<Rightarrow> TcpConnector res" where
  "TcpConnector_connect c a =
     (let c1 = c\<lparr>tc_opened := tc_opened c @ [at_fd a]\<rparr> in
      if at_errno a \<in> {0, EINPROGRESS, EINTR, EISCONN} then TcpConnector_connecting c1 (at_fd a) (at_addr a)
      else if at_errno a \<in> {EAGAIN, EADDRINUSE, EADDRNOTAVAIL, ECONNREFUSED, ENETUNREACH} then Inr (TcpConnector_retry c1 (at_fd a))
      else Inr (c1\<lparr>tc_closed := tc_closed c1 @ [at_fd a], tc_failed := tc_failed c1 @ [at_errno a]\<rparr>))"

definition TcpConnector_startInLoop :: "TcpConnector \<Rightarrow> attempt \<Rightarrow> TcpConnector res" where
  "TcpConnector_startInLoop c a =
     asserting (tc_state c = TC_kDisconnected) (if tc_connect c then TcpConnector_connect c a else Inr c)"

definition TcpConnector_start :: "bool \<Rightarrow> TcpConnector \<Rightarrow> attempt \<Rightarrow> TcpConnector res" where
  "TcpConnector_start inLoop c a =
     (let c1 = c\<lparr>tc_connect := True\<rparr> in
      if inLoop then TcpConnector_startInLoop c1 a else Inr (tc_queue inLoop c1 StartInLoop))"

definition TcpConnector_restart :: "TcpConnector \<Rightarrow> attempt \<Rightarrow> TcpConnector res" where
  "TcpConnector_restart c a =
     TcpConnector_startInLoop (c\<lparr>tc_state := TC_kDisconnected, retryDelayMs := kInitRetryDelayMs, tc_delays := [],
       tc_connect := True\<rparr>) a"

definition TcpConnector_stop :: "bool \<Rightarrow> TcpConnector \<Rightarrow> TcpConnector" where
  "TcpConnector_stop inLoop c = tc_queue inLoop (c\<lparr>tc_connect := False\<rparr>) StopInLoop"

definition TcpConnector_removeAndResetChannel :: "TcpConnector \<Rightarrow> (int \<times> TcpConnector) res" where
  "TcpConnector_removeAndResetChannel c =
     (case tc_channel c of
        None \<Rightarrow> Inl Undefined_behaviour
      | Some p \<Rightarrow>
          andThen (Channel_disableAll (tc_loop c) p) (\<lambda>L1.
            andThen (Channel_remove L1 p) (\<lambda>L2.
              andThen (deref_channel (chan_store L2) p) (\<lambda>ch.
                Inr (fd ch, tc_queue True (c\<lparr>tc_loop := L2\<rparr>) ResetChannel)))))"

definition TcpConnector_stopInLoop :: "TcpConnector \<Rightarrow> TcpConnector res" where
  "TcpConnector_stopInLoop c =
     (if tc_state c = TC_kConnecting
      then andThen (TcpConnector_removeAndResetChannel (c\<lparr>tc_state := TC_kDisconnected\<rparr>)) (\<lambda>(sockfd, c1).
        Inr (TcpConnector_retry c1 sockfd))
      else Inr c)"

definition TcpConnector_resetChannel :: "TcpConnector \<Rightarrow> TcpConnector res" where
  "TcpConnector_resetChannel c =
     (case tc_channel c of
        None \<Rightarrow> Inr c
      | Some p \<Rightarrow> andThen (Channel_destroy (tc_loop c) p) (\<lambda>L. Inr (c\<lparr>tc_channel := None, tc_loop := L\<rparr>)))"

text \<open>\<open>err\<close> is the pending error of the socket, \<open>self\<close> whether it is connected to itself.\<close>

definition TcpConnector_handleWrite :: "TcpConnector \<Rightarrow> int \<Rightarrow> bool \<Rightarrow> TcpConnector res" where
  "TcpConnector_handleWrite c err self =
     (if tc_state c = TC_kConnecting
      then andThen (TcpConnector_removeAndResetChannel c) (\<lambda>(sockfd, c1).
        if err \<noteq> 0 then Inr (TcpConnector_retry c1 sockfd)
        else if self then Inr (TcpConnector_retry c1 sockfd)
        else
          let c2 = c1\<lparr>tc_state := TC_kConnected\<rparr> in
          if tc_connect c2 then Inr (c2\<lparr>tc_handed := tc_handed c2 @ [sockfd]\<rparr>)
          else Inr (c2\<lparr>tc_closed := tc_closed c2 @ [sockfd]\<rparr>))
      else asserting (tc_state c = TC_kDisconnected) (Inr c))"

definition TcpConnector_handleError :: "TcpConnector \<Rightarrow> TcpConnector res" where
  "TcpConnector_handleError c =
     (if tc_state c = TC_kConnecting
      then andThen (TcpConnector_removeAndResetChannel c) (\<lambda>(sockfd, c1). Inr (TcpConnector_retry c1 sockfd))
      else Inr c)"

text \<open>The destructor; the channel must be gone.\<close>

definition TcpConnector_destroy :: "TcpConnector \<Rightarrow> unit res" where
  "TcpConnector_destroy c = asserting (tc_channel c = None) (Inr ())"

fun TcpConnector_run :: "attempt \<Rightarrow> tc_functor \<Rightarrow> TcpConnector \<Rightarrow> TcpConnector res" where
  "TcpConnector_run a StartInLoop c = TcpConnector_startInLoop c a"
| "TcpConnector_run a StopInLoop c = TcpConnector_stopInLoop c"
| "TcpConnector_run a ResetChannel c = TcpConnector_resetChannel c"

section \<open>Events\<close>

text \<open>
  Calls of the user, callbacks of the channel, the oldest functor, and the oldest timer; with the outcome of the
  attempt they may make.
\<close>

datatype tc_event =
    Ev_start bool attempt
  | Ev_stop bool
  | Ev_restart attempt
  | Ev_write int bool
  | Ev_error
  | Ev_functor attempt
  | Ev_timer attempt

fun tc_exec :: "tc_event \<Rightarrow> TcpConnector \<Rightarrow> TcpConnector res" where
  "tc_exec (Ev_start inLoop a) c = TcpConnector_start inLoop c a"
| "tc_exec (Ev_stop inLoop) c = Inr (TcpConnector_stop inLoop c)"
| "tc_exec (Ev_restart a) c = TcpConnector_restart c a"
| "tc_exec (Ev_write err self) c = TcpConnector_handleWrite c err self"
| "tc_exec Ev_error c = TcpConnector_handleError c"
| "tc_exec (Ev_functor a) c =
     (case pendingFunctors (tc_loop c) of
        [] \<Rightarrow> Inr c
      | f # fs \<Rightarrow> TcpConnector_run a f (c\<lparr>tc_loop := (tc_loop c)\<lparr>pendingFunctors := fs\<rparr>\<rparr>))"
| "tc_exec (Ev_timer a) c =
     (case tc_timers c of
        [] \<Rightarrow> Inr c
      | t # ts \<Rightarrow> TcpConnector_startInLoop (c\<lparr>tc_timers := ts\<rparr>) a)"

text \<open>
  What the surroundings guarantee. An attempt gets a socket no channel is registered for and memory no channel has. The
  connector is started when it is at rest, and restarted when its connection is gone; events of the channel come
  while it is not connected; a timer fires when the functors queued before have run.
\<close>

definition tc_rest :: "TcpConnector \<Rightarrow> bool" where
  "tc_rest c \<longleftrightarrow> tc_channel c = None \<and> tc_timers c = [] \<and> StartInLoop \<notin> set (pendingFunctors (tc_loop c))"

definition attempt_ok :: "TcpConnector \<Rightarrow> attempt \<Rightarrow> bool" where
  "attempt_ok c a \<longleftrightarrow> chan_store (tc_loop c) (at_addr a) = None \<and> channels (poller (tc_loop c)) (at_fd a) = None"

fun tc_event_ok :: "TcpConnector \<Rightarrow> tc_event \<Rightarrow> bool" where
  "tc_event_ok c (Ev_start inLoop a) \<longleftrightarrow> tc_state c = TC_kDisconnected \<and> tc_rest c \<and> attempt_ok c a"
| "tc_event_ok c (Ev_stop inLoop) \<longleftrightarrow> True"
| "tc_event_ok c (Ev_restart a) \<longleftrightarrow> tc_state c = TC_kConnected \<and> tc_rest c \<and> attempt_ok c a"
| "tc_event_ok c (Ev_write err self) \<longleftrightarrow> tc_state c \<noteq> TC_kConnected"
| "tc_event_ok c Ev_error \<longleftrightarrow> tc_state c \<noteq> TC_kConnected"
| "tc_event_ok c (Ev_functor a) \<longleftrightarrow> attempt_ok c a"
| "tc_event_ok c (Ev_timer a) \<longleftrightarrow> ResetChannel \<notin> set (pendingFunctors (tc_loop c)) \<and> attempt_ok c a"

inductive tc_step :: "TcpConnector \<Rightarrow> TcpConnector \<Rightarrow> bool" where
  event: "tc_event_ok c ev \<Longrightarrow> tc_exec ev c = Inr c' \<Longrightarrow> tc_step c c'"

definition tc_init :: "TcpConnector \<Rightarrow> bool" where
  "tc_init c \<longleftrightarrow> (\<exists>L. c = TcpConnector_new L \<and> loop_inv L \<and> \<not> loop_eventHandling L \<and> pendingFunctors L = [])"

section \<open>The invariant\<close>

definition backoff :: "nat \<Rightarrow> int" where
  "backoff n = min (kInitRetryDelayMs * 2 ^ n) kMaxRetryDelayMs"

text \<open>The channel: registered while connecting, otherwise removed and about to be reset, or gone.\<close>

definition tc_chan :: "TcpConnector \<Rightarrow> bool" where
  "tc_chan c \<longleftrightarrow> (case tc_channel c of
     None \<Rightarrow> tc_state c \<noteq> TC_kConnecting \<and> ResetChannel \<notin> set (pendingFunctors (tc_loop c))
   | Some p \<Rightarrow> (\<exists>ch. chan_store (tc_loop c) p = Some ch \<and> \<not> eventHandling ch
       \<and> (if tc_state c = TC_kConnecting
          then channels (poller (tc_loop c)) (fd ch) = Some p \<and> ResetChannel \<notin> set (pendingFunctors (tc_loop c))
          else index ch = kNew \<and> count_list (pendingFunctors (tc_loop c)) ResetChannel = 1)))"

definition tc_sock :: "TcpConnector \<Rightarrow> int list" where
  "tc_sock c = (if tc_state c = TC_kConnecting then
     (case tc_channel c of None \<Rightarrow> [] | Some p \<Rightarrow> (case chan_store (tc_loop c) p of None \<Rightarrow> [] | Some ch \<Rightarrow> [fd ch])) else [])"

text \<open>
  The delays of the retries since the last (re)start double from the initial one up to the
  maximum, the next one is in \<open>retryDelayMs\<close>, and the timer that is set has the last one.
\<close>

definition delays_ok :: "int list \<Rightarrow> int \<Rightarrow> int list \<Rightarrow> bool" where
  "delays_ok ds d ts \<longleftrightarrow> d = backoff (length ds) \<and> ds = map backoff [0..<length ds]
     \<and> (ts = [] \<or> ds \<noteq> [] \<and> ts = [last ds])"

definition tc_sched :: "TcpConnector \<Rightarrow> bool" where
  "tc_sched c \<longleftrightarrow> (tc_timers c \<noteq> [] \<longrightarrow> tc_state c = TC_kDisconnected) \<and> length (tc_timers c) \<le> 1
     \<and> (StartInLoop \<in> set (pendingFunctors (tc_loop c)) \<longrightarrow> tc_state c = TC_kDisconnected \<and> tc_channel c = None \<and> tc_timers c = [])
     \<and> count_list (pendingFunctors (tc_loop c)) StartInLoop \<le> 1
     \<and> (tc_connect c \<and> tc_state c = TC_kDisconnected \<and> tc_timers c = [] \<and> StartInLoop \<notin> set (pendingFunctors (tc_loop c))
        \<longrightarrow> tc_failed c \<noteq> [])
     \<and> delays_ok (tc_delays c) (retryDelayMs c) (tc_timers c)"

definition tc_inv :: "TcpConnector \<Rightarrow> bool" where
  "tc_inv c \<longleftrightarrow> loop_inv (tc_loop c) \<and> \<not> loop_eventHandling (tc_loop c) \<and> tc_chan c \<and> tc_sched c
     \<and> mset (tc_opened c) = mset (tc_closed c) + mset (tc_handed c) + mset (tc_sock c)"

lemma backoff_Suc: "min (backoff n * 2) kMaxRetryDelayMs = backoff (Suc n)"
  by (simp add: backoff_def kMaxRetryDelayMs_def kInitRetryDelayMs_def)

lemma backoff_0: "kInitRetryDelayMs = backoff 0"
  by (simp add: backoff_def kMaxRetryDelayMs_def kInitRetryDelayMs_def)

lemma delays_ok_start: "delays_ok [] kInitRetryDelayMs []"
  by (simp add: delays_ok_def backoff_0)

lemma delays_ok_rest: "delays_ok ds d ts \<Longrightarrow> delays_ok ds d []"
  by (simp add: delays_ok_def)

lemma delays_ok_retry:
  assumes "delays_ok ds d ts"
  shows "delays_ok (ds @ [d]) (min (d * 2) kMaxRetryDelayMs) [d]"
proof -
  from assms have d: "d = backoff (length ds)" and ds: "ds = map backoff [0..<length ds]"
    by (simp_all add: delays_ok_def)
  from ds d have "ds @ [d] = map backoff [0..<Suc (length ds)]" by simp
  with d show ?thesis by (simp add: delays_ok_def backoff_Suc)
qed

lemma backoff_bounds: "kInitRetryDelayMs \<le> backoff n \<and> backoff n \<le> kMaxRetryDelayMs"
  by (simp add: backoff_def kMaxRetryDelayMs_def kInitRetryDelayMs_def)

section \<open>Every event keeps the invariant\<close>

lemma tc_queue_loop [simp]:
  "poller (EventLoop_queueInLoop b L f) = poller L" "chan_store (EventLoop_queueInLoop b L f) = chan_store L"
  "loop_eventHandling (EventLoop_queueInLoop b L f) = loop_eventHandling L"
  by (simp_all add: EventLoop_queueInLoop_def EventLoop_push_def EventLoop_wakeup_def Let_def)

lemma tc_queue_inv [simp]: "loop_inv (EventLoop_queueInLoop b L f) = loop_inv L"
  by (simp add: loop_inv_def)

text \<open>The channel of a connecting connector is removed.\<close>

lemma remove_ok:
  assumes inv: "tc_inv c" and st: "tc_state c = TC_kConnecting"
  obtains L p ch sockfd where "tc_channel c = Some p"
    and "\<forall>s. TcpConnector_removeAndResetChannel (c\<lparr>tc_state := s\<rparr>) = Inr (sockfd, c\<lparr>tc_state := s, tc_loop := L\<rparr>)"
    and "loop_inv L" and "\<not> loop_eventHandling L" and "pendingFunctors L = pendingFunctors (tc_loop c) @ [ResetChannel]"
    and "chan_store L p = Some ch" and "\<not> eventHandling ch" and "index ch = kNew" and "tc_sock c = [sockfd]"
proof -
  have li: "loop_inv (tc_loop c)" and ev: "\<not> loop_eventHandling (tc_loop c)" using inv by (simp_all add: tc_inv_def)
  from inv st obtain p ch where p: "tc_channel c = Some p" "chan_store (tc_loop c) p = Some ch" "\<not> eventHandling ch"
    "channels (poller (tc_loop c)) (fd ch) = Some p" by (auto simp: tc_inv_def tc_chan_def split: option.splits)
  have reg: "registrable (poller (tc_loop c)) p ch" using p(4) by (simp add: registrable_def)
  obtain P1 i where
    d: "Channel_disableAll (tc_loop c) p = Inr ((tc_loop c)\<lparr>poller := P1, chan_store := (chan_store (tc_loop c))
        (p \<mapsto> ch\<lparr>events := kNoneEvent, addedToLoop := True, index := i\<rparr>)\<rparr>)"
      "loop_inv ((tc_loop c)\<lparr>poller := P1, chan_store := (chan_store (tc_loop c))(p \<mapsto> ch\<lparr>events := kNoneEvent, addedToLoop := True, index := i\<rparr>)\<rparr>)"
      "i \<noteq> kNew"
    unfolding Channel_disableAll_def by (rule Channel_set_events_ok [OF li p(2) reg, of "\<lambda>w ev. w" kNoneEvent])
  define L1 where "L1 = (tc_loop c)\<lparr>poller := P1, chan_store := (chan_store (tc_loop c))(p \<mapsto> ch\<lparr>events := kNoneEvent, addedToLoop := True, index := i\<rparr>)\<rparr>"
  have L1: "loop_inv L1" "chan_store L1 p = Some (ch\<lparr>events := kNoneEvent, addedToLoop := True, index := i\<rparr>)" "\<not> loop_eventHandling L1"
    "pendingFunctors L1 = pendingFunctors (tc_loop c)" using d(2) ev by (simp_all add: L1_def)
  let ?ch = "ch\<lparr>events := kNoneEvent, addedToLoop := False, index := kNew\<rparr>"
  obtain P2 where r: "Channel_remove L1 p = Inr (L1\<lparr>poller := P2, chan_store := (chan_store L1)(p \<mapsto> ?ch)\<rparr>)"
    "loop_inv (L1\<lparr>poller := P2, chan_store := (chan_store L1)(p \<mapsto> ?ch)\<rparr>)"
    using Channel_remove_ok [OF L1(1,2)] d(3) L1(3) by auto
  define L where "L = EventLoop_queueInLoop True (L1\<lparr>poller := P2, chan_store := (chan_store L1)(p \<mapsto> ?ch)\<rparr>) ResetChannel"
  have "TcpConnector_removeAndResetChannel (c\<lparr>tc_state := s\<rparr>) = Inr (fd ch, c\<lparr>tc_state := s, tc_loop := L\<rparr>)" for s
    using p(1) d(1) r(1) by (simp add: TcpConnector_removeAndResetChannel_def tc_queue_def deref_channel_def L_def flip: L1_def)
  moreover have "loop_inv L" "\<not> loop_eventHandling L" "pendingFunctors L = pendingFunctors (tc_loop c) @ [ResetChannel]" "chan_store L p = Some ?ch"
    using r(2) L1(3,4) by (simp_all add: L_def)
  moreover have "tc_sock c = [fd ch]" using p st by (simp add: tc_sock_def)
  ultimately show ?thesis using p(1,3) by (intro that [of p "fd ch" L ?ch]) simp_all
qed

text \<open>After that the socket is closed or handed on.\<close>

lemma removed_inv:
  assumes inv: "tc_inv c" and st: "tc_state c = TC_kConnecting" and s: "s \<noteq> TC_kConnecting"
    and L: "tc_channel c = Some p" "loop_inv L" "\<not> loop_eventHandling L" "pendingFunctors L = pendingFunctors (tc_loop c) @ [ResetChannel]"
      "chan_store L p = Some ch" "\<not> eventHandling ch" "index ch = kNew" "tc_sock c = [sockfd]"
    and c': "tc_channel c' = Some p" "tc_loop c' = L" "tc_state c' = s" "tc_connect c' = tc_connect c" "tc_opened c' = tc_opened c"
      "mset (tc_closed c') + mset (tc_handed c') = add_mset sockfd (mset (tc_closed c) + mset (tc_handed c))"
    and t: "s = TC_kDisconnected \<and> tc_connect c \<and> tc_timers c' = [retryDelayMs c]
        \<and> tc_delays c' = tc_delays c @ [retryDelayMs c] \<and> retryDelayMs c' = min (retryDelayMs c * 2) kMaxRetryDelayMs
      \<or> (s = TC_kConnected \<or> \<not> tc_connect c) \<and> tc_timers c' = [] \<and> tc_delays c' = tc_delays c
        \<and> retryDelayMs c' = retryDelayMs c"
  shows "tc_inv c'"
proof -
  have "ResetChannel \<notin> set (pendingFunctors (tc_loop c))" "StartInLoop \<notin> set (pendingFunctors (tc_loop c))"
    using inv st L(1) by (auto simp: tc_inv_def tc_chan_def tc_sched_def)
  moreover have "delays_ok (tc_delays c) (retryDelayMs c) (tc_timers c)" using inv by (simp add: tc_inv_def tc_sched_def)
  moreover have "count_list xs x = 0" if "x \<notin> set xs" for x and xs :: "tc_functor list" using that by simp
  ultimately show ?thesis
    using inv L c' t s unfolding tc_inv_def
    by (auto simp: tc_chan_def tc_sched_def tc_sock_def intro: delays_ok_retry delays_ok_rest)
qed

lemma retry_inv:
  assumes inv: "tc_inv c" and st: "tc_state c = TC_kConnecting"
    and L: "tc_channel c = Some p" "loop_inv L" "\<not> loop_eventHandling L" "pendingFunctors L = pendingFunctors (tc_loop c) @ [ResetChannel]"
      "chan_store L p = Some ch" "\<not> eventHandling ch" "index ch = kNew" "tc_sock c = [sockfd]"
  shows "tc_inv (TcpConnector_retry (c\<lparr>tc_state := s, tc_loop := L\<rparr>) sockfd)"
proof -
  have "tc_timers c = []" using inv st by (auto simp: tc_inv_def tc_sched_def)
  then show ?thesis
    by (intro removed_inv [OF inv st _ L, of TC_kDisconnected]) (simp_all add: TcpConnector_retry_def Let_def L(1))
qed

text \<open>An attempt of a connector at rest.\<close>

definition tc_pre :: "TcpConnector \<Rightarrow> bool" where
  "tc_pre c \<longleftrightarrow> loop_inv (tc_loop c) \<and> \<not> loop_eventHandling (tc_loop c) \<and> tc_state c = TC_kDisconnected \<and> tc_rest c
     \<and> ResetChannel \<notin> set (pendingFunctors (tc_loop c)) \<and> delays_ok (tc_delays c) (retryDelayMs c) []
     \<and> mset (tc_opened c) = mset (tc_closed c) + mset (tc_handed c)"

lemma connecting_ok:
  assumes pre: "tc_pre c" and p: "chan_store (tc_loop c) p = None" "channels (poller (tc_loop c)) f = None"
  obtains c' where "TcpConnector_connecting (c\<lparr>tc_opened := tc_opened c @ [f]\<rparr>) f p = Inr c'" and "tc_inv c'"
proof -
  let ?ch = "(Channel_new f)\<lparr>callbacks := {Write_cb, Error_cb}\<rparr>"
  define L0 where "L0 = (tc_loop c)\<lparr>chan_store := (chan_store (tc_loop c))(p \<mapsto> ?ch)\<rparr>"
  have li: "loop_inv L0" unfolding L0_def using pre p(1) by (intro loop_inv_new_channel) (simp_all add: tc_pre_def)
  have ch: "chan_store L0 p = Some ?ch" by (simp add: L0_def)
  have reg: "registrable (poller L0) p ?ch" using p(2) by (simp add: L0_def registrable_def Channel_new_def)
  obtain P' i where e: "Channel_enableWriting L0 p = Inr (L0\<lparr>poller := P', chan_store := (chan_store L0)
        (p \<mapsto> ?ch\<lparr>events := set_flag kWriteEvent (events ?ch), addedToLoop := True, index := i\<rparr>)\<rparr>)"
    "loop_inv (L0\<lparr>poller := P', chan_store := (chan_store L0)(p \<mapsto> ?ch\<lparr>events := set_flag kWriteEvent (events ?ch), addedToLoop := True, index := i\<rparr>)\<rparr>)"
    "channels P' (fd ?ch) = Some p"
    unfolding Channel_enableWriting_def by (rule Channel_set_events_ok [OF li ch reg, of set_flag kWriteEvent])
  define L1 where "L1 = L0\<lparr>poller := P', chan_store := (chan_store L0)(p \<mapsto> ?ch\<lparr>events := set_flag kWriteEvent (events ?ch), addedToLoop := True, index := i\<rparr>)\<rparr>"
  define c' where "c' = c\<lparr>tc_opened := tc_opened c @ [f], tc_state := TC_kConnecting, tc_channel := Some p, tc_loop := L1\<rparr>"
  have "TcpConnector_connecting (c\<lparr>tc_opened := tc_opened c @ [f]\<rparr>) f p = Inr c'"
    using pre e(1) by (simp add: TcpConnector_connecting_def tc_pre_def tc_rest_def Let_def c'_def L1_def L0_def)
  moreover have "tc_inv c'"
    using pre e(2,3) unfolding tc_inv_def
    by (auto simp: c'_def L1_def L0_def tc_pre_def tc_rest_def tc_chan_def tc_sched_def tc_sock_def Channel_new_def)
  ultimately show ?thesis by (rule that)
qed

lemma start_ok:
  assumes pre: "tc_pre c" and a: "attempt_ok c a"
  obtains c' where "TcpConnector_startInLoop c a = Inr c'" and "tc_inv c'"
proof -
  have st: "tc_state c = TC_kDisconnected" using pre by (simp add: tc_pre_def)
  consider (off) "\<not> tc_connect c" | (go) "tc_connect c" "at_errno a \<in> {0, EINPROGRESS, EINTR, EISCONN}"
    | (again) "tc_connect c" "at_errno a \<notin> {0, EINPROGRESS, EINTR, EISCONN}" "at_errno a \<in> {EAGAIN, EADDRINUSE, EADDRNOTAVAIL, ECONNREFUSED, ENETUNREACH}"
    | (give_up) "tc_connect c" "at_errno a \<notin> {0, EINPROGRESS, EINTR, EISCONN}" "at_errno a \<notin> {EAGAIN, EADDRINUSE, EADDRNOTAVAIL, ECONNREFUSED, ENETUNREACH}"
    by blast
  then show ?thesis
  proof cases
    case off
    then have "TcpConnector_startInLoop c a = Inr c" using st by (simp add: TcpConnector_startInLoop_def)
    moreover have "tc_inv c" using pre off by (auto simp: tc_inv_def tc_pre_def tc_rest_def tc_chan_def tc_sched_def tc_sock_def)
    ultimately show ?thesis by (rule that)
  next
    case go
    obtain c' where "TcpConnector_connecting (c\<lparr>tc_opened := tc_opened c @ [at_fd a]\<rparr>) (at_fd a) (at_addr a) = Inr c'" "tc_inv c'"
      using connecting_ok [OF pre] a unfolding attempt_ok_def by metis
    with go st show ?thesis by (intro that [of c']) (simp_all add: TcpConnector_startInLoop_def TcpConnector_connect_def)
  next
    case again
    let ?c = "TcpConnector_retry (c\<lparr>tc_opened := tc_opened c @ [at_fd a]\<rparr>) (at_fd a)"
    have "tc_inv ?c" using pre again(1) unfolding tc_inv_def
      by (auto simp: TcpConnector_retry_def Let_def tc_pre_def tc_rest_def tc_chan_def tc_sched_def tc_sock_def
          intro: delays_ok_retry)
    with again st show ?thesis by (intro that [of ?c]) (simp_all add: TcpConnector_startInLoop_def TcpConnector_connect_def)
  next
    case give_up
    let ?c = "c\<lparr>tc_opened := tc_opened c @ [at_fd a], tc_closed := tc_closed c @ [at_fd a], tc_failed := tc_failed c @ [at_errno a]\<rparr>"
    have "tc_inv ?c" using pre unfolding tc_inv_def
      by (auto simp: tc_pre_def tc_rest_def tc_chan_def tc_sched_def tc_sock_def)
    with give_up st show ?thesis by (intro that [of ?c]) (simp_all add: TcpConnector_startInLoop_def TcpConnector_connect_def)
  qed
qed

lemma pre_of_inv:
  assumes "tc_inv c" and "tc_rest c" and "tc_state c \<noteq> TC_kConnecting"
  shows "tc_pre (c\<lparr>tc_state := TC_kDisconnected, tc_connect := b\<rparr>)"
  using assms by (auto simp: tc_inv_def tc_pre_def tc_rest_def tc_chan_def tc_sched_def tc_sock_def)

lemma attempt_ok_cong: "tc_loop c' = tc_loop c \<Longrightarrow> attempt_ok c' a = attempt_ok c a"
  by (simp add: attempt_ok_def)

lemma functor_inv:
  assumes inv: "tc_inv c" and pend: "pendingFunctors (tc_loop c) = f # fs" and a: "attempt_ok c a"
  shows "\<exists>c'. TcpConnector_run a f (c\<lparr>tc_loop := (tc_loop c)\<lparr>pendingFunctors := fs\<rparr>\<rparr>) = Inr c' \<and> tc_inv c'"
proof -
  let ?c = "c\<lparr>tc_loop := (tc_loop c)\<lparr>pendingFunctors := fs\<rparr>\<rparr>"
  show ?thesis
  proof (cases f)
    case StartInLoop
    then have "StartInLoop \<notin> set fs" using inv pend by (auto simp: tc_inv_def tc_sched_def count_list_0_iff)
    then have "tc_pre ?c" using inv pend StartInLoop
      by (auto simp: tc_inv_def tc_pre_def tc_rest_def tc_chan_def tc_sched_def tc_sock_def loop_inv_def)
    moreover have "attempt_ok ?c a" using a by (simp add: attempt_ok_def)
    ultimately obtain c' where "TcpConnector_startInLoop ?c a = Inr c'" "tc_inv c'" by (rule start_ok)
    then show ?thesis by (simp add: StartInLoop)
  next
    case StopInLoop
    then have inv': "tc_inv ?c" using inv pend
      by (auto simp: tc_inv_def tc_chan_def tc_sched_def tc_sock_def loop_inv_def split: option.splits)
    show ?thesis
    proof (cases "tc_state c = TC_kConnecting")
      case True
      then have st': "tc_state ?c = TC_kConnecting" by simp
      obtain L p ch sockfd where r: "tc_channel ?c = Some p"
        "\<forall>s. TcpConnector_removeAndResetChannel (?c\<lparr>tc_state := s\<rparr>) = Inr (sockfd, ?c\<lparr>tc_state := s, tc_loop := L\<rparr>)"
        "loop_inv L" "\<not> loop_eventHandling L" "pendingFunctors L = pendingFunctors (tc_loop ?c) @ [ResetChannel]"
        "chan_store L p = Some ch" "\<not> eventHandling ch" "index ch = kNew" "tc_sock ?c = [sockfd]"
        by (rule remove_ok [OF inv' st'])
      have "tc_inv (TcpConnector_retry (?c\<lparr>tc_state := TC_kDisconnected, tc_loop := L\<rparr>) sockfd)"
        by (rule retry_inv [OF inv' _ r(1,3-9)]) (use True in simp)
      with r(2) True StopInLoop show ?thesis by (simp add: TcpConnector_stopInLoop_def)
    next
      case False
      with inv' StopInLoop show ?thesis by (simp add: TcpConnector_stopInLoop_def)
    qed
  next
    case ResetChannel
    then obtain p ch where p: "tc_channel c = Some p" "chan_store (tc_loop c) p = Some ch" "\<not> eventHandling ch" "index ch = kNew"
      "tc_state c \<noteq> TC_kConnecting" "ResetChannel \<notin> set fs"
      using inv pend by (auto simp: tc_inv_def tc_chan_def count_list_0_iff split: option.splits if_splits)
    define L where "L = (tc_loop c)\<lparr>pendingFunctors := fs\<rparr>"
    have L: "loop_inv L" "chan_store L p = Some ch" using inv p(2) by (simp_all add: L_def tc_inv_def loop_inv_def)
    note d = Channel_destroy_ok [OF L p(4,3)]
    let ?c' = "?c\<lparr>tc_channel := None, tc_loop := L\<lparr>chan_store := (chan_store L)(p := None)\<rparr>\<rparr>"
    have "TcpConnector_run a f ?c = Inr ?c'" using d(1) p(1) ResetChannel by (simp add: TcpConnector_resetChannel_def L_def)
    moreover have "tc_inv ?c'" using inv d(2) p pend ResetChannel unfolding tc_inv_def
      by (auto simp: L_def tc_chan_def tc_sched_def tc_sock_def)
    ultimately show ?thesis by blast
  qed
qed

lemma tc_exec_ok:
  assumes inv: "tc_inv c" and ok: "tc_event_ok c ev"
  shows "\<exists>c'. tc_exec ev c = Inr c' \<and> tc_inv c'"
proof (cases ev)
  case (Ev_start inLoop a)
  with ok have st: "tc_state c = TC_kDisconnected" "tc_rest c" "attempt_ok c a" by simp_all
  show ?thesis
  proof (cases inLoop)
    case True
    have "tc_pre (c\<lparr>tc_state := TC_kDisconnected, tc_connect := True\<rparr>)" using pre_of_inv [OF inv st(2)] st(1) by simp
    moreover have "c\<lparr>tc_state := TC_kDisconnected, tc_connect := True\<rparr> = c\<lparr>tc_connect := True\<rparr>" using st(1) by simp
    ultimately obtain c' where "TcpConnector_startInLoop (c\<lparr>tc_connect := True\<rparr>) a = Inr c'" "tc_inv c'"
      using start_ok [of "c\<lparr>tc_connect := True\<rparr>" a] st(3) attempt_ok_cong [of "c\<lparr>tc_connect := True\<rparr>" c a] by auto
    then show ?thesis using Ev_start True by (simp add: TcpConnector_start_def)
  next
    case False
    have "tc_inv (tc_queue inLoop (c\<lparr>tc_connect := True\<rparr>) StartInLoop)" using inv st
      by (auto simp: tc_inv_def tc_rest_def tc_chan_def tc_sched_def tc_sock_def tc_queue_def)
    then show ?thesis using Ev_start False by (simp add: TcpConnector_start_def)
  qed
next
  case (Ev_stop inLoop)
  have "tc_inv (TcpConnector_stop inLoop c)" using inv
    by (auto simp: tc_inv_def tc_chan_def tc_sched_def tc_sock_def tc_queue_def TcpConnector_stop_def split: option.splits)
  then show ?thesis using Ev_stop by simp
next
  case (Ev_restart a)
  with ok have st: "tc_state c = TC_kConnected" "tc_rest c" "attempt_ok c a" by simp_all
  let ?c = "c\<lparr>tc_state := TC_kDisconnected, retryDelayMs := kInitRetryDelayMs, tc_delays := [], tc_connect := True\<rparr>"
  have "tc_pre ?c" using pre_of_inv [OF inv st(2), of True] st(1) delays_ok_start by (auto simp: tc_pre_def tc_rest_def)
  then obtain c' where "TcpConnector_startInLoop ?c a = Inr c'" "tc_inv c'"
    by (rule start_ok) (use st(3) in \<open>simp add: attempt_ok_def\<close>)
  then show ?thesis using Ev_restart by (simp add: TcpConnector_restart_def)
next
  case (Ev_functor a)
  with functor_inv [OF inv, of _ _ a] ok inv show ?thesis by (cases "pendingFunctors (tc_loop c)") auto
next
  case (Ev_timer a)
  show ?thesis
  proof (cases "tc_timers c")
    case (Cons t ts)
    let ?c = "c\<lparr>tc_timers := ts\<rparr>"
    have "tc_pre ?c" using inv Cons ok Ev_timer
      by (auto simp: tc_inv_def tc_pre_def tc_rest_def tc_chan_def tc_sched_def tc_sock_def count_list_0_iff
          intro: delays_ok_rest split: option.splits)
    then obtain c' where "TcpConnector_startInLoop ?c a = Inr c'" "tc_inv c'"
      by (rule start_ok) (use ok Ev_timer in \<open>auto simp: attempt_ok_def\<close>)
    then show ?thesis using Ev_timer Cons by simp
  qed (use Ev_timer inv in simp)
next
  case (Ev_write err self)
  show ?thesis
  proof (cases "tc_state c = TC_kConnecting")
    case True
    obtain L p ch sockfd where r: "tc_channel c = Some p"
      "\<forall>s. TcpConnector_removeAndResetChannel (c\<lparr>tc_state := s\<rparr>) = Inr (sockfd, c\<lparr>tc_state := s, tc_loop := L\<rparr>)"
      "loop_inv L" "\<not> loop_eventHandling L" "pendingFunctors L = pendingFunctors (tc_loop c) @ [ResetChannel]"
      "chan_store L p = Some ch" "\<not> eventHandling ch" "index ch = kNew" "tc_sock c = [sockfd]"
      by (rule remove_ok [OF inv True])
    have c: "c\<lparr>tc_state := TC_kConnecting\<rparr> = c" using True by simp
    note rm = spec [OF r(2), of TC_kConnecting, unfolded c]
    have tm: "tc_timers c = []" using inv True by (auto simp: tc_inv_def tc_sched_def)
    show ?thesis
    proof (cases "err \<noteq> 0 \<or> self")
      case bad: True
      with rm retry_inv [OF inv True r(1,3-9), of TC_kConnecting, unfolded c] True Ev_write show ?thesis
        by (auto simp: TcpConnector_handleWrite_def)
    next
      case False
      let ?c1 = "c\<lparr>tc_state := TC_kConnected, tc_loop := L\<rparr>"
      let ?c' = "if tc_connect c then ?c1\<lparr>tc_handed := tc_handed c @ [sockfd]\<rparr> else ?c1\<lparr>tc_closed := tc_closed c @ [sockfd]\<rparr>"
      have "tc_inv ?c'" by (rule removed_inv [OF inv True _ r(1,3-9), of TC_kConnected]) (use r(1) tm in auto)
      moreover have "tc_exec ev c = Inr ?c'" using rm False True Ev_write by (cases c) (simp add: TcpConnector_handleWrite_def Let_def)
      ultimately show ?thesis by blast
    qed
  qed (use Ev_write ok inv in \<open>cases "tc_state c"; simp add: TcpConnector_handleWrite_def\<close>)
next
  case Ev_error
  show ?thesis
  proof (cases "tc_state c = TC_kConnecting")
    case True
    obtain L p ch sockfd where r: "tc_channel c = Some p"
      "\<forall>s. TcpConnector_removeAndResetChannel (c\<lparr>tc_state := s\<rparr>) = Inr (sockfd, c\<lparr>tc_state := s, tc_loop := L\<rparr>)"
      "loop_inv L" "\<not> loop_eventHandling L" "pendingFunctors L = pendingFunctors (tc_loop c) @ [ResetChannel]"
      "chan_store L p = Some ch" "\<not> eventHandling ch" "index ch = kNew" "tc_sock c = [sockfd]"
      by (rule remove_ok [OF inv True])
    have c: "c\<lparr>tc_state := TC_kConnecting\<rparr> = c" using True by simp
    from spec [OF r(2), of TC_kConnecting, unfolded c] retry_inv [OF inv True r(1,3-9), of TC_kConnecting, unfolded c] True Ev_error show ?thesis
      by (simp add: TcpConnector_handleError_def)
  qed (use Ev_error inv in \<open>simp add: TcpConnector_handleError_def\<close>)
qed

lemma tc_init_inv: "tc_init c \<Longrightarrow> tc_inv c"
  using delays_ok_start by (auto simp: tc_init_def TcpConnector_new_def tc_inv_def tc_chan_def tc_sched_def tc_sock_def)

lemma tc_step_inv: "tc_inv c \<Longrightarrow> tc_step c c' \<Longrightarrow> tc_inv c'"
  using tc_exec_ok by (fastforce elim: tc_step.cases)

interpretation tc_sys: invariant_system tc_init tc_step tc_inv
  by unfold_locales (blast intro: tc_init_inv tc_step_inv)+

section \<open>A timer left behind\<close>

text \<open>
  \<open>stop\<close> does not cancel the timer of a retry: when the connector is started again before it fires, the
  timer finds it connecting and fails the assertion.
\<close>

lemma stale_timer_fails:
  assumes "tc_state c = TC_kDisconnected" and "tc_connect c" and "tc_timers c = [t]" and "at_errno a = EINPROGRESS"
    and "TcpConnector_start True (TcpConnector_stop True c) a = Inr c'"
  shows "tc_exec (Ev_timer b) c' = Inl Assert_failed"
proof -
  have "tc_state c' = TC_kConnecting" "tc_timers c' = [t]"
    using assms by (auto simp: TcpConnector_start_def TcpConnector_stop_def TcpConnector_startInLoop_def TcpConnector_connect_def
        TcpConnector_connecting_def tc_queue_def Let_def res_simps)
  then show ?thesis by (simp add: TcpConnector_startInLoop_def)
qed

section \<open>Connecting\<close>

text \<open>
  C39. In every state that a connector reaches when it is started only at rest and restarted only when its connection is
  gone (\<open>tc_event_ok\<close>; a start with a timer left over does fail an assertion, \<open>stale_timer_fails\<close>): every socket it has
  made is closed once, or handed on once, or is the one it is waiting for, and not two of these. A connector that is to
  connect and is neither connecting nor connected nor about to start has exactly one timer, unless an error ended the
  attempts, and the timer has the delay of the latest retry; the delays of the retries since it was made or restarted are
  500, 1000, 2000, 4000, 8000, 16000 and then always 30000 milliseconds. No such event makes an assertion fail.
\<close>

theorem connector_keeps_trying:
  assumes "tc_init c0" and "tc_step\<^sup>*\<^sup>* c0 c"
  shows "mset (tc_opened c) = mset (tc_closed c) + mset (tc_handed c) + mset (tc_sock c)
    \<and> (tc_connect c \<and> tc_state c = TC_kDisconnected \<and> StartInLoop \<notin> set (pendingFunctors (tc_loop c)) \<and> tc_failed c = []
        \<longrightarrow> tc_delays c \<noteq> [] \<and> tc_timers c = [last (tc_delays c)])
    \<and> (\<forall>i < length (tc_delays c). tc_delays c ! i = min (500 * 2 ^ i) 30000)
    \<and> retryDelayMs c = min (500 * 2 ^ length (tc_delays c)) 30000
    \<and> (\<forall>ev. tc_event_ok c ev \<longrightarrow> (\<exists>c'. tc_exec ev c = Inr c'))"
proof -
  have inv: "tc_inv c" by (rule tc_sys.reachable_inv [OF assms])
  then have d: "delays_ok (tc_delays c) (retryDelayMs c) (tc_timers c)" by (simp add: tc_inv_def tc_sched_def)
  then have r: "retryDelayMs c = backoff (length (tc_delays c))"
    and ds: "tc_delays c = map backoff [0..<length (tc_delays c)]" by (simp_all add: delays_ok_def)
  have bo: "backoff n = min (500 * 2 ^ n) 30000" for n
    by (simp add: backoff_def kInitRetryDelayMs_def kMaxRetryDelayMs_def)
  have "tc_delays c ! i = min (500 * 2 ^ i) 30000" if "i < length (tc_delays c)" for i
    using arg_cong [OF ds, of "\<lambda>xs. xs ! i"] that bo by simp
  moreover have "tc_delays c \<noteq> [] \<and> tc_timers c = [last (tc_delays c)]"
    if "tc_connect c" "tc_state c = TC_kDisconnected" "StartInLoop \<notin> set (pendingFunctors (tc_loop c))" "tc_failed c = []"
    using inv that d by (auto simp: tc_inv_def tc_sched_def delays_ok_def)
  moreover have "\<exists>c'. tc_exec ev c = Inr c'" if "tc_event_ok c ev" for ev
    using tc_exec_ok [OF inv that] by blast
  moreover have "mset (tc_opened c) = mset (tc_closed c) + mset (tc_handed c) + mset (tc_sock c)"
    using inv by (simp add: tc_inv_def)
  ultimately show ?thesis using r bo by metis
qed

text \<open>The witness: two refused attempts are followed by timers of half a second and one second.\<close>

theorem connector_keeps_trying_witness:
  "\<exists>c0 c. tc_init c0 \<and> tc_step\<^sup>*\<^sup>* c0 c \<and> tc_opened c = [7, 8] \<and> tc_timers c = [1000] \<and> retryDelayMs c = 2000
    \<and> mset (tc_closed c) + mset (tc_handed c) + mset (tc_sock c) = {#7, 8#}"
proof -
  define c0 where "c0 = TcpConnector_new quiet_loop"
  define a where "a f = \<lparr>at_fd = f, at_errno = ECONNREFUSED, at_addr = 100\<rparr>" for f
  have init: "tc_init c0" unfolding tc_init_def c0_def
    by (rule exI [of _ quiet_loop]) (simp add: quiet_loop_inv, simp add: quiet_loop_def)
  define c1 where "c1 = c0\<lparr>tc_connect := True, tc_opened := [7], tc_closed := [7], tc_timers := [500], tc_delays := [500],
    retryDelayMs := 1000\<rparr>"
  define c where "c = c0\<lparr>tc_connect := True, tc_opened := [7, 8], tc_closed := [7, 8], tc_timers := [1000],
    tc_delays := [500, 1000], retryDelayMs := 2000\<rparr>"
  note ev = c_def c1_def c0_def a_def TcpConnector_start_def TcpConnector_startInLoop_def TcpConnector_connect_def
    TcpConnector_retry_def Let_def TcpConnector_new_def kMaxRetryDelayMs_def kInitRetryDelayMs_def ECONNREFUSED_def
    EINPROGRESS_def EINTR_def EISCONN_def
  have "tc_exec (Ev_start True (a 7)) c0 = Inr c1" and "tc_exec (Ev_timer (a 8)) c1 = Inr c" by (simp_all add: ev)
  moreover have "tc_event_ok c0 (Ev_start True (a 7))" and "tc_event_ok c1 (Ev_timer (a 8))"
    by (simp_all add: c1_def c0_def TcpConnector_new_def tc_rest_def attempt_ok_def quiet_loop_def Poller_new_def)
  ultimately have "tc_step c0 c1" and "tc_step c1 c" by (blast intro: tc_step.event)+
  then have run: "tc_step\<^sup>*\<^sup>* c0 c" by (meson converse_rtranclp_into_rtranclp r_into_rtranclp)
  have s: "tc_opened c = [7, 8]" "tc_connect c" "tc_state c = TC_kDisconnected"
    "StartInLoop \<notin> set (pendingFunctors (tc_loop c))" "tc_failed c = []" "tc_delays c = [500, 1000]"
    by (simp_all add: c_def c0_def TcpConnector_new_def quiet_loop_def)
  from connector_keeps_trying [OF init run] s have "tc_timers c = [1000]" "retryDelayMs c = 2000"
    "mset (tc_closed c) + mset (tc_handed c) + mset (tc_sock c) = {#7, 8#}" by auto
  with init run s(1) show ?thesis by blast
qed

end
