(* ===== verification/Image_Compress.thy ===== *)
theory Image_Compress
  imports Compress_Engine
begin

text \<open>
  The tool that fills the registry: \<^verbatim>\<open>src/tool/image_compress.cc\<close>. It takes the layers of a folder one after the
  other, cuts each into segments, lets the compress engine deflate them one at a time, and writes one file per
  segment and one with their number. The lemmas show that the files are those of a definition that mentions no
  engine and no jobs.
\<close>

section \<open>State\<close>

text \<open>
  An entry of the input folder; \<open>in_content\<close> is \<open>None\<close> when it cannot be opened. \<open>input_it\<close> are the entries from
  the current one on, \<open>input_file\<close> the bytes not read yet. The engine is kept beside the record. \<open>src_data\<close>
  is the range the library has for the data of the source buffer; the files and folders written are part of the
  state.
\<close>

record input_entry =
  in_name :: string
  in_regular :: bool
  in_content :: "byte list option"

record ImageCompress =
  input_it :: "input_entry list"
  output_folder :: string
  input_file :: "byte list"
  input_size :: nat
  ic_job_id :: nat
  ic_idx :: nat
  ic_head :: nat
  ic_segment_size :: nat
  src_data :: "nat \<times> nat"
  out_dirs :: "string list"
  out_files :: files

text \<open>The outcomes of making a folder, of opening a file for writing, of setting the data range and of submitting a job.\<close>

record ic_env =
  mkdir_ok :: "string \<Rightarrow> bool"
  out_open_ok :: "string \<Rightarrow> bool"
  ic_set_data :: "nat \<Rightarrow> doca_error"
  ic_submit :: "nat \<Rightarrow> doca_error"

section \<open>Operations\<close>

text \<open>Reading the next segment and starting its job; the end of the constructor and of \<open>onTaskSuccess\<close>.\<close>

definition ic_start_segment :: "ic_env \<Rightarrow> ImageCompress \<times> CompressEngine \<Rightarrow> (ImageCompress \<times> CompressEngine) res" where
  "ic_start_segment env = (\<lambda>(ic, e).
     let read_size = min (size_sub (input_size ic) (ic_head ic)) (ic_segment_size ic) in
     andThen (CompressEngine_get_bufpair e 0) (\<lambda>b.
       defined_if (read_size \<le> length (src_mem b))
         (let b1 = b\<lparr>src_mem := overwrite (src_mem b) 0 (take read_size (input_file ic))\<rparr>;
              e1 = e\<lparr>ce_bufpairs := (ce_bufpairs e)[0 := b1]\<rparr>;
              ic1 = ic\<lparr>input_file := drop read_size (input_file ic)\<rparr>
          in case DocaBuf_set_data_by_offset (src_doca_buf b1) 0 read_size (ic_set_data env (ic_job_id ic)) of
               (r, d) \<Rightarrow>
                 if r \<noteq> DOCA_SUCCESS then Inr (ic1, e1)
                 else andThen (CompressEngine_start_job e1 (ic_job_id ic) DOCA_COMPRESS_DEFLATE_JOB 0 (ic_submit env (ic_job_id ic))) (\<lambda>e2.
                   Inr (ic1\<lparr>ic_job_id := size_add (ic_job_id ic) 1, ic_idx := size_add (ic_idx ic) 1,
                     ic_head := size_add (ic_head ic) read_size,
                     src_data := (case d of None \<Rightarrow> src_data ic | Some r \<Rightarrow> r)\<rparr>, e2)))))"

text \<open>Opening the file the iterator has come to, if there is one.\<close>

definition ic_open_file :: "ic_env \<Rightarrow> ImageCompress \<times> CompressEngine \<Rightarrow> (ImageCompress \<times> CompressEngine) res" where
  "ic_open_file env = (\<lambda>(ic, e).
     case input_it ic of
       [] \<Rightarrow> Inr (ic, e)
     | en # rest \<Rightarrow>
         (case in_content en of
            None \<Rightarrow> Inr (ic, e)
          | Some bs \<Rightarrow> ic_start_segment env (ic\<lparr>input_file := bs, input_size := length bs, ic_idx := 0, ic_head := 0\<rparr>, e)))"

definition next_regular :: "input_entry list \<Rightarrow> input_entry list" where
  "next_regular = dropWhile (\<lambda>en. \<not> in_regular en)"

text \<open>
  The constructor. \<open>dirs\<close> and \<open>fs\<close> are what the output folder has already. The members that the source leaves
  without a value are 0; they are read only after a file has been opened.
\<close>

definition ImageCompress_new ::
  "ic_env \<Rightarrow> CompressEngine \<Rightarrow> input_entry list \<Rightarrow> string \<Rightarrow> nat \<Rightarrow> string list \<Rightarrow> files \<Rightarrow> (ImageCompress \<times> CompressEngine) res" where
  "ImageCompress_new env e dir folder segment_size dirs fs =
     ic_open_file env (\<lparr>input_it = next_regular dir, output_folder = folder, input_file = [], input_size = 0, ic_job_id = 0,
       ic_idx = 0, ic_head = 0, ic_segment_size = segment_size, src_data = (0, 0), out_dirs = dirs, out_files = fs\<rparr>, e)"

definition ascii :: "string \<Rightarrow> byte list" where
  "ascii = map (\<lambda>c. of_nat (of_char c))"

definition layer_path :: "string \<Rightarrow> string \<Rightarrow> string" where
  "layer_path folder name = folder @ ''/'' @ name @ ''/''"

text \<open>
  \<open>onTaskSuccess\<close> for the buffer pair \<open>i\<close> whose destination has \<open>dst_len\<close> bytes of data. The outcomes of the
  writes are not looked at.
\<close>

definition ImageCompress_onTaskSuccess ::
  "ic_env \<Rightarrow> nat \<Rightarrow> nat \<Rightarrow> ImageCompress \<times> CompressEngine \<Rightarrow> (ImageCompress \<times> CompressEngine) res" where
  "ImageCompress_onTaskSuccess env i dst_len = (\<lambda>(ic, e).
     case input_it ic of
       [] \<Rightarrow> Inl Undefined_behaviour
     | en # rest \<Rightarrow>
         let out_layer_path = layer_path (output_folder ic) (in_name en) in
         if out_layer_path \<notin> set (out_dirs ic) \<and> \<not> mkdir_ok env out_layer_path then Inr (ic, e)
         else
           let ic1 = (if out_layer_path \<in> set (out_dirs ic) then ic else ic\<lparr>out_dirs := out_dirs ic @ [out_layer_path]\<rparr>);
               out_file_path = out_layer_path @ show_nat (size_sub (ic_idx ic) 1) @ ''.tar.gz''
           in if \<not> out_open_ok env out_file_path then Inr (ic1, e)
           else andThen (CompressEngine_get_bufpair e i) (\<lambda>b.
             defined_if (dst_len \<le> length (dst_mem b))
               (let ic2 = ic1\<lparr>out_files := (out_files ic1)(out_file_path \<mapsto> take dst_len (dst_mem b))\<rparr> in
                if ic_head ic \<ge> input_size ic then
                  let total_path = out_layer_path @ ''total_segment.txt'' in
                  if \<not> out_open_ok env total_path then Inr (ic2\<lparr>input_file := []\<rparr>, e)
                  else ic_open_file env (ic2\<lparr>input_it := next_regular rest, input_file := [],
                    out_files := (out_files ic2)(total_path \<mapsto> ascii (show_nat (ic_idx ic) @ [CHR 0x0A]))\<rparr>, e)
                else ic_start_segment env (ic2, e))))"

definition ImageCompress_callbacks :: "ic_env \<Rightarrow> ImageCompress compress_user" where
  "ImageCompress_callbacks env call s =
     (case call of
        Compress_success jid i src_len dst_len \<Rightarrow> ImageCompress_onTaskSuccess env i dst_len s
      | Compress_error err \<Rightarrow> Inr s)"

text \<open>
  \<open>main\<close> up to the event loop: the exit status, or the tool. The outcomes are those of making the engine and of its
  memory maps, whether the two folders are there, and whether the output folder can be made.
\<close>

record ic_main_env =
  main_engine :: engine_env
  main_src_maps :: "mmap_outcome list"
  main_dst_maps :: "mmap_outcome list"
  main_mem_addr :: "nat \<Rightarrow> nat"
  main_chan :: nat
  input_exists :: bool
  output_exists :: bool
  output_mkdir :: bool

definition image_compress_main ::
  "ic_main_env \<Rightarrow> ic_env \<Rightarrow> string \<Rightarrow> input_entry list \<Rightarrow> string \<Rightarrow> nat \<Rightarrow> string list \<Rightarrow> files \<Rightarrow>
    (int + (ImageCompress \<times> CompressEngine)) res" where
  "image_compress_main M env pci dir folder segment_size dirs fs =
     andThen (CompressEngine_create (main_engine M) (Some pci) 16 (main_chan M) MAX_FILE_SIZE MAX_FILE_SIZE 1) (\<lambda>(log, r).
       case r of
         Inl err \<Rightarrow> Inr (Inl 1)
       | Inr e \<Rightarrow>
           (case CompressEngine_src_mmaps_start (main_mem_addr M) False (main_src_maps M) e of
              (r1, e1) \<Rightarrow>
                if r1 \<noteq> DOCA_SUCCESS then Inr (Inl (- 1))
                else case CompressEngine_dst_mmaps_start (main_mem_addr M) False (main_dst_maps M) e1 of
                  (r2, e2) \<Rightarrow>
                    if r2 \<noteq> DOCA_SUCCESS then Inr (Inl (- 1))
                    else if \<not> input_exists M then Inr (Inl (- 1))
                    else if \<not> output_exists M \<and> \<not> output_mkdir M then Inr (Inl (- 1))
                    else andThen (ImageCompress_new env (fst (CompressEngine_move e2)) dir folder segment_size dirs fs) (\<lambda>s.
                      Inr (Inr s))))"

section \<open>Runs\<close>

text \<open>
  The hardware finishes the job: it deflates the data of the source into the destination, and the engine handles
  the event. \<open>deflate\<close> is what the hardware computes.
\<close>

definition ic_complete ::
  "(byte list \<Rightarrow> byte list) \<Rightarrow> ic_env \<Rightarrow> ImageCompress \<times> CompressEngine \<Rightarrow> (ImageCompress \<times> CompressEngine) res" where
  "ic_complete deflate env = (\<lambda>(ic, e).
     case workq e of
       [] \<Rightarrow> Inr (ic, e)
     | job # jobs \<Rightarrow>
         andThen (CompressEngine_get_bufpair e (ongoing_bufpair_id e)) (\<lambda>b.
           let data = deflate (take (snd (src_data ic)) (src_mem b));
               e1 = e\<lparr>ce_bufpairs := (ce_bufpairs e)[ongoing_bufpair_id e := b\<lparr>dst_mem := overwrite (dst_mem b) 0 data\<rparr>]\<rparr>
           in CompressEngine_handleRead (ImageCompress_callbacks env) (ic, e1) DOCA_SUCCESS
                (Inr (0, job_user_data job)) (Inr (snd (src_data ic))) (Inr (length data)) DOCA_SUCCESS))"

fun ic_run ::
  "(byte list \<Rightarrow> byte list) \<Rightarrow> ic_env \<Rightarrow> nat \<Rightarrow> ImageCompress \<times> CompressEngine \<Rightarrow> (ImageCompress \<times> CompressEngine) res" where
  "ic_run deflate env 0 s = Inr s"
| "ic_run deflate env (Suc n) s = andThen (ic_complete deflate env s) (ic_run deflate env n)"

lemma ic_run_add: "ic_run deflate env (m + n) s = andThen (ic_run deflate env m s) (ic_run deflate env n)"
  by (induction m arbitrary: s) (auto simp: andThen_assoc)

section \<open>What the tool is to write\<close>

function segments :: "nat \<Rightarrow> 'a list \<Rightarrow> 'a list list" where
  "segments n bs = (if n = 0 \<or> length bs \<le> n then [bs] else take n bs # segments n (drop n bs))"
  by pat_completeness auto
termination by (relation "measure (\<lambda>(n, bs). length bs)") auto

declare segments.simps [simp del]

definition segment_path :: "string \<Rightarrow> string \<Rightarrow> nat \<Rightarrow> string" where
  "segment_path folder name i = layer_path folder name @ show_nat i @ ''.tar.gz''"

definition total_path :: "string \<Rightarrow> string \<Rightarrow> string" where
  "total_path folder name = layer_path folder name @ ''total_segment.txt''"

text \<open>The files of the segments from the \<open>k\<close>th on, and those of a whole layer.\<close>

definition segment_outputs :: "(byte list \<Rightarrow> byte list) \<Rightarrow> string \<Rightarrow> string \<Rightarrow> nat \<Rightarrow> byte list list \<Rightarrow> (string \<times> byte list) list" where
  "segment_outputs deflate folder name k segs =
     map (\<lambda>(i, s). (segment_path folder name i, deflate s)) (enumerate k segs)
     @ [(total_path folder name, ascii (show_nat (k + length segs) @ [CHR 0x0A]))]"

definition layer_outputs :: "(byte list \<Rightarrow> byte list) \<Rightarrow> string \<Rightarrow> nat \<Rightarrow> input_entry \<Rightarrow> (string \<times> byte list) list" where
  "layer_outputs deflate folder n en = segment_outputs deflate folder (in_name en) 0 (segments n (the (in_content en)))"

text \<open>The layers that are compressed: the regular files, up to one that cannot be opened.\<close>

definition readable_layers :: "input_entry list \<Rightarrow> input_entry list" where
  "readable_layers dir = takeWhile (\<lambda>en. in_content en \<noteq> None) (filter in_regular dir)"

definition put_files :: "files \<Rightarrow> (string \<times> byte list) list \<Rightarrow> files" where
  "put_files fs ps = foldl (\<lambda>m (p, bs). m(p \<mapsto> bs)) fs ps"

definition registry_files :: "(byte list \<Rightarrow> byte list) \<Rightarrow> string \<Rightarrow> nat \<Rightarrow> input_entry list \<Rightarrow> files \<Rightarrow> files" where
  "registry_files deflate folder n dir fs = put_files fs (concat (map (layer_outputs deflate folder n) (readable_layers dir)))"

lemma put_files_append: "put_files fs (ps @ qs) = put_files (put_files fs ps) qs"
  by (simp add: put_files_def)

lemma put_files_simps [simp]: "put_files fs [] = fs" "put_files fs ((p, bs) # ps) = put_files (fs(p \<mapsto> bs)) ps"
  by (simp_all add: put_files_def)

lemma concat_segments: "concat (segments n bs) = bs"
  by (induction n bs rule: segments.induct) (subst segments.simps, auto)

lemma segments_nonempty [simp]: "segments n bs \<noteq> []"
  by (subst segments.simps) simp

lemma segments_bounded: "0 < n \<Longrightarrow> s \<in> set (segments n bs) \<Longrightarrow> length s \<le> n"
  by (induction n bs rule: segments.induct) (subst (asm) (2) segments.simps, auto split: if_splits)

lemma segments_count: "0 < n \<Longrightarrow> length (segments n bs) \<le> max 1 (length bs)"
proof (induction n bs rule: segments.induct)
  case (1 n bs)
  then show ?case by (subst segments.simps) (cases "length bs \<le> n"; auto)
qed

lemma segments_last: "length bs \<le> n \<Longrightarrow> segments n bs = [bs]"
  by (subst segments.simps) simp

lemma segments_more: "0 < n \<Longrightarrow> n < length bs \<Longrightarrow> segments n bs = take n bs # segments n (drop n bs)"
  by (subst segments.simps) simp


section \<open>One job after the other\<close>

text \<open>What the tool relies on: its outcomes are good, and a deflated segment fits the destination.\<close>

definition ic_env_ok :: "ic_env \<Rightarrow> bool" where
  "ic_env_ok env \<longleftrightarrow> (\<forall>p. mkdir_ok env p \<and> out_open_ok env p) \<and> (\<forall>j. ic_set_data env j = DOCA_SUCCESS \<and> ic_submit env j = DOCA_SUCCESS)"

definition eng_fits :: "(byte list \<Rightarrow> byte list) \<Rightarrow> nat \<Rightarrow> CompressEngine \<Rightarrow> bool" where
  "eng_fits deflate n e \<longleftrightarrow> (\<exists>b. ce_bufpairs e = [b] \<and> n \<le> length (src_mem b) \<and> db_capacity (src_doca_buf b) = length (src_mem b)
     \<and> length (src_mem b) < 2 ^ 63 \<and> (\<forall>s. length s \<le> n \<longrightarrow> length (deflate s) \<le> length (dst_mem b)))"

definition eng_idle :: "CompressEngine \<Rightarrow> bool" where
  "eng_idle e \<longleftrightarrow> \<not> engine_busy e \<and> workq e = []"

text \<open>The job of the \<open>k\<close>th segment runs; \<open>rest\<close> is the layer from that segment on.\<close>

definition ic_job :: "nat \<Rightarrow> ImageCompress \<times> CompressEngine \<Rightarrow> byte list \<Rightarrow> nat \<Rightarrow> bool" where
  "ic_job n s rest k \<longleftrightarrow> (case s of (ic, e) \<Rightarrow>
     (\<exists>job. workq e = [job]) \<and> ongoing_bufpair_id e = 0 \<and> ic_segment_size ic = n
     \<and> snd (src_data ic) = min (length rest) n \<and> (\<forall>b. ce_bufpairs e = [b] \<longrightarrow> take (min (length rest) n) (src_mem b) = take n rest)
     \<and> input_file ic = drop n rest \<and> k + length rest \<le> input_size ic \<and> input_size ic < 2 ^ 63
     \<and> ic_head ic = input_size ic - length (drop n rest) \<and> ic_idx ic = k + 1)"

definition same_io :: "ImageCompress \<Rightarrow> ImageCompress \<Rightarrow> bool" where
  "same_io ic ic' \<longleftrightarrow> input_it ic' = input_it ic \<and> output_folder ic' = output_folder ic \<and> out_dirs ic' = out_dirs ic \<and> out_files ic' = out_files ic"

lemma take_min_length: "take (min n (length xs)) xs = take n xs"
  by (simp add: min_def)

lemma take_overwrite_start: "take (length ys) (overwrite xs 0 ys) = ys"
  using take_overwrite [of 0 xs ys] by simp

lemma ic_start_segment_ok:
  assumes env: "ic_env_ok env" and fits: "eng_fits deflate n e" and idle: "eng_idle e" and n: "0 < n" "ic_segment_size ic = n"
    and pos: "k + length rest \<le> input_size ic" "input_size ic < 2 ^ 63" "ic_head ic = input_size ic - length rest" "ic_idx ic = k"
    and unread: "input_file ic = rest"
  shows "\<exists>ic' e'. ic_start_segment env (ic, e) = Inr (ic', e') \<and> ic_job n (ic', e') rest k \<and> eng_fits deflate n e' \<and> same_io ic ic'"
proof -
  obtain b where b: "ce_bufpairs e = [b]" "n \<le> length (src_mem b)" "db_capacity (src_doca_buf b) = length (src_mem b)"
    "length (src_mem b) < 2 ^ 63" "\<forall>s. length s \<le> n \<longrightarrow> length (deflate s) \<le> length (dst_mem b)" using fits by (auto simp: eng_fits_def)
  let ?r = "min (length rest) n"
  have size: "?r \<le> length (src_mem b)" "size_sub (input_size ic) (ic_head ic) = length rest" "size_add 0 ?r = ?r" "size_add k 1 = k + 1"
    "size_add (ic_head ic) ?r = input_size ic - length (drop n rest)"
    using pos b(2,4) by (auto simp: size_simps)
  let ?b = "b\<lparr>src_mem := overwrite (src_mem b) 0 (take ?r rest)\<rparr>"
  let ?e = "e\<lparr>ce_bufpairs := [?b], ongoing_bufpair_id := 0, engine_busy := True, workq := [\<lparr>job_user_data = ic_job_id ic,
      job_type = DOCA_COMPRESS_DEFLATE_JOB, job_src = db_buf (src_doca_buf b), job_dst = db_buf (dst_doca_buf b)\<rparr>]\<rparr>"
  let ?ic = "ic\<lparr>input_file := drop ?r rest, ic_job_id := size_add (ic_job_id ic) 1, ic_idx := k + 1,
      ic_head := input_size ic - length (drop n rest), src_data := (size_add (db_ptr (src_doca_buf b)) 0, ?r)\<rparr>"
  have "ic_start_segment env (ic, e) = Inr (?ic, ?e)"
    using env idle n b pos(4) size unread
    by (simp add: ic_start_segment_def ic_env_ok_def eng_idle_def CompressEngine_get_bufpair_def DocaBuf_set_data_by_offset_def
        CompressEngine_start_job_def Let_def)
  moreover have "take ?r (overwrite (src_mem b) 0 (take ?r rest)) = take n rest" "length (overwrite (src_mem b) 0 (take ?r rest)) = length (src_mem b)"
    using take_overwrite [of 0 "src_mem b" "take ?r rest"] b(2) by (simp_all add: min.commute take_min_length)
  ultimately show ?thesis using b pos n
    by (intro exI [of _ ?ic] exI [of _ ?e]) (auto simp: ic_job_def eng_fits_def same_io_def min_def)
qed

text \<open>The end of a job: the file of its segment is written and the tool goes on with an idle engine.\<close>

definition wrote :: "string \<Rightarrow> string \<Rightarrow> byte list \<Rightarrow> ImageCompress \<Rightarrow> ImageCompress" where
  "wrote dir path bs ic =
     (if dir \<in> set (out_dirs ic) then ic else ic\<lparr>out_dirs := out_dirs ic @ [dir]\<rparr>)\<lparr>out_files := (out_files ic)(path \<mapsto> bs)\<rparr>"

definition disarmed :: "ImageCompress \<times> CompressEngine \<Rightarrow> (ImageCompress \<times> CompressEngine) res" where
  "disarmed = (\<lambda>(ic, e). Inr (ic, e\<lparr>ev_armed := True\<rparr>))"

lemma ic_complete_ok:
  assumes env: "ic_env_ok env" and fits: "eng_fits deflate n e" and job: "ic_job n (ic, e) rest k" and it: "input_it ic = en # more_it"
  defines "dir \<equiv> layer_path (output_folder ic) (in_name en)"
  defines "ic1 \<equiv> wrote dir (segment_path (output_folder ic) (in_name en) k) (deflate (take n rest)) ic"
  shows "\<exists>e1. eng_fits deflate n e1 \<and> eng_idle e1
    \<and> ic_complete deflate env (ic, e) = andThen
      (if length rest \<le> n
       then ic_open_file env (ic1\<lparr>input_it := next_regular more_it, input_file := [],
              out_files := (out_files ic1)(total_path (output_folder ic) (in_name en) \<mapsto> ascii (show_nat (k + 1) @ [CHR 0x0A]))\<rparr>, e1)
       else ic_start_segment env (ic1, e1)) disarmed"
proof -
  obtain b where b: "ce_bufpairs e = [b]" "n \<le> length (src_mem b)" "db_capacity (src_doca_buf b) = length (src_mem b)"
    "length (src_mem b) < 2 ^ 63" "\<forall>s. length s \<le> n \<longrightarrow> length (deflate s) \<le> length (dst_mem b)" using fits by (auto simp: eng_fits_def)
  obtain j where j: "workq e = [j]" "ongoing_bufpair_id e = 0" "snd (src_data ic) = min (length rest) n"
    "take (min (length rest) n) (src_mem b) = take n rest" "k + length rest \<le> input_size ic" "input_size ic < 2 ^ 63"
    "ic_head ic = input_size ic - length (drop n rest)" "ic_idx ic = k + 1"
    using job b(1) by (auto simp: ic_job_def)
  have src: "take (snd (src_data ic)) (src_mem b) = take n rest" using j(3,4) by simp
  have last: "input_size ic \<le> ic_head ic \<longleftrightarrow> length rest \<le> n" using j(5,7) by auto
  let ?data = "deflate (take n rest)"
  have len: "length ?data \<le> length (dst_mem b)" using b(5) by simp
  let ?b = "b\<lparr>dst_mem := overwrite (dst_mem b) 0 ?data\<rparr>"
  let ?e1 = "e\<lparr>ce_bufpairs := [?b], engine_busy := False, workq := [], ev_armed := False\<rparr>"
  have "eng_fits deflate n ?e1" "eng_idle ?e1" using b len by (simp_all add: eng_fits_def eng_idle_def)
  moreover have idx: "size_sub (k + 1) 1 = k" using j(5,6) by (simp add: size_simps)
  ultimately have "ic_complete deflate env (ic, e) = andThen
      (if length rest \<le> n
       then ic_open_file env (ic1\<lparr>input_it := next_regular more_it, input_file := [],
              out_files := (out_files ic1)(total_path (output_folder ic) (in_name en) \<mapsto> ascii (show_nat (k + 1) @ [CHR 0x0A]))\<rparr>, ?e1)
       else ic_start_segment env (ic1, ?e1)) disarmed"
    using env j(1,2,8) b(1) len it last src
    by (simp add: ic_complete_def CompressEngine_handleRead_def CompressEngine_get_bufpair_def DocaCore_retrieve_job_once_def retrieved_def
        ImageCompress_callbacks_def ImageCompress_onTaskSuccess_def ic_env_ok_def Let_def ic1_def dir_def wrote_def segment_path_def
        total_path_def disarmed_def take_overwrite_start)
  with \<open>eng_fits deflate n ?e1\<close> \<open>eng_idle ?e1\<close> show ?thesis by blast
qed

section \<open>A layer and a folder\<close>

lemma andThen_return [simp]: "andThen m Inr = m"
  by (cases m) simp_all

lemma armed_simps [simp]:
  "eng_fits deflate n (e\<lparr>ev_armed := b\<rparr>) = eng_fits deflate n e" "eng_idle (e\<lparr>ev_armed := b\<rparr>) = eng_idle e"
  "ic_job n (ic, e\<lparr>ev_armed := b\<rparr>) rest k = ic_job n (ic, e) rest k"
  by (simp_all add: eng_fits_def eng_idle_def ic_job_def)

lemma ic_wrote_simps [simp]:
  "input_it (wrote d p bs ic) = input_it ic" "output_folder (wrote d p bs ic) = output_folder ic"
  "ic_segment_size (wrote d p bs ic) = ic_segment_size ic" "input_size (wrote d p bs ic) = input_size ic"
  "ic_head (wrote d p bs ic) = ic_head ic" "ic_idx (wrote d p bs ic) = ic_idx ic" "input_file (wrote d p bs ic) = input_file ic"
  "out_files (wrote d p bs ic) = (out_files ic)(p \<mapsto> bs)"
  by (simp_all add: wrote_def)

text \<open>The jobs of the segments that are left of a layer; then the tool opens the next one.\<close>

lemma layer_written:
  assumes env: "ic_env_ok env" and n: "0 < n"
  shows "eng_fits deflate n e \<Longrightarrow> ic_job n (ic, e) rest k \<Longrightarrow> input_it ic = en # more_it \<Longrightarrow>
    \<exists>ic1 e1. ic_run deflate env (length (segments n rest)) (ic, e) = andThen (ic_open_file env (ic1, e1)) disarmed
      \<and> eng_fits deflate n e1 \<and> eng_idle e1 \<and> input_it ic1 = next_regular more_it \<and> output_folder ic1 = output_folder ic
      \<and> ic_segment_size ic1 = n
      \<and> out_files ic1 = put_files (out_files ic) (segment_outputs deflate (output_folder ic) (in_name en) k (segments n rest))"
proof (induction "length rest" arbitrary: rest k ic e rule: less_induct)
  case less
  have sz: "ic_segment_size ic = n" using less.prems(2) by (simp add: ic_job_def)
  let ?dir = "layer_path (output_folder ic) (in_name en)" and ?folder = "output_folder ic"
  let ?ic1 = "wrote ?dir (segment_path ?folder (in_name en) k) (deflate (take n rest)) ic"
  obtain e1 where e1: "eng_fits deflate n e1" "eng_idle e1" and run: "ic_complete deflate env (ic, e) = andThen
      (if length rest \<le> n
       then ic_open_file env (?ic1\<lparr>input_it := next_regular more_it, input_file := [],
              out_files := (out_files ?ic1)(total_path ?folder (in_name en) \<mapsto> ascii (show_nat (k + 1) @ [CHR 0x0A]))\<rparr>, e1)
       else ic_start_segment env (?ic1, e1)) disarmed"
    using ic_complete_ok [OF env less.prems] by blast
  show ?case
  proof (cases "length rest \<le> n")
    case True
    let ?ic2 = "?ic1\<lparr>input_it := next_regular more_it, input_file := [],
        out_files := (out_files ?ic1)(total_path ?folder (in_name en) \<mapsto> ascii (show_nat (k + 1) @ [CHR 0x0A]))\<rparr>"
    have "ic_run deflate env (length (segments n rest)) (ic, e) = andThen (ic_open_file env (?ic2, e1)) disarmed"
      using run True by (simp add: segments_last)
    moreover have "out_files ?ic2 = put_files (out_files ic) (segment_outputs deflate ?folder (in_name en) k (segments n rest))"
      using True by (simp add: segments_last segment_outputs_def)
    ultimately show ?thesis using e1 sz by (intro exI [of _ ?ic2] exI [of _ e1]) simp
  next
    case False
    let ?rest = "drop n rest"
    have job: "input_file ic = ?rest" "k + length rest \<le> input_size ic" "input_size ic < 2 ^ 63"
      "ic_head ic = input_size ic - length ?rest" "ic_idx ic = k + 1" using less.prems(2) by (auto simp: ic_job_def)
    have "\<exists>ic' e'. ic_start_segment env (?ic1, e1) = Inr (ic', e') \<and> ic_job n (ic', e') ?rest (k + 1) \<and> eng_fits deflate n e' \<and> same_io ?ic1 ic'"
      by (rule ic_start_segment_ok [OF env e1 n]) (use job sz n False in auto)
    then obtain ic' e' where st: "ic_start_segment env (?ic1, e1) = Inr (ic', e')" "ic_job n (ic', e') ?rest (k + 1)"
      "eng_fits deflate n e'" "same_io ?ic1 ic'" by blast
    have io: "input_it ic' = en # more_it" "output_folder ic' = ?folder"
      "out_files ic' = (out_files ic)(segment_path ?folder (in_name en) k \<mapsto> deflate (take n rest))"
      using st(4) less.prems(3) by (simp_all add: same_io_def)
    let ?e = "e'\<lparr>ev_armed := True\<rparr>"
    have "length ?rest < length rest" using n False by simp
    moreover have "eng_fits deflate n ?e" "ic_job n (ic', ?e) ?rest (k + 1)" using st by simp_all
    ultimately obtain ic1 e2 where fin: "ic_run deflate env (length (segments n ?rest)) (ic', ?e) = andThen (ic_open_file env (ic1, e2)) disarmed"
      "eng_fits deflate n e2" "eng_idle e2" "input_it ic1 = next_regular more_it" "output_folder ic1 = ?folder" "ic_segment_size ic1 = n"
      "out_files ic1 = put_files (out_files ic') (segment_outputs deflate ?folder (in_name en) (k + 1) (segments n ?rest))"
      using less.hyps [of ?rest ?e ic' "k + 1"] io(1,2) by metis
    have seg: "segments n rest = take n rest # segments n ?rest" using n False by (simp add: segments_more)
    have "ic_run deflate env (length (segments n rest)) (ic, e) = andThen (ic_open_file env (ic1, e2)) disarmed"
      using fin(1) run st(1) False by (simp add: seg disarmed_def)
    moreover have "out_files ic1 = put_files (out_files ic) (segment_outputs deflate ?folder (in_name en) k (segments n rest))"
      using fin(7) io(3) by (simp add: seg segment_outputs_def)
    ultimately show ?thesis using fin by blast
  qed
qed

definition all_segments :: "nat \<Rightarrow> input_entry list \<Rightarrow> nat" where
  "all_segments n dir = sum_list (map (\<lambda>en. length (segments n (the (in_content en)))) (readable_layers dir))"

lemma readable_layers_cases:
  "next_regular dir = [] \<Longrightarrow> readable_layers dir = []"
  "next_regular dir = en # rest \<Longrightarrow> in_content en = None \<Longrightarrow> readable_layers dir = []"
  "next_regular dir = en # rest \<Longrightarrow> in_content en = Some bs \<Longrightarrow> readable_layers dir = en # readable_layers rest"
  unfolding next_regular_def readable_layers_def by (induction dir) (auto split: if_splits)

lemma next_regular_smaller: "next_regular dir = en # rest \<Longrightarrow> length rest < length dir \<and> set (en # rest) \<subseteq> set dir"
  unfolding next_regular_def by (induction dir) (auto split: if_splits)

lemma folder_written:
  assumes env: "ic_env_ok env" and n: "0 < n"
  shows "(\<forall>en \<in> set dir. \<forall>bs. in_content en = Some bs \<longrightarrow> length bs < 2 ^ 63) \<Longrightarrow> eng_fits deflate n e \<Longrightarrow> eng_idle e \<Longrightarrow>
    input_it ic = next_regular dir \<Longrightarrow> ic_segment_size ic = n \<Longrightarrow>
    \<exists>ic1 e1. ic_open_file env (ic, e) = Inr (ic1, e1) \<and> (\<forall>b. \<exists>ic' e'. ic_run deflate env (all_segments n dir) (ic1, e1\<lparr>ev_armed := b\<rparr>) = Inr (ic', e')
      \<and> eng_idle e' \<and> out_files ic' = registry_files deflate (output_folder ic) n dir (out_files ic))"
proof (induction "length dir" arbitrary: dir ic e rule: less_induct)
  case less
  show ?case
  proof (cases "next_regular dir")
    case Nil
    with less.prems show ?thesis by (simp add: ic_open_file_def all_segments_def registry_files_def readable_layers_cases)
  next
    case (Cons en rest)
    show ?thesis
    proof (cases "in_content en")
      case None
      with less.prems Cons show ?thesis by (simp add: ic_open_file_def all_segments_def registry_files_def readable_layers_cases(2))
    next
      case (Some bs)
      note sub = next_regular_smaller [OF Cons]
      let ?ic = "ic\<lparr>input_file := bs, input_size := length bs, ic_idx := 0, ic_head := 0\<rparr>"
      have "\<exists>ic' e'. ic_start_segment env (?ic, e) = Inr (ic', e') \<and> ic_job n (ic', e') bs 0 \<and> eng_fits deflate n e' \<and> same_io ?ic ic'"
        by (rule ic_start_segment_ok [OF env less.prems(2,3) n]) (use less.prems(1,5) Some sub in auto)
      then obtain ic1 e1 where st: "ic_start_segment env (?ic, e) = Inr (ic1, e1)" "ic_job n (ic1, e1) bs 0" "eng_fits deflate n e1"
        "same_io ?ic ic1" by blast
      have io: "input_it ic1 = en # rest" "output_folder ic1 = output_folder ic" "out_files ic1 = out_files ic"
        using st(4) less.prems(4) Cons by (simp_all add: same_io_def)
      have "\<exists>ic' e'. ic_run deflate env (all_segments n dir) (ic1, e1\<lparr>ev_armed := b\<rparr>) = Inr (ic', e') \<and> eng_idle e'
          \<and> out_files ic' = registry_files deflate (output_folder ic) n dir (out_files ic)" for b
      proof -
        have f: "eng_fits deflate n (e1\<lparr>ev_armed := b\<rparr>)" "ic_job n (ic1, e1\<lparr>ev_armed := b\<rparr>) bs 0" using st by simp_all
        obtain ic2 e2 where lay: "ic_run deflate env (length (segments n bs)) (ic1, e1\<lparr>ev_armed := b\<rparr>) = andThen (ic_open_file env (ic2, e2)) disarmed"
          "eng_fits deflate n e2" "eng_idle e2" "input_it ic2 = next_regular rest" "output_folder ic2 = output_folder ic" "ic_segment_size ic2 = n"
          "out_files ic2 = put_files (out_files ic) (layer_outputs deflate (output_folder ic) n en)"
          using layer_written [OF env n f io(1)] unfolding layer_outputs_def Some option.sel io(2,3) by blast
        have "\<forall>en \<in> set rest. \<forall>bs. in_content en = Some bs \<longrightarrow> length bs < 2 ^ 63" using less.prems(1) sub by auto
        then obtain ic3 e3 where nx: "ic_open_file env (ic2, e2) = Inr (ic3, e3)"
          "\<exists>ic' e'. ic_run deflate env (all_segments n rest) (ic3, e3\<lparr>ev_armed := True\<rparr>) = Inr (ic', e') \<and> eng_idle e'
            \<and> out_files ic' = registry_files deflate (output_folder ic2) n rest (out_files ic2)"
          using less.hyps [of rest e2 ic2] sub lay by metis
        have "all_segments n dir = length (segments n bs) + all_segments n rest"
          "registry_files deflate (output_folder ic) n dir (out_files ic) = registry_files deflate (output_folder ic2) n rest (out_files ic2)"
          using Some lay(5,7) by (simp_all add: all_segments_def registry_files_def readable_layers_cases(3) [OF Cons] put_files_append)
        then show ?thesis using nx lay(1) by (simp add: ic_run_add disarmed_def)
      qed
      then show ?thesis using st(1) less.prems(4) Cons Some by (auto simp: ic_open_file_def)
    qed
  qed
qed

section \<open>The whole tool\<close>

text \<open>The preparations of \<open>main\<close> succeed.\<close>

definition main_ready :: "ic_main_env \<Rightarrow> string \<Rightarrow> bool" where
  "main_ready M pci \<longleftrightarrow>
     (\<exists>log e e1 e2. CompressEngine_create (main_engine M) (Some pci) 16 (main_chan M) MAX_FILE_SIZE MAX_FILE_SIZE 1 = Inr (log, Inr e)
        \<and> CompressEngine_src_mmaps_start (main_mem_addr M) False (main_src_maps M) e = (DOCA_SUCCESS, e1)
        \<and> CompressEngine_dst_mmaps_start (main_mem_addr M) False (main_dst_maps M) e1 = (DOCA_SUCCESS, e2))
     \<and> length (main_src_maps M) = 1 \<and> length (main_dst_maps M) = 1
     \<and> (\<forall>o1 \<in> set (main_src_maps M @ main_dst_maps M). mmap_buf_res o1 \<noteq> Inl DOCA_SUCCESS) \<and> input_exists M \<and> (output_exists M \<or> output_mkdir M)"

lemma MAX_FILE_SIZE_small: "MAX_FILE_SIZE < 2 ^ 63"
  by (simp add: MAX_FILE_SIZE_def)

lemma main_ready_engine:
  assumes ready: "main_ready M pci" and n: "n \<le> MAX_FILE_SIZE" and fits: "\<forall>s. length s \<le> n \<longrightarrow> length (deflate s) \<le> MAX_FILE_SIZE"
  obtains e where "eng_fits deflate n e" "eng_idle e"
    "\<forall>env dir folder dirs fs. image_compress_main M env pci dir folder n dirs fs = andThen (ImageCompress_new env e dir folder n dirs fs) (\<lambda>s. Inr (Inr s))"
proof -
  obtain log e e1 e2 where e: "CompressEngine_create (main_engine M) (Some pci) 16 (main_chan M) MAX_FILE_SIZE MAX_FILE_SIZE 1 = Inr (log, Inr e)"
    and e1: "CompressEngine_src_mmaps_start (main_mem_addr M) False (main_src_maps M) e = (DOCA_SUCCESS, e1)"
    and e2: "CompressEngine_dst_mmaps_start (main_mem_addr M) False (main_dst_maps M) e1 = (DOCA_SUCCESS, e2)"
    using ready unfolding main_ready_def by blast
  obtain o1 o2 where o12: "main_src_maps M = [o1]" "main_dst_maps M = [o2]" "input_exists M" "output_exists M \<or> output_mkdir M"
    "mmap_buf_res o1 \<noteq> Inl DOCA_SUCCESS" "mmap_buf_res o2 \<noteq> Inl DOCA_SUCCESS"
    using ready by (auto simp: main_ready_def length_Suc_conv)
  obtain core where "e = CompressEngine_new core (main_chan M) MAX_FILE_SIZE MAX_FILE_SIZE 1" using create_engine [OF e] by metis
  then have "ce_bufpairs e = [DocaBufPair_new MAX_FILE_SIZE MAX_FILE_SIZE 0]" "eng_idle e"
    by (simp_all add: CompressEngine_new_def eng_idle_def)
  moreover obtain b1 where "ce_bufpairs e1 = [b1]" "src_mem b1 = replicate MAX_FILE_SIZE 0" "dst_mem b1 = replicate MAX_FILE_SIZE 0"
    "db_capacity (src_doca_buf b1) = MAX_FILE_SIZE" "eng_idle e1"
    using e1 o12(1,5) calculation
    by (auto simp: CompressEngine_src_mmaps_start_def CompressEngine_mmap_start_def DocaBuf_new_def DocaBufPair_new_def eng_idle_def
        split: option.splits sum.splits if_splits)
  ultimately obtain b2 where "ce_bufpairs e2 = [b2]" "src_mem b2 = replicate MAX_FILE_SIZE 0" "dst_mem b2 = replicate MAX_FILE_SIZE 0"
    "db_capacity (src_doca_buf b2) = MAX_FILE_SIZE" "eng_idle e2"
    using e2 o12(2,6)
    by (auto simp: CompressEngine_dst_mmaps_start_def CompressEngine_mmap_start_def eng_idle_def
        split: option.splits sum.splits if_splits)
  moreover from this have "eng_fits deflate n e2" using n fits MAX_FILE_SIZE_small by (simp add: eng_fits_def)
  moreover have "\<forall>env dir folder dirs fs. image_compress_main M env pci dir folder n dirs fs = andThen (ImageCompress_new env e2 dir folder n dirs fs) (\<lambda>s. Inr (Inr s))"
    using e e1 e2 o12 by (auto simp: image_compress_main_def CompressEngine_move_def)
  ultimately show ?thesis using that by blast
qed

lemma registry_written:
  assumes env: "ic_env_ok env" and ready: "main_ready M pci" and n: "0 < n" "n \<le> MAX_FILE_SIZE"
    and fits: "\<forall>s. length s \<le> n \<longrightarrow> length (deflate s) \<le> MAX_FILE_SIZE"
    and dir: "\<forall>en \<in> set dir. \<forall>bs. in_content en = Some bs \<longrightarrow> length bs < 2 ^ 63"
  shows "\<exists>s ic e. image_compress_main M env pci dir folder n dirs fs = Inr (Inr s)
    \<and> ic_run deflate env (all_segments n dir) s = Inr (ic, e) \<and> eng_idle e
    \<and> out_files ic = registry_files deflate folder n dir fs"
proof -
  obtain e where e: "eng_fits deflate n e" "eng_idle e"
    "\<forall>env dir folder dirs fs. image_compress_main M env pci dir folder n dirs fs = andThen (ImageCompress_new env e dir folder n dirs fs) (\<lambda>s. Inr (Inr s))"
    by (rule main_ready_engine [OF ready n(2) fits])
  let ?ic = "\<lparr>input_it = next_regular dir, output_folder = folder, input_file = [], input_size = 0, ic_job_id = 0,
       ic_idx = 0, ic_head = 0, ic_segment_size = n, src_data = (0, 0), out_dirs = dirs, out_files = fs\<rparr>"
  obtain ic1 e1 where o1: "ic_open_file env (?ic, e) = Inr (ic1, e1)"
    "\<forall>b. \<exists>ic' e'. ic_run deflate env (all_segments n dir) (ic1, e1\<lparr>ev_armed := b\<rparr>) = Inr (ic', e') \<and> eng_idle e'
      \<and> out_files ic' = registry_files deflate folder n dir fs"
    using folder_written [OF env n(1) dir e(1,2), of ?ic] by auto
  have "e1\<lparr>ev_armed := ev_armed e1\<rparr> = e1" by simp
  with o1 e(3) show ?thesis unfolding ImageCompress_new_def by (metis andThen_Inr)
qed

text \<open>
  C11. The tool does what a definition without engine and jobs says. When its preparations, its files and its jobs
  succeed, the size \<open>n\<close> of a segment is not zero and at most \<open>MAX_FILE_SIZE\<close>, a deflated segment fits a buffer of that size, and
  each file has fewer than \<open>2 ^ 63\<close> bytes, the tool faults nowhere, whatever else the folder holds; after as many completed jobs as there are segments the engine is idle, and the files are
  the ones there before with those of the readable layers put in: for each layer the deflated segments, numbered from
  zero, and their number in decimal.
\<close>

theorem registry_as_specified:
  assumes "ic_env_ok env" and "main_ready M pci" and "0 < n" and "n \<le> MAX_FILE_SIZE"
    and "\<forall>s. length s \<le> n \<longrightarrow> length (deflate s) \<le> MAX_FILE_SIZE"
    and "\<forall>en \<in> set dir. \<forall>bs. in_content en = Some bs \<longrightarrow> length bs < 2 ^ 63"
  shows "\<exists>s ic e. image_compress_main M env pci dir folder n dirs fs = Inr (Inr s)
    \<and> ic_run deflate env (all_segments n dir) s = Inr (ic, e) \<and> \<not> engine_busy e \<and> workq e = []
    \<and> out_files ic = registry_files deflate folder n dir fs"
  using registry_written [OF assms] by (auto simp: eng_idle_def)

text \<open>The witness: a folder with a directory and a layer of three bytes, cut into segments of two.\<close>

definition sample_ic_env :: ic_env where
  "sample_ic_env = \<lparr>mkdir_ok = (\<lambda>_. True), out_open_ok = (\<lambda>_. True), ic_set_data = (\<lambda>_. DOCA_SUCCESS), ic_submit = (\<lambda>_. DOCA_SUCCESS)\<rparr>"

definition sample_map :: mmap_outcome where
  "sample_map = \<lparr>mmap_create_res = Inr 1, mmap_dev_add_res = DOCA_SUCCESS, mmap_range_res = DOCA_SUCCESS,
     mmap_perm_res = DOCA_SUCCESS, mmap_buf_res = Inr 5\<rparr>"

definition sample_main :: ic_main_env where
  "sample_main = \<lparr>main_engine = sample_engine_env, main_src_maps = [sample_map], main_dst_maps = [sample_map],
     main_mem_addr = (\<lambda>i. 0), main_chan = 4, input_exists = True, output_exists = True, output_mkdir = False\<rparr>"

definition sample_dir :: "input_entry list" where
  "sample_dir = [\<lparr>in_name = ''x'', in_regular = False, in_content = None\<rparr>,
     \<lparr>in_name = ''a'', in_regular = True, in_content = Some [1, 2, 3]\<rparr>]"

lemma sample_main_ready: "main_ready sample_main ''03:00.0''"
proof -
  have "parse_pci_addr (Some ''03:00.0'') = (DOCA_SUCCESS, Some \<lparr>bdf_bus = 3, bdf_device = 0, bdf_function = 0\<rparr>)"
    by (simp add: parse_pci_addr_def strtoul16_def is_space_def hex_value_def)
  then obtain log where e: "CompressEngine_create sample_engine_env (Some ''03:00.0'') 16 4 MAX_FILE_SIZE MAX_FILE_SIZE 1
      = Inr (log, Inr (CompressEngine_new (DocaCore_new 1 16 9) 4 MAX_FILE_SIZE MAX_FILE_SIZE 1))"
    by (simp add: CompressEngine_create_def sample_engine_env_def open_doca_device_with_pci_def DocaCore_create_def)
  let ?e = "CompressEngine_new (DocaCore_new 1 16 9) 4 MAX_FILE_SIZE MAX_FILE_SIZE 1"
  obtain e1 where e1: "CompressEngine_src_mmaps_start (\<lambda>i. 0) False [sample_map] ?e = (DOCA_SUCCESS, e1)" "length (ce_bufpairs e1) = 1"
    by (simp add: CompressEngine_new_def CompressEngine_src_mmaps_start_def CompressEngine_mmap_start_def CompressEngine_create_mmap_def sample_map_def)
  obtain e2 where e2: "CompressEngine_dst_mmaps_start (\<lambda>i. 0) False [sample_map] e1 = (DOCA_SUCCESS, e2)"
    using e1(2) by (auto simp: length_Suc_conv CompressEngine_dst_mmaps_start_def CompressEngine_mmap_start_def CompressEngine_create_mmap_def sample_map_def)
  have "mmap_buf_res sample_map \<noteq> Inl DOCA_SUCCESS" by (simp add: sample_map_def)
  with e e1(1) e2 show ?thesis unfolding main_ready_def by (auto simp: sample_main_def)
qed

theorem registry_as_specified_witness:
  "\<exists>s ic e. image_compress_main sample_main sample_ic_env ''03:00.0'' sample_dir ''out'' 2 [] Map.empty = Inr (Inr s)
    \<and> ic_run (\<lambda>bs. bs) sample_ic_env 2 s = Inr (ic, e)
    \<and> out_files ic = [''out/a/0.tar.gz'' \<mapsto> [1, 2], ''out/a/1.tar.gz'' \<mapsto> [3], ''out/a/total_segment.txt'' \<mapsto> [50, 10]]"
proof -
  have digits: "show_nat 0 = ''0''" "show_nat 1 = ''1''" "show_nat (Suc (Suc 0)) = ''2''" by (simp_all add: show_nat.simps digit_char_def char_of_def bit_0)
  have segs: "segments 2 [1, 2, 3 :: byte] = [[1, 2], [3]]" by (simp add: segments.simps)
  have "readable_layers sample_dir = [\<lparr>in_name = ''a'', in_regular = True, in_content = Some [1, 2, 3]\<rparr>]"
    by (simp add: readable_layers_def sample_dir_def)
  then have "all_segments 2 sample_dir = 2"
    and files: "registry_files (\<lambda>bs. bs) ''out'' 2 sample_dir Map.empty
      = [''out/a/0.tar.gz'' \<mapsto> [1, 2], ''out/a/1.tar.gz'' \<mapsto> [3], ''out/a/total_segment.txt'' \<mapsto> [50, 10]]"
    by (simp_all add: all_segments_def registry_files_def layer_outputs_def segment_outputs_def segs segment_path_def total_path_def
        layer_path_def digits [unfolded One_nat_def] digits ascii_def enumerate_eq_zip)
  moreover have "ic_env_ok sample_ic_env" by (simp add: ic_env_ok_def sample_ic_env_def)
  moreover have "2 \<le> MAX_FILE_SIZE" by (simp add: MAX_FILE_SIZE_def)
  moreover have "\<forall>en \<in> set sample_dir. \<forall>bs. in_content en = Some bs \<longrightarrow> length bs < 2 ^ 63" by (simp add: sample_dir_def)
  ultimately show ?thesis
    using registry_as_specified [of sample_ic_env sample_main "''03:00.0''" 2 "\<lambda>bs. bs" sample_dir "''out''" "[]" Map.empty] sample_main_ready
    by auto
qed

end
