(* ===== verification/Image_Registry.thy ===== *)
theory Image_Registry
  imports Image_Compress Content_Server
begin

text \<open>
  The registry between the tool that writes it, \<^verbatim>\<open>src/tool/image_compress.cc\<close>, and the server that reads
  it, \<^verbatim>\<open>src/src/host/server/content_server.cc\<close>: the server finds every segment the tool wrote under the name it
  looks for, reads their number, and the segments inflated and put together are the layer.
\<close>

section \<open>Names of files\<close>

text \<open>A name of a file has no slash, so the path of a layer and the rest of a path determine each other.\<close>

definition plain_name :: "string \<Rightarrow> bool" where
  "plain_name s \<longleftrightarrow> CHR ''/'' \<notin> set s"

lemma append_sep_inject:
  "sep \<notin> set xs \<Longrightarrow> sep \<notin> set ys \<Longrightarrow> xs @ sep # us = ys @ sep # vs \<longleftrightarrow> xs = ys \<and> us = vs"
proof (induction xs arbitrary: ys)
  case Nil
  then show ?case by (cases ys) auto
next
  case (Cons x xs)
  then show ?case by (cases ys) auto
qed

lemma layer_path_inject:
  "plain_name a \<Longrightarrow> plain_name b \<Longrightarrow> layer_path folder a @ x = layer_path folder b @ y \<longleftrightarrow> a = b \<and> x = y"
  by (simp add: layer_path_def plain_name_def append_sep_inject)

lemma segment_path_inject [simp]: "segment_path folder a i = segment_path folder a j \<longleftrightarrow> i = j"
  by (simp add: segment_path_def)

lemma segment_not_total [simp]: "segment_path folder a i \<noteq> total_path folder a" "total_path folder a \<noteq> segment_path folder a i"
proof -
  obtain d r where d: "show_nat i = digit_char d # r" "d < 10" using show_nat_head by blast
  then have "digit_char d \<noteq> CHR ''t''" using of_char_digit [of d] by auto
  then show "segment_path folder a i \<noteq> total_path folder a" "total_path folder a \<noteq> segment_path folder a i"
    using d(1) by (simp_all add: segment_path_def total_path_def)
qed

lemma layer_outputs_paths: "p \<in> fst ` set (layer_outputs deflate folder n en) \<Longrightarrow> \<exists>x. p = layer_path folder (in_name en) @ x"
  by (auto simp: layer_outputs_def segment_outputs_def segment_path_def total_path_def)

lemma layer_outputs_distinct: "distinct (map fst (layer_outputs deflate folder n en))"
proof -
  have "map fst (map (\<lambda>(i, s). (segment_path folder name i, deflate s)) (enumerate k segs)) = map (segment_path folder name) [k..<k + length segs]"
    for name k segs by (simp add: case_prod_beta comp_def flip: map_fst_enumerate)
  then show ?thesis by (auto simp: layer_outputs_def segment_outputs_def distinct_map inj_on_def)
qed

lemma registry_paths_distinct:
  "distinct (map in_name layers) \<Longrightarrow> \<forall>en \<in> set layers. plain_name (in_name en) \<Longrightarrow>
    distinct (map fst (concat (map (layer_outputs deflate folder n) layers)))"
proof (induction layers)
  case (Cons en layers)
  have "set (map fst (layer_outputs deflate folder n en)) \<inter> set (map fst (concat (map (layer_outputs deflate folder n) layers))) = {}"
  proof (rule ccontr)
    assume "\<not> ?thesis"
    then obtain p en' where en': "en' \<in> set layers" "p \<in> fst ` set (layer_outputs deflate folder n en)" "p \<in> fst ` set (layer_outputs deflate folder n en')"
      by force
    then obtain x y where "layer_path folder (in_name en) @ x = layer_path folder (in_name en') @ y" by (metis layer_outputs_paths)
    then have "in_name en = in_name en'" using Cons.prems(2) en'(1) by (simp add: layer_path_inject)
    with Cons.prems(1) en'(1) show False by auto
  qed
  with Cons layer_outputs_distinct [of deflate folder n en] show ?case by simp
qed simp

section \<open>Looking up files\<close>

lemma put_files_map: "put_files fs ps = fs ++ map_of (rev ps)"
  by (induction ps arbitrary: fs) (auto simp: fun_eq_iff map_add_def split: option.splits)

lemma put_files_lookup: "distinct (map fst ps) \<Longrightarrow> (p, bs) \<in> set ps \<Longrightarrow> put_files fs ps p = Some bs"
  using map_of_is_SomeI [of "rev ps" p bs] by (simp add: put_files_map rev_map [symmetric])

lemma segment_output: "i < length segs \<Longrightarrow> (segment_path folder name (k + i), deflate (segs ! i)) \<in> set (segment_outputs deflate folder name k segs)"
  by (auto simp: segment_outputs_def in_set_enumerate_eq intro!: image_eqI [of _ _ "(k + i, segs ! i)"])

lemma registry_lookup:
  assumes layers: "distinct (map in_name (readable_layers dir))" "\<forall>en \<in> set (readable_layers dir). plain_name (in_name en)"
    and en: "en \<in> set (readable_layers dir)" "in_content en = Some bs"
  shows "i < length (segments n bs) \<Longrightarrow> registry_files deflate folder n dir fs (segment_path folder (in_name en) i) = Some (deflate (segments n bs ! i))"
    and "registry_files deflate folder n dir fs (total_path folder (in_name en)) = Some (ascii (show_nat (length (segments n bs)) @ [CHR 0x0A]))"
proof -
  let ?ps = "concat (map (layer_outputs deflate folder n) (readable_layers dir))"
  have sub: "set (layer_outputs deflate folder n en) \<subseteq> set ?ps" using en(1) by auto
  note look = put_files_lookup [OF registry_paths_distinct [OF layers]]
  show "registry_files deflate folder n dir fs (segment_path folder (in_name en) i) = Some (deflate (segments n bs ! i))"
    if "i < length (segments n bs)"
    unfolding registry_files_def
    by (rule look) (use sub segment_output [OF that, of folder "in_name en" 0 deflate] en(2) in \<open>auto simp: layer_outputs_def\<close>)
  show "registry_files deflate folder n dir fs (total_path folder (in_name en)) = Some (ascii (show_nat (length (segments n bs)) @ [CHR 0x0A]))"
    unfolding registry_files_def
    by (rule look) (use sub en(2) in \<open>auto simp: layer_outputs_def segment_outputs_def\<close>)
qed

section \<open>Reading the number\<close>

lemma read_int_show:
  assumes "n < 2 ^ 31"
  shows "read_int (show_nat n @ [CHR 0x0A]) = Some (int n)"
proof -
  obtain d r where d: "show_nat n = digit_char d # r" "d < 10" using show_nat_head by blast
  have head: "\<not> is_space (digit_char d)" "digit_char d \<noteq> CHR ''-''" "digit_char d \<noteq> CHR ''+''"
    using d(2) of_char_digit [of d] by (auto simp: is_space_def)
  have nl: "\<not> is_digit (CHR 0x0A)" by (simp add: is_digit_def)
  have "takeWhile is_digit (show_nat n @ [CHR 0x0A]) = show_nat n" using show_nat_digits [of n] nl
    by (subst takeWhile_append2) (auto simp: list_all_iff)
  moreover have "dropWhile is_space (show_nat n @ [CHR 0x0A]) = show_nat n @ [CHR 0x0A]" using d head by simp
  ultimately show ?thesis using assms d head digits_value_show [of n] by (simp add: read_int_def Let_def)
qed

definition text_of :: "byte list \<Rightarrow> string" where
  "text_of = map (\<lambda>b. char_of (unat b))"

lemma text_of_ascii: "text_of (ascii s) = s"
  by (induction s) (simp_all add: ascii_def text_of_def unat_of_nat)

section \<open>The registry\<close>

text \<open>What the server relies on: its file helpers show the files that are there.\<close>

definition shows_files :: "content_files \<Rightarrow> files \<Rightarrow> bool" where
  "shows_files view fs \<longleftrightarrow> (\<forall>p bs. fs p = Some bs \<longrightarrow> file_text view p = Some (text_of bs) \<and> file_law view p bs)"

lemma paths_agree:
  assumes "registry_path sv = folder" and "glr_layer req = name"
  shows "glr_index req = int i \<Longrightarrow> index_path sv req = segment_path folder name i"
    and "total_segments_path sv req = total_path folder name"
  using assms by (simp_all add: index_path_def segment_path_def total_segments_path_def total_path_def layer_path_def show_int_def)

text \<open>The tool has run on the folder \<open>dir\<close> with good outcomes, and \<open>view\<close> shows the files it has left.\<close>

definition registry_made ::
  "(byte list \<Rightarrow> byte list) \<Rightarrow> (byte list \<Rightarrow> byte list) \<Rightarrow> string \<Rightarrow> nat \<Rightarrow> input_entry list \<Rightarrow> content_files \<Rightarrow> bool" where
  "registry_made deflate inflate folder n dir view \<longleftrightarrow> 0 < n \<and> n \<le> MAX_FILE_SIZE
     \<and> (\<forall>s. length s \<le> n \<longrightarrow> length (deflate s) \<le> MAX_FILE_SIZE \<and> inflate (deflate s) = s)
     \<and> (\<forall>en \<in> set dir. plain_name (in_name en) \<and> (\<forall>bs. in_content en = Some bs \<longrightarrow> length bs < 2 ^ 31)) \<and> distinct (map in_name dir)
     \<and> (\<exists>env M pci dirs fs s ic e. ic_env_ok env \<and> main_ready M pci \<and> image_compress_main M env pci dir folder n dirs fs = Inr (Inr s)
         \<and> ic_run deflate env (all_segments n dir) s = Inr (ic, e) \<and> shows_files view (out_files ic))"

lemma registry_made_files:
  assumes "registry_made deflate inflate folder n dir view"
  obtains fs where "shows_files view (registry_files deflate folder n dir fs)"
proof -
  obtain env M pci dirs fs s ic e where tool: "ic_env_ok env" "main_ready M pci"
    and run: "image_compress_main M env pci dir folder n dirs fs = Inr (Inr s)" "ic_run deflate env (all_segments n dir) s = Inr (ic, e)"
    and view: "shows_files view (out_files ic)"
    using assms unfolding registry_made_def by blast
  have "0 < n" "n \<le> MAX_FILE_SIZE" "\<forall>s. length s \<le> n \<longrightarrow> length (deflate s) \<le> MAX_FILE_SIZE"
    "\<forall>en \<in> set dir. \<forall>bs. in_content en = Some bs \<longrightarrow> length bs < 2 ^ 63"
    using assms unfolding registry_made_def by fastforce+
  from registry_written [OF tool this, of folder dirs fs] run view show ?thesis by (auto intro: that)
qed

lemma registry_read:
  assumes made: "registry_made deflate inflate folder n dir view" and sv: "registry_path sv = folder"
    and en: "en \<in> set (readable_layers dir)" "in_content en = Some bs"
  obtains segs where "concat (map inflate segs) = bs"
    and "\<forall>req. glr_layer req = in_name en \<longrightarrow> get_int_from_file view (total_segments_path sv req) = int (length segs)
        \<and> (\<forall>i < length segs. glr_index req = int i \<longrightarrow> file_law view (index_path sv req) (segs ! i))"
proof -
  have n: "0 < n" and inv: "\<forall>s. length s \<le> n \<longrightarrow> inflate (deflate s) = s"
    and dir: "\<forall>en \<in> set dir. plain_name (in_name en) \<and> (\<forall>bs. in_content en = Some bs \<longrightarrow> length bs < 2 ^ 31)" "distinct (map in_name dir)"
    using made unfolding registry_made_def by blast+
  obtain fs where view: "shows_files view (registry_files deflate folder n dir fs)" by (rule registry_made_files [OF made])
  have sub: "set (readable_layers dir) \<subseteq> set dir" by (auto simp: readable_layers_def dest: set_takeWhileD)
  have "distinct (map in_name (readable_layers dir))"
    using dir(2) by (auto simp: readable_layers_def distinct_map inj_on_def dest!: set_takeWhileD intro: distinct_takeWhile)
  moreover have "\<forall>en \<in> set (readable_layers dir). plain_name (in_name en)" using dir(1) sub by blast
  ultimately have look: "i < length (segments n bs) \<Longrightarrow> registry_files deflate folder n dir fs (segment_path folder (in_name en) i) = Some (deflate (segments n bs ! i))"
    "registry_files deflate folder n dir fs (total_path folder (in_name en)) = Some (ascii (show_nat (length (segments n bs)) @ [CHR 0x0A]))" for i
    using registry_lookup [of dir en bs] en by blast+
  let ?segs = "map deflate (segments n bs)"
  have "map inflate ?segs = segments n bs" using inv segments_bounded [OF n, of _ bs] by (auto intro!: map_idI)
  then have "concat (map inflate ?segs) = bs" by (simp only: concat_segments)
  moreover have "length (segments n bs) < 2 ^ 31"
    using segments_count [OF n, of bs] dir(1) sub en by (fastforce simp: max_def split: if_splits)
  then have "get_int_from_file view (total_path folder (in_name en)) = int (length ?segs)"
    using view look(2) by (simp add: shows_files_def get_int_from_file_def text_of_ascii read_int_show)
  moreover have "file_law view (segment_path folder (in_name en) i) (?segs ! i)" if "i < length ?segs" for i
    using view look(1) that by (simp add: shows_files_def)
  ultimately show ?thesis by (intro that [of ?segs]) (auto simp: paths_agree [OF sv])
qed

text \<open>
  C10. The registry is read as it was written. When the tool has run on a folder whose layers have distinct names, then
  the server, on the folder the tool wrote, answers for each readable layer with the number of its segments, and finds
  for every index below that number the file of the segment; the contents of these files, inflated and put
  together in the order of the indices, are the layer.
\<close>

theorem registry_round_trip:
  assumes tool: "ic_env_ok env" "main_ready M pci" "0 < n" "n \<le> MAX_FILE_SIZE"
      "\<forall>s. length s \<le> n \<longrightarrow> length (deflate s) \<le> MAX_FILE_SIZE \<and> inflate (deflate s) = s"
      "\<forall>en \<in> set dir. plain_name (in_name en) \<and> (\<forall>bs. in_content en = Some bs \<longrightarrow> length bs < 2 ^ 31)" "distinct (map in_name dir)"
    and run: "image_compress_main M env pci dir folder n dirs fs = Inr (Inr s)" "ic_run deflate env (all_segments n dir) s = Inr (ic, e)"
    and server: "shows_files view (out_files ic)" "registry_path sv = folder"
    and layer: "en \<in> set (readable_layers dir)"
  shows "\<exists>segs. concat (map inflate segs) = the (in_content en)
    \<and> (\<forall>req. glr_layer req = in_name en \<longrightarrow>
        glp_total_segments (layer_response view sv req) = int (length segs)
        \<and> (\<forall>i < length segs. glr_index req = int i \<longrightarrow> file_law view (index_path sv req) (segs ! i)))"
proof -
  have "registry_made deflate inflate folder n dir view" unfolding registry_made_def using tool run server(1) by blast
  moreover obtain bs where bs: "in_content en = Some bs" using layer by (auto simp: readable_layers_def dest: set_takeWhileD)
  ultimately obtain segs where "concat (map inflate segs) = bs"
    "\<forall>req. glr_layer req = in_name en \<longrightarrow> get_int_from_file view (total_segments_path sv req) = int (length segs)
        \<and> (\<forall>i < length segs. glr_index req = int i \<longrightarrow> file_law view (index_path sv req) (segs ! i))"
    by (rule registry_read [OF _ server(2) layer])
  then show ?thesis using bs by (intro exI [of _ segs]) (simp add: layer_response_def)
qed

text \<open>The witness: the registry of the sample folder, with files shown as the helpers do.\<close>

definition sample_view :: "files \<Rightarrow> content_files" where
  "sample_view fs = \<lparr>file_text = (\<lambda>p. map_option text_of (fs p)),
     file_size = (\<lambda>p. case fs p of None \<Rightarrow> - 1 | Some bs \<Rightarrow> int (length bs)),
     file2str = (\<lambda>p m. case fs p of None \<Rightarrow> (- 1, []) | Some bs \<Rightarrow> (int (length bs), take (m - 1) bs @ [0]))\<rparr>"

lemma sample_view_shows: "shows_files (sample_view fs) fs"
  by (simp add: shows_files_def sample_view_def file_law_def)

definition sample_sv :: ContentServer where
  "sample_sv = \<lparr>registry_path = ''out'', layer_is_compressed = True, cs_mem = (\<lambda>_. [])\<rparr>"

theorem registry_round_trip_witness:
  "\<exists>fs segs. concat segs = [1, 2, 3 :: byte] \<and> (\<forall>tag k. glp_total_segments (layer_response (sample_view fs) sample_sv
      \<lparr>glr_layer = ''a'', glr_index = 0, glr_image_name_tag = tag, glr_total_segments = k\<rparr>) = int (length segs))"
proof -
  have fits: "2 \<le> MAX_FILE_SIZE" by (simp add: MAX_FILE_SIZE_def)
  have env: "ic_env_ok sample_ic_env" by (simp add: ic_env_ok_def sample_ic_env_def)
  have dir: "\<forall>en \<in> set sample_dir. \<forall>bs. in_content en = Some bs \<longrightarrow> length bs < 2 ^ 63" by (simp add: sample_dir_def)
  have "\<forall>s :: byte list. length s \<le> 2 \<longrightarrow> length s \<le> MAX_FILE_SIZE" using fits by simp
  from registry_written [where deflate = "\<lambda>bs. bs" and folder = "''out''" and dirs = "[]" and fs = Map.empty, OF env sample_main_ready _ fits this dir]
  obtain s ic e where run: "image_compress_main sample_main sample_ic_env ''03:00.0'' sample_dir ''out'' 2 [] Map.empty = Inr (Inr s)"
    "ic_run (\<lambda>bs. bs) sample_ic_env (all_segments 2 sample_dir) s = Inr (ic, e)" by auto
  let ?en = "\<lparr>in_name = ''a'', in_regular = True, in_content = Some [1, 2, 3 :: byte]\<rparr>"
  have "\<exists>segs. concat (map (\<lambda>bs. bs) segs) = the (in_content ?en)
    \<and> (\<forall>req. glr_layer req = in_name ?en \<longrightarrow>
        glp_total_segments (layer_response (sample_view (out_files ic)) sample_sv req) = int (length segs)
        \<and> (\<forall>i < length segs. glr_index req = int i \<longrightarrow> file_law (sample_view (out_files ic)) (index_path sample_sv req) (segs ! i)))"
    by (rule registry_round_trip [OF env sample_main_ready _ fits _ _ _ run sample_view_shows])
       (use fits in \<open>auto simp: sample_dir_def plain_name_def sample_sv_def readable_layers_def\<close>)
  then obtain segs where "concat segs = [1, 2, 3 :: byte]" "\<forall>req. glr_layer req = ''a'' \<longrightarrow>
      glp_total_segments (layer_response (sample_view (out_files ic)) sample_sv req) = int (length segs)" by auto
  then show ?thesis by (intro exI [of _ "out_files ic"] exI [of _ segs]) simp
qed

end
