(* ===== verification/Pull_Pipeline.thy ===== *)
theory Pull_Pipeline
  imports Content_System Decompress_Pair Untar_Engine Image_Registry
begin

text \<open>
  The way of a layer through the whole system: the tool writes the registry, the content server answers from it, the
  content client hands the segments to the decompress client on the DPU, the decompress server on the host hands
  them to the untar engine, and its task pipes them into \<open>tar\<close>. The lemmas put the invariants of the parts together.
\<close>

section \<open>How the parts are joined\<close>

text \<open>
  \<open>ContentClient::onRecvSuccess\<close> calls \<open>submitDecompressTask\<close>, and \<open>handleDecompressFinishRequest\<close> calls
  \<open>UntarEngine::untar\<close>; a later part may lag behind the one before it. \<open>cont\<close> are the bytes of a segment, those of
  its file.
\<close>

definition pipeline :: "content_files \<Rightarrow> (seg_key \<Rightarrow> byte list) \<Rightarrow> content_system \<Rightarrow> dec_pair \<Rightarrow> untar_system \<Rightarrow> bool" where
  "pipeline view cont S P U \<longleftrightarrow>
     prefix (map ce_key (ds_submitted (dp_sys P))) (map ce_key (fs_tasks (sy_shared S)))
     \<and> prefix (us_given U) (sv_untar (dp_server P))
     \<and> (\<forall>e \<in> set (fs_tasks (sy_shared S)). cont (ce_key e) = task_content view (sy_server S) e)"

text \<open>Nothing is under way any more, and no part lags behind.\<close>

definition all_at_rest :: "(UntarData \<Rightarrow> nat \<Rightarrow> bool) \<Rightarrow> content_system \<Rightarrow> dec_pair \<Rightarrow> untar_system \<Rightarrow> bool" where
  "all_at_rest fw S P U \<longleftrightarrow> cc_inflight_sends (sy_client S) = []
     \<and> map ce_key (ds_submitted (dp_sys P)) = map ce_key (fs_tasks (sy_shared S))
     \<and> dc_inflight_sends (ds_client (dp_sys P)) = [] \<and> \<not> decompress_busy (ds_client (dp_sys P))
     \<and> us_given U = sv_untar (dp_server P)
     \<and> us_todo U = Nothing \<and> 0 < numThreads (us_engine U) \<and> (\<nexists>e' rs. task_step fw (us_engine U) e' rs)"

lemma given_prefix:
  assumes st: "pair_stage lib env senv cont inflate sz P r0 fs R" and link: "pipeline view cont S P U"
  obtains k where "us_given U = map (plain cont inflate) (take k (map ce_key (fs_tasks (sy_shared S))))"
    and "all_at_rest fw S P U \<longrightarrow> us_given U = map (plain cont inflate) (map ce_key (fs_tasks (sy_shared S)))"
proof -
  let ?keys = "map ce_key (fs_tasks (sy_shared S))" and ?sub = "map ce_key (ds_submitted (dp_sys P))"
  obtain k where k: "sv_untar (dp_server P) = map (plain cont inflate \<circ> ce_key) (take k (ds_submitted (dp_sys P)))"
    "dc_inflight_sends (ds_client (dp_sys P)) = [] \<and> \<not> decompress_busy (ds_client (dp_sys P)) \<longrightarrow> k = length (ds_submitted (dp_sys P))"
    using stage_untar [OF st] by blast
  have all: "k = length (ds_submitted (dp_sys P))" if "all_at_rest fw S P U"
  proof -
    have "dc_inflight_sends (ds_client (dp_sys P)) = []" "\<not> decompress_busy (ds_client (dp_sys P))"
      using that by (simp_all add: all_at_rest_def)
    with k(2) show ?thesis by simp
  qed
  have k: "sv_untar (dp_server P) = map (plain cont inflate) (take k ?sub)" using k(1) by (simp add: take_map)
  have "prefix (us_given U) (map (plain cont inflate) (take k ?sub))" using link k by (simp add: pipeline_def)
  moreover have "prefix ?sub ?keys" using link by (simp add: pipeline_def)
  then have "prefix (take k ?sub) ?keys" by (metis take_is_prefix prefix_order.trans)
  then have "prefix (map (plain cont inflate) (take k ?sub)) (map (plain cont inflate) ?keys)" by (rule map_mono_prefix)
  ultimately have "prefix (us_given U) (map (plain cont inflate) ?keys)" by (rule prefix_order.trans)
  then have "us_given U = take (length (us_given U)) (map (plain cont inflate) ?keys)" by (auto simp: prefix_def)
  moreover have "us_given U = map (plain cont inflate) ?keys" if rest: "all_at_rest fw S P U"
  proof -
    have "us_given U = sv_untar (dp_server P)" "?sub = ?keys" using rest by (simp_all add: all_at_rest_def)
    moreover from this(2) have "length (ds_submitted (dp_sys P)) = length (fs_tasks (sy_shared S))" by (rule map_eq_imp_length_eq)
    ultimately show ?thesis using k all [OF rest] by simp
  qed
  ultimately show ?thesis by (intro that [of "length (us_given U)"]) (simp_all add: take_map)
qed

section \<open>The segments of a layer\<close>

lemma filter_take: "\<exists>j. filter Q (take k xs) = take j (filter Q xs)"
proof -
  have "filter Q xs = filter Q (take k xs) @ filter Q (drop k xs)" by (metis append_take_drop_id filter_append)
  then show ?thesis by (intro exI [of _ "length (filter Q (take k xs))"]) simp
qed

lemma take_upt_min: "take j [0..<k] = [0..<min j k]"
  by (cases "j \<le> k") (simp_all add: min_def)

lemma layer_tasks:
  assumes st: "stages lib view S R1 R2 R3 R4" and one: "inj_on fst (set (fetched S))" and l: "(l, img) \<in> set (fetched S)"
  obtains n k where "sy_layer_ok lib view S l img n" "k \<le> n"
    "map ce_key (filter (\<lambda>e. layer e = l) (fs_tasks (sy_shared S))) = map (\<lambda>i. (img, l, int n, int i)) [0..<k]"
    "cc_inflight_sends (sy_client S) = [] \<longrightarrow> k = n"
proof -
  let ?tasks = "fs_tasks (sy_shared S)"
  have books: "books (sy_layer_ok lib view S) (fetched S) ?tasks ((R1 @ R2 @ R3 @ R4) @ unsend_reqs (sy_client S))"
    using st by (simp add: stages_def)
  then obtain n where n: "sy_layer_ok lib view S l img n" using l by (auto simp: books_def due_def)
  obtain k where k: "k \<le> n" "map segment_idx (filter (\<lambda>e. task_key e = (l, img)) ?tasks) = map int [0..<k]"
    "cc_inflight_sends (sy_client S) = [] \<longrightarrow> k = n" using stages_order [OF st l n] by blast
  have key: "task_key e = (l, img) \<and> total_segments e = int n" if "e \<in> set ?tasks" "layer e = l" for e
  proof -
    have ok: "task_ok (sy_layer_ok lib view S) (fetched S) e" using books that(1) by (simp add: books_def)
    then have "task_key e = (l, img)" using inj_onD [OF one, of "task_key e" "(l, img)"] l that(2) by (simp add: task_ok_def task_key_def)
    with ok layer_ok_unique [OF n] show ?thesis by (auto simp: task_ok_def task_key_def)
  qed
  have "filter (\<lambda>e. layer e = l) ?tasks = filter (\<lambda>e. task_key e = (l, img)) ?tasks"
    using key by (intro filter_cong refl) (auto simp: task_key_def)
  moreover have "map ce_key (filter (\<lambda>e. layer e = l) ?tasks) = map (\<lambda>i. (img, l, int n, i)) (map segment_idx (filter (\<lambda>e. layer e = l) ?tasks))"
    using key by (auto simp: ce_key_def task_key_def)
  ultimately have "map ce_key (filter (\<lambda>e. layer e = l) ?tasks) = map (\<lambda>i. (img, l, int n, int i)) [0..<k]"
    by (simp add: k(2) comp_def)
  with n k show ?thesis using that by blast
qed

text \<open>What the untar engine has been given of a layer: its first segments, inflated, with the bytes of their files.\<close>

lemma given_layer:
  assumes st: "stages lib view S R1 R2 R3 R4" and one: "inj_on fst (set (fetched S))" and l: "(l, img) \<in> set (fetched S)"
    and ps: "pair_stage dlib env senv cont inflate sz P r0 fs R" and link: "pipeline view cont S P U"
  obtains n j where "sy_layer_ok lib view S l img n" "j \<le> n"
    "map (\<lambda>d. (ud_segment d, ud_total_segments d)) (layer_of l (us_given U))
      = map (\<lambda>i. (inflate (seg_content view (sy_server S) (seg_request (int n) l img i)), int n)) [0..<j]"
    "all_at_rest fw S P U \<longrightarrow> j = n"
proof -
  let ?tasks = "fs_tasks (sy_shared S)" and ?p = "plain cont inflate"
  obtain n k where nk: "sy_layer_ok lib view S l img n" "k \<le> n"
    "map ce_key (filter (\<lambda>e. layer e = l) ?tasks) = map (\<lambda>i. (img, l, int n, int i)) [0..<k]"
    "cc_inflight_sends (sy_client S) = [] \<longrightarrow> k = n" by (rule layer_tasks [OF st one l])
  obtain q where q: "us_given U = map ?p (take q (map ce_key ?tasks))" "all_at_rest fw S P U \<longrightarrow> us_given U = map ?p (map ce_key ?tasks)"
    by (rule given_prefix [OF ps link])
  have lay: "layer_of l (map ?p (map ce_key es)) = map ?p (map ce_key (filter (\<lambda>e. layer e = l) es))" for es
    by (simp add: layer_of_def filter_map comp_def ce_key_def plain_def)
  obtain j0 where "filter (\<lambda>e. layer e = l) (take q ?tasks) = take j0 (filter (\<lambda>e. layer e = l) ?tasks)" using filter_take by blast
  then have "layer_of l (us_given U) = map ?p (take j0 (map ce_key (filter (\<lambda>e. layer e = l) ?tasks)))"
    using q(1) lay [of "take q ?tasks"] by (simp add: take_map)
  also have "\<dots> = map ?p (map (\<lambda>i. (img, l, int n, int i)) [0..<min j0 k])" unfolding nk(3) by (simp add: take_map take_upt_min)
  finally have some: "layer_of l (us_given U) = map ?p (map (\<lambda>i. (img, l, int n, int i)) [0..<min j0 k])" .
  have bytes: "cont (img, l, int n, int i) = seg_content view (sy_server S) (seg_request (int n) l img i)" if "i < k" for i
  proof -
    have "(img, l, int n, int i) \<in> set (map ce_key (filter (\<lambda>e. layer e = l) ?tasks))" unfolding nk(3) using that by auto
    then obtain e where "e \<in> set ?tasks" "ce_key e = (img, l, int n, int i)" by auto
    with link show ?thesis by (auto simp: pipeline_def task_content_def ce_key_def)
  qed
  define j where "j = (if all_at_rest fw S P U then k else min j0 k)"
  have "layer_of l (us_given U) = map ?p (map (\<lambda>i. (img, l, int n, int i)) [0..<j])"
  proof (cases "all_at_rest fw S P U")
    case True
    with q(2) lay [of ?tasks] nk(3) show ?thesis by (simp add: j_def)
  qed (use some in \<open>simp add: j_def\<close>)
  moreover have "j \<le> k" "all_at_rest fw S P U \<longrightarrow> j = n" using nk(4) by (auto simp: j_def all_at_rest_def)
  ultimately show ?thesis using nk(1,2) bytes by (intro that [of n j]) (auto simp: plain_def)
qed

section \<open>The layer arrives\<close>

text \<open>The contents handed to the untar engine are the first segments of the layer the tool was given.\<close>

lemma given_contents:
  assumes st: "stages lib view S R1 R2 R3 R4" and one: "inj_on fst (set (fetched S))" and l: "(in_name en, img) \<in> set (fetched S)"
    and ps: "pair_stage dlib env senv cont inflate sz P r0 fs R" and link: "pipeline view cont S P U"
    and made: "registry_made deflate inflate (registry_path (sy_server S)) m dir view"
    and en: "en \<in> set (readable_layers dir)" "in_content en = Some bs"
  defines "G \<equiv> layer_of (in_name en) (us_given U)"
  shows "prefix (contents G) bs" and "G \<noteq> [] \<Longrightarrow> complete_layer G \<Longrightarrow> contents G = bs" and "all_at_rest fw S P U \<Longrightarrow> G \<noteq> [] \<and> complete_layer G"
proof -
  let ?l = "in_name en" and ?sv = "sy_server S"
  obtain n j where nj: "sy_layer_ok lib view S ?l img n" "j \<le> n"
    "map (\<lambda>d. (ud_segment d, ud_total_segments d)) G = map (\<lambda>i. (inflate (seg_content view ?sv (seg_request (int n) ?l img i)), int n)) [0..<j]"
    "all_at_rest fw S P U \<longrightarrow> j = n"
    unfolding G_def by (rule given_layer [OF st one l ps link])
  obtain segs where segs: "concat (map inflate segs) = bs"
    "\<forall>req. glr_layer req = ?l \<longrightarrow> get_int_from_file view (total_segments_path ?sv req) = int (length segs)
      \<and> (\<forall>i < length segs. glr_index req = int i \<longrightarrow> file_law view (index_path ?sv req) (segs ! i))"
    by (rule registry_read [OF made refl en])
  have n: "n = length segs" "0 < n" using nj(1) spec [OF segs(2), of "first_request ?l img"] by (auto simp: layer_ok_def first_request_def)
  have "seg_content view ?sv (seg_request (int n) ?l img i) = segs ! i" if "i < n" for i
    using segs(2) that n by (intro seg_content_law) simp
  then have "map (\<lambda>d. (ud_segment d, ud_total_segments d)) G = map (\<lambda>i. (inflate (segs ! i), int n)) [0..<j]"
    unfolding nj(3) using nj(2) by simp
  then have "map fst (map (\<lambda>d. (ud_segment d, ud_total_segments d)) G) = map fst (map (\<lambda>i. (inflate (segs ! i), int n)) [0..<j])"
    and tot: "map snd (map (\<lambda>d. (ud_segment d, ud_total_segments d)) G) = map snd (map (\<lambda>i. (inflate (segs ! i), int n)) [0..<j])" by simp_all
  then have "map ud_segment G = map inflate (map ((!) segs) [0..<j])" and tot: "map ud_total_segments G = map (\<lambda>_. int n) [0..<j]"
    by (simp_all add: comp_def)
  moreover have "map ((!) segs) [0..<j] = take j segs" using nj(2) n(1) by (auto intro: nth_equalityI)
  ultimately have G: "map ud_segment G = take j (map inflate segs)" by (simp add: take_map)
  have len: "length G = j" using arg_cong [OF tot, of length] by simp
  have hd: "ud_total_segments (hd G) = int n" if "G \<noteq> []"
    using tot len that by (metis hd_map list.map_disc_iff list.set_sel(1) in_set_conv_nth length_map nth_map)
  have "bs = concat (take j (map inflate segs)) @ concat (drop j (map inflate segs))"
    unfolding segs(1) [symmetric] by (simp flip: concat_append)
  then show "prefix (contents G) bs" unfolding G by (rule prefixI)
  show "contents G = bs" if "G \<noteq> []" "complete_layer G"
    using that hd len n(1) segs(1) G by (simp add: complete_layer_def)
  show "G \<noteq> [] \<and> complete_layer G" if "all_at_rest fw S P U"
  proof -
    have "j = n" using nj(4) that by blast
    then have "G \<noteq> []" using len n(2) by auto
    with hd len \<open>j = n\<close> show ?thesis by (simp add: complete_layer_def)
  qed
qed

text \<open>At rest every layer that was handed to the untar engine is complete.\<close>

lemma given_complete:
  assumes st: "stages lib view S R1 R2 R3 R4" and one: "inj_on fst (set (fetched S))"
    and ps: "pair_stage dlib env senv cont inflate sz P r0 fs R" and link: "pipeline view cont S P U"
    and rest: "all_at_rest fw S P U" and k: "k \<in> ud_layer ` set (us_given U)"
  shows "complete_layer (layer_of k (us_given U))"
proof -
  obtain q where "us_given U = map (plain cont inflate) (take q (map ce_key (fs_tasks (sy_shared S))))" by (rule given_prefix [OF ps link])
  with k obtain e where e: "e \<in> set (fs_tasks (sy_shared S))" "layer e = k" by (auto simp: plain_def ce_key_def take_map dest: in_set_takeD)
  have "task_key e \<in> set (fetched S)" using st e(1) by (auto simp: stages_def books_def task_ok_def)
  then have "(k, image_name_tag e) \<in> set (fetched S)" using e(2) by (simp add: task_key_def)
  then obtain n j where nj: "sy_layer_ok lib view S k (image_name_tag e) n" "j \<le> n"
    "map (\<lambda>d. (ud_segment d, ud_total_segments d)) (layer_of k (us_given U))
      = map (\<lambda>i. (inflate (seg_content view (sy_server S) (seg_request (int n) k (image_name_tag e) i)), int n)) [0..<j]"
    "all_at_rest fw S P U \<longrightarrow> j = n"
    by (rule given_layer [OF st one _ ps link])
  let ?G = "layer_of k (us_given U)"
  have len: "length ?G = n" using arg_cong [OF nj(3), of length] nj(4) rest by simp
  moreover have "ud_total_segments (hd ?G) = int n"
  proof -
    have "hd ?G \<in> set ?G" using len layer_ok_pos [OF nj(1)] by (auto intro: hd_in_set)
    then have "(ud_segment (hd ?G), ud_total_segments (hd ?G)) \<in> set (map (\<lambda>d. (ud_segment d, ud_total_segments d)) ?G)" by force
    then show ?thesis unfolding nj(3) by auto
  qed
  ultimately show ?thesis by (simp add: complete_layer_def)
qed

text \<open>
  C1. What \<open>tar\<close> gets is what the tool was given. The tool has compressed a folder of layers into the registry of the
  content server; content server and client, the decompress client and server with cards and hardware, and the untar
  engine with its tasks have each run in any interleaving, and are joined as the code joins them. Every layer was fetched for one
  image only, since the untar engine and its map know a layer by its name alone; all segments are compressed ones and the
  calls that the three parts assume to succeed do. Then for each fetched layer that the tool has read, at every moment: at most one result is
  reported; and if no \<open>fwrite\<close> was short, what the task of the layer has piped into \<open>tar\<close>
  is a prefix of the bytes of the layer, and after a reported success \<open>tar\<close> has got exactly
  the bytes of the layer. Once nothing is under way any more, exactly one result has been reported. A layer may have any number of segments.
\<close>

theorem pulled_layer_is_original:
  assumes content: "content_init lib view S0" "(content_step lib view)\<^sup>*\<^sup>* S0 S"
    and dec: "pair_init dlib env senv cont sz P0" "(pair_step dlib left env senv cont inflate sz)\<^sup>*\<^sup>* P0 P"
    and untar: "untar_init U0" "(untar_step fw)\<^sup>*\<^sup>* U0 U"
    and link: "pipeline view cont S P U" and one: "inj_on fst (set (fetched S))"
    and made: "registry_made deflate inflate (registry_path (sy_server S)) m dir view"
    and en: "en \<in> set (readable_layers dir)" "in_content en = Some bs" "(in_name en, img) \<in> set (fetched S)"
  shows "length (results_of (in_name en) (us_results U)) \<le> 1
    \<and> (whole_writes fw (us_given U) \<longrightarrow>
        (\<forall>t \<in> set (executor (us_engine U)). ut_layer t = in_name en \<longrightarrow> prefix (tar_input t) bs)
        \<and> (\<forall>r \<in> set (results_of (in_name en) (us_results U)). ur_success r \<longrightarrow>
            (\<exists>t. filter (\<lambda>t. ut_layer t = in_name en) (executor (us_engine U)) = [t] \<and> tar_input t = bs)))
    \<and> (all_at_rest fw S P U \<longrightarrow> length (results_of (in_name en) (us_results U)) = 1)"
proof -
  let ?l = "in_name en"
  obtain R1 R2 R3 R4 where st: "stages lib view S R1 R2 R3 R4" using content_sys.reachable_inv [OF content] by (auto simp: content_inv_def)
  obtain r0 fs R where ps: "pair_stage dlib env senv cont inflate sz P r0 fs R" using pair_sys.reachable_inv [OF dec] by (auto simp: pair_inv_def)
  have inv: "untar_inv fw U" by (rule untar_sys.reachable_inv [OF untar])
  note G = given_contents [OF st one en(3) ps link made en(1,2)]
  show ?thesis
  proof (cases "?l \<in> ud_layer ` set (us_given U)")
    case True
    let ?G = "layer_of ?l (us_given U)"
    obtain t where t: "filter (\<lambda>t. ut_layer t = ?l) (executor (us_engine U)) = [t]" "\<exists>k. piped fw (tar_input t) (take k ?G)"
      "length (results_of ?l (us_results U)) \<le> 1"
      "\<forall>r \<in> set (results_of ?l (us_results U)). ur_success r \<longrightarrow> complete_layer ?G \<and> piped fw (tar_input t) ?G"
      "us_todo U = Nothing \<and> 0 < numThreads (us_engine U) \<and> (\<nexists>e' rs. task_step fw (us_engine U) e' rs)
        \<and> (\<forall>k \<in> ud_layer ` set (us_given U). complete_layer (layer_of k (us_given U))) \<longrightarrow> length (results_of ?l (us_results U)) = 1"
      by (rule layer_task [OF inv True refl])
    have ne: "?G \<noteq> []" using True by (auto simp: layer_of_def filter_empty_conv)
    have only: "t' = t" if "t' \<in> set (executor (us_engine U))" "ut_layer t' = ?l" for t'
    proof -
      have "t' \<in> set (filter (\<lambda>t. ut_layer t = ?l) (executor (us_engine U)))" using that by simp
      then show ?thesis unfolding t(1) by simp
    qed
    have rest: "length (results_of ?l (us_results U)) = 1" if "all_at_rest fw S P U"
      using t(5) that given_complete [OF st one ps link that] by (simp add: all_at_rest_def)
    have whole: "prefix (tar_input t) bs"
      "\<forall>r \<in> set (results_of ?l (us_results U)). ur_success r \<longrightarrow> tar_input t = bs" if "whole_writes fw (us_given U)"
    proof -
      have w: "whole_writes fw ?G" using that by (simp add: whole_writes_def layer_of_def)
      from t(2) have "prefix (tar_input t) (contents ?G)" using whole_prefix(1) [OF w] by blast
      from this G(1) show "prefix (tar_input t) bs" by (rule prefix_order.trans)
      show "\<forall>r \<in> set (results_of ?l (us_results U)). ur_success r \<longrightarrow> tar_input t = bs"
        using t(4) whole_prefix(2) [OF w] G(2) ne by metis
    qed
    show ?thesis using t(1,3) rest whole only by blast
  next
    case False
    then have none: "layer_of ?l (us_given U) = []" unfolding layer_of_def filter_empty_conv by (metis imageI)
    have "?l \<notin> ut_layer ` set (executor (us_engine U))"
    proof
      assume "?l \<in> ut_layer ` set (executor (us_engine U))"
      then obtain i where i: "i < length (executor (us_engine U))" "ut_layer (executor (us_engine U) ! i) = ?l" by (metis imageE in_set_conv_nth)
      then have "layer_of ?l (us_given U) \<noteq> []" using untar_inv_job [OF inv i(1) refl refl] by metis
      with none show False by simp
    qed
    moreover have "\<forall>r \<in> set (us_results U). ur_layer r \<in> ut_layer ` set (executor (us_engine U))" using inv unfolding untar_inv_def by blast
    ultimately have "results_of ?l (us_results U) = []" "\<forall>t \<in> set (executor (us_engine U)). ut_layer t \<noteq> ?l"
      unfolding results_of_def filter_empty_conv by (metis imageI)+
    moreover have "\<not> all_at_rest fw S P U" using G(3) none by blast
    ultimately show ?thesis by auto
  qed
qed

section \<open>A sample system\<close>

text \<open>
  A folder with one layer of six bytes in segments of three and its registry. The first segment goes all the way: it is fetched,
  decompressed, written on the host and piped into \<open>tar\<close>.
\<close>

definition pull_dir :: "input_entry list" where
  "pull_dir = [\<lparr>in_name = ''l'', in_regular = True, in_content = Some [1, 2, 3, 4, 5, 6]\<rparr>]"

lemma sample_registry_made:
  obtains view where "registry_made (\<lambda>bs. bs) (\<lambda>bs. bs) ''r'' 3 pull_dir view"
proof -
  have fits: "3 \<le> MAX_FILE_SIZE" by (simp add: MAX_FILE_SIZE_def)
  have env: "ic_env_ok sample_ic_env" by (simp add: ic_env_ok_def sample_ic_env_def)
  have dir: "\<forall>en \<in> set pull_dir. \<forall>bs. in_content en = Some bs \<longrightarrow> length bs < 2 ^ 63" by (simp add: pull_dir_def)
  have "\<forall>s :: byte list. length s \<le> 3 \<longrightarrow> length s \<le> MAX_FILE_SIZE" using fits by simp
  from registry_written [where deflate = "\<lambda>bs. bs" and folder = "''r''" and dirs = "[]" and fs = Map.empty, OF env sample_main_ready _ fits this dir]
  obtain s ic e where run: "image_compress_main sample_main sample_ic_env ''03:00.0'' pull_dir ''r'' 3 [] Map.empty = Inr (Inr s)"
    "ic_run (\<lambda>bs. bs) sample_ic_env (all_segments 3 pull_dir) s = Inr (ic, e)" by auto
  have "registry_made (\<lambda>bs. bs) (\<lambda>bs. bs) ''r'' 3 pull_dir (sample_view (out_files ic))"
    unfolding registry_made_def
  proof (intro conjI)
    show "\<exists>env M pci dirs fs s ica e. ic_env_ok env \<and> main_ready M pci \<and> image_compress_main M env pci pull_dir ''r'' 3 dirs fs = Inr (Inr s)
        \<and> ic_run (\<lambda>bs. bs) env (all_segments 3 pull_dir) s = Inr (ica, e) \<and> shows_files (sample_view (out_files ic)) (out_files ica)"
      using env sample_main_ready run sample_view_shows by blast
  qed (use fits in \<open>auto simp: pull_dir_def plain_name_def\<close>)
  then show ?thesis by (rule that)
qed

lemma pull_registry:
  assumes made: "registry_made (\<lambda>bs. bs) (\<lambda>bs. bs) ''r'' 3 pull_dir view"
  shows "sample_registry view" and "registry_path sv = ''r'' \<Longrightarrow> seg_content view sv (seg_request 2 ''l'' ''i'' 0) = [1, 2, 3]"
proof -
  let ?en = "\<lparr>in_name = ''l'', in_regular = True, in_content = Some [1, 2, 3, 4, 5, 6 :: byte]\<rparr>"
  have segs: "segments 3 [1, 2, 3, 4, 5, 6 :: byte] = [[1, 2, 3], [4, 5, 6]]" by (simp add: segments.simps)
  have lay: "readable_layers pull_dir = [?en]" by (simp add: readable_layers_def pull_dir_def)
  obtain fs where view: "shows_files view (registry_files (\<lambda>bs. bs) ''r'' 3 pull_dir fs)" by (rule registry_made_files [OF made])
  have look: "registry_files (\<lambda>bs. bs) ''r'' 3 pull_dir fs (segment_path ''r'' ''l'' i) = Some ([[1, 2, 3], [4, 5, 6]] ! i)" if "i < 2" for i
    using registry_lookup(1) [of pull_dir ?en "[1, 2, 3, 4, 5, 6]" i 3 "\<lambda>bs. bs" "''r''" fs] that by (simp add: lay segs plain_name_def)
  have num: "registry_files (\<lambda>bs. bs) ''r'' 3 pull_dir fs (total_path ''r'' ''l'') = Some (ascii (show_nat 2 @ [CHR 0x0A]))"
    using registry_lookup(2) [of pull_dir ?en "[1, 2, 3, 4, 5, 6]" "\<lambda>bs. bs" "''r''" 3 fs] by (simp add: lay segs plain_name_def numeral_2_eq_2)
  have sv: "registry_path sample_content_server = ''r''" by (simp add: sample_content_server_def)
  note p = paths_agree [OF sv, of _ "''l''"]
  have "get_int_from_file view (total_path ''r'' ''l'') = 2"
    using view num read_int_show [of 2] by (simp add: shows_files_def get_int_from_file_def text_of_ascii)
  moreover have "length ([[1, 2, 3], [4, 5, 6 :: byte]] ! i) = 3 \<and> file_law view (segment_path ''r'' ''l'' i) ([[1, 2, 3], [4, 5, 6]] ! i)" if "i < 2" for i
  proof -
    have "i = 0 \<or> i = 1" using that by auto
    with view look [OF that] show ?thesis by (auto simp: shows_files_def)
  qed
  ultimately show "sample_registry view" unfolding sample_registry_def by (auto simp: p intro!: exI)
  show "seg_content view sv (seg_request 2 ''l'' ''i'' 0) = [1, 2, 3]" if "registry_path sv = ''r''"
    using view look [of 0] by (intro seg_content_law) (simp add: shows_files_def paths_agree [OF that, of _ "''l''"])
qed

lemma pull_first_segment:
  assumes made: "registry_made (\<lambda>bs. bs) (\<lambda>bs. bs) ''r'' 3 pull_dir view"
  obtains S0 S where "content_init sample_lib view S0" and "(content_step sample_lib view)\<^sup>*\<^sup>* S0 S" and "fetched S = [(''l'', ''i'')]"
    and "map ce_key (fs_tasks (sy_shared S)) = [ce_key sample_task]" and "registry_path (sy_server S) = ''r''"
    and "\<forall>e \<in> set (fs_tasks (sy_shared S)). task_content view (sy_server S) e = [1, 2, 3]"
proof -
  obtain cl c where init: "content_init sample_lib view (sample_content_system cl c)" by (rule sample_content_init [OF pull_registry(1) [OF made]])
  let ?S0 = "sample_content_system cl c"
  obtain R4 where st0: "stages sample_lib view ?S0 [] [] [] R4" "sy_sent ?S0 < length (posts (sy_conn ?S0))" by (rule init_sends [OF init])
  obtain S R1 R2 R3 R4' where S: "(content_step sample_lib view)\<^sup>*\<^sup>* ?S0 S" "stages sample_lib view S R1 R2 R3 R4'"
    "fetched S = [(''l'', ''i'')]" "length (fs_tasks (sy_shared S)) = 1" "registry_path (sy_server S) = ''r''"
    by (rule first_answer [OF st0]) (simp add: sample_content_system_def sample_content_server_def)
  obtain e where e: "fs_tasks (sy_shared S) = [e]" using S(4) by (auto simp: length_Suc_conv)
  have "task_key e = (''l'', ''i'')" using S(2,3) e by (auto simp: stages_def books_def task_ok_def)
  then have le: "layer e = ''l''" by (simp add: task_key_def)
  have one: "inj_on fst (set (fetched S))" and l: "(''l'', ''i'') \<in> set (fetched S)" by (simp_all add: S(3))
  obtain n k where n: "sy_layer_ok sample_lib view S ''l'' ''i'' n"
    "map ce_key (filter (\<lambda>e. layer e = ''l'') (fs_tasks (sy_shared S))) = map (\<lambda>i. (''i'', ''l'', int n, int i)) [0..<k]"
    by (rule layer_tasks [OF S(2) one l])
  have path: "registry_path sample_content_server = ''r''" by (simp add: sample_content_server_def)
  have "get_int_from_file view (total_segments_path sample_content_server (seg_request 2 ''l'' ''i'' 0)) = 2"
    using pull_registry(1) [OF made] unfolding sample_registry_def using zero_less_numeral by blast
  moreover have "total_segments_path (sy_server S) (first_request ''l'' ''i'') = total_segments_path sample_content_server (seg_request 2 ''l'' ''i'' 0)"
    by (simp add: total_segments_path_def S(5) path first_request_def)
  ultimately have "n = 2" using n(1) by (simp add: layer_ok_def)
  moreover have "length (map (\<lambda>i. (''i'', ''l'', int n, int i)) [0..<k]) = 1" unfolding n(2) [symmetric] by (simp add: e le)
  then have "k = 1" by simp
  ultimately have key: "ce_key e = (''i'', ''l'', 2, 0)" using n(2) by (simp add: e le)
  then have "task_content view (sy_server S) e = [1, 2, 3]"
    using pull_registry(2) [OF made S(5)] by (simp add: task_content_def ce_key_def)
  moreover have "ce_key e = ce_key sample_task" unfolding key by (simp add: ce_key_def sample_task_def)
  ultimately show thesis using init S(1,3,5) e by (intro that [of ?S0 S]) simp_all
qed

theorem pulled_layer_is_original_witness:
  "\<exists>view S (P :: dec_pair) U. pipeline view sample_cont S P U \<and> fetched S = [(''l'', ''i'')] \<and> \<not> all_at_rest sample_fw S P U
    \<and> map ce_key (fs_tasks (sy_shared S)) = [(''i'', ''l'', 2, 0)] \<and> ds_submitted (dp_sys P) = [sample_task]
    \<and> map tar_input (executor (us_engine U)) = [[1, 2, 3]]
    \<and> (\<forall>t \<in> set (executor (us_engine U)). prefix (tar_input t) [1, 2, 3, 4, 5, 6])
    \<and> length (results_of ''l'' (us_results U)) \<le> 1"
proof -
  let ?en = "\<lparr>in_name = ''l'', in_regular = True, in_content = Some [1, 2, 3, 4, 5, 6 :: byte]\<rparr>"
  obtain view where made: "registry_made (\<lambda>bs. bs) (\<lambda>bs. bs) ''r'' 3 pull_dir view" by (rule sample_registry_made)
  obtain S0 S where S: "content_init sample_lib view S0" "(content_step sample_lib view)\<^sup>*\<^sup>* S0 S" "fetched S = [(''l'', ''i'')]"
    "map ce_key (fs_tasks (sy_shared S)) = [ce_key sample_task]" "registry_path (sy_server S) = ''r''"
    "\<forall>e \<in> set (fs_tasks (sy_shared S)). task_content view (sy_server S) e = [1, 2, 3]"
    by (rule pull_first_segment [OF made])
  obtain P0 where P0: "pair_init sample_dec_lib sample_dec_env sample_server_env sample_cont 3 P0" "ds_submitted (dp_sys P0) = [sample_task]"
    using sample_pair_init [of "[sample_task]"] by auto
  have "length (sample_cont (ce_key sample_task)) \<le> MAX_FILE_SIZE" by (simp add: sample_cont_def MAX_FILE_SIZE_def)
  then obtain P where P: "(pair_step sample_dec_lib sample_left sample_dec_env sample_server_env sample_cont (\<lambda>bs. bs) 3)\<^sup>*\<^sup>* P0 P"
    "ds_submitted (dp_sys P) = [sample_task]" "sv_untar (dp_server P) = [plain sample_cont (\<lambda>bs. bs) (ce_key sample_task)]"
    by (rule first_segment_arrives [OF P0])
  define U where "U = untar_at Piping [] [1, 2, 3] True Nothing [] [sample_segment 0 [1, 2, 3]]"
  have U: "(untar_step sample_fw)\<^sup>*\<^sup>* untar_begin U" unfolding U_def by (rule sample_untar_first) simp
  have "us_given U = sv_untar (dp_server P)"
    by (simp add: P(3) U_def untar_at_def plain_def sample_segment_def ce_key_def sample_task_def sample_cont_def)
  then have link: "pipeline view sample_cont S P U" using P(2) S(4,6) by (simp add: pipeline_def sample_cont_def)
  have made': "registry_made (\<lambda>bs. bs) (\<lambda>bs. bs) (registry_path (sy_server S)) 3 pull_dir view" using made by (simp add: S(5))
  have en: "?en \<in> set (readable_layers pull_dir)" "in_content ?en = Some [1, 2, 3, 4, 5, 6]" "(in_name ?en, ''i'') \<in> set (fetched S)"
    by (simp_all add: readable_layers_def pull_dir_def S(3))
  have one: "inj_on fst (set (fetched S))" by (simp add: S(3))
  have whole: "whole_writes sample_fw (us_given U)" by (simp add: whole_writes_def sample_fw_def)
  have ex: "map tar_input (executor (us_engine U)) = [[1, 2, 3]]" "\<forall>t \<in> set (executor (us_engine U)). ut_layer t = ''l''"
    "results_of ''l'' (us_results U) = []" by (simp_all add: U_def untar_at_def results_of_def)
  from pulled_layer_is_original [OF S(1,2) P0(1) P(1) untar_begin_init U link one made' en] whole ex(2)
  have "length (results_of ''l'' (us_results U)) \<le> 1" "\<forall>t \<in> set (executor (us_engine U)). prefix (tar_input t) [1, 2, 3, 4, 5, 6]"
    "all_at_rest sample_fw S P U \<longrightarrow> length (results_of ''l'' (us_results U)) = 1" by simp_all
  moreover have "ce_key sample_task = (''i'', ''l'', 2, 0)" by (simp add: ce_key_def sample_task_def)
  ultimately show ?thesis using link S(3,4) P(2) ex(1,3) by (intro exI [of _ view] exI [of _ S] exI [of _ P] exI [of _ U]) simp
qed

end
