(* ===== verification/Net_Address.thy ===== *)
theory Net_Address
  imports C_Text Net_Buffer
begin

text \<open>
  Addresses: \<^verbatim>\<open>src/src/network/InetAddress.h\<close>, \<^verbatim>\<open>src/src/network/tcp/InetAddress.cc\<close> and the functions of
  \<^verbatim>\<open>SocketsOps.cc\<close> that look into them. An address is the memory of the union of \<open>sockaddr_in\<close> and
  \<open>sockaddr_in6\<close>: 28 bytes, of which the first two are the family and the next two the port in network order. The
  lemmas show that the text of an address and a port is read back, that the order decides equality for IPv4, and
  that it does not for IPv6.
\<close>

section \<open>The memory of an address\<close>

definition AF_INET :: "16 word" where "AF_INET = 2"
definition AF_INET6 :: "16 word" where "AF_INET6 = 10"
definition sizeof_sockaddr_in :: nat where "sizeof_sockaddr_in = 16"
definition sizeof_sockaddr_in6 :: nat where "sizeof_sockaddr_in6 = 28"

record InetAddress =
  addr_mem :: "byte list"

definition sin_family :: "InetAddress \<Rightarrow> 16 word" where
  "sin_family a = le_word (take 2 (addr_mem a))"

definition portNetEndian :: "InetAddress \<Rightarrow> 16 word" where
  "portNetEndian a = le_word (take 2 (drop 2 (addr_mem a)))"

definition sin_addr :: "InetAddress \<Rightarrow> byte list" where
  "sin_addr a = take 4 (drop 4 (addr_mem a))"

definition sin6_addr :: "InetAddress \<Rightarrow> byte list" where
  "sin6_addr a = take 16 (drop 8 (addr_mem a))"

definition store :: "nat \<Rightarrow> byte list \<Rightarrow> InetAddress \<Rightarrow> InetAddress" where
  "store i bs a = a\<lparr>addr_mem := overwrite (addr_mem a) i bs\<rparr>"

definition set_family :: "16 word \<Rightarrow> InetAddress \<Rightarrow> InetAddress" where
  "set_family f = store 0 (le_bytes 2 f)"

definition set_port :: "16 word \<Rightarrow> InetAddress \<Rightarrow> InetAddress" where
  "set_port port = store 2 (le_bytes 2 (hostToNetwork16 port))"

section \<open>Text of addresses\<close>

text \<open>
  \<open>inet_ntop\<close> and \<open>inet_pton\<close> of the C library for \<open>AF_INET\<close>: four decimal numbers up to 255 without leading zeros,
  separated by dots.
\<close>

fun join_dots :: "string list \<Rightarrow> string" where
  "join_dots [] = []"
| "join_dots [s] = s"
| "join_dots (s # ss) = s @ CHR ''.'' # join_dots ss"

fun split_dots :: "string \<Rightarrow> string list" where
  "split_dots [] = [[]]"
| "split_dots (c # s) =
     (if c = CHR ''.'' then [] # split_dots s
      else case split_dots s of [] \<Rightarrow> [[c]] | p # ps \<Rightarrow> (c # p) # ps)"

definition inet_ntop4 :: "byte list \<Rightarrow> string" where
  "inet_ntop4 bs = join_dots (map (show_nat \<circ> unat) bs)"

definition octet :: "string \<Rightarrow> byte option" where
  "octet s =
     (if s \<noteq> [] \<and> list_all is_digit s \<and> (hd s \<noteq> CHR ''0'' \<or> length s = 1) \<and> digits_value 0 s \<le> 255
      then Some (of_nat (digits_value 0 s)) else None)"

definition inet_pton4 :: "string \<Rightarrow> byte list option" where
  "inet_pton4 s =
     (let parts = split_dots s in
      if length parts = 4 \<and> list_all (\<lambda>p. octet p \<noteq> None) parts then Some (map (the \<circ> octet) parts) else None)"

text \<open>
  The same for \<open>AF_INET6\<close> is \<open>ntop6\<close> and \<open>pton6\<close>. The functions of \<open>sockets\<close>: \<open>toIp\<close> leaves the text
  as it is, here empty, for another family, and \<open>toIpPort\<close> cuts at the end of the buffer.
\<close>

definition sockets_toIp :: "(byte list \<Rightarrow> string) \<Rightarrow> nat \<Rightarrow> InetAddress \<Rightarrow> string res" where
  "sockets_toIp ntop6 sz a =
     (if sin_family a = AF_INET then asserting (16 \<le> sz) (Inr (inet_ntop4 (sin_addr a)))
      else if sin_family a = AF_INET6 then asserting (46 \<le> sz) (Inr (ntop6 (sin6_addr a)))
      else Inr [])"

definition sockets_toIpPort :: "(byte list \<Rightarrow> string) \<Rightarrow> nat \<Rightarrow> InetAddress \<Rightarrow> string res" where
  "sockets_toIpPort ntop6 sz a =
     andThen (sockets_toIp ntop6 sz a) (\<lambda>ip.
       asserting (length ip < sz)
         (Inr (ip @ snprintf_cut (sz - length ip) ('':'' @ show_nat (unat (networkToHost16 (portNetEndian a)))))))"

text \<open>A text that is not an address is logged; the family and the port are set all the same.\<close>

definition sockets_fromIpPort4 :: "string \<Rightarrow> 16 word \<Rightarrow> InetAddress \<Rightarrow> InetAddress" where
  "sockets_fromIpPort4 ip port a =
     (let a1 = set_port port (set_family AF_INET a) in
      case inet_pton4 ip of None \<Rightarrow> a1 | Some bs \<Rightarrow> store 4 bs a1)"

definition sockets_fromIpPort6 :: "(string \<Rightarrow> byte list option) \<Rightarrow> string \<Rightarrow> 16 word \<Rightarrow> InetAddress \<Rightarrow> InetAddress" where
  "sockets_fromIpPort6 pton6 ip port a =
     (let a1 = set_port port (set_family AF_INET6 a) in
      case pton6 ip of None \<Rightarrow> a1 | Some bs \<Rightarrow> store 8 bs a1)"

text \<open>\<open>local\<close> and \<open>peer\<close> are the two ends of the socket.\<close>

definition sockets_isSelfConnect :: "InetAddress \<Rightarrow> InetAddress \<Rightarrow> bool" where
  "sockets_isSelfConnect localaddr peeraddr =
     (if sin_family localaddr = AF_INET
      then portNetEndian localaddr = portNetEndian peeraddr \<and> sin_addr localaddr = sin_addr peeraddr
      else if sin_family localaddr = AF_INET6
      then portNetEndian localaddr = portNetEndian peeraddr \<and> sin6_addr localaddr = sin6_addr peeraddr
      else False)"

text \<open>The error of a socket; \<open>ret\<close>, \<open>optval\<close> and \<open>err\<close> are the outcome of \<open>getsockopt\<close>.\<close>

definition sockets_getSocketError :: "int \<Rightarrow> int \<Rightarrow> int \<Rightarrow> int" where
  "sockets_getSocketError ret optval err = (if ret < 0 then err else optval)"

text \<open>The two ends of a socket: zeros when the call fails, which is only logged.\<close>

definition sockets_getLocalAddr :: "int \<Rightarrow> InetAddress \<Rightarrow> InetAddress" where
  "sockets_getLocalAddr ret name = (if ret < 0 then \<lparr>addr_mem = replicate sizeof_sockaddr_in6 0\<rparr> else name)"

definition sockets_getPeerAddr :: "int \<Rightarrow> InetAddress \<Rightarrow> InetAddress" where
  "sockets_getPeerAddr ret name = (if ret < 0 then \<lparr>addr_mem = replicate sizeof_sockaddr_in6 0\<rparr> else name)"

text \<open>
  The errors of \<open>accept\<close> after which \<open>errno\<close> is restored; after the others it is what logging left, \<open>logged\<close>.
\<close>

definition accept_expected :: "int set" where
  "accept_expected = {11, 103, 4, 71, 1, 24}"

definition sockets_accept :: "int \<Rightarrow> int \<Rightarrow> int \<Rightarrow> int \<times> int" where
  "sockets_accept connfd savedErrno logged =
     (if connfd < 0 then (connfd, if savedErrno \<in> accept_expected then savedErrno else logged) else (connfd, savedErrno))"

section \<open>InetAddress\<close>

text \<open>\<open>mem\<close> is what the memory of the object holds before the constructor; for IPv4 its end stays as it is.\<close>

definition in6addr_loopback :: "byte list" where "in6addr_loopback = replicate 15 0 @ [1]"
definition in6addr_any :: "byte list" where "in6addr_any = replicate 16 0"

definition InetAddress_zero4 :: "byte list \<Rightarrow> InetAddress" where
  "InetAddress_zero4 mem = \<lparr>addr_mem = overwrite mem 0 (replicate sizeof_sockaddr_in 0)\<rparr>"

definition InetAddress_zero6 :: "byte list \<Rightarrow> InetAddress" where
  "InetAddress_zero6 mem = \<lparr>addr_mem = overwrite mem 0 (replicate sizeof_sockaddr_in6 0)\<rparr>"

definition InetAddress_new_port :: "byte list \<Rightarrow> 16 word \<Rightarrow> bool \<Rightarrow> bool \<Rightarrow> InetAddress" where
  "InetAddress_new_port mem port loopbackOnly ipv6 =
     (if ipv6
      then set_port port (store 8 (if loopbackOnly then in6addr_loopback else in6addr_any) (set_family AF_INET6 (InetAddress_zero6 mem)))
      else set_port port (store 4 (le_bytes 4 (hostToNetwork32 (if loopbackOnly then 0x7F000001 else 0))) (set_family AF_INET (InetAddress_zero4 mem))))"

definition InetAddress_new_ip :: "(string \<Rightarrow> byte list option) \<Rightarrow> byte list \<Rightarrow> string \<Rightarrow> 16 word \<Rightarrow> bool \<Rightarrow> InetAddress" where
  "InetAddress_new_ip pton6 mem ip port ipv6 =
     (if ipv6 then sockets_fromIpPort6 pton6 ip port (InetAddress_zero6 mem)
      else sockets_fromIpPort4 ip port (InetAddress_zero4 mem))"

text \<open>
  The constructor gets a view and passes on only where it begins: the text is read up to the first zero, in the characters
  \<open>ip\<close> of the view or in the memory \<open>behind\<close> them. \<open>InetAddress_new_ip\<close> is the constructor for the text that is read.
\<close>

definition view_text :: "string \<Rightarrow> string \<Rightarrow> string res" where
  "view_text ip behind = defined_if (CHR 0x00 \<in> set (ip @ behind)) (Inr (takeWhile (\<lambda>ch. ch \<noteq> CHR 0x00) (ip @ behind)))"

definition InetAddress_new_view :: "(string \<Rightarrow> byte list option) \<Rightarrow> byte list \<Rightarrow> string \<Rightarrow> string \<Rightarrow> 16 word \<Rightarrow> bool \<Rightarrow> InetAddress res" where
  "InetAddress_new_view pton6 mem ip behind port ipv6 =
     andThen (view_text ip behind) (\<lambda>text. Inr (InetAddress_new_ip pton6 mem text port ipv6))"

text \<open>A view of a whole terminated string is read as it is; the view of a part of a string is read on to its end.\<close>

lemma new_view_reads_on:
  assumes "CHR 0x00 \<notin> set ip" and "CHR 0x00 \<notin> set junk"
  shows "InetAddress_new_view pton6 mem ip (junk @ CHR 0x00 # others) port ipv6 = Inr (InetAddress_new_ip pton6 mem (ip @ junk) port ipv6)"
proof -
  have "takeWhile (\<lambda>ch. ch \<noteq> CHR 0x00) ((ip @ junk) @ CHR 0x00 # others) = ip @ junk"
    using assms by (subst takeWhile_append2) auto
  then show ?thesis by (simp add: InetAddress_new_view_def view_text_def defined_if_def)
qed

lemma new_view_terminated:
  assumes "CHR 0x00 \<notin> set ip"
  shows "InetAddress_new_view pton6 mem ip (CHR 0x00 # others) port ipv6 = Inr (InetAddress_new_ip pton6 mem ip port ipv6)"
  using new_view_reads_on [OF assms, of "[]"] by simp

definition InetAddress_toIpPort :: "(byte list \<Rightarrow> string) \<Rightarrow> InetAddress \<Rightarrow> string res" where
  "InetAddress_toIpPort ntop6 a = sockets_toIpPort ntop6 64 a"

definition InetAddress_toIp :: "(byte list \<Rightarrow> string) \<Rightarrow> InetAddress \<Rightarrow> string res" where
  "InetAddress_toIp ntop6 a = sockets_toIp ntop6 64 a"

definition InetAddress_ipNetEndian :: "InetAddress \<Rightarrow> 32 word res" where
  "InetAddress_ipNetEndian a = asserting (sin_family a = AF_INET) (Inr (le_word (sin_addr a)))"

definition InetAddress_toPort :: "InetAddress \<Rightarrow> 16 word" where
  "InetAddress_toPort a = networkToHost16 (portNetEndian a)"

definition InetAddress_setScopeId :: "32 word \<Rightarrow> InetAddress \<Rightarrow> InetAddress" where
  "InetAddress_setScopeId scope_id a = (if sin_family a = AF_INET6 then store 24 (le_bytes 4 scope_id) a else a)"

text \<open>\<open>memcmp\<close>, and the order of the addresses: it compares the bytes of a \<open>sockaddr_in\<close>, whatever the family.\<close>

fun memcmp_less :: "byte list \<Rightarrow> byte list \<Rightarrow> bool" where
  "memcmp_less (x # xs) (y # ys) = (if x = y then memcmp_less xs ys else x < y)"
| "memcmp_less xs ys = False"

definition InetAddress_less :: "InetAddress \<Rightarrow> InetAddress \<Rightarrow> bool" where
  "InetAddress_less lhs rhs =
     memcmp_less (take sizeof_sockaddr_in (addr_mem lhs)) (take sizeof_sockaddr_in (addr_mem rhs))"

section \<open>Dotted numbers\<close>

lemma digits_value_snoc:
  "list_all is_digit (s @ [c]) \<Longrightarrow> digits_value 0 (s @ [c]) = 10 * digits_value 0 s + digit_value c"
  by (simp add: digits_value_def takeWhile_eq_all_conv [THEN iffD2] list_all_iff takeWhile_append)

lemma digit_char_value: "is_digit c \<Longrightarrow> digit_char (digit_value c) = c" and digit_value_less: "is_digit c \<Longrightarrow> digit_value c < 10"
  by (auto simp: is_digit_def digit_value_def digit_char_def)

lemma digit_zero: "is_digit c \<Longrightarrow> digit_value c = 0 \<longleftrightarrow> c = CHR ''0''"
proof -
  have "digit_char 0 = CHR ''0''" by (simp add: digit_char_def char_of_def bit_0)
  then show "is_digit c \<Longrightarrow> digit_value c = 0 \<longleftrightarrow> c = CHR ''0''"
    using digit_char_value [of c] by (auto simp: digit_value_def)
qed

text \<open>A number without leading zeros is printed as it was read.\<close>

lemma show_digits_value:
  "s \<noteq> [] \<Longrightarrow> list_all is_digit s \<Longrightarrow> hd s \<noteq> CHR ''0'' \<or> length s = 1 \<Longrightarrow>
    show_nat (digits_value 0 s) = s \<and> (hd s \<noteq> CHR ''0'' \<longrightarrow> 0 < digits_value 0 s)"
proof (induction s rule: rev_induct)
  case (snoc c s)
  have c: "is_digit c" "list_all is_digit s" using snoc.prems(2) by simp_all
  note v = digits_value_snoc [OF snoc.prems(2)] and d = digit_value_less [OF c(1)] digit_char_value [OF c(1)]
  show ?case
  proof (cases "s = []")
    case True
    then show ?thesis using v d digit_zero [OF c(1)] by (subst show_nat.simps) (auto simp: digits_value_def c(1))
  next
    case False
    then have "hd s \<noteq> CHR ''0''" using snoc.prems(3) by simp
    then have s: "show_nat (digits_value 0 s) = s" "0 < digits_value 0 s" using snoc.IH [OF False c(2)] by simp_all
    then have "show_nat (digits_value 0 (s @ [c])) = s @ [c]"
      unfolding v using d by (subst show_nat.simps) auto
    with s v show ?thesis by simp
  qed
qed simp

lemma unat_byte: "unat (b :: byte) < 256"
proof -
  have "unat b < 2 ^ LENGTH(8)" by (rule unsigned_less)
  then show ?thesis by simp
qed

lemma octet_show: "octet s = Some b \<Longrightarrow> show_nat (unat b) = s"
  using show_digits_value [of s] by (auto simp: octet_def unat_of_nat split: if_splits)

lemma octet_of_show: "octet (show_nat (unat b)) = Some b"
proof -
  have "hd (show_nat n) \<noteq> CHR ''0'' \<or> length (show_nat n) = 1" for n
  proof (induction n rule: show_nat.induct)
    case (1 n)
    show ?case
    proof (cases "n < 10")
      case True
      then show ?thesis by (subst (2) show_nat.simps) simp
    next
      case False
      then obtain d r where s: "show_nat (n div 10) = digit_char d # r" "d < 10" using show_nat_head by blast
      have "digit_char d \<noteq> CHR ''0''"
      proof
        assume "digit_char d = CHR ''0''"
        then have "hd (show_nat (n div 10)) = CHR ''0''" using s by simp
        then have "length (show_nat (n div 10)) = 1" using 1 False by auto
        then have "show_nat (n div 10) = [CHR ''0'']" using s \<open>digit_char d = CHR ''0''\<close> by simp
        then have "n div 10 = 0" using digits_value_show [of "n div 10"] by (simp add: digits_value_def is_digit_def digit_value_def)
        with False show False by simp
      qed
      then show ?thesis using False s by (subst show_nat.simps) simp
    qed
  qed
  moreover have "unat b \<le> 255" using unat_byte [of b] by simp
  ultimately show ?thesis using show_nat_digits [of "unat b"] by (simp add: octet_def digits_value_show)
qed

lemma split_dots_nonempty [simp]: "split_dots s \<noteq> []"
  by (cases s) (auto split: list.split)

lemma join_split: "join_dots (split_dots s) = s"
proof (induction s)
  case (Cons c s)
  then show ?case by (cases "split_dots s"; cases "tl (split_dots s)") (auto split: list.splits)
qed simp

lemma split_join:
  assumes "ss \<noteq> []" and "\<forall>s \<in> set ss. CHR ''.'' \<notin> set s"
  shows "split_dots (join_dots ss) = ss"
proof -
  have one: "split_dots s = [s]" if "CHR ''.'' \<notin> set s" for s using that by (induction s) auto
  have more_parts: "split_dots (s @ CHR ''.'' # t) = s # split_dots t" if "CHR ''.'' \<notin> set s" for s t
    using that by (induction s) auto
  show ?thesis using assms by (induction ss rule: join_dots.induct) (simp_all add: one more_parts)
qed

lemma digits_no_dot: "list_all is_digit s \<Longrightarrow> CHR ''.'' \<notin> set s"
  by (auto simp: list_all_iff is_digit_def)

lemma pton4_ntop4: "length bs = 4 \<Longrightarrow> inet_pton4 (inet_ntop4 bs) = Some bs"
proof -
  assume len: "length bs = 4"
  have "split_dots (inet_ntop4 bs) = map (show_nat \<circ> unat) bs"
    unfolding inet_ntop4_def by (rule split_join) (use len digits_no_dot show_nat_digits in auto)
  then show ?thesis using len by (simp add: inet_pton4_def octet_of_show list_all_iff comp_def)
qed

lemma ntop4_pton4: "inet_pton4 s = Some bs \<Longrightarrow> length bs = 4 \<and> inet_ntop4 bs = s"
proof -
  assume "inet_pton4 s = Some bs"
  then have p: "length (split_dots s) = 4" "list_all (\<lambda>p. octet p \<noteq> None) (split_dots s)" "bs = map (the \<circ> octet) (split_dots s)"
    by (auto simp: inet_pton4_def Let_def split: if_splits)
  have "map (show_nat \<circ> unat) bs = split_dots s"
    using p(2) octet_show unfolding p(3) by (fastforce simp: list_all_iff intro!: map_idI)
  then show ?thesis using p(1,3) join_split [of s] by (simp add: inet_ntop4_def)
qed

text \<open>The longest IPv4 text has fifteen characters.\<close>

lemma ntop4_length: "length bs = 4 \<Longrightarrow> length (inet_ntop4 bs) \<le> 15"
proof -
  have "length (show_nat (unat b)) \<le> 3" for b :: byte
    using show_nat_length [of "unat b" 2] unat_byte [of b] by simp
  note l = this
  assume "length bs = 4"
  then obtain a b c d where "bs = [a, b, c, d]" by (auto simp: length_Suc_conv numeral_eq_Suc)
  then show ?thesis using l [of a] l [of b] l [of c] l [of d] by (simp add: inet_ntop4_def)
qed

section \<open>Fields of the memory\<close>

definition addr_wf :: "InetAddress \<Rightarrow> bool" where
  "addr_wf a \<longleftrightarrow> length (addr_mem a) = sizeof_sockaddr_in6"

lemma store_wf: "addr_wf a \<Longrightarrow> i + length bs \<le> sizeof_sockaddr_in6 \<Longrightarrow> addr_wf (store i bs a)"
  by (simp add: addr_wf_def store_def)

lemma new_ip4_mem:
  assumes "length mem = sizeof_sockaddr_in6" and "inet_pton4 ip = Some bs"
  shows "addr_mem (InetAddress_new_ip pton6 mem ip port False)
    = le_bytes 2 AF_INET @ le_bytes 2 (hostToNetwork16 port) @ bs @ replicate 8 0 @ drop 16 mem"
proof -
  have len: "length bs = 4" using ntop4_pton4 [OF assms(2)] by simp
  have "replicate 16 (0 :: byte) = [0, 0] @ [0, 0] @ replicate 4 0 @ replicate 8 0" by (simp add: numeral_eq_Suc)
  then show ?thesis using assms len
    by (simp add: InetAddress_new_ip_def sockets_fromIpPort4_def set_port_def set_family_def store_def InetAddress_zero4_def
        sizeof_sockaddr_in_def sizeof_sockaddr_in6_def overwrite_def)
qed

lemma new_ip6_mem:
  assumes "length mem = sizeof_sockaddr_in6" and "pton6 ip = Some bs" and "length bs = 16"
  shows "addr_mem (InetAddress_new_ip pton6 mem ip port True)
    = le_bytes 2 AF_INET6 @ le_bytes 2 (hostToNetwork16 port) @ replicate 4 0 @ bs @ replicate 4 0"
proof -
  have "replicate 28 (0 :: byte) = [0, 0] @ [0, 0] @ replicate 4 0 @ replicate 16 0 @ replicate 4 0" by (simp add: numeral_eq_Suc)
  then show ?thesis using assms
    by (simp add: InetAddress_new_ip_def sockets_fromIpPort6_def set_port_def set_family_def store_def InetAddress_zero6_def
        sizeof_sockaddr_in6_def overwrite_def)
qed

lemma family_port_addr:
  assumes "addr_mem a = le_bytes 2 f @ le_bytes 2 (hostToNetwork16 port) @ r"
  shows "sin_family a = f" "InetAddress_toPort a = port" "sin_addr a = take 4 r" "sin6_addr a = take 16 (drop 4 r)"
  using assms by (simp_all add: sin_family_def InetAddress_toPort_def portNetEndian_def sin_addr_def sin6_addr_def)

section \<open>The order\<close>

lemma memcmp_irrefl: "\<not> memcmp_less xs xs"
  by (induction xs) auto

lemma memcmp_trans: "memcmp_less xs ys \<Longrightarrow> memcmp_less ys zs \<Longrightarrow> memcmp_less xs zs"
proof (induction xs ys arbitrary: zs rule: memcmp_less.induct)
  case (1 x xs y ys)
  then show ?case by (cases zs) (auto split: if_splits)
qed auto

lemma memcmp_total: "length xs = length ys \<Longrightarrow> xs = ys \<or> memcmp_less xs ys \<or> memcmp_less ys xs"
proof (induction xs ys rule: memcmp_less.induct)
  case (1 x xs y ys)
  then show ?case by (auto simp: neq_iff)
qed auto

text \<open>
  Two IPv6 addresses that differ in the second half only are equal for the order: a map with addresses as keys, as
  that of the clients of the content fetcher, takes them for one.
\<close>

lemma ipv6_order_collision:
  fixes port :: "16 word"
  assumes "length mem = sizeof_sockaddr_in6" and "pton6 ip = Some (net @ host)" and "pton6 ip' = Some (net @ host')"
    and "length net = 8" "length host = 8" "length host' = 8"
  defines "a \<equiv> InetAddress_new_ip pton6 mem ip port True" and "a' \<equiv> InetAddress_new_ip pton6 mem ip' port True"
  shows "\<not> InetAddress_less a a' \<and> \<not> InetAddress_less a' a" and "host \<noteq> host' \<Longrightarrow> sin6_addr a \<noteq> sin6_addr a'"
proof -
  have m: "addr_mem a = le_bytes 2 AF_INET6 @ le_bytes 2 (hostToNetwork16 port) @ replicate 4 0 @ (net @ host) @ replicate 4 0"
    "addr_mem a' = le_bytes 2 AF_INET6 @ le_bytes 2 (hostToNetwork16 port) @ replicate 4 0 @ (net @ host') @ replicate 4 0"
    unfolding a_def a'_def by (rule new_ip6_mem; use assms in simp)+
  show "\<not> InetAddress_less a a' \<and> \<not> InetAddress_less a' a"
    using assms(4) by (simp add: InetAddress_less_def m sizeof_sockaddr_in_def memcmp_irrefl)
  show "sin6_addr a \<noteq> sin6_addr a'" if "host \<noteq> host'"
    using that assms(4-6) by (simp add: family_port_addr(4) [OF m(1)] family_port_addr(4) [OF m(2)])
qed

text \<open>
  The order on IPv4 addresses is a strict order that tells two addresses apart exactly when the text or the port
  differs, whatever their memory held before: maps with such keys work.
\<close>

lemma address_order:
  fixes port port' :: "16 word" and pton6 :: "string \<Rightarrow> byte list option"
  assumes "length mem = sizeof_sockaddr_in6" "length mem' = sizeof_sockaddr_in6"
    and "inet_pton4 ip = Some bs" "inet_pton4 ip' = Some bs'"
  defines "a \<equiv> InetAddress_new_ip pton6 mem ip port False" and "a' \<equiv> InetAddress_new_ip pton6 mem' ip' port' False"
  shows "(\<not> InetAddress_less a a' \<and> \<not> InetAddress_less a' a) \<longleftrightarrow> (ip = ip' \<and> port = port')"
    and "InetAddress_less a a' \<Longrightarrow> InetAddress_less a' c \<Longrightarrow> InetAddress_less a c"
proof -
  have bs: "length bs = 4" "inet_ntop4 bs = ip" "length bs' = 4" "inet_ntop4 bs' = ip'" using ntop4_pton4 assms(3,4) by blast+
  note m = new_ip4_mem [OF assms(1,3), of pton6 port, folded a_def] new_ip4_mem [OF assms(2,4), of pton6 port', folded a'_def]
  let ?k = "le_bytes 2 AF_INET @ le_bytes 2 (hostToNetwork16 port) @ bs @ replicate 8 0"
  let ?k' = "le_bytes 2 AF_INET @ le_bytes 2 (hostToNetwork16 port') @ bs' @ replicate 8 0"
  have k: "take sizeof_sockaddr_in (addr_mem a) = ?k" "take sizeof_sockaddr_in (addr_mem a') = ?k'"
    using bs by (simp_all add: m sizeof_sockaddr_in_def)
  have "(\<not> memcmp_less ?k ?k' \<and> \<not> memcmp_less ?k' ?k) \<longleftrightarrow> ?k = ?k'"
    using memcmp_total [of ?k ?k'] memcmp_irrefl bs(1,3) by auto
  also have "\<dots> \<longleftrightarrow> bs = bs' \<and> hostToNetwork16 port = hostToNetwork16 port'"
    using bs(1,3) le_bytes_inject [of 2 "hostToNetwork16 port" "hostToNetwork16 port'"] by auto
  also have "\<dots> \<longleftrightarrow> ip = ip' \<and> port = port'" using bs assms(3,4) by (metis networkToHost_hostToNetwork(3) option.inject)
  finally show "(\<not> InetAddress_less a a' \<and> \<not> InetAddress_less a' a) \<longleftrightarrow> (ip = ip' \<and> port = port')"
    by (simp add: InetAddress_less_def k)
  show "InetAddress_less a a' \<Longrightarrow> InetAddress_less a' c \<Longrightarrow> InetAddress_less a c"
    unfolding InetAddress_less_def by (rule memcmp_trans)
qed

section \<open>Properties\<close>

text \<open>
  C40. Addresses and their text: an address made from a text that is an IPv4 address and from a port gives back that text, the
  text with the port behind a colon, and the port, whatever its memory held before; the text always fits the
  buffer of 64 characters; and every four bytes have a text that is read as these bytes.
\<close>

theorem address_round_trip:
  assumes "length mem = sizeof_sockaddr_in6"
  shows "(\<forall>ip port bs. inet_pton4 ip = Some bs \<longrightarrow>
      (let a = InetAddress_new_ip pton6 mem ip port False in
       InetAddress_toIp ntop6 a = Inr ip \<and> InetAddress_toIpPort ntop6 a = Inr (ip @ '':'' @ show_nat (unat port))
       \<and> InetAddress_toPort a = port \<and> sin_addr a = bs))
    \<and> (\<forall>bs. length bs = 4 \<longrightarrow> inet_pton4 (inet_ntop4 bs) = Some bs)"
proof -
  have "InetAddress_toIp ntop6 a = Inr ip \<and> InetAddress_toIpPort ntop6 a = Inr (ip @ '':'' @ show_nat (unat port))
      \<and> InetAddress_toPort a = port \<and> sin_addr a = bs"
    if ip: "inet_pton4 ip = Some bs" and a: "a = InetAddress_new_ip pton6 mem ip port False" for ip port bs a
  proof -
    have bs: "length bs = 4" "inet_ntop4 bs = ip" using ntop4_pton4 [OF ip] by simp_all
    note f = family_port_addr [OF new_ip4_mem [OF assms ip, of pton6 port, folded a]]
    have addr: "sin_addr a = bs" using f(3) bs(1) by simp
    have "length ip \<le> 15" using ntop4_length bs by blast
    moreover have "unat port < 2 ^ LENGTH(16)" by (rule unsigned_less)
    then have "length (show_nat (unat port)) \<le> 5" using show_nat_length [of "unat port" 4] by simp
    ultimately show ?thesis using f(1,2) addr bs(2)
      by (simp add: InetAddress_toIp_def InetAddress_toIpPort_def sockets_toIp_def sockets_toIpPort_def snprintf_cut_def InetAddress_toPort_def)
  qed
  then show ?thesis using pton4_ntop4 by (simp add: Let_def)
qed

theorem address_round_trip_witness:
  "InetAddress_toIpPort (\<lambda>_. []) (InetAddress_new_ip (\<lambda>_. None) (replicate 28 7) ''10.0.0.1'' 80 False) = Inr ''10.0.0.1:80''"
proof -
  have "inet_pton4 ''10.0.0.1'' = Some [10, 0, 0, 1]"
    by (simp add: inet_pton4_def octet_def is_digit_def digits_value_def digit_value_def)
  moreover have "show_nat (unat (80 :: 16 word)) = ''80''" by (simp add: show_nat.simps digit_char_def char_of_def bit_0)
  moreover have "length (replicate 28 (7 :: byte)) = sizeof_sockaddr_in6" by (simp add: sizeof_sockaddr_in6_def)
  ultimately show ?thesis
    using address_round_trip [of "replicate 28 7" "\<lambda>_. None" "\<lambda>_. []"] by (simp add: Let_def)
qed

end
