(* ===== verification/Loop_Threads.thy ===== *)
theory Loop_Threads
  imports C_Text
begin

text \<open>
  Threads with event loops: \<^verbatim>\<open>src/src/network/CountDownLatch.cc\<close>, \<^verbatim>\<open>Thread.cc\<close>, \<^verbatim>\<open>EventLoopThread.cc\<close> and
  \<^verbatim>\<open>EventLoopThreadPool.cc\<close>. The caller of \<open>startLoop\<close> and the new thread act in turns, in steps between which
  the other can act; a mutex has an owner, and waiting for a condition releases it. The lemmas show that
  \<open>startLoop\<close> returns the loop of the thread, initialised and running, that it cannot miss the notification, and that
  the pool hands out its loops in turn.
\<close>

section \<open>Latches and threads\<close>

record CountDownLatch =
  latch_count :: int

definition CountDownLatch_new :: "int \<Rightarrow> CountDownLatch" where
  "CountDownLatch_new n = \<lparr>latch_count = n\<rparr>"

text \<open>\<open>wait\<close> goes on when the count is not positive; \<open>countDown\<close> tells whether it wakes the waiting threads.\<close>

definition CountDownLatch_wait :: "CountDownLatch \<Rightarrow> bool" where
  "CountDownLatch_wait l \<longleftrightarrow> \<not> 0 < latch_count l"

definition CountDownLatch_countDown :: "CountDownLatch \<Rightarrow> CountDownLatch \<times> bool" where
  "CountDownLatch_countDown l = (let l1 = l\<lparr>latch_count := latch_count l - 1\<rparr> in (l1, latch_count l1 = 0))"

definition CountDownLatch_getCount :: "CountDownLatch \<Rightarrow> int" where
  "CountDownLatch_getCount l = latch_count l"

text \<open>The id of the current thread, asked for once and cached from then on.\<close>

definition CurrentThread_cacheTid :: "int \<Rightarrow> int \<Rightarrow> int" where
  "CurrentThread_cacheTid gettid t_cachedTid = (if t_cachedTid = 0 then gettid else t_cachedTid)"

definition CurrentThread_tid :: "int \<Rightarrow> int \<Rightarrow> int" where
  "CurrentThread_tid gettid t_cachedTid = (if t_cachedTid = 0 then CurrentThread_cacheTid gettid t_cachedTid else t_cachedTid)"

lemma CurrentThread_tid_first [simp]: "CurrentThread_tid gettid 0 = gettid"
  by (simp add: CurrentThread_tid_def CurrentThread_cacheTid_def)

record Thread =
  th_started :: bool
  th_joined :: bool
  th_tid :: int
  th_name :: string
  th_latch :: CountDownLatch

text \<open>\<open>num\<close> is the number of threads made before.\<close>

definition Thread_setDefaultName :: "int \<Rightarrow> string \<Rightarrow> string" where
  "Thread_setDefaultName num name = (if name = [] then snprintf_cut 32 (''Thread'' @ show_int num) else name)"

definition Thread_new :: "int \<Rightarrow> string \<Rightarrow> Thread" where
  "Thread_new num n = \<lparr>th_started = False, th_joined = False, th_tid = 0, th_name = Thread_setDefaultName num n,
     th_latch = CountDownLatch_new 1\<rparr>"

text \<open>
  \<open>start\<close> up to the wait, with whether the thread was created and then whether to wait, and from there on. A
  thread that cannot be created is only logged.
\<close>

definition Thread_start :: "bool \<Rightarrow> Thread \<Rightarrow> (Thread \<times> bool) res" where
  "Thread_start created t = asserting (\<not> th_started t) (if created then Inr (t\<lparr>th_started := True\<rparr>, True) else Inr (t\<lparr>th_started := False\<rparr>, False))"

definition Thread_started :: "Thread \<Rightarrow> Thread res" where
  "Thread_started t = asserting (0 < th_tid t) (Inr t)"

definition Thread_join :: "Thread \<Rightarrow> Thread res" where
  "Thread_join t = asserting (th_started t) (asserting (\<not> th_joined t) (Inr (t\<lparr>th_joined := True\<rparr>)))"

text \<open>The destructor: whether the thread is detached.\<close>

definition Thread_destroy :: "Thread \<Rightarrow> bool" where
  "Thread_destroy t \<longleftrightarrow> th_started t \<and> \<not> th_joined t"

text \<open>The name the new thread gives itself, and then when its function has returned or thrown.\<close>

definition thread_name :: "Thread \<Rightarrow> string" where
  "thread_name t = (if th_name t = [] then ''muduoThread'' else th_name t)"

text \<open>How the function of a thread ends: the name the thread has then, or the end of the process.\<close>

datatype func_exit = Func_returns | Func_throws_exception | Func_throws_other

definition runInThread_exit :: "func_exit \<Rightarrow> string res" where
  "runInThread_exit e = (case e of
       Func_returns \<Rightarrow> Inr ''finished''
     | Func_throws_exception \<Rightarrow> Inl Terminated
     | Func_throws_other \<Rightarrow> Inl Terminated)"

definition isMainThread :: "int \<Rightarrow> int \<Rightarrow> int \<Rightarrow> bool" where
  "isMainThread gettid t_cachedTid getpid \<longleftrightarrow> CurrentThread_tid gettid t_cachedTid = getpid"

text \<open>A weak callback calls its function when its object still is there; \<open>lock\<close> gives the object.\<close>

definition WeakCallback_call :: "'o option \<Rightarrow> ('o \<Rightarrow> 's \<Rightarrow> 's) \<Rightarrow> 's \<Rightarrow> 's" where
  "WeakCallback_call lock f s = (case lock of None \<Rightarrow> s | Some ptr \<Rightarrow> f ptr s)"

section \<open>A thread with an event loop\<close>

text \<open>
  Where the caller of \<open>startLoop\<close> is: before the start, waiting for the latch, before the mutex, testing
  \<open>loop_\<close> with the mutex, waiting for the condition, or done with the loop it got. Where the new thread is: not there
  yet, before telling its id, before counting down, before the callback, before the mutex, before publishing the loop, in the
  loop, before the mutex again, before clearing \<open>loop_\<close>, at its end.
\<close>

datatype caller_pc = S_start | S_latch | S_lock | S_check | S_wait | S_done nat
datatype thread_pc = T_none | T_tid | T_count | T_init | T_lock | T_publish | T_loop | T_relock | T_clear | T_end
datatype mutex_owner = Caller | Worker

record EventLoopThread =
  elt_loop :: "nat option"
  exiting :: bool
  elt_thread :: Thread
  elt_mutex :: "mutex_owner option"
  elt_notified :: bool
  has_callback :: bool
  caller_at :: caller_pc
  thread_at :: thread_pc
  inited :: "nat list"

definition EventLoopThread_new :: "int \<Rightarrow> bool \<Rightarrow> string \<Rightarrow> EventLoopThread" where
  "EventLoopThread_new num cb name = \<lparr>elt_loop = None, exiting = False, elt_thread = Thread_new num name, elt_mutex = None,
     elt_notified = False, has_callback = cb, caller_at = S_start, thread_at = T_none, inited = []\<rparr>"

text \<open>A step of \<open>startLoop\<close>; \<open>None\<close> while it is blocked or when it has returned. \<open>spurious\<close> wakes the wait without a notification.\<close>

definition startLoop_step :: "bool \<Rightarrow> bool \<Rightarrow> EventLoopThread \<Rightarrow> EventLoopThread res option" where
  "startLoop_step created spurious t =
     (case caller_at t of
        S_start \<Rightarrow> Some (andThen (Thread_start created (elt_thread t)) (\<lambda>(th, waits).
          Inr (t\<lparr>elt_thread := th, caller_at := (if waits then S_latch else S_lock), thread_at := (if waits then T_tid else T_none)\<rparr>)))
      | S_latch \<Rightarrow> if CountDownLatch_wait (th_latch (elt_thread t))
          then Some (andThen (Thread_started (elt_thread t)) (\<lambda>th. Inr (t\<lparr>elt_thread := th, caller_at := S_lock\<rparr>))) else None
      | S_lock \<Rightarrow> if elt_mutex t = None then Some (Inr (t\<lparr>elt_mutex := Some Caller, caller_at := S_check\<rparr>)) else None
      | S_check \<Rightarrow> (case elt_loop t of
            None \<Rightarrow> Some (Inr (t\<lparr>elt_mutex := None, elt_notified := False, caller_at := S_wait\<rparr>))
          | Some l \<Rightarrow> Some (Inr (t\<lparr>elt_mutex := None, caller_at := S_done l\<rparr>)))
      | S_wait \<Rightarrow> if (elt_notified t \<or> spurious) \<and> elt_mutex t = None
          then Some (Inr (t\<lparr>elt_mutex := Some Caller, elt_notified := False, caller_at := S_check\<rparr>)) else None
      | S_done l \<Rightarrow> None)"

text \<open>
  A step of the new thread, which has the id \<open>tid\<close> and its event loop at the address \<open>l\<close>; \<open>ends\<close> is whether its
  loop ends. \<open>inited\<close> are the loops the callback was called with.
\<close>

definition threadFunc_step :: "int \<Rightarrow> nat \<Rightarrow> bool \<Rightarrow> EventLoopThread \<Rightarrow> EventLoopThread option" where
  "threadFunc_step tid l ends t =
     (case thread_at t of
        T_tid \<Rightarrow> Some (t\<lparr>elt_thread := (elt_thread t)\<lparr>th_tid := CurrentThread_tid tid 0\<rparr>, thread_at := T_count\<rparr>)
      | T_count \<Rightarrow> Some (t\<lparr>elt_thread := (elt_thread t)\<lparr>th_latch := fst (CountDownLatch_countDown (th_latch (elt_thread t)))\<rparr>, thread_at := T_init\<rparr>)
      | T_init \<Rightarrow> Some (t\<lparr>inited := (if has_callback t then inited t @ [l] else inited t), thread_at := T_lock\<rparr>)
      | T_lock \<Rightarrow> if elt_mutex t = None then Some (t\<lparr>elt_mutex := Some Worker, thread_at := T_publish\<rparr>) else None
      | T_publish \<Rightarrow> Some (t\<lparr>elt_loop := Some l, elt_notified := (elt_notified t \<or> caller_at t = S_wait), elt_mutex := None, thread_at := T_loop\<rparr>)
      | T_loop \<Rightarrow> if ends then Some (t\<lparr>thread_at := T_relock\<rparr>) else None
      | T_relock \<Rightarrow> if elt_mutex t = None then Some (t\<lparr>elt_mutex := Some Worker, thread_at := T_clear\<rparr>) else None
      | T_clear \<Rightarrow> Some (t\<lparr>elt_loop := None, elt_mutex := None, thread_at := T_end\<rparr>)
      | _ \<Rightarrow> None)"

text \<open>The destructor: whether the loop is told to quit, and the thread.\<close>

definition EventLoopThread_destroy :: "EventLoopThread \<Rightarrow> (bool \<times> EventLoopThread) res" where
  "EventLoopThread_destroy t =
     (let t1 = t\<lparr>exiting := True\<rparr> in
      if elt_loop t1 \<noteq> None
      then andThen (Thread_join (elt_thread t1)) (\<lambda>th. Inr (True, t1\<lparr>elt_thread := th\<rparr>))
      else Inr (False, t1))"

section \<open>Starting a loop\<close>

inductive elt_step :: "int \<Rightarrow> nat \<Rightarrow> bool \<Rightarrow> EventLoopThread \<Rightarrow> EventLoopThread \<Rightarrow> bool" for tid l ends where
  caller: "startLoop_step True spurious t = Some (Inr t') \<Longrightarrow> elt_step tid l ends t t'"
| thread: "threadFunc_step tid l ends t = Some t' \<Longrightarrow> elt_step tid l ends t t'"

text \<open>A run in which the caller acts at \<open>True\<close> and the thread at \<open>False\<close>.\<close>

fun elt_run :: "int \<Rightarrow> nat \<Rightarrow> bool \<Rightarrow> bool list \<Rightarrow> EventLoopThread \<Rightarrow> EventLoopThread option" where
  "elt_run tid l ends [] t = Some t"
| "elt_run tid l ends (True # bs) t = (case startLoop_step True False t of Some (Inr t') \<Rightarrow> elt_run tid l ends bs t' | _ \<Rightarrow> None)"
| "elt_run tid l ends (False # bs) t = (case threadFunc_step tid l ends t of Some t' \<Rightarrow> elt_run tid l ends bs t' | None \<Rightarrow> None)"

lemma elt_run_steps: "elt_run tid l ends bs t = Some u \<Longrightarrow> (elt_step tid l ends)\<^sup>*\<^sup>* t u"
  by (induction tid l ends bs t rule: elt_run.induct)
    (auto split: option.splits sum.splits intro: converse_rtranclp_into_rtranclp elt_step.intros)

definition elt_init :: "EventLoopThread \<Rightarrow> bool" where
  "elt_init t \<longleftrightarrow> (\<exists>num cb name. t = EventLoopThread_new num cb name)"

text \<open>How far the new thread and the caller are.\<close>

fun thread_rank :: "thread_pc \<Rightarrow> nat" where
  "thread_rank T_none = 0"
| "thread_rank T_tid = 1"
| "thread_rank T_count = 2"
| "thread_rank T_init = 3"
| "thread_rank T_lock = 4"
| "thread_rank T_publish = 5"
| "thread_rank T_loop = 6"
| "thread_rank T_relock = 7"
| "thread_rank T_clear = 8"
| "thread_rank T_end = 9"

lemma thread_rank_le: "thread_rank pc \<le> 9"
  by (cases pc) simp_all

text \<open>
  The mutex belongs to the one that is between taking and releasing it; the latch is open, and the id told, when the
  thread is past them; \<open>loop_\<close> is set from its publication until it is cleared; the caller that waits without
  notification waits for a publication to come.
\<close>

definition elt_mutex_ok :: "EventLoopThread \<Rightarrow> bool" where
  "elt_mutex_ok t \<longleftrightarrow> \<not> (caller_at t = S_check \<and> (thread_at t = T_publish \<or> thread_at t = T_clear))
     \<and> elt_mutex t = (if caller_at t = S_check then Some Caller else if thread_at t = T_publish \<or> thread_at t = T_clear then Some Worker else None)"

definition elt_latch_ok :: "int \<Rightarrow> EventLoopThread \<Rightarrow> bool" where
  "elt_latch_ok tid t \<longleftrightarrow> (caller_at t = S_start) = (thread_rank (thread_at t) = 0) \<and> th_started (elt_thread t) = (caller_at t \<noteq> S_start)
     \<and> latch_count (th_latch (elt_thread t)) = (if thread_rank (thread_at t) \<le> 2 then 1 else 0)
     \<and> (caller_at t = S_start \<or> caller_at t = S_latch \<or> 2 < thread_rank (thread_at t))
     \<and> (1 < thread_rank (thread_at t) \<longrightarrow> th_tid (elt_thread t) = tid)"

definition elt_loop_ok :: "nat \<Rightarrow> bool \<Rightarrow> EventLoopThread \<Rightarrow> bool" where
  "elt_loop_ok l ends t \<longleftrightarrow> elt_loop t = (if 5 < thread_rank (thread_at t) \<and> thread_rank (thread_at t) < 9 then Some l else None)
     \<and> inited t = (if 3 < thread_rank (thread_at t) \<and> has_callback t then [l] else [])
     \<and> (6 < thread_rank (thread_at t) \<longrightarrow> ends)"

definition elt_caller_ok :: "nat \<Rightarrow> EventLoopThread \<Rightarrow> bool" where
  "elt_caller_ok l t \<longleftrightarrow> (case caller_at t of S_done x \<Rightarrow> x = l \<and> 5 < thread_rank (thread_at t)
       | S_wait \<Rightarrow> elt_notified t \<or> thread_rank (thread_at t) < 6 \<or> thread_rank (thread_at t) = 9
       | _ \<Rightarrow> True) \<and> (elt_notified t \<longrightarrow> caller_at t = S_wait)"

definition elt_inv :: "int \<Rightarrow> nat \<Rightarrow> bool \<Rightarrow> EventLoopThread \<Rightarrow> bool" where
  "elt_inv tid l ends t \<longleftrightarrow> elt_mutex_ok t \<and> elt_latch_ok tid t \<and> elt_loop_ok l ends t \<and> elt_caller_ok l t"

lemmas elt_ok_defs = elt_mutex_ok_def elt_latch_ok_def elt_loop_ok_def elt_caller_ok_def

lemma elt_init_inv: "elt_init t \<Longrightarrow> elt_inv tid l ends t"
  by (auto simp: elt_init_def EventLoopThread_new_def Thread_new_def CountDownLatch_new_def elt_inv_def elt_ok_defs)

lemma startLoop_asserts:
  assumes "0 < tid" "elt_inv tid l ends t"
  shows "startLoop_step True spurious t \<noteq> Some (Inl e)"
  using assms by (cases "caller_at t"; cases "thread_at t")
    (simp_all add: startLoop_step_def elt_inv_def elt_ok_defs Thread_start_def Thread_started_def CountDownLatch_wait_def)

lemma caller_stepE:
  assumes "startLoop_step created spurious t = Some (Inr t')"
  obtains (start) "caller_at t = S_start" "created" "\<not> th_started (elt_thread t)"
      "t' = t\<lparr>elt_thread := (elt_thread t)\<lparr>th_started := True\<rparr>, caller_at := S_latch, thread_at := T_tid\<rparr>"
  | (failed) "caller_at t = S_start" "\<not> created" "\<not> th_started (elt_thread t)"
      "t' = t\<lparr>elt_thread := (elt_thread t)\<lparr>th_started := False\<rparr>, caller_at := S_lock, thread_at := T_none\<rparr>"
  | (latch) "caller_at t = S_latch" "latch_count (th_latch (elt_thread t)) \<le> 0" "0 < th_tid (elt_thread t)" "t' = t\<lparr>elt_thread := elt_thread t, caller_at := S_lock\<rparr>"
  | (lock) "caller_at t = S_lock" "elt_mutex t = None" "t' = t\<lparr>elt_mutex := Some Caller, caller_at := S_check\<rparr>"
  | (sleep) "caller_at t = S_check" "elt_loop t = None" "t' = t\<lparr>elt_mutex := None, elt_notified := False, caller_at := S_wait\<rparr>"
  | (return) x where "caller_at t = S_check" "elt_loop t = Some x" "t' = t\<lparr>elt_mutex := None, caller_at := S_done x\<rparr>"
  | (wake) "caller_at t = S_wait" "elt_notified t \<or> spurious" "elt_mutex t = None" "t' = t\<lparr>elt_mutex := Some Caller, elt_notified := False, caller_at := S_check\<rparr>"
proof (cases "caller_at t")
  case S_start
  with assms show ?thesis
    by (cases created) (auto simp: startLoop_step_def Thread_start_def asserting_def split: if_splits intro: start failed)
next
  case S_latch
  with assms show ?thesis
    by (auto simp: startLoop_step_def Thread_started_def CountDownLatch_wait_def asserting_def not_less split: if_splits intro: latch)
next
  case S_lock
  with assms show ?thesis by (auto simp: startLoop_step_def split: if_splits intro: lock)
next
  case S_check
  with assms show ?thesis by (cases "elt_loop t") (auto simp: startLoop_step_def intro: sleep return)
next
  case S_wait
  with assms show ?thesis by (cases "elt_notified t") (auto simp: startLoop_step_def split: if_splits intro: wake)
qed (use assms in \<open>simp add: startLoop_step_def\<close>)

lemma thread_stepE:
  assumes "threadFunc_step tid l ends t = Some t'"
  obtains (tid) "thread_at t = T_tid" "t' = t\<lparr>elt_thread := (elt_thread t)\<lparr>th_tid := tid\<rparr>, thread_at := T_count\<rparr>"
  | (count) "thread_at t = T_count" "t' = t\<lparr>elt_thread := (elt_thread t)\<lparr>th_latch := fst (CountDownLatch_countDown (th_latch (elt_thread t)))\<rparr>, thread_at := T_init\<rparr>"
  | (init) "thread_at t = T_init" "t' = t\<lparr>inited := (if has_callback t then inited t @ [l] else inited t), thread_at := T_lock\<rparr>"
  | (lock) "thread_at t = T_lock" "elt_mutex t = None" "t' = t\<lparr>elt_mutex := Some Worker, thread_at := T_publish\<rparr>"
  | (publish) "thread_at t = T_publish" "t' = t\<lparr>elt_loop := Some l, elt_notified := (elt_notified t \<or> caller_at t = S_wait), elt_mutex := None, thread_at := T_loop\<rparr>"
  | (leave) "thread_at t = T_loop" "ends" "t' = t\<lparr>thread_at := T_relock\<rparr>"
  | (relock) "thread_at t = T_relock" "elt_mutex t = None" "t' = t\<lparr>elt_mutex := Some Worker, thread_at := T_clear\<rparr>"
  | (clear) "thread_at t = T_clear" "t' = t\<lparr>elt_loop := None, elt_mutex := None, thread_at := T_end\<rparr>"
proof (cases "thread_at t")
  case T_tid
  with assms show ?thesis by (intro tid) (simp_all add: threadFunc_step_def)
next
  case T_count
  with assms show ?thesis by (intro count) (simp_all add: threadFunc_step_def)
next
  case T_init
  with assms show ?thesis by (intro init) (simp_all add: threadFunc_step_def)
next
  case T_lock
  with assms show ?thesis by (intro lock) (simp_all add: threadFunc_step_def split: if_splits)
next
  case T_publish
  with assms show ?thesis by (intro publish) (simp_all add: threadFunc_step_def)
next
  case T_loop
  with assms show ?thesis by (intro leave) (simp_all add: threadFunc_step_def split: if_splits)
next
  case T_relock
  with assms show ?thesis by (intro relock) (simp_all add: threadFunc_step_def split: if_splits)
next
  case T_clear
  with assms show ?thesis by (intro clear) (simp_all add: threadFunc_step_def)
qed (use assms in \<open>simp_all add: threadFunc_step_def\<close>)

lemma caller_step_mutex:
  assumes inv: "elt_mutex_ok t" "elt_latch_ok tid t" and s: "startLoop_step True spurious t = Some (Inr t')"
  shows "elt_mutex_ok t'"
  using s by (cases rule: caller_stepE) (use inv in \<open>auto simp: elt_mutex_ok_def elt_latch_ok_def split: if_splits\<close>)

lemma caller_step_latch:
  assumes inv: "elt_latch_ok tid t" and s: "startLoop_step True spurious t = Some (Inr t')"
  shows "elt_latch_ok tid t'"
  using s by (cases rule: caller_stepE) (use inv in \<open>simp_all add: elt_latch_ok_def split: if_splits\<close>)

lemma caller_step_loop:
  assumes inv: "elt_loop_ok l ends t" "elt_latch_ok tid t" and s: "startLoop_step True spurious t = Some (Inr t')"
  shows "elt_loop_ok l ends t'"
  using s by (cases rule: caller_stepE) (use inv in \<open>simp_all add: elt_loop_ok_def elt_latch_ok_def split: if_splits\<close>)

lemma caller_step_caller:
  assumes inv: "elt_caller_ok l t" "elt_loop_ok l ends t" and s: "startLoop_step True spurious t = Some (Inr t')"
  shows "elt_caller_ok l t'"
  using s thread_rank_le [of "thread_at t"]
  by (cases rule: caller_stepE) (use inv in \<open>auto simp: elt_loop_ok_def elt_caller_ok_def split: if_splits\<close>)

lemma thread_step_mutex:
  assumes inv: "elt_mutex_ok t" and s: "threadFunc_step tid l ends t = Some t'"
  shows "elt_mutex_ok t'"
  using s by (cases rule: thread_stepE) (use inv in \<open>simp_all add: elt_mutex_ok_def split: if_splits\<close>)

lemma thread_step_latch:
  assumes inv: "elt_latch_ok tid t" and s: "threadFunc_step tid l ends t = Some t'"
  shows "elt_latch_ok tid t'"
  using s by (cases rule: thread_stepE) (use inv in \<open>auto simp: elt_latch_ok_def CountDownLatch_countDown_def split: if_splits\<close>)

lemma thread_step_loop:
  assumes inv: "elt_loop_ok l ends t" and s: "threadFunc_step tid l ends t = Some t'"
  shows "elt_loop_ok l ends t'"
  using s by (cases rule: thread_stepE) (use inv in \<open>simp_all add: elt_loop_ok_def split: if_splits\<close>)

lemma thread_step_caller:
  assumes inv: "elt_caller_ok l t" and s: "threadFunc_step tid l ends t = Some t'"
  shows "elt_caller_ok l t'"
  using s by (cases rule: thread_stepE) (use inv in \<open>simp_all add: elt_caller_ok_def split: caller_pc.splits\<close>)

lemma elt_step_inv:
  assumes "elt_step tid l ends t t'" and inv: "elt_inv tid l ends t"
  shows "elt_inv tid l ends t'"
  using assms(1)
proof cases
  case (caller spurious)
  with inv show ?thesis
    unfolding elt_inv_def by (meson caller_step_caller caller_step_latch caller_step_loop caller_step_mutex)
next
  case thread
  with inv show ?thesis
    unfolding elt_inv_def by (meson thread_step_caller thread_step_latch thread_step_loop thread_step_mutex)
qed

interpretation elt: invariant_system elt_init "elt_step tid l ends" "elt_inv tid l ends" for tid l ends
  by unfold_locales (auto intro: elt_init_inv elt_step_inv)

text \<open>A step without a spurious wakeup, and what every such step brings down.\<close>

definition elt_quiet_step :: "int \<Rightarrow> nat \<Rightarrow> EventLoopThread \<Rightarrow> EventLoopThread \<Rightarrow> bool" where
  "elt_quiet_step tid l t t' \<longleftrightarrow> startLoop_step True False t = Some (Inr t') \<or> threadFunc_step tid l False t = Some t'"

fun caller_weight :: "caller_pc \<Rightarrow> nat" where
  "caller_weight S_start = 5"
| "caller_weight S_latch = 4"
| "caller_weight S_lock = 3"
| "caller_weight S_check = 2"
| "caller_weight S_wait = 1"
| "caller_weight (S_done l) = 0"

definition elt_measure :: "EventLoopThread \<Rightarrow> nat" where
  "elt_measure t = 3 * (9 - thread_rank (thread_at t)) + caller_weight (caller_at t) + (if elt_notified t then 2 else 0)"

lemma elt_measure_caller:
  assumes inv: "elt_latch_ok tid t" and s: "startLoop_step True False t = Some (Inr t')"
  shows "elt_measure t' < elt_measure t"
  using s by (cases rule: caller_stepE) (use inv in \<open>simp_all add: elt_measure_def elt_latch_ok_def\<close>)

lemma elt_measure_thread:
  assumes s: "threadFunc_step tid l ends t = Some t'"
  shows "elt_measure t' < elt_measure t"
  using s by (cases rule: thread_stepE) (simp_all add: elt_measure_def)

lemma elt_quiet_step_less: "elt_inv tid l ends t \<Longrightarrow> elt_quiet_step tid l t t' \<Longrightarrow> elt_measure t' < elt_measure t"
  unfolding elt_quiet_step_def elt_inv_def by (meson elt_measure_caller elt_measure_thread)

lemma elt_caller_moves:
  assumes pos: "0 < tid" and inv: "elt_inv tid l ends t" and m: "elt_mutex t \<noteq> Some Worker" and r: "2 < thread_rank (thread_at t)"
    and w: "caller_at t = S_wait \<Longrightarrow> elt_notified t" and d: "\<And>x. caller_at t \<noteq> S_done x"
  shows "\<exists>t'. startLoop_step True False t = Some (Inr t')"
  using inv m r w d pos
  by (cases "caller_at t") (auto simp: startLoop_step_def elt_inv_def elt_mutex_ok_def elt_latch_ok_def Thread_started_def CountDownLatch_wait_def
      split: option.splits if_splits)

lemma elt_not_stuck:
  assumes pos: "0 < tid" and inv: "elt_inv tid l False t" and d: "\<And>x. caller_at t \<noteq> S_done x"
  shows "\<exists>t'. elt_quiet_step tid l t t'"
proof (cases "thread_at t")
  case T_none
  with inv show ?thesis
    by (auto simp add: elt_quiet_step_def elt_inv_def elt_latch_ok_def startLoop_step_def Thread_start_def)
next
  case T_lock
  show ?thesis
  proof (cases "elt_mutex t")
    case None
    with T_lock show ?thesis by (auto simp: elt_quiet_step_def threadFunc_step_def)
  next
    case (Some a)
    with inv T_lock have "elt_mutex t \<noteq> Some Worker" "caller_at t \<noteq> S_wait"
      by (auto simp: elt_inv_def elt_mutex_ok_def split: if_splits)
    with elt_caller_moves [OF pos inv] T_lock d show ?thesis by (auto simp: elt_quiet_step_def)
  qed
next
  case T_loop
  with inv have "elt_mutex t \<noteq> Some Worker" "caller_at t = S_wait \<Longrightarrow> elt_notified t"
    by (auto simp: elt_inv_def elt_mutex_ok_def elt_caller_ok_def split: if_splits)
  with elt_caller_moves [OF pos inv] T_loop d show ?thesis by (auto simp: elt_quiet_step_def)
qed (use inv in \<open>auto simp: elt_quiet_step_def threadFunc_step_def elt_inv_def elt_loop_ok_def\<close>)

text \<open>
  C17. Starting the loop of a thread. However the caller of \<open>startLoop\<close> and the new thread take turns, no assertion
  fails, and when \<open>startLoop\<close> returns it returns the event loop of that thread, which has been published and whose callback, if
  there is one, has been called with it exactly once. As long as the caller has not returned one of the two can
  go on without a spurious wakeup, and each such step brings the measure down, from 32 at the start: the caller cannot miss the
  notification and wait for ever.
\<close>

theorem start_loop_returns:
  assumes "0 < tid" and "elt_init t" and "(elt_step tid l False)\<^sup>*\<^sup>* t u"
  shows "(\<forall>spurious e. startLoop_step True spurious u \<noteq> Some (Inl e))
    \<and> (\<forall>x. caller_at u = S_done x \<longrightarrow> x = l \<and> elt_loop u = Some l \<and> thread_at u = T_loop \<and> inited u = (if has_callback u then [l] else []))
    \<and> ((\<forall>x. caller_at u \<noteq> S_done x) \<longrightarrow> (\<exists>u'. elt_quiet_step tid l u u'))
    \<and> (\<forall>u'. elt_quiet_step tid l u u' \<longrightarrow> elt_measure u' < elt_measure u) \<and> elt_measure t = 32"
proof -
  have inv: "elt_inv tid l False u" using elt.reachable_inv assms(2,3) .
  have "x = l \<and> elt_loop u = Some l \<and> thread_at u = T_loop \<and> inited u = (if has_callback u then [l] else [])"
    if "caller_at u = S_done x" for x
    using inv that by (cases "thread_at u") (simp_all add: elt_inv_def elt_caller_ok_def elt_loop_ok_def)
  moreover have "elt_measure t = 32"
    using assms(2) by (auto simp: elt_init_def EventLoopThread_new_def elt_measure_def)
  ultimately show ?thesis
    using startLoop_asserts [OF assms(1) inv] elt_not_stuck [OF assms(1) inv] elt_quiet_step_less [OF inv] by blast
qed

theorem start_loop_returns_witness:
  "\<exists>u. elt_run 7 3 False [True, False, False, True, True, True, False, False, False, True, True] (EventLoopThread_new 0 True ''io'') = Some u
     \<and> caller_at u = S_done 3 \<and> thread_at u = T_loop \<and> inited u = [3]"
proof -
  obtain u where u: "elt_run 7 3 False [True, False, False, True, True, True, False, False, False, True, True] (EventLoopThread_new 0 True ''io'') = Some u"
    "caller_at u = S_done 3" "has_callback u"
    by (simp add: startLoop_step_def threadFunc_step_def EventLoopThread_new_def Thread_new_def CountDownLatch_new_def Thread_start_def
        Thread_started_def CountDownLatch_wait_def CountDownLatch_countDown_def)
  have "elt_init (EventLoopThread_new 0 True ''io'')" by (auto simp: elt_init_def)
  with start_loop_returns [OF _ _ elt_run_steps [OF u(1)]] u show ?thesis by simp
qed

text \<open>A thread that cannot be created is only logged: \<open>startLoop\<close> then waits for a loop that nobody publishes.\<close>

definition elt_failed_step :: "int \<Rightarrow> nat \<Rightarrow> EventLoopThread \<Rightarrow> EventLoopThread \<Rightarrow> bool" where
  "elt_failed_step tid l t t' \<longleftrightarrow> (\<exists>spurious. startLoop_step False spurious t = Some (Inr t')) \<or> (\<exists>ends. threadFunc_step tid l ends t = Some t')"

definition elt_threadless :: "EventLoopThread \<Rightarrow> bool" where
  "elt_threadless t \<longleftrightarrow> thread_at t = T_none \<and> elt_loop t = None \<and> (\<forall>x. caller_at t \<noteq> S_done x)"

lemma elt_failed_step_threadless:
  assumes s: "elt_failed_step tid l t t'" and n: "elt_threadless t"
  shows "elt_threadless t'"
proof -
  from s consider spurious where "startLoop_step False spurious t = Some (Inr t')" | ends where "threadFunc_step tid l ends t = Some t'"
    by (auto simp: elt_failed_step_def)
  then show ?thesis
  proof cases
    case 1
    then show ?thesis by (cases rule: caller_stepE) (use n in \<open>simp_all add: elt_threadless_def\<close>)
  next
    case 2
    with n show ?thesis by (simp add: elt_threadless_def threadFunc_step_def)
  qed
qed

interpretation elt_failed: invariant_system elt_init "elt_failed_step tid l" elt_threadless for tid l
proof
  show "elt_threadless s" if "elt_init s" for s
    using that by (auto simp: elt_init_def EventLoopThread_new_def elt_threadless_def)
qed (rule elt_failed_step_threadless)

lemma failed_thread_blocks_startLoop:
  assumes "elt_init t" "(elt_failed_step tid l)\<^sup>*\<^sup>* t u"
  shows "caller_at u \<noteq> S_done x"
  using elt_failed.reachable_inv [OF assms] by (simp add: elt_threadless_def)

section \<open>The outcome of starting a loop\<close>

text \<open>Every run in which \<open>startLoop\<close> returns ends in the same state, which is the one the callers see.\<close>

definition startLoop :: "int \<Rightarrow> nat \<Rightarrow> EventLoopThread \<Rightarrow> EventLoopThread" where
  "startLoop tid l t = t\<lparr>elt_loop := Some l, elt_thread := (elt_thread t)\<lparr>th_started := True, th_tid := tid, th_latch := \<lparr>latch_count = 0\<rparr>\<rparr>,
     caller_at := S_done l, thread_at := T_loop, inited := (if has_callback t then [l] else [])\<rparr>"

definition elt_fixed :: "EventLoopThread \<Rightarrow> bool \<times> bool \<times> string \<times> bool" where
  "elt_fixed t = (exiting t, has_callback t, th_name (elt_thread t), th_joined (elt_thread t))"

lemma elt_step_fixed:
  assumes "elt_step tid l ends t t'"
  shows "elt_fixed t' = elt_fixed t"
  using assms
proof cases
  case (caller spurious)
  then show ?thesis by (cases rule: caller_stepE) (simp_all add: elt_fixed_def)
next
  case thread
  then show ?thesis by (cases rule: thread_stepE) (simp_all add: elt_fixed_def)
qed

lemma elt_steps_fixed: "(elt_step tid l ends)\<^sup>*\<^sup>* t u \<Longrightarrow> elt_fixed u = elt_fixed t"
  by (induction rule: rtranclp_induct) (auto dest: elt_step_fixed)

lemma startLoop_outcome:
  assumes "elt_init t" "(elt_step tid l False)\<^sup>*\<^sup>* t u" and x: "caller_at u = S_done x"
  shows "u = startLoop tid l t"
proof -
  have inv: "elt_inv tid l False u" using elt.reachable_inv assms(1,2) .
  have f: "elt_fixed u = elt_fixed t" using elt_steps_fixed [OF assms(2)] .
  have t: "elt_mutex t = None" "\<not> elt_notified t" using assms(1) by (auto simp: elt_init_def EventLoopThread_new_def)
  have pc: "thread_at u = T_loop" "x = l"
    using inv x by (cases "thread_at u"; simp add: elt_inv_def elt_caller_ok_def elt_loop_ok_def)+
  with inv x have th: "th_started (elt_thread u)" "th_tid (elt_thread u) = tid" "latch_count (th_latch (elt_thread u)) = 0"
    by (simp_all add: elt_inv_def elt_latch_ok_def)
  have "elt_thread u = (elt_thread t)\<lparr>th_started := True, th_tid := tid, th_latch := \<lparr>latch_count = 0\<rparr>\<rparr>"
    using f th by (intro Thread.equality) (simp_all add: elt_fixed_def)
  with inv x pc f t show ?thesis
    by (intro EventLoopThread.equality)
      (auto simp: startLoop_def elt_fixed_def elt_inv_def elt_mutex_ok_def elt_loop_ok_def elt_caller_ok_def)
qed

section \<open>The pool\<close>

record EventLoopThreadPool =
  baseLoop :: nat
  pool_name :: string
  pool_started :: bool
  numThreads :: int
  pool_next :: nat
  threads :: "EventLoopThread list"
  loops :: "nat list"
  base_inited :: "nat list"

definition EventLoopThreadPool_new :: "nat \<Rightarrow> string \<Rightarrow> EventLoopThreadPool" where
  "EventLoopThreadPool_new base nameArg = \<lparr>baseLoop = base, pool_name = nameArg, pool_started = False, numThreads = 0, pool_next = 0,
     threads = [], loops = [], base_inited = []\<rparr>"

definition EventLoopThreadPool_setThreadNum :: "int \<Rightarrow> EventLoopThreadPool \<Rightarrow> EventLoopThreadPool" where
  "EventLoopThreadPool_setThreadNum n p = p\<lparr>numThreads := n\<rparr>"

text \<open>
  Thread \<open>i\<close> of the pool; \<open>num\<close> counts the threads made so far, \<open>outs\<close> are the thread ids and event loops of the new threads.
\<close>

definition pool_thread_name :: "string \<Rightarrow> nat \<Rightarrow> string" where
  "pool_thread_name name i = snprintf_cut (length name + 32) (name @ show_int (int i))"

fun pool_spawn :: "int \<Rightarrow> bool \<Rightarrow> nat \<Rightarrow> (int \<times> nat) list \<Rightarrow> EventLoopThreadPool \<Rightarrow> EventLoopThreadPool" where
  "pool_spawn num cb i [] p = p"
| "pool_spawn num cb i ((tid, l) # outs) p =
     (let t = EventLoopThread_new (num + int i) cb (pool_thread_name (pool_name p) i) in
      pool_spawn num cb (i + 1) outs (p\<lparr>threads := threads p @ [startLoop tid l t], loops := loops p @ [l]\<rparr>))"

definition EventLoopThreadPool_start :: "int \<Rightarrow> bool \<Rightarrow> bool \<Rightarrow> (nat \<Rightarrow> int \<times> nat) \<Rightarrow> EventLoopThreadPool \<Rightarrow> EventLoopThreadPool res" where
  "EventLoopThreadPool_start num in_loop cb outs p =
     asserting (\<not> pool_started p) (asserting in_loop (
       let p1 = pool_spawn num cb 0 (map outs [0..<nat (numThreads p)]) (p\<lparr>pool_started := True\<rparr>) in
       Inr (if numThreads p1 = 0 \<and> cb then p1\<lparr>base_inited := base_inited p1 @ [baseLoop p1]\<rparr> else p1)))"

definition getNextLoop :: "bool \<Rightarrow> EventLoopThreadPool \<Rightarrow> (nat \<times> EventLoopThreadPool) res" where
  "getNextLoop in_loop p = asserting in_loop (asserting (pool_started p) (
     if loops p \<noteq> [] then
       (if pool_next p < length (loops p)
        then (let n = pool_next p + 1 in Inr (loops p ! pool_next p, p\<lparr>pool_next := (if length (loops p) \<le> n then 0 else n)\<rparr>))
        else Inl Undefined_behaviour)
     else Inr (baseLoop p, p)))"

definition getLoopForHash :: "bool \<Rightarrow> nat \<Rightarrow> EventLoopThreadPool \<Rightarrow> nat res" where
  "getLoopForHash in_loop hashCode p = asserting in_loop (Inr (if loops p \<noteq> [] then loops p ! (hashCode mod length (loops p)) else baseLoop p))"

definition getAllLoops :: "EventLoopThreadPool \<Rightarrow> nat list res" where
  "getAllLoops p = asserting (pool_started p) (Inr (if loops p = [] then [baseLoop p] else loops p))"

lemma pool_spawn_frame [simp]:
  "loops (pool_spawn num cb i outs p) = loops p @ map snd outs"
  "baseLoop (pool_spawn num cb i outs p) = baseLoop p" "pool_name (pool_spawn num cb i outs p) = pool_name p"
  "pool_started (pool_spawn num cb i outs p) = pool_started p" "numThreads (pool_spawn num cb i outs p) = numThreads p"
  "pool_next (pool_spawn num cb i outs p) = pool_next p" "base_inited (pool_spawn num cb i outs p) = base_inited p"
  by (induction num cb i outs p rule: pool_spawn.induct) (simp_all add: Let_def)

lemma pool_spawn_threads:
  "threads (pool_spawn num cb i outs p) = threads p @ map (\<lambda>(j, tid, l). startLoop tid l
     (EventLoopThread_new (num + int j) cb (pool_thread_name (pool_name p) j))) (zip [i..<i + length outs] outs)"
proof (induction num cb i outs p rule: pool_spawn.induct)
  case (2 num cb i tid l outs p)
  then show ?case by (simp add: Let_def upt_conv_Cons del: upt_Suc)
qed simp

text \<open>The threads of a pool have different names, which the buffer holds.\<close>

lemma pool_thread_name_full:
  assumes "i < 2 ^ 31"
  shows "pool_thread_name name i = name @ show_nat i"
proof -
  have "length (show_nat i) \<le> Suc 9" by (rule show_nat_length) (use assms in simp)
  then show ?thesis by (simp add: pool_thread_name_def snprintf_cut_def show_int_def)
qed

lemma startLoop_name [simp]: "th_name (elt_thread (startLoop tid l t)) = th_name (elt_thread t)"
  by (simp add: startLoop_def)

lemma pool_names_distinct:
  assumes "length outs < 2 ^ 31"
  shows "distinct (map (\<lambda>t. th_name (elt_thread t)) (map (\<lambda>(j, tid, l). startLoop tid l
     (EventLoopThread_new (num + int j) cb (pool_thread_name name j))) (zip [0..<length outs] outs)))"
proof -
  have "th_name (elt_thread (EventLoopThread_new m cb (pool_thread_name name j))) = name @ show_nat j"
    if "j < length outs" for j m
    using that assms pool_thread_name_full [of j name] by (simp add: EventLoopThread_new_def Thread_new_def Thread_setDefaultName_def)
  then have "map (\<lambda>t. th_name (elt_thread t)) (map (\<lambda>(j, tid, l). startLoop tid l
     (EventLoopThread_new (num + int j) cb (pool_thread_name name j))) (zip [0..<length outs] outs))
     = map (\<lambda>j. name @ show_nat j) [0..<length outs]"
    by - (rule nth_equalityI; simp split: prod.split)
  then show ?thesis by (simp only:) (simp add: distinct_map inj_on_def)
qed

lemma pool_started_as_asked:
  assumes "\<not> pool_started p" "threads p = []" "loops p = []" "numThreads p = int n" "n < 2 ^ 31"
  obtains q where "EventLoopThreadPool_start num True cb outs p = Inr q" "pool_started q" "loops q = map (\<lambda>i. snd (outs i)) [0..<n]"
    "distinct (map (\<lambda>t. th_name (elt_thread t)) (threads q))" "map elt_loop (threads q) = map Some (loops q)"
    "\<forall>t \<in> set (threads q). thread_at t = T_loop" "base_inited q = base_inited p @ (if n = 0 \<and> cb then [baseLoop p] else [])"
proof -
  let ?outs = "map outs [0..<n]"
  let ?q = "pool_spawn num cb 0 ?outs (p\<lparr>pool_started := True\<rparr>)"
  let ?r = "if n = 0 \<and> cb then ?q\<lparr>base_inited := base_inited ?q @ [baseLoop ?q]\<rparr> else ?q"
  have r: "EventLoopThreadPool_start num True cb outs p = Inr ?r"
    using assms by (simp add: EventLoopThreadPool_start_def Let_def)
  have t: "threads ?q = map (\<lambda>(j, tid, l). startLoop tid l (EventLoopThread_new (num + int j) cb (pool_thread_name (pool_name p) j)))
      (zip [0..<length ?outs] ?outs)"
    using assms(2) by (simp add: pool_spawn_threads)
  have l: "map elt_loop (threads ?q) = map Some (loops ?q)"
    unfolding t using assms(3) by (intro nth_equalityI) (auto simp: startLoop_def split: prod.splits)
  have a: "\<forall>t \<in> set (threads ?q). thread_at t = T_loop" unfolding t by (auto simp: startLoop_def)
  have d: "distinct (map (\<lambda>t. th_name (elt_thread t)) (threads ?q))"
    unfolding t by (rule pool_names_distinct) (use assms(5) in simp)
  show ?thesis by (rule that [OF r]) (use assms(3) a d l in \<open>auto simp: comp_def\<close>)
qed

text \<open>The loops of the pool are handed out in turn.\<close>

fun getNextLoops :: "nat \<Rightarrow> EventLoopThreadPool \<Rightarrow> (nat list \<times> EventLoopThreadPool) res" where
  "getNextLoops 0 p = Inr ([], p)"
| "getNextLoops (Suc k) p = andThen (getNextLoop True p) (\<lambda>(l, p1). andThen (getNextLoops k p1) (\<lambda>(ls, p2). Inr (l # ls, p2)))"

lemma pool_round_robin:
  assumes "pool_started p" "pool_next p < length (loops p)"
  shows "getNextLoops k p = Inr (map (\<lambda>i. loops p ! ((pool_next p + i) mod length (loops p))) [0..<k],
      p\<lparr>pool_next := (pool_next p + k) mod length (loops p)\<rparr>)"
  using assms
proof (induction k arbitrary: p)
  case (Suc k)
  let ?n = "length (loops p)"
  let ?p = "p\<lparr>pool_next := (pool_next p + 1) mod ?n\<rparr>"
  have m: "(pool_next p + 1) mod ?n = (if ?n \<le> pool_next p + 1 then 0 else pool_next p + 1)"
    using Suc.prems(2) by (cases "pool_next p + 1 = ?n") auto
  have one: "getNextLoop True p = Inr (loops p ! pool_next p, ?p)"
    unfolding getNextLoop_def m using Suc.prems by (cases "loops p") (auto simp: Let_def)
  have "pool_next ?p < length (loops ?p)" using Suc.prems(2) by (cases "loops p") simp_all
  with Suc.IH [of ?p] Suc.prems one show ?case
    by (simp add: upt_conv_Cons map_Suc_upt [symmetric] mod_add_left_eq del: upt_Suc)
qed simp

end
