(* ===== verification/Tcp_Server.thy ===== *)
theory Tcp_Server
  imports Tcp_Connection Net_Address Loop_Threads "HOL-Library.Char_ord" "HOL-Library.List_Lexorder"
begin

text \<open>
  Accepting connections: \<^verbatim>\<open>src/src/network/tcp/Acceptor.cc\<close> and \<^verbatim>\<open>TcpServer.cc\<close>. The acceptor takes
  connections in the base loop; the server gives each a name and one of the loops of its pool, and forgets it in the
  base loop when it has closed. The loops are threads that act in turns; of a connection the model has its
  state and whether its channel is in its loop, the rest is the subject of \<open>Tcp_Connection\<close>. The lemmas show that the names are
  different, that no assertion fails, and that every connection is established once, removed once, and destroyed once, in this order.
\<close>

section \<open>The acceptor\<close>

text \<open>\<open>acc_closed\<close> are the descriptors it has closed.\<close>

record 'f Acceptor =
  acc_loop :: "'f EventLoop"
  acceptSocket :: int
  acceptChannel :: nat
  listenning :: bool
  idleFd :: int
  acc_closed :: "int list"

definition Acceptor_new :: "'f EventLoop \<Rightarrow> int \<Rightarrow> nat \<Rightarrow> int \<Rightarrow> 'f Acceptor res" where
  "Acceptor_new L sockfd p idle = asserting (0 \<le> idle) (Inr
     \<lparr>acc_loop = L\<lparr>chan_store := (chan_store L)(p \<mapsto> (Channel_new sockfd)\<lparr>callbacks := {Read_cb}\<rparr>)\<rparr>, acceptSocket = sockfd,
      acceptChannel = p, listenning = False, idleFd = idle, acc_closed = []\<rparr>)"

definition Acceptor_listen :: "bool \<Rightarrow> 'f Acceptor \<Rightarrow> 'f Acceptor res" where
  "Acceptor_listen inLoop a = asserting inLoop (
     andThen (Channel_enableReading (acc_loop a) (acceptChannel a)) (\<lambda>L. Inr (a\<lparr>listenning := True, acc_loop := L\<rparr>)))"

definition Acceptor_close :: "int \<Rightarrow> 'f Acceptor \<Rightarrow> 'f Acceptor" where
  "Acceptor_close f a = a\<lparr>acc_closed := acc_closed a @ [f]\<rparr>"

definition EMFILE :: int where "EMFILE = 24"

text \<open>
  Outcomes of the calls: the new descriptor, \<open>errno\<close> after the failure has been logged, and in case of \<open>EMFILE\<close> what the second
  \<open>accept\<close> and \<open>open\<close> return. The result has the descriptor handed to the callback, if there is one.
\<close>

record accept_outcome =
  ao_connfd :: int
  ao_errno :: int
  ao_again :: int
  ao_open :: int

definition Acceptor_handleRead :: "bool \<Rightarrow> bool \<Rightarrow> accept_outcome \<Rightarrow> 'f Acceptor \<Rightarrow> (int option \<times> 'f Acceptor) res" where
  "Acceptor_handleRead inLoop has_cb out a = asserting inLoop (
     if 0 \<le> ao_connfd out
     then if has_cb then Inr (Some (ao_connfd out), a) else Inr (None, Acceptor_close (ao_connfd out) a)
     else if ao_errno out = EMFILE then
       let a1 = Acceptor_close (idleFd a) a;
           a2 = a1\<lparr>idleFd := ao_again out\<rparr>;
           a3 = Acceptor_close (idleFd a2) a2
       in Inr (None, a3\<lparr>idleFd := ao_open out\<rparr>)
     else Inr (None, a))"

definition Acceptor_destroy :: "'f Acceptor \<Rightarrow> 'f Acceptor res" where
  "Acceptor_destroy a =
     andThen (Channel_disableAll (acc_loop a) (acceptChannel a)) (\<lambda>L1.
       andThen (Channel_remove L1 (acceptChannel a)) (\<lambda>L2.
         andThen (Channel_destroy L2 (acceptChannel a)) (\<lambda>L3.
           Inr (Acceptor_close (acceptSocket a) (Acceptor_close (idleFd a) (a\<lparr>acc_loop := L3\<rparr>))))))"

section \<open>The server\<close>

text \<open>
  Connections have addresses and loops have numbers; \<open>srv_queue l\<close> are the functors queued in loop \<open>l\<close>.
\<close>

datatype srv_functor = ConnectEstablished nat | ConnectDestroyed_of nat | RemoveConnectionInLoop nat | Listen

record server_conn =
  sc_name :: string
  sc_loop :: nat
  sc_fd :: int
  sc_state :: StateE
  sc_added :: bool

record TcpServer =
  srv_loop :: nat
  ipPort :: string
  srv_name :: string
  acceptor :: "srv_functor Acceptor"
  threadPool :: EventLoopThreadPool
  srv_started :: bool
  nextConnId :: int
  connections :: "string \<rightharpoonup> nat"
  conn_objs :: "nat \<rightharpoonup> server_conn"
  srv_queue :: "nat \<Rightarrow> srv_functor list"

definition TcpServer_new :: "nat \<Rightarrow> string \<Rightarrow> string \<Rightarrow> srv_functor Acceptor \<Rightarrow> TcpServer" where
  "TcpServer_new l ip_port nameArg acc = \<lparr>srv_loop = l, ipPort = ip_port, srv_name = nameArg, acceptor = acc,
     threadPool = EventLoopThreadPool_new l nameArg, srv_started = False, nextConnId = 1, connections = Map.empty, conn_objs = Map.empty,
     srv_queue = (\<lambda>_. [])\<rparr>"

definition TcpServer_setThreadNum :: "int \<Rightarrow> TcpServer \<Rightarrow> TcpServer res" where
  "TcpServer_setThreadNum n s = asserting (0 \<le> n) (Inr (s\<lparr>threadPool := EventLoopThreadPool_setThreadNum n (threadPool s)\<rparr>))"

definition with_conn :: "TcpServer \<Rightarrow> nat \<Rightarrow> (server_conn \<Rightarrow> 'a res) \<Rightarrow> 'a res" where
  "with_conn s c k = (case conn_objs s c of None \<Rightarrow> Inl Undefined_behaviour | Some oc \<Rightarrow> k oc)"

definition set_conn :: "nat \<Rightarrow> server_conn \<Rightarrow> TcpServer \<Rightarrow> TcpServer" where
  "set_conn c oc s = s\<lparr>conn_objs := (conn_objs s)(c \<mapsto> oc)\<rparr>"

definition srv_queueInLoop :: "nat \<Rightarrow> srv_functor \<Rightarrow> TcpServer \<Rightarrow> TcpServer" where
  "srv_queueInLoop l f s = s\<lparr>srv_queue := (srv_queue s)(l := srv_queue s l @ [f])\<rparr>"

definition conn_established :: "nat \<Rightarrow> TcpServer \<Rightarrow> TcpServer res" where
  "conn_established c s = with_conn s c (\<lambda>oc. asserting (sc_state oc = kConnecting)
     (Inr (set_conn c (oc\<lparr>sc_state := kConnected, sc_added := True\<rparr>) s)))"

text \<open>A connection reads until it is disconnected, so the channel of one that is disconnecting cannot be removed.\<close>

definition conn_destroyed :: "nat \<Rightarrow> TcpServer \<Rightarrow> TcpServer res" where
  "conn_destroyed c s = with_conn s c (\<lambda>oc. asserting (sc_added oc \<and> sc_state oc \<noteq> kDisconnecting)
     (Inr (set_conn c (oc\<lparr>sc_state := (if sc_state oc = kConnected then kDisconnected else sc_state oc), sc_added := False\<rparr>) s)))"

definition TcpServer_removeConnectionInLoop :: "nat \<Rightarrow> nat \<Rightarrow> TcpServer \<Rightarrow> TcpServer res" where
  "TcpServer_removeConnectionInLoop here c s = asserting (here = srv_loop s) (with_conn s c (\<lambda>oc.
     let n = (if sc_name oc \<in> dom (connections s) then 1 else 0 :: nat);
         s1 = s\<lparr>connections := (connections s)(sc_name oc := None)\<rparr>
     in asserting (n = 1) (Inr (srv_queueInLoop (sc_loop oc) (ConnectDestroyed_of c) s1))))"

text \<open>Running a functor in the thread of loop \<open>here\<close>; \<open>runInLoop\<close> runs it at once when that is its loop.\<close>

fun srv_exec :: "nat \<Rightarrow> srv_functor \<Rightarrow> TcpServer \<Rightarrow> TcpServer res" where
  "srv_exec here (ConnectEstablished c) s = conn_established c s"
| "srv_exec here (ConnectDestroyed_of c) s = conn_destroyed c s"
| "srv_exec here (RemoveConnectionInLoop c) s = TcpServer_removeConnectionInLoop here c s"
| "srv_exec here Listen s = andThen (Acceptor_listen (here = srv_loop s) (acceptor s)) (\<lambda>a. Inr (s\<lparr>acceptor := a\<rparr>))"

definition srv_runInLoop :: "nat \<Rightarrow> nat \<Rightarrow> srv_functor \<Rightarrow> TcpServer \<Rightarrow> TcpServer res" where
  "srv_runInLoop here l f s = (if here = l then srv_exec here f s else Inr (srv_queueInLoop l f s))"

text \<open>The ids and loops of the threads that the pool starts, and the number of threads made before, come from outside.\<close>

definition TcpServer_start :: "nat \<Rightarrow> int \<Rightarrow> bool \<Rightarrow> (nat \<Rightarrow> int \<times> nat) \<Rightarrow> TcpServer \<Rightarrow> TcpServer res" where
  "TcpServer_start here num cb outs s =
     (if \<not> srv_started s then
        andThen (EventLoopThreadPool_start num (here = srv_loop s) cb outs (threadPool s)) (\<lambda>p.
          asserting (\<not> listenning (acceptor s))
            (srv_runInLoop here (srv_loop s) Listen (s\<lparr>srv_started := True, threadPool := p\<rparr>)))
      else Inr s)"

definition conn_suffix :: "string \<Rightarrow> int \<Rightarrow> string" where
  "conn_suffix ip_port k = snprintf_cut 64 (''-'' @ ip_port @ ''#'' @ show_int k)"

text \<open>\<open>c\<close> is where the connection is allocated.\<close>

definition TcpServer_newConnection :: "nat \<Rightarrow> int \<Rightarrow> nat \<Rightarrow> TcpServer \<Rightarrow> TcpServer res" where
  "TcpServer_newConnection here sockfd c s = asserting (here = srv_loop s) (
     andThen (getNextLoop (here = srv_loop s) (threadPool s)) (\<lambda>(ioLoop, p).
       if nextConnId s + 1 < 2 ^ 31 then
         let connName = srv_name s @ conn_suffix (ipPort s) (nextConnId s);
             s1 = s\<lparr>threadPool := p, nextConnId := nextConnId s + 1, connections := (connections s)(connName \<mapsto> c),
               conn_objs := (conn_objs s)(c \<mapsto> \<lparr>sc_name = connName, sc_loop = ioLoop, sc_fd = sockfd, sc_state = kConnecting, sc_added = False\<rparr>)\<rparr>
         in srv_runInLoop here ioLoop (ConnectEstablished c) s1
       else Inl Undefined_behaviour))"

definition TcpServer_removeConnection :: "nat \<Rightarrow> nat \<Rightarrow> TcpServer \<Rightarrow> TcpServer res" where
  "TcpServer_removeConnection here c s = srv_runInLoop here (srv_loop s) (RemoveConnectionInLoop c) s"

text \<open>The acceptor's callback is \<open>newConnection\<close>.\<close>

definition TcpServer_accept :: "nat \<Rightarrow> accept_outcome \<Rightarrow> nat \<Rightarrow> TcpServer \<Rightarrow> TcpServer res" where
  "TcpServer_accept here out c s =
     andThen (Acceptor_handleRead (here = srv_loop s) True out (acceptor s)) (\<lambda>(r, a).
       case r of None \<Rightarrow> Inr (s\<lparr>acceptor := a\<rparr>) | Some sockfd \<Rightarrow> TcpServer_newConnection here sockfd c (s\<lparr>acceptor := a\<rparr>))"

text \<open>A connection shuts its sending side down, or it closes, in the thread of its loop.\<close>

definition conn_shutdown :: "nat \<Rightarrow> TcpServer \<Rightarrow> TcpServer res" where
  "conn_shutdown c s = with_conn s c (\<lambda>oc. Inr (if sc_state oc = kConnected then set_conn c (oc\<lparr>sc_state := kDisconnecting\<rparr>) s else s))"

definition conn_handleClose :: "nat \<Rightarrow> TcpServer \<Rightarrow> TcpServer res" where
  "conn_handleClose c s = with_conn s c (\<lambda>oc. asserting (sc_state oc = kConnected \<or> sc_state oc = kDisconnecting)
     (TcpServer_removeConnection (sc_loop oc) c (set_conn c (oc\<lparr>sc_state := kDisconnected\<rparr>) s)))"

text \<open>The destructor goes through the connections in the order of their names.\<close>

fun destroy_conns :: "nat \<Rightarrow> nat list \<Rightarrow> TcpServer \<Rightarrow> TcpServer res" where
  "destroy_conns here [] s = Inr s"
| "destroy_conns here (c # cs) s = with_conn s c (\<lambda>oc.
     andThen (srv_runInLoop here (sc_loop oc) (ConnectDestroyed_of c) s) (destroy_conns here cs))"

definition TcpServer_destroy :: "nat \<Rightarrow> TcpServer \<Rightarrow> TcpServer res" where
  "TcpServer_destroy here s = asserting (here = srv_loop s)
     (destroy_conns here (map (\<lambda>n. the (connections s n)) (sorted_list_of_set (dom (connections s)))) s)"

section \<open>Names\<close>

lemma conn_suffix_full:
  assumes "length ip \<le> 51" "1 \<le> k" "k < 2 ^ 31"
  shows "conn_suffix ip k = ''-'' @ ip @ ''#'' @ show_nat (nat k)"
proof -
  have "length (show_nat (nat k)) \<le> Suc 9" by (rule show_nat_length) (use assms in simp)
  with assms show ?thesis by (simp add: conn_suffix_def snprintf_cut_def show_int_def)
qed

lemma conn_suffix_inject:
  assumes "length ip \<le> 51" "1 \<le> k" "k < 2 ^ 31" "1 \<le> k'" "k' < 2 ^ 31" "conn_suffix ip k = conn_suffix ip k'"
  shows "k = k'"
  using assms by (simp add: conn_suffix_full)

section \<open>Where a connection is\<close>

fun functor_conn :: "srv_functor \<Rightarrow> nat option" where
  "functor_conn (ConnectEstablished c) = Some c"
| "functor_conn (ConnectDestroyed_of c) = Some c"
| "functor_conn (RemoveConnectionInLoop c) = Some c"
| "functor_conn Listen = None"

definition conn_queue :: "TcpServer \<Rightarrow> nat \<Rightarrow> nat \<Rightarrow> srv_functor list" where
  "conn_queue s c l = filter (\<lambda>f. functor_conn f = Some c) (srv_queue s l)"

text \<open>The functor that a connection waits for, and the loop it is queued in.\<close>

definition pending_of :: "TcpServer \<Rightarrow> nat \<Rightarrow> (nat \<times> srv_functor) option" where
  "pending_of s c = (case conn_objs s c of None \<Rightarrow> None | Some oc \<Rightarrow>
     if sc_state oc = kConnecting then Some (sc_loop oc, ConnectEstablished c)
     else if sc_state oc = kDisconnected \<and> connections s (sc_name oc) = Some c then Some (srv_loop s, RemoveConnectionInLoop c)
     else if sc_state oc = kDisconnected \<and> sc_added oc then Some (sc_loop oc, ConnectDestroyed_of c)
     else None)"

definition pending_list :: "(nat \<times> srv_functor) option \<Rightarrow> nat \<Rightarrow> srv_functor list" where
  "pending_list p l = (case p of None \<Rightarrow> [] | Some (l', f) \<Rightarrow> if l = l' then [f] else [])"

lemma pending_list_simps [simp]:
  "pending_list None l = []" "pending_list (Some (l', f)) l = (if l = l' then [f] else [])"
  by (simp_all add: pending_list_def)

definition queue_ok :: "TcpServer \<Rightarrow> bool" where
  "queue_ok s \<longleftrightarrow> (\<forall>c l. conn_queue s c l = pending_list (pending_of s c) l) \<and> (\<forall>l. Listen \<notin> set (srv_queue s l))"

text \<open>Connection \<open>k\<close> has the number \<open>k\<close> in its name and the loop that comes in turn; one that is not disconnected is in the map.\<close>

definition conn_wf :: "TcpServer \<Rightarrow> nat \<Rightarrow> server_conn \<Rightarrow> bool" where
  "conn_wf s c oc \<longleftrightarrow> (sc_state oc = kConnecting \<longrightarrow> \<not> sc_added oc) \<and> (sc_state oc = kConnected \<or> sc_state oc = kDisconnecting \<longrightarrow> sc_added oc)
     \<and> (sc_state oc \<noteq> kDisconnected \<longrightarrow> connections s (sc_name oc) = Some c) \<and> (connections s (sc_name oc) = Some c \<and> sc_state oc = kDisconnected \<longrightarrow> sc_added oc)"

definition turn_loop :: "TcpServer \<Rightarrow> int \<Rightarrow> nat" where
  "turn_loop s k = (if loops (threadPool s) = [] then baseLoop (threadPool s) else loops (threadPool s) ! (nat (k - 1) mod length (loops (threadPool s))))"

definition conn_placed :: "TcpServer \<Rightarrow> server_conn \<Rightarrow> bool" where
  "conn_placed s oc \<longleftrightarrow> (\<exists>k. 1 \<le> k \<and> k < nextConnId s \<and> sc_name oc = srv_name s @ conn_suffix (ipPort s) k \<and> sc_loop oc = turn_loop s k)"

definition pool_ok :: "TcpServer \<Rightarrow> bool" where
  "pool_ok s \<longleftrightarrow> pool_started (threadPool s) \<and> baseLoop (threadPool s) = srv_loop s \<and> 1 \<le> nextConnId s \<and> nextConnId s < 2 ^ 31 \<and> length (ipPort s) \<le> 51
     \<and> (loops (threadPool s) \<noteq> [] \<longrightarrow> pool_next (threadPool s) = nat (nextConnId s - 1) mod length (loops (threadPool s)))"

definition conns_ok :: "TcpServer \<Rightarrow> bool" where
  "conns_ok s \<longleftrightarrow> (\<forall>c oc. conn_objs s c = Some oc \<longrightarrow> conn_wf s c oc \<and> conn_placed s oc)
     \<and> (\<forall>n c. connections s n = Some c \<longrightarrow> (\<exists>oc. conn_objs s c = Some oc \<and> sc_name oc = n))"

definition names_ok :: "TcpServer \<Rightarrow> bool" where
  "names_ok s \<longleftrightarrow> (\<forall>c c' oc oc'. conn_objs s c = Some oc \<longrightarrow> conn_objs s c' = Some oc' \<longrightarrow> sc_name oc = sc_name oc' \<longrightarrow> c = c')"

definition srv_inv :: "TcpServer \<Rightarrow> bool" where
  "srv_inv s \<longleftrightarrow> queue_ok s \<and> conns_ok s \<and> names_ok s \<and> pool_ok s"

lemma queue_okI:
  assumes "queue_ok s" "\<And>c' l. c' \<noteq> c \<Longrightarrow> conn_queue s' c' l = conn_queue s c' l" "\<And>c'. c' \<noteq> c \<Longrightarrow> pending_of s' c' = pending_of s c'"
    "\<And>l. conn_queue s' c l = pending_list (pending_of s' c) l" "\<And>l. Listen \<notin> set (srv_queue s' l)"
  shows "queue_ok s'"
  unfolding queue_ok_def
proof (intro conjI allI)
  show "conn_queue s' c' l = pending_list (pending_of s' c') l" for c' l
    using assms by (cases "c' = c") (auto simp: queue_ok_def)
qed (rule assms(5))

lemma conn_queue_queueInLoop [simp]:
  "conn_queue (srv_queueInLoop l f s) c l' = conn_queue s c l' @ (if l' = l \<and> functor_conn f = Some c then [f] else [])"
  by (simp add: conn_queue_def srv_queueInLoop_def)

lemma conn_queue_same: "srv_queue s' = srv_queue s \<Longrightarrow> conn_queue s' c l = conn_queue s c l"
  by (simp add: conn_queue_def)

lemma srv_queueInLoop_frame [simp]:
  "conn_objs (srv_queueInLoop l f s) = conn_objs s" "connections (srv_queueInLoop l f s) = connections s" "srv_loop (srv_queueInLoop l f s) = srv_loop s"
  "threadPool (srv_queueInLoop l f s) = threadPool s" "nextConnId (srv_queueInLoop l f s) = nextConnId s" "srv_name (srv_queueInLoop l f s) = srv_name s"
  "ipPort (srv_queueInLoop l f s) = ipPort s" "Listen \<in> set (srv_queue (srv_queueInLoop l f s) l') \<longleftrightarrow> Listen \<in> set (srv_queue s l') \<or> l' = l \<and> f = Listen"
  by (auto simp: srv_queueInLoop_def)

lemma set_conn_frame [simp]:
  "srv_queue (set_conn c oc s) = srv_queue s" "connections (set_conn c oc s) = connections s" "srv_loop (set_conn c oc s) = srv_loop s"
  "threadPool (set_conn c oc s) = threadPool s" "nextConnId (set_conn c oc s) = nextConnId s" "srv_name (set_conn c oc s) = srv_name s"
  "ipPort (set_conn c oc s) = ipPort s" "conn_objs (set_conn c oc s) = (conn_objs s)(c \<mapsto> oc)" "conn_queue (set_conn c oc s) c' l = conn_queue s c' l"
  by (simp_all add: set_conn_def conn_queue_def)

section \<open>Every step keeps the invariant\<close>

definition same_setup :: "TcpServer \<Rightarrow> TcpServer \<Rightarrow> bool" where
  "same_setup s s' \<longleftrightarrow> srv_loop s' = srv_loop s \<and> threadPool s' = threadPool s \<and> nextConnId s' = nextConnId s \<and> srv_name s' = srv_name s \<and> ipPort s' = ipPort s"

lemma same_setup_facts:
  assumes "same_setup s s'"
  shows "pool_ok s' = pool_ok s" "conn_placed s' oc = conn_placed s oc"
  using assms by (simp_all add: same_setup_def pool_ok_def conn_placed_def turn_loop_def)

text \<open>A change to one connection that keeps its name and its loop.\<close>

definition changes_conn :: "nat \<Rightarrow> server_conn \<Rightarrow> server_conn \<Rightarrow> TcpServer \<Rightarrow> TcpServer \<Rightarrow> bool" where
  "changes_conn c oc oc' s s' \<longleftrightarrow> conn_objs s c = Some oc \<and> conn_objs s' = (conn_objs s)(c \<mapsto> oc') \<and> sc_name oc' = sc_name oc \<and> sc_loop oc' = sc_loop oc
     \<and> (\<forall>n. n \<noteq> sc_name oc \<longrightarrow> connections s' n = connections s n) \<and> (connections s' (sc_name oc) = connections s (sc_name oc) \<or> connections s' (sc_name oc) = None)
     \<and> same_setup s s'"

lemma change_pending:
  assumes "changes_conn c oc oc' s s'" "names_ok s" "c' \<noteq> c"
  shows "pending_of s' c' = pending_of s c'"
proof (cases "conn_objs s c'")
  case (Some oc1)
  with assms have "sc_name oc1 \<noteq> sc_name oc" by (auto simp: names_ok_def changes_conn_def)
  with Some assms show ?thesis by (simp add: pending_of_def changes_conn_def same_setup_def)
qed (use assms in \<open>simp add: pending_of_def changes_conn_def\<close>)

lemma change_keeps:
  assumes ch: "changes_conn c oc oc' s s'" and names: "names_ok s" and conns: "conns_ok s" and wf: "conn_wf s' c oc'"
  shows "conns_ok s'" "names_ok s'" "pool_ok s' = pool_ok s"
proof -
  have set: "same_setup s s'" using ch by (simp add: changes_conn_def)
  show "pool_ok s' = pool_ok s" by (rule same_setup_facts(1) [OF set])
  have obj: "conn_objs s c = Some oc" and obj': "conn_objs s' = (conn_objs s)(c \<mapsto> oc')" and nm: "sc_name oc' = sc_name oc" and lp: "sc_loop oc' = sc_loop oc"
    and oth: "\<And>n. n \<noteq> sc_name oc \<Longrightarrow> connections s' n = connections s n"
    and own: "connections s' (sc_name oc) = connections s (sc_name oc) \<or> connections s' (sc_name oc) = None"
    using ch by (simp_all add: changes_conn_def)
  show "names_ok s'" using names obj nm unfolding names_ok_def obj' by (auto split: if_splits)
  have a: "conn_wf s' c1 oc1 \<and> conn_placed s' oc1" if "conn_objs s' c1 = Some oc1" for c1 oc1
  proof (cases "c1 = c")
    case True
    with that obj' have "oc1 = oc'" by simp
    moreover have "conn_placed s oc" using conns obj by (simp add: conns_ok_def)
    then have "conn_placed s oc'" using nm lp by (simp add: conn_placed_def)
    ultimately show ?thesis using True wf same_setup_facts(2) [OF set] by simp
  next
    case False
    with that obj' have o1: "conn_objs s c1 = Some oc1" by simp
    with False obj names have "sc_name oc1 \<noteq> sc_name oc" by (auto simp: names_ok_def)
    with conns o1 oth same_setup_facts(2) [OF set] show ?thesis by (simp add: conns_ok_def conn_wf_def)
  qed
  have b: "\<exists>oc1. conn_objs s' c1 = Some oc1 \<and> sc_name oc1 = n" if "connections s' n = Some c1" for n c1
  proof -
    from that oth own have "connections s n = Some c1" by (cases "n = sc_name oc") auto
    then obtain oc1 where "conn_objs s c1 = Some oc1" "sc_name oc1 = n"
      using conns unfolding conns_ok_def by blast
    with obj nm obj' show ?thesis by (cases "c1 = c") auto
  qed
  show "conns_ok s'" using a b by (simp add: conns_ok_def)
qed

lemma change_inv:
  assumes inv: "srv_inv s" and ch: "changes_conn c oc oc' s s'" and wf: "conn_wf s' c oc'"
    and qs: "\<And>c' l. c' \<noteq> c \<Longrightarrow> conn_queue s' c' l = conn_queue s c' l" and qc: "\<And>l. conn_queue s' c l = pending_list (pending_of s' c) l"
    and li: "\<And>l. Listen \<notin> set (srv_queue s' l)"
  shows "srv_inv s'"
proof -
  have names: "names_ok s" and conns: "conns_ok s" and pool: "pool_ok s" and q: "queue_ok s" using inv by (simp_all add: srv_inv_def)
  have "queue_ok s'"
    by (rule queue_okI [OF q, of c]) (use qs qc li change_pending [OF ch names] in simp_all)
  with change_keeps [OF ch names conns wf] pool show ?thesis by (simp add: srv_inv_def)
qed

text \<open>Taking the oldest functor out of a queue: its connection waits for nothing else.\<close>

definition srv_pop :: "nat \<Rightarrow> TcpServer \<Rightarrow> TcpServer" where
  "srv_pop l s = s\<lparr>srv_queue := (srv_queue s)(l := tl (srv_queue s l))\<rparr>"

lemma srv_pop_frame [simp]:
  "conn_objs (srv_pop l s) = conn_objs s" "connections (srv_pop l s) = connections s" "srv_loop (srv_pop l s) = srv_loop s" "threadPool (srv_pop l s) = threadPool s"
  "nextConnId (srv_pop l s) = nextConnId s" "srv_name (srv_pop l s) = srv_name s" "ipPort (srv_pop l s) = ipPort s" "acceptor (srv_pop l s) = acceptor s"
  by (simp_all add: srv_pop_def)

lemma pop_pending:
  assumes q: "queue_ok s" and f: "srv_queue s l = f # fs"
  obtains c where "functor_conn f = Some c" "pending_of s c = Some (l, f)" "\<And>l'. conn_queue (srv_pop l s) c l' = []"
    "\<And>c' l'. c' \<noteq> c \<Longrightarrow> conn_queue (srv_pop l s) c' l' = conn_queue s c' l'" "\<And>l'. Listen \<notin> set (srv_queue (srv_pop l s) l')"
proof -
  have nl: "Listen \<notin> set (srv_queue s l')" for l' using q by (simp add: queue_ok_def)
  from nl [of l] f obtain c where c: "functor_conn f = Some c" by (cases f) auto
  have one: "conn_queue s c l' = pending_list (pending_of s c) l'" for l' using q by (simp add: queue_ok_def)
  from one [of l] f c have p: "pending_of s c = Some (l, f)"
    by (auto simp: conn_queue_def pending_list_def split: option.splits prod.splits if_splits)
  have rest: "conn_queue (srv_pop l s) c l' = []" for l'
    using one [of l'] f c p by (auto simp: conn_queue_def srv_pop_def)
  have oth: "conn_queue (srv_pop l s) c' l' = conn_queue s c' l'" if "c' \<noteq> c" for c' l'
    using that f c by (auto simp: conn_queue_def srv_pop_def)
  have "Listen \<notin> set (srv_queue (srv_pop l s) l')" for l'
    using nl [of l'] f by (auto simp: srv_pop_def)
  then show ?thesis using that c p rest oth by blast
qed

lemma pop_established:
  assumes inv: "srv_inv s" and f: "srv_queue s l = ConnectEstablished c # fs"
  obtains s' where "srv_exec l (ConnectEstablished c) (srv_pop l s) = Inr s'" "srv_inv s'"
proof -
  have q: "queue_ok s" and conns: "conns_ok s" using inv by (simp_all add: srv_inv_def)
  from pop_pending [OF q f] have p: "pending_of s c = Some (l, ConnectEstablished c)" and mt: "\<And>l'. conn_queue (srv_pop l s) c l' = []"
    and oth: "\<And>c' l'. c' \<noteq> c \<Longrightarrow> conn_queue (srv_pop l s) c' l' = conn_queue s c' l'" and li: "\<And>l'. Listen \<notin> set (srv_queue (srv_pop l s) l')"
    by (metis functor_conn.simps(1) option.inject)+
  from p obtain oc where oc: "conn_objs s c = Some oc" "sc_state oc = kConnecting"
    by (auto simp: pending_of_def split: option.splits if_splits)
  let ?oc = "oc\<lparr>sc_state := kConnected, sc_added := True\<rparr>"
  let ?s = "set_conn c ?oc (srv_pop l s)"
  have wf: "conn_wf s c oc" using conns oc by (simp add: conns_ok_def)
  have "srv_inv ?s"
    by (rule change_inv [OF inv, of c oc ?oc])
      (use oc wf mt oth li in \<open>simp_all add: changes_conn_def same_setup_def conn_wf_def pending_of_def\<close>)
  moreover have "srv_exec l (ConnectEstablished c) (srv_pop l s) = Inr ?s" using oc by (simp add: conn_established_def with_conn_def)
  ultimately show ?thesis by (rule that [rotated])
qed

lemma pop_destroyed:
  assumes inv: "srv_inv s" and f: "srv_queue s l = ConnectDestroyed_of c # fs"
  obtains s' where "srv_exec l (ConnectDestroyed_of c) (srv_pop l s) = Inr s'" "srv_inv s'"
proof -
  have q: "queue_ok s" and conns: "conns_ok s" using inv by (simp_all add: srv_inv_def)
  from pop_pending [OF q f] have p: "pending_of s c = Some (l, ConnectDestroyed_of c)" and mt: "\<And>l'. conn_queue (srv_pop l s) c l' = []"
    and oth: "\<And>c' l'. c' \<noteq> c \<Longrightarrow> conn_queue (srv_pop l s) c' l' = conn_queue s c' l'" and li: "\<And>l'. Listen \<notin> set (srv_queue (srv_pop l s) l')"
    by (metis functor_conn.simps(2) option.inject)+
  from p obtain oc where oc: "conn_objs s c = Some oc" "sc_state oc = kDisconnected" "sc_added oc" "connections s (sc_name oc) \<noteq> Some c"
    by (auto simp: pending_of_def split: option.splits if_splits)
  let ?oc = "oc\<lparr>sc_state := kDisconnected, sc_added := False\<rparr>"
  let ?s = "set_conn c ?oc (srv_pop l s)"
  have "srv_inv ?s"
    by (rule change_inv [OF inv, of c oc ?oc])
      (use oc mt oth li in \<open>simp_all add: changes_conn_def same_setup_def conn_wf_def pending_of_def\<close>)
  moreover have "srv_exec l (ConnectDestroyed_of c) (srv_pop l s) = Inr ?s" using oc by (simp add: conn_destroyed_def with_conn_def)
  ultimately show ?thesis by (rule that [rotated])
qed

text \<open>Removing a connection that has closed and waits for nothing else.\<close>

lemma remove_keeps:
  assumes inv: "srv_inv s" and oc: "conn_objs s c = Some oc" "connections s (sc_name oc) = Some c" "sc_added oc"
    and t: "conn_objs t = (conn_objs s)(c \<mapsto> oc\<lparr>sc_state := kDisconnected\<rparr>)" "connections t = connections s" "same_setup s t"
    and mt: "\<And>l'. conn_queue t c l' = []" and oth: "\<And>c' l'. c' \<noteq> c \<Longrightarrow> conn_queue t c' l' = conn_queue s c' l'"
    and li: "\<And>l'. Listen \<notin> set (srv_queue t l')"
  obtains s' where "TcpServer_removeConnectionInLoop (srv_loop s) c t = Inr s'" "srv_inv s'"
proof -
  let ?oc = "oc\<lparr>sc_state := kDisconnected\<rparr>"
  let ?t = "t\<lparr>connections := (connections t)(sc_name oc := None)\<rparr>"
  let ?s = "srv_queueInLoop (sc_loop oc) (ConnectDestroyed_of c) ?t"
  have qt: "conn_queue ?t c' l' = conn_queue t c' l'" for c' l' by (simp add: conn_queue_def)
  have "srv_inv ?s"
    by (rule change_inv [OF inv, of c oc ?oc])
      (use oc t mt oth li qt in \<open>simp_all add: changes_conn_def same_setup_def conn_wf_def pending_of_def\<close>)
  moreover have "TcpServer_removeConnectionInLoop (srv_loop s) c t = Inr ?s"
    using oc t by (simp add: TcpServer_removeConnectionInLoop_def with_conn_def same_setup_def domI Let_def)
  ultimately show ?thesis by (rule that [rotated])
qed

lemma pop_remove:
  assumes inv: "srv_inv s" and f: "srv_queue s l = RemoveConnectionInLoop c # fs"
  obtains s' where "srv_exec l (RemoveConnectionInLoop c) (srv_pop l s) = Inr s'" "srv_inv s'"
proof -
  have q: "queue_ok s" and conns: "conns_ok s" using inv by (simp_all add: srv_inv_def)
  from pop_pending [OF q f] have p: "pending_of s c = Some (l, RemoveConnectionInLoop c)" and mt: "\<And>l'. conn_queue (srv_pop l s) c l' = []"
    and oth: "\<And>c' l'. c' \<noteq> c \<Longrightarrow> conn_queue (srv_pop l s) c' l' = conn_queue s c' l'" and li: "\<And>l'. Listen \<notin> set (srv_queue (srv_pop l s) l')"
    by (metis functor_conn.simps(3) option.inject)+
  from p obtain oc where oc: "conn_objs s c = Some oc" "sc_state oc = kDisconnected" "connections s (sc_name oc) = Some c" and l: "l = srv_loop s"
    by (auto simp: pending_of_def split: option.splits if_splits)
  have ad: "sc_added oc" using conns oc by (auto simp: conns_ok_def conn_wf_def)
  have same: "oc\<lparr>sc_state := kDisconnected\<rparr> = oc" using oc(2) by simp
  obtain s' where "TcpServer_removeConnectionInLoop (srv_loop s) c (srv_pop l s) = Inr s'" "srv_inv s'"
    by (rule remove_keeps [OF inv oc(1) oc(3) ad, of "srv_pop l s"])
      (use oc mt oth li same in \<open>simp_all add: same_setup_def fun_upd_idem\<close>)
  with l show ?thesis by (intro that) simp_all
qed

lemma run_ok:
  assumes inv: "srv_inv s" and f: "srv_queue s l = f # fs"
  obtains s' where "srv_exec l f (srv_pop l s) = Inr s'" "srv_inv s'"
proof (cases f)
  case Listen
  with inv f show ?thesis by (auto simp: srv_inv_def queue_ok_def dest: spec [where x = l])
qed (use assms that in \<open>auto elim: pop_established pop_destroyed pop_remove\<close>)

lemma handleClose_ok:
  assumes inv: "srv_inv s" and oc: "conn_objs s c = Some oc" and st: "sc_state oc = kConnected \<or> sc_state oc = kDisconnecting"
  obtains s' where "conn_handleClose c s = Inr s'" "srv_inv s'"
proof -
  have q: "queue_ok s" and conns: "conns_ok s" using inv by (simp_all add: srv_inv_def)
  have wf: "connections s (sc_name oc) = Some c" "sc_added oc" using conns oc st by (auto simp: conns_ok_def conn_wf_def)
  have "pending_of s c = None" using oc st by (auto simp: pending_of_def)
  with q have mt: "conn_queue s c l = []" for l by (simp add: queue_ok_def)
  have li: "Listen \<notin> set (srv_queue s l)" for l using q by (simp add: queue_ok_def)
  let ?oc = "oc\<lparr>sc_state := kDisconnected\<rparr>"
  let ?t = "set_conn c ?oc s"
  show ?thesis
  proof (cases "sc_loop oc = srv_loop s")
    case True
    obtain s' where "TcpServer_removeConnectionInLoop (srv_loop s) c ?t = Inr s'" "srv_inv s'"
      by (rule remove_keeps [OF inv oc wf, of ?t]) (use mt li in \<open>simp_all add: same_setup_def\<close>)
    with True oc st show ?thesis
      by (intro that) (auto simp: conn_handleClose_def with_conn_def TcpServer_removeConnection_def srv_runInLoop_def)
  next
    case False
    let ?s = "srv_queueInLoop (srv_loop s) (RemoveConnectionInLoop c) ?t"
    have "srv_inv ?s"
      by (rule change_inv [OF inv, of c oc ?oc])
        (use oc wf mt li in \<open>simp_all add: changes_conn_def same_setup_def conn_wf_def pending_of_def\<close>)
    moreover have "conn_handleClose c s = Inr ?s"
      using False oc st by (auto simp: conn_handleClose_def with_conn_def TcpServer_removeConnection_def srv_runInLoop_def)
    ultimately show ?thesis by (rule that [rotated])
  qed
qed

lemma shutdown_ok:
  assumes inv: "srv_inv s" and oc: "conn_objs s c = Some oc"
  obtains s' where "conn_shutdown c s = Inr s'" "srv_inv s'"
proof (cases "sc_state oc = kConnected")
  case True
  have q: "queue_ok s" and conns: "conns_ok s" using inv by (simp_all add: srv_inv_def)
  have wf: "connections s (sc_name oc) = Some c" "sc_added oc" using conns oc True by (auto simp: conns_ok_def conn_wf_def)
  have "pending_of s c = None" using oc True by (auto simp: pending_of_def)
  with q have mt: "conn_queue s c l = []" for l by (simp add: queue_ok_def)
  have li: "Listen \<notin> set (srv_queue s l)" for l using q by (simp add: queue_ok_def)
  let ?oc = "oc\<lparr>sc_state := kDisconnecting\<rparr>"
  have "srv_inv (set_conn c ?oc s)"
    by (rule change_inv [OF inv, of c oc ?oc])
      (use oc wf mt li in \<open>simp_all add: changes_conn_def same_setup_def conn_wf_def pending_of_def\<close>)
  with oc True show ?thesis by (intro that) (auto simp: conn_shutdown_def with_conn_def)
qed (use assms that in \<open>auto simp: conn_shutdown_def with_conn_def\<close>)

lemma srv_inv_acceptor [simp]: "srv_inv (s\<lparr>acceptor := a\<rparr>) = srv_inv s"
proof -
  have "pending_of (s\<lparr>acceptor := a\<rparr>) c = pending_of s c" for c by (simp add: pending_of_def split: option.split)
  then show ?thesis
    by (simp add: srv_inv_def queue_ok_def conns_ok_def names_ok_def pool_ok_def conn_wf_def conn_placed_def turn_loop_def conn_queue_def)
qed

lemma next_loop:
  assumes pool: "pool_ok s"
  obtains p where "getNextLoop True (threadPool s) = Inr (turn_loop s (nextConnId s), p)" "pool_started p" "baseLoop p = baseLoop (threadPool s)"
    "loops p = loops (threadPool s)" "loops p \<noteq> [] \<Longrightarrow> pool_next p = nat (nextConnId s) mod length (loops p)"
proof (cases "loops (threadPool s) = []")
  case True
  with pool show ?thesis by (intro that [of "threadPool s"]) (simp_all add: pool_ok_def getNextLoop_def turn_loop_def)
next
  case False
  let ?p = "threadPool s"
  let ?n = "length (loops ?p)"
  have st: "pool_started ?p" and nx: "pool_next ?p = nat (nextConnId s - 1) mod ?n" and ge: "1 \<le> nextConnId s"
    using pool False by (simp_all add: pool_ok_def)
  have lt: "pool_next ?p < ?n" using nx False by simp
  have sc: "Suc (nat (nextConnId s - 1)) = nat (nextConnId s)" using ge by simp
  have "(pool_next ?p + 1) mod ?n = nat (nextConnId s) mod ?n"
    unfolding nx sc [symmetric] by (simp add: mod_Suc_eq)
  moreover have "getNextLoops 1 ?p = Inr ([loops ?p ! pool_next ?p], ?p\<lparr>pool_next := (pool_next ?p + 1) mod ?n\<rparr>)"
    using pool_round_robin [OF st lt, of 1] lt by simp
  ultimately have "getNextLoop True ?p = Inr (loops ?p ! pool_next ?p, ?p\<lparr>pool_next := nat (nextConnId s) mod ?n\<rparr>)"
    by (simp add: res_simps split: prod.splits)
  with False st nx show ?thesis
    by (intro that [of "?p\<lparr>pool_next := nat (nextConnId s) mod ?n\<rparr>"]) (simp_all add: turn_loop_def)
qed

definition next_name :: "TcpServer \<Rightarrow> string" where
  "next_name s = srv_name s @ conn_suffix (ipPort s) (nextConnId s)"

lemma next_name_fresh:
  assumes conns: "conns_ok s" and pool: "pool_ok s" and o1: "conn_objs s c1 = Some oc1"
  shows "sc_name oc1 \<noteq> next_name s"
proof -
  have "conn_placed s oc1" using conns o1 by (simp add: conns_ok_def)
  then obtain k where "1 \<le> k" "k < nextConnId s" "sc_name oc1 = srv_name s @ conn_suffix (ipPort s) k"
    unfolding conn_placed_def by blast
  with pool conn_suffix_inject [of "ipPort s" k "nextConnId s"] show ?thesis by (auto simp: next_name_def pool_ok_def)
qed

text \<open>A new connection in the map, with the name and the loop that come next.\<close>

definition adds_conn :: "nat \<Rightarrow> server_conn \<Rightarrow> TcpServer \<Rightarrow> TcpServer \<Rightarrow> bool" where
  "adds_conn c oc s s' \<longleftrightarrow> conn_objs s c = None \<and> conn_objs s' = (conn_objs s)(c \<mapsto> oc) \<and> connections s' = (connections s)(next_name s \<mapsto> c)
     \<and> sc_name oc = next_name s \<and> sc_loop oc = turn_loop s (nextConnId s) \<and> nextConnId s' = nextConnId s + 1 \<and> nextConnId s' < 2 ^ 31
     \<and> srv_loop s' = srv_loop s \<and> srv_name s' = srv_name s \<and> ipPort s' = ipPort s \<and> pool_started (threadPool s')
     \<and> baseLoop (threadPool s') = baseLoop (threadPool s) \<and> loops (threadPool s') = loops (threadPool s)
     \<and> (loops (threadPool s) \<noteq> [] \<longrightarrow> pool_next (threadPool s') = nat (nextConnId s) mod length (loops (threadPool s)))"

lemma adds_conn_placed:
  assumes add: "adds_conn c oc s s'" and pool: "pool_ok s" and pl: "conn_placed s oc1 \<or> oc1 = oc"
  shows "conn_placed s' oc1"
proof -
  have "turn_loop s' k = turn_loop s k" for k using add by (simp add: turn_loop_def adds_conn_def)
  with add pool have new: "conn_placed s' oc"
    unfolding conn_placed_def by (intro exI [of _ "nextConnId s"]) (simp add: adds_conn_def pool_ok_def next_name_def)
  have "conn_placed s' oc1" if "conn_placed s oc1"
  proof -
    from that obtain k where k: "1 \<le> k" "k < nextConnId s" "sc_name oc1 = srv_name s @ conn_suffix (ipPort s) k" "sc_loop oc1 = turn_loop s k"
      unfolding conn_placed_def by blast
    with add \<open>\<And>k. turn_loop s' k = turn_loop s k\<close> show ?thesis
      unfolding conn_placed_def by (intro exI [of _ k]) (simp add: adds_conn_def)
  qed
  with new pl show ?thesis by blast
qed

lemma adds_conn_conns:
  assumes add: "adds_conn c oc s s'" and conns: "conns_ok s" and pool: "pool_ok s" and wf: "conn_wf s' c oc"
  shows "conns_ok s'"
proof -
  have obj: "conn_objs s' = (conn_objs s)(c \<mapsto> oc)" and mp: "connections s' = (connections s)(next_name s \<mapsto> c)" and new: "conn_objs s c = None"
    and nm: "sc_name oc = next_name s" using add by (simp_all add: adds_conn_def)
  have "conn_wf s' c1 oc1 \<and> conn_placed s' oc1" if "conn_objs s' c1 = Some oc1" for c1 oc1
  proof (cases "c1 = c")
    case True
    with that obj wf adds_conn_placed [OF add pool] show ?thesis by simp
  next
    case False
    with that obj have o1: "conn_objs s c1 = Some oc1" by simp
    with conns have "conn_wf s c1 oc1" "conn_placed s oc1" by (simp_all add: conns_ok_def)
    moreover have "connections s' (sc_name oc1) = connections s (sc_name oc1)" using next_name_fresh [OF conns pool o1] mp by simp
    ultimately show ?thesis using adds_conn_placed [OF add pool] by (simp add: conn_wf_def)
  qed
  moreover have "\<exists>oc1. conn_objs s' c1 = Some oc1 \<and> sc_name oc1 = n" if "connections s' n = Some c1" for n c1
  proof (cases "n = next_name s")
    case True
    with that show ?thesis by (simp add: mp obj nm)
  next
    case False
    with that have "connections s n = Some c1" by (simp add: mp)
    with conns obtain oc1 where "conn_objs s c1 = Some oc1" "sc_name oc1 = n" unfolding conns_ok_def by blast
    with new show ?thesis by (cases "c1 = c") (auto simp: obj)
  qed
  ultimately show ?thesis by (simp add: conns_ok_def)
qed

lemma adds_conn_inv:
  assumes add: "adds_conn c oc s s'" and inv: "srv_inv s"
    and st: "sc_state oc = kConnecting \<and> \<not> sc_added oc \<or> sc_state oc = kConnected \<and> sc_added oc"
    and qs: "\<And>c' l. conn_queue s' c' l = conn_queue s c' l @ (if c' = c \<and> sc_state oc = kConnecting \<and> l = sc_loop oc then [ConnectEstablished c] else [])"
    and li: "\<And>l. Listen \<notin> set (srv_queue s' l)"
  shows "srv_inv s'"
proof -
  have q: "queue_ok s" and conns: "conns_ok s" and names: "names_ok s" and pool: "pool_ok s" using inv by (simp_all add: srv_inv_def)
  have obj: "conn_objs s' = (conn_objs s)(c \<mapsto> oc)" and mp: "connections s' = (connections s)(next_name s \<mapsto> c)" and new: "conn_objs s c = None"
    and nm: "sc_name oc = next_name s" and lp: "srv_loop s' = srv_loop s" using add by (simp_all add: adds_conn_def)
  note fresh = next_name_fresh [OF conns pool]
  have same: "pending_of s' c' = pending_of s c'" if "c' \<noteq> c" for c'
    using that fresh [of c'] by (simp add: pending_of_def obj mp lp split: option.split)
  have none: "conn_queue s c l = []" for l using q new by (simp add: queue_ok_def pending_of_def)
  have "queue_ok s'"
    by (rule queue_okI [OF q, of c]) (use qs same none li st in \<open>auto simp: pending_of_def obj\<close>)
  moreover have "pool_ok s'"
    using pool add by (simp add: pool_ok_def adds_conn_def)
  moreover have "names_ok s'"
    using names fresh nm unfolding names_ok_def obj by (metis fun_upd_apply option.inject)
  moreover have "conns_ok s'"
    by (rule adds_conn_conns [OF add conns pool]) (use st mp nm in \<open>auto simp: conn_wf_def\<close>)
  ultimately show ?thesis by (simp add: srv_inv_def)
qed

lemma newConnection_ok:
  assumes inv: "srv_inv s" and new: "conn_objs s c = None" and id: "nextConnId s + 1 < 2 ^ 31"
  obtains s' where "TcpServer_newConnection (srv_loop s) sockfd c s = Inr s'" "srv_inv s'"
proof -
  have q: "queue_ok s" and pool: "pool_ok s" using inv by (simp_all add: srv_inv_def)
  obtain p where p: "getNextLoop True (threadPool s) = Inr (turn_loop s (nextConnId s), p)" "pool_started p" "baseLoop p = baseLoop (threadPool s)"
    "loops p = loops (threadPool s)" "loops p \<noteq> [] \<Longrightarrow> pool_next p = nat (nextConnId s) mod length (loops p)"
    using next_loop [OF pool] by blast
  define l where "l = turn_loop s (nextConnId s)"
  define oc where "oc = \<lparr>sc_name = next_name s, sc_loop = l, sc_fd = sockfd, sc_state = kConnecting, sc_added = False\<rparr>"
  define s1 where "s1 = s\<lparr>threadPool := p, nextConnId := nextConnId s + 1, connections := (connections s)(next_name s \<mapsto> c),
      conn_objs := (conn_objs s)(c \<mapsto> oc)\<rparr>"
  have add: "adds_conn c oc s s1" using new id p by (simp add: adds_conn_def s1_def oc_def l_def)
  have li: "Listen \<notin> set (srv_queue s l')" for l' using q by (simp add: queue_ok_def)
  have s1: "srv_queue s1 = srv_queue s" "conn_objs s1 c = Some oc" by (simp_all add: s1_def)
  have qs: "conn_queue s1 c' l' = conn_queue s c' l'" for c' l' by (simp add: conn_queue_def s1)
  have oc: "sc_loop oc = l" "sc_state oc = kConnecting" "\<not> sc_added oc" by (simp_all add: oc_def)
  have run: "TcpServer_newConnection (srv_loop s) sockfd c s = srv_runInLoop (srv_loop s) l (ConnectEstablished c) s1"
    using p(1) id by (simp add: TcpServer_newConnection_def Let_def s1_def oc_def next_name_def l_def)
  show ?thesis
  proof (cases "l = srv_loop s")
    case True
    let ?oc = "oc\<lparr>sc_state := kConnected, sc_added := True\<rparr>"
    let ?s = "set_conn c ?oc s1"
    have "adds_conn c ?oc s ?s" using add by (simp add: adds_conn_def)
    then have "srv_inv ?s" by (rule adds_conn_inv [OF _ inv]) (use li qs s1 in simp_all)
    moreover have "TcpServer_newConnection (srv_loop s) sockfd c s = Inr ?s"
      using True run s1 oc by (simp add: srv_runInLoop_def conn_established_def with_conn_def)
    ultimately show ?thesis by (rule that [rotated])
  next
    case False
    let ?s = "srv_queueInLoop l (ConnectEstablished c) s1"
    have "adds_conn c oc s ?s" using add by (simp add: adds_conn_def)
    then have "srv_inv ?s" by (rule adds_conn_inv [OF _ inv]) (use li qs s1 oc in auto)
    moreover have "TcpServer_newConnection (srv_loop s) sockfd c s = Inr ?s" using False run by (simp add: srv_runInLoop_def)
    ultimately show ?thesis by (rule that [rotated])
  qed
qed

lemma accept_ok:
  assumes inv: "srv_inv s" and new: "conn_objs s c = None" and id: "nextConnId s + 1 < 2 ^ 31"
  obtains s' where "TcpServer_accept (srv_loop s) out c s = Inr s'" "srv_inv s'"
proof -
  obtain r a where r: "Acceptor_handleRead True True out (acceptor s) = Inr (r, a)"
    by (cases "Acceptor_handleRead True True out (acceptor s)") (auto simp: Acceptor_handleRead_def Let_def split: if_splits)
  show ?thesis
  proof (cases r)
    case None
    with r inv show ?thesis by (intro that [of "s\<lparr>acceptor := a\<rparr>"]) (simp_all add: TcpServer_accept_def)
  next
    case (Some sockfd)
    have "srv_inv (s\<lparr>acceptor := a\<rparr>)" using inv by simp
    then obtain s' where "TcpServer_newConnection (srv_loop s) sockfd c (s\<lparr>acceptor := a\<rparr>) = Inr s'" "srv_inv s'"
      using newConnection_ok [of "s\<lparr>acceptor := a\<rparr>" c sockfd] new id by auto
    with r Some show ?thesis by (intro that) (simp_all add: TcpServer_accept_def)
  qed
qed

section \<open>Runs of the server\<close>

text \<open>
  The acceptor's channel becomes readable; the thread of a loop runs its oldest functor; a connection shuts down or closes.
\<close>

inductive srv_step :: "TcpServer \<Rightarrow> TcpServer \<Rightarrow> bool" where
  accept: "conn_objs s c = None \<Longrightarrow> nextConnId s + 1 < 2 ^ 31 \<Longrightarrow> TcpServer_accept (srv_loop s) out c s = Inr s' \<Longrightarrow> srv_step s s'"
| run: "srv_queue s l = f # fs \<Longrightarrow> srv_exec l f (srv_pop l s) = Inr s' \<Longrightarrow> srv_step s s'"
| shut: "conn_objs s c = Some oc \<Longrightarrow> conn_shutdown c s = Inr s' \<Longrightarrow> srv_step s s'"
| close: "conn_objs s c = Some oc \<Longrightarrow> sc_state oc = kConnected \<or> sc_state oc = kDisconnecting \<Longrightarrow> conn_handleClose c s = Inr s' \<Longrightarrow> srv_step s s'"

definition srv_init :: "TcpServer \<Rightarrow> bool" where
  "srv_init s \<longleftrightarrow> (\<exists>l ip name acc n num cb outs s1. length ip \<le> 51 \<and> TcpServer_setThreadNum n (TcpServer_new l ip name acc) = Inr s1
     \<and> TcpServer_start l num cb outs s1 = Inr s)"

lemma srv_step_inv: "srv_step s s' \<Longrightarrow> srv_inv s \<Longrightarrow> srv_inv s'"
proof (induction rule: srv_step.induct)
  case (accept s c out s')
  then show ?case by (metis accept_ok sum.inject(2))
next
  case (run s l f fs s')
  then show ?case by (metis run_ok sum.inject(2))
next
  case (shut s c oc s')
  then show ?case by (metis shutdown_ok sum.inject(2))
next
  case (close s c oc s')
  then show ?case by (metis handleClose_ok sum.inject(2))
qed

lemma srv_new_inv:
  assumes "length ip \<le> 51" "pool_started p" "baseLoop p = l" "pool_next p = 0"
  shows "srv_inv (TcpServer_new l ip name acc\<lparr>srv_started := True, threadPool := p\<rparr>)"
  using assms by (simp add: srv_inv_def TcpServer_new_def queue_ok_def conn_queue_def pending_of_def conns_ok_def names_ok_def pool_ok_def)

lemma pool_start_ready:
  assumes "EventLoopThreadPool_start num in_loop cb outs p = Inr q" "pool_next p = 0"
  shows "pool_started q" "baseLoop q = baseLoop p" "pool_next q = 0"
  using assms by (auto simp: EventLoopThreadPool_start_def Let_def res_simps split: if_splits)

lemma srv_init_inv: "srv_init s \<Longrightarrow> srv_inv s"
proof -
  assume "srv_init s"
  then obtain l ip name acc n num cb outs s1 where ip: "length ip \<le> 51" and s1: "TcpServer_setThreadNum n (TcpServer_new l ip name acc) = Inr s1"
    and st: "TcpServer_start l num cb outs s1 = Inr s" unfolding srv_init_def by blast
  let ?p0 = "EventLoopThreadPool_setThreadNum n (EventLoopThreadPool_new l name)"
  have s1: "s1 = (TcpServer_new l ip name acc)\<lparr>threadPool := ?p0\<rparr>"
    using s1 by (simp add: TcpServer_setThreadNum_def TcpServer_new_def res_simps)
  from st s1 obtain p where p: "EventLoopThreadPool_start num True cb outs ?p0 = Inr p"
      and r: "srv_runInLoop l l Listen (TcpServer_new l ip name acc\<lparr>srv_started := True, threadPool := p\<rparr>) = Inr s"
    by (auto simp: TcpServer_start_def TcpServer_new_def res_simps)
  have n0: "pool_next ?p0 = 0" "baseLoop ?p0 = l" by (simp_all add: EventLoopThreadPool_setThreadNum_def EventLoopThreadPool_new_def)
  have "srv_inv (TcpServer_new l ip name acc\<lparr>srv_started := True, threadPool := p\<rparr>)"
    using pool_start_ready [OF p n0(1)] n0(2) by (intro srv_new_inv [OF ip]) simp_all
  with r show ?thesis by (auto simp: srv_runInLoop_def res_simps)
qed

interpretation srv: invariant_system srv_init srv_step srv_inv
  by unfold_locales (auto intro: srv_init_inv srv_step_inv)

section \<open>Errors\<close>

text \<open>When no descriptor is left, the acceptor gives up the one it keeps, takes the connection and closes it, and keeps one again.\<close>

lemma out_of_descriptors:
  assumes "ao_connfd out < 0" "ao_errno out = EMFILE"
  obtains a' where "Acceptor_handleRead True has_cb out a = Inr (None, a')" "acc_closed a' = acc_closed a @ [idleFd a, ao_again out]"
    "idleFd a' = ao_open out"
  using assms that by (auto simp: Acceptor_handleRead_def Acceptor_close_def Let_def)

text \<open>A server destroyed while one of its connections, served by the same loop, is shutting down: the removal of its channel fails.\<close>

lemma destroy_half_closed:
  assumes "connections s = [sc_name oc \<mapsto> c]" "conn_objs s c = Some oc" "sc_loop oc = srv_loop s" "sc_state oc = kDisconnecting"
  shows "TcpServer_destroy (srv_loop s) s = Inl Assert_failed"
  using assms by (simp add: TcpServer_destroy_def with_conn_def srv_runInLoop_def conn_destroyed_def)

section \<open>The connections in detail\<close>

text \<open>
  What the server sees of a connection agrees with the model of \<open>Tcp_Connection\<close>, here with callbacks that leave the connection alone: the
  assertions on the state and the states that follow are the same.
\<close>

lemma on_loop_state: "on_loop f c = Inr c' \<Longrightarrow> state c' = state c"
  by (auto simp: on_loop_def res_simps)

lemma established_in_detail:
  assumes "sc_state oc = state c" "conn_objs s x = Some oc"
  shows "state c \<noteq> kConnecting \<Longrightarrow> TcpConnection_connectEstablished (\<lambda>_ c. Inr c) c = Inl Assert_failed \<and> conn_established x s = Inl Assert_failed"
    and "TcpConnection_connectEstablished (\<lambda>_ c. Inr c) c = Inr c' \<Longrightarrow>
      \<exists>s' oc'. conn_established x s = Inr s' \<and> conn_objs s' x = Some oc' \<and> sc_state oc' = state c'"
  using assms
  by (auto simp: TcpConnection_connectEstablished_def conn_established_def with_conn_def Let_def res_simps dest!: on_loop_state)

lemma close_in_detail:
  assumes "sc_state oc = state c" "conn_objs s x = Some oc"
  shows "state c \<noteq> kConnected \<Longrightarrow> state c \<noteq> kDisconnecting \<Longrightarrow>
      TcpConnection_handleClose (\<lambda>_ c. Inr c) c = Inl Assert_failed \<and> conn_handleClose x s = Inl Assert_failed"
    and "TcpConnection_handleClose (\<lambda>_ c. Inr c) c = Inr c' \<Longrightarrow> (state c = kConnected \<or> state c = kDisconnecting) \<and> state c' = kDisconnected"
  using assms by (auto simp: TcpConnection_handleClose_def conn_handleClose_def with_conn_def Let_def res_simps dest!: on_loop_state)

lemma destroyed_in_detail:
  "TcpConnection_connectDestroyed (\<lambda>_ c. Inr c) c = Inr c' \<Longrightarrow> state c' = (if state c = kConnected then kDisconnected else state c)"
  by (auto simp: TcpConnection_connectDestroyed_def Let_def res_simps dest!: on_loop_state split: if_splits)

text \<open>The connection of the lemma above: a disconnecting one whose channel still watches for events cannot be removed.\<close>

lemma destroy_half_closed_in_detail:
  assumes "state c = kDisconnecting" "the_channel c = Inr ch" "events ch \<noteq> kNoneEvent"
  shows "TcpConnection_connectDestroyed user c = Inl Assert_failed"
  using assms by (simp add: TcpConnection_connectDestroyed_def on_loop_def Channel_remove_def the_channel_def Channel_isNoneEvent_def)

section \<open>Properties\<close>

text \<open>
  C16. The connections of a server whose printed address has at most 51 characters, for fewer than \<open>2 ^ 31\<close> connections. In every
  reachable state, however the threads of the loops take turns: every functor that a
  loop can run next runs without failing an assertion, in particular the removal finds its connection in the map; an
  open connection can close and a new one can be accepted; connection \<open>k\<close> is served by the loop whose turn it is; different connections have
  different names; and when nothing is queued every connection is either open and in the map, or disconnected, out of the map and out of its loop.
\<close>

theorem server_connections:
  assumes "srv_init s0" and "srv_step\<^sup>*\<^sup>* s0 s"
  shows "(\<forall>l f fs. srv_queue s l = f # fs \<longrightarrow> (\<exists>s'. srv_exec l f (srv_pop l s) = Inr s'))
    \<and> (\<forall>c oc. conn_objs s c = Some oc \<and> (sc_state oc = kConnected \<or> sc_state oc = kDisconnecting) \<longrightarrow> (\<exists>s'. conn_handleClose c s = Inr s'))
    \<and> (\<forall>c out. conn_objs s c = None \<and> nextConnId s + 1 < 2 ^ 31 \<longrightarrow> (\<exists>s'. TcpServer_accept (srv_loop s) out c s = Inr s'))
    \<and> (\<forall>c oc. conn_objs s c = Some oc \<longrightarrow> conn_placed s oc) \<and> names_ok s
    \<and> ((\<forall>l. srv_queue s l = []) \<longrightarrow> (\<forall>c oc. conn_objs s c = Some oc \<longrightarrow>
        (if connections s (sc_name oc) = Some c then sc_added oc \<and> (sc_state oc = kConnected \<or> sc_state oc = kDisconnecting)
         else \<not> sc_added oc \<and> sc_state oc = kDisconnected)))"
proof -
  have inv: "srv_inv s" using srv.reachable_inv assms .
  then have q: "queue_ok s" and conns: "conns_ok s" and names: "names_ok s" by (simp_all add: srv_inv_def)
  have quiet: "if connections s (sc_name oc) = Some c then sc_added oc \<and> (sc_state oc = kConnected \<or> sc_state oc = kDisconnecting)
      else \<not> sc_added oc \<and> sc_state oc = kDisconnected" if "\<forall>l. srv_queue s l = []" "conn_objs s c = Some oc" for c oc
  proof -
    have none: "pending_list (pending_of s c) l = []" for l using q that(1) by (simp add: queue_ok_def conn_queue_def)
    have "pending_of s c = None"
      using none [of "fst (the (pending_of s c))"] by (cases "pending_of s c") (auto simp: pending_list_def)
    moreover have "conn_wf s c oc" using conns that(2) by (simp add: conns_ok_def)
    ultimately show ?thesis using that(2)
      by (cases "sc_state oc") (auto simp: pending_of_def conn_wf_def split: if_splits)
  qed
  show ?thesis
    using run_ok [OF inv] handleClose_ok [OF inv] accept_ok [OF inv] names conns quiet
    unfolding conns_ok_def by (intro conjI allI impI) metis+
qed

text \<open>The witness: a server with two loops accepts a connection, which the first of them then establishes.\<close>

definition sample_acceptor :: "srv_functor Acceptor" where
  "sample_acceptor = \<lparr>acc_loop = quiet_loop\<lparr>chan_store := [5 \<mapsto> (Channel_new 9)\<lparr>callbacks := {Read_cb}\<rparr>]\<rparr>, acceptSocket = 9, acceptChannel = 5,
     listenning = False, idleFd = 8, acc_closed = []\<rparr>"

lemma sample_listens: "\<exists>a. Acceptor_listen True sample_acceptor = Inr a"
  by (simp add: Acceptor_listen_def sample_acceptor_def Channel_enableReading_def Channel_set_events_def Channel_update_def EventLoop_updateChannel_def
      deref_channel_def Channel_new_def Poller_updateChannel_def quiet_loop_def Poller_new_def index_defs Let_def split: prod.split)

theorem server_connections_witness:
  "\<exists>s0 s. srv_init s0 \<and> srv_step\<^sup>*\<^sup>* s0 s \<and> srv_queue s 11 = [ConnectEstablished 100] \<and> connections s ''poby-0.0.0.0:80#1'' = Some 100
     \<and> (\<exists>s'. srv_exec 11 (ConnectEstablished 100) (srv_pop 11 s) = Inr s')"
proof -
  let ?outs = "\<lambda>i. (7 + int i, 11 + i)"
  define s1 where "s1 = TcpServer_new 10 ''0.0.0.0:80'' ''poby'' sample_acceptor\<lparr>threadPool := EventLoopThreadPool_setThreadNum 2 (EventLoopThreadPool_new 10 ''poby'')\<rparr>"
  obtain a where a: "Acceptor_listen True sample_acceptor = Inr a" using sample_listens by blast
  obtain p where p: "EventLoopThreadPool_start 0 True False ?outs (threadPool s1) = Inr p" "loops p = [11, 12]" "pool_started p" "pool_next p = 0" "baseLoop p = 10"
    by (simp add: EventLoopThreadPool_start_def s1_def EventLoopThreadPool_setThreadNum_def EventLoopThreadPool_new_def Let_def upt_conv_Cons)
  define s0 where "s0 = s1\<lparr>srv_started := True, threadPool := p, acceptor := a\<rparr>"
  have "TcpServer_start 10 0 False ?outs s1 = Inr s0"
    using a p by (simp add: TcpServer_start_def s0_def s1_def TcpServer_new_def srv_runInLoop_def sample_acceptor_def)
  moreover have "TcpServer_setThreadNum 2 (TcpServer_new 10 ''0.0.0.0:80'' ''poby'' sample_acceptor) = Inr s1"
    by (simp add: TcpServer_setThreadNum_def s1_def TcpServer_new_def)
  moreover have "length ''0.0.0.0:80'' \<le> 51" by simp
  ultimately have init: "srv_init s0" unfolding srv_init_def by blast
  define s where "s = srv_queueInLoop 11 (ConnectEstablished 100) (s0\<lparr>threadPool := p\<lparr>pool_next := 1\<rparr>, nextConnId := 2,
      connections := [''poby-0.0.0.0:80#1'' \<mapsto> 100], conn_objs := [100 \<mapsto> \<lparr>sc_name = ''poby-0.0.0.0:80#1'', sc_loop = 11, sc_fd = 20,
        sc_state = kConnecting, sc_added = False\<rparr>]\<rparr>)"
  have nm: "conn_suffix ''0.0.0.0:80'' 1 = ''-0.0.0.0:80#1''"
    by (simp add: conn_suffix_full show_nat.simps digit_char_def char_of_def bit_0)
  have "TcpServer_accept (srv_loop s0) \<lparr>ao_connfd = 20, ao_errno = 0, ao_again = 0, ao_open = 0\<rparr> 100 s0 = Inr s"
    using p nm by (simp add: TcpServer_accept_def Acceptor_handleRead_def TcpServer_newConnection_def getNextLoop_def srv_runInLoop_def
        s_def s0_def s1_def TcpServer_new_def Let_def)
  then have "srv_step s0 s"
    by (intro srv_step.accept [of s0 100]) (simp_all add: s0_def s1_def TcpServer_new_def)
  then have run: "srv_step\<^sup>*\<^sup>* s0 s" by blast
  have "srv_queue s 11 = [ConnectEstablished 100]" "connections s ''poby-0.0.0.0:80#1'' = Some 100"
    by (simp_all add: s_def srv_queueInLoop_def s0_def s1_def TcpServer_new_def)
  with init run server_connections [OF init run] show ?thesis by blast
qed

end
