(* ===== verification/Tcp_Client.thy ===== *)
theory Tcp_Client
  imports Tcp_Connection Tcp_Connector Net_Address
begin

text \<open>
  The owner of a client connection: \<^verbatim>\<open>src/src/network/tcp/TcpClient.cc\<close>. It has a connector and at most one connection,
  both in one loop; it makes the connection when the connector hands it a socket, and when the connection closes it
  lets the connector start again if it was asked to retry. Of a connection the model has its state and whether its channel is in the
  loop, the rest is the subject of \<open>Tcp_Connection\<close>. The lemmas show that the client respects what the
  connector relies on, and where it does not.
\<close>

section \<open>State\<close>

datatype cl_functor = Cl_connectDestroyed nat | Cl_forceCloseInLoop nat | Cl_setCloseCallback nat

text \<open>\<open>cc_detached\<close>: the callback for closing is the one that does not go back to the client.\<close>

record client_conn =
  cc_name :: string
  cc_fd :: int
  cc_state :: StateE
  cc_added :: bool
  cc_detached :: bool

record TcpClient =
  connector :: TcpConnector
  cl_name :: string
  cl_retry :: bool
  cl_connect :: bool
  cl_nextConnId :: int
  connection :: "nat option"
  cl_conns :: "nat \<rightharpoonup> client_conn"
  cl_queue :: "cl_functor list"

definition TcpClient_new :: "tc_functor EventLoop \<Rightarrow> string \<Rightarrow> TcpClient" where
  "TcpClient_new L nameArg = \<lparr>connector = TcpConnector_new L, cl_name = nameArg, cl_retry = False, cl_connect = True, cl_nextConnId = 1,
     connection = None, cl_conns = Map.empty, cl_queue = []\<rparr>"

section \<open>Operations\<close>

definition TcpClient_enableRetry :: "TcpClient \<Rightarrow> TcpClient" where
  "TcpClient_enableRetry c = c\<lparr>cl_retry := True\<rparr>"

definition TcpClient_connect :: "bool \<Rightarrow> attempt \<Rightarrow> TcpClient \<Rightarrow> TcpClient res" where
  "TcpClient_connect inLoop a c =
     (let c1 = c\<lparr>cl_connect := True\<rparr> in
      andThen (TcpConnector_start inLoop (connector c1) a) (\<lambda>k. Inr (c1\<lparr>connector := k\<rparr>)))"

text \<open>Of \<open>shutdown\<close> the change of state.\<close>

definition client_shutdown :: "nat \<Rightarrow> TcpClient \<Rightarrow> TcpClient" where
  "client_shutdown x c = (case cl_conns c x of
       Some oc \<Rightarrow> if cc_state oc = kConnected then c\<lparr>cl_conns := (cl_conns c)(x \<mapsto> oc\<lparr>cc_state := kDisconnecting\<rparr>)\<rparr> else c
     | None \<Rightarrow> c)"

definition TcpClient_disconnect :: "TcpClient \<Rightarrow> TcpClient" where
  "TcpClient_disconnect c =
     (let c1 = c\<lparr>cl_connect := False\<rparr> in
      case connection c1 of Some x \<Rightarrow> client_shutdown x c1 | None \<Rightarrow> c1)"

definition TcpClient_stop :: "bool \<Rightarrow> TcpClient \<Rightarrow> TcpClient" where
  "TcpClient_stop inLoop c = c\<lparr>cl_connect := False, connector := TcpConnector_stop inLoop (connector c)\<rparr>"

definition client_suffix :: "string \<Rightarrow> int \<Rightarrow> string" where
  "client_suffix ip_port k = snprintf_cut 32 ('':'' @ ip_port @ ''#'' @ show_int k)"

text \<open>The connection is allocated at \<open>x\<close>; \<open>peer\<close> is the printed address of the server.\<close>

definition TcpClient_newConnection :: "bool \<Rightarrow> int \<Rightarrow> string \<Rightarrow> nat \<Rightarrow> TcpClient \<Rightarrow> TcpClient res" where
  "TcpClient_newConnection inLoop sockfd peer x c = asserting inLoop (
     if cl_nextConnId c + 1 < 2 ^ 31 then
       let connName = cl_name c @ client_suffix peer (cl_nextConnId c) in
       Inr (c\<lparr>cl_nextConnId := cl_nextConnId c + 1, connection := Some x,
         cl_conns := (cl_conns c)(x \<mapsto> \<lparr>cc_name = connName, cc_fd = sockfd, cc_state = kConnected, cc_added = True, cc_detached = False\<rparr>)\<rparr>)
     else Inl Undefined_behaviour)"

definition TcpClient_removeConnection :: "bool \<Rightarrow> nat \<Rightarrow> attempt \<Rightarrow> TcpClient \<Rightarrow> TcpClient res" where
  "TcpClient_removeConnection inLoop x a c = asserting inLoop (asserting (connection c = Some x) (
     let c1 = c\<lparr>connection := None, cl_queue := cl_queue c @ [Cl_connectDestroyed x]\<rparr> in
     if cl_retry c1 \<and> cl_connect c1
     then andThen (TcpConnector_restart (connector c1) a) (\<lambda>k. Inr (c1\<lparr>connector := k\<rparr>))
     else Inr c1))"

text \<open>Without the client, a connection that has closed only has its channel removed.\<close>

definition detail_removeConnection :: "nat \<Rightarrow> TcpClient \<Rightarrow> TcpClient" where
  "detail_removeConnection x c = c\<lparr>cl_queue := cl_queue c @ [Cl_connectDestroyed x]\<rparr>"

definition client_handleClose :: "nat \<Rightarrow> attempt \<Rightarrow> TcpClient \<Rightarrow> TcpClient res" where
  "client_handleClose x a c = (case cl_conns c x of
       None \<Rightarrow> Inl Undefined_behaviour
     | Some oc \<Rightarrow> asserting (cc_state oc = kConnected \<or> cc_state oc = kDisconnecting)
         (let c1 = c\<lparr>cl_conns := (cl_conns c)(x \<mapsto> oc\<lparr>cc_state := kDisconnected\<rparr>)\<rparr> in
          if cc_detached oc then Inr (detail_removeConnection x c1) else TcpClient_removeConnection True x a c1))"

definition client_destroyed :: "nat \<Rightarrow> TcpClient \<Rightarrow> TcpClient res" where
  "client_destroyed x c = (case cl_conns c x of
       None \<Rightarrow> Inl Undefined_behaviour
     | Some oc \<Rightarrow> asserting (cc_added oc \<and> cc_state oc \<noteq> kDisconnecting)
         (Inr (c\<lparr>cl_conns := (cl_conns c)(x \<mapsto> oc\<lparr>cc_state := (if cc_state oc = kConnected then kDisconnected else cc_state oc), cc_added := False\<rparr>)\<rparr>)))"

definition client_setCloseCallback :: "nat \<Rightarrow> TcpClient \<Rightarrow> TcpClient res" where
  "client_setCloseCallback x c = (case cl_conns c x of
       None \<Rightarrow> Inl Undefined_behaviour
     | Some oc \<Rightarrow> Inr (c\<lparr>cl_conns := (cl_conns c)(x \<mapsto> oc\<lparr>cc_detached := True\<rparr>)\<rparr>))"

definition client_forceClose :: "nat \<Rightarrow> TcpClient \<Rightarrow> TcpClient res" where
  "client_forceClose x c = (case cl_conns c x of
       None \<Rightarrow> Inl Undefined_behaviour
     | Some oc \<Rightarrow> Inr (if cc_state oc = kConnected \<or> cc_state oc = kDisconnecting
         then c\<lparr>cl_conns := (cl_conns c)(x \<mapsto> oc\<lparr>cc_state := kDisconnecting\<rparr>), cl_queue := cl_queue c @ [Cl_forceCloseInLoop x]\<rparr> else c))"

fun client_run :: "attempt \<Rightarrow> cl_functor \<Rightarrow> TcpClient \<Rightarrow> TcpClient res" where
  "client_run a (Cl_connectDestroyed x) c = client_destroyed x c"
| "client_run a (Cl_setCloseCallback x) c = client_setCloseCallback x c"
| "client_run a (Cl_forceCloseInLoop x) c = (case cl_conns c x of
       None \<Rightarrow> Inl Undefined_behaviour
     | Some oc \<Rightarrow> if cc_state oc = kConnected \<or> cc_state oc = kDisconnecting then client_handleClose x a c else Inr c)"

text \<open>The destructor; \<open>unique\<close> tells whether nobody else has the connection.\<close>

definition TcpClient_destroy :: "bool \<Rightarrow> bool \<Rightarrow> TcpClient \<Rightarrow> TcpClient res" where
  "TcpClient_destroy inLoop unique c = (case connection c of
       Some x \<Rightarrow> andThen (if inLoop then client_setCloseCallback x c else Inr (c\<lparr>cl_queue := cl_queue c @ [Cl_setCloseCallback x]\<rparr>))
         (\<lambda>c1. if unique then client_forceClose x c1 else Inr c1)
     | None \<Rightarrow> Inr (c\<lparr>connector := TcpConnector_stop inLoop (connector c)\<rparr>))"

text \<open>The connector's callback for a connected socket is \<open>newConnection\<close>.\<close>

definition client_handleWrite :: "int \<Rightarrow> bool \<Rightarrow> string \<Rightarrow> nat \<Rightarrow> TcpClient \<Rightarrow> TcpClient res" where
  "client_handleWrite err self peer x c = andThen (TcpConnector_handleWrite (connector c) err self) (\<lambda>k.
     let c1 = c\<lparr>connector := k\<rparr> in
     if length (tc_handed (connector c)) < length (tc_handed k) then TcpClient_newConnection True (last (tc_handed k)) peer x c1 else Inr c1)"

section \<open>Events\<close>

datatype cl_event =
    Cl_user_connect bool attempt
  | Cl_user_enableRetry
  | Cl_user_disconnect
  | Cl_user_stop bool
  | Cl_write int bool string nat
  | Cl_error
  | Cl_connector_functor attempt
  | Cl_timer attempt
  | Cl_close nat attempt
  | Cl_functor attempt

definition on_connector :: "tc_event \<Rightarrow> TcpClient \<Rightarrow> TcpClient res" where
  "on_connector ev c = andThen (tc_exec ev (connector c)) (\<lambda>k. Inr (c\<lparr>connector := k\<rparr>))"

fun cl_exec :: "cl_event \<Rightarrow> TcpClient \<Rightarrow> TcpClient res" where
  "cl_exec (Cl_user_connect inLoop a) c = TcpClient_connect inLoop a c"
| "cl_exec Cl_user_enableRetry c = Inr (TcpClient_enableRetry c)"
| "cl_exec Cl_user_disconnect c = Inr (TcpClient_disconnect c)"
| "cl_exec (Cl_user_stop inLoop) c = Inr (TcpClient_stop inLoop c)"
| "cl_exec (Cl_write err self peer x) c = client_handleWrite err self peer x c"
| "cl_exec Cl_error c = on_connector Ev_error c"
| "cl_exec (Cl_connector_functor a) c = on_connector (Ev_functor a) c"
| "cl_exec (Cl_timer a) c = on_connector (Ev_timer a) c"
| "cl_exec (Cl_close x a) c = client_handleClose x a c"
| "cl_exec (Cl_functor a) c = (case cl_queue c of [] \<Rightarrow> Inr c | f # fs \<Rightarrow> client_run a f (c\<lparr>cl_queue := fs\<rparr>))"

text \<open>
  The user connects once, or again while nothing is under way; a connection closes after the connector's functors that were queued before
  it have run; the rest is what the connector asks of its surroundings.
\<close>

fun cl_event_ok :: "TcpClient \<Rightarrow> cl_event \<Rightarrow> bool" where
  "cl_event_ok c (Cl_user_connect inLoop a) \<longleftrightarrow> tc_event_ok (connector c) (Ev_start inLoop a)"
| "cl_event_ok c (Cl_write err self peer x) \<longleftrightarrow> tc_event_ok (connector c) (Ev_write err self) \<and> cl_conns c x = None \<and> cl_nextConnId c + 1 < 2 ^ 31"
| "cl_event_ok c Cl_error \<longleftrightarrow> tc_event_ok (connector c) Ev_error"
| "cl_event_ok c (Cl_connector_functor a) \<longleftrightarrow> tc_event_ok (connector c) (Ev_functor a)"
| "cl_event_ok c (Cl_timer a) \<longleftrightarrow> tc_event_ok (connector c) (Ev_timer a)"
| "cl_event_ok c (Cl_close x a) \<longleftrightarrow> connection c = Some x \<and> tc_channel (connector c) = None \<and> attempt_ok (connector c) a"
| "cl_event_ok c _ \<longleftrightarrow> True"

inductive cl_step :: "TcpClient \<Rightarrow> TcpClient \<Rightarrow> bool" where
  event: "cl_event_ok c ev \<Longrightarrow> cl_exec ev c = Inr c' \<Longrightarrow> cl_step c c'"

definition cl_init :: "TcpClient \<Rightarrow> bool" where
  "cl_init c \<longleftrightarrow> (\<exists>L name. c = TcpClient_new L name \<and> tc_init (connector c))"

section \<open>The invariant\<close>

fun cl_conn_of :: "cl_functor \<Rightarrow> nat" where
  "cl_conn_of (Cl_connectDestroyed x) = x"
| "cl_conn_of (Cl_forceCloseInLoop x) = x"
| "cl_conn_of (Cl_setCloseCallback x) = x"

text \<open>
  A client with a connection has a connector that is connected; a connection is the current one and open, or it is
  disconnected, and then its removal is queued or done.
\<close>

definition cl_inv :: "TcpClient \<Rightarrow> bool" where
  "cl_inv c \<longleftrightarrow> tc_inv (connector c) \<and> (connection c \<noteq> None \<longrightarrow> tc_state (connector c) = TC_kConnected)
     \<and> (\<forall>x. connection c = Some x \<longrightarrow> cl_conns c x \<noteq> None)
     \<and> (\<forall>x oc. cl_conns c x = Some oc \<longrightarrow> \<not> cc_detached oc \<and> (if connection c = Some x then cc_added oc \<and> (cc_state oc = kConnected \<or> cc_state oc = kDisconnecting)
          else cc_state oc = kDisconnected \<and> cc_added oc = (Cl_connectDestroyed x \<in> set (cl_queue c))))
     \<and> distinct (cl_queue c) \<and> (\<forall>f \<in> set (cl_queue c). f = Cl_connectDestroyed (cl_conn_of f) \<and> cl_conns c (cl_conn_of f) \<noteq> None \<and> connection c \<noteq> Some (cl_conn_of f))"

text \<open>What the connector does while it is connected, and when it hands a socket on.\<close>

lemma connected_stays:
  assumes inv: "tc_inv k" and st: "tc_state k = TC_kConnected" and r: "tc_exec ev k = Inr k'" and ev: "(\<exists>a. ev = Ev_functor a) \<or> (\<exists>a. ev = Ev_timer a) \<or> (\<exists>b. ev = Ev_stop b)"
  shows "tc_state k' = TC_kConnected"
proof -
  have nt: "tc_timers k = []" and ns: "StartInLoop \<notin> set (pendingFunctors (tc_loop k))"
    using inv st by (auto simp: tc_inv_def tc_sched_def)
  have "tc_state k' = TC_kConnected" if "ev = Ev_functor a" for a
  proof (cases "pendingFunctors (tc_loop k)")
    case (Cons f fs)
    with ns that r st show ?thesis
      by (cases f) (auto simp: TcpConnector_stopInLoop_def TcpConnector_resetChannel_def res_simps split: option.splits)
  qed (use that r st in auto)
  moreover have "tc_state k' = TC_kConnected" if "ev = Ev_timer a" for a
    using that r st nt by auto
  moreover have "tc_state k' = TC_kConnected" if "ev = Ev_stop b" for b
    using that r st by (auto simp: TcpConnector_stop_def tc_queue_def)
  ultimately show ?thesis using ev by blast
qed

lemma removeAndReset_handed:
  "TcpConnector_removeAndResetChannel k = Inr (s, k') \<Longrightarrow> tc_handed k' = tc_handed k"
  by (auto simp: TcpConnector_removeAndResetChannel_def tc_queue_def res_simps split: option.splits)

lemma handleWrite_hands:
  assumes "TcpConnector_handleWrite k err self = Inr k'"
  shows "tc_handed k' = tc_handed k \<or> tc_handed k' = tc_handed k @ [last (tc_handed k')] \<and> tc_state k' = TC_kConnected"
  using assms
  by (auto simp: TcpConnector_handleWrite_def TcpConnector_retry_def Let_def res_simps dest!: removeAndReset_handed split: if_splits prod.splits)

section \<open>Every event keeps the invariant\<close>

lemma cl_init_inv: "cl_init c \<Longrightarrow> cl_inv c"
  by (auto simp: cl_init_def TcpClient_new_def cl_inv_def tc_init_inv)

lemma cl_inv_connector:
  assumes "cl_inv c" "tc_inv k" "connection c \<noteq> None \<Longrightarrow> tc_state k = TC_kConnected"
  shows "cl_inv (c\<lparr>connector := k\<rparr>)"
  using assms by (simp add: cl_inv_def)

lemma cl_inv_flags [simp]: "cl_inv (c\<lparr>cl_connect := b\<rparr>) = cl_inv c" "cl_inv (c\<lparr>cl_retry := b\<rparr>) = cl_inv c"
  by (simp_all add: cl_inv_def)

lemma on_connector_ok:
  assumes inv: "cl_inv c" and ok: "tc_event_ok (connector c) ev"
    and ev: "tc_state (connector c) \<noteq> TC_kConnected \<or> (\<exists>a. ev = Ev_functor a) \<or> (\<exists>a. ev = Ev_timer a) \<or> (\<exists>b. ev = Ev_stop b)"
  shows "\<exists>c'. on_connector ev c = Inr c' \<and> cl_inv c'"
proof -
  have k: "tc_inv (connector c)" using inv by (simp add: cl_inv_def)
  obtain k' where k': "tc_exec ev (connector c) = Inr k'" "tc_inv k'" using tc_exec_ok [OF k ok] by blast
  have "tc_state k' = TC_kConnected" if "connection c \<noteq> None"
  proof -
    from that inv have st: "tc_state (connector c) = TC_kConnected" by (simp add: cl_inv_def)
    with ev connected_stays [OF k st k'(1)] show ?thesis by blast
  qed
  with inv k' show ?thesis by (auto simp: on_connector_def intro: cl_inv_connector)
qed

lemma client_connect_ok:
  assumes inv: "cl_inv c" and ok: "tc_event_ok (connector c) (Ev_start inLoop a)"
  shows "\<exists>c'. TcpClient_connect inLoop a c = Inr c' \<and> cl_inv c'"
proof -
  have "cl_inv (c\<lparr>cl_connect := True\<rparr>)" using inv by simp
  moreover have "tc_event_ok (connector (c\<lparr>cl_connect := True\<rparr>)) (Ev_start inLoop a)" using ok by simp
  moreover have "tc_state (connector (c\<lparr>cl_connect := True\<rparr>)) \<noteq> TC_kConnected" using ok by simp
  ultimately obtain c' where "on_connector (Ev_start inLoop a) (c\<lparr>cl_connect := True\<rparr>) = Inr c'" "cl_inv c'"
    using on_connector_ok by blast
  then show ?thesis by (simp add: on_connector_def TcpClient_connect_def Let_def)
qed

lemma client_shutdown_inv:
  assumes inv: "cl_inv c" and x: "connection c = Some x"
  shows "cl_inv (client_shutdown x c)"
  using assms by (auto simp: client_shutdown_def cl_inv_def split: option.split)

lemma client_write_ok:
  assumes inv: "cl_inv c" and ok: "cl_event_ok c (Cl_write err self peer x)"
  shows "\<exists>c'. client_handleWrite err self peer x c = Inr c' \<and> cl_inv c'"
proof -
  have nc: "tc_state (connector c) \<noteq> TC_kConnected" and x: "cl_conns c x = None" and id: "cl_nextConnId c + 1 < 2 ^ 31" using ok by simp_all
  have none: "connection c = None" using inv nc by (auto simp: cl_inv_def)
  have k: "tc_inv (connector c)" using inv by (simp add: cl_inv_def)
  obtain k' where k': "TcpConnector_handleWrite (connector c) err self = Inr k'" "tc_inv k'"
    using tc_exec_ok [OF k, of "Ev_write err self"] ok by auto
  have base: "cl_inv (c\<lparr>connector := k'\<rparr>)" using inv k'(2) none by (intro cl_inv_connector) simp_all
  show ?thesis
  proof (cases "length (tc_handed (connector c)) < length (tc_handed k')")
    case True
    with handleWrite_hands [OF k'(1)] have "tc_state k' = TC_kConnected" by auto
    with True k' inv none x id show ?thesis
      by (auto simp: client_handleWrite_def TcpClient_newConnection_def Let_def cl_inv_def)
  next
    case False
    with k'(1) base show ?thesis by (simp add: client_handleWrite_def)
  qed
qed

lemma client_close_ok:
  assumes inv: "cl_inv c" and ok: "cl_event_ok c (Cl_close x a)"
  shows "\<exists>c'. client_handleClose x a c = Inr c' \<and> cl_inv c'"
proof -
  have x: "connection c = Some x" and ch: "tc_channel (connector c) = None" and a: "attempt_ok (connector c) a" using ok by simp_all
  have k: "tc_inv (connector c)" and st: "tc_state (connector c) = TC_kConnected" using inv x by (auto simp: cl_inv_def)
  obtain oc where oc: "cl_conns c x = Some oc" "cc_state oc = kConnected \<or> cc_state oc = kDisconnecting" "\<not> cc_detached oc"
    using inv x by (fastforce simp: cl_inv_def)
  let ?c = "c\<lparr>cl_conns := (cl_conns c)(x \<mapsto> oc\<lparr>cc_state := kDisconnected\<rparr>), connection := None, cl_queue := cl_queue c @ [Cl_connectDestroyed x]\<rparr>"
  have i: "cl_inv ?c" using inv x oc by (auto simp: cl_inv_def)
  have "tc_event_ok (connector c) (Ev_restart a)"
    using k st ch a by (auto simp: tc_rest_def tc_inv_def tc_sched_def)
  then obtain k' where k': "TcpConnector_restart (connector c) a = Inr k'" "tc_inv k'" using tc_exec_ok [OF k] by fastforce
  have j: "cl_inv (?c\<lparr>connector := k'\<rparr>)" by (rule cl_inv_connector [OF i k'(2)]) simp
  show ?thesis using x oc i j k'(1)
    by (cases "cl_retry c \<and> cl_connect c") (auto simp: client_handleClose_def TcpClient_removeConnection_def Let_def)
qed

lemma client_functor_ok:
  assumes inv: "cl_inv c" and f: "cl_queue c = f # fs"
  shows "\<exists>c'. client_run a f (c\<lparr>cl_queue := fs\<rparr>) = Inr c' \<and> cl_inv c'"
proof -
  obtain x oc where x: "f = Cl_connectDestroyed x" "cl_conns c x = Some oc" "connection c \<noteq> Some x"
    using inv f by (auto simp: cl_inv_def)
  with inv f have "cc_state oc = kDisconnected" "cc_added oc" "Cl_connectDestroyed x \<notin> set fs" by (auto simp: cl_inv_def)
  with inv f x show ?thesis by (auto simp: client_destroyed_def cl_inv_def)
qed

text \<open>
  The client never violates what its connector relies on: every event that its own surroundings allow runs, and keeps the
  invariant. In particular the connector is connected, without channel or timer, when it is started again after the
  connection has closed.
\<close>

lemma cl_exec_ok:
  assumes inv: "cl_inv c" and ok: "cl_event_ok c ev"
  shows "\<exists>c'. cl_exec ev c = Inr c' \<and> cl_inv c'"
proof (cases ev)
  case Cl_user_disconnect
  have "cl_inv (TcpClient_disconnect c)"
    using inv client_shutdown_inv [of "c\<lparr>cl_connect := False\<rparr>"] by (simp add: TcpClient_disconnect_def Let_def split: option.split)
  with Cl_user_disconnect show ?thesis by simp
next
  case (Cl_user_stop inLoop)
  have "cl_inv (c\<lparr>cl_connect := False\<rparr>)" using inv by simp
  from on_connector_ok [OF this, of "Ev_stop inLoop"] Cl_user_stop show ?thesis
    by (simp add: on_connector_def TcpClient_stop_def)
next
  case (Cl_functor a)
  with inv client_functor_ok [OF inv] show ?thesis by (auto split: list.split)
qed (use inv ok on_connector_ok [OF inv] client_connect_ok [OF inv] client_write_ok [OF inv] client_close_ok [OF inv]
    in \<open>simp_all add: TcpClient_enableRetry_def\<close>)

interpretation cl: invariant_system cl_init cl_step cl_inv
  by unfold_locales (auto intro: cl_init_inv elim!: cl_step.cases dest: cl_exec_ok)

lemma client_events_run:
  assumes "cl_init c0" "cl_step\<^sup>*\<^sup>* c0 c" "cl_event_ok c ev"
  obtains c' where "cl_exec ev c = Inr c'"
  using cl_exec_ok [OF cl.reachable_inv [OF assms(1,2)] assms(3)] that by blast

section \<open>Errors\<close>

text \<open>
  When a connection has closed and the client was not asked to retry, the connector still takes itself for connected: connecting again in
  the thread of the loop fails its assertion.
\<close>

lemma reconnect_fails:
  assumes inv: "cl_inv c" and x: "connection c = Some x" "\<not> cl_retry c" and r: "client_handleClose x a c = Inr c'"
  shows "connection c' = None" "TcpClient_connect True a' c' = Inl Assert_failed"
proof -
  obtain oc where oc: "cl_conns c x = Some oc" "\<not> cc_detached oc" using inv x by (fastforce simp: cl_inv_def)
  have st: "tc_state (connector c) = TC_kConnected" using inv x by (auto simp: cl_inv_def)
  have c': "connection c' = None" "connector c' = connector c"
    using r x oc by (auto simp: client_handleClose_def TcpClient_removeConnection_def Let_def asserting_def split: if_splits)
  then show "connection c' = None" by simp
  show "TcpClient_connect True a' c' = Inl Assert_failed"
    using st c' by (simp add: TcpClient_connect_def TcpConnector_start_def TcpConnector_startInLoop_def Let_def)
qed

text \<open>The buffer for the end of the name is too short for a long address: it then does not tell connections apart.\<close>

lemma client_name_cut:
  assumes "30 \<le> length ip"
  shows "client_suffix ip k = client_suffix ip k'"
  using assms by (simp add: client_suffix_def snprintf_cut_def)

end
