(* ===== verification/Time_Text.thy ===== *)
theory Time_Text
  imports Timer_Queue C_Text
begin

text \<open>
  The text of time stamps: \<open>toString\<close> and \<open>toFormattedString\<close> of \<^verbatim>\<open>src/src/network/Timestamp.cc\<close>. The calendar of the C library
  is an argument. The lemmas show that the text of a time since 1970 fits the buffer and is that of no other time.
\<close>

section \<open>Padded numbers\<close>

text \<open>The formats \<open>%0wd\<close> and \<open>%wd\<close>: zeros come after the sign, spaces before it.\<close>

definition printf_zeros :: "nat \<Rightarrow> int \<Rightarrow> string" where
  "printf_zeros w i =
     (if i < 0 then CHR ''-'' # replicate (w - 1 - length (show_nat (nat (- i)))) CHR ''0'' @ show_nat (nat (- i))
      else replicate (w - length (show_nat (nat i))) CHR ''0'' @ show_nat (nat i))"

definition printf_spaces :: "nat \<Rightarrow> int \<Rightarrow> string" where
  "printf_spaces w i = replicate (w - length (show_int i)) CHR '' '' @ show_int i"

definition trunc_mod :: "int \<Rightarrow> int \<Rightarrow> int" where
  "trunc_mod a b = a - b * trunc_div a b"

section \<open>Time stamps\<close>

definition Timestamp_toString :: "Timestamp \<Rightarrow> string" where
  "Timestamp_toString t =
     (let seconds = trunc_div (microSecondsSinceEpoch t) kMicroSecondsPerSecond;
          microseconds = trunc_mod (microSecondsSinceEpoch t) kMicroSecondsPerSecond
      in snprintf_cut 31 (show_int seconds @ ''.'' @ printf_zeros 6 microseconds))"

record tm =
  tm_year :: int
  tm_mon :: int
  tm_mday :: int
  tm_hour :: int
  tm_min :: int
  tm_sec :: int

definition Timestamp_toFormattedString :: "(int \<Rightarrow> tm) \<Rightarrow> bool \<Rightarrow> Timestamp \<Rightarrow> string" where
  "Timestamp_toFormattedString gmtime showMicroseconds t =
     (let seconds = trunc_div (microSecondsSinceEpoch t) kMicroSecondsPerSecond;
          tm_time = gmtime seconds;
          day = printf_spaces 4 (tm_year tm_time + 1900) @ printf_zeros 2 (tm_mon tm_time + 1) @ printf_zeros 2 (tm_mday tm_time);
          clock = printf_zeros 2 (tm_hour tm_time) @ '':'' @ printf_zeros 2 (tm_min tm_time) @ '':'' @ printf_zeros 2 (tm_sec tm_time)
      in if showMicroseconds
         then snprintf_cut 64 (day @ '' '' @ clock @ ''.'' @ printf_zeros 6 (trunc_mod (microSecondsSinceEpoch t) kMicroSecondsPerSecond))
         else snprintf_cut 64 (day @ '' '' @ clock))"

section \<open>The text tells times apart\<close>

lemma digits_value_zeros: "digits_value 0 (replicate k CHR ''0'' @ s) = digits_value 0 s"
proof (induction k)
  case (Suc k)
  have "is_digit CHR ''0''" "digit_value CHR ''0'' = 0" by (simp_all add: is_digit_def digit_value_def)
  with Suc show ?case by (simp add: digits_value_def)
qed simp

lemma printf_zeros_read: "0 \<le> i \<Longrightarrow> digits_value 0 (printf_zeros w i) = nat i"
  by (simp add: printf_zeros_def digits_value_zeros digits_value_show)

lemma printf_zeros_length:
  assumes "0 \<le> i" "i < 10 ^ Suc w"
  shows "length (printf_zeros (Suc w) i) = Suc w"
proof -
  have "nat i < 10 ^ Suc w" using assms by (simp add: nat_less_iff)
  then have "length (show_nat (nat i)) \<le> Suc w" by (rule show_nat_length)
  with assms show ?thesis by (simp add: printf_zeros_def)
qed

lemma seconds_digits:
  assumes "0 \<le> t" "t < 2 ^ 63"
  shows "length (show_nat (nat (t div kMicroSecondsPerSecond))) \<le> 13"
proof -
  have "t < 10 ^ 13 * kMicroSecondsPerSecond" using assms(2) by (simp add: kMicroSecondsPerSecond_def)
  then have "t div kMicroSecondsPerSecond < 10 ^ 13"
    by (simp add: kMicroSecondsPerSecond_def div_less_iff_less_mult)
  then have "nat (t div kMicroSecondsPerSecond) < 10 ^ Suc 12" by (simp add: nat_less_iff kMicroSecondsPerSecond_def assms(1) pos_imp_zdiv_nonneg_iff)
  then have "length (show_nat (nat (t div kMicroSecondsPerSecond))) \<le> Suc 12" by (rule show_nat_length)
  then show ?thesis by simp
qed

lemma micros_digits: "length (printf_zeros 6 (t mod kMicroSecondsPerSecond)) = 6"
proof -
  have "0 \<le> t mod kMicroSecondsPerSecond" "t mod kMicroSecondsPerSecond < 10 ^ Suc 5"
    by (simp_all add: kMicroSecondsPerSecond_def)
  then have "length (printf_zeros (Suc 5) (t mod kMicroSecondsPerSecond)) = Suc 5" by (rule printf_zeros_length)
  moreover have "Suc 5 = 6" by simp
  ultimately show ?thesis by metis
qed

lemma snprintf_cut_short: "length s < n \<Longrightarrow> snprintf_cut n s = s"
  by (simp add: snprintf_cut_def)

lemma trunc_nonneg:
  assumes "0 \<le> t"
  shows "trunc_div t kMicroSecondsPerSecond = t div kMicroSecondsPerSecond" "trunc_mod t kMicroSecondsPerSecond = t mod kMicroSecondsPerSecond"
    "0 \<le> t div kMicroSecondsPerSecond"
  using assms by (simp_all add: trunc_div_def trunc_mod_def minus_mult_div_eq_mod kMicroSecondsPerSecond_def pos_imp_zdiv_nonneg_iff)

lemma show_int_nonneg: "0 \<le> i \<Longrightarrow> show_int i = show_nat (nat i)"
  by (simp add: show_int_def)

lemma toString_short:
  assumes "0 \<le> t" "t < 2 ^ 63"
  shows "length (show_nat (nat (t div kMicroSecondsPerSecond)) @ CHR ''.'' # printf_zeros 6 (t mod kMicroSecondsPerSecond)) < 31"
  using seconds_digits [OF assms] micros_digits [of t] by simp

lemma toString_parts:
  assumes "0 \<le> t" "t < 2 ^ 63"
  shows "Timestamp_toString (Timestamp t) = show_nat (nat (t div kMicroSecondsPerSecond)) @ CHR ''.'' # printf_zeros 6 (t mod kMicroSecondsPerSecond)"
  using snprintf_cut_short [OF toString_short [OF assms]]
  unfolding Timestamp_toString_def Let_def Timestamp.sel trunc_nonneg(1,2) [OF assms(1)] show_int_nonneg [OF trunc_nonneg(3) [OF assms(1)]] append.simps .

lemma split_fixed: "xs @ c # ys = xs' @ c # ys' \<Longrightarrow> length ys = length ys' \<Longrightarrow> xs = xs' \<and> ys = ys'"
  by simp

lemma toString_inject:
  assumes "0 \<le> a" "a < 2 ^ 63" "0 \<le> b" "b < 2 ^ 63" "Timestamp_toString (Timestamp a) = Timestamp_toString (Timestamp b)"
  shows "a = b"
proof -
  let ?k = "kMicroSecondsPerSecond"
  have "show_nat (nat (a div ?k)) @ CHR ''.'' # printf_zeros 6 (a mod ?k) = show_nat (nat (b div ?k)) @ CHR ''.'' # printf_zeros 6 (b mod ?k)"
    using assms(5) unfolding toString_parts [OF assms(1,2)] toString_parts [OF assms(3,4)] .
  moreover have "length (printf_zeros 6 (a mod ?k)) = length (printf_zeros 6 (b mod ?k))" by (simp only: micros_digits)
  ultimately have eq: "show_nat (nat (a div ?k)) = show_nat (nat (b div ?k)) \<and> printf_zeros 6 (a mod ?k) = printf_zeros 6 (b mod ?k)"
    by (rule split_fixed)
  have pos: "0 < ?k" by (simp add: kMicroSecondsPerSecond_def)
  have nn: "0 \<le> a mod ?k" "0 \<le> b mod ?k" using pos by simp_all
  have "nat (a mod ?k) = digits_value 0 (printf_zeros 6 (a mod ?k))" by (rule printf_zeros_read [OF nn(1), symmetric])
  also have "\<dots> = digits_value 0 (printf_zeros 6 (b mod ?k))" by (simp only: eq [THEN conjunct2])
  also have "\<dots> = nat (b mod ?k)" by (rule printf_zeros_read [OF nn(2)])
  finally have m: "a mod ?k = b mod ?k" using nn by (simp only: eq_nat_nat_iff)
  have "nat (a div ?k) = nat (b div ?k)" using eq [THEN conjunct1] by (simp only: show_nat_inject)
  then have "a div ?k = b div ?k" using trunc_nonneg(3) [OF assms(1)] trunc_nonneg(3) [OF assms(3)] by (simp only: eq_nat_nat_iff)
  then have "?k * (a div ?k) + a mod ?k = ?k * (b div ?k) + b mod ?k" by (simp only: m)
  then show ?thesis by (simp only: mult_div_mod_eq)
qed

text \<open>Before 1970 the sign is at the microseconds, or at both parts.\<close>

lemma toString_negative: "Timestamp_toString (Timestamp (- 1)) = ''0.-00001''"
proof -
  have v: "trunc_div (- 1) kMicroSecondsPerSecond = 0" "trunc_mod (- 1) kMicroSecondsPerSecond = - 1"
    by (simp_all add: trunc_div_def trunc_mod_def kMicroSecondsPerSecond_def)
  have n: "show_nat 0 = ''0''" "show_nat 1 = ''1''" by (simp_all add: show_nat.simps digit_char_def char_of_def bit_0)
  have "show_int 0 = ''0''" "printf_zeros 6 (- 1) = ''-00001''"
    using n by (simp_all add: show_int_def printf_zeros_def numeral_eq_Suc)
  then show ?thesis unfolding Timestamp_toString_def Let_def Timestamp.sel v by (simp add: snprintf_cut_def)
qed

end
