(* ===== verification/Program_Config.thy ===== *)
theory Program_Config
  imports Compress_Engine
begin

text \<open>
  The command line of the DOCA programs: \<^verbatim>\<open>src/src/doca/params.cc\<close> and the configuration in \<^verbatim>\<open>doca/common.h\<close>. The parser of the DOCA
  library calls a callback with the configuration for every argument. A member that is a character array is the C string it
  holds. The lemmas show that every callback changes its own member only, which arguments are refused, which overflow
  their array, and that the parameters are registered in order up to the first failure.
\<close>

section \<open>The configuration\<close>

definition MAX_ARG_SIZE :: nat where "MAX_ARG_SIZE = 256"
definition MAX_FILE_NAME :: nat where "MAX_FILE_NAME = 255"

record ProgramConfig =
  host_pci_address :: string
  dpu_pci_address :: string
  in_file :: string
  out_file :: string
  conf_mode :: doca_compress_job_type
  doca_workq_depth :: "32 word"
  doca_max_bufs :: "32 word"
  is_host :: bool
  is_rdma_server :: bool

text \<open>\<open>strcpy\<close> into an array: the text and the zero byte at its end must fit.\<close>

definition strcpy_array :: "nat \<Rightarrow> string \<Rightarrow> string res" where
  "strcpy_array cap s = defined_if (length s < cap) (Inr s)"

definition strnlen :: "string \<Rightarrow> nat \<Rightarrow> nat" where
  "strnlen s n = min (length s) n"

section \<open>The callbacks\<close>

definition dpu_pci_callback :: "string \<Rightarrow> ProgramConfig \<Rightarrow> (doca_error \<times> ProgramConfig) res" where
  "dpu_pci_callback addr conf =
     (if length addr = MAX_ARG_SIZE then Inr (DOCA_ERROR_INVALID_VALUE, conf)
      else andThen (strcpy_array MAX_ARG_SIZE addr) (\<lambda>s. Inr (DOCA_SUCCESS, conf\<lparr>dpu_pci_address := s\<rparr>)))"

definition host_pci_callback :: "string \<Rightarrow> ProgramConfig \<Rightarrow> (doca_error \<times> ProgramConfig) res" where
  "host_pci_callback addr conf =
     (if length addr = MAX_ARG_SIZE then Inr (DOCA_ERROR_INVALID_VALUE, conf)
      else andThen (strcpy_array MAX_ARG_SIZE addr) (\<lambda>s. Inr (DOCA_SUCCESS, conf\<lparr>host_pci_address := s\<rparr>)))"

definition in_file_callback :: "string \<Rightarrow> ProgramConfig \<Rightarrow> (doca_error \<times> ProgramConfig) res" where
  "in_file_callback file_name conf =
     (if strnlen file_name MAX_FILE_NAME = MAX_FILE_NAME then Inr (DOCA_ERROR_INVALID_VALUE, conf)
      else andThen (strcpy_array MAX_FILE_NAME file_name) (\<lambda>s. Inr (DOCA_SUCCESS, conf\<lparr>in_file := s\<rparr>)))"

definition out_file_callback :: "string \<Rightarrow> ProgramConfig \<Rightarrow> (doca_error \<times> ProgramConfig) res" where
  "out_file_callback file_name conf =
     (if strnlen file_name MAX_FILE_NAME = MAX_FILE_NAME then Inr (DOCA_ERROR_INVALID_VALUE, conf)
      else andThen (strcpy_array MAX_FILE_NAME file_name) (\<lambda>s. Inr (DOCA_SUCCESS, conf\<lparr>out_file := s\<rparr>)))"

definition mode_callback :: "string \<Rightarrow> ProgramConfig \<Rightarrow> (doca_error \<times> ProgramConfig) res" where
  "mode_callback mode conf =
     (if mode = ''compress'' then Inr (DOCA_SUCCESS, conf\<lparr>conf_mode := DOCA_COMPRESS_DEFLATE_JOB\<rparr>)
      else if mode = ''decompress'' then Inr (DOCA_SUCCESS, conf\<lparr>conf_mode := DOCA_DECOMPRESS_DEFLATE_JOB\<rparr>)
      else Inr (DOCA_ERROR_INVALID_VALUE, conf))"

definition doca_workq_depth_callback :: "32 word \<Rightarrow> ProgramConfig \<Rightarrow> doca_error \<times> ProgramConfig" where
  "doca_workq_depth_callback n conf = (DOCA_SUCCESS, conf\<lparr>doca_workq_depth := n\<rparr>)"

definition doca_max_bufs_callback :: "32 word \<Rightarrow> ProgramConfig \<Rightarrow> doca_error \<times> ProgramConfig" where
  "doca_max_bufs_callback n conf = (DOCA_SUCCESS, conf\<lparr>doca_max_bufs := n\<rparr>)"

definition is_host_callback :: "bool \<Rightarrow> ProgramConfig \<Rightarrow> doca_error \<times> ProgramConfig" where
  "is_host_callback b conf = (DOCA_SUCCESS, conf\<lparr>is_host := b\<rparr>)"

definition is_rdma_server_callback :: "bool \<Rightarrow> ProgramConfig \<Rightarrow> doca_error \<times> ProgramConfig" where
  "is_rdma_server_callback b conf = (DOCA_SUCCESS, conf\<lparr>is_rdma_server := b\<rparr>)"

section \<open>Registration\<close>

datatype argp_callback =
    Text_cb "string \<Rightarrow> ProgramConfig \<Rightarrow> (doca_error \<times> ProgramConfig) res"
  | Int_cb "32 word \<Rightarrow> ProgramConfig \<Rightarrow> doca_error \<times> ProgramConfig"
  | Bool_cb "bool \<Rightarrow> ProgramConfig \<Rightarrow> doca_error \<times> ProgramConfig"

datatype doca_argp_type = DOCA_ARGP_TYPE_STRING | DOCA_ARGP_TYPE_INT | DOCA_ARGP_TYPE_BOOLEAN

record doca_argp_param =
  ap_short :: "string option"
  ap_long :: "string option"
  ap_description :: "string option"
  ap_callback :: argp_callback
  ap_type :: doca_argp_type

text \<open>
  The state has the registered parameters and how many were created and never given to the library. The outcomes are those of
  \<open>doca_argp_param_create\<close> and \<open>doca_argp_register_param\<close>.
\<close>

record argp_state =
  ap_registered :: "doca_argp_param list"
  ap_leaked :: nat

definition register_param ::
  "string option \<Rightarrow> string option \<Rightarrow> string option \<Rightarrow> argp_callback \<Rightarrow> doca_argp_type \<Rightarrow> doca_error \<times> doca_error \<Rightarrow> argp_state \<Rightarrow> doca_error \<times> argp_state" where
  "register_param short_name long_name description cb ty = (\<lambda>(create_res, register_res) st.
     if create_res \<noteq> DOCA_SUCCESS then (create_res, st)
     else
       let param = \<lparr>ap_short = short_name, ap_long = long_name, ap_description = description, ap_callback = cb, ap_type = ty\<rparr> in
       if register_res \<noteq> DOCA_SUCCESS then (register_res, st\<lparr>ap_leaked := ap_leaked st + 1\<rparr>)
       else (register_res, st\<lparr>ap_registered := ap_registered st @ [param]\<rparr>))"

text \<open>The calls of \<open>register_params\<close>, each followed by a return when it fails.\<close>

definition param_table :: "(string \<times> string \<times> argp_callback \<times> doca_argp_type) list" where
  "param_table =
     [(''dpu_pci'', ''DOCA device PCI address in DPU'', Text_cb dpu_pci_callback, DOCA_ARGP_TYPE_STRING),
      (''host_pci'', ''DOCA device PCI address in host'', Text_cb host_pci_callback, DOCA_ARGP_TYPE_STRING),
      (''in-file'', ''input file path'', Text_cb in_file_callback, DOCA_ARGP_TYPE_STRING),
      (''out-file'', ''output file path'', Text_cb out_file_callback, DOCA_ARGP_TYPE_STRING),
      (''mode'', ''compress or decompress'', Text_cb mode_callback, DOCA_ARGP_TYPE_STRING),
      (''is_host'', ''Host or DPU'', Bool_cb is_host_callback, DOCA_ARGP_TYPE_BOOLEAN),
      (''is_rdma_server'', ''RDMA Server or RDMA Client'', Bool_cb is_rdma_server_callback, DOCA_ARGP_TYPE_BOOLEAN),
      (''doca_workq_depth'', ''doca workq depth'', Int_cb doca_workq_depth_callback, DOCA_ARGP_TYPE_INT),
      (''doca_max_bufs'', ''doca max bufs'', Int_cb doca_max_bufs_callback, DOCA_ARGP_TYPE_INT)]"

fun register_all :: "(string \<times> string \<times> argp_callback \<times> doca_argp_type) list \<Rightarrow> (doca_error \<times> doca_error) list \<Rightarrow> argp_state \<Rightarrow> doca_error \<times> argp_state" where
  "register_all ((long_name, description, cb, ty) # ps) (r # rs) st =
     (case register_param None (Some long_name) (Some description) cb ty r st of
        (result, st1) \<Rightarrow> if result \<noteq> DOCA_SUCCESS then (result, st1) else register_all ps rs st1)"
| "register_all ps rs st = (DOCA_SUCCESS, st)"

definition register_params :: "(doca_error \<times> doca_error) list \<Rightarrow> argp_state \<Rightarrow> doca_error \<times> argp_state" where
  "register_params rs st = register_all param_table rs st"

text \<open>What the library does with an argument: it finds the parameter and calls its callback.\<close>

datatype argp_value = Text_arg string | Int_arg "32 word" | Bool_arg bool

fun argp_call :: "argp_callback \<Rightarrow> argp_value \<Rightarrow> ProgramConfig \<Rightarrow> (doca_error \<times> ProgramConfig) res" where
  "argp_call (Text_cb f) (Text_arg s) conf = f s conf"
| "argp_call (Int_cb f) (Int_arg n) conf = Inr (f n conf)"
| "argp_call (Bool_cb f) (Bool_arg b) conf = Inr (f b conf)"
| "argp_call cb v conf = Inr (DOCA_ERROR_INVALID_VALUE, conf)"

section \<open>What the callbacks accept\<close>

lemmas callback_defs = dpu_pci_callback_def host_pci_callback_def in_file_callback_def out_file_callback_def mode_callback_def
  doca_workq_depth_callback_def doca_max_bufs_callback_def is_host_callback_def is_rdma_server_callback_def strcpy_array_def strnlen_def

text \<open>A file name is stored or refused, whatever its length.\<close>

lemma file_callbacks_total:
  "in_file_callback s conf = Inr (if length s < MAX_FILE_NAME then (DOCA_SUCCESS, conf\<lparr>in_file := s\<rparr>) else (DOCA_ERROR_INVALID_VALUE, conf))"
  "out_file_callback s conf = Inr (if length s < MAX_FILE_NAME then (DOCA_SUCCESS, conf\<lparr>out_file := s\<rparr>) else (DOCA_ERROR_INVALID_VALUE, conf))"
  by (auto simp: callback_defs min_def)

text \<open>Of the addresses that are too long only those of exactly 256 characters are refused; longer ones overrun the array.\<close>

lemma pci_callbacks_outcome:
  "dpu_pci_callback s conf = (if length s < MAX_ARG_SIZE then Inr (DOCA_SUCCESS, conf\<lparr>dpu_pci_address := s\<rparr>)
     else if length s = MAX_ARG_SIZE then Inr (DOCA_ERROR_INVALID_VALUE, conf) else Inl Undefined_behaviour)"
  "host_pci_callback s conf = (if length s < MAX_ARG_SIZE then Inr (DOCA_SUCCESS, conf\<lparr>host_pci_address := s\<rparr>)
     else if length s = MAX_ARG_SIZE then Inr (DOCA_ERROR_INVALID_VALUE, conf) else Inl Undefined_behaviour)"
  by (auto simp: callback_defs defined_if_def)

lemma long_pci_address_overruns: "dpu_pci_callback (replicate 257 CHR ''0'') conf = Inl Undefined_behaviour"
  by (simp add: pci_callbacks_outcome MAX_ARG_SIZE_def)

text \<open>An argument that is refused leaves the configuration as it was.\<close>

lemma refused_unchanged:
  assumes "cb \<in> (\<lambda>(n, d, cb, ty). cb) ` set param_table" "argp_call cb v conf = Inr (r, conf')" "r \<noteq> DOCA_SUCCESS"
  shows "conf' = conf"
  using assms
  by (cases v) (auto simp: param_table_def file_callbacks_total pci_callbacks_outcome mode_callback_def doca_workq_depth_callback_def
      doca_max_bufs_callback_def is_host_callback_def is_rdma_server_callback_def split: if_splits)

lemma mode_callback_modes:
  "mode_callback s conf = Inr (DOCA_SUCCESS, conf') \<longleftrightarrow>
     s = ''compress'' \<and> conf' = conf\<lparr>conf_mode := DOCA_COMPRESS_DEFLATE_JOB\<rparr> \<or> s = ''decompress'' \<and> conf' = conf\<lparr>conf_mode := DOCA_DECOMPRESS_DEFLATE_JOB\<rparr>"
  by (auto simp: mode_callback_def)

section \<open>Registration in order\<close>

lemma param_names_distinct: "distinct (map fst param_table)"
  by (simp add: param_table_def)

lemma register_all_prefix:
  assumes "register_all ps rs st = (r, st')" "length ps \<le> length rs"
  obtains k where "map ap_long (ap_registered st') = map ap_long (ap_registered st) @ map (Some \<circ> fst) (take k ps)"
    "r = DOCA_SUCCESS \<longleftrightarrow> k = length ps" "k \<le> length ps" "ap_leaked st' \<le> ap_leaked st + 1" "r = DOCA_SUCCESS \<Longrightarrow> ap_leaked st' = ap_leaked st"
proof -
  have "\<exists>k. map ap_long (ap_registered st') = map ap_long (ap_registered st) @ map (Some \<circ> fst) (take k ps)
    \<and> (r = DOCA_SUCCESS \<longleftrightarrow> k = length ps) \<and> k \<le> length ps \<and> ap_leaked st' \<le> ap_leaked st + 1 \<and> (r = DOCA_SUCCESS \<longrightarrow> ap_leaked st' = ap_leaked st)"
    using assms
  proof (induction ps rs st rule: register_all.induct)
    case (1 long_name description cb ty ps c rs st)
    obtain c1 c2 where c: "c = (c1, c2)" by (cases c)
    show ?case
    proof (cases "c1 = DOCA_SUCCESS \<and> c2 = DOCA_SUCCESS")
      case True
      let ?st = "st\<lparr>ap_registered := ap_registered st @ [\<lparr>ap_short = None, ap_long = Some long_name, ap_description = Some description,
          ap_callback = cb, ap_type = ty\<rparr>]\<rparr>"
      have "register_param None (Some long_name) (Some description) cb ty c st = (DOCA_SUCCESS, ?st)"
        using True c by (simp add: register_param_def)
      with 1 obtain k where "map ap_long (ap_registered st') = map ap_long (ap_registered ?st) @ map (Some \<circ> fst) (take k ps)"
        "r = DOCA_SUCCESS \<longleftrightarrow> k = length ps" "k \<le> length ps" "ap_leaked st' \<le> ap_leaked st + 1" "r = DOCA_SUCCESS \<longrightarrow> ap_leaked st' = ap_leaked st"
        by fastforce
      then show ?thesis by (intro exI [of _ "Suc k"]) simp
    next
      case False
      with 1 c show ?thesis by (intro exI [of _ 0]) (auto simp: register_param_def Let_def split: if_splits)
    qed
  qed auto
  then show ?thesis using that by blast
qed

lemma register_all_ok:
  assumes "\<forall>r \<in> set rs. r = (DOCA_SUCCESS, DOCA_SUCCESS)" "length ps \<le> length rs"
  shows "\<exists>st'. register_all ps rs st = (DOCA_SUCCESS, st') \<and> map ap_long (ap_registered st') = map ap_long (ap_registered st) @ map (Some \<circ> fst) ps
    \<and> ap_leaked st' = ap_leaked st"
  using assms by (induction ps rs st rule: register_all.induct) (fastforce simp: register_param_def)+

lemma register_params_ok:
  assumes "length rs = 9" "\<forall>r \<in> set rs. r = (DOCA_SUCCESS, DOCA_SUCCESS)"
  obtains st' where "register_params rs \<lparr>ap_registered = [], ap_leaked = 0\<rparr> = (DOCA_SUCCESS, st')"
    "map ap_long (ap_registered st') = map (Some \<circ> fst) param_table" "ap_leaked st' = 0"
proof -
  have "length param_table \<le> length rs" using assms(1) by (simp add: param_table_def)
  from register_all_ok [OF assms(2) this, of "\<lparr>ap_registered = [], ap_leaked = 0\<rparr>"] show ?thesis
    by (auto simp: register_params_def intro: that)
qed

end
