(* ===== verification/Command_Client.thy ===== *)
theory Command_Client
  imports Offload_Client Msg_Frame
begin

text \<open>
  The command line client: \<^verbatim>\<open>src/src/host/client/client_cli.cc\<close>. It sends one request to the command server when its connection is
  up, and ends when the server has answered that the image was pulled. The lemmas show that the command server gets the image
  that the user named, that a client ends with the first answer of success however TCP cuts it, and that it
  never ends with any other.
\<close>

section \<open>The client\<close>

text \<open>
  \<open>cmd_sent\<close> is what was given to the connection, \<open>cmd_answers\<close> the answers received, \<open>cmd_shut\<close> and \<open>cmd_quit\<close> whether the
  connection was shut down and the loop told to quit.
\<close>

record CommandClient =
  cmd_request :: CreateContainerRequest
  cmd_input :: Buffer
  cmd_sent :: "byte list list"
  cmd_answers :: "CreateContainerResponse list"
  cmd_shut :: bool
  cmd_quit :: bool

definition CommandClient_new :: "Buffer \<Rightarrow> CommandClient" where
  "CommandClient_new b = \<lparr>cmd_request = \<lparr>ccr_image_name_tag = []\<rparr>, cmd_input = b, cmd_sent = [], cmd_answers = [],
     cmd_shut = False, cmd_quit = False\<rparr>"

definition CommandClient_setRequest :: "CreateContainerRequest \<Rightarrow> CommandClient \<Rightarrow> CommandClient" where
  "CommandClient_setRequest r c = c\<lparr>cmd_request := r\<rparr>"

definition CommandClient_OnConnection :: "CreateContainerRequest pb \<Rightarrow> bool \<Rightarrow> CommandClient \<Rightarrow> CommandClient" where
  "CommandClient_OnConnection pb connected c =
     (if connected then c\<lparr>cmd_sent := cmd_sent c @ sendTcpPbMsg pb (cmd_request c)\<rparr> else c)"

definition CommandClient_OnMessage :: "CreateContainerResponse pb \<Rightarrow> CommandClient \<Rightarrow> CommandClient res" where
  "CommandClient_OnMessage pb c = andThen (receiveTcpPbMsg pb (cmd_input c)) (\<lambda>(r, b).
     let c1 = c\<lparr>cmd_input := b\<rparr> in
     case r of
       None \<Rightarrow> Inr c1
     | Some response \<Rightarrow>
         let c2 = c1\<lparr>cmd_answers := cmd_answers c1 @ [response]\<rparr> in
         if \<not> ccp_success response then Inr c2 else Inr (c2\<lparr>cmd_shut := True, cmd_quit := True\<rparr>))"

text \<open>The flags give the name and the tag of the image.\<close>

definition client_cli_main :: "string \<Rightarrow> string \<Rightarrow> Buffer \<Rightarrow> CommandClient" where
  "client_cli_main image_name image_tag b =
     CommandClient_setRequest \<lparr>ccr_image_name_tag = it_id (ImageNameTag_new image_name image_tag)\<rparr> (CommandClient_new b)"

text \<open>A read of the connection that brings \<open>d\<close>.\<close>

definition client_read :: "CreateContainerResponse pb \<Rightarrow> CommandClient \<Rightarrow> byte list \<Rightarrow> CommandClient res" where
  "client_read pb c d = andThen (Buffer_put_read (cmd_input c) d) (\<lambda>b. CommandClient_OnMessage pb (c\<lparr>cmd_input := b\<rparr>))"

section \<open>The request\<close>

text \<open>The command server hands the image the user named to the offload client, once the request has arrived.\<close>

lemma request_reaches_server:
  assumes fits: "frame_fits pb \<lparr>ccr_image_name_tag = name @ '':'' @ tag\<rparr>" and wf: "Buffer_wf buf" "Buffer_can_take buf n"
    and sent: "Buffer_content buf = concat (cmd_sent (CommandClient_OnConnection pb True (client_cli_main name tag b)))"
  obtains buf' where "Buffer_content buf' = []"
    "CommandServer_OnMessage pb lib env (s, buf) tcp = andThen (pullImage lib env s (name @ '':'' @ tag) tcp) (\<lambda>s1. Inr (s1, buf'))"
proof -
  let ?m = "\<lparr>ccr_image_name_tag = name @ '':'' @ tag\<rparr>"
  have "Buffer_content buf = tcp_frame pb ?m @ []"
    using sent by (simp add: CommandClient_OnConnection_def client_cli_main_def CommandClient_setRequest_def CommandClient_new_def
        ImageNameTag_new_def tcp_frame_def)
  from receiveTcpPbMsg_frame [OF fits wf this] obtain buf' where
    "receiveTcpPbMsg pb buf = Inr (Some ?m, buf')" "Buffer_content buf' = []" by blast
  then show ?thesis by (intro that) (simp_all add: CommandServer_OnMessage_def)
qed

section \<open>The answer\<close>

lemma client_read_answers:
  assumes "OnMessage_chunk pb (cmd_input c, cmd_answers c) d = Inr (b, as)"
  obtains c' where "client_read pb c d = Inr c'" "cmd_input c' = b" "cmd_answers c' = as"
    "cmd_quit c' \<longleftrightarrow> cmd_quit c \<or> (\<exists>a \<in> set (drop (length (cmd_answers c)) as). ccp_success a)" "cmd_shut c = cmd_quit c \<Longrightarrow> cmd_shut c' = cmd_quit c'"
    "length (cmd_answers c) \<le> length as" "take (length (cmd_answers c)) as = cmd_answers c"
proof -
  from assms obtain b1 r where b1: "Buffer_put_read (cmd_input c) d = Inr b1" and r: "receiveTcpPbMsg pb b1 = Inr (r, b)"
      and as: "as = cmd_answers c @ (case r of None \<Rightarrow> [] | Some a \<Rightarrow> [a])"
    by (auto simp: OnMessage_chunk_def res_simps)
  show ?thesis
  proof (cases r)
    case None
    with b1 r as show ?thesis
      by (intro that [of "c\<lparr>cmd_input := b\<rparr>"]) (simp_all add: client_read_def CommandClient_OnMessage_def)
  next
    case (Some a)
    let ?c = "c\<lparr>cmd_input := b, cmd_answers := cmd_answers c @ [a]\<rparr>"
    have "client_read pb c d = Inr (if ccp_success a then ?c\<lparr>cmd_shut := True, cmd_quit := True\<rparr> else ?c)"
      using b1 r Some by (simp add: client_read_def CommandClient_OnMessage_def Let_def)
    then show ?thesis
      by (rule that) (use as Some in simp_all)
  qed
qed

text \<open>In every run the client has been told to end exactly when an answer of success came.\<close>

lemma client_reads:
  assumes "run_all (OnMessage_chunk pb) (cmd_input c, cmd_answers c) chunks = Inr (b, as)"
    and "cmd_quit c \<longleftrightarrow> (\<exists>a \<in> set (cmd_answers c). ccp_success a)" and "cmd_shut c = cmd_quit c"
  obtains c' where "run_all (client_read pb) c chunks = Inr c'" "cmd_input c' = b" "cmd_answers c' = as"
    "cmd_quit c' \<longleftrightarrow> (\<exists>a \<in> set as. ccp_success a)" "cmd_shut c' = cmd_quit c'"
  using assms
proof (induction chunks arbitrary: c thesis)
  case (Cons d chunks)
  from Cons.prems(2) obtain b1 as1 where s1: "OnMessage_chunk pb (cmd_input c, cmd_answers c) d = Inr (b1, as1)"
      and rest: "run_all (OnMessage_chunk pb) (b1, as1) chunks = Inr (b, as)"
    by (auto simp: res_simps)
  obtain c1 where c1: "client_read pb c d = Inr c1" "cmd_input c1 = b1" "cmd_answers c1 = as1"
    "cmd_quit c1 \<longleftrightarrow> cmd_quit c \<or> (\<exists>a \<in> set (drop (length (cmd_answers c)) as1). ccp_success a)" "cmd_shut c = cmd_quit c \<Longrightarrow> cmd_shut c1 = cmd_quit c1"
    "take (length (cmd_answers c)) as1 = cmd_answers c"
    using client_read_answers [OF s1] by blast
  have "set as1 = set (cmd_answers c) \<union> set (drop (length (cmd_answers c)) as1)"
    using c1(6) by (metis append_take_drop_id set_append)
  then have q: "cmd_quit c1 \<longleftrightarrow> (\<exists>a \<in> set (cmd_answers c1). ccp_success a)" using c1(3,4) Cons.prems(3) by auto
  have s: "cmd_shut c1 = cmd_quit c1" using c1(5) Cons.prems(4) by simp
  show ?case
    by (rule Cons.IH [of c1]) (use Cons.prems(1) c1 rest q s in auto)
qed auto

lemma client_ends_with_answer:
  assumes fits: "frame_fits pb answer" and chunks: "concat chunks = concat (sendTcpPbMsg pb answer)"
  obtains c where "run_all (client_read pb) (CommandClient_OnConnection pb' True (client_cli_main name tag empty_buffer)) chunks = Inr c"
    "cmd_answers c = [answer]" "cmd_quit c = ccp_success answer"
proof -
  let ?c = "CommandClient_OnConnection pb' True (client_cli_main name tag empty_buffer)"
  have c: "cmd_input ?c = empty_buffer" "cmd_answers ?c = []" "\<not> cmd_quit ?c" "\<not> cmd_shut ?c"
    by (simp_all add: CommandClient_OnConnection_def client_cli_main_def CommandClient_setRequest_def CommandClient_new_def)
  have "length (concat chunks) + 8 \<le> vector_max"
    using chunks length_tcp_frame [OF fits] fits by (simp add: frame_fits_def vector_max_def tcp_frame_def kFrameHeaderLen_def)
  then obtain b where "run_all (OnMessage_chunk pb) (empty_buffer, []) chunks = Inr (b, [answer])"
    using tcp_reader.read_chunks_single [OF fits, of empty_buffer chunks] chunks
    by (auto simp: empty_buffer_wf OnMessage_chunk_reader tcp_frame_def)
  with client_reads [of pb ?c chunks b "[answer]"] c obtain c' where
    "run_all (client_read pb) ?c chunks = Inr c'" "cmd_answers c' = [answer]" "cmd_quit c' = ccp_success answer" by auto
  then show ?thesis by (rule that)
qed

end
