(* ===== verification/Program_Main.thy ===== *)
theory Program_Main
  imports Command_Client Compress_Engine Rdma_Handshake Net_Address Blob_Pool Tcp_Server
begin

text \<open>
  Start-up: \<^verbatim>\<open>src/src/dpu/dpu_main.cc\<close>, \<^verbatim>\<open>src/src/host/client/client_main.cc\<close> with the constructor of \<^verbatim>\<open>command_server.cc\<close>, and the main
  function of \<^verbatim>\<open>src/src/host/server/content_server.cc\<close>. The flags with their defaults, and what the programs make of them: the configurations of the RDMA connections, the addresses, and the parameters of the compress engines. The lemmas show that
  the defaults of the programs fit together, how the program on the DPU ends when it has no engine, and that the command server
  serves all its connections in one loop.
\<close>

section \<open>Flags\<close>

record service_flags =
  fl_ib_dev_name :: string
  fl_ib_dev_port :: int
  fl_ip :: string
  fl_port :: int
  fl_rdma_mem :: nat
  fl_rdma_mem_num :: nat

record engine_flags =
  fl_pci_address :: string
  fl_workq_depth :: int
  fl_doca_mem_num :: int
  fl_doca_mem :: nat

record dpu_flags =
  offload_server_flags :: service_flags
  decompress_client_flags :: service_flags
  dpu_engine_flags :: engine_flags
  blob_num_flag :: int
  blob_size_flag :: nat

record client_flags =
  decompress_server_flags :: service_flags
  host_engine_flags :: engine_flags
  untar_num_threads_flag :: nat
  untar_file_path_flag :: string
  offload_client_flags :: service_flags
  metadata_path_flag :: string
  command_ip_flag :: string
  command_port_flag :: int
  command_thread_num_flag :: int

definition dpu_defaults :: dpu_flags where
  "dpu_defaults = \<lparr>
     offload_server_flags = \<lparr>fl_ib_dev_name = ''mlx5_2'', fl_ib_dev_port = 1, fl_ip = ''172.24.46.86'', fl_port = 9003, fl_rdma_mem = 4096, fl_rdma_mem_num = 4\<rparr>,
     decompress_client_flags = \<lparr>fl_ib_dev_name = ''mlx5_2'', fl_ib_dev_port = 1, fl_ip = ''172.24.46.186'', fl_port = 9001, fl_rdma_mem = 4096, fl_rdma_mem_num = 4\<rparr>,
     dpu_engine_flags = \<lparr>fl_pci_address = ''03:00.0'', fl_workq_depth = 16, fl_doca_mem_num = 4, fl_doca_mem = 128 * 1024 * 1024\<rparr>,
     blob_num_flag = 16, blob_size_flag = 128 * 1024 * 1024\<rparr>"

definition client_defaults :: client_flags where
  "client_defaults = \<lparr>
     decompress_server_flags = \<lparr>fl_ib_dev_name = ''mlx5_0'', fl_ib_dev_port = 1, fl_ip = ''172.24.46.186'', fl_port = 9001, fl_rdma_mem = 4096, fl_rdma_mem_num = 4\<rparr>,
     host_engine_flags = \<lparr>fl_pci_address = ''31:00.0'', fl_workq_depth = 16, fl_doca_mem_num = 4, fl_doca_mem = 128 * 1024 * 1024\<rparr>,
     untar_num_threads_flag = 3, untar_file_path_flag = ''untar/design'',
     offload_client_flags = \<lparr>fl_ib_dev_name = ''mlx5_0'', fl_ib_dev_port = 1, fl_ip = ''172.24.46.86'', fl_port = 9003, fl_rdma_mem = 4096, fl_rdma_mem_num = 4\<rparr>,
     metadata_path_flag = ''data/metadata'', command_ip_flag = ''0.0.0.0'', command_port_flag = 9000, command_thread_num_flag = 0\<rparr>"

record content_flags =
  content_server_flags :: service_flags
  registry_path_flag :: string
  layer_is_compressed_flag :: bool

definition content_defaults :: content_flags where
  "content_defaults = \<lparr>
     content_server_flags = \<lparr>fl_ib_dev_name = ''mlx5_0'', fl_ib_dev_port = 1, fl_ip = ''172.24.46.186'', fl_port = 9002,
       fl_rdma_mem = 129 * 1024 * 1024, fl_rdma_mem_num = 4\<rparr>,
     registry_path_flag = ''data/registry/content_layers/'', layer_is_compressed_flag = True\<rparr>"

section \<open>What the programs make of them\<close>

definition rdma_config_of :: "service_flags \<Rightarrow> RdmaConfig" where
  "rdma_config_of f = \<lparr>ibDevName = fl_ib_dev_name f, ibDevPort = fl_ib_dev_port f, memSize = fl_rdma_mem f, memNum = fl_rdma_mem_num f\<rparr>"

definition address_of :: "byte list \<Rightarrow> service_flags \<Rightarrow> InetAddress" where
  "address_of mem f = InetAddress_new_ip (\<lambda>_. None) mem (fl_ip f) (word_of_int (fl_port f)) False"

text \<open>The arguments of \<open>CompressEngine::create\<close>: address, depth, sizes of the sources and of the destinations, number of pairs.\<close>

record engine_args =
  ea_pci :: string
  ea_workq_depth :: int
  ea_src_size :: nat
  ea_dst_size :: nat
  ea_bufpairs :: int

definition dpu_engine_args :: "dpu_flags \<Rightarrow> engine_args" where
  "dpu_engine_args f = (let e = dpu_engine_flags f in
     \<lparr>ea_pci = fl_pci_address e, ea_workq_depth = fl_workq_depth e, ea_src_size = fl_doca_mem e, ea_dst_size = 8, ea_bufpairs = fl_doca_mem_num e\<rparr>)"

definition client_engine_args :: "client_flags \<Rightarrow> engine_args" where
  "client_engine_args f = (let e = host_engine_flags f in
     \<lparr>ea_pci = fl_pci_address e, ea_workq_depth = fl_workq_depth e, ea_src_size = 8, ea_dst_size = fl_doca_mem e, ea_bufpairs = fl_doca_mem_num e\<rparr>)"

text \<open>
  The parts that are made, in order, and started. \<open>engine\<close> is what the creation of the engine gave. The thread of the decompress client
  returns without keeping its promise when it has no engine, and the main thread, which waits for it, gets an exception that
  nobody catches.
\<close>

datatype 'e part =
    Decompress_client 'e InetAddress RdmaConfig BlobPool
  | Content_fetcher
  | Offload_server InetAddress RdmaConfig
  | Offload_client InetAddress RdmaConfig string
  | Decompress_server 'e InetAddress RdmaConfig nat string
  | Command_server InetAddress int
  | Content_server InetAddress string RdmaConfig string
  | Started string
  | Looping

definition runDecompressClient :: "byte list \<Rightarrow> nat \<Rightarrow> (engine_args \<Rightarrow> 'e option) \<Rightarrow> dpu_flags \<Rightarrow> 'e part list option" where
  "runDecompressClient mem next create f = (case create (dpu_engine_args f) of
       None \<Rightarrow> None
     | Some engine \<Rightarrow> Some [Decompress_client engine (address_of mem (decompress_client_flags f)) (rdma_config_of (decompress_client_flags f))
         (BlobPool_new next (blob_size_flag f) (nat (blob_num_flag f))), Started ''decompress client'', Looping])"

definition runContentFetcher :: "'e part list" where
  "runContentFetcher = [Content_fetcher, Looping]"

definition dpu_main :: "byte list \<Rightarrow> nat \<Rightarrow> (engine_args \<Rightarrow> 'e option) \<Rightarrow> dpu_flags \<Rightarrow> 'e part list list res" where
  "dpu_main mem next create f = (case runDecompressClient mem next create f of
       None \<Rightarrow> Inl Terminated
     | Some decompress_client \<Rightarrow> Inr [decompress_client, runContentFetcher,
         [Offload_server (address_of mem (offload_server_flags f)) (rdma_config_of (offload_server_flags f)), Started ''offload server'', Looping]])"

definition client_main :: "byte list \<Rightarrow> (engine_args \<Rightarrow> 'e option) \<Rightarrow> client_flags \<Rightarrow> 'e part list" where
  "client_main mem create f =
     (let oc = Offload_client (address_of mem (offload_client_flags f)) (rdma_config_of (offload_client_flags f)) (metadata_path_flag f) in
      case create (client_engine_args f) of
        None \<Rightarrow> [oc]
      | Some engine \<Rightarrow> [oc,
          Decompress_server engine (address_of mem (decompress_server_flags f)) (rdma_config_of (decompress_server_flags f))
            (untar_num_threads_flag f) (untar_file_path_flag f),
          Command_server (InetAddress_new_ip (\<lambda>_. None) mem (command_ip_flag f) (word_of_int (command_port_flag f)) False) (command_thread_num_flag f),
          Started ''command server'', Started ''decompress server'', Started ''offload client'', Looping])"

definition content_main :: "byte list \<Rightarrow> content_flags \<Rightarrow> 'e part list" where
  "content_main mem f =
     [Content_server (address_of mem (content_server_flags f)) ''RdmaContentServer'' (rdma_config_of (content_server_flags f)) (registry_path_flag f),
      Started ''content server'', Looping]"

text \<open>The command server has a TCP server that calls \<open>CommandServer_OnMessage\<close>.\<close>

definition CommandServer_new :: "nat \<Rightarrow> string \<Rightarrow> srv_functor Acceptor \<Rightarrow> int \<Rightarrow> TcpServer res" where
  "CommandServer_new l ip_port acc thread_num = TcpServer_setThreadNum thread_num (TcpServer_new l ip_port ''ClientCommandServer'' acc)"

section \<open>The defaults fit together\<close>

text \<open>
  The clients connect to the addresses the servers listen on, with buffers of the same size and number; both engines have the same number of
  buffer pairs, each engine's queue has room for all its pairs, and a blob, a source buffer of the DPU and a destination
  buffer of the host hold the same number of bytes.
\<close>

lemma defaults_fit:
  "address_of mem (decompress_client_flags dpu_defaults) = address_of mem (decompress_server_flags client_defaults)"
  "address_of mem (offload_client_flags client_defaults) = address_of mem (offload_server_flags dpu_defaults)"
  "memSize (rdma_config_of (decompress_client_flags dpu_defaults)) = memSize (rdma_config_of (decompress_server_flags client_defaults))"
  "memSize (rdma_config_of (offload_client_flags client_defaults)) = memSize (rdma_config_of (offload_server_flags dpu_defaults))"
  "ea_bufpairs (dpu_engine_args dpu_defaults) = ea_bufpairs (client_engine_args client_defaults)"
  "ea_bufpairs (dpu_engine_args dpu_defaults) \<le> ea_workq_depth (dpu_engine_args dpu_defaults)"
  "ea_bufpairs (client_engine_args client_defaults) \<le> ea_workq_depth (client_engine_args client_defaults)"
  "ea_src_size (dpu_engine_args dpu_defaults) = blob_size_flag dpu_defaults"
  "ea_dst_size (client_engine_args client_defaults) = blob_size_flag dpu_defaults"
  by (simp_all add: dpu_defaults_def client_defaults_def address_of_def rdma_config_of_def dpu_engine_args_def client_engine_args_def Let_def)

lemma default_pci_addresses:
  "fst (parse_pci_addr (Some (ea_pci (dpu_engine_args dpu_defaults)))) = DOCA_SUCCESS"
  "fst (parse_pci_addr (Some (ea_pci (client_engine_args client_defaults)))) = DOCA_SUCCESS"
  by (simp_all add: dpu_defaults_def client_defaults_def dpu_engine_args_def client_engine_args_def Let_def parse_pci_addr_def strtoul16_def
      hex_value_def is_space_def)

text \<open>Without an engine the program on the DPU is terminated; the one on the host returns, having made its offload client only.\<close>

lemma no_engine:
  assumes "\<And>a. create a = None"
  shows "dpu_main mem next create f = Inl Terminated" "\<exists>oc. client_main mem create g = [oc]"
  using assms by (simp_all add: dpu_main_def runDecompressClient_def client_main_def Let_def)

text \<open>A send buffer of the content server holds the largest segment and more than a mebibyte besides.\<close>

lemma content_buffer_large: "MAX_FILE_SIZE + 1024 * 1024 \<le> memSize (rdma_config_of (content_server_flags content_defaults))"
  unfolding MAX_FILE_SIZE_def by (simp add: content_defaults_def rdma_config_of_def)

section \<open>One loop for the command server\<close>

lemma with_conn_Inr: "with_conn s c k = Inr r \<longleftrightarrow> (\<exists>oc. conn_objs s c = Some oc \<and> k oc = Inr r)"
  by (auto simp: with_conn_def split: option.splits)

lemma srv_exec_loops: "srv_exec l f s = Inr s' \<Longrightarrow> threadPool s' = threadPool s"
  by (cases f) (auto simp: conn_established_def conn_destroyed_def TcpServer_removeConnectionInLoop_def with_conn_Inr Let_def res_simps)

lemma runInLoop_loops: "srv_runInLoop here l f s = Inr s' \<Longrightarrow> threadPool s' = threadPool s"
  by (auto simp: srv_runInLoop_def dest: srv_exec_loops split: if_splits)

lemma getNextLoop_loops: "getNextLoop b p = Inr (l, p') \<Longrightarrow> loops p' = loops p"
  by (auto simp: getNextLoop_def Let_def res_simps split: if_splits)

lemma newConnection_loops: "TcpServer_newConnection here sockfd c s = Inr s' \<Longrightarrow> loops (threadPool s') = loops (threadPool s)"
  by (auto simp: TcpServer_newConnection_def Let_def res_simps dest!: runInLoop_loops getNextLoop_loops split: if_splits)

lemma srv_step_loops: "srv_step s s' \<Longrightarrow> loops (threadPool s') = loops (threadPool s)"
proof (induction rule: srv_step.induct)
  case (accept s c out s')
  then show ?case by (auto simp: TcpServer_accept_def res_simps dest!: newConnection_loops split: option.splits)
next
  case (run s l f fs s')
  from srv_exec_loops [OF this(2)] show ?case by simp
next
  case (shut s c oc s')
  then show ?case by (auto simp: conn_shutdown_def with_conn_Inr split: if_splits)
next
  case (close s c oc s')
  then show ?case by (auto simp: conn_handleClose_def with_conn_Inr TcpServer_removeConnection_def res_simps dest!: runInLoop_loops)
qed

lemma srv_steps_loops: "srv_step\<^sup>*\<^sup>* s s' \<Longrightarrow> loops (threadPool s') = loops (threadPool s)"
  by (induction rule: rtranclp_induct) (auto dest: srv_step_loops)

lemma command_server_one_loop:
  assumes ip: "length ip \<le> 51" and new: "CommandServer_new l ip acc (command_thread_num_flag client_defaults) = Inr s1"
    and start: "TcpServer_start l num cb outs s1 = Inr s0" and run: "srv_step\<^sup>*\<^sup>* s0 s" and c: "conn_objs s c = Some oc"
  shows "sc_loop oc = srv_loop s"
proof -
  have init: "srv_init s0" using ip new start unfolding srv_init_def CommandServer_new_def by blast
  have inv: "srv_inv s" using srv.reachable_inv init run .
  have p1: "threadPool s1 = EventLoopThreadPool_setThreadNum 0 (EventLoopThreadPool_new l ''ClientCommandServer'')"
    using new by (auto simp: CommandServer_new_def TcpServer_setThreadNum_def TcpServer_new_def client_defaults_def res_simps)
  then have none: "loops (threadPool s1) = []" "numThreads (threadPool s1) = 0"
    by (simp_all add: EventLoopThreadPool_setThreadNum_def EventLoopThreadPool_new_def)
  have "loops (threadPool s0) = []"
    using start none
    by (auto simp: TcpServer_start_def EventLoopThreadPool_start_def Let_def res_simps dest!: runInLoop_loops split: if_splits)
  with srv_steps_loops [OF run] have "loops (threadPool s) = []" by simp
  moreover have "conn_placed s oc" "baseLoop (threadPool s) = srv_loop s" using inv c by (simp_all add: srv_inv_def conns_ok_def pool_ok_def)
  ultimately show ?thesis by (auto simp: conn_placed_def turn_loop_def)
qed

end
