(* ===== verification/Image_Ops.thy ===== *)
theory Image_Ops
  imports Offload_Client
begin

text \<open>
  The glue to the container library: \<^verbatim>\<open>src/src/image/image_ops.c\<close> and \<^verbatim>\<open>modules_config.c\<close>. The functions of the library are
  arguments; a pointer that the code compares with \<open>NULL\<close> is an option. The lemmas show which manifests and configurations
  the rest of the program gets to see, and which paths of a pull give their descriptor back.
\<close>

section \<open>Configuration\<close>

record modules_config =
  mc_host :: string
  mc_root_dir :: string
  mc_storage_driver :: string
  mc_graph :: string
  mc_state :: string
  mc_storage_opts :: "string list"
  mc_insecure_registry :: bool

definition init_modules_config :: modules_config where
  "init_modules_config = \<lparr>mc_host = ''docker.nju.edu.cn'', mc_root_dir = ''/tmp/images_temp'', mc_storage_driver = ''overlay2'',
     mc_graph = ''/tmp/images_temp'' @ ''/lib'', mc_state = ''/tmp/images_temp'' @ ''/run'',
     mc_storage_opts = [''overlay2.override_kernel_check=true''], mc_insecure_registry = True\<rparr>"

section \<open>Descriptors\<close>

record pull_descriptor =
  pd_insecure_registry :: bool
  pd_dest_image_name :: "string option"
  pd_host :: "string option"
  pd_image_name :: "string option"
  pd_name :: "string option"
  pd_tag :: "string option"
  pd_blobpath :: "string option"
  pd_tmp_dir :: "string option"
  pd_mutex_inited :: bool
  pd_cond_inited :: bool
  pd_protocol :: "string option"

definition pull_descriptor_zero :: pull_descriptor where
  "pull_descriptor_zero = \<lparr>pd_insecure_registry = False, pd_dest_image_name = None, pd_host = None, pd_image_name = None, pd_name = None,
     pd_tag = None, pd_blobpath = None, pd_tmp_dir = None, pd_mutex_inited = False, pd_cond_inited = False, pd_protocol = None\<rparr>"

text \<open>The functions of the library, and the outcomes of system calls for one descriptor.\<close>

record image_lib =
  valid_image_name :: "string \<Rightarrow> bool"
  normalize_image_name :: "string \<Rightarrow> string option"
  get_host_of :: "string option \<Rightarrow> string option"
  add_host_to :: "string \<Rightarrow> string option \<Rightarrow> string option"
  default_tag_of :: "string option \<Rightarrow> string option"
  split_image_name :: "string option \<Rightarrow> int \<times> string option \<times> string option \<times> string option"
  get_isulad_tmpdir :: "string \<Rightarrow> string option"

record image_env =
  mkdtemp_result :: "string \<Rightarrow> string option"
  chmod_result :: int
  mutex_init_result :: int
  cond_init_result :: int

definition PATH_MAX :: nat where "PATH_MAX = 4096"

text \<open>What is behind the first slash, or all; what is behind the last.\<close>

definition after_slash :: "string \<Rightarrow> string" where
  "after_slash s = (case dropWhile (\<lambda>c. c \<noteq> CHR ''/'') s of [] \<Rightarrow> s | _ # r \<Rightarrow> r)"

definition base_name :: "string \<Rightarrow> string" where
  "base_name s = rev (takeWhile (\<lambda>c. c \<noteq> CHR ''/'') (rev s))"

definition name_descriptor :: "image_lib \<Rightarrow> modules_config \<Rightarrow> string \<Rightarrow> pull_descriptor \<Rightarrow> int \<times> pull_descriptor" where
  "name_descriptor lib mc image_name desc =
     (let d1 = desc\<lparr>pd_insecure_registry := mc_insecure_registry mc, pd_dest_image_name := normalize_image_name lib image_name\<rparr>;
          d2 = d1\<lparr>pd_host := get_host_of lib (pd_dest_image_name d1)\<rparr>;
          d3 = (if pd_host d2 = None then d2\<lparr>pd_image_name := add_host_to lib (mc_host mc) (pd_dest_image_name d2)\<rparr>
                else d2\<lparr>pd_image_name := default_tag_of lib (pd_dest_image_name d2)\<rparr>)
      in case split_image_name lib (pd_image_name d3) of (ret, h, n, tg) \<Rightarrow> (ret, d3\<lparr>pd_host := h, pd_name := n, pd_tag := tg\<rparr>))"

definition blob_template :: "string \<Rightarrow> string \<Rightarrow> string" where
  "blob_template tmp name = tmp @ ''/'' @ after_slash name @ ''-XXXXXX''"

definition init_descriptor :: "image_lib \<Rightarrow> image_env \<Rightarrow> modules_config \<Rightarrow> string \<Rightarrow> pull_descriptor \<Rightarrow> int \<times> pull_descriptor" where
  "init_descriptor lib env mc image_name desc =
     (if \<not> valid_image_name lib image_name then (- 1, desc)
      else case name_descriptor lib mc image_name desc of (ret, d) \<Rightarrow>
        if ret \<noteq> 0 then (- 1, d)
        else (case (pd_host d, pd_name d, pd_tag d) of
          (Some _, Some name, Some _) \<Rightarrow>
            (case get_isulad_tmpdir lib (mc_root_dir mc) of
               None \<Rightarrow> (- 1, d)
             | Some tmp \<Rightarrow>
                 if PATH_MAX \<le> length (blob_template tmp name) then (- 1, d)
                 else (case mkdtemp_result env (blob_template tmp name) of
                   None \<Rightarrow> (- 1, d)
                 | Some path \<Rightarrow>
                     if chmod_result env = - 1 then (1, d)
                     else
                       let d1 = d\<lparr>pd_blobpath := Some path, pd_tmp_dir := Some (base_name path)\<rparr> in
                       if mutex_init_result env \<noteq> 0 then (- 1, d1)
                       else
                         let d2 = d1\<lparr>pd_mutex_inited := True\<rparr> in
                         if cond_init_result env \<noteq> 0 then (- 1, d2)
                         else (0, d2\<lparr>pd_cond_inited := True, pd_protocol := Some ''http''\<rparr>)))
        | _ \<Rightarrow> (- 1, d)))"

section \<open>Pulling\<close>

definition image_fetch :: "(pull_descriptor \<Rightarrow> int) \<Rightarrow> (pull_descriptor \<Rightarrow> int) \<Rightarrow> pull_descriptor \<Rightarrow> int" where
  "image_fetch fetch_manifest fetch_all desc =
     (if fetch_manifest desc \<noteq> 0 then - 1 else if fetch_all desc \<noteq> 0 then - 1 else fetch_all desc)"

text \<open>The result, and whether the descriptor was freed. A failed allocation is only logged.\<close>

definition image_pull ::
  "image_lib \<Rightarrow> image_env \<Rightarrow> (pull_descriptor \<Rightarrow> int) \<Rightarrow> (pull_descriptor \<Rightarrow> int) \<Rightarrow> modules_config \<Rightarrow> bool \<Rightarrow> string \<Rightarrow> (int \<times> bool) res" where
  "image_pull lib env fetch_manifest fetch_all mc allocated image_name =
     (if \<not> allocated then (if valid_image_name lib image_name then Inl Undefined_behaviour else Inr (- 1, False))
      else case init_descriptor lib env mc image_name pull_descriptor_zero of (ret, desc) \<Rightarrow>
        if ret \<noteq> 0 then Inr (- 1, False)
        else if image_fetch fetch_manifest fetch_all desc \<noteq> 0 then Inr (- 1, False)
        else Inr (image_fetch fetch_manifest fetch_all desc, True))"

section \<open>Storage\<close>

definition format_driver_name :: "string option \<Rightarrow> string option" where
  "format_driver_name driver = (case driver of None \<Rightarrow> None
     | Some d \<Rightarrow> if d = ''overlay'' \<or> d = ''overlay2'' then Some ''overlay'' else Some d)"

record storage_opts =
  so_driver_name :: string
  so_storage_root :: string
  so_storage_run_root :: string
  so_driver_opts :: "string list"

text \<open>
  The result and how often the options were freed; \<open>join\<close> is \<open>util_path_join\<close> with the name of the directory below, \<open>dup\<close> copies the array, and
  \<open>storage_init\<close> is the library's initialisation.
\<close>

definition storage_module_init_helper ::
  "bool \<Rightarrow> (string \<Rightarrow> string option) \<Rightarrow> (string list \<Rightarrow> string list option) \<Rightarrow> (storage_opts \<Rightarrow> int) \<Rightarrow> modules_config \<Rightarrow> int \<times> nat" where
  "storage_module_init_helper allocated join dup storage_init mc =
     (if \<not> allocated then (- 1, 1)
      else case format_driver_name (Some (mc_storage_driver mc)) of None \<Rightarrow> (- 1, 1)
      | Some driver \<Rightarrow> (case join (mc_graph mc) of None \<Rightarrow> (- 1, 1)
      | Some root \<Rightarrow> (case join (mc_state mc) of None \<Rightarrow> (- 1, 1)
      | Some run \<Rightarrow> (case dup (mc_storage_opts mc) of None \<Rightarrow> (- 1, 1)
      | Some opts \<Rightarrow>
          (if storage_init \<lparr>so_driver_name = driver, so_storage_root = root, so_storage_run_root = run, so_driver_opts = opts\<rparr> \<noteq> 0
           then (- 1, 1) else (0, 1))))))"

definition modules_init :: "int \<Rightarrow> int \<Rightarrow> int" where
  "modules_init registry_init_result storage_result =
     (if registry_init_result \<noteq> 0 then - 1 else if storage_result \<noteq> 0 then - 1 else storage_result)"

definition image_init :: "int \<Rightarrow> (modules_config \<Rightarrow> int \<times> nat) \<Rightarrow> int" where
  "image_init registry_init_result storage = modules_init registry_init_result (fst (storage init_modules_config))"

section \<open>Manifests and configurations\<close>

definition MAX_LAYER_NUM :: nat where "MAX_LAYER_NUM = 125"

record manifest_layer =
  ml_media_type :: string
  ml_digest :: string

record registry_manifest_schema2 =
  rm_layers :: "manifest_layer list"

text \<open>\<open>media\<close> are the three media types of compressed layers; the parser of the library may be given \<open>NULL\<close>, which is only logged.\<close>

fun layers_supported :: "string list \<Rightarrow> manifest_layer list \<Rightarrow> bool" where
  "layers_supported media [] = True"
| "layers_supported media (l # ls) = (if ml_media_type l \<notin> set media then False else layers_supported media ls)"

definition oci_parse_manifest_schema2 ::
  "string list \<Rightarrow> (byte list option \<Rightarrow> registry_manifest_schema2 option) \<Rightarrow> byte list option \<Rightarrow> registry_manifest_schema2 option" where
  "oci_parse_manifest_schema2 media parse jsondata =
     (case parse jsondata of None \<Rightarrow> None
      | Some m \<Rightarrow> if MAX_LAYER_NUM < length (rm_layers m) then None
          else if \<not> layers_supported media (rm_layers m) then None else Some m)"

record oci_image_spec =
  oi_diff_ids :: "string list option"

definition parse_oci_config :: "(byte list \<Rightarrow> oci_image_spec option) \<Rightarrow> byte list option \<Rightarrow> oci_image_spec option" where
  "parse_oci_config parse jsondata =
     (case jsondata of None \<Rightarrow> None
      | Some bs \<Rightarrow> (case parse bs of None \<Rightarrow> None
          | Some c \<Rightarrow> (case oi_diff_ids c of None \<Rightarrow> None | Some ds \<Rightarrow> if length ds = 0 then None else Some c)))"

text \<open>The digests are what the offload client uses of a manifest.\<close>

definition manifest_digests :: "registry_manifest_schema2 \<Rightarrow> OciManifest" where
  "manifest_digests m = \<lparr>layer_digests = map ml_digest (rm_layers m)\<rparr>"

section \<open>What is accepted\<close>

lemma layers_supported_iff: "layers_supported media ls \<longleftrightarrow> (\<forall>l \<in> set ls. ml_media_type l \<in> set media)"
  by (induction ls) auto

lemma manifest_accepted_iff:
  "oci_parse_manifest_schema2 media parse json = Some m \<longleftrightarrow>
     parse json = Some m \<and> length (rm_layers m) \<le> 125 \<and> (\<forall>l \<in> set (rm_layers m). ml_media_type l \<in> set media)"
  by (auto simp: oci_parse_manifest_schema2_def MAX_LAYER_NUM_def layers_supported_iff split: option.split)

lemma config_accepted_iff:
  "parse_oci_config parse json = Some c \<longleftrightarrow> (\<exists>bs d ds. json = Some bs \<and> parse bs = Some c \<and> oi_diff_ids c = Some (d # ds))"
  by (auto simp: parse_oci_config_def length_0_conv neq_Nil_conv split: option.splits)

text \<open>So no image of the offload client has more layers than the container library allows.\<close>

lemma loaded_metadata_small:
  assumes lib: "parse_manifest lib = (\<lambda>bs. map_option manifest_digests (oci_parse_manifest_schema2 media parse (Some bs)))"
    and old: "\<forall>img md. metadatas s img = Some md \<longrightarrow> length (layer_digests (im_manifest md)) \<le> 125"
    and load: "loadMetadata lib env s img = (ok, s')"
  shows "\<forall>img md. metadatas s' img = Some md \<longrightarrow> length (layer_digests (im_manifest md)) \<le> 125"
proof -
  have "length (layer_digests m) \<le> 125" if "from_file (parse_manifest lib) (metadata_files env) path = Some m" for path m
    using that by (auto simp: lib from_file_def manifest_accepted_iff manifest_digests_def split: option.splits)
  with old load show ?thesis by (auto simp: loadMetadata_def split: if_splits option.splits)
qed

section \<open>Pulls\<close>

lemma init_descriptor_complete:
  assumes "init_descriptor lib env mc name d0 = (0, d)"
  shows "pd_host d \<noteq> None" "pd_name d \<noteq> None" "pd_tag d \<noteq> None" "pd_blobpath d \<noteq> None" "pd_tmp_dir d = map_option base_name (pd_blobpath d)"
    "pd_mutex_inited d" "pd_cond_inited d" "pd_protocol d = Some ''http''"
  using assms by (auto simp: init_descriptor_def Let_def split: if_splits prod.splits option.splits)

text \<open>Only what has been initialised is marked so, on every path.\<close>

lemma init_descriptor_marks:
  assumes "init_descriptor lib env mc name pull_descriptor_zero = (ret, d)"
  shows "pd_cond_inited d \<longrightarrow> pd_mutex_inited d \<and> cond_init_result env = 0" "pd_mutex_inited d \<longrightarrow> mutex_init_result env = 0 \<and> pd_blobpath d \<noteq> None"
  using assms
  by (auto simp: init_descriptor_def name_descriptor_def pull_descriptor_zero_def Let_def split: if_splits prod.splits option.splits)

text \<open>A pull gives its descriptor back exactly when it succeeds: every failing path loses it.\<close>

lemma image_pull_frees:
  assumes "image_pull lib env fetch_manifest fetch_all mc allocated name = Inr (ret, freed)"
  shows "freed \<longleftrightarrow> ret = 0"
  using assms by (auto simp: image_pull_def image_fetch_def split: if_splits prod.splits)

lemma image_pull_out_of_memory:
  "valid_image_name lib name \<Longrightarrow> image_pull lib env fetch_manifest fetch_all mc False name = Inl Undefined_behaviour"
  by (simp add: image_pull_def)

lemma storage_options_freed_once: "snd (storage_module_init_helper allocated join dup storage_init mc) = 1"
  by (auto simp: storage_module_init_helper_def split: option.split)

lemma storage_driver_overlay:
  "fst (storage_module_init_helper True (\<lambda>p. Some (f p)) Some (\<lambda>so. if so_driver_name so = ''overlay'' then 0 else 1) init_modules_config) = 0"
  by (simp add: storage_module_init_helper_def format_driver_name_def init_modules_config_def)

end
