(* ===== verification/Spec2Isabelle.thy ===== *)
theory Spec2Isabelle
  imports Msg_Frame Timer_Queue Rdma_Handshake Compress_Engine Blob_Pool Content_System Decompress_Pair Untar_Engine
    Offload_Pair Tcp_Connector Pull_Pipeline Tcp_Server Tcp_Client Time_Text Program_Config Program_Main Image_Ops
begin

text \<open>
  Poby pulls container images with the help of a SmartNIC. A client on the host hands the layers of an
  image to the DPU; the DPU fetches the segments of each layer from a content server by RDMA, lets its compress
  engine inflate them into memory of the host, and the host unpacks them in order with \<^verbatim>\<open>tar\<close>. This
  development models the C++ sources under \<^verbatim>\<open>src/src\<close> and \<^verbatim>\<open>src/tool\<close>, from the byte buffers to the composed
  protocols, and proves that what is pulled is what the registry holds.

  \<^bold>\<open>How the code is modelled.\<close> A class is a record with the members of the source, an enumeration a datatype, a
  method a definition named \<open>Class_method\<close>. A method that can end the process returns \<open>fault + 'a\<close>: a failed \<open>assert\<close>
  is \<open>Assert_failed\<close>, an access the language leaves undefined \<open>Undefined_behaviour\<close>, \<open>std::terminate\<close> is \<open>Terminated\<close>.
  Pointers to objects that others hold are numbers in a store. \<open>size_t\<close> arithmetic wraps in \<open>size_add\<close> and \<open>size_sub\<close>,
  other integers are words or are cut where the code cuts them. Outcomes of system calls and of the DOCA,
  verbs, protobuf and container libraries are arguments of the definitions; what the code relies on is a named
  hypothesis, and every property with hypotheses has a witness. Runs of several parties are inductive
  step relations whose steps are single callbacks or events, so every interleaving is covered.

  \<^bold>\<open>Base.\<close> \<open>Poby_Prelude\<close> has the outcome type, sizes, byte images, the contracts \<open>id_pool\<close> (a pool of numbered buffers) and
  \<open>invariant_system\<close> (a transition system with an invariant), and shared list lemmas. \<open>C_Text\<close> has decimal printing and
  reading as \<open>snprintf\<close>, \<open>std::to_string\<close> and \<open>atoi\<close> do them.

  \<^bold>\<open>Network\<close> (\<^verbatim>\<open>src/src/network\<close>, \<^verbatim>\<open>src/src/utils\<close>).
  \<^item> \<open>Net_Buffer\<close>: \<^verbatim>\<open>tcp/Buffer\<close>. The buffer refines a queue of bytes; no operation leaves the vector; integers are read
    back in network order.
  \<^item> \<open>Msg_Frame\<close>: \<^verbatim>\<open>MsgFrame.h\<close>. Framed messages come out whole, once and in order however TCP cuts them; what corrupt
    lengths do.
  \<^item> \<open>Event_Poll\<close>, \<open>Event_Loop\<close>, \<open>Timer_Queue\<close>: \<^verbatim>\<open>Channel\<close>, \<^verbatim>\<open>Poller\<close>, \<^verbatim>\<open>EventLoop\<close>, \<^verbatim>\<open>TimerQueue\<close>. Channels and
    the poller agree, no queued functor waits without a wake-up, alarms run the due timers in order.
  \<^item> \<open>Tcp_Connection\<close>, \<open>Tcp_Connector\<close>: \<^verbatim>\<open>tcp/TcpConnection\<close>, \<^verbatim>\<open>tcp/TcpConnector\<close>. Bytes accepted are sent exactly and
    in order, shutdown waits for them; a connector loses no socket and goes on trying.
  \<^item> \<open>Net_Address\<close>: \<^verbatim>\<open>InetAddress\<close> and the functions of \<^verbatim>\<open>tcp/SocketsOps.cc\<close> that look into addresses. The text of an address is
    read back; the order of addresses tells IPv4 addresses apart, IPv6 addresses not always.
  \<^item> \<open>Loop_Threads\<close>: \<^verbatim>\<open>CountDownLatch\<close>, \<^verbatim>\<open>Thread\<close>, \<^verbatim>\<open>EventLoopThread\<close>, \<^verbatim>\<open>EventLoopThreadPool\<close>. The start of a loop, with mutex and
    condition, against the new thread; a pool hands out its loops in turn.
  \<^item> \<open>Tcp_Server\<close>, \<open>Tcp_Client\<close>: \<^verbatim>\<open>tcp/Acceptor\<close>, \<^verbatim>\<open>tcp/TcpServer\<close>, \<^verbatim>\<open>tcp/TcpClient\<close>. Connections are established, removed and
    destroyed in this order, each step in its thread; the client keeps what its connector relies on.
  \<^item> \<open>Time_Text\<close>: the text of \<^verbatim>\<open>Timestamp\<close>.
  \<^item> \<open>Rdma_Device\<close>, \<open>Rdma_Connection\<close>, \<open>Rdma_Handshake\<close>: \<^verbatim>\<open>rdma/DevContext\<close>, \<^verbatim>\<open>rdma/RdmaConnection\<close>, and the
    exchange of queue pair parameters in \<^verbatim>\<open>RdmaConnector\<close>, \<^verbatim>\<open>RdmaListener\<close>, \<^verbatim>\<open>RdmaClient\<close>, \<^verbatim>\<open>RdmaServer\<close>. Completions are not lost,
    buffers have one holder, every receive buffer is posted again.

  \<^bold>\<open>DOCA\<close> (\<^verbatim>\<open>src/src/doca\<close>). \<open>Doca_Core\<close> models devices, buffers and the core with its clean-up paths,
  \<open>Compress_Engine\<close> the engine that runs one job at a time. \<open>Blob_Pool\<close> is \<^verbatim>\<open>utils/blob_pool.h\<close>.
  \<open>Program_Config\<close> has the parameters of \<^verbatim>\<open>params.cc\<close>: which are refused, and which overrun their array.

  \<^bold>\<open>Services.\<close> \<open>Rdma_Rpc\<close> and \<open>Rdma_Respond\<close> have what all services share: messages in send buffers, and a card that
  delivers them in order.
  \<^item> \<open>Content_Fetch\<close>, \<open>Content_Server\<close>, \<open>Content_System\<close>: \<^verbatim>\<open>dpu/content_fetcher\<close> and \<^verbatim>\<open>host/server/content_server.cc\<close>. Segments
    arrive in order with the bytes of their files; the server never overwrites an answer on its way.
  \<^item> \<open>Decompress_Client\<close>, \<open>Decompress_Order\<close>, \<open>Decompress_Server\<close>, \<open>Decompress_Pair\<close>: \<^verbatim>\<open>dpu/decompress_client_epoll\<close>,
    \<^verbatim>\<open>host/client/decompress_server_epoll\<close>. The segments handed to the untar engine are those submitted on the DPU, in order,
    inflated; buffer pairs have one user at a time.
  \<^item> \<open>Untar_Engine\<close>: \<^verbatim>\<open>host/client/untar_engine\<close>, for every interleaving of the event loop and the tasks of the pool.
  \<^item> \<open>Offload_Client\<close>, \<open>Offload_Server\<close>, \<open>Offload_Pair\<close>, \<open>Host_Metadata\<close>: \<^verbatim>\<open>host/client/offload_client_epoll\<close>, \<^verbatim>\<open>command_server\<close>,
    \<^verbatim>\<open>metadata\<close>, \<^verbatim>\<open>dpu/offload_server_epoll\<close>. A pull is answered once, when all layers of its image have been unpacked.
  \<^item> \<open>Image_Compress\<close>, \<open>Image_Registry\<close>: \<^verbatim>\<open>src/tool/image_compress.cc\<close>. The tool writes the files of a reference
    definition, and the content server reads them back to the layers.
  \<^item> \<open>Pull_Pipeline\<close> joins tool, content system, decompress pair and untar engine: what \<open>tar\<close> gets is the layer the tool
    was given.
  \<^item> \<open>Command_Client\<close>, \<open>Program_Main\<close>: \<^verbatim>\<open>host/client/client_cli.cc\<close>, \<^verbatim>\<open>client_main.cc\<close>, \<^verbatim>\<open>dpu/dpu_main.cc\<close>. The request of the user reaches the
    command server, the client ends with the first answer of success; the default flags of the programs fit together;
    the command server, a \<open>Tcp_Server\<close> without threads of its own, serves all its connections in one loop.
  \<^item> \<open>Image_Ops\<close>: \<^verbatim>\<open>image/image_ops.c\<close>, \<^verbatim>\<open>image/modules_config.c\<close>. Which manifests and configurations are accepted, and what a failing
    pull leaves behind.

  \<^bold>\<open>Interfaces.\<close> The locales are \<open>id_pool\<close> and \<open>invariant_system\<close> of the prelude, \<open>byte_queue\<close> of \<open>Net_Buffer\<close> with its extension
  \<open>framed_reader\<close> of \<open>Msg_Frame\<close>, and \<open>responder\<close> of \<open>Rdma_Respond\<close>, which the decompress and the offload server both
  interpret; the theory of each provider interprets them on its own definitions.

  \<^bold>\<open>Bounds.\<close> No proof bounds the length of a run or the number of parties' messages. Loops are structural or have a
  measure; \<open>ic_run\<close> counts completed jobs and the number that ends the work is given. Hypotheses on sizes (frames that fit a
  buffer, files below \<open>2 ^ 31\<close> bytes) are stated with each property.

  \<^bold>\<open>Not modelled.\<close> Wrappers of one system call (\<^verbatim>\<open>tcp/Socket.cc\<close> and most of \<^verbatim>\<open>tcp/SocketsOps.cc\<close>), whose outcomes are arguments of the
  definitions that use them; the parsing of flags, logging, and the stack traces and \<open>sleepUsec\<close> of
  \<^verbatim>\<open>CurrentThread\<close>, which nothing uses. Time measurements that are only logged are left out everywhere. \<open>Tcp_Server\<close> and \<open>Tcp_Client\<close> see of a connection its state only, and
  \<open>Tcp_Connection\<close> of its owner only the callbacks; their composition is by the order of these callbacks, not by one state.
\<close>

end
